(* ===== verification/Prelude.thy ===== *)
theory Prelude
  imports Main "HOL-Library.Word"
begin

text \<open>
  Shared material of the development: the machine integer types the C sources use, the ways a
  C computation can fail to return normally, sequencing of such computations, and generic facts
  on lists, modular indices and words that several components need.

  A fallible C function is modelled with result type \<open>fault + 'a\<close>. \<open>Inl\<close> is everything that is not
  a normal return: \<open>exit\<close>, a failed \<open>assert\<close>, a \<open>longjmp\<close>, and the accesses whose behaviour the C
  standard leaves undefined (an index outside its allocation, a NULL dereference, a read of a
  variable that was never assigned). The last group is written out at each access the code does
  not guard, so that a theorem that a function returns \<open>Inr\<close> is also a memory-safety theorem.
\<close>

section \<open>Types\<close>

type_synonym u8 = "8 word"
type_synonym u16 = "16 word"
type_synonym u32 = "32 word"
type_synonym u64 = "64 word"

datatype fault =
    Exit_code int        \<comment> \<open>\<open>exit(n)\<close>\<close>
  | Err_code int         \<comment> \<open>the error value an \<open>int\<close> function returns\<close>
  | Assert_fail          \<comment> \<open>\<open>assert\<close> failed: \<open>abort()\<close>\<close>
  | Longjmp_code int     \<comment> \<open>\<open>longjmp(buf, n)\<close>\<close>
  | Out_of_bounds        \<comment> \<open>access outside an allocation\<close>
  | Null_deref
  | Uninit_read
  | Bad_conversion       \<comment> \<open>a floating value outside the range of its integer type\<close>
  | Int_overflow         \<comment> \<open>a result outside the range of \<open>int\<close>\<close>
  | Bad_free             \<comment> \<open>a handle released twice\<close>
  | Diverges             \<comment> \<open>a polling loop whose condition can never come true\<close>

type_synonym 'a res = "fault + 'a"

section \<open>Sequencing\<close>

definition res_bind :: "'a res \<Rightarrow> ('a \<Rightarrow> 'b res) \<Rightarrow> 'b res" where
  "res_bind m f = (case m of Inl e \<Rightarrow> Inl e | Inr x \<Rightarrow> f x)"

lemma res_bind_simps [simp]:
  "res_bind (Inl e) f = Inl e"
  "res_bind (Inr x) f = f x"
  by (simp_all add: res_bind_def)

lemma res_bind_eq_Inr:
  "res_bind m f = Inr y \<longleftrightarrow> (\<exists>x. m = Inr x \<and> f x = Inr y)"
  by (cases m) auto

text \<open>Guarded array access: a C array is a list, its length the number of allocated elements.\<close>

definition arr_get :: "'a list \<Rightarrow> nat \<Rightarrow> 'a res" where
  "arr_get xs i = (if i < length xs then Inr (xs ! i) else Inl Out_of_bounds)"

definition arr_set :: "'a list \<Rightarrow> nat \<Rightarrow> 'a \<Rightarrow> 'a list res" where
  "arr_set xs i v = (if i < length xs then Inr (xs[i := v]) else Inl Out_of_bounds)"

lemma arr_get_in [simp]: "i < length xs \<Longrightarrow> arr_get xs i = Inr (xs ! i)"
  by (simp add: arr_get_def)

lemma arr_get_out [simp]: "length xs \<le> i \<Longrightarrow> arr_get xs i = Inl Out_of_bounds"
  by (simp add: arr_get_def)

lemma arr_set_in [simp]: "i < length xs \<Longrightarrow> arr_set xs i v = Inr (xs[i := v])"
  by (simp add: arr_set_def)

lemma arr_set_out [simp]: "length xs \<le> i \<Longrightarrow> arr_set xs i v = Inl Out_of_bounds"
  by (simp add: arr_set_def)

text \<open>\<open>memcpy(buf + off, src, length src)\<close> and the \<open>n\<close> bytes read at an offset.\<close>

definition mem_write :: "'a list \<Rightarrow> nat \<Rightarrow> 'a list \<Rightarrow> 'a list res" where
  "mem_write buf off src =
     (if off + length src \<le> length buf
      then Inr (take off buf @ src @ drop (off + length src) buf) else Inl Out_of_bounds)"

definition mem_read :: "'a list \<Rightarrow> nat \<Rightarrow> nat \<Rightarrow> 'a list res" where
  "mem_read buf off n =
     (if off + n \<le> length buf then Inr (take n (drop off buf)) else Inl Out_of_bounds)"

definition cells :: "nat \<Rightarrow> nat \<Rightarrow> 'a list \<Rightarrow> 'a list list" where
  "cells sz n buf = map (\<lambda>i. take sz (drop (i * sz) buf)) [0..<n]"

lemma length_cells [simp]: "length (cells sz n buf) = n"
  by (simp add: cells_def)

lemma nth_cells [simp]: "i < n \<Longrightarrow> cells sz n buf ! i = take sz (drop (i * sz) buf)"
  by (simp add: cells_def)

lemma mem_read_cell:
  assumes "length buf = n * sz" "i < n"
  shows "mem_read buf (i * sz) sz = Inr (cells sz n buf ! i)"
proof -
  have "Suc i * sz \<le> n * sz" using assms(2) by (intro mult_le_mono1) simp
  then show ?thesis using assms by (simp add: mem_read_def)
qed

lemma mem_write_cell:
  assumes "length buf = n * sz" "i < n" "length src = sz"
  shows "\<exists>buf'. mem_write buf (i * sz) src = Inr buf' \<and> length buf' = n * sz \<and>
    cells sz n buf' = (cells sz n buf)[i := src]"
proof -
  let ?b = "take (i * sz) buf @ src @ drop (i * sz + sz) buf"
  have le: "Suc i * sz \<le> n * sz" using assms(2) by (intro mult_le_mono1) simp
  have "take sz (drop (j * sz) ?b) = (if j = i then src else take sz (drop (j * sz) buf))" if "j < n" for j
  proof (cases "j = i")
    case True
    then show ?thesis using le assms by simp
  next
    case False
    show ?thesis
    proof (cases "j < i")
      case True
      then have "Suc j * sz \<le> i * sz" by (intro mult_le_mono1) simp
      then have "take sz (drop (j * sz) ?b) = take sz (drop (j * sz) (take (i * sz) buf))"
        using le assms by simp
      also have "\<dots> = take sz (drop (j * sz) buf)"
        using \<open>Suc j * sz \<le> i * sz\<close> by (simp add: drop_take)
      finally show ?thesis using False by simp
    next
      case False2: False
      with False have "Suc i * sz \<le> j * sz" by (intro mult_le_mono1) simp
      then obtain d where d: "j * sz = i * sz + sz + d" by (metis le_Suc_ex mult_Suc add.commute)
      then show ?thesis using le assms False by (simp add: add.commute)
    qed
  qed
  then have "cells sz n ?b = (cells sz n buf)[i := src]"
    by (intro nth_equalityI) (simp_all add: nth_list_update)
  then show ?thesis using le assms by (simp add: mem_write_def)
qed

section \<open>Hint collections\<close>

named_theorems ring_arith \<open>indices of circular buffers\<close>
named_theorems macro_defs \<open>the values of the program's macros\<close>

section \<open>Circular indices\<close>

text \<open>
  The two circular buffers of the pacer step an index by one modulo the buffer size, and the
  pacer's round-robin scan does the same over the flow table. The lemmas say what a window of
  consecutive circular positions looks like.
\<close>

lemma mod_Suc_less [ring_arith]: "0 < n \<Longrightarrow> Suc i mod n < (n::nat)"
  by simp

lemma mod_add_inj:
  assumes "(i + j) mod n = (i + k) mod n" "j < n" "k < (n::nat)"
  shows "j = k"
proof -
  have *: "j = k" if "(i + j) mod n = (i + k) mod n" "j < n" "k < n" "k \<le> j" for j k
  proof -
    from that(4) have "i + k \<le> i + j" by simp
    with that(1) obtain q where "i + j = i + k + n * q" by (rule mod_eq_nat1E)
    then have "j = k + n * q" by simp
    with that(2) show ?thesis by (cases q) auto
  qed
  show ?thesis using *[of j k] *[of k j] assms by (cases "k \<le> j") auto
qed

lemma mod_add_neq:
  assumes "(i::nat) < n" "k < n" "0 < k"
  shows "(i + k) mod n \<noteq> i"
  using mod_add_inj [of i k n 0] assms by auto

definition ring_slice :: "'a list \<Rightarrow> nat \<Rightarrow> nat \<Rightarrow> 'a list" where
  "ring_slice xs i k = map (\<lambda>j. xs ! ((i + j) mod length xs)) [0..<k]"

lemma length_ring_slice [simp]: "length (ring_slice xs i k) = k"
  by (simp add: ring_slice_def)

lemma ring_slice_0 [simp]: "ring_slice xs i 0 = []"
  by (simp add: ring_slice_def)

lemma ring_slice_append:
  "ring_slice xs i (Suc k) = ring_slice xs i k @ [xs ! ((i + k) mod length xs)]"
  by (simp add: ring_slice_def)

lemma ring_slice_update:
  assumes "i < length xs" "k < length xs"
  shows "ring_slice (xs[(i + k) mod length xs := v]) i k = ring_slice xs i k"
proof -
  have "xs[(i + k) mod length xs := v] ! ((i + j) mod length xs) = xs ! ((i + j) mod length xs)"
    if "j < k" for j
  proof -
    have "(i + j) mod length xs \<noteq> (i + k) mod length xs"
      using mod_add_inj [of i j "length xs" k] that assms by auto
    then show ?thesis by simp
  qed
  then show ?thesis by (simp add: ring_slice_def)
qed

lemma ring_slice_Cons:
  assumes "i < length xs"
  shows "ring_slice xs i (Suc k) = xs ! i # ring_slice xs (Suc i mod length xs) k"
proof -
  have "[0..<Suc k] = 0 # map Suc [0..<k]" by (simp add: upt_conv_Cons map_Suc_upt)
  moreover have "(Suc i mod length xs + j) mod length xs = (i + Suc j) mod length xs" for j
    by (simp add: mod_add_left_eq)
  ultimately show ?thesis using assms by (simp add: ring_slice_def o_def)
qed

section \<open>First occurrence\<close>

text \<open>The loop \<open>for (i = 0; i < n; i++) if (P(xs[i])) break;\<close>: the index it stops at.\<close>

fun first_from :: "('a \<Rightarrow> bool) \<Rightarrow> nat \<Rightarrow> 'a list \<Rightarrow> nat option" where
  "first_from P i [] = None"
| "first_from P i (x # xs) = (if P x then Some i else first_from P (Suc i) xs)"

lemma first_from_Some:
  "first_from P i xs = Some k \<Longrightarrow>
    i \<le> k \<and> k - i < length xs \<and> P (xs ! (k - i)) \<and> (\<forall>j<k - i. \<not> P (xs ! j))"
proof (induction xs arbitrary: i)
  case Nil
  then show ?case by simp
next
  case (Cons x xs)
  show ?case
  proof (cases "P x")
    case True
    with Cons.prems show ?thesis by simp
  next
    case False
    with Cons.prems have "first_from P (Suc i) xs = Some k" by simp
    note IH = Cons.IH [OF this]
    then obtain m where m: "k = i + Suc m" by (metis add_Suc_shift le_Suc_ex conjunct1)
    with IH False show ?thesis by (auto simp: less_Suc_eq_0_disj)
  qed
qed

lemma first_from_None: "first_from P i xs = None \<longleftrightarrow> (\<forall>x\<in>set xs. \<not> P x)"
  by (induction xs arbitrary: i) auto

lemma first_0_Some:
  assumes "first_from P 0 xs = Some k"
  shows "k < length xs" "P (xs ! k)" "\<And>j. j < k \<Longrightarrow> \<not> P (xs ! j)"
  using first_from_Some [OF assms] by auto

section \<open>Words\<close>

lemma unat_ucast_up:
  fixes w :: "'a::len word"
  assumes "LENGTH('a) \<le> LENGTH('b::len)"
  shows "unat (ucast w :: 'b word) = unat w"
proof -
  have "unat w < 2 ^ LENGTH('b)"
    using assms by (intro less_le_trans [OF unsigned_less power_increasing]) simp_all
  then show ?thesis by (simp add: unsigned_ucast_eq take_bit_nat_eq_self)
qed

lemma unat_ucast_32_64 [simp]: "unat (ucast (w :: u32) :: u64) = unat w"
  by (rule unat_ucast_up) simp

lemma unat_ucast_16_32 [simp]: "unat (ucast (w :: u16) :: u32) = unat w"
  by (rule unat_ucast_up) simp

lemma unat_word_of_int_small:
  "\<lbrakk>0 \<le> x; x < 2 ^ LENGTH('a)\<rbrakk> \<Longrightarrow> unat (word_of_int x :: 'a::len word) = nat x"
  by (simp add: uint_word_of_int take_bit_int_eq_self flip: nat_uint_eq)

lemma sint_word_of_int_small:
  "\<lbrakk>- (2 ^ (LENGTH('a) - 1)) \<le> x; x < 2 ^ (LENGTH('a) - 1)\<rbrakk> \<Longrightarrow> sint (word_of_int x :: 'a::len word) = x"
  by (simp add: signed_of_int signed_take_bit_int_eq_self)

lemma unat_of_nat_small: "k < 2 ^ LENGTH('a) \<Longrightarrow> unat (of_nat k :: 'a::len word) = k"
  using unat_word_of_int_small [of "int k", where 'a = 'a] by (simp flip: of_nat_power)

end
