(* ===== verification/Ring_Queue.thy ===== *)
theory Ring_Queue
  imports Prelude
begin

text \<open>
  The bounded queue of the pacer (\<open>rdma_pacer/queue.c\<close>) and the circular logging buffer of
  \<open>rdma_pacer/pacer.c\<close>. The interface both promise to a client is the locale \<open>bounded_fifo\<close>; the
  sliding window that \<open>CMH_Update\<close> keeps is a client of it and is verified inside the locale.
\<close>

section \<open>The interface of a bounded first-in first-out buffer\<close>

text \<open>
  What a client sees of a run of operations: the popped elements, or the fault that ended the run.
  The abstract machine works on a list of at most \<open>n\<close> elements.
\<close>

datatype 'a fifo_op = Push 'a | Pop

fun spec_run :: "fault \<Rightarrow> fault \<Rightarrow> nat \<Rightarrow> 'a list \<Rightarrow> 'a fifo_op list \<Rightarrow> ('a list \<times> 'a list) res" where
  "spec_run ff ef n xs [] = Inr ([], xs)"
| "spec_run ff ef n xs (Push a # ops) =
     (if length xs = n then Inl ff else spec_run ff ef n (xs @ [a]) ops)"
| "spec_run ff ef n xs (Pop # ops) =
     (case xs of [] \<Rightarrow> Inl ef
      | x # xs' \<Rightarrow> res_bind (spec_run ff ef n xs' ops) (\<lambda>(out, ys). Inr (x # out, ys)))"

fun op_arg_ok :: "('a \<Rightarrow> bool) \<Rightarrow> 'a fifo_op \<Rightarrow> bool" where
  "op_arg_ok P (Push a) = P a"
| "op_arg_ok P Pop = True"

locale bounded_fifo =
  fixes push :: "'q \<Rightarrow> 'a \<Rightarrow> 'q res"
    and pop :: "'q \<Rightarrow> ('a \<times> 'q) res"
    and items :: "'q \<Rightarrow> 'a list"
    and invar :: "nat \<Rightarrow> 'q \<Rightarrow> bool"
    and ok :: "'a \<Rightarrow> bool"
    and full_fault :: fault
    and empty_fault :: fault
  assumes push_room: "\<lbrakk>invar n q; ok a; length (items q) < n\<rbrakk> \<Longrightarrow>
      \<exists>q'. push q a = Inr q' \<and> invar n q' \<and> items q' = items q @ [a]"
    and push_full: "\<lbrakk>invar n q; length (items q) = n\<rbrakk> \<Longrightarrow> push q a = Inl full_fault"
    and pop_some: "\<lbrakk>invar n q; items q = a # as\<rbrakk> \<Longrightarrow>
      \<exists>q'. pop q = Inr (a, q') \<and> invar n q' \<and> items q' = as"
    and pop_none: "\<lbrakk>invar n q; items q = []\<rbrakk> \<Longrightarrow> pop q = Inl empty_fault"
    and capacity: "invar n q \<Longrightarrow> length (items q) \<le> n"
begin

definition slide :: "nat \<Rightarrow> 'q \<Rightarrow> 'a \<Rightarrow> 'q res" where
  "slide n q a = (if length (items q) < n then push q a
     else res_bind (pop q) (\<lambda>(b, q'). push q' a))"

fun slide_all :: "nat \<Rightarrow> 'q \<Rightarrow> 'a list \<Rightarrow> 'q res" where
  "slide_all n q [] = Inr q"
| "slide_all n q (a # as) = res_bind (slide n q a) (\<lambda>q'. slide_all n q' as)"

fun run :: "'q \<Rightarrow> 'a fifo_op list \<Rightarrow> ('a list \<times> 'q) res" where
  "run q [] = Inr ([], q)"
| "run q (Push a # ops) = res_bind (push q a) (\<lambda>q'. run q' ops)"
| "run q (Pop # ops) = res_bind (pop q) (\<lambda>(x, q').
     res_bind (run q' ops) (\<lambda>(out, q''). Inr (x # out, q'')))"

lemma run_refines:
  assumes "invar n q" "\<forall>p\<in>set ops. op_arg_ok ok p"
  shows "res_bind (run q ops) (\<lambda>(out, q'). Inr (out, items q')) = spec_run full_fault empty_fault n (items q) ops"
  using assms
proof (induction ops arbitrary: q)
  case Nil
  then show ?case by simp
next
  case (Cons p ops)
  show ?case
  proof (cases p)
    case (Push a)
    show ?thesis
    proof (cases "length (items q) = n")
      case True
      then show ?thesis using Push push_full [OF Cons.prems(1)] by simp
    next
      case False
      then have "length (items q) < n" using capacity [OF Cons.prems(1)] by simp
      with push_room [OF Cons.prems(1)] Cons.prems(2) Push obtain q' where
        "push q a = Inr q'" "invar n q'" "items q' = items q @ [a]" by auto
      then show ?thesis using Cons.IH [of q'] Cons.prems(2) Push False by simp
    qed
  next
    case Pop
    show ?thesis
    proof (cases "items q")
      case Nil
      then show ?thesis using Pop pop_none [OF Cons.prems(1)] by simp
    next
      case (Cons x xs)
      then obtain q' where q': "pop q = Inr (x, q')" "invar n q'" "items q' = xs"
        using pop_some [OF Cons.prems(1)] by auto
      have "\<forall>p\<in>set ops. op_arg_ok ok p" using Cons.prems(2) by simp
      from Cons.IH [OF q'(2) this, symmetric] show ?thesis
        using q' Pop \<open>items q = x # xs\<close> by (cases "run q' ops") auto
    qed
  qed
qed

lemma slide_ok:
  assumes "invar n q" "ok a" "0 < n"
  shows "\<exists>q'. slide n q a = Inr q' \<and> invar n q' \<and>
    items q' = (if length (items q) < n then items q @ [a] else tl (items q) @ [a])"
proof (cases "length (items q) < n")
  case True
  then show ?thesis using push_room [OF assms(1,2)] by (auto simp: slide_def)
next
  case False
  with capacity [OF assms(1)] assms(3) obtain b bs where b: "items q = b # bs" and "length bs < n"
    by (cases "items q") auto
  from pop_some [OF assms(1) b] obtain q1 where q1: "pop q = Inr (b, q1)" "invar n q1" "items q1 = bs"
    by auto
  with \<open>length bs < n\<close> push_room [OF q1(2) assms(2)] False b show ?thesis
    by (auto simp: slide_def)
qed

lemma slide_items:
  assumes "invar n q" "ok a" "0 < n" "items q = drop (length xs - n) xs"
  shows "\<exists>q'. slide n q a = Inr q' \<and> invar n q' \<and>
    items q' = drop (length (xs @ [a]) - n) (xs @ [a])"
proof -
  from slide_ok [OF assms(1-3)] obtain q' where q': "slide n q a = Inr q'" "invar n q'"
    "items q' = (if length (items q) < n then items q @ [a] else tl (items q) @ [a])" by auto
  moreover have "items q' = drop (length (xs @ [a]) - n) (xs @ [a])"
  proof (cases "length xs < n")
    case True
    then show ?thesis using q'(3) assms(4) by simp
  next
    case False
    then have "Suc (length xs) - n = Suc (length xs - n)" by simp
    then show ?thesis using q'(3) assms(3,4) False by (simp add: tl_drop drop_Suc)
  qed
  ultimately show ?thesis by auto
qed

lemma slide_all_items:
  assumes "invar n q" "0 < n" "items q = drop (length xs - n) xs" "\<forall>a\<in>set as. ok a"
  shows "\<exists>q'. slide_all n q as = Inr q' \<and> invar n q' \<and>
    items q' = drop (length (xs @ as) - n) (xs @ as)"
  using assms
proof (induction as arbitrary: q xs)
  case Nil
  then show ?case by simp
next
  case (Cons a as)
  from slide_items [of n q a xs] Cons.prems obtain q1
    where q1: "slide n q a = Inr q1" "invar n q1" "items q1 = drop (length (xs @ [a]) - n) (xs @ [a])"
    by auto
  from Cons.IH [OF q1(2) Cons.prems(2) q1(3)] Cons.prems(4) q1(1) show ?case by auto
qed

end

section \<open>The integer queue of \<open>queue.c\<close>\<close>

record queue =
  q_read :: nat
  q_write :: nat
  q_size :: nat
  q_array :: "int list"

definition QUEUE_FULL_ERROR :: int where [macro_defs]: "QUEUE_FULL_ERROR = 1"
definition QUEUE_EMPTY_ERROR :: int where [macro_defs]: "QUEUE_EMPTY_ERROR = 2"

definition queue_init :: "nat \<Rightarrow> queue" where
  "queue_init sz = \<lparr>q_read = 0, q_write = 0, q_size = sz + 1, q_array = replicate (sz + 1) 0\<rparr>"

definition queue_push :: "queue \<Rightarrow> int \<Rightarrow> queue res" where
  "queue_push q a =
     (if q_read q = (q_write q + 1) mod q_size q then Inl (Longjmp_code QUEUE_FULL_ERROR)
      else res_bind (arr_set (q_array q) (q_write q) a) (\<lambda>arr.
        Inr (q\<lparr>q_array := arr, q_write := (q_write q + 1) mod q_size q\<rparr>)))"

definition queue_pop :: "queue \<Rightarrow> (int \<times> queue) res" where
  "queue_pop q =
     (if q_read q = q_write q then Inl (Longjmp_code QUEUE_EMPTY_ERROR)
      else res_bind (arr_get (q_array q) (q_read q)) (\<lambda>tmp.
        Inr (tmp, q\<lparr>q_read := (q_read q + 1) mod q_size q\<rparr>)))"

text \<open>The abstract contents: the elements from \<open>read\<close> up to \<open>write\<close>, circularly.\<close>

definition queue_len :: "queue \<Rightarrow> nat" where
  "queue_len q = (q_write q + q_size q - q_read q) mod q_size q"

definition queue_items :: "queue \<Rightarrow> int list" where
  "queue_items q = ring_slice (q_array q) (q_read q) (queue_len q)"

definition queue_inv :: "nat \<Rightarrow> queue \<Rightarrow> bool" where
  "queue_inv n q \<longleftrightarrow> q_size q = n + 1 \<and> length (q_array q) = n + 1 \<and> q_read q \<le> n \<and> q_write q \<le> n"

lemma queue_len_less: "queue_inv n q \<Longrightarrow> queue_len q < n + 1"
  by (simp add: queue_inv_def queue_len_def)

lemma queue_write_eq:
  assumes "queue_inv n q"
  shows "(q_read q + queue_len q) mod (n + 1) = q_write q"
proof -
  have "(q_read q + (q_write q + (n + 1) - q_read q)) mod (n + 1) = (q_write q + (n + 1)) mod (n + 1)"
    using assms by (simp add: queue_inv_def)
  also have "\<dots> = q_write q" using assms by (simp add: queue_inv_def del: add_Suc_right)
  finally show ?thesis using assms by (simp add: queue_inv_def queue_len_def mod_add_right_eq del: add_Suc_right)
qed

lemma queue_len_step:
  assumes "queue_inv n q" "q_read q \<noteq> (q_write q + 1) mod q_size q"
  shows "queue_len (q\<lparr>q_array := arr, q_write := (q_write q + 1) mod q_size q\<rparr>) = Suc (queue_len q)"
    and "queue_len q < n"
proof -
  have q: "q_size q = n + 1" "q_read q \<le> n" "q_write q \<le> n" using assms by (auto simp: queue_inv_def)
  let ?l = "queue_len q"
  have "?l < n + 1" by (rule queue_len_less [OF assms(1)])
  moreover have "?l \<noteq> n"
  proof
    assume "?l = n"
    then have "q_write q = (q_read q + n) mod (n + 1)" using queue_write_eq [OF assms(1)] by simp
    then have "(q_write q + 1) mod (n + 1) = (q_read q + (n + 1)) mod (n + 1)"
      by (simp add: mod_Suc_eq)
    moreover have "(q_read q + (n + 1)) mod (n + 1) = q_read q"
      using q by (simp only: mod_add_self2) simp
    ultimately show False using assms(2) q by simp
  qed
  ultimately show l: "?l < n" by simp
  have "queue_len (q\<lparr>q_array := arr, q_write := (q_write q + 1) mod q_size q\<rparr>) =
    ((q_write q + 1) mod (n + 1) + (n + 1 - q_read q)) mod (n + 1)"
    using q by (simp add: queue_len_def)
  also have "\<dots> = (Suc (q_write q + (n + 1 - q_read q))) mod (n + 1)"
    by (simp add: mod_add_left_eq)
  also have "\<dots> = Suc ?l mod (n + 1)"
    using q by (simp add: queue_len_def mod_Suc_eq)
  also have "\<dots> = Suc ?l" using l by simp
  finally show "queue_len (q\<lparr>q_array := arr, q_write := (q_write q + 1) mod q_size q\<rparr>) = Suc ?l" .
qed

lemma queue_push_room:
  assumes "queue_inv n q" "length (queue_items q) < n"
  shows "\<exists>q'. queue_push q a = Inr q' \<and> queue_inv n q' \<and> queue_items q' = queue_items q @ [a]"
proof -
  have q: "q_size q = n + 1" "length (q_array q) = n + 1" "q_read q \<le> n" "q_write q \<le> n"
    using assms(1) by (auto simp: queue_inv_def)
  have ne: "q_read q \<noteq> (q_write q + 1) mod q_size q"
  proof
    assume r: "q_read q = (q_write q + 1) mod q_size q"
    have "(q_read q + n) mod (n + 1) = (q_write q + 1 + n) mod (n + 1)"
      unfolding r q(1) by (rule mod_add_left_eq)
    also have "\<dots> = (q_write q + (n + 1)) mod (n + 1)" by (simp add: ac_simps)
    also have "\<dots> = q_write q" using q by (simp only: mod_add_self2) simp
    also have "\<dots> = (q_read q + queue_len q) mod (n + 1)" using queue_write_eq [OF assms(1)] by simp
    finally have "n = queue_len q" by (rule mod_add_inj) (use queue_len_less [OF assms(1)] in auto)
    with assms(2) show False by (simp add: queue_items_def)
  qed
  let ?q = "q\<lparr>q_array := (q_array q)[q_write q := a], q_write := (q_write q + 1) mod q_size q\<rparr>"
  let ?l = "queue_len q"
  have push: "queue_push q a = Inr ?q" using ne q by (simp add: queue_push_def)
  have w: "q_write q = (q_read q + ?l) mod length (q_array q)" using queue_write_eq [OF assms(1)] q by simp
  have "?l < length (q_array q)" using queue_len_less [OF assms(1)] q by simp
  then have slice: "ring_slice ((q_array q)[q_write q := a]) (q_read q) ?l = ring_slice (q_array q) (q_read q) ?l"
    using ring_slice_update [of "q_read q" "q_array q" ?l a] q w by simp
  have "queue_items ?q = queue_items q @ [a]"
    using queue_len_step(1) [OF assms(1) ne, of "(q_array q)[q_write q := a]"] slice q w [symmetric]
    by (simp add: queue_items_def ring_slice_append)
  then show ?thesis using push q by (auto simp: queue_inv_def intro: mod_Suc_less less_Suc_eq_le [THEN iffD1])
qed

lemma queue_push_full:
  assumes "queue_inv n q" "length (queue_items q) = n"
  shows "queue_push q a = Inl (Longjmp_code QUEUE_FULL_ERROR)"
proof -
  have "q_read q = (q_write q + 1) mod q_size q"
    using queue_len_step(2) [OF assms(1)] assms(2) by (auto simp: queue_items_def)
  then show ?thesis by (simp add: queue_push_def)
qed

lemma queue_pop_some:
  assumes "queue_inv n q" "queue_items q = a # as"
  shows "\<exists>q'. queue_pop q = Inr (a, q') \<and> queue_inv n q' \<and> queue_items q' = as"
proof -
  have q: "q_size q = n + 1" "length (q_array q) = n + 1" "q_read q \<le> n" "q_write q \<le> n"
    using assms(1) by (auto simp: queue_inv_def)
  have len: "queue_len q = Suc (length as)"
    using assms(2) by (metis length_Cons length_ring_slice queue_items_def)
  have ne: "q_read q \<noteq> q_write q"
    using len queue_write_eq [OF assms(1)] queue_len_less [OF assms(1)] q
    by (metis mod_add_neq zero_less_Suc le_imp_less_Suc Suc_eq_plus1)
  let ?q = "q\<lparr>q_read := (q_read q + 1) mod q_size q\<rparr>"
  have lt: "length as < n + 1" using len queue_len_less [OF assms(1)] by simp
  have "(q_write q + (n + 1)) mod (n + 1) = q_write q" using q by (simp only: mod_add_self2) simp
  have len': "queue_len ?q = length as"
  proof -
    have "((q_read q + 1) mod (n + 1) + length as) mod (n + 1) = (q_read q + queue_len q) mod (n + 1)"
      by (simp add: mod_add_left_eq len)
    also have "\<dots> = q_write q" by (rule queue_write_eq [OF assms(1)])
    also have "\<dots> = (q_read ?q + queue_len ?q) mod (n + 1)"
      using queue_write_eq [of n ?q] q by (simp add: queue_inv_def)
    finally have "((q_read q + 1) mod (n + 1) + length as) mod (n + 1) =
      ((q_read q + 1) mod (n + 1) + queue_len ?q) mod (n + 1)" using q by simp
    then have "length as = queue_len ?q"
      by (rule mod_add_inj) (use lt queue_len_less [of n ?q] q in \<open>auto simp: queue_inv_def\<close>)
    then show ?thesis by simp
  qed
  have "ring_slice (q_array q) (q_read q) (Suc (length as)) =
      q_array q ! q_read q # ring_slice (q_array q) (Suc (q_read q) mod length (q_array q)) (length as)"
    using q by (intro ring_slice_Cons) simp
  then have items: "q_array q ! q_read q = a" "queue_items ?q = as"
    using assms(2) len len' q by (auto simp: queue_items_def)
  have "queue_pop q = Inr (a, ?q)" using ne q items(1) by (simp add: queue_pop_def)
  then show ?thesis using items(2) q
    by (auto simp: queue_inv_def intro: mod_Suc_less less_Suc_eq_le [THEN iffD1])
qed

lemma queue_pop_none:
  assumes "queue_inv n q" "queue_items q = []"
  shows "queue_pop q = Inl (Longjmp_code QUEUE_EMPTY_ERROR)"
proof -
  have "queue_len q = 0" using assms(2) by (metis length_ring_slice list.size(3) queue_items_def)
  then have "q_read q = q_write q"
    using queue_write_eq [OF assms(1)] assms(1) by (simp add: queue_inv_def)
  then show ?thesis by (simp add: queue_pop_def)
qed

interpretation int_queue: bounded_fifo queue_push queue_pop queue_items queue_inv "\<lambda>_. True"
    "Longjmp_code QUEUE_FULL_ERROR" "Longjmp_code QUEUE_EMPTY_ERROR"
proof unfold_locales
  show "length (queue_items q) \<le> n" if "queue_inv n q" for n q
    using queue_len_less [OF that] by (simp add: queue_items_def)
qed (auto intro: queue_push_room queue_push_full queue_pop_some queue_pop_none)

lemma queue_init_inv: "queue_inv n (queue_init n)" "queue_items (queue_init n) = []"
  by (simp_all add: queue_inv_def queue_init_def queue_items_def queue_len_def)

section \<open>The circular byte buffer of \<open>pacer.c\<close>\<close>

text \<open>
  \<open>head\<close>, \<open>tail\<close> and \<open>buffer_end\<close> are pointers into one allocation of \<open>capacity * sz\<close> bytes; they are
  byte offsets here. The allocation that fails is the argument \<open>malloc_ok\<close>. Fresh memory has
  arbitrary contents, the argument \<open>garbage\<close>.
\<close>

record circular_buffer =
  cb_buffer :: "u8 list"
  cb_buffer_end :: nat
  cb_capacity :: nat
  cb_count :: nat
  cb_sz :: nat
  cb_head :: nat
  cb_tail :: nat

definition cbuf_init :: "bool \<Rightarrow> u8 list \<Rightarrow> nat \<Rightarrow> nat \<Rightarrow> circular_buffer res" where
  "cbuf_init malloc_ok garbage capacity sz =
     (if \<not> malloc_ok then Inl (Err_code (-1))
      else Inr \<lparr>cb_buffer = take (capacity * sz) (garbage @ replicate (capacity * sz) 0),
        cb_buffer_end = capacity * sz, cb_capacity = capacity, cb_count = 0, cb_sz = sz,
        cb_head = 0, cb_tail = 0\<rparr>)"

definition cbuf_push_back :: "circular_buffer \<Rightarrow> u8 list \<Rightarrow> circular_buffer res" where
  "cbuf_push_back buf item =
     (if cb_count buf = cb_capacity buf then Inl (Err_code (-1))
      else res_bind (mem_write (cb_buffer buf) (cb_head buf) (take (cb_sz buf) item)) (\<lambda>b.
        let h = cb_head buf + cb_sz buf
        in Inr (buf\<lparr>cb_buffer := b,
             cb_head := (if h = cb_buffer_end buf then 0 else h),
             cb_count := cb_count buf + 1\<rparr>)))"

definition cbuf_pop_front :: "circular_buffer \<Rightarrow> (u8 list \<times> circular_buffer) res" where
  "cbuf_pop_front buf =
     (if cb_count buf = 0 then Inl (Err_code (-1))
      else res_bind (mem_read (cb_buffer buf) (cb_tail buf) (cb_sz buf)) (\<lambda>item.
        let t = cb_tail buf + cb_sz buf
        in Inr (item, buf\<lparr>cb_tail := (if t = cb_buffer_end buf then 0 else t),
             cb_count := cb_count buf - 1\<rparr>)))"

definition cbuf_items :: "circular_buffer \<Rightarrow> u8 list list" where
  "cbuf_items buf =
     ring_slice (cells (cb_sz buf) (cb_capacity buf) (cb_buffer buf)) (cb_tail buf div cb_sz buf) (cb_count buf)"

definition cbuf_inv :: "nat \<Rightarrow> nat \<Rightarrow> circular_buffer \<Rightarrow> bool" where
  "cbuf_inv sz n buf \<longleftrightarrow> 0 < sz \<and> 0 < n \<and> cb_sz buf = sz \<and> cb_capacity buf = n \<and> cb_count buf \<le> n \<and>
     length (cb_buffer buf) = n * sz \<and> cb_buffer_end buf = n * sz \<and>
     (\<exists>t<n. cb_tail buf = t * sz \<and> cb_head buf = (t + cb_count buf) mod n * sz)"

lemma wrap_offset:
  assumes "i < n" "0 < (sz::nat)"
  shows "(if i * sz + sz = n * sz then 0 else i * sz + sz) = Suc i mod n * sz"
proof (cases "Suc i = n")
  case True
  then have "i * sz + sz = n * sz" by (metis add.commute mult_Suc)
  then show ?thesis using True by simp
next
  case False
  then have "Suc i < n" using assms by simp
  moreover have "i * sz + sz \<noteq> n * sz"
    using False assms(2) by (metis add.commute mult_Suc mult_cancel2 neq0_conv)
  ultimately show ?thesis by simp
qed

lemma cbuf_push_room:
  assumes inv: "cbuf_inv sz n buf" and item: "length item = sz" and room: "length (cbuf_items buf) < n"
  shows "\<exists>buf'. cbuf_push_back buf item = Inr buf' \<and> cbuf_inv sz n buf' \<and> cbuf_items buf' = cbuf_items buf @ [item]"
proof -
  from inv obtain t where b: "0 < sz" "0 < n" "cb_sz buf = sz" "cb_capacity buf = n"
    "length (cb_buffer buf) = n * sz" "cb_buffer_end buf = n * sz" "t < n" "cb_tail buf = t * sz"
    "cb_head buf = (t + cb_count buf) mod n * sz" by (auto simp: cbuf_inv_def)
  let ?c = "cb_count buf" let ?h = "(t + ?c) mod n"
  have c: "?c < n" using room by (simp add: cbuf_items_def)
  have h: "?h < n" using b by simp
  from mem_write_cell [OF b(5) h item] obtain b' where b': "mem_write (cb_buffer buf) (?h * sz) item = Inr b'"
    "length b' = n * sz" "cells sz n b' = (cells sz n (cb_buffer buf))[?h := item]" by auto
  let ?buf = "buf\<lparr>cb_buffer := b', cb_head := Suc ?h mod n * sz, cb_count := ?c + 1\<rparr>"
  have push: "cbuf_push_back buf item = Inr ?buf"
    using c b b'(1) item wrap_offset [OF h b(1)] by (simp add: cbuf_push_back_def)
  have "ring_slice ((cells sz n (cb_buffer buf))[?h := item]) t ?c = ring_slice (cells sz n (cb_buffer buf)) t ?c"
    using ring_slice_update [of t "cells sz n (cb_buffer buf)" ?c item] b c by simp
  then have items: "cbuf_items ?buf = cbuf_items buf @ [item]"
    using b b' by (simp add: cbuf_items_def ring_slice_append)
  have "cbuf_inv sz n ?buf"
    using b b' c by (auto simp: cbuf_inv_def mod_Suc_eq intro!: exI [of _ t])
  with push items show ?thesis by auto
qed

lemma cbuf_pop_some:
  assumes inv: "cbuf_inv sz n buf" and items: "cbuf_items buf = a # as"
  shows "\<exists>buf'. cbuf_pop_front buf = Inr (a, buf') \<and> cbuf_inv sz n buf' \<and> cbuf_items buf' = as"
proof -
  from inv obtain t where b: "0 < sz" "0 < n" "cb_sz buf = sz" "cb_capacity buf = n" "cb_count buf \<le> n"
    "length (cb_buffer buf) = n * sz" "cb_buffer_end buf = n * sz" "t < n" "cb_tail buf = t * sz"
    "cb_head buf = (t + cb_count buf) mod n * sz" by (auto simp: cbuf_inv_def)
  have c: "cb_count buf = Suc (length as)"
    using items by (metis cbuf_items_def length_Cons length_ring_slice)
  let ?buf = "buf\<lparr>cb_tail := Suc t mod n * sz, cb_count := length as\<rparr>"
  have hd: "cells sz n (cb_buffer buf) ! t = a" and tl: "cbuf_items ?buf = as"
    using items b c ring_slice_Cons [of t "cells sz n (cb_buffer buf)" "length as"]
    by (simp_all add: cbuf_items_def)
  have pop: "cbuf_pop_front buf = Inr (a, ?buf)"
    using b c hd mem_read_cell [OF b(6,8)] wrap_offset [OF b(8,1)] by (simp add: cbuf_pop_front_def)
  have "(Suc t mod n + length as) mod n = (t + Suc (length as)) mod n" by (simp add: mod_add_left_eq)
  then have "cbuf_inv sz n ?buf"
    using b c by (auto simp: cbuf_inv_def intro!: exI [of _ "Suc t mod n"])
  with pop tl show ?thesis by auto
qed

interpretation byte_ring: bounded_fifo cbuf_push_back cbuf_pop_front cbuf_items "cbuf_inv sz"
    "\<lambda>item. length item = sz" "Err_code (-1)" "Err_code (-1)" for sz
proof unfold_locales
  show "cbuf_push_back q a = Inl (Err_code (-1))" if "cbuf_inv sz n q" "length (cbuf_items q) = n" for n q a
    using that by (simp add: cbuf_push_back_def cbuf_inv_def cbuf_items_def)
  show "cbuf_pop_front q = Inl (Err_code (-1))" if "cbuf_inv sz n q" "cbuf_items q = []" for n q
    using that by (auto simp: cbuf_pop_front_def cbuf_items_def dest: arg_cong [where f = length])
  show "length (cbuf_items q) \<le> n" if "cbuf_inv sz n q" for n q
    using that by (simp add: cbuf_inv_def cbuf_items_def)
qed (auto intro: cbuf_push_room cbuf_pop_some)

lemma cbuf_init_inv:
  assumes "0 < sz" "0 < n" "cbuf_init True garbage n sz = Inr buf"
  shows "cbuf_inv sz n buf" "cbuf_items buf = []"
  using assms by (auto simp: cbuf_init_def cbuf_inv_def cbuf_items_def)

section \<open>Properties\<close>

definition queue_run :: "queue \<Rightarrow> int fifo_op list \<Rightarrow> (int list \<times> queue) res" where
  "queue_run = int_queue.run"

text \<open>
  C38: every sequence of pushes and pops on a queue made by \<open>queue_init(n)\<close> behaves as on a list that
  holds at most \<open>n\<close> elements: it pops exactly the pushed elements in order, and raises
  \<open>QUEUE_FULL_ERROR\<close> or \<open>QUEUE_EMPTY_ERROR\<close> exactly where the list would overflow or is empty; no
  access leaves the array.
\<close>

theorem queue_refines_bounded_list:
  "res_bind (queue_run (queue_init n) ops) (\<lambda>(out, q). Inr (out, queue_items q)) =
   spec_run (Longjmp_code QUEUE_FULL_ERROR) (Longjmp_code QUEUE_EMPTY_ERROR) n [] ops"
proof -
  have "\<forall>p\<in>set ops. op_arg_ok (\<lambda>_. True) p"
    by (metis op_arg_ok.elims(3))
  from int_queue.run_refines [OF queue_init_inv(1) this] show ?thesis
    by (simp add: queue_init_inv(2) queue_run_def)
qed

definition cbuf_run :: "circular_buffer \<Rightarrow> u8 list fifo_op list \<Rightarrow> (u8 list list \<times> circular_buffer) res" where
  "cbuf_run = byte_ring.run"

text \<open>
  The circular byte buffer is a bounded first-in first-out store of \<open>sz\<close>-byte items: after
  \<open>cbuf_init\<close> succeeds, any run of \<open>cbuf_push_back\<close> (with items of \<open>sz\<close> bytes) and \<open>cbuf_pop_front\<close>
  returns the bytes pushed, in order, \<open>-1\<close> exactly when full or empty, and never writes or reads
  outside the allocation.
\<close>

theorem cbuf_refines_bounded_list:
  assumes "0 < sz" and "0 < n" and "cbuf_init True garbage n sz = Inr buf"
    and "\<forall>p\<in>set ops. op_arg_ok (\<lambda>item. length item = sz) p"
  shows "res_bind (cbuf_run buf ops) (\<lambda>(out, b). Inr (out, cbuf_items b)) =
    spec_run (Err_code (-1)) (Err_code (-1)) n [] ops"
  using byte_ring.run_refines [OF cbuf_init_inv(1) [OF assms(1-3)] assms(4)]
  by (simp add: cbuf_init_inv(2) [OF assms(1-3)] cbuf_run_def)

theorem cbuf_refines_bounded_list_witness:
  "res_bind (cbuf_run (projr (cbuf_init True [7, 7] 2 2)) [Push [1, 2], Push [3, 4], Pop, Push [5, 6], Pop, Pop])
     (\<lambda>(out, b). Inr (out, cbuf_items b)) = Inr ([[1, 2], [3, 4], [5, 6]], [])"
  by (subst cbuf_refines_bounded_list [where sz = 2 and n = 2 and garbage = "[7, 7]"])
     (simp_all add: cbuf_init_def)

end
