(* ===== verification/C_Float.thy ===== *)
theory C_Float
  imports Prelude Complex_Main "HOL-Library.Log_Nat"
begin

text \<open>
  The binary floating-point arithmetic the pacer and the shaper compute with. A finite \<open>float\<close> or
  \<open>double\<close> is the rational number it denotes; an operation is the exact operation followed by
  \<open>fl p\<close>, rounding to \<open>p\<close> significant bits, to nearest with ties to even: \<open>p = 24\<close> for \<open>float\<close> and
  \<open>p = 53\<close> for \<open>double\<close>. Overflow and subnormal results are not
  modelled: the values of the modelled code stay below \<open>2^80\<close>, and only an average of latencies that are
  exactly zero a thousand times in a row would become subnormal. Conversion to an integer truncates; \<open>round\<close> and
  \<open>ceil\<close> are those of \<open>math.h\<close>.
\<close>

section \<open>Rounding\<close>

definition rint_even :: "rat \<Rightarrow> int" where
  "rint_even x = (let f = \<lfloor>x\<rfloor>; d = x - of_int f
     in if d < 1/2 then f else if 1/2 < d then f + 1 else if even f then f else f + 1)"

definition ilog2 :: "rat \<Rightarrow> int" where
  "ilog2 x = (let (n, d) = quotient_of x; e = bitlen n - bitlen d
     in if 2 powi e \<le> x then e else e - 1)"

definition fl :: "nat \<Rightarrow> rat \<Rightarrow> rat" where
  "fl p x = (if x = 0 then 0
     else let u = 2 powi (ilog2 \<bar>x\<bar> - int p + 1) in sgn x * of_int (rint_even (\<bar>x\<bar> / u)) * u)"

abbreviation to_float :: "rat \<Rightarrow> rat" where "to_float \<equiv> fl 24"
abbreviation to_double :: "rat \<Rightarrow> rat" where "to_double \<equiv> fl 53"

text \<open>Conversion of a floating value to an integer type truncates towards zero.\<close>

definition c_trunc :: "rat \<Rightarrow> int" where
  "c_trunc x = (if 0 \<le> x then \<lfloor>x\<rfloor> else \<lceil>x\<rceil>)"

text \<open>\<open>round\<close> of \<open>math.h\<close>: halfway cases away from zero.\<close>

definition c_round :: "rat \<Rightarrow> int" where
  "c_round x = (if 0 \<le> x then \<lfloor>x + 1/2\<rfloor> else - \<lfloor>1/2 - x\<rfloor>)"

named_theorems float_eval \<open>evaluation of rounding at concrete arguments\<close>

section \<open>Rounding to an integer\<close>

lemma rint_even_of_int [simp]: "rint_even (of_int m) = m"
  by (simp add: rint_even_def)

lemma rint_even_lower: "\<lfloor>x\<rfloor> \<le> rint_even x"
  by (simp add: rint_even_def Let_def)

lemma rint_even_upper: "rint_even x \<le> \<lceil>x\<rceil>"
proof (cases "x = of_int \<lfloor>x\<rfloor>")
  case True
  then show ?thesis by (metis rint_even_of_int ceiling_of_int order_refl)
next
  case False
  then have "\<lceil>x\<rceil> = \<lfloor>x\<rfloor> + 1" by (simp add: ceiling_altdef)
  then show ?thesis by (simp add: rint_even_def Let_def)
qed

lemma rint_even_err: "\<bar>of_int (rint_even x) - x\<bar> \<le> 1/2"
proof -
  define f where "f = \<lfloor>x\<rfloor>"
  define d where "d = x - of_int f"
  have d: "0 \<le> d" "d < 1" unfolding d_def f_def by linarith+
  have x: "x = of_int f + d" by (simp add: d_def)
  have "rint_even x = (if d < 1/2 then f else if 1/2 < d then f + 1 else if even f then f else f + 1)"
    by (simp add: rint_even_def Let_def f_def d_def)
  then show ?thesis using d unfolding x by (auto simp: abs_le_iff)
qed

lemma rint_even_mono:
  assumes "x \<le> y"
  shows "rint_even x \<le> rint_even y"
proof (cases "\<lfloor>x\<rfloor> = \<lfloor>y\<rfloor>")
  case True
  then show ?thesis using assms by (auto simp: rint_even_def Let_def)
next
  case False
  then have "\<lfloor>x\<rfloor> < \<lfloor>y\<rfloor>" using assms floor_mono [of x y] by simp
  moreover have "rint_even x \<le> \<lfloor>x\<rfloor> + 1"
    using rint_even_upper [of x] ceiling_diff_floor_le_1 [of x] by linarith
  ultimately show ?thesis using rint_even_lower [of y] by linarith
qed

lemma rint_even_eqI [float_eval]:
  "\<lbrakk>of_int m - 1/2 < x; x < of_int m + 1/2\<rbrakk> \<Longrightarrow> rint_even x = m"
  using rint_even_err [of x] by linarith

section \<open>The binary exponent\<close>

lemma powi2_pos [simp]: "0 < (2::rat) powi e"
  by (simp add: zero_less_power_int)

lemma powi2_mono: "a \<le> b \<Longrightarrow> (2::rat) powi a \<le> 2 powi b"
  by (rule power_int_increasing) auto

lemma powi2_less: "a < b \<Longrightarrow> (2::rat) powi a < 2 powi b"
  by (rule power_int_strict_increasing) auto

lemma powi2_le_iff [simp]: "(2::rat) powi a \<le> 2 powi b \<longleftrightarrow> a \<le> b"
  by (meson linorder_not_le powi2_less powi2_mono)

lemma powi2_less_iff [simp]: "(2::rat) powi a < 2 powi b \<longleftrightarrow> a < b"
  by (meson linorder_not_le powi2_less powi2_mono)

lemma powi2_add: "(2::rat) powi (a + b) = 2 powi a * 2 powi b"
  by (simp add: power_int_add)

lemma powi2_diff: "(2::rat) powi (a - b) = 2 powi a / 2 powi b"
  by (simp add: power_int_diff)

lemma bitlen_powi:
  assumes "0 < (n::int)"
  shows "2 powi (bitlen n - 1) \<le> (of_int n :: rat)" "(of_int n :: rat) < 2 powi bitlen n"
proof -
  have b: "0 < bitlen n" using assms by (metis bitlen_eq_zero_iff bitlen_nonneg less_le not_le)
  from bitlen_bounds [OF assms] have *: "2 ^ nat (bitlen n - 1) \<le> n" "n < 2 ^ nat (bitlen n)" by auto
  from *(1) have "(of_int (2 ^ nat (bitlen n - 1)) :: rat) \<le> of_int n" by (simp only: of_int_le_iff)
  then show "2 powi (bitlen n - 1) \<le> (of_int n :: rat)" using b by (simp add: power_int_nonneg_exp)
  from *(2) have "(of_int n :: rat) < of_int (2 ^ nat (bitlen n))" by (simp only: of_int_less_iff)
  then show "(of_int n :: rat) < 2 powi bitlen n" using b by (simp add: power_int_nonneg_exp)
qed

lemma ilog2_bounds:
  assumes "0 < x"
  shows "2 powi ilog2 x \<le> x" "x < 2 powi (ilog2 x + 1)"
proof -
  obtain n d where nd: "quotient_of x = (n, d)" by fastforce
  have d: "0 < d" using nd by (rule quotient_of_denom_pos)
  have x: "x = of_int n / of_int d" using nd by (rule quotient_of_div)
  have n: "0 < n" using assms d x by (simp add: zero_less_divide_iff)
  define e where "e = bitlen n - bitlen d"
  have "x < 2 powi bitlen n / 2 powi (bitlen d - 1)"
    unfolding x using bitlen_powi [OF n] bitlen_powi [OF d] n d
    by (intro frac_less) auto
  also have "\<dots> = 2 powi (e + 1)" by (simp add: e_def powi2_diff [symmetric] algebra_simps)
  finally have up: "x < 2 powi (e + 1)" .
  have "(2::rat) powi (e - 1) = 2 powi (bitlen n - 1) / 2 powi bitlen d"
    by (simp add: e_def powi2_diff [symmetric] algebra_simps)
  also have "\<dots> \<le> x"
    unfolding x using bitlen_powi [OF n] bitlen_powi [OF d] n d
    by (intro frac_le) auto
  finally have lo: "2 powi (e - 1) \<le> x" .
  have il: "ilog2 x = (if 2 powi e \<le> x then e else e - 1)" by (simp add: ilog2_def nd e_def Let_def)
  show "2 powi ilog2 x \<le> x" using lo il by simp
  show "x < 2 powi (ilog2 x + 1)" using up il by simp
qed

lemma ilog2_eqI [float_eval]:
  assumes "2 powi e \<le> x" "x < 2 powi (e + 1)"
  shows "ilog2 x = e"
proof -
  have x: "0 < x" using assms(1) powi2_pos [of e] by linarith
  have "(2::rat) powi e < 2 powi (ilog2 x + 1)" using assms ilog2_bounds [OF x] by linarith
  moreover have "(2::rat) powi ilog2 x < 2 powi (e + 1)" using assms ilog2_bounds [OF x] by linarith
  ultimately show ?thesis by simp
qed

lemma ilog2_mono: "\<lbrakk>0 < x; x \<le> y\<rbrakk> \<Longrightarrow> ilog2 x \<le> ilog2 y"
  using ilog2_bounds [of x] ilog2_bounds [of y] powi2_less_iff [of "ilog2 x" "ilog2 y + 1"] by linarith

lemma ilog2_scale:
  assumes "0 < x"
  shows "ilog2 (x * 2 powi k) = ilog2 x + k"
proof (rule ilog2_eqI)
  show "2 powi (ilog2 x + k) \<le> x * 2 powi k"
    using ilog2_bounds(1) [OF assms] by (simp add: powi2_add)
  have "x * 2 powi k < 2 powi (ilog2 x + 1) * 2 powi k"
    using ilog2_bounds(2) [OF assms] by (intro mult_strict_right_mono) simp_all
  then show "x * 2 powi k < 2 powi (ilog2 x + k + 1)"
    by (simp add: powi2_add ac_simps)
qed

section \<open>Rounding to \<open>p\<close> bits\<close>

lemma fl_0 [simp]: "fl p 0 = 0"
  by (simp add: fl_def)

lemma fl_pos_eq:
  "0 < x \<Longrightarrow> fl p x = of_int (rint_even (x / 2 powi (ilog2 x - int p + 1))) * 2 powi (ilog2 x - int p + 1)"
  by (simp add: fl_def Let_def)

lemma fl_minus: "fl p (- x) = - fl p x"
  by (simp add: fl_def Let_def sgn_minus)

text \<open>Evaluation at a concrete argument: give the exponent and the integer significand.\<close>

lemma fl_eval:
  assumes "2 powi e \<le> x" "x < 2 powi (e + 1)"
    and "of_int m - 1/2 < x / 2 powi (e - int p + 1)" "x / 2 powi (e - int p + 1) < of_int m + 1/2"
  shows "fl p x = of_int m * 2 powi (e - int p + 1)"
proof -
  have x: "0 < x" using assms(1) powi2_pos [of e] by linarith
  show ?thesis
    using rint_even_eqI [OF assms(3,4)] by (simp add: fl_pos_eq [OF x] ilog2_eqI [OF assms(1,2)])
qed

lemma fl_err:
  assumes "0 < x"
  shows "\<bar>fl p x - x\<bar> \<le> 2 powi (ilog2 x - int p)"
proof -
  let ?u = "2 powi (ilog2 x - int p + 1) :: rat"
  have "fl p x - x = (of_int (rint_even (x / ?u)) - x / ?u) * ?u"
    by (simp add: fl_pos_eq [OF assms] algebra_simps)
  then have "\<bar>fl p x - x\<bar> = \<bar>of_int (rint_even (x / ?u)) - x / ?u\<bar> * ?u"
    by (simp add: abs_mult)
  also have "\<dots> \<le> 1/2 * ?u"
    by (intro mult_right_mono rint_even_err) simp
  also have "\<dots> = 2 powi (ilog2 x - int p)"
    by (simp add: powi2_add)
  finally show ?thesis .
qed

lemma fl_rel_err:
  assumes "0 < x"
  shows "\<bar>fl p x - x\<bar> \<le> x / 2 ^ p"
proof -
  have "\<bar>fl p x - x\<bar> \<le> 2 powi (ilog2 x) / 2 powi (int p)"
    using fl_err [OF assms] by (simp add: powi2_diff)
  also have "\<dots> \<le> x / 2 ^ p"
    using ilog2_bounds(1) [OF assms] by (simp add: divide_right_mono)
  finally show ?thesis .
qed

lemma fl_binade:
  assumes "0 < x" "0 < p"
  shows "2 powi ilog2 x \<le> fl p x" "fl p x \<le> 2 powi (ilog2 x + 1)"
proof -
  let ?e = "ilog2 x" let ?u = "2 powi (?e - int p + 1) :: rat"
  have pw: "(2::rat) powi ?e = of_int (2 ^ (p - 1)) * ?u"
  proof -
    have "(2::rat) powi ?e = 2 powi (int (p - 1)) * ?u"
      using assms(2) by (subst powi2_add [symmetric]) (simp add: of_nat_diff)
    then show ?thesis by simp
  qed
  have pw1: "(2::rat) powi (?e + 1) = of_int (2 ^ p) * ?u"
  proof -
    have "(2::rat) powi (?e + 1) = 2 powi (int p) * ?u"
      by (subst powi2_add [symmetric]) simp
    then show ?thesis by simp
  qed
  have "of_int (2 ^ (p - 1)) \<le> x / ?u"
    using ilog2_bounds(1) [OF assms(1)] by (simp add: pw pos_le_divide_eq)
  then have "2 ^ (p - 1) \<le> rint_even (x / ?u)"
    using rint_even_mono [of "of_int (2 ^ (p - 1))" "x / ?u"] by (simp only: rint_even_of_int)
  then have "of_int (2 ^ (p - 1)) * ?u \<le> of_int (rint_even (x / ?u)) * ?u"
    by (intro mult_right_mono) (simp_all only: of_int_le_iff powi2_pos less_imp_le)
  then show "2 powi ?e \<le> fl p x" by (simp only: pw fl_pos_eq [OF assms(1)])
  have "x / ?u \<le> of_int (2 ^ p)"
    using ilog2_bounds(2) [OF assms(1)] by (simp add: pw1 pos_divide_le_eq)
  then have "rint_even (x / ?u) \<le> 2 ^ p"
    using rint_even_mono [of "x / ?u" "of_int (2 ^ p)"] by (simp only: rint_even_of_int)
  then have "of_int (rint_even (x / ?u)) * ?u \<le> of_int (2 ^ p) * ?u"
    by (intro mult_right_mono) (simp_all only: of_int_le_iff powi2_pos less_imp_le)
  then show "fl p x \<le> 2 powi (?e + 1)" by (simp only: pw1 fl_pos_eq [OF assms(1)])
qed

lemma fl_pos: "\<lbrakk>0 < x; 0 < p\<rbrakk> \<Longrightarrow> 0 < fl p x"
  using fl_binade(1) [of x p] powi2_pos [of "ilog2 x"] by linarith

lemma fl_nonneg: "\<lbrakk>0 \<le> x; 0 < p\<rbrakk> \<Longrightarrow> 0 \<le> fl p x"
  using fl_pos [of x p] by (cases "x = 0") auto

lemma fl_mono:
  assumes "0 \<le> x" "x \<le> y" "0 < p"
  shows "fl p x \<le> fl p y"
proof (cases "x = 0")
  case True
  then show ?thesis using assms fl_nonneg [of y p] by simp
next
  case False
  then have x: "0 < x" and y: "0 < y" using assms by auto
  show ?thesis
  proof (cases "ilog2 x = ilog2 y")
    case True
    have "rint_even (x / 2 powi (ilog2 y - int p + 1)) \<le> rint_even (y / 2 powi (ilog2 y - int p + 1))"
      using assms(2) by (intro rint_even_mono divide_right_mono) simp_all
    then show ?thesis
      by (simp add: fl_pos_eq [OF x] fl_pos_eq [OF y] True mult_right_mono)
  next
    case False
    then have "ilog2 x + 1 \<le> ilog2 y" using ilog2_mono [OF x assms(2)] by simp
    then have "(2::rat) powi (ilog2 x + 1) \<le> 2 powi ilog2 y" by simp
    then show ?thesis
      using fl_binade(2) [OF x assms(3)] fl_binade(1) [OF y assms(3)] by linarith
  qed
qed

text \<open>A number with a significand of at most \<open>p\<close> bits is not changed.\<close>

lemma fl_exact:
  assumes "x = of_int m * 2 powi k" "0 \<le> m" "m \<le> 2 ^ p" "0 < p"
  shows "fl p x = x"
proof (cases "m = 0")
  case True
  then show ?thesis using assms(1) by simp
next
  case False
  then have m: "0 < m" using assms(2) by simp
  have x: "0 < x" using m assms(1) by simp
  have "x \<le> 2 powi (int p + k)"
  proof -
    have "(of_int m :: rat) \<le> of_int (2 ^ p)" using assms(3) by (simp only: of_int_le_iff)
    then show ?thesis using assms(1) by (simp add: powi2_add)
  qed
  then have "(2::rat) powi ilog2 x \<le> 2 powi (int p + k)" using ilog2_bounds(1) [OF x] by linarith
  then have e: "ilog2 x \<le> int p + k" by simp
  have "\<exists>i. x / 2 powi (ilog2 x - int p + 1) = of_int i"
  proof (cases "ilog2 x = int p + k")
    case True
    then have "2 powi (int p + k) \<le> x" using ilog2_bounds(1) [OF x] by simp
    with \<open>x \<le> 2 powi (int p + k)\<close> have "x = 2 powi (int p + k)" by simp
    then have "x / 2 powi (ilog2 x - int p + 1) = 2 powi (int p - 1)"
      using True by (simp add: powi2_diff [symmetric])
    also have "\<dots> = of_int (2 ^ (p - 1))"
      using assms(4) by (simp add: power_int_nonneg_exp nat_diff_distrib)
    finally show ?thesis by blast
  next
    case False
    with e have "0 \<le> k - (ilog2 x - int p + 1)" by simp
    then obtain j where j: "k - (ilog2 x - int p + 1) = int j" using zero_le_imp_eq_int by blast
    have "x / 2 powi (ilog2 x - int p + 1) = of_int m * 2 powi (k - (ilog2 x - int p + 1))"
      by (simp only: assms(1) powi2_diff times_divide_eq_right)
    also have "\<dots> = of_int (m * 2 ^ j)" by (simp only: j power_int_of_nat of_int_mult of_int_power of_int_numeral)
    finally show ?thesis by blast
  qed
  then obtain i where i: "x / 2 powi (ilog2 x - int p + 1) = of_int i" by blast
  then have "x = of_int i * 2 powi (ilog2 x - int p + 1)" by (simp add: divide_eq_eq)
  then show ?thesis by (simp add: fl_pos_eq [OF x] i)
qed

lemma fl_of_nat: "\<lbrakk>n \<le> 2 ^ p; 0 < p\<rbrakk> \<Longrightarrow> fl p (of_nat n) = of_nat n"
  using fl_exact [of "of_nat n" "int n" 0 p] by simp

lemma fl_of_int: "\<lbrakk>0 \<le> m; m \<le> 2 ^ p; 0 < p\<rbrakk> \<Longrightarrow> fl p (of_int m) = of_int m"
  using fl_exact [of "of_int m" m 0 p] by simp

lemma fl_idem:
  assumes "0 \<le> x" "0 < p"
  shows "fl p (fl p x) = fl p x"
proof (cases "x = 0")
  case True
  then show ?thesis by simp
next
  case False
  then have x: "0 < x" using assms(1) by simp
  let ?k = "ilog2 x - int p + 1" let ?m = "rint_even (x / 2 powi ?k)"
  have eq: "fl p x = of_int ?m * 2 powi ?k" by (rule fl_pos_eq [OF x])
  have pos: "(0::rat) < 2 powi ?k" by simp
  have "0 < of_int ?m * (2::rat) powi ?k" using fl_pos [OF x assms(2)] eq by simp
  then have "0 < (of_int ?m :: rat)" using pos by (simp only: zero_less_mult_pos2)
  then have m0: "0 < ?m" by simp
  have "x < 2 powi (ilog2 x + 1)" using ilog2_bounds(2) [OF x] .
  also have "(2::rat) powi (ilog2 x + 1) = of_int (2 ^ p) * 2 powi ?k"
    by (simp add: powi2_add [symmetric] flip: power_int_of_nat)
  finally have "x / 2 powi ?k \<le> of_int (2 ^ p)" using pos by (simp add: pos_divide_le_eq)
  then have "?m \<le> 2 ^ p" using rint_even_mono [of "x / 2 powi ?k" "of_int (2 ^ p)"]
    by (simp only: rint_even_of_int)
  with eq m0 show ?thesis using fl_exact [OF eq _ _ assms(2)] by simp
qed

lemma fl_half: "0 \<le> x \<Longrightarrow> 0 < p \<Longrightarrow> fl p x = x \<Longrightarrow> fl p (x / 2) = x / 2"
proof (cases "x = 0")
  case False
  assume x: "0 \<le> x" "0 < p" "fl p x = x"
  with False have x0: "0 < x" by simp
  have k: "ilog2 (x / 2) = ilog2 x - 1"
    using ilog2_bounds [OF x0] by (intro ilog2_eqI) (simp_all add: powi2_diff powi2_add)
  have "x / 2 / 2 powi (ilog2 (x / 2) - int p + 1) = x / 2 powi (ilog2 x - int p + 1)"
    by (simp add: k powi2_diff powi2_add)
  then have "fl p (x / 2) = fl p x / 2"
    using x0 by (simp add: fl_pos_eq k powi2_diff powi2_add mult.commute)
  with x show ?thesis by simp
qed simp

lemma fl_mono_nat: "m \<le> n \<Longrightarrow> 0 < p \<Longrightarrow> fl p (of_nat m) \<le> fl p (of_nat n)"
  by (intro fl_mono) simp_all

end
