(* ===== verification/C_Text.thy ===== *)
theory C_Text
  imports Prelude
begin

text \<open>
  The parts of the C library the components use to build and read text messages: \<open>printf\<close>
  conversions \<open>%d %u %x\<close> with zero padding, \<open>strcmp\<close>/\<open>strncmp\<close>, \<open>strtol\<close> and the \<open>sscanf\<close>
  conversions \<open>%x %hu\<close>. A C string is a \<open>string\<close> without its terminating NUL.
  The lemmas are the round trips: reading back what was printed gives the number and the rest of
  the input.
\<close>

section \<open>Printing numbers\<close>

definition digit_char :: "nat \<Rightarrow> char" where
  "digit_char d = (if d < 10 then char_of (48 + d) else char_of (87 + d))"

fun digits_of :: "nat \<Rightarrow> nat \<Rightarrow> nat list" where
  "digits_of b n = (if b < 2 then [] else if n < b then [n] else digits_of b (n div b) @ [n mod b])"

declare digits_of.simps [simp del]

definition print_nat :: "nat \<Rightarrow> nat \<Rightarrow> string" where
  "print_nat b n = map digit_char (digits_of b n)"

text \<open>\<open>%0wd\<close> or \<open>%0wx\<close>: padded with zeros on the left to at least \<open>w\<close> characters.\<close>

definition print_pad :: "nat \<Rightarrow> nat \<Rightarrow> nat \<Rightarrow> string" where
  "print_pad w b n = replicate (w - length (print_nat b n)) CHR ''0'' @ print_nat b n"

text \<open>\<open>%d\<close>\<close>

definition print_int :: "int \<Rightarrow> string" where
  "print_int i = (if i < 0 then CHR ''-'' # print_nat 10 (nat (- i)) else print_nat 10 (nat i))"

section \<open>Reading numbers\<close>

definition char_digit :: "nat \<Rightarrow> char \<Rightarrow> nat option" where
  "char_digit b c =
     (let k = (of_char c :: nat);
          d = (if 48 \<le> k \<and> k \<le> 57 then k - 48
               else if 97 \<le> k \<and> k \<le> 122 then k - 87
               else if 65 \<le> k \<and> k \<le> 90 then k - 55 else 99)
      in if d < b then Some d else None)"

fun read_digits :: "nat \<Rightarrow> nat \<Rightarrow> string \<Rightarrow> nat \<times> string" where
  "read_digits b acc [] = (acc, [])"
| "read_digits b acc (c # cs) =
     (case char_digit b c of Some d \<Rightarrow> read_digits b (acc * b + d) cs | None \<Rightarrow> (acc, c # cs))"

definition starts_digit :: "nat \<Rightarrow> string \<Rightarrow> bool" where
  "starts_digit b s = (case s of [] \<Rightarrow> False | c # _ \<Rightarrow> char_digit b c \<noteq> None)"

definition is_space :: "char \<Rightarrow> bool" where
  "is_space c \<longleftrightarrow> (let k = (of_char c :: nat) in k = 32 \<or> (9 \<le> k \<and> k \<le> 13))"

text \<open>
  The number at the start of a string, as \<open>strtol\<close> and \<open>sscanf\<close> read it: leading white space, an
  optional sign, for base 16 an optional \<open>0x\<close>, then digits. \<open>None\<close> is a matching failure.
\<close>

definition skip_0x :: "nat \<Rightarrow> string \<Rightarrow> string" where
  "skip_0x b s =
     (case s of c # x # r \<Rightarrow>
        if b = 16 \<and> c = CHR ''0'' \<and> (x = CHR ''x'' \<or> x = CHR ''X'') \<and> starts_digit b r then r else s
      | _ \<Rightarrow> s)"

definition scan_num :: "nat \<Rightarrow> string \<Rightarrow> (int \<times> string) option" where
  "scan_num b s =
     (let s1 = dropWhile is_space s;
          neg = (case s1 of c # _ \<Rightarrow> c = CHR ''-'' | _ \<Rightarrow> False);
          s2 = (case s1 of c # r \<Rightarrow> if c = CHR ''-'' \<or> c = CHR ''+'' then r else s1 | _ \<Rightarrow> s1);
          s3 = skip_0x b s2
      in if starts_digit b s3
         then (let (v, r) = read_digits b 0 s3 in Some (if neg then - int v else int v, r))
         else None)"

text \<open>\<open>strtol(s, &end, 10)\<close>: 0 on a matching failure, clamped to the range of \<open>long\<close>.\<close>

definition strtol10 :: "string \<Rightarrow> int" where
  "strtol10 s = (case scan_num 10 s of None \<Rightarrow> 0
     | Some (v, _) \<Rightarrow> max (- (2 ^ 63)) (min (2 ^ 63 - 1) v))"

text \<open>A \<open>long\<close> stored in an \<open>int\<close>.\<close>

definition to_int32 :: "int \<Rightarrow> int" where
  "to_int32 v = sint (word_of_int v :: 32 word)"

text \<open>\<open>sscanf\<close> of one conversion after a literal prefix: the value and the unread input.\<close>

fun eat :: "string \<Rightarrow> string \<Rightarrow> string option" where
  "eat [] s = Some s"
| "eat (p # ps) (c # cs) = (if p = c then eat ps cs else None)"
| "eat (p # ps) [] = None"

section \<open>Comparing strings\<close>

definition strcmp_eq :: "string \<Rightarrow> string \<Rightarrow> bool" where
  "strcmp_eq a b \<longleftrightarrow> a = b"

definition strncmp_eq :: "string \<Rightarrow> string \<Rightarrow> nat \<Rightarrow> bool" where
  "strncmp_eq a b n \<longleftrightarrow> take n a = take n b"

text \<open>The C string in a buffer: the bytes up to the first NUL.\<close>

definition c_str :: "string \<Rightarrow> string" where
  "c_str buf = takeWhile (\<lambda>c. c \<noteq> CHR 0x00) buf"

section \<open>Round trips\<close>

lemma char_digit_digit_char [simp]:
  assumes "d < b" "b \<le> 16"
  shows "char_digit b (digit_char d) = Some d"
proof -
  have "d < 16" using assms by simp
  then have "(of_char (digit_char d) :: nat) = (if d < 10 then 48 + d else 87 + d)"
    by (simp add: digit_char_def)
  then show ?thesis using assms by (simp add: char_digit_def Let_def)
qed

lemma digits_of_less: "d \<in> set (digits_of b n) \<Longrightarrow> d < b"
proof (induction b n rule: digits_of.induct)
  case (1 b n)
  then show ?case by (subst (asm) digits_of.simps) (auto split: if_splits)
qed

lemma digits_of_nonempty: "2 \<le> b \<Longrightarrow> digits_of b n \<noteq> []"
  by (subst digits_of.simps) simp

lemma digits_of_value: "2 \<le> b \<Longrightarrow> foldl (\<lambda>a d. a * b + d) 0 (digits_of b n) = n"
proof (induction b n rule: digits_of.induct)
  case (1 b n)
  show ?case
  proof (cases "n < b")
    case True
    then show ?thesis using 1(2) by (subst digits_of.simps) simp
  next
    case False
    then show ?thesis using 1 by (subst digits_of.simps) simp
  qed
qed

lemma length_digits_of: "\<lbrakk>2 \<le> b; n < b ^ k; 0 < k\<rbrakk> \<Longrightarrow> length (digits_of b n) \<le> k"
proof (induction b n arbitrary: k rule: digits_of.induct)
  case (1 b n)
  show ?case
  proof (cases "n < b")
    case True
    then show ?thesis using 1(2,4) by (subst digits_of.simps) simp
  next
    case False
    from \<open>n < b ^ k\<close> \<open>0 < k\<close> obtain j where k: "k = Suc j" by (cases k) auto
    have "0 < j"
    proof (rule ccontr)
      assume "\<not> 0 < j"
      then show False using 1(3) k False by simp
    qed
    moreover have "n div b < b ^ j" using 1(3) k by (simp add: less_mult_imp_div_less mult.commute)
    ultimately have "length (digits_of b (n div b)) \<le> j" using 1(1) [of j] 1(2) False by simp
    then show ?thesis using 1(2) False k by (subst digits_of.simps) simp
  qed
qed

lemma read_digits_map:
  assumes "\<forall>d\<in>set ds. d < b" "b \<le> 16"
  shows "read_digits b acc (map digit_char ds @ rest) = read_digits b (foldl (\<lambda>a d. a * b + d) acc ds) rest"
  using assms by (induction ds arbitrary: acc) auto

lemma read_digits_stop: "\<not> starts_digit b rest \<Longrightarrow> read_digits b acc rest = (acc, rest)"
  by (cases rest) (auto simp: starts_digit_def split: option.splits)

lemma read_zeros:
  assumes "2 \<le> b" "b \<le> 16"
  shows "read_digits b 0 (replicate k CHR ''0'' @ s) = read_digits b 0 s"
proof (induction k)
  case 0
  then show ?case by simp
next
  case (Suc k)
  have "char_digit b CHR ''0'' = Some 0" using assms by (simp add: char_digit_def)
  then show ?case using Suc by simp
qed

lemma read_print_pad:
  assumes "2 \<le> b" "b \<le> 16" "\<not> starts_digit b rest"
  shows "read_digits b 0 (print_pad w b n @ rest) = (n, rest)"
proof -
  have "read_digits b 0 (print_pad w b n @ rest) = read_digits b 0 (print_nat b n @ rest)"
    by (simp add: print_pad_def read_zeros [OF assms(1,2)])
  also have "\<dots> = (n, rest)"
    using assms by (simp add: print_nat_def read_digits_map digits_of_less digits_of_value read_digits_stop)
  finally show ?thesis .
qed

lemma length_print_pad:
  assumes "2 \<le> b" "n < b ^ k" "0 < k" "w \<le> k"
  shows "length (print_pad w b n) \<le> k"
  using length_digits_of [OF assms(1-3)] assms(4) by (simp add: print_pad_def print_nat_def)

lemma length_print_pad_exact:
  assumes "2 \<le> b" "n < b ^ w" "0 < w"
  shows "length (print_pad w b n) = w"
  using length_digits_of [OF assms] by (simp add: print_pad_def print_nat_def)

lemma set_print_pad:
  assumes "2 \<le> b" "b \<le> 16"
  shows "set (print_pad w b n) \<subseteq> digit_char ` {..<b}"
proof -
  have "CHR ''0'' = digit_char 0" by code_simp
  then show ?thesis using assms by (auto simp: print_pad_def print_nat_def digits_of_less)
qed

text \<open>
  A printed number, followed by nothing or by a separator, is read back by \<open>strtol\<close> and \<open>sscanf\<close>.
\<close>

definition ends_number :: "string \<Rightarrow> bool" where
  "ends_number rest \<longleftrightarrow> (case rest of [] \<Rightarrow> True | c # _ \<Rightarrow> c = CHR '':'')"

lemma ends_number_simps [simp]:
  "ends_number []"
  "ends_number (c # cs) \<longleftrightarrow> c = CHR '':''"
  by (simp_all add: ends_number_def)

lemma colon_no_digit: "\<lbrakk>ends_number rest; b \<le> 16\<rbrakk> \<Longrightarrow> \<not> starts_digit b rest"
  by (cases rest) (auto simp: starts_digit_def char_digit_def)

lemma digit_char_code:
  assumes "d < 16"
  shows "(of_char (digit_char d) :: nat) = (if d < 10 then 48 + d else 87 + d)"
  using assms by (simp add: digit_char_def)

lemma digit_char_plain:
  assumes "d < 16"
  shows "\<not> is_space (digit_char d)" "digit_char d \<noteq> CHR ''-''" "digit_char d \<noteq> CHR ''+''"
    "digit_char d \<noteq> CHR ''x''" "digit_char d \<noteq> CHR ''X''" "digit_char d \<noteq> CHR '':''"
proof -
  note c = digit_char_code [OF assms]
  show "\<not> is_space (digit_char d)" by (simp add: is_space_def c)
  have "(of_char CHR ''-'' :: nat) = 45" "(of_char CHR ''+'' :: nat) = 43"
    "(of_char CHR ''x'' :: nat) = 120" "(of_char CHR ''X'' :: nat) = 88" "(of_char CHR '':'' :: nat) = 58"
    by simp_all
  with c assms show "digit_char d \<noteq> CHR ''-''" "digit_char d \<noteq> CHR ''+''"
    "digit_char d \<noteq> CHR ''x''" "digit_char d \<noteq> CHR ''X''" "digit_char d \<noteq> CHR '':''"
    by (auto split: if_splits)
qed

lemma print_pad_shape:
  assumes "2 \<le> b" "b \<le> 16"
  obtains ds where "print_pad w b n = map digit_char ds" "ds \<noteq> []" "\<forall>d\<in>set ds. d < b"
proof -
  have "CHR ''0'' = digit_char 0" by code_simp
  then have "print_pad w b n = map digit_char (replicate (w - length (print_nat b n)) 0 @ digits_of b n)"
    by (simp add: print_pad_def print_nat_def)
  moreover have "replicate (w - length (print_nat b n)) 0 @ digits_of b n \<noteq> []"
    using digits_of_nonempty [OF assms(1)] by simp
  moreover have "\<forall>d\<in>set (replicate (w - length (print_nat b n)) 0 @ digits_of b n). d < b"
    using assms by (auto simp: digits_of_less)
  ultimately show thesis by (rule that)
qed

lemma scan_print_pad:
  assumes b: "2 \<le> b" "b \<le> 16" and rest: "ends_number rest"
  shows "scan_num b (print_pad w b n @ rest) = Some (int n, rest)"
proof -
  obtain ds where ds: "print_pad w b n = map digit_char ds" "ds \<noteq> []" "\<forall>d\<in>set ds. d < b"
    by (rule print_pad_shape [OF b])
  then obtain d ds' where dds: "ds = d # ds'" by (cases ds) auto
  have lt: "\<And>e. e \<in> set ds \<Longrightarrow> e < 16" using ds(3) b(2) by fastforce
  note plain = digit_char_plain [OF lt]
  let ?s = "print_pad w b n @ rest"
  have s: "?s = digit_char d # map digit_char ds' @ rest" using ds(1) dds by simp
  have sp: "dropWhile is_space ?s = ?s" using plain(1) [of d] dds by (simp add: s)
  have x: "skip_0x b ?s = ?s"
  proof (cases ds')
    case Nil
    then show ?thesis using s rest by (auto simp: skip_0x_def split: list.splits)
  next
    case (Cons e es)
    then show ?thesis using s plain(4,5) [of e] dds by (simp add: skip_0x_def)
  qed
  have st: "starts_digit b ?s" using s ds(3) dds b by (simp add: starts_digit_def)
  have sg: "digit_char d \<noteq> CHR ''-''" "digit_char d \<noteq> CHR ''+''" using plain(2,3) [of d] dds by auto
  have "read_digits b 0 ?s = (n, rest)"
    by (rule read_print_pad [OF b colon_no_digit [OF rest b(2)]])
  then have "scan_num b ?s = (if starts_digit b (skip_0x b ?s)
      then (let (v, r) = read_digits b 0 (skip_0x b ?s) in Some (int v, r)) else None)"
    unfolding scan_num_def Let_def sp using sg by (simp add: s)
  also have "\<dots> = Some (int n, rest)" using st x \<open>read_digits b 0 ?s = (n, rest)\<close> by simp
  finally show ?thesis .
qed

lemma print_pad_0: "print_pad 0 b n = print_nat b n"
  by (simp add: print_pad_def)

lemma scan_print_nat: "\<lbrakk>2 \<le> b; b \<le> 16; ends_number rest\<rbrakk> \<Longrightarrow> scan_num b (print_nat b n @ rest) = Some (int n, rest)"
  using scan_print_pad [of b rest 0 n] by (simp add: print_pad_0)

lemma strtol10_print_nat: "int n < 2 ^ 63 \<Longrightarrow> strtol10 (print_nat 10 n) = int n"
  using scan_print_nat [of 10 "[]" n] by (simp add: strtol10_def)

lemma eat_append [simp]: "eat p (p @ s) = Some s"
  by (induction p) auto

end
