(* ===== verification/Pacer_State.thy ===== *)
theory Pacer_State
  imports Prelude
begin

text \<open>
  The data the pacer daemon and the applications' drivers share (\<open>rdma_pacer/pacer.h\<close>,
  \<open>libmlx4/src/pacer.h\<close>): the shared-memory block with one \<open>flow_info\<close> per slot, and the daemon's
  private control block; the macros with the values of the shipped configuration (56 Gb/s,
  \<open>TREAT_L_AS_ONE\<close> on, \<open>CPU_FRIENDLY\<close>, \<open>DYNAMIC_CPU_OPT\<close>, \<open>USE_TIMEFRAME\<close>, \<open>HACK_APP_NUMS\<close> off); and the
  initialisation in \<open>main\<close>. Pointers to verbs objects are not part of the state.
\<close>

definition MAX_FLOWS :: nat where [macro_defs]: "MAX_FLOWS = 512"
definition MAX_SERVERS :: nat where [macro_defs]: "MAX_SERVERS = 4"
definition LINE_RATE_MB :: nat where [macro_defs]: "LINE_RATE_MB = 6000"
definition MSG_LEN :: nat where [macro_defs]: "MSG_LEN = 24"
definition DEFAULT_SPLIT_LEVEL :: nat where [macro_defs]: "DEFAULT_SPLIT_LEVEL = 2"
definition DEFAULT_CHUNK_SIZE :: u32 where [macro_defs]: "DEFAULT_CHUNK_SIZE = 1000000"
definition SMALL_CHUNK_SIZE :: u32 where [macro_defs]: "SMALL_CHUNK_SIZE = 5000"
definition EVEN_SMALLER_CHUNK_SIZE :: u32 where [macro_defs]: "EVEN_SMALLER_CHUNK_SIZE = 5000"
definition DEFAULT_BATCH_OPS :: u32 where [macro_defs]: "DEFAULT_BATCH_OPS = 1800"
definition MAX_TOKEN :: u64 where [macro_defs]: "MAX_TOKEN = 5"

record flow_info =
  fl_pending :: u8
  fl_active :: u8
  fl_read :: u8

record shared_block =
  sb_flows :: "flow_info list"
  sb_active_chunk_size :: u32
  sb_active_chunk_size_read :: u32
  sb_active_batch_ops :: u32
  sb_virtual_link_cap :: u32
  sb_num_active_big_flows :: u16
  sb_num_active_small_flows :: u16
  sb_num_active_bw_flows :: u16
  sb_split_level :: u16

record control_block =
  cb_sb :: shared_block
  cb_pid_list :: "int list"
  cb_tokens :: u64
  cb_tokens_read :: u64
  cb_app_vaddrs :: "u64 list"
  cb_remote_read_rate :: u32
  cb_local_read_rate :: u32
  cb_next_slot :: u16
  cb_num_big_read_flows :: u16
  cb_num_receiver_big_flows :: "u16 list"
  cb_num_receiver_small_flows :: "u16 list"

definition upd_flow :: "nat \<Rightarrow> (flow_info \<Rightarrow> flow_info) \<Rightarrow> shared_block \<Rightarrow> shared_block" where
  "upd_flow i f s = s\<lparr>sb_flows := (sb_flows s)[i := f (sb_flows s ! i)]\<rparr>"

lemma upd_flow_length [simp]: "length (sb_flows (upd_flow i f s)) = length (sb_flows s)"
  by (simp add: upd_flow_def)

text \<open>
  The start of \<open>main\<close>: the block mapped from \<open>/dev/shm\<close> holds whatever an earlier run left there
  (zeros when the object is new), the control block is a zero-initialised global.
\<close>

definition main_init :: "shared_block \<Rightarrow> control_block" where
  "main_init sb =
     \<lparr>cb_sb = sb\<lparr>
        sb_active_chunk_size := DEFAULT_CHUNK_SIZE,
        sb_active_chunk_size_read := DEFAULT_CHUNK_SIZE,
        sb_active_batch_ops := DEFAULT_BATCH_OPS,
        sb_virtual_link_cap := of_nat LINE_RATE_MB,
        sb_split_level := of_nat DEFAULT_SPLIT_LEVEL,
        sb_num_active_big_flows := 0,
        sb_num_active_small_flows := 0,
        sb_flows := map (\<lambda>f. f\<lparr>fl_pending := 0, fl_active := 0\<rparr>) (sb_flows sb)\<rparr>,
      cb_pid_list = replicate MAX_FLOWS (-1),
      cb_tokens = 0, cb_tokens_read = 0,
      cb_app_vaddrs = replicate MAX_SERVERS 0,
      cb_remote_read_rate = 0,
      cb_local_read_rate = of_nat LINE_RATE_MB,
      cb_next_slot = 0, cb_num_big_read_flows = 0,
      cb_num_receiver_big_flows = replicate MAX_SERVERS 0,
      cb_num_receiver_small_flows = replicate MAX_SERVERS 0\<rparr>"

definition zero_block :: shared_block where
  "zero_block = \<lparr>sb_flows = replicate MAX_FLOWS \<lparr>fl_pending = 0, fl_active = 0, fl_read = 0\<rparr>,
     sb_active_chunk_size = 0, sb_active_chunk_size_read = 0, sb_active_batch_ops = 0,
     sb_virtual_link_cap = 0, sb_num_active_big_flows = 0, sb_num_active_small_flows = 0,
     sb_num_active_bw_flows = 0, sb_split_level = 0\<rparr>"

text \<open>The shape every control block keeps: the lengths of its arrays.\<close>

definition cb_shape :: "control_block \<Rightarrow> bool" where
  "cb_shape cb \<longleftrightarrow> length (sb_flows (cb_sb cb)) = MAX_FLOWS \<and> length (cb_pid_list cb) = MAX_FLOWS \<and>
     length (cb_app_vaddrs cb) = MAX_SERVERS \<and> length (cb_num_receiver_big_flows cb) = MAX_SERVERS \<and>
     length (cb_num_receiver_small_flows cb) = MAX_SERVERS"

lemma MAX_FLOWS_pos [simp]: "0 < MAX_FLOWS"
  by (simp add: MAX_FLOWS_def)

lemma upd_flow_simps [simp]:
  "sb_virtual_link_cap (upd_flow i f b) = sb_virtual_link_cap b"
  "sb_active_chunk_size (upd_flow i f b) = sb_active_chunk_size b"
  by (simp_all add: upd_flow_def)

lemma cb_shape_simps [simp]:
  "cb_shape (cb\<lparr>cb_tokens := k\<rparr>) = cb_shape cb"
  "length (sb_flows b) = MAX_FLOWS \<Longrightarrow> cb_shape cb \<Longrightarrow> cb_shape (cb\<lparr>cb_sb := b\<rparr>)"
  "cb_shape cb \<Longrightarrow> cb_shape (cb\<lparr>cb_num_receiver_small_flows := (cb_num_receiver_small_flows cb)[i := v]\<rparr>)"
  by (simp_all add: cb_shape_def)

lemma cb_shape_flows [simp]: "cb_shape cb \<Longrightarrow> length (sb_flows (cb_sb cb)) = MAX_FLOWS"
  by (simp add: cb_shape_def)

lemma main_init_shape: "length (sb_flows sb) = MAX_FLOWS \<Longrightarrow> cb_shape (main_init sb)"
  by (simp add: cb_shape_def main_init_def)

text \<open>
  What \<open>main\<close> resets and what survives from an earlier run: the counter of bandwidth flows and the
  \<open>read\<close> marks of the slots are not assigned.
\<close>

lemma main_init_keeps:
  "sb_num_active_bw_flows (cb_sb (main_init sb)) = sb_num_active_bw_flows sb"
  "map fl_read (sb_flows (cb_sb (main_init sb))) = map fl_read (sb_flows sb)"
  by (simp_all add: main_init_def o_def)

end
