(* ===== verification/Slots.thy ===== *)
theory Slots
  imports Pacer_State
begin

text \<open>
  Slot allocation of the pacer (\<open>find_next_slot\<close> and \<open>find_vaddr_idx\<close> of \<open>rdma_pacer/pacer.c\<close>). A process
  that joins gets a slot of the flow table; joins of one process share a slot. The contract is the
  locale \<open>registry\<close>, whose client fact says which of a sequence of registrations coincide.
\<close>

section \<open>The interface of a registry of owners\<close>

locale registry =
  fixes reg :: "'p \<Rightarrow> 's \<Rightarrow> (nat \<times> 's) res"
    and owner :: "'s \<Rightarrow> nat \<Rightarrow> 'p option"
    and inv :: "'s \<Rightarrow> bool"
    and valid :: "'p \<Rightarrow> bool"
    and capacity :: nat
  assumes reg_ok: "\<lbrakk>inv s; valid p; reg p s = Inr (k, s')\<rbrakk> \<Longrightarrow>
      inv s' \<and> owner s' = (owner s)(k := Some p) \<and> (owner s k = None \<or> owner s k = Some p)"
    and reg_known: "\<lbrakk>inv s; valid p; owner s k = Some p\<rbrakk> \<Longrightarrow> \<exists>s'. reg p s = Inr (k, s')"
    and owner_unique: "\<lbrakk>inv s; owner s i = Some p; owner s j = Some p\<rbrakk> \<Longrightarrow> i = j"
    and owner_bound: "\<lbrakk>inv s; owner s i = Some p\<rbrakk> \<Longrightarrow> i < capacity"
begin

fun reg_all :: "'p list \<Rightarrow> 's \<Rightarrow> (nat list \<times> 's) res" where
  "reg_all [] s = Inr ([], s)"
| "reg_all (p # ps) s = res_bind (reg p s) (\<lambda>(k, s1).
     res_bind (reg_all ps s1) (\<lambda>(ks, s2). Inr (k # ks, s2)))"

lemma reg_all_owner:
  assumes "inv s" "\<forall>p\<in>set ps. valid p" "reg_all ps s = Inr (ks, s')"
  shows "inv s' \<and> length ks = length ps \<and> (\<forall>i<length ps. owner s' (ks ! i) = Some (ps ! i)) \<and>
    (\<forall>k p. owner s k = Some p \<longrightarrow> owner s' k = Some p)"
  using assms
proof (induction ps arbitrary: s ks)
  case Nil
  then show ?case by simp
next
  case (Cons p ps)
  from Cons.prems(3) obtain k s1 ks1 where r: "reg p s = Inr (k, s1)" "reg_all ps s1 = Inr (ks1, s')"
    "ks = k # ks1" by (auto simp: res_bind_eq_Inr)
  from reg_ok [OF Cons.prems(1) _ r(1)] Cons.prems(2) have s1: "inv s1" "owner s1 = (owner s)(k := Some p)"
    "owner s k = None \<or> owner s k = Some p" by auto
  from Cons.IH [OF s1(1) _ r(2)] Cons.prems(2) have IH: "inv s'" "length ks1 = length ps"
    "\<forall>i<length ps. owner s' (ks1 ! i) = Some (ps ! i)" "\<forall>k p. owner s1 k = Some p \<longrightarrow> owner s' k = Some p"
    by auto
  have "owner s' k = Some p" using IH(4) s1(2) by simp
  moreover have "owner s' j = Some q" if "owner s j = Some q" for j q
  proof (cases "j = k")
    case True
    then show ?thesis using that s1(3) \<open>owner s' k = Some p\<close> by simp
  next
    case False
    then show ?thesis using that IH(4) s1(2) by simp
  qed
  ultimately show ?case using IH r(3) by (auto simp: nth_Cons' less_Suc_eq_0_disj)
qed

lemma reg_all_same_slot:
  assumes "inv s" "\<forall>p\<in>set ps. valid p" "reg_all ps s = Inr (ks, s')" "i < length ps" "j < length ps"
  shows "ks ! i = ks ! j \<longleftrightarrow> ps ! i = ps ! j"
  using reg_all_owner [OF assms(1-3)] assms(4,5) owner_unique [of s'] by (metis option.inject)

lemma reg_all_too_many:
  assumes "inv s" "\<forall>p\<in>set ps. valid p" "reg_all ps s = Inr (ks, s')" "distinct ps"
  shows "length ps \<le> capacity"
proof -
  note r = reg_all_owner [OF assms(1-3)]
  have "distinct ks"
    using r reg_all_same_slot [OF assms(1-3)] assms(4) by (auto simp: distinct_conv_nth)
  moreover have "set ks \<subseteq> {..<capacity}"
    using r owner_bound [of s'] by (fastforce simp: in_set_conv_nth)
  ultimately have "length ks \<le> capacity"
    by (metis card_lessThan card_mono distinct_card finite_lessThan)
  then show ?thesis using r by simp
qed

end

section \<open>Slots of the flow table\<close>

definition find_next_slot :: "int \<Rightarrow> control_block \<Rightarrow> (nat \<times> control_block) res" where
  "find_next_slot pid cb =
     (if pid = -1 then Inl (Exit_code 1)
      else let
        ret_slot = (case first_from (\<lambda>p. p = pid) 0 (cb_pid_list cb) of
            Some i \<Rightarrow> Some i
          | None \<Rightarrow> first_from (\<lambda>p. p = -1) 0 (cb_pid_list cb))
      in case ret_slot of
           None \<Rightarrow> Inl (Exit_code 1)
         | Some i \<Rightarrow> Inr (i, cb\<lparr>cb_pid_list := (cb_pid_list cb)[i := pid]\<rparr>))"

fun find_vaddr_from :: "u64 list \<Rightarrow> u64 \<Rightarrow> nat \<Rightarrow> nat \<Rightarrow> int res" where
  "find_vaddr_from vaddrs v i 0 = Inr (-1)"
| "find_vaddr_from vaddrs v i (Suc k) = res_bind (arr_get vaddrs i) (\<lambda>x.
     if v = x then Inr (int i) else find_vaddr_from vaddrs v (Suc i) k)"

definition find_vaddr_idx :: "nat \<Rightarrow> u64 \<Rightarrow> control_block \<Rightarrow> int res" where
  "find_vaddr_idx num_servers vaddr cb = find_vaddr_from (cb_app_vaddrs cb) vaddr 0 num_servers"

definition slot_owner :: "control_block \<Rightarrow> nat \<Rightarrow> int option" where
  "slot_owner cb i = (if i < length (cb_pid_list cb) \<and> cb_pid_list cb ! i \<noteq> -1
     then Some (cb_pid_list cb ! i) else None)"

definition slots_inv :: "control_block \<Rightarrow> bool" where
  "slots_inv cb \<longleftrightarrow> length (cb_pid_list cb) = MAX_FLOWS \<and>
     (\<forall>i<MAX_FLOWS. \<forall>j<MAX_FLOWS. cb_pid_list cb ! i = cb_pid_list cb ! j \<longrightarrow>
        cb_pid_list cb ! i \<noteq> -1 \<longrightarrow> i = j)"

lemma slots_inv_length [simp]: "slots_inv cb \<Longrightarrow> length (cb_pid_list cb) = MAX_FLOWS"
  by (simp only: slots_inv_def)

lemma slots_invD:
  "\<lbrakk>slots_inv cb; i < MAX_FLOWS; j < MAX_FLOWS; cb_pid_list cb ! i = cb_pid_list cb ! j;
    cb_pid_list cb ! i \<noteq> -1\<rbrakk> \<Longrightarrow> i = j"
  unfolding slots_inv_def by blast

lemma slots_invI:
  assumes "length (cb_pid_list cb) = MAX_FLOWS"
    and "\<And>i j. \<lbrakk>i < MAX_FLOWS; j < MAX_FLOWS; cb_pid_list cb ! i = cb_pid_list cb ! j;
      cb_pid_list cb ! i \<noteq> -1\<rbrakk> \<Longrightarrow> i = j"
  shows "slots_inv cb"
  unfolding slots_inv_def using assms by blast

lemma slot_owner_Some:
  "slot_owner cb i = Some p \<longleftrightarrow> i < length (cb_pid_list cb) \<and> cb_pid_list cb ! i = p \<and> p \<noteq> -1"
  by (auto simp: slot_owner_def)

lemma slot_owner_unique:
  assumes "slots_inv cb" "slot_owner cb i = Some p" "slot_owner cb j = Some p"
  shows "i = j"
  using slots_invD [OF assms(1), of i j] assms by (simp add: slot_owner_Some)

lemma find_next_slot_cases:
  assumes "find_next_slot pid cb = Inr (k, cb')"
  shows "pid \<noteq> -1" "k < length (cb_pid_list cb)" "cb' = cb\<lparr>cb_pid_list := (cb_pid_list cb)[k := pid]\<rparr>"
    "cb_pid_list cb ! k = pid \<or> (cb_pid_list cb ! k = -1 \<and> pid \<notin> set (cb_pid_list cb))"
  using assms
  by (auto simp: find_next_slot_def Let_def first_from_None split: if_splits option.splits
      dest: first_0_Some(1,2))

lemma find_next_slot_ok:
  assumes "slots_inv cb" "find_next_slot pid cb = Inr (k, cb')"
  shows "slots_inv cb'" "slot_owner cb' = (slot_owner cb)(k := Some pid)"
    "slot_owner cb k = None \<or> slot_owner cb k = Some pid"
proof -
  note c = find_next_slot_cases [OF assms(2)]
  show "slot_owner cb k = None \<or> slot_owner cb k = Some pid" using c(4) by (auto simp: slot_owner_def)
  show "slot_owner cb' = (slot_owner cb)(k := Some pid)"
    using c(1-3) by (auto simp: slot_owner_def fun_eq_iff)
  have ne: "cb_pid_list cb ! i \<noteq> pid" if i: "i < MAX_FLOWS" "i \<noteq> k" for i
  proof
    assume p: "cb_pid_list cb ! i = pid"
    with i assms(1) have "pid \<in> set (cb_pid_list cb)" by (metis nth_mem slots_inv_length)
    with c(4) have "cb_pid_list cb ! k = cb_pid_list cb ! i" using p by simp
    with slots_invD [OF assms(1), of k i] c(1,2) p i assms(1) show False by simp
  qed
  show "slots_inv cb'"
  proof (rule slots_invI)
    show "length (cb_pid_list cb') = MAX_FLOWS" using assms(1) c(3) by simp
    fix i j
    assume h: "i < MAX_FLOWS" "j < MAX_FLOWS" "cb_pid_list cb' ! i = cb_pid_list cb' ! j"
      "cb_pid_list cb' ! i \<noteq> -1"
    show "i = j"
    proof (cases "i = k \<or> j = k")
      case True
      then show ?thesis using h ne [of i] ne [of j] c(2,3) assms(1) by (cases "i = k"; cases "j = k") auto
    next
      case False
      then show ?thesis using h c(3) by (intro slots_invD [OF assms(1)]) auto
    qed
  qed
qed

lemma find_next_slot_known:
  assumes "slots_inv cb" "pid \<noteq> -1" "slot_owner cb k = Some pid"
  shows "\<exists>cb'. find_next_slot pid cb = Inr (k, cb')"
proof -
  from assms(3) have k: "k < length (cb_pid_list cb)" "cb_pid_list cb ! k = pid"
    by (auto simp: slot_owner_Some)
  have "pid \<in> set (cb_pid_list cb)" using nth_mem [OF k(1)] unfolding k(2) .
  then have "first_from (\<lambda>p. p = pid) 0 (cb_pid_list cb) \<noteq> None"
    unfolding first_from_None by blast
  then obtain i where i: "first_from (\<lambda>p. p = pid) 0 (cb_pid_list cb) = Some i" by blast
  from first_0_Some(1,2) [OF i] assms(2) have "slot_owner cb i = Some pid"
    by (simp add: slot_owner_Some)
  from slot_owner_unique [OF assms(1) this assms(3)] have "i = k" .
  with i k assms(2) show ?thesis by (simp add: find_next_slot_def)
qed

lemma first_from_append:
  "\<forall>x\<in>set l. \<not> P x \<Longrightarrow> first_from P i (l @ xs) = first_from P (i + length l) xs"
  by (induction l arbitrary: i) simp_all

lemma find_next_slot_fresh:
  assumes "cb_pid_list cb = l @ replicate (Suc n) (-1)" "pid \<noteq> -1" "pid \<notin> set l" "-1 \<notin> set l"
  shows "find_next_slot pid cb = Inr (length l, cb\<lparr>cb_pid_list := l @ pid # replicate n (-1)\<rparr>)"
proof -
  have "first_from (\<lambda>p. p = pid) 0 (cb_pid_list cb) = None"
    using assms by (auto simp: first_from_None)
  moreover have "first_from (\<lambda>p. p = -1) 0 (cb_pid_list cb) = Some (length l)"
    using assms(4) by (subst assms(1), subst first_from_append) auto
  ultimately show ?thesis using assms(1,2) by (simp add: find_next_slot_def list_update_append)
qed

interpretation slots: registry find_next_slot slot_owner slots_inv "\<lambda>pid. pid \<noteq> -1" MAX_FLOWS
proof unfold_locales
  fix s s' p k i j
  show "slots_inv s' \<and> slot_owner s' = (slot_owner s)(k := Some p) \<and>
    (slot_owner s k = None \<or> slot_owner s k = Some p)"
    if "slots_inv s" "p \<noteq> -1" "find_next_slot p s = Inr (k, s')"
    using find_next_slot_ok [OF that(1,3)] by blast
  show "\<exists>s'. find_next_slot p s = Inr (k, s')" if "slots_inv s" "p \<noteq> -1" "slot_owner s k = Some p"
    using that by (rule find_next_slot_known)
  show "i = j" if "slots_inv s" "slot_owner s i = Some p" "slot_owner s j = Some p"
    using that by (rule slot_owner_unique)
  show "i < MAX_FLOWS" if "slots_inv s" "slot_owner s i = Some p"
    using that slots_inv_length by (simp add: slot_owner_Some)
qed

lemma main_init_slots_inv: "slots_inv (main_init sb)"
  by (rule slots_invI) (simp_all add: main_init_def)

definition join_all :: "int list \<Rightarrow> control_block \<Rightarrow> (nat list \<times> control_block) res" where
  "join_all = slots.reg_all"

lemma find_next_slot_exit: "find_next_slot pid cb = Inl e \<Longrightarrow> e = Exit_code 1"
  by (auto simp: find_next_slot_def Let_def split: if_splits option.splits)

lemma join_all_exit: "join_all ps cb = Inl e \<Longrightarrow> e = Exit_code 1"
  unfolding join_all_def
proof (induction ps arbitrary: cb)
  case Nil
  then show ?case by simp
next
  case (Cons p ps)
  show ?case
  proof (cases "find_next_slot p cb")
    case (Inl a)
    then show ?thesis using Cons.prems find_next_slot_exit by simp
  next
    case (Inr r)
    then obtain k cb1 where "find_next_slot p cb = Inr (k, cb1)" by (cases r) auto
    then show ?thesis using Cons.prems Cons.IH [of cb1] by (cases "slots.reg_all ps cb1") auto
  qed
qed

section \<open>Properties\<close>

text \<open>
  C17: in any sequence of joins the pacer answers, two joins get the same slot exactly when they
  come from the same process, and every slot lies inside the flow table.
\<close>

theorem join_slots_identify_processes:
  assumes "slots_inv cb" and "-1 \<notin> set pids" and "join_all pids cb = Inr (slots, cb')"
    and "i < length pids" and "j < length pids"
  shows "(slots ! i = slots ! j \<longleftrightarrow> pids ! i = pids ! j) \<and> slots ! i < MAX_FLOWS \<and>
    cb_pid_list cb' ! (slots ! i) = pids ! i \<and> slots_inv cb'"
proof -
  have v: "\<forall>p\<in>set pids. p \<noteq> -1" using assms(2) by auto
  note r = assms(3) [unfolded join_all_def]
  have "slot_owner cb' (slots ! i) = Some (pids ! i)" "slots_inv cb'"
    using slots.reg_all_owner [OF assms(1) v r] assms(4) by auto
  then show ?thesis
    using slots.reg_all_same_slot [OF assms(1) v r assms(4,5)]
    by (auto simp: slot_owner_Some)
qed

theorem join_slots_identify_processes_witness:
  "\<exists>slots cb'. join_all [11, 12, 11] (main_init zero_block) = Inr (slots, cb') \<and>
     slots ! 0 = slots ! 2 \<and> slots ! 0 \<noteq> slots ! 1"
proof -
  let ?cb = "main_init zero_block"
  define cb1 where "cb1 = ?cb\<lparr>cb_pid_list := [] @ 11 # replicate 511 (-1)\<rparr>"
  define cb2 where "cb2 = cb1\<lparr>cb_pid_list := [11] @ 12 # replicate 510 (-1)\<rparr>"
  have "find_next_slot 11 ?cb = Inr (0, cb1)"
    using find_next_slot_fresh [of ?cb "[]" 511 11] by (simp add: cb1_def main_init_def MAX_FLOWS_def)
  moreover have "replicate 511 (-1) = (-1 :: int) # replicate 510 (-1)"
    by (metis replicate_Suc numeral_eq_Suc pred_numeral_simps(2,3) BitM.simps(2))
  then have "find_next_slot 12 cb1 = Inr (1, cb2)"
    using find_next_slot_fresh [of cb1 "[11]" 510 12] by (simp add: cb1_def cb2_def)
  moreover have "\<exists>cb3. find_next_slot 11 cb2 = Inr (0, cb3)"
    by (simp add: cb2_def find_next_slot_def)
  ultimately have "\<exists>slots cb'. join_all [11, 12, 11] ?cb = Inr (slots, cb')"
    by (auto simp: join_all_def)
  then obtain slots cb' where r: "join_all [11, 12, 11] (main_init zero_block) = Inr (slots, cb')" by blast
  then show ?thesis
    using join_slots_identify_processes [OF main_init_slots_inv _ r, of 0 2]
      join_slots_identify_processes [OF main_init_slots_inv _ r, of 0 1] by auto
qed

text \<open>
  slots are never given back, so the daemon lives for at most \<open>MAX_FLOWS\<close> distinct processes: from
  any state, a sequence of joins by more than 512 distinct processes ends in \<open>exit(1)\<close>.
\<close>

theorem too_many_processes_exit:
  assumes "slots_inv cb" and "-1 \<notin> set pids" and "distinct pids" and "MAX_FLOWS < length pids"
  shows "join_all pids cb = Inl (Exit_code 1)"
proof (cases "join_all pids cb")
  case (Inl e)
  then show ?thesis using join_all_exit by simp
next
  case (Inr r)
  then obtain slots cb' where "slots.reg_all pids cb = Inr (slots, cb')"
    by (cases r) (simp add: join_all_def)
  then have "length pids \<le> MAX_FLOWS"
    using slots.reg_all_too_many [OF assms(1) _ _ assms(3)] assms(2) by auto
  then show ?thesis using assms(4) by simp
qed

theorem too_many_processes_exit_witness:
  "join_all (map int [1..<514]) (main_init zero_block) = Inl (Exit_code 1)"
  by (rule too_many_processes_exit [OF main_init_slots_inv])
    (auto simp: distinct_map MAX_FLOWS_def)

end
