(* ===== verification/Tokens.thy ===== *)
theory Tokens
  imports Pacer_State
begin

text \<open>
  The token generator (\<open>generate_fetch_tokens\<close> of \<open>rdma_pacer/pacer.c\<close>), the thread that paces every
  large flow: it takes the virtual link capacity the monitor computes, picks a chunk size, grants
  one pending flow in round-robin order, and waits as many cycles as one chunk needs at that
  capacity. The thread is a small-step machine, one step per iteration of a loop or decision between them,
  composed with the other threads and the applications in a step relation.
\<close>

section \<open>The machine\<close>

datatype gen_pc = Load_cap | Scan | Generate | Wait | Stamp

record gen_state =
  gs_cb :: control_block
  gs_pc :: gen_pc
  gs_i :: nat
  gs_next_idx :: nat
  gs_start_flag :: bool
  gs_start_cycle :: u64
  gs_chunk_size :: u32
  gs_temp :: u32

definition try_fetch_a_token :: "control_block \<Rightarrow> bool \<times> control_block" where
  "try_fetch_a_token cb =
     (if cb_tokens cb \<noteq> 0 then (True, cb\<lparr>cb_tokens := cb_tokens cb - 1\<rparr>) else (False, cb))"

text \<open>\<open>fetch_token\<close> blocks: \<open>None\<close> is a turn of its waiting loop.\<close>

definition fetch_token :: "control_block \<Rightarrow> control_block option" where
  "fetch_token cb =
     (if cb_tokens cb = 0 then None else Some (cb\<lparr>cb_tokens := cb_tokens cb - 1\<rparr>))"

definition choose_chunk_size :: "u32 \<Rightarrow> control_block \<Rightarrow> u32" where
  "choose_chunk_size cap cb =
     (if cb_num_receiver_small_flows cb ! 0 \<noteq> 0
      then (if unat cap > LINE_RATE_MB div 3 then SMALL_CHUNK_SIZE else EVEN_SMALLER_CHUNK_SIZE)
      else DEFAULT_CHUNK_SIZE)"

text \<open>\<open>cpu_mhz * chunk_size / temp\<close>: the product is an unsigned 32-bit one.\<close>

definition wait_target :: "u32 \<Rightarrow> u32 \<Rightarrow> u32 \<Rightarrow> u32" where
  "wait_target cpu_mhz chunk_size temp = (cpu_mhz * chunk_size) div temp"

definition gen_start :: "control_block \<Rightarrow> gen_state" where
  "gen_start cb =
     \<lparr>gs_cb = cb\<lparr>cb_sb := (cb_sb cb)\<lparr>sb_active_chunk_size := DEFAULT_CHUNK_SIZE,
                                   sb_active_batch_ops := DEFAULT_BATCH_OPS\<rparr>,
                cb_tokens := 1\<rparr>,
      gs_pc = Load_cap, gs_i = 0, gs_next_idx = 0, gs_start_flag = True, gs_start_cycle = 0,
      gs_chunk_size = DEFAULT_CHUNK_SIZE, gs_temp = 0\<rparr>"

definition load_cap_step :: "gen_state \<Rightarrow> gen_state" where
  "load_cap_step s =
     (let cb = gs_cb s; temp = sb_virtual_link_cap (cb_sb cb) in
      if temp = 0 then s\<lparr>gs_temp := temp\<rparr>
      else let chunk = choose_chunk_size temp cb in
        s\<lparr>gs_cb := cb\<lparr>cb_sb := (cb_sb cb)\<lparr>sb_active_chunk_size := chunk,
                                            sb_active_batch_ops := DEFAULT_BATCH_OPS\<rparr>\<rparr>,
          gs_temp := temp, gs_chunk_size := chunk, gs_i := gs_next_idx s, gs_pc := Scan\<rparr>)"

definition wants_token :: "gen_state \<Rightarrow> nat \<Rightarrow> bool" where
  "wants_token s i \<longleftrightarrow> (let f = sb_flows (cb_sb (gs_cb s)) ! i in fl_read f = 0 \<and> fl_pending f \<noteq> 0)"

text \<open>
  One iteration of the scan is one step: the two loads that test a slot, and, if it waits, the fetch of a token, the store that
  answers the request and the advance. Of the fields in between, only the generator takes tokens from \<open>tokens\<close>, and of the others that write
  the slot a request cannot come while one is waiting, and an exit or a change of \<open>read\<close> after the loads leaves what it would have left
  after the step. What the step does not show is an application that marks its slot for READ and asks between the
  two loads: it is granted a token of this generator.
\<close>

definition scan_step :: "gen_state \<Rightarrow> gen_state" where
  "scan_step s =
     (if wants_token s (gs_i s)
      then case try_fetch_a_token (gs_cb s) of
          (True, cb) \<Rightarrow>
            s\<lparr>gs_cb := cb\<lparr>cb_sb := upd_flow (gs_i s) (\<lambda>f. f\<lparr>fl_pending := 0\<rparr>) (cb_sb cb)\<rparr>,
              gs_next_idx := (gs_i s + 1) mod MAX_FLOWS, gs_pc := Generate\<rparr>
        | (False, cb) \<Rightarrow> s\<lparr>gs_cb := cb, gs_next_idx := gs_i s, gs_pc := Generate\<rparr>
      else s\<lparr>gs_i := (gs_i s + 1) mod MAX_FLOWS\<rparr>)"

definition add_token :: "u64 \<Rightarrow> gen_state \<Rightarrow> gen_state" where
  "add_token now s = s\<lparr>gs_start_cycle := now,
     gs_cb := (gs_cb s)\<lparr>cb_tokens := cb_tokens (gs_cb s) + 1\<rparr>, gs_pc := Load_cap\<rparr>"

definition generate_step :: "u64 \<Rightarrow> gen_state \<Rightarrow> gen_state" where
  "generate_step now s =
     (if cb_tokens (gs_cb s) < MAX_TOKEN
      then (if gs_start_flag s then add_token now (s\<lparr>gs_start_flag := False\<rparr>) else s\<lparr>gs_pc := Wait\<rparr>)
      else s\<lparr>gs_pc := Load_cap\<rparr>)"

definition wait_step :: "u32 \<Rightarrow> u64 \<Rightarrow> gen_state \<Rightarrow> gen_state" where
  "wait_step mhz now s =
     (if now - gs_start_cycle s < ucast (wait_target mhz (gs_chunk_size s) (gs_temp s)) then s
      else s\<lparr>gs_pc := Stamp\<rparr>)"

fun gen_step :: "u32 \<Rightarrow> u64 \<Rightarrow> gen_state \<Rightarrow> gen_state" where
  "gen_step mhz now s = (case gs_pc s of
       Load_cap \<Rightarrow> load_cap_step s
     | Scan \<Rightarrow> scan_step s
     | Generate \<Rightarrow> generate_step now s
     | Wait \<Rightarrow> wait_step mhz now s
     | Stamp \<Rightarrow> add_token now s)"

section \<open>The machine among the other threads\<close>

text \<open>
  The label of a step says what a log of the run has to know: a grant with the bytes it stands for,
  a look at a slot with no request, an application leaving, one that marks its flow as one of READ or as none. \<open>cap\<close> bounds the capacities the monitor stores.
\<close>

datatype gen_event = Grant nat nat | Skipped nat | Exit nat | Marked nat u8 | Tau

definition gen_event :: "gen_state \<Rightarrow> gen_event" where
  "gen_event s =
     (if gs_pc s = Scan then
        (if wants_token s (gs_i s) then
           (if cb_tokens (gs_cb s) \<noteq> 0 then Grant (gs_i s) (unat (gs_chunk_size s)) else Tau)
         else Skipped (gs_i s))
      else Tau)"

definition upd_sb :: "(shared_block \<Rightarrow> shared_block) \<Rightarrow> gen_state \<Rightarrow> gen_state" where
  "upd_sb f s = s\<lparr>gs_cb := (gs_cb s)\<lparr>cb_sb := f (cb_sb (gs_cb s))\<rparr>\<rparr>"

definition set_pending :: "nat \<Rightarrow> gen_state \<Rightarrow> gen_state" where
  "set_pending j = upd_sb (upd_flow j (\<lambda>f. f\<lparr>fl_pending := 1\<rparr>))"

definition clear_on_exit :: "nat \<Rightarrow> gen_state \<Rightarrow> gen_state" where
  "clear_on_exit j = upd_sb (upd_flow j (\<lambda>f. f\<lparr>fl_pending := 0, fl_active := 0\<rparr>))"

definition set_read :: "nat \<Rightarrow> u8 \<Rightarrow> gen_state \<Rightarrow> gen_state" where
  "set_read j v = upd_sb (upd_flow j (\<lambda>f. f\<lparr>fl_read := v\<rparr>))"

inductive pacer_step :: "u32 \<Rightarrow> nat \<Rightarrow> nat \<times> gen_state \<Rightarrow> gen_event \<Rightarrow> nat \<times> gen_state \<Rightarrow> bool"
  for mhz :: u32 and cap :: nat where
  generator: "pacer_step mhz cap (t, s) (gen_event s) (t, gen_step mhz (of_nat t) s)"
| clock: "t \<le> t' \<Longrightarrow> pacer_step mhz cap (t, s) Tau (t', s)"
| request: "j < MAX_FLOWS \<Longrightarrow> pacer_step mhz cap (t, s) Tau (t, set_pending j s)"
| app_exit: "j < MAX_FLOWS \<Longrightarrow> pacer_step mhz cap (t, s) (Exit j) (t, clear_on_exit j s)"
| read_flag: "j < MAX_FLOWS \<Longrightarrow> pacer_step mhz cap (t, s) (Marked j v) (t, set_read j v s)"
| monitor: "unat v \<le> cap \<Longrightarrow>
    pacer_step mhz cap (t, s) Tau (t, upd_sb (\<lambda>b. b\<lparr>sb_virtual_link_cap := v\<rparr>) s)"
| receiver_info: "pacer_step mhz cap (t, s) Tau
    (t, s\<lparr>gs_cb := (gs_cb s)\<lparr>cb_num_receiver_small_flows := (cb_num_receiver_small_flows (gs_cb s))[0 := n]\<rparr>\<rparr>)"

inductive pacer_run :: "u32 \<Rightarrow> nat \<Rightarrow> nat \<times> gen_state \<Rightarrow> gen_event list \<Rightarrow> nat \<times> gen_state \<Rightarrow> bool"
  for mhz :: u32 and cap :: nat where
  stop: "pacer_run mhz cap c [] c"
| step: "\<lbrakk>pacer_run mhz cap c es c'; pacer_step mhz cap c' e c''\<rbrakk> \<Longrightarrow> pacer_run mhz cap c (es @ [e]) c''"

inductive_cases pacer_stepE: "pacer_step mhz cap (t, s) e (t', s')"

section \<open>Invariant\<close>

definition gen_inv :: "nat \<Rightarrow> gen_state \<Rightarrow> bool" where
  "gen_inv cap s \<longleftrightarrow>
     cb_shape (gs_cb s) \<and> gs_i s < MAX_FLOWS \<and> gs_next_idx s < MAX_FLOWS \<and>
     cb_tokens (gs_cb s) = (if gs_pc s = Load_cap \<or> gs_pc s = Scan then 1 else 0) \<and>
     (gs_pc s \<noteq> Load_cap \<longrightarrow> gs_temp s \<noteq> 0) \<and>
     (gs_chunk_size s = DEFAULT_CHUNK_SIZE \<or> gs_chunk_size s = SMALL_CHUNK_SIZE) \<and>
     (gs_start_flag s \<longrightarrow> gs_pc s \<noteq> Wait \<and> gs_pc s \<noteq> Stamp) \<and>
     unat (sb_virtual_link_cap (cb_sb (gs_cb s))) \<le> cap \<and> unat (gs_temp s) \<le> cap"

lemmas gen_step_defs = load_cap_step_def scan_step_def generate_step_def wait_step_def add_token_def
  try_fetch_a_token_def Let_def

lemma choose_chunk_size_cases:
  "choose_chunk_size temp cb = DEFAULT_CHUNK_SIZE \<or> choose_chunk_size temp cb = SMALL_CHUNK_SIZE"
  by (simp add: choose_chunk_size_def SMALL_CHUNK_SIZE_def EVEN_SMALLER_CHUNK_SIZE_def)

lemma gen_start_inv:
  assumes "cb_shape cb" "unat (sb_virtual_link_cap (cb_sb cb)) \<le> cap"
  shows "gen_inv cap (gen_start cb)"
  using assms by (simp add: gen_inv_def gen_start_def)

lemma load_cap_inv: "\<lbrakk>gen_inv cap s; gs_pc s = Load_cap\<rbrakk> \<Longrightarrow> gen_inv cap (load_cap_step s)"
  using choose_chunk_size_cases by (simp add: gen_inv_def load_cap_step_def Let_def)

lemma scan_inv: "\<lbrakk>gen_inv cap s; gs_pc s = Scan\<rbrakk> \<Longrightarrow> gen_inv cap (scan_step s)"
  by (simp add: gen_inv_def scan_step_def try_fetch_a_token_def)

lemma generate_inv: "\<lbrakk>gen_inv cap s; gs_pc s = Generate\<rbrakk> \<Longrightarrow> gen_inv cap (generate_step now s)"
  by (simp add: gen_inv_def generate_step_def add_token_def MAX_TOKEN_def)

lemma wait_inv: "\<lbrakk>gen_inv cap s; gs_pc s = Wait\<rbrakk> \<Longrightarrow> gen_inv cap (wait_step mhz now s)"
  by (simp add: gen_inv_def wait_step_def)

lemma stamp_inv: "\<lbrakk>gen_inv cap s; gs_pc s = Stamp\<rbrakk> \<Longrightarrow> gen_inv cap (add_token now s)"
  by (simp add: gen_inv_def add_token_def)

lemma gen_step_inv: "gen_inv cap s \<Longrightarrow> gen_inv cap (gen_step mhz now s)"
  by (cases "gs_pc s")
    (simp_all add: load_cap_inv scan_inv generate_inv wait_inv stamp_inv)

lemma pacer_step_inv:
  assumes "pacer_step mhz cap c e c'" "gen_inv cap (snd c)"
  shows "gen_inv cap (snd c')"
  using assms
proof (cases rule: pacer_step.cases)
  case generator
  then show ?thesis using assms(2) gen_step_inv by (simp del: gen_step.simps)
qed (simp_all add: gen_inv_def set_pending_def clear_on_exit_def set_read_def upd_sb_def)

lemma pacer_run_inv:
  "\<lbrakk>pacer_run mhz cap c es c'; gen_inv cap (snd c)\<rbrakk> \<Longrightarrow> gen_inv cap (snd c')"
  by (induction rule: pacer_run.induct) (auto intro: pacer_step_inv)

section \<open>Round robin\<close>

text \<open>
  \<open>lag j s\<close> is the number of slots the scan visits before slot \<open>j\<close>. While \<open>j\<close> waits, every step of the
  scan lowers it by one; nothing but a grant to \<open>j\<close> raises it.
\<close>

definition lag :: "nat \<Rightarrow> gen_state \<Rightarrow> nat" where
  "lag j s = (j + MAX_FLOWS - (if gs_pc s = Scan then gs_i s else gs_next_idx s)) mod MAX_FLOWS"

definition is_scan :: "gen_event \<Rightarrow> bool" where
  "is_scan e = (case e of Grant _ _ \<Rightarrow> True | Skipped _ \<Rightarrow> True | _ \<Rightarrow> False)"

definition concerns :: "nat \<Rightarrow> gen_event \<Rightarrow> bool" where
  "concerns j e = (case e of Grant i _ \<Rightarrow> i = j | Exit i \<Rightarrow> i = j | Marked i v \<Rightarrow> i = j \<and> v \<noteq> 0 | _ \<Rightarrow> False)"

lemma lag_next:
  assumes "i < n" "j < n" "i \<noteq> (j::nat)"
  shows "Suc ((j + n - Suc i mod n) mod n) = (j + n - i) mod n"
proof (cases "Suc i = n")
  case True
  then have "(j + n - i) = Suc j" using assms by simp
  then show ?thesis using True assms by (simp add: mod_less)
next
  case False
  then have s: "Suc i mod n = Suc i" using assms by simp
  show ?thesis
  proof (cases "i < j")
    case True
    have "(j - i + n) mod n = j - i" "(j - Suc i + n) mod n = j - Suc i"
      using assms(2) by (simp_all only: mod_add_self2) (simp_all add: mod_less)
    moreover have "j - i + n = j + n - i" "j - Suc i + n = j + n - Suc i" using True by simp_all
    ultimately have "(j + n - i) mod n = j - i" "(j + n - Suc i) mod n = j - Suc i" by simp_all
    then show ?thesis using True s by simp
  next
    case False
    then show ?thesis using assms s by (simp add: mod_less)
  qed
qed

lemma wants_token_set_pending:
  "\<lbrakk>cb_shape (gs_cb s); i < MAX_FLOWS; j < MAX_FLOWS; wants_token s j; i \<noteq> j\<rbrakk> \<Longrightarrow> wants_token (set_pending i s) j"
  by (simp add: wants_token_def set_pending_def upd_sb_def upd_flow_def)

lemma wants_token_own_request:
  "\<lbrakk>cb_shape (gs_cb s); j < MAX_FLOWS; wants_token s j\<rbrakk> \<Longrightarrow> wants_token (set_pending j s) j"
  by (simp add: wants_token_def set_pending_def upd_sb_def upd_flow_def Let_def)

lemma gen_step_lag:
  assumes "gen_inv cap s" "j < MAX_FLOWS" "wants_token s j" "\<not> concerns j (gen_event s)"
  shows "wants_token (gen_step mhz now s) j \<and>
    lag j (gen_step mhz now s) + (if is_scan (gen_event s) then 1 else 0) = lag j s"
proof (cases "gs_pc s")
  case Scan
  have i: "gs_i s < MAX_FLOWS" "cb_tokens (gs_cb s) = 1" "length (sb_flows (cb_sb (gs_cb s))) = MAX_FLOWS"
    using assms(1) Scan by (auto simp: gen_inv_def)
  have ne: "gs_i s \<noteq> j" using assms(3,4) Scan i(2)
    by (auto simp: gen_event_def concerns_def split: if_splits)
  show ?thesis
    using Scan i ne assms(3) lag_next [OF i(1) assms(2) ne]
    by (auto simp: scan_step_def try_fetch_a_token_def gen_event_def is_scan_def lag_def wants_token_def
        upd_flow_def Let_def)
qed (use assms(3) in \<open>auto simp: load_cap_step_def generate_step_def wait_step_def add_token_def Let_def
    gen_event_def is_scan_def lag_def wants_token_def\<close>)

lemma pacer_step_lag:
  assumes "pacer_step mhz cap c e c'" "gen_inv cap (snd c)" "j < MAX_FLOWS" "wants_token (snd c) j"
    "\<not> concerns j e"
  shows "wants_token (snd c') j \<and> lag j (snd c') + (if is_scan e then 1 else 0) = lag j (snd c)"
  using assms(1)
proof (cases rule: pacer_step.cases)
  case (generator t s)
  then show ?thesis using gen_step_lag [of cap s j mhz "of_nat t"] assms(2-5)
    by (simp del: gen_step.simps)
next
  case (request i t s)
  have sh: "cb_shape (gs_cb s)" using assms(2) request by (simp add: gen_inv_def)
  have "wants_token (set_pending i s) j"
    using wants_token_set_pending [OF sh, of i j] wants_token_own_request [OF sh, of j] request assms(3,4)
    by (cases "i = j") simp_all
  then show ?thesis using request by (simp add: is_scan_def lag_def set_pending_def upd_sb_def)
next
  case (app_exit i t s)
  have sh: "cb_shape (gs_cb s)" using assms(2) app_exit by (simp add: gen_inv_def)
  have "i \<noteq> j" using app_exit assms(5) by (simp add: concerns_def)
  then show ?thesis using app_exit assms(4) sh
    by (simp add: is_scan_def lag_def clear_on_exit_def upd_sb_def wants_token_def upd_flow_def)
next
  case (read_flag i t s v)
  have sh: "cb_shape (gs_cb s)" using assms(2) read_flag by (simp add: gen_inv_def)
  have "i \<noteq> j \<or> v = 0" using read_flag assms(5) by (simp add: concerns_def)
  then show ?thesis using read_flag assms(3,4) sh
    by (cases "i = j") (auto simp: is_scan_def lag_def set_read_def upd_sb_def wants_token_def upd_flow_def Let_def)
qed (use assms(4) in \<open>auto simp: is_scan_def lag_def wants_token_def upd_sb_def\<close>)

lemma pacer_run_lag:
  assumes "pacer_run mhz cap c es c'" "gen_inv cap (snd c)" "j < MAX_FLOWS" "wants_token (snd c) j"
    "\<forall>e\<in>set es. \<not> concerns j e"
  shows "wants_token (snd c') j \<and> lag j (snd c') + length (filter is_scan es) = lag j (snd c)"
  using assms
proof (induction rule: pacer_run.induct)
  case (stop c)
  then show ?case by simp
next
  case (step c es c' e c'')
  then have IH: "wants_token (snd c') j \<and> lag j (snd c') + length (filter is_scan es) = lag j (snd c)"
    by simp
  have "gen_inv cap (snd c')" using pacer_run_inv step.hyps(1) step.prems(1) .
  from pacer_step_lag [OF step.hyps(2) this step.prems(2)] IH step.prems(4)
  show ?case by auto
qed

section \<open>Rate\<close>

fun event_bytes :: "gen_event \<Rightarrow> nat" where
  "event_bytes (Grant i b) = b"
| "event_bytes _ = 0"

definition granted_bytes :: "gen_event list \<Rightarrow> nat" where
  "granted_bytes es = sum_list (map event_bytes es)"

definition num_grants :: "gen_event list \<Rightarrow> nat" where
  "num_grants es = length (filter (\<lambda>e. case e of Grant _ _ \<Rightarrow> True | _ \<Rightarrow> False) es)"

lemma granted_bytes_simps [simp]:
  "granted_bytes [] = 0" "granted_bytes (es @ [e]) = granted_bytes es + event_bytes e"
  by (simp_all add: granted_bytes_def)

lemma num_grants_simps [simp]:
  "num_grants [] = 0"
  "num_grants (es @ [e]) = num_grants es + (case e of Grant _ _ \<Rightarrow> 1 | _ \<Rightarrow> 0)"
  by (simp_all add: num_grants_def split: gen_event.splits)

text \<open>
  \<open>n\<close> grants of \<open>b\<close> bytes in all have been logged since the generator started at cycle \<open>t0\<close>; \<open>d\<close> is the
  time of the last token since then. Multiplying by \<open>mhz\<close> avoids the division.
\<close>

definition rate_bound :: "u32 \<Rightarrow> nat \<Rightarrow> nat \<Rightarrow> nat \<Rightarrow> nat \<Rightarrow> nat \<Rightarrow> gen_state \<Rightarrow> bool" where
  "rate_bound mhz cap d e b n s \<longleftrightarrow>
     (if gs_pc s = Load_cap \<or> gs_pc s = Scan
      then unat mhz * b \<le> cap * d + cap * n + unat mhz * 1000000
      else if gs_pc s = Generate \<or> gs_pc s = Wait
      then unat mhz * b + cap \<le> cap * d + cap * n + unat mhz * 1000000 + unat mhz * unat (gs_chunk_size s)
      else unat mhz * b \<le> cap * e + cap * n + unat mhz * 1000000)"

definition rate_inv :: "u32 \<Rightarrow> nat \<Rightarrow> nat \<Rightarrow> nat \<Rightarrow> gen_state \<Rightarrow> nat \<Rightarrow> nat \<Rightarrow> bool" where
  "rate_inv mhz cap t0 t s b n \<longleftrightarrow> t0 \<le> t \<and>
     (if gs_start_flag s
      then (if gs_pc s = Load_cap \<or> gs_pc s = Scan then b = 0 \<and> n = 0 else b \<le> 1000000)
      else \<exists>d. gs_start_cycle s = of_nat (t0 + d) \<and> t0 + d \<le> t \<and> rate_bound mhz cap d (t - t0) b n s)"

lemma wait_target_exact:
  assumes "unat mhz * unat chunk < 2 ^ 32"
  shows "unat (wait_target mhz chunk temp) = unat mhz * unat chunk div unat temp"
  using assms by (simp add: wait_target_def unat_div_distrib unat_mult_lem [THEN iffD1])

lemma unat_of_nat_diff_le: "(a::nat) \<le> b \<Longrightarrow> unat (of_nat b - of_nat a :: u64) \<le> b - a"
  by (metis of_nat_diff unat_of_nat mod_less_eq_dividend)

lemma chunk_le:
  assumes "gen_inv cap s"
  shows "unat (gs_chunk_size s) \<le> 1000000"
  using assms by (auto simp: gen_inv_def DEFAULT_CHUNK_SIZE_def SMALL_CHUNK_SIZE_def)

lemma waited_enough:
  assumes "gen_inv cap s" "gs_pc s = Wait" "unat mhz < 4295" "t0 + d \<le> t"
    and "\<not> of_nat t - of_nat (t0 + d) < (ucast (wait_target mhz (gs_chunk_size s) (gs_temp s)) :: u64)"
  shows "unat mhz * unat (gs_chunk_size s) \<le> cap * (t - (t0 + d)) + cap"
proof -
  let ?c = "unat mhz * unat (gs_chunk_size s)" and ?w = "t - (t0 + d)"
  have temp: "gs_temp s \<noteq> 0" "unat (gs_temp s) \<le> cap" using assms(1,2) by (auto simp: gen_inv_def)
  have "?c \<le> 4294 * 1000000" using assms(3) chunk_le [OF assms(1)] by (intro mult_le_mono) auto
  then have c: "?c < 2 ^ 32" by simp
  have "unat (wait_target mhz (gs_chunk_size s) (gs_temp s)) \<le> ?w"
    using assms(5) unat_of_nat_diff_le [OF assms(4)]
    by (simp add: not_less word_le_nat_alt)
  then have "?c div unat (gs_temp s) \<le> ?w" using wait_target_exact [OF c] by simp
  moreover have "0 < unat (gs_temp s)" using temp(1) by (simp add: unat_gt_0)
  ultimately have "?c < unat (gs_temp s) * Suc ?w"
    by (metis div_less_iff_less_mult less_Suc_eq_le mult.commute)
  also have "\<dots> \<le> cap * Suc ?w" using temp(2) by (rule mult_le_mono1)
  finally show ?thesis by simp
qed

lemma rate_generator:
  assumes "gen_inv cap s" "unat mhz < 4295" "rate_inv mhz cap t0 t s b n"
  shows "rate_inv mhz cap t0 t (gen_step mhz (of_nat t) s) (b + event_bytes (gen_event s))
    (n + (case gen_event s of Grant _ _ \<Rightarrow> 1 | _ \<Rightarrow> 0))"
proof (cases "gs_pc s")
  case Load_cap
  then show ?thesis using assms(3)
    by (auto simp: load_cap_step_def Let_def gen_event_def rate_inv_def rate_bound_def)
next
  case Scan
  have tok: "cb_tokens (gs_cb s) = 1" using assms(1) Scan by (simp add: gen_inv_def)
  show ?thesis
  proof (cases "gs_start_flag s")
    case True
    then show ?thesis using Scan tok assms(3) chunk_le [OF assms(1)]
      by (simp add: scan_step_def try_fetch_a_token_def gen_event_def rate_inv_def)
  next
    case False
    then show ?thesis using Scan tok assms(3)
      by (auto simp: scan_step_def try_fetch_a_token_def gen_event_def rate_inv_def rate_bound_def
          algebra_simps)
  qed
next
  case Generate
  have tok: "cb_tokens (gs_cb s) = 0" using assms(1) Generate by (simp add: gen_inv_def)
  show ?thesis
  proof (cases "gs_start_flag s")
    case True
    then have b: "b \<le> 1000000" "t0 \<le> t" using Generate assms(3) by (auto simp: rate_inv_def)
    then have "unat mhz * b \<le> unat mhz * 1000000" by simp
    then have "unat mhz * b \<le> cap * (t - t0) + cap * n + unat mhz * 1000000" by linarith
    then have "rate_bound mhz cap (t - t0) (t - t0) b n (gen_step mhz (of_nat t) s)"
      using True Generate tok by (simp add: generate_step_def MAX_TOKEN_def add_token_def rate_bound_def)
    then show ?thesis using True Generate tok b
      by (auto simp: generate_step_def MAX_TOKEN_def add_token_def rate_inv_def gen_event_def
          intro!: exI [of _ "t - t0"])
  next
    case False
    then show ?thesis using Generate tok assms(3)
      by (auto simp: generate_step_def MAX_TOKEN_def gen_event_def rate_inv_def rate_bound_def)
  qed
next
  case Wait
  then have sf: "\<not> gs_start_flag s" using assms(1) by (auto simp: gen_inv_def)
  then obtain d where d: "gs_start_cycle s = of_nat (t0 + d)" "t0 + d \<le> t"
    "unat mhz * b + cap \<le> cap * d + cap * n + unat mhz * 1000000 + unat mhz * unat (gs_chunk_size s)"
    using Wait assms(3) by (auto simp: rate_inv_def rate_bound_def)
  show ?thesis
  proof (cases "of_nat t - gs_start_cycle s < ucast (wait_target mhz (gs_chunk_size s) (gs_temp s))")
    case True
    then show ?thesis using Wait assms(3) by (simp add: wait_step_def gen_event_def)
  next
    case False
    note w = waited_enough [OF assms(1) Wait assms(2) d(2) False [unfolded d(1)]]
    have "cap * (t - t0) = cap * d + cap * (t - (t0 + d))"
      using d(2) by (simp flip: distrib_left)
    with w d(3) have "unat mhz * b \<le> cap * (t - t0) + cap * n + unat mhz * 1000000" by linarith
    then show ?thesis using False Wait sf d(1,2) assms(3)
      by (auto simp: wait_step_def gen_event_def rate_inv_def rate_bound_def)
  qed
next
  case Stamp
  then have sf: "\<not> gs_start_flag s" using assms(1) by (auto simp: gen_inv_def)
  then show ?thesis using Stamp assms(3)
    by (auto simp: add_token_def gen_event_def rate_inv_def rate_bound_def intro!: exI [of _ "t - t0"])
qed

lemma rate_clock:
  assumes "rate_inv mhz cap t0 t s b n" "t \<le> t'"
  shows "rate_inv mhz cap t0 t' s b n"
proof (cases "gs_start_flag s")
  case True
  then show ?thesis using assms by (auto simp: rate_inv_def)
next
  case False
  then obtain d where d: "gs_start_cycle s = of_nat (t0 + d)" "t0 + d \<le> t"
    "rate_bound mhz cap d (t - t0) b n s" "t0 \<le> t" using assms(1) by (auto simp: rate_inv_def)
  have "cap * (t - t0) \<le> cap * (t' - t0)" using assms(2) by (intro mult_le_mono2) simp
  then have "rate_bound mhz cap d (t' - t0) b n s" using d(3)
    by (cases "gs_pc s"; simp only: rate_bound_def gen_pc.distinct simp_thms if_True if_False; linarith)
  then show ?thesis using False d assms(2) by (auto simp: rate_inv_def)
qed

lemma rate_inv_upd [simp]:
  "rate_inv mhz cap t0 t (s\<lparr>gs_cb := cb\<rparr>) b n = rate_inv mhz cap t0 t s b n"
  "rate_inv mhz cap t0 t (upd_sb f s) b n = rate_inv mhz cap t0 t s b n"
  by (simp_all add: rate_inv_def rate_bound_def upd_sb_def)

lemma rate_step:
  assumes "pacer_step mhz cap c e c'" "gen_inv cap (snd c)" "unat mhz < 4295"
    "rate_inv mhz cap t0 (fst c) (snd c) b n"
  shows "rate_inv mhz cap t0 (fst c') (snd c') (b + event_bytes e)
    (n + (case e of Grant _ _ \<Rightarrow> 1 | _ \<Rightarrow> 0))"
  using assms(1)
proof (cases rule: pacer_step.cases)
  case (generator t s)
  then show ?thesis using rate_generator [of cap s mhz t0 t b n] assms(2-4)
    by (simp del: gen_step.simps)
next
  case (clock t t' s)
  then show ?thesis using rate_clock assms(4) by simp
qed (use assms(4) in \<open>simp_all add: set_pending_def clear_on_exit_def set_read_def\<close>)

lemma rate_run:
  assumes "pacer_run mhz cap c es c'" "gen_inv cap (snd c)" "unat mhz < 4295"
    "rate_inv mhz cap t0 (fst c) (snd c) 0 0"
  shows "rate_inv mhz cap t0 (fst c') (snd c') (granted_bytes es) (num_grants es)"
  using assms
proof (induction rule: pacer_run.induct)
  case (stop c)
  then show ?case by simp
next
  case (step c es c' e c'')
  have "gen_inv cap (snd c')" using pacer_run_inv step.hyps(1) step.prems(1) .
  with rate_step [OF step.hyps(2) this step.prems(2)] step.IH [OF step.prems]
  show ?case by simp
qed

lemma rate_inv_bound:
  assumes "rate_inv mhz cap t0 t s b n" "gen_inv cap s"
  shows "unat mhz * b \<le> cap * (t - t0) + cap * n + unat mhz * 2000000"
proof (cases "gs_start_flag s")
  case True
  then have "b \<le> 1000000" using assms(1) by (auto simp: rate_inv_def split: if_splits)
  then have "unat mhz * b \<le> unat mhz * 1000000" by simp
  then show ?thesis by linarith
next
  case False
  then obtain d where d: "t0 + d \<le> t" "rate_bound mhz cap d (t - t0) b n s"
    using assms(1) by (auto simp: rate_inv_def)
  have "cap * d \<le> cap * (t - t0)" using d(1) by (intro mult_le_mono2) simp
  moreover have "unat mhz * unat (gs_chunk_size s) \<le> unat mhz * 1000000"
    using chunk_le [OF assms(2)] by simp
  ultimately show ?thesis using d(2)
    by (cases "gs_pc s"; simp only: rate_bound_def gen_pc.distinct simp_thms if_True if_False; linarith)
qed

section \<open>Progress of the scan\<close>

fun gen_iter :: "u32 \<Rightarrow> u64 \<Rightarrow> nat \<Rightarrow> gen_state \<Rightarrow> gen_state" where
  "gen_iter mhz now 0 s = s"
| "gen_iter mhz now (Suc k) s = gen_iter mhz now k (gen_step mhz now s)"

lemma scan_reaches:
  assumes "gen_inv cap s" "gs_pc s = Scan" "wants_token s j" "j < MAX_FLOWS"
  shows "\<exists>k\<le>lag j s. \<exists>i b. gs_pc (gen_iter mhz now k s) = Scan \<and>
    gen_event (gen_iter mhz now k s) = Grant i b"
  using assms
proof (induction "lag j s" arbitrary: s rule: less_induct)
  case less
  have tok: "cb_tokens (gs_cb s) \<noteq> 0" using less.prems(1,2) by (simp add: gen_inv_def)
  show ?case
  proof (cases "wants_token s (gs_i s)")
    case True
    then have "gen_event s = Grant (gs_i s) (unat (gs_chunk_size s))"
      using less.prems(2) tok by (simp add: gen_event_def)
    then show ?thesis using less.prems(2) by (intro exI [of _ 0]) simp
  next
    case False
    let ?s = "gen_step mhz now s"
    have ev: "gen_event s = Skipped (gs_i s)" using False less.prems(2) by (simp add: gen_event_def)
    have pc: "gs_pc ?s = Scan" using False less.prems(2) by (simp add: scan_step_def)
    have l: "wants_token ?s j" "Suc (lag j ?s) = lag j s"
      using gen_step_lag [OF less.prems(1,4,3), of mhz now] ev by (simp_all add: concerns_def is_scan_def)
    from less.hyps [OF _ gen_step_inv [OF less.prems(1)] pc l(1) less.prems(4)] l(2)
    obtain k i b where "k \<le> lag j ?s" "gs_pc (gen_iter mhz now k ?s) = Scan"
      "gen_event (gen_iter mhz now k ?s) = Grant i b" by (auto simp del: gen_step.simps)
    then show ?thesis using l(2) by (intro exI [of _ "Suc k"]) (auto simp del: gen_step.simps)
  qed
qed

section \<open>The generator for READ flows\<close>

text \<open>
  \<open>generate_tokens_read\<close> and \<open>rate_limit_read\<close>, the pair \<open>main\<close> keeps ready for READ flows. The generator
  reads the chunk table at \<open>split_level - 1\<close> (an \<open>int\<close>) before it chooses one of its two entries.
\<close>

definition chunk_size_table :: "u32 list" where
  "chunk_size_table = [1000000, 5000]"

definition read_chunk_size :: "u16 \<Rightarrow> u32 res" where
  "read_chunk_size split_level =
     (if split_level = 0 then Inl Out_of_bounds
      else res_bind (arr_get chunk_size_table (unat split_level - 1)) (\<lambda>_.
        if unat split_level > 1 then arr_get chunk_size_table 0 else arr_get chunk_size_table 1))"

definition add_token_read :: "u64 \<Rightarrow> gen_state \<Rightarrow> gen_state" where
  "add_token_read now s = s\<lparr>gs_start_cycle := now,
     gs_cb := (gs_cb s)\<lparr>cb_tokens_read := cb_tokens_read (gs_cb s) + 1\<rparr>, gs_pc := Load_cap\<rparr>"

definition load_rate_step :: "gen_state \<Rightarrow> gen_state res" where
  "load_rate_step s =
     (let cb = gs_cb s; temp = cb_local_read_rate cb in
      if cb_num_big_read_flows cb = 0 \<or> temp = 0 then Inr s
      else res_bind (read_chunk_size (sb_split_level (cb_sb cb))) (\<lambda>chunk.
        Inr (s\<lparr>gs_cb := cb\<lparr>cb_sb := (cb_sb cb)\<lparr>sb_active_chunk_size_read := chunk\<rparr>\<rparr>,
               gs_temp := temp, gs_chunk_size := chunk, gs_pc := Generate\<rparr>)))"

definition generate_read_step :: "u64 \<Rightarrow> gen_state \<Rightarrow> gen_state" where
  "generate_read_step now s =
     (if cb_tokens_read (gs_cb s) < MAX_TOKEN
      then (if gs_start_flag s then add_token_read now (s\<lparr>gs_start_flag := False\<rparr>)
            else s\<lparr>gs_pc := Wait\<rparr>)
      else s\<lparr>gs_pc := Load_cap\<rparr>)"

fun read_gen_step :: "u32 \<Rightarrow> u64 \<Rightarrow> gen_state \<Rightarrow> gen_state res" where
  "read_gen_step mhz now s = (case gs_pc s of
       Load_cap \<Rightarrow> load_rate_step s
     | Scan \<Rightarrow> Inr s
     | Generate \<Rightarrow> Inr (generate_read_step now s)
     | Wait \<Rightarrow> Inr (wait_step mhz now s)
     | Stamp \<Rightarrow> Inr (add_token_read now s))"

definition fetch_token_read :: "control_block \<Rightarrow> control_block option" where
  "fetch_token_read cb =
     (if cb_tokens_read cb = 0 then None else Some (cb\<lparr>cb_tokens_read := cb_tokens_read cb - 1\<rparr>))"

definition rate_limit_read_step :: "nat \<Rightarrow> control_block \<Rightarrow> nat \<times> control_block" where
  "rate_limit_read_step i cb =
     (let f = sb_flows (cb_sb cb) ! i in
      if fl_read f \<noteq> 0 \<and> fl_pending f \<noteq> 0
      then case fetch_token_read cb of
          None \<Rightarrow> (i, cb)
        | Some cb' \<Rightarrow> ((i + 1) mod MAX_FLOWS,
            cb'\<lparr>cb_sb := upd_flow i (\<lambda>f. f\<lparr>fl_pending := 0\<rparr>) (cb_sb cb')\<rparr>)
      else ((i + 1) mod MAX_FLOWS, cb))"

text \<open>One step of either thread: \<open>True\<close> the generator, \<open>False\<close> the limiter.\<close>

definition read_pair_step :: "u32 \<Rightarrow> bool \<times> u64 \<Rightarrow> nat \<times> gen_state \<Rightarrow> (nat \<times> gen_state) res" where
  "read_pair_step mhz ev c = (case ev of
      (True, now) \<Rightarrow> res_bind (read_gen_step mhz now (snd c)) (\<lambda>s. Inr (fst c, s))
    | (False, _) \<Rightarrow> (let (i, cb) = rate_limit_read_step (fst c) (gs_cb (snd c))
                  in Inr (i, (snd c)\<lparr>gs_cb := cb\<rparr>)))"

fun read_pair_run :: "u32 \<Rightarrow> (bool \<times> u64) list \<Rightarrow> nat \<times> gen_state \<Rightarrow> (nat \<times> gen_state) res" where
  "read_pair_run mhz [] c = Inr c"
| "read_pair_run mhz (e # es) c = res_bind (read_pair_step mhz e c) (read_pair_run mhz es)"

definition read_inv :: "nat \<times> gen_state \<Rightarrow> bool" where
  "read_inv c \<longleftrightarrow>
     unat (cb_tokens_read (gs_cb (snd c))) \<le> (if gs_pc (snd c) = Wait \<or> gs_pc (snd c) = Stamp then 4 else 5) \<and>
     (sb_split_level (cb_sb (gs_cb (snd c))) = 1 \<or> sb_split_level (cb_sb (gs_cb (snd c))) = 2)"

lemma read_chunk_size_levels [simp]:
  "read_chunk_size 1 = Inr 5000" "read_chunk_size 2 = Inr 1000000"
  by (simp_all add: read_chunk_size_def chunk_size_table_def)

lemma unat_add_1_le: "unat (x :: u64) \<le> 4 \<Longrightarrow> unat (x + 1) \<le> 5"
  using unat_add_lem [of x 1] by simp

lemma read_inv_generator:
  assumes "read_inv (i, s)"
  shows "\<exists>s'. read_gen_step mhz now s = Inr s' \<and> read_inv (i, s')"
proof (cases "gs_pc s")
  case Load_cap
  then show ?thesis using assms by (auto simp: read_inv_def load_rate_step_def Let_def)
next
  case Generate
  then show ?thesis using assms unat_add_1_le [of "cb_tokens_read (gs_cb s)"]
    by (auto simp: read_inv_def generate_read_step_def add_token_read_def MAX_TOKEN_def word_less_nat_alt)
next
  case Stamp
  then show ?thesis using assms unat_add_1_le [of "cb_tokens_read (gs_cb s)"]
    by (auto simp: read_inv_def add_token_read_def)
qed (use assms in \<open>auto simp: read_inv_def wait_step_def\<close>)

lemma read_inv_limiter:
  assumes "read_inv (i, s)" "rate_limit_read_step i (gs_cb s) = (i', cb')"
  shows "read_inv (i', s\<lparr>gs_cb := cb'\<rparr>)"
  using assms unat_minus_one [of "cb_tokens_read (gs_cb s)"]
  by (auto simp: read_inv_def rate_limit_read_step_def fetch_token_read_def Let_def upd_flow_def
      split: if_splits option.splits)

lemma read_pair_step_ok:
  assumes "read_inv c"
  shows "\<exists>c'. read_pair_step mhz e c = Inr c' \<and> read_inv c'"
proof -
  obtain i s b now where c: "c = (i, s)" "e = (b, now)" by (cases c, cases e)
  obtain i' cb' where l: "rate_limit_read_step i (gs_cb s) = (i', cb')" by fastforce
  show ?thesis
    using read_inv_generator [of i s mhz now] read_inv_limiter [OF _ l] assms c l
    by (cases b) (auto simp: read_pair_step_def simp del: read_gen_step.simps)
qed

section \<open>Properties\<close>

text \<open>
  C12: the remark in \<open>generate_fetch_tokens\<close> that the number of tokens is always 0 or 1 is true: in every
  state any interleaving reaches, there is exactly one token while the generator looks for a
  flow to serve and none while it waits, so that neither the branch for a generator that is out of
  tokens nor the bound \<open>MAX_TOKEN\<close> ever matters.
\<close>

theorem tokens_zero_or_one:
  assumes "pacer_run mhz cap (t0, gen_start (main_init sb)) es (t, s)"
    and "length (sb_flows sb) = MAX_FLOWS" and "LINE_RATE_MB \<le> cap"
  shows "cb_tokens (gs_cb s) = (if gs_pc s = Load_cap \<or> gs_pc s = Scan then 1 else 0) \<and>
    gs_i s < MAX_FLOWS \<and> (gs_pc s = Scan \<longrightarrow> fst (try_fetch_a_token (gs_cb s)))"
proof -
  have "gen_inv cap (gen_start (main_init sb))"
    using assms(2,3) by (intro gen_start_inv) (simp_all add: main_init_shape, simp add: main_init_def LINE_RATE_MB_def)
  then have "gen_inv cap s" using pacer_run_inv [OF assms(1)] by simp
  then show ?thesis by (auto simp: gen_inv_def try_fetch_a_token_def)
qed

lemma run_generator:
  assumes "pacer_run mhz cap c es (t, s)" "e = gen_event s" "s' = gen_step mhz (of_nat t) s"
  shows "pacer_run mhz cap c (es @ [e]) (t, s')"
  using pacer_run.step [OF assms(1) pacer_step.generator] assms(2,3) by simp

lemma gen_iter_numerals:
  "gen_iter mhz now 2 s = gen_step mhz now (gen_step mhz now s)"
  "gen_iter mhz now 3 s = gen_step mhz now (gen_step mhz now (gen_step mhz now s))"
  by (simp_all only: numeral_2_eq_2 numeral_3_eq_3 gen_iter.simps)

text \<open>A run in which slot 0 asks, the generator grants, and the first token after it is made.\<close>

definition example_state :: "nat \<Rightarrow> gen_state" where
  "example_state k = gen_iter 2000 0 k (set_pending 0 (gen_start (main_init zero_block)))"

lemma example_run:
  "pacer_run 2000 6000 (0, gen_start (main_init zero_block)) [Tau, Tau, Grant 0 1000000, Tau]
    (0, example_state 3)"
proof -
  let ?c = "(0, gen_start (main_init zero_block))"
  have 1: "pacer_run 2000 6000 ?c ([] @ [Tau]) (0, set_pending 0 (gen_start (main_init zero_block)))"
    by (rule pacer_run.step [OF pacer_run.stop pacer_step.request]) simp
  have 2: "pacer_run 2000 6000 ?c (([] @ [Tau]) @ [Tau]) (0, example_state 1)"
    by (rule run_generator [OF 1])
      (simp_all add: example_state_def gen_event_def set_pending_def upd_sb_def gen_start_def)
  have 3: "pacer_run 2000 6000 ?c ((([] @ [Tau]) @ [Tau]) @ [Grant 0 1000000]) (0, example_state 2)"
    by (rule run_generator [OF 2])
      (simp_all add: example_state_def gen_event_def set_pending_def upd_sb_def gen_start_def gen_iter_numerals
        main_init_def zero_block_def load_cap_step_def Let_def macro_defs wants_token_def upd_flow_def
        choose_chunk_size_def)
  have "pacer_run 2000 6000 ?c (((([] @ [Tau]) @ [Tau]) @ [Grant 0 1000000]) @ [Tau]) (0, example_state 3)"
    by (rule run_generator [OF 3])
      (simp_all add: example_state_def gen_event_def set_pending_def upd_sb_def gen_start_def gen_iter_numerals
        main_init_def zero_block_def load_cap_step_def scan_step_def Let_def macro_defs
        wants_token_def upd_flow_def choose_chunk_size_def try_fetch_a_token_def)
  then show ?thesis by simp
qed

theorem tokens_zero_or_one_witness: "gs_i (example_state 3) < MAX_FLOWS"
  using tokens_zero_or_one [OF example_run] by (simp add: zero_block_def LINE_RATE_MB_def)

text \<open>
  C1: the generator is a rate limiter. Whatever the other threads and the applications do, after
  \<open>t - t0\<close> cycles the bytes it has let through, in \<open>n\<close> grants, exceed what the capacity allows by at most
  two chunks of 1 MB and one cycle per grant, as long as the monitor keeps the capacity at or
  below \<open>cap\<close> and the processor runs below 4295 MHz.
\<close>

theorem granted_bytes_bounded:
  assumes "pacer_run mhz cap (t0, gen_start (main_init sb)) es (t, s)"
    and "length (sb_flows sb) = MAX_FLOWS" and "LINE_RATE_MB \<le> cap" and "unat mhz < 4295"
  shows "unat mhz * granted_bytes es \<le> cap * (t - t0) + cap * num_grants es + unat mhz * 2000000"
proof -
  have i: "gen_inv cap (gen_start (main_init sb))"
    using assms(2,3) by (intro gen_start_inv) (simp_all add: main_init_shape, simp add: main_init_def LINE_RATE_MB_def)
  have "rate_inv mhz cap t0 t0 (gen_start (main_init sb)) 0 0"
    by (simp add: rate_inv_def gen_start_def)
  then have "rate_inv mhz cap t0 t s (granted_bytes es) (num_grants es)"
    using rate_run [OF assms(1)] i assms(4) by simp
  moreover have "gen_inv cap s" using pacer_run_inv [OF assms(1)] i by simp
  ultimately show ?thesis by (rule rate_inv_bound)
qed

theorem granted_bytes_bounded_witness:
  "2000 * granted_bytes [Tau, Tau, Grant 0 1000000, Tau] \<le>
     6000 * (0 - 0) + 6000 * num_grants [Tau, Tau, Grant 0 1000000, Tau] + 2000 * 2000000"
  using granted_bytes_bounded [OF example_run] by (simp add: zero_block_def LINE_RATE_MB_def)

text \<open>
  C10: round robin is fair. While a flow waits for a token, and neither exits nor marks itself as one of READ, the generator looks at no more than
  \<open>MAX_FLOWS - 1\<close> slots that are not its own, grants included, before it comes to that flow.
\<close>

theorem waiting_flow_is_bounded:
  assumes "pacer_run mhz cap (t0, gen_start (main_init sb)) es1 (t1, s1)"
    and "length (sb_flows sb) = MAX_FLOWS" and "LINE_RATE_MB \<le> cap"
    and "wants_token s1 j" and "j < MAX_FLOWS"
    and "pacer_run mhz cap (t1, s1) es2 (t2, s2)" and "\<forall>e\<in>set es2. \<not> concerns j e"
  shows "wants_token s2 j \<and> length (filter is_scan es2) < MAX_FLOWS"
proof -
  have "gen_inv cap (gen_start (main_init sb))"
    using assms(2,3) by (intro gen_start_inv) (simp_all add: main_init_shape, simp add: main_init_def LINE_RATE_MB_def)
  then have "gen_inv cap s1" using pacer_run_inv [OF assms(1)] by simp
  with pacer_run_lag [OF assms(6), of j] assms(4,5,7)
  have "wants_token s2 j" "lag j s2 + length (filter is_scan es2) = lag j s1" by auto
  moreover have "lag j s1 < MAX_FLOWS" by (simp add: lag_def)
  ultimately show ?thesis by simp
qed

theorem waiting_flow_is_bounded_witness:
  "\<exists>es s. pacer_run 2000 6000 (0, example_state 3) es (0, s) \<and> wants_token (set_pending 7 s) 7 \<and>
     length (filter is_scan [Tau]) < MAX_FLOWS"
proof -
  let ?s = "set_pending 7 (example_state 3)"
  have 1: "pacer_run 2000 6000 (0, gen_start (main_init zero_block))
      ([Tau, Tau, Grant 0 1000000, Tau] @ [Tau]) (0, ?s)"
    by (rule pacer_run.step [OF example_run pacer_step.request]) (simp add: MAX_FLOWS_def)
  have w: "wants_token ?s 7"
    by (simp add: example_state_def set_pending_def upd_sb_def gen_start_def gen_iter_numerals generate_step_def
        main_init_def zero_block_def load_cap_step_def scan_step_def Let_def macro_defs add_token_def
        wants_token_def upd_flow_def choose_chunk_size_def try_fetch_a_token_def)
  have 2: "pacer_run 2000 6000 (0, ?s) ([] @ [Tau]) (5, ?s)"
    by (rule pacer_run.step [OF pacer_run.stop pacer_step.clock]) simp
  have "length (filter is_scan [Tau]) < MAX_FLOWS"
    using waiting_flow_is_bounded [OF 1 _ _ w _ 2] by (simp add: zero_block_def macro_defs concerns_def)
  moreover have "pacer_run 2000 6000 (0, example_state 3) [] (0, example_state 3)"
    by (rule pacer_run.stop)
  ultimately show ?thesis using w by blast
qed

text \<open>
  C11: the scan ends. From any state in which the generator scans and some flow waits, its own steps
  alone reach a grant within \<open>MAX_FLOWS\<close> of them.
\<close>

theorem scan_terminates:
  assumes "pacer_run mhz cap (t0, gen_start (main_init sb)) es (t, s)"
    and "length (sb_flows sb) = MAX_FLOWS" and "LINE_RATE_MB \<le> cap"
    and "gs_pc s = Scan" and "wants_token s j" and "j < MAX_FLOWS"
  shows "\<exists>k<MAX_FLOWS. \<exists>i b. gen_event (gen_iter mhz now k s) = Grant i b"
proof -
  have "gen_inv cap (gen_start (main_init sb))"
    using assms(2,3) by (intro gen_start_inv) (simp_all add: main_init_shape, simp add: main_init_def LINE_RATE_MB_def)
  then have "gen_inv cap s" using pacer_run_inv [OF assms(1)] by simp
  from scan_reaches [OF this assms(4-6), of mhz now]
  obtain k i b where "k \<le> lag j s" "gen_event (gen_iter mhz now k s) = Grant i b" by blast
  moreover have "lag j s < MAX_FLOWS" by (simp add: lag_def)
  ultimately show ?thesis by (meson le_less_trans)
qed

theorem scan_terminates_witness:
  "\<exists>k<MAX_FLOWS. \<exists>i b. gen_event (gen_iter 2000 9 k (example_state 1)) = Grant i b"
proof -
  let ?c = "(0, gen_start (main_init zero_block))"
  have 1: "pacer_run 2000 6000 ?c ([] @ [Tau]) (0, set_pending 0 (gen_start (main_init zero_block)))"
    by (rule pacer_run.step [OF pacer_run.stop pacer_step.request]) simp
  have 2: "pacer_run 2000 6000 ?c (([] @ [Tau]) @ [Tau]) (0, example_state 1)"
    by (rule run_generator [OF 1])
      (simp_all add: example_state_def gen_event_def set_pending_def upd_sb_def gen_start_def)
  have "gs_pc (example_state 1) = Scan" "wants_token (example_state 1) 0"
    by (simp_all add: example_state_def set_pending_def upd_sb_def gen_start_def
        main_init_def zero_block_def load_cap_step_def Let_def macro_defs
        wants_token_def upd_flow_def choose_chunk_size_def)
  from scan_terminates [OF 2 _ _ this] show ?thesis
    by (simp add: zero_block_def macro_defs del: gen_iter.simps)
qed

text \<open>
  how far the 32-bit product in the waiting time goes: with 1 MB chunks the number of cycles is
  the exact quotient at every capacity exactly when the processor runs below 4295 MHz.
\<close>

theorem wait_target_exact_iff:
  "(\<forall>temp. unat (wait_target mhz DEFAULT_CHUNK_SIZE temp) =
      unat mhz * unat DEFAULT_CHUNK_SIZE div unat temp) = (unat mhz < 4295)"
proof
  assume *: "\<forall>temp. unat (wait_target mhz DEFAULT_CHUNK_SIZE temp) =
      unat mhz * unat DEFAULT_CHUNK_SIZE div unat temp"
  have "unat mhz * 1000000 = unat (wait_target mhz DEFAULT_CHUNK_SIZE 1)"
    using spec [OF *, of 1] by (simp add: DEFAULT_CHUNK_SIZE_def)
  also have "\<dots> < 2 ^ 32" using unsigned_less [of "wait_target mhz DEFAULT_CHUNK_SIZE 1"] by simp
  finally show "unat mhz < 4295" by simp
next
  assume "unat mhz < 4295"
  then have "unat mhz * unat DEFAULT_CHUNK_SIZE < 2 ^ 32" by (simp add: DEFAULT_CHUNK_SIZE_def)
  then show "\<forall>temp. unat (wait_target mhz DEFAULT_CHUNK_SIZE temp) =
      unat mhz * unat DEFAULT_CHUNK_SIZE div unat temp" using wait_target_exact by blast
qed

text \<open>At 4.3 GHz the wait between two 1 MB chunks is 838 cycles instead of 716666.\<close>

lemma wait_target_wraps: "wait_target 4300 DEFAULT_CHUNK_SIZE 6000 = 838"
  by (simp add: wait_target_def DEFAULT_CHUNK_SIZE_def)

text \<open>
  The pair of READ threads, in any interleaving and at any clock, stays inside the chunk table and
  keeps between 0 and \<open>MAX_TOKEN\<close> tokens, when the split level is one of the two the table has.
\<close>

theorem read_tokens_bounded:
  assumes "sb_split_level (cb_sb cb) = 1 \<or> sb_split_level (cb_sb cb) = 2" and "cb_tokens_read cb = 0"
  shows "\<exists>i s. read_pair_run mhz es (0, gen_start cb) = Inr (i, s) \<and>
    cb_tokens_read (gs_cb s) \<le> MAX_TOKEN"
proof -
  have run: "\<exists>c'. read_pair_run mhz es c = Inr c' \<and> read_inv c'" if "read_inv c" for c
    using that
  proof (induction es arbitrary: c)
    case Nil
    then show ?case by simp
  next
    case (Cons e es)
    then obtain c1 where "read_pair_step mhz e c = Inr c1" "read_inv c1"
      using read_pair_step_ok by blast
    then show ?case using Cons.IH [of c1] by simp
  qed
  have "read_inv (0, gen_start cb)" using assms by (simp add: read_inv_def gen_start_def)
  from run [OF this] obtain i s where "read_pair_run mhz es (0, gen_start cb) = Inr (i, s)" "read_inv (i, s)"
    by auto
  then show ?thesis
    by (auto simp: read_inv_def MAX_TOKEN_def word_le_nat_alt split: if_splits)
qed

theorem read_tokens_bounded_witness:
  "\<exists>i s. read_pair_run 2000 [(True, 5), (False, 5), (True, 7)] (0, gen_start (main_init zero_block)) = Inr (i, s) \<and>
    cb_tokens_read (gs_cb s) \<le> MAX_TOKEN"
  by (rule read_tokens_bounded) (simp_all add: main_init_def DEFAULT_SPLIT_LEVEL_def)

end
