(* ===== verification/Mon_Messages.thy ===== *)
theory Mon_Messages
  imports Pacer_State C_Text
begin

text \<open>
  The messages the daemons of senders and receivers exchange in their 16-byte send and receive
  buffers (\<open>monitor.c\<close>, \<open>pacer.c\<close>, \<open>pingpong.h\<close>): the counter updates \<open>big_inc\<close>, \<open>small_dec\<close>, ... from a
  sender, and the \<open>INFO\<close> message with which a receiver answers all of its senders. A buffer is the
  list of its bytes; a string written into it carries its terminating NUL.
\<close>

definition BUF_SIZE :: nat where [macro_defs]: "BUF_SIZE = 16"

abbreviation NUL :: char where "NUL \<equiv> CHR 0x00"

section \<open>Strings in buffers\<close>

text \<open>\<open>strcpy\<close> and \<open>sprintf\<close> into a buffer.\<close>

definition put_str :: "string \<Rightarrow> string \<Rightarrow> string res" where
  "put_str buf s = mem_write buf 0 (s @ [NUL])"

text \<open>\<open>strcmp(buf, lit) == 0\<close> and \<open>strncmp(buf, lit, n) == 0\<close> for a literal: both stop inside the buffer.\<close>

definition buf_is :: "string \<Rightarrow> string \<Rightarrow> bool" where
  "buf_is buf lit \<longleftrightarrow> take (Suc (length lit)) buf = lit @ [NUL]"

definition buf_starts :: "string \<Rightarrow> string \<Rightarrow> bool" where
  "buf_starts buf lit \<longleftrightarrow> take (length lit) buf = lit"

text \<open>The string \<open>sscanf\<close> and \<open>strtol\<close> see: they need a NUL in the buffer.\<close>

definition buf_str :: "string \<Rightarrow> string res" where
  "buf_str buf = (if NUL \<in> set buf then Inr (c_str buf) else Inl Out_of_bounds)"

lemma c_str_append: "NUL \<notin> set s \<Longrightarrow> c_str (s @ NUL # r) = s"
  by (induction s) (auto simp: c_str_def)

lemma put_str_ok:
  assumes "length s < length buf"
  shows "put_str buf s = Inr (s @ NUL # drop (Suc (length s)) buf)"
  using assms by (simp add: put_str_def mem_write_def)

lemma put_str_overflow: "length buf \<le> length s \<Longrightarrow> put_str buf s = Inl Out_of_bounds"
  by (simp add: put_str_def mem_write_def)

lemma put_str_length: "put_str buf s = Inr buf' \<Longrightarrow> length buf' = length buf"
  by (auto simp: put_str_def mem_write_def split: if_splits)

lemma put_str_back:
  assumes "put_str buf s = Inr buf'" "NUL \<notin> set s"
  shows "buf_str buf' = Inr s"
  using assms by (auto simp: put_str_def mem_write_def buf_str_def c_str_append split: if_splits)

lemma put_str_is:
  assumes "put_str buf s = Inr buf'" "NUL \<notin> set s" "NUL \<notin> set lit"
  shows "buf_is buf' lit \<longleftrightarrow> s = lit"
proof -
  obtain r where b: "buf' = s @ NUL # r"
    using assms(1) by (auto simp: put_str_def mem_write_def split: if_splits)
  have "s = lit" if "take (Suc (length lit)) (s @ NUL # r) = lit @ [NUL]"
  proof -
    have "c_str (s @ NUL # r) = c_str (lit @ NUL # drop (Suc (length lit)) (s @ NUL # r))"
      using that by (metis append_take_drop_id append.assoc append_Cons append_Nil)
    then show ?thesis using assms(2,3) by (simp add: c_str_append)
  qed
  then show ?thesis using b by (auto simp: buf_is_def)
qed

section \<open>Counter updates\<close>

datatype app_kind = Bw | Lat | Tput

text \<open>The message a sender's daemon puts into its send buffer when an application starts or ends.\<close>

fun update_msg :: "bool \<Rightarrow> app_kind \<Rightarrow> string" where
  "update_msg True Bw = ''big_inc''"
| "update_msg True Lat = ''small_inc''"
| "update_msg True Tput = ''big_inc''"
| "update_msg False Bw = ''big_dec''"
| "update_msg False Lat = ''small_dec''"
| "update_msg False Tput = ''big_dec''"

lemma update_msg_fits: "length (update_msg b k) < BUF_SIZE" "NUL \<notin> set (update_msg b k)"
  by (cases b; cases k; simp add: BUF_SIZE_def)+

section \<open>INFO\<close>

text \<open>\<open>sprintf(buf, "INFO:%04hu:%04hu", big, small)\<close>\<close>

definition info_text :: "u16 \<Rightarrow> u16 \<Rightarrow> string" where
  "info_text big small =
     ''INFO:'' @ print_pad 4 10 (unat big) @ '':'' @ print_pad 4 10 (unat small)"

text \<open>
  \<open>sscanf(buf, "INFO:%hu:%hu", &big, &small)\<close>: a conversion that fails leaves its target and all later
  ones alone.
\<close>

definition scan_hu :: "string \<Rightarrow> (u16 \<times> string) option" where
  "scan_hu s = map_option (\<lambda>(v, r). (word_of_int v, r)) (scan_num 10 s)"

definition scan_info :: "string \<Rightarrow> u16 \<times> u16 \<Rightarrow> u16 \<times> u16" where
  "scan_info s old =
     (case eat ''INFO:'' s of None \<Rightarrow> old
      | Some s1 \<Rightarrow> (case scan_hu s1 of None \<Rightarrow> old
        | Some (big, s2) \<Rightarrow> (case eat '':'' s2 of None \<Rightarrow> (big, snd old)
          | Some s3 \<Rightarrow> (case scan_hu s3 of None \<Rightarrow> (big, snd old)
            | Some (small, _) \<Rightarrow> (big, small)))))"

lemma scan_hu_print: "ends_number rest \<Longrightarrow> scan_hu (print_pad w 10 (unat (x :: u16)) @ rest) = Some (x, rest)"
  by (simp add: scan_hu_def scan_print_pad)

lemma scan_info_text: "scan_info (info_text big small) old = (big, small)"
  using scan_hu_print [of "[]" 4 small] by (simp add: scan_info_def info_text_def scan_hu_print)

lemma print_pad_no_nul: "\<lbrakk>2 \<le> b; b \<le> 16\<rbrakk> \<Longrightarrow> NUL \<notin> set (print_pad w b n)"
proof
  assume b: "2 \<le> b" "b \<le> 16" and "NUL \<in> set (print_pad w b n)"
  then obtain d where d: "d < b" "NUL = digit_char d" using set_print_pad [OF b] by fastforce
  then have "(of_char NUL :: nat) = (if d < 10 then 48 + d else 87 + d)" using b digit_char_code [of d] by simp
  then show False by (simp split: if_splits)
qed

lemma info_text_no_nul: "NUL \<notin> set (info_text big small)"
  by (simp add: info_text_def print_pad_no_nul)

lemma length_digits_of_exact:
  assumes "2 \<le> b" "b ^ k \<le> n" "n < b ^ Suc k"
  shows "length (digits_of b n) = Suc k"
  using assms
proof (induction k arbitrary: n)
  case 0
  then show ?case by (subst digits_of.simps) simp
next
  case (Suc k)
  have "b \<le> n" using Suc.prems(1,2) by (metis le_trans mult.right_neutral mult_le_mono2
    one_le_power power_Suc Suc_1 Suc_leD)
  moreover have "b ^ k \<le> n div b" using Suc.prems by (simp add: less_eq_div_iff_mult_less_eq mult.commute)
  moreover have "n div b < b ^ Suc k"
    using Suc.prems(3) by (simp add: less_mult_imp_div_less mult.commute)
  ultimately show ?case using Suc.IH [of "n div b"] Suc.prems(1) by (subst digits_of.simps) simp
qed

lemma length_counter_text:
  "length (print_pad 4 10 (unat (x :: u16))) = (if unat x < 10000 then 4 else 5)"
proof (cases "unat x < 10000")
  case True
  then show ?thesis using length_print_pad_exact [of 10 "unat x" 4] by simp
next
  case False
  have "unat x < 2 ^ 16" using unsigned_less [of x] by simp
  then have "length (digits_of 10 (unat x)) = 5"
    using False length_digits_of_exact [of 10 4 "unat x"] by simp
  then show ?thesis using False by (simp add: print_pad_def print_nat_def)
qed

lemma length_info_text:
  "length (info_text big small) =
     6 + (if unat big < 10000 then 4 else 5) + (if unat small < 10000 then 4 else 5)"
  by (simp add: info_text_def length_counter_text)

end
