(* ===== verification/Server.thy ===== *)
theory Server
  imports Mon_Messages
begin

text \<open>
  The receiver's daemon (\<open>server_loop\<close> of \<open>rdma_pacer/monitor.c\<close>): it counts the applications that send to it,
  from the updates of the senders' daemons, and after each update sends both counters to every
  sender. One element of the input is what polling one client's receive queue returns and, for
  an update, whether each of the sends of the broadcast is accepted; a send that is not accepted
  completes never, and the loop that waits for its completion spins.
\<close>

record server_state =
  sv_num_big :: u16
  sv_num_small :: u16
  sv_send_buf :: "string list"
  sv_sent :: "(nat \<times> string) list"

datatype recv_poll =
    Nothing_yet
  | Poll_failed
  | Bad_completion
  | Received string "bool list"

definition server_init :: "nat \<Rightarrow> server_state" where
  "server_init num_clients = \<lparr>sv_num_big = 0, sv_num_small = 0,
     sv_send_buf = replicate num_clients (replicate BUF_SIZE NUL), sv_sent = []\<rparr>"

definition count_update :: "string \<Rightarrow> server_state \<Rightarrow> server_state res" where
  "count_update buf s =
     (if buf_is buf ''big_inc'' then Inr (s\<lparr>sv_num_big := sv_num_big s + 1\<rparr>)
      else if buf_is buf ''small_inc'' then Inr (s\<lparr>sv_num_small := sv_num_small s + 1\<rparr>)
      else if buf_is buf ''big_dec'' then Inr (s\<lparr>sv_num_big := sv_num_big s - 1\<rparr>)
      else if buf_is buf ''small_dec'' then Inr (s\<lparr>sv_num_small := sv_num_small s - 1\<rparr>)
      else Inl (Exit_code 1))"

fun broadcast :: "nat \<Rightarrow> bool list \<Rightarrow> server_state \<Rightarrow> server_state res" where
  "broadcast j [] s = Inr s"
| "broadcast j (ok # oks) s =
     res_bind (arr_get (sv_send_buf s) j) (\<lambda>buf.
     res_bind (put_str buf (info_text (sv_num_big s) (sv_num_small s))) (\<lambda>buf'.
       let s1 = s\<lparr>sv_send_buf := (sv_send_buf s)[j := buf']\<rparr> in
       if ok then broadcast (Suc j) oks (s1\<lparr>sv_sent := sv_sent s1 @ [(j, buf')]\<rparr>)
       else Inl Diverges))"

text \<open>One pass of the outer loop over the clients; \<open>Bad_completion\<close> leaves the pass.\<close>

fun server_pass :: "recv_poll list \<Rightarrow> server_state \<Rightarrow> server_state res" where
  "server_pass [] s = Inr s"
| "server_pass (Nothing_yet # es) s = server_pass es s"
| "server_pass (Poll_failed # es) s = Inl (Exit_code 1)"
| "server_pass (Bad_completion # es) s = Inr s"
| "server_pass (Received buf oks # es) s =
     res_bind (count_update buf s) (\<lambda>s1.
     res_bind (broadcast 0 oks s1) (server_pass es))"

fun server_run :: "recv_poll list list \<Rightarrow> server_state \<Rightarrow> server_state res" where
  "server_run [] s = Inr s"
| "server_run (p # ps) s = res_bind (server_pass p s) (server_run ps)"

section \<open>Broadcasting\<close>

definition bufs_ok :: "nat \<Rightarrow> server_state \<Rightarrow> bool" where
  "bufs_ok n s \<longleftrightarrow> length (sv_send_buf s) = n \<and> (\<forall>b\<in>set (sv_send_buf s). length b = BUF_SIZE)"

definition info_fits :: "u16 \<Rightarrow> u16 \<Rightarrow> bool" where
  "info_fits big small \<longleftrightarrow> unat big < 10000 \<or> unat small < 10000"

lemma info_fits_length: "length (info_text big small) < BUF_SIZE \<longleftrightarrow> info_fits big small"
  by (simp add: length_info_text BUF_SIZE_def info_fits_def)

lemma bufs_ok_update: "\<lbrakk>bufs_ok n s; length b = BUF_SIZE\<rbrakk> \<Longrightarrow> bufs_ok n (s\<lparr>sv_send_buf := (sv_send_buf s)[j := b]\<rparr>)"
  by (auto simp: bufs_ok_def dest: set_update_subset_insert [THEN subsetD])

lemma bufs_ok_frame [simp]:
  "bufs_ok n (s\<lparr>sv_sent := x\<rparr>) = bufs_ok n s"
  "bufs_ok n (s\<lparr>sv_num_big := b\<rparr>) = bufs_ok n s"
  "bufs_ok n (s\<lparr>sv_num_small := b\<rparr>) = bufs_ok n s"
  by (simp_all add: bufs_ok_def)

text \<open>
  When the message fits, a broadcast whose sends are accepted delivers to every client, in order,
  a buffer that reads back as the two counters; when it does not, the first write leaves the buffer.
\<close>

lemma broadcast_ok:
  assumes "bufs_ok n s" "j + k \<le> n" "info_fits (sv_num_big s) (sv_num_small s)"
  shows "\<exists>s'. broadcast j (replicate k True) s = Inr s' \<and> bufs_ok n s' \<and>
    sv_num_big s' = sv_num_big s \<and> sv_num_small s' = sv_num_small s \<and>
    (\<exists>msgs. sv_sent s' = sv_sent s @ zip [j..<j + k] msgs \<and> length msgs = k \<and>
       (\<forall>m\<in>set msgs. length m = BUF_SIZE \<and> buf_str m = Inr (info_text (sv_num_big s) (sv_num_small s))))"
  using assms
proof (induction k arbitrary: j s)
  case 0
  then show ?case by simp
next
  case (Suc k)
  let ?t = "info_text (sv_num_big s) (sv_num_small s)"
  have buf: "j < length (sv_send_buf s)" "length (sv_send_buf s ! j) = BUF_SIZE"
    using Suc.prems(1,2) by (auto simp: bufs_ok_def)
  obtain b where b: "put_str (sv_send_buf s ! j) ?t = Inr b"
    using put_str_ok [of ?t "sv_send_buf s ! j"] buf(2) Suc.prems(3) info_fits_length by simp
  then have lb: "length b = BUF_SIZE" "buf_str b = Inr ?t"
    using put_str_length buf(2) put_str_back [OF b info_text_no_nul] by simp_all
  let ?s = "s\<lparr>sv_send_buf := (sv_send_buf s)[j := b], sv_sent := sv_sent s @ [(j, b)]\<rparr>"
  have "bufs_ok n ?s" using bufs_ok_update [OF Suc.prems(1) lb(1)] by simp
  from Suc.IH [OF this, of "Suc j"] Suc.prems(2,3)
  obtain s' msgs where s': "broadcast (Suc j) (replicate k True) ?s = Inr s'" "bufs_ok n s'"
    "sv_num_big s' = sv_num_big s" "sv_num_small s' = sv_num_small s"
    "sv_sent s' = sv_sent ?s @ zip [Suc j..<Suc j + k] msgs" "length msgs = k"
    "\<forall>m\<in>set msgs. length m = BUF_SIZE \<and> buf_str m = Inr ?t" by auto
  have "broadcast j (replicate (Suc k) True) s = Inr s'" using s'(1) b buf(1) by simp
  moreover have "sv_sent s' = sv_sent s @ zip [j..<j + Suc k] (b # msgs)"
    using s'(5) by (simp add: upt_conv_Cons)
  ultimately show ?case using s' lb by (intro exI [of _ s'] conjI exI [of _ "b # msgs"]) simp_all
qed

lemma broadcast_overflow:
  assumes "bufs_ok n s" "j < n" "\<not> info_fits (sv_num_big s) (sv_num_small s)"
  shows "broadcast j (ok # oks) s = Inl Out_of_bounds"
proof -
  have buf: "j < length (sv_send_buf s)" "length (sv_send_buf s ! j) = BUF_SIZE"
    using assms(1,2) by (auto simp: bufs_ok_def)
  have "length (sv_send_buf s ! j) \<le> length (info_text (sv_num_big s) (sv_num_small s))"
    using assms(3) info_fits_length [of "sv_num_big s" "sv_num_small s"] buf(2) by simp
  then show ?thesis using buf(1) by (simp add: put_str_overflow)
qed

section \<open>Counting\<close>

text \<open>The update an application's message stands for, and the counts of a sequence of updates.\<close>

definition received :: "nat \<Rightarrow> bool \<times> app_kind \<Rightarrow> recv_poll" where
  "received n u = Received (update_msg (fst u) (snd u) @ NUL # replicate (BUF_SIZE - 1 - length (update_msg (fst u) (snd u))) NUL)
     (replicate n True)"

definition is_big :: "app_kind \<Rightarrow> bool" where
  "is_big k \<longleftrightarrow> k \<noteq> Lat"

definition running :: "(app_kind \<Rightarrow> bool) \<Rightarrow> (bool \<times> app_kind) list \<Rightarrow> int" where
  "running P us = int (length (filter (\<lambda>(b, k). b \<and> P k) us)) - int (length (filter (\<lambda>(b, k). \<not> b \<and> P k) us))"

lemma running_Cons: "running P (u # us) = (if P (snd u) then (if fst u then 1 else -1) else 0) + running P us"
  by (cases u) (simp add: running_def)

lemma count_update_msg:
  "count_update (update_msg b k @ NUL # r) s = Inr
     (if is_big k then s\<lparr>sv_num_big := sv_num_big s + (if b then 1 else -1)\<rparr>
      else s\<lparr>sv_num_small := sv_num_small s + (if b then 1 else -1)\<rparr>)"
  by (cases b; cases k) (simp_all add: count_update_def buf_is_def is_big_def)

definition in_range :: "int \<Rightarrow> int \<Rightarrow> (bool \<times> app_kind) list \<Rightarrow> bool" where
  "in_range b0 s0 us \<longleftrightarrow> (\<forall>k\<le>length us. 0 \<le> b0 + running is_big (take k us) \<and> b0 + running is_big (take k us) < 10000 \<and>
     0 \<le> s0 + running (\<lambda>k. \<not> is_big k) (take k us) \<and> s0 + running (\<lambda>k. \<not> is_big k) (take k us) < 10000)"

lemma running_Nil [simp]: "running P [] = 0"
  by (simp add: running_def)

definition step_big :: "bool \<times> app_kind \<Rightarrow> int" where
  "step_big u = (if is_big (snd u) then (if fst u then 1 else -1) else 0)"

definition step_small :: "bool \<times> app_kind \<Rightarrow> int" where
  "step_small u = (if is_big (snd u) then 0 else (if fst u then 1 else -1))"

lemma running_step:
  "running is_big (u # us) = step_big u + running is_big us"
  "running (\<lambda>k. \<not> is_big k) (u # us) = step_small u + running (\<lambda>k. \<not> is_big k) us"
  by (simp_all add: running_Cons step_big_def step_small_def)

lemma in_range_Cons:
  assumes "in_range b0 s0 (u # us)"
  shows "in_range (b0 + step_big u) (s0 + step_small u) us"
  unfolding in_range_def
proof (intro allI impI)
  fix k assume "k \<le> length us"
  then show "0 \<le> b0 + step_big u + running is_big (take k us) \<and> b0 + step_big u + running is_big (take k us) < 10000 \<and>
      0 \<le> s0 + step_small u + running (\<lambda>k. \<not> is_big k) (take k us) \<and>
      s0 + step_small u + running (\<lambda>k. \<not> is_big k) (take k us) < 10000"
    using assms [unfolded in_range_def, THEN spec [of _ "Suc k"]] by (simp add: running_step add.assoc)
qed

lemma in_range_now: "in_range b0 s0 us \<Longrightarrow> 0 \<le> b0 \<and> b0 < 10000 \<and> 0 \<le> s0 \<and> s0 < 10000"
  unfolding in_range_def by (drule spec [of _ 0]) simp

lemma uint_of_int_small: "\<lbrakk>0 \<le> x; x < 65536\<rbrakk> \<Longrightarrow> uint (word_of_int x :: u16) = x"
  by (simp add: uint_word_of_int)

lemma unat_of_int_small: "\<lbrakk>0 \<le> x; x < 65536\<rbrakk> \<Longrightarrow> unat (word_of_int x :: u16) = nat x"
  using uint_of_int_small [of x] by (simp flip: nat_uint_eq)

definition announced :: "nat \<Rightarrow> server_state \<Rightarrow> bool" where
  "announced n s \<longleftrightarrow> (\<exists>pre msgs. sv_sent s = pre @ zip [0..<n] msgs \<and> length msgs = n \<and>
     (\<forall>m\<in>set msgs. \<exists>t. buf_str m = Inr t \<and> (\<forall>old. scan_info t old = (sv_num_big s, sv_num_small s))))"

lemma server_update:
  assumes "bufs_ok n s" "sv_num_big s = word_of_int b0" "sv_num_small s = word_of_int s0"
    and "0 \<le> b0 + step_big u" "b0 + step_big u < 10000"
  shows "\<exists>s'. server_pass (received n u # es) s = server_pass es s' \<and> bufs_ok n s' \<and>
    sv_num_big s' = word_of_int (b0 + step_big u) \<and> sv_num_small s' = word_of_int (s0 + step_small u) \<and>
    announced n s'"
proof -
  let ?s = "s\<lparr>sv_num_big := word_of_int (b0 + step_big u), sv_num_small := word_of_int (s0 + step_small u)\<rparr>"
  obtain b k where u: "u = (b, k)" by (cases u)
  have c: "count_update (update_msg b k @ NUL # replicate (BUF_SIZE - 1 - length (update_msg b k)) NUL) s = Inr ?s"
    using assms(2,3) by (simp add: count_update_msg u step_big_def step_small_def)
  have "unat (sv_num_big ?s) < 10000" using unat_of_int_small [OF assms(4)] assms(4,5)
    by (simp del: of_int_add)
  then have fits: "info_fits (sv_num_big ?s) (sv_num_small ?s)" by (simp add: info_fits_def)
  have ok: "bufs_ok n ?s" using assms(1) by simp
  have "0 + n \<le> n" by simp
  from broadcast_ok [OF ok this fits]
  obtain s' msgs where s': "broadcast 0 (replicate n True) ?s = Inr s'" "bufs_ok n s'"
    "sv_num_big s' = sv_num_big ?s" "sv_num_small s' = sv_num_small ?s"
    "sv_sent s' = sv_sent ?s @ zip [0..<0 + n] msgs" "length msgs = n"
    "\<forall>m\<in>set msgs. length m = BUF_SIZE \<and> buf_str m = Inr (info_text (sv_num_big ?s) (sv_num_small ?s))"
    by (elim exE conjE)
  then have "announced n s'" unfolding announced_def
    by (intro exI [of _ "sv_sent ?s"] exI [of _ msgs]) (auto simp: scan_info_text)
  then show ?thesis using c s' by (intro exI [of _ s']) (simp add: received_def u)
qed

lemma server_pass_counts:
  assumes "bufs_ok n s" "sv_num_big s = word_of_int b0" "sv_num_small s = word_of_int s0"
    and "in_range b0 s0 us"
  shows "\<exists>s'. server_pass (map (received n) us) s = Inr s' \<and> bufs_ok n s' \<and>
    sv_num_big s' = word_of_int (b0 + running is_big us) \<and>
    sv_num_small s' = word_of_int (s0 + running (\<lambda>k. \<not> is_big k) us) \<and> (us \<noteq> [] \<or> announced n s \<longrightarrow> announced n s')"
  using assms
proof (induction us arbitrary: s b0 s0)
  case Nil
  then show ?case by simp
next
  case (Cons u us)
  note r = in_range_Cons [OF Cons.prems(4)]
  obtain s1 where s1: "server_pass (received n u # map (received n) us) s = server_pass (map (received n) us) s1"
    "bufs_ok n s1" "sv_num_big s1 = word_of_int (b0 + step_big u)"
    "sv_num_small s1 = word_of_int (s0 + step_small u)" "announced n s1"
    using server_update [OF Cons.prems(1-3)] in_range_now [OF r] by blast
  from Cons.IH [OF s1(2-4) r] s1(1,5) show ?case by (auto simp: running_step add.assoc)
qed

lemma server_pass_append:
  "\<lbrakk>server_pass es s = Inr s'; Bad_completion \<notin> set es\<rbrakk> \<Longrightarrow> server_pass (es @ fs) s = server_pass fs s'"
  by (induction es s rule: server_pass.induct) (auto simp: res_bind_eq_Inr)

lemma server_run_pass:
  "Bad_completion \<notin> set (concat ps) \<Longrightarrow> server_run ps s = server_pass (concat ps) s"
proof (induction ps arbitrary: s)
  case Nil
  then show ?case by simp
next
  case (Cons p ps)
  show ?case
  proof (cases "server_pass p s")
    case (Inl e)
    have "server_pass (p @ fs) s = Inl e" if "Bad_completion \<notin> set p" for fs
      using Inl that by (induction p s rule: server_pass.induct) (auto simp: res_bind_def split: sum.splits)
    then show ?thesis using Inl Cons.prems by simp
  next
    case (Inr s1)
    then show ?thesis using server_pass_append [OF Inr] Cons by simp
  qed
qed

section \<open>Properties\<close>

text \<open>
  C15: the receiver's view is right. As long as the applications that run at any moment number
  between 0 and 9999 of either kind, the loop never fails, its counters are the numbers of running
  applications, and after the last update every sender has been sent a message which the parser
  of the sender's monitor reads back as exactly these numbers.
\<close>

theorem server_counts_applications:
  assumes "in_range 0 0 (concat uss)"
  shows "\<exists>s. server_run (map (map (received n)) uss) (server_init n) = Inr s \<and>
    int (unat (sv_num_big s)) = running is_big (concat uss) \<and>
    int (unat (sv_num_small s)) = running (\<lambda>k. \<not> is_big k) (concat uss) \<and>
    (concat uss \<noteq> [] \<longrightarrow> announced n s)"
proof -
  have "Bad_completion \<notin> set (concat (map (map (received n)) uss))" by (auto simp: received_def)
  then have run: "server_run (map (map (received n)) uss) (server_init n) =
      server_pass (map (received n) (concat uss)) (server_init n)"
    by (simp add: server_run_pass map_concat)
  have "bufs_ok n (server_init n)" by (auto simp: bufs_ok_def server_init_def)
  from server_pass_counts [OF this _ _ assms] obtain s where
    s: "server_pass (map (received n) (concat uss)) (server_init n) = Inr s"
    "sv_num_big s = word_of_int (running is_big (concat uss))"
    "sv_num_small s = word_of_int (running (\<lambda>k. \<not> is_big k) (concat uss))"
    "concat uss \<noteq> [] \<longrightarrow> announced n s" by (auto simp: server_init_def)
  from assms [unfolded in_range_def, THEN spec [of _ "length (concat uss)"]]
  show ?thesis using s run by (intro exI [of _ s]) (simp add: uint_of_int_small)
qed

theorem server_counts_applications_witness:
  "\<exists>s. server_run (map (map (received 2)) [[(True, Bw)], [(True, Lat), (False, Bw)]]) (server_init 2) = Inr s \<and>
    int (unat (sv_num_big s)) = running is_big (concat [[(True, Bw)], [(True, Lat), (False, Bw)]])"
  using server_counts_applications [of "[[(True, Bw)], [(True, Lat), (False, Bw)]]" 2]
  by (auto simp: in_range_def le_Suc_eq running_def is_big_def)

text \<open>
  the numbers cannot grow beyond four digits safely. A broadcast to at least one client writes behind
  its 16-byte buffer exactly when both counters have five digits; one departure more than arrivals of
  each kind is enough for that, as the counters wrap to 65535.
\<close>

theorem info_message_overruns_buffer:
  assumes "bufs_ok n s" and "0 < n"
  shows "(broadcast 0 (replicate n True) s = Inl Out_of_bounds) =
      (10000 \<le> unat (sv_num_big s) \<and> 10000 \<le> unat (sv_num_small s)) \<and>
    server_pass [received n (False, Bw), received n (False, Lat)] (server_init n) = Inl Out_of_bounds"
proof
  obtain m where n: "n = Suc m" using assms(2) by (cases n) auto
  show "(broadcast 0 (replicate n True) s = Inl Out_of_bounds) =
      (10000 \<le> unat (sv_num_big s) \<and> 10000 \<le> unat (sv_num_small s))"
  proof (cases "info_fits (sv_num_big s) (sv_num_small s)")
    case True
    then show ?thesis using broadcast_ok [OF assms(1), of 0 n] by (auto simp: info_fits_def)
  next
    case False
    then show ?thesis using broadcast_overflow [OF assms(1,2) False, of True "replicate m True"]
      by (auto simp: info_fits_def n)
  qed
  have i: "bufs_ok n (server_init n)" by (auto simp: bufs_ok_def server_init_def)
  let ?s1 = "(server_init n)\<lparr>sv_num_big := - 1\<rparr>"
  have c: "count_update (update_msg False Bw @ NUL # r) (server_init n) = Inr ?s1" for r
    by (simp only: count_update_msg) (simp add: is_big_def server_init_def)
  have "bufs_ok n ?s1" "info_fits (sv_num_big ?s1) (sv_num_small ?s1)"
    using i by (simp_all add: info_fits_def) (simp add: server_init_def)
  from broadcast_ok [OF this(1) _ this(2), of 0 n]
  obtain s2 where s2: "broadcast 0 (replicate n True) ?s1 = Inr s2" "bufs_ok n s2" "sv_num_big s2 = - 1"
    "sv_num_small s2 = 0" by (auto simp: server_init_def)
  let ?s3 = "s2\<lparr>sv_num_small := - 1\<rparr>"
  have "unat (- 1 :: u16) = 65535" by (simp add: unsigned_minus_1_eq_mask mask_eq_exp_minus_1)
  then have "bufs_ok n ?s3" "\<not> info_fits (sv_num_big ?s3) (sv_num_small ?s3)"
    using s2 by (simp_all add: info_fits_def)
  from broadcast_overflow [OF this(1) assms(2) this(2)]
  have "broadcast 0 (replicate n True) ?s3 = Inl Out_of_bounds" by (simp only: n replicate_Suc)
  moreover have "count_update (update_msg False Lat @ NUL # r) s2 = Inr ?s3" for r
    using s2(4) by (simp only: count_update_msg) (simp add: is_big_def)
  ultimately show "server_pass [received n (False, Bw), received n (False, Lat)] (server_init n) = Inl Out_of_bounds"
    using c s2(1) by (simp add: received_def del: update_msg.simps)
qed

theorem info_message_overruns_buffer_witness:
  "server_pass [received 1 (False, Bw), received 1 (False, Lat)] (server_init 1) = Inl Out_of_bounds"
  using info_message_overruns_buffer [of 1 "server_init 1"]
  by (simp add: bufs_ok_def server_init_def del: server_pass.simps)

end
