(* ===== verification/Monitor.thy ===== *)
theory Monitor
  imports Mon_Messages C_Float
begin

text \<open>
  The sender's monitor (\<open>monitor_latency\<close> of \<open>rdma_pacer/monitor.c\<close>, \<open>EVENT_POLL\<close> 0, \<open>USE_CMH\<close> off):
  every 200 us it takes the receiver's counters from an \<open>INFO\<close> message, times one 10-byte reference
  WRITE per server, smooths the latency, and sets the virtual link capacity by additive increase and
  multiplicative decrease. Latencies are \<open>double\<close>s (\<open>C_Float\<close>). The input of an iteration says, for
  each server, what polling and posting return and what the cycle counter reads. A work request
  that was not posted completes never: waiting for it is \<open>Diverges\<close>.
\<close>

definition TAIL :: rat where [macro_defs]: "TAIL = 2"
definition EWMA :: rat where [macro_defs]: "EWMA = 1/2"

record mon_state =
  mo_cb :: control_block
  mo_measured :: "rat list"
  mo_prev :: "rat list"
  mo_start :: "u64 list"
  mo_outstanding :: "nat list"
  mo_seq :: u64
  mo_wr_id :: "u64 list"
  mo_min_cap :: u32
  mo_temp :: "u32 option"

datatype info_poll = No_info | Bad_info_wc | Info string

datatype wc_poll = Wc_ok | Wc_error | Poll_error

record srv_input =
  in_info :: info_poll
  in_start :: u64
  in_post_ok :: bool
  in_wc :: wc_poll
  in_end :: u64

definition mon_init :: "nat \<Rightarrow> control_block \<Rightarrow> mon_state" where
  "mon_init n cb =
     \<lparr>mo_cb = cb\<lparr>cb_num_receiver_big_flows := replicate n 0 @ drop n (cb_num_receiver_big_flows cb),
                cb_num_receiver_small_flows := replicate n 0 @ drop n (cb_num_receiver_small_flows cb)\<rparr>,
      mo_measured = replicate MAX_SERVERS 0, mo_prev = replicate MAX_SERVERS 0,
      mo_start = replicate MAX_SERVERS 0, mo_outstanding = replicate n 0,
      mo_seq = 0, mo_wr_id = replicate MAX_SERVERS 0, mo_min_cap = 0, mo_temp = None\<rparr>"

section \<open>Receiving and sending\<close>

text \<open>The result is whether the \<open>for\<close> loop is left with \<open>break\<close>.\<close>

definition receive_info :: "nat \<Rightarrow> info_poll \<Rightarrow> mon_state \<Rightarrow> (bool \<times> mon_state) res" where
  "receive_info i p s =
     (case p of
        No_info \<Rightarrow> Inr (False, s)
      | Bad_info_wc \<Rightarrow> Inr (True, s)
      | Info buf \<Rightarrow>
          if buf_starts buf ''INFO:'' then
            res_bind (buf_str buf) (\<lambda>txt.
            let cb = mo_cb s;
                (big, small) = scan_info txt (cb_num_receiver_big_flows cb ! i, cb_num_receiver_small_flows cb ! i)
            in Inr (False, s\<lparr>mo_cb := cb\<lparr>
                 cb_num_receiver_big_flows := (cb_num_receiver_big_flows cb)[i := big],
                 cb_num_receiver_small_flows := (cb_num_receiver_small_flows cb)[i := small]\<rparr>\<rparr>))
          else Inl (Exit_code 1))"

fun send_loop :: "nat \<Rightarrow> srv_input list \<Rightarrow> mon_state \<Rightarrow> mon_state res" where
  "send_loop i [] s = Inr s"
| "send_loop i (e # es) s =
     res_bind (receive_info i (in_info e) s) (\<lambda>(brk, s1).
       if brk then Inr s1
       else let s2 = s1\<lparr>mo_start := (mo_start s1)[i := in_start e]\<rparr> in
         if in_post_ok e
         then send_loop (Suc i) es
                (s2\<lparr>mo_outstanding := (mo_outstanding s2)[i := mo_outstanding s2 ! i + 1]\<rparr>)
         else Inr s2)"

section \<open>Measuring\<close>

text \<open>\<open>lat = (end - start) / cpu_mhz * 1000\<close>, an \<open>int\<close> of nanoseconds.\<close>

definition ref_latency :: "rat \<Rightarrow> u64 \<Rightarrow> u64 \<Rightarrow> int res" where
  "ref_latency cpu_mhz start end1 =
     (if cpu_mhz = 0 then Inl Bad_conversion
      else let lat = c_trunc (to_double (to_double (to_double (of_nat (unat (end1 - start))) / cpu_mhz) * 1000))
        in if lat < 2 ^ 31 then Inr lat else Inl Bad_conversion)"

definition smooth :: "int \<Rightarrow> rat \<Rightarrow> rat" where
  "smooth lat prev =
     (let m = to_double (of_int lat / 1000)
      in to_double (to_double (EWMA * m) + to_double ((1 - EWMA) * prev)))"

definition poll_ref :: "rat \<Rightarrow> nat \<Rightarrow> srv_input \<Rightarrow> mon_state \<Rightarrow> (bool \<times> mon_state) res" where
  "poll_ref mhz i e s =
     (if in_wc e = Poll_error then Inr (True, s)
      else if mo_outstanding s ! i = 0 then Inl Diverges
      else let s1 = s\<lparr>mo_outstanding := (mo_outstanding s)[i := mo_outstanding s ! i - 1]\<rparr> in
        if in_wc e = Wc_error then Inr (True, s1)
        else res_bind (ref_latency mhz (mo_start s1 ! i) (in_end e)) (\<lambda>lat.
          let m = smooth lat (mo_prev s1 ! i) in
          Inr (False, s1\<lparr>mo_measured := (mo_measured s1)[i := m], mo_prev := (mo_prev s1)[i := m],
                 mo_seq := mo_seq s1 + 1, mo_wr_id := (mo_wr_id s1)[i := mo_seq s1 + 1]\<rparr>)))"

fun poll_loop :: "rat \<Rightarrow> nat \<Rightarrow> srv_input list \<Rightarrow> mon_state \<Rightarrow> mon_state res" where
  "poll_loop mhz i [] s = Inr s"
| "poll_loop mhz i (e # es) s =
     res_bind (poll_ref mhz i e s) (\<lambda>(brk, s1). if brk then Inr s1 else poll_loop mhz (Suc i) es s1)"

section \<open>Setting the capacity\<close>

text \<open>
  The share of the large flows when all small flows together count as one (\<open>TREAT_L_AS_ONE\<close>), and the
  step of the control loop. \<open>num_remote_big_reads\<close> is 0 throughout.
\<close>

definition min_cap :: "u16 \<Rightarrow> u16 \<Rightarrow> u32" where
  "min_cap big recv_big =
     (let share = c_round (to_double (to_double (of_nat (unat big) / of_nat (unat recv_big + 1)) * of_nat LINE_RATE_MB))
      in if share > int LINE_RATE_MB then of_nat LINE_RATE_MB else word_of_int share)"

definition aimd :: "rat \<Rightarrow> u32 \<Rightarrow> u32 \<Rightarrow> u32" where
  "aimd measured m cap =
     (if measured > TAIL
      then (let t = drop_bit 1 cap in if t < m then m else t)
      else if unat cap < LINE_RATE_MB then cap + 1 else cap)"

definition set_cap :: "u32 \<Rightarrow> mon_state \<Rightarrow> mon_state" where
  "set_cap v s = s\<lparr>mo_temp := Some v,
     mo_cb := (mo_cb s)\<lparr>cb_sb := (cb_sb (mo_cb s))\<lparr>sb_virtual_link_cap := v\<rparr>\<rparr>\<rparr>"

definition update_cap :: "mon_state \<Rightarrow> mon_state res" where
  "update_cap s =
     (let cb = mo_cb s; sb = cb_sb cb; cap = sb_virtual_link_cap sb;
          big = sb_num_active_big_flows sb; small = sb_num_active_small_flows sb; bw = sb_num_active_bw_flows sb
      in if big = 0 then Inr s
      else if (small \<noteq> 0 \<or> cb_num_receiver_small_flows cb ! 0 \<noteq> 0) \<and> bw \<noteq> 0
      then let m = min_cap big (cb_num_receiver_big_flows cb ! 0)
           in Inr (set_cap (aimd (mo_measured s ! 0) m cap) (s\<lparr>mo_min_cap := m\<rparr>))
      else if unat cap \<noteq> LINE_RATE_MB then Inr (set_cap (of_nat LINE_RATE_MB) s)
      else case mo_temp s of None \<Rightarrow> Inl Uninit_read | Some t \<Rightarrow> Inr (set_cap t s))"

definition monitor_iter :: "rat \<Rightarrow> srv_input list \<Rightarrow> mon_state \<Rightarrow> mon_state res" where
  "monitor_iter mhz es s =
     res_bind (send_loop 0 es s) (\<lambda>s1. res_bind (poll_loop mhz 0 es s1) update_cap)"

text \<open>
  Between two iterations the applications change the counters in the shared block: the numbers of
  large, small and bandwidth flows the next iteration reads.
\<close>

definition app_counters :: "u16 \<times> u16 \<times> u16 \<Rightarrow> mon_state \<Rightarrow> mon_state" where
  "app_counters c s = (case c of (big, small, bw) \<Rightarrow>
     s\<lparr>mo_cb := (mo_cb s)\<lparr>cb_sb := (cb_sb (mo_cb s))\<lparr>sb_num_active_big_flows := big,
        sb_num_active_small_flows := small, sb_num_active_bw_flows := bw\<rparr>\<rparr>\<rparr>)"

fun monitor_run :: "rat \<Rightarrow> (srv_input list \<times> u16 \<times> u16 \<times> u16) list \<Rightarrow> mon_state \<Rightarrow> mon_state res" where
  "monitor_run mhz [] s = Inr s"
| "monitor_run mhz ((es, c) # r) s = res_bind (monitor_iter mhz es (app_counters c s)) (monitor_run mhz r)"

section \<open>The control law\<close>

lemma aimd_le:
  assumes "unat cap \<le> LINE_RATE_MB" "unat m \<le> LINE_RATE_MB"
  shows "unat (aimd x m cap) \<le> LINE_RATE_MB"
proof -
  have "unat (drop_bit 1 cap) \<le> unat cap" by (simp add: unat_drop_bit_eq drop_bit_nat_def)
  moreover have "unat (cap + 1) = unat cap + 1" if "unat cap < LINE_RATE_MB"
    using unat_add_lem [of cap 1] that by (simp add: LINE_RATE_MB_def)
  ultimately show ?thesis using assms by (auto simp: aimd_def Let_def)
qed

lemma aimd_above: "TAIL < x \<Longrightarrow> m \<le> aimd x m cap"
  by (auto simp: aimd_def Let_def)

lemma aimd_decrease:
  assumes "TAIL < x"
  shows "unat (aimd x m cap) = max (unat cap div 2) (unat m)"
  using assms by (auto simp: aimd_def Let_def word_less_nat_alt unat_drop_bit_eq drop_bit_nat_def)

lemma aimd_increase:
  assumes "x \<le> TAIL" "unat cap \<le> LINE_RATE_MB"
  shows "unat (aimd x m cap) = min LINE_RATE_MB (unat cap + 1)"
  using assms unat_add_lem [of cap 1] by (auto simp: aimd_def LINE_RATE_MB_def)

section \<open>The fair share\<close>

lemma fl_close:
  assumes "0 < x" "x \<le> of_nat b"
  shows "\<bar>to_double x - x\<bar> \<le> of_nat b / 2 ^ 53"
proof -
  have "x / 2 ^ 53 \<le> of_nat b / 2 ^ 53" using assms(2) by (intro divide_right_mono) simp_all
  with fl_rel_err [OF assms(1), of 53] show ?thesis by (rule order_trans)
qed

lemma share_close:
  fixes big recv_big :: nat
  assumes "0 < big" "big < 65536"
  shows "\<bar>to_double (to_double (of_nat big / of_nat (recv_big + 1)) * 6000) - 6000 * of_nat big / of_nat (recv_big + 1)\<bar> \<le> 1 / 2 ^ 20"
proof -
  define q where "q = (of_nat big / of_nat (recv_big + 1) :: rat)"
  define d where "d = to_double q"
  have q: "0 < q" "q \<le> 65536"
  proof -
    show "0 < q" using assms(1) by (simp add: q_def)
    have "q \<le> of_nat big / 1" unfolding q_def using assms(1) by (intro divide_left_mono) simp_all
    then show "q \<le> 65536" using assms(2) by simp
  qed
  have d1: "\<bar>d - q\<bar> \<le> 65536 / 2 ^ 53" using fl_close [of q 65536] q by (simp add: d_def)
  have "d \<le> q + 65536 / 2 ^ 53" using d1 by linarith
  then have d2: "d \<le> 65537" using q(2) by simp
  have d0: "0 < d" using fl_pos q(1) by (simp add: d_def)
  have "\<bar>to_double (d * 6000) - d * 6000\<bar> \<le> 393222000 / 2 ^ 53"
    using fl_close [of "d * 6000" 393222000] d0 d2 by simp
  moreover have "\<bar>d * 6000 - 6000 * q\<bar> \<le> 6000 * (65536 / 2 ^ 53)" using d1 by linarith
  ultimately have "\<bar>to_double (d * 6000) - 6000 * q\<bar> \<le> 393222000 / 2 ^ 53 + 6000 * (65536 / 2 ^ 53)"
    by linarith
  also have "\<dots> \<le> 1 / 2 ^ 20" by simp
  finally show ?thesis by (simp add: d_def q_def)
qed

lemma c_round_err: "\<bar>of_int (c_round x) - x\<bar> \<le> 1/2"
proof (cases "0 \<le> x")
  case True
  have "of_int \<lfloor>x + 1/2\<rfloor> \<le> x + 1/2" "x + 1/2 < of_int \<lfloor>x + 1/2\<rfloor> + 1" by linarith+
  moreover have "c_round x = \<lfloor>x + 1/2\<rfloor>" using True by (simp add: c_round_def)
  ultimately show ?thesis by linarith
next
  case False
  have "of_int \<lfloor>1/2 - x\<rfloor> \<le> 1/2 - x" "1/2 - x < of_int \<lfloor>1/2 - x\<rfloor> + 1" by linarith+
  moreover have "of_int (c_round x) = - (of_int \<lfloor>1/2 - x\<rfloor> :: rat)" using False by (simp add: c_round_def)
  ultimately show ?thesis by linarith
qed

lemma min_cap_le: "unat (min_cap big recv_big) \<le> LINE_RATE_MB"
proof -
  let ?x = "to_double (to_double (of_nat (unat big) / of_nat (unat recv_big + 1)) * of_nat LINE_RATE_MB)"
  have "0 \<le> ?x" by (intro fl_nonneg mult_nonneg_nonneg divide_nonneg_nonneg of_nat_0_le_iff) simp_all
  then have "0 \<le> c_round ?x" by (simp add: c_round_def)
  then show ?thesis
    by (auto simp: min_cap_def Let_def LINE_RATE_MB_def unat_word_of_int_small)
qed

section \<open>Smoothing\<close>

definition is_double :: "rat \<Rightarrow> bool" where
  "is_double x \<longleftrightarrow> 0 \<le> x \<and> to_double x = x"

lemma is_double_fl: "0 \<le> x \<Longrightarrow> is_double (to_double x)"
  by (simp add: is_double_def fl_idem fl_nonneg)

lemma smooth_eq:
  assumes "0 \<le> lat" "is_double prev"
  shows "smooth lat prev = to_double (to_double (of_int lat / 1000) / 2 + prev / 2)"
proof -
  have "is_double (to_double (of_int lat / 1000))" using assms(1) by (intro is_double_fl) simp
  then have "to_double (to_double (of_int lat / 1000) / 2) = to_double (of_int lat / 1000) / 2"
    using fl_half [of _ 53] by (simp only: is_double_def)
  moreover have "to_double (prev / 2) = prev / 2"
    using assms(2) by (intro fl_half) (simp_all add: is_double_def)
  ultimately show ?thesis
    by (simp add: smooth_def Let_def EWMA_def del: eq_divide_eq_numeral1)
qed

lemma smooth_double: "\<lbrakk>0 \<le> lat; is_double prev\<rbrakk> \<Longrightarrow> is_double (smooth lat prev)"
  unfolding smooth_eq
  by (intro is_double_fl add_nonneg_nonneg divide_nonneg_nonneg fl_nonneg) (simp_all add: is_double_def)

lemma smooth_below:
  assumes "0 \<le> lat" "lat \<le> 2000" "is_double prev" "prev \<le> TAIL"
  shows "smooth lat prev \<le> TAIL"
proof -
  have two: "to_double 2 = 2" using fl_of_nat [of 2 53] by simp
  have "to_double (of_int lat / 1000) \<le> to_double 2"
    using assms(1,2) by (intro fl_mono) (simp_all add: divide_le_eq)
  then have "to_double (of_int lat / 1000) / 2 + prev / 2 \<le> 2" using assms(4) two by (simp add: TAIL_def)
  then have "to_double (to_double (of_int lat / 1000) / 2 + prev / 2) \<le> to_double 2"
    using assms(1,3) by (intro fl_mono add_nonneg_nonneg divide_nonneg_nonneg fl_nonneg) (simp_all add: is_double_def)
  then show ?thesis using two by (simp add: smooth_eq [OF assms(1,3)] TAIL_def)
qed

lemma smooth_above:
  assumes "4001 \<le> lat" "is_double prev"
  shows "TAIL < smooth lat prev"
proof -
  define m where "m = to_double (of_int lat / 1000)"
  have "to_double (4001 / 1000) \<le> m" using assms(1) unfolding m_def
    by (intro fl_mono) (simp_all add: divide_le_eq le_divide_eq)
  moreover have "\<bar>to_double (4001 / 1000) - 4001 / 1000\<bar> \<le> 4001 / 1000 / 2 ^ 53" by (rule fl_rel_err) simp
  moreover have "(4001 / 1000 / 2 ^ 53 :: rat) \<le> 1 / 2000" by simp
  ultimately have "4 + 1 / 2000 \<le> m" by linarith
  then have h: "2 + 1 / 4000 \<le> m / 2 + prev / 2" using assms(2) by (simp add: is_double_def)
  have "to_double (2 + 1 / 4000) \<le> to_double (m / 2 + prev / 2)" using h by (intro fl_mono) simp_all
  moreover have "\<bar>to_double (2 + 1 / 4000) - (2 + 1 / 4000)\<bar> \<le> (2 + 1 / 4000) / 2 ^ 53" by (rule fl_rel_err) simp
  moreover have "((2 + 1 / 4000) / 2 ^ 53 :: rat) < 1 / 4000" by simp
  ultimately have "2 < to_double (m / 2 + prev / 2)" by linarith
  then show ?thesis using smooth_eq [of lat prev] assms by (simp add: TAIL_def m_def)
qed

section \<open>One iteration\<close>

definition info_ok :: "info_poll \<Rightarrow> bool" where
  "info_ok p = (case p of No_info \<Rightarrow> True | Bad_info_wc \<Rightarrow> False
     | Info buf \<Rightarrow> buf_starts buf ''INFO:'' \<and> NUL \<in> set buf)"

definition good_input :: "rat \<Rightarrow> srv_input \<Rightarrow> int \<Rightarrow> bool" where
  "good_input mhz e lat \<longleftrightarrow> in_wc e = Wc_ok \<and> in_post_ok e \<and> info_ok (in_info e) \<and>
     ref_latency mhz (in_start e) (in_end e) = Inr lat \<and> 0 < mhz"

definition mon_inv :: "mon_state \<Rightarrow> bool" where
  "mon_inv s \<longleftrightarrow> 0 < length (mo_measured s) \<and> 0 < length (mo_prev s) \<and> 0 < length (mo_start s) \<and>
     0 < length (mo_outstanding s) \<and> is_double (mo_prev s ! 0) \<and>
     unat (sb_virtual_link_cap (cb_sb (mo_cb s))) \<le> LINE_RATE_MB \<and>
     (mo_temp s = None \<or> mo_temp s = Some (sb_virtual_link_cap (cb_sb (mo_cb s))))"

lemma ref_latency_nonneg:
  assumes "ref_latency mhz a b = Inr lat" "0 < mhz"
  shows "0 \<le> lat"
proof -
  have "0 \<le> to_double (to_double (to_double (of_nat (unat (b - a))) / mhz) * 1000)"
    using assms(2) by (intro fl_nonneg mult_nonneg_nonneg divide_nonneg_nonneg of_nat_0_le_iff) simp_all
  then show ?thesis using assms(1)
    by (auto simp: ref_latency_def Let_def c_trunc_def split: if_splits)
qed

lemma receive_info_ok:
  assumes "info_ok p"
  shows "\<exists>big small. receive_info 0 p s = Inr (False, s\<lparr>mo_cb := (mo_cb s)\<lparr>
    cb_num_receiver_big_flows := big, cb_num_receiver_small_flows := small\<rparr>\<rparr>)"
proof (cases p)
  case No_info
  then show ?thesis
    by (intro exI [of _ "cb_num_receiver_big_flows (mo_cb s)"]
        exI [of _ "cb_num_receiver_small_flows (mo_cb s)"]) (simp add: receive_info_def)
next
  case (Info buf)
  then show ?thesis using assms
    by (cases "scan_info (c_str buf) (cb_num_receiver_big_flows (mo_cb s) ! 0, cb_num_receiver_small_flows (mo_cb s) ! 0)")
      (auto simp: receive_info_def info_ok_def buf_str_def Let_def)
qed (use assms in \<open>simp add: info_ok_def\<close>)

lemma monitor_iter_good:
  assumes "mon_inv s" "good_input mhz e lat"
  shows "\<exists>s1. monitor_iter mhz [e] s = update_cap s1 \<and> mon_inv s1 \<and> cb_sb (mo_cb s1) = cb_sb (mo_cb s) \<and>
    mo_temp s1 = mo_temp s \<and> mo_measured s1 ! 0 = smooth lat (mo_prev s ! 0) \<and>
    mo_prev s1 ! 0 = smooth lat (mo_prev s ! 0)"
proof -
  obtain big small where r: "receive_info 0 (in_info e) s = Inr (False, s\<lparr>mo_cb := (mo_cb s)\<lparr>
      cb_num_receiver_big_flows := big, cb_num_receiver_small_flows := small\<rparr>\<rparr>)"
    using receive_info_ok assms(2) unfolding good_input_def by blast
  have lat: "0 \<le> lat" "ref_latency mhz (in_start e) (in_end e) = Inr lat"
    using assms(2) ref_latency_nonneg unfolding good_input_def by blast+
  have "is_double (smooth lat (mo_prev s ! 0))" using smooth_double lat(1) assms(1) by (simp add: mon_inv_def)
  then show ?thesis using assms r lat
    by (simp add: monitor_iter_def good_input_def mon_inv_def poll_ref_def Let_def)
      (rule exI, rule conjI [OF refl], simp)
qed

lemma set_cap_simps [simp]:
  "sb_virtual_link_cap (cb_sb (mo_cb (set_cap v s))) = v" "mo_prev (set_cap v s) = mo_prev s"
  "mo_measured (set_cap v s) = mo_measured s" "mo_temp (set_cap v s) = Some v"
  "mo_start (set_cap v s) = mo_start s" "mo_outstanding (set_cap v s) = mo_outstanding s"
  by (simp_all add: set_cap_def)

lemma set_cap_inv: "\<lbrakk>mon_inv s; unat v \<le> LINE_RATE_MB\<rbrakk> \<Longrightarrow> mon_inv (set_cap v s)"
  by (simp add: mon_inv_def)

definition contended :: "control_block \<Rightarrow> bool" where
  "contended cb \<longleftrightarrow> (sb_num_active_small_flows (cb_sb cb) \<noteq> 0 \<or> cb_num_receiver_small_flows cb ! 0 \<noteq> 0) \<and>
     sb_num_active_bw_flows (cb_sb cb) \<noteq> 0"

lemma update_cap_contended:
  "update_cap s =
     (let cb = mo_cb s; cap = sb_virtual_link_cap (cb_sb cb); big = sb_num_active_big_flows (cb_sb cb);
        m = min_cap big (cb_num_receiver_big_flows cb ! 0)
      in if big = 0 then Inr s
      else if contended cb then Inr (set_cap (aimd (mo_measured s ! 0) m cap) (s\<lparr>mo_min_cap := m\<rparr>))
      else if unat cap \<noteq> LINE_RATE_MB then Inr (set_cap (of_nat LINE_RATE_MB) s)
      else case mo_temp s of None \<Rightarrow> Inl Uninit_read | Some t \<Rightarrow> Inr (set_cap t s))"
  by (simp only: update_cap_def contended_def Let_def)

lemma update_cap_cases:
  assumes "mon_inv s"
  shows "update_cap s = Inl Uninit_read \<and> mo_temp s = None \<and> sb_num_active_big_flows (cb_sb (mo_cb s)) \<noteq> 0 \<and>
      \<not> contended (mo_cb s) \<and> unat (sb_virtual_link_cap (cb_sb (mo_cb s))) = LINE_RATE_MB \<or>
    (\<exists>s'. update_cap s = Inr s' \<and> mon_inv s' \<and> mo_prev s' = mo_prev s \<and>
      (mo_temp s \<noteq> None \<longrightarrow> mo_temp s' \<noteq> None))"
proof -
  let ?cb = "mo_cb s"
  let ?cap = "sb_virtual_link_cap (cb_sb ?cb)"
  let ?m = "min_cap (sb_num_active_big_flows (cb_sb ?cb)) (cb_num_receiver_big_flows ?cb ! 0)"
  have cap: "unat ?cap \<le> LINE_RATE_MB" using assms by (simp add: mon_inv_def)
  consider "sb_num_active_big_flows (cb_sb ?cb) = 0"
    | "sb_num_active_big_flows (cb_sb ?cb) \<noteq> 0" "contended ?cb"
    | "sb_num_active_big_flows (cb_sb ?cb) \<noteq> 0" "\<not> contended ?cb" "unat ?cap \<noteq> LINE_RATE_MB"
    | "sb_num_active_big_flows (cb_sb ?cb) \<noteq> 0" "\<not> contended ?cb" "unat ?cap = LINE_RATE_MB" by blast
  then show ?thesis
  proof cases
    case 1
    then show ?thesis using assms by (simp add: update_cap_def)
  next
    case 2
    have "mon_inv (s\<lparr>mo_min_cap := ?m\<rparr>)" using assms by (simp add: mon_inv_def)
    from set_cap_inv [OF this aimd_le [OF cap min_cap_le]] 2 show ?thesis
      by (simp add: update_cap_contended Let_def)
  next
    case 3
    have "unat (of_nat LINE_RATE_MB :: u32) \<le> LINE_RATE_MB" by (simp add: LINE_RATE_MB_def)
    from set_cap_inv [OF assms this] 3 show ?thesis by (simp add: update_cap_contended Let_def)
  next
    case 4
    then show ?thesis using assms set_cap_inv [OF assms cap]
      by (cases "mo_temp s") (auto simp: update_cap_contended Let_def mon_inv_def)
  qed
qed

lemma app_counters_inv: "mon_inv s \<Longrightarrow> mon_inv (app_counters c s)"
  by (cases c) (simp add: app_counters_def mon_inv_def)

lemma app_counters_simps [simp]:
  "mo_prev (app_counters c s) = mo_prev s" "mo_temp (app_counters c s) = mo_temp s"
  "mo_outstanding (app_counters c s) = mo_outstanding s"
  "sb_virtual_link_cap (cb_sb (mo_cb (app_counters c s))) = sb_virtual_link_cap (cb_sb (mo_cb s))"
  "cb_num_receiver_small_flows (mo_cb (app_counters c s)) = cb_num_receiver_small_flows (mo_cb s)"
  by (cases c; simp add: app_counters_def)+

lemma mon_init_inv:
  assumes "0 < n"
  shows "mon_inv (mon_init n (main_init sb))"
  using assms by (simp add: mon_inv_def mon_init_def main_init_def MAX_SERVERS_def is_double_def LINE_RATE_MB_def)

text \<open>A whole iteration, with good input, in terms of the capacity alone.\<close>

lemma monitor_iter_total:
  assumes "mon_inv s" "good_input mhz e lat"
  shows "monitor_iter mhz [e] s = Inl Uninit_read \<and> mo_temp s = None \<or>
    (\<exists>s'. monitor_iter mhz [e] s = Inr s' \<and> mon_inv s' \<and> mo_prev s' ! 0 = smooth lat (mo_prev s ! 0) \<and>
      (mo_temp s \<noteq> None \<longrightarrow> mo_temp s' \<noteq> None))"
proof -
  obtain s1 where s1: "monitor_iter mhz [e] s = update_cap s1" "mon_inv s1" "mo_temp s1 = mo_temp s"
    "mo_prev s1 ! 0 = smooth lat (mo_prev s ! 0)"
    using monitor_iter_good [OF assms] by blast
  from update_cap_cases [OF s1(2)] show ?thesis unfolding s1(1) using s1(3,4) by auto
qed

definition good_run :: "rat \<Rightarrow> (srv_input list \<times> u16 \<times> u16 \<times> u16) list \<Rightarrow> (int \<Rightarrow> bool) \<Rightarrow> bool" where
  "good_run mhz ins P \<longleftrightarrow> (\<forall>x\<in>set ins. \<exists>e lat. fst x = [e] \<and> good_input mhz e lat \<and> P lat)"

lemma monitor_run_inv:
  assumes "good_run mhz ins P" "mon_inv s"
  shows "monitor_run mhz ins s = Inl Uninit_read \<and> mo_temp s = None \<or>
    (\<exists>s'. monitor_run mhz ins s = Inr s' \<and> mon_inv s')"
  using assms
proof (induction ins arbitrary: s)
  case Nil
  then show ?case by simp
next
  case (Cons x ins)
  obtain es c where x: "x = (es, c)" by (cases x)
  obtain e lat where e: "es = [e]" "good_input mhz e lat"
    using Cons.prems(1) x by (auto simp: good_run_def)
  have g: "good_run mhz ins P" using Cons.prems(1) by (simp add: good_run_def)
  from monitor_iter_total [OF app_counters_inv [OF Cons.prems(2)] e(2), of c]
  show ?case
  proof (elim disjE exE conjE)
    assume "monitor_iter mhz [e] (app_counters c s) = Inl Uninit_read" "mo_temp (app_counters c s) = None"
    then show ?thesis using x e by simp
  next
    fix s' assume s': "monitor_iter mhz [e] (app_counters c s) = Inr s'" "mon_inv s'"
      "mo_temp (app_counters c s) \<noteq> None \<longrightarrow> mo_temp s' \<noteq> None"
    from Cons.IH [OF g s'(2)] show ?thesis using x e s'(1,3) by auto
  qed
qed

text \<open>Two pieces of reference input, without news from the receiver: 2 us and 5 us at 1 GHz.\<close>

definition sample_input :: "u64 \<Rightarrow> srv_input" where
  "sample_input cycles = \<lparr>in_info = No_info, in_start = 0, in_post_ok = True, in_wc = Wc_ok, in_end = cycles\<rparr>"

text \<open>Iterations without news from the receiver, and with the same mix of contending flows.\<close>

lemma monitor_iter_quiet:
  assumes "mon_inv s" "good_input mhz e lat" "in_info e = No_info"
  shows "\<exists>s1. monitor_iter mhz [e] s = update_cap s1 \<and> mon_inv s1 \<and> mo_cb s1 = mo_cb s \<and>
    mo_measured s1 ! 0 = smooth lat (mo_prev s ! 0) \<and> mo_prev s1 ! 0 = smooth lat (mo_prev s ! 0)"
proof -
  have lat: "0 \<le> lat" "ref_latency mhz (in_start e) (in_end e) = Inr lat"
    using assms(2) ref_latency_nonneg unfolding good_input_def by blast+
  have "is_double (smooth lat (mo_prev s ! 0))" using smooth_double lat(1) assms(1) by (simp add: mon_inv_def)
  then show ?thesis using assms lat
    by (simp add: monitor_iter_def good_input_def mon_inv_def poll_ref_def receive_info_def Let_def)
      (rule exI, rule conjI [OF refl], simp)
qed

definition same_mix :: "u16 \<Rightarrow> u16 \<Rightarrow> u16 \<Rightarrow> srv_input list \<Rightarrow> (srv_input list \<times> u16 \<times> u16 \<times> u16) list" where
  "same_mix big small bw es = map (\<lambda>e. ([e], big, small, bw)) es"

definition quiet :: "rat \<Rightarrow> (int \<Rightarrow> bool) \<Rightarrow> srv_input list \<Rightarrow> bool" where
  "quiet mhz P es \<longleftrightarrow> (\<forall>e\<in>set es. in_info e = No_info \<and> (\<exists>lat. good_input mhz e lat \<and> P lat))"

lemma contended_iter:
  assumes "mon_inv s" "good_input mhz e lat" "in_info e = No_info" "big \<noteq> 0" "small \<noteq> 0" "bw \<noteq> 0"
  shows "\<exists>s'. monitor_iter mhz [e] (app_counters (big, small, bw) s) = Inr s' \<and> mon_inv s' \<and>
    cb_num_receiver_big_flows (mo_cb s') = cb_num_receiver_big_flows (mo_cb s) \<and>
    mo_prev s' ! 0 = smooth lat (mo_prev s ! 0) \<and>
    sb_virtual_link_cap (cb_sb (mo_cb s')) = aimd (smooth lat (mo_prev s ! 0))
      (min_cap big (cb_num_receiver_big_flows (mo_cb s) ! 0)) (sb_virtual_link_cap (cb_sb (mo_cb s)))"
proof -
  let ?s = "app_counters (big, small, bw) s"
  from monitor_iter_quiet [OF app_counters_inv [OF assms(1)] assms(2,3)]
  obtain s1 where s1: "monitor_iter mhz [e] ?s = update_cap s1" "mon_inv s1" "mo_cb s1 = mo_cb ?s"
    "mo_measured s1 ! 0 = smooth lat (mo_prev s ! 0)" "mo_prev s1 ! 0 = smooth lat (mo_prev s ! 0)"
    unfolding app_counters_simps by blast
  let ?m = "min_cap big (cb_num_receiver_big_flows (mo_cb s) ! 0)"
  let ?v = "aimd (smooth lat (mo_prev s ! 0)) ?m (sb_virtual_link_cap (cb_sb (mo_cb s)))"
  have u: "update_cap s1 = Inr (set_cap ?v (s1\<lparr>mo_min_cap := ?m\<rparr>))"
    using s1(3,4) assms(4-6) by (simp add: update_cap_def app_counters_def Let_def)
  have "mon_inv (s1\<lparr>mo_min_cap := ?m\<rparr>)" using s1(2) by (simp add: mon_inv_def)
  moreover have "unat ?v \<le> LINE_RATE_MB"
    using assms(1) by (intro aimd_le min_cap_le) (simp add: mon_inv_def)
  ultimately have "mon_inv (set_cap ?v (s1\<lparr>mo_min_cap := ?m\<rparr>))" by (rule set_cap_inv)
  then show ?thesis unfolding s1(1) u using s1(3,5)
    by (intro exI [of _ "set_cap ?v (s1\<lparr>mo_min_cap := ?m\<rparr>)"] conjI) (simp_all add: app_counters_def set_cap_def)
qed

lemma slow_run:
  assumes "mon_inv s" "quiet mhz (\<lambda>lat. 4001 \<le> lat) es" "big \<noteq> 0" "small \<noteq> 0" "bw \<noteq> 0"
  shows "\<exists>s'. monitor_run mhz (same_mix big small bw es) s = Inr s' \<and>
    (es \<noteq> [] \<longrightarrow> unat (sb_virtual_link_cap (cb_sb (mo_cb s'))) =
      max (unat (sb_virtual_link_cap (cb_sb (mo_cb s))) div 2 ^ length es)
        (unat (min_cap big (cb_num_receiver_big_flows (mo_cb s) ! 0))))"
  using assms(1,2)
proof (induction es arbitrary: s)
  case Nil
  then show ?case by (simp add: same_mix_def)
next
  case (Cons e es)
  obtain lat where lat: "good_input mhz e lat" "in_info e = No_info" "4001 \<le> lat" and q: "quiet mhz (\<lambda>lat. 4001 \<le> lat) es"
    using Cons.prems(2) by (auto simp: quiet_def)
  let ?m = "min_cap big (cb_num_receiver_big_flows (mo_cb s) ! 0)"
  let ?c = "\<lambda>s. sb_virtual_link_cap (cb_sb (mo_cb s))"
  from contended_iter [OF Cons.prems(1) lat(1,2) assms(3-5)]
  obtain s1 where s1: "monitor_iter mhz [e] (app_counters (big, small, bw) s) = Inr s1" "mon_inv s1"
    "cb_num_receiver_big_flows (mo_cb s1) = cb_num_receiver_big_flows (mo_cb s)"
    "?c s1 = aimd (smooth lat (mo_prev s ! 0)) ?m (?c s)" by blast
  have "TAIL < smooth lat (mo_prev s ! 0)" using smooth_above lat(3) Cons.prems(1) by (simp add: mon_inv_def)
  then have c1: "unat (?c s1) = max (unat (?c s) div 2) (unat ?m)" unfolding s1(4) by (rule aimd_decrease)
  from Cons.IH [OF s1(2) q] obtain s' where s': "monitor_run mhz (same_mix big small bw es) s1 = Inr s'"
    "es \<noteq> [] \<longrightarrow> unat (?c s') = max (unat (?c s1) div 2 ^ length es) (unat ?m)"
    unfolding s1(3) by blast
  have "max (max a b div 2 ^ k) b = max (a div 2 ^ k) (b :: nat)" for a b k
    by (auto simp: max_def div_le_mono intro: order_trans [OF div_le_dividend] dest: div_le_mono)
  then have "es \<noteq> [] \<longrightarrow> unat (?c s') = max (unat (?c s) div 2 div 2 ^ length es) (unat ?m)"
    using s'(2) c1 by simp
  then have "unat (?c s') = max (unat (?c s) div 2 ^ length (e # es)) (unat ?m)"
    using c1 s'(1) by (cases "es = []") (auto simp: same_mix_def div_mult2_eq)
  then show ?case using s1(1) s'(1) by (simp add: same_mix_def)
qed

lemma fast_run:
  assumes "mon_inv s" "quiet mhz (\<lambda>lat. lat \<le> 2000) es" "big \<noteq> 0" "small \<noteq> 0" "bw \<noteq> 0" "mo_prev s ! 0 \<le> TAIL"
  shows "\<exists>s'. monitor_run mhz (same_mix big small bw es) s = Inr s' \<and>
    unat (sb_virtual_link_cap (cb_sb (mo_cb s'))) =
      min LINE_RATE_MB (unat (sb_virtual_link_cap (cb_sb (mo_cb s))) + length es)"
  using assms(1,2,6)
proof (induction es arbitrary: s)
  case Nil
  then show ?case by (simp add: same_mix_def mon_inv_def)
next
  case (Cons e es)
  obtain lat where lat: "good_input mhz e lat" "in_info e = No_info" "lat \<le> 2000" and q: "quiet mhz (\<lambda>lat. lat \<le> 2000) es"
    using Cons.prems(2) by (auto simp: quiet_def)
  have l0: "0 \<le> lat" using lat(1) ref_latency_nonneg unfolding good_input_def by blast
  let ?c = "\<lambda>s. sb_virtual_link_cap (cb_sb (mo_cb s))"
  from contended_iter [OF Cons.prems(1) lat(1,2) assms(3-5)]
  obtain s1 m where s1: "monitor_iter mhz [e] (app_counters (big, small, bw) s) = Inr s1" "mon_inv s1"
    "mo_prev s1 ! 0 = smooth lat (mo_prev s ! 0)" "?c s1 = aimd (smooth lat (mo_prev s ! 0)) m (?c s)" by blast
  have t: "smooth lat (mo_prev s ! 0) \<le> TAIL" using smooth_below [OF l0 lat(3)] Cons.prems(1,3) by (simp add: mon_inv_def)
  then have c1: "unat (?c s1) = min LINE_RATE_MB (unat (?c s) + 1)"
    unfolding s1(4) using Cons.prems(1) by (intro aimd_increase) (simp_all add: mon_inv_def)
  from Cons.IH [OF s1(2) q] t obtain s' where "monitor_run mhz (same_mix big small bw es) s1 = Inr s'"
    "unat (?c s') = min LINE_RATE_MB (unat (?c s1) + length es)" unfolding s1(3) by blast
  then show ?case using s1(1) c1 by (auto simp: same_mix_def min_def)
qed

lemma to_double_numeral: "(numeral k :: nat) \<le> 2 ^ 53 \<Longrightarrow> to_double (numeral k) = numeral k"
  using fl_of_nat [of "numeral k" 53] by simp

lemma sample_good:
  "good_input 1000 (sample_input 2000) 2000" "good_input 1000 (sample_input 5000) 5000"
  by (simp_all add: good_input_def sample_input_def info_ok_def ref_latency_def c_trunc_def to_double_numeral)

section \<open>Properties\<close>

text \<open>
  C13: the capacity stays within the line rate. In any run of the monitor whose polls and posts succeed,
  from the state \<open>main\<close> sets up and with arbitrary changes of the applications' counters, the loop
  either keeps running with the capacity at most \<open>LINE_RATE_MB\<close> and its local copy equal to it, or
  stops being defined at the read of \<open>temp\<close> before its first assignment.
\<close>

theorem monitor_cap_within_line_rate:
  assumes "good_run mhz ins (\<lambda>_. True)"
  shows "monitor_run mhz ins (mon_init 1 (main_init sb)) = Inl Uninit_read \<or>
    (\<exists>s. monitor_run mhz ins (mon_init 1 (main_init sb)) = Inr s \<and>
       unat (sb_virtual_link_cap (cb_sb (mo_cb s))) \<le> LINE_RATE_MB \<and>
       (mo_temp s = None \<or> mo_temp s = Some (sb_virtual_link_cap (cb_sb (mo_cb s)))))"
  using monitor_run_inv [OF assms mon_init_inv [of 1 sb]] by (auto simp: mon_inv_def)

theorem monitor_cap_within_line_rate_witness:
  "\<exists>r. monitor_run 1000 [([sample_input 2000], 0, 0, 0), ([sample_input 5000], 1, 1, 1)]
      (mon_init 1 (main_init zero_block)) = r \<and> (r = Inl Uninit_read \<or> (\<exists>s. r = Inr s))"
proof -
  have "good_run 1000 [([sample_input 2000], 0, 0, 0), ([sample_input 5000], 1, 1, 1)] (\<lambda>_. True)"
    using sample_good by (auto simp: good_run_def)
  from monitor_cap_within_line_rate [OF this, of zero_block] show ?thesis by blast
qed

text \<open>
  when that read happens. In the first iteration after start-up, with good input and no news
  from the receiver, \<open>temp\<close> is stored without having been assigned exactly when large flows run
  without contention (no small flow, or no bandwidth flow).
\<close>

theorem first_iteration_uninitialised:
  assumes "good_input mhz e lat" and "in_info e = No_info"
  shows "(monitor_iter mhz [e] (app_counters (big, small, bw) (mon_init 1 (main_init sb))) = Inl Uninit_read) =
    (big \<noteq> 0 \<and> \<not> (small \<noteq> 0 \<and> bw \<noteq> 0))"
proof -
  let ?s = "app_counters (big, small, bw) (mon_init 1 (main_init sb))"
  have lat: "ref_latency mhz (in_start e) (in_end e) = Inr lat" "in_wc e = Wc_ok" "in_post_ok e"
    using assms(1) by (auto simp: good_input_def)
  let ?s1 = "?s\<lparr>mo_start := (mo_start ?s)[0 := in_start e],
    mo_measured := (mo_measured ?s)[0 := smooth lat 0], mo_prev := (mo_prev ?s)[0 := smooth lat 0],
    mo_seq := 1, mo_wr_id := (mo_wr_id ?s)[0 := 1]\<rparr>"
  have "monitor_iter mhz [e] ?s = update_cap ?s1"
    using lat assms(2) by (simp add: monitor_iter_def receive_info_def poll_ref_def Let_def app_counters_def
        mon_init_def MAX_SERVERS_def)
  also have "(update_cap ?s1 = Inl Uninit_read) = (big \<noteq> 0 \<and> \<not> (small \<noteq> 0 \<and> bw \<noteq> 0))"
    by (simp add: update_cap_def app_counters_def mon_init_def main_init_def LINE_RATE_MB_def MAX_SERVERS_def
        Let_def)
  finally show ?thesis .
qed

theorem first_iteration_uninitialised_witness:
  "monitor_iter 1000 [sample_input 2000] (app_counters (1, 0, 1) (mon_init 1 (main_init zero_block))) = Inl Uninit_read"
  using first_iteration_uninitialised [OF sample_good(1), of 1 0 1 zero_block] by (simp add: sample_input_def)

text \<open>
  a failed completion does not end the monitor, it hangs it. The \<open>break\<close> on a bad receive
  completion, or on a reference WRITE that cannot be posted, leaves only the inner loop; the next
  loop then waits for the completion of a WRITE that was not posted.
\<close>

theorem failed_update_hangs_monitor:
  assumes "mo_outstanding s ! 0 = 0" and "in_wc e \<noteq> Poll_error"
    and "in_info e = Bad_info_wc \<or> info_ok (in_info e) \<and> \<not> in_post_ok e"
  shows "monitor_iter mhz [e] s = Inl Diverges"
  using assms(3)
proof
  assume "in_info e = Bad_info_wc"
  then show ?thesis using assms(1,2) by (simp add: monitor_iter_def receive_info_def poll_ref_def)
next
  assume a: "info_ok (in_info e) \<and> \<not> in_post_ok e"
  with receive_info_ok obtain big small where "receive_info 0 (in_info e) s = Inr (False, s\<lparr>mo_cb := (mo_cb s)\<lparr>
    cb_num_receiver_big_flows := big, cb_num_receiver_small_flows := small\<rparr>\<rparr>)" by blast
  then show ?thesis using a assms(1,2) by (simp add: monitor_iter_def poll_ref_def Let_def)
qed

theorem failed_update_hangs_monitor_witness:
  "monitor_iter 1000 [(sample_input 2000)\<lparr>in_info := Bad_info_wc\<rparr>] (mon_init 1 (main_init zero_block)) = Inl Diverges"
  by (rule failed_update_hangs_monitor) (simp_all add: mon_init_def sample_input_def)

text \<open>
  the lower bound of the large flows is their fair share: before it is capped at the line rate,
  it differs from \<open>big / (receiver_big + 1)\<close> of the line rate by at most half a unit and the error
  of two double operations; small flows count as one whatever their number.
\<close>

theorem min_cap_is_fair_share:
  assumes "0 < unat big"
  shows "let share = of_nat LINE_RATE_MB * of_nat (unat big) / of_nat (unat recv_big + 1) in
    unat (min_cap big recv_big) = LINE_RATE_MB \<and> of_nat LINE_RATE_MB - (1/2 + 1 / 2 ^ 20) \<le> share \<or>
    \<bar>of_nat (unat (min_cap big recv_big)) - share\<bar> \<le> (1/2 + 1 / 2 ^ 20 :: rat)"
proof -
  define x where "x = to_double (to_double (of_nat (unat big) / of_nat (unat recv_big + 1)) * 6000)"
  define share where "share = (6000 * of_nat (unat big) / of_nat (unat recv_big + 1) :: rat)"
  define c where "c = c_round x"
  have min: "min_cap big recv_big = (if c > 6000 then 6000 else word_of_int c)"
    by (simp add: min_cap_def Let_def LINE_RATE_MB_def c_def x_def)
  have "unat big < 65536" using unsigned_less [of big] by simp
  then have "\<bar>x - share\<bar> \<le> 1 / 2 ^ 20" using share_close [OF assms] unfolding x_def share_def by blast
  moreover have "\<bar>of_int c - x\<bar> \<le> 1/2" unfolding c_def by (rule c_round_err)
  ultimately have d: "\<bar>of_int c - share\<bar> \<le> 1/2 + 1 / 2 ^ 20" by linarith
  have "0 \<le> x" unfolding x_def
    by (intro fl_nonneg mult_nonneg_nonneg divide_nonneg_nonneg of_nat_0_le_iff) simp_all
  then have p: "0 \<le> c" by (simp add: c_def c_round_def)
  have "unat (min_cap big recv_big) = 6000 \<and> 6000 - (1/2 + 1 / 2 ^ 20) \<le> share \<or>
    \<bar>of_nat (unat (min_cap big recv_big)) - share\<bar> \<le> 1/2 + 1 / 2 ^ 20"
  proof (cases "c > 6000")
    case True
    then have "(of_int 6000 :: rat) < of_int c" by (simp only: of_int_less_iff)
    then have "6000 - (1/2 + 1 / 2 ^ 20) \<le> share" using d unfolding of_int_numeral by linarith
    then show ?thesis using True by (simp add: min)
  next
    case False
    then have "int (unat (min_cap big recv_big)) = c"
      using p by (simp add: min unat_word_of_int_small)
    then have "(of_nat (unat (min_cap big recv_big)) :: rat) = of_int c" by (metis of_int_of_nat_eq)
    then show ?thesis using d by simp
  qed
  then show ?thesis by (simp add: LINE_RATE_MB_def Let_def share_def)
qed

theorem min_cap_is_fair_share_witness:
  "let share = of_nat LINE_RATE_MB * of_nat (unat (1 :: u16)) / of_nat (unat (2 :: u16) + 1) in
    unat (min_cap 1 2) = LINE_RATE_MB \<and> of_nat LINE_RATE_MB - (1/2 + 1 / 2 ^ 20) \<le> share \<or>
    \<bar>of_nat (unat (min_cap 1 2)) - share\<bar> \<le> (1/2 + 1 / 2 ^ 20 :: rat)"
  by (rule min_cap_is_fair_share) simp

text \<open>
  C14: the control loop converges to the fair share. While large, small and bandwidth flows contend and
  every reference flow takes more than 4 us, 13 iterations bring the capacity, whatever it was, to
  exactly the lower bound of the large flows, and it stays there.
\<close>

theorem monitor_converges_to_fair_share:
  assumes "mon_inv s" and "quiet mhz (\<lambda>lat. 4001 \<le> lat) es" and "13 \<le> length es"
    and "big \<noteq> 0" and "small \<noteq> 0" and "bw \<noteq> 0"
  shows "\<exists>s'. monitor_run mhz (same_mix big small bw es) s = Inr s' \<and>
    sb_virtual_link_cap (cb_sb (mo_cb s')) = min_cap big (cb_num_receiver_big_flows (mo_cb s) ! 0)"
proof -
  let ?c = "\<lambda>s. sb_virtual_link_cap (cb_sb (mo_cb s))"
  from slow_run [OF assms(1,2,4-6)] assms(3) obtain s' where
    s': "monitor_run mhz (same_mix big small bw es) s = Inr s'"
    "unat (?c s') = max (unat (?c s) div 2 ^ length es) (unat (min_cap big (cb_num_receiver_big_flows (mo_cb s) ! 0)))"
    by fastforce
  have "unat (?c s) < 2 ^ 13" using assms(1) by (simp add: mon_inv_def LINE_RATE_MB_def)
  also have "(2::nat) ^ 13 \<le> 2 ^ length es" using assms(3) by (intro power_increasing) simp_all
  finally have "unat (?c s) div 2 ^ length es = 0" by simp
  then have "unat (?c s') = unat (min_cap big (cb_num_receiver_big_flows (mo_cb s) ! 0))" using s'(2) by simp
  then show ?thesis using s'(1) by (auto dest: unsigned_word_eqI)
qed

theorem monitor_converges_to_fair_share_witness:
  "\<exists>s'. monitor_run 1000 (same_mix 1 1 1 (replicate 13 (sample_input 5000))) (mon_init 1 (main_init zero_block)) = Inr s' \<and>
    sb_virtual_link_cap (cb_sb (mo_cb s')) = min_cap 1 0"
  using monitor_converges_to_fair_share [OF mon_init_inv, of 1 1000 "replicate 13 (sample_input 5000)" 1 1 1 zero_block]
    sample_good(2) by (force simp: quiet_def sample_input_def mon_init_def)

text \<open>
  C40: there is no needless throttling. With one receiver, while the same large, small and bandwidth flows contend, no message of the
  receiver's daemon arrives and every reference flow takes at most 2 us, the target, starting from a smoothed latency that
  meets it, the capacity only grows: by one unit an iteration up to the line rate. In particular it stays at the line rate
  from start-up on.
\<close>

theorem monitor_recovers_when_target_met:
  assumes "mon_inv s" and "quiet mhz (\<lambda>lat. lat \<le> 2000) es" and "mo_prev s ! 0 \<le> TAIL"
    and "big \<noteq> 0" and "small \<noteq> 0" and "bw \<noteq> 0"
  shows "\<exists>s'. monitor_run mhz (same_mix big small bw es) s = Inr s' \<and>
    unat (sb_virtual_link_cap (cb_sb (mo_cb s'))) =
      min LINE_RATE_MB (unat (sb_virtual_link_cap (cb_sb (mo_cb s))) + length es)"
  by (rule fast_run [OF assms(1,2,4-6,3)])

theorem monitor_recovers_when_target_met_witness:
  "\<exists>s'. monitor_run 1000 (same_mix 1 1 1 [sample_input 2000]) (mon_init 1 (main_init zero_block)) = Inr s' \<and>
    unat (sb_virtual_link_cap (cb_sb (mo_cb s'))) = 6000"
  using monitor_recovers_when_target_met [OF mon_init_inv, of 1 1000 "[sample_input 2000]" zero_block 1 1 1]
    sample_good(1)
  by (force simp: quiet_def sample_input_def mon_init_def main_init_def MAX_SERVERS_def TAIL_def LINE_RATE_MB_def)

end
