(* ===== verification/Mon_Chan.thy ===== *)
theory Mon_Chan
  imports Mon_Messages
begin

text \<open>
  The channel between the daemons (\<open>rdma_pacer/pingpong.c\<close>, \<open>pingpong_utils.c\<close>): how two nodes exchange the
  parameters of their queue pairs over TCP, the attributes a queue pair is connected with, and the
  allocation of the verbs objects with its error exits. Results of system and verbs calls are
  inputs; the state of an object is whether it was never made, is live, or was released.
\<close>

unbundle bit_operations_syntax

section \<open>Addresses on the wire\<close>

text \<open>A GID as the four 32-bit words of its \<open>raw\<close> array, in memory order on a little-endian host.\<close>

record pp_dest =
  pd_lid :: u32
  pd_qpn :: u32
  pd_psn :: u32
  pd_rkey :: u32
  pd_vaddr :: u64
  pd_gid :: "u32 list"

definition MSG_SIZE :: nat where [macro_defs]: "MSG_SIZE = 78"

definition byte :: "nat \<Rightarrow> u32 \<Rightarrow> u32" where
  "byte i x = take_bit 8 (drop_bit (8 * i) x)"

definition htonl :: "u32 \<Rightarrow> u32" where
  "htonl x = push_bit 24 (byte 0 x) OR push_bit 16 (byte 1 x) OR push_bit 8 (byte 2 x) OR byte 3 x"

definition gid_to_wire_gid :: "u32 list \<Rightarrow> string" where
  "gid_to_wire_gid raw = concat (map (\<lambda>i. print_pad 8 16 (unat (htonl (raw ! i)))) [0..<4])"

definition scan_x32 :: "string \<Rightarrow> (u32 \<times> string) option" where
  "scan_x32 s = map_option (\<lambda>(v, r). (word_of_int v, r)) (scan_num 16 s)"

text \<open>A chunk that is not a number leaves \<open>v32\<close> at its last value, if it has one.\<close>

fun wire_words :: "u32 option \<Rightarrow> string list \<Rightarrow> u32 list res" where
  "wire_words v32 [] = Inr []"
| "wire_words v32 (c # cs) =
     (case (case scan_x32 c of Some (v, _) \<Rightarrow> Some v | None \<Rightarrow> v32) of
        None \<Rightarrow> Inl Uninit_read
      | Some v \<Rightarrow> res_bind (wire_words (Some v) cs) (\<lambda>ws. Inr (htonl v # ws)))"

definition wire_gid_to_gid :: "string \<Rightarrow> u32 list res" where
  "wire_gid_to_gid wgid = wire_words None (map (\<lambda>i. take 8 (drop (i * 8) wgid)) [0..<4])"

definition dest_text :: "pp_dest \<Rightarrow> string" where
  "dest_text d =
     print_pad 4 16 (unat (pd_lid d)) @ '':'' @ print_pad 6 16 (unat (pd_qpn d)) @ '':'' @
     print_pad 6 16 (unat (pd_psn d)) @ '':'' @ print_pad 8 16 (unat (pd_rkey d)) @ '':'' @
     print_pad 16 16 (unat (pd_vaddr d)) @ '':'' @ gid_to_wire_gid (pd_gid d)"

text \<open>One \<open>%x:\<close> of the format; a conversion that fails leaves the rest of the structure unassigned.\<close>

definition field32 :: "string \<Rightarrow> (u32 \<times> string) res" where
  "field32 s = (case scan_x32 s of None \<Rightarrow> Inl Uninit_read
     | Some (v, r) \<Rightarrow> (case eat '':'' r of None \<Rightarrow> Inl Uninit_read | Some r' \<Rightarrow> Inr (v, r')))"

definition field64 :: "string \<Rightarrow> (u64 \<times> string) res" where
  "field64 s = (case scan_num 16 s of None \<Rightarrow> Inl Uninit_read
     | Some (v, r) \<Rightarrow> (case eat '':'' r of None \<Rightarrow> Inl Uninit_read | Some r' \<Rightarrow> Inr (word_of_int v, r')))"

definition parse_dest :: "string \<Rightarrow> pp_dest res" where
  "parse_dest s =
     res_bind (field32 s) (\<lambda>(lid, s1).
     res_bind (field32 s1) (\<lambda>(qpn, s2).
     res_bind (field32 s2) (\<lambda>(psn, s3).
     res_bind (field32 s3) (\<lambda>(rkey, s4).
     res_bind (field64 s4) (\<lambda>(vaddr, s5).
       let gid = takeWhile (\<lambda>c. \<not> is_space c) (dropWhile is_space s5) in
       if gid = [] then Inl Uninit_read
       else if 32 < length gid then Inl Out_of_bounds
       else res_bind (wire_gid_to_gid gid) (\<lambda>raw.
         Inr \<lparr>pd_lid = lid, pd_qpn = qpn, pd_psn = psn, pd_rkey = rkey, pd_vaddr = vaddr, pd_gid = raw\<rparr>))))))"

definition pp_mtu_to_enum :: "int \<Rightarrow> int" where
  "pp_mtu_to_enum mtu =
     (if mtu = 256 then 1 else if mtu = 512 then 2 else if mtu = 1024 then 3
      else if mtu = 2048 then 4 else if mtu = 4096 then 5 else -1)"

section \<open>Exchange\<close>

text \<open>
  The exchange as each side performs it. \<open>ex_addrs\<close> is what \<open>socket\<close> and \<open>connect\<close> (on the server \<open>bind\<close>)
  return for the addresses in turn, \<open>ex_recv\<close> the peer's message when it arrives in full. The result
  is \<open>ctx->rem_dest\<close>, \<open>None\<close> the null pointer.
\<close>

record exch_env =
  ex_asprintf_ok :: bool
  ex_addrinfo_ok :: bool
  ex_addrs :: "(bool \<times> bool) list"
  ex_accept_ok :: bool
  ex_write_ok :: bool
  ex_recv :: "string option"
  ex_done_ok :: bool
  ex_malloc_ok :: bool
  ex_rtr_ok :: bool
  ex_rts_ok :: bool

definition found_socket :: "(bool \<times> bool) list \<Rightarrow> bool" where
  "found_socket addrs \<longleftrightarrow> first_from (\<lambda>(s, c). s \<and> c) 0 addrs \<noteq> None"

definition pp_client_exch_dest :: "exch_env \<Rightarrow> pp_dest \<Rightarrow> pp_dest option res" where
  "pp_client_exch_dest e my =
     (if \<not> ex_asprintf_ok e \<or> \<not> ex_addrinfo_ok e \<or> \<not> found_socket (ex_addrs e) then Inl (Exit_code 1)
      else res_bind (put_str (replicate MSG_SIZE NUL) (dest_text my)) (\<lambda>_.
        if \<not> ex_write_ok e then Inr None
        else case ex_recv e of None \<Rightarrow> Inr None
        | Some msg \<Rightarrow>
          if \<not> ex_done_ok e \<or> \<not> ex_malloc_ok e then Inr None
          else res_bind (buf_str msg) (\<lambda>txt. res_bind (parse_dest txt) (\<lambda>d. Inr (Some d)))))"

section \<open>Connecting\<close>

record qp_attr =
  qa_path_mtu :: nat
  qa_dest_qp_num :: u32
  qa_rq_psn :: u32
  qa_sq_psn :: "u32 option"
  qa_dlid :: u16
  qa_is_global :: bool
  qa_dgid :: "u32 list"
  qa_sgid_index :: int

definition has_interface_id :: "u32 list \<Rightarrow> bool" where
  "has_interface_id gid \<longleftrightarrow> gid ! 2 \<noteq> 0 \<or> gid ! 3 \<noteq> 0"

definition rtr_attr :: "pp_dest \<Rightarrow> int \<Rightarrow> qp_attr" where
  "rtr_attr d sgid_idx =
     \<lparr>qa_path_mtu = 4, qa_dest_qp_num = pd_qpn d, qa_rq_psn = pd_psn d, qa_sq_psn = None,
      qa_dlid = ucast (pd_lid d), qa_is_global = has_interface_id (pd_gid d),
      qa_dgid = (if has_interface_id (pd_gid d) then pd_gid d else [0, 0, 0, 0]),
      qa_sgid_index = (if has_interface_id (pd_gid d) then sgid_idx else 0)\<rparr>"

text \<open>The attributes of the transitions to RTR and RTS that were made, and the return value.\<close>

definition pp_connect_ctx :: "bool \<Rightarrow> bool \<Rightarrow> u32 \<Rightarrow> pp_dest option \<Rightarrow> int \<Rightarrow> (qp_attr list \<times> int) res" where
  "pp_connect_ctx rtr_ok rts_ok my_psn dest sgid_idx =
     (case dest of None \<Rightarrow> Inl Null_deref
      | Some d \<Rightarrow> let a = rtr_attr d sgid_idx in
          if \<not> rtr_ok then Inr ([a], 1)
          else Inr ([a, a\<lparr>qa_sq_psn := Some my_psn\<rparr>], if rts_ok then 0 else 1))"

definition pp_server_exch_dest :: "exch_env \<Rightarrow> pp_dest \<Rightarrow> int \<Rightarrow> pp_dest option res" where
  "pp_server_exch_dest e my sgid_idx =
     (if \<not> ex_asprintf_ok e \<or> \<not> ex_addrinfo_ok e \<or> \<not> found_socket (ex_addrs e) \<or> \<not> ex_accept_ok e
      then Inl (Exit_code 1)
      else case ex_recv e of None \<Rightarrow> Inr None
      | Some msg \<Rightarrow>
        if \<not> ex_malloc_ok e then Inr None
        else res_bind (buf_str msg) (\<lambda>txt. res_bind (parse_dest txt) (\<lambda>d.
          res_bind (put_str (replicate MSG_SIZE NUL) (dest_text my)) (\<lambda>_.
            if \<not> ex_write_ok e \<or> \<not> ex_done_ok e then Inr None
            else res_bind (pp_connect_ctx (ex_rtr_ok e) (ex_rts_ok e) (pd_psn my) (Some d) sgid_idx) (\<lambda>(_, ret).
              if ret \<noteq> 0 then Inr None else Inr (Some d))))))"

record chan_env =
  ch_alloc_ok :: bool
  ch_port_ok :: bool
  ch_gid :: "u32 list option"
  ch_exch :: exch_env

text \<open>
  \<open>init_monitor_chan\<close> after the allocation: \<open>None\<close> is a null result, otherwise the remote address
  stored in the context. \<open>my\<close> holds the identifiers of the allocated objects.
\<close>

definition init_monitor_chan :: "bool \<Rightarrow> int \<Rightarrow> chan_env \<Rightarrow> pp_dest \<Rightarrow> pp_dest option option res" where
  "init_monitor_chan is_client gid_idx e my0 =
     (if \<not> ch_alloc_ok e \<or> \<not> ch_port_ok e then Inr None
      else if 0 \<le> gid_idx \<and> ch_gid e = None then Inr None
      else let my = my0\<lparr>pd_gid := (if 0 \<le> gid_idx then the (ch_gid e) else [0, 0, 0, 0])\<rparr> in
      if is_client then
        res_bind (pp_client_exch_dest (ch_exch e) my) (\<lambda>rem.
        res_bind (pp_connect_ctx (ex_rtr_ok (ch_exch e)) (ex_rts_ok (ch_exch e)) (pd_psn my) rem gid_idx) (\<lambda>(_, ret).
          if ret \<noteq> 0 then Inr None else Inr (Some rem)))
      else res_bind (pp_server_exch_dest (ch_exch e) my gid_idx) (\<lambda>rem. Inr (Some rem)))"

section \<open>Round trip\<close>

lemma scan_x32_print: "ends_number rest \<Longrightarrow> scan_x32 (print_pad w 16 (unat (x :: u32)) @ rest) = Some (x, rest)"
  by (simp add: scan_x32_def scan_print_pad)

lemma bit_htonl:
  "bit (htonl x) n \<longleftrightarrow> n < 32 \<and> bit x (if n < 8 then n + 24 else if n < 16 then n + 8 else if n < 24 then n - 8 else n - 24)"
  by (auto simp: htonl_def byte_def bit_or_iff bit_push_bit_iff bit_take_bit_iff bit_drop_bit_eq
      dest: bit_imp_le_length simp: add.commute)

lemma htonl_htonl [simp]: "htonl (htonl x) = x"
proof (rule bit_word_eqI)
  fix n assume "n < LENGTH(32)"
  then have n: "n < 32" by simp
  consider "n < 8" | "8 \<le> n" "n < 16" | "16 \<le> n" "n < 24" | "24 \<le> n" by linarith
  then show "bit (htonl (htonl x)) n = bit x n" using n
    by cases (auto simp: bit_htonl; linarith)+
qed

lemma length_hex: "unat (x :: u32) < 16 ^ w \<Longrightarrow> 0 < w \<Longrightarrow> length (print_pad w 16 (unat x)) = w"
  by (rule length_print_pad_exact) simp_all

lemma length_hex8 [simp]: "length (print_pad 8 16 (unat (x :: u32))) = 8"
  using unsigned_less [of x] by (intro length_hex) simp_all

lemma wire_gid_round_trip:
  assumes "length raw = 4"
  shows "wire_gid_to_gid (gid_to_wire_gid raw) = Inr raw"
proof -
  let ?p = "\<lambda>i. print_pad 8 16 (unat (htonl (raw ! i)))"
  have u: "[0..<4] = [0, 1, 2, 3 :: nat]" by (simp add: numeral_eq_Suc)
  have g: "gid_to_wire_gid raw = ?p 0 @ ?p 1 @ ?p 2 @ ?p 3"
    by (simp add: gid_to_wire_gid_def u)
  have c: "map (\<lambda>i. take 8 (drop (i * 8) (gid_to_wire_gid raw))) [0..<4] = [?p 0, ?p 1, ?p 2, ?p 3]"
    by (simp add: g u)
  have x: "scan_x32 (?p i) = Some (htonl (raw ! i), [])" for i
    using scan_x32_print [of "[]"] by simp
  have "raw = [raw ! 0, raw ! 1, raw ! 2, raw ! 3]"
    using assms by (auto simp: length_Suc_conv numeral_eq_Suc)
  then show ?thesis by (simp add: wire_gid_to_gid_def c x)
qed

lemma gid_text_chars:
  assumes "c \<in> set (gid_to_wire_gid raw)"
  shows "\<not> is_space c" "c \<noteq> NUL"
proof -
  obtain i where "c \<in> set (print_pad 8 16 (unat (htonl (raw ! i))))"
    using assms by (auto simp: gid_to_wire_gid_def)
  then obtain d where d: "d < 16" "c = digit_char d" using set_print_pad [of 16] by fastforce
  then show "\<not> is_space c" using digit_char_plain(1) by simp
  show "c \<noteq> NUL"
    using print_pad_no_nul [of 16 8 "unat (htonl (raw ! i))"] \<open>c \<in> set (print_pad 8 16 _)\<close> by auto
qed

lemma gid_text_scanned:
  "takeWhile (\<lambda>c. \<not> is_space c) (dropWhile is_space (gid_to_wire_gid raw)) = gid_to_wire_gid raw"
proof -
  have "dropWhile is_space (gid_to_wire_gid raw) = gid_to_wire_gid raw"
    using gid_text_chars(1) [of "hd (gid_to_wire_gid raw)" raw] by (auto simp: dropWhile_eq_self_iff)
  then show ?thesis using gid_text_chars(1) by (simp add: takeWhile_eq_all_conv)
qed

lemma length_gid_text: "length (gid_to_wire_gid raw) = 32"
proof -
  have "[0..<4] = [0, 1, 2, 3 :: nat]" by (simp add: numeral_eq_Suc)
  then show ?thesis by (simp add: gid_to_wire_gid_def)
qed

lemma parse_dest_text:
  assumes "length (pd_gid d) = 4"
  shows "parse_dest (dest_text d) = Inr d"
proof -
  have f32: "field32 (print_pad w 16 (unat x) @ CHR '':'' # r) = Inr (x, r)" for w x r
    by (simp add: field32_def scan_x32_print)
  have f64: "field64 (print_pad 16 16 (unat x) @ CHR '':'' # r) = Inr (x, r)" for x r
    by (simp add: field64_def scan_print_pad)
  have "gid_to_wire_gid (pd_gid d) \<noteq> []" using length_gid_text [of "pd_gid d"] by auto
  then show ?thesis
    by (simp add: parse_dest_def dest_text_def f32 f64 gid_text_scanned length_gid_text wire_gid_round_trip [OF assms])
qed

text \<open>The identifiers the fabric hands out: 16-bit LIDs, 24-bit queue pair and packet numbers.\<close>

definition dest_ok :: "pp_dest \<Rightarrow> bool" where
  "dest_ok d \<longleftrightarrow> unat (pd_lid d) < 2 ^ 16 \<and> unat (pd_qpn d) < 2 ^ 24 \<and> unat (pd_psn d) < 2 ^ 24 \<and> length (pd_gid d) = 4"

lemma length_dest_text:
  assumes "dest_ok d"
  shows "length (dest_text d) = 77"
proof -
  have "length (print_pad 16 16 (unat (pd_vaddr d))) = 16"
    using unsigned_less [of "pd_vaddr d"] by (intro length_print_pad_exact) simp_all
  then show ?thesis using assms by (simp add: dest_text_def dest_ok_def length_hex length_gid_text)
qed

lemma dest_text_no_nul: "NUL \<notin> set (dest_text d)"
  using gid_text_chars(2) by (auto simp: dest_text_def print_pad_no_nul)

definition wire_msg :: "pp_dest \<Rightarrow> string" where
  "wire_msg d = dest_text d @ [NUL]"

lemma put_dest: "dest_ok d \<Longrightarrow> put_str (replicate MSG_SIZE NUL) (dest_text d) = Inr (wire_msg d)"
  by (simp add: put_str_ok length_dest_text MSG_SIZE_def wire_msg_def)

lemma read_wire_msg: "dest_ok d \<Longrightarrow> res_bind (buf_str (wire_msg d)) parse_dest = Inr d"
  using put_str_back [OF put_dest dest_text_no_nul, of d] by (simp add: parse_dest_text dest_ok_def)

definition exch_ok :: "exch_env \<Rightarrow> bool" where
  "exch_ok e \<longleftrightarrow> ex_asprintf_ok e \<and> ex_addrinfo_ok e \<and> found_socket (ex_addrs e) \<and> ex_accept_ok e \<and>
     ex_write_ok e \<and> ex_done_ok e \<and> ex_malloc_ok e \<and> ex_rtr_ok e \<and> ex_rts_ok e"

lemma buf_str_wire: "dest_ok d \<Longrightarrow> buf_str (wire_msg d) = Inr (dest_text d)"
  using put_str_back [OF put_dest dest_text_no_nul] by simp

section \<open>Allocation\<close>

text \<open>
  The objects of a context, the steps of \<open>alloc_monitor_qp\<close> in order with what each does on failure, and the
  release calls behind its labels. \<open>CleanAt n\<close> is a \<open>goto\<close> to the label of the \<open>n\<close>-th release.
\<close>

datatype handle = Dev_list | Ctx | Write_buf | Send_buf | Recv_buf | Device | Pd | Write_mr | Send_mr | Recv_mr
  | Send_channel | Recv_channel | Send_cq | Recv_cq | Qp

datatype on_fail = Return_null | CleanAt nat | Exit_on_fail

definition alloc_steps :: "(handle option \<times> on_fail) list" where
  "alloc_steps =
     [(Some Dev_list, Return_null), (Some Ctx, Return_null),
      (Some Write_buf, CleanAt 8), (Some Send_buf, CleanAt 9), (Some Recv_buf, CleanAt 10),
      (Some Device, CleanAt 7), (Some Pd, CleanAt 6),
      (Some Write_mr, CleanAt 3), (Some Send_mr, CleanAt 4), (Some Recv_mr, CleanAt 5),
      (Some Send_channel, Exit_on_fail), (Some Recv_channel, Exit_on_fail),
      (Some Send_cq, CleanAt 1), (None, Exit_on_fail), (Some Recv_cq, CleanAt 2), (None, Exit_on_fail),
      (Some Qp, CleanAt 0), (None, CleanAt 0)]"

definition clean_calls :: "handle list" where
  "clean_calls = [Qp, Send_cq, Recv_cq, Send_mr, Send_mr, Recv_mr, Pd, Device, Write_buf, Send_buf, Recv_buf,
     Ctx, Dev_list]"

record objects =
  ob_live :: "handle list"
  ob_gone :: "handle list"

text \<open>
  \<open>free\<close> accepts a null pointer; the verbs calls read through theirs. Releasing an object twice is an error.
\<close>

definition release :: "handle \<Rightarrow> objects \<Rightarrow> objects res" where
  "release h s =
     (if h \<in> set (ob_live s) then Inr (s\<lparr>ob_live := remove1 h (ob_live s), ob_gone := h # ob_gone s\<rparr>)
      else if h \<in> set (ob_gone s) then Inl Bad_free
      else if h \<in> {Ctx, Write_buf, Send_buf, Recv_buf} then Inr s
      else Inl Null_deref)"

fun release_all :: "handle list \<Rightarrow> objects \<Rightarrow> objects res" where
  "release_all [] s = Inr s"
| "release_all (h # hs) s = res_bind (release h s) (release_all hs)"

fun alloc_run :: "(handle option \<times> on_fail) list \<Rightarrow> bool list \<Rightarrow> objects \<Rightarrow> (bool \<times> objects) res" where
  "alloc_run ((h, f) # steps) (ok # oks) s =
     (if ok then alloc_run steps oks (case h of None \<Rightarrow> s | Some x \<Rightarrow> s\<lparr>ob_live := x # ob_live s\<rparr>)
      else case f of
          Return_null \<Rightarrow> Inr (False, s)
        | Exit_on_fail \<Rightarrow> Inl (Exit_code 1)
        | CleanAt n \<Rightarrow> res_bind (release_all (drop n clean_calls) s) (\<lambda>s'. Inr (False, s')))"
| "alloc_run _ _ s = Inr (True, s\<lparr>ob_live := remove1 Dev_list (ob_live s), ob_gone := Dev_list # ob_gone s\<rparr>)"

text \<open>
  \<open>fails\<close> is the step that fails, if any; \<open>has_device\<close> whether the list of devices has a first entry, whose
  name is printed before it is compared with the null pointer.
\<close>

definition alloc_monitor_qp :: "bool \<Rightarrow> nat option \<Rightarrow> (bool \<times> objects) res" where
  "alloc_monitor_qp has_device fails =
     (let oks = map (\<lambda>i. fails \<noteq> Some i) [0..<length alloc_steps] in
      if fails \<noteq> Some 0 \<and> \<not> has_device then Inl Null_deref
      else alloc_run alloc_steps oks \<lparr>ob_live = [], ob_gone = []\<rparr>)"

section \<open>Properties\<close>

text \<open>
  C39: the wire format loses nothing. The text a node sends for its address fills the message exactly, and the
  other node reads back the same address: identifiers, key, buffer address and all 16 bytes of the GID.
\<close>

theorem address_round_trip:
  assumes "dest_ok d"
  shows "put_str (replicate MSG_SIZE NUL) (dest_text d) = Inr (wire_msg d) \<and> length (wire_msg d) = MSG_SIZE \<and>
    buf_str (wire_msg d) = Inr (dest_text d) \<and> parse_dest (dest_text d) = Inr d"
  using put_dest [OF assms] buf_str_wire [OF assms] parse_dest_text [of d] assms length_dest_text [OF assms]
  by (simp add: dest_ok_def wire_msg_def MSG_SIZE_def)

theorem address_round_trip_witness:
  "let d = \<lparr>pd_lid = 7, pd_qpn = 4711, pd_psn = 99, pd_rkey = 0x1a2b, pd_vaddr = 0x7f0000001000,
      pd_gid = [0x80fe, 0, 0x3020100, 1]\<rparr> in parse_dest (dest_text d) = Inr d"
  using address_round_trip [of "\<lparr>pd_lid = 7, pd_qpn = 4711, pd_psn = 99, pd_rkey = 0x1a2b, pd_vaddr = 0x7f0000001000,
      pd_gid = [0x80fe, 0, 0x3020100, 1]\<rparr>"] by (simp add: dest_ok_def Let_def)

text \<open>
  the two ends of a channel agree. When the exchange succeeds, each end's queue pair is connected to the
  other's number, and expects the packet numbers the other starts with, at the other's GID if it has one.
\<close>

theorem channel_ends_agree:
  assumes "dest_ok c" and "dest_ok s" and "exch_ok ec" and "exch_ok es"
    and "ex_recv ec = Some (wire_msg s)" and "ex_recv es = Some (wire_msg c)"
  shows "pp_client_exch_dest ec c = Inr (Some s) \<and> pp_server_exch_dest es s gid_idx = Inr (Some c) \<and>
    (\<exists>c_rtr c_rts s_rtr s_rts.
      pp_connect_ctx True True (pd_psn c) (Some s) gid_idx = Inr ([c_rtr, c_rts], 0) \<and>
      pp_connect_ctx True True (pd_psn s) (Some c) gid_idx = Inr ([s_rtr, s_rts], 0) \<and>
      qa_dest_qp_num c_rtr = pd_qpn s \<and> qa_dest_qp_num s_rtr = pd_qpn c \<and>
      qa_sq_psn c_rts = Some (qa_rq_psn s_rtr) \<and> qa_sq_psn s_rts = Some (qa_rq_psn c_rtr) \<and>
      (has_interface_id (pd_gid s) \<longrightarrow> qa_is_global c_rtr \<and> qa_dgid c_rtr = pd_gid s))"
proof -
  have p: "parse_dest (dest_text c) = Inr c" "parse_dest (dest_text s) = Inr s"
    using assms(1,2) parse_dest_text by (simp_all add: dest_ok_def)
  have "pp_client_exch_dest ec c = Inr (Some s)"
    using assms(3,5) put_dest [OF assms(1)] buf_str_wire [OF assms(2)] p(2)
    by (simp add: pp_client_exch_dest_def exch_ok_def)
  moreover have "pp_server_exch_dest es s gid_idx = Inr (Some c)"
    using assms(4,6) put_dest [OF assms(2)] buf_str_wire [OF assms(1)] p(1)
    by (simp add: pp_server_exch_dest_def exch_ok_def pp_connect_ctx_def Let_def)
  ultimately show ?thesis by (simp add: pp_connect_ctx_def Let_def rtr_attr_def)
qed

definition sample_dest :: "u32 \<Rightarrow> pp_dest" where
  "sample_dest q = \<lparr>pd_lid = 1, pd_qpn = q, pd_psn = 5, pd_rkey = 6, pd_vaddr = 4096, pd_gid = [0, 0, 0, 0]\<rparr>"

definition sample_exch :: "string option \<Rightarrow> exch_env" where
  "sample_exch msg = \<lparr>ex_asprintf_ok = True, ex_addrinfo_ok = True, ex_addrs = [(True, False), (True, True)],
     ex_accept_ok = True, ex_write_ok = True, ex_recv = msg, ex_done_ok = True, ex_malloc_ok = True,
     ex_rtr_ok = True, ex_rts_ok = True\<rparr>"

lemma sample_ok:
  "dest_ok (sample_dest 10)" "dest_ok (sample_dest 11)" "exch_ok (sample_exch m)"
  by (simp_all add: dest_ok_def sample_dest_def exch_ok_def sample_exch_def found_socket_def)

theorem channel_ends_agree_witness:
  "pp_client_exch_dest (sample_exch (Some (wire_msg (sample_dest 11)))) (sample_dest 10) = Inr (Some (sample_dest 11))"
proof -
  have "ex_recv (sample_exch m) = m" for m by (simp add: sample_exch_def)
  from channel_ends_agree [OF sample_ok(1,2,3,3) this this] show ?thesis by blast
qed

text \<open>
  a sender whose address exchange fails crashes instead of reporting it. \<open>init_monitor_chan\<close> hands the null
  address to \<open>pp_connect_ctx\<close>, which reads its fields; the null result its caller tests for is not produced.
\<close>

theorem failed_exchange_crashes_sender:
  assumes "ch_alloc_ok e" and "ch_port_ok e" and "gid_idx < 0" and "dest_ok my"
    and "ex_asprintf_ok (ch_exch e)" and "ex_addrinfo_ok (ch_exch e)" and "found_socket (ex_addrs (ch_exch e))"
    and "\<not> ex_write_ok (ch_exch e) \<or> ex_recv (ch_exch e) = None \<or> \<not> ex_done_ok (ch_exch e) \<or> \<not> ex_malloc_ok (ch_exch e)"
  shows "init_monitor_chan True gid_idx e my = Inl Null_deref"
proof -
  have "dest_ok (my\<lparr>pd_gid := [0, 0, 0, 0]\<rparr>)" using assms(4) by (simp add: dest_ok_def)
  from put_dest [OF this] have "pp_client_exch_dest (ch_exch e) (my\<lparr>pd_gid := [0, 0, 0, 0]\<rparr>) = Inr None"
    using assms(5-8) by (auto simp: pp_client_exch_dest_def split: option.splits)
  then show ?thesis using assms(1-3) by (simp add: init_monitor_chan_def pp_connect_ctx_def Let_def)
qed

theorem failed_exchange_crashes_sender_witness:
  "init_monitor_chan True (-1) \<lparr>ch_alloc_ok = True, ch_port_ok = True, ch_gid = None, ch_exch = sample_exch None\<rparr>
     (sample_dest 10) = Inl Null_deref"
  using sample_ok(1) by (intro failed_exchange_crashes_sender) (simp_all add: sample_exch_def found_socket_def)

text \<open>
  which failures \<open>alloc_monitor_qp\<close> survives, step by step in the order of the code. It succeeds with all 14
  objects alive when no step fails. A failed device list, context or buffer gives the null result, but only
  the first buffer's failure, and the device list's, without a leak; a failed event channel or notification
  ends the process; any other failing call makes the clean-up itself fail, on the null handle of the call that
  failed or, for the last step, on the second release of the send region.
\<close>

theorem alloc_failures:
  "map_sum id (\<lambda>(ok, s). (ok, length (ob_live s))) (alloc_monitor_qp True None) = Inr (True, 14) \<and>
   map (\<lambda>i. map_sum id (\<lambda>(ok, s). (ok, ob_live s)) (alloc_monitor_qp True (Some i))) [0..<18] =
     [Inr (False, []), Inr (False, [Dev_list]),
      Inr (False, []), Inr (False, [Write_buf]), Inr (False, [Send_buf, Write_buf]),
      Inl Null_deref, Inl Null_deref, Inl Null_deref, Inl Null_deref, Inl Null_deref,
      Inl (Exit_code 1), Inl (Exit_code 1), Inl Null_deref, Inl (Exit_code 1), Inl Null_deref, Inl (Exit_code 1),
      Inl Null_deref, Inl Bad_free]"
  by code_simp

end
