(* ===== verification/Flow_Handler.thy ===== *)
theory Flow_Handler
  imports Mon_Messages Slots
begin

text \<open>
  The daemon's side of the local socket (\<open>flow_handler\<close> of \<open>rdma_pacer/pacer.c\<close>): one connection at a time
  is accepted, its first message is dispatched on its prefix, and a join is answered with the role
  of the node and, after the process id, with a slot. The state keeps the locals that live across
  connections: the two 24-byte buffers and \<open>vaddr\<close>, which \<open>sscanf\<close> may leave unassigned. \<open>hs_ctx\<close> is the
  send buffer of the channel to the receiver, \<open>None\<close> while the monitor has not connected it.
  Accepted sockets are never closed; \<open>hs_open\<close> counts them against the process's limit \<open>max_fds\<close>.
\<close>

record handler_state =
  hs_cb :: control_block
  hs_buf :: string
  hs_buf_pid :: string
  hs_vaddr :: "u64 option"
  hs_ctx :: "string option"
  hs_open :: nat
  hs_replies :: "string list"
  hs_updates :: "string list"

text \<open>What \<open>recv\<close> of at most \<open>MSG_LEN\<close> bytes returns, and the rest of a connection's input.\<close>

datatype recv_result = Recv_error | Recv string

record conn =
  co_first :: recv_result
  co_send_ok :: bool
  co_pid :: recv_result
  co_post_ok :: bool

definition handler_init :: "control_block \<Rightarrow> string \<Rightarrow> string \<Rightarrow> string option \<Rightarrow> handler_state" where
  "handler_init cb b1 b2 ctx = \<lparr>hs_cb = cb, hs_buf = b1, hs_buf_pid = b2, hs_vaddr = None, hs_ctx = ctx,
     hs_open = 0, hs_replies = [], hs_updates = []\<rparr>"

text \<open>
  \<open>len = recv(...); buf[len] = 0\<close>: the length is \<open>unsigned\<close>, so that an error indexes with \<open>2^32 - 1\<close>.
\<close>

definition recv_terminated :: "string \<Rightarrow> recv_result \<Rightarrow> string res" where
  "recv_terminated buf r =
     (case r of Recv_error \<Rightarrow> arr_set buf (2 ^ 32 - 1) NUL
      | Recv bs \<Rightarrow> res_bind (mem_write buf 0 (take MSG_LEN bs)) (\<lambda>buf1.
          arr_set buf1 (length (take MSG_LEN bs)) NUL))"

text \<open>\<open>sscanf(buf, "join:%Lx", &vaddr)\<close>\<close>

definition scan_join :: "string \<Rightarrow> u64 option \<Rightarrow> u64 option" where
  "scan_join txt old =
     (case eat ''join:'' txt of None \<Rightarrow> old
      | Some r \<Rightarrow> (case scan_num 16 r of None \<Rightarrow> old | Some (v, _) \<Rightarrow> Some (word_of_int v)))"

definition reply_role :: "bool \<Rightarrow> int \<Rightarrow> string \<Rightarrow> (string \<times> string) res" where
  "reply_role is_client idx buf =
     (if is_client then res_bind (put_str buf (''sender:'' @ print_pad 4 16 (nat idx))) (\<lambda>b. Inr (b, b))
      else Inr (buf, ''recver''))"

definition assign_slot :: "string \<Rightarrow> string \<Rightarrow> control_block \<Rightarrow> (string \<times> string \<times> control_block) res" where
  "assign_slot pid_txt buf cb =
     res_bind (find_next_slot (to_int32 (strtol10 pid_txt)) cb) (\<lambda>(i, cb1).
       let slot = (of_nat i :: u16);
           cb2 = cb1\<lparr>cb_next_slot := slot\<rparr>;
           txt = print_nat 10 (unat slot)
       in res_bind (put_str buf txt) (\<lambda>buf'.
          res_bind (arr_get (sb_flows (cb_sb cb2)) (unat slot)) (\<lambda>_.
            Inr (buf', txt, cb2\<lparr>cb_sb := upd_flow (unat slot) (\<lambda>f. f\<lparr>fl_active := 1\<rparr>) (cb_sb cb2)\<rparr>))))"

definition handle_join :: "nat \<Rightarrow> bool \<Rightarrow> conn \<Rightarrow> string \<Rightarrow> handler_state \<Rightarrow> handler_state res" where
  "handle_join num_servers is_client c txt s =
     (case scan_join txt (hs_vaddr s) of None \<Rightarrow> Inl Uninit_read
      | Some v \<Rightarrow>
        res_bind (find_vaddr_idx num_servers v (hs_cb s)) (\<lambda>idx.
        if idx < 0 then Inl (Exit_code 1)
        else res_bind (reply_role is_client idx (hs_buf s)) (\<lambda>(buf, role).
        if \<not> co_send_ok c then Inl (Exit_code 1)
        else res_bind (recv_terminated (hs_buf_pid s) (co_pid c)) (\<lambda>buf_pid.
        res_bind (buf_str buf_pid) (\<lambda>pid_txt.
        res_bind (assign_slot pid_txt buf (hs_cb s)) (\<lambda>(buf', slot_txt, cb).
          Inr (s\<lparr>hs_cb := cb, hs_buf := buf', hs_buf_pid := buf_pid, hs_vaddr := Some v,
                 hs_replies := hs_replies s @ [role, slot_txt]\<rparr>)))))))"

text \<open>
  \<open>ctx->send_buf\<close> is filled and sent as a whole; waiting for the completion of a send that was not accepted
  does not end.
\<close>

definition tell_receiver :: "conn \<Rightarrow> string \<Rightarrow> handler_state \<Rightarrow> handler_state res" where
  "tell_receiver c msg s =
     (case hs_ctx s of None \<Rightarrow> Inl Null_deref
      | Some sbuf \<Rightarrow> res_bind (put_str sbuf msg) (\<lambda>sbuf'.
          if co_post_ok c then Inr (s\<lparr>hs_ctx := Some sbuf', hs_updates := hs_updates s @ [sbuf']\<rparr>)
          else Inl Diverges))"

definition handle_exit :: "bool \<Rightarrow> conn \<Rightarrow> handler_state \<Rightarrow> handler_state res" where
  "handle_exit is_client c s =
     (if \<not> is_client then Inr s
      else if buf_is (hs_buf s) ''exit_app_bw'' then tell_receiver c ''big_dec'' s
      else if buf_is (hs_buf s) ''exit_app_lat'' then tell_receiver c ''small_dec'' s
      else if buf_is (hs_buf s) ''exit_app_tput'' then tell_receiver c ''big_dec'' s
      else Inl (Exit_code 1))"

definition handle_app :: "bool \<Rightarrow> conn \<Rightarrow> handler_state \<Rightarrow> handler_state res" where
  "handle_app is_client c s =
     (if \<not> is_client then Inr s
      else if buf_is (hs_buf s) ''app_bw'' then tell_receiver c ''big_inc'' s
      else if buf_is (hs_buf s) ''app_lat'' then tell_receiver c ''small_inc'' s
      else if buf_is (hs_buf s) ''app_tput'' then tell_receiver c ''big_inc'' s
      else Inl (Exit_code 1))"

definition accept_conn :: "nat \<Rightarrow> handler_state \<Rightarrow> handler_state res" where
  "accept_conn max_fds s =
     (if max_fds \<le> hs_open s then Inl (Exit_code 1) else Inr (s\<lparr>hs_open := hs_open s + 1\<rparr>))"

definition handle_conn :: "nat \<Rightarrow> bool \<Rightarrow> conn \<Rightarrow> handler_state \<Rightarrow> handler_state res" where
  "handle_conn num_servers is_client c s0 =
     res_bind (recv_terminated (hs_buf s0) (co_first c)) (\<lambda>buf.
       let s = s0\<lparr>hs_buf := buf\<rparr> in
       if buf_starts buf ''join'' then
         res_bind (buf_str buf) (\<lambda>txt. handle_join num_servers is_client c txt s)
       else if buf_is buf ''read'' then Inr s
       else if buf_starts buf ''exit_app'' then handle_exit is_client c s
       else if buf_starts buf ''app_'' then handle_app is_client c s
       else Inr s)"

fun handle_conns :: "nat \<Rightarrow> nat \<Rightarrow> bool \<Rightarrow> conn list \<Rightarrow> handler_state \<Rightarrow> handler_state res" where
  "handle_conns max_fds n cl [] s = Inr s"
| "handle_conns max_fds n cl (c # cs) s =
     res_bind (accept_conn max_fds s) (\<lambda>s1. res_bind (handle_conn n cl c s1) (handle_conns max_fds n cl cs))"

section \<open>Buffers\<close>

lemma recv_terminated_ok:
  assumes "length buf = MSG_LEN" "length bs < MSG_LEN"
  shows "recv_terminated buf (Recv bs) = Inr (bs @ NUL # drop (Suc (length bs)) buf)"
proof -
  have "(bs @ drop (length bs) buf)[length bs := NUL] = bs @ NUL # drop (Suc (length bs)) buf"
    using assms by (simp add: list_update_append Cons_nth_drop_Suc [symmetric])
  then show ?thesis using assms by (simp add: recv_terminated_def mem_write_def)
qed

text \<open>A message that fills the buffer, and a failed \<open>recv\<close>, write outside of it.\<close>

lemma recv_terminated_bad:
  assumes "length buf = MSG_LEN"
  shows "MSG_LEN \<le> length bs \<Longrightarrow> recv_terminated buf (Recv bs) = Inl Out_of_bounds"
    "recv_terminated buf Recv_error = Inl Out_of_bounds"
  using assms by (simp_all add: recv_terminated_def mem_write_def MSG_LEN_def)

lemma recv_terminated_length: "recv_terminated buf r = Inr buf' \<Longrightarrow> length buf' = length buf"
  by (auto simp: recv_terminated_def arr_set_def res_bind_eq_Inr mem_write_def split: recv_result.splits if_splits)

lemma buf_is_terminated:
  assumes "NUL \<notin> set s" "NUL \<notin> set lit"
  shows "buf_is (s @ NUL # r) lit \<longleftrightarrow> s = lit"
proof -
  have "put_str (replicate (Suc (length s)) NUL @ r) s = Inr (s @ NUL # r)"
    by (simp add: put_str_def mem_write_def)
  from put_str_is [OF this assms] show ?thesis .
qed

lemma buf_str_terminated [simp]: "NUL \<notin> set s \<Longrightarrow> buf_str (s @ NUL # r) = Inr s"
  by (simp add: buf_str_def c_str_append)

section \<open>Connections\<close>

lemma handle_join_open: "handle_join n cl c txt s = Inr s' \<Longrightarrow> hs_open s' = hs_open s"
  by (auto simp: handle_join_def res_bind_eq_Inr split: option.splits if_splits prod.splits)

lemma tell_receiver_open: "tell_receiver c m s = Inr s' \<Longrightarrow> hs_open s' = hs_open s"
  by (auto simp: tell_receiver_def res_bind_eq_Inr split: option.splits if_splits)

lemma handle_conn_open:
  assumes "handle_conn n cl c s = Inr s'"
  shows "hs_open s' = hs_open s"
  using assms
  by (auto simp: handle_conn_def handle_exit_def handle_app_def res_bind_eq_Inr Let_def
      dest!: handle_join_open tell_receiver_open split: if_splits)

lemma handle_conns_open:
  "handle_conns max_fds n cl cs s = Inr s' \<Longrightarrow> hs_open s + length cs \<le> max max_fds (hs_open s)"
proof (induction cs arbitrary: s)
  case Nil
  then show ?case by simp
next
  case (Cons c cs)
  then obtain s1 where s1: "hs_open s < max_fds" "handle_conn n cl c (s\<lparr>hs_open := hs_open s + 1\<rparr>) = Inr s1"
    "handle_conns max_fds n cl cs s1 = Inr s'"
    by (auto simp: res_bind_eq_Inr accept_conn_def split: if_splits)
  from handle_conn_open [OF s1(2)] Cons.IH [OF s1(3)] s1(1) show ?case by simp
qed

lemma scan_join_hex: "scan_join (''join:'' @ print_pad 16 16 n) old = Some (word_of_int (int n))"
  using scan_print_pad [of 16 "[]" 16 n] by (simp add: scan_join_def)

text \<open>
  The updates a sequence of announcements leads to. On a sender node with a connected channel the message
  of an application becomes the corresponding update of the receiver.
\<close>

fun app_msg :: "bool \<Rightarrow> app_kind \<Rightarrow> string" where
  "app_msg True Bw = ''app_bw''"
| "app_msg True Lat = ''app_lat''"
| "app_msg True Tput = ''app_tput''"
| "app_msg False Bw = ''exit_app_bw''"
| "app_msg False Lat = ''exit_app_lat''"
| "app_msg False Tput = ''exit_app_tput''"

lemma app_msg_plain: "NUL \<notin> set (app_msg b k)" "length (app_msg b k) < MSG_LEN"
  by (cases b; cases k; simp add: MSG_LEN_def)+

lemma tell_receiver_ok:
  assumes "hs_ctx s = Some sbuf" "length sbuf = BUF_SIZE" "length m < BUF_SIZE" "co_post_ok c"
  shows "tell_receiver c m s = Inr (s\<lparr>hs_ctx := Some (m @ NUL # drop (Suc (length m)) sbuf),
    hs_updates := hs_updates s @ [m @ NUL # drop (Suc (length m)) sbuf]\<rparr>)"
  using assms by (simp add: tell_receiver_def put_str_ok)

definition announce :: "string \<Rightarrow> conn" where
  "announce m = \<lparr>co_first = Recv m, co_send_ok = True, co_pid = Recv_error, co_post_ok = True\<rparr>"

definition daemon_ok :: "handler_state \<Rightarrow> bool" where
  "daemon_ok s \<longleftrightarrow> length (hs_buf s) = MSG_LEN \<and> (\<exists>sbuf. hs_ctx s = Some sbuf \<and> length sbuf = BUF_SIZE)"

lemma announce_updates:
  assumes "daemon_ok s"
  shows "\<exists>s' r. handle_conn n True (announce (app_msg b k)) s = Inr s' \<and> daemon_ok s' \<and>
    length r = BUF_SIZE - Suc (length (update_msg b k)) \<and>
    hs_updates s' = hs_updates s @ [update_msg b k @ NUL # r] \<and> hs_cb s' = hs_cb s"
proof -
  obtain sbuf where sbuf: "hs_ctx s = Some sbuf" "length sbuf = BUF_SIZE" "length (hs_buf s) = MSG_LEN"
    using assms by (auto simp: daemon_ok_def)
  let ?m = "app_msg b k" let ?u = "update_msg b k"
  let ?buf = "?m @ NUL # drop (Suc (length ?m)) (hs_buf s)"
  let ?s = "s\<lparr>hs_buf := ?buf\<rparr>"
  have rt: "recv_terminated (hs_buf s) (Recv ?m) = Inr ?buf"
    by (rule recv_terminated_ok [OF sbuf(3) app_msg_plain(2)])
  have "handle_conn n True (announce ?m) s = tell_receiver (announce ?m) ?u ?s"
    using rt by (cases b; cases k)
      (simp_all add: handle_conn_def announce_def handle_app_def handle_exit_def buf_starts_def buf_is_def Let_def)
  also have "\<dots> = Inr (?s\<lparr>hs_ctx := Some (?u @ NUL # drop (Suc (length ?u)) sbuf),
      hs_updates := hs_updates s @ [?u @ NUL # drop (Suc (length ?u)) sbuf]\<rparr>)"
    using tell_receiver_ok [of ?s sbuf ?u "announce ?m"] sbuf(1,2) update_msg_fits(1)
    by (simp add: announce_def)
  finally show ?thesis using sbuf app_msg_plain(2) [of b k] update_msg_fits(1) [of b k]
    by (intro exI [of _ "?s\<lparr>hs_ctx := Some (?u @ NUL # drop (Suc (length ?u)) sbuf),
        hs_updates := hs_updates s @ [?u @ NUL # drop (Suc (length ?u)) sbuf]\<rparr>"]
        exI [of _ "drop (Suc (length ?u)) sbuf"]) (simp add: daemon_ok_def)
qed

end
