(* ===== verification/App_Client.thy ===== *)
theory App_Client
  imports Flow_Handler Server
begin

text \<open>
  The application's side of the local socket, inside the driver (\<open>libmlx4/src/pacer.c\<close>,
  \<open>libmlx4/src/qp_pacer.h\<close>) and the two places that use it: the first post after a queue pair was
  connected (\<open>mlx4_post_send\<close>) and the exit handler. The last sections compose the driver with the
  daemon on its node and with the receiver's daemon.
\<close>

record app_state =
  ap_flow :: "nat option"
  ap_isSmall :: int
  ap_start_flag :: bool
  ap_num_small :: int
  ap_num_big :: int

text \<open>The globals of a process that has created a queue pair and joined at a slot.\<close>

definition app_joined :: "nat option \<Rightarrow> app_state" where
  "app_joined slot = \<lparr>ap_flow = slot, ap_isSmall = 1, ap_start_flag = False, ap_num_small = 0, ap_num_big = 0\<rparr>"

section \<open>Messages\<close>

text \<open>\<open>contact_pacer(0)\<close> and \<open>contact_pacer(2)\<close>; \<open>ok\<close> is whether socket, connect and send succeed.\<close>

definition contact_exit :: "bool \<Rightarrow> int \<Rightarrow> string res" where
  "contact_exit ok isSmall =
     (if \<not> ok then Inl (Exit_code 1)
      else Inr (if isSmall = 0 then ''exit_app_bw'' else if isSmall = 1 then ''exit_app_lat''
                else if isSmall = 2 then ''exit_app_tput'' else ''''))"

definition contact_app :: "bool \<Rightarrow> int \<Rightarrow> string res" where
  "contact_app ok isSmall =
     (if \<not> ok then Inl (Exit_code 1)
      else if isSmall = 0 then Inr ''app_bw'' else if isSmall = 1 then Inr ''app_lat''
      else if isSmall = 2 then Inr ''app_tput'' else Inl (Exit_code 1))"

definition contact_read :: "bool \<Rightarrow> string res" where
  "contact_read ok = (if \<not> ok then Inl (Exit_code 1) else Inr ''read'')"

text \<open>\<open>contact_pacer(1)\<close>: the join message, the reaction to the role, the process id, the slot.\<close>

definition join_text :: "u64 \<Rightarrow> string" where
  "join_text vaddr = ''join:'' @ print_pad 16 16 (unat vaddr)"

definition client_recv :: "string \<Rightarrow> recv_result \<Rightarrow> string res" where
  "client_recv str r = (if r = Recv [] then Inl (Exit_code 1) else recv_terminated str r)"

definition client_role :: "string \<Rightarrow> recv_result \<Rightarrow> string res" where
  "client_role str r =
     res_bind (client_recv str r) (\<lambda>str1.
       if buf_starts str1 ''sender'' then Inr str1
       else if buf_is str1 ''recver'' then Inr str1
       else Inl (Exit_code 1))"

definition pid_text :: "int \<Rightarrow> string" where
  "pid_text pid = print_int pid"

definition client_slot :: "int \<Rightarrow> recv_result \<Rightarrow> u32 res" where
  "client_slot pid r =
     res_bind (put_str (replicate MSG_LEN NUL) (pid_text pid)) (\<lambda>str.
     res_bind (client_recv str r) (\<lambda>str1.
     res_bind (buf_str str1) (\<lambda>txt. Inr (word_of_int (strtol10 txt)))))"

section \<open>Start and exit\<close>

text \<open>
  The block \<open>if (unlikely(start_flag))\<close> of \<open>mlx4_post_send\<close>: the kind of the queue pair becomes the kind of
  the process, the shared counters are raised and the daemon is told. \<open>mlx4_modify_qp\<close> raises
  \<open>start_flag\<close> again for every queue pair it connects.
\<close>

definition post_send_start ::
  "bool \<Rightarrow> int \<Rightarrow> bool \<Rightarrow> app_state \<Rightarrow> shared_block \<Rightarrow> (string list \<times> app_state \<times> shared_block) res" where
  "post_send_start ok qp_isSmall is_read a sb =
     (if \<not> ap_start_flag a then Inr ([], a, sb)
      else let a1 = a\<lparr>ap_start_flag := False\<rparr> in
      case ap_flow a of None \<Rightarrow> Inr ([], a1, sb)
      | Some slot \<Rightarrow>
        if qp_isSmall = 0 then
          (let a2 = a1\<lparr>ap_isSmall := 0\<rparr> in
           if is_read then Inr ([], a2, upd_flow slot (\<lambda>f. f\<lparr>fl_read := 1\<rparr>) sb)
           else res_bind (contact_app ok 0) (\<lambda>m.
             Inr ([m], a2\<lparr>ap_num_big := ap_num_big a2 + 1\<rparr>,
                  sb\<lparr>sb_num_active_big_flows := sb_num_active_big_flows sb + 1,
                     sb_num_active_bw_flows := sb_num_active_bw_flows sb + 1\<rparr>)))
        else if qp_isSmall = 1 then
          res_bind (contact_app ok 1) (\<lambda>m.
            Inr ([m], a1\<lparr>ap_isSmall := 1, ap_num_small := ap_num_small a1 + 1\<rparr>,
                 sb\<lparr>sb_num_active_small_flows := sb_num_active_small_flows sb + 1\<rparr>))
        else if qp_isSmall = 2 then
          res_bind (contact_app ok 2) (\<lambda>m.
            Inr ([m], a1\<lparr>ap_isSmall := 2, ap_num_big := ap_num_big a1 + 1\<rparr>,
                 sb\<lparr>sb_num_active_big_flows := sb_num_active_big_flows sb + 1\<rparr>))
        else Inr ([], a1, sb))"

definition connected_qp :: "app_state \<Rightarrow> app_state" where
  "connected_qp a = a\<lparr>ap_start_flag := True\<rparr>"

definition set_inactive_on_exit :: "bool \<Rightarrow> app_state \<Rightarrow> shared_block \<Rightarrow> (string list \<times> shared_block) res" where
  "set_inactive_on_exit ok a sb =
     (case ap_flow a of None \<Rightarrow> Inr ([], sb)
      | Some slot \<Rightarrow>
        let sb1 = (if ap_isSmall a \<noteq> 0
              then sb\<lparr>sb_num_active_small_flows := sb_num_active_small_flows sb - word_of_int (ap_num_small a)\<rparr>
            else if fl_read (sb_flows sb ! slot) \<noteq> 0
              then upd_flow slot (\<lambda>f. f\<lparr>fl_read := 0\<rparr>) sb
            else sb\<lparr>sb_num_active_big_flows := sb_num_active_big_flows sb - word_of_int (ap_num_big a)\<rparr>)
        in res_bind (contact_exit ok (ap_isSmall a)) (\<lambda>m.
          Inr ([m], upd_flow slot (\<lambda>f. f\<lparr>fl_pending := 0, fl_active := 0\<rparr>) sb1)))"

text \<open>A process that connects and first posts on queue pairs of the given kinds, then exits.\<close>

fun app_starts :: "int list \<Rightarrow> app_state \<Rightarrow> shared_block \<Rightarrow> (string list \<times> app_state \<times> shared_block) res" where
  "app_starts [] a sb = Inr ([], a, sb)"
| "app_starts (k # ks) a sb =
     res_bind (post_send_start True k False (connected_qp a) sb) (\<lambda>(ms, a1, sb1).
     res_bind (app_starts ks a1 sb1) (\<lambda>(ms', a2, sb2). Inr (ms @ ms', a2, sb2)))"

definition app_life :: "int list \<Rightarrow> nat \<Rightarrow> shared_block \<Rightarrow> (string list \<times> shared_block) res" where
  "app_life ks slot sb =
     res_bind (app_starts ks (app_joined (Some slot)) sb) (\<lambda>(ms, a, sb1).
     res_bind (set_inactive_on_exit True a sb1) (\<lambda>(ms', sb2). Inr (ms @ ms', sb2)))"

fun kind_of :: "int \<Rightarrow> app_kind" where
  "kind_of k = (if k = 0 then Bw else if k = 1 then Lat else Tput)"

section \<open>Joining\<close>

definition join_conn :: "int \<Rightarrow> conn" where
  "join_conn pid = \<lparr>co_first = Recv (join_text 0), co_send_ok = True, co_pid = Recv (pid_text pid), co_post_ok = True\<rparr>"

text \<open>The conversation of a process with the daemon of its node, each reading what the other sent.\<close>

definition join_session :: "nat \<Rightarrow> bool \<Rightarrow> int \<Rightarrow> string \<Rightarrow> handler_state \<Rightarrow> (u32 \<times> handler_state) res" where
  "join_session num_servers is_client pid str s =
     res_bind (handle_conn num_servers is_client (join_conn pid) (s\<lparr>hs_replies := []\<rparr>)) (\<lambda>s'.
     case hs_replies s' of
       [role, slot_txt] \<Rightarrow>
         res_bind (client_role str (Recv role)) (\<lambda>_.
         res_bind (client_slot pid (Recv slot_txt)) (\<lambda>slot. Inr (slot, s')))
     | _ \<Rightarrow> Inl Diverges)"

lemma join_text_plain: "NUL \<notin> set (join_text v)" "length (join_text v) = 21"
proof -
  show "NUL \<notin> set (join_text v)" by (simp add: join_text_def print_pad_no_nul)
  have "unat v < 16 ^ 16" using unsigned_less [of v] by simp
  then show "length (join_text v) = 21" by (simp add: join_text_def length_print_pad_exact)
qed

lemma pid_text_plain:
  assumes "0 \<le> pid" "pid < 2 ^ 31"
  shows "NUL \<notin> set (pid_text pid)" "length (pid_text pid) \<le> 10" "pid_text pid \<noteq> []"
    "to_int32 (strtol10 (pid_text pid)) = pid"
proof -
  have p: "pid_text pid = print_nat 10 (nat pid)" using assms(1) by (simp add: pid_text_def print_int_def)
  show "NUL \<notin> set (pid_text pid)" using print_pad_no_nul [of 10 0] by (simp add: p print_pad_0)
  have "nat pid < 10 ^ 10" using assms by (simp add: nat_less_iff)
  then show "length (pid_text pid) \<le> 10" using length_digits_of [of 10 "nat pid" 10] by (simp add: p print_nat_def)
  show "pid_text pid \<noteq> []" using digits_of_nonempty [of 10] by (simp add: p print_nat_def)
  have "strtol10 (pid_text pid) = pid" using strtol10_print_nat [of "nat pid"] assms by (simp add: p)
  then show "to_int32 (strtol10 (pid_text pid)) = pid"
    using assms by (simp add: to_int32_def sint_word_of_int_small)
qed

definition can_join :: "int \<Rightarrow> handler_state \<Rightarrow> bool" where
  "can_join pid s \<longleftrightarrow> length (hs_buf s) = MSG_LEN \<and> length (hs_buf_pid s) = MSG_LEN \<and> cb_shape (hs_cb s) \<and>
     slots_inv (hs_cb s) \<and> cb_app_vaddrs (hs_cb s) ! 0 = 0 \<and>
     (pid \<in> set (cb_pid_list (hs_cb s)) \<or> -1 \<in> set (cb_pid_list (hs_cb s)))"

lemma find_next_slot_succeeds:
  assumes "pid \<noteq> -1" "pid \<in> set (cb_pid_list cb) \<or> -1 \<in> set (cb_pid_list cb)"
  shows "\<exists>k cb'. find_next_slot pid cb = Inr (k, cb')"
proof (cases "first_from (\<lambda>p. p = pid) 0 (cb_pid_list cb)")
  case (Some i)
  then show ?thesis using assms(1) by (simp add: find_next_slot_def)
next
  case None
  then have "pid \<notin> set (cb_pid_list cb)" unfolding first_from_None by blast
  with assms(2) have "first_from (\<lambda>p. p = -1) 0 (cb_pid_list cb) \<noteq> None"
    unfolding first_from_None by blast
  then show ?thesis using None assms(1) by (auto simp: find_next_slot_def)
qed

lemma slot_text:
  assumes "k < MAX_FLOWS"
  shows "unat (of_nat k :: u16) = k" "length (print_nat 10 k) \<le> 3" "print_nat 10 k \<noteq> []"
    "NUL \<notin> set (print_nat 10 k)" "strtol10 (print_nat 10 k) = int k"
proof -
  show "unat (of_nat k :: u16) = k" using assms by (simp add: MAX_FLOWS_def unat_of_nat)
  show "length (print_nat 10 k) \<le> 3"
    using length_digits_of [of 10 k 3] assms by (simp add: MAX_FLOWS_def print_nat_def)
  show "print_nat 10 k \<noteq> []" using digits_of_nonempty [of 10] by (simp add: print_nat_def)
  show "NUL \<notin> set (print_nat 10 k)" using print_pad_no_nul [of 10 0] by (simp add: print_pad_0)
  show "strtol10 (print_nat 10 k) = int k" using assms by (intro strtol10_print_nat) (simp add: MAX_FLOWS_def)
qed

lemma assign_slot_ok:
  assumes "find_next_slot pid cb = Inr (k, cb1)" "to_int32 (strtol10 txt) = pid" "cb_shape cb" "slots_inv cb"
    "length buf = MSG_LEN"
  shows "\<exists>buf' cb2. assign_slot txt buf cb = Inr (buf', print_nat 10 k, cb2) \<and> k < MAX_FLOWS \<and>
    cb_pid_list cb2 = (cb_pid_list cb)[k := pid] \<and> fl_active (sb_flows (cb_sb cb2) ! k) = 1"
proof -
  note c = find_next_slot_cases [OF assms(1)]
  have k: "k < MAX_FLOWS" using c(2) assms(4) by simp
  note st = slot_text [OF k]
  have "put_str buf (print_nat 10 k) = Inr (print_nat 10 k @ NUL # drop (Suc (length (print_nat 10 k))) buf)"
    using st(2) assms(5) by (intro put_str_ok) (simp add: MSG_LEN_def)
  then show ?thesis using assms(1-3) k st(1) c(3)
    by (auto simp: assign_slot_def Let_def upd_flow_def)
qed

lemma join_handled:
  assumes "can_join pid s" "0 \<le> pid" "pid < 2 ^ 31"
  shows "\<exists>k buf buf' s' r. handle_conn 1 is_client (join_conn pid) (s\<lparr>hs_replies := []\<rparr>) = Inr s' \<and> k < MAX_FLOWS \<and>
    reply_role is_client 0 buf = Inr (buf', r) \<and> length buf = MSG_LEN \<and> hs_replies s' = [r, print_nat 10 k] \<and>
    find_next_slot pid (hs_cb s) = Inr (k, (hs_cb s)\<lparr>cb_pid_list := (cb_pid_list (hs_cb s))[k := pid]\<rparr>) \<and>
    cb_pid_list (hs_cb s') = (cb_pid_list (hs_cb s))[k := pid] \<and> fl_active (sb_flows (cb_sb (hs_cb s')) ! k) = 1"
proof -
  have s: "length (hs_buf s) = MSG_LEN" "length (hs_buf_pid s) = MSG_LEN" "cb_shape (hs_cb s)" "slots_inv (hs_cb s)"
    "cb_app_vaddrs (hs_cb s) ! 0 = 0" using assms(1) by (simp_all add: can_join_def)
  have pid: "pid \<noteq> -1" using assms(2) by simp
  note pt = pid_text_plain [OF assms(2,3)] and jt = join_text_plain [of 0]
  obtain k cb1 where f: "find_next_slot pid (hs_cb s) = Inr (k, cb1)"
    using find_next_slot_succeeds [OF pid] assms(1) unfolding can_join_def by blast
  let ?buf = "join_text 0 @ NUL # drop (Suc (length (join_text 0))) (hs_buf s)"
  have buf: "recv_terminated (hs_buf s) (Recv (join_text 0)) = Inr ?buf" "length ?buf = MSG_LEN"
    using s(1) jt(2) by (simp_all add: recv_terminated_ok MSG_LEN_def)
  let ?pbuf = "pid_text pid @ NUL # drop (Suc (length (pid_text pid))) (hs_buf_pid s)"
  have pbuf: "recv_terminated (hs_buf_pid s) (Recv (pid_text pid)) = Inr ?pbuf"
    using s(2) pt(2) by (intro recv_terminated_ok) (simp_all add: MSG_LEN_def)
  have start: "buf_starts ?buf ''join''" by (simp add: buf_starts_def join_text_def)
  have scan: "scan_join (join_text 0) old = Some 0" for old
    using scan_join_hex [of 0] by (simp add: join_text_def)
  have idx: "find_vaddr_idx 1 0 (hs_cb s) = Inr 0"
    using s(3,5) by (simp add: find_vaddr_idx_def cb_shape_def MAX_SERVERS_def)
  obtain buf' r where role: "reply_role is_client 0 ?buf = Inr (buf', r)" "length buf' = MSG_LEN"
  proof (cases is_client)
    case True
    have "length (''sender:'' @ print_pad 4 16 (nat 0)) < length ?buf"
      using buf(2) length_print_pad_exact [of 16 0 4] by (simp add: MSG_LEN_def)
    from put_str_ok [OF this] put_str_length [of ?buf] obtain b where
      "put_str ?buf (''sender:'' @ print_pad 4 16 (nat 0)) = Inr b" "length b = MSG_LEN" using buf(2) by metis
    then show thesis using True by (intro that [of b b]) (simp_all add: reply_role_def)
  next
    case False
    then show thesis using buf(2) by (intro that [of ?buf "''recver''"]) (simp_all add: reply_role_def)
  qed
  obtain buf'' cb2 where a: "assign_slot (pid_text pid) buf' (hs_cb s) = Inr (buf'', print_nat 10 k, cb2)"
    "k < MAX_FLOWS" "cb_pid_list cb2 = (cb_pid_list (hs_cb s))[k := pid]" "fl_active (sb_flows (cb_sb cb2) ! k) = 1"
    using assign_slot_ok [OF f pt(4) s(3,4) role(2)] by blast
  let ?s' = "s\<lparr>hs_replies := [r, print_nat 10 k], hs_cb := cb2, hs_buf := buf'', hs_buf_pid := ?pbuf, hs_vaddr := Some 0\<rparr>"
  have "handle_conn 1 is_client (join_conn pid) (s\<lparr>hs_replies := []\<rparr>) = Inr ?s'"
    using buf start scan idx role a pbuf jt(1) pt(1)
    by (simp add: handle_conn_def join_conn_def handle_join_def)
  then show ?thesis using role a(2-4) buf(2) f find_next_slot_cases(3) [OF f]
    by (intro exI [of _ k] exI [of _ ?buf] exI [of _ buf'] exI [of _ ?s'] exI [of _ r]) simp
qed

section \<open>From the application to the receiver\<close>

text \<open>
  The connections of a sender's processes are handled by its daemon, and what the daemon posts is received, in
  order, by the daemon of a receiver with \<open>n\<close> senders.
\<close>

definition receiver_after :: "nat \<Rightarrow> nat \<Rightarrow> string list \<Rightarrow> handler_state \<Rightarrow> server_state \<Rightarrow> server_state res" where
  "receiver_after max_fds n msgs s sv =
     res_bind (handle_conns max_fds 1 True (map announce msgs) (s\<lparr>hs_updates := []\<rparr>)) (\<lambda>s'.
       server_pass (map (\<lambda>u. Received u (replicate n True)) (hs_updates s')) sv)"

definition stands_for :: "string \<Rightarrow> bool \<times> app_kind \<Rightarrow> bool" where
  "stands_for buf u \<longleftrightarrow> (\<exists>r. buf = update_msg (fst u) (snd u) @ NUL # r)"

lemma server_pass_stands_for:
  "list_all2 stands_for bufs us \<Longrightarrow>
    server_pass (map (\<lambda>u. Received u (replicate n True)) bufs) sv = server_pass (map (received n) us) sv"
proof (induction bufs us arbitrary: sv rule: list_all2_induct)
  case Nil
  then show ?case by simp
next
  case (Cons buf bufs u us)
  obtain r where r: "buf = update_msg (fst u) (snd u) @ NUL # r" using Cons.hyps(1) by (auto simp: stands_for_def)
  have IH: "server_pass (map (\<lambda>u. Received u (replicate n True)) bufs) = server_pass (map (received n) us)"
    using Cons.IH by (rule ext)
  obtain r' where u: "received n u = Received (update_msg (fst u) (snd u) @ NUL # r') (replicate n True)"
    by (simp add: received_def)
  show ?case by (simp add: r u IH count_update_msg del: update_msg.simps)
qed

lemma daemon_forwards:
  assumes "daemon_ok s" "hs_open s + length us \<le> max_fds"
  shows "\<exists>s' bufs. handle_conns max_fds 1 True (map announce (map (\<lambda>u. app_msg (fst u) (snd u)) us)) s = Inr s' \<and>
    hs_updates s' = hs_updates s @ bufs \<and> list_all2 stands_for bufs us \<and> hs_cb s' = hs_cb s"
  using assms
proof (induction us arbitrary: s)
  case Nil
  then show ?case by simp
next
  case (Cons u us)
  let ?s = "s\<lparr>hs_open := hs_open s + 1\<rparr>"
  have "daemon_ok ?s" using Cons.prems(1) by (simp add: daemon_ok_def)
  from announce_updates [OF this, of 1 "fst u" "snd u"] obtain s1 r where s1:
    "handle_conn 1 True (announce (app_msg (fst u) (snd u))) ?s = Inr s1" "daemon_ok s1"
    "hs_updates s1 = hs_updates s @ [update_msg (fst u) (snd u) @ NUL # r]" "hs_cb s1 = hs_cb s" by auto
  have "hs_open s1 + length us \<le> max_fds" using handle_conn_open [OF s1(1)] Cons.prems(2) by simp
  from Cons.IH [OF s1(2) this] obtain s' bufs where s':
    "handle_conns max_fds 1 True (map announce (map (\<lambda>u. app_msg (fst u) (snd u)) us)) s1 = Inr s'"
    "hs_updates s' = hs_updates s1 @ bufs" "list_all2 stands_for bufs us" "hs_cb s' = hs_cb s1" by blast
  have "stands_for (update_msg (fst u) (snd u) @ NUL # r) u" by (auto simp: stands_for_def)
  then show ?case using s1 s' Cons.prems(2)
    by (intro exI [of _ s'] exI [of _ "(update_msg (fst u) (snd u) @ NUL # r) # bufs"])
      (simp add: accept_conn_def)
qed

lemma receiver_after_updates:
  assumes "daemon_ok s" "hs_open s + length us \<le> max_fds"
  shows "receiver_after max_fds n (map (\<lambda>u. app_msg (fst u) (snd u)) us) s sv = server_pass (map (received n) us) sv"
proof -
  have "daemon_ok (s\<lparr>hs_updates := []\<rparr>)" using assms(1) by (simp add: daemon_ok_def)
  from daemon_forwards [OF this, of us max_fds] assms(2) obtain s' bufs where
    "handle_conns max_fds 1 True (map announce (map (\<lambda>u. app_msg (fst u) (snd u)) us)) (s\<lparr>hs_updates := []\<rparr>) = Inr s'"
    "hs_updates s' = bufs" "list_all2 stands_for bufs us" by auto
  then show ?thesis using server_pass_stands_for by (simp only: receiver_after_def res_bind_simps)
qed

section \<open>Properties\<close>

text \<open>
  C33: joining works on a receiver node. Whatever the buffers hold, a process whose id is known or for
  which a slot is free ends the conversation with a slot of the table which records its id and is
  marked active, and no two slots belong to one process.
\<close>

theorem join_on_receiver_node:
  assumes "can_join pid s" and "0 \<le> pid" and "pid < 2 ^ 31" and "length str = MSG_LEN"
  shows "\<exists>slot s'. join_session 1 False pid str s = Inr (slot, s') \<and> unat slot < MAX_FLOWS \<and>
    cb_pid_list (hs_cb s') ! unat slot = pid \<and> fl_active (sb_flows (cb_sb (hs_cb s')) ! unat slot) = 1 \<and>
    slots_inv (hs_cb s')"
proof -
  obtain k buf buf' s' r where h: "handle_conn 1 False (join_conn pid) (s\<lparr>hs_replies := []\<rparr>) = Inr s'" "k < MAX_FLOWS"
    "reply_role False 0 buf = Inr (buf', r)" "hs_replies s' = [r, print_nat 10 k]"
    "find_next_slot pid (hs_cb s) = Inr (k, (hs_cb s)\<lparr>cb_pid_list := (cb_pid_list (hs_cb s))[k := pid]\<rparr>)"
    "cb_pid_list (hs_cb s') = (cb_pid_list (hs_cb s))[k := pid]" "fl_active (sb_flows (cb_sb (hs_cb s')) ! k) = 1"
    using join_handled [OF assms(1-3)] by blast
  have inv: "slots_inv (hs_cb s)" using assms(1) by (simp add: can_join_def)
  have r: "r = ''recver''" using h(3) by (simp add: reply_role_def)
  have role: "client_role str (Recv r) = Inr (''recver'' @ NUL # drop 7 str)"
    using recv_terminated_ok [OF assms(4), of "''recver''"]
    by (simp add: r client_role_def client_recv_def MSG_LEN_def buf_starts_def buf_is_def numeral_eq_Suc)
  note st = slot_text [OF h(2)] and pt = pid_text_plain [OF assms(2,3)]
  let ?str = "pid_text pid @ NUL # drop (Suc (length (pid_text pid))) (replicate MSG_LEN NUL)"
  have p: "put_str (replicate MSG_LEN NUL) (pid_text pid) = Inr ?str"
    using pt(2) by (intro put_str_ok) (simp add: MSG_LEN_def)
  have "length ?str = MSG_LEN" using pt(2) by (simp add: MSG_LEN_def)
  from recv_terminated_ok [OF this, of "print_nat 10 k"] st(2)
  have "client_slot pid (Recv (print_nat 10 k)) = Inr (word_of_int (int k))"
    using p st by (simp add: client_slot_def client_recv_def MSG_LEN_def)
  then have sess: "join_session 1 False pid str s = Inr (word_of_int (int k), s')"
    using h(1,4) role by (simp add: join_session_def)
  have "unat (word_of_int (int k) :: u32) = k" using h(2) by (simp add: MAX_FLOWS_def unat_of_nat)
  moreover have "slots_inv (hs_cb s')"
    using find_next_slot_ok(1) [OF inv h(5)] h(6) by (simp add: slots_inv_def)
  ultimately show ?thesis using sess h(2,6,7) inv by (intro exI [of _ "word_of_int (int k)"] exI [of _ s']) simp
qed

theorem join_on_receiver_node_witness:
  "\<exists>slot s'. join_session 1 False 4711 (replicate 24 NUL)
      (handler_init (main_init zero_block) (replicate 24 NUL) (replicate 24 NUL) None) = Inr (slot, s') \<and>
    unat slot < MAX_FLOWS"
proof -
  have "can_join 4711 (handler_init (main_init zero_block) (replicate 24 NUL) (replicate 24 NUL) None)"
    using main_init_shape [of zero_block] main_init_slots_inv
    by (simp add: can_join_def handler_init_def MSG_LEN_def zero_block_def)
      (simp add: main_init_def MAX_SERVERS_def MAX_FLOWS_def)
  from join_on_receiver_node [OF this, of "replicate 24 NUL"] show ?thesis by (force simp: MSG_LEN_def)
qed

text \<open>
  joining corrupts memory on a sender node. There the daemon answers with all 24 bytes of its buffer,
  and the driver terminates the received text at index 24 of its own 24-byte array: every join of every
  process writes one byte behind it.
\<close>

theorem join_on_sender_node_overruns:
  assumes "can_join pid s" and "0 \<le> pid" and "pid < 2 ^ 31" and "length str = MSG_LEN"
  shows "join_session 1 True pid str s = Inl Out_of_bounds"
proof -
  obtain k buf buf' s' r where h: "handle_conn 1 True (join_conn pid) (s\<lparr>hs_replies := []\<rparr>) = Inr s'"
    "reply_role True 0 buf = Inr (buf', r)" "length buf = MSG_LEN" "hs_replies s' = [r, print_nat 10 k]"
    using join_handled [OF assms(1-3)] by blast
  have "length r = MSG_LEN" using h(2,3) put_str_length by (fastforce simp: reply_role_def res_bind_eq_Inr)
  then have "client_role str (Recv r) = Inl Out_of_bounds"
    using recv_terminated_bad(1) [OF assms(4), of r]
    by (auto simp: client_role_def client_recv_def MSG_LEN_def)
  then show ?thesis using h(1,4) by (simp add: join_session_def)
qed

theorem join_on_sender_node_overruns_witness:
  "join_session 1 True 4711 (replicate 24 NUL)
      (handler_init (main_init zero_block) (replicate 24 NUL) (replicate 24 NUL) None) = Inl Out_of_bounds"
proof -
  have "can_join 4711 (handler_init (main_init zero_block) (replicate 24 NUL) (replicate 24 NUL) None)"
    using main_init_shape [of zero_block] main_init_slots_inv
    by (simp add: can_join_def handler_init_def MSG_LEN_def zero_block_def)
      (simp add: main_init_def MAX_SERVERS_def MAX_FLOWS_def)
  from join_on_sender_node_overruns [OF this, of "replicate 24 NUL"] show ?thesis by (simp add: MSG_LEN_def)
qed

text \<open>
  what a process that sends on one queue pair leaves behind. It is announced to the daemon and
  withdrawn once, as the same kind. Its node's own counters do not return: a bandwidth process
  leaves the counter of bandwidth flows one higher, a throughput process the counter of large flows,
  as its exit takes the branch of small flows; only a latency process leaves no trace.
\<close>

theorem app_life_counters:
  assumes "k = 0 \<or> k = 1 \<or> k = 2" and "slot < length (sb_flows sb)" and "fl_read (sb_flows sb ! slot) = 0"
  shows "\<exists>sb'. app_life [k] slot sb = Inr ([app_msg True (kind_of k), app_msg False (kind_of k)], sb') \<and>
    sb_num_active_small_flows sb' = sb_num_active_small_flows sb \<and>
    sb_num_active_big_flows sb' = sb_num_active_big_flows sb + (if k = 2 then 1 else 0) \<and>
    sb_num_active_bw_flows sb' = sb_num_active_bw_flows sb + (if k = 0 then 1 else 0) \<and>
    fl_pending (sb_flows sb' ! slot) = 0 \<and> fl_active (sb_flows sb' ! slot) = 0"
  using assms(1)
proof (elim disjE)
  assume "k = 0"
  then show ?thesis using assms(2,3)
    by (simp add: app_life_def app_joined_def connected_qp_def post_send_start_def contact_app_def contact_exit_def
        set_inactive_on_exit_def upd_flow_def Let_def)
next
  assume "k = 1"
  then show ?thesis using assms(2)
    by (simp add: app_life_def app_joined_def connected_qp_def post_send_start_def contact_app_def contact_exit_def
        set_inactive_on_exit_def upd_flow_def Let_def)
next
  assume "k = 2"
  then show ?thesis using assms(2)
    by (simp add: app_life_def app_joined_def connected_qp_def post_send_start_def contact_app_def contact_exit_def
        set_inactive_on_exit_def upd_flow_def Let_def)
qed

theorem app_life_counters_witness:
  "\<exists>sb'. app_life [2] 3 zero_block = Inr ([''app_tput'', ''exit_app_tput''], sb') \<and>
    sb_num_active_big_flows sb' = 1"
  using app_life_counters [of 2 3 zero_block] by (auto simp: zero_block_def MAX_FLOWS_def)

text \<open>
  C16: announcements reach the receiver. The daemon of a sender, which has not reached its limit of descriptors (a connection
  is not closed), turns any sequence of announced arrivals and departures of applications into updates which bring the
  receiver's counters, as long as they stay in range, to the numbers of applications that run; these announcements
  leave the daemon's control block as it was (joining, which does change it, is another kind of connection).
\<close>

theorem announcements_reach_receiver:
  assumes "daemon_ok s" and "hs_open s + length us \<le> max_fds" and "in_range 0 0 us"
  shows "\<exists>sv. receiver_after max_fds n (map (\<lambda>u. app_msg (fst u) (snd u)) us) s (server_init n) = Inr sv \<and>
    int (unat (sv_num_big sv)) = running is_big us \<and>
    int (unat (sv_num_small sv)) = running (\<lambda>k. \<not> is_big k) us \<and>
    (\<exists>s'. handle_conns max_fds 1 True (map announce (map (\<lambda>u. app_msg (fst u) (snd u)) us)) s = Inr s' \<and> hs_cb s' = hs_cb s)"
proof -
  have "bufs_ok n (server_init n)" by (auto simp: bufs_ok_def server_init_def)
  from server_pass_counts [OF this _ _ assms(3)] obtain sv where
    "server_pass (map (received n) us) (server_init n) = Inr sv"
    "sv_num_big sv = word_of_int (running is_big us)"
    "sv_num_small sv = word_of_int (running (\<lambda>k. \<not> is_big k) us)" by (auto simp: server_init_def)
  then show ?thesis
    using receiver_after_updates [OF assms(1,2)] assms(3) [unfolded in_range_def, THEN spec [of _ "length us"]] daemon_forwards [OF assms(1,2)]
    by (intro exI [of _ sv]) (auto simp: uint_of_int_small)
qed

theorem announcements_reach_receiver_witness:
  "\<exists>sv. receiver_after 1024 2 [''app_bw'', ''app_lat'']
      (handler_init (main_init zero_block) (replicate 24 NUL) (replicate 24 NUL) (Some (replicate 16 NUL)))
      (server_init 2) = Inr sv \<and> int (unat (sv_num_big sv)) = 1"
  using announcements_reach_receiver [of "handler_init (main_init zero_block) (replicate 24 NUL) (replicate 24 NUL)
      (Some (replicate 16 NUL))" "[(True, Bw), (True, Lat)]" 1024 2]
  by (auto simp: daemon_ok_def handler_init_def MSG_LEN_def BUF_SIZE_def in_range_def running_def is_big_def le_Suc_eq)

text \<open>
  a process that connects but never posts makes the receiver wrong for good. Its exit is announced as that
  of a latency application, although no arrival was: with no application running anywhere the receiver
  then counts 65535 small ones and tells all senders so.
\<close>

theorem idle_process_wraps_receiver:
  assumes "daemon_ok s" and "hs_open s < max_fds" and "slot < length (sb_flows sb)"
  shows "\<exists>msgs sb' sv. app_life [] slot sb = Inr (msgs, sb') \<and>
    receiver_after max_fds n msgs s (server_init n) = Inr sv \<and> unat (sv_num_small sv) = 65535 \<and> announced n sv"
proof -
  obtain sb' where a: "app_life [] slot sb = Inr ([''exit_app_lat''], sb')"
    by (simp add: app_life_def app_joined_def set_inactive_on_exit_def contact_exit_def)
  have "bufs_ok n (server_init n)" by (auto simp: bufs_ok_def server_init_def)
  from server_update [OF this, of 0 0 "(False, Lat)" "[]"] obtain sv where
    "server_pass [received n (False, Lat)] (server_init n) = Inr sv" "sv_num_small sv = - 1" "announced n sv"
    by (auto simp: server_init_def step_big_def step_small_def is_big_def)
  moreover have "unat (- 1 :: u16) = 65535" by (simp add: unsigned_minus_1_eq_mask mask_eq_exp_minus_1)
  ultimately show ?thesis
    using receiver_after_updates [OF assms(1), of "[(False, Lat)]" max_fds n "server_init n"] a assms(2)
    by (intro exI [of _ "[''exit_app_lat'']"] exI [of _ sb'] exI [of _ sv]) simp
qed

theorem idle_process_wraps_receiver_witness:
  "\<exists>msgs sb' sv. app_life [] 0 zero_block = Inr (msgs, sb') \<and>
    receiver_after 1024 1 msgs
      (handler_init (main_init zero_block) (replicate 24 NUL) (replicate 24 NUL) (Some (replicate 16 NUL)))
      (server_init 1) = Inr sv \<and> unat (sv_num_small sv) = 65535"
proof -
  let ?s = "handler_init (main_init zero_block) (replicate 24 NUL) (replicate 24 NUL) (Some (replicate 16 NUL))"
  have "daemon_ok ?s" "hs_open ?s < 1024" "0 < length (sb_flows zero_block)"
    by (simp_all add: daemon_ok_def handler_init_def MSG_LEN_def BUF_SIZE_def zero_block_def MAX_FLOWS_def)
  from idle_process_wraps_receiver [OF this, of 1] show ?thesis by blast
qed

text \<open>
  the daemon serves a bounded number of connections in its life. Accepted sockets stay open, so
  that, whatever the connections ask, one more than the limit of descriptors never returns normally.
\<close>

theorem daemon_connections_bounded:
  assumes "max_fds < hs_open s + length cs" and "hs_open s \<le> max_fds"
  shows "\<exists>e. handle_conns max_fds num_servers is_client cs s = Inl e"
proof (cases "handle_conns max_fds num_servers is_client cs s")
  case (Inr s')
  from handle_conns_open [OF this] assms show ?thesis by simp
qed simp

theorem daemon_connections_bounded_witness:
  "\<exists>e. handle_conns 3 1 True (replicate 4 (announce ''read''))
      (handler_init (main_init zero_block) (replicate 24 NUL) (replicate 24 NUL) None) = Inl e"
  by (rule daemon_connections_bounded) (simp_all add: handler_init_def)

end
