(* ===== verification/Verbs_Data.thy ===== *)
theory Verbs_Data
  imports Prelude
begin

text \<open>
  The data of the verbs interface (\<open>infiniband/verbs.h\<close>) that the shaper and the work queues of the driver share,
  and the byte order of what the driver writes for the device: \<open>be32\<close> and \<open>be64\<close> are the bytes \<open>htonl\<close> and \<open>htonll\<close>
  leave in memory, \<open>le32\<close> those of a plain store on a little-endian host.
\<close>

unbundle bit_operations_syntax

section \<open>Requests\<close>

record sge =
  sg_addr :: u64
  sg_length :: u32
  sg_lkey :: u32

definition IBV_SEND_FENCE :: u32 where [macro_defs]: "IBV_SEND_FENCE = 1"
definition IBV_SEND_SIGNALED :: u32 where [macro_defs]: "IBV_SEND_SIGNALED = 2"
definition IBV_SEND_SOLICITED :: u32 where [macro_defs]: "IBV_SEND_SOLICITED = 4"
definition IBV_SEND_INLINE :: u32 where [macro_defs]: "IBV_SEND_INLINE = 8"

section \<open>Bytes\<close>

text \<open>\<open>memcpy\<close> of no bytes touches nothing, wherever it points.\<close>

definition mem_put :: "'a list \<Rightarrow> nat \<Rightarrow> 'a list \<Rightarrow> 'a list res" where
  "mem_put buf off src = (if src = [] then Inr buf else mem_write buf off src)"

lemma mem_put_in: "off + length src \<le> length buf \<Longrightarrow> mem_put buf off src = Inr (take off buf @ src @ drop (off + length src) buf)"
  by (simp add: mem_put_def mem_write_def)

definition be32 :: "u32 \<Rightarrow> u8 list" where
  "be32 w = [ucast (drop_bit 24 w), ucast (drop_bit 16 w), ucast (drop_bit 8 w), ucast w]"

definition le32 :: "u32 \<Rightarrow> u8 list" where
  "le32 w = rev (be32 w)"

definition be64 :: "u64 \<Rightarrow> u8 list" where
  "be64 x = be32 (ucast (drop_bit 32 x)) @ be32 (ucast x)"

definition of_be32 :: "u8 list \<Rightarrow> u32" where
  "of_be32 bs = push_bit 24 (ucast (bs ! 0)) OR push_bit 16 (ucast (bs ! 1)) OR push_bit 8 (ucast (bs ! 2)) OR ucast (bs ! 3)"

definition of_be64 :: "u8 list \<Rightarrow> u64" where
  "of_be64 bs = push_bit 32 (ucast (of_be32 (take 4 bs))) OR ucast (of_be32 (drop 4 bs))"

lemma length_be [simp]: "length (be32 w) = 4" "length (le32 w) = 4" "length (be64 x) = 8"
  by (simp_all add: be32_def le32_def be64_def)

lemma of_be32_be32 [simp]: "of_be32 (be32 w) = w"
proof (rule bit_word_eqI)
  fix n assume "n < LENGTH(32)"
  then have n: "n < 32" by simp
  consider "n < 8" | "8 \<le> n" "n < 16" | "16 \<le> n" "n < 24" | "24 \<le> n" by linarith
  then show "bit (of_be32 (be32 w)) n = bit w n" using n
    by cases (auto simp: of_be32_def be32_def bit_or_iff bit_push_bit_iff bit_ucast_iff bit_drop_bit_eq
        dest: bit_imp_le_length)
qed

lemma of_be64_be64 [simp]: "of_be64 (be64 x) = x"
proof (rule bit_word_eqI)
  fix n assume "n < LENGTH(64)"
  then have n: "n < 64" by simp
  show "bit (of_be64 (be64 x)) n = bit x n" using n
    by (cases "n < 32") (auto simp: of_be64_def be64_def bit_or_iff bit_push_bit_iff bit_ucast_iff bit_drop_bit_eq
        dest: bit_imp_le_length)
qed

lemma le32_inj [simp]: "le32 v = le32 w \<longleftrightarrow> v = w"
  by (metis le32_def of_be32_be32 rev_rev_ident)


section \<open>Queues of work requests\<close>

text \<open>
  Head and tail of a queue are 32-bit counters that run freely; the slot is the counter modulo the number of slots, a
  power of two, so that it does not notice when a counter wraps around.
\<close>

lemma and_ring_mask: "(n :: nat) AND (2 ^ k - 1) = n mod 2 ^ k"
  by (simp add: take_bit_eq_mask [symmetric] take_bit_eq_mod mask_eq_exp_minus_1 [symmetric] del: One_nat_def)

lemma ring_index_word:
  assumes "k \<le> 32"
  shows "unat ((t :: u32) + of_nat a) AND (2 ^ k - 1) = (unat t + a) mod 2 ^ k"
proof -
  have d: "(2 :: nat) ^ k dvd 2 ^ 32" using assms by (intro le_imp_power_dvd) simp
  have "unat (t + of_nat a) mod 2 ^ k = (unat t + a) mod 2 ^ 32 mod 2 ^ k"
    by (simp add: unat_word_ariths unat_of_nat mod_simps)
  also have "\<dots> = (unat t + a) mod 2 ^ k" using d by (rule mod_mod_cancel)
  finally show ?thesis unfolding and_ring_mask .
qed

lemma ring_index:
  assumes "cnt = 2 ^ k" "k \<le> 16"
  shows "unat ((t :: u32) + of_nat a) AND (cnt - 1) = (unat t + a) mod cnt"
  using ring_index_word [of k t a] assms by simp

text \<open>The number of requests between tail and head, and the test for room.\<close>

lemma outstanding_add:
  assumes "unat ((h :: u32) - t) + n < 2 ^ 32"
  shows "unat (h + of_nat n - t) = unat (h - t) + n"
proof -
  have "h + of_nat n - t = (h - t) + of_nat n" by simp
  then show ?thesis using assms by (simp only: unat_word_ariths(1) unat_of_nat) simp
qed

end
