(* ===== verification/Shaper.thy ===== *)
theory Shaper
  imports App_Client C_Float Verbs_Data
begin

text \<open>
  The traffic shaper: \<open>mlx4_post_send\<close> of \<open>libmlx4/src/qp.c\<close>, which splits a large work request into chunks,
  posts all but one of them on the hidden split queue pair, and leaves one to the user's. The three
  ways to split (RDMA WRITE with immediate, other two-sided requests, one-sided requests) are groups of
  definitions that follow the code's phases. Configuration as shipped: events are used for completions,
  two-sided chunks are not batched, \<open>CPU_FRIENDLY\<close> and \<open>DRIVER_MEASURE_LAT\<close> off.

  Every call whose result the code does not compute (a post on a queue pair, an event, a poll) takes the next
  number of \<open>sh_script\<close>; a script that has ended is a call that never returns. Actions are logged in order. A
  phase ends by going on, by \<open>goto out\<close>, or by the \<open>return\<close>s that skip the unlock.
\<close>

unbundle bit_operations_syntax

section \<open>Work requests and effects\<close>

definition SPLIT_CHUNK_SIZE :: u32 where [macro_defs]: "SPLIT_CHUNK_SIZE = 1000000"
definition MIN_SPLIT_CHUNK_SIZE :: u32 where [macro_defs]: "MIN_SPLIT_CHUNK_SIZE = 1000000"

datatype opcode = RDMA_WRITE | RDMA_WRITE_WITH_IMM | SEND | SEND_WITH_IMM | RDMA_READ | Atomic

text \<open>\<open>wr_chain\<close> stands for the requests linked behind a request by \<open>next\<close>.\<close>

record send_wr =
  wr_id :: u64
  wr_opcode :: opcode
  wr_sg_list :: "sge list"
  wr_flags :: u32
  wr_raddr :: u64
  wr_rkey :: u32
  wr_chain :: nat

datatype target = User_qp | Split_qp
datatype channel = Send_channel | Channel2
datatype fc_type = INFO | ACK | EXCHANGE

datatype action =
    Posted target send_wr
  | Info_sent u32 u32
  | Completed channel
  | Recv_posted

record sh_state =
  sh_script :: "int list"
  sh_log :: "action list"
  sh_wr :: send_wr
  sh_fc2 :: fc_type
  sh_locked :: bool
  sh_app :: app_state
  sh_sb :: "shared_block option"
  sh_msgs :: "string list"

datatype 'a ctl = Cont 'a | Return int | Out int

type_synonym 'a sh = "sh_state \<Rightarrow> ('a ctl \<times> sh_state) res"

definition sh_return :: "'a \<Rightarrow> 'a sh" where
  "sh_return x s = Inr (Cont x, s)"

definition sh_bind :: "'a sh \<Rightarrow> ('a \<Rightarrow> 'b sh) \<Rightarrow> 'b sh" where
  "sh_bind m f s = res_bind (m s) (\<lambda>(c, s1). case c of
      Cont x \<Rightarrow> f x s1 | Return r \<Rightarrow> Inr (Return r, s1) | Out r \<Rightarrow> Inr (Out r, s1))"

definition log_action :: "action \<Rightarrow> sh_state \<Rightarrow> sh_state" where
  "log_action a s = s\<lparr>sh_log := sh_log s @ [a]\<rparr>"

definition next_result :: "int sh" where
  "next_result s = (case sh_script s of [] \<Rightarrow> Inl Diverges | r # rs \<Rightarrow> Inr (Cont r, s\<lparr>sh_script := rs\<rparr>))"

text \<open>\<open>__mlx4_post_send\<close> on a queue pair; a result other than 0 leads to \<open>out\<close>.\<close>

definition post :: "target \<Rightarrow> send_wr \<Rightarrow> unit sh" where
  "post t w = sh_bind next_result (\<lambda>r s.
     if r \<noteq> 0 then Inr (Out r, s) else Inr (Cont (), log_action (Posted t w) s))"

text \<open>
  Waiting for one completion: get the event, acknowledge it, ask for the next, poll until something is there.
\<close>

fun poll_nonzero :: "int list \<Rightarrow> int list option" where
  "poll_nonzero [] = None"
| "poll_nonzero (r # rs) = (if r = 0 then poll_nonzero rs else Some rs)"

definition await :: "channel \<Rightarrow> unit sh" where
  "await ch =
     sh_bind next_result (\<lambda>r s. if r \<noteq> 0 then Inr (Return r, s) else
     sh_bind next_result (\<lambda>r s. if r \<noteq> 0 then Inr (Return r, s) else
       case poll_nonzero (sh_script s) of None \<Rightarrow> Inl Diverges
       | Some rs \<Rightarrow> Inr (Cont (), log_action (Completed ch) (s\<lparr>sh_script := rs\<rparr>))) s)"

definition first_sge :: "send_wr \<Rightarrow> sge res" where
  "first_sge w = (case wr_sg_list w of [] \<Rightarrow> Inl Null_deref | g # _ \<Rightarrow> Inr g)"

definition set_first_sge :: "(sge \<Rightarrow> sge) \<Rightarrow> send_wr \<Rightarrow> send_wr" where
  "set_first_sge f w = w\<lparr>wr_sg_list := (case wr_sg_list w of [] \<Rightarrow> [] | g # gs \<Rightarrow> f g # gs)\<rparr>"

text \<open>The requests the code builds carry one element, copied from the user's first.\<close>

definition chunk_wr :: "send_wr \<Rightarrow> u64 \<Rightarrow> opcode \<Rightarrow> u32 \<Rightarrow> u64 \<Rightarrow> u64 \<Rightarrow> u32 \<Rightarrow> u32 \<Rightarrow> send_wr" where
  "chunk_wr w i op flags raddr saddr len lkey =
     \<lparr>wr_id = i, wr_opcode = op, wr_sg_list = [\<lparr>sg_addr = saddr, sg_length = len, sg_lkey = lkey\<rparr>],
      wr_flags = flags, wr_raddr = raddr, wr_rkey = wr_rkey w, wr_chain = 0\<rparr>"

section \<open>How many chunks\<close>

definition ceil_helper :: "rat \<Rightarrow> int" where
  "ceil_helper num_chunks =
     (let inum = c_trunc num_chunks in if num_chunks = to_float (of_int inum) then inum else inum + 1)"

text \<open>The argument is a \<open>float\<close>; the two-sided paths divide as \<open>double\<close>s first.\<close>

definition chunks_double :: "u32 \<Rightarrow> u32 \<Rightarrow> u32" where
  "chunks_double len chunk =
     word_of_int (ceil_helper (to_float (to_double (of_nat (unat len) / of_nat (unat chunk)))))"

definition chunks_float :: "u32 \<Rightarrow> u32 \<Rightarrow> u32" where
  "chunks_float len chunk =
     word_of_int (ceil_helper (to_float (to_float (of_nat (unat len)) / to_float (of_nat (unat chunk)))))"

definition split_chunk_size :: "shared_block option \<Rightarrow> opcode \<Rightarrow> u32" where
  "split_chunk_size sb op =
     (case sb of None \<Rightarrow> SPLIT_CHUNK_SIZE
      | Some b \<Rightarrow> if op = RDMA_READ then sb_active_chunk_size_read b else sb_active_chunk_size b)"

definition is_two_sided :: "opcode \<Rightarrow> bool" where
  "is_two_sided op \<longleftrightarrow> op = RDMA_WRITE_WITH_IMM \<or> op = SEND \<or> op = SEND_WITH_IMM"

definition needs_split :: "u32 \<Rightarrow> opcode \<Rightarrow> u32 \<Rightarrow> bool" where
  "needs_split len op chunk \<longleftrightarrow> chunk < len \<or> is_two_sided op \<and> MIN_SPLIT_CHUNK_SIZE \<le> len"

section \<open>RDMA WRITE with immediate\<close>

text \<open>The cursor \<open>(remote address, local address)\<close> before the chunk of index \<open>i\<close>.\<close>

definition wimm_advance :: "send_wr \<Rightarrow> sge \<Rightarrow> u32 \<Rightarrow> u32 \<Rightarrow> nat \<Rightarrow> u64 \<times> u64 \<Rightarrow> u64 \<times> u64" where
  "wimm_advance w g first chunk i cur =
     (if i = 0 then (wr_raddr w, sg_addr g)
      else if i = 1 then (fst cur + ucast first, snd cur + ucast first)
      else (fst cur + ucast chunk, snd cur + ucast chunk))"

definition wimm_length :: "u32 \<Rightarrow> u32 \<Rightarrow> nat \<Rightarrow> u32" where
  "wimm_length first chunk i = (if i = 0 then first else chunk)"

text \<open>The first \<open>N - 2\<close> chunks, as plain WRITEs on the split queue pair, one completion each.\<close>

fun wimm_writes :: "send_wr \<Rightarrow> sge \<Rightarrow> u32 \<Rightarrow> u32 \<Rightarrow> nat \<Rightarrow> nat \<Rightarrow> u64 \<times> u64 \<Rightarrow> (u64 \<times> u64) sh" where
  "wimm_writes w g first chunk i 0 cur = sh_return cur"
| "wimm_writes w g first chunk i (Suc k) cur =
     (let cur1 = wimm_advance w g first chunk i cur in
      sh_bind (post Split_qp (chunk_wr w (of_nat (i + 1)) RDMA_WRITE (wr_flags w OR IBV_SEND_SIGNALED)
          (fst cur1) (snd cur1) (wimm_length first chunk i) (sg_lkey g))) (\<lambda>_.
      sh_bind (await Send_channel) (\<lambda>_. wimm_writes w g first chunk (Suc i) k cur1)))"

text \<open>
  The chunk before the last, with immediate on the split queue pair; an empty request when there is only one
  chunk. The result is the index and cursor for the last chunk.
\<close>

definition wimm_penultimate :: "send_wr \<Rightarrow> sge \<Rightarrow> u32 \<Rightarrow> u32 \<Rightarrow> nat \<Rightarrow> nat \<Rightarrow> u64 \<times> u64 \<Rightarrow> (nat \<times> u64 \<times> u64) sh" where
  "wimm_penultimate w g first chunk n i cur =
     (let cur1 = wimm_advance w g first chunk i cur;
          full = chunk_wr w (of_nat (i + 1)) RDMA_WRITE_WITH_IMM (wr_flags w OR IBV_SEND_SIGNALED)
            (fst cur1) (snd cur1) (wimm_length first chunk i) (sg_lkey g)
      in sh_bind (post Split_qp (if n = 1 then full\<lparr>wr_sg_list := []\<rparr> else full)) (\<lambda>_.
         sh_bind (await Send_channel) (\<lambda>_. sh_return (if n = 1 then i else i + 1, cur1))))"

text \<open>
  The last chunk, through the user's own request: it is changed, posted on the user's queue pair, and restored.
\<close>

definition restore_wr :: "send_wr \<Rightarrow> send_wr \<Rightarrow> send_wr" where
  "restore_wr w0 w = set_first_sge (\<lambda>g. case wr_sg_list w0 of [] \<Rightarrow> g
       | g0 # _ \<Rightarrow> g\<lparr>sg_addr := sg_addr g0, sg_length := sg_length g0\<rparr>)
     (w\<lparr>wr_raddr := wr_raddr w0, wr_flags := wr_flags w0\<rparr>)"

definition upd_wr :: "(send_wr \<Rightarrow> send_wr) \<Rightarrow> unit sh" where
  "upd_wr f s = Inr (Cont (), s\<lparr>sh_wr := f (sh_wr s)\<rparr>)"

definition post_user_wr :: "target \<Rightarrow> unit sh" where
  "post_user_wr t s = post t (sh_wr s) s"

definition unlock :: "unit sh" where
  "unlock s = Inr (Cont (), s\<lparr>sh_locked := False\<rparr>)"

definition wimm_last :: "send_wr \<Rightarrow> sge \<Rightarrow> u32 \<Rightarrow> u32 \<Rightarrow> nat \<Rightarrow> u64 \<times> u64 \<Rightarrow> int sh" where
  "wimm_last w g first chunk i cur =
     (let (raddr, saddr) = wimm_advance w g first chunk i cur in
      sh_bind (upd_wr (\<lambda>u. set_first_sge (\<lambda>g. g\<lparr>sg_addr := saddr, sg_length := wimm_length first chunk i\<rparr>)
                             (u\<lparr>wr_raddr := raddr\<rparr>))) (\<lambda>_.
      sh_bind (post_user_wr User_qp) (\<lambda>_.
      sh_bind (upd_wr (restore_wr w)) (\<lambda>_.
      sh_bind unlock (\<lambda>_. sh_return 0)))))"

definition split_wimm :: "send_wr \<Rightarrow> sge \<Rightarrow> u32 \<Rightarrow> int sh" where
  "split_wimm w g chunk =
     (let n = unat (chunks_double (sg_length g) chunk);
          first = (if sg_length g mod chunk = 0 then chunk else sg_length g mod chunk)
      in if n = 0 then (\<lambda>s. Inr (Return (-1), s))
      else sh_bind (wimm_writes w g first chunk 0 (n - 2) (wr_raddr w, sg_addr g)) (\<lambda>cur.
           sh_bind (wimm_penultimate w g first chunk n (n - 2) cur) (\<lambda>(i, cur).
           wimm_last w g first chunk i cur)))"

section \<open>Other two-sided requests\<close>

text \<open>Phase 1: the first chunk (or the whole message) goes out through the user's request.\<close>

definition two_sided_first :: "sge \<Rightarrow> u32 \<Rightarrow> unit sh" where
  "two_sided_first g chunk =
     sh_bind (upd_wr (\<lambda>u. if chunk < sg_length g then set_first_sge (\<lambda>g. g\<lparr>sg_length := chunk\<rparr>) u else u)) (\<lambda>_.
       post_user_wr User_qp)"

text \<open>
  Phase 2: the receiver is told the number of chunks that follow and their size; a failed post is only printed.
\<close>

definition two_sided_info :: "u32 \<Rightarrow> u32 \<Rightarrow> unit sh" where
  "two_sided_info n chunk =
     sh_bind next_result (\<lambda>r.
     sh_bind (\<lambda>s. Inr (Cont (), if r = 0 then log_action (Info_sent n chunk) s else s)) (\<lambda>_. await Send_channel))"

text \<open>Phase 3: when chunks follow, the receiver's acknowledgement.\<close>

definition two_sided_ack :: "u32 \<Rightarrow> unit sh" where
  "two_sided_ack n =
     (if n = 0 then sh_return ()
      else sh_bind (await Channel2) (\<lambda>_ s.
        if sh_fc2 s = ACK then Inr (Cont (), s) else Inr (Return (-1), s)))"

text \<open>Phase 4: the other chunks, through the user's request on the split queue pair, one completion each.\<close>

fun two_sided_rest :: "u32 \<Rightarrow> nat \<Rightarrow> u32 \<Rightarrow> unit sh" where
  "two_sided_rest chunk 0 current_length = sh_return ()"
| "two_sided_rest chunk (Suc k) current_length =
     (let cur = current_length - chunk in
      sh_bind (upd_wr (\<lambda>u. set_first_sge (\<lambda>g. g\<lparr>sg_addr := sg_addr g + ucast chunk,
                                 sg_length := (if k = 0 then cur else sg_length g)\<rparr>)
                (u\<lparr>wr_raddr := wr_raddr u + ucast chunk, wr_flags := wr_flags u OR IBV_SEND_SIGNALED\<rparr>))) (\<lambda>_.
      sh_bind (post_user_wr Split_qp) (\<lambda>_.
      sh_bind (await Send_channel) (\<lambda>_. two_sided_rest chunk k cur))))"

text \<open>Phase 6: a receive request for the next acknowledgement; a failure is only printed.\<close>

definition two_sided_finish :: "send_wr \<Rightarrow> int sh" where
  "two_sided_finish w =
     sh_bind next_result (\<lambda>r.
     sh_bind (\<lambda>s. Inr (Cont (), if r = 0 then log_action Recv_posted s else s)) (\<lambda>_.
     sh_bind (upd_wr (restore_wr w)) (\<lambda>_.
     sh_bind unlock (\<lambda>_. sh_return 0))))"

definition split_two_sided :: "send_wr \<Rightarrow> sge \<Rightarrow> u32 \<Rightarrow> int sh" where
  "split_two_sided w g chunk =
     (let n = chunks_double (sg_length g) chunk - 1 in
      sh_bind (two_sided_first g chunk) (\<lambda>_.
      sh_bind (two_sided_info n chunk) (\<lambda>_.
      sh_bind (two_sided_ack n) (\<lambda>_.
      sh_bind (upd_wr (\<lambda>u. u\<lparr>wr_flags := wr_flags u AND NOT IBV_SEND_SIGNALED\<rparr>)) (\<lambda>_.
      sh_bind (two_sided_rest chunk (unat n) (sg_length g)) (\<lambda>_.
      two_sided_finish w))))))"

section \<open>One-sided requests\<close>

text \<open>
  All chunks but the last, on the split queue pair; only the last of them asks for a completion. \<open>swr\<close> is the
  request built last, \<open>None\<close> before the first.
\<close>

definition one_sided_chunk :: "send_wr \<Rightarrow> sge \<Rightarrow> u32 \<Rightarrow> nat \<Rightarrow> nat \<Rightarrow> send_wr" where
  "one_sided_chunk w g chunk num i =
     chunk_wr w (of_nat (i + 1)) (wr_opcode w)
       (if num - 1 \<le> i then wr_flags w OR IBV_SEND_SIGNALED else wr_flags w AND NOT IBV_SEND_SIGNALED)
       (wr_raddr w + ucast (chunk * of_nat i)) (sg_addr g + ucast (chunk * of_nat i)) chunk (sg_lkey g)"

fun one_sided_loop :: "send_wr \<Rightarrow> sge \<Rightarrow> u32 \<Rightarrow> nat \<Rightarrow> nat \<Rightarrow> nat \<Rightarrow> send_wr option \<Rightarrow> send_wr option sh" where
  "one_sided_loop w g chunk num i 0 swr = sh_return swr"
| "one_sided_loop w g chunk num i (Suc k) swr =
     (let c = one_sided_chunk w g chunk num i in
      sh_bind (post Split_qp c) (\<lambda>_.
      sh_bind (if wr_flags c = wr_flags w OR IBV_SEND_SIGNALED then await Send_channel else sh_return ()) (\<lambda>_.
      one_sided_loop w g chunk num (Suc i) k (Some c))))"

definition one_sided_last :: "send_wr \<Rightarrow> sge \<Rightarrow> u32 \<Rightarrow> u32 \<Rightarrow> send_wr option \<Rightarrow> int sh" where
  "one_sided_last w g chunk len swr =
     (case swr of None \<Rightarrow> (\<lambda>s. Inl Uninit_read)
      | Some c \<Rightarrow> (case wr_sg_list c of [] \<Rightarrow> (\<lambda>s. Inl Null_deref)
        | gc # _ \<Rightarrow>
          sh_bind (post User_qp ((chunk_wr w (wr_id w) (wr_opcode w) (wr_flags w) (wr_raddr c + ucast chunk)
              (sg_addr gc + ucast chunk) len (sg_lkey g))\<lparr>wr_chain := wr_chain w\<rparr>)) (\<lambda>_.
          sh_bind unlock (\<lambda>_. sh_return 0))))"

definition split_one_sided :: "send_wr \<Rightarrow> sge \<Rightarrow> u32 \<Rightarrow> int sh" where
  "split_one_sided w g chunk =
     (let num = chunks_float (sg_length g) chunk - 1;
          k = (if sint num < 0 then 0 else unat num)
      in sh_bind (one_sided_loop w g chunk k 0 k None) (\<lambda>swr.
         one_sided_last w g chunk (sg_length g - chunk * num) swr))"

section \<open>The entry point\<close>

text \<open>The part behind the lock, for the user's request with its first element.\<close>

definition whole_request :: "int sh" where
  "whole_request = sh_bind (post_user_wr User_qp) (\<lambda>_. sh_bind unlock (\<lambda>_. sh_return 0))"

definition post_locked :: "int sh" where
  "post_locked s =
     (let w = sh_wr s in
      res_bind (first_sge w) (\<lambda>g.
      let chunk = split_chunk_size (sh_sb s) (wr_opcode w) in
      if needs_split (sg_length g) (wr_opcode w) chunk then
        if chunk = 0 then Inl Bad_conversion
        else if wr_opcode w = RDMA_WRITE_WITH_IMM then split_wimm w g chunk s
        else if is_two_sided (wr_opcode w) then split_two_sided w g chunk s
        else if wr_opcode w = RDMA_WRITE \<or> wr_opcode w = RDMA_READ then split_one_sided w g chunk s
        else whole_request s
      else whole_request s))"

text \<open>
  The whole function: the start block, the lock, the split; the return value is that of \<open>out\<close>, of an
  early \<open>return\<close>, or of the last post.
\<close>

definition mlx4_post_send :: "bool \<Rightarrow> int \<Rightarrow> sh_state \<Rightarrow> (int \<times> sh_state) res" where
  "mlx4_post_send ok qp_isSmall s =
     res_bind
       (case sh_sb s of
          None \<Rightarrow> Inr (s\<lparr>sh_app := (sh_app s)\<lparr>ap_start_flag := False\<rparr>\<rparr>)
        | Some b \<Rightarrow>
            res_bind (post_send_start ok qp_isSmall (wr_opcode (sh_wr s) = RDMA_READ) (sh_app s) b) (\<lambda>(ms, a, b').
              Inr (s\<lparr>sh_app := a, sh_sb := Some b', sh_msgs := sh_msgs s @ ms\<rparr>)))
       (\<lambda>s1. res_bind (post_locked (s1\<lparr>sh_locked := True\<rparr>)) (\<lambda>(c, s2).
          case c of Cont r \<Rightarrow> Inr (r, s2)
          | Return r \<Rightarrow> Inr (r, s2)
          | Out r \<Rightarrow> Inr (r, s2\<lparr>sh_locked := False\<rparr>)))"

end
