(* ===== verification/Shaper_Proofs.thy ===== *)
theory Shaper_Proofs
  imports Shaper
begin

text \<open>
  What the shaper puts on the wire. The first part says when the computed number of chunks fits the
  message, given that the division is done in single precision; the second follows the log of posted
  requests through the three ways to split; the third states the properties.
\<close>

section \<open>The number of chunks\<close>

lemma to_float_nat: "n \<le> 2 ^ 24 \<Longrightarrow> to_float (of_nat n) = of_nat n"
  by (rule fl_of_nat) simp_all

lemma ceil_helper_eq:
  assumes "0 \<le> x" "x \<le> 2 ^ 24"
  shows "ceil_helper x = \<lceil>x\<rceil>"
proof -
  have "0 \<le> \<lfloor>x\<rfloor>" "\<lfloor>x\<rfloor> \<le> 2 ^ 24" using assms by (simp_all add: floor_le_iff)
  then have f: "to_float (of_int \<lfloor>x\<rfloor>) = of_int \<lfloor>x\<rfloor>" by (intro fl_of_int) simp_all
  show ?thesis
  proof (cases "x = of_int \<lfloor>x\<rfloor>")
    case True
    then have "\<lceil>x\<rceil> = \<lfloor>x\<rfloor>" by (metis ceiling_of_int)
    then show ?thesis using True f assms(1) by (simp add: ceil_helper_def c_trunc_def)
  next
    case False
    then have "\<lceil>x\<rceil> = \<lfloor>x\<rfloor> + 1" by (simp add: ceiling_altdef)
    then show ?thesis using False f assms(1) by (simp add: ceil_helper_def c_trunc_def)
  qed
qed

text \<open>
  Both computations have the form \<open>\<lceil>x\<rceil>\<close> for a rounded quotient \<open>x\<close>; what matters is how \<open>x\<close> compares with
  the integers next to the exact quotient.
\<close>

lemma count_fits:
  fixes x :: rat
  assumes "n = \<lceil>x\<rceil>" "\<And>m. \<lbrakk>L < m * c; of_nat m < x\<rbrakk> \<Longrightarrow> False" "0 < x"
  shows "nat (n - 1) * c \<le> L"
proof (rule ccontr)
  assume "\<not> nat (n - 1) * c \<le> L"
  moreover have "of_nat (nat (n - 1)) < x"
  proof -
    have "of_int (n - 1) < x" using assms(1) by linarith
    moreover have "1 \<le> n" using assms(1,3) by (simp add: one_le_ceiling)
    ultimately show ?thesis by simp
  qed
  ultimately show False using assms(2) [of "nat (n - 1)"] by simp
qed

definition quotient_float :: "nat \<Rightarrow> nat \<Rightarrow> rat" where
  "quotient_float L c = to_float (to_float (of_nat L) / to_float (of_nat c))"

definition quotient_double :: "nat \<Rightarrow> nat \<Rightarrow> rat" where
  "quotient_double L c = to_float (to_double (of_nat L / of_nat c))"

lemma quotient_float_le:
  assumes "0 < c" "c \<le> 2 ^ 24" "2 ^ a dvd c" "L \<le> 2 ^ (24 + a)"
  shows "0 \<le> quotient_float L c" "quotient_float L c \<le> 2 ^ 24"
proof -
  have c: "to_float (of_nat c) = of_nat c" using assms(2) by (rule to_float_nat)
  show "0 \<le> quotient_float L c"
    unfolding quotient_float_def c by (intro fl_nonneg divide_nonneg_nonneg) simp_all
  have e: "to_float (of_nat (2 ^ (24 + a))) = of_nat (2 ^ (24 + a))"
    using fl_exact [of "of_nat (2 ^ (24 + a))" "2 ^ 24" "int a" 24] by (simp add: power_add)
  have "to_float (of_nat L) \<le> to_float (of_nat (2 ^ (24 + a)))"
    using assms(4) by (intro fl_mono_nat) simp_all
  then have L: "to_float (of_nat L) \<le> 2 ^ (24 + a)" unfolding e by simp
  have "2 ^ a \<le> c" using assms(1,3) by (rule dvd_imp_le [rotated])
  then have ca: "(2 :: rat) ^ a \<le> of_nat c" by (metis of_nat_le_iff of_nat_numeral of_nat_power)
  have "to_float (of_nat L) / of_nat c \<le> 2 ^ (24 + a) / 2 ^ a"
    using L ca fl_nonneg [of "of_nat L" 24] by (intro frac_le) simp_all
  also have "(2 :: rat) ^ (24 + a) / 2 ^ a = 2 ^ 24" by (simp add: power_add)
  finally have "to_float (of_nat L) / of_nat c \<le> of_nat (2 ^ 24)" by simp
  then have "to_float (to_float (of_nat L) / of_nat c) \<le> to_float (of_nat (2 ^ 24))"
    using fl_nonneg [of "of_nat L" 24] by (intro fl_mono) simp_all
  then show "quotient_float L c \<le> 2 ^ 24"
    unfolding quotient_float_def c using to_float_nat [of "2 ^ 24"] by simp
qed

lemma quotient_float_below:
  assumes "0 < c" "c \<le> 2 ^ 24" "2 ^ a dvd c" "L \<le> 2 ^ (24 + a)" "L < m * c" "m \<le> 2 ^ 24"
  shows "quotient_float L c \<le> of_nat m"
proof -
  have c: "to_float (of_nat c) = of_nat c" using assms(2) by (rule to_float_nat)
  have "to_float (of_nat L) \<le> of_nat (m * c)"
  proof (cases "m * c \<le> 2 ^ (24 + a)")
    case True
    obtain d where d: "c = 2 ^ a * d" using assms(3) by (rule dvdE)
    have "m * d * 2 ^ a \<le> 2 ^ 24 * 2 ^ a" using True by (simp add: d power_add mult.commute mult.left_commute)
    then have "m * d \<le> 2 ^ 24" by (simp only: mult_le_cancel2) simp
    then have "int (m * d) \<le> 2 ^ 24" by (metis of_nat_le_iff of_nat_numeral of_nat_power)
    moreover have "(of_nat (m * c) :: rat) = of_int (int (m * d)) * 2 powi int a" by (simp add: d)
    ultimately have "to_float (of_nat (m * c)) = of_nat (m * c)" by (intro fl_exact [where m = "int (m * d)" and k = "int a"]) simp_all
    moreover have "to_float (of_nat L) \<le> to_float (of_nat (m * c))"
      using assms(5) by (intro fl_mono_nat) simp_all
    ultimately show ?thesis by simp
  next
    case False
    have e: "to_float (of_nat (2 ^ (24 + a))) = of_nat (2 ^ (24 + a))"
      using fl_exact [of "of_nat (2 ^ (24 + a))" "2 ^ 24" "int a" 24] by (simp add: power_add)
    have "to_float (of_nat L) \<le> to_float (of_nat (2 ^ (24 + a)))"
      using assms(4) by (intro fl_mono_nat) simp_all
    also have "\<dots> \<le> of_nat (m * c)" unfolding e using False by (simp only: of_nat_le_iff)
    finally show ?thesis .
  qed
  then have "to_float (of_nat L) / of_nat c \<le> of_nat m"
    using assms(1) by (simp add: divide_le_eq)
  then have "to_float (to_float (of_nat L) / of_nat c) \<le> to_float (of_nat m)"
    using fl_nonneg [of "of_nat L" 24] by (intro fl_mono) simp_all
  then show ?thesis unfolding quotient_float_def c using to_float_nat [OF assms(6)] by simp
qed

lemma quotient_float_above_1:
  assumes "0 < c" "c \<le> 2 ^ 23" "c < L"
  shows "1 < quotient_float L c"
proof -
  have c: "to_float (of_nat c) = of_nat c" using assms(2) by (intro to_float_nat) simp
  have "to_float (of_nat (c + 1)) = of_nat (c + 1)" using assms(2) by (intro to_float_nat) simp
  moreover have "to_float (of_nat (c + 1)) \<le> to_float (of_nat L)" using assms(3) by (intro fl_mono_nat) simp_all
  ultimately have L: "of_nat (c + 1) \<le> to_float (of_nat L)" by simp
  have e: "to_float (1 + 1 / 2 ^ 23) = 1 + 1 / 2 ^ 23"
    by (rule fl_exact [where m = "2 ^ 23 + 1" and k = "-23"]) (simp_all add: power_int_minus)
  have "(of_nat c :: rat) \<le> of_nat (2 ^ 23)" using assms(2) by (simp only: of_nat_le_iff)
  then have "1 / 2 ^ 23 \<le> 1 / (of_nat c :: rat)" using assms(1) by (intro divide_left_mono) simp_all
  moreover have "(of_nat (c + 1) :: rat) / of_nat c \<le> to_float (of_nat L) / of_nat c"
    using L by (intro divide_right_mono) simp_all
  moreover have "(of_nat (c + 1) :: rat) / of_nat c = 1 + 1 / of_nat c"
    using assms(1) by (simp add: add_divide_distrib add.commute)
  ultimately have "1 + 1 / 2 ^ 23 \<le> to_float (of_nat L) / of_nat c" by linarith
  then have "to_float (1 + 1 / 2 ^ 23) \<le> quotient_float L c"
    unfolding quotient_float_def c by (intro fl_mono) simp_all
  then show ?thesis unfolding e by simp
qed

lemma quotient_double_above_1:
  assumes "0 < c" "c \<le> 2 ^ 23" "c < L"
  shows "1 < quotient_double L c"
proof -
  have cp: "(0::rat) < of_nat c" using assms(1) by simp
  have "(of_nat c :: rat) \<le> of_nat (2 ^ 23)" using assms(2) by (simp only: of_nat_le_iff)
  then have "1 / 2 ^ 23 \<le> 1 / (of_nat c :: rat)" using cp by (intro divide_left_mono) simp_all
  moreover have "(of_nat (c + 1) :: rat) \<le> of_nat L" using assms(3) by (simp only: of_nat_le_iff)
  then have "(of_nat (c + 1) :: rat) / of_nat c \<le> of_nat L / of_nat c"
    using cp by (rule divide_right_mono [OF _ less_imp_le])
  moreover have "(of_nat (c + 1) :: rat) / of_nat c = 1 + 1 / of_nat c"
    using assms(1) by (simp add: add_divide_distrib add.commute)
  ultimately have "1 + 1 / 2 ^ 23 \<le> (of_nat L / of_nat c :: rat)" by linarith
  then have "to_double (1 + 1 / 2 ^ 23) \<le> to_double (of_nat L / of_nat c)" by (intro fl_mono) simp_all
  moreover have "to_double (1 + 1 / 2 ^ 23) = 1 + 1 / 2 ^ 23"
    by (rule fl_exact [where m = "2 ^ 23 + 1" and k = "-23"]) (simp_all add: power_int_minus)
  ultimately have "to_float (1 + 1 / 2 ^ 23) \<le> quotient_double L c"
    unfolding quotient_double_def by (intro fl_mono) simp_all
  moreover have "to_float (1 + 1 / 2 ^ 23) = 1 + 1 / 2 ^ 23"
    by (rule fl_exact [where m = "2 ^ 23 + 1" and k = "-23"]) (simp_all add: power_int_minus)
  ultimately show ?thesis by simp
qed

lemma quotient_double_le:
  assumes "2 ^ 8 \<le> c" "L < 2 ^ 32"
  shows "0 \<le> quotient_double L c" "quotient_double L c \<le> 2 ^ 24"
proof -
  have c: "(2 :: rat) ^ 8 \<le> of_nat c" using assms(1) by (metis of_nat_le_iff of_nat_numeral of_nat_power)
  show "0 \<le> quotient_double L c" unfolding quotient_double_def by (intro fl_nonneg) simp_all
  have "(of_nat L :: rat) \<le> 2 ^ 32" using assms(2) by (metis less_imp_le of_nat_le_iff of_nat_numeral of_nat_power)
  then have "(of_nat L :: rat) / of_nat c \<le> 2 ^ 32 / 2 ^ 8" using c by (intro frac_le) simp_all
  then have "of_nat L / of_nat c \<le> (of_nat (2 ^ 24) :: rat)" by simp
  then have "to_double (of_nat L / of_nat c) \<le> to_double (of_nat (2 ^ 24))" by (intro fl_mono) simp_all
  also have "to_double (of_nat (2 ^ 24)) = of_nat (2 ^ 24)" by (rule fl_of_nat) simp_all
  finally have "to_float (to_double (of_nat L / of_nat c)) \<le> to_float (of_nat (2 ^ 24))"
    by (intro fl_mono fl_nonneg) simp_all
  then show "quotient_double L c \<le> 2 ^ 24"
    unfolding quotient_double_def using to_float_nat [of "2 ^ 24"] by simp
qed

lemma quotient_double_below:
  assumes "0 < c" "L \<le> m * c" "m \<le> 2 ^ 24"
  shows "quotient_double L c \<le> of_nat m"
proof -
  have "(of_nat L :: rat) \<le> of_nat (m * c)" using assms(2) by (simp only: of_nat_le_iff)
  then have "(of_nat L :: rat) / of_nat c \<le> of_nat m" using assms(1) by (simp add: divide_le_eq)
  then have "to_double (of_nat L / of_nat c) \<le> to_double (of_nat m)" by (intro fl_mono) simp_all
  also have "to_double (of_nat m) = of_nat m" using assms(3) by (intro fl_of_nat) simp_all
  finally have "to_float (to_double (of_nat L / of_nat c)) \<le> to_float (of_nat m)"
    by (intro fl_mono fl_nonneg) simp_all
  then show ?thesis unfolding quotient_double_def using to_float_nat [OF assms(3)] by simp
qed

text \<open>Below \<open>2^24\<close> bytes the quotient never falls on the wrong side of an integer.\<close>

lemma quotient_double_above:
  assumes "0 < c" "m * c < L" "L < 2 ^ 24"
  shows "of_nat m < quotient_double L c"
proof -
  define y where "y = (of_nat L / of_nat c :: rat)"
  define z where "z = (of_nat (m * c + 1) / of_nat c :: rat)"
  have cp: "(0::rat) < of_nat c" using assms(1) by simp
  have z: "z = of_nat m + 1 / of_nat c" using assms(1) by (simp add: z_def add_divide_distrib)
  have zp: "0 < z" unfolding z using cp by (simp add: add_nonneg_pos)
  have "(of_nat (m * c + 1) :: rat) \<le> of_nat L" using assms(2) by (simp only: of_nat_le_iff)
  then have "z \<le> y" unfolding z_def y_def using cp by (rule divide_right_mono [OF _ less_imp_le])
  have "of_nat (m * c + 1) \<le> (of_nat (2 ^ 24 - 1) :: rat)" using assms(2,3) by (simp only: of_nat_le_iff)
  then have zc: "z * of_nat c \<le> 2 ^ 24 - 1" using assms(1) by (simp add: z_def)
  define d where "d = to_double z"
  have d1: "z - z / 2 ^ 53 \<le> d" "d \<le> z + z / 2 ^ 53"
    using fl_rel_err [OF zp, of 53] by (simp_all only: d_def abs_le_iff) linarith+
  have dp: "0 < d" using fl_pos [OF zp] by (simp add: d_def)
  have f: "d - d / 2 ^ 24 \<le> to_float d" using fl_rel_err [OF dp, of 24] by linarith
  have "z - z / 2 ^ 53 - (z + z / 2 ^ 53) / 2 ^ 24 \<le> d - d / 2 ^ 24"
    using d1 by (intro diff_mono divide_right_mono) simp_all
  moreover have "of_nat m < z - z / 2 ^ 53 - (z + z / 2 ^ 53) / 2 ^ 24"
  proof -
    have "z * of_nat c * (1 / 2 ^ 53 + (1 + 1 / 2 ^ 53) / 2 ^ 24) \<le> (2 ^ 24 - 1) * (1 / 2 ^ 53 + (1 + 1 / 2 ^ 53) / 2 ^ 24)"
      using zc by (intro mult_right_mono) simp_all
    also have "\<dots> < (1::rat)" by simp
    finally have "z * (1 / 2 ^ 53 + (1 + 1 / 2 ^ 53) / 2 ^ 24) < 1 / of_nat c"
      using cp by (simp add: less_divide_eq mult.commute mult.left_commute)
    then show ?thesis unfolding z by (simp add: algebra_simps add_divide_distrib)
  qed
  ultimately have "of_nat m < to_float d" using f by linarith
  also have "to_float d \<le> quotient_double L c"
    unfolding quotient_double_def d_def y_def [symmetric]
    using \<open>z \<le> y\<close> zp by (intro fl_mono fl_nonneg) simp_all
  finally show ?thesis .
qed


section \<open>Phases\<close>

text \<open>A phase that goes on is a phase whose steps all go on.\<close>

named_theorems phase_ok \<open>a step of the shaper goes on\<close>

lemma sh_bind_ok [phase_ok]:
  "sh_bind m f s = Inr (Cont y, s') \<longleftrightarrow> (\<exists>x s1. m s = Inr (Cont x, s1) \<and> f x s1 = Inr (Cont y, s'))"
  by (cases "m s") (auto simp: sh_bind_def split: ctl.splits prod.splits)

lemma sh_return_ok [phase_ok]: "sh_return x s = Inr (Cont y, s') \<longleftrightarrow> y = x \<and> s' = s"
  by (auto simp: sh_return_def)

lemma next_result_ok [phase_ok]:
  "next_result s = Inr (Cont r, s') \<longleftrightarrow> (\<exists>rs. sh_script s = r # rs \<and> s' = s\<lparr>sh_script := rs\<rparr>)"
  by (auto simp: next_result_def split: list.splits)

lemma post_ok [phase_ok]:
  "post t w s = Inr (Cont u, s') \<longleftrightarrow>
    (\<exists>rs. sh_script s = 0 # rs \<and> s' = log_action (Posted t w) (s\<lparr>sh_script := rs\<rparr>))"
  by (auto simp: post_def phase_ok)

lemma await_ok [phase_ok]:
  "await ch s = Inr (Cont u, s') \<longleftrightarrow>
    (\<exists>rs rs'. sh_script s = 0 # 0 # rs \<and> poll_nonzero rs = Some rs' \<and>
       s' = log_action (Completed ch) (s\<lparr>sh_script := rs'\<rparr>))"
  by (auto simp: await_def sh_bind_def next_result_def split: list.splits if_splits option.splits)

lemma upd_wr_ok [phase_ok]: "upd_wr f s = Inr (Cont u, s') \<longleftrightarrow> s' = s\<lparr>sh_wr := f (sh_wr s)\<rparr>"
  by (auto simp: upd_wr_def)

lemma unlock_ok [phase_ok]: "unlock s = Inr (Cont u, s') \<longleftrightarrow> s' = s\<lparr>sh_locked := False\<rparr>"
  by (auto simp: unlock_def)

lemma post_user_wr_ok [phase_ok]:
  "post_user_wr t s = Inr (Cont u, s') \<longleftrightarrow> post t (sh_wr s) s = Inr (Cont u, s')"
  by (simp add: post_user_wr_def)

lemma log_action_simps [simp]:
  "sh_log (log_action a s) = sh_log s @ [a]" "sh_wr (log_action a s) = sh_wr s"
  "sh_script (log_action a s) = sh_script s" "sh_fc2 (log_action a s) = sh_fc2 s"
  "sh_locked (log_action a s) = sh_locked s" "sh_sb (log_action a s) = sh_sb s"
  by (simp_all add: log_action_def)

text \<open>The requests a log posts, in order, and the segments of memory they move.\<close>

fun posts :: "action list \<Rightarrow> (target \<times> send_wr) list" where
  "posts [] = []"
| "posts (Posted t w # l) = (t, w) # posts l"
| "posts (_ # l) = posts l"

lemma posts_append [simp]: "posts (l @ m) = posts l @ posts m"
  by (induction l rule: posts.induct) simp_all

type_synonym segment = "u64 \<times> u64 \<times> u32"

definition segments :: "(target \<times> send_wr) list \<Rightarrow> segment list" where
  "segments ps = concat (map (\<lambda>(t, w). map (\<lambda>g. (wr_raddr w, sg_addr g, sg_length g)) (take 1 (wr_sg_list w))) ps)"

lemma segments_simps [simp]:
  "segments [] = []" "segments (ps @ qs) = segments ps @ segments qs"
  "segments ((t, w) # ps) = map (\<lambda>g. (wr_raddr w, sg_addr g, sg_length g)) (take 1 (wr_sg_list w)) @ segments ps"
  by (simp_all add: segments_def)

text \<open>Segments that follow each other at both ends, and the bytes they cover.\<close>

fun contiguous :: "u64 \<Rightarrow> u64 \<Rightarrow> segment list \<Rightarrow> bool" where
  "contiguous r a [] = True"
| "contiguous r a ((r', a', l) # xs) = (r' = r \<and> a' = a \<and> contiguous (r + ucast l) (a + ucast l) xs)"

definition bytes_of :: "segment list \<Rightarrow> nat" where
  "bytes_of xs = (\<Sum>(r, a, l)\<leftarrow>xs. unat l)"

lemma bytes_of_simps [simp]:
  "bytes_of [] = 0" "bytes_of ((r, a, l) # xs) = unat l + bytes_of xs" "bytes_of (xs @ ys) = bytes_of xs + bytes_of ys"
  by (simp_all add: bytes_of_def)

lemma contiguous_append:
  "contiguous r a (xs @ ys) \<longleftrightarrow>
    contiguous r a xs \<and> contiguous (r + of_nat (bytes_of xs)) (a + of_nat (bytes_of xs)) ys"
  by (induction r a xs rule: contiguous.induct) (auto simp: add.assoc)

text \<open>Every early end carries a result other than 0.\<close>

definition errors_nonzero :: "'a sh \<Rightarrow> bool" where
  "errors_nonzero m \<longleftrightarrow> (\<forall>s c s'. m s = Inr (c, s') \<longrightarrow> c \<noteq> Return 0 \<and> c \<noteq> Out 0)"

lemma errors_nonzero_bind [intro]:
  "\<lbrakk>errors_nonzero m; \<And>x. errors_nonzero (f x)\<rbrakk> \<Longrightarrow> errors_nonzero (sh_bind m f)"
proof (unfold errors_nonzero_def, intro allI impI)
  fix s c s'
  assume m: "\<forall>s c s'. m s = Inr (c, s') \<longrightarrow> c \<noteq> Return 0 \<and> c \<noteq> Out 0"
    and f: "\<And>x. \<forall>s c s'. f x s = Inr (c, s') \<longrightarrow> c \<noteq> Return 0 \<and> c \<noteq> Out 0"
    and "sh_bind m f s = Inr (c, s')"
  then obtain c1 s1 where c1: "m s = Inr (c1, s1)" by (cases "m s") (auto simp: sh_bind_def)
  show "c \<noteq> Return 0 \<and> c \<noteq> Out 0"
  proof (cases c1)
    case (Cont x)
    then have "f x s1 = Inr (c, s')" using \<open>sh_bind m f s = Inr (c, s')\<close> c1 by (simp add: sh_bind_def)
    then show ?thesis using f by blast
  next
    case (Return r)
    then have "c = Return r" using \<open>sh_bind m f s = Inr (c, s')\<close> c1 by (simp add: sh_bind_def)
    then show ?thesis using m c1 Return by blast
  next
    case (Out r)
    then have "c = Out r" using \<open>sh_bind m f s = Inr (c, s')\<close> c1 by (simp add: sh_bind_def)
    then show ?thesis using m c1 Out by blast
  qed
qed

lemma errors_nonzero_steps [intro]:
  "errors_nonzero (sh_return x)" "errors_nonzero next_result" "errors_nonzero (post t w)"
  "errors_nonzero (await ch)" "errors_nonzero (upd_wr g)" "errors_nonzero (post_user_wr t)" "errors_nonzero unlock"
  by (auto simp: errors_nonzero_def sh_return_def next_result_def post_def await_def upd_wr_def post_user_wr_def
      unlock_def sh_bind_def split: list.splits option.splits)

lemma errors_nonzero_one_sided_loop [intro]: "errors_nonzero (one_sided_loop w g chunk num i k swr)"
  by (induction k arbitrary: i swr) (auto simp: Let_def)

lemma errors_nonzero_two_sided_rest [intro]: "errors_nonzero (two_sided_rest chunk k cur)"
  by (induction k arbitrary: cur) (auto simp: Let_def)

lemma errors_nonzero_wimm_writes [intro]: "errors_nonzero (wimm_writes w g first chunk i k cur)"
proof (induction k arbitrary: i cur)
  case 0
  then show ?case unfolding wimm_writes.simps by (intro errors_nonzero_steps)
next
  case (Suc k)
  show ?case unfolding wimm_writes.simps Let_def by (intro errors_nonzero_bind errors_nonzero_steps Suc)
qed

lemma errors_nonzero_one_sided [intro]: "errors_nonzero (split_one_sided w g chunk)"
proof -
  have "errors_nonzero (one_sided_last w g chunk len swr)" for len swr
    unfolding one_sided_last_def
    by (cases swr) (auto split: list.splits simp: errors_nonzero_def [of "\<lambda>s. Inl _"])
  then show ?thesis unfolding split_one_sided_def Let_def by blast
qed

lemma errors_nonzero_const [intro]: "r \<noteq> 0 \<Longrightarrow> errors_nonzero (\<lambda>s. Inr (Return r, s))"
  by (simp add: errors_nonzero_def)

lemma errors_nonzero_log [intro]: "errors_nonzero (\<lambda>s. Inr (Cont (), if P then log_action a s else s))"
  by (simp add: errors_nonzero_def)

lemma errors_nonzero_two_sided [intro]: "errors_nonzero (split_two_sided w g chunk)"
proof -
  have "errors_nonzero (\<lambda>s. if sh_fc2 s = ACK then Inr (Cont (), s) else Inr (Return (-1), s))"
    by (simp add: errors_nonzero_def)
  then have "errors_nonzero (two_sided_ack n)" for n
    unfolding two_sided_ack_def by (cases "n = 0") (simp_all add: errors_nonzero_steps errors_nonzero_bind)
  moreover have "errors_nonzero (two_sided_first g chunk)" "errors_nonzero (two_sided_info n chunk)"
    "errors_nonzero (two_sided_finish w)" for n
    unfolding two_sided_first_def two_sided_info_def two_sided_finish_def
    by (intro errors_nonzero_bind errors_nonzero_steps errors_nonzero_log)+
  ultimately show ?thesis
    unfolding split_two_sided_def Let_def
    by (intro errors_nonzero_bind errors_nonzero_steps errors_nonzero_two_sided_rest)
qed

lemma errors_nonzero_wimm [intro]: "errors_nonzero (split_wimm w g chunk)"
proof -
  have p: "errors_nonzero (wimm_penultimate w g first chunk n i cur)" for first n i cur
    unfolding wimm_penultimate_def Let_def by (intro errors_nonzero_bind errors_nonzero_steps)
  have "errors_nonzero (wimm_last w g first chunk i cur)" for first i cur
    unfolding wimm_last_def Let_def case_prod_unfold by (intro errors_nonzero_bind errors_nonzero_steps)
  then have "errors_nonzero (sh_bind (wimm_writes w g first chunk 0 k cur0) (\<lambda>cur.
      sh_bind (wimm_penultimate w g first chunk n k cur) (\<lambda>(i, cur). wimm_last w g first chunk i cur)))"
    for first k cur0 n
    unfolding case_prod_unfold by (intro errors_nonzero_bind p errors_nonzero_wimm_writes)
  then show ?thesis unfolding split_wimm_def Let_def by (auto split: if_splits)
qed

lemma errors_nonzero_whole [intro]: "errors_nonzero whole_request"
  unfolding whole_request_def by blast

text \<open>
  What is linked behind a request is posted with it. A routine posts requests alone if all it posts have nothing behind
  them, provided that the user's request has nothing behind it.
\<close>

definition posts_alone :: "'a sh \<Rightarrow> bool" where
  "posts_alone m \<longleftrightarrow> (\<forall>s c s'. m s = Inr (c, s') \<longrightarrow> wr_chain (sh_wr s) = 0 \<longrightarrow>
     wr_chain (sh_wr s') = 0 \<and> (\<exists>ps. posts (sh_log s') = posts (sh_log s) @ ps \<and> (\<forall>p\<in>set ps. wr_chain (snd p) = 0)))"

lemma posts_aloneD:
  assumes "posts_alone m" "m s = Inr (c, s')" "wr_chain (sh_wr s) = 0"
  obtains ps where "wr_chain (sh_wr s') = 0" "posts (sh_log s') = posts (sh_log s) @ ps" "\<forall>p\<in>set ps. wr_chain (snd p) = 0"
  using assms unfolding posts_alone_def by blast

lemma posts_alone_bind [intro]:
  assumes m: "posts_alone m" and f: "\<And>x. posts_alone (f x)"
  shows "posts_alone (sh_bind m f)"
  unfolding posts_alone_def
proof (intro allI impI)
  fix s c s' assume r: "sh_bind m f s = Inr (c, s')" and w: "wr_chain (sh_wr s) = 0"
  then obtain c1 s1 where c1: "m s = Inr (c1, s1)" by (cases "m s") (auto simp: sh_bind_def)
  from posts_aloneD [OF m this w] obtain ps where ps: "wr_chain (sh_wr s1) = 0" "posts (sh_log s1) = posts (sh_log s) @ ps"
    "\<forall>p\<in>set ps. wr_chain (snd p) = 0" .
  show "wr_chain (sh_wr s') = 0 \<and> (\<exists>ps. posts (sh_log s') = posts (sh_log s) @ ps \<and> (\<forall>p\<in>set ps. wr_chain (snd p) = 0))"
  proof (cases c1)
    case (Cont x)
    then have "f x s1 = Inr (c, s')" using r c1 by (simp add: sh_bind_def)
    from posts_aloneD [OF f this ps(1)] obtain qs where "wr_chain (sh_wr s') = 0" "posts (sh_log s') = posts (sh_log s1) @ qs"
      "\<forall>p\<in>set qs. wr_chain (snd p) = 0" .
    then show ?thesis using ps(2,3) by (intro conjI exI [of _ "ps @ qs"]) auto
  qed (use r c1 ps in \<open>auto simp: sh_bind_def\<close>)
qed

lemma posts_alone_same:
  "(\<And>s c s'. m s = Inr (c, s') \<Longrightarrow> sh_wr s' = sh_wr s \<and> posts (sh_log s') = posts (sh_log s)) \<Longrightarrow> posts_alone m"
  unfolding posts_alone_def by fastforce

lemma posts_alone_steps [intro]:
  "posts_alone (sh_return x)" "posts_alone next_result" "posts_alone (await ch)" "posts_alone unlock" "posts_alone (post_user_wr t)"
proof -
  show "posts_alone (sh_return x)" "posts_alone next_result" "posts_alone (await ch)" "posts_alone unlock"
    by (rule posts_alone_same; auto simp: sh_return_def next_result_def await_def unlock_def sh_bind_def split: list.splits option.splits if_splits)+
  show "posts_alone (post_user_wr t)"
    by (auto simp: posts_alone_def post_user_wr_def post_def sh_bind_def next_result_def split: list.splits if_splits)
qed

lemma posts_alone_post [intro]: "wr_chain w = 0 \<Longrightarrow> posts_alone (post t w)"
  by (auto simp: posts_alone_def post_def sh_bind_def next_result_def split: list.splits if_splits)

lemma posts_alone_upd [intro]: "(\<And>u. wr_chain (f u) = wr_chain u) \<Longrightarrow> posts_alone (upd_wr f)"
  by (auto simp: posts_alone_def upd_wr_def)

lemma posts_alone_log [intro]:
  "posts_alone (\<lambda>s. Inr (Cont (), if P then log_action (Info_sent n c) s else s))"
  "posts_alone (\<lambda>s. Inr (Cont (), if P then log_action Recv_posted s else s))"
  by (rule posts_alone_same; auto)+

lemma posts_alone_end [intro]: "posts_alone (\<lambda>s. Inr (Return r, s))" "posts_alone (\<lambda>s. Inl e)"
  by (simp_all add: posts_alone_def)

lemma wr_chain_set_first_sge [simp]: "wr_chain (set_first_sge f w) = wr_chain w"
  by (simp add: set_first_sge_def)

lemma wr_chain_frame [simp]: "wr_chain (restore_wr w u) = wr_chain u" "wr_chain (chunk_wr w i op flags ra sa len lk) = 0"
  by (simp_all add: restore_wr_def chunk_wr_def)

lemmas posts_alone_intros = posts_alone_bind posts_alone_steps posts_alone_post posts_alone_log posts_alone_upd posts_alone_end

lemma posts_alone_loops:
  "posts_alone (one_sided_loop w g chunk num i k swr)" "posts_alone (two_sided_rest chunk k cl)" "posts_alone (wimm_writes w g first chunk i k cur)"
proof -
  show "posts_alone (one_sided_loop w g chunk num i k swr)"
  proof (induction k arbitrary: i swr)
    case (Suc k)
    have "wr_chain (one_sided_chunk w g chunk num i) = 0" by (simp add: one_sided_chunk_def)
    moreover have "posts_alone (if P then await Send_channel else sh_return ())" for P by (simp add: posts_alone_steps)
    ultimately show ?case unfolding one_sided_loop.simps Let_def by (intro posts_alone_intros Suc)
  qed (simp add: posts_alone_steps)
  show "posts_alone (two_sided_rest chunk k cl)"
  proof (induction k arbitrary: cl)
    case (Suc k)
    show ?case unfolding two_sided_rest.simps Let_def by (intro posts_alone_intros Suc) simp
  qed (simp add: posts_alone_steps)
  show "posts_alone (wimm_writes w g first chunk i k cur)"
  proof (induction k arbitrary: i cur)
    case (Suc k)
    show ?case unfolding wimm_writes.simps Let_def by (intro posts_alone_intros Suc) simp
  qed (simp add: posts_alone_steps)
qed

lemma posts_alone_one_sided:
  assumes "wr_chain w = 0"
  shows "posts_alone (split_one_sided w g chunk)"
proof -
  have "posts_alone (one_sided_last w g chunk len swr)" for len swr
    unfolding one_sided_last_def using assms
    by (cases swr) (auto split: list.split intro!: posts_alone_intros)
  then show ?thesis unfolding split_one_sided_def Let_def by (intro posts_alone_bind posts_alone_loops)
qed

lemma posts_alone_two_sided: "posts_alone (split_two_sided w g chunk)"
proof -
  have "posts_alone (\<lambda>s. if sh_fc2 s = ACK then Inr (Cont (), s) else Inr (Return (-1), s))"
    by (rule posts_alone_same) (auto split: if_splits)
  then have "posts_alone (two_sided_ack n)" for n
    unfolding two_sided_ack_def by (cases "n = 0") (simp_all add: posts_alone_steps posts_alone_bind)
  moreover have "posts_alone (two_sided_first g chunk)" "posts_alone (two_sided_info n chunk)" "posts_alone (two_sided_finish w)" for n
    unfolding two_sided_first_def two_sided_info_def two_sided_finish_def
    by (intro posts_alone_intros; simp)+
  ultimately show ?thesis
    unfolding split_two_sided_def Let_def by (intro posts_alone_bind posts_alone_loops posts_alone_upd) simp_all
qed

lemma posts_alone_wimm: "posts_alone (split_wimm w g chunk)"
proof -
  have "posts_alone (wimm_penultimate w g first chunk n i cur)" for first n i cur
    unfolding wimm_penultimate_def Let_def by (intro posts_alone_intros) simp
  moreover have "posts_alone (wimm_last w g first chunk i cur)" for first i cur
    unfolding wimm_last_def Let_def case_prod_unfold by (intro posts_alone_intros) simp_all
  ultimately have "posts_alone (sh_bind (wimm_writes w g first chunk 0 k cur0) (\<lambda>cur.
      sh_bind (wimm_penultimate w g first chunk n k cur) (\<lambda>(i, cur). wimm_last w g first chunk i cur)))" for first k cur0 n
    unfolding case_prod_unfold by (intro posts_alone_bind posts_alone_loops)
  then show ?thesis unfolding split_wimm_def Let_def by (simp add: posts_alone_end)
qed

lemma posts_alone_whole: "posts_alone whole_request"
  unfolding whole_request_def by blast



lemma await_effect:
  assumes "await ch s = Inr (Cont u, s')"
  shows "posts (sh_log s') = posts (sh_log s)" "sh_wr s' = sh_wr s"
  using assms by (auto simp: await_ok)

lemma post_effect:
  assumes "post t w s = Inr (Cont u, s')"
  shows "posts (sh_log s') = posts (sh_log s) @ [(t, w)]" "sh_wr s' = sh_wr s"
  using assms by (auto simp: post_ok)

section \<open>One-sided requests\<close>

lemma one_sided_loop_ok:
  "one_sided_loop w g chunk num i k swr s = Inr (Cont x, s') \<Longrightarrow>
    posts (sh_log s') = posts (sh_log s) @ map (\<lambda>j. (Split_qp, one_sided_chunk w g chunk num j)) [i..<i + k] \<and>
    x = (if k = 0 then swr else Some (one_sided_chunk w g chunk num (i + k - 1))) \<and> sh_wr s' = sh_wr s"
proof (induction k arbitrary: i swr s)
  case 0
  then show ?case by (simp add: phase_ok)
next
  case (Suc k)
  let ?c = "one_sided_chunk w g chunk num i"
  from Suc.prems obtain s1 s2 where s1: "post Split_qp ?c s = Inr (Cont (), s1)"
    and s2: "(if wr_flags ?c = wr_flags w OR IBV_SEND_SIGNALED then await Send_channel else sh_return ()) s1 = Inr (Cont (), s2)"
    and rest: "one_sided_loop w g chunk num (Suc i) k (Some ?c) s2 = Inr (Cont x, s')"
    by (auto simp: Let_def sh_bind_ok)
  have "posts (sh_log s2) = posts (sh_log s) @ [(Split_qp, ?c)]" "sh_wr s2 = sh_wr s"
    using post_effect [OF s1] s2 await_effect [of Send_channel s1 "()" s2]
    by (auto simp: sh_return_ok split: if_splits)
  moreover have "[i..<i + Suc k] = i # [Suc i..<Suc i + k]" by (simp add: upt_conv_Cons)
  ultimately show ?case using Suc.IH [OF rest] by (auto simp: Suc_diff_Suc split: if_splits)
qed

lemma ucast_mult_small:
  assumes "k * unat (c :: u32) < 2 ^ 32"
  shows "(ucast (c * of_nat k) :: u64) = of_nat (k * unat c)"
proof -
  have "unat (c * of_nat k :: u32) = k * unat c"
  proof (cases "c = 0")
    case False
    then have "0 < unat c" by (simp add: unat_gt_0)
    then have "k * 1 \<le> k * unat c" by (intro mult_le_mono2) simp
    then have "k < 2 ^ 32" using assms by linarith
    then have "unat (of_nat k :: u32) = k" by (intro unat_of_nat_small) simp
    then show ?thesis using assms by (simp add: unat_word_ariths mult.commute)
  qed simp
  then show ?thesis by (metis of_nat_unat)
qed

lemma one_sided_segments:
  assumes "k * unat c < 2 ^ 32"
  shows "contiguous (wr_raddr w) (sg_addr g) (segments (map (\<lambda>j. (Split_qp, one_sided_chunk w g c num j)) [0..<k])) \<and>
    bytes_of (segments (map (\<lambda>j. (Split_qp, one_sided_chunk w g c num j)) [0..<k])) = k * unat c"
  using assms
proof (induction k)
  case (Suc k)
  then have k: "k * unat c < 2 ^ 32" by simp
  show ?case
    using Suc.IH [OF k] ucast_mult_small [OF k]
    by (simp add: contiguous_append one_sided_chunk_def chunk_wr_def del: of_nat_mult)
qed simp

text \<open>The number of chunks a \<open>float\<close> quotient gives.\<close>

lemma chunks_float_eq:
  "chunks_float len chunk = word_of_int (ceil_helper (quotient_float (unat len) (unat chunk)))"
  by (simp add: chunks_float_def quotient_float_def)

lemma chunks_float_bounds:
  assumes "0 < chunk" "unat chunk \<le> 2 ^ 23" "2 ^ a dvd unat chunk" "unat len \<le> 2 ^ (24 + a)" "chunk < len"
  obtains k where "chunks_float len chunk = of_nat (Suc k)" "1 \<le> k" "k < 2 ^ 24" "k * unat chunk \<le> unat len"
proof -
  let ?q = "quotient_float (unat len) (unat chunk)"
  have c: "0 < unat chunk" "unat chunk \<le> 2 ^ 24" using assms(1,2) by (simp_all add: unat_gt_0 word_less_nat_alt)
  note r = quotient_float_le [OF c assms(3,4)]
  have lt: "1 < ?q" using assms(5) c(1) assms(2) by (intro quotient_float_above_1) (simp_all add: word_less_nat_alt)
  define n where "n = \<lceil>?q\<rceil>"
  have n: "2 \<le> n" "n \<le> 2 ^ 24" using lt r(2) by (simp_all add: n_def le_ceiling_iff ceiling_le_iff)
  have "nat (n - 1) * unat chunk \<le> unat len"
  proof (rule count_fits [OF n_def])
    fix m
    assume m: "unat len < m * unat chunk" "of_nat m < ?q"
    then have "(of_nat m :: rat) < of_nat (2 ^ 24)" using r(2) by simp
    then have "m \<le> 2 ^ 24" by (simp only: of_nat_less_iff)
    then show False using quotient_float_below [OF c assms(3,4) m(1)] m(2) by simp
  qed (use lt in simp)
  moreover have "chunks_float len chunk = of_nat (Suc (nat (n - 1)))"
    using n(1) by (simp add: chunks_float_eq ceil_helper_eq [OF r] n_def [symmetric])
  ultimately show ?thesis using n by (intro that [of "nat (n - 1)"]) (simp_all add: nat_less_iff)
qed

lemma split_one_sided_ok:
  assumes ok: "split_one_sided w g c s = Inr (Cont x, s')"
    and c: "0 < c" "unat c \<le> 2 ^ 23" "2 ^ a dvd unat c" "unat (sg_length g) \<le> 2 ^ (24 + a)" "c < sg_length g"
  shows "\<exists>ps. posts (sh_log s') = posts (sh_log s) @ ps \<and>
    contiguous (wr_raddr w) (sg_addr g) (segments ps) \<and> bytes_of (segments ps) = unat (sg_length g) \<and>
    map fst ps = replicate (length ps - 1) Split_qp @ [User_qp] \<and>
    wr_id (snd (last ps)) = wr_id w \<and> wr_flags (snd (last ps)) = wr_flags w \<and> sh_wr s' = sh_wr s \<and> \<not> sh_locked s'"
proof -
  obtain k where k: "chunks_float (sg_length g) c = of_nat (Suc k)" "1 \<le> k" "k < 2 ^ 24"
      "k * unat c \<le> unat (sg_length g)"
    using chunks_float_bounds [OF c] .
  have num: "chunks_float (sg_length g) c - 1 = of_nat k" using k(1) by simp
  have "sint (of_nat k :: u32) = int k" using k(3) sint_word_of_int_small [of "int k", where 'a = 32] by simp
  moreover have uk: "unat (of_nat k :: u32) = k" using k(3) by (intro unat_of_nat_small) simp
  ultimately obtain s1 y where loop: "one_sided_loop w g c k 0 k None s = Inr (Cont y, s1)"
    and last: "one_sided_last w g c (sg_length g - c * of_nat k) y s1 = Inr (Cont x, s')"
    using ok by (auto simp: split_one_sided_def Let_def num sh_bind_ok)
  let ?ps = "map (\<lambda>j. (Split_qp, one_sided_chunk w g c k j)) [0..<k]"
  have small: "k * unat c < 2 ^ 32" using k(4) unsigned_less [of "sg_length g", where 'a = nat] by simp
  define w2 where "w2 = (chunk_wr w (wr_id w) (wr_opcode w) (wr_flags w) (wr_raddr w + of_nat (k * unat c))
      (sg_addr g + of_nat (k * unat c)) (sg_length g - c * of_nat k) (sg_lkey g))\<lparr>wr_chain := wr_chain w\<rparr>"
  have "(ucast (c * of_nat (k - 1)) :: u64) + ucast c = of_nat (k * unat c)"
  proof -
    have "(k - 1) * unat c < 2 ^ 32" using small by (rule le_less_trans [rotated]) simp
    then have "(ucast (c * of_nat (k - 1)) :: u64) + ucast c = of_nat ((k - 1) * unat c + unat c)"
      by (simp only: ucast_mult_small of_nat_add of_nat_unat)
    also have "(k - 1) * unat c + unat c = k * unat c" using k(2) by (cases k) simp_all
    finally show ?thesis .
  qed
  then have "sh_bind (post User_qp w2) (\<lambda>_. sh_bind unlock (\<lambda>_. sh_return 0)) s1 = Inr (Cont x, s')"
    using last one_sided_loop_ok [OF loop] k(2)
    by (simp add: one_sided_last_def one_sided_chunk_def chunk_wr_def w2_def add.assoc del: of_nat_mult)
  then obtain s2 where "post User_qp w2 s1 = Inr (Cont (), s2)" "s' = s2\<lparr>sh_locked := False\<rparr>"
    by (auto simp: sh_bind_ok unlock_ok sh_return_ok)
  then have "posts (sh_log s') = posts (sh_log s) @ ?ps @ [(User_qp, w2)]" "sh_wr s' = sh_wr s" "\<not> sh_locked s'"
    using post_effect [of User_qp w2 s1 "()" s2] one_sided_loop_ok [OF loop] by simp_all
  moreover have "unat (sg_length g - c * of_nat k) = unat (sg_length g) - k * unat c"
  proof -
    have "unat (c * of_nat k) = k * unat c"
      using small uk by (simp add: unat_word_ariths mult.commute)
    then show ?thesis using k(4) by (simp add: unat_sub word_le_nat_alt)
  qed
  moreover have "map fst (?ps @ [(User_qp, w2)]) = replicate k Split_qp @ [User_qp]"
    by (simp add: o_def map_replicate_const)
  ultimately show ?thesis
    using one_sided_segments [OF small, of w g k] k(4)
    by (intro exI [of _ "?ps @ [(User_qp, w2)]"])
      (simp add: contiguous_append w2_def chunk_wr_def del: of_nat_mult map_map)
qed

end
