(* ===== verification/Shaper_Two_Sided.thy ===== *)
theory Shaper_Two_Sided
  imports Shaper_Proofs
begin

text \<open>
  The two-sided requests and the WRITEs with immediate: what a call that succeeds has put on the wire,
  how many chunks it has announced, and how it leaves the caller's request.
\<close>

section \<open>Two-sided requests\<close>

text \<open>The announcements of a log: number of chunks that follow and their size.\<close>

fun infos :: "action list \<Rightarrow> (u32 \<times> u32) list" where
  "infos [] = []"
| "infos (Info_sent n c # l) = (n, c) # infos l"
| "infos (_ # l) = infos l"

lemma infos_append [simp]: "infos (l @ m) = infos l @ infos m"
  by (induction l rule: infos.induct) simp_all

lemma infos_effect:
  "post t w s = Inr (Cont u, s') \<Longrightarrow> infos (sh_log s') = infos (sh_log s)"
  "await ch s = Inr (Cont u, s') \<Longrightarrow> infos (sh_log s') = infos (sh_log s)"
  by (auto simp: post_ok await_ok)

lemma two_sided_rest_infos:
  "two_sided_rest c k cur s = Inr (Cont x, s') \<Longrightarrow> infos (sh_log s') = infos (sh_log s)"
  by (induction k arbitrary: cur s) (auto simp: Let_def phase_ok)

text \<open>The fields of a request the shaper never writes, and the restoration of the others.\<close>

definition same_frame :: "send_wr \<Rightarrow> send_wr \<Rightarrow> bool" where
  "same_frame w w' \<longleftrightarrow> wr_id w' = wr_id w \<and> wr_opcode w' = wr_opcode w \<and> wr_rkey w' = wr_rkey w \<and>
     wr_chain w' = wr_chain w"

lemma restore_wr_frame:
  "\<lbrakk>wr_sg_list w = [g]; wr_sg_list w' = [g']; sg_lkey g' = sg_lkey g; same_frame w w'\<rbrakk> \<Longrightarrow> restore_wr w w' = w"
  by (cases w; cases w'; cases g; cases g') (simp add: restore_wr_def set_first_sge_def same_frame_def)

lemma two_sided_rest_ok:
  assumes "two_sided_rest c k cur s = Inr (Cont x, s')" "wr_sg_list (sh_wr s) = [g]"
    and "0 < k \<Longrightarrow> sg_length g = c" "k * unat c \<le> unat cur"
  shows "\<exists>ps g'. posts (sh_log s') = posts (sh_log s) @ ps \<and>
    wr_sg_list (sh_wr s') = [g'] \<and> sg_lkey g' = sg_lkey g \<and> same_frame (sh_wr s) (sh_wr s') \<and>
    contiguous (wr_raddr (sh_wr s) + ucast c) (sg_addr g + ucast c) (segments ps) \<and>
    (0 < k \<longrightarrow> bytes_of (segments ps) + unat c = unat cur) \<and>
    length ps = k \<and> set (map fst ps) \<subseteq> {Split_qp}"
  using assms
proof (induction k arbitrary: cur s g)
  case 0
  then show ?case by (auto simp: phase_ok same_frame_def intro!: exI [of _ "[]"])
next
  case (Suc k)
  define w where "w = (sh_wr s)\<lparr>wr_raddr := wr_raddr (sh_wr s) + ucast c,
      wr_flags := wr_flags (sh_wr s) OR IBV_SEND_SIGNALED,
      wr_sg_list := [g\<lparr>sg_addr := sg_addr g + ucast c, sg_length := (if k = 0 then cur - c else sg_length g)\<rparr>]\<rparr>"
  from Suc.prems(1) obtain s1 s2 where s1: "post Split_qp w (s\<lparr>sh_wr := w\<rparr>) = Inr (Cont (), s1)"
    and s2: "await Send_channel s1 = Inr (Cont (), s2)" and rest: "two_sided_rest c k (cur - c) s2 = Inr (Cont x, s')"
    by (auto simp: Let_def sh_bind_ok upd_wr_ok post_user_wr_ok set_first_sge_def Suc.prems(2) w_def)
  have log: "posts (sh_log s2) = posts (sh_log s) @ [(Split_qp, w)]" "sh_wr s2 = w"
    using post_effect [OF s1] await_effect [OF s2] by simp_all
  have cur: "unat (cur - c) = unat cur - unat c"
    using Suc.prems(4) by (simp add: unat_sub word_le_nat_alt)
  have "k * unat c \<le> unat (cur - c)" using Suc.prems(4) unfolding cur by simp
  then obtain ps g' where IH: "posts (sh_log s') = posts (sh_log s2) @ ps"
    "wr_sg_list (sh_wr s') = [g']" "sg_lkey g' = sg_lkey g"
    "same_frame w (sh_wr s')"
    "contiguous (wr_raddr w + ucast c) (sg_addr g + ucast c + ucast c) (segments ps)"
    "0 < k \<longrightarrow> bytes_of (segments ps) + unat c = unat (cur - c)"
    "length ps = k" "set (map fst ps) \<subseteq> {Split_qp}"
    using Suc.IH [OF rest, of "hd (wr_sg_list w)"] Suc.prems(3) unfolding log(2)
    by (auto simp: w_def)
  have "contiguous (wr_raddr (sh_wr s) + ucast c) (sg_addr g + ucast c) (segments ((Split_qp, w) # ps)) \<and>
    bytes_of (segments ((Split_qp, w) # ps)) + unat c = unat cur"
  proof (cases "k = 0")
    case True
    then show ?thesis using IH(7) cur Suc.prems(4) by (simp add: w_def)
  next
    case False
    then show ?thesis using IH(5,6) cur Suc.prems(3,4) by (simp add: w_def)
  qed
  then show ?case
    using IH log by (intro exI [of _ "(Split_qp, w) # ps"] exI [of _ g']) (simp_all add: w_def same_frame_def)
qed


lemma chunks_double_eq:
  "chunks_double len chunk = word_of_int (ceil_helper (quotient_double (unat len) (unat chunk)))"
  by (simp add: chunks_double_def quotient_double_def)

lemma chunks_double_bounds:
  assumes "2 ^ 8 \<le> unat c" "0 < len"
  obtains k where "chunks_double len c = of_nat (Suc k)" "k < 2 ^ 24" "k * unat c < unat len"
    "unat len < 2 ^ 24 \<Longrightarrow> unat len \<le> Suc k * unat c" "\<lbrakk>unat c \<le> 2 ^ 23; c < len\<rbrakk> \<Longrightarrow> 0 < k"
proof -
  let ?q = "quotient_double (unat len) (unat c)"
  have c: "0 < unat c" using assms(1) by (rule less_le_trans [rotated]) simp
  have len: "0 < unat len" using assms(2) by (simp add: word_less_nat_alt)
  have "unat len < 2 ^ 32" using unsigned_less [of len, where 'a = nat] by simp
  note r = quotient_double_le [OF assms(1) this]
  have q: "0 < ?q" 
  proof -
    have "(0::rat) < of_nat (unat len)" "(0::rat) < of_nat (unat c)"
      using c len by (simp_all only: of_nat_0_less_iff)
    then show ?thesis unfolding quotient_double_def by (intro fl_pos divide_pos_pos) simp_all
  qed
  define n where "n = \<lceil>?q\<rceil>"
  have n: "1 \<le> n" "n \<le> 2 ^ 24" using q r(2) by (simp_all add: n_def one_le_ceiling ceiling_le_iff)
  have lt: "of_nat (nat (n - 1)) < ?q" using n(1) unfolding n_def by (simp add: less_ceiling_iff) linarith
  have "nat (n - 1) * unat c < unat len"
  proof (rule ccontr)
    assume "\<not> nat (n - 1) * unat c < unat len"
    moreover have "nat (n - 1) \<le> 2 ^ 24" using n(2) by (simp add: nat_le_iff)
    ultimately show False using quotient_double_below [OF c, of "unat len" "nat (n - 1)"] lt by simp
  qed
  moreover have "unat len \<le> Suc (nat (n - 1)) * unat c" if "unat len < 2 ^ 24"
  proof (rule ccontr)
    assume "\<not> ?thesis"
    then have "of_nat (Suc (nat (n - 1))) < ?q" using that by (intro quotient_double_above [OF c]) simp_all
    moreover have "(of_nat (Suc (nat (n - 1))) :: rat) = of_int n" using n(1) by simp
    ultimately show False unfolding n_def by linarith
  qed
  moreover have "0 < nat (n - 1)" if "unat c \<le> 2 ^ 23" "c < len"
    using quotient_double_above_1 [OF c that(1)] that(2) unfolding n_def
    by (simp add: word_less_nat_alt less_ceiling_iff)
  moreover have "chunks_double len c = of_nat (Suc (nat (n - 1)))"
    using n(1) by (simp add: chunks_double_eq ceil_helper_eq [OF r] n_def [symmetric])
  ultimately show ?thesis using n by (intro that [of "nat (n - 1)"]) (simp_all add: nat_less_iff)
qed

lemma split_two_sided_ok:
  assumes ok: "split_two_sided w g c s = Inr (Cont x, s')" and w: "sh_wr s = w" "wr_sg_list w = [g]"
    and c: "2 ^ 8 \<le> unat c" "unat c \<le> 2 ^ 23" "0 < sg_length g"
  shows "\<exists>ps is. posts (sh_log s') = posts (sh_log s) @ ps \<and>
    contiguous (wr_raddr w) (sg_addr g) (segments ps) \<and> bytes_of (segments ps) = unat (sg_length g) \<and>
    map fst ps = User_qp # replicate (length ps - 1) Split_qp \<and>
    infos (sh_log s') = infos (sh_log s) @ is \<and> set is \<subseteq> {(of_nat (length ps - 1), c)} \<and>
    sh_wr s' = w \<and> \<not> sh_locked s'"
proof -
  obtain k where k: "chunks_double (sg_length g) c = of_nat (Suc k)" "k < 2 ^ 24" "k * unat c < unat (sg_length g)"
      "c < sg_length g \<Longrightarrow> 0 < k"
    using chunks_double_bounds [OF c(1,3)] c(2) by blast
  have num: "chunks_double (sg_length g) c - 1 = of_nat k" using k(1) by simp
  have uk: "unat (of_nat k :: u32) = k" using k(2) by (intro unat_of_nat_small) simp
  obtain s1 s2 s3 s4 s5 where s1: "two_sided_first g c s = Inr (Cont (), s1)"
    and s2: "two_sided_info (of_nat k) c s1 = Inr (Cont (), s2)"
    and s3: "two_sided_ack (of_nat k) s2 = Inr (Cont (), s3)"
    and s4: "s4 = s3\<lparr>sh_wr := (sh_wr s3)\<lparr>wr_flags := wr_flags (sh_wr s3) AND NOT IBV_SEND_SIGNALED\<rparr>\<rparr>"
    and s5: "two_sided_rest c k (sg_length g) s4 = Inr (Cont (), s5)"
    and fin: "two_sided_finish w s5 = Inr (Cont x, s')"
    using ok by (auto simp: split_two_sided_def Let_def num uk sh_bind_ok upd_wr_ok)
  define g1 where "g1 = (if c < sg_length g then g\<lparr>sg_length := c\<rparr> else g)"
  have 1: "posts (sh_log s1) = posts (sh_log s) @ [(User_qp, w\<lparr>wr_sg_list := [g1]\<rparr>)]"
    "sh_wr s1 = w\<lparr>wr_sg_list := [g1]\<rparr>" "infos (sh_log s1) = infos (sh_log s)"
    using s1 w by (auto simp: two_sided_first_def phase_ok set_first_sge_def g1_def)
  have 2: "posts (sh_log s2) = posts (sh_log s1)" "sh_wr s2 = sh_wr s1"
    "\<exists>is. infos (sh_log s2) = infos (sh_log s1) @ is \<and> set is \<subseteq> {(of_nat k, c)}"
    using s2 by (auto simp: two_sided_info_def phase_ok)
  have 3: "posts (sh_log s3) = posts (sh_log s2)" "sh_wr s3 = sh_wr s2" "infos (sh_log s3) = infos (sh_log s2)"
    using s3 by (auto simp: two_sided_ack_def phase_ok split: if_splits)
  have w4: "wr_sg_list (sh_wr s4) = [g1]" "wr_raddr (sh_wr s4) = wr_raddr w" "same_frame w (sh_wr s4)"
    using 1 2 3 s4 by (simp_all add: same_frame_def)
  have clt: "c < sg_length g" if "0 < k"
  proof -
    have "1 * unat c \<le> k * unat c" using that by (intro mult_le_mono1) simp
    then have "unat c < unat (sg_length g)" using k(3) by linarith
    then show ?thesis by (simp add: word_less_nat_alt)
  qed
  then have "0 < k \<Longrightarrow> sg_length g1 = c" by (simp add: g1_def)
  from two_sided_rest_ok [OF s5 w4(1) this] k(3) obtain ps g' where
    ps: "posts (sh_log s5) = posts (sh_log s4) @ ps" "wr_sg_list (sh_wr s5) = [g']" "sg_lkey g' = sg_lkey g1"
    "same_frame (sh_wr s4) (sh_wr s5)"
    "contiguous (wr_raddr w + ucast c) (sg_addr g1 + ucast c) (segments ps)"
    "0 < k \<longrightarrow> bytes_of (segments ps) + unat c = unat (sg_length g)" "length ps = k" "set (map fst ps) \<subseteq> {Split_qp}"
    using w4(2) by auto
  have fr: "same_frame w (sh_wr s5)" using ps(4) w4(3) by (simp add: same_frame_def)
  have lk: "sg_lkey g' = sg_lkey g" using ps(3) by (simp add: g1_def split: if_splits)
  have 6: "posts (sh_log s') = posts (sh_log s5)" "sh_wr s' = w" "infos (sh_log s') = infos (sh_log s5)" "\<not> sh_locked s'"
    using fin restore_wr_frame [OF w(2) ps(2) lk fr] by (auto simp: two_sided_finish_def phase_ok)
  let ?ps = "(User_qp, w\<lparr>wr_sg_list := [g1]\<rparr>) # ps"
  have "contiguous (wr_raddr w) (sg_addr g) (segments ?ps) \<and> bytes_of (segments ?ps) = unat (sg_length g)"
  proof (cases "k = 0")
    case True
    then have "\<not> c < sg_length g" using k(4) by blast
    then show ?thesis using True ps(7) by (simp add: g1_def)
  next
    case False
    then show ?thesis using clt ps(5,6) by (simp add: g1_def)
  qed
  moreover have "map fst ps = replicate k Split_qp"
    using ps(7,8) by (intro replicate_eqI) (simp, blast)
  moreover have "infos (sh_log s5) = infos (sh_log s3)" using two_sided_rest_infos [OF s5] s4 by simp
  ultimately show ?thesis
    using 1 2 3 6 ps(1,7) s4 by (auto intro!: exI [of _ ?ps])
qed


section \<open>RDMA WRITE with immediate\<close>

text \<open>The offset of the chunk of index \<open>i\<close>, and its segment.\<close>

definition wimm_offset :: "u32 \<Rightarrow> u32 \<Rightarrow> nat \<Rightarrow> nat" where
  "wimm_offset first c i = (if i = 0 then 0 else unat first + (i - 1) * unat c)"

lemma wimm_offset_Suc [simp]: "wimm_offset first c (Suc i) = wimm_offset first c i + unat (wimm_length first c i)"
  by (cases i) (simp_all add: wimm_offset_def wimm_length_def)

lemma wimm_offset_0 [simp]: "wimm_offset first c 0 = 0"
  by (simp add: wimm_offset_def)

definition wimm_at :: "send_wr \<Rightarrow> sge \<Rightarrow> u32 \<Rightarrow> u32 \<Rightarrow> nat \<Rightarrow> u64 \<times> u64" where
  "wimm_at w g first c i = (wr_raddr w + of_nat (wimm_offset first c i), sg_addr g + of_nat (wimm_offset first c i))"

definition wimm_segments :: "send_wr \<Rightarrow> sge \<Rightarrow> u32 \<Rightarrow> u32 \<Rightarrow> nat list \<Rightarrow> segment list" where
  "wimm_segments w g first c = map (\<lambda>j. (fst (wimm_at w g first c j), snd (wimm_at w g first c j), wimm_length first c j))"

lemma wimm_segments_contiguous:
  "contiguous (wr_raddr w) (sg_addr g) (wimm_segments w g first c [0..<n]) \<and>
   bytes_of (wimm_segments w g first c [0..<n]) = wimm_offset first c n"
  by (induction n) (simp_all add: wimm_segments_def contiguous_append wimm_at_def)

lemma wimm_advance_eq:
  assumes "0 < i \<Longrightarrow> cur = wimm_at w g first c (i - 1)"
  shows "wimm_advance w g first c i cur = wimm_at w g first c i"
proof (cases i)
  case (Suc j)
  then have "cur = wimm_at w g first c j" using assms by simp
  then show ?thesis
    using Suc by (cases j) (simp_all add: wimm_advance_def wimm_at_def wimm_length_def add.assoc)
qed (simp add: wimm_advance_def wimm_at_def)

lemma wimm_writes_ok:
  assumes "wimm_writes w g first c i k cur s = Inr (Cont x, s')" "0 < i \<Longrightarrow> cur = wimm_at w g first c (i - 1)"
  shows "(\<exists>ps. posts (sh_log s') = posts (sh_log s) @ ps \<and> segments ps = wimm_segments w g first c [i..<i + k] \<and>
      map fst ps = replicate k Split_qp) \<and>
    (0 < i + k \<longrightarrow> x = wimm_at w g first c (i + k - 1)) \<and> sh_wr s' = sh_wr s"
  using assms
proof (induction k arbitrary: i cur s)
  case 0
  then show ?case by (auto simp: phase_ok wimm_segments_def)
next
  case (Suc k)
  define cur1 where "cur1 = wimm_advance w g first c i cur"
  define v where "v = chunk_wr w (of_nat (i + 1)) RDMA_WRITE (wr_flags w OR IBV_SEND_SIGNALED) (fst cur1) (snd cur1)
      (wimm_length first c i) (sg_lkey g)"
  have cur1: "cur1 = wimm_at w g first c i" unfolding cur1_def by (rule wimm_advance_eq) (rule Suc.prems(2))
  from Suc.prems(1) obtain s1 s2 where s1: "post Split_qp v s = Inr (Cont (), s1)"
    and s2: "await Send_channel s1 = Inr (Cont (), s2)"
    and rest: "wimm_writes w g first c (Suc i) k cur1 s2 = Inr (Cont x, s')"
    by (auto simp: Let_def sh_bind_ok cur1_def v_def)
  have log: "posts (sh_log s2) = posts (sh_log s) @ [(Split_qp, v)]" "sh_wr s2 = sh_wr s"
    using post_effect [OF s1] await_effect [OF s2] by simp_all
  obtain ps where ps: "posts (sh_log s') = posts (sh_log s2) @ ps"
    "segments ps = wimm_segments w g first c [Suc i..<Suc i + k]" "map fst ps = replicate k Split_qp"
    and x: "x = wimm_at w g first c (Suc i + k - 1)" "sh_wr s' = sh_wr s2"
    using Suc.IH [OF rest] by (auto simp: cur1)
  have "[i..<i + Suc k] = i # [Suc i..<Suc i + k]" by (simp add: upt_conv_Cons)
  then have "segments ((Split_qp, v) # ps) = wimm_segments w g first c [i..<i + Suc k]"
    by (simp add: wimm_segments_def v_def chunk_wr_def cur1 ps(2))
  then show ?case using ps log x by (auto intro!: exI [of _ "(Split_qp, v) # ps"])
qed

lemma wimm_last_ok:
  assumes "wimm_last w g first c i cur s = Inr (Cont x, s')" "sh_wr s = w" "wr_sg_list w = [g]"
    and "wimm_advance w g first c i cur = wimm_at w g first c i"
  shows "\<exists>v. posts (sh_log s') = posts (sh_log s) @ [(User_qp, v)] \<and>
    segments [(User_qp, v)] = wimm_segments w g first c [i] \<and> same_frame w v \<and> wr_flags v = wr_flags w \<and>
    sh_wr s' = w \<and> \<not> sh_locked s'"
proof -
  define v where "v = w\<lparr>wr_raddr := fst (wimm_at w g first c i),
      wr_sg_list := [g\<lparr>sg_addr := snd (wimm_at w g first c i), sg_length := wimm_length first c i\<rparr>]\<rparr>"
  have "wr_sg_list v = [g\<lparr>sg_addr := snd (wimm_at w g first c i), sg_length := wimm_length first c i\<rparr>]"
    by (simp add: v_def)
  then have r: "restore_wr w v = w" by (rule restore_wr_frame [OF assms(3)]) (simp_all add: v_def same_frame_def)
  obtain s1 where "post User_qp v (s\<lparr>sh_wr := v\<rparr>) = Inr (Cont (), s1)"
    and s': "s' = s1\<lparr>sh_wr := restore_wr w (sh_wr s1), sh_locked := False\<rparr>"
    using assms by (auto simp: wimm_last_def Let_def sh_bind_ok upd_wr_ok post_user_wr_ok unlock_ok sh_return_ok
        set_first_sge_def v_def split: prod.splits)
  note e = post_effect [OF this(1)]
  show ?thesis
    using e r s' by (intro exI [of _ v]) (simp_all add: v_def wimm_segments_def same_frame_def)
qed

lemma split_wimm_ok:
  assumes ok: "split_wimm w g c s = Inr (Cont x, s')" and w: "sh_wr s = w" "wr_sg_list w = [g]"
  defines "n \<equiv> unat (chunks_double (sg_length g) c)"
    and "first \<equiv> if sg_length g mod c = 0 then c else sg_length g mod c"
  shows "0 < n \<and> (\<exists>ps. posts (sh_log s') = posts (sh_log s) @ ps \<and>
    contiguous (wr_raddr w) (sg_addr g) (segments ps) \<and> bytes_of (segments ps) = unat first + (n - 1) * unat c \<and>
    map fst ps = replicate (max 1 (n - 1)) Split_qp @ [User_qp] \<and> sh_wr s' = w \<and> \<not> sh_locked s')"
proof -
  have n: "0 < n" using ok by (auto simp: split_wimm_def Let_def n_def split: if_splits)
  with ok obtain cur s1 i cur2 s2 where
    1: "wimm_writes w g first c 0 (n - 2) (wr_raddr w, sg_addr g) s = Inr (Cont cur, s1)"
    and 2: "wimm_penultimate w g first c n (n - 2) cur s1 = Inr (Cont (i, cur2), s2)"
    and 3: "wimm_last w g first c i cur2 s2 = Inr (Cont x, s')"
    by (auto simp: split_wimm_def Let_def sh_bind_ok n_def first_def split: if_splits)
  obtain ps where ps: "posts (sh_log s1) = posts (sh_log s) @ ps"
    "segments ps = wimm_segments w g first c [0..<n - 2]" "map fst ps = replicate (n - 2) Split_qp"
    and cur: "0 < n - 2 \<Longrightarrow> cur = wimm_at w g first c (n - 2 - 1)" and s1: "sh_wr s1 = w"
    using wimm_writes_ok [OF 1] w(1) by auto
  have adv: "wimm_advance w g first c (n - 2) cur = wimm_at w g first c (n - 2)"
    using cur by (rule wimm_advance_eq)
  have p2: "\<exists>v. posts (sh_log s2) = posts (sh_log s1) @ [(Split_qp, v)] \<and>
      segments [(Split_qp, v)] = (if n = 1 then [] else wimm_segments w g first c [n - 2])"
    and i: "i = n - 1" and cur2: "cur2 = wimm_at w g first c (n - 2)" and s2: "sh_wr s2 = w"
    using 2 n s1 by (auto simp: wimm_penultimate_def Let_def sh_bind_ok sh_return_ok post_ok await_ok adv
        chunk_wr_def wimm_segments_def)
  obtain v where v: "posts (sh_log s2) = posts (sh_log s1) @ [(Split_qp, v)]"
    "segments [(Split_qp, v)] = (if n = 1 then [] else wimm_segments w g first c [n - 2])" using p2 by blast
  have "wimm_advance w g first c i cur2 = wimm_at w g first c i"
    using cur2 i by (intro wimm_advance_eq) (auto simp: numeral_2_eq_2)
  from wimm_last_ok [OF 3 s2 w(2) this] obtain u where
    u: "posts (sh_log s') = posts (sh_log s2) @ [(User_qp, u)]" "segments [(User_qp, u)] = wimm_segments w g first c [i]"
      "sh_wr s' = w" "\<not> sh_locked s'" by blast
  let ?ps = "ps @ [(Split_qp, v), (User_qp, u)]"
  have "segments ?ps = segments ps @ segments [(Split_qp, v)] @ segments [(User_qp, u)]" by simp
  also have "\<dots> = wimm_segments w g first c [0..<n]"
  proof (cases "n = 1")
    case True
    then show ?thesis using ps(2) v(2) u(2) i by (simp add: wimm_segments_def)
  next
    case False
    then obtain m where "n = Suc (Suc m)" using n by (metis One_nat_def not0_implies_Suc not_gr_zero)
    then show ?thesis using ps(2) v(2) u(2) i by (simp add: wimm_segments_def)
  qed
  finally have "segments ?ps = wimm_segments w g first c [0..<n]" .
  moreover have "map fst ?ps = replicate (max 1 (n - 1)) Split_qp @ [User_qp]"
  proof -
    have "map fst ?ps = replicate (Suc (n - 2)) Split_qp @ [User_qp]"
      using ps(3) by (simp add: replicate_append_same)
    also have "Suc (n - 2) = max 1 (n - 1)" by simp
    finally show ?thesis .
  qed
  moreover have "wimm_offset first c n = unat first + (n - 1) * unat c" using n by (simp add: wimm_offset_def)
  ultimately show ?thesis
    using n wimm_segments_contiguous [of w g first c n] ps(1) v(1) u(1,3,4) by (auto intro!: exI [of _ ?ps])
qed

end
