(* ===== verification/Shaper_Calls.thy ===== *)
theory Shaper_Calls
  imports Shaper_Two_Sided
begin

text \<open>
  Calls of \<open>mlx4_post_send\<close> as a whole: which path a request takes, that a call returning 0 has put the whole
  message on the wire, what a call does when the device accepts everything, and what errors leave behind.
\<close>

section \<open>From the call to its path\<close>

lemma post_send_start_chunk:
  "post_send_start ok k rd a b = Inr (ms, a', b') \<Longrightarrow> split_chunk_size (Some b') op = split_chunk_size (Some b) op"
  by (auto simp: post_send_start_def split_chunk_size_def Let_def upd_flow_def res_bind_eq_Inr
      split: if_splits option.splits)

lemma post_locked_errors:
  assumes "post_locked s = Inr (c, s')"
  shows "c \<noteq> Return 0 \<and> c \<noteq> Out 0"
proof -
  have *: "c \<noteq> Return 0 \<and> c \<noteq> Out 0" if "errors_nonzero m" "m s = Inr (c, s')" for m :: "int sh"
    using that unfolding errors_nonzero_def by blast
  show ?thesis
    using assms *[OF errors_nonzero_wimm] *[OF errors_nonzero_two_sided] *[OF errors_nonzero_one_sided]
      *[OF errors_nonzero_whole]
    unfolding post_locked_def Let_def res_bind_eq_Inr by (elim exE conjE) (simp split: if_split_asm)
qed

lemma sh_start_chunk:
  assumes "(case sh_sb s of None \<Rightarrow> Inr (s\<lparr>sh_app := (sh_app s)\<lparr>ap_start_flag := False\<rparr>\<rparr>)
        | Some b \<Rightarrow> res_bind (post_send_start ok qs rd (sh_app s) b) (\<lambda>(ms, a, b').
              Inr (s\<lparr>sh_app := a, sh_sb := Some b', sh_msgs := sh_msgs s @ ms\<rparr>))) = Inr s1"
  shows "split_chunk_size (sh_sb s1) = split_chunk_size (sh_sb s)" "sh_wr s1 = sh_wr s" "sh_log s1 = sh_log s"
    "sh_script s1 = sh_script s"
  using assms post_send_start_chunk
  by (auto simp: fun_eq_iff res_bind_eq_Inr split: option.splits)

text \<open>A call that returns 0 went through its path to the end.\<close>

lemma post_send_ok:
  assumes "mlx4_post_send ok qs s = Inr (0, s')"
  obtains s1 x where "post_locked s1 = Inr (Cont x, s')" "sh_wr s1 = sh_wr s" "sh_log s1 = sh_log s"
    "split_chunk_size (sh_sb s1) = split_chunk_size (sh_sb s)"
proof -
  from assms obtain s0 c s2 where s0: "(case sh_sb s of None \<Rightarrow> Inr (s\<lparr>sh_app := (sh_app s)\<lparr>ap_start_flag := False\<rparr>\<rparr>)
        | Some b \<Rightarrow> res_bind (post_send_start ok qs (wr_opcode (sh_wr s) = RDMA_READ) (sh_app s) b) (\<lambda>(ms, a, b').
              Inr (s\<lparr>sh_app := a, sh_sb := Some b', sh_msgs := sh_msgs s @ ms\<rparr>))) = Inr s0"
    and l: "post_locked (s0\<lparr>sh_locked := True\<rparr>) = Inr (c, s2)"
    and r: "(case c of Cont r \<Rightarrow> Inr (r, s2) | Return r \<Rightarrow> Inr (r, s2)
          | Out r \<Rightarrow> Inr (r, s2\<lparr>sh_locked := False\<rparr>)) = (Inr (0, s') :: (int \<times> sh_state) res)"
    unfolding mlx4_post_send_def res_bind_eq_Inr by (auto simp: res_bind_eq_Inr)
  have "c = Cont 0 \<and> s2 = s'" using r post_locked_errors [OF l] by (cases c) auto
  then show ?thesis using that l sh_start_chunk [OF s0] by simp
qed

text \<open>A request with nothing behind it is posted alone, in whatever pieces.\<close>

lemma posts_alone_locked: "posts_alone post_locked"
  unfolding posts_alone_def
proof (intro allI impI)
  fix s c s' assume l: "post_locked s = Inr (c, s')" and w: "wr_chain (sh_wr s) = 0"
  let ?Q = "wr_chain (sh_wr s') = 0 \<and> (\<exists>ps. posts (sh_log s') = posts (sh_log s) @ ps \<and> (\<forall>p\<in>set ps. wr_chain (snd p) = 0))"
  have *: "?Q" if "posts_alone m" "m s = Inr (c, s')" for m :: "int sh" using posts_aloneD [OF that w] by blast
  show ?Q
    using l *[OF posts_alone_wimm] *[OF posts_alone_two_sided] *[OF posts_alone_one_sided [OF w]] *[OF posts_alone_whole]
    unfolding post_locked_def Let_def res_bind_eq_Inr by (elim exE conjE) (simp split: if_split_asm)
qed

lemma post_send_alone:
  assumes "mlx4_post_send ok qs s = Inr (0, s')" "wr_chain (sh_wr s) = 0"
  shows "\<exists>ps. posts (sh_log s') = posts (sh_log s) @ ps \<and> (\<forall>p\<in>set ps. wr_chain (snd p) = 0)"
proof -
  obtain s1 x where s1: "post_locked s1 = Inr (Cont x, s')" "sh_wr s1 = sh_wr s" "sh_log s1 = sh_log s" using post_send_ok [OF assms(1)] .
  have "wr_chain (sh_wr s1) = 0" using s1(2) assms(2) by simp
  from posts_aloneD [OF posts_alone_locked s1(1) this] show ?thesis using s1(3) by metis
qed

lemma post_locked_split:
  assumes "wr_sg_list (sh_wr s) = g # gs" "c = split_chunk_size (sh_sb s) (wr_opcode (sh_wr s))" "c \<noteq> 0"
    and "needs_split (sg_length g) (wr_opcode (sh_wr s)) c"
  shows "wr_opcode (sh_wr s) = RDMA_WRITE_WITH_IMM \<Longrightarrow> post_locked s = split_wimm (sh_wr s) g c s"
    "wr_opcode (sh_wr s) \<in> {SEND, SEND_WITH_IMM} \<Longrightarrow> post_locked s = split_two_sided (sh_wr s) g c s"
    "wr_opcode (sh_wr s) \<in> {RDMA_WRITE, RDMA_READ} \<Longrightarrow> post_locked s = split_one_sided (sh_wr s) g c s"
  using assms by (auto simp: post_locked_def first_sge_def is_two_sided_def Let_def)


section \<open>An accepting device\<close>

text \<open>
  One-sided requests on a device that accepts the first posts: the loop runs through them without waiting, up
  to the last chunk, which asks for a completion.
\<close>

lemma signaled_flags: "wr_flags w AND NOT IBV_SEND_SIGNALED \<noteq> wr_flags w OR IBV_SEND_SIGNALED"
proof
  assume "wr_flags w AND NOT IBV_SEND_SIGNALED = wr_flags w OR IBV_SEND_SIGNALED"
  then have "bit (wr_flags w AND NOT IBV_SEND_SIGNALED) 1 = bit (wr_flags w OR IBV_SEND_SIGNALED) 1" by simp
  moreover have "bit (2 :: u32) (Suc 0)" by (simp add: bit_iff_odd)
  ultimately show False by (simp add: IBV_SEND_SIGNALED_def bit_and_iff bit_or_iff bit_not_iff)
qed

definition sh_after :: "int list \<Rightarrow> (target \<times> send_wr) list \<Rightarrow> sh_state \<Rightarrow> sh_state" where
  "sh_after rs ps s = s\<lparr>sh_script := rs, sh_log := sh_log s @ map (\<lambda>(t, w). Posted t w) ps\<rparr>"

lemma post_accepted:
  "sh_script s = 0 # rs \<Longrightarrow> post t w s = Inr (Cont (), sh_after rs [(t, w)] s)"
  by (simp add: post_def sh_bind_def next_result_def log_action_def sh_after_def)

lemma sh_after_after [simp]: "sh_after rs ps (sh_after rs' qs s) = sh_after rs (qs @ ps) s"
  by (simp add: sh_after_def)

lemma posts_after [simp]:
  "posts (sh_log (sh_after rs ps s)) = posts (sh_log s) @ ps" "sh_locked (sh_after rs ps s) = sh_locked s"
proof -
  have "posts (map (\<lambda>(t, w). Posted t w) ps) = ps" by (induction ps) auto
  then show "posts (sh_log (sh_after rs ps s)) = posts (sh_log s) @ ps" by (simp add: sh_after_def)
qed (simp add: sh_after_def)

lemma sh_after_script [simp]: "sh_script (sh_after rs ps s) = rs"
  by (simp add: sh_after_def)

lemma one_sided_loop_accepted:
  assumes "sh_script s = replicate k 0 @ rs" "num = i + k" "0 < k"
  shows "one_sided_loop w g c num i k swr s =
    sh_bind (await Send_channel) (\<lambda>_. sh_return (Some (one_sided_chunk w g c num (num - 1))))
      (sh_after rs (map (\<lambda>j. (Split_qp, one_sided_chunk w g c num j)) [i..<i + k]) s)"
  using assms
proof (induction k arbitrary: i swr s)
  case (Suc k)
  let ?c = "one_sided_chunk w g c num i"
  have p: "post Split_qp ?c s = Inr (Cont (), sh_after (replicate k 0 @ rs) [(Split_qp, ?c)] s)"
    using Suc.prems(1) by (intro post_accepted) simp
  show ?case
  proof (cases "k = 0")
    case True
    then have "wr_flags ?c = wr_flags w OR IBV_SEND_SIGNALED"
      using Suc.prems(2) by (simp add: one_sided_chunk_def chunk_wr_def)
    then show ?thesis using True p Suc.prems(2) by (simp add: sh_bind_def Let_def)
  next
    case False
    then have "wr_flags ?c \<noteq> wr_flags w OR IBV_SEND_SIGNALED"
      using Suc.prems(2) signaled_flags by (simp add: one_sided_chunk_def chunk_wr_def)
    moreover have "[i..<i + Suc k] = i # [Suc i..<Suc i + k]" by (simp add: upt_conv_Cons)
    ultimately show ?thesis
      using p Suc.IH [of "sh_after (replicate k 0 @ rs) [(Split_qp, ?c)] s" "Suc i" "Some ?c"] Suc.prems(2) False
      by (simp add: sh_bind_def sh_return_def Let_def)
  qed
qed simp

lemma one_sided_loop_refused:
  assumes "sh_script s = replicate j 0 @ r # rs" "r \<noteq> 0" "j < k" "num = i + k"
  shows "one_sided_loop w g c num i k swr s =
    Inr (Out r, sh_after rs (map (\<lambda>j. (Split_qp, one_sided_chunk w g c num j)) [i..<i + j]) s)"
  using assms
proof (induction k arbitrary: i j swr s)
  case (Suc k)
  let ?c = "one_sided_chunk w g c num i"
  show ?case
  proof (cases j)
    case 0
    then show ?thesis
      using Suc.prems by (simp add: sh_bind_def post_def next_result_def sh_after_def Let_def)
  next
    case (Suc j')
    then have p: "post Split_qp ?c s = Inr (Cont (), sh_after (replicate j' 0 @ r # rs) [(Split_qp, ?c)] s)"
      using Suc.prems(1) by (intro post_accepted) simp
    have "wr_flags ?c \<noteq> wr_flags w OR IBV_SEND_SIGNALED"
      using Suc Suc.prems(3,4) signaled_flags by (simp add: one_sided_chunk_def chunk_wr_def)
    moreover have "[i..<i + j] = i # [Suc i..<Suc i + j']" using Suc by (simp add: upt_conv_Cons)
    ultimately show ?thesis
      using p Suc.IH [of "sh_after (replicate j' 0 @ r # rs) [(Split_qp, ?c)] s" j' "Suc i" "Some ?c"] Suc.prems(2-4) Suc
      by (simp add: sh_bind_def sh_return_def Let_def)
  qed
qed simp


lemma post_send_started:
  assumes "\<not> ap_start_flag (sh_app s)"
  shows "mlx4_post_send ok qs s =
    res_bind (post_locked (s\<lparr>sh_locked := True\<rparr>)) (\<lambda>(c, s2). case c of Cont r \<Rightarrow> Inr (r, s2)
          | Return r \<Rightarrow> Inr (r, s2) | Out r \<Rightarrow> Inr (r, s2\<lparr>sh_locked := False\<rparr>))"
proof (cases "sh_sb s")
  case None
  have "s\<lparr>sh_app := (sh_app s)\<lparr>ap_start_flag := False\<rparr>\<rparr> = s" using assms by (cases s; cases "sh_app s") simp
  then show ?thesis using None by (simp add: mlx4_post_send_def)
next
  case (Some b)
  then have "post_send_start ok qs rd (sh_app s) b = Inr ([], sh_app s, b)" for rd
    using assms by (simp add: post_send_start_def)
  moreover have eq: "s\<lparr>sh_sb := Some b, sh_locked := True\<rparr> = s\<lparr>sh_locked := True\<rparr>" using Some by (cases s) simp
  ultimately show ?thesis using Some by (simp add: mlx4_post_send_def) (simp only: eq)
qed

lemma split_one_sided_loop:
  assumes "chunks_float (sg_length g) c = of_nat (Suc k)" "k < 2 ^ 31"
  shows "split_one_sided w g c = sh_bind (one_sided_loop w g c k 0 k None)
    (one_sided_last w g c (sg_length g - c * of_nat k))"
proof -
  have "chunks_float (sg_length g) c - 1 = of_nat k" using assms(1) by simp
  moreover have "sint (of_nat k :: u32) = int k"
    using assms(2) sint_word_of_int_small [of "int k", where 'a = 32] by simp
  moreover have "unat (of_nat k :: u32) = k" using assms(2) by (intro unat_of_nat_small) simp
  ultimately show ?thesis by (simp add: split_one_sided_def Let_def)
qed

lemma poll_zeros: "poll_nonzero (replicate p 0 @ rs) = poll_nonzero rs"
  by (induction p) simp_all

lemma one_sided_run:
  assumes "\<not> ap_start_flag (sh_app s)" and "wr_sg_list (sh_wr s) = g # gs"
    and "wr_opcode (sh_wr s) \<in> {RDMA_WRITE, RDMA_READ}" and "c = split_chunk_size (sh_sb s) (wr_opcode (sh_wr s))"
    and "0 < c" and "c < sg_length g" and "chunks_float (sg_length g) c = of_nat (Suc k)" and "0 < k" and "k < 2 ^ 31"
    and "sh_script s = replicate k 0 @ [0, 0] @ replicate p 0 @ [1, 0] @ rest"
  shows "\<exists>s'. mlx4_post_send ok qs s = Inr (0, s') \<and> \<not> sh_locked s' \<and> sh_script s' = rest"
proof -
  let ?s = "s\<lparr>sh_locked := True\<rparr>" let ?w = "sh_wr s"
  let ?ps = "map (\<lambda>j. (Split_qp, one_sided_chunk ?w g c k j)) [0..<k]"
  let ?s1 = "sh_after ([0, 0] @ replicate p 0 @ [1, 0] @ rest) ?ps ?s"
  have "post_locked ?s = split_one_sided ?w g c ?s"
    using post_locked_split(3) [of ?s g gs c] assms by (simp add: needs_split_def)
  moreover have "one_sided_loop ?w g c k 0 k None ?s =
      sh_bind (await Send_channel) (\<lambda>_. sh_return (Some (one_sided_chunk ?w g c k (k - 1)))) ?s1"
    using one_sided_loop_accepted [of ?s k "[0, 0] @ replicate p 0 @ [1, 0] @ rest" k 0 ?w g c None] assms(8,10) by simp
  moreover have "await Send_channel ?s1 = Inr (Cont (), log_action (Completed Send_channel) (?s1\<lparr>sh_script := 0 # rest\<rparr>))"
    by (simp add: await_ok poll_zeros)
  ultimately show ?thesis
    using assms(1) split_one_sided_loop [OF assms(7,9)]
    by (simp add: post_send_started sh_bind_def sh_return_def one_sided_last_def one_sided_chunk_def chunk_wr_def
        post_def next_result_def unlock_def)
qed

text \<open>The length a message leaves for the chunk of odd size.\<close>

lemma tail_chunk:
  assumes "k * C < L" "L \<le> Suc k * (C :: nat)"
  shows "(if L mod C = 0 then C else L mod C) + k * C = L"
proof (cases "L = Suc k * C")
  case True
  then show ?thesis by simp
next
  case False
  then have "L - k * C < C" using assms by simp
  moreover have "L mod C = (L - k * C) mod C"
    using assms(1) by (metis le_add_diff_inverse less_imp_le mod_mult_self3)
  ultimately show ?thesis using assms(1) by simp
qed

text \<open>The two other paths on an accepting device.\<close>

lemma post_await_accepted:
  assumes "sh_script s = 0 # 0 # 0 # 1 # rs"
  shows "\<exists>s'. sh_bind (post t w) (\<lambda>_. sh_bind (await ch) f) s = f () s' \<and> sh_script s' = rs \<and> sh_wr s' = sh_wr s \<and>
    sh_fc2 s' = sh_fc2 s"
  using assms by (auto simp: sh_bind_def post_def await_def next_result_def)

lemma wimm_writes_accepted:
  "sh_script s = concat (replicate k [0, 0, 0, 1]) @ rs \<Longrightarrow>
    \<exists>cur' s'. wimm_writes w g first c i k cur s = Inr (Cont cur', s') \<and> sh_script s' = rs"
proof (induction k arbitrary: i cur s)
  case (Suc k)
  let ?cur = "wimm_advance w g first c i cur"
  obtain s1 where "wimm_writes w g first c i (Suc k) cur s = wimm_writes w g first c (Suc i) k ?cur s1"
    "sh_script s1 = concat (replicate k [0, 0, 0, 1]) @ rs"
    using post_await_accepted [of s "concat (replicate k [0, 0, 0, 1]) @ rs"] Suc.prems
    by (simp add: Let_def) blast
  then show ?case using Suc.IH by simp
qed (simp add: sh_return_def)

lemma wimm_penultimate_accepted:
  "sh_script s = 0 # 0 # 0 # 1 # rs \<Longrightarrow>
    \<exists>x s'. wimm_penultimate w g first c n i cur s = Inr (Cont x, s') \<and> sh_script s' = rs"
  by (simp add: wimm_penultimate_def Let_def sh_bind_def post_def await_def next_result_def sh_return_def)

lemma split_wimm_accepted:
  assumes "chunks_double (sg_length g) c = of_nat n" "0 < n" "n < 2 ^ 32"
    and "sh_script s = concat (replicate (max 1 (n - 1)) [0, 0, 0, 1]) @ [0]"
  shows "\<exists>s'. split_wimm w g c s = Inr (Cont 0, s')"
proof -
  have n: "unat (of_nat n :: u32) = n" using assms(3) by (intro unat_of_nat_small) simp
  define first where "first = (if sg_length g mod c = 0 then c else sg_length g mod c)"
  have "max 1 (n - 1) = n - 2 + 1" using assms(2) by simp
  moreover have "concat (replicate (m + 1) xs) = concat (replicate m xs) @ xs" for m and xs :: "int list"
    by (induction m) simp_all
  ultimately have "sh_script s = concat (replicate (n - 2) [0, 0, 0, 1]) @ [0, 0, 0, 1, 0]"
    using assms(4) by simp
  then obtain cur s1 where 1: "wimm_writes w g first c 0 (n - 2) (wr_raddr w, sg_addr g) s = Inr (Cont cur, s1)"
    and s1: "sh_script s1 = [0, 0, 0, 1, 0]"
    using wimm_writes_accepted by blast
  obtain x s2 where 2: "wimm_penultimate w g first c n (n - 2) cur s1 = Inr (Cont x, s2)" and s2: "sh_script s2 = [0]"
    using wimm_penultimate_accepted [OF s1] by blast
  have 3: "\<exists>s'. wimm_last w g first c (fst x) (snd x) s2 = Inr (Cont 0, s')"
    using s2 by (simp add: wimm_last_def Let_def case_prod_unfold sh_bind_def upd_wr_def post_user_wr_def post_def
        next_result_def unlock_def sh_return_def)
  show ?thesis
    using 3 assms(1,2)
    by (simp add: split_wimm_def n first_def [symmetric] Let_def case_prod_unfold sh_bind_def 1 2)
qed

lemma two_sided_rest_accepted:
  "sh_script s = concat (replicate k [0, 0, 0, 1]) @ rs \<Longrightarrow>
    \<exists>s'. two_sided_rest c k cur s = Inr (Cont (), s') \<and> sh_script s' = rs"
proof (induction k arbitrary: cur s)
  case (Suc k)
  let ?f = "\<lambda>u. set_first_sge (\<lambda>g. g\<lparr>sg_addr := sg_addr g + ucast c, sg_length := (if k = 0 then cur - c else sg_length g)\<rparr>)
      (u\<lparr>wr_raddr := wr_raddr u + ucast c, wr_flags := wr_flags u OR IBV_SEND_SIGNALED\<rparr>)"
  obtain s1 where "two_sided_rest c (Suc k) cur s = two_sided_rest c k (cur - c) s1"
    "sh_script s1 = concat (replicate k [0, 0, 0, 1]) @ rs"
    using post_await_accepted [of "s\<lparr>sh_wr := ?f (sh_wr s)\<rparr>" "concat (replicate k [0, 0, 0, 1]) @ rs" Split_qp
        "?f (sh_wr s)" Send_channel "\<lambda>_. two_sided_rest c k (cur - c)"] Suc.prems
    by (auto simp: Let_def sh_bind_def [of "upd_wr f" for f] sh_bind_def [of "post_user_wr t" for t] upd_wr_def
        post_user_wr_def sh_bind_def [of "post t w" for t w])
  then show ?case using Suc.IH by simp
qed (simp add: sh_return_def)

lemma split_two_sided_accepted:
  assumes "chunks_double (sg_length g) c - 1 = of_nat n" "0 < n" "n < 2 ^ 32" "sh_fc2 s = ACK"
    and "sh_script s = [0, 0, 0, 0, 1, 0, 0, 1] @ concat (replicate n [0, 0, 0, 1]) @ [0]"
  shows "\<exists>s'. split_two_sided w g c s = Inr (Cont 0, s') \<and> infos (sh_log s') = infos (sh_log s) @ [(of_nat n, c)]"
proof -
  have n: "unat (of_nat n :: u32) = n" using assms(3) by (intro unat_of_nat_small) simp
  then have n0: "(of_nat n :: u32) \<noteq> 0" using assms(2) by (metis less_numeral_extra(3) unat_0)
  obtain s1 where 1: "two_sided_first g c s = Inr (Cont (), s1)" "sh_fc2 s1 = ACK" "infos (sh_log s1) = infos (sh_log s)"
    "sh_script s1 = [0, 0, 0, 1, 0, 0, 1] @ concat (replicate n [0, 0, 0, 1]) @ [0]"
    using assms(4,5) by (simp add: two_sided_first_def sh_bind_def upd_wr_def post_user_wr_def post_def next_result_def log_action_def)
  obtain s2 where 2: "two_sided_info (of_nat n) c s1 = Inr (Cont (), s2)" "sh_fc2 s2 = ACK"
    "sh_script s2 = [0, 0, 1] @ concat (replicate n [0, 0, 0, 1]) @ [0]" "infos (sh_log s2) = infos (sh_log s) @ [(of_nat n, c)]"
    using 1(2-4) by (simp add: two_sided_info_def sh_bind_def next_result_def await_def log_action_def)
  obtain s3 where 3: "two_sided_ack (of_nat n) s2 = Inr (Cont (), s3)"
    "sh_script s3 = concat (replicate n [0, 0, 0, 1]) @ [0]" "infos (sh_log s3) = infos (sh_log s2)"
    using 2(2,3) n0 by (simp add: two_sided_ack_def sh_bind_def next_result_def await_def)
  let ?s4 = "s3\<lparr>sh_wr := (sh_wr s3)\<lparr>wr_flags := wr_flags (sh_wr s3) AND NOT IBV_SEND_SIGNALED\<rparr>\<rparr>"
  have "sh_script ?s4 = concat (replicate n [0, 0, 0, 1]) @ [0]" using 3(2) by simp
  then obtain s5 where 5: "two_sided_rest c n (sg_length g) ?s4 = Inr (Cont (), s5)" "sh_script s5 = [0]"
    using two_sided_rest_accepted by blast
  have "infos (sh_log s5) = infos (sh_log s) @ [(of_nat n, c)]" using two_sided_rest_infos [OF 5(1)] 3(3) 2(4) by simp
  then have "\<exists>s'. two_sided_finish w s5 = Inr (Cont 0, s') \<and> infos (sh_log s') = infos (sh_log s) @ [(of_nat n, c)]"
    using 5(2) by (simp add: two_sided_finish_def sh_bind_def next_result_def upd_wr_def unlock_def sh_return_def)
  then show ?thesis
    by (simp add: split_two_sided_def Let_def assms(1) n sh_bind_def upd_wr_def 1(1) 2(1) 3(1) 5(1))
qed

text \<open>A process without daemon, about to post one request.\<close>

definition lone_request :: "opcode \<Rightarrow> u32 \<Rightarrow> int list \<Rightarrow> sh_state" where
  "lone_request op len script =
     \<lparr>sh_script = script, sh_log = [],
      sh_wr = \<lparr>wr_id = 7, wr_opcode = op, wr_sg_list = [\<lparr>sg_addr = 65536, sg_length = len, sg_lkey = 1\<rparr>],
        wr_flags = 2, wr_raddr = 1048576, wr_rkey = 9, wr_chain = 0\<rparr>,
      sh_fc2 = ACK, sh_locked = False, sh_app = app_joined None, sh_sb = None, sh_msgs = []\<rparr>"

lemma lone_request_simps [simp]:
  "sh_script (lone_request op len sc) = sc" "sh_log (lone_request op len sc) = []"
  "wr_opcode (sh_wr (lone_request op len sc)) = op" "sh_sb (lone_request op len sc) = None"
  "wr_sg_list (sh_wr (lone_request op len sc)) = [\<lparr>sg_addr = 65536, sg_length = len, sg_lkey = 1\<rparr>]"
  "\<not> ap_start_flag (sh_app (lone_request op len sc))" "sh_fc2 (lone_request op len sc) = ACK"
  "wr_chain (sh_wr (lone_request op len sc)) = 0"
  by (simp_all add: lone_request_def app_joined_def)

lemma lone_chunk [simp]: "split_chunk_size None op = 1000000"
  by (simp add: split_chunk_size_def SPLIT_CHUNK_SIZE_def)

lemma replicate_2 [simp]: "replicate 2 x = [x, x]"
  by (simp add: numeral_2_eq_2)

lemma chunks_2500000: "chunks_float 2500000 1000000 = 3" "chunks_double 2500000 1000000 = 3"
proof -
  have f: "to_float (5/2) = 5/2" "to_double (5/2) = 5/2"
    by (rule fl_exact [where m = 5 and k = "-1"]; simp add: power_int_minus)+
  have "\<lceil>5/2 :: rat\<rceil> = 3" by (rule ceiling_unique) simp_all
  then have "ceil_helper (5/2) = 3" by (simp add: ceil_helper_eq)
  then show "chunks_float 2500000 1000000 = 3" "chunks_double 2500000 1000000 = 3"
    using f to_float_nat [of 2500000] to_float_nat [of 1000000] by (simp_all add: chunks_float_def chunks_double_def del: eq_divide_eq_numeral1)
qed

lemma split_wimm_tiled:
  assumes "split_wimm w g c s = Inr (Cont x, s')" "sh_wr s = w" "wr_sg_list w = [g]"
    and "2 ^ 8 \<le> unat c" "0 < sg_length g" "unat (sg_length g) < 2 ^ 24"
  shows "\<exists>ps n. posts (sh_log s') = posts (sh_log s) @ ps \<and>
    contiguous (wr_raddr w) (sg_addr g) (segments ps) \<and> bytes_of (segments ps) = unat (sg_length g) \<and>
    map fst ps = replicate n Split_qp @ [User_qp] \<and> sh_wr s' = w \<and> \<not> sh_locked s'"
proof -
  from split_wimm_ok [OF assms(1-3)] obtain ps where
    ps: "posts (sh_log s') = posts (sh_log s) @ ps" "contiguous (wr_raddr w) (sg_addr g) (segments ps)"
      "bytes_of (segments ps) = unat (if sg_length g mod c = 0 then c else sg_length g mod c) +
         (unat (chunks_double (sg_length g) c) - 1) * unat c"
      "map fst ps = replicate (max 1 (unat (chunks_double (sg_length g) c) - 1)) Split_qp @ [User_qp]"
      "sh_wr s' = w" "\<not> sh_locked s'"
    by auto
  from chunks_double_bounds [OF assms(4,5)] obtain k where
    k: "chunks_double (sg_length g) c = of_nat (Suc k)" "k < 2 ^ 24" "k * unat c < unat (sg_length g)"
      "unat (sg_length g) \<le> Suc k * unat c" using assms(6) by blast
  have "unat (of_nat (Suc k) :: u32) = Suc k" using k(2) by (intro unat_of_nat_small) simp
  moreover have "unat (if sg_length g mod c = 0 then c else sg_length g mod c) + k * unat c = unat (sg_length g)"
    using tail_chunk [OF k(3,4)] by (auto simp: unat_mod simp flip: unat_eq_zero)
  ultimately have "bytes_of (segments ps) = unat (sg_length g)" using ps(3) k(1) by simp
  then show ?thesis using ps by blast
qed

section \<open>Properties\<close>

text \<open>
  C2: an RDMA WRITE or READ longer than a chunk for which \<open>mlx4_post_send\<close> returns 0 has been posted completely: the
  segments follow each other without gap or overlap from the two start addresses, they cover the length of
  the first element exactly, the last goes to the user's queue pair with the user's own flags and \<open>wr_id\<close>, and the
  user's request is unchanged. The chunk may be any multiple of \<open>2^a\<close> up to \<open>2^23\<close>, the message up to \<open>2^(24 + a)\<close> bytes (1 GiB for
  a chunk of 1000000, 128 MiB for one of 5000).
\<close>

theorem one_sided_request_tiled:
  assumes "mlx4_post_send ok qs s = Inr (0, s')" and "wr_sg_list (sh_wr s) = g # gs"
    and "wr_opcode (sh_wr s) \<in> {RDMA_WRITE, RDMA_READ}" and "c = split_chunk_size (sh_sb s) (wr_opcode (sh_wr s))"
    and "0 < c" and "unat c \<le> 2 ^ 23" and "2 ^ a dvd unat c" and "unat (sg_length g) \<le> 2 ^ (24 + a)" and "c < sg_length g"
  shows "\<exists>ps. posts (sh_log s') = posts (sh_log s) @ ps \<and>
    contiguous (wr_raddr (sh_wr s)) (sg_addr g) (segments ps) \<and> bytes_of (segments ps) = unat (sg_length g) \<and>
    map fst ps = replicate (length ps - 1) Split_qp @ [User_qp] \<and>
    wr_id (snd (last ps)) = wr_id (sh_wr s) \<and> wr_flags (snd (last ps)) = wr_flags (sh_wr s) \<and>
    sh_wr s' = sh_wr s \<and> \<not> sh_locked s'"
proof -
  obtain s1 x where s1: "post_locked s1 = Inr (Cont x, s')" "sh_wr s1 = sh_wr s" "sh_log s1 = sh_log s"
    "split_chunk_size (sh_sb s1) = split_chunk_size (sh_sb s)" using post_send_ok [OF assms(1)] .
  have "post_locked s1 = split_one_sided (sh_wr s) g c s1"
    using post_locked_split(3) [of s1 g gs c] assms s1 by (simp add: needs_split_def)
  then show ?thesis using split_one_sided_ok [OF _ assms(5-9)] s1 by metis
qed

theorem one_sided_request_tiled_witness:
  "\<exists>s' ps. mlx4_post_send True 0 (lone_request RDMA_WRITE 2500000 [0, 0, 0, 0, 1, 0]) = Inr (0, s') \<and>
     posts (sh_log s') = ps \<and> bytes_of (segments ps) = 2500000"
proof -
  let ?s = "lone_request RDMA_WRITE 2500000 [0, 0, 0, 0, 1, 0]"
  have "\<exists>s'. mlx4_post_send True 0 ?s = Inr (0, s')"
    using one_sided_run [of ?s "\<lparr>sg_addr = 65536, sg_length = 2500000, sg_lkey = 1\<rparr>" "[]" 1000000 2 0 "[]" True 0]
      chunks_2500000(1) by auto
  then obtain s' where s': "mlx4_post_send True 0 ?s = Inr (0, s')" by blast
  have "(2 :: nat) ^ 6 dvd 1000000" by simp
  then show ?thesis using one_sided_request_tiled [OF s', of _ _ _ 6] s' by simp
qed

text \<open>
  C34: An RDMA READ or WRITE (without immediate) longer than a chunk, posted by a process that has announced itself before: a device that accepts each of the
  \<open>k\<close> chunks and the last part and reports the one completion asked for lets the call return 0, with the queue pair unlocked; before the completion
  shows up, the poll may come back empty any number of times.
\<close>

theorem one_sided_request_completes:
  assumes "\<not> ap_start_flag (sh_app s)" and "wr_sg_list (sh_wr s) = g # gs"
    and "wr_opcode (sh_wr s) \<in> {RDMA_WRITE, RDMA_READ}" and "c = split_chunk_size (sh_sb s) (wr_opcode (sh_wr s))"
    and "0 < c" and "c < sg_length g" and "chunks_float (sg_length g) c = of_nat (Suc k)" and "0 < k" and "k < 2 ^ 31"
    and "sh_script s = replicate k 0 @ [0, 0] @ replicate p 0 @ [1, 0] @ rest"
  shows "\<exists>s'. mlx4_post_send ok qs s = Inr (0, s') \<and> \<not> sh_locked s' \<and> sh_script s' = rest"
  using assms by (rule one_sided_run)

theorem one_sided_request_completes_witness:
  "\<exists>s'. mlx4_post_send True 0 (lone_request RDMA_READ 2500000 [0, 0, 0, 0, 0, 0, 1, 0]) = Inr (0, s') \<and>
     \<not> sh_locked s' \<and> sh_script s' = []"
  using one_sided_request_completes [of "lone_request RDMA_READ 2500000 [0, 0, 0, 0, 0, 0, 1, 0]"
      "\<lparr>sg_addr = 65536, sg_length = 2500000, sg_lkey = 1\<rparr>" "[]" 1000000 2 2 "[]" True 0] chunks_2500000(1)
  by auto

text \<open>
  errors in a one-sided request. A refused chunk ends the call with the device's code and the lock
  released, while the chunks before it stay on the wire; an event channel that fails ends the call with the
  lock of the queue pair still held.
\<close>

theorem one_sided_request_failures:
  assumes "\<not> ap_start_flag (sh_app s)" and "wr_sg_list (sh_wr s) = g # gs"
    and "wr_opcode (sh_wr s) \<in> {RDMA_WRITE, RDMA_READ}" and "c = split_chunk_size (sh_sb s) (wr_opcode (sh_wr s))"
    and "0 < c" and "c < sg_length g" and "chunks_float (sg_length g) c = of_nat (Suc k)" and "0 < k" and "k < 2 ^ 31"
    and "sh_script s = replicate j 0 @ r # rest" and "r \<noteq> 0" and "j \<le> k"
  shows "\<exists>s'. mlx4_post_send ok qs s = Inr (r, s') \<and> sh_locked s' = (j = k) \<and>
    posts (sh_log s') = posts (sh_log s) @ map (\<lambda>i. (Split_qp, one_sided_chunk (sh_wr s) g c k i)) [0..<j]"
proof -
  let ?s = "s\<lparr>sh_locked := True\<rparr>" let ?w = "sh_wr s"
  let ?ps = "map (\<lambda>i. (Split_qp, one_sided_chunk ?w g c k i)) [0..<j]"
  have l: "post_locked ?s = split_one_sided ?w g c ?s"
    using post_locked_split(3) [of ?s g gs c] assms by (simp add: needs_split_def)
  show ?thesis
  proof (cases "j = k")
    case True
    then have "one_sided_loop ?w g c k 0 k None ?s =
      sh_bind (await Send_channel) (\<lambda>_. sh_return (Some (one_sided_chunk ?w g c k (k - 1)))) (sh_after (r # rest) ?ps ?s)"
      using one_sided_loop_accepted [of ?s k "r # rest" k 0 ?w g c None] assms(8,10) by simp
    then show ?thesis
      using assms(1,11) l True split_one_sided_loop [OF assms(7,9)]
      by (simp add: post_send_started sh_bind_def await_def next_result_def)
  next
    case False
    then show ?thesis
      using assms(1,12) l split_one_sided_loop [OF assms(7,9)]
        one_sided_loop_refused [of ?s j r rest k k 0 ?w g c None] assms(10,11)
      by (simp add: post_send_started sh_bind_def)
  qed
qed


theorem one_sided_request_failures_witness:
  "\<exists>s'. mlx4_post_send True 0 (lone_request RDMA_WRITE 2500000 [0, 12]) = Inr (12, s') \<and> \<not> sh_locked s' \<and>
     length (posts (sh_log s')) = 1"
  using one_sided_request_failures [of "lone_request RDMA_WRITE 2500000 [0, 12]"
      "\<lparr>sg_addr = 65536, sg_length = 2500000, sg_lkey = 1\<rparr>" "[]" 1000000 2 1 12 "[]" True 0] chunks_2500000(1)
  by auto





text \<open>
  from 16 MiB on, the number of chunks of an RDMA WRITE with immediate can come out one too small, because the quotient
  is passed on as a \<open>float\<close>. Then the call returns 0 although one whole chunk of the message was never posted.
\<close>

theorem wimm_request_drops_chunk:
  assumes "mlx4_post_send ok qs s = Inr (0, s')" and "wr_sg_list (sh_wr s) = [g]"
    and "wr_opcode (sh_wr s) = RDMA_WRITE_WITH_IMM" and "c = split_chunk_size (sh_sb s) RDMA_WRITE_WITH_IMM"
    and "0 < c" and "c < sg_length g" and "n = unat (chunks_double (sg_length g) c)"
    and "n * unat c < unat (sg_length g)" and "unat (sg_length g) \<le> Suc n * unat c"
  shows "\<exists>ps. posts (sh_log s') = posts (sh_log s) @ ps \<and> bytes_of (segments ps) = unat (sg_length g) - unat c"
proof -
  obtain s1 x where s1: "post_locked s1 = Inr (Cont x, s')" "sh_wr s1 = sh_wr s" "sh_log s1 = sh_log s"
    "split_chunk_size (sh_sb s1) = split_chunk_size (sh_sb s)" using post_send_ok [OF assms(1)] .
  have "split_wimm (sh_wr s) g c s1 = Inr (Cont x, s')"
    using post_locked_split(1) [of s1 g "[]" c] assms(2-6) s1 by (simp add: needs_split_def)
  from split_wimm_ok [OF this s1(2) assms(2)] obtain ps where
    ps: "0 < n" "posts (sh_log s') = posts (sh_log s) @ ps"
      "bytes_of (segments ps) = unat (if sg_length g mod c = 0 then c else sg_length g mod c) + (n - 1) * unat c"
    using s1(3) assms(7) by auto
  have "unat (if sg_length g mod c = 0 then c else sg_length g mod c) + n * unat c = unat (sg_length g)"
    using tail_chunk [OF assms(8,9)] by (auto simp: unat_mod simp flip: unat_eq_zero)
  moreover have "n * unat c = (n - 1) * unat c + unat c" using ps(1) by (cases n) simp_all
  ultimately show ?thesis using ps by (intro exI [of _ ps]) simp
qed

lemma chunks_32000001: "chunks_double 32000001 1000000 = 32"
proof -
  define x where "x = (32000001 / 1000000 :: rat)"
  define d where "d = to_double x"
  have "to_double 32 \<le> d" unfolding d_def x_def by (intro fl_mono) simp_all
  moreover have "to_double 32 = 32" using fl_of_nat [of 32 53] by simp
  moreover have "\<bar>d - x\<bar> \<le> x / 2 ^ 53" unfolding d_def by (rule fl_rel_err) (simp add: x_def)
  then have "d \<le> x + x / 2 ^ 53" by linarith
  then have "d < 32 + 1 / 2 ^ 19" unfolding x_def by simp
  ultimately have d: "32 \<le> d" "d < 32 + 1 / 2 ^ 19" by simp_all
  have "to_float d = of_int (2 ^ 23) * 2 powi (5 - int 24 + 1)"
    by (rule fl_eval) (use d in \<open>simp_all add: power_int_minus\<close>)
  then have "to_float (to_double x) = 32" by (simp add: d_def power_int_minus)
  moreover have "ceil_helper 32 = 32" by (simp add: ceil_helper_eq)
  ultimately show ?thesis by (simp add: chunks_double_def x_def)
qed

theorem wimm_request_drops_chunk_witness:
  "\<exists>s'. mlx4_post_send True 0 (lone_request RDMA_WRITE_WITH_IMM 32000001 (concat (replicate 31 [0, 0, 0, 1]) @ [0])) =
       Inr (0, s') \<and> bytes_of (segments (posts (sh_log s'))) = 31000001"
proof -
  define sc where "sc = concat (replicate 31 [0, 0, 0, 1]) @ [0 :: int]"
  let ?s = "lone_request RDMA_WRITE_WITH_IMM 32000001 sc" let ?s1 = "?s\<lparr>sh_locked := True\<rparr>"
  let ?g = "\<lparr>sg_addr = 65536, sg_length = 32000001, sg_lkey = 1\<rparr>"
  have "sh_script ?s1 = concat (replicate (max 1 (32 - 1)) [0, 0, 0, 1]) @ [0]" by (simp only: sc_def lone_request_def, simp)
  then obtain s2 where "split_wimm (sh_wr ?s) ?g 1000000 ?s1 = Inr (Cont 0, s2)"
    using split_wimm_accepted [of ?g 1000000 32 ?s1 "sh_wr ?s"] chunks_32000001 by auto
  then have "post_locked ?s1 = Inr (Cont 0, s2)"
    using post_locked_split(1) [of ?s1 ?g "[]" 1000000] by (simp add: needs_split_def)
  then have s': "mlx4_post_send True 0 ?s = Inr (0, s2)" by (simp add: post_send_started)
  have "\<exists>ps. posts (sh_log s2) = posts (sh_log ?s) @ ps \<and> bytes_of (segments ps) = unat (sg_length ?g) - unat (1000000 :: u32)"
    by (rule wimm_request_drops_chunk [OF s', where n = 32]) (simp_all add: chunks_32000001)
  then have "\<exists>s'. mlx4_post_send True 0 ?s = Inr (0, s') \<and> bytes_of (segments (posts (sh_log s'))) = 31000001"
    using s' by (intro exI [of _ s2]) simp
  then show ?thesis unfolding sc_def .
qed

end
