(* ===== verification/Prng.thy ===== *)
theory Prng
  imports Prelude C_Float "HOL-Library.Signed_Division"
begin

text \<open>
  The random number generators of \<open>rdma_pacer/prng.c\<close> the sketch draws its hash functions from, and the pairwise
  independent hash itself: the minimal standard generator with a shuffle table (\<open>ran1\<close>, \<open>ran2\<close>), the
  lagged Fibonacci generator RANROT-B (\<open>ran3\<close>, \<open>ran4\<close>), and the wrappers that choose between them. \<open>long\<close> is an
  unbounded integer here: with the state in its documented range no value leaves 64 bits. The 48-bit generator
  of the C library (choice 3) is part of the state, as POSIX defines it.
\<close>

unbundle bit_operations_syntax

section \<open>State\<close>

definition MOD31 :: int where [macro_defs]: "MOD31 = 2147483647"
definition KK :: nat where [macro_defs]: "KK = 17"
definition NTAB :: nat where [macro_defs]: "NTAB = 32"
definition JJ :: nat where [macro_defs]: "JJ = 10"
definition IA :: int where [macro_defs]: "IA = 16807"
definition IM :: int where [macro_defs]: "IM = 2147483647"
definition IQ :: int where [macro_defs]: "IQ = 127773"
definition IR :: int where [macro_defs]: "IR = 2836"
definition NDIV :: int where [macro_defs]: "NDIV = 67108864"

record prng =
  pr_usenric :: int
  pr_scale :: rat
  pr_floatidum :: int
  pr_intidum :: int
  pr_iy :: int
  pr_iv :: "int list"
  pr_buf :: "u64 list"
  pr_p1 :: nat
  pr_p2 :: nat
  pr_x48 :: "48 word"

section \<open>Hashing\<close>

definition hash31 :: "int \<Rightarrow> int \<Rightarrow> int \<Rightarrow> int" where
  "hash31 a b x = (let r = a * x + b in (drop_bit 31 r + r) AND MOD31)"

definition fourwise :: "int \<Rightarrow> int \<Rightarrow> int \<Rightarrow> int \<Rightarrow> int \<Rightarrow> int" where
  "fourwise a b c d x = hash31 (hash31 (hash31 x a b) x c) x d"

section \<open>The minimal standard generator\<close>

text \<open>One step by Schrage's method; C division truncates.\<close>

definition schrage :: "int \<Rightarrow> int" where
  "schrage idum =
     (let k = idum sdiv IQ; y = IA * (idum - k * IQ) - IR * k in if y < 0 then y + IM else y)"

fun warm_up :: "nat \<Rightarrow> int \<Rightarrow> int list \<Rightarrow> int \<times> int list" where
  "warm_up 0 idum iv = (idum, iv)"
| "warm_up (Suc j) idum iv =
     (let x = schrage idum in warm_up j x (if j < NTAB then iv[j := x] else iv))"

definition nr_start :: "int \<Rightarrow> int \<Rightarrow> int list \<Rightarrow> int \<times> int \<times> int list" where
  "nr_start idum iy iv =
     (if idum \<le> 0 \<or> iy = 0
      then let (x, iv1) = warm_up (NTAB + 8) (if - idum < 1 then 1 else - idum) iv in (x, iv1 ! 0, iv1)
      else (idum, iy, iv))"

text \<open>The common part of \<open>ran1\<close> and \<open>ran2\<close>, which share the table and \<open>iy\<close>: the new \<open>iy\<close>, seed and table.\<close>

definition nr_draw :: "int \<Rightarrow> int \<Rightarrow> int list \<Rightarrow> (int \<times> int \<times> int list) res" where
  "nr_draw idum iy iv =
     (let (x, y, iv1) = nr_start idum iy iv; x1 = schrage x; j = y sdiv NDIV
      in if j < 0 \<or> int (length iv1) \<le> j then Inl Out_of_bounds
         else Inr (iv1 ! nat j, x1, iv1[nat j := x1]))"

definition RNMX :: rat where [macro_defs]: "RNMX = to_double (1 - to_double (12 / 10 ^ 8))"

definition ran1 :: "prng \<Rightarrow> (rat \<times> prng) res" where
  "ran1 p = res_bind (nr_draw (pr_floatidum p) (pr_iy p) (pr_iv p)) (\<lambda>(y, x, iv).
     let temp = to_float (to_double (to_double (1 / of_int IM) * of_int y));
         p1 = p\<lparr>pr_floatidum := x, pr_iy := y, pr_iv := iv\<rparr>
     in Inr (if RNMX < temp then to_float RNMX else temp, p1))"

definition ran2 :: "prng \<Rightarrow> (int \<times> prng) res" where
  "ran2 p = res_bind (nr_draw (pr_intidum p) (pr_iy p) (pr_iv p)) (\<lambda>(y, x, iv).
     Inr (y, p\<lparr>pr_intidum := x, pr_iy := y, pr_iv := iv\<rparr>))"

section \<open>RANROT-B\<close>

definition rotl :: "u64 \<Rightarrow> nat \<Rightarrow> u64" where
  "rotl x r = push_bit r x OR drop_bit (64 - r) x"

definition ran3 :: "prng \<Rightarrow> u64 \<times> prng" where
  "ran3 p =
     (let x = rotl (pr_buf p ! pr_p2 p) 5 + rotl (pr_buf p ! pr_p1 p) 3
      in (x, p\<lparr>pr_buf := (pr_buf p)[pr_p1 p := x],
           pr_p1 := (if pr_p1 p = 0 then KK - 1 else pr_p1 p - 1),
           pr_p2 := (if pr_p2 p = 0 then KK - 1 else pr_p2 p - 1)\<rparr>))"

text \<open>The product is one of \<open>float\<close>s.\<close>

definition ran4 :: "prng \<Rightarrow> rat \<times> prng" where
  "ran4 p = (let (x, p1) = ran3 p in (to_float (to_float (of_nat (unat x)) * pr_scale p), p1))"

fun fill_seeds :: "nat \<Rightarrow> u64 \<Rightarrow> u64 list" where
  "fill_seeds 0 seed = []"
| "fill_seeds (Suc k) seed = seed # fill_seeds k (rotl seed 5 + 97)"

fun ran3_times :: "nat \<Rightarrow> prng \<Rightarrow> prng" where
  "ran3_times 0 p = p"
| "ran3_times (Suc n) p = ran3_times n (snd (ran3 p))"

definition RanrotAInit :: "u64 \<Rightarrow> prng \<Rightarrow> prng" where
  "RanrotAInit seed p =
     (ran3_times 300 (p\<lparr>pr_buf := fill_seeds KK seed, pr_p1 := 0, pr_p2 := JJ\<rparr>))\<lparr>pr_scale := 2 powi -64\<rparr>"

section \<open>The wrappers\<close>

definition next48 :: "48 word \<Rightarrow> 48 word" where
  "next48 x = 25214903917 * x + 11"

definition seed48_of :: "int \<Rightarrow> 48 word" where
  "seed48_of seed = push_bit 16 (word_of_int (take_bit 32 seed)) + 13070"

definition prng_int :: "prng \<Rightarrow> (int \<times> prng) res" where
  "prng_int p =
     (if pr_usenric p = 1 then ran2 p
      else if pr_usenric p = 2 then (let (x, p1) = ran3 p in Inr (sint x, p1))
      else if pr_usenric p = 3 then
        (let x = next48 (pr_x48 p) in Inr (int (unat (drop_bit 17 x)), p\<lparr>pr_x48 := x\<rparr>))
      else Inr (0, p))"

definition prng_float :: "prng \<Rightarrow> (rat \<times> prng) res" where
  "prng_float p =
     (if pr_usenric p = 1 then ran1 p
      else if pr_usenric p = 2 then (let (x, p1) = ran4 p in Inr (to_float x, p1))
      else if pr_usenric p = 3 then
        (let x = next48 (pr_x48 p) in Inr (to_float (of_nat (unat x) / 2 ^ 48), p\<lparr>pr_x48 := x\<rparr>))
      else Inr (0, p))"

definition prng_Reseed :: "int \<Rightarrow> prng \<Rightarrow> prng" where
  "prng_Reseed seed p =
     (if pr_usenric p = 2 then RanrotAInit (word_of_int seed) p
      else if pr_usenric p = 1 then
        (if 0 < seed then p\<lparr>pr_floatidum := - seed, pr_intidum := - seed\<rparr>
         else p\<lparr>pr_floatidum := seed, pr_intidum := seed\<rparr>)
      else if pr_usenric p = 3 then p\<lparr>pr_x48 := seed48_of seed\<rparr>
      else p)"

definition prng_Init :: "int \<Rightarrow> int \<Rightarrow> 48 word \<Rightarrow> prng res" where
  "prng_Init seed nric x48 =
     (let p = \<lparr>pr_usenric = nric, pr_scale = 0, pr_floatidum = -1, pr_intidum = -1, pr_iy = 0,
               pr_iv = replicate NTAB 0, pr_buf = replicate KK 0, pr_p1 = 0, pr_p2 = 0, pr_x48 = x48\<rparr>
      in res_bind (prng_float (prng_Reseed seed p)) (\<lambda>(_, p1).
         res_bind (prng_int p1) (\<lambda>(_, p2). Inr p2)))"


section \<open>The hash\<close>

lemma MOD31_mask: "MOD31 = mask 31"
  by (simp add: MOD31_def mask_eq_exp_minus_1)

lemma hash31_eq: "hash31 a b x = ((a * x + b) div 2 ^ 31 + (a * x + b)) mod 2 ^ 31"
  by (simp add: hash31_def MOD31_mask Let_def drop_bit_eq_div take_bit_eq_mod flip: take_bit_eq_mask)

lemma hash31_range: "0 \<le> hash31 a b x" "hash31 a b x < 2 ^ 31"
  by (simp_all add: hash31_eq)

text \<open>How far the hash is from the residue modulo \<open>2^31 - 1\<close> that its comment promises.\<close>

lemma hash31_fold:
  fixes r :: int
  assumes "0 \<le> r"
  defines "q \<equiv> r div 2 ^ 31" and "t \<equiv> r mod 2 ^ 31"
  shows "(q + r) mod 2 ^ 31 = (q + t) mod 2 ^ 31" "(q + t) mod (2 ^ 31 - 1) = r mod (2 ^ 31 - 1)"
proof -
  have r: "r = q * 2 ^ 31 + t" by (simp add: q_def t_def)
  show "(q + r) mod 2 ^ 31 = (q + t) mod 2 ^ 31" unfolding t_def by (simp only: mod_add_right_eq)
  have "r = (q + t) + q * (2 ^ 31 - 1)" by (subst r) (simp add: algebra_simps)
  then show "(q + t) mod (2 ^ 31 - 1) = r mod (2 ^ 31 - 1)" by (metis mod_mult_self1)
qed

section \<open>Schrage's method\<close>

lemma schrage_eq:
  assumes "0 < x" "x < IM"
  shows "schrage x = IA * x mod IM" "0 < schrage x" "schrage x < IM"
proof -
  define q where "q = x div IQ"
  define r where "r = x mod IQ"
  have x: "x = q * IQ + r" by (simp add: q_def r_def)
  have r: "0 \<le> r" "r < IQ" by (simp_all add: r_def IQ_def)
  have q: "0 \<le> q" "q \<le> 16807" using assms by (simp_all add: q_def IQ_def IM_def)
  have sd: "x sdiv IQ = q" using assms by (simp add: signed_divide_int_def q_def IQ_def)
  define y where "y = IA * r - IR * q"
  have s: "schrage x = (if y < 0 then y + IM else y)"
    unfolding schrage_def Let_def sd y_def using x by (simp add: algebra_simps)
  have y: "- IM < y" "y < IM" using r q by (simp_all add: y_def IA_def IR_def IM_def IQ_def)
  have "y = IA * x - IM * q" unfolding y_def x by (simp add: IA_def IR_def IM_def IQ_def algebra_simps)
  then have cong: "y mod IM = IA * x mod IM" by (simp add: mod_diff_eq [symmetric])
  have nz: "IA * x mod IM \<noteq> 0"
  proof
    assume "IA * x mod IM = 0"
    then have "IM dvd 1407677000 * (IA * x)" by (simp add: dvd_mult mod_eq_0_iff_dvd)
    moreover have "1407677000 * (IA * x) = x + IM * (11017 * x)" by (simp add: IA_def IM_def)
    ultimately have "IM dvd x + IM * (11017 * x)" by metis
    then have "IM dvd x" by (metis dvd_add_left_iff dvd_triv_left)
    then show False using assms zdvd_imp_le by fastforce
  qed
  have "schrage x mod IM = IA * x mod IM" unfolding s cong [symmetric] by simp
  moreover have "0 \<le> schrage x" "schrage x < IM" unfolding s using y by simp_all
  ultimately show eq: "schrage x = IA * x mod IM" by (metis mod_pos_pos_trivial)
  have "0 < IM" by (simp add: IM_def)
  then show "schrage x < IM" "0 < schrage x" 
    unfolding eq using nz pos_mod_sign [of IM "IA * x"] pos_mod_bound [of IM "IA * x"] by linarith+
qed

text \<open>Seeds and table entries of the minimal standard generator.\<close>

abbreviation nr_val :: "int \<Rightarrow> bool" where "nr_val x \<equiv> 0 < x \<and> x < IM"

lemma warm_up_range:
  assumes "nr_val idum" "length iv = NTAB" "\<And>i. n \<le> i \<Longrightarrow> i < NTAB \<Longrightarrow> nr_val (iv ! i)"
  shows "nr_val (fst (warm_up n idum iv)) \<and> length (snd (warm_up n idum iv)) = NTAB \<and>
    (\<forall>x\<in>set (snd (warm_up n idum iv)). nr_val x)"
  using assms
proof (induction n arbitrary: idum iv)
  case 0
  then show ?case by (auto simp: in_set_conv_nth)
next
  case (Suc n)
  let ?x = "schrage idum" let ?iv = "if n < NTAB then iv[n := ?x] else iv"
  have x: "nr_val ?x" using schrage_eq [of idum] Suc.prems(1) by simp
  have v: "nr_val (?iv ! i)" if "n \<le> i" "i < NTAB" for i
  proof (cases "i = n")
    case True
    then show ?thesis using that Suc.prems(2) x by simp
  next
    case False
    then show ?thesis using that Suc.prems(3) [of i] by simp
  qed
  have l: "length ?iv = NTAB" using Suc.prems(2) by simp
  show ?case unfolding warm_up.simps Let_def by (rule Suc.IH [OF x l v])
qed

definition nr_ok :: "int \<Rightarrow> int list \<Rightarrow> bool" where
  "nr_ok iy iv \<longleftrightarrow> length iv = NTAB \<and> (iy = 0 \<or> nr_val iy \<and> (\<forall>x\<in>set iv. nr_val x))"

lemma nr_draw_ok:
  assumes "nr_ok iy iv" "- IM < idum" "idum < IM"
  obtains y x iv' where "nr_draw idum iy iv = Inr (y, x, iv')" "nr_val y" "nr_val x" "nr_ok y iv'"
proof -
  obtain x0 y0 iv0 where s: "nr_start idum iy iv = (x0, y0, iv0)" by (metis prod_cases3)
  have ok: "nr_val x0 \<and> nr_val y0 \<and> length iv0 = NTAB \<and> (\<forall>x\<in>set iv0. nr_val x)"
  proof (cases "idum \<le> 0 \<or> iy = 0")
    case True
    define i0 where "i0 = (if - idum < 1 then 1 else - idum)"
    have "nr_val i0" using assms(2) by (simp add: i0_def IM_def)
    moreover have l: "length iv = NTAB" using assms(1) by (simp add: nr_ok_def)
    ultimately have w: "nr_val (fst (warm_up (NTAB + 8) i0 iv)) \<and> length (snd (warm_up (NTAB + 8) i0 iv)) = NTAB \<and>
        (\<forall>x\<in>set (snd (warm_up (NTAB + 8) i0 iv)). nr_val x)" by (intro warm_up_range) simp_all
    moreover have "(x0, iv0) = warm_up (NTAB + 8) i0 iv" "y0 = iv0 ! 0"
      using s True by (auto simp: nr_start_def i0_def split: prod.splits)
    moreover have "iv0 ! 0 \<in> set iv0" using w calculation(2) by (intro nth_mem) (auto simp: NTAB_def dest: sym)
    ultimately show ?thesis by (metis fst_conv snd_conv)
  next
    case False
    then show ?thesis using s assms by (auto simp: nr_start_def nr_ok_def)
  qed
  have "y0 div 67108864 \<le> 2147483646 div 67108864" using ok by (intro zdiv_mono1) (simp_all add: IM_def)
  then have j: "y0 sdiv NDIV = y0 div NDIV" "0 \<le> y0 div NDIV" "y0 div NDIV < 32"
    using ok by (simp_all add: signed_divide_int_def NDIV_def pos_imp_zdiv_nonneg_iff)
  have "nr_val (iv0 ! nat (y0 div NDIV))" using ok j by (simp add: NTAB_def)
  moreover have "nr_val (schrage x0)" using ok schrage_eq [of x0] by simp
  moreover have "nr_draw idum iy iv = Inr (iv0 ! nat (y0 div NDIV), schrage x0, iv0[nat (y0 div NDIV) := schrage x0])"
    using ok j by (simp add: nr_draw_def s NTAB_def Let_def)
  moreover have "nr_ok (iv0 ! nat (y0 div NDIV)) (iv0[nat (y0 div NDIV) := schrage x0])"
    using calculation(1,2) ok set_update_subset_insert [of iv0 "nat (y0 div NDIV)" "schrage x0"]
    by (auto simp: nr_ok_def)
  ultimately show ?thesis using that by blast
qed

section \<open>The lagged Fibonacci generator\<close>

section \<open>The lagged Fibonacci generator\<close>

text \<open>
  The specification: a register of the last 17 numbers, newest first; the next one is
  \<open>rotl X[n-10] 5 + rotl X[n-17] 3\<close>.
\<close>

definition fib_next :: "u64 list \<Rightarrow> u64" where
  "fib_next h = rotl (h ! 9) 5 + rotl (h ! 16) 3"

fun fib_draws :: "nat \<Rightarrow> u64 list \<Rightarrow> u64 list" where
  "fib_draws 0 h = []"
| "fib_draws (Suc n) h = fib_next h # fib_draws n (fib_next h # butlast h)"

fun ran3_draws :: "nat \<Rightarrow> prng \<Rightarrow> u64 list" where
  "ran3_draws 0 p = []"
| "ran3_draws (Suc n) p = (let (x, p1) = ran3 p in x # ran3_draws n p1)"

definition ran3_ok :: "prng \<Rightarrow> bool" where
  "ran3_ok p \<longleftrightarrow> length (pr_buf p) = KK \<and> pr_p1 p < KK \<and> pr_p2 p = (pr_p1 p + JJ) mod KK"

text \<open>The register a state stands for: the buffer from the slot behind the write position.\<close>

definition ran3_history :: "prng \<Rightarrow> u64 list" where
  "ran3_history p = ring_slice (pr_buf p) ((pr_p1 p + 1) mod KK) KK"

lemma ran3_history_nth:
  "\<lbrakk>ran3_ok p; j < KK\<rbrakk> \<Longrightarrow> ran3_history p ! j = pr_buf p ! ((pr_p1 p + 1 + j) mod KK)"
  by (simp add: ran3_history_def ring_slice_def ran3_ok_def mod_add_left_eq)

lemma pred_mod: "i < KK \<Longrightarrow> (if i = 0 then KK - 1 else i - 1) = (i + 16) mod KK"
  by (auto simp: KK_def mod_if)

lemma ran3_step:
  assumes "ran3_ok p"
  shows "fst (ran3 p) = fib_next (ran3_history p)" "ran3_ok (snd (ran3 p))"
    "ran3_history (snd (ran3 p)) = fib_next (ran3_history p) # butlast (ran3_history p)"
proof -
  define i where "i = pr_p1 p"
  have i: "i < KK" "length (pr_buf p) = KK" "pr_p2 p = (i + JJ) mod KK" using assms by (simp_all add: ran3_ok_def i_def)
  have "(i + 1 + 16) mod KK = i" using i(1) by (simp add: KK_def)
  then have x: "rotl (pr_buf p ! pr_p2 p) 5 + rotl (pr_buf p ! pr_p1 p) 3 = fib_next (ran3_history p)"
    using i by (simp add: fib_next_def ran3_history_nth [OF assms] i_def [symmetric] KK_def JJ_def add.commute [of i])
  then show "fst (ran3 p) = fib_next (ran3_history p)" by (simp add: ran3_def Let_def)
  define i' where "i' = (i + 16) mod KK"
  have i': "i' < KK" "(i' + 1) mod KK = i" using i(1) by (simp_all add: i'_def KK_def mod_simps)
  have p2: "(if pr_p2 p = 0 then KK - 1 else pr_p2 p - 1) = (i' + JJ) mod KK"
    using i(3) by (subst pred_mod) (simp_all add: i'_def KK_def JJ_def mod_simps ac_simps)
  have p1: "(if pr_p1 p = 0 then KK - 1 else pr_p1 p - 1) = i'"
    using pred_mod [OF i(1)] by (simp only: i'_def i_def)
  have s: "snd (ran3 p) = p\<lparr>pr_buf := (pr_buf p)[i := fib_next (ran3_history p)], pr_p1 := i', pr_p2 := (i' + JJ) mod KK\<rparr>"
    unfolding ran3_def Let_def x p1 p2 i_def by simp
  show ok: "ran3_ok (snd (ran3 p))" using i i' by (simp add: s ran3_ok_def)
  show "ran3_history (snd (ran3 p)) = fib_next (ran3_history p) # butlast (ran3_history p)"
  proof (rule nth_equalityI)
    show "length (ran3_history (snd (ran3 p))) = length (fib_next (ran3_history p) # butlast (ran3_history p))"
      by (simp add: ran3_history_def KK_def)
    fix j
    assume "j < length (ran3_history (snd (ran3 p)))"
    then have j: "j < KK" by (simp add: ran3_history_def)
    have "(i' + 1 + j) mod KK = (i + j) mod KK" using i'(2) by (metis mod_add_left_eq)
    then have h: "ran3_history (snd (ran3 p)) ! j = (pr_buf p)[i := fib_next (ran3_history p)] ! ((i + j) mod KK)"
      using ran3_history_nth [OF ok j] by (simp add: s)
    show "ran3_history (snd (ran3 p)) ! j = (fib_next (ran3_history p) # butlast (ran3_history p)) ! j"
    proof (cases j)
      case 0
      then show ?thesis using h i by simp
    next
      case (Suc m)
      then have m: "m < KK" "m < 16" using j by (simp_all add: KK_def)
      have "(i + j) mod KK \<noteq> i" using mod_add_neq [OF i(1) j] Suc by simp
      then have "ran3_history (snd (ran3 p)) ! j = pr_buf p ! ((i + 1 + m) mod KK)" using h Suc by simp
      also have "\<dots> = ran3_history p ! m" using ran3_history_nth [OF assms m(1)] by (simp add: i_def)
      also have "\<dots> = butlast (ran3_history p) ! m" using m by (simp add: nth_butlast ran3_history_def KK_def)
      finally show ?thesis using Suc by simp
    qed
  qed
qed

lemma length_fill_seeds [simp]: "length (fill_seeds k seed) = k"
  by (induction k arbitrary: seed) simp_all

lemma ran3_times_ok: "ran3_ok p \<Longrightarrow> ran3_ok (ran3_times n p)"
  by (induction n arbitrary: p) (simp_all add: ran3_step)

lemma RanrotAInit_ok: "ran3_ok (RanrotAInit seed p)"
proof -
  have "ran3_ok (ran3_times 300 (p\<lparr>pr_buf := fill_seeds KK seed, pr_p1 := 0, pr_p2 := JJ\<rparr>))"
    by (rule ran3_times_ok) (simp add: ran3_ok_def KK_def JJ_def)
  then show ?thesis by (simp add: RanrotAInit_def ran3_ok_def)
qed

section \<open>Properties\<close>

text \<open>
  after \<open>RanrotAInit\<close> with any seed, \<open>ran3\<close> computes the sequence its documentation gives,
  \<open>X[n] = rotl X[n-10] 5 + rotl X[n-17] 3\<close>, for any number of draws; its two moving pointers never leave the buffer.
\<close>

theorem ran3_is_lagged_fibonacci:
  "ran3_draws n (RanrotAInit seed p) = fib_draws n (ran3_history (RanrotAInit seed p)) \<and>
   ran3_ok (ran3_times n (RanrotAInit seed p))"
proof -
  have "ran3_draws n q = fib_draws n (ran3_history q)" if "ran3_ok q" for q
    using that
  proof (induction n arbitrary: q)
    case (Suc n)
    then show ?case using ran3_step [OF Suc.prems] by (simp add: Let_def case_prod_unfold)
  qed simp
  then show ?thesis using RanrotAInit_ok ran3_times_ok by blast
qed

end
