(* ===== verification/Count_Min.thy ===== *)
theory Count_Min
  imports Prng Ring_Queue
begin

text \<open>
  The windowed hierarchical count-min sketch of \<open>rdma_pacer/countmin.c\<close>, from which the monitor can take the tail of
  the latencies it measured (\<open>USE_CMH\<close>). Level \<open>i\<close> counts the items of the window shifted right by \<open>i * gran\<close> bits:
  exactly from level \<open>freelim\<close> on, below it in a sketch of \<open>depth\<close> rows of \<open>width\<close> counters. Allocations succeed;
  an index outside a row is a fault, and so is a number of counters of a row that is no \<open>int\<close>. \<open>int\<close> counters are unbounded: they stay within the window size.
\<close>

unbundle bit_operations_syntax

record cmh =
  cm_U :: nat
  cm_gran :: nat
  cm_levels :: nat
  cm_freelim :: nat
  cm_depth :: nat
  cm_width :: nat
  cm_counts :: "int list list"
  cm_count :: nat
  cm_window :: nat
  cm_items :: queue
  cm_hasha :: "int list list"
  cm_hashb :: "int list list"

section \<open>Initialisation\<close>

fun free_scan :: "nat \<Rightarrow> nat \<Rightarrow> nat \<Rightarrow> nat \<Rightarrow> nat option \<Rightarrow> nat option" where
  "free_scan gran room j 0 f = f"
| "free_scan gran room j (Suc k) f =
     (if 2 ^ (gran * j) \<le> room then free_scan gran room (Suc j) k (Some j) else f)"

fun draw_hashes :: "nat \<Rightarrow> prng \<Rightarrow> ((int \<times> int) list \<times> prng) res" where
  "draw_hashes 0 p = Inr ([], p)"
| "draw_hashes (Suc k) p =
     res_bind (prng_int p) (\<lambda>(a, p1). res_bind (prng_int p1) (\<lambda>(b, p2).
     res_bind (draw_hashes k p2) (\<lambda>(rest, p3). Inr ((a AND MOD31, b AND MOD31) # rest, p3))))"

text \<open>The rows of the levels below \<open>Suc i\<close>, drawn from the highest level down.\<close>

fun alloc_levels :: "nat \<Rightarrow> nat \<Rightarrow> nat \<Rightarrow> nat \<Rightarrow> nat \<Rightarrow> nat \<Rightarrow> prng \<Rightarrow> (int list \<times> (int \<times> int) list) list res" where
  "alloc_levels gran freelim depth width j 0 p = Inr []"
| "alloc_levels gran freelim depth width j (Suc i) p =
     (if freelim \<le> i then
        res_bind (alloc_levels gran freelim depth width (Suc j) i p) (\<lambda>ls.
          Inr (ls @ [(replicate (2 ^ (gran * j)) 0, [])]))
      else
        res_bind (draw_hashes depth p) (\<lambda>(hs, p1).
        res_bind (alloc_levels gran freelim depth width j i p1) (\<lambda>ls.
          Inr (ls @ [(replicate (depth * width) 0, hs)]))))"

definition CMH_Init :: "nat \<Rightarrow> nat \<Rightarrow> nat \<Rightarrow> nat \<Rightarrow> nat \<Rightarrow> cmh option res" where
  "CMH_Init width depth U gran windowSize =
     (if U = 0 \<or> 32 \<le> U then Inr None
      else if U < gran \<or> gran < 1 then Inr None
      else res_bind (prng_Init (-12784) 2 0) (\<lambda>p.
        let levels = nat \<lceil>to_double (of_nat U / of_nat gran)\<rceil> in
        if 2 ^ 31 \<le> depth * width then Inl Int_overflow
        else case free_scan gran (depth * width) 0 levels None of
          None \<Rightarrow> Inl Uninit_read
        | Some f \<Rightarrow>
          res_bind (alloc_levels gran (levels - f) depth width 1 levels p) (\<lambda>ls.
            Inr (Some \<lparr>cm_U = U, cm_gran = gran, cm_levels = levels, cm_freelim = levels - f, cm_depth = depth,
              cm_width = width, cm_counts = map fst ls, cm_count = 0, cm_window = windowSize,
              cm_items = queue_init windowSize, cm_hasha = map (map fst \<circ> snd) ls, cm_hashb = map (map snd \<circ> snd) ls\<rparr>))))"

section \<open>Updates\<close>

definition sketch_cell :: "cmh \<Rightarrow> nat \<Rightarrow> nat \<Rightarrow> int \<Rightarrow> nat" where
  "sketch_cell c i j item =
     nat (hash31 (cm_hasha c ! i ! j) (cm_hashb c ! i ! j) item mod int (cm_width c)) + j * cm_width c"

definition add_at :: "nat \<Rightarrow> int \<Rightarrow> int list \<Rightarrow> int list res" where
  "add_at k d row = res_bind (arr_get row k) (\<lambda>x. arr_set row k (x + d))"

fun add_rows :: "cmh \<Rightarrow> int \<Rightarrow> nat \<Rightarrow> int \<Rightarrow> nat \<Rightarrow> nat \<Rightarrow> int list \<Rightarrow> int list res" where
  "add_rows c d i item j 0 row = Inr row"
| "add_rows c d i item j (Suc k) row =
     res_bind (add_at (sketch_cell c i j item) d row) (\<lambda>row1. add_rows c d i item (Suc j) k row1)"

definition add_level :: "cmh \<Rightarrow> int \<Rightarrow> nat \<Rightarrow> int \<Rightarrow> int list \<Rightarrow> int list res" where
  "add_level c d i item row =
     (if cm_freelim c \<le> i then (if item < 0 then Inl Out_of_bounds else add_at (nat item) d row)
      else add_rows c d i item 0 (cm_depth c) row)"

text \<open>All levels, the item shifted by \<open>gran\<close> bits from one to the next.\<close>

fun add_levels :: "cmh \<Rightarrow> int \<Rightarrow> int \<Rightarrow> nat \<Rightarrow> int list list \<Rightarrow> int list list res" where
  "add_levels c d item i [] = Inr []"
| "add_levels c d item i (row # rows) =
     res_bind (add_level c d i item row) (\<lambda>r.
     res_bind (add_levels c d (drop_bit (cm_gran c) item) (Suc i) rows) (\<lambda>rs. Inr (r # rs)))"

definition CMH_Delete :: "cmh \<Rightarrow> int \<Rightarrow> cmh res" where
  "CMH_Delete c item =
     res_bind (add_levels c (-1) item 0 (cm_counts c)) (\<lambda>cs. Inr (c\<lparr>cm_counts := cs\<rparr>))"

definition CMH_Update :: "cmh option \<Rightarrow> int \<Rightarrow> (int \<times> cmh option) res" where
  "CMH_Update m item =
     (case m of None \<Rightarrow> Inr (1, None)
      | Some c \<Rightarrow>
        if 2 ^ cm_U c < item then Inr (1, Some c)
        else if item < 0 then Inr (1, Some c)
        else res_bind
          (if cm_count c < cm_window c then
             res_bind (queue_push (cm_items c) item) (\<lambda>q. Inr (c\<lparr>cm_count := cm_count c + 1, cm_items := q\<rparr>))
           else
             res_bind (queue_pop (cm_items c)) (\<lambda>(old, q).
             res_bind (CMH_Delete (c\<lparr>cm_items := q\<rparr>) old) (\<lambda>c1.
             res_bind (queue_push (cm_items c1) item) (\<lambda>q. Inr (c1\<lparr>cm_items := q\<rparr>)))))
          (\<lambda>c1. res_bind (add_levels c1 1 item 0 (cm_counts c1)) (\<lambda>cs. Inr (0, Some (c1\<lparr>cm_counts := cs\<rparr>)))))"

section \<open>Queries\<close>

fun min_rows :: "cmh \<Rightarrow> nat \<Rightarrow> int \<Rightarrow> nat \<Rightarrow> nat \<Rightarrow> int \<Rightarrow> int res" where
  "min_rows c i item j 0 est = Inr est"
| "min_rows c i item j (Suc k) est =
     res_bind (arr_get (cm_counts c ! i) (sketch_cell c i j item)) (\<lambda>x. min_rows c i item (Suc j) k (min est x))"

definition CMH_count :: "cmh \<Rightarrow> nat \<Rightarrow> int \<Rightarrow> int res" where
  "CMH_count c depth item =
     (if cm_levels c \<le> depth then Inr (int (cm_window c))
      else if cm_freelim c \<le> depth then
        (if item < 0 then Inl Out_of_bounds else arr_get (cm_counts c ! depth) (nat item))
      else res_bind (arr_get (cm_counts c ! depth) (sketch_cell c depth 0 item)) (\<lambda>x.
        min_rows c depth item 1 (cm_depth c - 1) x))"

fun sum_counts :: "cmh \<Rightarrow> nat \<Rightarrow> int list \<Rightarrow> int \<Rightarrow> int res" where
  "sum_counts c lv [] r = Inr r"
| "sum_counts c lv (x # xs) r = res_bind (CMH_count c lv x) (\<lambda>v. sum_counts c lv xs (r + v))"

text \<open>The loop over the levels; the third argument is the number of levels left.\<close>

fun range_loop :: "cmh \<Rightarrow> nat \<Rightarrow> nat \<Rightarrow> int \<Rightarrow> int \<Rightarrow> int \<Rightarrow> int res" where
  "range_loop c lv 0 s e r = Inr r"
| "range_loop c lv (Suc k) s e r =
     (if s = e then Inr r
      else if e - s + 1 < 2 ^ cm_gran c then sum_counts c lv [s..e - 1] r
      else let g = cm_gran c;
               leftend = push_bit g (drop_bit g s + 1) - s;
               rightend = e - push_bit g (drop_bit g e)
        in res_bind (if 0 < leftend \<and> s < e then sum_counts c lv (map (\<lambda>i. s + int i) [0..<nat leftend]) r else Inr r) (\<lambda>r1.
           res_bind (if 0 < rightend \<and> s < e then sum_counts c lv (map (\<lambda>i. e - int i - 1) [0..<nat rightend]) r1 else Inr r1) (\<lambda>r2.
           range_loop c (Suc lv) k (if 0 < leftend then drop_bit g s + 1 else drop_bit g s) (drop_bit g e) r2)))"

definition CMH_Rangesum :: "cmh \<Rightarrow> int \<Rightarrow> int \<Rightarrow> int res" where
  "CMH_Rangesum c s e =
     (let topend = 2 ^ cm_U c in
      if topend < e \<and> s = 0 then Inr (int (cm_window c))
      else range_loop c 0 (cm_levels c + 1) s (min topend e + 1) 0)"

fun find_loop :: "(int \<Rightarrow> bool res) \<Rightarrow> nat \<Rightarrow> int \<Rightarrow> int \<Rightarrow> int \<Rightarrow> int res" where
  "find_loop go_down 0 low high mid = Inr mid"
| "find_loop go_down (Suc k) low high mid =
     (let m = (low + high) div 2 in
      res_bind (go_down m) (\<lambda>b. if b then find_loop go_down k low m m else find_loop go_down k m high m))"

definition CMH_FindRange :: "cmh \<Rightarrow> int \<Rightarrow> int res" where
  "CMH_FindRange c sm =
     find_loop (\<lambda>m. res_bind (CMH_Rangesum c 0 m) (\<lambda>est. Inr (sm < est))) (cm_U c) 0 (2 ^ cm_U c) 0"

definition CMH_AltFindRange :: "cmh \<Rightarrow> int \<Rightarrow> int res" where
  "CMH_AltFindRange c sm =
     find_loop (\<lambda>m. res_bind (CMH_Rangesum c m (2 ^ cm_U c)) (\<lambda>est. Inr (est < sm))) (cm_U c) 0 (2 ^ cm_U c) 0"

definition CMH_Quantile :: "cmh \<Rightarrow> rat \<Rightarrow> int res" where
  "CMH_Quantile c fr =
     (if fr < 0 \<or> cm_count c < cm_window c then Inr 0
      else if 1 < fr then Inr (2 ^ cm_U c)
      else res_bind (CMH_FindRange c (c_trunc (to_double (of_nat (cm_window c) * fr)))) (\<lambda>a.
           res_bind (CMH_AltFindRange c (c_trunc (to_double (of_nat (cm_window c) * to_double (1 - fr))))) (\<lambda>b.
             Inr ((a + b) sdiv 2))))"

section \<open>One row\<close>

lemma add_at_ok: "k < length row \<Longrightarrow> add_at k d row = Inr (row[k := row ! k + d])"
  by (simp add: add_at_def)

text \<open>The cells of level \<open>i\<close> an item (already shifted) is counted in.\<close>

definition hits :: "cmh \<Rightarrow> nat \<Rightarrow> int \<Rightarrow> nat \<Rightarrow> bool" where
  "hits c i v k \<longleftrightarrow>
     (if cm_freelim c \<le> i then nat v = k
      else k < cm_depth c * cm_width c \<and> sketch_cell c i (k div cm_width c) v = k)"

lemma sketch_cell_row:
  assumes "0 < cm_width c"
  shows "sketch_cell c i j v div cm_width c = j" "j < cm_depth c \<Longrightarrow> sketch_cell c i j v < cm_depth c * cm_width c"
proof -
  define h where "h = nat (hash31 (cm_hasha c ! i ! j) (cm_hashb c ! i ! j) v mod int (cm_width c))"
  have h: "h < cm_width c" using assms by (simp add: h_def nat_less_iff)
  then show "sketch_cell c i j v div cm_width c = j" by (simp add: sketch_cell_def h_def)
  assume "j < cm_depth c"
  then have "Suc j * cm_width c \<le> cm_depth c * cm_width c" by (intro mult_le_mono1) simp
  then show "sketch_cell c i j v < cm_depth c * cm_width c" using h by (simp add: sketch_cell_def h_def)
qed

lemma add_rows_ok:
  assumes "0 < cm_width c" "j + k \<le> cm_depth c" "length row = cm_depth c * cm_width c"
  shows "\<exists>row'. add_rows c d i v j k row = Inr row' \<and> length row' = length row \<and>
    (\<forall>n<length row. row' ! n = row ! n + (if j \<le> n div cm_width c \<and> n div cm_width c < j + k \<and>
       sketch_cell c i (n div cm_width c) v = n then d else 0))"
  using assms(2,3)
proof (induction k arbitrary: j row)
  case (Suc k)
  let ?m = "sketch_cell c i j v"
  have m: "?m < length row" "?m div cm_width c = j"
    using sketch_cell_row [OF assms(1)] Suc.prems by simp_all
  let ?row = "row[?m := row ! ?m + d]"
  obtain row' where row': "add_rows c d i v (Suc j) k ?row = Inr row'" "length row' = length row"
    "\<And>n. n < length row \<Longrightarrow> row' ! n = ?row ! n + (if Suc j \<le> n div cm_width c \<and> n div cm_width c < Suc j + k \<and>
       sketch_cell c i (n div cm_width c) v = n then d else 0)"
    using Suc.IH [of "Suc j" ?row] Suc.prems by auto
  have "row' ! n = row ! n + (if j \<le> n div cm_width c \<and> n div cm_width c < j + Suc k \<and>
       sketch_cell c i (n div cm_width c) v = n then d else 0)" if n: "n < length row" for n
  proof (cases "n div cm_width c = j")
    case True
    then show ?thesis using row'(3) [OF n] m n by (cases "n = ?m") auto
  next
    case False
    then have "n \<noteq> ?m" using m(2) by auto
    then show ?thesis using row'(3) [OF n] False by auto
  qed
  then show ?case using row'(1,2) add_at_ok [OF m(1)] by auto
qed auto

lemma add_level_ok:
  assumes "0 < cm_width c" "length row = (if cm_freelim c \<le> i then sz else cm_depth c * cm_width c)"
    and "0 \<le> v" "cm_freelim c \<le> i \<Longrightarrow> nat v < sz"
  shows "\<exists>row'. add_level c d i v row = Inr row' \<and> length row' = length row \<and>
    (\<forall>n<length row. row' ! n = row ! n + (if hits c i v n then d else 0))"
proof (cases "cm_freelim c \<le> i")
  case True
  then show ?thesis using assms add_at_ok [of "nat v" row d]
    by (auto simp: add_level_def hits_def nth_list_update)
next
  case False
  then obtain row' where "add_rows c d i v 0 (cm_depth c) row = Inr row'" "length row' = length row"
    "\<forall>n<length row. row' ! n = row ! n + (if 0 \<le> n div cm_width c \<and> n div cm_width c < 0 + cm_depth c \<and>
       sketch_cell c i (n div cm_width c) v = n then d else 0)"
    using add_rows_ok [of c 0 "cm_depth c" row d i v] assms(1,2) by auto
  moreover have "n div cm_width c < cm_depth c" if "n < length row" for n
    using that False assms(1,2) by (simp add: less_mult_imp_div_less)
  ultimately show ?thesis using False assms(2) by (auto simp: add_level_def hits_def)
qed

section \<open>The window\<close>

definition level_size :: "cmh \<Rightarrow> nat \<Rightarrow> nat" where
  "level_size c i = (if cm_freelim c \<le> i then 2 ^ (cm_gran c * (cm_levels c - i)) else cm_depth c * cm_width c)"

definition at_level :: "cmh \<Rightarrow> nat \<Rightarrow> int \<Rightarrow> int" where
  "at_level c i w = drop_bit (cm_gran c * i) w"

text \<open>The shape of a sketch and what its counters say of a list of items.\<close>

definition cmh_shape :: "cmh \<Rightarrow> bool" where
  "cmh_shape c \<longleftrightarrow> 0 < cm_gran c \<and> 0 < cm_width c \<and> 0 < cm_depth c \<and> 0 < cm_freelim c \<and> 0 < cm_levels c \<and>
     cm_U c \<le> cm_gran c * cm_levels c \<and> 0 < cm_U c \<and>
     length (cm_counts c) = cm_levels c \<and> (\<forall>i<cm_levels c. length (cm_counts c ! i) = level_size c i)"

definition counts_items :: "cmh \<Rightarrow> int list \<Rightarrow> bool" where
  "counts_items c ws \<longleftrightarrow> (\<forall>i<cm_levels c. \<forall>n<level_size c i.
     cm_counts c ! i ! n = int (length (filter (\<lambda>w. hits c i (at_level c i w) n) ws)))"

definition item_ok :: "cmh \<Rightarrow> int \<Rightarrow> bool" where
  "item_ok c w \<longleftrightarrow> 0 \<le> w \<and> w < 2 ^ cm_U c"

lemma int_div_less:
  assumes "w < b * a" "0 < (b :: int)"
  shows "w div b < a"
proof (rule ccontr)
  assume "\<not> w div b < a"
  then have "b * a \<le> b * (w div b)" using assms(2) by (intro mult_left_mono) simp_all
  also have "\<dots> \<le> w" using assms(2) by (simp add: minus_mod_eq_mult_div [symmetric])
  finally show False using assms(1) by simp
qed

lemma at_level_range:
  assumes "cmh_shape c" "item_ok c w" "i \<le> cm_levels c"
  shows "0 \<le> at_level c i w" "at_level c i w < 2 ^ (cm_gran c * (cm_levels c - i))"
proof -
  show "0 \<le> at_level c i w" using assms(2) by (simp add: at_level_def item_ok_def)
  have "w < 2 ^ (cm_gran c * cm_levels c)"
    using assms(1,2) by (auto simp: item_ok_def cmh_shape_def intro: less_le_trans power_increasing)
  moreover have "cm_gran c * cm_levels c = cm_gran c * i + cm_gran c * (cm_levels c - i)"
    using assms(3) by (simp flip: distrib_left)
  ultimately show "at_level c i w < 2 ^ (cm_gran c * (cm_levels c - i))"
    by (simp add: at_level_def drop_bit_eq_div power_add int_div_less)
qed

lemma drop_at_level: "drop_bit (cm_gran c) (at_level c i w) = at_level c (Suc i) w"
  by (simp add: at_level_def add.commute)

text \<open>Adding \<open>d\<close> for an item on all levels.\<close>

definition added :: "cmh \<Rightarrow> int \<Rightarrow> int \<Rightarrow> nat \<Rightarrow> int list list \<Rightarrow> int list list \<Rightarrow> bool" where
  "added c d w i rows rows' \<longleftrightarrow> length rows' = length rows \<and>
     (\<forall>n<length rows. length (rows' ! n) = length (rows ! n) \<and>
       (\<forall>m<length (rows ! n). rows' ! n ! m = rows ! n ! m + (if hits c (i + n) (at_level c (i + n) w) m then d else 0)))"

lemma add_levels_ok:
  assumes "cmh_shape c" "item_ok c w" "i + length rows = cm_levels c"
    and "\<And>n. n < length rows \<Longrightarrow> length (rows ! n) = level_size c (i + n)"
  shows "\<exists>rows'. add_levels c d (at_level c i w) i rows = Inr rows' \<and> added c d w i rows rows'"
  using assms(3,4)
proof (induction rows arbitrary: i)
  case Nil
  then show ?case by (simp add: added_def)
next
  case (Cons row rows)
  have v: "0 \<le> at_level c i w" "at_level c i w < 2 ^ (cm_gran c * (cm_levels c - i))"
    using at_level_range [OF assms(1,2), of i] Cons.prems(1) by simp_all
  have len: "length row = (if cm_freelim c \<le> i then 2 ^ (cm_gran c * (cm_levels c - i)) else cm_depth c * cm_width c)"
    using Cons.prems(2) [of 0] by (simp add: level_size_def)
  have "nat (at_level c i w) < 2 ^ (cm_gran c * (cm_levels c - i))" using v by (simp add: nat_less_iff)
  then obtain row' where row': "add_level c d i (at_level c i w) row = Inr row'" "length row' = length row"
    "\<forall>n<length row. row' ! n = row ! n + (if hits c i (at_level c i w) n then d else 0)"
    using add_level_ok [OF _ len v(1), of d] assms(1) unfolding cmh_shape_def by metis
  have "length (rows ! n) = level_size c (Suc i + n)" if "n < length rows" for n
    using Cons.prems(2) [of "Suc n"] that by simp
  then obtain rows' where rows': "add_levels c d (at_level c (Suc i) w) (Suc i) rows = Inr rows'"
    "added c d w (Suc i) rows rows'"
    using Cons.IH [of "Suc i"] Cons.prems(1) by auto
  have "added c d w i (row # rows) (row' # rows')"
    unfolding added_def
  proof (intro conjI allI impI)
    show "length (row' # rows') = length (row # rows)" using rows'(2) by (simp add: added_def)
    fix n
    assume "n < length (row # rows)"
    then show "length ((row' # rows') ! n) = length ((row # rows) ! n)"
      using row'(2) rows'(2) by (cases n) (auto simp: added_def)
    fix m
    assume "m < length ((row # rows) ! n)"
    then show "(row' # rows') ! n ! m = (row # rows) ! n ! m +
        (if hits c (i + n) (at_level c (i + n) w) m then d else 0)"
      using row'(3) rows'(2) \<open>n < length (row # rows)\<close> by (cases n) (auto simp: added_def)
  qed
  then show ?case using row'(1) rows'(1) by (simp add: drop_at_level)
qed

lemma cmh_frame [simp]:
  "hits (c\<lparr>cm_counts := cs\<rparr>) = hits c" "hits (c\<lparr>cm_items := q\<rparr>) = hits c" "hits (c\<lparr>cm_count := n\<rparr>) = hits c"
  "at_level (c\<lparr>cm_counts := cs\<rparr>) = at_level c" "at_level (c\<lparr>cm_items := q\<rparr>) = at_level c"
  "at_level (c\<lparr>cm_count := n\<rparr>) = at_level c"
  "level_size (c\<lparr>cm_counts := cs\<rparr>) = level_size c" "level_size (c\<lparr>cm_items := q\<rparr>) = level_size c"
  "level_size (c\<lparr>cm_count := n\<rparr>) = level_size c"
  "item_ok (c\<lparr>cm_counts := cs\<rparr>) = item_ok c" "item_ok (c\<lparr>cm_items := q\<rparr>) = item_ok c"
  "item_ok (c\<lparr>cm_count := n\<rparr>) = item_ok c"
  by (simp_all add: fun_eq_iff hits_def sketch_cell_def at_level_def level_size_def item_ok_def)

lemma cmh_frame2 [simp]:
  "cmh_shape (c\<lparr>cm_items := q\<rparr>) = cmh_shape c" "cmh_shape (c\<lparr>cm_count := n\<rparr>) = cmh_shape c"
  "cmh_shape (c\<lparr>cm_items := q, cm_counts := cs\<rparr>) = cmh_shape (c\<lparr>cm_counts := cs\<rparr>)"
  "counts_items (c\<lparr>cm_items := q, cm_counts := cs\<rparr>) = counts_items (c\<lparr>cm_counts := cs\<rparr>)"
  "counts_items (c\<lparr>cm_items := q\<rparr>) = counts_items c" "counts_items (c\<lparr>cm_count := n\<rparr>) = counts_items c"
  by (simp_all add: fun_eq_iff cmh_shape_def counts_items_def)

text \<open>One more item, or the oldest one less.\<close>

lemma count_add:
  assumes "cmh_shape c" "item_ok c w" "counts_items c ws"
  shows "\<exists>cs. add_levels c 1 w 0 (cm_counts c) = Inr cs \<and> cmh_shape (c\<lparr>cm_counts := cs\<rparr>) \<and>
    counts_items (c\<lparr>cm_counts := cs\<rparr>) (ws @ [w])"
proof -
  have l: "0 + length (cm_counts c) = cm_levels c"
    "\<And>n. n < length (cm_counts c) \<Longrightarrow> length (cm_counts c ! n) = level_size c (0 + n)"
    using assms(1) by (auto simp: cmh_shape_def)
  have "at_level c 0 w = w" by (simp add: at_level_def)
  then obtain cs where cs: "add_levels c 1 w 0 (cm_counts c) = Inr cs" "added c 1 w 0 (cm_counts c) cs"
    using add_levels_ok [OF assms(1,2) l, of 1] by auto
  have "cmh_shape (c\<lparr>cm_counts := cs\<rparr>)" using assms(1) cs(2) by (simp add: cmh_shape_def added_def)
  moreover have "counts_items (c\<lparr>cm_counts := cs\<rparr>) (ws @ [w])"
    using assms(1,3) cs(2) by (simp add: counts_items_def added_def cmh_shape_def)
  ultimately show ?thesis using cs(1) by blast
qed

lemma count_del:
  assumes "cmh_shape c" "item_ok c w" "counts_items c (w # ws)"
  shows "\<exists>cs. CMH_Delete c w = Inr (c\<lparr>cm_counts := cs\<rparr>) \<and> cmh_shape (c\<lparr>cm_counts := cs\<rparr>) \<and>
    counts_items (c\<lparr>cm_counts := cs\<rparr>) ws"
proof -
  have l: "0 + length (cm_counts c) = cm_levels c"
    "\<And>n. n < length (cm_counts c) \<Longrightarrow> length (cm_counts c ! n) = level_size c (0 + n)"
    using assms(1) by (auto simp: cmh_shape_def)
  have "at_level c 0 w = w" by (simp add: at_level_def)
  then obtain cs where cs: "add_levels c (-1) w 0 (cm_counts c) = Inr cs" "added c (-1) w 0 (cm_counts c) cs"
    using add_levels_ok [OF assms(1,2) l, of "-1"] by auto
  have "cmh_shape (c\<lparr>cm_counts := cs\<rparr>)" using assms(1) cs(2) by (simp add: cmh_shape_def added_def)
  moreover have "counts_items (c\<lparr>cm_counts := cs\<rparr>) ws"
    using assms(1,3) cs(2) by (simp add: counts_items_def added_def cmh_shape_def)
  ultimately show ?thesis using cs(1) by (intro exI [of _ cs]) (simp add: CMH_Delete_def)
qed

definition cmh_inv :: "cmh \<Rightarrow> int list \<Rightarrow> bool" where
  "cmh_inv c ws \<longleftrightarrow> cmh_shape c \<and> counts_items c ws \<and> 0 < cm_window c \<and> queue_inv (cm_window c) (cm_items c) \<and>
     queue_items (cm_items c) = ws \<and> cm_count c = length ws \<and> length ws \<le> cm_window c \<and> (\<forall>w\<in>set ws. item_ok c w)"

text \<open>The fields an update never changes.\<close>

definition same_sketch :: "cmh \<Rightarrow> cmh \<Rightarrow> bool" where
  "same_sketch c c' \<longleftrightarrow> (\<exists>cs n q. c' = c\<lparr>cm_counts := cs, cm_count := n, cm_items := q\<rparr>)"

lemma update_ok:
  assumes "cmh_inv c ws" "item_ok c x"
  shows "\<exists>c'. CMH_Update (Some c) x = Inr (0, Some c') \<and> same_sketch c c' \<and>
    cmh_inv c' ((if length ws < cm_window c then ws else tl ws) @ [x])"
proof -
  note i = assms(1) [unfolded cmh_inv_def]
  have x: "\<not> 2 ^ cm_U c < x" "\<not> x < 0" using assms(2) by (auto simp: item_ok_def)
  show ?thesis
  proof (cases "length ws < cm_window c")
    case True
    obtain q where q: "queue_push (cm_items c) x = Inr q" "queue_inv (cm_window c) q" "queue_items q = ws @ [x]"
      using queue_push_room [of "cm_window c" "cm_items c" x] i True by auto
    let ?c = "c\<lparr>cm_count := cm_count c + 1, cm_items := q\<rparr>"
    obtain cs where cs: "add_levels ?c 1 x 0 (cm_counts ?c) = Inr cs" "cmh_shape (?c\<lparr>cm_counts := cs\<rparr>)"
      "counts_items (?c\<lparr>cm_counts := cs\<rparr>) (ws @ [x])"
      using count_add [of ?c x ws] i assms(2) by auto
    have "CMH_Update (Some c) x = Inr (0, Some (?c\<lparr>cm_counts := cs\<rparr>))"
      using x True i q(1) cs(1) by (simp add: CMH_Update_def)
    moreover have "cmh_inv (?c\<lparr>cm_counts := cs\<rparr>) (ws @ [x])"
      using i q cs True assms(2) by (auto simp: cmh_inv_def)
    moreover have "same_sketch c (?c\<lparr>cm_counts := cs\<rparr>)"
      unfolding same_sketch_def by (intro exI [of _ cs] exI [of _ "cm_count c + 1"] exI [of _ q]) simp
    ultimately show ?thesis using True by auto
  next
    case False
    then obtain w ws' where ws: "ws = w # ws'" using i by (cases ws) auto
    obtain q where q: "queue_pop (cm_items c) = Inr (w, q)" "queue_inv (cm_window c) q" "queue_items q = ws'"
      using queue_pop_some [of "cm_window c" "cm_items c" w ws'] i ws by auto
    let ?c = "c\<lparr>cm_items := q\<rparr>"
    obtain cs where cs: "CMH_Delete ?c w = Inr (?c\<lparr>cm_counts := cs\<rparr>)" "cmh_shape (?c\<lparr>cm_counts := cs\<rparr>)"
      "counts_items (?c\<lparr>cm_counts := cs\<rparr>) ws'"
      using count_del [of ?c w ws'] i ws by auto
    obtain q2 where q2: "queue_push q x = Inr q2" "queue_inv (cm_window c) q2" "queue_items q2 = ws' @ [x]"
      using queue_push_room [of "cm_window c" q x] q i ws by auto
    let ?c2 = "c\<lparr>cm_counts := cs, cm_items := q2\<rparr>"
    have c2: "cmh_shape ?c2" "counts_items ?c2 ws'" using cs(2,3) by simp_all
    obtain cs2 where cs2: "add_levels ?c2 1 x 0 (cm_counts ?c2) = Inr cs2" "cmh_shape (?c2\<lparr>cm_counts := cs2\<rparr>)"
      "counts_items (?c2\<lparr>cm_counts := cs2\<rparr>) (ws' @ [x])"
      using count_add [OF c2(1) _ c2(2), of x] assms(2) by auto
    have "CMH_Update (Some c) x = Inr (0, Some (?c2\<lparr>cm_counts := cs2\<rparr>))"
      using x False i q(1) cs(1) q2(1) cs2(1) by (simp add: CMH_Update_def)
    moreover have "cmh_inv (?c2\<lparr>cm_counts := cs2\<rparr>) (ws' @ [x])"
      using i q2 cs2 False assms(2) ws by (auto simp: cmh_inv_def)
    moreover have "same_sketch c (?c2\<lparr>cm_counts := cs2\<rparr>)"
      unfolding same_sketch_def by (intro exI [of _ cs2] exI [of _ "cm_count c"] exI [of _ q2]) simp
    ultimately show ?thesis using False ws by auto
  qed
qed

section \<open>A fresh sketch\<close>

lemma levels_enough:
  assumes "1 \<le> gran" "gran \<le> U" "U < 32"
  defines "n \<equiv> nat \<lceil>to_double (of_nat U / of_nat gran)\<rceil>"
  shows "U \<le> gran * n" "0 < n"
proof -
  show U: "U \<le> gran * n"
  proof (rule ccontr)
    assume "\<not> U \<le> gran * n"
    then have lt: "gran * n + 1 \<le> U" by simp
    have g: "(0::rat) < of_nat gran" "(of_nat gran :: rat) \<le> 32" using assms by simp_all
    have "gran * n < 32" using lt assms(3) by simp
    moreover have "1 * n \<le> gran * n" using assms(1) by (rule mult_le_mono1)
    ultimately have n: "n < 32" by linarith
    have "(of_nat (gran * n + 1) :: rat) \<le> of_nat U" using lt by (simp only: of_nat_le_iff)
    then have "of_nat (gran * n + 1) / of_nat gran \<le> (of_nat U / of_nat gran :: rat)"
      using g(1) by (rule divide_right_mono [OF _ less_imp_le])
    moreover have "(of_nat (gran * n + 1) / of_nat gran :: rat) = of_nat n + 1 / of_nat gran"
      using g(1) by (simp add: add_divide_distrib)
    moreover have "1 / 32 \<le> (1 / of_nat gran :: rat)" using g by (intro divide_left_mono) simp_all
    ultimately have "of_nat n + 1 / 32 \<le> (of_nat U / of_nat gran :: rat)" by linarith
    then have "to_double (of_nat n + 1 / 32) \<le> to_double (of_nat U / of_nat gran)" by (intro fl_mono) simp_all
    moreover have "to_double (of_nat n + 1 / 32) = of_nat n + 1 / 32"
      by (rule fl_exact [where m = "32 * int n + 1" and k = "-5"]) (use n in \<open>simp_all add: power_int_minus\<close>)
    moreover have "to_double (of_nat U / of_nat gran) \<le> of_nat n" unfolding n_def by (simp add: of_nat_ceiling)
    ultimately show False by simp
  qed
  show "0 < n" using U assms(1,2) by (cases n) simp_all
qed

lemma free_scan_Some: "free_scan gran room j k f0 = Some f \<Longrightarrow> f0 = Some f \<or> j \<le> f \<and> f < j + k"
  by (induction gran room j k f0 rule: free_scan.induct) (auto split: if_splits)

lemma free_scan_None: "free_scan gran room j k f0 = None \<Longrightarrow> f0 = None \<and> (k = 0 \<or> room < 2 ^ (gran * j))"
  by (induction gran room j k f0 rule: free_scan.induct) (auto split: if_splits)

lemma prng_int_2: "pr_usenric p = 2 \<Longrightarrow> \<exists>x p'. prng_int p = Inr (x, p') \<and> pr_usenric p' = 2"
  by (simp add: prng_int_def ran3_def Let_def)

lemma draw_hashes_2: "pr_usenric p = 2 \<Longrightarrow> \<exists>hs p'. draw_hashes k p = Inr (hs, p') \<and> pr_usenric p' = 2"
proof (induction k arbitrary: p)
  case (Suc k)
  obtain a p1 where 1: "prng_int p = Inr (a, p1)" "pr_usenric p1 = 2" using prng_int_2 [OF Suc.prems] by auto
  obtain b p2 where 2: "prng_int p1 = Inr (b, p2)" "pr_usenric p2 = 2" using prng_int_2 [OF 1(2)] by auto
  show ?case using 1 2 Suc.IH [OF 2(2)] by auto
qed simp

lemma alloc_levels_2:
  assumes "pr_usenric p = 2"
  shows "\<exists>ls. alloc_levels gran freelim depth width j n p = Inr ls \<and> length ls = n \<and>
    (\<forall>i<n. fst (ls ! i) = replicate (if freelim \<le> i then 2 ^ (gran * (j + n - 1 - i)) else depth * width) 0)"
  using assms
proof (induction n arbitrary: j p)
  case (Suc n)
  show ?case
  proof (cases "freelim \<le> n")
    case True
    obtain ls where ls: "alloc_levels gran freelim depth width (Suc j) n p = Inr ls" "length ls = n"
      "\<forall>i<n. fst (ls ! i) = replicate (if freelim \<le> i then 2 ^ (gran * (Suc j + n - 1 - i)) else depth * width) 0"
      using Suc.IH [OF Suc.prems, of "Suc j"] by blast
    then show ?thesis using True by (auto simp: nth_append less_Suc_eq)
  next
    case False
    obtain hs p1 where h: "draw_hashes depth p = Inr (hs, p1)" "pr_usenric p1 = 2"
      using draw_hashes_2 [OF Suc.prems] by blast
    obtain ls where ls: "alloc_levels gran freelim depth width j n p1 = Inr ls" "length ls = n"
      "\<forall>i<n. fst (ls ! i) = replicate (if freelim \<le> i then 2 ^ (gran * (j + n - 1 - i)) else depth * width) 0"
      using Suc.IH [OF h(2), of j] by blast
    then show ?thesis using False h(1) by (auto simp: nth_append less_Suc_eq)
  qed
qed simp

lemma prng_Init_2: "\<exists>p. prng_Init seed 2 x = Inr p \<and> pr_usenric p = 2"
proof -
  have t: "pr_usenric (ran3_times n p) = pr_usenric p" for n p
    by (induction n arbitrary: p) (simp_all add: ran3_def Let_def)
  show ?thesis by (simp add: prng_Init_def Let_def prng_Reseed_def prng_float_def prng_int_def ran4_def ran3_def
      RanrotAInit_def t case_prod_unfold)
qed

lemma CMH_Init_ok:
  assumes "1 \<le> gran" "gran \<le> U" "U < 32" "0 < width" "0 < depth" "0 < win" "depth * width < 2 ^ 31"
  shows "\<exists>c. CMH_Init width depth U gran win = Inr (Some c) \<and> cmh_inv c [] \<and> cm_window c = win \<and> cm_U c = U \<and>
    cm_gran c = gran \<and> cm_levels c = nat \<lceil>to_double (of_nat U / of_nat gran)\<rceil> \<and>
    (\<exists>f. free_scan gran (depth * width) 0 (cm_levels c) None = Some f \<and> cm_freelim c = cm_levels c - f)"
proof -
  define n where "n = nat \<lceil>to_double (of_nat U / of_nat gran)\<rceil>"
  have n: "U \<le> gran * n" "0 < n" using levels_enough [OF assms(1-3)] by (simp_all add: n_def)
  obtain p where p: "prng_Init (-12784) 2 0 = Inr p" "pr_usenric p = 2" using prng_Init_2 by blast
  have "0 < depth * width" using assms(4,5) by simp
  then obtain f where f: "free_scan gran (depth * width) 0 n None = Some f" "f < n"
    using free_scan_None [of gran "depth * width" 0 n None] free_scan_Some [of gran "depth * width" 0 n None] n(2)
    by (cases "free_scan gran (depth * width) 0 n None") auto
  obtain ls where ls: "alloc_levels gran (n - f) depth width 1 n p = Inr ls" "length ls = n"
    "\<forall>i<n. fst (ls ! i) = replicate (if n - f \<le> i then 2 ^ (gran * (n - i)) else depth * width) 0"
    using alloc_levels_2 [OF p(2), of gran "n - f" depth width 1 n] by auto
  define c where "c = \<lparr>cm_U = U, cm_gran = gran, cm_levels = n, cm_freelim = n - f, cm_depth = depth,
      cm_width = width, cm_counts = map fst ls, cm_count = 0, cm_window = win,
      cm_items = queue_init win, cm_hasha = map (map fst \<circ> snd) ls, cm_hashb = map (map snd \<circ> snd) ls\<rparr>"
  have "CMH_Init width depth U gran win = Inr (Some c)"
    using assms p(1) f(1) ls(1) by (simp add: CMH_Init_def c_def Let_def flip: n_def)
  moreover have sz: "fst (ls ! i) = replicate (level_size c i) 0" if "i < n" for i
    using ls(3) that by (simp add: level_size_def c_def)
  have "cmh_shape c" using assms n f(2) ls(2) sz by (simp add: cmh_shape_def c_def)
  moreover have "counts_items c []" using sz ls(2) by (simp add: counts_items_def c_def)
  moreover have "cm_levels c = nat \<lceil>to_double (of_nat U / of_nat gran)\<rceil>" by (simp only: c_def n_def cmh.simps)
  moreover have "free_scan gran (depth * width) 0 (cm_levels c) None = Some f \<and> cm_freelim c = cm_levels c - f"
    using f(1) by (simp add: c_def)
  moreover have "cm_window c = win" "cm_U c = U" "cm_gran c = gran" by (simp_all add: c_def)
  moreover have "queue_inv (cm_window c) (cm_items c)" "queue_items (cm_items c) = []" "cm_count c = 0"
    using queue_init_inv by (simp_all add: c_def)
  ultimately show ?thesis using assms(6) by (auto simp: cmh_inv_def)
qed

section \<open>Estimates\<close>

definition cnt :: "('a \<Rightarrow> bool) \<Rightarrow> 'a list \<Rightarrow> int" where
  "cnt P ws = int (length (filter P ws))"

lemma cnt_mono: "(\<And>w. w \<in> set ws \<Longrightarrow> P w \<Longrightarrow> Q w) \<Longrightarrow> cnt P ws \<le> cnt Q ws"
  by (induction ws) (auto simp: cnt_def)

lemma cnt_cover:
  assumes "\<And>w. w \<in> set ws \<Longrightarrow> P w \<Longrightarrow> v w \<in> set xs \<or> Q w"
  shows "cnt P ws \<le> (\<Sum>x\<leftarrow>xs. cnt (\<lambda>w. v w = x) ws) + cnt Q ws"
  using assms
proof (induction ws)
  case (Cons w ws)
  have nn: "0 \<le> (\<Sum>x\<leftarrow>xs. if v w = x then 1 else 0 :: int)" by (intro sum_list_nonneg) auto
  have hit: "1 \<le> (\<Sum>x\<leftarrow>xs. if v w = x then 1 else 0 :: int)" if "v w \<in> set xs"
    using that
  proof (induction xs)
    case (Cons y ys)
    have "0 \<le> (\<Sum>x\<leftarrow>ys. if v w = x then 1 else 0 :: int)" by (intro sum_list_nonneg) auto
    then show ?case using Cons by auto
  qed simp
  have "cnt (\<lambda>w'. v w' = x) (w # ws) = (if v w = x then 1 else 0) + cnt (\<lambda>w'. v w' = x) ws" for x
    by (simp add: cnt_def)
  then have "(\<Sum>x\<leftarrow>xs. cnt (\<lambda>w'. v w' = x) (w # ws)) =
      (\<Sum>x\<leftarrow>xs. if v w = x then 1 else 0) + (\<Sum>x\<leftarrow>xs. cnt (\<lambda>w'. v w' = x) ws)"
    by (simp add: sum_list_addf)
  moreover have "cnt P ws \<le> (\<Sum>x\<leftarrow>xs. cnt (\<lambda>w. v w = x) ws) + cnt Q ws" using Cons by simp
  moreover have "(if P w then 1 else 0) \<le> (\<Sum>x\<leftarrow>xs. if v w = x then 1 else 0 :: int) + (if Q w then 1 else 0)"
    using Cons.prems [of w] nn hit by auto
  ultimately show ?case by (simp add: cnt_def split: if_splits)
qed (simp add: cnt_def)

lemma cnt_window: "cnt P ws \<le> int (length ws)"
  by (simp add: cnt_def)

text \<open>The largest shifted item of a level, plus one.\<close>

definition level_top :: "cmh \<Rightarrow> nat \<Rightarrow> int" where
  "level_top c i = 2 ^ (cm_gran c * (cm_levels c - i))"

lemma min_rows_ge:
  assumes "j + k \<le> cm_depth c" "0 < cm_width c" "length (cm_counts c ! i) = cm_depth c * cm_width c" "n \<le> est"
    and "\<And>m. m < cm_depth c * cm_width c \<Longrightarrow> hits c i v m \<Longrightarrow> n \<le> cm_counts c ! i ! m" "\<not> cm_freelim c \<le> i"
  shows "\<exists>x. min_rows c i v j k est = Inr x \<and> n \<le> x"
  using assms(1,4)
proof (induction k arbitrary: j est)
  case (Suc k)
  let ?m = "sketch_cell c i j v"
  have m: "?m < cm_depth c * cm_width c" "?m div cm_width c = j"
    using sketch_cell_row [OF assms(2)] Suc.prems(1) by simp_all
  have "n \<le> cm_counts c ! i ! ?m" using m assms(5,6) by (simp add: hits_def)
  then show ?case using Suc.IH [of "Suc j"] Suc.prems m(1) assms(3) by simp
qed simp

lemma CMH_count_ge:
  assumes "cmh_inv c ws" "0 \<le> v" "cm_freelim c \<le> i \<Longrightarrow> i < cm_levels c \<Longrightarrow> v < level_top c i"
  shows "\<exists>x. CMH_count c i v = Inr x \<and> cnt (\<lambda>w. at_level c i w = v) ws \<le> x"
proof (cases "cm_levels c \<le> i")
  case True
  then show ?thesis
    using assms(1) cnt_window [of "\<lambda>w. at_level c i w = v" ws] by (auto simp: CMH_count_def cmh_inv_def)
next
  case False
  note i = assms(1) [unfolded cmh_inv_def cmh_shape_def counts_items_def]
  show ?thesis
  proof (cases "cm_freelim c \<le> i")
    case True
    then have v: "nat v < level_size c i" using assms(2,3) False by (simp add: level_size_def level_top_def nat_less_iff)
    have "cnt (\<lambda>w. at_level c i w = v) ws \<le> cnt (\<lambda>w. hits c i (at_level c i w) (nat v)) ws"
      using True by (intro cnt_mono) (simp add: hits_def)
    then show ?thesis using True False i v assms(2) by (simp add: CMH_count_def cnt_def)
  next
    case low: False
    have ge: "cnt (\<lambda>w. at_level c i w = v) ws \<le> cm_counts c ! i ! m"
      if "m < cm_depth c * cm_width c" "hits c i v m" for m
    proof -
      have "cnt (\<lambda>w. at_level c i w = v) ws \<le> cnt (\<lambda>w. hits c i (at_level c i w) m) ws"
        using that(2) by (intro cnt_mono) simp
      then show ?thesis using i that(1) False low by (simp add: level_size_def cnt_def)
    qed
    let ?m = "sketch_cell c i 0 v"
    have m: "?m < cm_depth c * cm_width c" "?m div cm_width c = 0" using sketch_cell_row(1) [of c i 0 v] sketch_cell_row(2) [of c 0 i v] i by simp_all
    have "cnt (\<lambda>w. at_level c i w = v) ws \<le> cm_counts c ! i ! ?m"
      using ge [OF m(1)] m low by (simp add: hits_def)
    then show ?thesis
      using min_rows_ge [of 1 "cm_depth c - 1" c i _ _ v, OF _ _ _ _ ge low] i low False m(1)
      by (auto simp: CMH_count_def level_size_def)
  qed
qed

lemma sum_counts_ge:
  assumes "\<And>x. x \<in> set xs \<Longrightarrow> \<exists>y. CMH_count c i x = Inr y \<and> f x \<le> y"
  shows "\<exists>z. sum_counts c i xs r = Inr z \<and> r + (\<Sum>x\<leftarrow>xs. f x) \<le> z"
  using assms
proof (induction xs arbitrary: r)
  case (Cons x xs)
  obtain y where y: "CMH_count c i x = Inr y" "f x \<le> y" using Cons.prems by auto
  obtain z where "sum_counts c i xs (r + y) = Inr z" "r + y + (\<Sum>x\<leftarrow>xs. f x) \<le> z"
    using Cons.IH [of "r + y"] Cons.prems by auto
  then show ?case using y by auto
qed simp

text \<open>The sum over one level's end pieces covers the items in them.\<close>

lemma piece_ge:
  assumes "cmh_inv c ws" "\<And>x. x \<in> set xs \<Longrightarrow> 0 \<le> x \<and> (0 < i \<longrightarrow> i < cm_levels c \<longrightarrow> x < level_top c i)"
  shows "\<exists>z. sum_counts c i xs r = Inr z \<and> r + (\<Sum>x\<leftarrow>xs. cnt (\<lambda>w. at_level c i w = x) ws) \<le> z"
proof (rule sum_counts_ge)
  fix x
  assume x: "x \<in> set xs"
  have "0 < cm_freelim c" using assms(1) by (simp add: cmh_inv_def cmh_shape_def)
  then show "\<exists>y. CMH_count c i x = Inr y \<and> cnt (\<lambda>w. at_level c i w = x) ws \<le> y"
    using CMH_count_ge [OF assms(1), of x i] assms(2) [OF x] by auto
qed

section \<open>Range sums\<close>

lemma drop_shift: "drop_bit g (at_level c i w) = at_level c (Suc i) w" if "g = cm_gran c"
  using that drop_at_level by simp

lemma block_bounds:
  fixes v :: int
  shows "push_bit g (drop_bit g v) \<le> v" "v < push_bit g (drop_bit g v + 1)"
proof -
  have "v = v div 2 ^ g * 2 ^ g + v mod 2 ^ g" by (rule div_mult_mod_eq [symmetric])
  moreover have "0 \<le> v mod 2 ^ g" "v mod 2 ^ g < 2 ^ g" by simp_all
  ultimately show "push_bit g (drop_bit g v) \<le> v" "v < push_bit g (drop_bit g v + 1)"
    unfolding push_bit_eq_mult drop_bit_eq_div distrib_right by linarith+
qed

lemma block_less_iff:
  fixes v b :: int
  shows "v < push_bit g b \<longleftrightarrow> drop_bit g v < b"
proof
  assume "v < push_bit g b"
  then show "drop_bit g v < b" by (simp add: push_bit_eq_mult drop_bit_eq_div int_div_less mult.commute)
next
  assume "drop_bit g v < b"
  then have "push_bit g (drop_bit g v + 1) \<le> push_bit g b" by (simp add: push_bit_eq_mult)
  then show "v < push_bit g b" using block_bounds(2) [of v g] by linarith
qed

lemma level_top_step:
  assumes "i < cm_levels c"
  shows "level_top c i = push_bit (cm_gran c) (level_top c (Suc i))"
proof -
  have "cm_gran c * (cm_levels c - i) = cm_gran c * (cm_levels c - Suc i) + cm_gran c"
    using Suc_diff_Suc [OF assms] by (metis mult_Suc_right add.commute)
  then show ?thesis by (simp add: level_top_def push_bit_eq_mult power_add)
qed

text \<open>The bounds of the loop: before the first level, and after it.\<close>

definition range_ok :: "cmh \<Rightarrow> nat \<Rightarrow> int \<Rightarrow> int \<Rightarrow> bool" where
  "range_ok c i s e \<longleftrightarrow> 0 \<le> s \<and> (if i = 0 then e \<le> level_top c 0 + 1 else 1 \<le> s \<and> e \<le> level_top c i)"

lemma range_ok_step:
  assumes "range_ok c i s e" "0 < cm_gran c" "i \<le> cm_levels c" "0 < cm_levels c"
  shows "range_ok c (Suc i) (drop_bit (cm_gran c) s + 1) (drop_bit (cm_gran c) e)"
proof -
  have s: "0 \<le> drop_bit (cm_gran c) s" using assms(1) by (simp add: range_ok_def split: if_splits)
  have "drop_bit (cm_gran c) e \<le> level_top c (Suc i)"
  proof (cases "i = cm_levels c")
    case True
    then have "e \<le> 1" using assms(1,4) by (simp add: range_ok_def level_top_def)
    then have "drop_bit (cm_gran c) e < 2" using assms(2)
      by (subst block_less_iff [symmetric]) (simp add: push_bit_eq_mult, smt (verit) one_le_power)
    then show ?thesis using True by (simp add: level_top_def)
  next
    case False
    then have t: "level_top c i = push_bit (cm_gran c) (level_top c (Suc i))" using assms(3) by (intro level_top_step) simp
    have "(2::int) ^ 1 \<le> 2 ^ cm_gran c" using assms(2) by (intro power_increasing) simp_all
    then have "e < push_bit (cm_gran c) (level_top c (Suc i) + 1)"
      using assms(1) t by (auto simp: range_ok_def push_bit_eq_mult distrib_right split: if_splits)
    then show ?thesis unfolding block_less_iff by simp
  qed
  then show ?thesis using s by (simp add: range_ok_def)
qed

lemma range_loop_ge:
  assumes "cmh_inv c ws" "i + k = cm_levels c + 1" "range_ok c i s e"
  shows "\<exists>z. range_loop c i k s e r = Inr z \<and> r + cnt (\<lambda>w. s \<le> at_level c i w \<and> at_level c i w < e) ws \<le> z"
  using assms(2,3)
proof (induction k arbitrary: i s e r)
  case 0
  then have "1 \<le> s" "e \<le> 1" by (auto simp: range_ok_def level_top_def split: if_splits)
  then have "cnt (\<lambda>w. s \<le> at_level c i w \<and> at_level c i w < e) ws = 0" by (auto simp: cnt_def filter_empty_conv)
  then show ?case by simp
next
  case (Suc k)
  note inv = assms(1) [unfolded cmh_inv_def cmh_shape_def]
  let ?g = "cm_gran c" let ?P = "\<lambda>w. s \<le> at_level c i w \<and> at_level c i w < e"
  have s0: "0 \<le> s" using Suc.prems(2) by (simp add: range_ok_def)
  have top: "0 < i \<longrightarrow> e \<le> level_top c i" using Suc.prems(2) by (simp add: range_ok_def)
  consider "s = e" | "s \<noteq> e" "e - s + 1 < 2 ^ ?g" | "2 ^ ?g \<le> e - s + 1" "s \<noteq> e" by linarith
  then show ?case
  proof cases
    case 1
    then have "cnt ?P ws = 0" by (auto simp: cnt_def filter_empty_conv)
    then show ?thesis using 1 by simp
  next
    case 2
    obtain z where z: "sum_counts c i [s..e - 1] r = Inr z" "r + (\<Sum>x\<leftarrow>[s..e - 1]. cnt (\<lambda>w. at_level c i w = x) ws) \<le> z"
      using piece_ge [OF assms(1), of "[s..e - 1]" i r] s0 top by auto
    have "cnt ?P ws \<le> (\<Sum>x\<leftarrow>[s..e - 1]. cnt (\<lambda>w. at_level c i w = x) ws) + cnt (\<lambda>_. False) ws"
      by (rule cnt_cover) auto
    then show ?thesis using 2 z by (auto simp: cnt_def)
  next
    case 3
    have "(2::int) ^ 1 \<le> 2 ^ ?g" using inv by (intro power_increasing) simp_all
    then have se: "s < e" using 3 by simp
    define l where "l = push_bit ?g (drop_bit ?g s + 1) - s"
    define h where "h = e - push_bit ?g (drop_bit ?g e)"
    have l: "0 < l" using block_bounds(2) [of s ?g] by (simp add: l_def)
    have h: "0 \<le> h" using block_bounds(1) [of ?g e] by (simp add: h_def)
    define xs where "xs = map (\<lambda>i. s + int i) [0..<nat l]"
    define ys where "ys = (if 0 < h then map (\<lambda>i. e - int i - 1) [0..<nat h] else [])"
    have xs: "set xs = {s..<s + l}"
    proof -
      have "\<exists>n\<in>{0..<nat l}. x = s + int n" if "s \<le> x" "x < s + l" for x
        using that by (intro bexI [of _ "nat (x - s)"]) simp_all
      then show ?thesis by (auto simp: xs_def image_iff)
    qed
    have ys: "set ys = {e - h..<e}"
    proof -
      have "\<exists>n\<in>{0..<nat h}. x = e - int n - 1" if "e - h \<le> x" "x < e" for x
        using that by (intro bexI [of _ "nat (e - 1 - x)"]) simp_all
      then show ?thesis by (auto simp: ys_def image_iff)
    qed
    have xs_top: "0 \<le> x \<and> (0 < i \<longrightarrow> i < cm_levels c \<longrightarrow> x < level_top c i)" if "x \<in> set xs" for x
    proof -
      have "drop_bit ?g s < level_top c (Suc i)" if "0 < i" "i < cm_levels c"
        using level_top_step [OF that(2)] top se that(1) by (simp flip: block_less_iff)
      then have "push_bit ?g (drop_bit ?g s + 1) \<le> level_top c i" if "0 < i" "i < cm_levels c"
        using level_top_step [OF that(2)] that by (simp add: push_bit_eq_mult)
      then show ?thesis using \<open>x \<in> set xs\<close> s0 unfolding xs l_def by auto
    qed
    have e0: "0 \<le> e - h" using s0 se by (simp add: h_def)
    have ys_top: "0 \<le> x \<and> (0 < i \<longrightarrow> i < cm_levels c \<longrightarrow> x < level_top c i)" if "x \<in> set ys" for x
      using that e0 top unfolding ys by auto
    obtain z1 where z1: "sum_counts c i xs r = Inr z1" "r + (\<Sum>x\<leftarrow>xs. cnt (\<lambda>w. at_level c i w = x) ws) \<le> z1"
      using piece_ge [OF assms(1) xs_top] by blast
    obtain z2 where z2: "sum_counts c i ys z1 = Inr z2" "z1 + (\<Sum>x\<leftarrow>ys. cnt (\<lambda>w. at_level c i w = x) ws) \<le> z2"
      using piece_ge [OF assms(1) ys_top] by blast
    let ?s = "drop_bit ?g s + 1" let ?e = "drop_bit ?g e"
    let ?Q = "\<lambda>w. ?s \<le> at_level c (Suc i) w \<and> at_level c (Suc i) w < ?e"
    have "range_ok c (Suc i) ?s ?e"
      using range_ok_step [OF Suc.prems(2)] inv Suc.prems(1) by simp
    then obtain z where z: "range_loop c (Suc i) k ?s ?e z2 = Inr z" "z2 + cnt ?Q ws \<le> z"
      using Suc.IH [of "Suc i" ?s ?e z2] Suc.prems(1) by auto
    have "cnt ?P ws \<le> (\<Sum>x\<leftarrow>xs @ ys. cnt (\<lambda>w. at_level c i w = x) ws) + cnt ?Q ws"
    proof (rule cnt_cover)
      fix w
      assume P: "?P w"
      show "at_level c i w \<in> set (xs @ ys) \<or> ?Q w"
      proof (cases "at_level c i w < s + l \<or> e - h \<le> at_level c i w")
        case True
        then show ?thesis using P xs ys by auto
      next
        case False
        then have "\<not> drop_bit ?g (at_level c i w) < ?s" "drop_bit ?g (at_level c i w) < ?e"
          using block_less_iff [of "at_level c i w" ?g ?s] block_less_iff [of "at_level c i w" ?g ?e]
          unfolding l_def h_def by linarith+
        then show ?thesis by (simp add: drop_at_level)
      qed
    qed
    moreover have "range_loop c i (Suc k) s e r = Inr z"
    proof -
      have "(if 0 < l \<and> s < e then sum_counts c i (map (\<lambda>i. s + int i) [0..<nat l]) r else Inr r) = Inr z1"
        using l se z1(1) by (simp add: xs_def)
      moreover have "(if 0 < h \<and> s < e then sum_counts c i (map (\<lambda>i. e - int i - 1) [0..<nat h]) z1 else Inr z1) = Inr z2"
        using se z2(1) by (simp add: ys_def split: if_splits)
      moreover have n: "(e - s + 1 < 2 ^ ?g) = False" "(s = e) = False" using 3 by auto
      have "range_loop c i (Suc k) s e r =
          res_bind (if 0 < l \<and> s < e then sum_counts c i (map (\<lambda>i. s + int i) [0..<nat l]) r else Inr r) (\<lambda>r1.
          res_bind (if 0 < h \<and> s < e then sum_counts c i (map (\<lambda>i. e - int i - 1) [0..<nat h]) r1 else Inr r1) (\<lambda>r2.
          range_loop c (Suc i) k (if 0 < l then ?s else drop_bit ?g s) ?e r2))"
        by (simp only: range_loop.simps Let_def l_def h_def n if_False)
      ultimately show ?thesis using l z(1) by simp
    qed
    ultimately show ?thesis using z(2) z1(2) z2(2) by auto
  qed
qed

section \<open>Properties\<close>

fun cmh_updates :: "cmh \<Rightarrow> int list \<Rightarrow> cmh res" where
  "cmh_updates c [] = Inr c"
| "cmh_updates c (x # xs) = res_bind (CMH_Update (Some c) x) (\<lambda>(r, m).
     case m of None \<Rightarrow> Inl Null_deref | Some c1 \<Rightarrow> cmh_updates c1 xs)"

definition last_n :: "nat \<Rightarrow> 'a list \<Rightarrow> 'a list" where
  "last_n n xs = drop (length xs - n) xs"

lemma cmh_updates_ok:
  assumes "cmh_inv c ws" "\<forall>x\<in>set xs. 0 \<le> x \<and> x < 2 ^ cm_U c"
  shows "\<exists>c'. cmh_updates c xs = Inr c' \<and> same_sketch c c' \<and> cmh_inv c' (last_n (cm_window c) (ws @ xs))"
  using assms
proof (induction xs arbitrary: c ws)
  case Nil
  then have "last_n (cm_window c) ws = ws" by (simp add: last_n_def cmh_inv_def)
  moreover have "same_sketch c c" unfolding same_sketch_def
    by (intro exI [of _ "cm_counts c"] exI [of _ "cm_count c"] exI [of _ "cm_items c"]) simp
  ultimately show ?case using Nil by simp
next
  case (Cons x xs)
  have "item_ok c x" using Cons.prems(2) by (simp add: item_ok_def)
  then obtain c1 where c1: "CMH_Update (Some c) x = Inr (0, Some c1)" "same_sketch c c1"
    "cmh_inv c1 ((if length ws < cm_window c then ws else tl ws) @ [x])"
    using update_ok [OF Cons.prems(1)] by blast
  have f: "cm_window c1 = cm_window c" "cm_U c1 = cm_U c" using c1(2) by (auto simp: same_sketch_def)
  then obtain c' where c': "cmh_updates c1 xs = Inr c'" "same_sketch c1 c'"
    "cmh_inv c' (last_n (cm_window c) (((if length ws < cm_window c then ws else tl ws) @ [x]) @ xs))"
    using Cons.IH [OF c1(3)] Cons.prems(2) by auto
  have "length ws \<le> cm_window c" "0 < cm_window c" using Cons.prems(1) by (simp_all add: cmh_inv_def)
  then have "last_n (cm_window c) (((if length ws < cm_window c then ws else tl ws) @ [x]) @ xs) =
      last_n (cm_window c) (ws @ x # xs)"
    by (cases "length ws < cm_window c"; cases ws) (simp_all add: last_n_def Suc_diff_le)
  moreover have "same_sketch c c'" using c1(2) c'(2) by (fastforce simp: same_sketch_def)
  ultimately show ?case using c1(1) c'(1,3) by auto
qed

text \<open>
  C35: a sketch made by \<open>CMH_Init\<close> with a universe of \<open>U < 32\<close> bits, \<open>1 \<le> gran \<le> U\<close>, positive sizes and fewer than 2^31 counters in a row,
  which an \<open>int\<close> can count, and fed any number of items below \<open>2^U\<close> never faults (its queue
  neither overflows nor runs empty, no index leaves a row), and its counters are exactly those of the
  last \<open>windowSize\<close> items.
\<close>

theorem sketch_counts_window:
  assumes "1 \<le> gran" and "gran \<le> U" and "U < 32" and "0 < width" and "0 < depth" and "0 < windowSize" and "depth * width < 2 ^ 31"
    and "\<forall>x\<in>set xs. 0 \<le> x \<and> x < 2 ^ U"
  shows "\<exists>c c'. CMH_Init width depth U gran windowSize = Inr (Some c) \<and> cmh_updates c xs = Inr c' \<and>
    queue_items (cm_items c') = last_n windowSize xs \<and> counts_items c' (last_n windowSize xs)"
proof -
  obtain c where c: "CMH_Init width depth U gran windowSize = Inr (Some c)" "cmh_inv c []"
    "cm_window c = windowSize" "cm_U c = U"
    using CMH_Init_ok [OF assms(1-7)] by blast
  then show ?thesis using cmh_updates_ok [OF c(2), of xs] assms(8) by (auto simp: cmh_inv_def)
qed

theorem sketch_counts_window_witness:
  "\<exists>c c'. CMH_Init 32768 16 24 4 10000 = Inr (Some c) \<and> cmh_updates c [1500, 2100] = Inr c' \<and>
     queue_items (cm_items c') = [1500, 2100]"
  using sketch_counts_window [of 4 24 32768 16 10000 "[1500, 2100]"] by (auto simp: last_n_def)

text \<open>
  The estimate of a range is never below the number of items of the window in the range, and computing it
  never faults, for every range from 0 on that ends at most at \<open>2^U\<close>.
\<close>

theorem range_sum_upper_bound:
  assumes "1 \<le> gran" and "gran \<le> U" and "U < 32" and "0 < width" and "0 < depth" and "0 < windowSize" and "depth * width < 2 ^ 31"
    and "\<forall>x\<in>set xs. 0 \<le> x \<and> x < 2 ^ U" and "CMH_Init width depth U gran windowSize = Inr (Some c)"
    and "cmh_updates c xs = Inr c'" and "0 \<le> s" and "e \<le> 2 ^ U"
  shows "\<exists>z. CMH_Rangesum c' s e = Inr z \<and>
    int (length (filter (\<lambda>w. s \<le> w \<and> w \<le> e) (last_n windowSize xs))) \<le> z"
proof -
  have i: "cmh_inv c []" "cm_window c = windowSize" "cm_U c = U"
    using CMH_Init_ok [OF assms(1-7)] assms(9) by auto
  then have inv: "cmh_inv c' (last_n windowSize xs)" and f: "same_sketch c c'"
    using cmh_updates_ok [OF i(1), of xs] assms(8,10) by auto
  have U: "cm_U c' = U" using f i(3) by (auto simp: same_sketch_def)
  have "(2::int) ^ U \<le> level_top c' 0"
    using inv U by (auto simp: cmh_inv_def cmh_shape_def level_top_def intro: power_increasing)
  then have "range_ok c' 0 s (min (2 ^ U) e + 1)" using assms(11) by (simp add: range_ok_def)
  then obtain z where z: "range_loop c' 0 (cm_levels c' + 1) s (min (2 ^ U) e + 1) 0 = Inr z"
    "cnt (\<lambda>w. s \<le> at_level c' 0 w \<and> at_level c' 0 w < min (2 ^ U) e + 1) (last_n windowSize xs) \<le> z"
    using range_loop_ge [OF inv, of 0 "cm_levels c' + 1" s "min (2 ^ U) e + 1" 0] by auto
  have m: "min (2 ^ U) e = e" using assms(12) by simp
  have "cnt (\<lambda>w. s \<le> w \<and> w \<le> e) (last_n windowSize xs) \<le> z"
    using z(2) unfolding m by (simp add: at_level_def)
  then show ?thesis using z(1) assms(12) U by (simp add: CMH_Rangesum_def cnt_def)
qed


theorem range_sum_upper_bound_witness:
  "\<exists>c c' z. CMH_Init 32768 16 24 4 10000 = Inr (Some c) \<and> cmh_updates c [3, 14, 15, 16] = Inr c' \<and>
     CMH_Rangesum c' 0 14 = Inr z \<and> 2 \<le> z"
proof -
  obtain c where c: "CMH_Init 32768 16 24 4 10000 = Inr (Some c)" "cmh_inv c []" "cm_U c = 24"
    using CMH_Init_ok [of 4 24 32768 16 10000] by auto
  obtain c' where c': "cmh_updates c [3, 14, 15, 16] = Inr c'"
    using cmh_updates_ok [OF c(2), of "[3, 14, 15, 16]"] c(3) by auto
  have "\<exists>z. CMH_Rangesum c' 0 14 = Inr z \<and>
      int (length (filter (\<lambda>w. 0 \<le> w \<and> w \<le> 14) (last_n 10000 [3, 14, 15, 16 :: int]))) \<le> z"
    by (rule range_sum_upper_bound [OF _ _ _ _ _ _ _ _ c(1) c']) simp_all
  then show ?thesis using c(1) c' by (auto simp: last_n_def)
qed

lemma six_Suc: "Suc (Suc (Suc (Suc (Suc (Suc 0))))) = 6"
  by simp

lemma add_levels_out:
  assumes "cmh_shape c" "cm_U c = cm_gran c * cm_levels c" "cm_freelim c < cm_levels c"
    and "i \<le> cm_freelim c" "i + length rows = cm_levels c"
    and "\<And>n. n < length rows \<Longrightarrow> length (rows ! n) = level_size c (i + n)"
  shows "add_levels c d (at_level c i (2 ^ cm_U c)) i rows = Inl Out_of_bounds"
  using assms(4-6)
proof (induction rows arbitrary: i)
  case Nil
  then show ?case using assms(3) by simp
next
  case (Cons row rows)
  let ?v = "at_level c i (2 ^ cm_U c)"
  have "cm_gran c * cm_levels c = cm_gran c * i + cm_gran c * (cm_levels c - i)"
    using Cons.prems(2) by (simp flip: distrib_left)
  then have v: "?v = 2 ^ (cm_gran c * (cm_levels c - i))"
    by (simp add: at_level_def assms(2) drop_bit_eq_div power_add)
  have len: "length row = level_size c i" using Cons.prems(3) [of 0] by simp
  show ?case
  proof (cases "i = cm_freelim c")
    case True
    have "length row = nat ?v" unfolding v using len True by (simp add: level_size_def nat_power_eq)
    moreover have "\<not> ?v < 0" by (simp add: v)
    ultimately have "add_level c d i ?v row = Inl Out_of_bounds"
      using eq_imp_le [OF True [symmetric]] by (simp add: add_level_def add_at_def arr_get_def)
    then show ?thesis by simp
  next
    case False
    then have "i < cm_freelim c" using Cons.prems(1) by simp
    then obtain row' where "add_level c d i ?v row = Inr row'"
      using add_level_ok [of c row i 0 ?v d] assms(1) len v by (auto simp: cmh_shape_def level_size_def)
    moreover have "length (rows ! n) = level_size c (Suc i + n)" if "n < length rows" for n
      using Cons.prems(3) [of "Suc n"] that by simp
    then have "add_levels c d (at_level c (Suc i) (2 ^ cm_U c)) (Suc i) rows = Inl Out_of_bounds"
      using Cons.IH [of "Suc i"] Cons.prems(2) \<open>i < cm_freelim c\<close> by simp
    ultimately show ?thesis by (simp add: drop_at_level)
  qed
qed

text \<open>
  the range check of \<open>CMH_Update\<close> lets \<open>2^U\<close> itself through, one more than the sketch has room for: with the monitor's
  parameters a fresh sketch given that item writes behind the counters of its first exact level.
\<close>

theorem update_accepts_one_too_many:
  "\<exists>c. CMH_Init 32768 16 24 4 10000 = Inr (Some c) \<and> CMH_Update (Some c) (2 ^ 24) = Inl Out_of_bounds"
proof -
  have six: "to_double 6 = 6" using fl_of_nat [of 6 53] by simp
  obtain c f where c: "CMH_Init 32768 16 24 4 10000 = Inr (Some c)" "cmh_inv c []" "cm_window c = 10000"
    "cm_U c = 24" "cm_gran c = 4" "cm_levels c = 6" "free_scan 4 524288 0 6 None = Some f" "cm_freelim c = 6 - f"
    using CMH_Init_ok [of 4 24 32768 16 10000] six by auto
  have "free_scan 4 524288 0 (Suc (Suc (Suc (Suc (Suc (Suc 0)))))) None = Some 4" by simp
  then have f: "f = 4" using c(7) by (simp only: six_Suc option.inject)
  have q: "cmh_shape c" "queue_inv 10000 (cm_items c)" "queue_items (cm_items c) = []" "cm_count c = 0"
    using c(2,3) by (auto simp: cmh_inv_def)
  obtain q' where q': "queue_push (cm_items c) (2 ^ 24) = Inr q'"
    using queue_push_room [OF q(2), of "2 ^ 24"] q(3) by auto
  let ?c = "c\<lparr>cm_count := 1, cm_items := q'\<rparr>"
  have "add_levels ?c 1 (at_level ?c 0 (2 ^ cm_U ?c)) 0 (cm_counts ?c) = Inl Out_of_bounds"
    by (rule add_levels_out) (use q(1) c(4,5,6,8) f in \<open>auto simp: cmh_shape_def\<close>)
  then show ?thesis using c(1,3,4) q(4) q' by (auto simp: CMH_Update_def at_level_def)
qed

end
