(* ===== verification/Wqe.thy ===== *)
theory Wqe
  imports Verbs_Data
begin

text \<open>
  Work queue elements: how \<open>post_send_one\<close> of \<open>libmlx4/src/qp.c\<close> writes a request into a slot of the send queue, for each
  kind of queue pair and each opcode, with the data given by pointers or copied inline; and how the slots are
  sized (\<open>verify_sizes\<close>, \<open>mlx4_calc_sq_wqe_size\<close>, \<open>mlx4_set_sq_sizes\<close>). A slot is the list of its bytes; the driver
  aligns slots to 64 bytes, so that an offset in the slot is an address modulo 64. A write behind the slot, which
  would hit the next one, is a fault. \<open>mem\<close> is the memory of the application. Built without \<open>--with-wqe-format\<close>.
\<close>

unbundle bit_operations_syntax

section \<open>Requests and queue pairs\<close>

datatype ibv_op = WR_RDMA_WRITE | WR_RDMA_WRITE_WITH_IMM | WR_SEND | WR_SEND_WITH_IMM | WR_RDMA_READ
  | WR_ATOMIC_CMP_AND_SWP | WR_ATOMIC_FETCH_AND_ADD | WR_LOCAL_INV | WR_BIND_MW | WR_SEND_WITH_INV

text \<open>
  \<open>sw_imm\<close> is the field \<open>imm_data\<close>, which the caller has put in network order. The fields of datagrams, extended
  connections and window bindings are those of the unions.
\<close>

record ibv_wr =
  sw_id :: u64
  sw_op :: ibv_op
  sw_flags :: u32
  sw_imm :: u32
  sw_sges :: "sge list"
  sw_raddr :: u64
  sw_rkey :: u32
  sw_compare_add :: u64
  sw_swap :: u64
  sw_srqn :: u32
  sw_av :: "u8 list"
  sw_dqpn :: u32
  sw_qkey :: u32
  sw_vlan :: u16
  sw_mac :: "u8 list"
  sw_bind_access :: u32
  sw_bind_type2 :: bool
  sw_bind_rkey :: u32
  sw_bind_lkey :: u32
  sw_bind_addr :: u64
  sw_bind_length :: u64

datatype qp_kind = QPT_RC | QPT_UC | QPT_UD | QPT_XRC_SEND | QPT_XRC | QPT_RAW_PACKET | QPT_other

record sq_conf =
  sc_kind :: qp_kind
  sc_ethernet :: bool
  sc_max_inline_data :: nat
  sc_srcrb_flags :: "u32 list"
  sc_wqe_cnt :: nat

definition WQE_CTRL_OWN :: u32 where [macro_defs]: "WQE_CTRL_OWN = 0x80000000"
definition MLX4_INLINE_SEG :: u32 where [macro_defs]: "MLX4_INLINE_SEG = 0x80000000"
definition MLX4_INLINE_ALIGN :: nat where [macro_defs]: "MLX4_INLINE_ALIGN = 64"
definition MLX4_MAX_WQE_SIZE :: nat where [macro_defs]: "MLX4_MAX_WQE_SIZE = 1008"
definition EINVAL :: int where [macro_defs]: "EINVAL = 22"
definition ENOMEM :: int where [macro_defs]: "ENOMEM = 12"

fun mlx4_ib_opcode :: "ibv_op \<Rightarrow> u32" where
  "mlx4_ib_opcode WR_SEND = 0x0a"
| "mlx4_ib_opcode WR_SEND_WITH_IMM = 0x0b"
| "mlx4_ib_opcode WR_RDMA_WRITE = 0x08"
| "mlx4_ib_opcode WR_RDMA_WRITE_WITH_IMM = 0x09"
| "mlx4_ib_opcode WR_RDMA_READ = 0x10"
| "mlx4_ib_opcode WR_ATOMIC_CMP_AND_SWP = 0x11"
| "mlx4_ib_opcode WR_ATOMIC_FETCH_AND_ADD = 0x12"
| "mlx4_ib_opcode WR_LOCAL_INV = 0x1b"
| "mlx4_ib_opcode WR_BIND_MW = 0x18"
| "mlx4_ib_opcode WR_SEND_WITH_INV = 0x01"

section \<open>Segments\<close>

definition raddr_seg :: "u64 \<Rightarrow> u32 \<Rightarrow> u8 list" where
  "raddr_seg raddr rkey = be64 raddr @ be32 rkey @ be32 0"

definition atomic_seg :: "ibv_wr \<Rightarrow> u8 list" where
  "atomic_seg w = (if sw_op w = WR_ATOMIC_CMP_AND_SWP then be64 (sw_swap w) @ be64 (sw_compare_add w)
     else be64 (sw_compare_add w) @ be64 0)"

definition datagram_seg :: "ibv_wr \<Rightarrow> u8 list" where
  "datagram_seg w = sw_av w @ be32 (sw_dqpn w) @ be32 (sw_qkey w) @
     [ucast (drop_bit 8 (sw_vlan w)), ucast (sw_vlan w)] @ sw_mac w"

definition local_inv_seg :: "u8 list \<Rightarrow> u32 \<Rightarrow> u8 list" where
  "local_inv_seg old rkey = take 8 old @ be32 rkey @ be32 0 @ replicate 16 0"

definition bind_seg :: "ibv_wr \<Rightarrow> u8 list" where
  "bind_seg w =
     (let acc = sw_bind_access w;
          flags1 = (if acc AND 8 \<noteq> 0 then 0x80000000 else 0) OR (if acc AND 2 \<noteq> 0 then 0x40000000 else 0)
            OR (if acc AND 4 \<noteq> 0 then 0x20000000 else 0);
          flags2 = (if sw_bind_type2 w then 0x80000000 else 0) OR (if acc AND 32 \<noteq> 0 then 0x40000000 else 0)
      in be32 flags1 @ be32 flags2 @ be32 (sw_bind_rkey w) @ be32 (sw_bind_lkey w) @
         be64 (sw_bind_addr w) @ be64 (sw_bind_length w))"

text \<open>A pointer to data: the count is written last, and 0 bytes stand for \<open>2^31\<close>.\<close>

definition set_ptr_data :: "u8 list \<Rightarrow> nat \<Rightarrow> sge \<Rightarrow> u8 list res" where
  "set_ptr_data wqe pos g =
     res_bind (mem_write wqe (pos + 4) (be32 (sg_lkey g))) (\<lambda>w1.
     res_bind (mem_write w1 (pos + 8) (be64 (sg_addr g))) (\<lambda>w2.
     mem_write w2 pos (be32 (if sg_length g \<noteq> 0 then sg_length g else 0x80000000))))"

text \<open>The segments of a gather list, from the last to the first.\<close>

fun set_ptrs :: "u8 list \<Rightarrow> nat \<Rightarrow> sge list \<Rightarrow> nat \<Rightarrow> u8 list res" where
  "set_ptrs wqe pos gs 0 = Inr wqe"
| "set_ptrs wqe pos gs (Suc i) =
     res_bind (set_ptr_data wqe (pos + 16 * i) (gs ! i)) (\<lambda>w. set_ptrs w pos gs i)"

definition set_data_non_inl_seg :: "sge list \<Rightarrow> u8 list \<Rightarrow> nat \<Rightarrow> nat \<Rightarrow> (nat \<times> u8 list) res" where
  "set_data_non_inl_seg gs wqe pos sz =
     res_bind (set_ptrs wqe pos gs (length gs)) (\<lambda>w. Inr (sz + length gs, w))"

text \<open>
  Inline data. \<open>in_seg\<close> is the place of the open segment's header, \<open>in_pos\<close> where the next byte goes, \<open>in_off\<close> its offset
  in the 64-byte block. A segment is closed, its header written, when its block is full.
\<close>

record inl_state =
  in_wqe :: "u8 list"
  in_pos :: nat
  in_seg :: nat
  in_seg_len :: nat
  in_off :: nat
  in_num :: nat

definition seg_header :: "nat \<Rightarrow> u8 list" where
  "seg_header n = be32 (MLX4_INLINE_SEG OR of_nat n)"

function inl_copy :: "u8 list \<Rightarrow> inl_state \<Rightarrow> inl_state res" where
  "inl_copy data s =
     (if 64 \<le> in_off s then Inl Out_of_bounds
      else let k = 64 - in_off s in
      if k \<le> length data then
        res_bind (mem_put (in_wqe s) (in_pos s) (take k data)) (\<lambda>w.
        res_bind (mem_write w (in_seg s) (seg_header (in_seg_len s + k))) (\<lambda>w.
        inl_copy (drop k data) (s\<lparr>in_wqe := w, in_pos := in_pos s + k + 4, in_seg := in_pos s + k,
          in_seg_len := 0, in_off := 4, in_num := in_num s + 1\<rparr>)))
      else res_bind (mem_put (in_wqe s) (in_pos s) data) (\<lambda>w.
        Inr (s\<lparr>in_wqe := w, in_pos := in_pos s + length data, in_seg_len := in_seg_len s + length data,
          in_off := in_off s + length data\<rparr>)))"
  by auto
termination by (relation "measure (length \<circ> fst)") auto

declare inl_copy.simps [simp del]

text \<open>
  All elements. \<open>len\<close> and the sum \<open>inl\<close> are signed 32-bit numbers; a negative length passes the test and is then
  \<open>memcpy\<close>'s unsigned size. \<open>None\<close> is \<open>ENOMEM\<close>.
\<close>

fun inl_sges :: "(u64 \<Rightarrow> u8) \<Rightarrow> nat \<Rightarrow> sge list \<Rightarrow> int \<Rightarrow> inl_state \<Rightarrow> (int option \<times> inl_state) res" where
  "inl_sges mem maxi [] inl s = Inr (Some inl, s)"
| "inl_sges mem maxi (g # gs) inl s =
     (let len = sint (sg_length g); inl = signed_take_bit 31 (inl + len) in
      if int maxi < inl then Inr (None, s)
      else if len < 0 then Inl Out_of_bounds
      else res_bind (inl_copy (map (\<lambda>i. mem (sg_addr g + of_nat i)) [0..<nat len]) s) (inl_sges mem maxi gs inl))"

definition set_data_inl_seg :: "(u64 \<Rightarrow> u8) \<Rightarrow> nat \<Rightarrow> sge list \<Rightarrow> u8 list \<Rightarrow> nat \<Rightarrow> nat \<Rightarrow> (int \<times> nat \<times> u8 list) res" where
  "set_data_inl_seg mem maxi gs wqe pos sz =
     res_bind (inl_sges mem maxi gs 0 \<lparr>in_wqe = wqe, in_pos = pos + 4, in_seg = pos, in_seg_len = 0,
         in_off = (pos + 4) mod 64, in_num = 0\<rparr>) (\<lambda>(r, s).
       case r of None \<Rightarrow> Inr (ENOMEM, sz, in_wqe s)
       | Some inl \<Rightarrow>
         res_bind (if in_seg_len s \<noteq> 0 then mem_write (in_wqe s) (in_seg s) (seg_header (in_seg_len s)) else Inr (in_wqe s)) (\<lambda>w.
           let num = (if in_seg_len s \<noteq> 0 then in_num s + 1 else in_num s)
           in Inr (0, sz + (nat inl + num * 4 + 15) div 16, w)))"

section \<open>Requests\<close>

definition set_ctrl_seg :: "ibv_wr \<Rightarrow> u8 list \<Rightarrow> u8 list \<Rightarrow> u32 \<Rightarrow> nat \<Rightarrow> u8 list \<Rightarrow> u8 list res" where
  "set_ctrl_seg w imm srcrb owner sz wqe =
     res_bind (mem_write wqe 8 (srcrb @ imm)) (\<lambda>w1.
     res_bind (mem_write w1 7 [(if sw_flags w AND IBV_SEND_FENCE \<noteq> 0 then 0x40 else 0) OR of_nat sz]) (\<lambda>w2.
     mem_write w2 0 (be32 (mlx4_ib_opcode (sw_op w) OR owner))))"

text \<open>The result: the error code, the size in units of 16 bytes, the flag \<open>inl\<close>, and the slot.\<close>

type_synonym wqe_result = "(int \<times> nat \<times> bool \<times> u8 list) res"

definition set_common_segments :: "(u64 \<Rightarrow> u8) \<Rightarrow> sq_conf \<Rightarrow> ibv_wr \<Rightarrow> u8 list \<Rightarrow> u8 list \<Rightarrow> nat \<Rightarrow> nat \<Rightarrow> bool \<Rightarrow> nat \<Rightarrow> u8 list \<Rightarrow> wqe_result" where
  "set_common_segments mem qc w srcrb imm pos sz inl ind wqe =
     (let owner = (if ind AND sc_wqe_cnt qc \<noteq> 0 then WQE_CTRL_OWN else 0);
          is_inl = (sw_flags w AND IBV_SEND_INLINE \<noteq> 0);
          inl1 = (if is_inl then sw_sges w \<noteq> [] else inl)
      in res_bind (if is_inl then set_data_inl_seg mem (sc_max_inline_data qc) (sw_sges w) wqe pos sz
           else res_bind (set_data_non_inl_seg (sw_sges w) wqe pos sz) (\<lambda>(sz, wqe). Inr (0, sz, wqe)))
         (\<lambda>(ret, sz, wqe). if ret \<noteq> 0 then Inr (ret, sz, inl1, wqe)
           else res_bind (set_ctrl_seg w imm srcrb owner sz wqe) (\<lambda>wqe. Inr (0, sz, inl1, wqe))))"

definition srcrb_of :: "sq_conf \<Rightarrow> u32 \<Rightarrow> u32 res" where
  "srcrb_of qc flags = arr_get (sc_srcrb_flags qc)
     ((if flags AND IBV_SEND_SIGNALED \<noteq> 0 then 1 else 0) + (if flags AND IBV_SEND_SOLICITED \<noteq> 0 then 2 else 0))"

definition imm_of :: "ibv_wr \<Rightarrow> u8 list" where
  "imm_of w = (if sw_op w = WR_SEND_WITH_IMM \<or> sw_op w = WR_RDMA_WRITE_WITH_IMM then le32 (sw_imm w) else le32 0)"

text \<open>
  The segments between the control segment and the data of a connected queue pair: what is written behind the
  control segment, the change of the flags, the immediate field and the \<open>inl\<close> flag.
\<close>

definition connected_segs :: "ibv_wr \<Rightarrow> u8 list \<Rightarrow> u8 list" where
  "connected_segs w wqe = (case sw_op w of
       WR_ATOMIC_CMP_AND_SWP \<Rightarrow> raddr_seg (sw_raddr w) (sw_rkey w) @ atomic_seg w
     | WR_ATOMIC_FETCH_AND_ADD \<Rightarrow> raddr_seg (sw_raddr w) (sw_rkey w) @ atomic_seg w
     | WR_RDMA_WRITE_WITH_IMM \<Rightarrow> raddr_seg (sw_raddr w) (sw_rkey w)
     | WR_RDMA_READ \<Rightarrow> raddr_seg (sw_raddr w) (sw_rkey w)
     | WR_RDMA_WRITE \<Rightarrow> raddr_seg (sw_raddr w) (sw_rkey w)
     | WR_LOCAL_INV \<Rightarrow> local_inv_seg (drop 16 wqe) (sw_imm w)
     | WR_BIND_MW \<Rightarrow> bind_seg w
     | _ \<Rightarrow> [])"

definition connected_imm :: "ibv_wr \<Rightarrow> u8 list" where
  "connected_imm w = (case sw_op w of WR_SEND_WITH_IMM \<Rightarrow> le32 (sw_imm w) | WR_RDMA_WRITE_WITH_IMM \<Rightarrow> le32 (sw_imm w)
     | WR_SEND_WITH_INV \<Rightarrow> be32 (sw_imm w) | _ \<Rightarrow> le32 0)"

definition post_send_connected :: "(u64 \<Rightarrow> u8) \<Rightarrow> sq_conf \<Rightarrow> bool \<Rightarrow> ibv_wr \<Rightarrow> nat \<Rightarrow> bool \<Rightarrow> u8 list \<Rightarrow> wqe_result" where
  "post_send_connected mem qc is_xrc w ind inl wqe =
     res_bind (srcrb_of qc (sw_flags w)) (\<lambda>tbl.
       let flags = (if is_xrc then push_bit 8 (sw_srqn w) OR tbl else tbl);
           flags = (if sw_op w = WR_LOCAL_INV \<or> sw_op w = WR_BIND_MW then flags OR 0x80 else flags);
           inl1 = (if sw_op w = WR_RDMA_READ then True
             else if sw_op w = WR_RDMA_WRITE_WITH_IMM \<and> sw_sges w = [] then True else inl);
           segs = connected_segs w wqe
       in res_bind (mem_put wqe 16 segs) (\<lambda>wqe1.
            set_common_segments mem qc w (be32 flags) (connected_imm w) (16 + length segs) (1 + length segs div 16)
              inl1 ind wqe1))"

definition post_send_ud :: "(u64 \<Rightarrow> u8) \<Rightarrow> sq_conf \<Rightarrow> ibv_wr \<Rightarrow> nat \<Rightarrow> bool \<Rightarrow> u8 list \<Rightarrow> wqe_result" where
  "post_send_ud mem qc w ind inl wqe =
     res_bind (srcrb_of qc (sw_flags w)) (\<lambda>flags.
     res_bind (mem_write wqe 16 (datagram_seg w)) (\<lambda>wqe1.
       set_common_segments mem qc w (be32 flags) (imm_of w) 64 4 inl ind wqe1))"

definition post_send_other :: "(u64 \<Rightarrow> u8) \<Rightarrow> sq_conf \<Rightarrow> ibv_wr \<Rightarrow> nat \<Rightarrow> bool \<Rightarrow> u8 list \<Rightarrow> wqe_result" where
  "post_send_other mem qc w ind inl wqe =
     res_bind (srcrb_of qc (sw_flags w)) (\<lambda>flags.
       set_common_segments mem qc w (be32 flags) (imm_of w) 16 1 inl ind wqe)"

text \<open>
  A raw packet: on Ethernet the destination address is taken from the payload into the control segment.
\<close>

definition post_send_rc_raw_packet :: "(u64 \<Rightarrow> u8) \<Rightarrow> sq_conf \<Rightarrow> ibv_wr \<Rightarrow> nat \<Rightarrow> bool \<Rightarrow> u8 list \<Rightarrow> wqe_result" where
  "post_send_rc_raw_packet mem qc w ind inl wqe =
     (case sw_sges w of [] \<Rightarrow> Inr (EINVAL, 1, inl, wqe)
      | g # _ \<Rightarrow>
        if sc_ethernet qc then
          res_bind (srcrb_of qc (sw_flags w AND IBV_SEND_SIGNALED)) (\<lambda>flags.
            let byte = (\<lambda>i. mem (sg_addr g + i))
            in set_common_segments mem qc w ([byte 0, byte 1] @ drop 2 (be32 (flags OR 2)))
                 [byte 2, byte 3, byte 4, byte 5] 16 1 inl ind wqe)
        else
          res_bind (srcrb_of qc (sw_flags w)) (\<lambda>flags.
            set_common_segments mem qc w (be32 flags) (imm_of w) 16 1 inl ind wqe))"

definition post_send_one :: "(u64 \<Rightarrow> u8) \<Rightarrow> sq_conf \<Rightarrow> ibv_wr \<Rightarrow> nat \<Rightarrow> bool \<Rightarrow> u8 list \<Rightarrow> wqe_result" where
  "post_send_one mem qc = (case sc_kind qc of
       QPT_XRC_SEND \<Rightarrow> post_send_connected mem qc True
     | QPT_XRC \<Rightarrow> post_send_connected mem qc True
     | QPT_RC \<Rightarrow> post_send_connected mem qc False
     | QPT_UC \<Rightarrow> post_send_connected mem qc False
     | QPT_UD \<Rightarrow> post_send_ud mem qc
     | QPT_RAW_PACKET \<Rightarrow> post_send_rc_raw_packet mem qc
     | QPT_other \<Rightarrow> post_send_other mem qc)"

section \<open>Sizes\<close>

definition num_inline_segs :: "nat \<Rightarrow> qp_kind \<Rightarrow> nat" where
  "num_inline_segs data kind =
     (let data = (if kind = QPT_UD then data + (16 + 48) mod MLX4_INLINE_ALIGN else data + (16 + 16) mod MLX4_INLINE_ALIGN)
      in (data + MLX4_INLINE_ALIGN - 4 - 1) div (MLX4_INLINE_ALIGN - 4))"

definition align :: "nat \<Rightarrow> nat \<Rightarrow> nat" where
  "align val a = (val + a - 1) div a * a"

text \<open>The limits a queue pair is created with; the comparison with \<open>size\<close> is unsigned.\<close>

record qp_cap =
  cap_max_send_wr :: nat
  cap_max_recv_wr :: nat
  cap_max_send_sge :: nat
  cap_max_recv_sge :: nat
  cap_max_inline_data :: nat

definition verify_sizes :: "nat \<Rightarrow> nat \<Rightarrow> qp_cap \<Rightarrow> qp_kind \<Rightarrow> bool" where
  "verify_sizes max_qp_wr max_sge cap kind \<longleftrightarrow>
     cap_max_send_wr cap \<le> max_qp_wr \<and> cap_max_recv_wr cap \<le> max_qp_wr \<and>
     cap_max_send_sge cap \<le> max_sge \<and> cap_max_recv_sge cap \<le> max_sge \<and>
     (cap_max_inline_data cap \<noteq> 0 \<longrightarrow>
       (let sz = int MLX4_MAX_WQE_SIZE - int (num_inline_segs (cap_max_inline_data cap) kind * 4);
            fits = (\<lambda>sz. int (cap_max_inline_data cap) \<le> sz mod 2 ^ 32)
        in case kind of QPT_UD \<Rightarrow> fits (sz - 64) | QPT_RC \<Rightarrow> fits (sz - 32) | QPT_UC \<Rightarrow> fits (sz - 32) | _ \<Rightarrow> True))"

function shift_for :: "nat \<Rightarrow> nat \<Rightarrow> nat" where
  "shift_for sz sh = (if 2 ^ sh < sz then shift_for sz (Suc sh) else sh)"
  by auto
termination
proof (relation "measure (\<lambda>(sz, sh). sz - 2 ^ sh)")
  show "((sz, Suc sh), (sz, sh)) \<in> measure (\<lambda>(sz, sh). sz - 2 ^ sh)" if "2 ^ sh < sz" for sz sh :: nat
    using that less_exp [of sh] by (simp add: diff_less_mono2)
qed simp

declare shift_for.simps [simp del]

definition mlx4_calc_sq_wqe_size :: "qp_cap \<Rightarrow> qp_kind \<Rightarrow> bool \<Rightarrow> nat" where
  "mlx4_calc_sq_wqe_size cap kind masked_atomic =
     (let max_sq_sge = max (align (cap_max_inline_data cap + num_inline_segs (cap_max_inline_data cap) kind * 4) 16 div 16)
            (cap_max_send_sge cap);
          sz = max_sq_sge * 16;
          sz = (case kind of QPT_UD \<Rightarrow> sz + 48 | QPT_UC \<Rightarrow> sz + 16
            | QPT_RC \<Rightarrow> max (sz + 16) ((if masked_atomic then 32 else 16) + 16 + 16)
            | QPT_XRC_SEND \<Rightarrow> max (sz + 16) ((if masked_atomic then 32 else 16) + 16 + 16)
            | QPT_XRC \<Rightarrow> max (sz + 16) ((if masked_atomic then 32 else 16) + 16 + 16)
            | _ \<Rightarrow> sz);
          sz = max sz 32 + 16
      in shift_for sz 6)"

text \<open>\<open>mlx4_set_sq_sizes\<close>: \<open>max_gs\<close>, \<open>max_post\<close>, and the limits reported back.\<close>

definition mlx4_set_sq_sizes :: "nat \<Rightarrow> nat \<Rightarrow> nat \<Rightarrow> nat \<Rightarrow> nat \<Rightarrow> qp_kind \<Rightarrow> qp_cap \<Rightarrow> nat \<times> nat \<times> qp_cap" where
  "mlx4_set_sq_sizes max_qp_wr max_sge wqe_shift wqe_cnt spare kind cap =
     (let wqe_size = min (2 ^ wqe_shift) MLX4_MAX_WQE_SIZE - 16;
          wqe_size = (case kind of QPT_UD \<Rightarrow> wqe_size - 48 | QPT_XRC_SEND \<Rightarrow> wqe_size - 16 | QPT_XRC \<Rightarrow> wqe_size - 16
            | QPT_UC \<Rightarrow> wqe_size - 16 | QPT_RC \<Rightarrow> wqe_size - 16 | _ \<Rightarrow> wqe_size);
          max_gs = wqe_size div 16;
          max_post = min max_qp_wr (wqe_cnt - spare)
      in (max_gs, max_post, cap\<lparr>cap_max_send_sge := min max_sge max_gs, cap_max_send_wr := max_post,
            cap_max_inline_data := wqe_size - 4 * (align wqe_size MLX4_INLINE_ALIGN div MLX4_INLINE_ALIGN)\<rparr>))"

section \<open>Inline data\<close>

text \<open>
  Inline data in a slot: a sequence of segments, each a header with the length and that many bytes, none of which
  crosses a boundary of 64 bytes.
\<close>

definition inl_seg :: "u8 list \<Rightarrow> u8 list" where
  "inl_seg d = seg_header (length d) @ d"

definition inl_segs :: "u8 list list \<Rightarrow> u8 list" where
  "inl_segs ds = concat (map inl_seg ds)"

fun fits_blocks :: "nat \<Rightarrow> u8 list list \<Rightarrow> bool" where
  "fits_blocks p [] \<longleftrightarrow> True"
| "fits_blocks p (d # ds) \<longleftrightarrow> d \<noteq> [] \<and> p mod 64 + 4 + length d \<le> 64 \<and> fits_blocks (p + 4 + length d) ds"

lemma length_seg_header [simp]: "length (seg_header n) = 4"
  by (simp add: seg_header_def)

lemma length_inl_seg [simp]: "length (inl_seg d) = 4 + length d"
  by (simp add: inl_seg_def)

lemma inl_segs_simps [simp]:
  "inl_segs [] = []" "inl_segs (d # ds) = inl_seg d @ inl_segs ds" "inl_segs (ds @ es) = inl_segs ds @ inl_segs es"
  by (simp_all add: inl_segs_def)

lemma length_inl_segs: "length (inl_segs ds) = length (concat ds) + 4 * length ds"
  by (induction ds) simp_all

lemma fits_blocks_append:
  "fits_blocks p (ds @ es) \<longleftrightarrow> fits_blocks p ds \<and> fits_blocks (p + length (inl_segs ds)) es"
  by (induction ds arbitrary: p) (auto simp: add.assoc add.left_commute)

text \<open>The open segment: it starts behind \<open>A\<close> and holds \<open>cur\<close>; its header is not written yet.\<close>

definition inl_inv :: "inl_state \<Rightarrow> u8 list \<Rightarrow> u8 list \<Rightarrow> bool" where
  "inl_inv s A cur \<longleftrightarrow>
     (\<exists>tl. in_wqe s = A @ tl \<and> take (length cur) (drop 4 tl) = cur) \<and> length A = in_seg s \<and>
     in_pos s = in_seg s + 4 + length cur \<and> in_seg_len s = length cur \<and>
     in_off s = in_seg s mod 64 + 4 + length cur \<and> in_off s < 64"

lemma block_end: "(p::nat) mod 64 + r = 64 \<Longrightarrow> p + r = 64 * Suc (p div 64)"
  by (metis add.assoc mod_mult_div_eq mult_Suc_right add.commute)

text \<open>Room for \<open>n\<close> more bytes in a slot of \<open>64 * b\<close> bytes.\<close>

definition inl_room :: "inl_state \<Rightarrow> nat \<Rightarrow> bool" where
  "inl_room s n \<longleftrightarrow> (\<exists>b. length (in_wqe s) = 64 * b \<and> n + in_off s + 60 * (in_seg s div 64) \<le> 60 * b + 4)"

lemma inl_room_block:
  assumes "inl_room s n" "inl_inv s A cur" "0 < n" "k \<le> n" "in_off s + k \<le> 64"
  shows "in_pos s + k \<le> length (in_wqe s)"
proof -
  obtain b where b: "length (in_wqe s) = 64 * b" "n + in_off s + 60 * (in_seg s div 64) \<le> 60 * b + 4"
    using assms(1) by (auto simp: inl_room_def)
  have off: "4 \<le> in_off s" "in_pos s = 64 * (in_seg s div 64) + in_off s"
    using assms(2) by (auto simp: inl_inv_def)
  have "60 * (in_seg s div 64) < 60 * b" using b(2) off(1) assms(3) by linarith
  then have "in_seg s div 64 + 1 \<le> b" by simp
  then show ?thesis using off(2) b(1) assms(5) by linarith
qed

lemma inl_copy_last:
  assumes inv: "inl_inv s A cur" and room: "inl_room s (length data + m)" and len: "length data < 64 - in_off s"
  shows "\<exists>s'. inl_copy data s = Inr s' \<and> inl_inv s' A (cur @ data) \<and> length (in_wqe s') = length (in_wqe s) \<and>
    drop (in_pos s') (in_wqe s') = drop (in_pos s') (in_wqe s) \<and> in_num s' = in_num s \<and> in_seg s' = in_seg s \<and>
    inl_room s' m"
proof (cases "data = []")
  case True
  have "inl_copy data s = Inr s"
    using True len by (cases s) (simp add: inl_copy.simps [of "[]"] mem_put_def)
  then show ?thesis using inv room True by auto
next
  case False
  obtain tl where tl: "in_wqe s = A @ tl" "take (length cur) (drop 4 tl) = cur" "length A = in_seg s"
    "in_pos s = in_seg s + 4 + length cur" "in_off s < 64"
    using inv by (auto simp: inl_inv_def)
  have fit: "in_pos s + length data \<le> length (in_wqe s)"
    using inl_room_block [OF room inv, of "length data"] False len by simp
  define w where "w = A @ take (4 + length cur) tl @ data @ drop (4 + length cur + length data) tl"
  have put: "mem_put (in_wqe s) (in_pos s) data = Inr w"
    using fit tl by (simp add: mem_put_in w_def add.assoc)
  have ltl: "4 + length cur + length data \<le> length tl" using fit tl(1,3,4) by simp
  have t4: "drop 4 (take (4 + length cur) tl) = cur" using tl(2) by (simp add: drop_take)
  have "take (length (cur @ data)) (drop 4 (take (4 + length cur) tl @ data @ drop (4 + length cur + length data) tl)) = cur @ data"
    using ltl t4 by simp
  moreover have "drop (in_seg s + (4 + (length cur + length data))) w = drop (in_seg s + (4 + (length cur + length data))) (in_wqe s)"
    using ltl tl(1,3) by (simp add: w_def add.assoc)
  moreover have "length w = length (in_wqe s)" using ltl tl(1) by (simp add: w_def)
  moreover have "inl_copy data s = Inr (s\<lparr>in_wqe := w, in_pos := in_pos s + length data,
      in_seg_len := in_seg_len s + length data, in_off := in_off s + length data\<rparr>)"
    using put len by (simp add: inl_copy.simps [of data s])
  moreover have "A @ take (4 + length cur) tl @ data @ drop (4 + length cur + length data) tl = w"
    by (simp only: w_def)
  moreover have "in_seg_len s = length cur" "in_off s = in_seg s mod 64 + 4 + length cur"
    using inv by (simp_all add: inl_inv_def)
  ultimately have facts: "inl_copy data s = Inr (s\<lparr>in_wqe := w, in_pos := in_pos s + length data,
      in_seg_len := in_seg_len s + length data, in_off := in_off s + length data\<rparr>)"
    "take (length (cur @ data)) (drop 4 (take (4 + length cur) tl @ data @ drop (4 + length cur + length data) tl)) = cur @ data"
    "drop (in_seg s + (4 + (length cur + length data))) w = drop (in_seg s + (4 + (length cur + length data))) (in_wqe s)"
    "length w = length (in_wqe s)" "w = A @ take (4 + length cur) tl @ data @ drop (4 + length cur + length data) tl"
    "in_seg_len s = length cur" "in_off s = in_seg s mod 64 + 4 + length cur" by metis+
  let ?s = "s\<lparr>in_wqe := w, in_pos := in_pos s + length data,
      in_seg_len := in_seg_len s + length data, in_off := in_off s + length data\<rparr>"
  have "inl_inv ?s A (cur @ data)"
    unfolding inl_inv_def using facts(2,5-7) tl(3-5) len ltl t4
    by (intro conjI exI [of _ "take (4 + length cur) tl @ data @ drop (4 + length cur + length data) tl"]) simp_all
  moreover have "drop (in_pos ?s) w = drop (in_pos ?s) (in_wqe s)"
    using facts(3) tl(4) by (simp add: add.assoc)
  moreover have "inl_room ?s m" using room facts(4) by (auto simp: inl_room_def)
  ultimately show ?thesis using facts(1,3,4) by (intro exI [of _ ?s]) simp
qed

lemma inl_copy_close:
  assumes inv: "inl_inv s A cur" and room: "inl_room s (length data + m)" and len: "64 - in_off s \<le> length data"
  defines "k \<equiv> 64 - in_off s"
  shows "\<exists>s'. inl_copy data s = inl_copy (drop k data) s' \<and> inl_inv s' (A @ inl_seg (cur @ take k data)) [] \<and>
    inl_room s' (length data - k + m) \<and> length (in_wqe s') = length (in_wqe s) \<and>
    drop (in_seg s') (in_wqe s') = drop (in_seg s') (in_wqe s) \<and> in_num s' = in_num s + 1 \<and>
    in_seg s' = in_seg s + 4 + length cur + k \<and> in_seg s mod 64 + 4 + length (cur @ take k data) \<le> 64 \<and> 0 < k"
proof -
  obtain tl where tl: "in_wqe s = A @ tl" "take (length cur) (drop 4 tl) = cur" "length A = in_seg s"
    "in_pos s = in_seg s + 4 + length cur" "in_off s < 64" "in_seg_len s = length cur"
    "in_off s = in_seg s mod 64 + 4 + length cur"
    using inv by (auto simp: inl_inv_def)
  have k: "0 < k" "k \<le> length data" "in_off s + k = 64" using tl(5) len by (simp_all add: k_def)
  have "0 < length data + m" "k \<le> length data + m" using k(1,2) by linarith+
  then have fit: "in_pos s + k \<le> length (in_wqe s)"
    using inl_room_block [OF room inv] k(3) by simp
  then have ltl: "4 + length cur + k \<le> length tl" using tl(1,3,4) by simp
  have t4: "drop 4 (take (4 + length cur) tl) = cur" using tl(2) by (simp add: drop_take)
  define w1 where "w1 = A @ take (4 + length cur) tl @ take k data @ drop (4 + length cur + k) tl"
  have put: "mem_put (in_wqe s) (in_pos s) (take k data) = Inr w1"
    using fit tl k by (simp add: mem_put_in w1_def min_def add.assoc)
  define w2 where "w2 = A @ inl_seg (cur @ take k data) @ drop (4 + length cur + k) tl"
  have d4: "drop 4 (take (4 + length cur) tl @ take k data @ drop (4 + length cur + k) tl) =
      cur @ take k data @ drop (4 + length cur + k) tl"
    using ltl t4 by simp
  let ?s = "s\<lparr>in_wqe := w2, in_pos := in_pos s + k + 4, in_seg := in_pos s + k, in_seg_len := 0,
        in_off := 4, in_num := in_num s + 1\<rparr>"
  have hdr: "mem_write w1 (in_seg s) (seg_header (length cur + k)) = Inr w2"
    using ltl d4 k(2) tl(3) by (simp add: mem_write_def w1_def w2_def inl_seg_def)
  have eq: "inl_copy data s = inl_copy (drop k data) ?s"
    unfolding inl_copy.simps [of data s] k_def [symmetric] Let_def
    using put hdr k(2) tl(5) by (simp add: tl(6) del: One_nat_def)
  have pos: "in_pos s + k = 64 * Suc (in_seg s div 64)"
    using block_end [of "in_seg s" "4 + length cur + k"] k(3) tl(4,7) by simp
  have m: "(in_seg s + 4 + length cur + k) mod 64 = 0"
    using pos tl(4) by (metis mod_mult_self1_is_0)
  have "drop (in_pos s + k) w2 = drop (in_pos s + k) (in_wqe s)"
    using tl(1,3,4) k(2) by (simp add: w2_def min_def add.assoc)
  moreover have len2: "length w2 = length (in_wqe s)" using ltl tl(1) k(2) by (simp add: w2_def min_def)
  moreover have "inl_inv ?s (A @ inl_seg (cur @ take k data)) []"
    using m tl(3,4) k(2) by (auto simp: inl_inv_def w2_def min_def)
  moreover have "inl_room ?s (length data - k + m)"
    using room pos k len2 by (auto simp: inl_room_def)
  moreover have "in_pos s + k = in_seg s + 4 + length cur + k" "in_seg s mod 64 + 4 + length (cur @ take k data) \<le> 64"
    using tl(4,7) k(2,3) by simp_all
  ultimately show ?thesis using eq k(1) by (intro exI [of _ ?s]) (simp del: length_append)
qed

text \<open>A list of bytes copied into the open segment and the ones after it.\<close>

definition inl_step :: "inl_state \<Rightarrow> u8 list \<Rightarrow> u8 list \<Rightarrow> u8 list \<Rightarrow> inl_state \<Rightarrow> u8 list list \<Rightarrow> u8 list \<Rightarrow> bool" where
  "inl_step s A cur data s' ds cur' \<longleftrightarrow> inl_inv s A cur \<and> inl_inv s' (A @ inl_segs ds) cur' \<and> concat ds @ cur' = cur @ data \<and>
     fits_blocks (in_seg s) ds \<and> length (in_wqe s') = length (in_wqe s) \<and>
     drop (in_pos s') (in_wqe s') = drop (in_pos s') (in_wqe s) \<and> in_num s' = in_num s + length ds"

lemma drop_mono: "drop m xs = drop m ys \<Longrightarrow> m \<le> n \<Longrightarrow> drop n xs = drop n ys"
  by (metis drop_drop le_add_diff_inverse2)

lemma inl_copy_ok:
  assumes "inl_inv s A cur" "inl_room s (length data + m)"
  shows "\<exists>s' ds cur'. inl_copy data s = Inr s' \<and> inl_step s A cur data s' ds cur' \<and> inl_room s' m"
  using assms
proof (induction data arbitrary: s A cur rule: measure_induct_rule [where f = length])
  case (less data)
  show ?case
  proof (cases "length data < 64 - in_off s")
    case True
    then show ?thesis
      using inl_copy_last [OF less.prems] by (fastforce simp: inl_step_def less.prems(1) intro: exI [of _ "[]"])
  next
    case False
    let ?k = "64 - in_off s" and ?d = "cur @ take (64 - in_off s) data"
    obtain s1 where s1: "inl_copy data s = inl_copy (drop ?k data) s1" "inl_inv s1 (A @ inl_seg ?d) []"
      "inl_room s1 (length data - ?k + m)" "length (in_wqe s1) = length (in_wqe s)"
      "drop (in_seg s1) (in_wqe s1) = drop (in_seg s1) (in_wqe s)" "in_num s1 = in_num s + 1"
      "in_seg s1 = in_seg s + 4 + length cur + ?k" "in_seg s mod 64 + 4 + length ?d \<le> 64" "0 < ?k"
      using inl_copy_close [OF less.prems] False by (metis not_less)
    have "length (drop ?k data) < length data" using s1(9) False by simp
    moreover have "inl_room s1 (length (drop ?k data) + m)" using s1(3) by (simp only: length_drop)
    ultimately obtain s' ds cur' where s': "inl_copy (drop ?k data) s1 = Inr s'"
      "inl_step s1 (A @ inl_seg ?d) [] (drop ?k data) s' ds cur'" "inl_room s' m"
      using less.IH [OF _ s1(2)] by metis
    have "length (A @ inl_seg ?d) = in_seg s1" "length ((A @ inl_seg ?d) @ inl_segs ds) = in_seg s'"
      using s'(2) s1(2) by (simp_all only: inl_step_def inl_inv_def)
    then have "in_seg s1 \<le> in_seg s'" by simp
    moreover have "in_seg s' \<le> in_pos s'" using s'(2) by (simp add: inl_step_def inl_inv_def)
    ultimately have "drop (in_pos s') (in_wqe s1) = drop (in_pos s') (in_wqe s)"
      using drop_mono [OF s1(5)] by simp
    moreover have "length ?d = length cur + ?k" using False by simp
    moreover from this have "?d \<noteq> []" using s1(9) by (metis add_gr_0 length_greater_0_conv)
    ultimately have "inl_step s A cur data s' (?d # ds) cur'"
      using s'(2) s1(4,6-8) less.prems(1) by (auto simp: inl_step_def add.assoc)
    then show ?thesis using s1(1) s'(1,3) by metis
  qed
qed


lemma inl_step_pos:
  assumes "inl_step s A cur data s' ds cur'"
  shows "in_pos s' = in_pos s + length data + 4 * length ds"
proof -
  have i: "length A = in_seg s" "length (A @ inl_segs ds) = in_seg s'" "in_pos s = in_seg s + 4 + length cur"
    "in_pos s' = in_seg s' + 4 + length cur'"
    using assms by (simp_all only: inl_step_def inl_inv_def)
  have "length (concat ds @ cur') = length (cur @ data)" using assms by (simp only: inl_step_def)
  then show ?thesis using i by (simp add: length_inl_segs)
qed

lemma inl_step_trans:
  assumes "inl_step s A cur data s' ds cur'" "inl_step s' (A @ inl_segs ds) cur' data2 s2 es cur2"
  shows "inl_step s A cur (data @ data2) s2 (ds @ es) cur2"
proof -
  have l: "length A = in_seg s" "length (A @ inl_segs ds) = in_seg s'"
    using assms by (simp_all only: inl_step_def inl_inv_def append.assoc)
  have "in_pos s' \<le> in_pos s2" using inl_step_pos [OF assms(2)] by simp
  then have "drop (in_pos s2) (in_wqe s') = drop (in_pos s2) (in_wqe s)"
    using drop_mono [of "in_pos s'" "in_wqe s'" "in_wqe s"] assms(1) by (simp add: inl_step_def)
  moreover have "concat ds @ concat es @ cur2 = cur @ data @ data2"
    using assms by (metis append.assoc inl_step_def)
  ultimately show ?thesis
    using assms l by (simp add: inl_step_def fits_blocks_append)
qed

definition sge_bytes :: "(u64 \<Rightarrow> u8) \<Rightarrow> sge \<Rightarrow> u8 list" where
  "sge_bytes mem g = map (\<lambda>i. mem (sg_addr g + of_nat i)) [0..<unat (sg_length g)]"

definition gathered :: "(u64 \<Rightarrow> u8) \<Rightarrow> sge list \<Rightarrow> u8 list" where
  "gathered mem gs = concat (map (sge_bytes mem) gs)"

lemma length_sge_bytes [simp]: "length (sge_bytes mem g) = unat (sg_length g)"
  by (simp add: sge_bytes_def)

lemma gathered_simps [simp]: "gathered mem [] = []" "gathered mem (g # gs) = sge_bytes mem g @ gathered mem gs"
  by (simp_all add: gathered_def)

lemma signed_small: "n < 2 ^ 31 \<Longrightarrow> signed_take_bit 31 (int n) = int n"
  by (rule signed_take_bit_int_eq_self) simp_all

lemma sint_nonneg_small: "unat (w :: u32) < 2 ^ 31 \<Longrightarrow> sint w = int (unat w)"
  using signed_small [of "unat w"] by (simp add: sint_uint)

lemma inl_sges_ok:
  assumes "inl_inv s A cur" "inl_room s (length (gathered mem gs))" "n + length (gathered mem gs) \<le> maxi" "maxi < 2 ^ 31"
  shows "\<exists>s' ds cur'. inl_sges mem maxi gs (int n) s = Inr (Some (int (n + length (gathered mem gs))), s') \<and>
    inl_step s A cur (gathered mem gs) s' ds cur'"
  using assms(1-3)
proof (induction gs arbitrary: n s A cur)
  case Nil
  then show ?case by (auto simp: inl_step_def intro!: exI [of _ "[]"])
next
  case (Cons g gs)
  let ?l = "unat (sg_length g)"
  have l: "?l < 2 ^ 31" "n + ?l < 2 ^ 31" "n + ?l \<le> maxi" using Cons.prems(3) assms(4) by simp_all
  obtain s1 ds1 cur1 where s1: "inl_copy (sge_bytes mem g) s = Inr s1" "inl_step s A cur (sge_bytes mem g) s1 ds1 cur1"
    "inl_room s1 (length (gathered mem gs))"
    using inl_copy_ok [OF Cons.prems(1), of "sge_bytes mem g" "length (gathered mem gs)"] Cons.prems(2) by auto
  have "inl_inv s1 (A @ inl_segs ds1) cur1" using s1(2) by (simp add: inl_step_def)
  then obtain s' ds cur' where s': "inl_sges mem maxi gs (int (n + ?l)) s1 = Inr (Some (int (n + ?l + length (gathered mem gs))), s')"
    "inl_step s1 (A @ inl_segs ds1) cur1 (gathered mem gs) s' ds cur'"
    using Cons.IH [OF _ s1(3), of "A @ inl_segs ds1" cur1 "n + ?l"] Cons.prems(3) by auto
  have "sint (sg_length g) = int ?l" by (rule sint_nonneg_small [OF l(1)])
  moreover have "signed_take_bit 31 (int n + int ?l) = int (n + ?l)"
    using signed_small [OF l(2)] by simp
  moreover have "int (n + ?l) \<le> int maxi" using l(3) by (simp only: of_nat_le_iff)
  ultimately have "inl_sges mem maxi (g # gs) (int n) s = Inr (Some (int (n + length (gathered mem (g # gs)))), s')"
    using s1(1) s'(1) l(3) by (simp add: sge_bytes_def add.assoc Let_def)
  then show ?case using inl_step_trans [OF s1(2) s'(2)] by auto
qed

lemma mem_write_length: "mem_write w i xs = Inr w' \<Longrightarrow> length w' = length w"
  by (auto simp: mem_write_def split: if_splits)

lemma set_data_inl_seg_ok:
  assumes "length wqe = 64 * b" "pos \<le> 64 * b" "pos mod 64 + 4 < 64" "length (gathered mem gs) \<le> maxi" "maxi < 2 ^ 31"
    and "length (gathered mem gs) + pos mod 64 + 60 * (pos div 64) \<le> 60 * b"
  shows "\<exists>ds wqe'. set_data_inl_seg mem maxi gs wqe pos sz = Inr (0, sz + (length (inl_segs ds) + 15) div 16, wqe') \<and>
    concat ds = gathered mem gs \<and> fits_blocks pos ds \<and> length wqe' = length wqe \<and>
    take (pos + length (inl_segs ds)) wqe' = take pos wqe @ inl_segs ds"
proof -
  let ?A = "take pos wqe"
  let ?s = "\<lparr>in_wqe = wqe, in_pos = pos + 4, in_seg = pos, in_seg_len = 0, in_off = (pos + 4) mod 64, in_num = 0\<rparr>"
  have off: "(pos + 4) mod 64 = pos mod 64 + 4" using assms(3) by (metis mod_add_left_eq mod_less)
  have "\<exists>tl. wqe = ?A @ tl" by (intro exI [of _ "drop pos wqe"]) simp
  then have inv: "inl_inv ?s ?A []" using assms(1-3) off by (auto simp: inl_inv_def)
  have room: "inl_room ?s (length (gathered mem gs))"
    using assms(1,6) off by (auto simp: inl_room_def)
  obtain s' ds cur where s': "inl_sges mem maxi gs 0 ?s = Inr (Some (int (length (gathered mem gs))), s')"
    "inl_step ?s ?A [] (gathered mem gs) s' ds cur"
    using inl_sges_ok [OF inv room, of 0 maxi] assms(4,5) by auto
  obtain tl where tl: "in_wqe s' = (?A @ inl_segs ds) @ tl" "take (length cur) (drop 4 tl) = cur"
    "length (?A @ inl_segs ds) = in_seg s'" "in_seg_len s' = length cur" "in_seg s' mod 64 + 4 + length cur < 64"
    using s'(2) by (auto simp: inl_step_def inl_inv_def)
  have d: "concat ds @ cur = gathered mem gs" "fits_blocks pos ds" "length (in_wqe s') = length wqe" "in_num s' = length ds"
    using s'(2) by (simp_all add: inl_step_def)
  have pA: "length ?A = pos" using assms(1,2) by simp
  have n: "length (gathered mem gs) = length (concat ds) + length cur" using d(1) by (metis length_append)
  show ?thesis
  proof (cases "cur = []")
    case True
    then have "set_data_inl_seg mem maxi gs wqe pos sz = Inr (0, sz + (length (inl_segs ds) + 15) div 16, in_wqe s')"
      using s'(1) tl(4) d(4) n by (simp add: set_data_inl_seg_def length_inl_segs mult.commute)
    moreover have "take (pos + length (inl_segs ds)) (in_wqe s') = ?A @ inl_segs ds"
      unfolding tl(1) using pA by (metis append_eq_conv_conj length_append)
    ultimately show ?thesis using d True by (intro exI [of _ ds] exI [of _ "in_wqe s'"]) simp
  next
    case False
    let ?w = "(?A @ inl_segs ds) @ inl_seg cur @ drop (length cur) (drop 4 tl)"
    have "length (take (length cur) (drop 4 tl)) = length cur" using tl(2) by simp
    then have "length cur \<le> length tl - 4" by (metis length_drop length_take min.cobounded1)
    moreover have "0 < length cur" using False by simp
    ultimately have "4 + length cur \<le> length tl" by linarith
    then have "mem_write (P @ tl) (length P) (seg_header (length cur)) = Inr (P @ seg_header (length cur) @ drop 4 tl)" for P
      by (simp add: mem_write_def)
    then have "mem_write (in_wqe s') (in_seg s') (seg_header (length cur)) = Inr ((?A @ inl_segs ds) @ seg_header (length cur) @ drop 4 tl)"
      unfolding tl(1) tl(3) [symmetric] .
    moreover have "drop 4 tl = cur @ drop (length cur) (drop 4 tl)" using tl(2) by (metis append_take_drop_id)
    ultimately have wr: "mem_write (in_wqe s') (in_seg s') (seg_header (length cur)) = Inr ?w"
      by (simp add: inl_seg_def)
    have "set_data_inl_seg mem maxi gs wqe pos sz = Inr (0, sz + (length (inl_segs (ds @ [cur])) + 15) div 16, ?w)"
      using s'(1) tl(4) d(4) n wr False by (simp add: set_data_inl_seg_def length_inl_segs mult.commute add.assoc add.left_commute)
    moreover have "take (pos + length (inl_segs (ds @ [cur]))) ?w = ?A @ inl_segs (ds @ [cur])"
      using pA by simp
    moreover have "fits_blocks pos (ds @ [cur])"
      using d(2) tl(3,5) pA False by (simp add: fits_blocks_append)
    moreover have "length ?w = length wqe" using mem_write_length [OF wr] d(3) by simp
    ultimately show ?thesis using d(1) by (intro exI [of _ "ds @ [cur]"] exI [of _ ?w]) simp
  qed
qed

section \<open>Slots are large enough\<close>

lemma shift_for_ge: "sz \<le> 2 ^ shift_for sz sh \<and> sh \<le> shift_for sz sh"
proof (induction sz sh rule: shift_for.induct)
  case (1 sz sh)
  show ?case
  proof (cases "2 ^ sh < sz")
    case True
    then show ?thesis using "1.IH" by (subst (1 2) shift_for.simps) simp
  next
    case False
    then show ?thesis by (simp add: shift_for.simps [of sz sh])
  qed
qed

lemma calc_shift: "6 \<le> mlx4_calc_sq_wqe_size cap kind masked"
  unfolding mlx4_calc_sq_wqe_size_def Let_def using shift_for_ge by blast

lemma align_ge: "0 < a \<Longrightarrow> v \<le> align v a"
  using div_mult_mod_eq [of "v + a - 1" a] mod_less_divisor [of a "v + a - 1"] unfolding align_def by linarith

lemma calc_slot:
  assumes "kind \<in> {QPT_RC, QPT_UC, QPT_UD}"
  shows "cap_max_inline_data cap + num_inline_segs (cap_max_inline_data cap) kind * 4 + (if kind = QPT_UD then 64 else 32)
      \<le> 2 ^ mlx4_calc_sq_wqe_size cap kind masked"
    "16 * cap_max_send_sge cap + (if kind = QPT_UD then 64 else 32) \<le> 2 ^ mlx4_calc_sq_wqe_size cap kind masked"
proof -
  let ?d = "cap_max_inline_data cap + num_inline_segs (cap_max_inline_data cap) kind * 4"
  let ?m = "max (align ?d 16 div 16) (cap_max_send_sge cap)"
  have "16 * ?m + (if kind = QPT_UD then 64 else 32) \<le> 2 ^ mlx4_calc_sq_wqe_size cap kind masked"
    using assms by (auto simp: mlx4_calc_sq_wqe_size_def Let_def intro!: order_trans [OF _ conjunct1 [OF shift_for_ge]])
  moreover have "?d \<le> 16 * (align ?d 16 div 16)"
    using align_ge [of 16 ?d] by (simp add: align_def mult.commute)
  ultimately show
    "?d + (if kind = QPT_UD then 64 else 32) \<le> 2 ^ mlx4_calc_sq_wqe_size cap kind masked"
    "16 * cap_max_send_sge cap + (if kind = QPT_UD then 64 else 32) \<le> 2 ^ mlx4_calc_sq_wqe_size cap kind masked"
    by (auto simp: max_def split: if_splits)
qed

definition data_start :: "qp_kind \<Rightarrow> nat" where
  "data_start kind = (if kind = QPT_UD then 64 else 32)"

definition granted_inline :: "nat \<Rightarrow> qp_kind \<Rightarrow> nat" where
  "granted_inline sh kind =
     (let wqe_size = min (2 ^ sh) MLX4_MAX_WQE_SIZE - data_start kind
      in wqe_size - 4 * (align wqe_size MLX4_INLINE_ALIGN div MLX4_INLINE_ALIGN))"

lemma set_sq_sizes_inline:
  assumes "mlx4_set_sq_sizes max_qp_wr max_sge sh cnt spare kind cap = (max_gs, max_post, cap')"
    and "kind \<in> {QPT_RC, QPT_UC, QPT_UD}"
  shows "cap_max_inline_data cap' = granted_inline sh kind" "max_gs = (min (2 ^ sh) MLX4_MAX_WQE_SIZE - data_start kind) div 16"
    "max_post = min max_qp_wr (cnt - spare)"
proof -
  have r: "mlx4_set_sq_sizes max_qp_wr max_sge sh cnt spare kind cap =
    ((min (2 ^ sh) MLX4_MAX_WQE_SIZE - data_start kind) div 16, min max_qp_wr (cnt - spare),
     cap\<lparr>cap_max_send_sge := min max_sge ((min (2 ^ sh) MLX4_MAX_WQE_SIZE - data_start kind) div 16),
       cap_max_send_wr := min max_qp_wr (cnt - spare), cap_max_inline_data := granted_inline sh kind\<rparr>)"
    using assms(2) unfolding mlx4_set_sq_sizes_def granted_inline_def data_start_def Let_def
    by (cases kind) simp_all
  show "cap_max_inline_data cap' = granted_inline sh kind" "max_gs = (min (2 ^ sh) MLX4_MAX_WQE_SIZE - data_start kind) div 16"
    "max_post = min max_qp_wr (cnt - spare)"
    using assms(1) unfolding r by auto
qed

lemma granted_inline_cases:
  assumes "kind \<in> {QPT_RC, QPT_UC, QPT_UD}" "6 \<le> sh"
  obtains b :: nat where "2 ^ sh = 64 * b" "0 < b" "b \<le> 15" "granted_inline sh kind = (if kind = QPT_UD then 60 * (b - 1) else 60 * b - 32)"
  | b :: nat where "2 ^ sh = 64 * b" "16 \<le> b" "granted_inline sh kind = (if kind = QPT_UD then 884 else 912)"
proof -
  have sh: "2 ^ sh = 64 * (2 ^ (sh - 6) :: nat)"
    using power_add [of "2 :: nat" 6 "sh - 6"] assms(2) by simp
  let ?b = "2 ^ (sh - 6) :: nat"
  have al: "align (64 * b - 32) 64 div 64 = b" "align (64 * b - 64) 64 div 64 = b - 1" if "0 < b" for b :: nat
  proof -
    have "64 * b - 32 + 64 - 1 = 31 + b * 64" "64 * b - 64 + 64 - 1 = 63 + (b - 1) * 64" using that by (cases b; simp)+
    then show "align (64 * b - 32) 64 div 64 = b" "align (64 * b - 64) 64 div 64 = b - 1"
      by (simp_all add: align_def div_mult_self3)
  qed
  have ud: "64 * b - (64 + 4 * (b - Suc 0)) = 60 * (b - Suc 0)" for b :: nat by (cases b) simp_all
  have b: "0 < ?b" by simp
  show ?thesis
  proof (cases "?b \<le> 15")
    case True
    then have "min (2 ^ sh) MLX4_MAX_WQE_SIZE = 64 * ?b" by (simp add: sh MLX4_MAX_WQE_SIZE_def)
    then have "granted_inline sh kind = (if kind = QPT_UD then 60 * (?b - 1) else 60 * ?b - 32)"
      using al [OF b] unfolding granted_inline_def data_start_def MLX4_INLINE_ALIGN_def Let_def by (auto simp: ud)
    then show ?thesis using that(1) [OF sh b True] by simp
  next
    case False
    then have "min (2 ^ sh) MLX4_MAX_WQE_SIZE = 1008" unfolding sh MLX4_MAX_WQE_SIZE_def by linarith
    then have "granted_inline sh kind = (if kind = QPT_UD then 884 else 912)"
      by (simp add: granted_inline_def data_start_def align_def MLX4_INLINE_ALIGN_def)
    then show ?thesis using that(2) [OF sh] False by simp
  qed
qed

lemma num_inline_segs_bound:
  "d + (if kind = QPT_UD then 0 else 32) \<le> 60 * num_inline_segs d kind"
  using div_mult_mod_eq [of "d + (if kind = QPT_UD then 0 else 32) + 59" 60] mod_less_divisor [of 60 "d + (if kind = QPT_UD then 0 else 32) + 59"]
  unfolding num_inline_segs_def MLX4_INLINE_ALIGN_def Let_def by (auto split: if_splits)

lemma num_inline_segs_upper:
  "60 * num_inline_segs d kind \<le> d + (if kind = QPT_UD then 0 else 32) + 59"
  unfolding num_inline_segs_def MLX4_INLINE_ALIGN_def Let_def by (auto simp: times_div_less_eq_dividend)

lemma granted_capacity:
  assumes "kind \<in> {QPT_RC, QPT_UC, QPT_UD}" "6 \<le> sh"
  shows "\<exists>b :: nat. 2 ^ sh = 64 * b \<and> 0 < b \<and> granted_inline sh kind + data_start kind mod 64 + 60 * (data_start kind div 64) \<le> 60 * b \<and>
    data_start kind + 16 * ((min (2 ^ sh) MLX4_MAX_WQE_SIZE - data_start kind) div 16) \<le> 2 ^ sh"
proof -
  have "16 * ((min (2 ^ sh) MLX4_MAX_WQE_SIZE - data_start kind) div 16) \<le> min (2 ^ sh) MLX4_MAX_WQE_SIZE - data_start kind"
    by (rule times_div_less_eq_dividend)
  moreover have "(64 :: nat) \<le> 2 ^ sh" using power_increasing [OF assms(2), of "2 :: nat"] by simp
  then have "data_start kind \<le> min (2 ^ sh) MLX4_MAX_WQE_SIZE"
    by (simp add: data_start_def MLX4_MAX_WQE_SIZE_def)
  ultimately have g: "data_start kind + 16 * ((min (2 ^ sh) MLX4_MAX_WQE_SIZE - data_start kind) div 16) \<le> 2 ^ sh"
    by linarith
  show ?thesis
    by (rule granted_inline_cases [OF assms]) (use g in \<open>auto simp: data_start_def\<close>)
qed

section \<open>Whole requests\<close>

lemma set_ctrl_seg_ok:
  assumes "length srcrb = 4" "length imm = 4" "16 \<le> length wqe"
  shows "\<exists>ctrl. set_ctrl_seg w imm srcrb owner sz wqe = Inr (ctrl @ drop 16 wqe) \<and> length ctrl = 16 \<and>
    take 4 ctrl = be32 (mlx4_ib_opcode (sw_op w) OR owner) \<and>
    ctrl ! 7 = ((if sw_flags w AND IBV_SEND_FENCE \<noteq> 0 then 0x40 else 0) OR of_nat sz) \<and>
    drop 8 ctrl = srcrb @ imm"
proof -
  let ?f = "(if sw_flags w AND IBV_SEND_FENCE \<noteq> 0 then 0x40 else 0) OR of_nat sz :: u8"
  let ?o = "be32 (mlx4_ib_opcode (sw_op w) OR owner)"
  let ?ctrl = "?o @ take 3 (drop 4 wqe) @ [?f] @ srcrb @ imm"
  have "mem_write wqe 8 (srcrb @ imm) = Inr (take 8 wqe @ (srcrb @ imm) @ drop 16 wqe)"
    using assms by (simp add: mem_write_def)
  moreover have "mem_write (take 8 wqe @ (srcrb @ imm) @ drop 16 wqe) 7 [?f] = Inr (take 7 wqe @ [?f] @ (srcrb @ imm) @ drop 16 wqe)"
    using assms by (simp add: mem_write_def)
  moreover have "mem_write (take 7 wqe @ [?f] @ (srcrb @ imm) @ drop 16 wqe) 0 ?o = Inr (?ctrl @ drop 16 wqe)"
    using assms by (simp add: mem_write_def drop_take)
  ultimately have "set_ctrl_seg w imm srcrb owner sz wqe = Inr (?ctrl @ drop 16 wqe)"
    unfolding set_ctrl_seg_def by (simp only: res_bind_simps)
  moreover have "length (take 3 (drop 4 wqe)) = 3" using assms by simp
  ultimately show ?thesis using assms
    by (intro exI [of _ ?ctrl]) (simp add: nth_append)
qed

definition ptr_seg :: "sge \<Rightarrow> u8 list" where
  "ptr_seg g = be32 (if sg_length g \<noteq> 0 then sg_length g else 0x80000000) @ be32 (sg_lkey g) @ be64 (sg_addr g)"

lemma length_ptr_seg [simp]: "length (ptr_seg g) = 16"
  by (simp add: ptr_seg_def)

lemma set_ptr_data_ok:
  assumes "pos + 16 \<le> length wqe"
  shows "set_ptr_data wqe pos g = Inr (take pos wqe @ ptr_seg g @ drop (pos + 16) wqe)"
proof -
  let ?n = "be32 (if sg_length g \<noteq> 0 then sg_length g else 0x80000000)"
  let ?w = "take (pos + 4) wqe @ be32 (sg_lkey g) @ drop (pos + 8) wqe"
  let ?w2 = "take (pos + 4) wqe @ be32 (sg_lkey g) @ be64 (sg_addr g) @ drop (pos + 16) wqe"
  have "mem_write wqe (pos + 4) (be32 (sg_lkey g)) = Inr ?w"
    using assms by (simp add: mem_write_def add.commute)
  moreover have "mem_write ?w (pos + 8) (be64 (sg_addr g)) = Inr ?w2"
    using assms by (simp add: mem_write_def add.commute [of 16])
  moreover have "take pos ?w2 = take pos wqe" "drop (pos + 4) ?w2 = be32 (sg_lkey g) @ be64 (sg_addr g) @ drop (pos + 16) wqe"
    "length ?w2 = length wqe"
    using assms by simp_all
  then have "mem_write ?w2 pos ?n = Inr (take pos wqe @ ptr_seg g @ drop (pos + 16) wqe)"
    using assms by (simp add: mem_write_def ptr_seg_def del: take_append drop_append length_append)
  ultimately show ?thesis unfolding set_ptr_data_def by (simp only: res_bind_simps)
qed

lemma set_ptrs_ok:
  assumes "pos + 16 * n \<le> length wqe" "n \<le> length gs"
  shows "set_ptrs wqe pos gs n = Inr (take pos wqe @ concat (map ptr_seg (take n gs)) @ drop (pos + 16 * n) wqe)"
  using assms
proof (induction n arbitrary: wqe)
  case (Suc n)
  let ?w = "take (pos + 16 * n) wqe @ ptr_seg (gs ! n) @ drop (pos + 16 * n + 16) wqe"
  have "set_ptr_data wqe (pos + 16 * n) (gs ! n) = Inr ?w"
    using Suc.prems(1) by (intro set_ptr_data_ok) simp
  moreover have "take pos ?w = take pos wqe" "drop (pos + 16 * n) ?w = ptr_seg (gs ! n) @ drop (pos + 16 * n + 16) wqe"
    "length ?w = length wqe"
    using Suc.prems(1) by simp_all
  then have "set_ptrs ?w pos gs n = Inr (take pos wqe @ concat (map ptr_seg (take n gs)) @ ptr_seg (gs ! n) @ drop (pos + 16 * n + 16) wqe)"
    using Suc.IH [of ?w] Suc.prems by simp
  moreover have "take (Suc n) gs = take n gs @ [gs ! n]" using Suc.prems(2) by (intro take_Suc_conv_app_nth) simp
  moreover have "pos + 16 * n + 16 = pos + 16 * Suc n" by simp
  ultimately show ?case by (simp del: take_append drop_append)
qed simp

lemma set_ptrs_out:
  assumes "length wqe < pos + 16 * n" "0 < n" "n \<le> length gs"
  shows "set_ptrs wqe pos gs n = Inl Out_of_bounds"
proof (cases n)
  case (Suc m)
  have "set_ptr_data wqe (pos + 16 * m) (gs ! m) = Inl Out_of_bounds"
    using assms(1) Suc by (auto simp: set_ptr_data_def mem_write_def)
  then show ?thesis using Suc by simp
qed (use assms in simp)

lemma srcrb_of_ok: "4 \<le> length (sc_srcrb_flags qc) \<Longrightarrow> \<exists>f. srcrb_of qc flags = Inr f"
  by (auto simp: srcrb_of_def arr_get_def)

lemma length_connected_segs:
  "sw_op w \<in> {WR_SEND, WR_SEND_WITH_IMM, WR_SEND_WITH_INV} \<Longrightarrow> connected_segs w wqe = []"
  "sw_op w \<in> {WR_RDMA_WRITE, WR_RDMA_WRITE_WITH_IMM, WR_RDMA_READ} \<Longrightarrow> length (connected_segs w wqe) = 16"
  by (auto simp: connected_segs_def raddr_seg_def)

text \<open>What the control segment of a request says.\<close>

definition ctrl_says :: "ibv_wr \<Rightarrow> sq_conf \<Rightarrow> nat \<Rightarrow> nat \<Rightarrow> u8 list \<Rightarrow> bool" where
  "ctrl_says w qc ind sz ctrl \<longleftrightarrow> length ctrl = 16 \<and>
     take 4 ctrl = be32 (mlx4_ib_opcode (sw_op w) OR (if ind AND sc_wqe_cnt qc \<noteq> 0 then WQE_CTRL_OWN else 0)) \<and>
     ctrl ! 7 = ((if sw_flags w AND IBV_SEND_FENCE \<noteq> 0 then 0x40 else 0) OR of_nat sz) \<and>
     drop 12 ctrl = connected_imm w \<and> (\<exists>f. srcrb_of qc (sw_flags w) = Inr f \<and> take 4 (drop 8 ctrl) = be32 f)"

lemma length_connected_imm [simp]: "length (connected_imm w) = 4"
  by (simp add: connected_imm_def split: ibv_op.split)

text \<open>The common part: the data segments may be written in either way.\<close>

lemma set_common_ok:
  assumes "16 \<le> length wqe" "length srcrb = 4" "length imm = 4"
    and "(if sw_flags w AND IBV_SEND_INLINE \<noteq> 0 then set_data_inl_seg mem (sc_max_inline_data qc) (sw_sges w) wqe pos sz
          else res_bind (set_data_non_inl_seg (sw_sges w) wqe pos sz) (\<lambda>(sz, wqe). Inr (0, sz, wqe))) = Inr (0, n, wqe1)"
    and "length wqe1 = length wqe"
  shows "\<exists>ctrl. set_common_segments mem qc w srcrb imm pos sz inl ind wqe =
      Inr (0, n, (if sw_flags w AND IBV_SEND_INLINE \<noteq> 0 then sw_sges w \<noteq> [] else inl), ctrl @ drop 16 wqe1) \<and>
    length ctrl = 16 \<and> take 4 ctrl = be32 (mlx4_ib_opcode (sw_op w) OR (if ind AND sc_wqe_cnt qc \<noteq> 0 then WQE_CTRL_OWN else 0)) \<and>
    ctrl ! 7 = ((if sw_flags w AND IBV_SEND_FENCE \<noteq> 0 then 0x40 else 0) OR of_nat n) \<and> drop 8 ctrl = srcrb @ imm"
proof -
  obtain ctrl where c: "set_ctrl_seg w imm srcrb (if ind AND sc_wqe_cnt qc \<noteq> 0 then WQE_CTRL_OWN else 0) n wqe1 = Inr (ctrl @ drop 16 wqe1)"
    "length ctrl = 16" "take 4 ctrl = be32 (mlx4_ib_opcode (sw_op w) OR (if ind AND sc_wqe_cnt qc \<noteq> 0 then WQE_CTRL_OWN else 0))"
    "ctrl ! 7 = ((if sw_flags w AND IBV_SEND_FENCE \<noteq> 0 then 0x40 else 0) OR of_nat n)" "drop 8 ctrl = srcrb @ imm"
    using set_ctrl_seg_ok [OF assms(2,3), of wqe1] assms(1,5) by metis
  have "set_common_segments mem qc w srcrb imm pos sz inl ind wqe =
      Inr (0, n, (if sw_flags w AND IBV_SEND_INLINE \<noteq> 0 then sw_sges w \<noteq> [] else inl), ctrl @ drop 16 wqe1)"
    unfolding set_common_segments_def Let_def assms(4) using c(1) by simp
  then show ?thesis using c(2-5) by blast
qed

lemma post_send_connected_ok:
  assumes "sc_kind qc = QPT_RC \<or> sc_kind qc = QPT_UC" "sw_op w \<notin> {WR_LOCAL_INV, WR_BIND_MW}" "4 \<le> length (sc_srcrb_flags qc)"
    and "16 + length (connected_segs w wqe) \<le> length wqe" "pos = 16 + length (connected_segs w wqe)"
    and "wqe1 = take 16 wqe @ connected_segs w wqe @ drop pos wqe"
    and "(if sw_flags w AND IBV_SEND_INLINE \<noteq> 0
          then set_data_inl_seg mem (sc_max_inline_data qc) (sw_sges w) wqe1 pos (1 + length (connected_segs w wqe) div 16)
          else res_bind (set_data_non_inl_seg (sw_sges w) wqe1 pos (1 + length (connected_segs w wqe) div 16)) (\<lambda>(sz, wqe). Inr (0, sz, wqe))) = Inr (0, n, wqe2)"
    and "length wqe2 = length wqe" "take pos wqe2 = take pos wqe1"
  shows "\<exists>ctrl inl'. post_send_one mem qc w ind inl wqe = Inr (0, n, inl', ctrl @ connected_segs w wqe @ drop pos wqe2) \<and>
    ctrl_says w qc ind n ctrl"
proof -
  obtain f where f: "srcrb_of qc (sw_flags w) = Inr f" using srcrb_of_ok [OF assms(3)] by blast
  define inl1 where "inl1 = (if sw_op w = WR_RDMA_READ then True
             else if sw_op w = WR_RDMA_WRITE_WITH_IMM \<and> sw_sges w = [] then True else inl)"
  have put: "mem_put wqe 16 (connected_segs w wqe) = Inr wqe1"
    using assms(4-6) by (cases "connected_segs w wqe = []") (simp_all add: mem_put_def mem_write_def)
  have len1: "length wqe1 = length wqe" using assms(4-6) by simp
  obtain ctrl where c: "set_common_segments mem qc w (be32 f) (connected_imm w) pos (1 + length (connected_segs w wqe) div 16) inl1 ind wqe1 =
      Inr (0, n, (if sw_flags w AND IBV_SEND_INLINE \<noteq> 0 then sw_sges w \<noteq> [] else inl1), ctrl @ drop 16 wqe2)"
    "length ctrl = 16" "take 4 ctrl = be32 (mlx4_ib_opcode (sw_op w) OR (if ind AND sc_wqe_cnt qc \<noteq> 0 then WQE_CTRL_OWN else 0))"
    "ctrl ! 7 = ((if sw_flags w AND IBV_SEND_FENCE \<noteq> 0 then 0x40 else 0) OR of_nat n)" "drop 8 ctrl = be32 f @ connected_imm w"
    using set_common_ok [of wqe1 "be32 f" "connected_imm w" w mem qc pos "1 + length (connected_segs w wqe) div 16" n wqe2 inl1 ind]
      assms(4,7,8) len1 by auto
  have "drop 16 wqe2 = drop 16 (take pos wqe2) @ drop pos wqe2"
    using assms(5) by (metis append_take_drop_id drop_append drop_take length_take assms(4,8) min.absorb2 diff_is_0_eq le_add1 drop_0)
  also have "drop 16 (take pos wqe2) = connected_segs w wqe"
    unfolding assms(9) using assms(4-6) by simp
  finally have d: "drop 16 wqe2 = connected_segs w wqe @ drop pos wqe2" .
  have "post_send_one mem qc w ind inl wqe = post_send_connected mem qc False w ind inl wqe"
    using assms(1) by (auto simp: post_send_one_def)
  also have "\<dots> = Inr (0, n, (if sw_flags w AND IBV_SEND_INLINE \<noteq> 0 then sw_sges w \<noteq> [] else inl1), ctrl @ connected_segs w wqe @ drop pos wqe2)"
    using assms(2,5) f put c(1) d by (simp add: post_send_connected_def inl1_def Let_def)
  finally have p: "post_send_one mem qc w ind inl wqe =
    Inr (0, n, (if sw_flags w AND IBV_SEND_INLINE \<noteq> 0 then sw_sges w \<noteq> [] else inl1), ctrl @ connected_segs w wqe @ drop pos wqe2)" .
  have "drop 12 ctrl = drop 4 (drop 8 ctrl)" by simp
  also have "\<dots> = connected_imm w" unfolding c(5) by simp
  finally have "ctrl_says w qc ind n ctrl" using c f by (simp add: ctrl_says_def)
  then show ?thesis using p by blast
qed


section \<open>Properties\<close>

definition ordinary_ops :: "ibv_op set" where
  "ordinary_ops = {WR_RDMA_WRITE, WR_RDMA_WRITE_WITH_IMM, WR_RDMA_READ, WR_SEND, WR_SEND_WITH_IMM, WR_SEND_WITH_INV}"

lemma ordinary_segs:
  assumes "sw_op w \<in> ordinary_ops"
  shows "length (connected_segs w wqe) \<in> {0, 16}" "sw_op w \<notin> {WR_LOCAL_INV, WR_BIND_MW}"
  using assms by (auto simp: ordinary_ops_def connected_segs_def raddr_seg_def)

lemma round16: "a mod 16 = 0 \<Longrightarrow> a + b \<le> 64 * c \<Longrightarrow> a + 16 * ((b + 15) div 16) \<le> 64 * (c :: nat)"
proof -
  assume a: "a mod 16 = 0" "a + b \<le> 64 * c"
  obtain q where q: "a = 16 * q" using a(1) by auto
  have "(b + 15) div 16 \<le> (64 * c - 16 * q + 15) div 16" using a(2) q by (intro div_le_mono) simp
  also have "64 * c - 16 * q + 15 = 15 + 16 * (4 * c - q)" by (simp add: diff_mult_distrib2)
  also have "(15 + 16 * (4 * c - q)) div 16 = 4 * c - q" by simp
  finally have "(b + 15) div 16 \<le> 4 * c - q" .
  moreover have "q \<le> 4 * c" using a(2) q by simp
  ultimately show ?thesis using q by simp
qed

lemma inline_wqe:
  assumes "sc_kind qc = QPT_RC \<or> sc_kind qc = QPT_UC" "sw_op w \<in> ordinary_ops" "sw_flags w AND IBV_SEND_INLINE \<noteq> 0"
    and "4 \<le> length (sc_srcrb_flags qc)" "6 \<le> sh" "length wqe = 2 ^ sh"
    and mi: "sc_max_inline_data qc = granted_inline sh (sc_kind qc)"
    and len_data: "length (gathered mem (sw_sges w)) \<le> sc_max_inline_data qc"
  shows "\<exists>n inl' ctrl ds rest. post_send_one mem qc w ind inl wqe = Inr (0, n, inl', ctrl @ connected_segs w wqe @ inl_segs ds @ rest) \<and>
    ctrl_says w qc ind n ctrl \<and> concat ds = gathered mem (sw_sges w) \<and> fits_blocks (16 + length (connected_segs w wqe)) ds \<and>
    16 * n \<le> 2 ^ sh \<and> 16 + length (connected_segs w wqe @ inl_segs ds) \<le> 16 * n \<and>
    length (ctrl @ connected_segs w wqe @ inl_segs ds @ rest) = length wqe"
proof -
  let ?segs = "connected_segs w wqe"
  define pos where "pos = 16 + length ?segs"
  define wqe1 where "wqe1 = take 16 wqe @ ?segs @ drop pos wqe"
  have kind: "sc_kind qc \<in> {QPT_RC, QPT_UC, QPT_UD}" using assms(1) by auto
  have ds: "data_start (sc_kind qc) = 32" using assms(1) by (auto simp: data_start_def)
  obtain b where b: "(2 :: nat) ^ sh = 64 * b" "0 < b" "granted_inline sh (sc_kind qc) + 32 \<le> 60 * b"
    using granted_capacity [OF kind assms(5)] ds by auto
  have small: "sc_max_inline_data qc < 2 ^ 31"
    unfolding mi by (rule granted_inline_cases [OF kind assms(5)]) (auto split: if_splits)
  have seg: "length ?segs \<in> {0, 16}" by (rule ordinary_segs(1) [OF assms(2)])
  then have pos: "pos \<in> {16, 32}" by (auto simp: pos_def)
  have len: "length wqe = 64 * b" using assms(6) b(1) by simp
  have len1: "length wqe1 = 64 * b" using len pos b(2) by (auto simp: wqe1_def pos_def)
  have pb: "pos \<le> 64 * b" "pos mod 64 + 4 < 64" "pos mod 64 + 60 * (pos div 64) \<le> 32" "pos mod 16 = 0" using pos b(2) by auto
  obtain ds wqe2 where d: "set_data_inl_seg mem (sc_max_inline_data qc) (sw_sges w) wqe1 pos (1 + length ?segs div 16) =
      Inr (0, 1 + length ?segs div 16 + (length (inl_segs ds) + 15) div 16, wqe2)"
    "concat ds = gathered mem (sw_sges w)" "fits_blocks pos ds" "length wqe2 = length wqe1"
    "take (pos + length (inl_segs ds)) wqe2 = take pos wqe1 @ inl_segs ds"
    using set_data_inl_seg_ok [OF len1 pb(1,2) len_data small, of "1 + length ?segs div 16"] pb(3) b(3) len_data mi by auto
  have tk: "take pos wqe2 = take pos wqe1"
    using arg_cong [OF d(5), of "take pos"] pb(1) len1 by simp
  define n where "n = 1 + length ?segs div 16 + (length (inl_segs ds) + 15) div 16"
  obtain ctrl inl' where r: "post_send_one mem qc w ind inl wqe = Inr (0, n, inl', ctrl @ ?segs @ drop pos wqe2)" "ctrl_says w qc ind n ctrl"
    using post_send_connected_ok [OF assms(1) ordinary_segs(2) [OF assms(2)] assms(4) _ pos_def wqe1_def, of mem n wqe2 ind inl]
      d(1,4) len len1 tk assms(3) pb(1) by (auto simp: n_def pos_def)
  have "length (take pos wqe1 @ inl_segs ds) \<le> length wqe2" unfolding d(5) [symmetric] by simp
  then have fit: "pos + length (inl_segs ds) \<le> 64 * b" using d(4) len1 pb(1) by simp
  have "drop pos wqe2 = drop pos (take (pos + length (inl_segs ds)) wqe2) @ drop (pos + length (inl_segs ds)) wqe2"
    using fit d(4) len1 by (metis append_take_drop_id drop_append length_take min.absorb2 diff_is_0_eq le_add1 drop_0)
  also have "drop pos (take (pos + length (inl_segs ds)) wqe2) = inl_segs ds"
    unfolding d(5) using pb(1) len1 by simp
  finally have rest: "drop pos wqe2 = inl_segs ds @ drop (pos + length (inl_segs ds)) wqe2" .
  have "16 * n = pos + 16 * ((length (inl_segs ds) + 15) div 16)" using seg by (auto simp: n_def pos_def)
  moreover have "pos + 16 * ((length (inl_segs ds) + 15) div 16) \<le> 64 * b" by (rule round16 [OF pb(4) fit])
  moreover have "length (inl_segs ds) \<le> 16 * ((length (inl_segs ds) + 15) div 16)" by simp
  ultimately have "16 * n \<le> 2 ^ sh" "16 + length (?segs @ inl_segs ds) \<le> 16 * n" using b(1) by (simp_all add: pos_def)
  moreover have "length (ctrl @ ?segs @ inl_segs ds @ drop (pos + length (inl_segs ds)) wqe2) = length wqe"
    using r(2) fit d(4) len len1 by (simp add: ctrl_says_def pos_def)
  ultimately show ?thesis using r d(2,3) rest unfolding pos_def by metis
qed

lemma gather_wqe:
  assumes "sc_kind qc = QPT_RC \<or> sc_kind qc = QPT_UC" "sw_op w \<in> ordinary_ops" "sw_flags w AND IBV_SEND_INLINE = 0"
    and "4 \<le> length (sc_srcrb_flags qc)" "6 \<le> sh" "length wqe = 2 ^ sh"
    and mg: "max_gs = (min (2 ^ sh) MLX4_MAX_WQE_SIZE - data_start (sc_kind qc)) div 16" and len_sges: "length (sw_sges w) \<le> max_gs"
  shows "\<exists>inl' ctrl. let segs = connected_segs w wqe; n = 1 + length segs div 16 + length (sw_sges w) in
    post_send_one mem qc w ind inl wqe = Inr (0, n, inl', ctrl @ segs @ concat (map ptr_seg (sw_sges w)) @ drop (16 * n) wqe) \<and>
    ctrl_says w qc ind n ctrl \<and> 16 * n \<le> 2 ^ sh"
proof -
  let ?segs = "connected_segs w wqe" and ?gs = "sw_sges w"
  define pos where "pos = 16 + length ?segs"
  define wqe1 where "wqe1 = take 16 wqe @ ?segs @ drop pos wqe"
  define n where "n = 1 + length ?segs div 16 + length ?gs"
  have kind: "sc_kind qc \<in> {QPT_RC, QPT_UC, QPT_UD}" using assms(1) by auto
  have ds: "data_start (sc_kind qc) = 32" using assms(1) by (auto simp: data_start_def)
  have b: "32 + 16 * max_gs \<le> 2 ^ sh"
    using granted_capacity [OF kind assms(5)] ds mg by auto
  have seg: "length ?segs \<in> {0, 16}" by (rule ordinary_segs(1) [OF assms(2)])
  have fit: "pos + 16 * length ?gs \<le> length wqe" "16 + length ?segs \<le> length wqe" using seg b assms(6) len_sges by (auto simp: pos_def)
  have n: "16 * n = pos + 16 * length ?gs" using seg by (auto simp: n_def pos_def)
  have len1: "length wqe1 = length wqe" using fit(2) by (simp add: wqe1_def pos_def)
  define wqe2 where "wqe2 = take pos wqe1 @ concat (map ptr_seg ?gs) @ drop (16 * n) wqe1"
  have "set_ptrs wqe1 pos ?gs (length ?gs) = Inr wqe2"
    using set_ptrs_ok [of pos "length ?gs" wqe1 ?gs] fit(1) len1 n by (simp add: wqe2_def)
  then have d: "set_data_non_inl_seg ?gs wqe1 pos (1 + length ?segs div 16) = Inr (n, wqe2)"
    by (simp add: set_data_non_inl_seg_def n_def)
  have lc: "length (concat (map ptr_seg ?gs)) = 16 * length ?gs" by (induction ?gs) (auto simp: length_concat comp_def sum_list_triv)
  have "length wqe2 = length wqe" "take pos wqe2 = take pos wqe1" and dr: "drop pos wqe2 = concat (map ptr_seg ?gs) @ drop (16 * n) wqe1"
    using fit len1 n lc by (simp_all add: wqe2_def)
  then obtain ctrl inl' where "post_send_one mem qc w ind inl wqe = Inr (0, n, inl', ctrl @ ?segs @ drop pos wqe2)" "ctrl_says w qc ind n ctrl"
    using post_send_connected_ok [OF assms(1) ordinary_segs(2) [OF assms(2)] assms(4) fit(2) pos_def wqe1_def, of mem n wqe2 ind inl]
      d len1 assms(3) by auto
  moreover have "drop (16 * n) wqe1 = drop (16 * n) wqe"
    using n fit(2) by (simp add: wqe1_def pos_def add.commute)
  moreover have "16 * n \<le> 2 ^ sh" using n fit(1) assms(6) by simp
  ultimately show ?thesis using dr unfolding Let_def n_def [symmetric] by metis
qed


text \<open>
  What a slot holds after a request has been written to it: the control segment, the segments of the opcode, and the
  data, inline or as pointers.
\<close>

definition encodes :: "(u64 \<Rightarrow> u8) \<Rightarrow> sq_conf \<Rightarrow> ibv_wr \<Rightarrow> nat \<Rightarrow> nat \<Rightarrow> u8 list \<Rightarrow> bool" where
  "encodes mem qc w ind n wqe \<longleftrightarrow> (\<exists>ctrl data rest.
     wqe = ctrl @ connected_segs w [] @ data @ rest \<and> ctrl_says w qc ind n ctrl \<and>
     16 + length (connected_segs w [] @ data) \<le> 16 * n \<and> 16 * n \<le> length wqe \<and>
     (if sw_flags w AND IBV_SEND_INLINE \<noteq> 0
      then \<exists>ds. data = inl_segs ds \<and> concat ds = gathered mem (sw_sges w) \<and> fits_blocks (16 + length (connected_segs w [])) ds
      else data = concat (map ptr_seg (sw_sges w))))"

definition conforming :: "(u64 \<Rightarrow> u8) \<Rightarrow> sq_conf \<Rightarrow> nat \<Rightarrow> ibv_wr \<Rightarrow> bool" where
  "conforming mem qc max_gs w \<longleftrightarrow> sw_op w \<in> ordinary_ops \<and> length (sw_sges w) \<le> max_gs \<and>
     (sw_flags w AND IBV_SEND_INLINE \<noteq> 0 \<longrightarrow> length (gathered mem (sw_sges w)) \<le> sc_max_inline_data qc)"

definition limits_ok :: "sq_conf \<Rightarrow> nat \<Rightarrow> nat \<Rightarrow> bool" where
  "limits_ok qc sh max_gs \<longleftrightarrow> (sc_kind qc = QPT_RC \<or> sc_kind qc = QPT_UC) \<and> 4 \<le> length (sc_srcrb_flags qc) \<and> 6 \<le> sh \<and>
     sc_max_inline_data qc = granted_inline sh (sc_kind qc) \<and>
     max_gs = (min (2 ^ sh) MLX4_MAX_WQE_SIZE - data_start (sc_kind qc)) div 16"

lemma ordinary_segs_any: "sw_op w \<in> ordinary_ops \<Longrightarrow> connected_segs w wqe = connected_segs w []"
  by (auto simp: ordinary_ops_def connected_segs_def)

lemma conforming_wqe:
  assumes "limits_ok qc sh max_gs" "conforming mem qc max_gs w" "length wqe = 2 ^ sh"
  shows "\<exists>n inl' wqe'. post_send_one mem qc w ind inl wqe = Inr (0, n, inl', wqe') \<and> length wqe' = 2 ^ sh \<and>
    encodes mem qc w ind n wqe'"
proof (cases "sw_flags w AND IBV_SEND_INLINE = 0")
  case True
  then show ?thesis
    using gather_wqe [of qc w sh wqe max_gs mem ind inl] assms ordinary_segs_any [of w wqe] ordinary_segs(1) [of w wqe]
    by (fastforce simp: limits_ok_def conforming_def encodes_def Let_def ctrl_says_def length_concat comp_def sum_list_triv)
next
  case False
  then obtain n inl' ctrl ds rest where r: "post_send_one mem qc w ind inl wqe = Inr (0, n, inl', ctrl @ connected_segs w wqe @ inl_segs ds @ rest)"
    "ctrl_says w qc ind n ctrl" "concat ds = gathered mem (sw_sges w)" "fits_blocks (16 + length (connected_segs w wqe)) ds"
    "16 * n \<le> 2 ^ sh" "16 + length (connected_segs w wqe @ inl_segs ds) \<le> 16 * n"
    "length (ctrl @ connected_segs w wqe @ inl_segs ds @ rest) = length wqe"
    using inline_wqe [of qc w sh wqe mem ind inl] assms by (auto simp: limits_ok_def conforming_def)
  moreover have "connected_segs w wqe = connected_segs w []"
    using assms(2) by (intro ordinary_segs_any) (simp add: conforming_def)
  ultimately show ?thesis using False assms(3)
    by (intro exI [of _ n] exI [of _ inl'] exI [of _ "ctrl @ connected_segs w wqe @ inl_segs ds @ rest"]) (auto simp: encodes_def)
qed

text \<open>
  C18: A SEND (plain, with immediate or with invalidate), an RDMA READ or an RDMA WRITE (plain or with immediate) with inline data on an RC or UC
  queue pair, in a slot of at least 64 bytes of the size the driver computed and with no more data than the limit it reports, is accepted; the slot
  holds the control segment, the remote address if the opcode has one, and inline segments that together hold exactly the bytes of the
  gather list in order, none of which crosses a 64-byte boundary; the size in the control segment stays within the slot. Atomic requests, whose
  segments may run behind the slot, bind and local invalidate, and UD queue pairs are not covered.
\<close>

theorem inline_requests_encoded:
  assumes "sc_kind qc = QPT_RC \<or> sc_kind qc = QPT_UC" "sw_op w \<in> ordinary_ops" "sw_flags w AND IBV_SEND_INLINE \<noteq> 0"
    and "4 \<le> length (sc_srcrb_flags qc)" "6 \<le> sh" "length wqe = 2 ^ sh"
    and "mlx4_set_sq_sizes max_qp_wr max_sge sh cnt spare (sc_kind qc) cap = (max_gs, max_post, cap')"
    and "sc_max_inline_data qc = cap_max_inline_data cap'" "length (gathered mem (sw_sges w)) \<le> sc_max_inline_data qc"
  shows "\<exists>n inl' ctrl ds rest. post_send_one mem qc w ind inl wqe = Inr (0, n, inl', ctrl @ connected_segs w wqe @ inl_segs ds @ rest) \<and>
    ctrl_says w qc ind n ctrl \<and> concat ds = gathered mem (sw_sges w) \<and> fits_blocks (16 + length (connected_segs w wqe)) ds \<and>
    16 * n \<le> 2 ^ sh \<and> 16 + length (connected_segs w wqe @ inl_segs ds) \<le> 16 * n"
proof -
  have "sc_kind qc \<in> {QPT_RC, QPT_UC, QPT_UD}" using assms(1) by auto
  then have "sc_max_inline_data qc = granted_inline sh (sc_kind qc)"
    using set_sq_sizes_inline(1) [OF assms(7)] assms(8) by simp
  from inline_wqe [OF assms(1-6) this assms(9)] show ?thesis by blast
qed

text \<open>
  C19: A SEND (plain, with immediate or with invalidate), an RDMA READ or an RDMA WRITE (plain or with immediate) without inline data and with at most
  \<open>max_gs\<close> elements, on an RC or UC queue pair in a slot of at least 64 bytes of the size the driver computed, is accepted: the
  slot holds the control segment, the remote address if the opcode has one and one pointer segment for each element of the gather list, in order,
  and nothing behind them is touched. An atomic request with \<open>max_gs\<close> elements is excluded: on a slot of up to 512 bytes it writes behind its slot.
\<close>

theorem gather_requests_encoded:
  assumes "sc_kind qc = QPT_RC \<or> sc_kind qc = QPT_UC" "sw_op w \<in> ordinary_ops" "sw_flags w AND IBV_SEND_INLINE = 0"
    and "4 \<le> length (sc_srcrb_flags qc)" "6 \<le> sh" "length wqe = 2 ^ sh"
    and "mlx4_set_sq_sizes max_qp_wr max_sge sh cnt spare (sc_kind qc) cap = (max_gs, max_post, cap')"
    and "length (sw_sges w) \<le> max_gs"
  shows "\<exists>inl' ctrl. let segs = connected_segs w wqe; n = 1 + length segs div 16 + length (sw_sges w) in
    post_send_one mem qc w ind inl wqe = Inr (0, n, inl', ctrl @ segs @ concat (map ptr_seg (sw_sges w)) @ drop (16 * n) wqe) \<and>
    ctrl_says w qc ind n ctrl \<and> 16 * n \<le> 2 ^ sh"
proof -
  have "sc_kind qc \<in> {QPT_RC, QPT_UC, QPT_UD}" using assms(1) by auto
  then show ?thesis by (rule gather_wqe [OF assms(1-6) set_sq_sizes_inline(2) [OF assms(7)] assms(8)])
qed

text \<open>Inputs of the examples: a queue pair, a memory, and slots of 64 and 128 bytes.\<close>

definition ex_qc :: "nat \<Rightarrow> sq_conf" where
  "ex_qc mi = \<lparr>sc_kind = QPT_RC, sc_ethernet = False, sc_max_inline_data = mi, sc_srcrb_flags = [0, 0xc, 2, 0xe], sc_wqe_cnt = 64\<rparr>"

definition ex_wr :: "ibv_op \<Rightarrow> u32 \<Rightarrow> sge list \<Rightarrow> ibv_wr" where
  "ex_wr op flags gs = \<lparr>sw_id = 7, sw_op = op, sw_flags = flags, sw_imm = 0, sw_sges = gs, sw_raddr = 0x1000, sw_rkey = 5,
     sw_compare_add = 1, sw_swap = 2, sw_srqn = 0, sw_av = replicate 32 0, sw_dqpn = 0, sw_qkey = 0, sw_vlan = 0, sw_mac = replicate 6 0,
     sw_bind_access = 0, sw_bind_type2 = False, sw_bind_rkey = 0, sw_bind_lkey = 0, sw_bind_addr = 0, sw_bind_length = 0\<rparr>"

definition ex_cap :: qp_cap where
  "ex_cap = \<lparr>cap_max_send_wr = 64, cap_max_recv_wr = 64, cap_max_send_sge = 1, cap_max_recv_sge = 1, cap_max_inline_data = 50\<rparr>"

definition ex_sge :: "nat \<Rightarrow> sge" where
  "ex_sge n = \<lparr>sg_addr = 0x100, sg_length = of_nat n, sg_lkey = 9\<rparr>"

lemma ex_sizes:
  "mlx4_set_sq_sizes 100 32 7 64 10 (sc_kind (ex_qc 88)) ex_cap =
     (6, 54, ex_cap\<lparr>cap_max_send_sge := 6, cap_max_send_wr := 54, cap_max_inline_data := 88\<rparr>)"
  "mlx4_set_sq_sizes 100 32 6 64 10 (sc_kind (ex_qc 28)) ex_cap =
     (2, 54, ex_cap\<lparr>cap_max_send_sge := 2, cap_max_send_wr := 54, cap_max_inline_data := 28\<rparr>)"
  by (simp_all add: mlx4_set_sq_sizes_def ex_cap_def ex_qc_def MLX4_MAX_WQE_SIZE_def MLX4_INLINE_ALIGN_def align_def)

lemma inline_requests_encoded_witness:
  "let w = ex_wr WR_RDMA_WRITE IBV_SEND_INLINE [ex_sge 40, ex_sge 30]; mem = (\<lambda>a. ucast a) in
   \<exists>n inl' ctrl ds rest. post_send_one mem (ex_qc 88) w 3 False (replicate 128 0) =
      Inr (0, n, inl', ctrl @ connected_segs w (replicate 128 0) @ inl_segs ds @ rest) \<and>
    ctrl_says w (ex_qc 88) 3 n ctrl \<and> concat ds = gathered mem (sw_sges w) \<and>
    fits_blocks (16 + length (connected_segs w (replicate 128 0))) ds \<and>
    16 * n \<le> 2 ^ 7 \<and> 16 + length (connected_segs w (replicate 128 0) @ inl_segs ds) \<le> 16 * n"
  unfolding Let_def
  by (rule inline_requests_encoded [where max_qp_wr = 100 and max_sge = 32 and cnt = 64 and spare = 10 and cap = ex_cap, OF _ _ _ _ _ _ ex_sizes(1)])
     (simp_all add: ex_qc_def ex_wr_def ordinary_ops_def IBV_SEND_INLINE_def ex_sge_def)

lemma gather_requests_encoded_witness:
  "let w = ex_wr WR_SEND 2 [ex_sge 40, ex_sge 0]; mem = (\<lambda>a. ucast a) in
   \<exists>inl' ctrl. let segs = connected_segs w (replicate 64 0); n = 1 + length segs div 16 + length (sw_sges w) in
    post_send_one mem (ex_qc 28) w 64 False (replicate 64 0) =
      Inr (0, n, inl', ctrl @ segs @ concat (map ptr_seg (sw_sges w)) @ drop (16 * n) (replicate 64 0)) \<and>
    ctrl_says w (ex_qc 28) 64 n ctrl \<and> 16 * n \<le> 2 ^ 6"
  unfolding Let_def [where s = "ex_wr WR_SEND 2 [ex_sge 40, ex_sge 0]"] Let_def [where s = "\<lambda>a. ucast a"]
  by (rule gather_requests_encoded [where max_qp_wr = 100 and max_sge = 32 and cnt = 64 and spare = 10 and cap = ex_cap, OF _ _ _ _ _ _ ex_sizes(2)])
     (simp_all add: ex_qc_def ex_wr_def ordinary_ops_def IBV_SEND_INLINE_def ex_sge_def)

text \<open>
  C30: The slot size computed for an RC, UC or UD queue pair: if \<open>verify_sizes\<close> accepts the limits and at most 14160 inline bytes are asked
  for, at least the inline bytes asked for are granted, and at least as many gather elements as asked for or as fit into a slot of 1008 bytes, whichever is
  less: 61 behind the 32 bytes in front of the data of RC and UC, 59 behind the 64 bytes of UD. Both limits are real. On a device with 64 elements a
  request for 64 is accepted and 61 are granted; and \<open>verify_sizes\<close> compares with a possibly negative \<open>size\<close> as an unsigned number and accepts, for
  example, 15000 inline bytes, of which 912 are granted.
\<close>

theorem granted_at_least_requested:
  assumes "verify_sizes max_qp_wr max_sge cap kind" "kind \<in> {QPT_RC, QPT_UC, QPT_UD}"
    and "mlx4_set_sq_sizes max_qp_wr max_sge (mlx4_calc_sq_wqe_size cap kind masked) cnt spare kind cap = (max_gs, max_post, cap')"
    and "cap_max_inline_data cap \<le> 14160"
  shows "cap_max_inline_data cap \<le> cap_max_inline_data cap' \<and>
    min (cap_max_send_sge cap) ((MLX4_MAX_WQE_SIZE - data_start kind) div 16) \<le> cap_max_send_sge cap'"
proof -
  let ?d = "cap_max_inline_data cap" and ?sh = "mlx4_calc_sq_wqe_size cap kind masked"
  let ?k = "num_inline_segs ?d kind"
  have i: "cap_max_inline_data cap' = granted_inline ?sh kind" and g: "max_gs = (min (2 ^ ?sh) MLX4_MAX_WQE_SIZE - data_start kind) div 16"
    using set_sq_sizes_inline [OF assms(3,2)] by simp_all
  have slot: "?d + ?k * 4 + data_start kind \<le> 2 ^ ?sh" "16 * cap_max_send_sge cap + data_start kind \<le> 2 ^ ?sh"
    using calc_slot [OF assms(2), of cap masked] by (simp_all add: data_start_def)
  have k: "?d + (if kind = QPT_UD then 0 else 32) \<le> 60 * ?k" "60 * ?k \<le> ?d + (if kind = QPT_UD then 0 else 32) + 59"
    using num_inline_segs_bound num_inline_segs_upper by blast+
  have inl: "?d \<le> granted_inline ?sh kind" if "?d \<noteq> 0"
  proof -
    have "4 * ?k + data_start kind \<le> 1008" using k(2) assms(4) by (auto simp: data_start_def split: if_splits)
    then have "int ?d \<le> int (1008 - (4 * ?k + data_start kind)) mod 2 ^ 32"
      using assms(1,2) that by (auto simp: verify_sizes_def MLX4_MAX_WQE_SIZE_def data_start_def of_nat_diff algebra_simps)
    also have "\<dots> = int (1008 - (4 * ?k + data_start kind))" by (intro mod_pos_pos_trivial) simp_all
    finally have a: "?d + 4 * ?k + data_start kind \<le> 1008" using \<open>4 * ?k + data_start kind \<le> 1008\<close> by linarith
    have c: "?d \<le> (if kind = QPT_UD then 884 else 912)"
      using a k by (cases "?k \<le> 14"; cases "?k \<le> 15") (auto simp: data_start_def split: if_splits)
    show ?thesis
      by (rule granted_inline_cases [OF assms(2) calc_shift [of cap kind masked]])
         (use a c k slot(1) in \<open>auto simp: data_start_def split: if_splits\<close>)
  qed
  have "cap_max_send_sge cap' = min max_sge max_gs"
    using assms(3) by (auto simp: mlx4_set_sq_sizes_def Let_def)
  moreover have "cap_max_send_sge cap \<le> max_sge" using assms(1) by (simp add: verify_sizes_def)
  moreover have "min (cap_max_send_sge cap) ((MLX4_MAX_WQE_SIZE - data_start kind) div 16) \<le> max_gs"
  proof (cases "MLX4_MAX_WQE_SIZE \<le> 2 ^ ?sh")
    case False
    then have "16 * cap_max_send_sge cap \<le> min (2 ^ ?sh) MLX4_MAX_WQE_SIZE - data_start kind" using slot(2) by simp
    then show ?thesis unfolding g by (simp add: less_eq_div_iff_mult_less_eq mult.commute min_le_iff_disj)
  qed (simp add: g)
  ultimately show ?thesis using inl i by (cases "?d = 0") simp_all
qed

lemma granted_at_least_requested_witness:
  "let cap = ex_cap; cap' = snd (snd (mlx4_set_sq_sizes 100 32 (mlx4_calc_sq_wqe_size cap QPT_RC False) 64 10 QPT_RC cap)) in
   cap_max_inline_data cap \<le> cap_max_inline_data cap' \<and>
   min (cap_max_send_sge cap) ((MLX4_MAX_WQE_SIZE - data_start QPT_RC) div 16) \<le> cap_max_send_sge cap'"
  unfolding Let_def
  by (rule granted_at_least_requested [of 100 32 _ _ False 64 10 "fst (mlx4_set_sq_sizes 100 32 (mlx4_calc_sq_wqe_size ex_cap QPT_RC False) 64 10 QPT_RC ex_cap)"
        "fst (snd (mlx4_set_sq_sizes 100 32 (mlx4_calc_sq_wqe_size ex_cap QPT_RC False) 64 10 QPT_RC ex_cap))"])
     (simp_all add: verify_sizes_def ex_cap_def num_inline_segs_def MLX4_INLINE_ALIGN_def MLX4_MAX_WQE_SIZE_def)

lemma negative_size_accepted:
  "verify_sizes 100 32 (ex_cap\<lparr>cap_max_inline_data := 15000\<rparr>) QPT_RC"
  "6 \<le> sh \<Longrightarrow> granted_inline sh QPT_RC \<le> 912"
proof -
  show "verify_sizes 100 32 (ex_cap\<lparr>cap_max_inline_data := 15000\<rparr>) QPT_RC"
    by (simp add: verify_sizes_def ex_cap_def num_inline_segs_def MLX4_INLINE_ALIGN_def MLX4_MAX_WQE_SIZE_def)
  show "6 \<le> sh \<Longrightarrow> granted_inline sh QPT_RC \<le> 912"
    by (erule granted_inline_cases [of QPT_RC, rotated]) simp_all
qed

text \<open>
  An atomic request has two segments in front of the data, but \<open>max_gs\<close> leaves room for one only: on a slot of 64 to
  512 bytes an atomic request with \<open>max_gs\<close> elements, which the check of the number of elements lets pass, writes
  behind its slot.
\<close>

theorem atomic_overruns_slot:
  assumes "sc_kind qc = QPT_RC" "sw_op w \<in> {WR_ATOMIC_CMP_AND_SWP, WR_ATOMIC_FETCH_AND_ADD}" "sw_flags w AND IBV_SEND_INLINE = 0"
    and "4 \<le> length (sc_srcrb_flags qc)" "6 \<le> sh" "sh \<le> 9" "length wqe = 2 ^ sh"
    and "mlx4_set_sq_sizes max_qp_wr max_sge sh cnt spare QPT_RC cap = (max_gs, max_post, cap')" "length (sw_sges w) = max_gs"
  shows "post_send_one mem qc w ind inl wqe = Inl Out_of_bounds"
proof -
  obtain f where f: "srcrb_of qc (sw_flags w) = Inr f" using srcrb_of_ok [OF assms(4)] by blast
  have "sh \<in> {6, 7, 8, 9}" using assms(5,6) by auto
  moreover have "max_gs = (min (2 ^ sh) MLX4_MAX_WQE_SIZE - 32) div 16"
    using set_sq_sizes_inline(2) [OF assms(8)] by (simp add: data_start_def)
  ultimately have g: "2 ^ sh < 48 + 16 * max_gs" "0 < max_gs" "(64 :: nat) \<le> 2 ^ sh" by (auto simp: MLX4_MAX_WQE_SIZE_def)
  have seg: "length (connected_segs w wqe) = 32"
    using assms(2) by (auto simp: connected_segs_def raddr_seg_def atomic_seg_def)
  let ?w = "take 16 wqe @ connected_segs w wqe @ drop 48 wqe"
  have put: "mem_put wqe 16 (connected_segs w wqe) = Inr ?w"
    using seg g(3) assms(7) by (subst mem_put_in) simp_all
  have "set_ptrs ?w 48 (sw_sges w) (length (sw_sges w)) = Inl Out_of_bounds"
    using g assms(7,9) seg by (intro set_ptrs_out) simp_all
  then have "set_data_non_inl_seg (sw_sges w) ?w 48 3 = Inl Out_of_bounds" by (simp add: set_data_non_inl_seg_def)
  then show ?thesis
    using assms(1,3) f put seg by (simp add: post_send_one_def post_send_connected_def set_common_segments_def Let_def)
qed

lemma atomic_overruns_slot_witness:
  "post_send_one (\<lambda>a. 0) (ex_qc 28) (ex_wr WR_ATOMIC_FETCH_AND_ADD 0 [ex_sge 4, ex_sge 4]) 0 False (replicate 64 0) = Inl Out_of_bounds"
  by (rule atomic_overruns_slot [OF _ _ _ _ _ _ _ ex_sizes(2) [unfolded ex_qc_def sq_conf.simps]])
     (simp_all add: ex_qc_def ex_wr_def)

end
