(* ===== verification/Send_Queue.thy ===== *)
theory Send_Queue
  imports Wqe
begin

text \<open>
  The send queue of a queue pair (\<open>libmlx4/src/qp.c\<close>): its initial state, the test for a full queue, stamping,
  ringing the doorbell, and \<open>__mlx4_post_send\<close>, through which the shaper posts every chunk. The buffer is the
  list of its slots, each the list of its bytes. The device is the log of what it is told: a doorbell, after which
  it fetches elements from the queue, or the bytes of one element copied to its BlueFlame page.

  A flow that must wait for a token sets its flag \<open>pending\<close> and spins until the pacer clears it. \<open>waits\<close> has one number
  per token to come: the \<open>active_batch_ops\<close> read after the wait. When it is empty the pacer never answers.
\<close>

unbundle bit_operations_syntax

section \<open>State\<close>

datatype db_method = DEDIC_BF_1_THREAD_WC_EVICT_PB | DEDIC_BF_1_THREAD_WC_EVICT_NPB | DEDIC_BF | BF | DB

datatype bell = Doorbell | Blueflame "u8 list"

record send_queue =
  sq_slots :: "u8 list list"
  sq_wrid :: "u64 list"
  sq_qc :: sq_conf
  sq_shift :: nat
  sq_max_post :: nat
  sq_max_gs :: nat
  sq_spare :: nat
  sq_head :: u32
  sq_tail :: u32
  sq_ignore_overflow :: bool
  sq_managed :: bool
  sq_db_method :: db_method
  sq_prefer_bf :: bool
  sq_bf_buf_size :: nat
  sq_qpn :: u32
  sq_bells :: "bell list"

abbreviation sq_cnt :: "send_queue \<Rightarrow> nat" where
  "sq_cnt q \<equiv> sc_wqe_cnt (sq_qc q)"

function align_queue_from :: "nat \<Rightarrow> nat \<Rightarrow> nat" where
  "align_queue_from req nent = (if 0 < nent \<and> nent < req then align_queue_from req (2 * nent) else nent)"
  by auto
termination by (relation "measure (\<lambda>(req, nent). req - nent)") auto

declare align_queue_from.simps [simp del]

definition align_queue_size :: "nat \<Rightarrow> nat" where
  "align_queue_size req = align_queue_from req 1"

lemma align_queue_from_ok:
  assumes "nent = 2 ^ i" "nent = 1 \<or> nent < 2 * req"
  shows "req \<le> align_queue_from req nent \<and> (\<exists>k. align_queue_from req nent = 2 ^ k) \<and>
    (align_queue_from req nent = 1 \<or> align_queue_from req nent < 2 * req)"
  using assms
proof (induction req nent arbitrary: i rule: align_queue_from.induct)
  case (1 req nent)
  show ?case
  proof (cases "nent < req")
    case True
    then have "align_queue_from req nent = align_queue_from req (2 * nent)"
      using 1(2) by (subst align_queue_from.simps) simp
    moreover have "req \<le> align_queue_from req (2 * nent) \<and> (\<exists>k. align_queue_from req (2 * nent) = 2 ^ k) \<and>
        (align_queue_from req (2 * nent) = 1 \<or> align_queue_from req (2 * nent) < 2 * req)"
      using "1.IH" [of "Suc i"] 1(2) True by simp
    ultimately show ?thesis by simp
  next
    case False
    then have "align_queue_from req nent = nent" by (subst align_queue_from.simps) simp
    then show ?thesis using 1(2,3) False by auto
  qed
qed

lemma align_queue_size_ok:
  "req \<le> align_queue_size req" "\<exists>k. align_queue_size req = 2 ^ k" "align_queue_size req = 1 \<or> align_queue_size req < 2 * req"
  using align_queue_from_ok [of 1 0 req] by (simp_all add: align_queue_size_def)

text \<open>2 KB and one element of headroom, which the device may prefetch.\<close>

definition spare_wqes :: "nat \<Rightarrow> nat" where
  "spare_wqes shift = 2048 div 2 ^ shift + 1"

text \<open>
  The send queue of a new queue pair: how \<open>mlx4_exp_create_qp\<close> sizes it; the buffer is zeroed, the identifiers are not
  initialised. \<open>q0\<close> has the values of the other fields.
\<close>

definition create_sq :: "nat \<Rightarrow> nat \<Rightarrow> qp_cap \<Rightarrow> qp_kind \<Rightarrow> bool \<Rightarrow> u64 list \<Rightarrow> send_queue \<Rightarrow> send_queue" where
  "create_sq max_qp_wr max_sge cap kind masked ids q0 =
     (let shift = mlx4_calc_sq_wqe_size cap kind masked; spare = spare_wqes shift;
          cnt = align_queue_size (cap_max_send_wr cap + spare);
          (max_gs, max_post, cap') = mlx4_set_sq_sizes max_qp_wr max_sge shift cnt spare kind cap
      in q0\<lparr>sq_shift := shift, sq_spare := spare, sq_slots := replicate cnt (replicate (2 ^ shift) 0), sq_wrid := take cnt ids,
           sq_max_gs := max_gs, sq_max_post := max_post,
           sq_qc := (sq_qc q0)\<lparr>sc_kind := kind, sc_wqe_cnt := cnt, sc_max_inline_data := cap_max_inline_data cap'\<rparr>\<rparr>)"

section \<open>Stamping\<close>

text \<open>
  Marking an element invalid: \<open>0xffffffff\<close> at the start of every 64-byte block it covers but the first. \<open>ds\<close> is its
  size in words.
\<close>

fun stamp_blocks :: "nat list \<Rightarrow> u8 list \<Rightarrow> u8 list res" where
  "stamp_blocks [] wqe = Inr wqe"
| "stamp_blocks (b # bs) wqe = res_bind (mem_write wqe (64 * b) (replicate 4 0xff)) (stamp_blocks bs)"

definition stamp_wqe :: "u8 list \<Rightarrow> u8 list res" where
  "stamp_wqe wqe = res_bind (arr_get wqe 7) (\<lambda>fence_size.
     let ds = push_bit 2 (unat (fence_size AND 0x3f)) in stamp_blocks [1..<(ds + 15) div 16] wqe)"

definition stamp_send_wqe :: "nat \<Rightarrow> send_queue \<Rightarrow> send_queue res" where
  "stamp_send_wqe n q = res_bind (arr_get (sq_slots q) n) (\<lambda>wqe.
     res_bind (stamp_wqe wqe) (\<lambda>wqe. Inr (q\<lparr>sq_slots := (sq_slots q)[n := wqe]\<rparr>)))"

definition init_wqe :: "nat \<Rightarrow> u8 list \<Rightarrow> u8 list res" where
  "init_wqe shift wqe =
     res_bind (mem_write wqe 0 (be32 WQE_CTRL_OWN)) (\<lambda>wqe.
     res_bind (arr_set wqe 7 (push_bit (shift - 4) 1)) stamp_wqe)"

fun init_slots :: "nat \<Rightarrow> u8 list list \<Rightarrow> u8 list list res" where
  "init_slots shift [] = Inr []"
| "init_slots shift (s # ss) =
     res_bind (init_wqe shift s) (\<lambda>s. res_bind (init_slots shift ss) (\<lambda>ss. Inr (s # ss)))"

definition mlx4_qp_init_sq_ownership :: "send_queue \<Rightarrow> send_queue res" where
  "mlx4_qp_init_sq_ownership q =
     res_bind (init_slots (sq_shift q) (take (sq_cnt q) (sq_slots q))) (\<lambda>ss.
       Inr (q\<lparr>sq_slots := ss @ drop (sq_cnt q) (sq_slots q)\<rparr>))"

definition mlx4_init_qp_indices :: "send_queue \<Rightarrow> send_queue" where
  "mlx4_init_qp_indices q = q\<lparr>sq_head := 0, sq_tail := 0\<rparr>"

section \<open>Doorbells\<close>

definition wq_overflow :: "u32 \<Rightarrow> u32 \<Rightarrow> nat \<Rightarrow> nat \<Rightarrow> bool" where
  "wq_overflow head tail max_post nreq \<longleftrightarrow> max_post \<le> unat (head - tail + of_nat nreq)"

definition convert_to_bf_wqe :: "u32 \<Rightarrow> u32 \<Rightarrow> u8 list \<Rightarrow> u8 list" where
  "convert_to_bf_wqe qpn wqe_idx wqe =
     map2 (OR) (take 8 wqe) (be32 (push_bit 8 (wqe_idx AND 0xffff)) @ be32 (push_bit 8 qpn)) @ drop 8 wqe"

text \<open>\<open>ctrl\<close> is the slot of the element written last; the code leaves it unassigned before the first.\<close>

definition convert_slot :: "nat option \<Rightarrow> send_queue \<Rightarrow> send_queue res" where
  "convert_slot ctrl q = (case ctrl of None \<Rightarrow> Inl Uninit_read
     | Some n \<Rightarrow> res_bind (arr_get (sq_slots q) n) (\<lambda>wqe.
         Inr (q\<lparr>sq_slots := (sq_slots q)[n := convert_to_bf_wqe (sq_qpn q) (sq_head q) wqe]\<rparr>)))"

definition copy_wqe_to_bf :: "nat option \<Rightarrow> nat \<Rightarrow> send_queue \<Rightarrow> send_queue res" where
  "copy_wqe_to_bf ctrl aligned_size q = res_bind (convert_slot ctrl q) (\<lambda>q.
     case ctrl of None \<Rightarrow> Inl Uninit_read
     | Some n \<Rightarrow> res_bind (mem_read (sq_slots q ! n) 0 aligned_size) (\<lambda>bytes.
         Inr (q\<lparr>sq_bells := sq_bells q @ [Blueflame bytes]\<rparr>)))"

definition by_blueflame :: "send_queue \<Rightarrow> bool \<Rightarrow> bool \<Rightarrow> nat \<Rightarrow> nat \<Rightarrow> bool \<Rightarrow> bool" where
  "by_blueflame q use_bf prefer_bf nreq sz inl \<longleftrightarrow>
     use_bf \<and> nreq = 1 \<and> (inl \<or> prefer_bf) \<and> 1 < sz \<and> sz \<le> sq_bf_buf_size q div 16"

definition ring_bell :: "nat option \<Rightarrow> nat \<Rightarrow> nat \<Rightarrow> bool \<Rightarrow> bool \<Rightarrow> bool \<Rightarrow> send_queue \<Rightarrow> send_queue res" where
  "ring_bell ctrl nreq sz inl use_bf prefer_bf q =
     (if by_blueflame q use_bf prefer_bf nreq sz inl then
        res_bind (copy_wqe_to_bf ctrl (align (sz * 16) 64) q) (\<lambda>q. Inr (q\<lparr>sq_head := sq_head q + 1\<rparr>))
      else if nreq \<noteq> 0 then Inr (q\<lparr>sq_head := sq_head q + of_nat nreq, sq_bells := sq_bells q @ [Doorbell]\<rparr>)
      else Inr q)"

definition ring_db_mng :: "nat option \<Rightarrow> nat \<Rightarrow> nat \<Rightarrow> bool \<Rightarrow> send_queue \<Rightarrow> send_queue res" where
  "ring_db_mng ctrl nreq sz inl q =
     (if by_blueflame q True (sq_prefer_bf q) nreq sz inl then
        res_bind (convert_slot ctrl q) (\<lambda>q. Inr (q\<lparr>sq_head := sq_head q + 1\<rparr>))
      else Inr (q\<lparr>sq_head := sq_head q + of_nat nreq\<rparr>))"

definition ring_db :: "nat option \<Rightarrow> nat \<Rightarrow> nat \<Rightarrow> bool \<Rightarrow> send_queue \<Rightarrow> send_queue res" where
  "ring_db ctrl nreq sz inl q =
     (if sq_managed q then ring_db_mng ctrl nreq sz inl q
      else case sq_db_method q of
        DEDIC_BF_1_THREAD_WC_EVICT_PB \<Rightarrow> ring_bell ctrl nreq sz inl True True q
      | DEDIC_BF_1_THREAD_WC_EVICT_NPB \<Rightarrow> ring_bell ctrl nreq sz inl True False q
      | DEDIC_BF \<Rightarrow> ring_bell ctrl nreq sz inl True (sq_prefer_bf q) q
      | BF \<Rightarrow> ring_bell ctrl nreq sz inl True (sq_prefer_bf q) q
      | DB \<Rightarrow> ring_bell ctrl nreq sz inl False (sq_prefer_bf q) q)"

section \<open>Posting\<close>

text \<open>The local variables of the loop, with the tokens to come; \<open>pv_bad\<close> is the rest of the chain from \<open>*bad_wr\<close> on.\<close>

record post_vars =
  pv_nreq :: nat
  pv_size :: nat
  pv_inl :: bool
  pv_ctrl :: "nat option"
  pv_ret :: int
  pv_bad :: "ibv_wr list"
  pv_waits :: "u32 list"

definition sq_index :: "send_queue \<Rightarrow> u32 \<Rightarrow> nat" where
  "sq_index q i = unat i AND (sq_cnt q - 1)"

text \<open>One request that has passed the checks: its slot and identifier.\<close>

definition write_request :: "(u64 \<Rightarrow> u8) \<Rightarrow> ibv_wr \<Rightarrow> u32 \<Rightarrow> bool \<Rightarrow> send_queue \<Rightarrow> (int \<times> nat \<times> bool \<times> send_queue) res" where
  "write_request mem w ind inl q =
     (let n = sq_index q ind in
      res_bind (arr_get (sq_slots q) n) (\<lambda>slot.
      res_bind (arr_set (sq_wrid q) n (sw_id w)) (\<lambda>ids.
      res_bind (post_send_one mem (sq_qc q) w (unat ind) inl slot) (\<lambda>(ret, sz, inl, slot).
        Inr (ret, sz, inl, q\<lparr>sq_slots := (sq_slots q)[n := slot], sq_wrid := ids\<rparr>)))))"

fun post_requests :: "(u64 \<Rightarrow> u8) \<Rightarrow> bool \<Rightarrow> ibv_wr list \<Rightarrow> post_vars \<Rightarrow> send_queue \<Rightarrow> (post_vars \<times> send_queue) res" where
  "post_requests mem token_each [] v q = Inr (v, q)"
| "post_requests mem token_each (w # ws) v q =
     (if token_each \<and> pv_waits v = [] then Inl Diverges
      else let v = (if token_each then v\<lparr>pv_waits := tl (pv_waits v)\<rparr> else v);
               ind = sq_head q + of_nat (pv_nreq v)
      in if \<not> sq_ignore_overflow q \<and> wq_overflow (sq_head q) (sq_tail q) (sq_max_post q) (pv_nreq v)
         then Inr (v\<lparr>pv_ret := ENOMEM, pv_bad := w # ws\<rparr>, q)
         else if sq_max_gs q < length (sw_sges w) then Inr (v\<lparr>pv_ret := ENOMEM, pv_bad := w # ws\<rparr>, q)
         else res_bind (write_request mem w ind (pv_inl v) q) (\<lambda>(ret, sz, inl, q).
           if ret \<noteq> 0
           then Inr (v\<lparr>pv_ctrl := Some (sq_index q ind), pv_inl := False, pv_ret := ret, pv_bad := w # ws\<rparr>, q)
           else res_bind (if ws \<noteq> [] then stamp_send_wqe (sq_index q (ind + of_nat (sq_spare q))) q else Inr q)
             (post_requests mem token_each ws
                (v\<lparr>pv_ctrl := Some (sq_index q ind), pv_size := sz, pv_inl := inl, pv_nreq := pv_nreq v + 1\<rparr>))))"

text \<open>Flows that are charged per batch: tokens are fetched until the balance is positive.\<close>

fun fetch_batches :: "int \<Rightarrow> u32 list \<Rightarrow> (int \<times> u32 list) res" where
  "fetch_batches debit ws = (if 0 < debit then Inr (debit, ws)
     else case ws of [] \<Rightarrow> Inl Diverges | b # bs \<Rightarrow> fetch_batches (signed_take_bit 31 (debit + uint b)) bs)"

declare fetch_batches.simps [simp del]

record post_result =
  pr_ret :: int
  pr_bad :: "ibv_wr list"
  pr_debit :: int
  pr_waits :: "u32 list"
  pr_queue :: send_queue

definition post_send_driver :: "(u64 \<Rightarrow> u8) \<Rightarrow> int \<Rightarrow> bool \<Rightarrow> int \<Rightarrow> u32 list \<Rightarrow> ibv_wr list \<Rightarrow> send_queue \<Rightarrow> post_result res" where
  "post_send_driver mem isSmall flow debit waits ws q =
     res_bind (post_requests mem (isSmall = 0 \<and> flow) ws
         \<lparr>pv_nreq = 0, pv_size = 0, pv_inl = False, pv_ctrl = None, pv_ret = 0, pv_bad = [], pv_waits = waits\<rparr> q) (\<lambda>(v, q1).
     res_bind (if pv_ret v = 0 \<and> isSmall = 2 \<and> flow
         then res_bind (fetch_batches debit (pv_waits v)) (\<lambda>(d, ws). Inr (d - int (pv_nreq v), ws))
         else Inr (debit, pv_waits v)) (\<lambda>(debit, waits).
     res_bind (ring_db (pv_ctrl v) (pv_nreq v) (pv_size v) (pv_inl v) q1) (\<lambda>q2.
     res_bind (if pv_nreq v \<noteq> 0
         then stamp_send_wqe (sq_index q2 (sq_head q + of_nat (pv_nreq v) + of_nat (sq_spare q2) - 1)) q2 else Inr q2) (\<lambda>q3.
       Inr \<lparr>pr_ret = pv_ret v, pr_bad = pv_bad v, pr_debit = debit, pr_waits = waits, pr_queue = q3\<rparr>))))"

end
