(* ===== verification/Send_Queue_Proofs.thy ===== *)
theory Send_Queue_Proofs
  imports Send_Queue
begin

text \<open>
  The send queue: what stamping, posting and ringing the doorbell do to the slots. Places are counted from the tail;
  the invariant \<open>sq_inv\<close> says that a queue has the sizes the driver computes and no more requests than it has room for.
\<close>

unbundle bit_operations_syntax

section \<open>Slots\<close>

text \<open>
  The slot \<open>a\<close> places behind the tail. As the number of slots is a power of two, the index does not notice when
  the 32-bit counters wrap around.
\<close>

definition sq_pos :: "send_queue \<Rightarrow> nat \<Rightarrow> nat" where
  "sq_pos q a = (unat (sq_tail q) + a) mod sq_cnt q"

definition outstanding :: "send_queue \<Rightarrow> nat" where
  "outstanding q = unat (sq_head q - sq_tail q)"

definition slot_ok :: "nat \<Rightarrow> u8 list \<Rightarrow> bool" where
  "slot_ok sh s \<longleftrightarrow> length s = 2 ^ sh \<and> 16 * unat (s ! 7 AND 0x3f) \<le> 2 ^ sh"

definition sq_inv :: "send_queue \<Rightarrow> bool" where
  "sq_inv q \<longleftrightarrow> (\<exists>k \<le> 16. sq_cnt q = 2 ^ k) \<and> limits_ok (sq_qc q) (sq_shift q) (sq_max_gs q) \<and>
     length (sq_slots q) = sq_cnt q \<and> length (sq_wrid q) = sq_cnt q \<and> (\<forall>s\<in>set (sq_slots q). slot_ok (sq_shift q) s) \<and>
     0 < sq_spare q \<and> sq_max_post q + sq_spare q \<le> sq_cnt q \<and> outstanding q \<le> sq_max_post q"

lemma index_mod:
  assumes "sq_cnt q = 2 ^ k" "k \<le> 16"
  shows "sq_index q (sq_tail q + of_nat a) = sq_pos q a"
  unfolding sq_index_def sq_pos_def by (rule ring_index [OF assms])

lemma sq_index_pos:
  assumes "sq_inv q"
  shows "sq_index q (sq_tail q + of_nat a) = sq_pos q a" "sq_index q (sq_head q + of_nat a) = sq_pos q (outstanding q + a)"
proof -
  obtain k where k: "k \<le> 16" "sq_cnt q = 2 ^ k" using assms by (auto simp: sq_inv_def)
  show "sq_index q (sq_tail q + of_nat a) = sq_pos q a" by (rule index_mod [OF k(2,1)])
  have "sq_head q + of_nat a = sq_tail q + of_nat (outstanding q + a)"
    by (simp add: outstanding_def)
  then show "sq_index q (sq_head q + of_nat a) = sq_pos q (outstanding q + a)"
    using index_mod [OF k(2,1), of "outstanding q + a"] by (simp only:)
qed

lemma sq_pos_less: "0 < sq_cnt q \<Longrightarrow> sq_pos q a < sq_cnt q"
  by (simp add: sq_pos_def)

lemma sq_pos_inj: "\<lbrakk>a < sq_cnt q; b < sq_cnt q; a \<noteq> b\<rbrakk> \<Longrightarrow> sq_pos q a \<noteq> sq_pos q b"
  unfolding sq_pos_def using mod_add_inj by blast

lemma stamp_blocks_ok:
  assumes "\<forall>b\<in>set bs. 0 < b \<and> 64 * b + 4 \<le> length wqe"
  shows "\<exists>wqe'. stamp_blocks bs wqe = Inr wqe' \<and> length wqe' = length wqe \<and> take 64 wqe' = take 64 wqe"
  using assms
proof (induction bs arbitrary: wqe)
  case (Cons b bs)
  let ?w = "take (64 * b) wqe @ replicate 4 0xff @ drop (64 * b + 4) wqe"
  have "mem_write wqe (64 * b) (replicate 4 0xff) = Inr ?w" using Cons.prems by (simp add: mem_write_def)
  moreover have "length ?w = length wqe" "take 64 ?w = take 64 wqe" using Cons.prems by (auto simp: min_def)
  ultimately show ?case using Cons.IH [of ?w] Cons.prems by simp
qed simp

lemma stamp_blocks_other:
  assumes "stamp_blocks bs wqe = Inr wqe'" "b \<notin> set bs"
  shows "take 4 (drop (64 * b) wqe') = take 4 (drop (64 * b) wqe)"
  using assms
proof (induction bs arbitrary: wqe)
  case (Cons c cs)
  let ?w = "take (64 * c) wqe @ replicate 4 0xff @ drop (64 * c + 4) wqe"
  have le: "64 * c + 4 \<le> length wqe" and st: "stamp_blocks cs ?w = Inr wqe'"
    using Cons.prems(1) by (auto simp: mem_write_def split: if_splits)
  have "take 4 (drop (64 * b) ?w) = take 4 (drop (64 * b) wqe)"
  proof (cases "b < c")
    case True
    then have "64 * b + 4 \<le> 64 * c" by simp
    then show ?thesis using le by (simp add: take_drop)
  next
    case False
    then have "64 * c + 4 \<le> 64 * b" using Cons.prems(2) by (cases "b = c") auto
    then show ?thesis using le by simp
  qed
  then show ?case using Cons.IH [OF st] Cons.prems(2) by simp
qed simp

lemma stamp_wqe_ok:
  assumes "slot_ok sh s" "6 \<le> sh"
  shows "\<exists>s'. stamp_wqe s = Inr s' \<and> slot_ok sh s' \<and> take 64 s' = take 64 s"
proof -
  have len: "64 \<le> length s" using assms power_increasing [OF assms(2), of "2 :: nat"] by (simp add: slot_ok_def)
  let ?f = "unat (s ! 7 AND 0x3f)"
  have "\<forall>b\<in>set [1..<(push_bit 2 ?f + 15) div 16]. 0 < b \<and> 64 * b + 4 \<le> length s"
  proof
    fix b assume b: "b \<in> set [1..<(push_bit 2 ?f + 15) div 16]"
    then have "b + 1 \<le> (4 * ?f + 15) div 16" by (simp add: push_bit_eq_mult mult.commute)
    then have "16 * (b + 1) \<le> 4 * ?f + 15" by (simp add: less_eq_div_iff_mult_less_eq)
    then have "4 * b + 1 \<le> ?f" by presburger
    then have "64 * b + 4 \<le> 16 * ?f" by simp
    then show "0 < b \<and> 64 * b + 4 \<le> length s" using assms(1) b by (simp add: slot_ok_def)
  qed
  then obtain s' where s': "stamp_blocks [1..<(push_bit 2 ?f + 15) div 16] s = Inr s'" "length s' = length s" "take 64 s' = take 64 s"
    using stamp_blocks_ok by blast
  have "s' ! 7 = s ! 7" using s'(3) by (metis nth_take less_numeral_extra(4) numeral_less_iff semiring_norm(76,78,81))
  then show ?thesis using s' assms(1) len by (simp add: stamp_wqe_def slot_ok_def)
qed

lemma stamp_send_wqe_ok:
  assumes "sq_inv q"
  shows "\<exists>s'. stamp_send_wqe (sq_pos q a) q = Inr (q\<lparr>sq_slots := (sq_slots q)[sq_pos q a := s']\<rparr>) \<and> slot_ok (sq_shift q) s'"
proof -
  have p: "sq_pos q a < length (sq_slots q)" using assms by (auto simp: sq_inv_def intro!: sq_pos_less)
  then have "slot_ok (sq_shift q) (sq_slots q ! sq_pos q a)" using assms by (simp add: sq_inv_def)
  then obtain s' where "stamp_wqe (sq_slots q ! sq_pos q a) = Inr s'" "slot_ok (sq_shift q) s'"
    using stamp_wqe_ok [of "sq_shift q" "sq_slots q ! sq_pos q a"] assms by (auto simp: sq_inv_def limits_ok_def)
  then show ?thesis using p by (intro exI [of _ s']) (simp add: stamp_send_wqe_def)
qed

lemma encodes_slot_ok:
  assumes "encodes mem qc w ind n wqe" "length wqe = 2 ^ sh"
  shows "slot_ok sh wqe"
proof -
  obtain ctrl data rest where e: "wqe = ctrl @ connected_segs w [] @ data @ rest" "ctrl_says w qc ind n ctrl" "16 * n \<le> length wqe"
    using assms(1) by (auto simp: encodes_def)
  have "wqe ! 7 = ctrl ! 7" using e(1,2) by (simp add: ctrl_says_def nth_append)
  also have "\<dots> = (if sw_flags w AND IBV_SEND_FENCE \<noteq> 0 then 0x40 else 0) OR of_nat n" using e(2) by (simp add: ctrl_says_def)
  also have "\<dots> AND 0x3f = of_nat n AND 0x3f" by (simp add: bit.conj_disj_distrib2)
  also have "unat \<dots> \<le> unat (of_nat n :: u8)" by (metis word_and_le2 word_le_nat_alt)
  also have "\<dots> \<le> n" by (simp add: unat_of_nat)
  finally have "unat (wqe ! 7 AND 0x3f) \<le> n" .
  then show ?thesis using e(3) assms(2) by (simp add: slot_ok_def)
qed


section \<open>Posting keeps the outstanding requests\<close>

definition same_queue :: "send_queue \<Rightarrow> send_queue \<Rightarrow> bool" where
  "same_queue q q' \<longleftrightarrow> (\<exists>slots ids. q' = q\<lparr>sq_slots := slots, sq_wrid := ids\<rparr>)"

lemma same_queueD:
  assumes "same_queue q q'"
  shows "sq_qc q' = sq_qc q" "sq_shift q' = sq_shift q" "sq_max_post q' = sq_max_post q" "sq_max_gs q' = sq_max_gs q"
    "sq_spare q' = sq_spare q" "sq_head q' = sq_head q" "sq_tail q' = sq_tail q" "sq_ignore_overflow q' = sq_ignore_overflow q"
    "outstanding q' = outstanding q" "sq_pos q' = sq_pos q" "sq_index q' = sq_index q" "sq_qpn q' = sq_qpn q"
  using assms by (auto simp: same_queue_def outstanding_def sq_pos_def sq_index_def fun_eq_iff)

lemma same_queueI: "same_queue q (q\<lparr>sq_slots := slots, sq_wrid := ids\<rparr>)"
  by (auto simp: same_queue_def)

lemma same_queue_slots: "same_queue q (q\<lparr>sq_slots := slots\<rparr>)"
  unfolding same_queue_def by (intro exI [of _ slots] exI [of _ "sq_wrid q"]) simp

lemma same_queue_refl [simp]: "same_queue q q"
  unfolding same_queue_def by (intro exI [of _ "sq_slots q"] exI [of _ "sq_wrid q"]) simp

lemma same_queue_trans: "same_queue q q' \<Longrightarrow> same_queue q' q'' \<Longrightarrow> same_queue q q''"
  unfolding same_queue_def by (elim exE, hypsubst, simp, blast)

text \<open>The places \<open>a\<close> in \<open>A\<close> are as before.\<close>

definition untouched :: "nat set \<Rightarrow> send_queue \<Rightarrow> send_queue \<Rightarrow> bool" where
  "untouched A q q' \<longleftrightarrow> (\<forall>a\<in>A. sq_slots q' ! sq_pos q a = sq_slots q ! sq_pos q a \<and> sq_wrid q' ! sq_pos q a = sq_wrid q ! sq_pos q a)"

text \<open>The request \<open>w\<close> is at place \<open>a\<close>.\<close>

definition posted_at :: "(u64 \<Rightarrow> u8) \<Rightarrow> send_queue \<Rightarrow> nat \<Rightarrow> ibv_wr \<Rightarrow> bool" where
  "posted_at mem q a w \<longleftrightarrow> sq_wrid q ! sq_pos q a = sw_id w \<and>
     (\<exists>n. encodes mem (sq_qc q) w (unat (sq_tail q + of_nat a)) n (sq_slots q ! sq_pos q a))"

lemma write_request_ok:
  assumes "sq_inv q" "conforming mem (sq_qc q) (sq_max_gs q) w"
  shows "\<exists>n inl' q'. write_request mem w (sq_tail q + of_nat a) inl q = Inr (0, n, inl', q') \<and> same_queue q q' \<and> sq_inv q' \<and>
    16 * n \<le> 2 ^ sq_shift q \<and> posted_at mem q' a w \<and> untouched {b. b < sq_cnt q \<and> b \<noteq> a mod sq_cnt q} q q' \<and>
    encodes mem (sq_qc q) w (unat (sq_tail q + of_nat a)) n (sq_slots q' ! sq_pos q a)"
proof -
  obtain k where k: "k \<le> 16" "sq_cnt q = 2 ^ k" using assms(1) by (auto simp: sq_inv_def)
  have shape: "length (sq_slots q) = sq_cnt q" "length (sq_wrid q) = sq_cnt q" "\<forall>s\<in>set (sq_slots q). slot_ok (sq_shift q) s"
    "limits_ok (sq_qc q) (sq_shift q) (sq_max_gs q)"
    using assms(1) by (auto simp: sq_inv_def)
  let ?n = "sq_pos q a" and ?ind = "sq_tail q + of_nat a"
  have n: "?n < sq_cnt q" "sq_index q ?ind = ?n"
    using k(2) sq_pos_less [of q a] index_mod [OF k(2,1)] by simp_all
  have len: "length (sq_slots q ! ?n) = 2 ^ sq_shift q" using shape(1,3) n(1) by (simp add: slot_ok_def)
  obtain sz inl' s' where r: "post_send_one mem (sq_qc q) w (unat ?ind) inl (sq_slots q ! ?n) = Inr (0, sz, inl', s')"
    "length s' = 2 ^ sq_shift q" "encodes mem (sq_qc q) w (unat ?ind) sz s'"
    using conforming_wqe [OF shape(4) assms(2) len] by blast
  let ?q' = "q\<lparr>sq_slots := (sq_slots q)[?n := s'], sq_wrid := (sq_wrid q)[?n := sw_id w]\<rparr>"
  have w: "write_request mem w ?ind inl q = Inr (0, sz, inl', ?q')"
    using n shape(1,2) r(1) by (simp add: write_request_def Let_def)
  have s: "same_queue q ?q'" by (rule same_queueI)
  have "slot_ok (sq_shift q) s'" by (rule encodes_slot_ok [OF r(3,2)])
  then have inv: "sq_inv ?q'"
    using assms(1) unfolding sq_inv_def same_queueD [OF s] by (auto dest!: set_update_subset_insert [THEN subsetD])
  have at: "posted_at mem ?q' a w"
    unfolding posted_at_def same_queueD [OF s] using n(1) shape(1,2) r(3) by auto
  have "untouched {b. b < sq_cnt q \<and> b \<noteq> a mod sq_cnt q} q ?q'"
    unfolding untouched_def
  proof clarify
    fix b assume b: "b < sq_cnt q" "b \<noteq> a mod sq_cnt q"
    have "sq_pos q b \<noteq> sq_pos q (a mod sq_cnt q)" using b n(1) by (intro sq_pos_inj) auto
    then have "sq_pos q b \<noteq> ?n" by (simp add: sq_pos_def mod_add_right_eq)
    then show "sq_slots ?q' ! sq_pos q b = sq_slots q ! sq_pos q b \<and> sq_wrid ?q' ! sq_pos q b = sq_wrid q ! sq_pos q b"
      by simp
  qed
  moreover have "16 * sz \<le> 2 ^ sq_shift q" using r(2,3) by (auto simp: encodes_def)
  moreover have "sq_slots ?q' ! ?n = s'" using n(1) shape(1) by simp
  ultimately show ?thesis
    using w s inv at r(3) by (intro exI [of _ sz] exI [of _ inl'] exI [of _ ?q']) (simp only: simp_thms)
qed

lemma stamp_keeps:
  assumes "sq_inv q"
  shows "\<exists>q'. stamp_send_wqe (sq_pos q a) q = Inr q' \<and> same_queue q q' \<and> sq_inv q' \<and>
    untouched {b. b < sq_cnt q \<and> b \<noteq> a mod sq_cnt q} q q'"
proof -
  obtain s' where s': "stamp_send_wqe (sq_pos q a) q = Inr (q\<lparr>sq_slots := (sq_slots q)[sq_pos q a := s']\<rparr>)" "slot_ok (sq_shift q) s'"
    using stamp_send_wqe_ok [OF assms] by blast
  let ?q' = "q\<lparr>sq_slots := (sq_slots q)[sq_pos q a := s']\<rparr>"
  have s: "same_queue q ?q'" by (rule same_queue_slots)
  have inv: "sq_inv ?q'"
    using assms s'(2) unfolding sq_inv_def same_queueD [OF s] by (auto dest!: set_update_subset_insert [THEN subsetD])
  have "untouched {b. b < sq_cnt q \<and> b \<noteq> a mod sq_cnt q} q ?q'"
    unfolding untouched_def
  proof clarify
    fix b assume b: "b < sq_cnt q" "b \<noteq> a mod sq_cnt q"
    have "sq_pos q b \<noteq> sq_pos q (a mod sq_cnt q)" using b by (intro sq_pos_inj) auto
    then have "sq_pos q b \<noteq> sq_pos q a" by (simp add: sq_pos_def mod_add_right_eq)
    then show "sq_slots ?q' ! sq_pos q b = sq_slots q ! sq_pos q b \<and> sq_wrid ?q' ! sq_pos q b = sq_wrid q ! sq_pos q b"
      by simp
  qed
  then show ?thesis using s' s inv by blast
qed

lemma untouched_trans:
  "\<lbrakk>untouched A q q'; untouched B q' q''; same_queue q q'; C \<subseteq> A; C \<subseteq> B\<rbrakk> \<Longrightarrow> untouched C q q''"
  by (auto simp: untouched_def same_queueD subset_iff)

lemma posted_at_untouched:
  "\<lbrakk>posted_at mem q a w; untouched A q q'; a \<in> A; same_queue q q'\<rbrakk> \<Longrightarrow> posted_at mem q' a w"
  by (auto simp: posted_at_def untouched_def same_queueD)

lemma overflow_outstanding:
  assumes "sq_inv q" "outstanding q + n \<le> sq_max_post q"
  shows "wq_overflow (sq_head q) (sq_tail q) (sq_max_post q) n \<longleftrightarrow> outstanding q + n = sq_max_post q"
proof -
  obtain k where k: "k \<le> 16" "sq_cnt q = 2 ^ k" using assms(1) by (auto simp: sq_inv_def)
  have "sq_max_post q \<le> sq_cnt q" using assms(1) by (auto simp: sq_inv_def)
  also have "\<dots> \<le> 2 ^ 16" unfolding k(2) using k(1) by (intro power_increasing) simp_all
  finally have "outstanding q + n < 2 ^ 32" using assms(2) by simp
  then have "unat (sq_head q - sq_tail q + of_nat n) = outstanding q + n"
    by (simp add: outstanding_def unat_word_ariths unat_of_nat)
  then show ?thesis using assms(2) by (auto simp: wq_overflow_def)
qed

lemma post_requests_ok:
  assumes "sq_inv q" "\<not> sq_ignore_overflow q" "\<forall>w\<in>set ws. conforming mem (sq_qc q) (sq_max_gs q) w"
    and "outstanding q + pv_nreq v \<le> sq_max_post q" "te \<longrightarrow> length ws \<le> length (pv_waits v)"
    and "m = min (length ws) (sq_max_post q - (outstanding q + pv_nreq v))"
  shows "\<exists>v' q'. post_requests mem te ws v q = Inr (v', q') \<and> same_queue q q' \<and> sq_inv q' \<and> pv_nreq v' = pv_nreq v + m \<and>
    pv_ret v' = (if m < length ws then ENOMEM else pv_ret v) \<and> pv_bad v' = (if m < length ws then drop m ws else pv_bad v) \<and>
    pv_waits v' = (if te then drop (min (length ws) (m + 1)) (pv_waits v) else pv_waits v) \<and>
    (0 < m \<longrightarrow> pv_ctrl v' = Some (sq_pos q (outstanding q + pv_nreq v + m - 1)) \<and> 16 * pv_size v' \<le> 2 ^ sq_shift q) \<and>
    (m = 0 \<longrightarrow> pv_ctrl v' = pv_ctrl v \<and> pv_size v' = pv_size v) \<and>
    untouched {..<outstanding q + pv_nreq v} q q' \<and> (\<forall>j<m. posted_at mem q' (outstanding q + pv_nreq v + j) (ws ! j))"
  using assms
proof (induction ws arbitrary: v q m)
  case Nil
  then show ?case by (auto simp: untouched_def)
next
  case (Cons w ws)
  let ?p = "outstanding q + pv_nreq v"
  have waits: "\<not> (te \<and> pv_waits v = [])" using Cons.prems(5) by auto
  define v1 where "v1 = (if te then v\<lparr>pv_waits := tl (pv_waits v)\<rparr> else v)"
  have v1: "pv_ctrl v1 = pv_ctrl v" "pv_size v1 = pv_size v" "pv_nreq v1 = pv_nreq v" "pv_inl v1 = pv_inl v" "pv_ret v1 = pv_ret v" "pv_bad v1 = pv_bad v"
    "pv_waits v1 = (if te then tl (pv_waits v) else pv_waits v)"
    by (simp_all add: v1_def)
  have step: "post_requests mem te (w # ws) v q = (if wq_overflow (sq_head q) (sq_tail q) (sq_max_post q) (pv_nreq v)
      then Inr (v1\<lparr>pv_ret := ENOMEM, pv_bad := w # ws\<rparr>, q)
      else res_bind (write_request mem w (sq_head q + of_nat (pv_nreq v)) (pv_inl v) q) (\<lambda>(ret, sz, inl, q').
           if ret \<noteq> 0 then Inr (v1\<lparr>pv_ctrl := Some (sq_index q' (sq_head q + of_nat (pv_nreq v))), pv_inl := False, pv_ret := ret, pv_bad := w # ws\<rparr>, q')
           else res_bind (if ws \<noteq> [] then stamp_send_wqe (sq_index q' (sq_head q + of_nat (pv_nreq v) + of_nat (sq_spare q'))) q' else Inr q')
             (post_requests mem te ws
                (v1\<lparr>pv_ctrl := Some (sq_index q' (sq_head q + of_nat (pv_nreq v))), pv_size := sz, pv_inl := inl, pv_nreq := pv_nreq v + 1\<rparr>))))"
    using waits Cons.prems(2,3) by (simp add: v1_def Let_def conforming_def cong: if_cong)
  show ?case
  proof (cases "?p = sq_max_post q")
    case True
    then show ?thesis
      using Cons.prems step overflow_outstanding [of q "pv_nreq v"] v1 waits by (auto simp: untouched_def drop_Suc)
  next
    case False
    have lt: "?p < sq_max_post q" using False Cons.prems(4) by simp
    have max: "sq_max_post q + sq_spare q \<le> sq_cnt q" "0 < sq_spare q" using Cons.prems(1) by (auto simp: sq_inv_def)
    have ind: "sq_head q + of_nat (pv_nreq v) = sq_tail q + of_nat ?p" by (simp add: outstanding_def)
    obtain n inl' q1 where q1: "write_request mem w (sq_tail q + of_nat ?p) (pv_inl v) q = Inr (0, n, inl', q1)" "same_queue q q1" "sq_inv q1"
      "16 * n \<le> 2 ^ sq_shift q" "posted_at mem q1 ?p w" "untouched {b. b < sq_cnt q \<and> b \<noteq> ?p mod sq_cnt q} q q1"
      using write_request_ok [OF Cons.prems(1) Cons.prems(3) [rule_format, OF list.set_intros(1)], of ?p "pv_inl v"]
      by (elim exE conjE) (rule that, assumption+)
    have i1: "sq_index q1 (sq_tail q + of_nat ?p + of_nat (sq_spare q1)) = sq_pos q1 (?p + sq_spare q)"
      using sq_index_pos(1) [OF q1(3), of "?p + sq_spare q"] by (simp add: same_queueD [OF q1(2)] add.assoc)
    obtain q2 where q2: "(if ws \<noteq> [] then stamp_send_wqe (sq_pos q1 (?p + sq_spare q)) q1 else Inr q1) = Inr q2" "same_queue q1 q2" "sq_inv q2"
      "untouched {b. b < sq_cnt q1 \<and> b \<noteq> (?p + sq_spare q) mod sq_cnt q1} q1 q2"
      using stamp_keeps [OF q1(3), of "?p + sq_spare q"] q1(3) by (cases "ws = []") (auto simp: untouched_def)
    note s2 = same_queue_trans [OF q1(2) q2(2)]
    define v2 where "v2 = v1\<lparr>pv_ctrl := Some (sq_pos q ?p), pv_size := n, pv_inl := inl', pv_nreq := pv_nreq v + 1\<rparr>"
    have i: "sq_index q1 (sq_tail q + of_nat ?p) = sq_pos q ?p"
      using sq_index_pos(1) [OF Cons.prems(1), of ?p] by (simp add: same_queueD [OF q1(2)])
    have no: "\<not> wq_overflow (sq_head q) (sq_tail q) (sq_max_post q) (pv_nreq v)"
      using overflow_outstanding [OF Cons.prems(1,4)] False by simp
    have "post_requests mem te (w # ws) v q =
        res_bind (if ws \<noteq> [] then stamp_send_wqe (sq_pos q1 (?p + sq_spare q)) q1 else Inr q1) (post_requests mem te ws v2)"
      unfolding step ind using no q1(1) i i1 by (simp add: v2_def del: post_requests.simps of_nat_add)
    then have run: "post_requests mem te (w # ws) v q = post_requests mem te ws v2 q2"
      unfolding q2(1) by simp
    let ?m = "min (length ws) (sq_max_post q2 - (outstanding q2 + pv_nreq v2))"
    have m: "m = Suc ?m" using Cons.prems(6) lt by (auto simp: same_queueD [OF s2] v2_def min_def)
    have p2: "outstanding q2 + pv_nreq v2 = ?p + 1" by (simp add: same_queueD [OF s2] v2_def)
    have pre: "\<not> sq_ignore_overflow q2" "\<forall>w\<in>set ws. conforming mem (sq_qc q2) (sq_max_gs q2) w"
      "outstanding q2 + pv_nreq v2 \<le> sq_max_post q2" "te \<longrightarrow> length ws \<le> length (pv_waits v2)"
      using Cons.prems(2,3,5) lt p2 by (auto simp: same_queueD [OF s2] v2_def v1)
    obtain v' q' where r: "post_requests mem te ws v2 q2 = Inr (v', q')" "same_queue q2 q'" "sq_inv q'" "pv_nreq v' = pv_nreq v2 + ?m"
      "pv_ret v' = (if ?m < length ws then ENOMEM else pv_ret v2)" "pv_bad v' = (if ?m < length ws then drop ?m ws else pv_bad v2)"
      "pv_waits v' = (if te then drop (min (length ws) (?m + 1)) (pv_waits v2) else pv_waits v2)"
      "0 < ?m \<longrightarrow> pv_ctrl v' = Some (sq_pos q2 (outstanding q2 + pv_nreq v2 + ?m - 1)) \<and> 16 * pv_size v' \<le> 2 ^ sq_shift q2"
      "?m = 0 \<longrightarrow> pv_ctrl v' = pv_ctrl v2 \<and> pv_size v' = pv_size v2"
      "untouched {..<outstanding q2 + pv_nreq v2} q2 q'" "\<forall>j<?m. posted_at mem q' (outstanding q2 + pv_nreq v2 + j) (ws ! j)"
      using Cons.IH [OF q2(3) pre refl] by (elim exE conjE) (rule that, assumption+)
    note s' = same_queue_trans [OF s2 r(2)]
    have u1: "untouched {..<?p} q q1" using q1(6) max lt by (auto simp: untouched_def)
    have "(?p + sq_spare q) mod sq_cnt q = ?p + sq_spare q" using max lt by simp
    then have u2: "untouched {..<?p + 1} q1 q2" using q2(4) max lt by (auto simp: untouched_def same_queueD [OF q1(2)])
    have u3: "untouched {..<?p + 1} q2 q'" using r(10) p2 by simp
    have u: "untouched {..<?p} q q'"
      by (rule untouched_trans [OF untouched_trans [OF u1 u2 q1(2), of "{..<?p}"] u3 s2]) auto
    have "posted_at mem q' ?p w"
      by (rule posted_at_untouched [OF posted_at_untouched [OF q1(5) u2 _ q2(2)] u3 _ r(2)]) auto
    then have at: "posted_at mem q' (?p + j) ((w # ws) ! j)" if "j < m" for j
      using that r(11) p2 m by (cases j) (auto simp: add.assoc)
    have ctrl: "pv_ctrl v' = Some (sq_pos q (?p + m - 1)) \<and> 16 * pv_size v' \<le> 2 ^ sq_shift q"
    proof (cases "?m = 0")
      case True
      then show ?thesis using r(9) m q1(4) by (simp add: v2_def)
    next
      case False
      then show ?thesis using r(8) m p2 by (simp add: same_queueD [OF s2])
    qed
    show ?thesis
      using run r(1,3-7) s' u at ctrl m Cons.prems(5) waits
      by (intro exI [of _ v'] exI [of _ q']) (simp add: v2_def v1 drop_tl drop_Suc)
  qed
qed


section \<open>Ringing the doorbell\<close>

lemma length_convert: "8 \<le> length wqe \<Longrightarrow> length (convert_to_bf_wqe qpn i wqe) = length wqe"
  by (simp add: convert_to_bf_wqe_def)

lemma convert_slot_ok:
  assumes "slot_ok sh wqe" "6 \<le> sh"
  shows "slot_ok sh (convert_to_bf_wqe qpn i wqe)"
proof -
  have len: "8 \<le> length wqe" using assms power_increasing [OF assms(2), of "2 :: nat"] by (simp add: slot_ok_def)
  have "convert_to_bf_wqe qpn i wqe ! 7 = wqe ! 7 OR be32 (push_bit 8 qpn) ! 3"
    using len by (simp add: convert_to_bf_wqe_def nth_append)
  also have "be32 (push_bit 8 qpn) ! 3 = 0"
    by (simp add: be32_def) (rule bit_word_eqI, simp add: bit_ucast_iff bit_push_bit_iff)
  finally show ?thesis using assms(1) length_convert [OF len] by (simp add: slot_ok_def)
qed

text \<open>What a call tells the device about \<open>nreq\<close> new elements, the last of them at place \<open>a\<close>.\<close>

definition rung :: "send_queue \<Rightarrow> nat \<Rightarrow> nat \<Rightarrow> send_queue \<Rightarrow> bool" where
  "rung q a nreq q' \<longleftrightarrow> sq_head q' = sq_head q + of_nat nreq \<and> sq_tail q' = sq_tail q \<and> sq_qc q' = sq_qc q \<and> sq_shift q' = sq_shift q \<and>
     sq_spare q' = sq_spare q \<and> sq_max_gs q' = sq_max_gs q \<and> sq_max_post q' = sq_max_post q \<and> sq_wrid q' = sq_wrid q \<and> sq_qpn q' = sq_qpn q \<and>
     sq_ignore_overflow q' = sq_ignore_overflow q \<and>
     (sq_slots q' = sq_slots q \<and> sq_bells q' = sq_bells q @ (if nreq = 0 \<or> sq_managed q then [] else [Doorbell]) \<or>
      nreq = 1 \<and> sq_slots q' = (sq_slots q)[sq_pos q a := convert_to_bf_wqe (sq_qpn q) (sq_head q) (sq_slots q ! sq_pos q a)] \<and>
        (\<exists>k. sq_bells q' = sq_bells q @ (if sq_managed q then [] else [Blueflame (take k (sq_slots q' ! sq_pos q a))])))"

lemma align_fits:
  assumes "16 * sz \<le> 2 ^ sh" "6 \<le> sh"
  shows "align (sz * 16) 64 \<le> 2 ^ sh"
proof -
  obtain b where b: "2 ^ sh = 64 * (b :: nat)"
    using power_add [of "2 :: nat" 6 "sh - 6"] assms(2) that by simp
  have "(sz * 16 + 63) div 64 \<le> (64 * b + 63) div 64" using assms(1) b by (intro div_le_mono) simp
  also have "\<dots> = b" by simp
  finally show ?thesis unfolding align_def b by simp
qed

lemma ring_bell_ok:
  assumes "sq_inv q" "0 < nreq \<longrightarrow> ctrl = Some (sq_pos q a) \<and> 16 * sz \<le> 2 ^ sq_shift q" "\<not> sq_managed q"
  shows "\<exists>q'. ring_bell ctrl nreq sz inl use prefer q = Inr q' \<and> rung q a nreq q'"
proof (cases "by_blueflame q use prefer nreq sz inl")
  case True
  then have n: "nreq = 1" by (simp add: by_blueflame_def)
  have sh: "6 \<le> sq_shift q" and p: "sq_pos q a < length (sq_slots q)"
    using assms(1) by (auto simp: sq_inv_def limits_ok_def intro!: sq_pos_less)
  let ?w = "sq_slots q ! sq_pos q a" and ?c = "convert_to_bf_wqe (sq_qpn q) (sq_head q) (sq_slots q ! sq_pos q a)"
  have "slot_ok (sq_shift q) ?w" using assms(1) p by (simp add: sq_inv_def)
  then have "length ?c = 2 ^ sq_shift q" using convert_slot_ok [OF _ sh] by (auto simp: slot_ok_def)
  then have "mem_read ?c 0 (align (sz * 16) 64) = Inr (take (align (sz * 16) 64) ?c)"
    using align_fits [OF _ sh] assms(2) n by (simp add: mem_read_def)
  then show ?thesis using True n assms(2,3) p
    by (auto simp: ring_bell_def copy_wqe_to_bf_def convert_slot_def rung_def)
next
  case False
  then show ?thesis using assms(3) by (cases "nreq = 0") (auto simp: ring_bell_def rung_def)
qed

lemma ring_db_ok:
  assumes "sq_inv q" "0 < nreq \<longrightarrow> ctrl = Some (sq_pos q a) \<and> 16 * sz \<le> 2 ^ sq_shift q"
  shows "\<exists>q'. ring_db ctrl nreq sz inl q = Inr q' \<and> rung q a nreq q'"
proof (cases "sq_managed q")
  case True
  have p: "sq_pos q a < length (sq_slots q)" using assms(1) by (auto simp: sq_inv_def intro!: sq_pos_less)
  show ?thesis using True assms(2) p
    by (auto simp: ring_db_def ring_db_mng_def convert_slot_def rung_def by_blueflame_def)
next
  case False
  then show ?thesis using ring_bell_ok [OF assms False] by (cases "sq_db_method q") (simp_all add: ring_db_def)
qed


section \<open>Whole calls\<close>

lemma rung_outstanding:
  assumes "sq_inv q" "rung q a nreq q'" "outstanding q + nreq \<le> sq_max_post q"
  shows "outstanding q' = outstanding q + nreq" "sq_pos q' = sq_pos q"
proof -
  obtain k where k: "k \<le> 16" "sq_cnt q = 2 ^ k" using assms(1) by (auto simp: sq_inv_def)
  have "outstanding q + nreq \<le> 2 ^ k" using assms(1,3) k(2) by (auto simp: sq_inv_def)
  also have "\<dots> \<le> 2 ^ 16" using k(1) by (intro power_increasing) simp_all
  finally have lt: "outstanding q + nreq < 2 ^ 32" by simp
  have "unat (sq_head q + of_nat nreq - sq_tail q) = outstanding q + nreq"
    using outstanding_add lt by (simp add: outstanding_def)
  then show "outstanding q' = outstanding q + nreq" using assms(2) by (simp add: rung_def outstanding_def)
  show "sq_pos q' = sq_pos q" using assms(2) by (auto simp: rung_def sq_pos_def)
qed

lemma rung_inv:
  assumes "sq_inv q" "rung q a nreq q'" "outstanding q + nreq \<le> sq_max_post q"
  shows "sq_inv q'"
proof -
  have p: "sq_pos q a < length (sq_slots q)" using assms(1) by (auto simp: sq_inv_def intro!: sq_pos_less)
  have "\<forall>s\<in>set (sq_slots q'). slot_ok (sq_shift q) s"
  proof -
    have "slot_ok (sq_shift q) (convert_to_bf_wqe (sq_qpn q) (sq_head q) (sq_slots q ! sq_pos q a))"
      using assms(1) p by (intro convert_slot_ok) (auto simp: sq_inv_def limits_ok_def)
    moreover have "\<forall>s\<in>set (sq_slots q). slot_ok (sq_shift q) s" using assms(1) by (simp add: sq_inv_def)
    ultimately show ?thesis using assms(2) by (auto simp: rung_def dest!: set_update_subset_insert [THEN subsetD])
  qed
  moreover have "length (sq_slots q') = length (sq_slots q)" using assms(2) by (auto simp: rung_def)
  ultimately show ?thesis
    using assms rung_outstanding(1) [OF assms] by (auto simp: sq_inv_def rung_def)
qed

lemma rung_untouched:
  assumes "sq_inv q" "rung q a nreq q'" "a < sq_cnt q"
  shows "untouched {b. b < sq_cnt q \<and> b \<noteq> a} q q'"
  using assms sq_pos_inj [of a q] by (auto simp: rung_def untouched_def)

text \<open>As \<open>posted_at\<close>, but the first 8 bytes may carry the marks of a BlueFlame copy.\<close>

definition posted_as :: "(u64 \<Rightarrow> u8) \<Rightarrow> send_queue \<Rightarrow> nat \<Rightarrow> ibv_wr \<Rightarrow> bool" where
  "posted_as mem q a w \<longleftrightarrow> sq_wrid q ! sq_pos q a = sw_id w \<and>
     (\<exists>n wqe. encodes mem (sq_qc q) w (unat (sq_tail q + of_nat a)) n wqe \<and>
        sq_slots q ! sq_pos q a \<in> {wqe, convert_to_bf_wqe (sq_qpn q) (sq_tail q + of_nat a) wqe})"

lemma posted_as_rung:
  assumes "sq_inv q" "posted_at mem q b w" "rung q a nreq q'" "b < sq_cnt q" "a = outstanding q + nreq - 1"
  shows "posted_as mem q' b w"
proof (cases "sq_slots q' ! sq_pos q b = sq_slots q ! sq_pos q b")
  case True
  then show ?thesis using assms(2,3) by (auto simp: posted_at_def posted_as_def rung_def sq_pos_def)
next
  case False
  then have r: "nreq = 1" "sq_slots q' = (sq_slots q)[sq_pos q a := convert_to_bf_wqe (sq_qpn q) (sq_head q) (sq_slots q ! sq_pos q a)]"
    using assms(3) by (auto simp: rung_def)
  have eq: "sq_pos q a = sq_pos q b" using False unfolding r(2) by (metis nth_list_update_neq)
  have a: "a = outstanding q" using r(1) assms(5) by simp
  have "a < sq_cnt q" using assms(1) a by (auto simp: sq_inv_def)
  then have "b = a" using eq sq_pos_inj [of a q b] assms(4) by auto
  moreover have "sq_tail q + of_nat a = sq_head q" by (simp add: a outstanding_def)
  moreover have "sq_pos q a < length (sq_slots q)" using assms(1) by (auto simp: sq_inv_def intro!: sq_pos_less)
  ultimately show ?thesis using assms(2,3) r(2) by (auto simp: posted_at_def posted_as_def rung_def sq_pos_def)
qed

lemma posted_as_untouched:
  "\<lbrakk>posted_as mem q a w; untouched A q q'; a \<in> A; same_queue q q'\<rbrakk> \<Longrightarrow> posted_as mem q' a w"
  by (auto simp: posted_as_def untouched_def same_queueD)

definition same_limits :: "send_queue \<Rightarrow> send_queue \<Rightarrow> bool" where
  "same_limits q q' \<longleftrightarrow> sq_max_post q' = sq_max_post q \<and> sq_max_gs q' = sq_max_gs q \<and> sq_ignore_overflow q' = sq_ignore_overflow q"

lemma post_send_driver_limits:
  assumes "sq_inv q" "\<not> sq_ignore_overflow q" "\<forall>w\<in>set ws. conforming mem (sq_qc q) (sq_max_gs q) w"
    and "isSmall = 0 \<and> flow \<longrightarrow> length ws \<le> length waits" "isSmall = 2 \<and> flow \<longrightarrow> (\<exists>r. fetch_batches debit waits = Inr r)"
    and "m = min (length ws) (sq_max_post q - outstanding q)"
  shows "\<exists>r. post_send_driver mem isSmall flow debit waits ws q = Inr r \<and> pr_ret r = (if m < length ws then ENOMEM else 0) \<and>
    pr_bad r = drop m ws \<and> sq_inv (pr_queue r) \<and> sq_tail (pr_queue r) = sq_tail q \<and> outstanding (pr_queue r) = outstanding q + m \<and>
    untouched {..<outstanding q} q (pr_queue r) \<and> (\<forall>j<m. posted_as mem (pr_queue r) (outstanding q + j) (ws ! j)) \<and>
    same_limits q (pr_queue r)"
proof -
  let ?te = "isSmall = 0 \<and> flow" and ?p = "outstanding q"
  let ?v = "\<lparr>pv_nreq = 0, pv_size = 0, pv_inl = False, pv_ctrl = None, pv_ret = 0, pv_bad = [], pv_waits = waits\<rparr>"
  have max: "sq_max_post q + sq_spare q \<le> sq_cnt q" "0 < sq_spare q" "?p \<le> sq_max_post q" using assms(1) by (auto simp: sq_inv_def)
  have room: "?p + m \<le> sq_max_post q" using assms(6) max(3) by simp
  have "\<exists>v q1. post_requests mem ?te ws ?v q = Inr (v, q1) \<and> same_queue q q1 \<and> sq_inv q1 \<and> pv_nreq v = 0 + m \<and>
    pv_ret v = (if m < length ws then ENOMEM else 0) \<and> pv_bad v = (if m < length ws then drop m ws else []) \<and>
    pv_waits v = (if ?te then drop (min (length ws) (m + 1)) waits else waits) \<and>
    (0 < m \<longrightarrow> pv_ctrl v = Some (sq_pos q (?p + 0 + m - 1)) \<and> 16 * pv_size v \<le> 2 ^ sq_shift q) \<and>
    (m = 0 \<longrightarrow> pv_ctrl v = pv_ctrl ?v \<and> pv_size v = pv_size ?v) \<and>
    untouched {..<?p + 0} q q1 \<and> (\<forall>j<m. posted_at mem q1 (?p + 0 + j) (ws ! j))"
    using post_requests_ok [OF assms(1-3), of ?v ?te m] assms(4,6) max(3) by (simp only: post_vars.select_convs add_0_right)
  then obtain v q1 where v: "post_requests mem ?te ws ?v q = Inr (v, q1)" "same_queue q q1" "sq_inv q1" "pv_nreq v = m"
    "pv_ret v = (if m < length ws then ENOMEM else 0)" "pv_bad v = (if m < length ws then drop m ws else [])"
    "pv_waits v = (if ?te then drop (min (length ws) (m + 1)) waits else waits)"
    "0 < m \<longrightarrow> pv_ctrl v = Some (sq_pos q (?p + m - 1)) \<and> 16 * pv_size v \<le> 2 ^ sq_shift q"
    "untouched {..<?p} q q1" "\<forall>j<m. posted_at mem q1 (?p + j) (ws ! j)"
    unfolding add_0_right add_0_left by (elim exE conjE) (rule that, assumption+)
  have bad: "pv_bad v = drop m ws" using v(6) by simp
  note q1 = same_queueD [OF v(2)]
  have "\<exists>d wts. (if pv_ret v = 0 \<and> isSmall = 2 \<and> flow
         then res_bind (fetch_batches debit (pv_waits v)) (\<lambda>(d, ws). Inr (d - int (pv_nreq v), ws))
         else Inr (debit, pv_waits v)) = Inr (d, wts)"
  proof (cases "pv_ret v = 0 \<and> isSmall = 2 \<and> flow")
    case True
    then show ?thesis using assms(5) v(7) by (auto simp: case_prod_unfold)
  qed auto
  then obtain d wts where db: "(if pv_ret v = 0 \<and> isSmall = 2 \<and> flow
         then res_bind (fetch_batches debit (pv_waits v)) (\<lambda>(d, ws). Inr (d - int (pv_nreq v), ws))
         else Inr (debit, pv_waits v)) = Inr (d, wts)" by blast
  obtain q2 where q2: "ring_db (pv_ctrl v) m (pv_size v) (pv_inl v) q1 = Inr q2" "rung q1 (?p + m - 1) m q2"
    using ring_db_ok [OF v(3), of m "pv_ctrl v" "?p + m - 1" "pv_size v" "pv_inl v"] v(8) q1 by auto
  have room1: "outstanding q1 + m \<le> sq_max_post q1" using room q1 by simp
  note inv2 = rung_inv [OF v(3) q2(2) room1] and out2 = rung_outstanding [OF v(3) q2(2) room1]
  have t2: "sq_tail q2 = sq_tail q" "sq_spare q2 = sq_spare q" "sq_cnt q2 = sq_cnt q" using q2(2) q1 by (simp_all add: rung_def)
  have "\<exists>q3. (if m \<noteq> 0 then stamp_send_wqe (sq_index q2 (sq_head q + of_nat m + of_nat (sq_spare q2) - 1)) q2 else Inr q2) = Inr q3 \<and>
      same_queue q2 q3 \<and> sq_inv q3 \<and> untouched {..<?p + m} q2 q3"
  proof (cases "m = 0")
    case True
    then show ?thesis using inv2 by (auto simp: untouched_def)
  next
    case False
    have "sq_head q + of_nat m + of_nat (sq_spare q2) - 1 = sq_tail q2 + of_nat (?p + m + sq_spare q - 1)"
      using False max(2) by (simp add: t2 outstanding_def of_nat_diff)
    then have "sq_index q2 (sq_head q + of_nat m + of_nat (sq_spare q2) - 1) = sq_pos q2 (?p + m + sq_spare q - 1)"
      using sq_index_pos(1) [OF inv2, of "?p + m + sq_spare q - 1"] by (simp only:)
    moreover have "(?p + m + sq_spare q - 1) mod sq_cnt q2 = ?p + m + sq_spare q - 1"
      using room max False by (simp add: t2)
    moreover obtain q3 where "stamp_send_wqe (sq_pos q2 (?p + m + sq_spare q - 1)) q2 = Inr q3" "same_queue q2 q3" "sq_inv q3"
      "untouched {b. b < sq_cnt q2 \<and> b \<noteq> (?p + m + sq_spare q - 1) mod sq_cnt q2} q2 q3"
      using stamp_keeps [OF inv2] by blast
    ultimately show ?thesis using room max False
      by (intro exI [of _ q3]) (auto simp: untouched_def t2)
  qed
  then obtain q3 where q3: "(if m \<noteq> 0 then stamp_send_wqe (sq_index q2 (sq_head q + of_nat m + of_nat (sq_spare q2) - 1)) q2 else Inr q2) = Inr q3"
    "same_queue q2 q3" "sq_inv q3" "untouched {..<?p + m} q2 q3" by blast
  let ?r = "\<lparr>pr_ret = pv_ret v, pr_bad = pv_bad v, pr_debit = d, pr_waits = wts, pr_queue = q3\<rparr>"
  have run: "post_send_driver mem isSmall flow debit waits ws q = Inr ?r"
    by (simp only: post_send_driver_def v(1) res_bind_simps prod.case db q2(1) [folded v(4)] q3(1) [folded v(4)])
  have u2: "untouched {..<?p} q1 q2"
  proof (cases "m = 0")
    case True
    then show ?thesis using q2(2) by (auto simp: rung_def untouched_def)
  next
    case False
    have "?p + m - 1 < sq_cnt q1" using room max False q1 by simp
    from rung_untouched [OF v(3) q2(2) this] show ?thesis using False max room q1 by (auto simp: untouched_def)
  qed
  have "untouched {..<?p} q q3"
    using v(9) u2 q3(4) out2(2) q1 by (auto simp: untouched_def)
  moreover have "posted_as mem q3 (?p + j) (ws ! j)" if "j < m" for j
  proof -
    have "posted_as mem q2 (?p + j) (ws ! j)"
      using posted_as_rung [OF v(3) _ q2(2)] v(10) that room max q1 by auto
    then show ?thesis using posted_as_untouched [OF _ q3(4) _ q3(2)] that by simp
  qed
  moreover have "same_limits q q3"
    using q2(2) q1 same_queueD [OF q3(2)] by (simp add: same_limits_def rung_def)
  ultimately show ?thesis
    using run v(5) bad q3(2,3) out2(1) t2(1) q1 by (intro exI [of _ ?r]) (simp add: same_queueD)
qed

lemma post_send_driver_ok:
  assumes "sq_inv q" "\<not> sq_ignore_overflow q" "\<forall>w\<in>set ws. conforming mem (sq_qc q) (sq_max_gs q) w"
    and "isSmall = 0 \<and> flow \<longrightarrow> length ws \<le> length waits" "isSmall = 2 \<and> flow \<longrightarrow> (\<exists>r. fetch_batches debit waits = Inr r)"
    and "m = min (length ws) (sq_max_post q - outstanding q)"
  shows "\<exists>r. post_send_driver mem isSmall flow debit waits ws q = Inr r \<and> pr_ret r = (if m < length ws then ENOMEM else 0) \<and>
    pr_bad r = drop m ws \<and> sq_inv (pr_queue r) \<and> sq_tail (pr_queue r) = sq_tail q \<and> outstanding (pr_queue r) = outstanding q + m \<and>
    untouched {..<outstanding q} q (pr_queue r) \<and> (\<forall>j<m. posted_as mem (pr_queue r) (outstanding q + j) (ws ! j))"
  using post_send_driver_limits [OF assms] by blast


section \<open>Properties\<close>

text \<open>
  C20: Posting a list of requests within the limits of the queue pair: as many as there is room for are accepted, in
  order, and the call returns \<open>ENOMEM\<close> with \<open>*bad_wr\<close> at the first that is not; each accepted request is encoded in its
  slot with its identifier beside it; no slot and no identifier of an earlier request that is not completed is
  changed, although stamping writes ahead of the queue's head; and the queue stays well-formed.
\<close>

theorem post_send_queue:
  assumes "sq_inv q" "\<not> sq_ignore_overflow q" "\<forall>w\<in>set ws. conforming mem (sq_qc q) (sq_max_gs q) w"
    and "isSmall = 0 \<and> flow \<longrightarrow> length ws \<le> length waits" "isSmall = 2 \<and> flow \<longrightarrow> (\<exists>r. fetch_batches debit waits = Inr r)"
  shows "\<exists>r. let m = min (length ws) (sq_max_post q - outstanding q) in
    post_send_driver mem isSmall flow debit waits ws q = Inr r \<and> pr_ret r = (if m < length ws then ENOMEM else 0) \<and>
    pr_bad r = drop m ws \<and> sq_inv (pr_queue r) \<and> sq_tail (pr_queue r) = sq_tail q \<and> outstanding (pr_queue r) = outstanding q + m \<and>
    untouched {..<outstanding q} q (pr_queue r) \<and> (\<forall>j<m. posted_as mem (pr_queue r) (outstanding q + j) (ws ! j))"
  using post_send_driver_ok [OF assms refl] unfolding Let_def .

definition ex_sq :: send_queue where
  "ex_sq = \<lparr>sq_slots = replicate 4 (replicate 64 0), sq_wrid = replicate 4 0, sq_qc = (ex_qc 28)\<lparr>sc_wqe_cnt := 4\<rparr>, sq_shift = 6, sq_max_post = 2,
     sq_max_gs = 2, sq_spare = 2, sq_head = 0xffffffff, sq_tail = 0xffffffff, sq_ignore_overflow = False, sq_managed = False,
     sq_db_method = DEDIC_BF_1_THREAD_WC_EVICT_PB, sq_prefer_bf = True, sq_bf_buf_size = 256, sq_qpn = 0x123, sq_bells = []\<rparr>"

lemma ex_sq_inv: "sq_inv ex_sq"
proof -
  have "limits_ok (sq_qc ex_sq) (sq_shift ex_sq) (sq_max_gs ex_sq)"
    by (simp add: ex_sq_def limits_ok_def ex_qc_def granted_inline_def data_start_def MLX4_MAX_WQE_SIZE_def MLX4_INLINE_ALIGN_def align_def)
  moreover have "\<exists>k\<le>16. sq_cnt ex_sq = 2 ^ k" by (intro exI [of _ 2]) (simp add: ex_sq_def)
  ultimately show ?thesis
    unfolding sq_inv_def by (simp add: ex_sq_def slot_ok_def outstanding_def nth_replicate)
qed

lemma post_send_queue_witness:
  "let ws = [ex_wr WR_SEND 0 [ex_sge 4], ex_wr WR_RDMA_WRITE IBV_SEND_INLINE [ex_sge 20], ex_wr WR_RDMA_READ 0 []] in
   \<exists>r. let m = min (length ws) (sq_max_post ex_sq - outstanding ex_sq) in
    post_send_driver (\<lambda>a. 7) 0 True 0 [1, 1, 1] ws ex_sq = Inr r \<and> pr_ret r = (if m < length ws then ENOMEM else 0) \<and>
    pr_bad r = drop m ws \<and> sq_inv (pr_queue r) \<and> sq_tail (pr_queue r) = sq_tail ex_sq \<and> outstanding (pr_queue r) = outstanding ex_sq + m \<and>
    untouched {..<outstanding ex_sq} ex_sq (pr_queue r) \<and> (\<forall>j<m. posted_as (\<lambda>a. 7) (pr_queue r) (outstanding ex_sq + j) (ws ! j))"
  unfolding Let_def [where s = "[ex_wr WR_SEND 0 [ex_sge 4], ex_wr WR_RDMA_WRITE IBV_SEND_INLINE [ex_sge 20], ex_wr WR_RDMA_READ 0 []]"]
  by (rule post_send_queue [OF ex_sq_inv])
     (simp_all add: ex_sq_def conforming_def ex_wr_def ex_sge_def ordinary_ops_def IBV_SEND_INLINE_def ex_qc_def)


text \<open>The smallest power of two that is large enough.\<close>

lemma init_wqe_ok:
  assumes "length s = 2 ^ sh" "6 \<le> sh"
  shows "\<exists>s'. init_wqe sh s = Inr s' \<and> slot_ok sh s' \<and> take 4 s' = be32 WQE_CTRL_OWN"
proof -
  have len: "64 \<le> length s" using assms power_increasing [OF assms(2), of "2 :: nat"] by simp
  let ?w = "(be32 WQE_CTRL_OWN @ drop 4 s)[7 := push_bit (sh - 4) 1]"
  have l: "length ?w = 2 ^ sh" using len assms(1) by simp
  have "16 * unat (push_bit (sh - 4) (1 :: u8) AND 0x3f) \<le> 2 ^ sh"
  proof (cases "sh < 10")
    case True
    then have "sh \<in> {6, 7, 8, 9}" using assms(2) by auto
    then show ?thesis by auto
  next
    case False
    have "(0x3f :: u8) = mask 6" by (simp add: mask_eq_exp_minus_1)
    then have "push_bit (sh - 4) (1 :: u8) AND 0x3f = take_bit 6 (push_bit (sh - 4) 1)" by (simp only: take_bit_eq_mask)
    also have "\<dots> = push_bit (sh - 4) (take_bit (6 - (sh - 4)) 1)" by (rule take_bit_push_bit)
    also have "\<dots> = 0" using False by simp
    finally have "push_bit (sh - 4) (1 :: u8) AND 0x3f = 0" .
    then show ?thesis by simp
  qed
  then have ok: "slot_ok sh ?w" using l len by (simp add: slot_ok_def)
  obtain s' where s': "stamp_wqe ?w = Inr s'" "slot_ok sh s'" "take 64 s' = take 64 ?w"
    using stamp_wqe_ok [OF ok assms(2)] by blast
  have "take 4 s' = take 4 (take 64 s')" by simp
  also have "\<dots> = be32 WQE_CTRL_OWN" unfolding s'(3) by (simp add: take_update_swap list_update_beyond)
  finally show ?thesis using len s'(1,2) by (simp add: init_wqe_def mem_write_def)
qed

lemma init_slots_ok:
  assumes "\<forall>s\<in>set ss. length s = 2 ^ sh" "6 \<le> sh"
  shows "\<exists>ss'. init_slots sh ss = Inr ss' \<and> length ss' = length ss \<and> (\<forall>s\<in>set ss'. slot_ok sh s \<and> take 4 s = be32 WQE_CTRL_OWN)"
  using assms(1)
proof (induction ss)
  case (Cons s ss)
  then show ?case using init_wqe_ok [of s sh] assms(2) by force
qed simp

lemma fresh_queue_ok:
  assumes "kind = QPT_RC \<or> kind = QPT_UC" "4 \<le> length (sc_srcrb_flags (sq_qc q0))"
    and "cap_max_send_wr cap \<le> max_qp_wr" "cap_max_send_wr cap + spare_wqes (mlx4_calc_sq_wqe_size cap kind masked) \<le> 32768"
    and "65536 \<le> length ids"
    and "q = mlx4_init_qp_indices (create_sq max_qp_wr max_sge cap kind masked ids q0)"
  shows "sq_inv q" "outstanding q = 0" "cap_max_send_wr cap \<le> sq_max_post q" "sq_ignore_overflow q = sq_ignore_overflow q0"
proof -
  let ?sh = "mlx4_calc_sq_wqe_size cap kind masked"
  let ?sp = "spare_wqes ?sh"
  let ?cnt = "align_queue_size (cap_max_send_wr cap + ?sp)"
  obtain max_gs max_post cap' where sizes: "mlx4_set_sq_sizes max_qp_wr max_sge ?sh ?cnt ?sp kind cap = (max_gs, max_post, cap')"
    by (metis prod_cases3)
  have kind: "kind \<in> {QPT_RC, QPT_UC, QPT_UD}" using assms(1) by auto
  note limits = set_sq_sizes_inline [OF sizes kind]
  have sp: "0 < ?sp" by (simp add: spare_wqes_def)
  obtain k where k: "?cnt = 2 ^ k" using align_queue_size_ok(2) by blast
  have cnt: "cap_max_send_wr cap + ?sp \<le> ?cnt" "?cnt < 2 ^ 17"
    using align_queue_size_ok(1,3) [of "cap_max_send_wr cap + ?sp"] assms(4) by auto
  then have k16: "k \<le> 16" using k power_strict_increasing_iff [of "2 :: nat" k 17] by simp
  then have cnt16: "?cnt \<le> 65536" using k power_increasing [OF k16, of "2 :: nat"] by simp
  have q: "sq_slots q = replicate ?cnt (replicate (2 ^ ?sh) 0)" "sq_wrid q = take ?cnt ids" "sq_shift q = ?sh" "sq_spare q = ?sp"
    "sq_max_gs q = max_gs" "sq_max_post q = max_post" "sq_head q = 0" "sq_tail q = 0" "sq_ignore_overflow q = sq_ignore_overflow q0"
    "sq_qc q = (sq_qc q0)\<lparr>sc_kind := kind, sc_wqe_cnt := ?cnt, sc_max_inline_data := cap_max_inline_data cap'\<rparr>"
    by (simp_all add: assms(6) create_sq_def mlx4_init_qp_indices_def sizes Let_def)
  have "limits_ok (sq_qc q) (sq_shift q) (sq_max_gs q)"
    using assms(1,2) calc_shift limits by (auto simp: limits_ok_def q)
  moreover have "slot_ok ?sh (replicate (2 ^ ?sh) 0)"
    using power_increasing [OF calc_shift, of "2 :: nat" cap kind masked] by (simp add: slot_ok_def)
  moreover have mp: "max_post + ?sp \<le> ?cnt" "cap_max_send_wr cap \<le> max_post" using limits(3) cnt(1) assms(3) by auto
  moreover show out: "outstanding q = 0" by (simp add: outstanding_def q)
  ultimately show "sq_inv q" unfolding sq_inv_def out using k k16 sp cnt16 assms(5) by (auto simp: q)
  show "cap_max_send_wr cap \<le> sq_max_post q" "sq_ignore_overflow q = sq_ignore_overflow q0" using mp(2) q by simp_all
qed

text \<open>
  C37: A new queue pair whose limits the driver has computed, once it has left the reset state, has a well-formed empty
  send queue, in which every slot is marked as not owned by the device and which has room for at least the number
  of requests asked for.
\<close>

theorem new_queue_ok:
  assumes "kind = QPT_RC \<or> kind = QPT_UC" "4 \<le> length (sc_srcrb_flags (sq_qc q0))"
    and "cap_max_send_wr cap \<le> max_qp_wr" "cap_max_send_wr cap + spare_wqes (mlx4_calc_sq_wqe_size cap kind masked) \<le> 32768"
    and "65536 \<le> length ids"
  shows "\<exists>q. mlx4_qp_init_sq_ownership (mlx4_init_qp_indices (create_sq max_qp_wr max_sge cap kind masked ids q0)) = Inr q \<and>
    sq_inv q \<and> outstanding q = 0 \<and> cap_max_send_wr cap \<le> sq_max_post q \<and> (\<forall>s\<in>set (sq_slots q). take 4 s = be32 WQE_CTRL_OWN)"
proof -
  let ?q = "mlx4_init_qp_indices (create_sq max_qp_wr max_sge cap kind masked ids q0)"
  note q = fresh_queue_ok [OF assms refl]
  have "length (sq_slots ?q) = sq_cnt ?q" "\<forall>s\<in>set (sq_slots ?q). slot_ok (sq_shift ?q) s" "6 \<le> sq_shift ?q"
    using q(1) by (auto simp: sq_inv_def limits_ok_def)
  moreover obtain ss where ss: "init_slots (sq_shift ?q) (sq_slots ?q) = Inr ss" "length ss = length (sq_slots ?q)"
      "\<forall>s\<in>set ss. slot_ok (sq_shift ?q) s \<and> take 4 s = be32 WQE_CTRL_OWN"
    using init_slots_ok [of "sq_slots ?q" "sq_shift ?q"] calculation(2,3) by (auto simp: slot_ok_def)
  ultimately have "mlx4_qp_init_sq_ownership ?q = Inr (?q\<lparr>sq_slots := ss\<rparr>)" by (simp add: mlx4_qp_init_sq_ownership_def)
  moreover have "sq_inv (?q\<lparr>sq_slots := ss\<rparr>) \<and> outstanding (?q\<lparr>sq_slots := ss\<rparr>) = 0"
    using q(1,2) ss(2,3) by (simp add: sq_inv_def outstanding_def)
  ultimately show ?thesis using q(3) ss(3) by (intro exI [of _ "?q\<lparr>sq_slots := ss\<rparr>"]) simp
qed


lemma new_queue_ok_witness:
  "\<exists>q. mlx4_qp_init_sq_ownership (mlx4_init_qp_indices (create_sq 100 32 ex_cap QPT_RC False (replicate 65536 0) ex_sq)) = Inr q \<and>
    sq_inv q \<and> outstanding q = 0 \<and> cap_max_send_wr ex_cap \<le> sq_max_post q \<and> (\<forall>s\<in>set (sq_slots q). take 4 s = be32 WQE_CTRL_OWN)"
proof (rule new_queue_ok)
  have "spare_wqes (mlx4_calc_sq_wqe_size ex_cap QPT_RC False) \<le> 2049"
    by (simp add: spare_wqes_def)
  then show "cap_max_send_wr ex_cap + spare_wqes (mlx4_calc_sq_wqe_size ex_cap QPT_RC False) \<le> 32768"
    by (simp add: ex_cap_def)
qed (simp_all add: ex_cap_def ex_sq_def ex_qc_def)

text \<open>Which blocks of an element stamping reaches.\<close>

lemma stamp_blocks_take:
  assumes "stamp_blocks bs wqe = Inr wqe'" "b \<in> set bs" 
  shows "take 4 (drop (64 * b) wqe') = replicate 4 0xff"
  using assms
proof (induction bs arbitrary: wqe)
  case (Cons c cs)
  show ?case
  proof (cases "b \<in> set cs")
    case True
    then show ?thesis using Cons.IH Cons.prems(1) by (auto simp: res_bind_eq_Inr)
  next
    case False
    then have b: "c = b" using Cons.prems(2) by simp
    let ?w = "take (64 * b) wqe @ replicate 4 0xff @ drop (64 * b + 4) wqe"
    have le: "64 * b + 4 \<le> length wqe" and st: "stamp_blocks cs ?w = Inr wqe'"
      using Cons.prems(1) b by (auto simp: mem_write_def split: if_splits)
    have "take 4 (drop (64 * b) wqe') = take 4 (drop (64 * b) ?w)"
      using stamp_blocks_other [OF st, of b] False by simp
    then show ?thesis using le by simp
  qed
qed simp


text \<open>
  The initial stamp: in an element of at most 512 bytes every 64-byte block behind the first is marked invalid. In one
  of 1024 bytes the size does not fit the six bits stamping looks at, and no block is marked.
\<close>

theorem fresh_blocks_invalid:
  assumes "length s = 2 ^ sh" "6 \<le> sh" "init_wqe sh s = Inr s'"
  shows "(sh \<le> 9 \<longrightarrow> (\<forall>b. 0 < b \<and> 64 * b < 2 ^ sh \<longrightarrow> take 4 (drop (64 * b) s') = replicate 4 0xff)) \<and>
    (sh = 10 \<longrightarrow> drop 8 s' = drop 8 s)"
proof -
  have len: "64 \<le> length s" using assms(1) power_increasing [OF assms(2), of "2 :: nat"] by simp
  let ?w = "(be32 WQE_CTRL_OWN @ drop 4 s)[7 := push_bit (sh - 4) 1]"
  have st: "stamp_wqe ?w = Inr s'" using assms(3) len by (simp add: init_wqe_def mem_write_def)
  have w7: "?w ! 7 = push_bit (sh - 4) 1" using len by simp
  have l: "7 < length ?w" using len by simp
  have stamp: "stamp_blocks [1..<(push_bit 2 (unat (push_bit (sh - 4) 1 AND 0x3f :: u8)) + 15) div 16] ?w = Inr s'"
    using st unfolding stamp_wqe_def arr_get_in [OF l] res_bind_simps Let_def w7 .
  have "take 4 (drop (64 * b) s') = replicate 4 0xff" if "sh \<le> 9" "0 < b" "64 * b < 2 ^ sh" for b
  proof -
    have "sh \<in> {6, 7, 8, 9}" using that(1) assms(2) by auto
    then have "b \<in> set [1..<(push_bit 2 (unat (push_bit (sh - 4) 1 AND 0x3f :: u8)) + 15) div 16]"
      using that(2,3) by (auto simp: push_bit_eq_mult)
    then show ?thesis by (rule stamp_blocks_take [OF stamp])
  qed
  moreover have "drop 8 s' = drop 8 s" if "sh = 10"
    using stamp that len by (auto simp: push_bit_eq_mult drop_update_cancel)
  ultimately show ?thesis by blast
qed

lemma fresh_blocks_invalid_witness:
  "let s = replicate 128 (0 :: u8) in case init_wqe 7 s of Inl e \<Rightarrow> False
     | Inr s' \<Rightarrow> (7 \<le> (9 :: nat) \<longrightarrow> (\<forall>b. 0 < b \<and> 64 * b < 2 ^ 7 \<longrightarrow> take 4 (drop (64 * b) s') = replicate 4 0xff)) \<and>
         (7 = (10 :: nat) \<longrightarrow> drop 8 s' = drop 8 s)"
proof -
  obtain s' where "init_wqe 7 (replicate 128 0) = Inr s'" using init_wqe_ok [of "replicate 128 0" 7] by auto
  then show ?thesis using fresh_blocks_invalid [of "replicate 128 0" 7 s'] by simp
qed

lemma fetch_batches_ok:
  assumes "fetch_batches debit ws = Inr (d, ws')" "\<forall>b\<in>set ws. uint b < 2 ^ 20" "- (2 ^ 30) \<le> debit" "debit < 2 ^ 30"
  shows "\<exists>used. ws = used @ ws' \<and> d = debit + sum_list (map uint used) \<and> 0 < d \<and>
    (\<forall>k<length used. debit + sum_list (map uint (take k used)) \<le> 0)"
  using assms
proof (induction debit ws rule: fetch_batches.induct)
  case (1 debit ws)
  show ?case
  proof (cases "0 < debit")
    case True
    then show ?thesis using 1(2) by (simp add: fetch_batches.simps [of debit ws])
  next
    case False
    have "(case ws of [] \<Rightarrow> Inl Diverges | b # bs \<Rightarrow> fetch_batches (signed_take_bit 31 (debit + uint b)) bs) = Inr (d, ws')"
      using 1(2) False by (subst (asm) fetch_batches.simps) simp
    then obtain b bs where ws: "ws = b # bs" and f: "fetch_batches (signed_take_bit 31 (debit + uint b)) bs = Inr (d, ws')"
      by (cases ws) simp_all
    have b: "0 \<le> uint b" "uint b < 2 ^ 20" using 1(3) ws by simp_all
    have n: "(2 :: int) ^ 20 = 1048576" "(2 :: int) ^ 30 = 1073741824" "(2 :: int) ^ 31 = 2147483648" by simp_all
    have "- (2 ^ 31) \<le> debit + uint b" using b 1(4) n by linarith
    moreover have "debit + uint b < 2 ^ 31" using b False n by linarith
    ultimately have s: "signed_take_bit 31 (debit + uint b) = debit + uint b" by (rule signed_take_bit_int_eq_self)
    have lo: "- (2 ^ 30) \<le> debit + uint b" and hi: "debit + uint b < 2 ^ 30" using b 1(4) False n by linarith+
    obtain used where u: "bs = used @ ws'" "d = debit + uint b + sum_list (map uint used)" "0 < d"
      "\<forall>k<length used. debit + uint b + sum_list (map uint (take k used)) \<le> 0"
      using "1.IH" [OF False ws, unfolded s, OF f [unfolded s] _ lo hi] 1(3) ws by auto
    have "debit + sum_list (map uint (take k (b # used))) \<le> 0" if "k < length (b # used)" for k
      using that False u(4) by (cases k) (auto simp: add.assoc)
    then show ?thesis using u(1-3) ws by (intro exI [of _ "b # used"]) simp
  qed
qed

text \<open>
  C21: A flow that is charged per batch: a call that posts everything has fetched exactly as many tokens as bring the
  balance above zero, no earlier token did, and the balance falls by the number of requests. A call that fails half
  way is not charged at all, although requests of it were posted.
\<close>

theorem batches_paid:
  assumes "sq_inv q" "\<not> sq_ignore_overflow q" "\<forall>w\<in>set ws. conforming mem (sq_qc q) (sq_max_gs q) w"
    and "\<forall>b\<in>set waits. uint b < 2 ^ 20" "- (2 ^ 30) \<le> debit" "debit < 2 ^ 30"
    and "post_send_driver mem 2 True debit waits ws q = Inr r"
  shows "(pr_ret r = 0 \<longrightarrow> (\<exists>used. waits = used @ pr_waits r \<and> pr_debit r = debit + sum_list (map uint used) - int (length ws) \<and>
        - int (length ws) < pr_debit r \<and> (\<forall>k<length used. debit + sum_list (map uint (take k used)) \<le> 0))) \<and>
    (pr_ret r \<noteq> 0 \<longrightarrow> pr_debit r = debit \<and> pr_waits r = waits)"
proof -
  let ?v = "\<lparr>pv_nreq = 0, pv_size = 0, pv_inl = False, pv_ctrl = None, pv_ret = 0, pv_bad = [], pv_waits = waits\<rparr>"
  define m where "m = min (length ws) (sq_max_post q - outstanding q)"
  have "outstanding q \<le> sq_max_post q" using assms(1) by (simp add: sq_inv_def)
  then obtain v q1 where v: "post_requests mem False ws ?v q = Inr (v, q1)" "pv_nreq v = 0 + m"
    "pv_ret v = (if m < length ws then ENOMEM else 0)" "pv_waits v = waits"
    using post_requests_ok [OF assms(1-3), of ?v False m] unfolding m_def by (simp only: post_vars.select_convs add_0_right) auto
  have m: "m = length ws" if "pv_ret v = 0" using that v(3) by (auto simp: m_def ENOMEM_def split: if_splits)
  obtain db where db: "(if pv_ret v = 0 then res_bind (fetch_batches debit waits) (\<lambda>(d, ws). Inr (d - int (pv_nreq v), ws))
         else Inr (debit, waits)) = Inr db" "pr_ret r = pv_ret v" "pr_debit r = fst db" "pr_waits r = snd db"
    using assms(7) v(1,4) by (auto simp: post_send_driver_def res_bind_eq_Inr split: if_splits)
  show ?thesis
  proof (cases "pv_ret v = 0")
    case True
    then obtain d where "fetch_batches debit waits = Inr (d, pr_waits r)" "pr_debit r = d - int (length ws)"
      using db v(2) m by (auto simp: res_bind_eq_Inr)
    then show ?thesis using fetch_batches_ok [OF _ assms(4-6)] True db(2) by fastforce
  next
    case False
    then show ?thesis using db by auto
  qed
qed

lemma batches_paid_witness:
  "\<exists>r. post_send_driver (\<lambda>a. 7) 2 True 0 [5, 5] [ex_wr WR_SEND 0 [ex_sge 4]] ex_sq = Inr r \<and>
    (pr_ret r = 0 \<longrightarrow> (\<exists>used. [5, 5] = used @ pr_waits r \<and> pr_debit r = 0 + sum_list (map uint used) - int (length [ex_wr WR_SEND 0 [ex_sge 4]]) \<and>
        - int (length [ex_wr WR_SEND 0 [ex_sge 4]]) < pr_debit r \<and> (\<forall>k<length used. 0 + sum_list (map uint (take k used)) \<le> 0))) \<and>
    (pr_ret r \<noteq> 0 \<longrightarrow> pr_debit r = 0 \<and> pr_waits r = [5, 5])"
proof -
  have c: "\<forall>w\<in>set [ex_wr WR_SEND 0 [ex_sge 4]]. conforming (\<lambda>a. 7) (sq_qc ex_sq) (sq_max_gs ex_sq) w" "\<not> sq_ignore_overflow ex_sq"
    by (simp_all add: ex_sq_def conforming_def ex_wr_def ordinary_ops_def ex_qc_def)
  have "fetch_batches 0 [5, 5] = Inr (5, [5])"
    by (simp add: fetch_batches.simps [of 0] fetch_batches.simps [of 5])
  then obtain r where "post_send_driver (\<lambda>a. 7) 2 True 0 [5, 5] [ex_wr WR_SEND 0 [ex_sge 4]] ex_sq = Inr r"
    using post_send_driver_ok [OF ex_sq_inv c(2,1), of 2 True "[5, 5]" 0] by auto
  then show ?thesis using batches_paid [OF ex_sq_inv c(2,1), of "[5, 5]" 0 r] by simp
qed


lemma too_much_inline:
  assumes "sc_kind qc = QPT_RC \<or> sc_kind qc = QPT_UC" "4 \<le> length (sc_srcrb_flags qc)"
    and "sw_op w = WR_SEND" "sw_flags w AND IBV_SEND_INLINE \<noteq> 0" "sw_sges w = [g]"
    and "sc_max_inline_data qc < unat (sg_length g)" "unat (sg_length g) < 2 ^ 31"
  shows "\<exists>sz. post_send_one mem qc w ind inl wqe = Inr (ENOMEM, sz, True, wqe)"
proof -
  obtain f where f: "srcrb_of qc (sw_flags w) = Inr f" using srcrb_of_ok [OF assms(2)] by blast
  have len: "sint (sg_length g) = int (unat (sg_length g))" by (rule sint_nonneg_small [OF assms(7)])
  have "signed_take_bit 31 (0 + int (unat (sg_length g))) = int (unat (sg_length g))" using signed_small [OF assms(7)] by simp
  then have "inl_sges mem (sc_max_inline_data qc) [g] 0 s = Inr (None, s)" for s
    using assms(6) unfolding inl_sges.simps len Let_def by (simp only: of_nat_less_iff if_True)
  then have d: "set_data_inl_seg mem (sc_max_inline_data qc) [g] wqe 16 1 = Inr (ENOMEM, 1, wqe)"
    by (simp add: set_data_inl_seg_def)
  have "post_send_one mem qc w ind inl wqe = post_send_connected mem qc False w ind inl wqe"
    using assms(1) by (auto simp: post_send_one_def)
  also have "\<dots> = Inr (ENOMEM, 1, True, wqe)"
    using f d assms(3-5) by (simp add: post_send_connected_def set_common_segments_def connected_segs_def mem_put_def Let_def ENOMEM_def)
  finally show ?thesis by blast
qed

text \<open>
  A list of two requests, the second of which has too much inline data, on a queue pair that prefers BlueFlame: the
  call returns \<open>ENOMEM\<close> for the second and accepts the first, but what it copies to the device's page as the first
  is the slot of the second, whose old contents are still there.
\<close>

theorem failed_request_by_blueflame:
  assumes "sq_inv q" "\<not> sq_ignore_overflow q" "\<not> sq_managed q" "sq_db_method q = DEDIC_BF_1_THREAD_WC_EVICT_PB"
    and "2 ^ sq_shift q \<le> sq_bf_buf_size q" "2 \<le> sq_spare q" "outstanding q + 2 \<le> sq_max_post q"
    and "conforming mem (sq_qc q) (sq_max_gs q) w1" "sw_op w1 = WR_RDMA_WRITE \<or> sw_op w1 = WR_RDMA_READ"
    and "sw_op w2 = WR_SEND" "sw_flags w2 AND IBV_SEND_INLINE \<noteq> 0" "sw_sges w2 = [g]"
    and "sc_max_inline_data (sq_qc q) < unat (sg_length g)" "unat (sg_length g) < 2 ^ 31" "0 < sq_max_gs q"
  shows "\<exists>r k. post_send_driver mem 1 flow debit waits [w1, w2] q = Inr r \<and> pr_ret r = ENOMEM \<and> pr_bad r = [w2] \<and>
    sq_bells (pr_queue r) = sq_bells q @ [Blueflame (take k
      (convert_to_bf_wqe (sq_qpn q) (sq_head q) (sq_slots q ! sq_pos q (outstanding q + 1))))]"
proof -
  define a where "a = outstanding q"
  define b where "b = outstanding q + 1"
  let ?slot = "sq_slots q ! sq_pos q b"
  have max: "a < sq_cnt q" "b < sq_cnt q" "a + sq_spare q < sq_cnt q" "a \<noteq> b" "b < a + sq_spare q"
    using assms(1,6,7) by (auto simp: sq_inv_def a_def b_def)
  have ind: "sq_tail q + of_nat a = sq_head q" "sq_tail q + of_nat b = sq_head q + 1" by (simp_all add: outstanding_def a_def b_def)
  have room: "\<not> wq_overflow (sq_head q) (sq_tail q) (sq_max_post q) 0" "\<not> wq_overflow (sq_head q) (sq_tail q) (sq_max_post q) 1"
    using overflow_outstanding [OF assms(1), of 0] overflow_outstanding [OF assms(1), of 1] assms(7) by simp_all
  obtain n inl1 q1 where q1: "write_request mem w1 (sq_tail q + of_nat a) False q = Inr (0, n, inl1, q1)" "same_queue q q1" "sq_inv q1"
    "16 * n \<le> 2 ^ sq_shift q" "untouched {b. b < sq_cnt q \<and> b \<noteq> a mod sq_cnt q} q q1"
    "encodes mem (sq_qc q) w1 (unat (sq_tail q + of_nat a)) n (sq_slots q1 ! sq_pos q a)"
    using write_request_ok [OF assms(1,8), of a False] by (elim exE conjE) (rule that, assumption+)
  have n: "2 \<le> n" using q1(6) assms(9) by (auto simp: encodes_def connected_segs_def raddr_seg_def)
  note s1 = same_queueD [OF q1(2)]
  obtain q2 where q2: "stamp_send_wqe (sq_pos q1 (a + sq_spare q)) q1 = Inr q2" "same_queue q1 q2" "sq_inv q2"
    "untouched {b. b < sq_cnt q1 \<and> b \<noteq> (a + sq_spare q) mod sq_cnt q1} q1 q2"
    using stamp_keeps [OF q1(3)] by blast
  note s2 = same_queueD [OF same_queue_trans [OF q1(2) q2(2)]]
  have i: "sq_index q (sq_tail q + of_nat k) = sq_pos q k" for k by (rule sq_index_pos(1) [OF assms(1)])
  have slot2: "sq_slots q2 ! sq_pos q b = ?slot"
    using q1(5) q2(4) max s1 by (simp add: untouched_def)
  have kind: "sc_kind (sq_qc q) = QPT_RC \<or> sc_kind (sq_qc q) = QPT_UC" "4 \<le> length (sc_srcrb_flags (sq_qc q))"
    using assms(1) by (simp_all add: sq_inv_def limits_ok_def)
  obtain sz where fail: "post_send_one mem (sq_qc q) w2 (unat (sq_tail q + of_nat b)) inl1 ?slot = Inr (ENOMEM, sz, True, ?slot)"
    using too_much_inline [OF kind assms(10-14)] by blast
  have len: "sq_pos q b < length (sq_slots q2)" "sq_pos q b < length (sq_wrid q2)"
    using q2(3) s2 max(1) sq_pos_less [of q b] by (auto simp: sq_inv_def)
  define q3 where "q3 = q2\<lparr>sq_slots := sq_slots q2, sq_wrid := (sq_wrid q2)[sq_pos q b := sw_id w2]\<rparr>"
  have w2: "write_request mem w2 (sq_tail q + of_nat b) inl1 q2 = Inr (ENOMEM, sz, True, q3)"
  proof -
    have "(sq_slots q2)[sq_pos q b := ?slot] = sq_slots q2" using slot2 by (metis list_update_id)
    then show ?thesis using len fail slot2 by (simp add: write_request_def s2 i q3_def Let_def)
  qed
  have s3: "same_queue q2 q3" unfolding q3_def by (rule same_queueI)
  have inv3: "sq_inv q3" using q2(3) unfolding sq_inv_def same_queueD [OF s3] by (simp add: q3_def)
  note s = same_queueD [OF same_queue_trans [OF same_queue_trans [OF q1(2) q2(2)] s3]]
  have dev: "sq_bells q3 = sq_bells q" "sq_managed q3 = sq_managed q" "sq_db_method q3 = sq_db_method q" "sq_bf_buf_size q3 = sq_bf_buf_size q"
    using same_queue_trans [OF same_queue_trans [OF q1(2) q2(2)] s3] by (auto simp: same_queue_def)
  let ?v = "\<lparr>pv_nreq = 0, pv_size = 0, pv_inl = False, pv_ctrl = None, pv_ret = 0, pv_bad = [], pv_waits = waits\<rparr>"
  define v where "v = ?v\<lparr>pv_nreq := 1, pv_size := n, pv_ctrl := Some (sq_pos q b), pv_inl := False, pv_ret := ENOMEM, pv_bad := [w2]\<rparr>"
  have stamp: "sq_index q1 (sq_head q + of_nat (sq_spare q)) = sq_pos q1 (a + sq_spare q)"
    using sq_index_pos(1) [OF q1(3), of "a + sq_spare q"] ind(1) [symmetric] by (simp add: s1 add.assoc)
  have run: "post_requests mem False [w1, w2] ?v q = Inr (v, q3)"
    using assms(2,8,12,15) room q1(1) w2 q2(1) stamp i [of a] i [of b]
    by (simp add: conforming_def s1 s2 s ind v_def ENOMEM_def cong: if_cong)
  let ?c = "convert_to_bf_wqe (sq_qpn q) (sq_head q) ?slot"
  have len3: "sq_pos q b < length (sq_slots q3)" "sq_slots q3 ! sq_pos q b = ?slot" using len slot2 by (simp_all add: q3_def)
  have sh: "6 \<le> sq_shift q" using assms(1) by (simp add: sq_inv_def limits_ok_def)
  have "slot_ok (sq_shift q) ?slot" using inv3 len3 s nth_mem [OF len3(1)] by (simp add: sq_inv_def)
  then have "length ?c = 2 ^ sq_shift q" using convert_slot_ok [OF _ sh] by (auto simp: slot_ok_def)
  then have rd: "mem_read ?c 0 (align (n * 16) 64) = Inr (take (align (n * 16) 64) ?c)"
    using align_fits [OF q1(4) sh] by (simp add: mem_read_def)
  define q4 where "q4 = q3\<lparr>sq_slots := (sq_slots q3)[sq_pos q b := ?c], sq_bells := sq_bells q @ [Blueflame (take (align (n * 16) 64) ?c)],
      sq_head := sq_head q + 1\<rparr>"
  have bf: "by_blueflame q3 True True 1 n False"
    using n q1(4) assms(5) dev(4) by (simp add: by_blueflame_def)
  have db: "ring_db (Some (sq_pos q b)) 1 n False q3 = Inr q4"
    using assms(3,4) dev bf len3 rd s by (simp add: ring_db_def ring_bell_def copy_wqe_to_bf_def convert_slot_def q4_def)
  have "rung q3 b 1 q4" using dev(1,2) assms(3) len3 s by (auto simp: rung_def q4_def)
  then have inv4: "sq_inv q4" using rung_inv [OF inv3, of b 1 q4] assms(7) s by simp
  have q4: "sq_tail q4 = sq_tail q" "sq_spare q4 = sq_spare q" using s by (simp_all add: q4_def)
  have "sq_head q + 1 + of_nat (sq_spare q) - 1 = sq_tail q4 + of_nat (a + sq_spare q)" using ind(1) by (simp add: q4 add.assoc [symmetric])
  then have idx: "sq_index q4 (sq_head q + of_nat 1 + of_nat (sq_spare q4) - 1) = sq_pos q4 (a + sq_spare q)"
    using sq_index_pos(1) [OF inv4, of "a + sq_spare q"] by (simp add: q4)
  obtain q5 where q5: "stamp_send_wqe (sq_pos q4 (a + sq_spare q)) q4 = Inr q5" "same_queue q4 q5"
    using stamp_keeps [OF inv4] by blast
  have "sq_bells q5 = sq_bells q4" using q5(2) by (auto simp: same_queue_def)
  then have bells: "sq_bells q5 = sq_bells q @ [Blueflame (take (align (n * 16) 64) ?c)]" by (simp add: q4_def)
  have "post_send_driver mem 1 flow debit waits [w1, w2] q =
      Inr \<lparr>pr_ret = ENOMEM, pr_bad = [w2], pr_debit = debit, pr_waits = waits, pr_queue = q5\<rparr>"
    using run db idx q5(1) by (simp add: post_send_driver_def v_def ENOMEM_def)
  then show ?thesis using bells by (intro exI) (auto simp: b_def)
qed


lemma failed_request_by_blueflame_witness:
  "\<exists>r k. post_send_driver (\<lambda>a. 7) 1 False 0 [] [ex_wr WR_RDMA_READ 0 [ex_sge 4], ex_wr WR_SEND IBV_SEND_INLINE [ex_sge 40]] ex_sq = Inr r \<and>
    pr_ret r = ENOMEM \<and> pr_bad r = [ex_wr WR_SEND IBV_SEND_INLINE [ex_sge 40]] \<and>
    sq_bells (pr_queue r) = sq_bells ex_sq @ [Blueflame (take k
      (convert_to_bf_wqe (sq_qpn ex_sq) (sq_head ex_sq) (sq_slots ex_sq ! sq_pos ex_sq (outstanding ex_sq + 1))))]"
  by (rule failed_request_by_blueflame [where g = "ex_sge 40", OF ex_sq_inv])
     (simp_all add: ex_sq_def conforming_def ex_wr_def ex_sge_def ordinary_ops_def IBV_SEND_INLINE_def ex_qc_def outstanding_def)

end
