(* ===== verification/Recv_Queue.thy ===== *)
theory Recv_Queue
  imports Send_Queue
begin

text \<open>
  The receive queue (\<open>mlx4_post_recv\<close> of \<open>libmlx4/src/qp.c\<close>) and the buffer of receive requests that the shaper adds: the
  driver resets the application's queue pair once more behind its back to exchange the numbers of the hidden ones,
  so receive requests posted before are remembered in \<open>rr_buf\<close> and posted again (\<open>rr_buffer_enqueue\<close> and, in \<open>verbs.c\<close>,
  \<open>rr_buffer_init\<close>, \<open>rr_buffer_post_and_clear\<close>). The exchange itself is not modelled; it is compiled out as shipped.

  What is remembered is a copy of the request's structure; its list of elements and the requests chained behind it
  stay in the application's memory. So that memory is explicit: a store of requests and one of elements, by address.
\<close>

unbundle bit_operations_syntax

section \<open>State\<close>

record recv_wr =
  rw_id :: u64
  rw_next :: u64
  rw_sg_list :: u64
  rw_num_sge :: nat

record app_mem =
  am_wr :: "u64 \<Rightarrow> recv_wr"
  am_sge :: "u64 \<Rightarrow> sge"

text \<open>\<open>rr_slot\<close> has one entry per allocated pointer: \<open>None\<close> before it is assigned and after its request is released.\<close>

record rr_buffer =
  rr_slot :: "recv_wr option list"
  rr_size :: nat
  rr_capacity :: nat

record recv_queue =
  rq_slots :: "u8 list list"
  rq_wrid :: "u64 list"
  rq_cnt :: nat
  rq_max_post :: nat
  rq_max_gs :: nat
  rq_head :: u32
  rq_tail :: u32
  rq_db :: "u8 list"
  rq_ignore_overflow :: bool
  rq_inlr :: "(u64 \<times> u32) list list option"
  rq_init :: bool
  rq_exchange_done :: int
  rq_rr :: rr_buffer

definition MLX4_INVALID_LKEY :: u32 where [macro_defs]: "MLX4_INVALID_LKEY = 0x100"

section \<open>The buffer of requests\<close>

definition rr_buffer_init :: "bool \<Rightarrow> nat \<Rightarrow> rr_buffer res" where
  "rr_buffer_init ok cap = (if ok then Inr \<lparr>rr_slot = replicate cap None, rr_size = 0, rr_capacity = cap\<rparr> else Inl (Err_code (- 1)))"

text \<open>
  \<open>realloc_ok\<close> says whether \<open>realloc\<close> finds memory; when it does not, the capacity stays doubled. The result of
  \<open>malloc\<close> is not tested.
\<close>

definition rr_buffer_enqueue :: "bool \<Rightarrow> bool \<Rightarrow> recv_wr \<Rightarrow> rr_buffer \<Rightarrow> (int \<times> rr_buffer) res" where
  "rr_buffer_enqueue realloc_ok malloc_ok wr b =
     (let i = rr_size b;
          full = rr_capacity b \<le> i;
          b1 = (if full then b\<lparr>rr_capacity := (2 * rr_capacity b) mod 2 ^ 32\<rparr> else b)
      in if full \<and> \<not> realloc_ok then Inr (- 1, b1)
         else let b2 = (if full then b1\<lparr>rr_slot := take (rr_capacity b1) (rr_slot b1 @ replicate (rr_capacity b1 - length (rr_slot b1)) None)\<rparr> else b1)
         in if \<not> malloc_ok then Inl Null_deref
            else res_bind (arr_set (rr_slot b2) i (Some wr)) (\<lambda>s. Inr (0, b2\<lparr>rr_slot := s, rr_size := rr_size b2 + 1\<rparr>)))"

section \<open>Posting\<close>

text \<open>The elements of a request.\<close>

definition wr_sges :: "app_mem \<Rightarrow> recv_wr \<Rightarrow> sge list" where
  "wr_sges m w = map (\<lambda>i. am_sge m (rw_sg_list w + 16 * of_nat i)) [0..<rw_num_sge w]"

definition data_seg :: "sge \<Rightarrow> u8 list" where
  "data_seg g = be32 (sg_length g) @ be32 (sg_lkey g) @ be64 (sg_addr g)"

fun set_data_segs :: "u8 list \<Rightarrow> nat \<Rightarrow> sge list \<Rightarrow> u8 list res" where
  "set_data_segs wqe i [] = Inr wqe"
| "set_data_segs wqe i (g # gs) = res_bind (mem_write wqe (16 * i) (data_seg g)) (\<lambda>wqe. set_data_segs wqe (Suc i) gs)"

definition set_recv_wqe :: "nat \<Rightarrow> sge list \<Rightarrow> u8 list \<Rightarrow> u8 list res" where
  "set_recv_wqe max_gs gs wqe = res_bind (set_data_segs wqe 0 gs) (\<lambda>wqe.
     if length gs < max_gs then mem_write wqe (16 * length gs) (be32 0 @ be32 MLX4_INVALID_LKEY @ be64 0) else Inr wqe)"

text \<open>The loop; \<open>fuel\<close> bounds the number of requests looked at.\<close>

fun recv_loop :: "app_mem \<Rightarrow> nat \<Rightarrow> recv_wr option \<Rightarrow> nat \<Rightarrow> nat \<Rightarrow> recv_queue \<Rightarrow> (int \<times> nat \<times> recv_queue) res" where
  "recv_loop m fuel None ind nreq q = Inr (0, nreq, q)"
| "recv_loop m 0 (Some w) ind nreq q = Inl Diverges"
| "recv_loop m (Suc fuel) (Some w) ind nreq q =
     (if \<not> rq_ignore_overflow q \<and> wq_overflow (rq_head q) (rq_tail q) (rq_max_post q) nreq then Inr (ENOMEM, nreq, q)
      else if rq_max_gs q < rw_num_sge w then Inr (EINVAL, nreq, q)
      else res_bind (arr_get (rq_slots q) ind) (\<lambda>wqe.
        res_bind (set_recv_wqe (rq_max_gs q) (wr_sges m w) wqe) (\<lambda>wqe.
        res_bind (case rq_inlr q of None \<Rightarrow> Inr None
           | Some bs \<Rightarrow> res_bind (arr_set bs ind (map (\<lambda>g. (sg_addr g, sg_length g)) (wr_sges m w))) (\<lambda>bs. Inr (Some bs))) (\<lambda>inlr.
        res_bind (arr_set (rq_wrid q) ind (rw_id w)) (\<lambda>ids.
        recv_loop m fuel (if rw_next w = 0 then None else Some (am_wr m (rw_next w))) ((ind + 1) AND (rq_cnt q - 1)) (nreq + 1)
          (q\<lparr>rq_slots := (rq_slots q)[ind := wqe], rq_inlr := inlr, rq_wrid := ids\<rparr>))))))"

definition ring_recv :: "nat \<Rightarrow> recv_queue \<Rightarrow> recv_queue" where
  "ring_recv nreq q = (if nreq \<noteq> 0
     then let h = rq_head q + of_nat nreq in q\<lparr>rq_head := h, rq_db := be32 (h AND 0xffff)\<rparr> else q)"

definition mlx4_post_recv :: "app_mem \<Rightarrow> bool \<Rightarrow> bool \<Rightarrow> nat \<Rightarrow> recv_wr \<Rightarrow> recv_queue \<Rightarrow> (int \<times> recv_queue) res" where
  "mlx4_post_recv m realloc_ok malloc_ok fuel wr q =
     res_bind (if rq_init q \<and> rq_exchange_done q = 0
        then res_bind (rr_buffer_enqueue realloc_ok malloc_ok wr (rq_rr q)) (\<lambda>(r, b). Inr (r, q\<lparr>rq_rr := b\<rparr>))
        else Inr (0, q)) (\<lambda>(r, q).
     if r \<noteq> 0 then Inr (1, q)
     else res_bind (recv_loop m fuel (Some wr) (unat (rq_head q) AND (rq_cnt q - 1)) 0 q) (\<lambda>(ret, nreq, q).
       Inr (ret, ring_recv nreq q)))"

text \<open>Posting the remembered requests again; each is released, but the size of the buffer stays.\<close>

fun rr_post :: "app_mem \<Rightarrow> bool \<Rightarrow> bool \<Rightarrow> nat \<Rightarrow> nat \<Rightarrow> nat \<Rightarrow> recv_queue \<Rightarrow> (int \<times> recv_queue) res" where
  "rr_post m rok mok fuel 0 i q = (if i < rr_size (rq_rr q) then Inl Diverges else Inr (0, q))"
| "rr_post m rok mok fuel (Suc k) i q =
     (if i < rr_size (rq_rr q) then
        res_bind (arr_get (rr_slot (rq_rr q)) i) (\<lambda>c. case c of None \<Rightarrow> Inl Uninit_read
          | Some w \<Rightarrow> res_bind (mlx4_post_recv m rok mok fuel w q) (\<lambda>(ret, q).
              if ret \<noteq> 0 then Inr (1, q)
              else rr_post m rok mok fuel k (i + 1) (q\<lparr>rq_rr := (rq_rr q)\<lparr>rr_slot := (rr_slot (rq_rr q))[i := None]\<rparr>\<rparr>)))
      else Inr (0, q))"

definition rr_buffer_post_and_clear :: "app_mem \<Rightarrow> bool \<Rightarrow> bool \<Rightarrow> nat \<Rightarrow> recv_queue \<Rightarrow> (int \<times> recv_queue) res" where
  "rr_buffer_post_and_clear m rok mok fuel q = rr_post m rok mok fuel fuel 0 q"

definition mlx4_init_rq_indices :: "recv_queue \<Rightarrow> recv_queue" where
  "mlx4_init_rq_indices q = q\<lparr>rq_head := 0, rq_tail := 0\<rparr>"


section \<open>The loop\<close>

definition rq_pos :: "recv_queue \<Rightarrow> nat \<Rightarrow> nat" where
  "rq_pos q a = (unat (rq_tail q) + a) mod rq_cnt q"

definition rq_outstanding :: "recv_queue \<Rightarrow> nat" where
  "rq_outstanding q = unat (rq_head q - rq_tail q)"

definition rq_inv :: "recv_queue \<Rightarrow> bool" where
  "rq_inv q \<longleftrightarrow> (\<exists>k \<le> 16. rq_cnt q = 2 ^ k) \<and> length (rq_slots q) = rq_cnt q \<and> length (rq_wrid q) = rq_cnt q \<and>
     (\<forall>s\<in>set (rq_slots q). 16 * rq_max_gs q \<le> length s) \<and> (\<forall>bs. rq_inlr q = Some bs \<longrightarrow> length bs = rq_cnt q) \<and>
     rq_max_post q \<le> rq_cnt q \<and> rq_outstanding q \<le> rq_max_post q"

lemma rq_pos_less: "0 < rq_cnt q \<Longrightarrow> rq_pos q a < rq_cnt q"
  by (simp add: rq_pos_def)

lemma rq_pos_inj: "\<lbrakk>a < rq_cnt q; b < rq_cnt q; a \<noteq> b\<rbrakk> \<Longrightarrow> rq_pos q a \<noteq> rq_pos q b"
  unfolding rq_pos_def using mod_add_inj by blast

lemma rq_cnt_pos: "rq_inv q \<Longrightarrow> 0 < rq_cnt q"
  by (auto simp: rq_inv_def)

lemma rq_start: "rq_inv q \<Longrightarrow> unat (rq_head q) AND (rq_cnt q - 1) = rq_pos q (rq_outstanding q)"
  using ring_index [of "rq_cnt q" _ "rq_tail q" "rq_outstanding q"] by (auto simp: rq_inv_def rq_pos_def rq_outstanding_def)

lemma rq_next: "rq_inv q \<Longrightarrow> (rq_pos q a + 1) AND (rq_cnt q - 1) = rq_pos q (Suc a)"
  using and_ring_mask by (auto simp: rq_inv_def rq_pos_def mod_Suc_eq)

lemma rq_overflow:
  assumes "rq_inv q" "rq_outstanding q + n \<le> rq_max_post q"
  shows "wq_overflow (rq_head q) (rq_tail q) (rq_max_post q) n \<longleftrightarrow> rq_outstanding q + n = rq_max_post q"
proof -
  obtain k where k: "k \<le> 16" "rq_cnt q = 2 ^ k" using assms(1) by (auto simp: rq_inv_def)
  have "rq_outstanding q + n \<le> 2 ^ 16"
    using assms k power_increasing [OF k(1), of "2 :: nat"] by (auto simp: rq_inv_def)
  then have "unat (rq_head q - rq_tail q + of_nat n) = rq_outstanding q + n"
    by (simp add: rq_outstanding_def unat_word_ariths unat_of_nat)
  then show ?thesis using assms(2) by (auto simp: wq_overflow_def)
qed

text \<open>What a slot says: the elements in order, and the mark behind the last if there is room for one.\<close>

definition recv_says :: "nat \<Rightarrow> sge list \<Rightarrow> u8 list \<Rightarrow> bool" where
  "recv_says max_gs gs s \<longleftrightarrow> take (16 * length gs) s = concat (map data_seg gs) \<and>
     (length gs < max_gs \<longrightarrow> take 16 (drop (16 * length gs) s) = be32 0 @ be32 MLX4_INVALID_LKEY @ be64 0)"

lemma length_data_seg [simp]: "length (data_seg g) = 16"
  by (simp add: data_seg_def)

lemma set_data_segs_ok:
  assumes "16 * (i + length gs) \<le> length s"
  shows "set_data_segs s i gs = Inr (take (16 * i) s @ concat (map data_seg gs) @ drop (16 * (i + length gs)) s)"
  using assms
proof (induction gs arbitrary: s i)
  case (Cons g gs)
  let ?s = "take (16 * i) s @ data_seg g @ drop (16 * Suc i) s"
  have "mem_write s (16 * i) (data_seg g) = Inr ?s" using Cons.prems by (simp add: mem_write_def add.commute)
  moreover have "16 * (Suc i + length gs) \<le> length ?s" using Cons.prems by simp
  moreover have "take (16 * Suc i) ?s = take (16 * i) s @ data_seg g" using Cons.prems by simp
  moreover have "drop (16 * (Suc i + length gs)) ?s = drop (16 * (i + length (g # gs))) s" using Cons.prems by (simp add: ac_simps)
  ultimately show ?case using Cons.IH [of "Suc i" ?s] by simp
qed simp

lemma length_data_segs: "length (concat (map data_seg gs)) = 16 * length gs"
  by (induction gs) simp_all

lemma set_recv_wqe_ok:
  assumes "length gs \<le> max_gs" "16 * max_gs \<le> length s"
  shows "\<exists>s'. set_recv_wqe max_gs gs s = Inr s' \<and> length s' = length s \<and> recv_says max_gs gs s'"
proof -
  let ?d = "concat (map data_seg gs)" and ?t = "be32 0 @ be32 MLX4_INVALID_LKEY @ be64 0"
  have d: "set_data_segs s 0 gs = Inr (?d @ drop (16 * length gs) s)" using set_data_segs_ok [of 0 gs s] assms by simp
  show ?thesis
  proof (cases "length gs < max_gs")
    case True
    then have "mem_write (?d @ drop (16 * length gs) s) (16 * length gs) ?t = Inr (?d @ ?t @ drop (16 * length gs + 16) s)"
      using assms by (simp add: mem_write_def length_data_segs add.commute)
    then show ?thesis using d True assms by (simp add: set_recv_wqe_def recv_says_def length_data_segs)
  next
    case False
    then show ?thesis using d assms by (simp add: set_recv_wqe_def recv_says_def length_data_segs)
  qed
qed

fun is_chain :: "app_mem \<Rightarrow> recv_wr option \<Rightarrow> recv_wr list \<Rightarrow> bool" where
  "is_chain m c [] \<longleftrightarrow> c = None"
| "is_chain m c (w # ws) \<longleftrightarrow> c = Some w \<and> is_chain m (if rw_next w = 0 then None else Some (am_wr m (rw_next w))) ws"

text \<open>A queue that differs only in its slots and what belongs to them.\<close>

definition same_rq :: "recv_queue \<Rightarrow> recv_queue \<Rightarrow> bool" where
  "same_rq q q' \<longleftrightarrow> (\<exists>slots ids inlr. q' = q\<lparr>rq_slots := slots, rq_wrid := ids, rq_inlr := inlr\<rparr>)"

lemma same_rqD:
  assumes "same_rq q q'"
  shows "rq_cnt q' = rq_cnt q" "rq_max_post q' = rq_max_post q" "rq_max_gs q' = rq_max_gs q" "rq_head q' = rq_head q" "rq_tail q' = rq_tail q"
    "rq_ignore_overflow q' = rq_ignore_overflow q" "rq_rr q' = rq_rr q" "rq_init q' = rq_init q" "rq_exchange_done q' = rq_exchange_done q"
    "rq_pos q' = rq_pos q" "rq_outstanding q' = rq_outstanding q"
  using assms by (auto simp: same_rq_def rq_pos_def rq_outstanding_def fun_eq_iff)

lemma same_rq_refl [simp]: "same_rq q q"
  unfolding same_rq_def by (intro exI [of _ "rq_slots q"] exI [of _ "rq_wrid q"] exI [of _ "rq_inlr q"]) simp

lemma same_rq_trans: "same_rq q q' \<Longrightarrow> same_rq q' q'' \<Longrightarrow> same_rq q q''"
  unfolding same_rq_def by (elim exE, hypsubst, simp, blast)

definition rq_posted_at :: "app_mem \<Rightarrow> recv_queue \<Rightarrow> nat \<Rightarrow> recv_wr \<Rightarrow> bool" where
  "rq_posted_at m q a w \<longleftrightarrow> rq_wrid q ! rq_pos q a = rw_id w \<and> recv_says (rq_max_gs q) (wr_sges m w) (rq_slots q ! rq_pos q a)"

definition rq_untouched :: "nat set \<Rightarrow> recv_queue \<Rightarrow> recv_queue \<Rightarrow> bool" where
  "rq_untouched A q q' \<longleftrightarrow> (\<forall>a\<in>A. rq_slots q' ! rq_pos q a = rq_slots q ! rq_pos q a \<and> rq_wrid q' ! rq_pos q a = rq_wrid q ! rq_pos q a)"

text \<open>One round of the loop for a request that has passed the tests.\<close>

lemma recv_step:
  assumes "rq_inv q" "rw_num_sge w \<le> rq_max_gs q" "a < rq_cnt q"
  shows "\<exists>wqe inlr q'. set_recv_wqe (rq_max_gs q) (wr_sges m w) (rq_slots q ! rq_pos q a) = Inr wqe \<and>
    (case rq_inlr q of None \<Rightarrow> Inr None
       | Some bs \<Rightarrow> res_bind (arr_set bs (rq_pos q a) (map (\<lambda>g. (sg_addr g, sg_length g)) (wr_sges m w))) (\<lambda>bs. Inr (Some bs))) = Inr inlr \<and>
    q' = q\<lparr>rq_slots := (rq_slots q)[rq_pos q a := wqe], rq_inlr := inlr, rq_wrid := (rq_wrid q)[rq_pos q a := rw_id w]\<rparr> \<and>
    same_rq q q' \<and> rq_inv q' \<and> rq_posted_at m q' a w \<and> rq_untouched ({..<rq_cnt q} - {a}) q q'"
proof -
  have p: "rq_pos q a < rq_cnt q" by (rule rq_pos_less [OF rq_cnt_pos [OF assms(1)]])
  have shape: "length (rq_slots q) = rq_cnt q" "length (rq_wrid q) = rq_cnt q" "\<forall>s\<in>set (rq_slots q). 16 * rq_max_gs q \<le> length s"
    using assms(1) by (simp_all add: rq_inv_def)
  obtain wqe where w: "set_recv_wqe (rq_max_gs q) (wr_sges m w) (rq_slots q ! rq_pos q a) = Inr wqe" "length wqe = length (rq_slots q ! rq_pos q a)"
    "recv_says (rq_max_gs q) (wr_sges m w) wqe"
    using set_recv_wqe_ok [of "wr_sges m w" "rq_max_gs q" "rq_slots q ! rq_pos q a"] assms(2) shape(1,3) p by (auto simp: wr_sges_def)
  obtain inlr where i: "(case rq_inlr q of None \<Rightarrow> Inr None
       | Some bs \<Rightarrow> res_bind (arr_set bs (rq_pos q a) (map (\<lambda>g. (sg_addr g, sg_length g)) (wr_sges m w))) (\<lambda>bs. Inr (Some bs))) = Inr inlr"
    "\<forall>bs. inlr = Some bs \<longrightarrow> length bs = rq_cnt q"
    using assms(1) p by (cases "rq_inlr q") (auto simp: rq_inv_def)
  let ?q' = "q\<lparr>rq_slots := (rq_slots q)[rq_pos q a := wqe], rq_inlr := inlr, rq_wrid := (rq_wrid q)[rq_pos q a := rw_id w]\<rparr>"
  have s: "same_rq q ?q'"
    unfolding same_rq_def by (intro exI [of _ "(rq_slots q)[rq_pos q a := wqe]"] exI [of _ "(rq_wrid q)[rq_pos q a := rw_id w]"] exI [of _ inlr]) simp
  have "16 * rq_max_gs q \<le> length wqe" using w(2) shape p by simp
  then have inv: "rq_inv ?q'"
    using assms(1) i(2) unfolding rq_inv_def same_rqD [OF s] by (auto dest!: set_update_subset_insert [THEN subsetD])
  have at: "rq_posted_at m ?q' a w" using p shape w(3) unfolding rq_posted_at_def same_rqD [OF s] by simp
  have "rq_untouched ({..<rq_cnt q} - {a}) q ?q'"
    using rq_pos_inj [of a q] assms(3) by (auto simp: rq_untouched_def)
  then show ?thesis using w(1) i(1) s inv at by blast
qed

text \<open>How many of the requests are accepted, and the result: the first that has no room, or has too many elements, ends the call.\<close>

definition accepted :: "nat \<Rightarrow> nat \<Rightarrow> recv_wr list \<Rightarrow> nat" where
  "accepted max_gs room ws = min (length (takeWhile (\<lambda>w. rw_num_sge w \<le> max_gs) ws)) room"

definition recv_result :: "nat \<Rightarrow> nat \<Rightarrow> recv_wr list \<Rightarrow> int" where
  "recv_result max_gs room ws =
     (let k = accepted max_gs room ws in if k = length ws then 0 else if k = room then ENOMEM else EINVAL)"

lemma accepted_Cons:
  "accepted gs (Suc room) (w # ws) = (if rw_num_sge w \<le> gs then Suc (accepted gs room ws) else 0)"
  "recv_result gs (Suc room) (w # ws) = (if rw_num_sge w \<le> gs then recv_result gs room ws else EINVAL)"
  by (simp_all add: accepted_def recv_result_def Let_def)

lemma accepted_all:
  assumes "\<forall>w\<in>set ws. rw_num_sge w \<le> gs"
  shows "accepted gs room ws = min (length ws) room" "recv_result gs room ws = (if min (length ws) room < length ws then ENOMEM else 0)"
proof -
  have t: "takeWhile (\<lambda>w. rw_num_sge w \<le> gs) ws = ws" using assms by (simp add: takeWhile_eq_all_conv)
  show "accepted gs room ws = min (length ws) room" "recv_result gs room ws = (if min (length ws) room < length ws then ENOMEM else 0)"
    unfolding recv_result_def accepted_def t by auto
qed

lemma recv_loop_ok:
  assumes "rq_inv q" "\<not> rq_ignore_overflow q" "is_chain m c ws"
    and "rq_outstanding q + nreq \<le> rq_max_post q" "length ws \<le> fuel" "ind = rq_pos q (rq_outstanding q + nreq)"
    and "room = rq_max_post q - (rq_outstanding q + nreq)" "k = accepted (rq_max_gs q) room ws"
  shows "\<exists>q'. recv_loop m fuel c ind nreq q = Inr (recv_result (rq_max_gs q) room ws, nreq + k, q') \<and> same_rq q q' \<and> rq_inv q' \<and>
    rq_untouched {..<rq_outstanding q + nreq} q q' \<and> (\<forall>j<k. rq_posted_at m q' (rq_outstanding q + nreq + j) (ws ! j))"
  using assms
proof (induction ws arbitrary: c fuel ind nreq q k room)
  case Nil
  then show ?case by (auto simp: rq_untouched_def accepted_def recv_result_def)
next
  case (Cons w ws)
  let ?p = "rq_outstanding q + nreq"
  have c: "c = Some w" "is_chain m (if rw_next w = 0 then None else Some (am_wr m (rw_next w))) ws" using Cons.prems(3) by simp_all
  obtain f where f: "fuel = Suc f" "length ws \<le> f" using Cons.prems(5) by (cases fuel) auto
  consider "?p = rq_max_post q" | "?p < rq_max_post q" "rq_max_gs q < rw_num_sge w" | "?p < rq_max_post q" "rw_num_sge w \<le> rq_max_gs q"
    using Cons.prems(4) by linarith
  then show ?case
  proof cases
    case 1
    then have "recv_loop m fuel c ind nreq q = Inr (ENOMEM, nreq, q)"
      using rq_overflow [OF Cons.prems(1,4)] Cons.prems(2) c(1) f(1) by simp
    then show ?thesis using 1 Cons.prems(1,7,8) by (auto simp: rq_untouched_def accepted_def recv_result_def)
  next
    case 2
    then have "recv_loop m fuel c ind nreq q = Inr (EINVAL, nreq, q)"
      using rq_overflow [OF Cons.prems(1,4)] Cons.prems(2) c(1) f(1) by simp
    moreover obtain r where "room = Suc r" using that [of "room - 1"] 2(1) Cons.prems(7) by simp
    ultimately show ?thesis using 2 Cons.prems(1,8) by (auto simp: rq_untouched_def accepted_Cons)
  next
    case 3
    then have pc: "?p < rq_cnt q" using Cons.prems(1) by (auto simp: rq_inv_def)
    obtain r where r: "room = Suc r" using that [of "room - 1"] 3(1) Cons.prems(7) by simp
    obtain wqe inlr q1 where q1: "set_recv_wqe (rq_max_gs q) (wr_sges m w) (rq_slots q ! rq_pos q ?p) = Inr wqe"
      "(case rq_inlr q of None \<Rightarrow> Inr None
       | Some bs \<Rightarrow> res_bind (arr_set bs (rq_pos q ?p) (map (\<lambda>g. (sg_addr g, sg_length g)) (wr_sges m w))) (\<lambda>bs. Inr (Some bs))) = Inr inlr"
      "q1 = q\<lparr>rq_slots := (rq_slots q)[rq_pos q ?p := wqe], rq_inlr := inlr, rq_wrid := (rq_wrid q)[rq_pos q ?p := rw_id w]\<rparr>"
      "same_rq q q1" "rq_inv q1" "rq_posted_at m q1 ?p w" "rq_untouched ({..<rq_cnt q} - {?p}) q q1"
      using recv_step [OF Cons.prems(1) 3(2) pc, of m] by auto
    note s1 = same_rqD [OF q1(4)]
    have len: "rq_pos q ?p < length (rq_slots q)" "rq_pos q ?p < length (rq_wrid q)"
      using rq_pos_less [OF rq_cnt_pos [OF Cons.prems(1)]] Cons.prems(1) by (simp_all add: rq_inv_def)
    have "recv_loop m fuel c ind nreq q = recv_loop m f (if rw_next w = 0 then None else Some (am_wr m (rw_next w)))
        ((ind + 1) AND (rq_cnt q - 1)) (nreq + 1) q1"
      using Cons.prems(2,6) c(1) f(1) rq_overflow [OF Cons.prems(1,4)] 3 q1(1-3) len by simp
    then have run: "recv_loop m fuel c ind nreq q = recv_loop m f (if rw_next w = 0 then None else Some (am_wr m (rw_next w)))
        (rq_pos q (Suc ?p)) (nreq + 1) q1"
      using rq_next [OF Cons.prems(1)] Cons.prems(6) by simp
    have rest: "r = rq_max_post q1 - (rq_outstanding q1 + (nreq + 1))" using Cons.prems(7) r by (simp add: s1)
    let ?k = "accepted (rq_max_gs q) r ws"
    have k: "k = Suc ?k" "recv_result (rq_max_gs q) room (w # ws) = recv_result (rq_max_gs q) r ws"
      using Cons.prems(8) 3(2) by (simp_all add: r accepted_Cons)
    obtain q' where q': "recv_loop m f (if rw_next w = 0 then None else Some (am_wr m (rw_next w))) (rq_pos q (Suc ?p)) (nreq + 1) q1 =
        Inr (recv_result (rq_max_gs q) r ws, nreq + 1 + ?k, q')" "same_rq q1 q'" "rq_inv q'"
      "rq_untouched {..<rq_outstanding q1 + (nreq + 1)} q1 q'"
      "\<forall>j<?k. rq_posted_at m q' (rq_outstanding q1 + (nreq + 1) + j) (ws ! j)"
      using Cons.IH [OF q1(5) _ c(2) _ f(2), of "nreq + 1" "rq_pos q (Suc ?p)" r ?k] Cons.prems(2) 3(1) rest by (auto simp: s1)
    have "rq_untouched {..<?p} q q'"
      using q1(7) q'(4) pc by (auto simp: rq_untouched_def s1)
    moreover have "rq_posted_at m q' (?p + j) ((w # ws) ! j)" if "j < k" for j
    proof (cases j)
      case 0
      then show ?thesis using q1(6) q'(4) by (auto simp: rq_posted_at_def rq_untouched_def s1 same_rqD [OF q'(2)])
    next
      case (Suc i)
      then show ?thesis using q'(5) that k(1) by (simp add: s1)
    qed
    ultimately show ?thesis using run q'(1,3) same_rq_trans [OF q1(4) q'(2)] k by (intro exI [of _ q']) auto
  qed
qed


section \<open>Whole calls\<close>

definition rq_frame :: "recv_queue \<Rightarrow> recv_queue \<Rightarrow> bool" where
  "rq_frame q q' \<longleftrightarrow> rq_cnt q' = rq_cnt q \<and> rq_max_post q' = rq_max_post q \<and> rq_max_gs q' = rq_max_gs q \<and> rq_tail q' = rq_tail q \<and>
     rq_ignore_overflow q' = rq_ignore_overflow q \<and> rq_init q' = rq_init q \<and> rq_exchange_done q' = rq_exchange_done q"

lemma rq_frameD:
  "rq_frame q q' \<Longrightarrow> rq_pos q' = rq_pos q"
  by (auto simp: rq_frame_def rq_pos_def fun_eq_iff)

lemma ring_recv_ok:
  assumes "rq_inv q" "rq_outstanding q + n \<le> rq_max_post q"
  shows "rq_inv (ring_recv n q)" "rq_outstanding (ring_recv n q) = rq_outstanding q + n" "rq_frame q (ring_recv n q)"
    "rq_slots (ring_recv n q) = rq_slots q" "rq_wrid (ring_recv n q) = rq_wrid q" "rq_rr (ring_recv n q) = rq_rr q"
    "0 < n \<Longrightarrow> rq_db (ring_recv n q) = be32 (rq_head (ring_recv n q) AND 0xffff)"
proof -
  obtain k where k: "k \<le> 16" "rq_cnt q = 2 ^ k" using assms(1) by (auto simp: rq_inv_def)
  have "rq_outstanding q + n \<le> 2 ^ 16"
    using assms k power_increasing [OF k(1), of "2 :: nat"] by (auto simp: rq_inv_def)
  then show o: "rq_outstanding (ring_recv n q) = rq_outstanding q + n"
    using outstanding_add [of "rq_head q" "rq_tail q" n] by (simp add: ring_recv_def rq_outstanding_def Let_def)
  show "rq_frame q (ring_recv n q)" "rq_slots (ring_recv n q) = rq_slots q" "rq_wrid (ring_recv n q) = rq_wrid q" "rq_rr (ring_recv n q) = rq_rr q"
    "0 < n \<Longrightarrow> rq_db (ring_recv n q) = be32 (rq_head (ring_recv n q) AND 0xffff)"
    by (simp_all add: ring_recv_def rq_frame_def Let_def)
  show "rq_inv (ring_recv n q)"
    using assms o by (simp add: rq_inv_def ring_recv_def Let_def split: if_splits)
qed

lemma post_recv_full:
  assumes "rq_inv q" "\<not> rq_ignore_overflow q" "is_chain m (Some w) ws" "length ws \<le> fuel"
    and "room = rq_max_post q - rq_outstanding q" "k = accepted (rq_max_gs q) room ws"
    and "(if rq_init q \<and> rq_exchange_done q = 0 then rr_buffer_enqueue rok mok w (rq_rr q) else Inr (0, rq_rr q)) = Inr (0, rr)"
  shows "\<exists>q'. mlx4_post_recv m rok mok fuel w q = Inr (recv_result (rq_max_gs q) room ws, q') \<and> rq_inv q' \<and>
    rq_outstanding q' = rq_outstanding q + k \<and> rq_frame q q' \<and> rq_rr q' = rr \<and> rq_untouched {..<rq_outstanding q} q q' \<and>
    (\<forall>j<k. rq_posted_at m q' (rq_outstanding q + j) (ws ! j)) \<and> (0 < k \<longrightarrow> rq_db q' = be32 (rq_head q' AND 0xffff))"
proof -
  let ?q = "q\<lparr>rq_rr := rr\<rparr>"
  have e: "(if rq_init q \<and> rq_exchange_done q = 0
        then res_bind (rr_buffer_enqueue rok mok w (rq_rr q)) (\<lambda>(r, b). Inr (r, q\<lparr>rq_rr := b\<rparr>))
        else Inr (0, q)) = Inr (0, ?q)"
    using assms(7) by (auto split: if_splits)
  have inv: "rq_inv ?q" and same: "rq_outstanding ?q = rq_outstanding q" "rq_pos ?q = rq_pos q"
    using assms(1) by (auto simp: rq_inv_def rq_outstanding_def rq_pos_def)
  have fits: "rq_outstanding q \<le> rq_max_post q" using assms(1) by (simp add: rq_inv_def)
  obtain q1 where q1: "recv_loop m fuel (Some w) (rq_pos ?q (rq_outstanding ?q + 0)) 0 ?q = Inr (recv_result (rq_max_gs q) room ws, 0 + k, q1)"
    "same_rq ?q q1" "rq_inv q1" "rq_untouched {..<rq_outstanding ?q + 0} ?q q1" "\<forall>j<k. rq_posted_at m q1 (rq_outstanding ?q + 0 + j) (ws ! j)"
    using recv_loop_ok [OF inv _ assms(3) _ assms(4) refl, of 0 room k] assms(2,5,6) fits same by auto
  note s = same_rqD [OF q1(2)]
  have "k \<le> room" using assms(6) by (simp add: accepted_def)
  then have "rq_outstanding q1 + k \<le> rq_max_post q1" using assms(5) fits same by (simp add: s)
  note r = ring_recv_ok [OF q1(3) this]
  have st: "unat (rq_head ?q) AND (rq_cnt ?q - 1) = rq_pos ?q (rq_outstanding ?q + 0)" using rq_start [OF inv] by simp
  have run: "mlx4_post_recv m rok mok fuel w q = Inr (recv_result (rq_max_gs q) room ws, ring_recv k q1)"
    unfolding mlx4_post_recv_def e res_bind_simps prod.case st q1(1) by simp
  have f: "rq_frame q (ring_recv k q1)" using r(3) by (simp add: rq_frame_def s)
  show ?thesis
    using run r f q1(4,5) same rq_frameD [OF r(3)] s
    by (intro exI [of _ "ring_recv k q1"]) (auto simp: rq_untouched_def rq_posted_at_def rq_frame_def)
qed

text \<open>When no request has too many elements.\<close>

lemma post_recv_ok:
  assumes "rq_inv q" "\<not> rq_ignore_overflow q" "is_chain m (Some w) ws" "\<forall>w\<in>set ws. rw_num_sge w \<le> rq_max_gs q"
    and "length ws \<le> fuel" "k = min (length ws) (rq_max_post q - rq_outstanding q)"
    and "(if rq_init q \<and> rq_exchange_done q = 0 then rr_buffer_enqueue rok mok w (rq_rr q) else Inr (0, rq_rr q)) = Inr (0, rr)"
  shows "\<exists>q'. mlx4_post_recv m rok mok fuel w q = Inr (if k < length ws then ENOMEM else 0, q') \<and> rq_inv q' \<and>
    rq_outstanding q' = rq_outstanding q + k \<and> rq_frame q q' \<and> rq_rr q' = rr \<and> rq_untouched {..<rq_outstanding q} q q' \<and>
    (\<forall>j<k. rq_posted_at m q' (rq_outstanding q + j) (ws ! j)) \<and> (0 < k \<longrightarrow> rq_db q' = be32 (rq_head q' AND 0xffff))"
  using post_recv_full [OF assms(1-3,5) refl refl assms(7)] unfolding accepted_all [OF assms(4)] assms(6) [symmetric] .

text \<open>
  C29: Posting a chain of receive requests to a queue that checks for overflow and does not remember requests. The call goes on until a request finds no room, and
  returns \<open>ENOMEM\<close>, or has more elements than the queue's limit, and returns \<open>EINVAL\<close>, or the chain ends, and returns 0. The requests before that are accepted, in
  order: each has its elements and the end mark in its slot and its identifier beside it; earlier requests are untouched; the doorbell record has
  the low 16 bits of the counter.
\<close>

theorem post_recv_queue:
  assumes "rq_inv q" "\<not> rq_ignore_overflow q" "is_chain m (Some w) ws" "length ws \<le> fuel" "\<not> (rq_init q \<and> rq_exchange_done q = 0)"
  shows "\<exists>q'. let room = rq_max_post q - rq_outstanding q; k = min (length (takeWhile (\<lambda>w. rw_num_sge w \<le> rq_max_gs q) ws)) room in
    mlx4_post_recv m rok mok fuel w q = Inr (if k = length ws then 0 else if k = room then ENOMEM else EINVAL, q') \<and> rq_inv q' \<and>
    rq_outstanding q' = rq_outstanding q + k \<and> rq_tail q' = rq_tail q \<and> rq_untouched {..<rq_outstanding q} q q' \<and>
    (\<forall>j<k. rq_posted_at m q' (rq_outstanding q + j) (ws ! j)) \<and> (0 < k \<longrightarrow> rq_db q' = be32 (rq_head q' AND 0xffff))"
proof -
  have "(if rq_init q \<and> rq_exchange_done q = 0 then rr_buffer_enqueue rok mok w (rq_rr q) else Inr (0, rq_rr q)) = Inr (0, rq_rr q)"
    using assms(5) by auto
  from post_recv_full [OF assms(1-4) refl refl this] show ?thesis by (auto simp: Let_def rq_frame_def accepted_def recv_result_def)
qed


section \<open>Remembering and replaying\<close>

definition rr_inv :: "rr_buffer \<Rightarrow> recv_wr list \<Rightarrow> bool" where
  "rr_inv b ws \<longleftrightarrow> length (rr_slot b) = rr_capacity b \<and> 0 < rr_capacity b \<and> rr_capacity b \<le> 2 ^ 20 \<and> rr_size b = length ws \<and>
     length ws \<le> rr_capacity b \<and> take (length ws) (rr_slot b) = map Some ws"

lemma rr_init_inv: "0 < cap \<Longrightarrow> cap \<le> 2 ^ 20 \<Longrightarrow> \<exists>b. rr_buffer_init True cap = Inr b \<and> rr_inv b []"
  by (simp add: rr_buffer_init_def rr_inv_def)

lemma rr_enqueue_ok:
  assumes "rr_inv b ws" "length ws < 2 ^ 19"
  shows "\<exists>b'. rr_buffer_enqueue True True w b = Inr (0, b') \<and> rr_inv b' (ws @ [w])"
proof (cases "rr_capacity b \<le> length ws")
  case True
  then have c: "rr_capacity b = length ws" "length (rr_slot b) = length ws" "rr_slot b = map Some ws" "0 < length ws"
    using assms(1) by (auto simp: rr_inv_def)
  moreover have "(2 * length ws) mod 2 ^ 32 = 2 * length ws" using assms(2) by simp
  moreover have "(map Some ws @ replicate (length ws) None)[length ws := Some w] = map Some (ws @ [w]) @ replicate (length ws - 1) None"
    using c(4) by (cases "length ws") (auto simp: list_update_append)
  ultimately show ?thesis
    using assms by (simp add: rr_buffer_enqueue_def rr_inv_def Let_def Suc_le_eq)
next
  case False
  then have "take (Suc (length ws)) ((rr_slot b)[length ws := Some w]) = map Some (ws @ [w])"
    using assms(1) by (simp add: rr_inv_def take_Suc_conv_app_nth)
  then show ?thesis using False assms(1) by (simp add: rr_buffer_enqueue_def rr_inv_def Let_def)
qed

text \<open>Calls one after the other, each with the memory as it is at the call, all of which succeed.\<close>

fun post_each :: "nat \<Rightarrow> (app_mem \<times> recv_wr) list \<Rightarrow> recv_queue \<Rightarrow> recv_queue res" where
  "post_each fuel [] q = Inr q"
| "post_each fuel ((m, w) # ps) q = res_bind (mlx4_post_recv m True True fuel w q) (\<lambda>(r, q).
     if r = 0 then post_each fuel ps q else Inl (Err_code r))"

lemma single_chain: "rw_next w = 0 \<Longrightarrow> is_chain m (Some w) [w]"
  by simp

lemma rq_untouched_trans:
  "rq_untouched A q q' \<Longrightarrow> rq_untouched B q' q'' \<Longrightarrow> A \<subseteq> B \<Longrightarrow> rq_frame q q' \<Longrightarrow> rq_untouched A q q''"
  by (auto simp: rq_untouched_def rq_frameD)

lemma rq_frame_trans: "rq_frame q q' \<Longrightarrow> rq_frame q' q'' \<Longrightarrow> rq_frame q q''"
  by (simp add: rq_frame_def)

lemma rq_posted_untouched:
  "rq_posted_at m q a w \<Longrightarrow> rq_untouched A q q' \<Longrightarrow> a \<in> A \<Longrightarrow> rq_frame q q' \<Longrightarrow> rq_posted_at m q' a w"
  by (auto simp: rq_posted_at_def rq_untouched_def rq_frame_def rq_pos_def)

lemma post_each_ok:
  assumes "rq_inv q" "\<not> rq_ignore_overflow q" "rq_init q" "rq_exchange_done q = 0" "rr_inv (rq_rr q) ws"
    and "\<forall>(m, w)\<in>set ps. rw_next w = 0 \<and> rw_num_sge w \<le> rq_max_gs q" "0 < fuel"
    and "rq_outstanding q + length ps \<le> rq_max_post q" "length ws + length ps < 2 ^ 19"
  shows "\<exists>q'. post_each fuel ps q = Inr q' \<and> rq_inv q' \<and> rq_frame q q' \<and> rr_inv (rq_rr q') (ws @ map snd ps) \<and>
    rq_outstanding q' = rq_outstanding q + length ps \<and> rq_untouched {..<rq_outstanding q} q q' \<and>
    (\<forall>j<length ps. rq_posted_at (fst (ps ! j)) q' (rq_outstanding q + j) (snd (ps ! j)))"
  using assms
proof (induction ps arbitrary: q ws)
  case Nil
  then show ?case by (simp add: rq_frame_def rq_untouched_def)
next
  case (Cons p ps)
  obtain m w where p: "p = (m, w)" by (cases p)
  obtain b where b: "rr_buffer_enqueue True True w (rq_rr q) = Inr (0, b)" "rr_inv b (ws @ [w])"
    using rr_enqueue_ok [OF Cons.prems(5), of w] Cons.prems(9) by auto
  have k: "1 = min (length [w]) (rq_max_post q - rq_outstanding q)" using Cons.prems(8) by simp
  obtain q1 where q1: "mlx4_post_recv m True True fuel w q = Inr (0, q1)" "rq_inv q1" "rq_outstanding q1 = rq_outstanding q + 1"
    "rq_frame q q1" "rq_rr q1 = b" "rq_untouched {..<rq_outstanding q} q q1" "rq_posted_at m q1 (rq_outstanding q) w"
    using post_recv_ok [OF Cons.prems(1,2) single_chain [of w m] _ _ k, of fuel True True b] Cons.prems(3,4,6,7) p b(1) by auto
  obtain q' where q': "post_each fuel ps q1 = Inr q'" "rq_inv q'" "rq_frame q1 q'" "rr_inv (rq_rr q') ((ws @ [w]) @ map snd ps)"
    "rq_outstanding q' = rq_outstanding q1 + length ps" "rq_untouched {..<rq_outstanding q1} q1 q'"
    "\<forall>j<length ps. rq_posted_at (fst (ps ! j)) q' (rq_outstanding q1 + j) (snd (ps ! j))"
    using Cons.IH [OF q1(2), of "ws @ [w]"] Cons.prems(2-9) q1(3-5) b(2) by (auto simp: rq_frame_def)
  have u: "rq_untouched {..<rq_outstanding q} q q'"
    using rq_untouched_trans [OF q1(6) q'(6) _ q1(4)] q1(3) by auto
  have at: "rq_posted_at (fst ((p # ps) ! j)) q' (rq_outstanding q + j) (snd ((p # ps) ! j))" if "j < length (p # ps)" for j
  proof (cases j)
    case 0
    then show ?thesis using rq_posted_untouched [OF q1(7) q'(6) _ q'(3)] q1(3) p by simp
  next
    case (Suc i)
    then show ?thesis using q'(7) q1(3) that by auto
  qed
  show ?case using q1(1,3) q'(1,2,4,5) u at rq_frame_trans [OF q1(4) q'(3)] p by (intro exI [of _ q']) auto
qed

lemma rr_post_ok:
  assumes "rq_inv q" "\<not> rq_ignore_overflow q" "\<not> rq_init q" "rr_size (rq_rr q) = length ws" "length ws \<le> length (rr_slot (rq_rr q))"
    and "\<forall>j. i \<le> j \<and> j < length ws \<longrightarrow> rr_slot (rq_rr q) ! j = Some (ws ! j)"
    and "\<forall>w\<in>set ws. rw_next w = 0 \<and> rw_num_sge w \<le> rq_max_gs q" "0 < fuel"
    and "rq_outstanding q + (length ws - i) \<le> rq_max_post q" "length ws - i \<le> k"
  shows "\<exists>q'. rr_post m rok mok fuel k i q = Inr (0, q') \<and> rq_inv q' \<and> rq_frame q q' \<and> rq_outstanding q' = rq_outstanding q + (length ws - i) \<and>
    rq_untouched {..<rq_outstanding q} q q' \<and> (\<forall>j<length ws - i. rq_posted_at m q' (rq_outstanding q + j) (ws ! (i + j)))"
  using assms
proof (induction k arbitrary: i q)
  case 0
  then show ?case by (simp add: rq_frame_def rq_untouched_def)
next
  case (Suc k)
  show ?case
  proof (cases "i < length ws")
    case False
    then show ?thesis using Suc.prems by (simp add: rq_frame_def rq_untouched_def)
  next
    case True
    let ?w = "ws ! i"
    have w: "?w \<in> set ws" using True by simp
    have kk: "1 = min (length [?w]) (rq_max_post q - rq_outstanding q)" using Suc.prems(9) True by simp
    obtain q1 where q1: "mlx4_post_recv m rok mok fuel ?w q = Inr (0, q1)" "rq_inv q1" "rq_outstanding q1 = rq_outstanding q + 1"
      "rq_frame q q1" "rq_rr q1 = rq_rr q" "rq_untouched {..<rq_outstanding q} q q1" "rq_posted_at m q1 (rq_outstanding q) ?w"
      using post_recv_ok [OF Suc.prems(1,2) single_chain [of ?w m] _ _ kk, of fuel rok mok "rq_rr q"] Suc.prems(3,7,8) w by auto
    let ?q2 = "q1\<lparr>rq_rr := (rq_rr q1)\<lparr>rr_slot := (rr_slot (rq_rr q1))[i := None]\<rparr>\<rparr>"
    have q2: "rq_inv ?q2" "rq_frame q ?q2" "rq_outstanding ?q2 = rq_outstanding q + 1" "rq_untouched {..<rq_outstanding q} q ?q2"
      "rq_posted_at m ?q2 (rq_outstanding q) ?w" "rq_pos ?q2 = rq_pos q1"
      using q1(2-4,6,7) by (auto simp: rq_inv_def rq_frame_def rq_outstanding_def rq_untouched_def rq_posted_at_def rq_pos_def)
    have run: "rr_post m rok mok fuel (Suc k) i q = rr_post m rok mok fuel k (i + 1) ?q2"
      using True Suc.prems(4-6) q1(1) by simp
    have "length ws - (i + 1) \<le> k" using Suc.prems(10) by simp
    then obtain q' where q': "rr_post m rok mok fuel k (i + 1) ?q2 = Inr (0, q')" "rq_inv q'" "rq_frame ?q2 q'"
      "rq_outstanding q' = rq_outstanding ?q2 + (length ws - (i + 1))" "rq_untouched {..<rq_outstanding ?q2} ?q2 q'"
      "\<forall>j<length ws - (i + 1). rq_posted_at m q' (rq_outstanding ?q2 + j) (ws ! (i + 1 + j))"
      using Suc.IH [OF q2(1), of "i + 1"] Suc.prems(2-10) q1(4,5) q2(3) True by (auto simp: rq_frame_def nth_list_update)
    have at: "rq_posted_at m q' (rq_outstanding q + j) (ws ! (i + j))" if "j < length ws - i" for j
    proof (cases j)
      case 0
      then show ?thesis using rq_posted_untouched [OF q2(5) q'(5) _ q'(3)] q2(3) by simp
    next
      case (Suc l)
      then show ?thesis using q'(6) q2(3) that by auto
    qed
    have "rq_untouched {..<rq_outstanding q} q q'"
      using rq_untouched_trans [OF q2(4) q'(5) _ q2(2)] q2(3) by auto
    then show ?thesis
      using run q'(1,2,4) q2(3) at True rq_frame_trans [OF q2(2) q'(3)] by (intro exI [of _ q']) auto
  qed
qed


text \<open>
  What has been remembered can be posted again to any empty queue of the same shape that does not remember: after the replay it
  holds the requests in their order, each with the elements its list has by then.
\<close>

lemma replay_ok:
  assumes "rq_inv q" "\<not> rq_ignore_overflow q" "\<not> rq_init q" "rq_outstanding q = 0" "rr_inv (rq_rr q) ws"
    and "\<forall>w\<in>set ws. rw_next w = 0 \<and> rw_num_sge w \<le> rq_max_gs q" "0 < fuel" "length ws \<le> fuel" "length ws \<le> rq_max_post q"
  shows "\<exists>q'. rr_buffer_post_and_clear m rok mok fuel q = Inr (0, q') \<and> rq_inv q' \<and> rq_outstanding q' = length ws \<and>
    (\<forall>j<length ws. rq_posted_at m q' j (ws ! j))"
proof -
  have slots: "\<forall>j. 0 \<le> j \<and> j < length ws \<longrightarrow> rr_slot (rq_rr q) ! j = Some (ws ! j)"
    using assms(5) unfolding rr_inv_def by (metis nth_map nth_take)
  have "rr_size (rq_rr q) = length ws" "length ws \<le> length (rr_slot (rq_rr q))" using assms(5) by (simp_all add: rr_inv_def)
  from rr_post_ok [OF assms(1-3) this slots assms(6,7), of fuel m rok mok] show ?thesis
    using assms(4,8,9) by (auto simp: rr_buffer_post_and_clear_def)
qed


text \<open>Inputs of the examples: a queue with two slots, two requests in one variable, and memories.\<close>

definition ex_rq :: recv_queue where
  "ex_rq = \<lparr>rq_slots = replicate 2 (replicate 16 0), rq_wrid = [0, 0], rq_cnt = 2, rq_max_post = 2, rq_max_gs = 1, rq_head = 0, rq_tail = 0,
     rq_db = replicate 4 0, rq_ignore_overflow = False, rq_inlr = None, rq_init = True, rq_exchange_done = 0,
     rq_rr = \<lparr>rr_slot = [None], rr_size = 0, rr_capacity = 1\<rparr>\<rparr>"

definition ex_rw :: "u64 \<Rightarrow> u64 \<Rightarrow> recv_wr" where
  "ex_rw i next = \<lparr>rw_id = i, rw_next = next, rw_sg_list = 0x500, rw_num_sge = 1\<rparr>"

definition ex_mem :: "nat \<Rightarrow> app_mem" where
  "ex_mem n = \<lparr>am_wr = (\<lambda>a. ex_rw 8 0), am_sge = (\<lambda>a. ex_sge n)\<rparr>"

lemma ex_rq_ok: "rq_inv ex_rq" "\<not> rq_ignore_overflow ex_rq" "rq_init ex_rq" "rq_exchange_done ex_rq = 0" "rr_inv (rq_rr ex_rq) []"
  "rq_outstanding ex_rq = 0"
proof -
  have "\<exists>k\<le>16. rq_cnt ex_rq = 2 ^ k" by (intro exI [of _ 1]) (simp add: ex_rq_def)
  then show "rq_inv ex_rq" unfolding rq_inv_def by (simp add: ex_rq_def rq_outstanding_def)
qed (simp_all add: ex_rq_def rr_inv_def rq_outstanding_def)

lemma post_recv_queue_witness:
  "\<exists>q'. mlx4_post_recv (ex_mem 4) True True 3 (ex_rw 7 0x900) (ex_rq\<lparr>rq_init := False\<rparr>) = Inr (0, q') \<and> rq_outstanding q' = 2 \<and>
    rq_posted_at (ex_mem 4) q' 1 (ex_rw 8 0)"
proof -
  have "rq_inv (ex_rq\<lparr>rq_init := False\<rparr>)" using ex_rq_ok(1) by (simp add: rq_inv_def rq_outstanding_def)
  moreover have c: "is_chain (ex_mem 4) (Some (ex_rw 7 0x900)) [ex_rw 7 0x900, ex_rw 8 0]" by (simp add: ex_rw_def ex_mem_def)
  moreover have room: "rq_max_post (ex_rq\<lparr>rq_init := False\<rparr>) - rq_outstanding (ex_rq\<lparr>rq_init := False\<rparr>) = 2"
    "rq_outstanding (ex_rq\<lparr>rq_init := False\<rparr>) = 0"
    "takeWhile (\<lambda>w. rw_num_sge w \<le> rq_max_gs (ex_rq\<lparr>rq_init := False\<rparr>)) [ex_rw 7 0x900, ex_rw 8 0] = [ex_rw 7 0x900, ex_rw 8 0]"
    by (simp_all add: ex_rq_def ex_rw_def rq_outstanding_def)
  moreover have "\<not> rq_ignore_overflow (ex_rq\<lparr>rq_init := False\<rparr>)" by (simp add: ex_rq_def)
  ultimately obtain q' where "mlx4_post_recv (ex_mem 4) True True 3 (ex_rw 7 0x900) (ex_rq\<lparr>rq_init := False\<rparr>) = Inr (0, q')"
      "rq_outstanding q' = 2" "\<forall>j<2. rq_posted_at (ex_mem 4) q' j ([ex_rw 7 0x900, ex_rw 8 0] ! j)"
    using post_recv_queue [of "ex_rq\<lparr>rq_init := False\<rparr>" "ex_mem 4" "ex_rw 7 0x900" "[ex_rw 7 0x900, ex_rw 8 0]" 3 True True]
    unfolding Let_def room by (auto simp del: One_nat_def)
  then show ?thesis by (auto simp: less_Suc_eq numeral_2_eq_2)
qed

end
