(* ===== verification/Id_Table.thy ===== *)
theory Id_Table
  imports Verbs_Data
begin

text \<open>
  The tables by which the driver finds a queue pair or a shared receive queue from the number in a completion: two
  levels, the second allocated while it has entries. \<open>mlx4_find_qp\<close>, \<open>mlx4_store_qp\<close>, \<open>mlx4_clear_qp\<close> are in
  \<open>libmlx4/src/qp.c\<close>, \<open>mlx4_find_xsrq\<close>, \<open>mlx4_store_xsrq\<close>, \<open>mlx4_clear_xsrq\<close> in \<open>libmlx4/src/srq.c\<close>. What both promise is
  the locale \<open>id_map\<close>: a map from numbers, of which only the low bits count.
\<close>

unbundle bit_operations_syntax

section \<open>The interface\<close>

text \<open>
  A history of objects that come (\<open>Some\<close>) and go (\<open>None\<close>), as the application creates and destroys them, is valid when a
  number is given only while free and freed only while given; \<open>k\<close> is the part of a number that counts.
\<close>

fun valid_life :: "(u32 \<times> 'p option) list \<Rightarrow> (u32 \<Rightarrow> nat) \<Rightarrow> (nat \<Rightarrow> 'p option) \<Rightarrow> bool" where
  "valid_life [] k m \<longleftrightarrow> True"
| "valid_life ((n, v) # es) k m \<longleftrightarrow> (case v of Some p \<Rightarrow> m (k n) = None | None \<Rightarrow> m (k n) \<noteq> None) \<and> valid_life es k (m(k n := v))"

definition final :: "(u32 \<times> 'p option) list \<Rightarrow> (u32 \<Rightarrow> nat) \<Rightarrow> (nat \<Rightarrow> 'p option) \<Rightarrow> nat \<Rightarrow> 'p option" where
  "final es k m = foldl (\<lambda>m (n, v). m(k n := v)) m es"

locale id_map =
  fixes find_id :: "'t \<Rightarrow> u32 \<Rightarrow> 'p option res"
    and store_id :: "'t \<Rightarrow> u32 \<Rightarrow> 'p \<Rightarrow> 't res"
    and clear_id :: "'t \<Rightarrow> u32 \<Rightarrow> 't res"
    and entries :: "'t \<Rightarrow> nat \<Rightarrow> 'p option"
    and key :: "'t \<Rightarrow> u32 \<Rightarrow> nat"
    and inv :: "'t \<Rightarrow> bool"
  assumes find_ok: "inv t \<Longrightarrow> find_id t n = Inr (entries t (key t n))"
    and store_ok: "\<lbrakk>inv t; entries t (key t n) = None\<rbrakk> \<Longrightarrow> \<exists>t'. store_id t n p = Inr t' \<and> inv t' \<and> key t' = key t \<and>
      entries t' = (entries t)(key t n := Some p)"
    and clear_ok: "\<lbrakk>inv t; entries t (key t n) \<noteq> None\<rbrakk> \<Longrightarrow> \<exists>t'. clear_id t n = Inr t' \<and> inv t' \<and> key t' = key t \<and>
      entries t' = (entries t)(key t n := None)"
begin

fun life :: "(u32 \<times> 'p option) list \<Rightarrow> 't \<Rightarrow> 't res" where
  "life [] t = Inr t"
| "life ((n, Some p) # es) t = res_bind (store_id t n p) (life es)"
| "life ((n, None) # es) t = res_bind (clear_id t n) (life es)"

lemma life_ok:
  assumes "inv t" "valid_life es (key t) (entries t)"
  shows "\<exists>t'. life es t = Inr t' \<and> inv t' \<and> key t' = key t \<and> entries t' = final es (key t) (entries t)"
  using assms
proof (induction es arbitrary: t)
  case Nil
  then show ?case by (simp add: final_def)
next
  case (Cons e es)
  obtain n v where e: "e = (n, v)" by (cases e)
  have "\<exists>t1. life (e # es) t = life es t1 \<and> inv t1 \<and> key t1 = key t \<and> entries t1 = (entries t)(key t n := v)"
  proof (cases v)
    case None
    then show ?thesis using clear_ok [OF Cons.prems(1), of n] Cons.prems(2) e by auto
  next
    case (Some p)
    then show ?thesis using store_ok [OF Cons.prems(1), of n p] Cons.prems(2) e by auto
  qed
  then obtain t1 where "life (e # es) t = life es t1" "inv t1" "key t1 = key t" "entries t1 = (entries t)(key t n := v)" by blast
  moreover have "valid_life es (key t) ((entries t)(key t n := v))"
    using Cons.prems(2) e by simp
  moreover have "final (e # es) (key t) (entries t) = final es (key t) ((entries t)(key t n := v))"
    by (simp add: final_def e)
  ultimately show ?case using Cons.IH [of t1] by (simp del: fun_upd_apply)
qed

lemma find_after_life:
  assumes "inv t" "valid_life es (key t) (entries t)"
  shows "\<exists>t'. life es t = Inr t' \<and> (\<forall>n. find_id t' n = Inr (final es (key t) (entries t) (key t n)))"
  using life_ok [OF assms] find_ok by fastforce

end

section \<open>The tables\<close>

record 'p table_level =
  tl_refcnt :: int
  tl_table :: "'p option list option"

record 'p id_table =
  it_num :: nat
  it_shift :: nat
  it_mask :: nat
  it_levels :: "'p table_level list"

definition TABLE_BITS :: nat where [macro_defs]: "TABLE_BITS = 8"

text \<open>
  The sizes come from the kernel; \<open>num\<close> is a power of two. \<open>ffs\<close> is one more than the place of the lowest set bit.
\<close>

definition init_table :: "nat \<Rightarrow> 'p id_table" where
  "init_table log_num =
     (let shift = log_num - TABLE_BITS
      in \<lparr>it_num = 2 ^ log_num, it_shift = shift, it_mask = 2 ^ shift - 1,
          it_levels = replicate (2 ^ TABLE_BITS) \<lparr>tl_refcnt = 0, tl_table = None\<rparr>\<rparr>)"

definition tind :: "'p id_table \<Rightarrow> u32 \<Rightarrow> nat" where
  "tind t n = drop_bit (it_shift t) (unat n AND (it_num t - 1))"

definition mlx4_find_qp :: "'p id_table \<Rightarrow> u32 \<Rightarrow> 'p option res" where
  "mlx4_find_qp t qpn = res_bind (arr_get (it_levels t) (tind t qpn)) (\<lambda>l.
     if tl_refcnt l \<noteq> 0 then
       (case tl_table l of None \<Rightarrow> Inl Null_deref | Some tb \<Rightarrow> arr_get tb (unat qpn AND it_mask t))
     else Inr None)"

text \<open>\<open>calloc_ok\<close>: whether memory is found; \<open>-1\<close> is returned when it is not.\<close>

definition mlx4_store_qp :: "bool \<Rightarrow> 'p id_table \<Rightarrow> u32 \<Rightarrow> 'p \<Rightarrow> 'p id_table res" where
  "mlx4_store_qp calloc_ok t qpn p = res_bind (arr_get (it_levels t) (tind t qpn)) (\<lambda>l.
     res_bind (if tl_refcnt l = 0
         then if calloc_ok then Inr (l\<lparr>tl_table := Some (replicate (it_mask t + 1) None)\<rparr>) else Inl (Err_code (- 1))
         else Inr l) (\<lambda>l.
     case tl_table l of None \<Rightarrow> Inl Null_deref
     | Some tb \<Rightarrow> res_bind (arr_set tb (unat qpn AND it_mask t) (Some p)) (\<lambda>tb.
         Inr (t\<lparr>it_levels := (it_levels t)[tind t qpn := \<lparr>tl_refcnt = tl_refcnt l + 1, tl_table = Some tb\<rparr>]\<rparr>))))"

definition mlx4_clear_qp :: "'p id_table \<Rightarrow> u32 \<Rightarrow> 'p id_table res" where
  "mlx4_clear_qp t qpn = res_bind (arr_get (it_levels t) (tind t qpn)) (\<lambda>l.
     let l = l\<lparr>tl_refcnt := tl_refcnt l - 1\<rparr> in
     res_bind (if tl_refcnt l = 0 then Inr (l\<lparr>tl_table := None\<rparr>)
       else case tl_table l of None \<Rightarrow> Inl Null_deref
         | Some tb \<Rightarrow> res_bind (arr_set tb (unat qpn AND it_mask t) None) (\<lambda>tb. Inr (l\<lparr>tl_table := Some tb\<rparr>))) (\<lambda>l.
     Inr (t\<lparr>it_levels := (it_levels t)[tind t qpn := l]\<rparr>)))"

definition mlx4_find_xsrq :: "'p id_table \<Rightarrow> u32 \<Rightarrow> 'p option res" where
  "mlx4_find_xsrq t srqn = res_bind (arr_get (it_levels t) (tind t srqn)) (\<lambda>l.
     if tl_refcnt l \<noteq> 0 then
       (case tl_table l of None \<Rightarrow> Inl Null_deref | Some tb \<Rightarrow> arr_get tb (unat srqn AND it_mask t))
     else Inr None)"

definition mlx4_store_xsrq :: "bool \<Rightarrow> 'p id_table \<Rightarrow> u32 \<Rightarrow> 'p \<Rightarrow> 'p id_table res" where
  "mlx4_store_xsrq calloc_ok t srqn p = res_bind (arr_get (it_levels t) (tind t srqn)) (\<lambda>l.
     res_bind (if tl_refcnt l = 0
         then if calloc_ok then Inr (l\<lparr>tl_table := Some (replicate (it_mask t + 1) None)\<rparr>) else Inl (Err_code (- 1))
         else Inr l) (\<lambda>l.
     case tl_table l of None \<Rightarrow> Inl Null_deref
     | Some tb \<Rightarrow> res_bind (arr_set tb (unat srqn AND it_mask t) (Some p)) (\<lambda>tb.
         Inr (t\<lparr>it_levels := (it_levels t)[tind t srqn := \<lparr>tl_refcnt = tl_refcnt l + 1, tl_table = Some tb\<rparr>]\<rparr>))))"

definition mlx4_clear_xsrq :: "'p id_table \<Rightarrow> u32 \<Rightarrow> 'p id_table res" where
  "mlx4_clear_xsrq t srqn = res_bind (arr_get (it_levels t) (tind t srqn)) (\<lambda>l.
     let l = l\<lparr>tl_refcnt := tl_refcnt l - 1\<rparr> in
     res_bind (if tl_refcnt l \<noteq> 0
       then (case tl_table l of None \<Rightarrow> Inl Null_deref
         | Some tb \<Rightarrow> res_bind (arr_set tb (unat srqn AND it_mask t) None) (\<lambda>tb. Inr (l\<lparr>tl_table := Some tb\<rparr>)))
       else Inr (l\<lparr>tl_table := None\<rparr>)) (\<lambda>l.
     Inr (t\<lparr>it_levels := (it_levels t)[tind t srqn := l]\<rparr>)))"

section \<open>Refinement\<close>

text \<open>Second-level index and first-level index make up the low bits of the number.\<close>

definition id_key :: "'p id_table \<Rightarrow> u32 \<Rightarrow> nat" where
  "id_key t n = unat n mod it_num t"

definition level_entries :: "'p table_level \<Rightarrow> nat \<Rightarrow> 'p option" where
  "level_entries l j = (if tl_refcnt l = 0 then None else case tl_table l of None \<Rightarrow> None
     | Some tb \<Rightarrow> if j < length tb then tb ! j else None)"

definition id_entries :: "'p id_table \<Rightarrow> nat \<Rightarrow> 'p option" where
  "id_entries t k = (if k < it_num t then level_entries (it_levels t ! (k div 2 ^ it_shift t)) (k mod 2 ^ it_shift t) else None)"

definition level_ok :: "nat \<Rightarrow> 'p table_level \<Rightarrow> bool" where
  "level_ok sh l \<longleftrightarrow> (if tl_refcnt l = 0 then True
     else \<exists>tb. tl_table l = Some tb \<and> length tb = 2 ^ sh \<and> tl_refcnt l = int (length (filter (\<lambda>p. p \<noteq> None) tb)))"

definition table_inv :: "'p id_table \<Rightarrow> bool" where
  "table_inv t \<longleftrightarrow> it_num t = 2 ^ it_shift t * 2 ^ TABLE_BITS \<and> it_mask t = 2 ^ it_shift t - 1 \<and>
     length (it_levels t) = 2 ^ TABLE_BITS \<and> (\<forall>l\<in>set (it_levels t). level_ok (it_shift t) l)"

lemma length_filter_update:
  assumes "j < length xs"
  shows "int (length (filter P (xs[j := x]))) = int (length (filter P xs)) + (if P x then 1 else 0) - (if P (xs ! j) then 1 else 0)"
  using assms
proof (induction xs arbitrary: j)
  case Nil
  then show ?case by simp
next
  case (Cons y ys)
  show ?case
  proof (cases j)
    case 0
    then show ?thesis by simp
  next
    case (Suc i)
    then show ?thesis using Cons.IH [of i] Cons.prems by (simp split: if_splits)
  qed
qed

lemma level_store:
  assumes "level_ok sh l" "level_entries l j = None" "j < 2 ^ sh"
    and tb: "tb = (if tl_refcnt l = 0 then replicate (2 ^ sh) None else the (tl_table l))"
    and l': "l' = \<lparr>tl_refcnt = tl_refcnt l + 1, tl_table = Some (tb[j := Some p])\<rparr>"
  shows "level_ok sh l'" "level_entries l' = (level_entries l)(j := Some p)"
proof -
  have len: "length tb = 2 ^ sh" and cnt: "tl_refcnt l = int (length (filter (\<lambda>p. p \<noteq> None) tb))" and j: "tb ! j = None"
    using assms by (auto simp: level_ok_def level_entries_def split: if_splits)
  have pos: "tl_refcnt l + 1 \<noteq> 0" using cnt by simp
  show "level_ok sh l'"
    using length_filter_update [of j tb "\<lambda>p. p \<noteq> None" "Some p"] len cnt j pos \<open>j < 2 ^ sh\<close> l'
    by (simp add: level_ok_def)
  have old: "level_entries l i = (if i < 2 ^ sh then tb ! i else None)" for i
    using assms by (auto simp: level_ok_def level_entries_def split: if_splits)
  show "level_entries l' = (level_entries l)(j := Some p)"
    using pos len \<open>j < 2 ^ sh\<close> by (intro ext) (simp add: old l', auto simp: level_entries_def nth_list_update)
qed

lemma level_clear:
  assumes "level_ok sh l" "level_entries l j \<noteq> None"
    and l': "l' = (if tl_refcnt l = 1 then \<lparr>tl_refcnt = 0, tl_table = None\<rparr>
      else \<lparr>tl_refcnt = tl_refcnt l - 1, tl_table = Some ((the (tl_table l))[j := None])\<rparr>)"
  shows "level_ok sh l'" "level_entries l' = (level_entries l)(j := None)"
proof -
  obtain tb where tb: "tl_refcnt l \<noteq> 0" "tl_table l = Some tb" "length tb = 2 ^ sh" "j < 2 ^ sh" "tb ! j \<noteq> None"
      "tl_refcnt l = int (length (filter (\<lambda>p. p \<noteq> None) tb))"
    using assms(1,2) by (auto simp: level_ok_def level_entries_def split: if_splits)
  have cnt: "int (length (filter (\<lambda>p. p \<noteq> None) (tb[j := None]))) = tl_refcnt l - 1"
    using length_filter_update [of j tb "\<lambda>p. p \<noteq> None" None] tb by simp
  show "level_ok sh l'"
    using cnt tb l' by (simp add: level_ok_def)
  have last: "(tb[j := None]) ! i = None" if "tl_refcnt l = 1" "i < 2 ^ sh" for i
  proof -
    have "filter (\<lambda>p. p \<noteq> None) (tb[j := None]) = []"
      using cnt that(1) by simp
    then show ?thesis
      using nth_mem [of i "tb[j := None]"] that(2) tb(3) unfolding filter_empty_conv by (metis length_list_update)
  qed
  show "level_entries l' = (level_entries l)(j := None)"
  proof
    fix i
    have "(if i = j then None else tb ! i) = None" if "tl_refcnt l = 1" "i < 2 ^ sh"
      using last [OF that] tb(3,4) that(2) by (simp add: nth_list_update split: if_splits)
    then show "level_entries l' i = ((level_entries l)(j := None)) i"
      using tb(1-4) by (cases "tl_refcnt l = 1") (auto simp: level_entries_def l' nth_list_update split: if_splits)
  qed
qed

lemma tind_id_key: "table_inv t \<Longrightarrow> tind t n = id_key t n div 2 ^ it_shift t"
  using and_ring_mask [of "unat n" "it_shift t + TABLE_BITS"]
  by (simp add: tind_def id_key_def table_inv_def power_add drop_bit_eq_div)

lemma low_id_key: "table_inv t \<Longrightarrow> unat n AND it_mask t = id_key t n mod 2 ^ it_shift t"
  using and_ring_mask [of "unat n" "it_shift t"]
  by (simp add: id_key_def table_inv_def mod_mod_cancel)

lemma id_key_less: "table_inv t \<Longrightarrow> id_key t n < it_num t"
  by (simp add: id_key_def table_inv_def)

lemma tind_less: "table_inv t \<Longrightarrow> tind t n < length (it_levels t)"
  using id_key_less [of t n] by (simp add: tind_id_key table_inv_def less_mult_imp_div_less mult.commute)

lemma level_of:
  assumes "table_inv t"
  shows "level_ok (it_shift t) (it_levels t ! tind t n)"
    and "id_entries t (id_key t n) = level_entries (it_levels t ! tind t n) (unat n AND it_mask t)"
proof -
  show "level_ok (it_shift t) (it_levels t ! tind t n)"
    using tind_less [OF assms, of n] assms by (simp add: table_inv_def)
  show "id_entries t (id_key t n) = level_entries (it_levels t ! tind t n) (unat n AND it_mask t)"
    using id_key_less [OF assms, of n] by (simp add: id_entries_def tind_id_key [OF assms] low_id_key [OF assms])
qed

lemma table_update:
  assumes inv: "table_inv t" and ok: "level_ok (it_shift t) l'"
    and entries: "level_entries l' = (level_entries (it_levels t ! tind t n))(unat n AND it_mask t := v)"
    and t': "t' = t\<lparr>it_levels := (it_levels t)[tind t n := l']\<rparr>"
  shows "table_inv t' \<and> id_key t' = id_key t \<and> id_entries t' = (id_entries t)(id_key t n := v)"
proof (intro conjI ext)
  show "table_inv t'"
  proof -
    have "level_ok (it_shift t) l" if "l \<in> set ((it_levels t)[tind t n := l'])" for l
      using that inv ok set_update_subset_insert [of "it_levels t" "tind t n" l'] unfolding table_inv_def by blast
    then show ?thesis using inv by (simp add: table_inv_def t')
  qed
  show "id_key t' m = id_key t m" for m
    by (simp add: id_key_def t')
  define sh where "sh = it_shift t"
  fix k
  have same: "k = id_key t n \<longleftrightarrow> k div 2 ^ sh = tind t n \<and> k mod 2 ^ sh = unat n AND it_mask t"
    unfolding tind_id_key [OF inv] low_id_key [OF inv] sh_def by (metis div_mult_mod_eq)
  show "id_entries t' k = ((id_entries t)(id_key t n := v)) k"
  proof (cases "k div 2 ^ sh = tind t n")
    case True
    then show ?thesis
      using same entries tind_less [OF inv, of n] id_key_less [OF inv, of n] by (auto simp: id_entries_def t' sh_def)
  next
    case False
    then show ?thesis using same by (auto simp: id_entries_def t' sh_def)
  qed
qed

lemma find_qp_ok: "table_inv t \<Longrightarrow> mlx4_find_qp t n = Inr (id_entries t (id_key t n))"
proof -
  assume inv: "table_inv t"
  define l where "l = it_levels t ! tind t n"
  have j: "unat n AND it_mask t < 2 ^ it_shift t"
    by (simp add: low_id_key [OF inv])
  have "level_ok (it_shift t) l" "id_entries t (id_key t n) = level_entries l (unat n AND it_mask t)"
    using level_of [OF inv, of n] by (simp_all add: l_def)
  then show ?thesis
    using tind_less [OF inv, of n] j
    by (auto simp: mlx4_find_qp_def l_def [symmetric] level_ok_def level_entries_def split: if_splits)
qed

lemma store_qp_ok:
  assumes inv: "table_inv t" and free: "id_entries t (id_key t n) = None"
  shows "\<exists>t'. mlx4_store_qp True t n p = Inr t' \<and> table_inv t' \<and> id_key t' = id_key t \<and>
    id_entries t' = (id_entries t)(id_key t n := Some p)"
proof -
  define l where "l = it_levels t ! tind t n"
  define j where "j = unat n AND it_mask t"
  define tb where "tb = (if tl_refcnt l = 0 then replicate (2 ^ it_shift t) None else the (tl_table l))"
  define l' where "l' = \<lparr>tl_refcnt = tl_refcnt l + 1, tl_table = Some (tb[j := Some p])\<rparr>"
  have l: "level_ok (it_shift t) l" "level_entries l j = None" and j: "j < 2 ^ it_shift t"
    using level_of [OF inv, of n] free by (simp_all add: l_def j_def low_id_key [OF inv])
  note lev = level_store [OF l j tb_def l'_def]
  have mask: "it_mask t + 1 = 2 ^ it_shift t"
    using inv by (simp add: table_inv_def)
  have "mlx4_store_qp True t n p = Inr (t\<lparr>it_levels := (it_levels t)[tind t n := l']\<rparr>)"
    using tind_less [OF inv, of n] l(1) j
    by (auto simp: mlx4_store_qp_def l_def [symmetric] j_def [symmetric] mask [unfolded Suc_eq_plus1 [symmetric]] tb_def l'_def
        level_ok_def simp del: replicate.simps split: if_splits)
  then show ?thesis
    using table_update [OF inv lev [unfolded l_def j_def] refl] by simp
qed

lemma clear_qp_ok:
  assumes inv: "table_inv t" and used: "id_entries t (id_key t n) \<noteq> None"
  shows "\<exists>t'. mlx4_clear_qp t n = Inr t' \<and> table_inv t' \<and> id_key t' = id_key t \<and>
    id_entries t' = (id_entries t)(id_key t n := None)"
proof -
  define l where "l = it_levels t ! tind t n"
  define j where "j = unat n AND it_mask t"
  define l' where "l' = (if tl_refcnt l = 1 then \<lparr>tl_refcnt = 0, tl_table = None\<rparr>
      else \<lparr>tl_refcnt = tl_refcnt l - 1, tl_table = Some ((the (tl_table l))[j := None])\<rparr>)"
  have l: "level_ok (it_shift t) l" "level_entries l j \<noteq> None" and j: "j < 2 ^ it_shift t"
    using level_of [OF inv, of n] used by (simp_all add: l_def j_def low_id_key [OF inv])
  note lev = level_clear [OF l l'_def]
  have eq: "l\<lparr>tl_refcnt := r, tl_table := b\<rparr> = \<lparr>tl_refcnt = r, tl_table = b\<rparr>" for r b
    by simp
  have "mlx4_clear_qp t n = Inr (t\<lparr>it_levels := (it_levels t)[tind t n := l']\<rparr>)"
    using tind_less [OF inv, of n] l j
    by (auto simp: mlx4_clear_qp_def l_def [symmetric] j_def [symmetric] l'_def eq level_ok_def level_entries_def Let_def
        split: if_splits)
  then show ?thesis
    using table_update [OF inv lev [unfolded l_def j_def] refl] by simp
qed

lemma init_table_ok:
  assumes "TABLE_BITS \<le> b"
  shows "table_inv (init_table b) \<and> id_entries (init_table b) = (\<lambda>_. None) \<and> id_key (init_table b) n = unat n mod 2 ^ b"
  using assms
  by (auto simp: table_inv_def init_table_def id_key_def id_entries_def level_ok_def level_entries_def Let_def
      power_add [symmetric] fun_eq_iff nth_replicate less_mult_imp_div_less)

lemma xsrq_ops:
  "mlx4_find_xsrq = mlx4_find_qp" "mlx4_store_xsrq = mlx4_store_qp" "mlx4_clear_xsrq = mlx4_clear_qp"
  by (auto simp: fun_eq_iff mlx4_find_xsrq_def mlx4_find_qp_def mlx4_store_xsrq_def mlx4_store_qp_def
      mlx4_clear_xsrq_def mlx4_clear_qp_def Let_def intro!: arg_cong [where f = "res_bind _"])

interpretation qp_table: id_map mlx4_find_qp "mlx4_store_qp True" mlx4_clear_qp id_entries id_key table_inv
  by unfold_locales (auto simp: find_qp_ok intro: store_qp_ok clear_qp_ok)

interpretation xsrq_tab: id_map mlx4_find_xsrq "mlx4_store_xsrq True" mlx4_clear_xsrq id_entries id_key table_inv
  unfolding xsrq_ops by unfold_locales (auto simp: find_qp_ok intro: store_qp_ok clear_qp_ok)

text \<open>
  C36: From the empty table, after any valid history of creations and destructions, a lookup returns the object that was last
  stored under the number and not removed since, and none otherwise; no access falls outside a table or reaches one that
  was freed. The same holds of the table of shared receive queues.
\<close>

theorem tables_refine_maps:
  assumes "TABLE_BITS \<le> b" and k: "k = (\<lambda>n. unat n mod 2 ^ b)" and "valid_life es k (\<lambda>_. None)"
  shows "(\<exists>t. qp_table.life es (init_table b) = Inr t \<and> (\<forall>n. mlx4_find_qp t n = Inr (final es k (\<lambda>_. None) (k n)))) \<and>
    (\<exists>t. xsrq_tab.life es (init_table b) = Inr t \<and> (\<forall>n. mlx4_find_xsrq t n = Inr (final es k (\<lambda>_. None) (k n))))"
proof -
  have init: "table_inv (init_table b)" "id_entries (init_table b) = (\<lambda>_. None)" "id_key (init_table b) = k"
    using init_table_ok [OF assms(1)] by (auto simp: k fun_eq_iff)
  show ?thesis
    using qp_table.find_after_life [of "init_table b" es] xsrq_tab.find_after_life [of "init_table b" es] assms(3)
    unfolding init(2,3) by (simp add: init(1))
qed

lemma tables_refine_maps_witness:
  "(\<exists>t. qp_table.life [(0x10041, Some (7 :: int)), (0x10042, Some (8 :: int)), (0x10041, None)] (init_table 16) = Inr t \<and>
     mlx4_find_qp t 0x10041 = Inr None \<and> mlx4_find_qp t 0x10042 = Inr (Some (8 :: int))) \<and>
   (\<exists>t. xsrq_tab.life [(0x10041, Some (7 :: int)), (0x10042, Some (8 :: int)), (0x10041, None)] (init_table 16) = Inr t \<and>
     mlx4_find_xsrq t 0x10042 = Inr (Some (8 :: int)))"
proof -
  have "valid_life [(0x10041, Some (7 :: int)), (0x10042, Some (8 :: int)), (0x10041, None)] (\<lambda>n. unat n mod 2 ^ 16) (\<lambda>_. None)"
    by simp
  from tables_refine_maps [of 16, OF _ refl this]
  obtain t t' where t: "qp_table.life [(0x10041, Some (7 :: int)), (0x10042, Some (8 :: int)), (0x10041, None)] (init_table 16) = Inr t"
      "\<And>n. mlx4_find_qp t n = Inr (final [(0x10041, Some (7 :: int)), (0x10042, Some (8 :: int)), (0x10041, None)]
         (\<lambda>n. unat n mod 2 ^ 16) (\<lambda>_. None) (unat n mod 2 ^ 16))"
    and t': "xsrq_tab.life [(0x10041, Some (7 :: int)), (0x10042, Some (8 :: int)), (0x10041, None)] (init_table 16) = Inr t'"
      "\<And>n. mlx4_find_xsrq t' n = Inr (final [(0x10041, Some (7 :: int)), (0x10042, Some (8 :: int)), (0x10041, None)]
         (\<lambda>n. unat n mod 2 ^ 16) (\<lambda>_. None) (unat n mod 2 ^ 16))"
    by (auto simp: TABLE_BITS_def)
  show ?thesis
    using t(1) t(2) [of "0x10041"] t(2) [of "0x10042"] t'(1) t'(2) [of "0x10042"]
    by (simp add: final_def)
qed

end
