(* ===== verification/Shared_Recv.thy ===== *)
theory Shared_Recv
  imports Recv_Queue
begin

text \<open>
  Shared receive queues (\<open>libmlx4/src/srq.c\<close>, created by \<open>mlx4_create_srq\<close> of \<open>verbs.c\<close>). The free elements are linked
  through a field of their own, from \<open>head\<close> to \<open>tail\<close>; a request is written to the first, and an element goes back to the
  end when its completion is polled, in whatever order completions come. The last free element is never given out.
\<close>

unbundle bit_operations_syntax

section \<open>State\<close>

record srq =
  srq_slots :: "u8 list list"
  srq_wrid :: "u64 list"
  srq_max :: nat
  srq_max_gs :: nat
  srq_wqe_shift :: nat
  srq_head :: nat
  srq_tail :: nat
  srq_counter :: u16
  srq_db :: "u8 list"
  srq_num :: u32
  srq_ext_srq :: bool

definition be16 :: "u16 \<Rightarrow> u8 list" where
  "be16 w = [ucast (drop_bit 8 w), ucast w]"

definition of_be16 :: "u8 list \<Rightarrow> u16" where
  "of_be16 bs = push_bit 8 (ucast (bs ! 0)) OR ucast (bs ! 1)"

text \<open>The field \<open>next_wqe_index\<close> of an element.\<close>

definition next_wqe_index :: "u8 list \<Rightarrow> u16" where
  "next_wqe_index slot = of_be16 (take 2 (drop 2 slot))"

fun init_srq_segs :: "nat list \<Rightarrow> u8 list \<Rightarrow> u8 list res" where
  "init_srq_segs [] slot = Inr slot"
| "init_srq_segs (k # ks) slot = res_bind (mem_write slot (16 * k + 4) (be32 MLX4_INVALID_LKEY)) (init_srq_segs ks)"

definition init_srq_slot :: "nat \<Rightarrow> nat \<Rightarrow> nat \<Rightarrow> u8 list res" where
  "init_srq_slot max_n shift i =
     res_bind (mem_write (replicate (2 ^ shift) 0) 2 (be16 (of_nat ((i + 1) AND (max_n - 1))))) (init_srq_segs [1..<2 ^ shift div 16])"

fun init_srq_slots :: "nat \<Rightarrow> nat \<Rightarrow> nat list \<Rightarrow> u8 list list res" where
  "init_srq_slots max_n shift [] = Inr []"
| "init_srq_slots max_n shift (i # is) =
     res_bind (init_srq_slot max_n shift i) (\<lambda>s. res_bind (init_srq_slots max_n shift is) (\<lambda>ss. Inr (s # ss)))"

text \<open>\<open>wrid_ok\<close>, \<open>buf_ok\<close>: whether memory is found; the identifiers are not initialised.\<close>

definition mlx4_alloc_srq_buf :: "bool \<Rightarrow> bool \<Rightarrow> u64 list \<Rightarrow> srq \<Rightarrow> srq res" where
  "mlx4_alloc_srq_buf wrid_ok buf_ok ids s =
     (if \<not> wrid_ok then Inl (Err_code (- 1))
      else let shift = shift_for (16 + 16 * srq_max_gs s) 5
      in if \<not> buf_ok then Inl (Err_code (- 1))
      else res_bind (init_srq_slots (srq_max s) shift [0..< srq_max s]) (\<lambda>ss.
        Inr (s\<lparr>srq_wrid := take (srq_max s) ids, srq_wqe_shift := shift, srq_slots := ss, srq_head := 0, srq_tail := srq_max s - 1\<rparr>)))"

text \<open>The part of creation that is done before the kernel is asked for the object; \<open>None\<close> is the null pointer.\<close>

definition mlx4_create_srq :: "bool \<Rightarrow> bool \<Rightarrow> u64 list \<Rightarrow> nat \<Rightarrow> nat \<Rightarrow> srq option" where
  "mlx4_create_srq wrid_ok buf_ok ids max_wr max_sge =
     (if 2 ^ 16 < max_wr \<or> 64 < max_sge then None
      else case mlx4_alloc_srq_buf wrid_ok buf_ok ids
          \<lparr>srq_slots = [], srq_wrid = [], srq_max = align_queue_size (max_wr + 1), srq_max_gs = max_sge, srq_wqe_shift = 0,
           srq_head = 0, srq_tail = 0, srq_counter = 0, srq_db = be32 0, srq_num = 0, srq_ext_srq = False\<rparr>
        of Inl e \<Rightarrow> None | Inr s \<Rightarrow> Some s)"

section \<open>Operations\<close>

definition mlx4_free_srq_wqe :: "nat \<Rightarrow> srq \<Rightarrow> srq res" where
  "mlx4_free_srq_wqe ind s =
     res_bind (arr_get (srq_slots s) (srq_tail s)) (\<lambda>slot.
     res_bind (mem_write slot 2 (be16 (of_nat ind))) (\<lambda>slot.
       Inr (s\<lparr>srq_slots := (srq_slots s)[srq_tail s := slot], srq_tail := ind\<rparr>)))"

text \<open>The elements of a request, behind the link of the element, with a mark at the end if there is room.\<close>

definition set_srq_wqe :: "nat \<Rightarrow> sge list \<Rightarrow> u8 list \<Rightarrow> u8 list res" where
  "set_srq_wqe max_gs gs slot = res_bind (set_data_segs slot 1 gs) (\<lambda>slot.
     if length gs < max_gs then mem_write slot (16 * (1 + length gs)) (be32 0 @ be32 MLX4_INVALID_LKEY @ be64 0) else Inr slot)"

text \<open>The chain is a list of identifiers with their elements; the part that was not posted is returned, as through \<open>bad_wr\<close>.\<close>

fun srq_post_loop :: "(u64 \<times> sge list) list \<Rightarrow> nat \<Rightarrow> srq \<Rightarrow> (int \<times> (u64 \<times> sge list) list \<times> nat \<times> srq) res" where
  "srq_post_loop [] nreq s = Inr (0, [], nreq, s)"
| "srq_post_loop ((i, gs) # ws) nreq s =
     (if srq_max_gs s < length gs then Inr (EINVAL, (i, gs) # ws, nreq, s)
      else if srq_head s = srq_tail s then Inr (ENOMEM, (i, gs) # ws, nreq, s)
      else res_bind (arr_set (srq_wrid s) (srq_head s) i) (\<lambda>ids.
        res_bind (arr_get (srq_slots s) (srq_head s)) (\<lambda>slot.
        res_bind (set_srq_wqe (srq_max_gs s) gs slot) (\<lambda>slot'.
        srq_post_loop ws (nreq + 1)
          (s\<lparr>srq_wrid := ids, srq_slots := (srq_slots s)[srq_head s := slot'], srq_head := unat (next_wqe_index slot)\<rparr>)))))"

definition mlx4_post_srq_recv :: "(u64 \<times> sge list) list \<Rightarrow> srq \<Rightarrow> (int \<times> (u64 \<times> sge list) list \<times> srq) res" where
  "mlx4_post_srq_recv ws s = res_bind (srq_post_loop ws 0 s) (\<lambda>(err, bad, nreq, s).
     Inr (err, bad, if nreq \<noteq> 0
       then let c = srq_counter s + of_nat nreq in s\<lparr>srq_counter := c, srq_db := be32 (ucast c)\<rparr> else s))"

text \<open>What polling a completion does with its element (\<open>__mlx4_poll_one\<close> of \<open>cq.c\<close>).\<close>

definition srq_complete :: "nat \<Rightarrow> srq \<Rightarrow> (u64 \<times> srq) res" where
  "srq_complete ind s = res_bind (arr_get (srq_wrid s) ind) (\<lambda>i. res_bind (mlx4_free_srq_wqe ind s) (\<lambda>s. Inr (i, s)))"

section \<open>The list of free elements\<close>

lemma of_be16_be16 [simp]: "of_be16 (be16 w) = w"
proof (rule bit_word_eqI)
  fix n assume "n < LENGTH(16)"
  then have "n < 16" by simp
  then show "bit (of_be16 (be16 w)) n = bit w n"
    by (cases "n < 8") (auto simp: of_be16_def be16_def bit_or_iff bit_push_bit_iff bit_ucast_iff bit_drop_bit_eq dest: bit_imp_le_length)
qed

lemma length_be16 [simp]: "length (be16 w) = 2"
  by (simp add: be16_def)

definition srq_next :: "srq \<Rightarrow> nat \<Rightarrow> nat" where
  "srq_next s i = unat (next_wqe_index (srq_slots s ! i))"

definition srq_shape :: "srq \<Rightarrow> bool" where
  "srq_shape s \<longleftrightarrow> length (srq_slots s) = srq_max s \<and> length (srq_wrid s) = srq_max s \<and> srq_max s \<le> 2 ^ 16 \<and>
     5 \<le> srq_wqe_shift s \<and> 16 + 16 * srq_max_gs s \<le> 2 ^ srq_wqe_shift s \<and> (\<forall>slot\<in>set (srq_slots s). length slot = 2 ^ srq_wqe_shift s)"

definition srq_inv :: "srq \<Rightarrow> nat list \<Rightarrow> bool" where
  "srq_inv s fs \<longleftrightarrow> srq_shape s \<and> fs \<noteq> [] \<and> distinct fs \<and> set fs \<subseteq> {..< srq_max s} \<and> hd fs = srq_head s \<and> last fs = srq_tail s \<and>
     (\<forall>i. Suc i < length fs \<longrightarrow> srq_next s (fs ! i) = fs ! Suc i)"

lemma next_after_write:
  assumes "length slot = length slot'" "4 \<le> length slot" "take 4 slot' = take 4 slot"
  shows "next_wqe_index slot' = next_wqe_index slot"
proof -
  have "take 2 (drop 2 x) = drop 2 (take 4 x)" for x :: "u8 list" by (simp add: drop_take)
  then show ?thesis using assms(3) by (simp add: next_wqe_index_def)
qed

text \<open>Returning an element appends it to the list.\<close>

lemma free_ok:
  assumes "srq_inv s fs" "ind < srq_max s" "ind \<notin> set fs"
  shows "\<exists>s'. mlx4_free_srq_wqe ind s = Inr s' \<and> srq_inv s' (fs @ [ind]) \<and> srq_wrid s' = srq_wrid s \<and> srq_max s' = srq_max s \<and>
    srq_max_gs s' = srq_max_gs s \<and> srq_counter s' = srq_counter s \<and> srq_db s' = srq_db s \<and>
    (\<forall>i < srq_max s. drop 16 (srq_slots s' ! i) = drop 16 (srq_slots s ! i))"
proof -
  let ?t = "srq_tail s"
  define slot where "slot = srq_slots s ! ?t"
  define slot' where "slot' = take 2 slot @ be16 (of_nat ind) @ drop 4 slot"
  define s' where "s' = s\<lparr>srq_slots := (srq_slots s)[?t := slot'], srq_tail := ind\<rparr>"
  have inv: "srq_shape s" "fs \<noteq> []" "distinct fs" "set fs \<subseteq> {..< srq_max s}" "hd fs = srq_head s" "last fs = ?t"
      "\<forall>i. Suc i < length fs \<longrightarrow> srq_next s (fs ! i) = fs ! Suc i"
    using assms(1) by (simp_all add: srq_inv_def)
  have t: "?t < srq_max s" using inv(2,4,6) last_in_set [OF inv(2)] by auto
  have "(2 :: nat) ^ 5 \<le> 2 ^ srq_wqe_shift s" using inv(1) by (intro power_increasing) (simp_all add: srq_shape_def)
  then have len: "length slot = 2 ^ srq_wqe_shift s" "32 \<le> length slot"
    using t inv(1) by (simp_all add: slot_def srq_shape_def)
  have len': "length slot' = 2 ^ srq_wqe_shift s" using len by (simp add: slot'_def)
  have run: "mlx4_free_srq_wqe ind s = Inr s'"
    using t inv(1) len by (simp add: mlx4_free_srq_wqe_def srq_shape_def mem_write_def slot_def slot'_def s'_def)
  have shape: "srq_shape s'"
    using inv(1) len' set_update_subset_insert [of "srq_slots s" ?t slot'] by (auto simp: srq_shape_def s'_def)
  have idx: "fs ! i \<noteq> ?t" if "Suc i < length fs" for i
    using that inv(2,6) nth_eq_iff_index_eq [OF inv(3), of i "length fs - 1"] by (auto simp: last_conv_nth)
  have "srq_next s' ?t = ind"
  proof -
    have "take 2 (drop 2 slot') = be16 (of_nat ind)" using len by (simp add: slot'_def)
    moreover have "ind < 2 ^ 16" using assms(2) inv(1) by (simp add: srq_shape_def)
    ultimately show ?thesis using t inv(1)
      by (simp add: srq_next_def s'_def srq_shape_def next_wqe_index_def unat_of_nat)
  qed
  have "srq_next s' (fs ! i) = fs ! Suc i" if "Suc i < length fs" for i
    using inv(7) that idx [OF that] by (simp add: srq_next_def s'_def)
  have "fs ! (length fs - 1) = ?t" using inv(2,6) by (simp add: last_conv_nth)
  have "srq_next s' ((fs @ [ind]) ! i) = (fs @ [ind]) ! Suc i" if "Suc i < length (fs @ [ind])" for i
  proof (cases "Suc i = length fs")
    case True
    then have "i = length fs - 1" by simp
    then show ?thesis using \<open>srq_next s' ?t = ind\<close> \<open>fs ! (length fs - 1) = ?t\<close> inv(2) True by (simp add: nth_append)
  next
    case False
    then show ?thesis using that \<open>\<And>i. Suc i < length fs \<Longrightarrow> srq_next s' (fs ! i) = fs ! Suc i\<close> by (simp add: nth_append)
  qed
  then have "srq_inv s' (fs @ [ind])"
    using inv assms(2,3) shape by (auto simp: srq_inv_def s'_def)
  moreover have "drop 16 (srq_slots s' ! i) = drop 16 (srq_slots s ! i)" if "i < srq_max s" for i
    using that inv(1) len by (cases "i = ?t") (simp_all add: s'_def srq_shape_def slot'_def slot_def [symmetric])
  ultimately show ?thesis using run by (auto simp: s'_def)
qed

text \<open>A request goes to the first free element and says there what it should.\<close>

lemma post_step:
  assumes "srq_inv s (h # f # fs)" "length gs \<le> srq_max_gs s"
  shows "\<exists>s'. srq_post_loop ((i, gs) # ws) nreq s = srq_post_loop ws (nreq + 1) s' \<and> srq_inv s' (f # fs) \<and>
    srq_wrid s' = (srq_wrid s)[h := i] \<and> srq_max s' = srq_max s \<and> srq_max_gs s' = srq_max_gs s \<and>
    srq_counter s' = srq_counter s \<and> srq_db s' = srq_db s \<and> recv_says (srq_max_gs s) gs (drop 16 (srq_slots s' ! h)) \<and>
    (\<forall>k. k \<noteq> h \<longrightarrow> srq_slots s' ! k = srq_slots s ! k)"
proof -
  have inv: "srq_shape s" "distinct (h # f # fs)" "set (h # f # fs) \<subseteq> {..< srq_max s}" "h = srq_head s" "last (f # fs) = srq_tail s"
      "\<And>k. Suc k < length (h # f # fs) \<Longrightarrow> srq_next s ((h # f # fs) ! k) = (h # f # fs) ! Suc k"
    using assms(1) by (auto simp: srq_inv_def)
  define slot where "slot = srq_slots s ! h"
  let ?d = "concat (map data_seg gs)" and ?t = "be32 0 @ be32 MLX4_INVALID_LKEY @ be64 0"
  define slot1 where "slot1 = take 16 slot @ ?d @ drop (16 + 16 * length gs) slot"
  define slot2 where "slot2 = (if length gs < srq_max_gs s then take (16 + 16 * length gs) slot1 @ ?t @ drop (32 + 16 * length gs) slot1 else slot1)"
  define s' where "s' = s\<lparr>srq_wrid := (srq_wrid s)[h := i], srq_slots := (srq_slots s)[h := slot2], srq_head := f\<rparr>"
  have h: "h < srq_max s" using inv(3) by simp
  have len: "length slot = 2 ^ srq_wqe_shift s" "16 + 16 * srq_max_gs s \<le> length slot"
    using h inv(1) by (simp_all add: slot_def srq_shape_def)
  have len1: "length slot1 = length slot" using len(2) assms(2) by (simp add: slot1_def length_data_segs)
  have len2: "length slot2 = length slot" using len(2) len1 by (simp add: slot2_def)
  have tk: "take (16 + 16 * length gs) slot1 = take 16 slot @ ?d"
    using len(2) assms(2) by (simp add: slot1_def length_data_segs)
  have segs: "set_data_segs slot 1 gs = Inr slot1"
    using set_data_segs_ok [of 1 gs slot] len(2) assms(2) by (simp add: slot1_def)
  have wrote: "set_srq_wqe (srq_max_gs s) gs slot = Inr slot2"
    using len(2) len1 segs by (simp add: set_srq_wqe_def mem_write_def slot2_def add.commute)
  have nxt: "unat (next_wqe_index slot) = f"
    using inv(6) [of 0] by (simp add: srq_next_def slot_def)
  have ne: "srq_head s \<noteq> srq_tail s"
    using inv(2,4,5) last_in_set [of "f # fs"] by auto
  have run: "srq_post_loop ((i, gs) # ws) nreq s = srq_post_loop ws (nreq + 1) s'"
    using assms(2) ne h inv(1) wrote nxt inv(4) [symmetric]
    by (simp add: srq_shape_def slot_def [symmetric] s'_def)
  have says: "recv_says (srq_max_gs s) gs (drop 16 slot2)"
    using len len1 tk assms(2)
    by (auto simp: recv_says_def slot2_def slot1_def length_data_segs min_def)
  have "take 4 slot2 = take 4 slot"
  proof -
    have "take 4 slot1 = take 4 slot" using len(2) by (simp add: slot1_def)
    moreover have "take 4 slot2 = take 4 slot1" using len(2) len1 by (simp add: slot2_def min_def)
    ultimately show ?thesis by simp
  qed
  then have next2: "next_wqe_index slot2 = next_wqe_index slot"
    using next_after_write [of slot slot2] len(2) len2 by simp
  have shape: "srq_shape s'"
    using inv(1) len(1) len2 set_update_subset_insert [of "srq_slots s" h slot2] by (auto simp: srq_shape_def s'_def)
  have same_next: "srq_next s' k = srq_next s k" for k
    using next2 h inv(1) by (cases "k = h") (simp_all add: srq_next_def s'_def slot_def srq_shape_def)
  have "srq_inv s' (f # fs)"
    using inv shape inv(6) [of "Suc k" for k] by (auto simp: srq_inv_def same_next) (auto simp: s'_def)
  then show ?thesis
    using run says h inv(1) by (intro exI [of _ s']) (auto simp: s'_def srq_shape_def)
qed

section \<open>The specification\<close>

text \<open>
  What a shared receive queue is: a list of free elements, taken from the front and given back at the end, and the
  requests that are posted, by element.
\<close>

datatype srq_op = Srq_post "(u64 \<times> sge list) list" | Srq_done nat

datatype srq_out = Posted int nat | Completed u64

type_synonym srq_abs = "nat list \<times> (nat \<Rightarrow> (u64 \<times> sge list) option)"

fun spec_posts :: "nat \<Rightarrow> (u64 \<times> sge list) list \<Rightarrow> srq_abs \<Rightarrow> int \<times> nat \<times> srq_abs" where
  "spec_posts mg [] a = (0, 0, a)"
| "spec_posts mg (w # ws) (fs, m) =
     (if mg < length (snd w) then (EINVAL, length (w # ws), (fs, m))
      else case fs of f # g # r \<Rightarrow> spec_posts mg ws (g # r, m(f := Some w)) | _ \<Rightarrow> (ENOMEM, length (w # ws), (fs, m)))"

fun spec_op :: "nat \<Rightarrow> srq_op \<Rightarrow> srq_abs \<Rightarrow> srq_out \<times> srq_abs" where
  "spec_op mg (Srq_post ws) a = (case spec_posts mg ws a of (r, n, a') \<Rightarrow> (Posted r n, a'))"
| "spec_op mg (Srq_done k) (fs, m) = (Completed (fst (the (m k))), (fs @ [k], m(k := None)))"

fun srq_op_ok :: "srq_op \<Rightarrow> srq_abs \<Rightarrow> bool" where
  "srq_op_ok (Srq_post ws) a \<longleftrightarrow> True"
| "srq_op_ok (Srq_done k) (fs, m) \<longleftrightarrow> m k \<noteq> None"

fun spec_ops :: "nat \<Rightarrow> srq_op list \<Rightarrow> srq_abs \<Rightarrow> srq_out list \<times> srq_abs" where
  "spec_ops mg [] a = ([], a)"
| "spec_ops mg (p # ps) a = (case spec_op mg p a of (x, a') \<Rightarrow> case spec_ops mg ps a' of (xs, a'') \<Rightarrow> (x # xs, a''))"

fun srq_ops_ok :: "nat \<Rightarrow> srq_op list \<Rightarrow> srq_abs \<Rightarrow> bool" where
  "srq_ops_ok mg [] a \<longleftrightarrow> True"
| "srq_ops_ok mg (p # ps) a \<longleftrightarrow> srq_op_ok p a \<and> srq_ops_ok mg ps (snd (spec_op mg p a))"

fun srq_run :: "srq_op list \<Rightarrow> srq \<Rightarrow> (srq_out list \<times> srq) res" where
  "srq_run [] s = Inr ([], s)"
| "srq_run (Srq_post ws # ps) s = res_bind (mlx4_post_srq_recv ws s) (\<lambda>(err, bad, s).
     res_bind (srq_run ps s) (\<lambda>(xs, s). Inr (Posted err (length bad) # xs, s)))"
| "srq_run (Srq_done k # ps) s = res_bind (srq_complete k s) (\<lambda>(i, s).
     res_bind (srq_run ps s) (\<lambda>(xs, s). Inr (Completed i # xs, s)))"

definition srq_abs :: "srq \<Rightarrow> srq_abs \<Rightarrow> bool" where
  "srq_abs s a \<longleftrightarrow> srq_inv s (fst a) \<and> dom (snd a) = {..< srq_max s} - set (fst a) \<and>
     (\<forall>k i gs. snd a k = Some (i, gs) \<longrightarrow> srq_wrid s ! k = i \<and> length gs \<le> srq_max_gs s \<and>
        recv_says (srq_max_gs s) gs (drop 16 (srq_slots s ! k)))"

lemma post_step_abs:
  assumes "srq_abs s (h # f # fs, m)" "length gs \<le> srq_max_gs s"
  shows "\<exists>s'. srq_post_loop ((i, gs) # ws) nreq s = srq_post_loop ws (nreq + 1) s' \<and>
    srq_abs s' (f # fs, m(h := Some (i, gs))) \<and> srq_max_gs s' = srq_max_gs s \<and> srq_max s' = srq_max s"
proof -
  have inv: "srq_inv s (h # f # fs)" and dom: "dom m = {..< srq_max s} - set (h # f # fs)"
    and m: "\<And>k i gs. m k = Some (i, gs) \<Longrightarrow> srq_wrid s ! k = i \<and> length gs \<le> srq_max_gs s \<and>
      recv_says (srq_max_gs s) gs (drop 16 (srq_slots s ! k))"
    using assms(1) by (auto simp: srq_abs_def)
  obtain s' where s': "srq_post_loop ((i, gs) # ws) nreq s = srq_post_loop ws (nreq + 1) s'" "srq_inv s' (f # fs)"
      "srq_wrid s' = (srq_wrid s)[h := i]" "srq_max s' = srq_max s" "srq_max_gs s' = srq_max_gs s"
      "recv_says (srq_max_gs s) gs (drop 16 (srq_slots s' ! h))" "\<And>k. k \<noteq> h \<Longrightarrow> srq_slots s' ! k = srq_slots s ! k"
    using post_step [OF inv assms(2), of i ws nreq] by auto
  have h: "h < srq_max s" "h \<notin> set (f # fs)" "length (srq_wrid s) = srq_max s"
    using inv by (auto simp: srq_inv_def srq_shape_def)
  have "srq_abs s' (f # fs, m(h := Some (i, gs)))"
    unfolding srq_abs_def fst_conv snd_conv
  proof (intro conjI allI impI)
    show "dom (m(h := Some (i, gs))) = {..< srq_max s'} - set (f # fs)"
      using dom h by (auto simp: s'(4))
    fix k j gs' assume "(m(h := Some (i, gs))) k = Some (j, gs')"
    then show "srq_wrid s' ! k = j" "length gs' \<le> srq_max_gs s'" "recv_says (srq_max_gs s') gs' (drop 16 (srq_slots s' ! k))"
      using h m s' assms(2) by (auto simp: nth_list_update split: if_splits)
  qed (rule s'(2))
  then show ?thesis using s'(1,4,5) by blast
qed

lemma posts_abs:
  assumes "srq_abs s a"
  shows "\<exists>s' err bad k. srq_post_loop ws nreq s = Inr (err, bad, nreq + k, s') \<and> srq_max_gs s' = srq_max_gs s \<and> srq_max s' = srq_max s \<and>
    (case spec_posts (srq_max_gs s) ws a of (r, n, a') \<Rightarrow> r = err \<and> n = length bad \<and> srq_abs s' a')"
  using assms
proof (induction ws arbitrary: s a nreq)
  case Nil
  then show ?case by simp
next
  case (Cons w ws)
  obtain i gs where w: "w = (i, gs)" by (cases w)
  obtain fs m where a: "a = (fs, m)" by (cases a)
  have inv: "srq_inv s fs" using Cons.prems a by (simp add: srq_abs_def)
  show ?case
  proof (cases "length gs \<le> srq_max_gs s")
    case False
    then show ?thesis using Cons.prems w a by simp
  next
    case room: True
    obtain f r where fs: "fs = f # r" using inv by (cases fs) (auto simp: srq_inv_def)
    show ?thesis
    proof (cases r)
      case Nil
      then have "srq_head s = srq_tail s" using inv fs by (auto simp: srq_inv_def)
      then show ?thesis using Cons.prems w a fs Nil room by simp
    next
      case (Cons g r')
      have abs: "srq_abs s (f # g # r', m)" using Cons.prems a fs Cons by simp
      obtain s1 where s1: "srq_post_loop (w # ws) nreq s = srq_post_loop ws (nreq + 1) s1" "srq_abs s1 (g # r', m(f := Some (i, gs)))"
          "srq_max_gs s1 = srq_max_gs s" "srq_max s1 = srq_max s"
        using post_step_abs [OF abs room, of i ws nreq] w by auto
      have spec: "spec_posts (srq_max_gs s) (w # ws) a = spec_posts (srq_max_gs s1) ws (g # r', m(f := Some (i, gs)))"
        using room by (simp add: a fs Cons w s1(3))
      obtain s' err bad k where s': "srq_post_loop ws (nreq + 1) s1 = Inr (err, bad, nreq + 1 + k, s')" "srq_max_gs s' = srq_max_gs s1"
          "srq_max s' = srq_max s1" "case spec_posts (srq_max_gs s1) ws (g # r', m(f := Some (i, gs))) of (r, n, a') \<Rightarrow> r = err \<and> n = length bad \<and> srq_abs s' a'"
        using Cons.IH [OF s1(2), of "nreq + 1"] by (elim exE conjE) (rule that, assumption+)
      then show ?thesis using s1(1,3,4) unfolding spec
        by (intro exI [of _ s'] exI [of _ err] exI [of _ bad] exI [of _ "k + 1"]) simp
    qed
  qed
qed

lemma srq_abs_counter: "srq_abs (s\<lparr>srq_counter := c, srq_db := d\<rparr>) a \<longleftrightarrow> srq_abs s a"
proof -
  have "srq_shape (s\<lparr>srq_counter := c, srq_db := d\<rparr>) = srq_shape s" by (simp add: srq_shape_def)
  moreover have "srq_next (s\<lparr>srq_counter := c, srq_db := d\<rparr>) = srq_next s" by (simp add: srq_next_def fun_eq_iff)
  ultimately show ?thesis by (simp add: srq_abs_def srq_inv_def)
qed

lemma done_abs:
  assumes "srq_abs s (fs, m)" "m k = Some (i, gs)"
  shows "\<exists>s'. srq_complete k s = Inr (i, s') \<and> srq_abs s' (fs @ [k], m(k := None)) \<and> srq_max_gs s' = srq_max_gs s \<and> srq_max s' = srq_max s"
proof -
  have inv: "srq_inv s fs" and dom: "dom m = {..< srq_max s} - set fs"
    and m: "\<And>k i gs. m k = Some (i, gs) \<Longrightarrow> srq_wrid s ! k = i \<and> length gs \<le> srq_max_gs s \<and>
      recv_says (srq_max_gs s) gs (drop 16 (srq_slots s ! k))"
    using assms(1) by (auto simp: srq_abs_def)
  have k: "k < srq_max s" "k \<notin> set fs" using dom assms(2) by blast+
  obtain s' where s': "mlx4_free_srq_wqe k s = Inr s'" "srq_inv s' (fs @ [k])" "srq_wrid s' = srq_wrid s" "srq_max s' = srq_max s"
      "srq_max_gs s' = srq_max_gs s" "\<forall>i < srq_max s. drop 16 (srq_slots s' ! i) = drop 16 (srq_slots s ! i)"
    using free_ok [OF inv k] by blast
  have "srq_abs s' (fs @ [k], m(k := None))"
    unfolding srq_abs_def fst_conv snd_conv
  proof (intro conjI allI impI)
    show "dom (m(k := None)) = {..< srq_max s'} - set (fs @ [k])" using dom by (auto simp: s'(4))
    fix j i' gs' assume "(m(k := None)) j = Some (i', gs')"
    then have j: "m j = Some (i', gs')" by (simp split: if_splits)
    moreover have "j < srq_max s" using j dom by blast
    ultimately show "srq_wrid s' ! j = i'" "length gs' \<le> srq_max_gs s'" "recv_says (srq_max_gs s') gs' (drop 16 (srq_slots s' ! j))"
      using m s'(3,5,6) by auto
  qed (rule s'(2))
  moreover have "srq_wrid s ! k = i" "length (srq_wrid s) = srq_max s"
    using m assms(2) inv by (auto simp: srq_inv_def srq_shape_def)
  ultimately show ?thesis using s' k(1) by (simp add: srq_complete_def)
qed

lemma run_abs:
  assumes "srq_abs s a" "srq_ops_ok (srq_max_gs s) ps a"
  shows "\<exists>s'. srq_run ps s = Inr (fst (spec_ops (srq_max_gs s) ps a), s') \<and> srq_abs s' (snd (spec_ops (srq_max_gs s) ps a))"
  using assms
proof (induction ps arbitrary: s a)
  case Nil
  then show ?case by simp
next
  case (Cons p ps)
  obtain fs m where a: "a = (fs, m)" by (cases a)
  show ?case
  proof (cases p)
    case (Srq_post ws)
    obtain s1 err bad k where s1: "srq_post_loop ws 0 s = Inr (err, bad, k, s1)" "srq_max_gs s1 = srq_max_gs s"
        "case spec_posts (srq_max_gs s) ws a of (r, n, a') \<Rightarrow> r = err \<and> n = length bad \<and> srq_abs s1 a'"
      using posts_abs [OF Cons.prems(1), of ws 0] by auto
    define s2 where "s2 = (if k \<noteq> 0 then let c = srq_counter s1 + of_nat k in s1\<lparr>srq_counter := c, srq_db := be32 (ucast c)\<rparr> else s1)"
    obtain a1 where a1: "spec_posts (srq_max_gs s) ws a = (err, length bad, a1)" "srq_abs s1 a1"
      using s1(3) by (auto split: prod.splits)
    have s2: "mlx4_post_srq_recv ws s = Inr (err, bad, s2)" "srq_abs s2 a1" "srq_max_gs s2 = srq_max_gs s"
      using s1(1,2) a1(2) by (simp_all add: mlx4_post_srq_recv_def s2_def srq_abs_counter Let_def)
    have "srq_ops_ok (srq_max_gs s2) ps a1" using Cons.prems(2) Srq_post a1(1) s2(3) by simp
    from Cons.IH [OF s2(2) this] show ?thesis
      using Srq_post a1(1) s2(1,3) by (auto split: prod.splits)
  next
    case (Srq_done k)
    obtain i gs where k: "m k = Some (i, gs)" using Cons.prems(2) Srq_done a by auto
    obtain s1 where s1: "srq_complete k s = Inr (i, s1)" "srq_abs s1 (fs @ [k], m(k := None))" "srq_max_gs s1 = srq_max_gs s"
      using done_abs [of s fs m k i gs] k Cons.prems(1) a by blast
    have "srq_ops_ok (srq_max_gs s1) ps (fs @ [k], m(k := None))" using Cons.prems(2) Srq_done a s1(3) by simp
    from Cons.IH [OF s1(2) this] show ?thesis
      using Srq_done a k s1(1,3) by (auto split: prod.splits)
  qed
qed

section \<open>Creation\<close>

lemma init_srq_segs_ok:
  assumes "\<forall>k\<in>set ks. 0 < k \<and> 16 * k + 8 \<le> length slot"
  shows "\<exists>slot'. init_srq_segs ks slot = Inr slot' \<and> length slot' = length slot \<and> take 4 slot' = take 4 slot"
  using assms
proof (induction ks arbitrary: slot)
  case Nil
  then show ?case by simp
next
  case (Cons k ks)
  let ?s = "take (16 * k + 4) slot @ be32 MLX4_INVALID_LKEY @ drop (16 * k + 8) slot"
  have "mem_write slot (16 * k + 4) (be32 MLX4_INVALID_LKEY) = Inr ?s" "length ?s = length slot" "take 4 ?s = take 4 slot"
    using Cons.prems by (simp_all add: mem_write_def add.commute)
  then show ?case using Cons.IH [of ?s] Cons.prems by simp
qed

lemma init_srq_slot_ok:
  assumes "5 \<le> shift"
  shows "\<exists>slot. init_srq_slot m shift i = Inr slot \<and> length slot = 2 ^ shift \<and>
    next_wqe_index slot = of_nat ((i + 1) AND (m - 1))"
proof -
  have len: "(32 :: nat) \<le> 2 ^ shift" using power_increasing [OF assms, of "2 :: nat"] by simp
  let ?s = "take 2 (replicate (2 ^ shift) 0) @ be16 (of_nat ((i + 1) AND (m - 1))) @ drop 4 (replicate (2 ^ shift) (0 :: u8))"
  have s: "mem_write (replicate (2 ^ shift) 0) 2 (be16 (of_nat ((i + 1) AND (m - 1)))) = Inr ?s" "length ?s = 2 ^ shift"
    using len by (simp_all add: mem_write_def)
  have "(16 :: nat) * (2 ^ shift div 16) \<le> 2 ^ shift" by (rule times_div_less_eq_dividend)
  then have "\<forall>k\<in>set [1..<2 ^ shift div 16]. 0 < k \<and> 16 * k + 8 \<le> length ?s" unfolding s(2) by auto
  from init_srq_segs_ok [OF this] obtain slot where slot: "init_srq_segs [1..<2 ^ shift div 16] ?s = Inr slot"
      "length slot = length ?s" "take 4 slot = take 4 ?s" by blast
  have "next_wqe_index slot = next_wqe_index ?s"
    by (rule next_after_write) (use slot s(2) len in simp_all)
  also have "\<dots> = of_nat ((i + 1) AND (m - 1))"
    using len by (simp add: next_wqe_index_def min_def)
  finally show ?thesis using s slot by (simp add: init_srq_slot_def)
qed

lemma init_srq_slots_ok:
  assumes "5 \<le> shift"
  shows "\<exists>ss. init_srq_slots m shift is = Inr ss \<and> length ss = length is \<and> (\<forall>s\<in>set ss. length s = 2 ^ shift) \<and>
    (\<forall>k<length is. next_wqe_index (ss ! k) = of_nat ((is ! k + 1) AND (m - 1)))"
proof (induction "is")
  case Nil
  then show ?case by simp
next
  case (Cons i "is")
  obtain s ss where "init_srq_slot m shift i = Inr s" "length s = 2 ^ shift" "next_wqe_index s = of_nat ((i + 1) AND (m - 1))"
      "init_srq_slots m shift is = Inr ss" "length ss = length is" "\<forall>s\<in>set ss. length s = 2 ^ shift"
      "\<forall>k<length is. next_wqe_index (ss ! k) = of_nat ((is ! k + 1) AND (m - 1))"
    using init_srq_slot_ok [OF assms, of m i] Cons.IH by blast
  then show ?case by (auto simp: nth_Cons split: nat.split)
qed

lemma create_srq_ok:
  assumes "max_wr \<le> 2 ^ 16" "max_sge \<le> 64" "2 ^ 17 \<le> length ids"
  shows "\<exists>s k. mlx4_create_srq True True ids max_wr max_sge = Some s \<and> srq_max s = 2 ^ k \<and> max_wr < srq_max s \<and>
    srq_max s \<le> 2 * max_wr + 1 \<and> srq_max_gs s = max_sge \<and> srq_head s = 0 \<and> srq_tail s = srq_max s - 1 \<and>
    (\<forall>i < srq_max s. srq_next s i = unat (of_nat ((i + 1) mod srq_max s) :: u16)) \<and>
    (srq_max s \<le> 2 ^ 16 \<longrightarrow> srq_shape s)"
proof -
  define m where "m = align_queue_size (max_wr + 1)"
  obtain k where k: "m = 2 ^ k" using align_queue_size_ok(2) m_def by metis
  have m: "max_wr < m" "m \<le> 2 * max_wr + 1"
    using align_queue_size_ok(1,3) [of "max_wr + 1"] k unfolding m_def [symmetric] by auto
  define sh where "sh = shift_for (16 + 16 * max_sge) 5"
  have sh: "5 \<le> sh" "16 + 16 * max_sge \<le> 2 ^ sh" using shift_for_ge [of "16 + 16 * max_sge" 5] by (simp_all add: sh_def)
  obtain ss where ss: "init_srq_slots m sh [0..<m] = Inr ss" "length ss = m" "\<forall>s\<in>set ss. length s = 2 ^ sh"
      "\<forall>k<m. next_wqe_index (ss ! k) = of_nat (([0..<m] ! k + 1) AND (m - 1))"
    using init_srq_slots_ok [OF sh(1), of m "[0..<m]"] by auto
  have nxt: "next_wqe_index (ss ! i) = of_nat ((i + 1) mod m)" if "i < m" for i
    using ss(4) that and_ring_mask [of "i + 1" k] by (simp add: k)
  define s where "s = \<lparr>srq_slots = ss, srq_wrid = take m ids, srq_max = m, srq_max_gs = max_sge, srq_wqe_shift = sh,
     srq_head = 0, srq_tail = m - 1, srq_counter = 0, srq_db = be32 0, srq_num = 0, srq_ext_srq = False\<rparr>"
  have "mlx4_create_srq True True ids max_wr max_sge = Some s"
    using assms(1,2) ss(1) by (simp add: mlx4_create_srq_def mlx4_alloc_srq_buf_def m_def [symmetric, simplified] sh_def s_def)
  moreover have "srq_next s i = unat (of_nat ((i + 1) mod srq_max s) :: u16)" if "i < srq_max s" for i
    using nxt that by (simp add: srq_next_def s_def)
  moreover have "srq_shape s" if "m \<le> 2 ^ 16"
    using that ss(2,3) sh m(2) assms(1,3) by (auto simp: srq_shape_def s_def)
  ultimately show ?thesis
    using m k by (intro exI [of _ s] exI [of _ k]) (simp add: s_def)
qed

lemma new_srq_abs:
  assumes "srq_shape s" "srq_max s = 2 ^ k" "srq_head s = 0" "srq_tail s = srq_max s - 1"
    and "\<forall>i < srq_max s. srq_next s i = unat (of_nat ((i + 1) mod srq_max s) :: u16)"
  shows "srq_abs s ([0..< srq_max s], \<lambda>_. None)"
proof -
  have le: "srq_max s \<le> 2 ^ 16" using assms(1) by (simp add: srq_shape_def)
  have "srq_next s i = Suc i" if "Suc i < srq_max s" for i
    using assms(5) that le by (simp add: unat_of_nat)
  moreover have "0 < srq_max s" using assms(2) by simp
  ultimately have "srq_inv s [0..< srq_max s]"
    using assms(1,3,4) by (auto simp: srq_inv_def hd_upt last_upt)
  then show ?thesis by (auto simp: srq_abs_def)
qed

text \<open>
  C28: A shared receive queue with less than 65536 elements refines its specification. Requests are posted to free elements
  only; as many as there are free elements but one are accepted, and a chain that does not fit reports the rest. When
  completions come in any order, each returns the identifier of the request that was posted in its element and makes the
  element free again. No access is out of bounds.
\<close>

theorem shared_receives_refine:
  assumes "mlx4_create_srq True True ids max_wr max_sge = Some s" "max_wr < 2 ^ 16" "2 ^ 17 \<le> length ids"
    and "srq_ops_ok max_sge ps ([0..< srq_max s], \<lambda>_. None)"
  shows "max_wr < srq_max s \<and> (\<exists>s'. srq_run ps s = Inr (fst (spec_ops max_sge ps ([0..< srq_max s], \<lambda>_. None)), s') \<and>
    srq_abs s' (snd (spec_ops max_sge ps ([0..< srq_max s], \<lambda>_. None))))"
proof -
  have sge: "max_sge \<le> 64" using assms(1) by (simp add: mlx4_create_srq_def split: if_splits)
  obtain k where s: "srq_max s = 2 ^ k" "max_wr < srq_max s" "srq_max s \<le> 2 * max_wr + 1" "srq_max_gs s = max_sge" "srq_head s = 0"
      "srq_tail s = srq_max s - 1" "\<forall>i < srq_max s. srq_next s i = unat (of_nat ((i + 1) mod srq_max s) :: u16)"
      "srq_max s \<le> 2 ^ 16 \<longrightarrow> srq_shape s"
    using create_srq_ok [of max_wr max_sge ids] assms(1-3) sge by auto
  have "k < 17" using s(1,3) assms(2) power_strict_increasing_iff [of "2 :: nat" k 17] by simp
  then have "srq_max s \<le> 2 ^ 16" using power_increasing [of k 16 "2 :: nat"] by (simp add: s(1))
  then have "srq_abs s ([0..< srq_max s], \<lambda>_. None)" using new_srq_abs s by blast
  from run_abs [OF this, of ps] assms(4) s(2,4) show ?thesis by simp
qed

lemma shared_receives_refine_witness:
  "\<exists>s s'. mlx4_create_srq True True (replicate (2 ^ 17) 0) 3 1 = Some s \<and>
    srq_run [Srq_post [(7, []), (8, []), (9, []), (10, [])], Srq_done 1, Srq_post [(11, [])], Srq_done 0] s =
      Inr ([Posted ENOMEM 1, Completed 8, Posted 0 0, Completed 7], s')"
proof -
  have l: "(2 :: nat) ^ 17 \<le> length (replicate (2 ^ 17) (0 :: u64))" by simp
  obtain s where s: "mlx4_create_srq True True (replicate (2 ^ 17) 0) 3 1 = Some s" "srq_max s \<le> 7" "3 < srq_max s"
      "\<exists>k. srq_max s = 2 ^ k"
    using create_srq_ok [OF _ _ l, of 3 1] by auto
  have four: "srq_max s = 4"
  proof -
    obtain k where k: "srq_max s = 2 ^ k" using s(4) by blast
    have "\<not> 3 \<le> k" using power_increasing [of 3 k "2 :: nat"] s(2) k by auto
    moreover have "\<not> k \<le> 1" using power_increasing [of k 1 "2 :: nat"] s(3) k by auto
    ultimately have "k = 2" by simp
    then show ?thesis using k by simp
  qed
  let ?ps = "[Srq_post [(7, []), (8, []), (9, []), (10, [])], Srq_done 1, Srq_post [(11, [])], Srq_done 0]"
  have f: "[0..<4] = [0, 1, 2, 3 :: nat]" by (simp add: upt_rec)
  have "srq_ops_ok 1 ?ps ([0..< srq_max s], \<lambda>_. None)"
    unfolding four f by simp
  from shared_receives_refine [OF s(1) _ l this] show ?thesis
    using s(1) unfolding four f by (auto simp: ENOMEM_def)
qed

text \<open>
  The limit \<open>mlx4_create_srq\<close> tests lets one size too much through: for 65536 requests the queue gets 131072 elements,
  but the links have 16 bits, so that the list returns to its head before it reaches the last element.
\<close>

lemma srq_limit_too_high:
  assumes "mlx4_create_srq True True ids (2 ^ 16) max_sge = Some s" "2 ^ 17 \<le> length ids"
  shows "65536 < srq_max s \<and> srq_next s 65535 = srq_head s \<and> srq_head s \<noteq> srq_tail s"
proof -
  have sge: "max_sge \<le> 64" using assms(1) by (simp add: mlx4_create_srq_def split: if_splits)
  obtain k where s: "srq_max s = 2 ^ k" "2 ^ 16 < srq_max s" "srq_head s = 0"
      "srq_tail s = srq_max s - 1" "\<forall>i < srq_max s. srq_next s i = unat (of_nat ((i + 1) mod srq_max s) :: u16)"
    using create_srq_ok [of "2 ^ 16" max_sge ids] assms sge by auto
  have "srq_next s 65535 = unat (of_nat 65536 :: u16)" using s(2,5) by simp
  also have "\<dots> = 0" by (simp add: unat_of_nat)
  finally show ?thesis using s(2-4) by simp
qed

end
