(* ===== verification/Completion.thy ===== *)
theory Completion
  imports Shared_Recv Id_Table
begin

text \<open>
  The completion queue (\<open>libmlx4/src/cq.c\<close>): its ring of entries, which the device fills and the driver reads, with an
  ownership bit per entry that changes its meaning with every pass; decoding an entry into a work completion
  (\<open>__mlx4_poll_one\<close>); polling; arming; removing the entries of a queue pair; copying to a resized ring; and the
  counting interface of the experimental verbs (\<open>poll_cnt\<close>).

  Pointers to queue pairs and shared receive queues are indices into the lists of these objects in the context. A
  completion queue entry is its 32 bytes, of which the code reads fields in the byte order of the device.
\<close>

unbundle bit_operations_syntax

section \<open>State\<close>

record comp_queue =
  cq_buf :: "u8 list list"
  cq_cqe_size :: nat
  cq_cqe :: nat
  cq_cons_index :: u32
  cq_set_ci_db :: "u8 list"
  cq_arm_sn :: u32
  cq_arm_db :: "u8 list"
  cq_cqn :: u32
  cq_doorbells :: "u8 list list"
  cq_timestamp :: bool
  cq_ts_sys_time :: bool
  cq_stall_enable :: bool
  cq_stall_next_poll :: bool
  cq_last_qp :: "nat option"

record mlx4_qp =
  mq_num :: u32
  mq_sq :: send_queue
  mq_rq :: recv_queue
  mq_srq :: "nat option"
  mq_ethernet :: bool
  mq_rx_csum :: bool
  mq_rx_vxlan :: bool

record mlx4_ctx =
  cx_qp_table :: "nat id_table"
  cx_xsrq_table :: "nat id_table"
  cx_qps :: "mlx4_qp list"
  cx_srqs :: "srq list"
  cx_mem :: "u64 \<Rightarrow> u8"

datatype wc_status = WC_SUCCESS | WC_LOC_LEN_ERR | WC_LOC_QP_OP_ERR | WC_LOC_PROT_ERR | WC_WR_FLUSH_ERR | WC_MW_BIND_ERR
  | WC_BAD_RESP_ERR | WC_LOC_ACCESS_ERR | WC_REM_INV_REQ_ERR | WC_REM_ACCESS_ERR | WC_REM_OP_ERR | WC_RETRY_EXC_ERR
  | WC_RNR_RETRY_EXC_ERR | WC_REM_ABORT_ERR | WC_GENERAL_ERR

datatype wc_opcode = WC_SEND | WC_RDMA_WRITE | WC_RDMA_READ | WC_COMP_SWAP | WC_FETCH_ADD | WC_BIND_MW | WC_LOCAL_INV
  | WC_MASKED_COMP_SWAP | WC_MASKED_FETCH_ADD | WC_RECV | WC_RECV_RDMA_WITH_IMM

record exp_wc =
  wc_wr_id :: u64
  wc_status :: wc_status
  wc_opcode :: wc_opcode
  wc_vendor_err :: u32
  wc_byte_len :: u32
  wc_imm_data :: u32
  wc_qp_num :: u32
  wc_src_qp :: u32
  wc_flags :: u32
  wc_pkey_index :: u16
  wc_slid :: u16
  wc_sl :: u8
  wc_dlid_path_bits :: u8
  wc_timestamp :: u64
  wc_qp :: "nat option"
  wc_srq :: "nat option"
  wc_exp_flags :: u64

datatype poll_result = CQ_OK | CQ_EMPTY | CQ_POLL_ERR | CQ_SPLIT | CQ_SPLIT_WIMM

definition IBV_WC_GRH :: u32 where [macro_defs]: "IBV_WC_GRH = 1"
definition IBV_WC_WITH_IMM :: u32 where [macro_defs]: "IBV_WC_WITH_IMM = 2"
definition IBV_WC_WITH_INV :: u32 where [macro_defs]: "IBV_WC_WITH_INV = 8"

text \<open>\<open>IBV_EXP_START_FLAG << n\<close>\<close>

definition exp_flag :: "nat \<Rightarrow> u64" where
  "exp_flag n = push_bit (32 + n) 1"

definition IBV_EXP_WC_WITH_SL :: u64 where [macro_defs]: "IBV_EXP_WC_WITH_SL = exp_flag 4"
definition IBV_EXP_WC_WITH_SLID :: u64 where [macro_defs]: "IBV_EXP_WC_WITH_SLID = exp_flag 5"
definition IBV_EXP_WC_WITH_TIMESTAMP :: u64 where [macro_defs]: "IBV_EXP_WC_WITH_TIMESTAMP = exp_flag 6"
definition IBV_EXP_WC_QP :: u64 where [macro_defs]: "IBV_EXP_WC_QP = exp_flag 7"
definition IBV_EXP_WC_SRQ :: u64 where [macro_defs]: "IBV_EXP_WC_SRQ = exp_flag 8"
definition IBV_EXP_WC_RX_IP_CSUM_OK :: u64 where [macro_defs]: "IBV_EXP_WC_RX_IP_CSUM_OK = exp_flag 10"
definition IBV_EXP_WC_RX_TCP_UDP_CSUM_OK :: u64 where [macro_defs]: "IBV_EXP_WC_RX_TCP_UDP_CSUM_OK = exp_flag 11"
definition IBV_EXP_WC_RX_IPV4_PACKET :: u64 where [macro_defs]: "IBV_EXP_WC_RX_IPV4_PACKET = exp_flag 12"
definition IBV_EXP_WC_RX_IPV6_PACKET :: u64 where [macro_defs]: "IBV_EXP_WC_RX_IPV6_PACKET = exp_flag 13"
definition IBV_EXP_WC_RX_TUNNEL_PACKET :: u64 where [macro_defs]: "IBV_EXP_WC_RX_TUNNEL_PACKET = exp_flag 14"
definition IBV_EXP_WC_RX_OUTER_IP_CSUM_OK :: u64 where [macro_defs]: "IBV_EXP_WC_RX_OUTER_IP_CSUM_OK = exp_flag 15"
definition IBV_EXP_WC_RX_OUTER_TCP_UDP_CSUM_OK :: u64 where [macro_defs]: "IBV_EXP_WC_RX_OUTER_TCP_UDP_CSUM_OK = exp_flag 16"
definition IBV_EXP_WC_RX_OUTER_IPV4_PACKET :: u64 where [macro_defs]: "IBV_EXP_WC_RX_OUTER_IPV4_PACKET = exp_flag 17"
definition IBV_EXP_WC_RX_OUTER_IPV6_PACKET :: u64 where [macro_defs]: "IBV_EXP_WC_RX_OUTER_IPV6_PACKET = exp_flag 18"

section \<open>Entries\<close>

text \<open>\<open>raw\<close> fields are as a little-endian host loads them, the others after \<open>ntohl\<close> or \<open>ntohs\<close>.\<close>

definition cqe_field32 :: "nat \<Rightarrow> u8 list \<Rightarrow> u32" where
  "cqe_field32 off c = of_be32 (take 4 (drop off c))"

definition cqe_field16 :: "nat \<Rightarrow> u8 list \<Rightarrow> u16" where
  "cqe_field16 off c = of_be16 (take 2 (drop off c))"

definition cqe_raw32 :: "nat \<Rightarrow> u8 list \<Rightarrow> u32" where
  "cqe_raw32 off c = of_be32 (rev (take 4 (drop off c)))"

definition cqe_raw16 :: "nat \<Rightarrow> u8 list \<Rightarrow> u16" where
  "cqe_raw16 off c = of_be16 (rev (take 2 (drop off c)))"

definition htons :: "u16 \<Rightarrow> u16" where
  "htons w = of_be16 (rev (be16 w))"

definition htonl32 :: "u32 \<Rightarrow> u32" where
  "htonl32 w = of_be32 (rev (be32 w))"

definition MLX4_CQE_QPN_MASK :: u32 where [macro_defs]: "MLX4_CQE_QPN_MASK = 0xffffff"
definition MLX4_XRC_QPN_BIT :: u32 where [macro_defs]: "MLX4_XRC_QPN_BIT = 0x800000"
definition MLX4_CQE_OWNER_MASK :: u8 where [macro_defs]: "MLX4_CQE_OWNER_MASK = 0x80"
definition MLX4_CQE_IS_SEND_MASK :: u8 where [macro_defs]: "MLX4_CQE_IS_SEND_MASK = 0x40"
definition MLX4_CQE_INL_SCATTER_MASK :: u8 where [macro_defs]: "MLX4_CQE_INL_SCATTER_MASK = 0x20"
definition MLX4_CQE_OPCODE_MASK :: u8 where [macro_defs]: "MLX4_CQE_OPCODE_MASK = 0x1f"
definition MLX4_CQE_OPCODE_ERROR :: u8 where [macro_defs]: "MLX4_CQE_OPCODE_ERROR = 0x1e"
definition MLX4_CQE_OPCODE_RESIZE :: u8 where [macro_defs]: "MLX4_CQE_OPCODE_RESIZE = 0x16"

abbreviation vlan_my_qpn :: "u8 list \<Rightarrow> u32" where "vlan_my_qpn \<equiv> cqe_field32 0"
abbreviation immed_rss_invalid :: "u8 list \<Rightarrow> u32" where "immed_rss_invalid \<equiv> cqe_field32 4"
abbreviation g_mlpath_rqpn :: "u8 list \<Rightarrow> u32" where "g_mlpath_rqpn \<equiv> cqe_field32 8"
abbreviation byte_cnt :: "u8 list \<Rightarrow> u32" where "byte_cnt \<equiv> cqe_field32 20"
abbreviation wqe_index :: "u8 list \<Rightarrow> u16" where "wqe_index \<equiv> cqe_field16 24"
abbreviation owner_sr_opcode :: "u8 list \<Rightarrow> u8" where "owner_sr_opcode c \<equiv> c ! 31"

definition cqe_qpn :: "u8 list \<Rightarrow> u32" where
  "cqe_qpn c = vlan_my_qpn c AND MLX4_CQE_QPN_MASK"

definition cqe_is_send :: "u8 list \<Rightarrow> bool" where
  "cqe_is_send c \<longleftrightarrow> owner_sr_opcode c AND MLX4_CQE_IS_SEND_MASK \<noteq> 0"

definition cqe_opcode :: "u8 list \<Rightarrow> u8" where
  "cqe_opcode c = owner_sr_opcode c AND MLX4_CQE_OPCODE_MASK"

text \<open>The low byte of the checksum is the vendor's error code of an error entry.\<close>

definition cqe_is_error :: "u8 list \<Rightarrow> bool" where
  "cqe_is_error c \<longleftrightarrow> cqe_opcode c = MLX4_CQE_OPCODE_ERROR \<and> cqe_raw16 26 c AND 0xff \<noteq> 0"

text \<open>In a ring of 64-byte entries the 32 bytes are the second half.\<close>

definition cqe_off :: "comp_queue \<Rightarrow> nat" where
  "cqe_off cq = (if cq_cqe_size cq = 64 then 32 else 0)"

definition cq_slot :: "comp_queue \<Rightarrow> u32 \<Rightarrow> nat" where
  "cq_slot cq n = unat n AND cq_cqe cq"

definition get_cqe :: "comp_queue \<Rightarrow> u32 \<Rightarrow> u8 list res" where
  "get_cqe cq n = res_bind (arr_get (cq_buf cq) (cq_slot cq n)) (\<lambda>e. mem_read e (cqe_off cq) 32)"

definition get_sw_cqe :: "comp_queue \<Rightarrow> u32 \<Rightarrow> u8 list option res" where
  "get_sw_cqe cq n = res_bind (get_cqe cq n) (\<lambda>c.
     Inr (if (owner_sr_opcode c AND MLX4_CQE_OWNER_MASK \<noteq> 0) \<noteq> (n AND of_nat (cq_cqe cq + 1) \<noteq> 0) then None else Some c))"

definition next_cqe_sw :: "comp_queue \<Rightarrow> u8 list option res" where
  "next_cqe_sw cq = get_sw_cqe cq (cq_cons_index cq)"

definition mlx4_update_cons_index :: "comp_queue \<Rightarrow> comp_queue" where
  "mlx4_update_cons_index cq = cq\<lparr>cq_set_ci_db := be32 (cq_cons_index cq AND 0xffffff)\<rparr>"

section \<open>Decoding\<close>

definition mlx4_handle_error_cqe :: "u8 list \<Rightarrow> exp_wc \<Rightarrow> exp_wc" where
  "mlx4_handle_error_cqe c wc =
     (let syndrome = c ! 27 in
      wc\<lparr>wc_status :=
          (if syndrome = 0x01 then WC_LOC_LEN_ERR
           else if syndrome = 0x02 then WC_LOC_QP_OP_ERR
           else if syndrome = 0x04 then WC_LOC_PROT_ERR
           else if syndrome = 0x05 then WC_WR_FLUSH_ERR
           else if syndrome = 0x06 then WC_MW_BIND_ERR
           else if syndrome = 0x10 then WC_BAD_RESP_ERR
           else if syndrome = 0x11 then WC_LOC_ACCESS_ERR
           else if syndrome = 0x12 then WC_REM_INV_REQ_ERR
           else if syndrome = 0x13 then WC_REM_ACCESS_ERR
           else if syndrome = 0x14 then WC_REM_OP_ERR
           else if syndrome = 0x15 then WC_RETRY_EXC_ERR
           else if syndrome = 0x16 then WC_RNR_RETRY_EXC_ERR
           else if syndrome = 0x22 then WC_REM_ABORT_ERR
           else WC_GENERAL_ERR),
        wc_vendor_err := ucast (c ! 26)\<rparr>)"

text \<open>The variables of polling one entry: the queue, the context, and \<open>*cur_qp\<close>.\<close>

record poll_state =
  ps_cq :: comp_queue
  ps_cx :: mlx4_ctx
  ps_cur :: "nat option"

text \<open>
  Whose completion it is. \<open>None\<close> is an unknown number (\<open>CQ_POLL_ERR\<close>), otherwise the shared receive queue, if any.
\<close>

definition find_owner :: "u8 list \<Rightarrow> poll_state \<Rightarrow> (nat option option \<times> poll_state) res" where
  "find_owner c st =
     (let qpn = cqe_qpn c; cx = ps_cx st in
      if qpn AND MLX4_XRC_QPN_BIT \<noteq> 0 \<and> \<not> cqe_is_send c
      then res_bind (mlx4_find_xsrq (cx_xsrq_table cx) (g_mlpath_rqpn c AND MLX4_CQE_QPN_MASK)) (\<lambda>srq.
        Inr (case srq of None \<Rightarrow> None | Some h \<Rightarrow> Some (Some h), st\<lparr>ps_cur := None\<rparr>))
      else res_bind (case ps_cur st of None \<Rightarrow> mlx4_find_qp (cx_qp_table cx) qpn
          | Some h \<Rightarrow> res_bind (arr_get (cx_qps cx) h) (\<lambda>q. if mq_num q = qpn then Inr (Some h) else mlx4_find_qp (cx_qp_table cx) qpn)) (\<lambda>cur.
        case cur of None \<Rightarrow> Inr (None, st\<lparr>ps_cur := None\<rparr>)
        | Some h \<Rightarrow> res_bind (arr_get (cx_qps cx) h) (\<lambda>q. Inr (Some (mq_srq q), st\<lparr>ps_cur := Some h\<rparr>))))"

definition upd_qp :: "nat \<Rightarrow> mlx4_qp \<Rightarrow> mlx4_ctx \<Rightarrow> mlx4_ctx" where
  "upd_qp h q cx = cx\<lparr>cx_qps := (cx_qps cx)[h := q]\<rparr>"

definition cur_qp :: "poll_state \<Rightarrow> mlx4_qp res" where
  "cur_qp st = (case ps_cur st of None \<Rightarrow> Inl Null_deref | Some h \<Rightarrow> arr_get (cx_qps (ps_cx st)) h)"

text \<open>Which request it completes; the result has its identifier and the index of its element.\<close>

definition send_done :: "u16 \<Rightarrow> send_queue \<Rightarrow> (u64 \<times> send_queue) res" where
  "send_done idx q =
     (let t = sq_tail q + ucast (idx - ucast (sq_tail q)) in
      res_bind (arr_get (sq_wrid q) (sq_index q t)) (\<lambda>i. Inr (i, q\<lparr>sq_tail := t + 1\<rparr>)))"

definition recv_done :: "recv_queue \<Rightarrow> (u64 \<times> nat \<times> recv_queue) res" where
  "recv_done q =
     (let idx = unat (rq_tail q) AND (rq_cnt q - 1) in
      res_bind (arr_get (rq_wrid q) idx) (\<lambda>i. Inr (i, idx, q\<lparr>rq_tail := rq_tail q + 1\<rparr>)))"

definition complete_request :: "u8 list \<Rightarrow> nat option \<Rightarrow> poll_state \<Rightarrow> (u64 \<times> nat \<times> poll_state) res" where
  "complete_request c srq st =
     (let cx = ps_cx st in
      if cqe_is_send c then
        (case ps_cur st of None \<Rightarrow> Inl Null_deref
         | Some h \<Rightarrow> res_bind (arr_get (cx_qps cx) h) (\<lambda>q. res_bind (send_done (wqe_index c) (mq_sq q)) (\<lambda>(i, sq).
             Inr (i, unat (wqe_index c), st\<lparr>ps_cx := upd_qp h (q\<lparr>mq_sq := sq\<rparr>) cx\<rparr>))))
      else case srq of
        Some s \<Rightarrow> res_bind (arr_get (cx_srqs cx) s) (\<lambda>r. res_bind (srq_complete (unat (wqe_index c)) r) (\<lambda>(i, r).
          Inr (i, unat (wqe_index c), st\<lparr>ps_cx := cx\<lparr>cx_srqs := (cx_srqs cx)[s := r]\<rparr>\<rparr>)))
      | None \<Rightarrow>
        (case ps_cur st of None \<Rightarrow> Inl Null_deref
         | Some h \<Rightarrow> res_bind (arr_get (cx_qps cx) h) (\<lambda>q. res_bind (recv_done (mq_rq q)) (\<lambda>(i, idx, rq).
             Inr (i, idx, st\<lparr>ps_cx := upd_qp h (q\<lparr>mq_rq := rq\<rparr>) cx\<rparr>)))))"

definition wc_timestamp_of :: "u8 list \<Rightarrow> u64" where
  "wc_timestamp_of c = push_bit 16 (ucast (cqe_field32 12 c + (if cqe_field16 29 c = 0 then 1 else 0))) OR ucast (cqe_field16 29 c)"

text \<open>\<open>ts\<close>: the structure of the caller has room for a timestamp.\<close>

definition stamp_wc :: "bool \<Rightarrow> u8 list \<Rightarrow> comp_queue \<Rightarrow> exp_wc \<Rightarrow> u64 \<times> exp_wc" where
  "stamp_wc ts c cq wc =
     (if cq_timestamp cq \<and> ts then
        if cq_ts_sys_time cq then (0, wc\<lparr>wc_timestamp := 0\<rparr>)
        else (IBV_EXP_WC_WITH_TIMESTAMP, wc\<lparr>wc_timestamp := wc_timestamp_of c\<rparr>)
      else (0, wc))"

definition send_wc :: "u8 list \<Rightarrow> exp_wc \<Rightarrow> u32 \<times> exp_wc" where
  "send_wc c wc =
     (let op = cqe_opcode c in
      if op = 0x1f \<or> op = 0x09 then (IBV_WC_WITH_IMM, wc\<lparr>wc_opcode := WC_RDMA_WRITE\<rparr>)
      else if op = 0x08 then (0, wc\<lparr>wc_opcode := WC_RDMA_WRITE\<rparr>)
      else if op = 0x0b then (IBV_WC_WITH_IMM, wc\<lparr>wc_opcode := WC_SEND\<rparr>)
      else if op = 0x0a then (0, wc\<lparr>wc_opcode := WC_SEND\<rparr>)
      else if op = 0x10 then (0, wc\<lparr>wc_opcode := WC_RDMA_READ, wc_byte_len := byte_cnt c\<rparr>)
      else if op = 0x11 then (0, wc\<lparr>wc_opcode := WC_COMP_SWAP, wc_byte_len := 8\<rparr>)
      else if op = 0x12 then (0, wc\<lparr>wc_opcode := WC_FETCH_ADD, wc_byte_len := 8\<rparr>)
      else if op = 0x14 then (0, wc\<lparr>wc_opcode := WC_MASKED_COMP_SWAP\<rparr>)
      else if op = 0x15 then (0, wc\<lparr>wc_opcode := WC_MASKED_FETCH_ADD\<rparr>)
      else if op = 0x1b then (0, wc\<lparr>wc_opcode := WC_LOCAL_INV\<rparr>)
      else if op = 0x18 then (0, wc\<lparr>wc_opcode := WC_BIND_MW\<rparr>)
      else (0, wc\<lparr>wc_opcode := WC_SEND\<rparr>))"

text \<open>
  Data the device has left in the element itself, copied to the buffers of the request; what is left over when they
  are full is an error.
\<close>

fun put_bytes :: "u64 \<Rightarrow> u8 list \<Rightarrow> (u64 \<Rightarrow> u8) \<Rightarrow> u64 \<Rightarrow> u8" where
  "put_bytes a [] m = m"
| "put_bytes a (b # bs) m = put_bytes (a + 1) bs (m(a := b))"

fun scatter_inline :: "(u64 \<times> u32) list \<Rightarrow> u8 list \<Rightarrow> nat \<Rightarrow> int \<Rightarrow> (u64 \<Rightarrow> u8) \<Rightarrow> (int \<times> (u64 \<Rightarrow> u8)) res" where
  "scatter_inline [] slot off left m = Inr (left, m)"
| "scatter_inline ((a, rlen) # bs) slot off left m =
     (if left = 0 then Inr (left, m)
      else let size = min (sint rlen) left in
        if size < 0 then Inl Out_of_bounds
        else res_bind (mem_read slot off (nat size)) (\<lambda>d.
          scatter_inline bs slot (off + nat size) (left - size) (put_bytes a d m)))"

definition inline_data :: "u8 list \<Rightarrow> nat \<Rightarrow> u32 \<Rightarrow> poll_state \<Rightarrow> (int \<times> poll_state) res" where
  "inline_data c idx len st =
     (case ps_cur st of None \<Rightarrow> Inr (0, st)
      | Some h \<Rightarrow> res_bind (arr_get (cx_qps (ps_cx st)) h) (\<lambda>q.
          case rq_inlr (mq_rq q) of None \<Rightarrow> Inr (0, st)
          | Some buffs \<Rightarrow>
            if owner_sr_opcode c AND MLX4_CQE_INL_SCATTER_MASK = 0 then Inr (0, st)
            else res_bind (arr_get buffs idx) (\<lambda>bs. res_bind (arr_get (rq_slots (mq_rq q)) idx) (\<lambda>slot.
              res_bind (scatter_inline bs slot 0 (sint len) (cx_mem (ps_cx st))) (\<lambda>(left, m).
                Inr (left, st\<lparr>ps_cx := (ps_cx st)\<lparr>cx_mem := m\<rparr>\<rparr>))))))"

text \<open>A receive: flags for the end, and the immediate. The flag of an invalidation is set in the completion itself.\<close>

definition recv_opcode :: "u8 list \<Rightarrow> exp_wc \<Rightarrow> u32 \<times> exp_wc" where
  "recv_opcode c wc =
     (let op = cqe_opcode c in
      if op = 0x00 then (IBV_WC_WITH_IMM, wc\<lparr>wc_opcode := WC_RECV_RDMA_WITH_IMM, wc_imm_data := cqe_raw32 4 c\<rparr>)
      else if op = 0x03 then (0, wc\<lparr>wc_opcode := WC_RECV, wc_flags := wc_flags wc OR IBV_WC_WITH_INV, wc_imm_data := immed_rss_invalid c\<rparr>)
      else if op = 0x01 then (0, wc\<lparr>wc_opcode := WC_RECV\<rparr>)
      else if op = 0x02 then (IBV_WC_WITH_IMM, wc\<lparr>wc_opcode := WC_RECV, wc_imm_data := cqe_raw32 4 c\<rparr>)
      else (0, wc))"

definition MLX4_TRANSPOSE :: "u64 \<Rightarrow> u64 \<Rightarrow> u64 \<Rightarrow> u64" where
  "MLX4_TRANSPOSE val from to = (if to \<le> from then (val AND from) div (from div to) else (val AND from) * (to div from))"

definition csum_flags :: "u8 list \<Rightarrow> u64" where
  "csum_flags c =
     MLX4_TRANSPOSE (ucast (c ! 19)) 4 IBV_EXP_WC_RX_TCP_UDP_CSUM_OK OR
     MLX4_TRANSPOSE (ucast (cqe_raw16 16 c)) (ucast (htons 0x1000)) IBV_EXP_WC_RX_IP_CSUM_OK OR
     MLX4_TRANSPOSE (ucast (cqe_raw16 16 c)) (ucast (htons 0x0040)) IBV_EXP_WC_RX_IPV4_PACKET OR
     MLX4_TRANSPOSE (ucast (cqe_raw16 16 c)) (ucast (htons 0x0100)) IBV_EXP_WC_RX_IPV6_PACKET"

definition tunnel_flags :: "u8 list \<Rightarrow> u64 \<Rightarrow> u64" where
  "tunnel_flags c flags =
     (let v = ucast (cqe_raw32 0 c);
          f = flags OR MLX4_TRANSPOSE v (ucast (htonl32 0x08000000)) IBV_EXP_WC_RX_TUNNEL_PACKET OR
            MLX4_TRANSPOSE v (ucast (htonl32 0x80000000)) IBV_EXP_WC_RX_OUTER_IP_CSUM_OK OR
            MLX4_TRANSPOSE v (ucast (htonl32 0x04000000)) IBV_EXP_WC_RX_OUTER_TCP_UDP_CSUM_OK OR
            MLX4_TRANSPOSE v (ucast (htonl32 0x02000000)) IBV_EXP_WC_RX_OUTER_IPV4_PACKET
      in f OR MLX4_TRANSPOSE (NOT f) IBV_EXP_WC_RX_OUTER_IPV4_PACKET IBV_EXP_WC_RX_OUTER_IPV6_PACKET)"

text \<open>The address part of a receive; \<open>cur\<close> is the queue pair unless it is an XRC receive.\<close>

definition recv_address :: "bool \<Rightarrow> u8 list \<Rightarrow> comp_queue \<Rightarrow> mlx4_qp option \<Rightarrow> u64 \<times> u32 \<Rightarrow> exp_wc \<Rightarrow> (u64 \<times> u32) \<times> exp_wc" where
  "recv_address is_exp c cq cur flags wc =
     (let (ef, wf) = flags;
          (ef, wc) = (if cq_timestamp cq then (ef, wc) else (ef OR IBV_EXP_WC_WITH_SLID, wc\<lparr>wc_slid := cqe_field16 14 c\<rparr>));
          g = g_mlpath_rqpn c;
          wc = wc\<lparr>wc_src_qp := g AND 0xffffff, wc_dlid_path_bits := ucast (drop_bit 24 g AND 0x7f)\<rparr>;
          wf = wf OR (if g AND 0x80000000 \<noteq> 0 then IBV_WC_GRH else 0);
          wc = wc\<lparr>wc_pkey_index := ucast (immed_rss_invalid c AND 0x7f)\<rparr>;
          (ef, wc) = (if cq_timestamp cq then (ef, wc)
            else (ef OR IBV_EXP_WC_WITH_SL,
                  wc\<lparr>wc_sl := ucast (drop_bit (if (case cur of Some q \<Rightarrow> mq_ethernet q | None \<Rightarrow> False) then 13 else 12) (cqe_field16 12 c))\<rparr>));
          ef = (case cur of None \<Rightarrow> ef | Some q \<Rightarrow>
            if is_exp then
              let ef = (if mq_rx_csum q then ef OR csum_flags c else ef)
              in if mq_rx_vxlan q then tunnel_flags c ef else ef
            else ef)
      in ((ef, wf), wc))"

definition finish_wc :: "bool \<Rightarrow> u64 \<times> u32 \<Rightarrow> exp_wc \<Rightarrow> exp_wc" where
  "finish_wc is_exp flags wc =
     (let wc = (if is_exp then wc\<lparr>wc_exp_flags := fst flags OR ucast (snd flags)\<rparr> else wc) in wc\<lparr>wc_flags := snd flags\<rparr>)"

definition cur_qp_opt :: "poll_state \<Rightarrow> mlx4_qp option res" where
  "cur_qp_opt st = (case ps_cur st of None \<Rightarrow> Inr None | Some h \<Rightarrow> res_bind (arr_get (cx_qps (ps_cx st)) h) (\<lambda>q. Inr (Some q)))"

text \<open>The first result: whether inline data found room. If not, the function returns at once.\<close>

definition recv_wc :: "bool \<Rightarrow> u64 \<Rightarrow> u8 list \<Rightarrow> nat \<Rightarrow> exp_wc \<Rightarrow> poll_state \<Rightarrow> (bool \<times> exp_wc \<times> poll_state) res" where
  "recv_wc is_exp ef c idx wc st =
     (let wc = wc\<lparr>wc_byte_len := byte_cnt c\<rparr> in
      res_bind (inline_data c idx (byte_cnt c) st) (\<lambda>(left, st).
        if left \<noteq> 0 then Inr (False, wc\<lparr>wc_status := WC_LOC_LEN_ERR\<rparr>, st)
        else let (wf, wc) = recv_opcode c wc in
          res_bind (cur_qp_opt st) (\<lambda>cur.
            let (flags, wc) = recv_address is_exp c (ps_cq st) cur (ef, wf) wc in Inr (True, finish_wc is_exp flags wc, st))))"

text \<open>
  The part of both poll functions up to the status; the result is the code to return at once, or the flags so far
  and the index.
\<close>

definition poll_start :: "bool \<Rightarrow> bool \<Rightarrow> exp_wc \<Rightarrow> poll_state \<Rightarrow> ((poll_result + (u8 list \<times> u64 \<times> nat)) \<times> exp_wc \<times> poll_state) res" where
  "poll_start is_exp ts wc st =
     res_bind (next_cqe_sw (ps_cq st)) (\<lambda>e. case e of None \<Rightarrow> Inr (Inl CQ_EMPTY, wc, st)
       | Some c \<Rightarrow>
         let st = st\<lparr>ps_cq := (ps_cq st)\<lparr>cq_cons_index := cq_cons_index (ps_cq st) + 1\<rparr>\<rparr>;
             wc = wc\<lparr>wc_qp_num := cqe_qpn c\<rparr>
         in res_bind (find_owner c st) (\<lambda>(owner, st). case owner of None \<Rightarrow> Inr (Inl CQ_POLL_ERR, wc, st)
         | Some srq \<Rightarrow>
           let (ef, wc) = (if is_exp \<and> ps_cur st \<noteq> None then (IBV_EXP_WC_QP, wc\<lparr>wc_qp := ps_cur st\<rparr>) else (0, wc)) in
           res_bind (complete_request c srq st) (\<lambda>(i, idx, st).
             let wc = wc\<lparr>wc_wr_id := i\<rparr>;
                 (ef, wc) = (if is_exp \<and> srq \<noteq> None \<and> \<not> cqe_is_send c then (ef OR IBV_EXP_WC_SRQ, wc\<lparr>wc_srq := srq\<rparr>) else (ef, wc))
             in if cqe_is_error c then Inr (Inl CQ_OK, mlx4_handle_error_cqe c wc, st)
                else let (tf, wc) = stamp_wc ts c (ps_cq st) (wc\<lparr>wc_status := WC_SUCCESS\<rparr>)
                  in Inr (Inr (c, ef OR tf, idx), wc, st))))"

definition poll_one_driver :: "bool \<Rightarrow> bool \<Rightarrow> exp_wc \<Rightarrow> poll_state \<Rightarrow> (poll_result \<times> exp_wc \<times> poll_state) res" where
  "poll_one_driver is_exp ts wc st =
     res_bind (poll_start is_exp ts wc st) (\<lambda>(r, wc, st).
       case r of Inl code \<Rightarrow> Inr (code, wc, st)
       | Inr (c, ef, idx) \<Rightarrow>
         if cqe_is_send c then let (wf, wc) = send_wc c wc in Inr (CQ_OK, finish_wc is_exp (ef, wf) wc, st)
         else res_bind (recv_wc is_exp ef c idx wc st) (\<lambda>(ok, wc, st). Inr (CQ_OK, wc, st)))"

section \<open>Polling\<close>

text \<open>\<open>wcs\<close> is the caller's array, \<open>k\<close> the number of entries still wanted.\<close>

fun poll_loop_driver :: "bool \<Rightarrow> bool \<Rightarrow> nat \<Rightarrow> nat \<Rightarrow> exp_wc list \<Rightarrow> poll_state \<Rightarrow> (poll_result \<times> nat \<times> exp_wc list \<times> poll_state) res" where
  "poll_loop_driver is_exp ts 0 npolled wcs st = Inr (CQ_OK, npolled, wcs, st)"
| "poll_loop_driver is_exp ts (Suc k) npolled wcs st =
     res_bind (arr_get wcs npolled) (\<lambda>wc. res_bind (poll_one_driver is_exp ts wc st) (\<lambda>(r, wc, st).
       let wcs = wcs[npolled := wc] in
       if r \<noteq> CQ_OK then Inr (r, npolled, wcs, st)
       else poll_loop_driver is_exp ts k (npolled + 1) wcs st))"

definition poll_cq_driver :: "bool \<Rightarrow> bool \<Rightarrow> nat \<Rightarrow> exp_wc list \<Rightarrow> comp_queue \<Rightarrow> mlx4_ctx \<Rightarrow> (int \<times> exp_wc list \<times> comp_queue \<times> mlx4_ctx) res" where
  "poll_cq_driver is_exp ts ne wcs cq cx =
     res_bind (poll_loop_driver is_exp ts ne 0 wcs \<lparr>ps_cq = cq\<lparr>cq_stall_next_poll := False\<rparr>, ps_cx = cx, ps_cur = None\<rparr>) (\<lambda>(err, npolled, wcs, st).
       let cq = (if npolled \<noteq> 0 \<or> err = CQ_POLL_ERR then mlx4_update_cons_index (ps_cq st) else ps_cq st);
           cq = (if cq_stall_enable cq \<and> err = CQ_EMPTY then cq\<lparr>cq_stall_next_poll := True\<rparr> else cq)
       in Inr (if err = CQ_POLL_ERR then - 2 else int npolled, wcs, cq, ps_cx st))"

section \<open>Arming\<close>

definition MLX4_CQ_DB_REQ_NOT_SOL :: u32 where [macro_defs]: "MLX4_CQ_DB_REQ_NOT_SOL = push_bit 24 1"
definition MLX4_CQ_DB_REQ_NOT :: u32 where [macro_defs]: "MLX4_CQ_DB_REQ_NOT = push_bit 24 2"

definition mlx4_arm_cq :: "bool \<Rightarrow> comp_queue \<Rightarrow> comp_queue" where
  "mlx4_arm_cq solicited cq =
     (let sn = cq_arm_sn cq AND 3;
          ci = cq_cons_index cq AND 0xffffff;
          cmd = (if solicited then MLX4_CQ_DB_REQ_NOT_SOL else MLX4_CQ_DB_REQ_NOT)
      in cq\<lparr>cq_arm_db := be32 (push_bit 28 sn OR cmd OR ci),
           cq_doorbells := cq_doorbells cq @ [be32 (push_bit 28 sn OR cmd OR cq_cqn cq) @ be32 ci]\<rparr>)"

definition mlx4_cq_event :: "comp_queue \<Rightarrow> comp_queue" where
  "mlx4_cq_event cq = cq\<lparr>cq_arm_sn := cq_arm_sn cq + 1\<rparr>"

section \<open>Removing the entries of a queue pair\<close>

definition set_cqe :: "u32 \<Rightarrow> u8 list \<Rightarrow> comp_queue \<Rightarrow> comp_queue res" where
  "set_cqe n c cq = res_bind (arr_get (cq_buf cq) (cq_slot cq n)) (\<lambda>e. res_bind (mem_write e (cqe_off cq) c) (\<lambda>e.
     Inr (cq\<lparr>cq_buf := (cq_buf cq)[cq_slot cq n := e]\<rparr>)))"

text \<open>The search for the producer index; \<open>k\<close> bounds the steps, of which there is at most one per entry.\<close>

fun find_producer :: "nat \<Rightarrow> u32 \<Rightarrow> comp_queue \<Rightarrow> u32 res" where
  "find_producer 0 p cq = Inr p"
| "find_producer (Suc k) p cq = res_bind (get_sw_cqe cq p) (\<lambda>c.
     if c = None then Inr p else if p = cq_cons_index cq + of_nat (cq_cqe cq) then Inr p else find_producer k (p + 1) cq)"

text \<open>\<open>srq\<close> is the shared receive queue, if any. In the number of an XRC completion the mask is applied before \<open>ntohl\<close>.\<close>

definition xrc_number :: "u8 list \<Rightarrow> u32" where
  "xrc_number c = htonl32 (cqe_raw32 8 c AND MLX4_CQE_QPN_MASK)"

definition with_owner :: "u8 \<Rightarrow> u8 list \<Rightarrow> u8 list" where
  "with_owner b c = c[31 := (b AND MLX4_CQE_OWNER_MASK) OR (owner_sr_opcode c AND NOT MLX4_CQE_OWNER_MASK)]"

definition clean_one :: "u32 \<Rightarrow> u32 \<Rightarrow> nat \<times> srq option \<times> comp_queue \<Rightarrow> (nat \<times> srq option \<times> comp_queue) res" where
  "clean_one qpn p = (\<lambda>(nfreed, srq, cq).
     res_bind (get_cqe cq p) (\<lambda>c.
       case srq of
         Some s \<Rightarrow>
           if srq_ext_srq s \<and> xrc_number c = srq_num s \<and> \<not> cqe_is_send c
           then res_bind (mlx4_free_srq_wqe (unat (wqe_index c)) s) (\<lambda>s. Inr (nfreed + 1, Some s, cq))
           else if cqe_qpn c = qpn then
             res_bind (if \<not> cqe_is_send c then mlx4_free_srq_wqe (unat (wqe_index c)) s else Inr s) (\<lambda>s. Inr (nfreed + 1, Some s, cq))
           else if nfreed \<noteq> 0 then
             res_bind (get_cqe cq (p + of_nat nfreed)) (\<lambda>d.
             res_bind (set_cqe (p + of_nat nfreed) (with_owner (owner_sr_opcode d) c) cq) (\<lambda>cq. Inr (nfreed, Some s, cq)))
           else Inr (nfreed, Some s, cq)
       | None \<Rightarrow>
           if cqe_qpn c = qpn then Inr (nfreed + 1, None, cq)
           else if nfreed \<noteq> 0 then
             res_bind (get_cqe cq (p + of_nat nfreed)) (\<lambda>d.
             res_bind (set_cqe (p + of_nat nfreed) (with_owner (owner_sr_opcode d) c) cq) (\<lambda>cq. Inr (nfreed, None, cq)))
           else Inr (nfreed, None, cq)))"

text \<open>The sweep backwards to the consumer index; the indices are subtracted as 32-bit integers.\<close>

fun sweep :: "nat \<Rightarrow> u32 \<Rightarrow> u32 \<Rightarrow> nat \<times> srq option \<times> comp_queue \<Rightarrow> (nat \<times> srq option \<times> comp_queue) res" where
  "sweep 0 qpn p st = Inl Diverges"
| "sweep (Suc k) qpn p st =
     (let p = p - 1 in
      if signed_take_bit 31 (sint p - sint (cq_cons_index (snd (snd st)))) < 0 then Inr st
      else res_bind (clean_one qpn p st) (sweep k qpn p))"

text \<open>\<open>is_last\<close>: the cached queue pair has the number \<open>qpn\<close>.\<close>

definition mlx4_cq_clean :: "bool \<Rightarrow> u32 \<Rightarrow> srq option \<Rightarrow> comp_queue \<Rightarrow> (srq option \<times> comp_queue) res" where
  "mlx4_cq_clean is_last qpn srq cq =
     (let cq = (if is_last then cq\<lparr>cq_last_qp := None\<rparr> else cq) in
      res_bind (find_producer (cq_cqe cq + 1) (cq_cons_index cq) cq) (\<lambda>prod.
      res_bind (sweep (cq_cqe cq + 2) qpn prod (0, srq, cq)) (\<lambda>(nfreed, srq, cq).
        Inr (srq, if nfreed \<noteq> 0
          then mlx4_update_cons_index (cq\<lparr>cq_cons_index := cq_cons_index cq + of_nat nfreed\<rparr>) else cq))))"

text \<open>The number of entries that wait to be polled; a ring has at most as many as it has places.\<close>

fun count_cqes :: "nat \<Rightarrow> u32 \<Rightarrow> comp_queue \<Rightarrow> nat res" where
  "count_cqes 0 i cq = Inl Diverges"
| "count_cqes (Suc k) i cq = res_bind (get_sw_cqe cq i) (\<lambda>c.
     if c = None then Inr 0 else res_bind (count_cqes k (i + 1) cq) (\<lambda>n. Inr (n + 1)))"

definition mlx4_get_outstanding_cqes :: "comp_queue \<Rightarrow> nat res" where
  "mlx4_get_outstanding_cqes cq = count_cqes (cq_cqe cq + 2) (cq_cons_index cq) cq"

section \<open>Resizing\<close>

text \<open>
  Copying the entries up to the one that marks the end to the new ring, with the owner bits of the new size; \<open>cq_buf\<close> and
  \<open>old_cqe\<close> are the old ring, \<open>cq_cqe\<close> is already the new size. Without a mark the loop would not end.
\<close>

definition resized_entry :: "comp_queue \<Rightarrow> u32 \<Rightarrow> u8 list \<Rightarrow> u8 list" where
  "resized_entry cq i e = (let off = cqe_off cq + 31 in
     e[off := (e ! off AND NOT MLX4_CQE_OWNER_MASK) OR
       (if (i + 1) AND of_nat (cq_cqe cq + 1) \<noteq> 0 then MLX4_CQE_OWNER_MASK else 0)])"

fun resize_loop :: "nat \<Rightarrow> nat \<Rightarrow> u32 \<Rightarrow> comp_queue \<Rightarrow> u8 list list \<Rightarrow> (u8 list list \<times> comp_queue) res" where
  "resize_loop 0 old_cqe i cq buf = Inl Diverges"
| "resize_loop (Suc k) old_cqe i cq buf =
     res_bind (arr_get (cq_buf cq) (unat i AND old_cqe)) (\<lambda>e.
     res_bind (arr_get e (cqe_off cq + 31)) (\<lambda>b.
       if b AND MLX4_CQE_OPCODE_MASK = MLX4_CQE_OPCODE_RESIZE then Inr (buf, cq)
       else let e = resized_entry cq i e in
         res_bind (arr_set buf (unat (i + 1) AND cq_cqe cq) e) (\<lambda>buf.
           resize_loop k old_cqe (i + 1) (cq\<lparr>cq_buf := (cq_buf cq)[unat i AND old_cqe := e]\<rparr>) buf)))"

definition mlx4_cq_resize_copy_cqes :: "u8 list list \<Rightarrow> nat \<Rightarrow> comp_queue \<Rightarrow> (u8 list list \<times> comp_queue) res" where
  "mlx4_cq_resize_copy_cqes buf old_cqe cq = res_bind (resize_loop (old_cqe + 2) old_cqe (cq_cons_index cq) cq buf) (\<lambda>(buf, cq).
     Inr (buf, cq\<lparr>cq_cons_index := cq_cons_index cq + 1\<rparr>))"

section \<open>Counting completions\<close>

text \<open>
  The interface that only counts keeps the queue pair it saw last in the queue. \<open>update_sq_tail\<close> moves the tail to
  the completed request, \<open>drain_rx\<close> takes a receive off its queue; indices advance on success only.
\<close>

definition find_last_qp :: "u8 list \<Rightarrow> comp_queue \<Rightarrow> mlx4_ctx \<Rightarrow> (nat option \<times> comp_queue) res" where
  "find_last_qp c cq cx =
     res_bind (case cq_last_qp cq of None \<Rightarrow> Inr False
        | Some h \<Rightarrow> res_bind (arr_get (cx_qps cx) h) (\<lambda>q. Inr (mq_num q = cqe_qpn c))) (\<lambda>hit.
     if hit then Inr (cq_last_qp cq, cq)
     else res_bind (mlx4_find_qp (cx_qp_table cx) (cqe_qpn c)) (\<lambda>cur. case cur of None \<Rightarrow> Inr (None, cq)
       | Some h \<Rightarrow> Inr (Some h, cq\<lparr>cq_last_qp := Some h\<rparr>)))"

definition update_sq_tail :: "u8 list \<Rightarrow> comp_queue \<Rightarrow> mlx4_ctx \<Rightarrow> (poll_result \<times> comp_queue \<times> mlx4_ctx) res" where
  "update_sq_tail c cq cx = res_bind (find_last_qp c cq cx) (\<lambda>(cur, cq).
     case cur of None \<Rightarrow> Inr (CQ_POLL_ERR, cq, cx)
     | Some h \<Rightarrow> res_bind (arr_get (cx_qps cx) h) (\<lambda>q.
         let sq = mq_sq q; sq = sq\<lparr>sq_tail := sq_tail sq + ucast (wqe_index c - ucast (sq_tail sq))\<rparr>
         in Inr (CQ_OK, cq\<lparr>cq_cons_index := cq_cons_index cq + 1\<rparr>, upd_qp h (q\<lparr>mq_sq := sq\<rparr>) cx)))"

text \<open>
  \<open>buf\<close>: whether the caller takes inline data in a buffer of its own; the bytes it gets are the second result.
\<close>

definition drain_rx :: "bool \<Rightarrow> u8 list \<Rightarrow> comp_queue \<Rightarrow> mlx4_ctx \<Rightarrow> (poll_result \<times> u8 list option \<times> comp_queue \<times> mlx4_ctx) res" where
  "drain_rx buf c cq cx =
     res_bind (case cq_last_qp cq of None \<Rightarrow> Inr False
        | Some h \<Rightarrow> res_bind (arr_get (cx_qps cx) h) (\<lambda>q. Inr (mq_num q = cqe_qpn c))) (\<lambda>hit.
     if \<not> hit \<and> cqe_qpn c AND MLX4_XRC_QPN_BIT \<noteq> 0 then
       res_bind (mlx4_find_xsrq (cx_xsrq_table cx) (g_mlpath_rqpn c AND MLX4_CQE_QPN_MASK)) (\<lambda>srq.
         if srq = None then Inr (CQ_POLL_ERR, None, cq, cx) else Inl Null_deref)
     else res_bind (find_last_qp c cq cx) (\<lambda>(cur, cq).
       case cur of None \<Rightarrow> Inr (CQ_POLL_ERR, None, cq, cx)
       | Some h \<Rightarrow> res_bind (arr_get (cx_qps cx) h) (\<lambda>q.
           let next = cq\<lparr>cq_cons_index := cq_cons_index cq + 1\<rparr>; rq = mq_rq q;
               popped = upd_qp h (q\<lparr>mq_rq := rq\<lparr>rq_tail := rq_tail rq + 1\<rparr>\<rparr>)
           in case rq_inlr rq of
             None \<Rightarrow>
               (case mq_srq q of
                  Some s \<Rightarrow> res_bind (arr_get (cx_srqs cx) s) (\<lambda>r. res_bind (mlx4_free_srq_wqe (unat (wqe_index c)) r) (\<lambda>r.
                    Inr (CQ_OK, None, next, cx\<lparr>cx_srqs := (cx_srqs cx)[s := r]\<rparr>)))
                | None \<Rightarrow> Inr (CQ_OK, None, next, popped cx))
           | Some buffs \<Rightarrow>
             if owner_sr_opcode c AND MLX4_CQE_INL_SCATTER_MASK = 0 then Inr (CQ_OK, None, next, popped cx)
             else if cqe_is_error c then Inr (CQ_POLL_ERR, None, cq, cx)
             else let idx = unat (rq_tail rq) AND (rq_cnt rq - 1) in
               res_bind (arr_get (rq_slots rq) idx) (\<lambda>slot.
               if buf then res_bind (mem_read slot 0 (unat (byte_cnt c))) (\<lambda>d. Inr (CQ_OK, Some d, next, popped cx))
               else res_bind (arr_get buffs idx) (\<lambda>bs. res_bind (scatter_inline bs slot 0 (sint (byte_cnt c)) (cx_mem cx)) (\<lambda>(left, m).
                 if left \<noteq> 0 then Inr (CQ_POLL_ERR, None, cq, cx\<lparr>cx_mem := m\<rparr>)
                 else Inr (CQ_OK, None, next, popped (cx\<lparr>cx_mem := m\<rparr>))))))))"

fun poll_cnt_loop :: "nat \<Rightarrow> nat \<Rightarrow> comp_queue \<Rightarrow> mlx4_ctx \<Rightarrow> (poll_result \<times> nat \<times> comp_queue \<times> mlx4_ctx) res" where
  "poll_cnt_loop 0 npolled cq cx = Inr (CQ_OK, npolled, cq, cx)"
| "poll_cnt_loop (Suc k) npolled cq cx = res_bind (next_cqe_sw cq) (\<lambda>e. case e of
       None \<Rightarrow> Inr (CQ_EMPTY, npolled, cq, cx)
     | Some c \<Rightarrow> res_bind (if cqe_is_send c then update_sq_tail c cq cx
           else res_bind (drain_rx False c cq cx) (\<lambda>(r, d, cq, cx). Inr (r, cq, cx))) (\<lambda>(r, cq, cx).
         if r \<noteq> CQ_OK then Inr (r, npolled, cq, cx) else poll_cnt_loop k (npolled + 1) cq cx))"

definition poll_cnt :: "nat \<Rightarrow> comp_queue \<Rightarrow> mlx4_ctx \<Rightarrow> (int \<times> comp_queue \<times> mlx4_ctx) res" where
  "poll_cnt max_entries cq cx = res_bind (poll_cnt_loop max_entries 0 cq cx) (\<lambda>(err, npolled, cq, cx).
     Inr (if npolled \<noteq> 0 then int npolled else if err = CQ_POLL_ERR then - 1 else int npolled,
          if npolled \<noteq> 0 then mlx4_update_cons_index cq else cq, cx))"

text \<open>One receive, with its length and its inline data; \<open>buf\<close> as above.\<close>

definition poll_length :: "bool \<Rightarrow> comp_queue \<Rightarrow> mlx4_ctx \<Rightarrow> (int \<times> u8 list option \<times> comp_queue \<times> mlx4_ctx) res" where
  "poll_length buf cq cx = res_bind (next_cqe_sw cq) (\<lambda>e. case e of
       None \<Rightarrow> Inr (0, None, cq, cx)
     | Some c \<Rightarrow>
       if cqe_is_send c then Inr (- 1, None, cq, cx)
       else res_bind (drain_rx buf c cq cx) (\<lambda>(r, d, cq, cx).
         Inr (if r = CQ_OK then (sint (byte_cnt c), d, mlx4_update_cons_index cq, cx)
              else (- 1, d, cq, cx))))"

end
