(* ===== verification/Completion_Proofs.thy ===== *)
theory Completion_Proofs
  imports Completion Send_Queue_Proofs
begin

text \<open>
  The completion queue: the entries that wait in its ring, as a list (\<open>holds\<close>); what polling, counting, removing and
  resizing do to that list; and, with the send queue, that the requests posted come back with their identifiers.
\<close>

unbundle bit_operations_syntax

section \<open>The ring\<close>

definition cq_entry :: "comp_queue \<Rightarrow> u32 \<Rightarrow> u8 list" where
  "cq_entry cq n = take 32 (drop (cqe_off cq) (cq_buf cq ! cq_slot cq n))"

definition cq_shape :: "comp_queue \<Rightarrow> bool" where
  "cq_shape cq \<longleftrightarrow> (\<exists>k \<le> 24. cq_cqe cq + 1 = 2 ^ k) \<and> length (cq_buf cq) = cq_cqe cq + 1 \<and> cq_cqe_size cq \<in> {32, 64} \<and>
     (\<forall>e\<in>set (cq_buf cq). length e = cq_cqe_size cq)"

definition pass_bit :: "comp_queue \<Rightarrow> u32 \<Rightarrow> bool" where
  "pass_bit cq n \<longleftrightarrow> n AND of_nat (cq_cqe cq + 1) \<noteq> 0"

definition owner_bit :: "u8 list \<Rightarrow> bool" where
  "owner_bit c \<longleftrightarrow> owner_sr_opcode c AND MLX4_CQE_OWNER_MASK \<noteq> 0"

definition sw_owned :: "comp_queue \<Rightarrow> u32 \<Rightarrow> bool" where
  "sw_owned cq n \<longleftrightarrow> owner_bit (cq_entry cq n) = pass_bit cq n"

text \<open>An entry without its owner bit, and the entries that wait.\<close>

definition body :: "u8 list \<Rightarrow> u8 list" where
  "body c = c[31 := owner_sr_opcode c AND NOT MLX4_CQE_OWNER_MASK]"

definition holds :: "comp_queue \<Rightarrow> u8 list list \<Rightarrow> bool" where
  "holds cq cs \<longleftrightarrow> cq_shape cq \<and> length cs \<le> cq_cqe cq + 1 \<and>
     (\<forall>i<length cs. sw_owned cq (cq_cons_index cq + of_nat i) \<and> body (cq_entry cq (cq_cons_index cq + of_nat i)) = cs ! i) \<and>
     (length cs \<le> cq_cqe cq \<longrightarrow> \<not> sw_owned cq (cq_cons_index cq + of_nat (length cs)))"

lemma cq_slot_add:
  assumes "cq_shape cq"
  shows "cq_slot cq (n + of_nat i) = (unat n + i) mod (cq_cqe cq + 1)"
proof -
  obtain k where k: "k \<le> 24" "cq_cqe cq + 1 = 2 ^ k" using assms by (auto simp: cq_shape_def)
  then have "cq_cqe cq = 2 ^ k - 1" by simp
  then show ?thesis using ring_index_word [of k n i] k unfolding cq_slot_def by simp
qed

lemma cq_slot_less: "cq_shape cq \<Longrightarrow> cq_slot cq n < length (cq_buf cq)"
  using cq_slot_add [of cq n 0] by (simp add: cq_shape_def)

lemma cq_slot_inj:
  assumes "cq_shape cq" "i \<le> cq_cqe cq" "j \<le> cq_cqe cq"
  shows "cq_slot cq (n + of_nat i) = cq_slot cq (n + of_nat j) \<longleftrightarrow> i = j"
proof -
  have "i < cq_cqe cq + 1" "j < cq_cqe cq + 1" using assms(2,3) by simp_all
  then show ?thesis unfolding cq_slot_add [OF assms(1)] using mod_add_inj by metis
qed

lemma pass_bit_flip:
  assumes "cq_shape cq"
  shows "pass_bit cq (n + of_nat (cq_cqe cq + 1)) \<longleftrightarrow> \<not> pass_bit cq n"
proof -
  obtain k where k: "k \<le> 24" "cq_cqe cq + 1 = 2 ^ k" using assms by (auto simp: cq_shape_def)
  have p: "unat (2 ^ k :: u32) = 2 ^ k"
    using k unat_of_nat [of "2 ^ k", where 'a = 32] power_strict_increasing [of k 32 "2 :: nat"] by simp
  have "bit (n + 2 ^ k) k \<longleftrightarrow> bit (unat (n + 2 ^ k)) k"
    using k by (simp add: bit_unsigned_iff)
  also have "unat (n + 2 ^ k) = take_bit 32 (unat n + 2 ^ k)"
    by (simp add: unat_word_ariths p take_bit_eq_mod)
  also have "bit (take_bit 32 (unat n + 2 ^ k)) k \<longleftrightarrow> bit (unat n + 2 ^ k) k"
    using k by (simp add: bit_take_bit_iff)
  also have "\<dots> \<longleftrightarrow> odd ((unat n + 2 ^ k) div 2 ^ k)"
    by (simp add: bit_iff_odd)
  also have "\<dots> \<longleftrightarrow> \<not> bit (unat n) k"
    using div_add_self2 [of "2 ^ k :: nat" "unat n"] by (simp add: bit_iff_odd)
  also have "bit (unat n) k \<longleftrightarrow> bit n k"
    using k by (simp add: bit_unsigned_iff)
  finally show ?thesis
    using k by (simp add: pass_bit_def and_exp_eq_0_iff_not_bit del: of_nat_Suc of_nat_add) 
qed

lemma cq_entry_length:
  assumes "cq_shape cq"
  shows "length (cq_entry cq n) = 32"
proof -
  have "cq_buf cq ! cq_slot cq n \<in> set (cq_buf cq)" using cq_slot_less [OF assms] by simp
  then show ?thesis using assms by (auto simp: cq_entry_def cq_shape_def cqe_off_def)
qed

lemma get_cqe_entry: "cq_shape cq \<Longrightarrow> get_cqe cq n = Inr (cq_entry cq n)"
  using cq_slot_less [of cq n] nth_mem [OF cq_slot_less, of cq n]
  by (auto simp: get_cqe_def cq_entry_def mem_read_def cq_shape_def cqe_off_def)

lemma get_sw_entry: "cq_shape cq \<Longrightarrow> get_sw_cqe cq n = Inr (if sw_owned cq n then Some (cq_entry cq n) else None)"
  by (auto simp: get_sw_cqe_def get_cqe_entry sw_owned_def owner_bit_def pass_bit_def)

lemma same_ring:
  assumes "cq_buf cq' = cq_buf cq" "cq_cqe cq' = cq_cqe cq" "cq_cqe_size cq' = cq_cqe_size cq"
  shows "cq_entry cq' = cq_entry cq" "cq_shape cq' = cq_shape cq" "pass_bit cq' = pass_bit cq" "sw_owned cq' = sw_owned cq"
    "cq_slot cq' = cq_slot cq"
  using assms by (auto simp: fun_eq_iff cq_entry_def cq_slot_def cqe_off_def cq_shape_def pass_bit_def sw_owned_def)

lemma holds_cong:
  assumes "cq_buf cq' = cq_buf cq" "cq_cqe cq' = cq_cqe cq" "cq_cqe_size cq' = cq_cqe_size cq" "cq_cons_index cq' = cq_cons_index cq"
  shows "holds cq' cs \<longleftrightarrow> holds cq cs"
  unfolding holds_def same_ring [OF assms(1-3)] assms(2,4) ..

lemma holds_Nil: "holds cq [] \<Longrightarrow> next_cqe_sw cq = Inr None"
  by (simp add: holds_def next_cqe_sw_def get_sw_entry)

lemma holds_Cons:
  assumes "holds cq (c # cs)"
  shows "\<exists>e. next_cqe_sw cq = Inr (Some e) \<and> length e = 32 \<and> body e = c \<and> holds (cq\<lparr>cq_cons_index := cq_cons_index cq + 1\<rparr>) cs"
proof -
  let ?cq = "cq\<lparr>cq_cons_index := cq_cons_index cq + 1\<rparr>"
  have shape: "cq_shape cq" and len: "length cs \<le> cq_cqe cq"
    and ent: "\<And>i. i < Suc (length cs) \<Longrightarrow> sw_owned cq (cq_cons_index cq + of_nat i) \<and> body (cq_entry cq (cq_cons_index cq + of_nat i)) = (c # cs) ! i"
    and lim: "Suc (length cs) \<le> cq_cqe cq \<Longrightarrow> \<not> sw_owned cq (cq_cons_index cq + of_nat (Suc (length cs)))"
    using assms by (auto simp: holds_def)
  note same = same_ring [of ?cq cq, simplified]
  have "next_cqe_sw cq = Inr (Some (cq_entry cq (cq_cons_index cq)))" "body (cq_entry cq (cq_cons_index cq)) = c"
    using ent [of 0] shape by (simp_all add: next_cqe_sw_def get_sw_entry)
  moreover have "holds ?cq cs"
    unfolding holds_def same
  proof (intro conjI allI impI)
    show "cq_shape cq" by (rule shape)
    show "length cs \<le> cq_cqe ?cq + 1" using len by simp
    fix i assume "i < length cs"
    then show "sw_owned cq (cq_cons_index ?cq + of_nat i)" "body (cq_entry cq (cq_cons_index ?cq + of_nat i)) = cs ! i"
      using ent [of "Suc i"] by (simp_all add: ac_simps)
  next
    show "\<not> sw_owned cq (cq_cons_index ?cq + of_nat (length cs))"
    proof (cases "Suc (length cs) \<le> cq_cqe cq")
      case True
      then show ?thesis using lim by (simp add: ac_simps)
    next
      case False
      then have full: "Suc (length cs) = cq_cqe cq + 1" using len by simp
      have "cq_slot cq (cq_cons_index cq + of_nat (cq_cqe cq + 1)) = cq_slot cq (cq_cons_index cq + of_nat 0)"
        unfolding cq_slot_add [OF shape] by (simp only: mod_add_self2 add_0_right)
      then have "cq_entry cq (cq_cons_index cq + of_nat (cq_cqe cq + 1)) = cq_entry cq (cq_cons_index cq)"
        by (simp add: cq_entry_def)
      moreover have "sw_owned cq (cq_cons_index cq)" using ent [of 0] by simp
      ultimately have "\<not> sw_owned cq (cq_cons_index cq + of_nat (Suc (length cs)))"
        using pass_bit_flip [OF shape, of "cq_cons_index cq"] unfolding full by (simp add: sw_owned_def)
      then show ?thesis by (simp add: ac_simps)
    qed
  qed
  ultimately show ?thesis using cq_entry_length [OF shape] by blast
qed

section \<open>Entries and their bodies\<close>

lemma length_body [simp]: "length (body c) = length c"
  by (simp add: body_def)

lemma drop_upd_front: "off + n \<le> 31 \<Longrightarrow> take n (drop off (c[31 := x])) = take n (drop off c)"
  by (simp add: drop_update_swap)

lemma owner_and:
  "((w :: u8) AND - 129) AND 64 = w AND 64" "(w AND - 129) AND 32 = w AND 32" "(w AND - 129) AND 31 = w AND 31"
proof -
  have "- 129 AND 64 = (64 :: u8)" "- 129 AND 32 = (32 :: u8)" "- 129 AND 31 = (31 :: u8)" by simp_all
  then show "(w AND - 129) AND 64 = w AND 64" "(w AND - 129) AND 32 = w AND 32" "(w AND - 129) AND 31 = w AND 31"
    by (simp_all only: and.assoc)
qed

lemma body_fields:
  assumes "length c = 32"
  shows "cqe_qpn (body c) = cqe_qpn c" "wqe_index (body c) = wqe_index c" "cqe_is_send (body c) = cqe_is_send c"
    "cqe_opcode (body c) = cqe_opcode c" "cqe_is_error (body c) = cqe_is_error c" "xrc_number (body c) = xrc_number c"
    "byte_cnt (body c) = byte_cnt c" "g_mlpath_rqpn (body c) = g_mlpath_rqpn c"
  using assms
  by (simp_all add: body_def cqe_qpn_def cqe_field32_def cqe_field16_def cqe_is_send_def cqe_opcode_def cqe_is_error_def
      cqe_raw16_def cqe_raw32_def xrc_number_def drop_upd_front owner_and macro_defs)

section \<open>Completions of a send queue\<close>

text \<open>The queue with the tail moved forward by \<open>a\<close>.\<close>

definition advanced :: "send_queue \<Rightarrow> nat \<Rightarrow> send_queue" where
  "advanced q a = q\<lparr>sq_tail := sq_tail q + of_nat a\<rparr>"

lemma advanced_inv:
  assumes "sq_inv q" "a \<le> outstanding q"
  shows "sq_inv (advanced q a)" "outstanding (advanced q a) = outstanding q - a"
proof -
  have "unat (sq_head q - (sq_tail q + of_nat a)) = unat (sq_head q - sq_tail q) - a"
  proof -
    have "unat (sq_head q - sq_tail q) < 2 ^ LENGTH(32)" by (rule unsigned_less)
    then have lt: "a < 2 ^ 32" using assms(2) by (simp add: outstanding_def)
    then have a: "unat (of_nat a :: u32) = a" by (simp add: unat_of_nat)
    have "of_nat a \<le> sq_head q - sq_tail q" using assms(2) a by (simp add: word_le_nat_alt outstanding_def)
    from unat_sub [OF this] show ?thesis using a by (simp add: diff_diff_add)
  qed
  then show out: "outstanding (advanced q a) = outstanding q - a" by (simp add: outstanding_def advanced_def)
  then show "sq_inv (advanced q a)" using assms by (auto simp: sq_inv_def advanced_def)
qed

lemma ucast_add_nat: "(ucast ((t :: u32) + of_nat j) :: u16) = ucast t + of_nat j"
proof (rule word_unat_eq_iff [THEN iffD2])
  have d: "(2 :: nat) ^ 16 dvd 2 ^ 32" by (rule le_imp_power_dvd) simp
  show "unat (ucast (t + of_nat j) :: u16) = unat (ucast t + of_nat j :: u16)"
    using mod_mod_cancel [OF d] by (simp add: unat_word_ariths unsigned_ucast_eq take_bit_eq_mod unat_of_nat mod_simps)
qed

lemma send_done_ok:
  assumes "sq_inv q" "a \<le> j" "j < outstanding q"
  shows "send_done (ucast (sq_tail q + of_nat j)) (advanced q a) = Inr (sq_wrid q ! sq_pos q j, advanced q (Suc j))"
proof -
  have out: "outstanding q \<le> 2 ^ 16"
  proof -
    obtain k where "k \<le> 16" "sq_cnt q = 2 ^ k" "outstanding q \<le> sq_cnt q" using assms(1) by (auto simp: sq_inv_def)
    then show ?thesis using power_increasing [of k 16 "2 :: nat"] by simp
  qed
  have "(ucast (sq_tail q + of_nat j) :: u16) - ucast (sq_tail q + of_nat a) = of_nat (j - a)"
    using assms(2) by (simp add: ucast_add_nat of_nat_diff)
  moreover have "ucast (of_nat (j - a) :: u16) = (of_nat (j - a) :: u32)"
    using out assms(3) by (intro word_unat_eq_iff [THEN iffD2]) (simp add: unsigned_ucast_eq unat_of_nat take_bit_eq_mod)
  ultimately have t: "sq_tail (advanced q a) + ucast ((ucast (sq_tail q + of_nat j) :: u16) - ucast (sq_tail (advanced q a))) = sq_tail q + of_nat j"
    using assms(2) by (simp add: advanced_def of_nat_diff)
  have "sq_index (advanced q a) (sq_tail q + of_nat j) = sq_pos q j"
    using sq_index_pos(1) [OF assms(1), of j] by (simp add: sq_index_def advanced_def)
  moreover have "sq_pos q j < length (sq_wrid q)"
    using assms(1) by (auto simp: sq_inv_def intro!: sq_pos_less)
  moreover have "sq_wrid (advanced q a) = sq_wrid q" by (simp add: advanced_def)
  ultimately show ?thesis unfolding send_done_def t Let_def
    by (simp add: advanced_def ac_simps)
qed

text \<open>The completion of a request \<open>j\<close> places behind the tail of queue \<open>q\<close> of the queue pair numbered \<open>num\<close>.\<close>

definition send_entry :: "u32 \<Rightarrow> send_queue \<Rightarrow> u8 list \<Rightarrow> nat \<Rightarrow> bool" where
  "send_entry num q c j \<longleftrightarrow> length c = 32 \<and> cqe_is_send c \<and> cqe_qpn c = num \<and> wqe_index c = ucast (sq_tail q + of_nat j)"

definition in_table :: "mlx4_ctx \<Rightarrow> nat \<Rightarrow> bool" where
  "in_table cx h \<longleftrightarrow> h < length (cx_qps cx) \<and> mlx4_find_qp (cx_qp_table cx) (mq_num (cx_qps cx ! h)) = Inr (Some h)"

definition with_sq :: "nat \<Rightarrow> send_queue \<Rightarrow> mlx4_ctx \<Rightarrow> mlx4_ctx" where
  "with_sq h q cx = upd_qp h ((cx_qps cx ! h)\<lparr>mq_sq := q\<rparr>) cx"

definition says_done :: "u32 \<Rightarrow> u64 \<Rightarrow> u8 list \<Rightarrow> exp_wc \<Rightarrow> bool" where
  "says_done num i c wc \<longleftrightarrow> wc_wr_id wc = i \<and> wc_qp_num wc = num \<and> (wc_status wc = WC_SUCCESS \<longleftrightarrow> \<not> cqe_is_error c)"

lemma error_status: "wc_status (mlx4_handle_error_cqe c wc) \<noteq> WC_SUCCESS"
  by (simp add: mlx4_handle_error_cqe_def Let_def)

lemma error_keeps: "wc_wr_id (mlx4_handle_error_cqe c wc) = wc_wr_id wc" "wc_qp_num (mlx4_handle_error_cqe c wc) = wc_qp_num wc"
  by (simp_all add: mlx4_handle_error_cqe_def Let_def)

lemma stamp_keeps_wc:
  "wc_wr_id (snd (stamp_wc ts c cq wc)) = wc_wr_id wc" "wc_qp_num (snd (stamp_wc ts c cq wc)) = wc_qp_num wc"
  "wc_status (snd (stamp_wc ts c cq wc)) = wc_status wc"
  by (simp_all add: stamp_wc_def)

lemma send_wc_keeps:
  "wc_wr_id (snd (send_wc c wc)) = wc_wr_id wc" "wc_qp_num (snd (send_wc c wc)) = wc_qp_num wc"
  "wc_status (snd (send_wc c wc)) = wc_status wc"
  by (simp_all add: send_wc_def Let_def)

lemma finish_keeps:
  "wc_wr_id (finish_wc is_exp fl wc) = wc_wr_id wc" "wc_qp_num (finish_wc is_exp fl wc) = wc_qp_num wc"
  "wc_status (finish_wc is_exp fl wc) = wc_status wc"
  by (simp_all add: finish_wc_def Let_def)

lemma find_owner_send:
  assumes "in_table cx h" "cqe_is_send c" "cqe_qpn c = mq_num (cx_qps cx ! h)" "ps_cur st \<in> {None, Some h}" "ps_cx st = with_sq h q cx"
  shows "find_owner c st = Inr (Some (mq_srq (cx_qps cx ! h)), st\<lparr>ps_cur := Some h\<rparr>)"
  using assms by (auto simp: find_owner_def in_table_def with_sq_def upd_qp_def Let_def)

lemma poll_one_send:
  assumes "next_cqe_sw (ps_cq st) = Inr (Some c)" "send_entry (mq_num (cx_qps cx ! h)) q c j" "in_table cx h"
    and "ps_cur st \<in> {None, Some h}" "ps_cx st = with_sq h (advanced q a) cx" "sq_inv q" "a \<le> j" "j < outstanding q"
  shows "\<exists>wc'. poll_one_driver is_exp ts wc st = Inr (CQ_OK, wc', \<lparr>ps_cq = (ps_cq st)\<lparr>cq_cons_index := cq_cons_index (ps_cq st) + 1\<rparr>,
      ps_cx = with_sq h (advanced q (Suc j)) cx, ps_cur = Some h\<rparr>) \<and> says_done (mq_num (cx_qps cx ! h)) (sq_wrid q ! sq_pos q j) c wc'"
proof -
  have c: "cqe_is_send c" "cqe_qpn c = mq_num (cx_qps cx ! h)" "wqe_index c = ucast (sq_tail q + of_nat j)"
    using assms(2) by (simp_all add: send_entry_def)
  let ?st = "st\<lparr>ps_cq := (ps_cq st)\<lparr>cq_cons_index := cq_cons_index (ps_cq st) + 1\<rparr>\<rparr>"
  have own: "find_owner c ?st = Inr (Some (mq_srq (cx_qps cx ! h)), ?st\<lparr>ps_cur := Some h\<rparr>)"
    using assms(4,5) by (intro find_owner_send [OF assms(3) c(1,2)]) auto
  have h: "h < length (cx_qps cx)" using assms(3) by (simp add: in_table_def)
  have compl: "complete_request c (mq_srq (cx_qps cx ! h)) (?st\<lparr>ps_cur := Some h\<rparr>) = Inr (sq_wrid q ! sq_pos q j, unat (wqe_index c),
      \<lparr>ps_cq = ps_cq ?st, ps_cx = with_sq h (advanced q (Suc j)) cx, ps_cur = Some h\<rparr>)"
    using h c(1) send_done_ok [OF assms(6-8)] assms(5)
    by (simp add: complete_request_def c(3) with_sq_def upd_qp_def Let_def)
  show ?thesis
    using assms(1) own compl c
    by (simp add: poll_one_driver_def poll_start_def Let_def case_prod_unfold says_done_def error_status error_keeps stamp_keeps_wc
        send_wc_keeps finish_keeps)
qed

lemma poll_one_empty: "next_cqe_sw (ps_cq st) = Inr None \<Longrightarrow> poll_one_driver is_exp ts wc st = Inr (CQ_EMPTY, wc, st)"
  by (simp add: poll_one_driver_def poll_start_def)

definition sends_done :: "u32 \<Rightarrow> send_queue \<Rightarrow> u8 list list \<Rightarrow> nat list \<Rightarrow> bool" where
  "sends_done num q cs js \<longleftrightarrow> length cs = length js \<and> (\<forall>i<length js. send_entry num q (cs ! i) (js ! i)) \<and>
     sorted_wrt (<) js \<and> (\<forall>j\<in>set js. j < outstanding q)"

lemma sends_done_Cons:
  "sends_done num q (c # cs) (j # js) \<longleftrightarrow>
     send_entry num q c j \<and> j < outstanding q \<and> (\<forall>i\<in>set js. j < i) \<and> sends_done num q cs js"
  by (auto simp: sends_done_def less_Suc_eq_0_disj)

lemma poll_sends:
  assumes "sends_done (mq_num (cx_qps cx ! h)) q cs js" "\<forall>j\<in>set js. a \<le> j" "holds (ps_cq st) cs" "in_table cx h" "sq_inv q"
    and "ps_cur st \<in> {None, Some h}" "ps_cx st = with_sq h (advanced q a) cx" "npolled + k \<le> length wcs"
    and "m = min k (length js)"
  shows "\<exists>wcs' st'. poll_loop_driver is_exp ts k npolled wcs st = Inr (if k \<le> length js then CQ_OK else CQ_EMPTY, npolled + m, wcs', st') \<and>
    length wcs' = length wcs \<and> (\<forall>i<npolled. wcs' ! i = wcs ! i) \<and>
    (\<forall>i<m. says_done (mq_num (cx_qps cx ! h)) (sq_wrid q ! sq_pos q (js ! i)) (cs ! i) (wcs' ! (npolled + i))) \<and>
    holds (ps_cq st') (drop m cs) \<and> ps_cx st' = with_sq h (advanced q (if m = 0 then a else Suc (js ! (m - 1)))) cx \<and>
    ps_cq st' = (ps_cq st)\<lparr>cq_cons_index := cq_cons_index (ps_cq st) + of_nat m\<rparr>"
  using assms
proof (induction k arbitrary: cs js a st npolled wcs m)
  case 0
  then show ?case by simp
next
  case (Suc k)
  have room: "npolled < length wcs" using Suc.prems(8) by simp
  show ?case
  proof (cases js)
    case Nil
    then have "cs = []" using Suc.prems(1) by (simp add: sends_done_def)
    then have "next_cqe_sw (ps_cq st) = Inr None" using holds_Nil Suc.prems(3) by simp
    then show ?thesis using Suc.prems(3,7,9) Nil room \<open>cs = []\<close> by (simp add: poll_one_empty)
  next
    case (Cons j js')
    then obtain c cs' where cs: "cs = c # cs'" using Suc.prems(1) by (cases cs) (auto simp: sends_done_def)
    have dn: "send_entry (mq_num (cx_qps cx ! h)) q c j" "j < outstanding q" "\<forall>i\<in>set js'. j < i" "sends_done (mq_num (cx_qps cx ! h)) q cs' js'"
      using Suc.prems(1) by (simp_all add: cs Cons sends_done_Cons)
    obtain e where e: "next_cqe_sw (ps_cq st) = Inr (Some e)" "length e = 32" "body e = c"
        "holds ((ps_cq st)\<lparr>cq_cons_index := cq_cons_index (ps_cq st) + 1\<rparr>) cs'"
      using holds_Cons Suc.prems(3) unfolding cs by blast
    have "send_entry (mq_num (cx_qps cx ! h)) q e j"
      using dn(1) e(2,3) body_fields [OF e(2)] by (auto simp: send_entry_def)
    moreover have "a \<le> j" using Suc.prems(2) Cons by simp
    ultimately obtain wc' where wc': "poll_one_driver is_exp ts (wcs ! npolled) st = Inr (CQ_OK, wc',
        \<lparr>ps_cq = (ps_cq st)\<lparr>cq_cons_index := cq_cons_index (ps_cq st) + 1\<rparr>, ps_cx = with_sq h (advanced q (Suc j)) cx, ps_cur = Some h\<rparr>)"
        "says_done (mq_num (cx_qps cx ! h)) (sq_wrid q ! sq_pos q j) e wc'"
      using poll_one_send [OF e(1) _ Suc.prems(4,6,7,5) _ dn(2)] by blast
    let ?st = "\<lparr>ps_cq = (ps_cq st)\<lparr>cq_cons_index := cq_cons_index (ps_cq st) + 1\<rparr>, ps_cx = with_sq h (advanced q (Suc j)) cx, ps_cur = Some h\<rparr>"
    define m' where "m' = min k (length js')"
    have m: "m = Suc m'" using Suc.prems(9) by (simp add: m'_def Cons)
    have IH: "\<exists>wcs' st'. poll_loop_driver is_exp ts k (npolled + 1) (wcs[npolled := wc']) ?st = Inr (if k \<le> length js' then CQ_OK else CQ_EMPTY, npolled + 1 + m', wcs', st') \<and>
      length wcs' = length (wcs[npolled := wc']) \<and> (\<forall>i<npolled + 1. wcs' ! i = wcs[npolled := wc'] ! i) \<and>
      (\<forall>i<m'. says_done (mq_num (cx_qps cx ! h)) (sq_wrid q ! sq_pos q (js' ! i)) (cs' ! i) (wcs' ! (npolled + 1 + i))) \<and>
      holds (ps_cq st') (drop m' cs') \<and> ps_cx st' = with_sq h (advanced q (if m' = 0 then Suc j else Suc (js' ! (m' - 1)))) cx \<and>
      ps_cq st' = (ps_cq ?st)\<lparr>cq_cons_index := cq_cons_index (ps_cq ?st) + of_nat m'\<rparr>"
      using Suc.prems(8) dn(3)
      by (intro Suc.IH [OF dn(4) _ _ Suc.prems(4,5) _ _ _ m'_def]) (use e(4) in auto)
    then obtain wcs' st' where IH: "poll_loop_driver is_exp ts k (npolled + 1) (wcs[npolled := wc']) ?st = Inr (if k \<le> length js' then CQ_OK else CQ_EMPTY, npolled + 1 + m', wcs', st')"
      "length wcs' = length (wcs[npolled := wc'])" "\<forall>i<npolled + 1. wcs' ! i = wcs[npolled := wc'] ! i"
      "\<forall>i<m'. says_done (mq_num (cx_qps cx ! h)) (sq_wrid q ! sq_pos q (js' ! i)) (cs' ! i) (wcs' ! (npolled + 1 + i))"
      "holds (ps_cq st') (drop m' cs')" "ps_cx st' = with_sq h (advanced q (if m' = 0 then Suc j else Suc (js' ! (m' - 1)))) cx"
      "ps_cq st' = (ps_cq ?st)\<lparr>cq_cons_index := cq_cons_index (ps_cq ?st) + of_nat m'\<rparr>"
      by (elim exE conjE) (rule that, assumption+)
    have first: "wcs' ! npolled = wc'" using IH(3) room by simp
    have "says_done (mq_num (cx_qps cx ! h)) (sq_wrid q ! sq_pos q (js ! i)) (cs ! i) (wcs' ! (npolled + i))" if "i < m" for i
    proof (cases i)
      case 0
      then show ?thesis using wc'(2) first e(3) body_fields(5) [OF e(2)] by (simp add: cs Cons says_done_def)
    next
      case (Suc i')
      then show ?thesis using IH(4) that m by (simp add: cs Cons)
    qed
    moreover have "(if m = 0 then a else Suc (js ! (m - 1))) = (if m' = 0 then Suc j else Suc (js' ! (m' - 1)))"
      by (cases m') (simp_all add: m Cons)
    moreover have "\<forall>i<npolled. wcs' ! i = wcs ! i" using IH(3) by simp
    ultimately show ?thesis using IH(1,2,5-7) wc'(1) room
      by (intro exI [of _ wcs'] exI [of _ st']) (simp add: m cs Cons ac_simps)
  qed
qed

lemma holds_update [simp]:
  "holds (mlx4_update_cons_index cq) cs = holds cq cs" "holds (cq\<lparr>cq_stall_next_poll := b\<rparr>) cs = holds cq cs"
  "holds (cq\<lparr>cq_last_qp := l\<rparr>) cs = holds cq cs"
  by (rule holds_cong; simp add: mlx4_update_cons_index_def)+

lemma poll_cq_sends:
  assumes "sends_done (mq_num (cx_qps cx ! h)) q cs js" "holds cq cs" "in_table cx h" "sq_inv q" "mq_sq (cx_qps cx ! h) = q"
    and "ne \<le> length wcs" "m = min ne (length js)"
  shows "\<exists>wcs' cq'. poll_cq_driver is_exp ts ne wcs cq cx = Inr (int m, wcs', cq', with_sq h (advanced q (if m = 0 then 0 else Suc (js ! (m - 1)))) cx) \<and>
    holds cq' (drop m cs) \<and> cq_cons_index cq' = cq_cons_index cq + of_nat m \<and>
    (0 < m \<longrightarrow> cq_set_ci_db cq' = be32 (cq_cons_index cq' AND 0xffffff)) \<and>
    (\<forall>i<m. says_done (mq_num (cx_qps cx ! h)) (sq_wrid q ! sq_pos q (js ! i)) (cs ! i) (wcs' ! i))"
proof -
  let ?st = "\<lparr>ps_cq = cq\<lparr>cq_stall_next_poll := False\<rparr>, ps_cx = cx, ps_cur = None\<rparr>"
  have cx: "ps_cx ?st = with_sq h (advanced q 0) cx"
  proof -
    have "x\<lparr>mq_sq := mq_sq x\<rparr> = x" for x :: mlx4_qp by simp
    then show ?thesis unfolding assms(5) [symmetric] by (simp add: with_sq_def upd_qp_def advanced_def)
  qed
  have "\<exists>wcs' st'. poll_loop_driver is_exp ts ne 0 wcs ?st = Inr (if ne \<le> length js then CQ_OK else CQ_EMPTY, 0 + m, wcs', st') \<and>
    length wcs' = length wcs \<and> (\<forall>i<0. wcs' ! i = wcs ! i) \<and>
    (\<forall>i<m. says_done (mq_num (cx_qps cx ! h)) (sq_wrid q ! sq_pos q (js ! i)) (cs ! i) (wcs' ! (0 + i))) \<and>
    holds (ps_cq st') (drop m cs) \<and> ps_cx st' = with_sq h (advanced q (if m = 0 then 0 else Suc (js ! (m - 1)))) cx \<and>
    ps_cq st' = (ps_cq ?st)\<lparr>cq_cons_index := cq_cons_index (ps_cq ?st) + of_nat m\<rparr>"
    by (rule poll_sends [OF assms(1) _ _ assms(3,4) _ cx _ assms(7)]) (use assms(2,6) in auto)
  then obtain wcs' st' where run: "poll_loop_driver is_exp ts ne 0 wcs ?st = Inr (if ne \<le> length js then CQ_OK else CQ_EMPTY, 0 + m, wcs', st')"
    "\<forall>i<m. says_done (mq_num (cx_qps cx ! h)) (sq_wrid q ! sq_pos q (js ! i)) (cs ! i) (wcs' ! (0 + i))"
    "holds (ps_cq st') (drop m cs)" "ps_cx st' = with_sq h (advanced q (if m = 0 then 0 else Suc (js ! (m - 1)))) cx"
    "ps_cq st' = (ps_cq ?st)\<lparr>cq_cons_index := cq_cons_index (ps_cq ?st) + of_nat m\<rparr>"
    by (elim exE conjE) (rule that, assumption+)
  show ?thesis
    using run assms(2) by (simp add: poll_cq_driver_def Let_def) (simp add: mlx4_update_cons_index_def)
qed

text \<open>
  C22: Posting and completing fit together: the device completes some of the requests of a call, in order, the others being
  unsignalled. Polling returns, in the same order, the identifiers the application gave to exactly these requests, with
  success unless the entry reports an error; as many as it asks for and there are. The places of all requests up to the
  last one completed are free again, and the device learns how far the queue was read.
\<close>

theorem posted_requests_complete:
  assumes "sq_inv q" "\<not> sq_ignore_overflow q" "\<forall>w\<in>set ws. conforming mem (sq_qc q) (sq_max_gs q) w"
    and "isSmall = 0 \<and> flow \<longrightarrow> length ws \<le> length waits" "isSmall = 2 \<and> flow \<longrightarrow> (\<exists>r. fetch_batches debit waits = Inr r)"
    and "outstanding q + length ws \<le> sq_max_post q"
    and "post_send_driver mem isSmall flow debit waits ws q = Inr r" "mq_sq (cx_qps cx ! h) = pr_queue r" "in_table cx h"
    and "sends_done (mq_num (cx_qps cx ! h)) (pr_queue r) cs js" "\<forall>j\<in>set js. outstanding q \<le> j"
    and "holds cq cs" "ne \<le> length wcs" "m = min ne (length js)"
  shows "\<exists>wcs' cq' cx'. poll_cq_driver is_exp ts ne wcs cq cx = Inr (int m, wcs', cq', cx') \<and> holds cq' (drop m cs) \<and>
    (\<forall>i<m. wc_wr_id (wcs' ! i) = sw_id (ws ! (js ! i - outstanding q)) \<and> (wc_status (wcs' ! i) = WC_SUCCESS \<longleftrightarrow> \<not> cqe_is_error (cs ! i))) \<and>
    sq_inv (mq_sq (cx_qps cx' ! h)) \<and>
    (0 < m \<longrightarrow> outstanding (mq_sq (cx_qps cx' ! h)) = outstanding q + length ws - Suc (js ! (m - 1)) \<and>
       cq_set_ci_db cq' = be32 (cq_cons_index cq' AND 0xffffff))"
proof -
  define a where "a = (if m = 0 then 0 else Suc (js ! (m - 1)))"
  have min: "min (length ws) (sq_max_post q - outstanding q) = length ws" using assms(6) by simp
  obtain r' where r': "post_send_driver mem isSmall flow debit waits ws q = Inr r'" "sq_inv (pr_queue r')"
      "outstanding (pr_queue r') = outstanding q + length ws" "\<forall>j<length ws. posted_as mem (pr_queue r') (outstanding q + j) (ws ! j)"
    using post_send_driver_ok [OF assms(1-5) min [symmetric]] by blast
  define q2 where "q2 = pr_queue r"
  have q2: "sq_inv q2" "outstanding q2 = outstanding q + length ws" "\<forall>j<length ws. sq_wrid q2 ! sq_pos q2 (outstanding q + j) = sw_id (ws ! j)"
    using r' assms(7) by (simp_all add: q2_def posted_as_def)
  obtain wcs' cq' where run: "poll_cq_driver is_exp ts ne wcs cq cx = Inr (int m, wcs', cq', with_sq h (advanced q2 a) cx)"
      "holds cq' (drop m cs)" "0 < m \<longrightarrow> cq_set_ci_db cq' = be32 (cq_cons_index cq' AND 0xffffff)"
      "\<forall>i<m. says_done (mq_num (cx_qps cx ! h)) (sq_wrid q2 ! sq_pos q2 (js ! i)) (cs ! i) (wcs' ! i)"
    using poll_cq_sends [OF assms(10) [folded q2_def] assms(12,9) q2(1) assms(8) [folded q2_def] assms(13,14), of is_exp ts]
    unfolding a_def by blast
  have js: "js ! i < outstanding q + length ws" "outstanding q \<le> js ! i" if "i < m" for i
    using assms(10,11,14) that q2(2) by (auto simp: sends_done_def q2_def)
  have ids: "sq_wrid q2 ! sq_pos q2 (js ! i) = sw_id (ws ! (js ! i - outstanding q))" if "i < m" for i
    using q2(3) js [OF that] by (auto dest: spec [of _ "js ! i - outstanding q"])
  have a_pos: "0 < m \<longrightarrow> a = Suc (js ! (m - 1))" by (simp add: a_def)
  have "a \<le> outstanding q2" using js [of "m - 1"] q2(2) by (auto simp: a_def)
  note adv = advanced_inv [OF q2(1) this]
  have "mq_sq (cx_qps (with_sq h (advanced q2 a) cx) ! h) = advanced q2 a"
    using assms(9) by (simp add: with_sq_def upd_qp_def in_table_def)
  then show ?thesis
    using run ids adv q2(2) a_pos
    by (intro exI [of _ wcs'] exI [of _ cq'] exI [of _ "with_sq h (advanced q2 a) cx"]) (auto simp: says_done_def)
qed

definition ex_cqe :: "u8 list" where
  "ex_cqe = [0, 0, 1, 0x23, 0, 0, 0, 0, 0, 0, 0, 0, 0, 0, 0, 0, 0, 0, 0, 0, 0, 0, 0, 0, 0, 0, 0, 0, 0, 0, 0, 0x4a]"

definition ex_cq :: comp_queue where
  "ex_cq = \<lparr>cq_buf = [ex_cqe, (replicate 32 0)[31 := 0x80]], cq_cqe_size = 32, cq_cqe = 1, cq_cons_index = 0, cq_set_ci_db = be32 0,
     cq_arm_sn = 1, cq_arm_db = be32 0, cq_cqn = 5, cq_doorbells = [], cq_timestamp = False, cq_ts_sys_time = False,
     cq_stall_enable = False, cq_stall_next_poll = False, cq_last_qp = None\<rparr>"

definition ex_wc :: exp_wc where
  "ex_wc = \<lparr>wc_wr_id = 0, wc_status = WC_GENERAL_ERR, wc_opcode = WC_RECV, wc_vendor_err = 0, wc_byte_len = 0, wc_imm_data = 0,
     wc_qp_num = 0, wc_src_qp = 0, wc_flags = 0, wc_pkey_index = 0, wc_slid = 0, wc_sl = 0, wc_dlid_path_bits = 0, wc_timestamp = 0,
     wc_qp = None, wc_srq = None, wc_exp_flags = 0\<rparr>"

definition ex_ctx :: "nat id_table \<Rightarrow> send_queue \<Rightarrow> mlx4_ctx" where
  "ex_ctx t q = \<lparr>cx_qp_table = t, cx_xsrq_table = init_table 8, cx_qps = [\<lparr>mq_num = 0x123, mq_sq = q, mq_rq = ex_rq, mq_srq = None,
     mq_ethernet = False, mq_rx_csum = False, mq_rx_vxlan = False\<rparr>], cx_srqs = [], cx_mem = (\<lambda>_. 0)\<rparr>"

lemma ex_table: "\<exists>t. table_inv t \<and> mlx4_find_qp t 0x123 = Inr (Some (0 :: nat))"
proof -
  have b: "TABLE_BITS \<le> 16" by (simp add: TABLE_BITS_def)
  let ?t = "init_table 16 :: nat id_table"
  have "table_inv ?t \<and> id_entries ?t = (\<lambda>_. None) \<and> id_key ?t 0x123 = unat (0x123 :: u32) mod 2 ^ 16" by (rule init_table_ok [OF b])
  then have init: "table_inv ?t" "id_entries ?t (id_key ?t 0x123) = None" by simp_all
  obtain t where "table_inv t" "id_key t = id_key ?t" "id_entries t = (id_entries ?t)(id_key ?t 0x123 := Some 0)"
    using store_qp_ok [OF init] by blast
  then show ?thesis using find_qp_ok [of t "0x123"] by (intro exI [of _ t]) simp
qed

lemma ex_cqe_facts:
  "length ex_cqe = 32" "cqe_is_send ex_cqe" "cqe_qpn ex_cqe = 0x123" "wqe_index ex_cqe = 0" "\<not> cqe_is_error ex_cqe" "body ex_cqe = ex_cqe"
  by (simp_all add: ex_cqe_def cqe_is_send_def cqe_qpn_def cqe_field32_def cqe_field16_def of_be32_def of_be16_def cqe_is_error_def
      cqe_opcode_def body_def macro_defs)

lemma ex_cq_holds: "holds ex_cq [ex_cqe]"
proof -
  have "\<exists>k\<le>24. cq_cqe ex_cq + 1 = 2 ^ k" by (intro exI [of _ 1]) (simp add: ex_cq_def)
  then have "cq_shape ex_cq" by (simp add: cq_shape_def) (simp add: ex_cq_def ex_cqe_facts)
  moreover have "body ex_cqe = ex_cqe" by (rule ex_cqe_facts)
  moreover have "sw_owned ex_cq 0" "\<not> sw_owned ex_cq 1" "cq_entry ex_cq 0 = ex_cqe"
    by (simp_all add: sw_owned_def cq_entry_def owner_bit_def pass_bit_def cq_slot_def cqe_off_def ex_cq_def ex_cqe_def macro_defs)
  ultimately show ?thesis by (simp add: holds_def) (simp add: ex_cq_def)
qed

lemma posted_requests_complete_witness:
  "\<exists>r cx. post_send_driver (\<lambda>a. 7) 1 True 0 [] [ex_wr WR_SEND 0 [ex_sge 4], ex_wr WR_RDMA_READ 0 []] ex_sq = Inr r \<and>
    mq_sq (cx_qps cx ! 0) = pr_queue r \<and> outstanding (pr_queue r) = 2 \<and>
    (\<exists>wcs' cq' cx'. poll_cq_driver False False 2 [ex_wc, ex_wc] ex_cq cx = Inr (1, wcs', cq', cx') \<and>
      wc_wr_id (wcs' ! 0) = 7 \<and> wc_status (wcs' ! 0) = WC_SUCCESS \<and> outstanding (mq_sq (cx_qps cx' ! 0)) = 0)"
proof -
  let ?ws = "[ex_wr WR_SEND 0 [ex_sge 4], ex_wr WR_RDMA_READ 0 []]"
  have conf: "\<forall>w\<in>set ?ws. conforming (\<lambda>a. 7) (sq_qc ex_sq) (sq_max_gs ex_sq) w" "\<not> sq_ignore_overflow ex_sq"
    by (simp_all add: ex_sq_def conforming_def ex_wr_def ex_sge_def ordinary_ops_def IBV_SEND_INLINE_def ex_qc_def)
  have empty: "outstanding ex_sq = 0" "length ?ws = min (length ?ws) (sq_max_post ex_sq - outstanding ex_sq)" "outstanding ex_sq + length ?ws \<le> sq_max_post ex_sq"
    by (simp_all add: ex_sq_def outstanding_def)
  obtain r where r: "post_send_driver (\<lambda>a. 7) 1 True 0 [] ?ws ex_sq = Inr r" "sq_tail (pr_queue r) = sq_tail ex_sq" "outstanding (pr_queue r) = 2"
    using post_send_driver_ok [OF ex_sq_inv conf(2,1) _ _ empty(2), of 1 True "[]" 0] empty(1) by auto
  obtain t where t: "mlx4_find_qp t 0x123 = Inr (Some (0 :: nat))" using ex_table by blast
  let ?cx = "ex_ctx t (pr_queue r)"
  have cx: "in_table ?cx 0" "mq_sq (cx_qps ?cx ! 0) = pr_queue r" "mq_num (cx_qps ?cx ! 0) = 0x123"
    using t by (simp_all add: in_table_def ex_ctx_def)
  have dn: "sends_done (mq_num (cx_qps ?cx ! 0)) (pr_queue r) [ex_cqe] [1]"
    using r(2,3) ex_cqe_facts by (simp add: sends_done_def cx(3) send_entry_def ex_sq_def)
  have len: "(2 :: nat) \<le> length [ex_wc, ex_wc]" by simp
  have "\<exists>wcs' cq' cx'. poll_cq_driver False False 2 [ex_wc, ex_wc] ex_cq ?cx = Inr (int 1, wcs', cq', cx') \<and> holds cq' (drop 1 [ex_cqe]) \<and>
    (\<forall>i<1. wc_wr_id (wcs' ! i) = sw_id (?ws ! ([1] ! i - outstanding ex_sq)) \<and> (wc_status (wcs' ! i) = WC_SUCCESS \<longleftrightarrow> \<not> cqe_is_error ([ex_cqe] ! i))) \<and>
    sq_inv (mq_sq (cx_qps cx' ! 0)) \<and>
    (0 < (1 :: nat) \<longrightarrow> outstanding (mq_sq (cx_qps cx' ! 0)) = outstanding ex_sq + length ?ws - Suc ([1] ! (1 - 1)) \<and>
       cq_set_ci_db cq' = be32 (cq_cons_index cq' AND 0xffffff))"
    by (rule posted_requests_complete [OF ex_sq_inv conf(2,1) _ _ empty(3) r(1) cx(2,1) dn _ ex_cq_holds len])
      (simp_all add: empty(1))
  then show ?thesis
    using r(1,3) cx(2) by (intro exI [of _ r] exI [of _ ?cx]) (auto simp: empty(1) ex_cqe_facts ex_wr_def)
qed

end
