(* ===== verification/Completion_Clean.thy ===== *)
theory Completion_Clean
  imports Completion_Proofs
begin

text \<open>
  What the other operations of the completion queue do to the list of waiting entries: counting, removing the entries of
  a queue pair that is destroyed, resizing; and where the two ways of polling differ.
\<close>

unbundle bit_operations_syntax

section \<open>Counting\<close>

lemma sub_signed: "signed_take_bit 31 (sint (p :: u32) - sint c) = sint (p - c)"
  by (simp add: sint_word_ariths)

lemma holds_sw:
  assumes "holds cq cs" "i \<le> length cs" "length cs \<le> cq_cqe cq"
  shows "get_sw_cqe cq (cq_cons_index cq + of_nat i) = Inr (if i < length cs then Some (cq_entry cq (cq_cons_index cq + of_nat i)) else None)"
  using assms by (cases "i = length cs") (auto simp: holds_def get_sw_entry)

lemma count_cqes_ok:
  assumes "holds cq cs" "length cs \<le> cq_cqe cq" "i \<le> length cs" "length cs - i < k"
  shows "count_cqes k (cq_cons_index cq + of_nat i) cq = Inr (length cs - i)"
  using assms(3,4)
proof (induction k arbitrary: i)
  case (Suc k)
  note sw = holds_sw [OF assms(1) Suc.prems(1) assms(2)]
  show ?case
  proof (cases "i = length cs")
    case True
    then show ?thesis using sw by simp
  next
    case False
    then have "count_cqes k (cq_cons_index cq + of_nat (Suc i)) cq = Inr (length cs - Suc i)"
      using Suc by (intro Suc.IH) auto
    then show ?thesis using sw False Suc.prems by (simp add: ac_simps)
  qed
qed simp

text \<open>The number of waiting entries is what the driver counts before it resizes the queue.\<close>

lemma outstanding_cqes_ok:
  assumes "holds cq cs" "length cs \<le> cq_cqe cq"
  shows "mlx4_get_outstanding_cqes cq = Inr (length cs)"
  using count_cqes_ok [OF assms, of 0 "cq_cqe cq + 2"] assms(2) by (simp add: mlx4_get_outstanding_cqes_def)

lemma find_producer_ok:
  assumes "holds cq cs" "length cs \<le> cq_cqe cq" "i \<le> length cs" "cq_cqe cq - i < k"
  shows "find_producer k (cq_cons_index cq + of_nat i) cq = Inr (cq_cons_index cq + of_nat (length cs))"
  using assms(3,4)
proof (induction k arbitrary: i)
  case (Suc k)
  note sw = holds_sw [OF assms(1) Suc.prems(1) assms(2)]
  have small: "cq_cqe cq < 2 ^ 32"
  proof -
    obtain n where "n \<le> 24" "cq_cqe cq + 1 = 2 ^ n" using assms(1) by (auto simp: holds_def cq_shape_def)
    then show ?thesis using power_increasing [of n 24 "2 :: nat"] by simp
  qed
  show ?case
  proof (cases "i = length cs")
    case True
    then show ?thesis using sw by simp
  next
    case False
    have ne: "(of_nat i :: u32) \<noteq> of_nat (cq_cqe cq)"
    proof
      assume "(of_nat i :: u32) = of_nat (cq_cqe cq)"
      then have "unat (of_nat i :: u32) = unat (of_nat (cq_cqe cq) :: u32)" by simp
      then show False using False Suc.prems(1) assms(2) small by (simp add: unat_of_nat)
    qed
    have "find_producer k (cq_cons_index cq + of_nat (Suc i)) cq = Inr (cq_cons_index cq + of_nat (length cs))"
      using False Suc.prems assms(2) by (intro Suc.IH) auto
    then show ?thesis using sw False Suc.prems(1) ne by (simp add: ac_simps)
  qed
qed simp

section \<open>Removing\<close>

lemma set_cqe_ok:
  assumes "cq_shape cq" "length c = 32"
  shows "\<exists>cq'. set_cqe n c cq = Inr cq' \<and> cq_shape cq' \<and> cq_cqe cq' = cq_cqe cq \<and> cq_cqe_size cq' = cq_cqe_size cq \<and>
    cq_cons_index cq' = cq_cons_index cq \<and> (\<forall>m. cq_entry cq' m = (if cq_slot cq m = cq_slot cq n then c else cq_entry cq m))"
proof -
  let ?e = "cq_buf cq ! cq_slot cq n"
  let ?e' = "take (cqe_off cq) ?e @ c @ drop (cqe_off cq + 32) ?e"
  let ?cq = "cq\<lparr>cq_buf := (cq_buf cq)[cq_slot cq n := ?e']\<rparr>"
  have slot: "cq_slot cq n < length (cq_buf cq)" by (rule cq_slot_less [OF assms(1)])
  then have "length ?e = cq_cqe_size cq" using assms(1) by (auto simp: cq_shape_def)
  then have e: "length ?e = cq_cqe_size cq" "cqe_off cq + 32 \<le> length ?e"
    using assms(1) by (auto simp: cq_shape_def cqe_off_def)
  have "set_cqe n c cq = Inr ?cq"
    using slot e assms(2) by (simp add: set_cqe_def mem_write_def)
  moreover have "cq_shape ?cq"
    using assms e set_update_subset_insert [of "cq_buf cq" "cq_slot cq n" ?e'] by (auto simp: cq_shape_def)
  moreover have "cq_entry ?cq m = (if cq_slot cq m = cq_slot cq n then c else cq_entry cq m)" for m
    using slot e assms(2) by (simp add: cq_entry_def cq_slot_def cqe_off_def)
  ultimately show ?thesis by (intro exI [of _ ?cq]) simp
qed

lemma with_owner_props:
  assumes "length c = 32"
  shows "length (with_owner b c) = 32" "body (with_owner b c) = body c" "owner_bit (with_owner b c) \<longleftrightarrow> b AND MLX4_CQE_OWNER_MASK \<noteq> 0"
proof -
  have z: "128 AND - 129 = (0 :: u8)" "- 129 AND 128 = (0 :: u8)" by simp_all
  have "((b AND 128) OR (w AND - 129)) AND - 129 = w AND - 129" "((b AND 128) OR (w AND - 129)) AND 128 = b AND 128" for w :: u8
    by (simp_all add: bit.conj_disj_distrib2 and.assoc z)
  then show "length (with_owner b c) = 32" "body (with_owner b c) = body c" "owner_bit (with_owner b c) \<longleftrightarrow> b AND MLX4_CQE_OWNER_MASK \<noteq> 0"
    using assms by (simp_all add: with_owner_def body_def owner_bit_def macro_defs)
qed

text \<open>Which entries go: those of the queue pair and, for an XRC queue, the receives that went to it.\<close>

definition cleaned :: "srq option \<Rightarrow> u32 \<Rightarrow> u8 list \<Rightarrow> bool" where
  "cleaned srq qpn c \<longleftrightarrow> cqe_qpn c = qpn \<or>
     (case srq of None \<Rightarrow> False | Some s \<Rightarrow> srq_ext_srq s \<and> xrc_number c = srq_num s \<and> \<not> cqe_is_send c)"

definition given_back :: "srq option \<Rightarrow> u32 \<Rightarrow> u8 list list \<Rightarrow> nat list" where
  "given_back srq qpn cs = (case srq of None \<Rightarrow> [] | Some s \<Rightarrow>
     map (\<lambda>c. unat (wqe_index c)) (filter (\<lambda>c. cleaned srq qpn c \<and> \<not> cqe_is_send c) cs))"

definition srq_holds :: "srq option \<Rightarrow> srq_abs \<Rightarrow> bool" where
  "srq_holds srq a \<longleftrightarrow> (case srq of None \<Rightarrow> True | Some s \<Rightarrow> srq_abs s a)"

definition drop_posted :: "nat list \<Rightarrow> srq_abs \<Rightarrow> srq_abs" where
  "drop_posted ks a = (fst a @ ks, \<lambda>k. if k \<in> set ks then None else snd a k)"

lemma free_abs:
  assumes "srq_abs s a" "snd a k \<noteq> None"
  shows "\<exists>s'. mlx4_free_srq_wqe k s = Inr s' \<and> srq_abs s' (drop_posted [k] a) \<and> srq_ext_srq s' = srq_ext_srq s \<and> srq_num s' = srq_num s"
proof -
  obtain fs m where a: "a = (fs, m)" by (cases a)
  obtain i gs where k: "m k = Some (i, gs)" using assms(2) a by auto
  obtain s' where s': "srq_complete k s = Inr (i, s')" "srq_abs s' (fs @ [k], m(k := None))"
    using done_abs [of s fs m k i gs] assms(1) a k by blast
  have f: "mlx4_free_srq_wqe k s = Inr s'" using s'(1) by (auto simp: srq_complete_def res_bind_eq_Inr)
  then have "srq_ext_srq s' = srq_ext_srq s \<and> srq_num s' = srq_num s" by (auto simp: mlx4_free_srq_wqe_def res_bind_eq_Inr)
  moreover have "drop_posted [k] a = (fs @ [k], m(k := None))" by (auto simp: drop_posted_def a fun_eq_iff)
  ultimately show ?thesis using f s'(2) by simp
qed

text \<open>The state of the sweep when the entries from place \<open>i\<close> on have been seen; \<open>cs\<close> are all entries, \<open>kept\<close> those of them that stay.\<close>

definition swept :: "comp_queue \<Rightarrow> u8 list list \<Rightarrow> nat \<Rightarrow> u8 list list \<Rightarrow> nat \<Rightarrow> comp_queue \<Rightarrow> bool" where
  "swept cq0 cs i kept nfreed cq \<longleftrightarrow> cq_shape cq \<and> cq_cqe cq = cq_cqe cq0 \<and> cq_cons_index cq = cq_cons_index cq0 \<and>
     (\<forall>n. owner_bit (cq_entry cq n) = owner_bit (cq_entry cq0 n)) \<and>
     (\<forall>j<i. body (cq_entry cq (cq_cons_index cq0 + of_nat j)) = cs ! j) \<and>
     i + nfreed + length kept = length cs \<and>
     (\<forall>t<length kept. body (cq_entry cq (cq_cons_index cq0 + of_nat (i + nfreed + t))) = kept ! t)"

lemma swept_remove:
  assumes "swept cq0 cs (Suc i) kept nfreed cq"
  shows "swept cq0 cs i kept (Suc nfreed) cq"
  using assms by (auto simp: swept_def)

lemma swept_keep:
  assumes "swept cq0 cs (Suc i) kept nfreed cq" "length cs \<le> cq_cqe cq0" "p = cq_cons_index cq0 + of_nat i"
  shows "\<exists>cq'. (if nfreed \<noteq> 0 then res_bind (get_cqe cq (p + of_nat nfreed)) (\<lambda>d.
      set_cqe (p + of_nat nfreed) (with_owner (owner_sr_opcode d) (cq_entry cq p)) cq) else Inr cq) = Inr cq' \<and>
    swept cq0 cs i (cs ! i # kept) nfreed cq'"
proof -
  have sw: "cq_shape cq" "cq_cqe cq = cq_cqe cq0" "cq_cons_index cq = cq_cons_index cq0"
    "\<And>n. owner_bit (cq_entry cq n) = owner_bit (cq_entry cq0 n)"
    "\<And>j. j < Suc i \<Longrightarrow> body (cq_entry cq (cq_cons_index cq0 + of_nat j)) = cs ! j"
    "Suc i + nfreed + length kept = length cs"
    "\<And>t. t < length kept \<Longrightarrow> body (cq_entry cq (cq_cons_index cq0 + of_nat (Suc i + nfreed + t))) = kept ! t"
    using assms(1) by (auto simp: swept_def)
  show ?thesis
  proof (cases "nfreed = 0")
    case True
    have "body (cq_entry cq (cq_cons_index cq0 + of_nat (i + t))) = (cs ! i # kept) ! t" if "t < Suc (length kept)" for t
      using that sw(5) [of i] sw(7) [of "t - 1"] True by (cases t) auto
    then show ?thesis using True sw by (simp add: swept_def)
  next
    case False
    let ?n = "p + of_nat nfreed"
    have n: "?n = cq_cons_index cq0 + of_nat (i + nfreed)" by (simp add: assms(3))
    let ?c = "with_owner (owner_sr_opcode (cq_entry cq ?n)) (cq_entry cq p)"
    have len: "length (cq_entry cq p) = 32" by (rule cq_entry_length [OF sw(1)])
    note own = with_owner_props [OF len, of "owner_sr_opcode (cq_entry cq ?n)"]
    obtain cq' where cq': "set_cqe ?n ?c cq = Inr cq'" "cq_shape cq'" "cq_cqe cq' = cq_cqe cq" "cq_cons_index cq' = cq_cons_index cq"
        "\<And>m. cq_entry cq' m = (if cq_slot cq m = cq_slot cq ?n then ?c else cq_entry cq m)"
      using set_cqe_ok [OF sw(1) own(1), of ?n] by blast
    have same: "cq_slot cq (cq_cons_index cq0 + of_nat j) = cq_slot cq ?n \<longleftrightarrow> j = i + nfreed" if "j \<le> cq_cqe cq0" for j
      using cq_slot_inj [OF sw(1), of j "i + nfreed" "cq_cons_index cq0"] that sw(2,6) assms(2) unfolding n by simp
    have "owner_bit (cq_entry cq' m) = owner_bit (cq_entry cq0 m)" for m
    proof (cases "cq_slot cq m = cq_slot cq ?n")
      case True
      then have "cq_entry cq m = cq_entry cq ?n" by (simp add: cq_entry_def)
      then show ?thesis using own(3) True sw(4) [of m] by (simp add: cq'(5) owner_bit_def)
    next
      case False
      then show ?thesis using sw(4) by (simp add: cq'(5))
    qed
    moreover have "body (cq_entry cq' (cq_cons_index cq0 + of_nat j)) = cs ! j" if "j < i" for j
      using same [of j] that sw(5) [of j] sw(6) assms(2) by (simp add: cq'(5))
    moreover have "body (cq_entry cq' (cq_cons_index cq0 + of_nat (i + nfreed + t))) = (cs ! i # kept) ! t" if "t < Suc (length kept)" for t
    proof (cases t)
      case 0
      then show ?thesis using same [of "i + nfreed"] sw(5) [of i] sw(6) assms(2) own(2) assms(3) by (simp add: cq'(5))
    next
      case (Suc t')
      have "cq_entry cq' (cq_cons_index cq0 + of_nat (Suc i + nfreed + t')) = cq_entry cq (cq_cons_index cq0 + of_nat (Suc i + nfreed + t'))"
        using same [of "Suc i + nfreed + t'"] that Suc sw(6) assms(2) unfolding cq'(5) by simp
      then show ?thesis using sw(7) [of t'] that Suc by simp
    qed
    ultimately have "swept cq0 cs i (cs ! i # kept) nfreed cq'"
      using sw(2,3,6) cq'(2-4) by (simp add: swept_def)
    then show ?thesis using False cq'(1) get_cqe_entry [OF sw(1)] by simp
  qed
qed

definition same_srq :: "srq option \<Rightarrow> srq option \<Rightarrow> bool" where
  "same_srq = rel_option (\<lambda>s s'. srq_ext_srq s = srq_ext_srq s' \<and> srq_num s = srq_num s')"

lemma same_srq_refl [simp]: "same_srq x x"
  by (cases x) (simp_all add: same_srq_def)

lemma same_srq_trans: "same_srq x y \<Longrightarrow> same_srq y z \<Longrightarrow> same_srq x z"
  by (cases x; cases y; cases z) (simp_all add: same_srq_def)

lemma same_srq_cleaned: "same_srq x y \<Longrightarrow> cleaned x = cleaned y \<and> given_back x = given_back y"
  by (cases x; cases y) (auto simp: same_srq_def cleaned_def given_back_def fun_eq_iff)

lemma drop_posted_Nil [simp]: "drop_posted [] a = a"
  by (simp add: drop_posted_def)

lemma drop_posted_append: "drop_posted ks (drop_posted js a) = drop_posted (js @ ks) a"
  by (auto simp: drop_posted_def fun_eq_iff)

lemma clean_one_ok:
  assumes "swept cq0 cs (Suc i) kept nfreed cq" "length cs \<le> cq_cqe cq0" "p = cq_cons_index cq0 + of_nat i"
    and "srq_holds srq a" "\<forall>k\<in>set (given_back srq qpn [cs ! i]). snd a k \<noteq> None"
  shows "\<exists>nfreed' srq' cq'. clean_one qpn p (nfreed, srq, cq) = Inr (nfreed', srq', cq') \<and>
    swept cq0 cs i (if cleaned srq qpn (cs ! i) then kept else cs ! i # kept) nfreed' cq' \<and>
    srq_holds srq' (drop_posted (given_back srq qpn [cs ! i]) a) \<and> same_srq srq' srq"
proof -
  define e where "e = cq_entry cq p"
  have shape: "cq_shape cq" and b: "body e = cs ! i"
    using assms(1) by (auto simp: swept_def e_def assms(3))
  have len: "length e = 32" using cq_entry_length [OF shape] by (simp add: e_def)
  note fields = body_fields [OF len, unfolded b]
  have get: "get_cqe cq p = Inr e" by (simp add: e_def get_cqe_entry [OF shape])
  note rem = swept_remove [OF assms(1)]
  obtain cq' where keep: "(if nfreed \<noteq> 0 then res_bind (get_cqe cq (p + of_nat nfreed)) (\<lambda>d.
      set_cqe (p + of_nat nfreed) (with_owner (owner_sr_opcode d) e) cq) else Inr cq) = Inr cq'" "swept cq0 cs i (cs ! i # kept) nfreed cq'"
    using swept_keep [OF assms(1-3), folded e_def] by blast
  have keep': "(if nfreed \<noteq> 0 then res_bind (get_cqe cq (p + of_nat nfreed)) (\<lambda>d.
      res_bind (set_cqe (p + of_nat nfreed) (with_owner (owner_sr_opcode d) e) cq) (\<lambda>cq. Inr (nfreed, x, cq))) else Inr (nfreed, x, cq)) = Inr (nfreed, x, cq')"
    for x :: "srq option"
    using keep(1) by (cases "nfreed = 0") (auto simp: res_bind_eq_Inr)
  show ?thesis
  proof (cases srq)
    case None
    then show ?thesis
      using get rem keep(2) keep' [of None] fields(1)
      by (cases "cqe_qpn e = qpn") (auto simp: clean_one_def cleaned_def given_back_def srq_holds_def)
  next
    case (Some s)
    have abs: "srq_abs s a" using assms(4) Some by (simp add: srq_holds_def)
    have free: "\<exists>s'. mlx4_free_srq_wqe (unat (wqe_index e)) s = Inr s' \<and> srq_abs s' (drop_posted [unat (wqe_index e)] a) \<and>
        srq_ext_srq s' = srq_ext_srq s \<and> srq_num s' = srq_num s"
      if "cleaned srq qpn (cs ! i)" "\<not> cqe_is_send e"
      using free_abs [OF abs, of "unat (wqe_index e)"] assms(5) that fields by (simp add: given_back_def Some)
    show ?thesis
    proof (cases "cleaned srq qpn (cs ! i) \<and> \<not> cqe_is_send e")
      case True
      then obtain s' where s': "mlx4_free_srq_wqe (unat (wqe_index e)) s = Inr s'" "srq_abs s' (drop_posted [unat (wqe_index e)] a)"
          "srq_ext_srq s' = srq_ext_srq s" "srq_num s' = srq_num s" using free by blast
      have "clean_one qpn p (nfreed, srq, cq) = Inr (nfreed + 1, Some s', cq)"
        using True get s'(1) fields by (auto simp: clean_one_def cleaned_def Some)
      moreover have "given_back srq qpn [cs ! i] = [unat (wqe_index e)]"
        using True fields by (simp add: given_back_def Some)
      ultimately show ?thesis
        using True rem s'(2-4) by (simp add: srq_holds_def same_srq_def Some)
    next
      case False
      then have gb: "given_back srq qpn [cs ! i] = []" using fields by (auto simp: given_back_def Some)
      show ?thesis
      proof (cases "cleaned srq qpn (cs ! i)")
        case True
        then have "clean_one qpn p (nfreed, srq, cq) = Inr (nfreed + 1, srq, cq)"
          using False get fields by (auto simp: clean_one_def cleaned_def Some)
        then show ?thesis using True rem assms(4) gb by simp
      next
        case no: False
        then have "clean_one qpn p (nfreed, srq, cq) = Inr (nfreed, srq, cq')"
          using get fields keep' [of "Some s"] by (auto simp: clean_one_def cleaned_def Some)
        then show ?thesis using no keep(2) assms(4) gb by simp
      qed
    qed
  qed
qed

lemma given_back_Cons: "given_back srq qpn (c # cs) = given_back srq qpn [c] @ given_back srq qpn cs"
  by (cases srq) (simp_all add: given_back_def)

lemma rev_given_back_single: "rev (given_back srq qpn [c]) = given_back srq qpn [c]"
  by (cases srq) (simp_all add: given_back_def)

lemma sweep_ok:
  assumes "length cs \<le> cq_cqe cq0" "cq_shape cq0" "swept cq0 cs i (filter (\<lambda>c. \<not> cleaned srq0 qpn c) (drop i cs)) nfreed cq"
    and "srq_holds srq (drop_posted (rev (given_back srq0 qpn (drop i cs))) a)" "same_srq srq srq0"
    and "distinct (given_back srq0 qpn cs)" "\<forall>k\<in>set (given_back srq0 qpn cs). snd a k \<noteq> None" "i < k"
  shows "\<exists>nfreed' srq' cq'. sweep k qpn (cq_cons_index cq0 + of_nat i) (nfreed, srq, cq) = Inr (nfreed', srq', cq') \<and>
    swept cq0 cs 0 (filter (\<lambda>c. \<not> cleaned srq0 qpn c) cs) nfreed' cq' \<and>
    srq_holds srq' (drop_posted (rev (given_back srq0 qpn cs)) a) \<and> same_srq srq' srq0"
  using assms(3-5,8)
proof (induction i arbitrary: k nfreed srq cq)
  case 0
  obtain k' where k: "k = Suc k'" using 0(4) by (cases k) auto
  have cons: "cq_cons_index cq = cq_cons_index cq0" using 0(1) by (simp add: swept_def)
  have "(- 1 :: u32) = 0 - 1" by simp
  then have "signed_take_bit 31 (sint (cq_cons_index cq0 - 1) - sint (cq_cons_index cq)) < 0"
    unfolding sub_signed cons by simp
  then show ?case using 0 by (simp add: k)
next
  case (Suc i)
  obtain k' where k: "k = Suc k'" "i < k'" using Suc.prems(4) by (cases k) auto
  have cons: "cq_cons_index cq = cq_cons_index cq0" and i: "i < length cs" using Suc.prems(1) by (auto simp: swept_def)
  have small: "i < 2 ^ 31"
  proof -
    obtain n where "n \<le> 24" "cq_cqe cq0 + 1 = 2 ^ n" using assms(2) by (auto simp: cq_shape_def)
    then show ?thesis using power_increasing [of n 24 "2 :: nat"] i assms(1) by simp
  qed
  then have "sint (of_nat i :: u32) = int i"
    by (simp add: signed_of_nat signed_take_bit_int_eq_self)
  then have nonneg: "\<not> signed_take_bit 31 (sint (cq_cons_index cq0 + of_nat i) - sint (cq_cons_index cq)) < 0"
    unfolding sub_signed cons by simp
  have drop: "drop i cs = cs ! i # drop (Suc i) cs" using i by (simp add: Cons_nth_drop_Suc)
  note srq = same_srq_cleaned [OF Suc.prems(3)]
  let ?a = "drop_posted (rev (given_back srq0 qpn (drop (Suc i) cs))) a"
  have gb: "given_back srq0 qpn cs = given_back srq0 qpn (take i cs) @ given_back srq0 qpn [cs ! i] @ given_back srq0 qpn (drop (Suc i) cs)"
  proof -
    have app: "given_back srq0 qpn (xs @ ys) = given_back srq0 qpn xs @ given_back srq0 qpn ys" for xs ys
      by (cases srq0) (simp_all add: given_back_def)
    have "given_back srq0 qpn cs = given_back srq0 qpn (take i cs @ cs ! i # drop (Suc i) cs)"
      using id_take_nth_drop [OF i] by (rule arg_cong)
    then show ?thesis unfolding app given_back_Cons [of srq0 qpn "cs ! i" "drop (Suc i) cs"] .
  qed
  have posted: "\<forall>k\<in>set (given_back srq qpn [cs ! i]). snd ?a k \<noteq> None"
  proof
    fix x assume x: "x \<in> set (given_back srq qpn [cs ! i])"
    then have "x \<in> set (given_back srq0 qpn cs)" "x \<notin> set (given_back srq0 qpn (drop (Suc i) cs))"
      using assms(6) srq unfolding gb by auto
    then show "snd ?a x \<noteq> None" using assms(7) by (simp add: drop_posted_def)
  qed
  obtain nfreed1 srq1 cq1 where one: "clean_one qpn (cq_cons_index cq0 + of_nat i) (nfreed, srq, cq) = Inr (nfreed1, srq1, cq1)"
      "swept cq0 cs i (if cleaned srq qpn (cs ! i) then filter (\<lambda>c. \<not> cleaned srq0 qpn c) (drop (Suc i) cs)
         else cs ! i # filter (\<lambda>c. \<not> cleaned srq0 qpn c) (drop (Suc i) cs)) nfreed1 cq1"
      "srq_holds srq1 (drop_posted (given_back srq qpn [cs ! i]) ?a)" "same_srq srq1 srq"
    using clean_one_ok [OF Suc.prems(1) assms(1) refl Suc.prems(2) posted] by blast
  have sw: "swept cq0 cs i (filter (\<lambda>c. \<not> cleaned srq0 qpn c) (drop i cs)) nfreed1 cq1"
    using one(2) srq by (simp add: drop split: if_splits)
  have "drop_posted (given_back srq qpn [cs ! i]) ?a = drop_posted (rev (given_back srq0 qpn (drop i cs))) a"
    using srq by (simp add: drop_posted_append drop given_back_Cons [of srq0 qpn "cs ! i" "drop (Suc i) cs"] rev_given_back_single)
  then have abs: "srq_holds srq1 (drop_posted (rev (given_back srq0 qpn (drop i cs))) a)" using one(3) by simp
  note IH = Suc.IH [OF sw abs same_srq_trans [OF one(4) Suc.prems(3)] k(2)]
  have "sweep k qpn (cq_cons_index cq0 + of_nat (Suc i)) (nfreed, srq, cq) = sweep k' qpn (cq_cons_index cq0 + of_nat i) (nfreed1, srq1, cq1)"
    using nonneg one(1) by (simp add: k(1))
  then show ?case using IH by simp
qed

lemma swept_holds:
  assumes "swept cq0 cs 0 kept nfreed cq" "holds cq0 cs" "length cs \<le> cq_cqe cq0"
  shows "holds (cq\<lparr>cq_cons_index := cq_cons_index cq + of_nat nfreed\<rparr>) kept"
proof -
  let ?cq = "cq\<lparr>cq_cons_index := cq_cons_index cq + of_nat nfreed\<rparr>"
  have sw: "cq_shape cq" "cq_cqe cq = cq_cqe cq0" "cq_cons_index cq = cq_cons_index cq0"
    "\<And>n. owner_bit (cq_entry cq n) = owner_bit (cq_entry cq0 n)" "nfreed + length kept = length cs"
    "\<And>t. t < length kept \<Longrightarrow> body (cq_entry cq (cq_cons_index cq0 + of_nat (nfreed + t))) = kept ! t"
    using assms(1) by (auto simp: swept_def)
  have own: "sw_owned cq n = sw_owned cq0 n" for n
    using sw(2,4) by (simp add: sw_owned_def pass_bit_def)
  note same = same_ring [of ?cq cq, simplified]
  have h: "\<And>i. i < length cs \<Longrightarrow> sw_owned cq0 (cq_cons_index cq0 + of_nat i)" "\<not> sw_owned cq0 (cq_cons_index cq0 + of_nat (length cs))"
    using assms(2,3) by (auto simp: holds_def)
  show ?thesis
    unfolding holds_def same
  proof (intro conjI allI impI)
    show "cq_shape cq" by (rule sw(1))
    show "length kept \<le> cq_cqe ?cq + 1" using sw(2,5) assms(3) by simp
    fix t assume t: "t < length kept"
    have p: "cq_cons_index ?cq + of_nat t = cq_cons_index cq0 + of_nat (nfreed + t)" by (simp add: sw(3))
    show "sw_owned cq (cq_cons_index ?cq + of_nat t)" unfolding p own using t sw(5) by (intro h(1)) simp
    show "body (cq_entry cq (cq_cons_index ?cq + of_nat t)) = kept ! t" unfolding p using sw(6) t by simp
  next
    have "cq_cons_index ?cq + of_nat (length kept) = cq_cons_index cq0 + of_nat (length cs)"
      using sw(3) by (simp flip: sw(5))
    then show "\<not> sw_owned cq (cq_cons_index ?cq + of_nat (length kept))" using h(2) own by simp
  qed
qed

lemma clean_ok:
  assumes "holds cq cs" "length cs \<le> cq_cqe cq" "srq_holds srq a" "distinct (given_back srq qpn cs)"
    and "\<forall>k\<in>set (given_back srq qpn cs). snd a k \<noteq> None"
  shows "\<exists>srq' cq'. mlx4_cq_clean is_last qpn srq cq = Inr (srq', cq') \<and> holds cq' (filter (\<lambda>c. \<not> cleaned srq qpn c) cs) \<and>
    srq_holds srq' (drop_posted (rev (given_back srq qpn cs)) a) \<and> cq_cqe cq' = cq_cqe cq \<and> same_srq srq' srq"
proof -
  define cq0 where "cq0 = (if is_last then cq\<lparr>cq_last_qp := None\<rparr> else cq)"
  have h: "holds cq0 cs" "length cs \<le> cq_cqe cq0" using assms(1,2) by (simp_all add: cq0_def)
  have prod: "find_producer (cq_cqe cq0 + 1) (cq_cons_index cq0) cq0 = Inr (cq_cons_index cq0 + of_nat (length cs))"
    using find_producer_ok [OF h, of 0 "cq_cqe cq0 + 1"] by simp
  have shape: "cq_shape cq0" using h(1) by (simp add: holds_def)
  have start: "swept cq0 cs (length cs) (filter (\<lambda>c. \<not> cleaned srq qpn c) (drop (length cs) cs)) 0 cq0"
    using h(1) by (auto simp: swept_def holds_def)
  have abs: "srq_holds srq (drop_posted (rev (given_back srq qpn (drop (length cs) cs))) a)"
    using assms(3) by (cases srq) (simp_all add: given_back_def)
  have fuel: "length cs < cq_cqe cq0 + 2" using h(2) by simp
  obtain nfreed srq' cq' where run: "sweep (cq_cqe cq0 + 2) qpn (cq_cons_index cq0 + of_nat (length cs)) (0, srq, cq0) = Inr (nfreed, srq', cq')"
      "swept cq0 cs 0 (filter (\<lambda>c. \<not> cleaned srq qpn c) cs) nfreed cq'" "srq_holds srq' (drop_posted (rev (given_back srq qpn cs)) a)" "same_srq srq' srq"
    using sweep_ok [OF h(2) shape start abs same_srq_refl assms(4,5) fuel] by blast
  note fin = swept_holds [OF run(2) h]
  let ?cq = "if nfreed \<noteq> 0 then mlx4_update_cons_index (cq'\<lparr>cq_cons_index := cq_cons_index cq' + of_nat nfreed\<rparr>) else cq'"
  have "mlx4_cq_clean is_last qpn srq cq = Inr (srq', ?cq)"
    using prod run(1) by (simp add: mlx4_cq_clean_def cq0_def [symmetric] Let_def)
  moreover have "holds ?cq (filter (\<lambda>c. \<not> cleaned srq qpn c) cs)" using fin by (cases "nfreed = 0") simp_all
  moreover have "cq_cqe ?cq = cq_cqe cq" using run(2) by (simp add: swept_def cq0_def mlx4_update_cons_index_def)
  ultimately show ?thesis using run(3,4) by blast
qed

text \<open>
  C23: Destroying or resetting a queue pair takes exactly its entries out of the completion queue: the others stay, in their
  order and with their contents, and can still be polled. Where receives of the queue pair were posted to a shared
  receive queue, their elements go back to its list of free elements.
\<close>

theorem clean_removes:
  assumes "holds cq cs" "length cs \<le> cq_cqe cq" "srq_holds srq a" "distinct (given_back srq qpn cs)"
    and "\<forall>k\<in>set (given_back srq qpn cs). snd a k \<noteq> None" "\<forall>s. srq = Some s \<longrightarrow> \<not> srq_ext_srq s"
  shows "\<exists>srq' cq'. mlx4_cq_clean is_last qpn srq cq = Inr (srq', cq') \<and> holds cq' (filter (\<lambda>c. cqe_qpn c \<noteq> qpn) cs) \<and>
    mlx4_get_outstanding_cqes cq' = Inr (length (filter (\<lambda>c. cqe_qpn c \<noteq> qpn) cs)) \<and>
    srq_holds srq' (drop_posted (rev (given_back srq qpn cs)) a)"
proof -
  have eq: "(\<lambda>c. \<not> cleaned srq qpn c) = (\<lambda>c. cqe_qpn c \<noteq> qpn)"
    using assms(6) by (cases srq) (auto simp: cleaned_def fun_eq_iff)
  obtain srq' cq' where c: "mlx4_cq_clean is_last qpn srq cq = Inr (srq', cq')" "holds cq' (filter (\<lambda>c. cqe_qpn c \<noteq> qpn) cs)"
      "srq_holds srq' (drop_posted (rev (given_back srq qpn cs)) a)" "cq_cqe cq' = cq_cqe cq"
    using clean_ok [OF assms(1-5), of is_last] unfolding eq by blast
  have "length (filter (\<lambda>c. cqe_qpn c \<noteq> qpn) cs) \<le> cq_cqe cq'"
    using length_filter_le [of "\<lambda>c. cqe_qpn c \<noteq> qpn" cs] assms(2) c(4) by linarith
  then show ?thesis using c(1-3) outstanding_cqes_ok [OF c(2)] by blast
qed

lemma clean_removes_witness:
  "\<exists>srq' cq'. mlx4_cq_clean True 0x123 None ex_cq = Inr (srq', cq') \<and> holds cq' [] \<and> mlx4_get_outstanding_cqes cq' = Inr 0"
proof -
  have "length [ex_cqe] \<le> cq_cqe ex_cq" by (simp add: ex_cq_def)
  from clean_removes [OF ex_cq_holds this, of None undefined "0x123" True] show ?thesis
    by (auto simp: srq_holds_def given_back_def ex_cqe_facts)
qed

text \<open>
  The number of an XRC receive is masked before its bytes are put into host order, which leaves its low byte out.
\<close>

lemma take_byte: "take_bit 8 (ucast (b :: u8) :: u32) = ucast b" "take_bit 16 (ucast (b :: u8) :: u32) = ucast b" "take_bit 24 (ucast (b :: u8) :: u32) = ucast b"
  by (rule bit_word_eqI; auto simp: bit_take_bit_iff bit_ucast_iff dest: bit_imp_le_length)+

lemma of_be32_low: "of_be32 [a, b, c, d] AND 0xffffff = of_be32 [0, b, c, d]"
proof -
  have m: "(0xffffff :: u32) = mask 24" by (simp add: mask_eq_exp_minus_1)
  show ?thesis
    unfolding m take_bit_eq_mask [symmetric] by (simp add: of_be32_def take_bit_push_bit take_byte)
qed

lemma of_be32_high: "of_be32 [a, b, c, 0] = of_be32 [a, b, c, d] AND 0xffffff00"
proof -
  have m: "(0xffffff00 :: u32) = NOT (mask 8)" by (simp add: mask_eq_exp_minus_1)
  have low: "take_bit 8 (of_be32 [a, b, c, d]) = ucast d"
    by (simp add: of_be32_def take_bit_push_bit take_byte)
  have "of_be32 [a, b, c, d] = of_be32 [a, b, c, 0] OR ucast d" by (simp add: of_be32_def or.assoc)
  moreover have "ucast d AND NOT (mask 8) = (0 :: u32)"
    by (rule bit_word_eqI) (auto simp: bit_and_iff bit_not_iff bit_mask_iff bit_ucast_iff dest: bit_imp_le_length)
  moreover have "of_be32 [a, b, c, 0] AND NOT (mask 8) = of_be32 [a, b, c, 0]"
  proof -
    have "take_bit 8 (of_be32 [a, b, c, 0]) = 0" by (simp add: of_be32_def take_bit_push_bit)
    then show ?thesis by (simp add: take_bit_eq_mask bit_eq_iff bit_and_iff bit_not_iff bit_mask_iff) blast
  qed
  ultimately show ?thesis unfolding m by (simp add: bit.conj_disj_distrib2)
qed

lemma be32_of_be32: "be32 (of_be32 [a, b, c, d]) = [a, b, c, d]"
  unfolding be32_def of_be32_def
  by (simp, intro conjI; rule bit_word_eqI)
     (auto simp: bit_or_iff bit_push_bit_iff bit_ucast_iff bit_drop_bit_eq dest: bit_imp_le_length)

lemma xrc_number_eq:
  assumes "length c = 32"
  shows "xrc_number c = g_mlpath_rqpn c AND 0xffffff00"
proof -
  have l: "length (take 4 (drop 8 c)) = 4" using assms by simp
  obtain b0 r0 where r0: "take 4 (drop 8 c) = b0 # r0" "length r0 = 3" using l by (cases "take 4 (drop 8 c)") auto
  obtain b1 r1 where r1: "r0 = b1 # r1" "length r1 = 2" using r0(2) by (cases r0) auto
  obtain b2 r2 where r2: "r1 = b2 # r2" "length r2 = 1" using r1(2) by (cases r1) auto
  obtain b3 where b3: "r2 = [b3]" using r2(2) by (cases r2) auto
  have b: "take 4 (drop 8 c) = [b0, b1, b2, b3]" using r0(1) r1(1) r2(1) b3 by simp
  show ?thesis
    by (simp add: xrc_number_def cqe_raw32_def cqe_field32_def b MLX4_CQE_QPN_MASK_def htonl32_def of_be32_low be32_of_be32 of_be32_high [of _ _ _ b3])
qed

text \<open>
  So the receives that went to an XRC queue are not found when it is destroyed, unless the low byte of its number is
  zero: they stay in the completion queue, although the memory of the queue is released.
\<close>

theorem xrc_receives_survive:
  assumes "holds cq cs" "length cs \<le> cq_cqe cq" "srq_abs s a" "srq_ext_srq s" "srq_num s AND 0xff \<noteq> 0" "\<forall>c\<in>set cs. length c = 32"
    and "\<forall>c\<in>set cs. cqe_qpn c \<noteq> qpn"
  shows "\<exists>s' cq'. mlx4_cq_clean is_last qpn (Some s) cq = Inr (Some s', cq') \<and> holds cq' cs \<and> srq_abs s' a"
proof -
  have no: "\<not> cleaned (Some s) qpn c" if "c \<in> set cs" for c
  proof -
    have "(g_mlpath_rqpn c AND 0xffffff00) AND 0xff = 0" by (simp add: and.assoc)
    then have "xrc_number c \<noteq> srq_num s" using xrc_number_eq [of c] that assms(5,6) by metis
    then show ?thesis using that assms(7) by (auto simp: cleaned_def)
  qed
  then have f: "filter (\<lambda>c. \<not> cleaned (Some s) qpn c) cs = cs" by simp
  have g: "given_back (Some s) qpn cs = []" using no by (simp add: given_back_def filter_empty_conv)
  obtain srq' cq' where c: "mlx4_cq_clean is_last qpn (Some s) cq = Inr (srq', cq')" "holds cq' cs" "srq_holds srq' a"
      "same_srq srq' (Some s)"
    using clean_ok [OF assms(1,2), of "Some s" a qpn is_last] assms(3) unfolding f g by (auto simp: srq_holds_def)
  obtain s' where "srq' = Some s'" using c(4) by (cases srq') (simp_all add: same_srq_def)
  then show ?thesis using c(1-3) by (auto simp: srq_holds_def)
qed

definition ex_xrc_cqe :: "u8 list" where
  "ex_xrc_cqe = [0, 0x80, 1, 0x23, 0, 0, 0, 0, 0, 0, 0, 0x45, 0, 0, 0, 0, 0, 0, 0, 0, 0, 0, 0, 0, 0, 0, 0, 0, 0, 0, 0, 1]"

definition ex_xrc_srq :: srq where
  "ex_xrc_srq = \<lparr>srq_slots = [(replicate 32 0)[3 := 1], replicate 32 0], srq_wrid = [0, 0], srq_max = 2, srq_max_gs = 1,
     srq_wqe_shift = 5, srq_head = 0, srq_tail = 1, srq_counter = 0, srq_db = be32 0, srq_num = 0x45, srq_ext_srq = True\<rparr>"

lemma xrc_receives_survive_witness:
  "\<exists>s' cq'. mlx4_cq_clean False 0x45 (Some ex_xrc_srq) (ex_cq\<lparr>cq_buf := [ex_xrc_cqe, (replicate 32 0)[31 := 0x80]]\<rparr>) = Inr (Some s', cq') \<and>
    holds cq' [ex_xrc_cqe] \<and> srq_abs s' ([0, 1], \<lambda>_. None)"
proof -
  let ?cq = "ex_cq\<lparr>cq_buf := [ex_xrc_cqe, (replicate 32 0)[31 := 0x80]]\<rparr>"
  have "\<exists>k\<le>24. cq_cqe ?cq + 1 = 2 ^ k" by (intro exI [of _ 1]) (simp add: ex_cq_def)
  then have shape: "cq_shape ?cq" by (simp add: cq_shape_def) (simp add: ex_cq_def ex_xrc_cqe_def)
  have len: "length ex_xrc_cqe = 32" by (simp add: ex_xrc_cqe_def)
  have "body ex_xrc_cqe = ex_xrc_cqe" by (simp add: body_def ex_xrc_cqe_def macro_defs)
  moreover have "sw_owned ?cq 0" "\<not> sw_owned ?cq 1" "cq_entry ?cq 0 = ex_xrc_cqe"
    by (simp_all add: sw_owned_def cq_entry_def owner_bit_def pass_bit_def cq_slot_def cqe_off_def ex_cq_def ex_xrc_cqe_def macro_defs)
  ultimately have h: "holds ?cq [ex_xrc_cqe]" using shape by (simp add: holds_def) (simp add: ex_cq_def)
  have "srq_shape ex_xrc_srq"
    by (simp add: srq_shape_def ex_xrc_srq_def)
  moreover have "srq_next ex_xrc_srq 0 = 1"
    by (simp add: srq_next_def ex_xrc_srq_def next_wqe_index_def of_be16_def)
  ultimately have "srq_inv ex_xrc_srq [0, 1]"
    by (simp add: srq_inv_def less_Suc_eq) (simp add: ex_xrc_srq_def)
  then have a: "srq_abs ex_xrc_srq ([0, 1], \<lambda>_. None)"
    by (auto simp: srq_abs_def ex_xrc_srq_def)
  have q: "cqe_qpn ex_xrc_cqe = 0x800123"
    by (simp add: ex_xrc_cqe_def cqe_qpn_def cqe_field32_def of_be32_def macro_defs)
  show ?thesis
    by (rule xrc_receives_survive [OF h _ a]) (simp_all add: q len, simp_all add: ex_cq_def ex_xrc_srq_def)
qed

end
