(* ===== verification/Split_Receive.thy ===== *)
theory Split_Receive
  imports Completion_Proofs Shaper
begin

text \<open>
  The receiver's half of a split message: \<open>mlx4_poll_cq\<close> of \<open>libmlx4/src/cq.c\<close>, the polling function that applications
  call. A receive that is at least \<open>MIN_SPLIT_CHUNK_SIZE\<close> long is taken for the first chunk of a split message: the
  call then reads the sender's INFO message from the hidden queue pair, posts receives for the other chunks behind the
  application's own buffer, acknowledges, waits for the chunks, and returns one completion for the whole message.

  The queues are those of the other theories: receives go through \<open>mlx4_post_recv\<close>, the acknowledgement through
  \<open>__mlx4_post_send\<close>, and the inner polls through \<open>__mlx4_poll_cq\<close>. What the device does meanwhile is a list of
  events per inner poll, the results of \<open>ibv_get_cq_event\<close> are a list of numbers; a list that has ended is a call
  that never returns. Configuration as shipped: \<open>SPLIT_USE_EVENT\<close> on, \<open>DRIVER_MEASURE_LAT\<close> off.
\<close>

unbundle bit_operations_syntax

section \<open>State\<close>

text \<open>What a queue pair has for splitting; \<open>sl_fc_addr\<close> is the address of its four messages of 12 bytes.\<close>

record split_link =
  sl_qp0 :: nat
  sl_qp2 :: nat
  sl_recv_cq :: comp_queue
  sl_cq2 :: comp_queue
  sl_msg0 :: "fc_type \<times> u32 \<times> u32"
  sl_msg3 :: fc_type
  sl_fc_addr :: u64
  sl_lkey :: u32

datatype hidden_cq = Recv_cq | Cq2

text \<open>The device writes the ring of a completion queue, or the message for which a receive waits.\<close>

datatype dev_event = Dev_ring hidden_cq "u8 list list" | Dev_message fc_type u32 u32

text \<open>
  \<open>ss_isSmall\<close>, \<open>ss_flow\<close> and \<open>ss_debit\<close> are the kind of the process, whether it takes tokens, and its balance, as in
  \<open>__mlx4_post_send\<close>; \<open>ss_waits\<close> has an entry for each token to come.
\<close>

record split_state =
  ss_cx :: mlx4_ctx
  ss_links :: "split_link list"
  ss_script :: "int list"
  ss_device :: "dev_event list list"
  ss_isSmall :: int
  ss_flow :: bool
  ss_debit :: int
  ss_waits :: "u32 list"

definition link_cq :: "hidden_cq \<Rightarrow> split_link \<Rightarrow> comp_queue" where
  "link_cq w l = (case w of Recv_cq \<Rightarrow> sl_recv_cq l | Cq2 \<Rightarrow> sl_cq2 l)"

definition set_link_cq :: "hidden_cq \<Rightarrow> comp_queue \<Rightarrow> split_link \<Rightarrow> split_link" where
  "set_link_cq w cq l = (case w of Recv_cq \<Rightarrow> l\<lparr>sl_recv_cq := cq\<rparr> | Cq2 \<Rightarrow> l\<lparr>sl_cq2 := cq\<rparr>)"

definition upd_link :: "nat \<Rightarrow> (split_link \<Rightarrow> split_link) \<Rightarrow> split_state \<Rightarrow> split_state" where
  "upd_link h f s = s\<lparr>ss_links := (ss_links s)[h := f (ss_links s ! h)]\<rparr>"

fun dev_step :: "nat \<Rightarrow> dev_event \<Rightarrow> split_state \<Rightarrow> split_state" where
  "dev_step h (Dev_ring w b) s = upd_link h (\<lambda>l. set_link_cq w ((link_cq w l)\<lparr>cq_buf := b\<rparr>) l) s"
| "dev_step h (Dev_message t n c) s = upd_link h (\<lambda>l. l\<lparr>sl_msg0 := (t, n, c)\<rparr>) s"

section \<open>One entry\<close>

text \<open>
  \<open>mlx4_poll_one\<close>. The third result is the pointer to the application's receive element, as queue pair and index; the
  queue pair is dereferenced to compute it.
\<close>

definition mlx4_poll_one :: "bool \<Rightarrow> bool \<Rightarrow> exp_wc \<Rightarrow> poll_state \<Rightarrow> (poll_result \<times> (nat \<times> nat) option \<times> exp_wc \<times> poll_state) res" where
  "mlx4_poll_one is_exp ts wc st =
     res_bind (poll_start is_exp ts wc st) (\<lambda>(r, wc, st).
       case r of Inl code \<Rightarrow> Inr (code, None, wc, st)
       | Inr (c, ef, idx) \<Rightarrow>
         if cqe_is_send c then let (wf, wc) = send_wc c wc in Inr (CQ_OK, None, finish_wc is_exp (ef, wf) wc, st)
         else let split = MIN_SPLIT_CHUNK_SIZE \<le> byte_cnt c in
           res_bind (if \<not> split then Inr None else case ps_cur st of None \<Rightarrow> Inl Null_deref | Some h \<Rightarrow> Inr (Some (h, idx))) (\<lambda>scat.
           res_bind (recv_wc is_exp ef c idx wc st) (\<lambda>(ok, wc, st).
             Inr (if \<not> ok \<or> \<not> split then CQ_OK else if cqe_opcode c = 0x00 then CQ_SPLIT_WIMM else CQ_SPLIT, scat, wc, st))))"

text \<open>The loop of \<open>mlx4_poll_cq\<close>; it ends at the first entry that is not an ordinary one.\<close>

fun poll_entries :: "bool \<Rightarrow> bool \<Rightarrow> nat \<Rightarrow> nat \<Rightarrow> (nat \<times> nat) option \<Rightarrow> exp_wc list \<Rightarrow> poll_state \<Rightarrow>
    (poll_result \<times> nat \<times> (nat \<times> nat) option \<times> exp_wc list \<times> poll_state) res" where
  "poll_entries is_exp ts 0 npolled scat wcs st = Inr (CQ_OK, npolled, scat, wcs, st)"
| "poll_entries is_exp ts (Suc k) npolled scat wcs st =
     res_bind (arr_get wcs npolled) (\<lambda>wc. res_bind (mlx4_poll_one is_exp ts wc st) (\<lambda>(r, sc, wc, st).
       let wcs = wcs[npolled := wc]; scat = (if sc = None then scat else sc) in
       if r \<noteq> CQ_OK then Inr (r, npolled, scat, wcs, st)
       else poll_entries is_exp ts k (npolled + 1) scat wcs st))"

section \<open>The hidden queue pairs\<close>

text \<open>
  Waiting for an event of a hidden queue, and asking for the next one; a result other than 0 means that the function
  returns at once. \<open>mlx4_arm_cq\<close> never fails.
\<close>

definition split_event :: "hidden_cq \<Rightarrow> nat \<Rightarrow> split_state \<Rightarrow> (bool \<times> split_state) res" where
  "split_event w h s = (case ss_script s of [] \<Rightarrow> Inl Diverges
     | r # rs \<Rightarrow> Inr (if r \<noteq> 0 then (False, s\<lparr>ss_script := rs\<rparr>)
         else (True, upd_link h (\<lambda>l. set_link_cq w (mlx4_arm_cq False (mlx4_cq_event (link_cq w l))) l) (s\<lparr>ss_script := rs\<rparr>))))"

text \<open>Polling until something is there, whatever it is; \<open>wc\<close> is the completion on the stack.\<close>

fun split_poll :: "hidden_cq \<Rightarrow> nat \<Rightarrow> bool \<Rightarrow> bool \<Rightarrow> exp_wc \<Rightarrow> dev_event list list \<Rightarrow> split_state \<Rightarrow> (exp_wc \<times> split_state) res" where
  "split_poll w h is_exp ts wc [] s = Inl Diverges"
| "split_poll w h is_exp ts wc (d # ds) s =
     (let s = fold (dev_step h) d s in
      res_bind (poll_cq_driver is_exp ts 1 [wc] (link_cq w (ss_links s ! h)) (ss_cx s)) (\<lambda>(n, wcs, cq, cx).
        let s = upd_link h (set_link_cq w cq) (s\<lparr>ss_cx := cx\<rparr>) in
        res_bind (arr_get wcs 0) (\<lambda>wc. if n = 0 then split_poll w h is_exp ts wc ds s else Inr (wc, s\<lparr>ss_device := ds\<rparr>))))"

text \<open>A receive for one buffer on the hidden queue pair; a failure is only printed. The request is on the stack.\<close>

definition one_recv :: recv_wr where
  "one_recv = \<lparr>rw_id = 0, rw_next = 0, rw_sg_list = 0, rw_num_sge = 1\<rparr>"

definition split_post_recv :: "nat \<Rightarrow> sge \<Rightarrow> split_state \<Rightarrow> split_state res" where
  "split_post_recv h g s =
     (let i = sl_qp0 (ss_links s ! h) in
      res_bind (arr_get (cx_qps (ss_cx s)) i) (\<lambda>q.
      res_bind (mlx4_post_recv \<lparr>am_wr = (\<lambda>_. one_recv), am_sge = (\<lambda>_. g)\<rparr> True True 1 one_recv (mq_rq q)) (\<lambda>(ret, rq).
        Inr (s\<lparr>ss_cx := upd_qp i (q\<lparr>mq_rq := rq\<rparr>) (ss_cx s)\<rparr>))))"

fun post_chunks :: "nat \<Rightarrow> u32 \<Rightarrow> u32 \<Rightarrow> nat \<Rightarrow> u64 \<Rightarrow> split_state \<Rightarrow> split_state res" where
  "post_chunks h lkey chunk 0 addr s = Inr s"
| "post_chunks h lkey chunk (Suc k) addr s =
     res_bind (split_post_recv h \<lparr>sg_addr = addr + ucast chunk, sg_length = chunk, sg_lkey = lkey\<rparr> s)
       (post_chunks h lkey chunk k (addr + ucast chunk))"

definition fc_sge :: "nat \<Rightarrow> split_link \<Rightarrow> sge" where
  "fc_sge k l = \<lparr>sg_addr = sl_fc_addr l + of_nat (12 * k), sg_length = 12, sg_lkey = sl_lkey l\<rparr>"

text \<open>The acknowledgement, sent from the fourth message; the request is zero except for what is set.\<close>

definition ack_wr :: "split_link \<Rightarrow> ibv_wr" where
  "ack_wr l = \<lparr>sw_id = 0, sw_op = WR_SEND, sw_flags = IBV_SEND_SIGNALED, sw_imm = 0, sw_sges = [fc_sge 3 l], sw_raddr = 0, sw_rkey = 0,
     sw_compare_add = 0, sw_swap = 0, sw_srqn = 0, sw_av = replicate 32 0, sw_dqpn = 0, sw_qkey = 0, sw_vlan = 0, sw_mac = replicate 6 0,
     sw_bind_access = 0, sw_bind_type2 = False, sw_bind_rkey = 0, sw_bind_lkey = 0, sw_bind_addr = 0, sw_bind_length = 0\<rparr>"

definition split_ack :: "nat \<Rightarrow> split_state \<Rightarrow> split_state res" where
  "split_ack h s =
     (let s = upd_link h (\<lambda>l. l\<lparr>sl_msg3 := ACK\<rparr>) s; l = ss_links s ! h in
      res_bind (arr_get (cx_qps (ss_cx s)) (sl_qp2 l)) (\<lambda>q.
      res_bind (post_send_driver (cx_mem (ss_cx s)) (ss_isSmall s) (ss_flow s) (ss_debit s) (ss_waits s) [ack_wr l] (mq_sq q)) (\<lambda>r.
        Inr (s\<lparr>ss_cx := upd_qp (sl_qp2 l) (q\<lparr>mq_sq := pr_queue r\<rparr>) (ss_cx s), ss_debit := pr_debit r, ss_waits := pr_waits r\<rparr>))))"

text \<open>Counting the chunks in: any completion counts, and its length is added whatever its status.\<close>

fun poll_chunks :: "nat \<Rightarrow> bool \<Rightarrow> bool \<Rightarrow> nat \<Rightarrow> exp_wc \<Rightarrow> int \<Rightarrow> split_state \<Rightarrow> (int \<times> split_state) res" where
  "poll_chunks h is_exp ts 0 wc nb s = Inr (nb, s)"
| "poll_chunks h is_exp ts (Suc k) wc nb s =
     res_bind (split_poll Recv_cq h is_exp ts wc (ss_device s) s) (\<lambda>(wc, s).
       poll_chunks h is_exp ts k wc (nb + uint (wc_byte_len wc)) s)"

section \<open>A split message\<close>

text \<open>
  The phases of the code for a message split by SEND: the INFO message, the receives for the chunks and for the next
  INFO message, the acknowledgement, the chunks. The result is the number of bytes, or a value to return at once.
  \<open>first\<close> is the length in the first completion of the caller's array, \<open>wc\<close> the completion on the stack, uninitialised.
\<close>

definition split_ack_phase :: "nat \<Rightarrow> bool \<Rightarrow> bool \<Rightarrow> exp_wc \<Rightarrow> split_state \<Rightarrow> ((int + exp_wc) \<times> split_state) res" where
  "split_ack_phase h is_exp ts wc s =
     res_bind (split_ack h s) (\<lambda>s. res_bind (split_event Cq2 h s) (\<lambda>(ok, s).
       if \<not> ok then Inr (Inl (- 2), s)
       else res_bind (split_poll Cq2 h is_exp ts wc (ss_device s) s) (\<lambda>(wc, s). Inr (Inr wc, s))))"

definition split_chunks_phase :: "nat \<Rightarrow> bool \<Rightarrow> bool \<Rightarrow> u32 \<Rightarrow> nat \<Rightarrow> exp_wc \<Rightarrow> split_state \<Rightarrow> ((int + int) \<times> split_state) res" where
  "split_chunks_phase h is_exp ts first n wc s =
     (if n = 0 then Inr (Inr (uint first), s)
      else res_bind (split_ack_phase h is_exp ts wc s) (\<lambda>(r, s). case r of Inl code \<Rightarrow> Inr (Inl code, s)
        | Inr wc \<Rightarrow> res_bind (split_event Recv_cq h s) (\<lambda>(ok, s).
            if \<not> ok then Inr (Inl (- 2), s)
            else res_bind (poll_chunks h is_exp ts n wc (uint first) s) (\<lambda>(nb, s). Inr (Inr nb, s)))))"

text \<open>The address and key in the application's receive element.\<close>

definition scat_base :: "nat \<times> nat \<Rightarrow> mlx4_ctx \<Rightarrow> (u64 \<times> u32) res" where
  "scat_base sc cx = res_bind (arr_get (cx_qps cx) (fst sc)) (\<lambda>q. res_bind (arr_get (rq_slots (mq_rq q)) (snd sc)) (\<lambda>slot.
     res_bind (mem_read slot 8 8) (\<lambda>a. res_bind (mem_read slot 4 4) (\<lambda>k. Inr (of_be64 a, of_be32 k)))))"

definition recv_split :: "nat \<Rightarrow> nat \<times> nat \<Rightarrow> bool \<Rightarrow> bool \<Rightarrow> u32 \<Rightarrow> exp_wc \<Rightarrow> split_state \<Rightarrow> ((int + int) \<times> split_state) res" where
  "recv_split h sc is_exp ts first wc s =
     res_bind (split_event Recv_cq h s) (\<lambda>(ok, s).
     if \<not> ok then Inr (Inl (- 2), s)
     else res_bind (split_poll Recv_cq h is_exp ts wc (ss_device s) s) (\<lambda>(wc, s).
       case sl_msg0 (ss_links s ! h) of (t, n, chunk) \<Rightarrow>
       if t \<noteq> INFO then Inr (Inl (- 1), s)
       else res_bind (scat_base sc (ss_cx s)) (\<lambda>(addr, lkey).
         res_bind (post_chunks h lkey chunk (unat n) addr s) (\<lambda>s.
         res_bind (split_post_recv h (fc_sge 0 (ss_links s ! h)) s) (\<lambda>s.
         split_chunks_phase h is_exp ts first (unat n) wc s)))))"

text \<open>A message split by RDMA WRITE with immediate: one empty receive of the hidden queue pair is replaced, its completion awaited.\<close>

definition recv_split_wimm :: "nat \<Rightarrow> bool \<Rightarrow> bool \<Rightarrow> exp_wc \<Rightarrow> split_state \<Rightarrow> (int option \<times> split_state) res" where
  "recv_split_wimm h is_exp ts wc s =
     res_bind (split_post_recv h (fc_sge 0 (ss_links s ! h)) s) (\<lambda>s.
     res_bind (split_event Recv_cq h s) (\<lambda>(ok, s).
     if \<not> ok then Inr (Some (- 2), s)
     else res_bind (split_poll Recv_cq h is_exp ts wc (ss_device s) s) (\<lambda>(wc, s). Inr (None, s))))"

section \<open>The polling function\<close>

text \<open>
  The result: the return value, whether the lock of the queue is still held, the caller's array, the queue, the state.
  \<open>stack\<close> is what the completion on the stack contains at first.
\<close>

definition mlx4_poll_cq :: "bool \<Rightarrow> bool \<Rightarrow> nat \<Rightarrow> exp_wc \<Rightarrow> exp_wc list \<Rightarrow> comp_queue \<Rightarrow> split_state \<Rightarrow>
    (int \<times> bool \<times> exp_wc list \<times> comp_queue \<times> split_state) res" where
  "mlx4_poll_cq is_exp ts ne stack wcs cq s =
     res_bind (poll_entries is_exp ts ne 0 None wcs \<lparr>ps_cq = cq\<lparr>cq_stall_next_poll := False\<rparr>, ps_cx = ss_cx s, ps_cur = None\<rparr>)
       (\<lambda>(err, npolled, scat, wcs, st).
       let cq = (if npolled \<noteq> 0 \<or> err \<in> {CQ_POLL_ERR, CQ_SPLIT, CQ_SPLIT_WIMM} then mlx4_update_cons_index (ps_cq st) else ps_cq st);
           s = s\<lparr>ss_cx := ps_cx st\<rparr>
       in case (err, ps_cur st, scat) of
         (CQ_SPLIT, Some h, Some sc) \<Rightarrow>
           res_bind (arr_get wcs 0) (\<lambda>w0. res_bind (arr_get (ss_links s) h) (\<lambda>_.
           res_bind (recv_split h sc is_exp ts (wc_byte_len w0) stack s) (\<lambda>(r, s). case r of
             Inl code \<Rightarrow> Inr (code, True, wcs, cq, s)
           | Inr nb \<Rightarrow> Inr (int npolled + 1, False, wcs[0 := w0\<lparr>wc_byte_len := word_of_int nb\<rparr>], cq, s))))
       | (CQ_SPLIT_WIMM, Some h, _) \<Rightarrow>
           res_bind (arr_get (ss_links s) h) (\<lambda>_. res_bind (recv_split_wimm h is_exp ts stack s) (\<lambda>(r, s). case r of
             Some code \<Rightarrow> Inr (code, True, wcs, cq, s)
           | None \<Rightarrow> Inr (int npolled + 1, False, wcs, cq, s)))
       | _ \<Rightarrow>
           if err \<in> {CQ_SPLIT, CQ_SPLIT_WIMM} then Inl Null_deref
           else let cq = (if cq_stall_enable cq \<and> err = CQ_EMPTY then cq\<lparr>cq_stall_next_poll := True\<rparr> else cq)
             in Inr (if err = CQ_POLL_ERR then - 2 else int npolled, False, wcs, cq, s))"

end
