(* ===== verification/Split_Receive_Proofs.thy ===== *)
theory Split_Receive_Proofs
  imports Split_Receive
begin

text \<open>
  What the receiver's half of a split message does: completions of receives, the polls of the hidden queue pair, the
  receives posted for the chunks, and the whole call.
\<close>

unbundle bit_operations_syntax

section \<open>Completions of a receive queue\<close>

definition took :: "recv_queue \<Rightarrow> nat \<Rightarrow> recv_queue" where
  "took q a = q\<lparr>rq_tail := rq_tail q + of_nat a\<rparr>"

definition with_rq :: "nat \<Rightarrow> recv_queue \<Rightarrow> mlx4_ctx \<Rightarrow> mlx4_ctx" where
  "with_rq h q cx = upd_qp h ((cx_qps cx ! h)\<lparr>mq_rq := q\<rparr>) cx"

text \<open>A successful receive of the queue pair numbered \<open>num\<close>, which is not an XRC one.\<close>

definition recv_entry :: "u32 \<Rightarrow> u8 list \<Rightarrow> bool" where
  "recv_entry num c \<longleftrightarrow> length c = 32 \<and> \<not> cqe_is_send c \<and> cqe_qpn c = num \<and> num AND MLX4_XRC_QPN_BIT = 0 \<and> \<not> cqe_is_error c"

definition own_receives :: "mlx4_ctx \<Rightarrow> nat \<Rightarrow> bool" where
  "own_receives cx h \<longleftrightarrow> in_table cx h \<and> mq_srq (cx_qps cx ! h) = None \<and> rq_inlr (mq_rq (cx_qps cx ! h)) = None"

lemma recv_entry_body: "recv_entry num (body e) \<Longrightarrow> length e = 32 \<Longrightarrow> recv_entry num e"
  using body_fields [of e] by (simp add: recv_entry_def)

lemma took_inv:
  assumes "rq_inv q" "a \<le> rq_outstanding q"
  shows "rq_inv (took q a)" "rq_outstanding (took q a) = rq_outstanding q - a" "rq_pos (took q a) b = rq_pos q (a + b)"
proof -
  obtain k where k: "k \<le> 16" "rq_cnt q = 2 ^ k" using assms(1) by (auto simp: rq_inv_def)
  have small: "rq_outstanding q < 2 ^ 32" using unsigned_less [of "rq_head q - rq_tail q", where 'a = nat] by (simp add: rq_outstanding_def)
  then have a: "unat (of_nat a :: u32) = a" using assms(2) by (simp add: unat_of_nat)
  have "of_nat a \<le> rq_head q - rq_tail q" using assms(2) a by (simp add: word_le_nat_alt rq_outstanding_def)
  from unat_sub [OF this] show out: "rq_outstanding (took q a) = rq_outstanding q - a"
    using a by (simp add: rq_outstanding_def took_def diff_diff_add)
  have d: "(2 :: nat) ^ k dvd 2 ^ 32" using k(1) by (intro le_imp_power_dvd) simp
  have "(unat (rq_tail q + of_nat a) + b) mod 2 ^ k = (unat (rq_tail q) + (a + b)) mod 2 ^ k"
  proof -
    have "unat (rq_tail q + of_nat a) = (unat (rq_tail q) + a) mod 2 ^ 32" by (simp add: unat_word_ariths a)
    then have "(unat (rq_tail q + of_nat a) + b) mod 2 ^ k = ((unat (rq_tail q) + a) mod 2 ^ 32 mod 2 ^ k + b) mod 2 ^ k" by (simp add: mod_add_left_eq)
    also have "\<dots> = (unat (rq_tail q) + a + b) mod 2 ^ k" unfolding mod_mod_cancel [OF d] by (rule mod_add_left_eq)
    finally show ?thesis by (simp only: add.assoc)
  qed
  then show "rq_pos (took q a) b = rq_pos q (a + b)" by (simp add: rq_pos_def took_def k(2))
  show "rq_inv (took q a)"
    using assms(1) unfolding rq_inv_def out by (auto simp: took_def)
qed

lemma took_simps [simp]:
  "rq_slots (took q a) = rq_slots q" "rq_wrid (took q a) = rq_wrid q" "rq_cnt (took q a) = rq_cnt q" "rq_max_post (took q a) = rq_max_post q"
  "rq_max_gs (took q a) = rq_max_gs q" "rq_head (took q a) = rq_head q" "rq_inlr (took q a) = rq_inlr q" "rq_init (took q a) = rq_init q"
  "rq_exchange_done (took q a) = rq_exchange_done q" "rq_ignore_overflow (took q a) = rq_ignore_overflow q"
  by (simp_all add: took_def)

lemma took_took: "took (took q a) b = took q (a + b)"
  by (simp add: took_def add.assoc)

lemma with_rq_simps [simp]:
  "length (cx_qps (with_rq h q cx)) = length (cx_qps cx)" "cx_qp_table (with_rq h q cx) = cx_qp_table cx"
  "cx_mem (with_rq h q cx) = cx_mem cx"
  "h < length (cx_qps cx) \<Longrightarrow> cx_qps (with_rq h q cx) ! h = (cx_qps cx ! h)\<lparr>mq_rq := q\<rparr>"
  "h \<noteq> h' \<Longrightarrow> cx_qps (with_rq h q cx) ! h' = cx_qps cx ! h'"
  "h < length (cx_qps cx) \<Longrightarrow> with_rq h q (with_rq h q' cx) = with_rq h q cx"
  by (simp_all add: with_rq_def upd_qp_def)

lemma own_receives_with_rq:
  "own_receives cx h \<Longrightarrow> (h = h' \<Longrightarrow> rq_inlr q = None) \<Longrightarrow> own_receives (with_rq h' q cx) h"
  by (cases "h' = h") (auto simp: own_receives_def in_table_def)

lemma find_owner_recv:
  assumes "own_receives (ps_cx st) h" "recv_entry (mq_num (cx_qps (ps_cx st) ! h)) c" "ps_cur st \<in> {None, Some h}"
  shows "find_owner c st = Inr (Some None, st\<lparr>ps_cur := Some h\<rparr>)"
  using assms by (auto simp: find_owner_def own_receives_def in_table_def recv_entry_def Let_def)

lemma recv_done_ok:
  assumes "rq_inv q"
  shows "recv_done q = Inr (rq_wrid q ! rq_pos q 0, rq_pos q 0, took q 1)"
proof -
  obtain k where k: "k \<le> 16" "rq_cnt q = 2 ^ k" using assms by (auto simp: rq_inv_def)
  have "unat (rq_tail q) AND (rq_cnt q - 1) = rq_pos q 0"
    using ring_index [of "rq_cnt q" k "rq_tail q" 0] k by (simp add: rq_pos_def)
  then show ?thesis
    using assms rq_pos_less [OF rq_cnt_pos [OF assms], of 0] by (simp add: recv_done_def rq_inv_def took_def Let_def)
qed

lemma poll_start_recv:
  assumes "next_cqe_sw (ps_cq st) = Inr (Some c)" "own_receives (ps_cx st) h" "recv_entry (mq_num (cx_qps (ps_cx st) ! h)) c"
    and "ps_cur st \<in> {None, Some h}" "rq_inv (mq_rq (cx_qps (ps_cx st) ! h))" "q = mq_rq (cx_qps (ps_cx st) ! h)"
  shows "\<exists>ef wc'. poll_start is_exp ts wc st = Inr (Inr (c, ef, rq_pos q 0), wc',
      \<lparr>ps_cq = (ps_cq st)\<lparr>cq_cons_index := cq_cons_index (ps_cq st) + 1\<rparr>, ps_cx = with_rq h (took q 1) (ps_cx st), ps_cur = Some h\<rparr>) \<and>
    wc_wr_id wc' = rq_wrid q ! rq_pos q 0 \<and> wc_status wc' = WC_SUCCESS"
proof -
  let ?st = "st\<lparr>ps_cq := (ps_cq st)\<lparr>cq_cons_index := cq_cons_index (ps_cq st) + 1\<rparr>\<rparr>"
  have own: "find_owner c ?st = Inr (Some None, ?st\<lparr>ps_cur := Some h\<rparr>)" using assms(2-4) by (intro find_owner_recv) simp_all
  have h: "h < length (cx_qps (ps_cx st))" using assms(2) by (simp add: own_receives_def in_table_def)
  have c: "\<not> cqe_is_send c" "\<not> cqe_is_error c" using assms(3) by (simp_all add: recv_entry_def)
  have "complete_request c None (?st\<lparr>ps_cur := Some h\<rparr>) = Inr (rq_wrid q ! rq_pos q 0, rq_pos q 0,
      \<lparr>ps_cq = ps_cq ?st, ps_cx = with_rq h (took q 1) (ps_cx st), ps_cur = Some h\<rparr>)"
    using h c(1) recv_done_ok [OF assms(5)] assms(6) by (simp add: complete_request_def with_rq_def Let_def)
  note fin = this
  show ?thesis
    unfolding poll_start_def assms(1) Let_def
    using own fin c by (cases is_exp) (simp_all add: Let_def case_prod_unfold stamp_keeps_wc)
qed

lemma recv_opcode_keeps:
  "wc_wr_id (snd (recv_opcode c wc)) = wc_wr_id wc" "wc_status (snd (recv_opcode c wc)) = wc_status wc"
  "wc_byte_len (snd (recv_opcode c wc)) = wc_byte_len wc"
  by (simp_all add: recv_opcode_def Let_def)

lemma recv_address_keeps:
  "wc_wr_id (snd (recv_address is_exp c cq cur flags wc)) = wc_wr_id wc" "wc_status (snd (recv_address is_exp c cq cur flags wc)) = wc_status wc"
  "wc_byte_len (snd (recv_address is_exp c cq cur flags wc)) = wc_byte_len wc"
  by (simp_all add: recv_address_def Let_def case_prod_unfold)

lemma finish_keeps_len: "wc_byte_len (finish_wc is_exp flags wc) = wc_byte_len wc"
  by (simp add: finish_wc_def Let_def)

lemma recv_wc_plain:
  assumes "ps_cur st = Some h" "h < length (cx_qps (ps_cx st))" "rq_inlr (mq_rq (cx_qps (ps_cx st) ! h)) = None"
  shows "\<exists>wc'. recv_wc is_exp ef c idx wc st = Inr (True, wc', st) \<and> wc_wr_id wc' = wc_wr_id wc \<and> wc_status wc' = wc_status wc \<and>
    wc_byte_len wc' = byte_cnt c"
proof -
  have "inline_data c idx (byte_cnt c) st = Inr (0, st)" using assms by (simp add: inline_data_def)
  moreover have "cur_qp_opt st = Inr (Some (cx_qps (ps_cx st) ! h))" using assms by (simp add: cur_qp_opt_def)
  ultimately show ?thesis
    by (simp add: recv_wc_def Let_def case_prod_unfold finish_keeps finish_keeps_len recv_address_keeps recv_opcode_keeps)
qed

text \<open>What a completion says of a received message.\<close>

definition says_received :: "u64 \<Rightarrow> u8 list \<Rightarrow> exp_wc \<Rightarrow> bool" where
  "says_received i c wc \<longleftrightarrow> wc_wr_id wc = i \<and> wc_status wc = WC_SUCCESS \<and> wc_byte_len wc = byte_cnt c"

lemma poll_one_recv:
  assumes "next_cqe_sw (ps_cq st) = Inr (Some c)" "own_receives (ps_cx st) h" "recv_entry (mq_num (cx_qps (ps_cx st) ! h)) c"
    and "ps_cur st \<in> {None, Some h}" "rq_inv (mq_rq (cx_qps (ps_cx st) ! h))" "q = mq_rq (cx_qps (ps_cx st) ! h)"
    and "st' = \<lparr>ps_cq = (ps_cq st)\<lparr>cq_cons_index := cq_cons_index (ps_cq st) + 1\<rparr>, ps_cx = with_rq h (took q 1) (ps_cx st), ps_cur = Some h\<rparr>"
  shows "\<exists>wc'. poll_one_driver is_exp ts wc st = Inr (CQ_OK, wc', st') \<and> says_received (rq_wrid q ! rq_pos q 0) c wc'"
    and "\<exists>wc'. mlx4_poll_one is_exp ts wc st = Inr (if byte_cnt c < MIN_SPLIT_CHUNK_SIZE then CQ_OK
        else if cqe_opcode c = 0 then CQ_SPLIT_WIMM else CQ_SPLIT,
      if byte_cnt c < MIN_SPLIT_CHUNK_SIZE then None else Some (h, rq_pos q 0), wc', st') \<and> says_received (rq_wrid q ! rq_pos q 0) c wc'"
proof -
  obtain ef wc1 where 1: "poll_start is_exp ts wc st = Inr (Inr (c, ef, rq_pos q 0), wc1, st')"
      "wc_wr_id wc1 = rq_wrid q ! rq_pos q 0" "wc_status wc1 = WC_SUCCESS"
    using poll_start_recv [OF assms(1-6), of is_exp ts wc] assms(7) by blast
  have h: "h < length (cx_qps (ps_cx st))" "rq_inlr q = None" using assms(2,6) by (simp_all add: own_receives_def in_table_def)
  then have "ps_cur st' = Some h" "h < length (cx_qps (ps_cx st'))" "rq_inlr (mq_rq (cx_qps (ps_cx st') ! h)) = None"
    by (simp_all add: assms(7))
  from recv_wc_plain [OF this, of is_exp ef c "rq_pos q 0" wc1] obtain wc2 where
    2: "recv_wc is_exp ef c (rq_pos q 0) wc1 st' = Inr (True, wc2, st')" "says_received (rq_wrid q ! rq_pos q 0) c wc2"
    using 1(2,3) by (auto simp: says_received_def)
  have c: "\<not> cqe_is_send c" using assms(3) by (simp add: recv_entry_def)
  show "\<exists>wc'. poll_one_driver is_exp ts wc st = Inr (CQ_OK, wc', st') \<and> says_received (rq_wrid q ! rq_pos q 0) c wc'"
    using 1(1) 2 c by (simp add: poll_one_driver_def)
  show "\<exists>wc'. mlx4_poll_one is_exp ts wc st = Inr (if byte_cnt c < MIN_SPLIT_CHUNK_SIZE then CQ_OK
        else if cqe_opcode c = 0 then CQ_SPLIT_WIMM else CQ_SPLIT,
      if byte_cnt c < MIN_SPLIT_CHUNK_SIZE then None else Some (h, rq_pos q 0), wc', st') \<and> says_received (rq_wrid q ! rq_pos q 0) c wc'"
    using 1(1) 2 c \<open>ps_cur st' = Some h\<close> by (simp add: mlx4_poll_one_def Let_def linorder_not_less [symmetric])
qed

section \<open>Polling a queue\<close>

definition cq_stepped :: "nat \<Rightarrow> comp_queue \<Rightarrow> comp_queue \<Rightarrow> bool" where
  "cq_stepped n cq cq' \<longleftrightarrow> cq_cqe cq' = cq_cqe cq \<and> cq_cqe_size cq' = cq_cqe_size cq \<and> cq_cons_index cq' = cq_cons_index cq + of_nat n"

lemma cq_stepped_trans: "cq_stepped m a b \<Longrightarrow> cq_stepped n b c \<Longrightarrow> cq_stepped (m + n) a c"
  by (simp add: cq_stepped_def add.assoc)

lemma cq_stepped_holds:
  "cq_stepped n cq cq' \<Longrightarrow> holds (cq'\<lparr>cq_buf := b\<rparr>) cs \<longleftrightarrow> holds (cq\<lparr>cq_buf := b, cq_cons_index := cq_cons_index cq + of_nat n\<rparr>) cs"
  by (rule holds_cong) (simp_all add: cq_stepped_def)

lemma holds_frame:
  "cq_buf cq' = cq_buf cq \<Longrightarrow> cq_stepped 0 cq cq' \<Longrightarrow> holds cq cs \<Longrightarrow> holds cq' cs"
  using holds_cong [of cq' cq cs] by (simp add: cq_stepped_def)

lemma poll_cq_idle:
  assumes "holds cq []"
  shows "\<exists>cq'. poll_cq_driver is_exp ts 1 [wc] cq cx = Inr (0, [wc], cq', cx) \<and> holds cq' [] \<and> cq_stepped 0 cq cq'"
proof -
  let ?cq = "cq\<lparr>cq_stall_next_poll := False\<rparr>"
  have "next_cqe_sw ?cq = Inr None" by (rule holds_Nil) (simp add: assms)
  then have "poll_one_driver is_exp ts wc \<lparr>ps_cq = ?cq, ps_cx = cx, ps_cur = None\<rparr> = Inr (CQ_EMPTY, wc, \<lparr>ps_cq = ?cq, ps_cx = cx, ps_cur = None\<rparr>)"
    by (simp add: poll_one_driver_def poll_start_def)
  then show ?thesis using assms by (simp add: poll_cq_driver_def Let_def cq_stepped_def)
qed

lemma poll_cq_recv:
  assumes "holds cq [c]" "own_receives cx h" "recv_entry (mq_num (cx_qps cx ! h)) c" "rq_inv (mq_rq (cx_qps cx ! h))" "q = mq_rq (cx_qps cx ! h)"
  shows "\<exists>wc' cq'. poll_cq_driver is_exp ts 1 [wc] cq cx = Inr (1, [wc'], cq', with_rq h (took q 1) cx) \<and>
    says_received (rq_wrid q ! rq_pos q 0) c wc' \<and> holds cq' [] \<and> cq_stepped 1 cq cq'"
proof -
  let ?st = "\<lparr>ps_cq = cq\<lparr>cq_stall_next_poll := False\<rparr>, ps_cx = cx, ps_cur = None\<rparr>"
  have "holds (ps_cq ?st) [c]" using assms(1) by simp
  from holds_Cons [OF this] obtain e where e: "next_cqe_sw (ps_cq ?st) = Inr (Some e)" "length e = 32" "body e = c"
      "holds ((ps_cq ?st)\<lparr>cq_cons_index := cq_cons_index (ps_cq ?st) + 1\<rparr>) []" by blast
  have "recv_entry (mq_num (cx_qps (ps_cx ?st) ! h)) e" using recv_entry_body assms(3) e(2,3) by simp
  from poll_one_recv(1) [OF e(1) _ this _ _ _ refl, of q is_exp ts wc] assms(2,4,5) obtain wc' where
    "poll_one_driver is_exp ts wc ?st = Inr (CQ_OK, wc', \<lparr>ps_cq = (ps_cq ?st)\<lparr>cq_cons_index := cq_cons_index (ps_cq ?st) + 1\<rparr>,
       ps_cx = with_rq h (took q 1) cx, ps_cur = Some h\<rparr>)" "says_received (rq_wrid q ! rq_pos q 0) e wc'" by auto
  moreover have "byte_cnt e = byte_cnt c" using body_fields(7) [OF e(2)] e(3) by simp
  ultimately show ?thesis
    using e(4) by (simp add: poll_cq_driver_def Let_def says_received_def) (simp add: cq_stepped_def mlx4_update_cons_index_def)
qed

lemma poll_cq_send:
  assumes "holds cq [c]" "in_table cx h" "q = mq_sq (cx_qps cx ! h)" "sq_inv q" "send_entry (mq_num (cx_qps cx ! h)) q c 0" "0 < outstanding q"
  shows "\<exists>wc' cq'. poll_cq_driver is_exp ts 1 [wc] cq cx = Inr (1, [wc'], cq', with_sq h (advanced q 1) cx) \<and>
    says_done (mq_num (cx_qps cx ! h)) (sq_wrid q ! sq_pos q 0) c wc' \<and> holds cq' [] \<and> cq_stepped 1 cq cq'"
proof -
  let ?st = "\<lparr>ps_cq = cq\<lparr>cq_stall_next_poll := False\<rparr>, ps_cx = cx, ps_cur = None\<rparr>"
  have "holds (ps_cq ?st) [c]" using assms(1) by simp
  from holds_Cons [OF this] obtain e where e: "next_cqe_sw (ps_cq ?st) = Inr (Some e)" "length e = 32" "body e = c"
      "holds ((ps_cq ?st)\<lparr>cq_cons_index := cq_cons_index (ps_cq ?st) + 1\<rparr>) []" by blast
  have cx: "ps_cx ?st = with_sq h (advanced q 0) cx"
  proof -
    have "x\<lparr>mq_sq := mq_sq x\<rparr> = x" for x :: mlx4_qp by simp
    then show ?thesis unfolding assms(3) by (simp add: with_sq_def upd_qp_def advanced_def)
  qed
  have ent: "send_entry (mq_num (cx_qps cx ! h)) q e 0"
    using assms(5) body_fields [OF e(2)] e(2,3) by (simp add: send_entry_def)
  from poll_one_send [OF e(1) ent assms(2) _ cx assms(4) le0 assms(6), of is_exp ts wc] obtain wc' where
    "poll_one_driver is_exp ts wc ?st = Inr (CQ_OK, wc', \<lparr>ps_cq = (ps_cq ?st)\<lparr>cq_cons_index := cq_cons_index (ps_cq ?st) + 1\<rparr>,
       ps_cx = with_sq h (advanced q (Suc 0)) cx, ps_cur = Some h\<rparr>)" "says_done (mq_num (cx_qps cx ! h)) (sq_wrid q ! sq_pos q 0) e wc'" by auto
  moreover have "cqe_is_error e = cqe_is_error c" using body_fields(5) [OF e(2)] e(3) by simp
  ultimately show ?thesis
    using e(4) by (simp add: poll_cq_driver_def Let_def says_done_def) (simp add: cq_stepped_def mlx4_update_cons_index_def)
qed

section \<open>The hidden queues\<close>

definition rings_quiet :: "split_link \<Rightarrow> bool" where
  "rings_quiet l \<longleftrightarrow> holds (sl_recv_cq l) [] \<and> holds (sl_cq2 l) []"

text \<open>The queues have moved on by \<open>n\<close> and \<open>n2\<close> entries, everything but the messages is as before.\<close>

definition link_frame :: "nat \<Rightarrow> nat \<Rightarrow> split_link \<Rightarrow> split_link \<Rightarrow> bool" where
  "link_frame n n2 l l' \<longleftrightarrow> sl_qp0 l' = sl_qp0 l \<and> sl_qp2 l' = sl_qp2 l \<and> sl_fc_addr l' = sl_fc_addr l \<and> sl_lkey l' = sl_lkey l \<and>
     cq_stepped n (sl_recv_cq l) (sl_recv_cq l') \<and> cq_stepped n2 (sl_cq2 l) (sl_cq2 l')"

lemma link_frame_trans: "link_frame m m2 a b \<Longrightarrow> link_frame n n2 b c \<Longrightarrow> link_frame (m + n) (m2 + n2) a c"
  unfolding link_frame_def using cq_stepped_trans by auto

lemma link_frame_refl: "link_frame 0 0 l l"
  by (simp add: link_frame_def cq_stepped_def)

lemma split_poll_idle:
  assumes "rings_quiet (ss_links s ! h)" "h < length (ss_links s)"
  shows "\<exists>l'. split_poll w h is_exp ts wc (replicate p [] @ d # ds) s =
      split_poll w h is_exp ts wc (d # ds) (s\<lparr>ss_links := (ss_links s)[h := l']\<rparr>) \<and>
    rings_quiet l' \<and> link_frame 0 0 (ss_links s ! h) l' \<and> sl_msg0 l' = sl_msg0 (ss_links s ! h) \<and> sl_msg3 l' = sl_msg3 (ss_links s ! h)"
  using assms
proof (induction p arbitrary: s)
  case 0
  then show ?case by (intro exI [of _ "ss_links s ! h"]) (simp add: link_frame_refl)
next
  case (Suc p)
  let ?l = "ss_links s ! h"
  have "holds (link_cq w ?l) []" using Suc.prems(1) by (cases w) (simp_all add: rings_quiet_def link_cq_def)
  from poll_cq_idle [OF this] obtain cq' where cq': "poll_cq_driver is_exp ts 1 [wc] (link_cq w ?l) (ss_cx s) = Inr (0, [wc], cq', ss_cx s)"
    "holds cq' []" "cq_stepped 0 (link_cq w ?l) cq'" by blast
  let ?l1 = "set_link_cq w cq' ?l"
  let ?s1 = "s\<lparr>ss_links := (ss_links s)[h := ?l1]\<rparr>"
  have l1: "rings_quiet ?l1" "link_frame 0 0 ?l ?l1" "sl_msg0 ?l1 = sl_msg0 ?l" "sl_msg3 ?l1 = sl_msg3 ?l"
    using Suc.prems(1) cq'(2,3) link_frame_refl [of ?l] by (cases w; simp add: rings_quiet_def set_link_cq_def link_cq_def link_frame_def)+
  have step: "split_poll w h is_exp ts wc (replicate (Suc p) [] @ d # ds) s = split_poll w h is_exp ts wc (replicate p [] @ d # ds) ?s1"
    using cq'(1) by (simp add: upd_link_def Let_def)
  obtain l' where "split_poll w h is_exp ts wc (replicate p [] @ d # ds) ?s1 =
      split_poll w h is_exp ts wc (d # ds) (?s1\<lparr>ss_links := (ss_links ?s1)[h := l']\<rparr>)"
    "rings_quiet l'" "link_frame 0 0 ?l1 l'" "sl_msg0 l' = sl_msg0 ?l1" "sl_msg3 l' = sl_msg3 ?l1"
    using Suc.IH [of ?s1] l1(1) Suc.prems(2) by auto
  then show ?case
    using step l1(2-4) link_frame_trans [of 0 0 ?l ?l1 0 0 l'] by (intro exI [of _ l']) simp
qed

text \<open>What the device does when a message arrives: the ring, and perhaps the contents of an INFO message.\<close>

fun arrival :: "u8 list list \<Rightarrow> (fc_type \<times> u32 \<times> u32) option \<Rightarrow> dev_event list" where
  "arrival b None = [Dev_ring Recv_cq b]"
| "arrival b (Some (t, n, c)) = [Dev_ring Recv_cq b, Dev_message t n c]"

lemma split_poll_recv:
  assumes "l = ss_links s ! h" "rings_quiet l" "h < length (ss_links s)" "holds ((sl_recv_cq l)\<lparr>cq_buf := b\<rparr>) [e]"
    and "own_receives (ss_cx s) i" "recv_entry (mq_num (cx_qps (ss_cx s) ! i)) e" "q = mq_rq (cx_qps (ss_cx s) ! i)" "rq_inv q"
  shows "\<exists>wc' l'. split_poll Recv_cq h is_exp ts wc (replicate p [] @ arrival b m # ds) s =
      Inr (wc', s\<lparr>ss_cx := with_rq i (took q 1) (ss_cx s), ss_links := (ss_links s)[h := l'], ss_device := ds\<rparr>) \<and>
    says_received (rq_wrid q ! rq_pos q 0) e wc' \<and> rings_quiet l' \<and> link_frame 1 0 l l' \<and>
    sl_msg0 l' = (case m of None \<Rightarrow> sl_msg0 l | Some x \<Rightarrow> x) \<and> sl_msg3 l' = sl_msg3 l"
proof -
  obtain l1 where l1: "split_poll Recv_cq h is_exp ts wc (replicate p [] @ arrival b m # ds) s =
      split_poll Recv_cq h is_exp ts wc (arrival b m # ds) (s\<lparr>ss_links := (ss_links s)[h := l1]\<rparr>)"
    "rings_quiet l1" "link_frame 0 0 l l1" "sl_msg0 l1 = sl_msg0 l" "sl_msg3 l1 = sl_msg3 l"
    using split_poll_idle [of s h Recv_cq is_exp ts wc p "arrival b m" ds] assms(1-3) by auto
  have "holds ((sl_recv_cq l1)\<lparr>cq_buf := b\<rparr>) [e]"
    using l1(3) assms(4) cq_stepped_holds [of 0 "sl_recv_cq l" "sl_recv_cq l1" b "[e]"] by (simp add: link_frame_def)
  from poll_cq_recv [OF this assms(5,6) _ refl, of is_exp ts wc] assms(7,8) obtain wc' cq' where
    p: "poll_cq_driver is_exp ts 1 [wc] ((sl_recv_cq l1)\<lparr>cq_buf := b\<rparr>) (ss_cx s) = Inr (1, [wc'], cq', with_rq i (took q 1) (ss_cx s))"
      "says_received (rq_wrid q ! rq_pos q 0) e wc'" "holds cq' []" "cq_stepped 1 (sl_recv_cq l1) cq'"
    by (auto simp: cq_stepped_def)
  define l2 where "l2 = (case m of None \<Rightarrow> l1 | Some x \<Rightarrow> l1\<lparr>sl_msg0 := x\<rparr>)\<lparr>sl_recv_cq := cq'\<rparr>"
  have "split_poll Recv_cq h is_exp ts wc (arrival b m # ds) (s\<lparr>ss_links := (ss_links s)[h := l1]\<rparr>) =
      Inr (wc', s\<lparr>ss_cx := with_rq i (took q 1) (ss_cx s), ss_links := (ss_links s)[h := l2], ss_device := ds\<rparr>)"
    using p(1) assms(3) by (cases m) (auto simp: upd_link_def set_link_cq_def link_cq_def Let_def l2_def)
  moreover have "rings_quiet l2" using l1(2) p(3) by (simp add: rings_quiet_def l2_def split: option.split)
  moreover have "link_frame 1 0 l1 l2" using p(4) link_frame_refl [of l1] by (simp add: link_frame_def l2_def split: option.split)
  moreover have "sl_msg0 l2 = (case m of None \<Rightarrow> sl_msg0 l | Some x \<Rightarrow> x)" "sl_msg3 l2 = sl_msg3 l"
    using l1(4,5) by (simp_all add: l2_def split: option.split)
  ultimately show ?thesis using l1(1) p(2) link_frame_trans [OF l1(3), of 1 0 l2] by auto
qed

text \<open>The acknowledgement's completion.\<close>

lemma split_poll_ack:
  assumes "l = ss_links s ! h" "rings_quiet l" "h < length (ss_links s)" "holds ((sl_cq2 l)\<lparr>cq_buf := b\<rparr>) [e]"
    and "in_table (ss_cx s) i" "q = mq_sq (cx_qps (ss_cx s) ! i)" "sq_inv q" "send_entry (mq_num (cx_qps (ss_cx s) ! i)) q e 0" "0 < outstanding q"
  shows "\<exists>wc' l'. split_poll Cq2 h is_exp ts wc (replicate p [] @ [Dev_ring Cq2 b] # ds) s =
      Inr (wc', s\<lparr>ss_cx := with_sq i (advanced q 1) (ss_cx s), ss_links := (ss_links s)[h := l'], ss_device := ds\<rparr>) \<and>
    rings_quiet l' \<and> link_frame 0 1 l l' \<and> sl_msg0 l' = sl_msg0 l \<and> sl_msg3 l' = sl_msg3 l"
proof -
  obtain l1 where l1: "split_poll Cq2 h is_exp ts wc (replicate p [] @ [Dev_ring Cq2 b] # ds) s =
      split_poll Cq2 h is_exp ts wc ([Dev_ring Cq2 b] # ds) (s\<lparr>ss_links := (ss_links s)[h := l1]\<rparr>)"
    "rings_quiet l1" "link_frame 0 0 l l1" "sl_msg0 l1 = sl_msg0 l" "sl_msg3 l1 = sl_msg3 l"
    using split_poll_idle [of s h Cq2 is_exp ts wc p "[Dev_ring Cq2 b]" ds] assms(1-3) by auto
  let ?cq = "(sl_cq2 l1)\<lparr>cq_buf := b\<rparr>"
  have "holds ?cq [e]"
    using l1(3) assms(4) cq_stepped_holds [of 0 "sl_cq2 l" "sl_cq2 l1" b "[e]"] by (simp add: link_frame_def)
  from poll_cq_send [OF this assms(5-9), of is_exp ts wc] obtain wc' cq' where
    p: "poll_cq_driver is_exp ts 1 [wc] ?cq (ss_cx s) = Inr (1, [wc'], cq', with_sq i (advanced q 1) (ss_cx s))" "holds cq' []"
      "cq_stepped 1 (sl_cq2 l1) cq'"
    by (auto simp: cq_stepped_def)
  define l2 where "l2 = l1\<lparr>sl_cq2 := cq'\<rparr>"
  have "split_poll Cq2 h is_exp ts wc ([Dev_ring Cq2 b] # ds) (s\<lparr>ss_links := (ss_links s)[h := l1]\<rparr>) =
      Inr (wc', s\<lparr>ss_cx := with_sq i (advanced q 1) (ss_cx s), ss_links := (ss_links s)[h := l2], ss_device := ds\<rparr>)"
    using p(1) assms(3) by (auto simp: upd_link_def set_link_cq_def link_cq_def Let_def l2_def)
  moreover have "rings_quiet l2" using l1(2) p(2) by (simp add: rings_quiet_def l2_def)
  moreover have "link_frame 0 1 l1 l2" using p(3) link_frame_refl [of l1] by (simp add: link_frame_def l2_def)
  moreover have "sl_msg0 l2 = sl_msg0 l" "sl_msg3 l2 = sl_msg3 l" using l1(4,5) by (simp_all add: l2_def)
  ultimately show ?thesis using l1(1) link_frame_trans [OF l1(3), of 0 1 l2] by auto
qed

section \<open>Receives for the chunks\<close>

text \<open>A queue that takes receives of one element, one that waits for a buffer, and one that got receives for more.\<close>

definition rq_ready :: "recv_queue \<Rightarrow> bool" where
  "rq_ready q \<longleftrightarrow> rq_inv q \<and> \<not> rq_ignore_overflow q \<and> 1 \<le> rq_max_gs q \<and> \<not> (rq_init q \<and> rq_exchange_done q = 0) \<and> rq_inlr q = None"

definition waits_for :: "recv_queue \<Rightarrow> nat \<Rightarrow> sge \<Rightarrow> bool" where
  "waits_for q a g \<longleftrightarrow> recv_says (rq_max_gs q) [g] (rq_slots q ! rq_pos q a)"

definition appended :: "sge list \<Rightarrow> recv_queue \<Rightarrow> recv_queue \<Rightarrow> bool" where
  "appended gs q q' \<longleftrightarrow> rq_ready q' \<and> rq_outstanding q' = rq_outstanding q + length gs \<and> rq_frame q q' \<and>
     rq_untouched {..<rq_outstanding q} q q' \<and> (\<forall>j<length gs. waits_for q' (rq_outstanding q + j) (gs ! j))"

lemma appended_Nil: "rq_ready q \<Longrightarrow> appended [] q q"
  by (simp add: appended_def rq_frame_def rq_untouched_def)

lemma waits_for_untouched:
  "rq_untouched A q q' \<Longrightarrow> rq_frame q q' \<Longrightarrow> a \<in> A \<Longrightarrow> waits_for q' a g = waits_for q a g"
  using rq_frameD [of q q'] by (simp add: waits_for_def rq_untouched_def rq_frame_def)

lemma appended_trans:
  assumes "appended gs q q'" "appended hs q' q''"
  shows "appended (gs @ hs) q q''"
proof -
  have a: "rq_outstanding q' = rq_outstanding q + length gs" "rq_frame q q'" "rq_untouched {..<rq_outstanding q} q q'"
    "\<And>j. j < length gs \<Longrightarrow> waits_for q' (rq_outstanding q + j) (gs ! j)"
    "rq_frame q' q''" "rq_untouched {..<rq_outstanding q'} q' q''" "\<And>j. j < length hs \<Longrightarrow> waits_for q'' (rq_outstanding q' + j) (hs ! j)"
    using assms by (auto simp: appended_def)
  have "rq_frame q q''" using a(2,5) by (simp add: rq_frame_def)
  moreover have "rq_untouched {..<rq_outstanding q} q q''"
    using a(1,3,6) rq_frameD [OF a(2)] by (auto simp: rq_untouched_def)
  moreover have "waits_for q'' (rq_outstanding q + j) ((gs @ hs) ! j)" if "j < length (gs @ hs)" for j
  proof (cases "j < length gs")
    case True
    then show ?thesis using a(4) waits_for_untouched [OF a(6,5), of "rq_outstanding q + j"] a(1) by (simp add: nth_append)
  next
    case False
    then show ?thesis using a(7) [of "j - length gs"] a(1) that by (simp add: nth_append)
  qed
  ultimately show ?thesis using assms by (simp add: appended_def)
qed

lemma recv_loop_inlr:
  "recv_loop m fuel c ind nreq q = Inr (r, n, q') \<Longrightarrow> rq_inlr q = None \<Longrightarrow> rq_inlr q' = None"
  by (induction m fuel c ind nreq q rule: recv_loop.induct) (auto simp: res_bind_eq_Inr split: if_splits)

lemma post_recv_one:
  assumes "rq_ready q" "rq_outstanding q < rq_max_post q"
  shows "\<exists>q'. mlx4_post_recv \<lparr>am_wr = (\<lambda>_. one_recv), am_sge = (\<lambda>_. g)\<rparr> True True 1 one_recv q = Inr (0, q') \<and> appended [g] q q'"
proof -
  let ?m = "\<lparr>am_wr = (\<lambda>_. one_recv), am_sge = (\<lambda>_. g)\<rparr>"
  have q: "rq_inv q" "\<not> rq_ignore_overflow q" "1 \<le> rq_max_gs q" "\<not> (rq_init q \<and> rq_exchange_done q = 0)" "rq_inlr q = None"
    using assms(1) by (simp_all add: rq_ready_def)
  have chain: "is_chain ?m (Some one_recv) [one_recv]" "\<forall>w\<in>set [one_recv]. rw_num_sge w \<le> rq_max_gs q" "length [one_recv] \<le> 1"
    using q(3) by (simp_all add: one_recv_def)
  have k: "1 = min (length [one_recv]) (rq_max_post q - rq_outstanding q)" using assms(2) by simp
  have rr: "(if rq_init q \<and> rq_exchange_done q = 0 then rr_buffer_enqueue True True one_recv (rq_rr q) else Inr (0, rq_rr q)) = Inr (0, rq_rr q)"
    using q(4) by auto
  obtain q' where q': "mlx4_post_recv ?m True True 1 one_recv q = Inr (0, q')" "rq_inv q'" "rq_outstanding q' = rq_outstanding q + 1"
      "rq_frame q q'" "rq_untouched {..<rq_outstanding q} q q'" "rq_posted_at ?m q' (rq_outstanding q) one_recv"
    using post_recv_ok [OF q(1,2) chain k rr] by auto
  have sges: "wr_sges ?m one_recv = [g]" by (simp add: wr_sges_def one_recv_def)
  have "rq_inlr q' = None"
    using q'(1) q(4,5) recv_loop_inlr
    by (auto simp: mlx4_post_recv_def res_bind_eq_Inr ring_recv_def Let_def split: if_splits)
  then have "rq_ready q'" using q'(2,4) q(2-4) by (simp add: rq_ready_def rq_frame_def)
  then show ?thesis
    using q'(1,3-6) rq_frameD [OF q'(4)] sges
    by (intro exI [of _ q']) (simp add: appended_def waits_for_def rq_posted_at_def)
qed

lemma split_post_recv_ok:
  assumes "i = sl_qp0 (ss_links s ! h)" "i < length (cx_qps (ss_cx s))" "q = mq_rq (cx_qps (ss_cx s) ! i)" "rq_ready q"
    "rq_outstanding q < rq_max_post q"
  shows "\<exists>q'. split_post_recv h g s = Inr (s\<lparr>ss_cx := with_rq i q' (ss_cx s)\<rparr>) \<and> appended [g] q q'"
  using post_recv_one [OF assms(4,5), of g] assms(1-3)
  by (auto simp: split_post_recv_def with_rq_def Let_def)

definition chunk_sges :: "u64 \<Rightarrow> u32 \<Rightarrow> u32 \<Rightarrow> nat \<Rightarrow> sge list" where
  "chunk_sges addr lkey chunk k = map (\<lambda>j. \<lparr>sg_addr = addr + of_nat (Suc j * unat chunk), sg_length = chunk, sg_lkey = lkey\<rparr>) [0..<k]"

lemma chunk_sges_Suc:
  "chunk_sges addr lkey chunk (Suc k) = \<lparr>sg_addr = addr + ucast chunk, sg_length = chunk, sg_lkey = lkey\<rparr> # chunk_sges (addr + ucast chunk) lkey chunk k"
proof -
  have "(of_nat (unat chunk) :: u64) = ucast chunk" by (simp add: word_unat_eq_iff unat_of_nat unsigned_ucast_eq)
  then show ?thesis
    unfolding chunk_sges_def upt_conv_Cons [OF zero_less_Suc] map_Suc_upt [symmetric] by (simp add: algebra_simps)
qed

lemma with_rq_same: "h < length (cx_qps cx) \<Longrightarrow> with_rq h (mq_rq (cx_qps cx ! h)) cx = cx"
  by (simp add: with_rq_def upd_qp_def)

lemma post_chunks_ok:
  assumes "i = sl_qp0 (ss_links s ! h)" "i < length (cx_qps (ss_cx s))" "q = mq_rq (cx_qps (ss_cx s) ! i)" "rq_ready q"
    "rq_outstanding q + k \<le> rq_max_post q"
  shows "\<exists>q'. post_chunks h lkey chunk k addr s = Inr (s\<lparr>ss_cx := with_rq i q' (ss_cx s)\<rparr>) \<and> appended (chunk_sges addr lkey chunk k) q q'"
  using assms
proof (induction k arbitrary: addr s q)
  case 0
  then show ?case using appended_Nil [of q] with_rq_same [of i "ss_cx s"] by (intro exI [of _ q]) (simp add: chunk_sges_def)
next
  case (Suc k)
  let ?g = "\<lparr>sg_addr = addr + ucast chunk, sg_length = chunk, sg_lkey = lkey\<rparr>"
  obtain q1 where q1: "split_post_recv h ?g s = Inr (s\<lparr>ss_cx := with_rq i q1 (ss_cx s)\<rparr>)" "appended [?g] q q1"
    using split_post_recv_ok [OF Suc.prems(1-4)] Suc.prems(5) by auto
  have "rq_ready q1" "rq_outstanding q1 + k \<le> rq_max_post q1"
    using q1(2) Suc.prems(5) by (simp_all add: appended_def rq_frame_def)
  then obtain q2 where "post_chunks h lkey chunk k (addr + ucast chunk) (s\<lparr>ss_cx := with_rq i q1 (ss_cx s)\<rparr>) = Inr (s\<lparr>ss_cx := with_rq i q2 (ss_cx s)\<rparr>)"
    "appended (chunk_sges (addr + ucast chunk) lkey chunk k) q1 q2"
    using Suc.IH [of "s\<lparr>ss_cx := with_rq i q1 (ss_cx s)\<rparr>" q1 "addr + ucast chunk"] Suc.prems(1,2) by auto
  then show ?case using q1 appended_trans [OF q1(2)] by (intro exI [of _ q2]) (auto simp: chunk_sges_Suc)
qed

section \<open>The acknowledgement and the chunks\<close>

text \<open>The tokens for which the process would wait come.\<close>

definition tokens_come :: "split_state \<Rightarrow> bool" where
  "tokens_come s \<longleftrightarrow> (ss_isSmall s = 0 \<and> ss_flow s \<longrightarrow> ss_waits s \<noteq> []) \<and>
     (ss_isSmall s = 2 \<and> ss_flow s \<longrightarrow> (\<exists>r. fetch_batches (ss_debit s) (ss_waits s) = Inr r))"

lemma tokens_come_simps [simp]:
  "tokens_come (s\<lparr>ss_cx := cx\<rparr>) = tokens_come s" "tokens_come (s\<lparr>ss_links := ls\<rparr>) = tokens_come s"
  "tokens_come (s\<lparr>ss_script := rs\<rparr>) = tokens_come s" "tokens_come (s\<lparr>ss_device := ds\<rparr>) = tokens_come s"
  by (simp_all add: tokens_come_def)

definition ack_ready :: "split_state \<Rightarrow> split_link \<Rightarrow> send_queue \<Rightarrow> bool" where
  "ack_ready s l q \<longleftrightarrow> sq_inv q \<and> \<not> sq_ignore_overflow q \<and> 1 \<le> sq_max_gs q \<and> outstanding q = 0 \<and> 0 < sq_max_post q \<and> tokens_come s"

lemma ack_conforming: "1 \<le> max_gs \<Longrightarrow> conforming mem qc max_gs (ack_wr l)"
  by (simp add: conforming_def ack_wr_def ordinary_ops_def macro_defs)

lemma split_ack_ok:
  assumes "l = ss_links s ! h" "h < length (ss_links s)" "i = sl_qp2 l" "i < length (cx_qps (ss_cx s))"
    "q = mq_sq (cx_qps (ss_cx s) ! i)" "ack_ready s l q"
  shows "\<exists>q' d ws. split_ack h s = Inr (s\<lparr>ss_links := (ss_links s)[h := l\<lparr>sl_msg3 := ACK\<rparr>], ss_cx := with_sq i q' (ss_cx s), ss_debit := d, ss_waits := ws\<rparr>) \<and>
    sq_inv q' \<and> sq_tail q' = sq_tail q \<and> outstanding q' = 1 \<and> posted_as (cx_mem (ss_cx s)) q' 0 (ack_wr l) \<and> same_limits q q'"
proof -
  have q: "sq_inv q" "\<not> sq_ignore_overflow q" "1 \<le> sq_max_gs q" "outstanding q = 0" "0 < sq_max_post q" "tokens_come s"
    using assms(6) by (simp_all add: ack_ready_def)
  have ack: "ack_wr (l\<lparr>sl_msg3 := ACK\<rparr>) = ack_wr l" by (simp add: ack_wr_def fc_sge_def)
  have "\<forall>w\<in>set [ack_wr l]. conforming (cx_mem (ss_cx s)) (sq_qc q) (sq_max_gs q) w" using ack_conforming q(3) by simp
  moreover have "ss_isSmall s = 0 \<and> ss_flow s \<longrightarrow> length [ack_wr l] \<le> length (ss_waits s)" using q(6) by (cases "ss_waits s") (simp_all add: tokens_come_def)
  moreover have "ss_isSmall s = 2 \<and> ss_flow s \<longrightarrow> (\<exists>r. fetch_batches (ss_debit s) (ss_waits s) = Inr r)" using q(6) by (simp add: tokens_come_def)
  moreover have "1 = min (length [ack_wr l]) (sq_max_post q - outstanding q)" using q(4,5) by simp
  ultimately obtain r where r: "post_send_driver (cx_mem (ss_cx s)) (ss_isSmall s) (ss_flow s) (ss_debit s) (ss_waits s) [ack_wr l] q = Inr r" "sq_inv (pr_queue r)"
      "sq_tail (pr_queue r) = sq_tail q" "outstanding (pr_queue r) = 1" "posted_as (cx_mem (ss_cx s)) (pr_queue r) 0 (ack_wr l)"
      "same_limits q (pr_queue r)"
    using post_send_driver_limits [OF q(1,2), of "[ack_wr l]" "cx_mem (ss_cx s)" "ss_isSmall s" "ss_flow s" "ss_waits s" "ss_debit s" 1] q(4) by auto
  show ?thesis
    using r assms(1-5) ack
    by (intro exI [of _ "pr_queue r"] exI [of _ "pr_debit r"] exI [of _ "pr_waits r"]) (simp add: split_ack_def upd_link_def with_sq_def Let_def)
qed

text \<open>What the device does for the chunks: some polls find nothing, then the chunk's entry is in the ring.\<close>

definition chunk_script :: "(nat \<times> u8 list list \<times> u8 list) list \<Rightarrow> dev_event list list" where
  "chunk_script rs = concat (map (\<lambda>(p, b, e). replicate p [] @ [arrival b None]) rs)"

definition chunks_arrive :: "u32 \<Rightarrow> comp_queue \<Rightarrow> nat \<Rightarrow> (nat \<times> u8 list list \<times> u8 list) list \<Rightarrow> bool" where
  "chunks_arrive num cq n rs \<longleftrightarrow> (\<forall>k<length rs. case rs ! k of (p, b, e) \<Rightarrow>
     holds (cq\<lparr>cq_buf := b, cq_cons_index := cq_cons_index cq + of_nat (n + k)\<rparr>) [e] \<and> recv_entry num e)"

definition entry_bytes :: "(nat \<times> u8 list list \<times> u8 list) list \<Rightarrow> int" where
  "entry_bytes rs = (\<Sum>(p, b, e)\<leftarrow>rs. uint (byte_cnt e))"

lemma chunks_arrive_Cons:
  "chunks_arrive num cq n ((p, b, e) # rs) \<longleftrightarrow> holds (cq\<lparr>cq_buf := b, cq_cons_index := cq_cons_index cq + of_nat n\<rparr>) [e] \<and> recv_entry num e \<and>
     chunks_arrive num cq (Suc n) rs"
  by (simp add: chunks_arrive_def All_less_Suc2 ac_simps)

lemma chunks_arrive_stepped:
  assumes "cq_stepped m cq cq'"
  shows "chunks_arrive num cq' n rs \<longleftrightarrow> chunks_arrive num cq (m + n) rs"
proof -
  have "holds (cq'\<lparr>cq_buf := b, cq_cons_index := cq_cons_index cq' + of_nat (n + k)\<rparr>) cs =
      holds (cq\<lparr>cq_buf := b, cq_cons_index := cq_cons_index cq + of_nat (m + n + k)\<rparr>) cs" for b k cs
    by (rule holds_cong) (use assms in \<open>simp_all add: cq_stepped_def\<close>)
  then show ?thesis unfolding chunks_arrive_def by presburger
qed

lemma poll_chunks_ok:
  assumes "l = ss_links s ! h" "rings_quiet l" "h < length (ss_links s)" "chunks_arrive num (sl_recv_cq l) 0 rs"
    and "own_receives (ss_cx s) i" "num = mq_num (cx_qps (ss_cx s) ! i)" "q = mq_rq (cx_qps (ss_cx s) ! i)" "rq_inv q" "length rs \<le> rq_outstanding q"
    and "ss_device s = chunk_script rs @ ds"
  shows "\<exists>l'. poll_chunks h is_exp ts (length rs) wc nb s = Inr (nb + entry_bytes rs,
      s\<lparr>ss_cx := with_rq i (took q (length rs)) (ss_cx s), ss_links := (ss_links s)[h := l'], ss_device := ds\<rparr>) \<and>
    rings_quiet l' \<and> link_frame (length rs) 0 l l' \<and> sl_msg0 l' = sl_msg0 l \<and> sl_msg3 l' = sl_msg3 l"
  using assms
proof (induction rs arbitrary: l s q wc nb)
  case Nil
  have i: "i < length (cx_qps (ss_cx s))" using Nil.prems(5) by (simp add: own_receives_def in_table_def)
  have "took q 0 = q" by (simp add: took_def)
  then show ?case
    using Nil.prems(1-3,7,10) with_rq_same [OF i] link_frame_refl [of l]
    by (intro exI [of _ l]) (simp add: entry_bytes_def chunk_script_def)
next
  case (Cons r rs)
  obtain p b e where r: "r = (p, b, e)" by (cases r)
  have h: "holds ((sl_recv_cq l)\<lparr>cq_buf := b\<rparr>) [e]" "recv_entry num e" "chunks_arrive num (sl_recv_cq l) 1 rs"
    using Cons.prems(4) by (auto simp: r chunks_arrive_Cons)
  have i: "i < length (cx_qps (ss_cx s))" using Cons.prems(5) by (simp add: own_receives_def in_table_def)
  have dev: "ss_device s = replicate p [] @ arrival b None # (chunk_script rs @ ds)"
    using Cons.prems(10) by (simp add: r chunk_script_def)
  obtain wc1 l1 where 1: "split_poll Recv_cq h is_exp ts wc (ss_device s) s =
      Inr (wc1, s\<lparr>ss_cx := with_rq i (took q 1) (ss_cx s), ss_links := (ss_links s)[h := l1], ss_device := chunk_script rs @ ds\<rparr>)"
    "says_received (rq_wrid q ! rq_pos q 0) e wc1" "rings_quiet l1" "link_frame 1 0 l l1" "sl_msg0 l1 = sl_msg0 l" "sl_msg3 l1 = sl_msg3 l"
    using split_poll_recv [OF Cons.prems(1-3) h(1) Cons.prems(5) _ Cons.prems(7,8), of is_exp ts wc p None "chunk_script rs @ ds"] h(2)
    unfolding dev Cons.prems(6) by auto
  let ?s = "s\<lparr>ss_cx := with_rq i (took q 1) (ss_cx s), ss_links := (ss_links s)[h := l1], ss_device := chunk_script rs @ ds\<rparr>"
  have out: "1 \<le> rq_outstanding q" using Cons.prems(9) by simp
  note tk = took_inv [OF Cons.prems(8) out]
  have "rq_inlr q = None" using Cons.prems(5,7) by (simp add: own_receives_def)
  then have own: "own_receives (ss_cx ?s) i" using own_receives_with_rq [OF Cons.prems(5)] by simp
  have arr: "chunks_arrive num (sl_recv_cq l1) 0 rs"
    using chunks_arrive_stepped [of 1 "sl_recv_cq l" "sl_recv_cq l1" num 0 rs] 1(4) h(3) by (simp add: link_frame_def)
  have num: "num = mq_num (cx_qps (ss_cx ?s) ! i)" "took q 1 = mq_rq (cx_qps (ss_cx ?s) ! i)" using Cons.prems(6) i by simp_all
  have l1: "l1 = ss_links ?s ! h" "h < length (ss_links ?s)" "length rs \<le> rq_outstanding (took q 1)" "ss_device ?s = chunk_script rs @ ds"
    using Cons.prems(3,9) tk(2) by simp_all
  obtain l2 where 2: "poll_chunks h is_exp ts (length rs) wc1 (nb + uint (wc_byte_len wc1)) ?s = Inr (nb + uint (wc_byte_len wc1) + entry_bytes rs,
      ?s\<lparr>ss_cx := with_rq i (took (took q 1) (length rs)) (ss_cx ?s), ss_links := (ss_links ?s)[h := l2], ss_device := ds\<rparr>)"
    "rings_quiet l2" "link_frame (length rs) 0 l1 l2" "sl_msg0 l2 = sl_msg0 l1" "sl_msg3 l2 = sl_msg3 l1"
    using Cons.IH [OF l1(1) 1(3) l1(2) arr own num tk(1) l1(3,4)] by blast
  have "uint (wc_byte_len wc1) + entry_bytes rs = entry_bytes (r # rs)"
    using 1(2) by (simp add: entry_bytes_def r says_received_def)
  then have "nb + uint (wc_byte_len wc1) + entry_bytes rs = nb + entry_bytes (r # rs)" by simp
  then show ?case
    using 1(1,5,6) 2 i link_frame_trans [OF 1(4) 2(3)] by (intro exI [of _ l2]) (simp add: took_took)
qed

end
