(* ===== verification/Split_Delivery.thy ===== *)
theory Split_Delivery
  imports Split_Receive_Proofs Shaper_Calls
begin

text \<open>
  A message split by SEND, from the sender's call to the receiver's completion: the whole call of the receiver, and its
  composition with what the sender posts.
\<close>

unbundle bit_operations_syntax

section \<open>The hidden queue pairs between messages\<close>

lemma with_sq_simps [simp]:
  "length (cx_qps (with_sq h q cx)) = length (cx_qps cx)" "cx_qp_table (with_sq h q cx) = cx_qp_table cx" "cx_mem (with_sq h q cx) = cx_mem cx"
  "h < length (cx_qps cx) \<Longrightarrow> cx_qps (with_sq h q cx) ! h = (cx_qps cx ! h)\<lparr>mq_sq := q\<rparr>"
  "h \<noteq> h' \<Longrightarrow> cx_qps (with_sq h q cx) ! h' = cx_qps cx ! h'"
  by (simp_all add: with_sq_def upd_qp_def)

lemma own_receives_with_sq: "own_receives cx h \<Longrightarrow> own_receives (with_sq h' q cx) h"
  by (cases "h' = h") (auto simp: own_receives_def in_table_def)

lemma in_table_with: "in_table cx h \<Longrightarrow> in_table (with_sq h' q cx) h" "in_table cx h \<Longrightarrow> in_table (with_rq h' r cx) h"
  by (cases "h' = h"; auto simp: in_table_def)+

text \<open>
  Between messages, one receive waits for the next INFO message, and nothing else is under way.
\<close>

definition recv_side_ready :: "mlx4_ctx \<Rightarrow> split_link \<Rightarrow> bool" where
  "recv_side_ready cx l \<longleftrightarrow> own_receives cx (sl_qp0 l) \<and> rq_ready (mq_rq (cx_qps cx ! sl_qp0 l)) \<and>
     rq_outstanding (mq_rq (cx_qps cx ! sl_qp0 l)) = 1 \<and> waits_for (mq_rq (cx_qps cx ! sl_qp0 l)) 0 (fc_sge 0 l)"

definition ack_side_ready :: "mlx4_ctx \<Rightarrow> split_link \<Rightarrow> bool" where
  "ack_side_ready cx l \<longleftrightarrow> in_table cx (sl_qp2 l) \<and> (let q = mq_sq (cx_qps cx ! sl_qp2 l) in
     sq_inv q \<and> \<not> sq_ignore_overflow q \<and> 1 \<le> sq_max_gs q \<and> outstanding q = 0 \<and> 0 < sq_max_post q)"

definition link_ready :: "mlx4_ctx \<Rightarrow> split_link \<Rightarrow> bool" where
  "link_ready cx l \<longleftrightarrow> rings_quiet l \<and> sl_qp0 l \<noteq> sl_qp2 l \<and> recv_side_ready cx l \<and> ack_side_ready cx l"

lemma waits_for_took: "\<lbrakk>rq_inv q; a \<le> rq_outstanding q\<rbrakk> \<Longrightarrow> waits_for (took q a) b g = waits_for q (a + b) g"
  by (simp add: waits_for_def took_inv)

lemma rq_ready_took: "\<lbrakk>rq_ready q; a \<le> rq_outstanding q\<rbrakk> \<Longrightarrow> rq_ready (took q a)"
  by (simp add: rq_ready_def took_inv)

text \<open>The phases up to the receive for the next INFO message.\<close>

definition posted_for :: "sge list \<Rightarrow> recv_queue \<Rightarrow> recv_queue \<Rightarrow> bool" where
  "posted_for gs q q' \<longleftrightarrow> rq_ready q' \<and> rq_outstanding q' = length gs \<and> rq_tail q' = rq_tail q + 1 \<and> rq_cnt q' = rq_cnt q \<and> (\<forall>j<length gs. waits_for q' j (gs ! j))"

lemma split_event_ok:
  assumes "ss_script s = 0 # rs" "l = ss_links s ! h" "rings_quiet l"
  shows "\<exists>l'. split_event w h s = Inr (True, s\<lparr>ss_script := rs, ss_links := (ss_links s)[h := l']\<rparr>) \<and> rings_quiet l' \<and> link_frame 0 0 l l' \<and>
    sl_msg0 l' = sl_msg0 l \<and> sl_msg3 l' = sl_msg3 l"
proof -
  let ?cq = "mlx4_arm_cq False (mlx4_cq_event (link_cq w l))"
  have "cq_stepped 0 (link_cq w l) ?cq" "cq_buf ?cq = cq_buf (link_cq w l)"
    by (simp_all add: mlx4_arm_cq_def mlx4_cq_event_def cq_stepped_def Let_def)
  moreover have "holds (link_cq w l) []" using assms(3) by (cases w) (simp_all add: rings_quiet_def link_cq_def)
  ultimately have h: "holds ?cq []" "cq_stepped 0 (link_cq w l) ?cq" using holds_frame by blast+
  have "rings_quiet (set_link_cq w ?cq l)" "link_frame 0 0 l (set_link_cq w ?cq l)" "sl_msg0 (set_link_cq w ?cq l) = sl_msg0 l"
    "sl_msg3 (set_link_cq w ?cq l) = sl_msg3 l"
    using assms(3) h link_frame_refl [of l] by (cases w; simp add: rings_quiet_def set_link_cq_def link_cq_def link_frame_def)+
  then show ?thesis
    using assms(1,2) by (intro exI [of _ "set_link_cq w ?cq l"]) (simp add: split_event_def upd_link_def)
qed

lemma posted_for_info:
  assumes "rq_ready q" "rq_outstanding q = 1" "k + 1 \<le> rq_max_post q" "appended (chunk_sges addr lkey chunk k) (took q 1) q1" "appended [g] q1 q2"
  shows "posted_for (chunk_sges addr lkey chunk k @ [g]) q q2"
proof -
  have inv: "rq_inv q" "1 \<le> rq_outstanding q" using assms(1,2) by (simp_all add: rq_ready_def)
  note tk = took_inv [OF inv]
  have out: "rq_outstanding (took q 1) = 0" using tk(2) assms(2) by simp
  from appended_trans [OF assms(4,5)] have "appended (chunk_sges addr lkey chunk k @ [g]) (took q 1) q2" .
  then show ?thesis unfolding appended_def out posted_for_def by (simp add: rq_frame_def) (simp add: took_def)
qed

lemma recv_split_info:
  assumes "l = ss_links s ! h" "h < length (ss_links s)" "link_ready (ss_cx s) l" "ss_script s = 0 # rs"
    and "ss_device s = replicate p [] @ arrival b (Some (INFO, n, chunk)) # ds" "i = sl_qp0 l" "q = mq_rq (cx_qps (ss_cx s) ! i)"
    and "holds ((sl_recv_cq l)\<lparr>cq_buf := b\<rparr>) [e]" "recv_entry (mq_num (cx_qps (ss_cx s) ! i)) e"
    and "scat_base sc (ss_cx s) = Inr (addr, lkey)" "fst sc \<noteq> i" "unat n + 1 \<le> rq_max_post q"
  shows "\<exists>s1 l1 q1 wc1. recv_split h sc is_exp ts first wc s = split_chunks_phase h is_exp ts first (unat n) wc1 s1 \<and>
    ss_cx s1 = with_rq i q1 (ss_cx s) \<and> ss_links s1 = (ss_links s)[h := l1] \<and> ss_device s1 = ds \<and> ss_script s1 = rs \<and>
    tokens_come s1 = tokens_come s \<and> rings_quiet l1 \<and> link_frame 1 0 l l1 \<and>
    posted_for (chunk_sges addr lkey chunk (unat n) @ [fc_sge 0 l]) q q1"
proof -
  have rdy: "rings_quiet l" "own_receives (ss_cx s) i" "rq_ready q" "rq_outstanding q = 1" "rq_inv q"
    using assms(3,6,7) by (simp_all add: link_ready_def recv_side_ready_def rq_ready_def)
  have i: "i < length (cx_qps (ss_cx s))" using rdy(2) by (simp add: own_receives_def in_table_def)
  obtain l1 where 1: "split_event Recv_cq h s = Inr (True, s\<lparr>ss_script := rs, ss_links := (ss_links s)[h := l1]\<rparr>)" "rings_quiet l1" "link_frame 0 0 l l1"
    using split_event_ok [OF assms(4,1) rdy(1)] by blast
  let ?s1 = "s\<lparr>ss_script := rs, ss_links := (ss_links s)[h := l1]\<rparr>"
  have l1: "l1 = ss_links ?s1 ! h" "h < length (ss_links ?s1)" using assms(2) by simp_all
  have ring: "holds ((sl_recv_cq l1)\<lparr>cq_buf := b\<rparr>) [e]"
    using 1(3) assms(8) cq_stepped_holds [of 0 "sl_recv_cq l" "sl_recv_cq l1" b "[e]"] by (simp add: link_frame_def)
  have own: "own_receives (ss_cx ?s1) i" "recv_entry (mq_num (cx_qps (ss_cx ?s1) ! i)) e" "q = mq_rq (cx_qps (ss_cx ?s1) ! i)"
    using rdy(2) assms(7,9) by simp_all
  obtain wc1 l2 where 2: "split_poll Recv_cq h is_exp ts wc (replicate p [] @ arrival b (Some (INFO, n, chunk)) # ds) ?s1 =
      Inr (wc1, ?s1\<lparr>ss_cx := with_rq i (took q 1) (ss_cx ?s1), ss_links := (ss_links ?s1)[h := l2], ss_device := ds\<rparr>)"
    "rings_quiet l2" "link_frame 1 0 l1 l2" "sl_msg0 l2 = (INFO, n, chunk)"
    using split_poll_recv [OF l1(1) 1(2) l1(2) ring own rdy(5), of is_exp ts wc p "Some (INFO, n, chunk)" ds] by auto
  let ?s2 = "?s1\<lparr>ss_cx := with_rq i (took q 1) (ss_cx ?s1), ss_links := (ss_links ?s1)[h := l2], ss_device := ds\<rparr>"
  have fr: "link_frame 1 0 l l2" using link_frame_trans [OF 1(3) 2(3)] by simp
  have l2: "ss_links ?s2 ! h = l2" "sl_qp0 (ss_links ?s2 ! h) = i" "fc_sge 0 (ss_links ?s2 ! h) = fc_sge 0 l"
    using assms(2,6) fr by (simp_all add: link_frame_def fc_sge_def)
  have scat: "scat_base sc (ss_cx ?s2) = Inr (addr, lkey)"
  proof -
    have "arr_get (cx_qps (with_rq i (took q 1) (ss_cx s))) (fst sc) = arr_get (cx_qps (ss_cx s)) (fst sc)"
      using assms(11) by (simp add: arr_get_def)
    then show ?thesis using assms(10) by (simp add: scat_base_def)
  qed
  have out: "rq_outstanding (took q 1) = 0" "rq_max_post (took q 1) = rq_max_post q" "rq_ready (took q 1)"
    using took_inv [OF rdy(5), of 1] rq_ready_took [OF rdy(3), of 1] rdy(4) by simp_all
  have q2: "took q 1 = mq_rq (cx_qps (ss_cx ?s2) ! i)" "i < length (cx_qps (ss_cx ?s2))" using i by simp_all
  obtain q3 where 3: "post_chunks h lkey chunk (unat n) addr ?s2 = Inr (?s2\<lparr>ss_cx := with_rq i q3 (ss_cx ?s2)\<rparr>)"
      "appended (chunk_sges addr lkey chunk (unat n)) (took q 1) q3"
    using post_chunks_ok [OF l2(2) [symmetric] q2(2,1) out(3), of "unat n" lkey chunk addr] out(1,2) assms(12) by auto
  let ?s3 = "?s2\<lparr>ss_cx := with_rq i q3 (ss_cx ?s2)\<rparr>"
  have q3: "rq_ready q3" "rq_outstanding q3 < rq_max_post q3" "q3 = mq_rq (cx_qps (ss_cx ?s3) ! i)" "i < length (cx_qps (ss_cx ?s3))"
    "i = sl_qp0 (ss_links ?s3 ! h)"
    using 3(2) out(1,2) assms(12) i l2(2) by (simp_all add: appended_def rq_frame_def chunk_sges_def)
  obtain q4 where 4: "split_post_recv h (fc_sge 0 l) ?s3 = Inr (?s3\<lparr>ss_cx := with_rq i q4 (ss_cx ?s3)\<rparr>)" "appended [fc_sge 0 l] q3 q4"
    using split_post_recv_ok [OF q3(5,4,3,1,2)] by blast
  let ?s4 = "?s3\<lparr>ss_cx := with_rq i q4 (ss_cx ?s3)\<rparr>"
  have fc: "fc_sge 0 (ss_links ?s3 ! h) = fc_sge 0 l" using l2(3) by simp
  have msg: "sl_msg0 (ss_links ?s2 ! h) = (INFO, n, chunk)" using l2(1) 2(4) by simp
  have "ss_device ?s1 = replicate p [] @ arrival b (Some (INFO, n, chunk)) # ds" using assms(5) by simp
  then have "recv_split h sc is_exp ts first wc s = split_chunks_phase h is_exp ts first (unat n) wc1 ?s4"
    by (simp only: recv_split_def 1(1) 2(1) msg scat 3(1) fc 4(1) res_bind_simps prod.case simp_thms if_False if_True)
  moreover have "posted_for (chunk_sges addr lkey chunk (unat n) @ [fc_sge 0 l]) q q4"
    by (rule posted_for_info [OF rdy(3,4) assms(12) 3(2) 4(2)])
  ultimately show ?thesis
    using 2(2) fr i
    by (intro exI [of _ ?s4] exI [of _ l2] exI [of _ q4] exI [of _ wc1]) simp
qed

text \<open>The acknowledgement and the chunks behind it.\<close>

lemma chunks_phase_ok:
  assumes "l = ss_links s ! h" "h < length (ss_links s)" "rings_quiet l" "sl_qp0 l \<noteq> sl_qp2 l" "ack_side_ready (ss_cx s) l"
    and "ss_script s = 0 # 0 # rs" "ss_device s = replicate p [] @ [Dev_ring Cq2 b] # chunk_script ch @ ds" "tokens_come s"
    and "holds ((sl_cq2 l)\<lparr>cq_buf := b\<rparr>) [e]" "send_entry (mq_num (cx_qps (ss_cx s) ! sl_qp2 l)) (mq_sq (cx_qps (ss_cx s) ! sl_qp2 l)) e 0"
    and "own_receives (ss_cx s) (sl_qp0 l)" "q = mq_rq (cx_qps (ss_cx s) ! sl_qp0 l)" "rq_inv q" "length ch \<le> rq_outstanding q"
    and "chunks_arrive (mq_num (cx_qps (ss_cx s) ! sl_qp0 l)) (sl_recv_cq l) 0 ch" "ch \<noteq> []"
  shows "\<exists>s1 l1. split_chunks_phase h is_exp ts first (length ch) wc s = Inr (Inr (uint first + entry_bytes ch), s1) \<and>
    ss_links s1 = (ss_links s)[h := l1] \<and> ss_device s1 = ds \<and> ss_script s1 = rs \<and> rings_quiet l1 \<and> link_frame (length ch) 1 l l1 \<and> sl_msg3 l1 = ACK \<and>
    own_receives (ss_cx s1) (sl_qp0 l) \<and> mq_rq (cx_qps (ss_cx s1) ! sl_qp0 l) = took q (length ch) \<and> ack_side_ready (ss_cx s1) l1 \<and>
    (\<forall>x. x \<noteq> sl_qp0 l \<longrightarrow> x \<noteq> sl_qp2 l \<longrightarrow> cx_qps (ss_cx s1) ! x = cx_qps (ss_cx s) ! x)"
proof -
  let ?i = "sl_qp0 l" and ?i2 = "sl_qp2 l"
  define q2 where "q2 = mq_sq (cx_qps (ss_cx s) ! ?i2)"
  have tab: "in_table (ss_cx s) ?i2" using assms(5) by (simp add: ack_side_ready_def Let_def)
  then have i2: "?i2 < length (cx_qps (ss_cx s))" by (simp add: in_table_def)
  have i: "?i < length (cx_qps (ss_cx s))" using assms(11) by (simp add: own_receives_def in_table_def)
  have ar: "ack_ready s l q2" using assms(5,8) by (simp add: ack_side_ready_def ack_ready_def Let_def q2_def)
  obtain q3 d ws where 1: "split_ack h s = Inr (s\<lparr>ss_links := (ss_links s)[h := l\<lparr>sl_msg3 := ACK\<rparr>], ss_cx := with_sq ?i2 q3 (ss_cx s), ss_debit := d, ss_waits := ws\<rparr>)"
      "sq_inv q3" "sq_tail q3 = sq_tail q2" "outstanding q3 = 1" "same_limits q2 q3"
    using split_ack_ok [OF assms(1,2) refl i2 q2_def ar] by blast
  let ?s1 = "s\<lparr>ss_links := (ss_links s)[h := l\<lparr>sl_msg3 := ACK\<rparr>], ss_cx := with_sq ?i2 q3 (ss_cx s), ss_debit := d, ss_waits := ws\<rparr>"
  have "ss_script ?s1 = 0 # 0 # rs" "l\<lparr>sl_msg3 := ACK\<rparr> = ss_links ?s1 ! h" "rings_quiet (l\<lparr>sl_msg3 := ACK\<rparr>)"
    using assms(2,3,6) by (simp_all add: rings_quiet_def)
  from split_event_ok [OF this, of Cq2] obtain l2 where
    2: "split_event Cq2 h ?s1 = Inr (True, ?s1\<lparr>ss_script := 0 # rs, ss_links := (ss_links ?s1)[h := l2]\<rparr>)" "rings_quiet l2"
      "link_frame 0 0 l l2" "sl_msg3 l2 = ACK"
    by (auto simp: link_frame_def)
  let ?s2 = "?s1\<lparr>ss_script := 0 # rs, ss_links := (ss_links ?s1)[h := l2]\<rparr>"
  have l2: "l2 = ss_links ?s2 ! h" "h < length (ss_links ?s2)" using assms(2) by simp_all
  have ring: "holds ((sl_cq2 l2)\<lparr>cq_buf := b\<rparr>) [e]"
    using 2(3) assms(9) cq_stepped_holds [of 0 "sl_cq2 l" "sl_cq2 l2" b "[e]"] by (simp add: link_frame_def)
  have tab2: "in_table (ss_cx ?s2) ?i2" using tab in_table_with(1) by simp
  have q3: "q3 = mq_sq (cx_qps (ss_cx ?s2) ! ?i2)" using i2 by simp
  have ent: "send_entry (mq_num (cx_qps (ss_cx ?s2) ! ?i2)) q3 e 0" "0 < outstanding q3"
    using assms(10) 1(3,4) i2 by (simp_all add: send_entry_def q2_def)
  obtain wc3 l3 where 3: "split_poll Cq2 h is_exp ts wc (replicate p [] @ [Dev_ring Cq2 b] # (chunk_script ch @ ds)) ?s2 =
      Inr (wc3, ?s2\<lparr>ss_cx := with_sq ?i2 (advanced q3 1) (ss_cx ?s2), ss_links := (ss_links ?s2)[h := l3], ss_device := chunk_script ch @ ds\<rparr>)"
    "rings_quiet l3" "link_frame 0 1 l2 l3" "sl_msg3 l3 = ACK"
    using split_poll_ack [OF l2(1) 2(2) l2(2) ring tab2 q3 1(2) ent, of is_exp ts wc p "chunk_script ch @ ds"] 2(4) by auto
  let ?s3 = "?s2\<lparr>ss_cx := with_sq ?i2 (advanced q3 1) (ss_cx ?s2), ss_links := (ss_links ?s2)[h := l3], ss_device := chunk_script ch @ ds\<rparr>"
  have "ss_device ?s2 = replicate p [] @ [Dev_ring Cq2 b] # (chunk_script ch @ ds)" using assms(7) by simp
  then have ack: "split_ack_phase h is_exp ts wc s = Inr (Inr wc3, ?s3)"
    by (simp only: split_ack_phase_def 1(1) 2(1) 3(1) res_bind_simps prod.case simp_thms if_False)
  have "ss_script ?s3 = 0 # rs" "l3 = ss_links ?s3 ! h" using l2(2) by simp_all
  from split_event_ok [OF this 3(2), of Recv_cq] obtain l4 where
    4: "split_event Recv_cq h ?s3 = Inr (True, ?s3\<lparr>ss_script := rs, ss_links := (ss_links ?s3)[h := l4]\<rparr>)" "rings_quiet l4"
      "link_frame 0 0 l3 l4" "sl_msg3 l4 = ACK"
    using 3(4) by auto
  let ?s4 = "?s3\<lparr>ss_script := rs, ss_links := (ss_links ?s3)[h := l4]\<rparr>"
  have fr: "link_frame 0 1 l l4" using link_frame_trans [OF 2(3) link_frame_trans [OF 3(3) 4(3)]] by simp
  have l4: "l4 = ss_links ?s4 ! h" "h < length (ss_links ?s4)" using assms(2) by simp_all
  have arr: "chunks_arrive (mq_num (cx_qps (ss_cx s) ! ?i)) (sl_recv_cq l4) 0 ch"
    using chunks_arrive_stepped [of 0 "sl_recv_cq l" "sl_recv_cq l4" _ 0 ch] fr assms(15) by (simp add: link_frame_def)
  have own: "own_receives (ss_cx ?s4) ?i" "mq_num (cx_qps (ss_cx s) ! ?i) = mq_num (cx_qps (ss_cx ?s4) ! ?i)" "q = mq_rq (cx_qps (ss_cx ?s4) ! ?i)"
    using assms(4,11,12) own_receives_with_sq by simp_all
  have dev: "ss_device ?s4 = chunk_script ch @ ds" by simp
  obtain l5 where 5: "poll_chunks h is_exp ts (length ch) wc3 (uint first) ?s4 = Inr (uint first + entry_bytes ch,
      ?s4\<lparr>ss_cx := with_rq ?i (took q (length ch)) (ss_cx ?s4), ss_links := (ss_links ?s4)[h := l5], ss_device := ds\<rparr>)"
    "rings_quiet l5" "link_frame (length ch) 0 l4 l5" "sl_msg3 l5 = ACK"
    using poll_chunks_ok [OF l4(1) 4(2) l4(2) arr own assms(13,14) dev, of is_exp ts wc3 "uint first"] 4(4) by auto
  let ?s5 = "?s4\<lparr>ss_cx := with_rq ?i (took q (length ch)) (ss_cx ?s4), ss_links := (ss_links ?s4)[h := l5], ss_device := ds\<rparr>"
  have fr5: "link_frame (length ch) 1 l l5" using link_frame_trans [OF fr 5(3)] by simp
  have run: "split_chunks_phase h is_exp ts first (length ch) wc s = Inr (Inr (uint first + entry_bytes ch), ?s5)"
    using assms(16) by (simp only: split_chunks_phase_def ack 4(1) 5(1) res_bind_simps prod.case sum.case simp_thms if_False length_0_conv)
  have adv: "sq_inv (advanced q3 1)" "outstanding (advanced q3 1) = 0" using advanced_inv [OF 1(2), of 1] 1(4) by simp_all
  have "own_receives (ss_cx ?s5) ?i"
    using own_receives_with_rq [OF own(1), of ?i "took q (length ch)"] own by (simp add: own_receives_def)
  moreover have "ack_side_ready (ss_cx ?s5) l5"
  proof -
    have "sl_qp2 l5 = ?i2" using fr5 by (simp add: link_frame_def)
    moreover have "in_table (ss_cx ?s5) ?i2" using tab in_table_with by simp
    moreover have "mq_sq (cx_qps (ss_cx ?s5) ! ?i2) = advanced q3 1" using i2 assms(4) by simp
    moreover have "\<not> sq_ignore_overflow (advanced q3 1) \<and> 1 \<le> sq_max_gs (advanced q3 1) \<and> 0 < sq_max_post (advanced q3 1)"
      using ar 1(5) by (simp add: ack_ready_def same_limits_def advanced_def)
    ultimately show ?thesis using adv by (simp add: ack_side_ready_def Let_def)
  qed
  ultimately show ?thesis
    using run 5(2,4) fr5 i assms(4) by (intro exI [of _ ?s5] exI [of _ l5]) simp
qed

section \<open>The whole call\<close>

text \<open>
  What the device does during a call that receives a message of \<open>n\<close> chunks more: the INFO message, the completion of the
  acknowledgement, the chunks; each with a number of polls that find nothing, the ring, and the entry in it.
\<close>

type_synonym ring_entry = "nat \<times> u8 list list \<times> u8 list"

definition message_arrives :: "mlx4_ctx \<Rightarrow> split_link \<Rightarrow> u32 \<Rightarrow> u32 \<Rightarrow> ring_entry \<Rightarrow> ring_entry \<Rightarrow> ring_entry list \<Rightarrow> dev_event list list \<Rightarrow> bool" where
  "message_arrives cx l n chunk info ack ch dev \<longleftrightarrow> (case (info, ack) of ((p, b, e), (p2, b2, e2)) \<Rightarrow>
     let num0 = mq_num (cx_qps cx ! sl_qp0 l); num2 = mq_num (cx_qps cx ! sl_qp2 l) in
     dev = replicate p [] @ arrival b (Some (INFO, n, chunk)) # (if n = 0 then [] else replicate p2 [] @ [Dev_ring Cq2 b2] # chunk_script ch) \<and>
     holds ((sl_recv_cq l)\<lparr>cq_buf := b\<rparr>) [e] \<and> recv_entry num0 e \<and> length ch = unat n \<and> chunks_arrive num0 (sl_recv_cq l) 1 ch \<and>
     (n \<noteq> 0 \<longrightarrow> holds ((sl_cq2 l)\<lparr>cq_buf := b2\<rparr>) [e2] \<and> send_entry num2 (mq_sq (cx_qps cx ! sl_qp2 l)) e2 0))"

lemma recv_split_ok:
  assumes "l = ss_links s ! h" "h < length (ss_links s)" "link_ready (ss_cx s) l" "i = sl_qp0 l" "q = mq_rq (cx_qps (ss_cx s) ! i)"
    and "message_arrives (ss_cx s) l n chunk info ack ch (ss_device s)" "ss_script s = (if n = 0 then [0] else [0, 0, 0])"
    and "tokens_come s" "scat_base sc (ss_cx s) = Inr (addr, lkey)" "fst sc \<noteq> i" "unat n + 1 \<le> rq_max_post q"
  shows "\<exists>s1 l1 q1. recv_split h sc is_exp ts first wc s = Inr (Inr (uint first + entry_bytes ch), s1) \<and> ss_links s1 = (ss_links s)[h := l1] \<and>
    link_ready (ss_cx s1) l1 \<and> posted_for (chunk_sges addr lkey chunk (unat n) @ [fc_sge 0 l]) q q1 \<and>
    mq_rq (cx_qps (ss_cx s1) ! i) = took q1 (unat n) \<and> link_frame (unat n + 1) (if n = 0 then 0 else 1) l l1 \<and>
    (\<forall>x. x \<noteq> i \<longrightarrow> x \<noteq> sl_qp2 l \<longrightarrow> cx_qps (ss_cx s1) ! x = cx_qps (ss_cx s) ! x)"
proof -
  obtain p b e where info: "info = (p, b, e)" by (cases info)
  obtain p2 b2 e2 where ack: "ack = (p2, b2, e2)" by (cases ack)
  let ?rest = "if n = 0 then [] else replicate p2 [] @ [Dev_ring Cq2 b2] # chunk_script ch"
  have arr: "ss_device s = replicate p [] @ arrival b (Some (INFO, n, chunk)) # ?rest" "holds ((sl_recv_cq l)\<lparr>cq_buf := b\<rparr>) [e]"
    "recv_entry (mq_num (cx_qps (ss_cx s) ! i)) e" "length ch = unat n" "chunks_arrive (mq_num (cx_qps (ss_cx s) ! i)) (sl_recv_cq l) 1 ch"
    "n \<noteq> 0 \<Longrightarrow> holds ((sl_cq2 l)\<lparr>cq_buf := b2\<rparr>) [e2] \<and> send_entry (mq_num (cx_qps (ss_cx s) ! sl_qp2 l)) (mq_sq (cx_qps (ss_cx s) ! sl_qp2 l)) e2 0"
    using assms(4,6) by (auto simp: message_arrives_def info ack Let_def)
  have rdy: "sl_qp0 l \<noteq> sl_qp2 l" "own_receives (ss_cx s) i" "ack_side_ready (ss_cx s) l" "rq_outstanding q = 1" "rq_inv q"
    using assms(3-5) by (simp_all add: link_ready_def recv_side_ready_def rq_ready_def)
  have i: "i < length (cx_qps (ss_cx s))" using rdy(2) by (simp add: own_receives_def in_table_def)
  have scr: "ss_script s = 0 # (if n = 0 then [] else [0, 0])" using assms(7) by simp
  obtain s1 l1 q1 wc1 where 1: "recv_split h sc is_exp ts first wc s = split_chunks_phase h is_exp ts first (unat n) wc1 s1"
    "ss_cx s1 = with_rq i q1 (ss_cx s)" "ss_links s1 = (ss_links s)[h := l1]" "ss_device s1 = ?rest" "ss_script s1 = (if n = 0 then [] else [0, 0])"
    "tokens_come s1 = tokens_come s" "rings_quiet l1" "link_frame 1 0 l l1"
    "posted_for (chunk_sges addr lkey chunk (unat n) @ [fc_sge 0 l]) q q1"
    using recv_split_info [OF assms(1-3) scr arr(1) assms(4,5) arr(2,3) assms(9-11), of is_exp ts first wc] by blast
  have q1: "rq_ready q1" "rq_outstanding q1 = unat n + 1" "rq_inv q1" "waits_for q1 (unat n) (fc_sge 0 l)"
  proof -
    have len: "length (chunk_sges addr lkey chunk (unat n)) = unat n" by (simp add: chunk_sges_def)
    show "rq_ready q1" "rq_outstanding q1 = unat n + 1" "rq_inv q1" using 1(9) by (simp_all add: posted_for_def len rq_ready_def)
    have "unat n < length (chunk_sges addr lkey chunk (unat n) @ [fc_sge 0 l])" by (simp add: len)
    then have "waits_for q1 (unat n) ((chunk_sges addr lkey chunk (unat n) @ [fc_sge 0 l]) ! unat n)" using 1(9) unfolding posted_for_def by blast
    then show "waits_for q1 (unat n) (fc_sge 0 l)" by (simp add: len nth_append)
  qed
  have l1: "sl_qp0 l1 = i" "sl_qp2 l1 = sl_qp2 l" "fc_sge 0 l1 = fc_sge 0 l" "cq_stepped 1 (sl_recv_cq l) (sl_recv_cq l1)" "cq_stepped 0 (sl_cq2 l) (sl_cq2 l1)"
    using 1(8) assms(4) by (simp_all add: link_frame_def fc_sge_def)
  have own1: "own_receives (ss_cx s1) i" unfolding 1(2) by (rule own_receives_with_rq [OF rdy(2)]) (use q1(1) in \<open>simp add: rq_ready_def\<close>)
  have ack1: "ack_side_ready (ss_cx s1) l1"
  proof -
    have "cx_qps (ss_cx s1) ! sl_qp2 l = cx_qps (ss_cx s) ! sl_qp2 l" using rdy(1) assms(4) by (simp add: 1(2))
    moreover have "in_table (ss_cx s1) (sl_qp2 l)" unfolding 1(2) using rdy(3) in_table_with(2) by (simp add: ack_side_ready_def Let_def)
    ultimately show ?thesis using rdy(3) by (simp add: ack_side_ready_def l1(2) Let_def)
  qed
  note tk = took_inv [OF q1(3), of "unat n"]
  have side: "rq_ready (took q1 (unat n))" "rq_outstanding (took q1 (unat n)) = 1" "waits_for (took q1 (unat n)) 0 (fc_sge 0 l)"
    using rq_ready_took [OF q1(1), of "unat n"] tk(2) waits_for_took [OF q1(3), of "unat n" 0] q1(2,4) by simp_all
  have recv_ready: "recv_side_ready cx l'" if "own_receives cx i" "mq_rq (cx_qps cx ! i) = took q1 (unat n)" "link_frame a a2 l l'" for cx l' a a2
    using that side assms(4) by (simp add: recv_side_ready_def link_frame_def fc_sge_def)
  show ?thesis
  proof (cases "n = 0")
    case True
    have "took q1 0 = q1" by (simp add: took_def)
    then have rq: "mq_rq (cx_qps (ss_cx s1) ! i) = took q1 (unat n)" using True i 1(2) by simp
    have "link_ready (ss_cx s1) l1"
      using 1(7) rdy(1) l1(1,2) assms(4) recv_ready [OF own1 rq 1(8)] ack1 by (simp add: link_ready_def)
    moreover have "recv_split h sc is_exp ts first wc s = Inr (Inr (uint first + entry_bytes ch), s1)"
      using 1(1) True arr(4) by (simp add: split_chunks_phase_def entry_bytes_def)
    ultimately show ?thesis using 1(2,3,8,9) rq True by (intro exI [of _ s1] exI [of _ l1] exI [of _ q1]) simp
  next
    case False
    then have ch: "ch \<noteq> []" using arr(4) by (auto simp: unat_eq_0)
    have links: "l1 = ss_links s1 ! h" "h < length (ss_links s1)" "sl_qp0 l1 \<noteq> sl_qp2 l1" using 1(3) assms(2,4) rdy(1) l1(1,2) by simp_all
    have dev: "ss_script s1 = 0 # 0 # []" "ss_device s1 = replicate p2 [] @ [Dev_ring Cq2 b2] # chunk_script ch @ []" using 1(4,5) False by simp_all
    have fl: "tokens_come s1" using assms(8) 1(6) by simp
    have ring: "holds ((sl_cq2 l1)\<lparr>cq_buf := b2\<rparr>) [e2]" using arr(6) False cq_stepped_holds [OF l1(5), of b2 "[e2]"] by simp
    have ent: "send_entry (mq_num (cx_qps (ss_cx s1) ! sl_qp2 l1)) (mq_sq (cx_qps (ss_cx s1) ! sl_qp2 l1)) e2 0"
      using arr(6) False rdy(1) assms(4) by (simp add: 1(2) l1(2))
    have own: "own_receives (ss_cx s1) (sl_qp0 l1)" "q1 = mq_rq (cx_qps (ss_cx s1) ! sl_qp0 l1)" using own1 i by (simp_all add: l1(1) 1(2))
    have arrive: "chunks_arrive (mq_num (cx_qps (ss_cx s1) ! sl_qp0 l1)) (sl_recv_cq l1) 0 ch"
      using arr(5) chunks_arrive_stepped [OF l1(4), of _ 0 ch] i by (simp add: l1(1) 1(2))
    have len: "length ch \<le> rq_outstanding q1" using q1(2) arr(4) by simp
    obtain s2 l2 where 2: "split_chunks_phase h is_exp ts first (length ch) wc1 s1 = Inr (Inr (uint first + entry_bytes ch), s2)"
      "ss_links s2 = (ss_links s1)[h := l2]" "rings_quiet l2" "link_frame (length ch) 1 l1 l2" "own_receives (ss_cx s2) (sl_qp0 l1)"
      "mq_rq (cx_qps (ss_cx s2) ! sl_qp0 l1) = took q1 (length ch)" "ack_side_ready (ss_cx s2) l2"
      "\<forall>x. x \<noteq> sl_qp0 l1 \<longrightarrow> x \<noteq> sl_qp2 l1 \<longrightarrow> cx_qps (ss_cx s2) ! x = cx_qps (ss_cx s1) ! x"
      using chunks_phase_ok [OF links(1,2) 1(7) links(3) ack1 dev fl ring ent own q1(3) len arrive ch, of is_exp ts first wc1] by blast
    have fr: "link_frame (unat n + 1) 1 l l2" using link_frame_trans [OF 1(8) 2(4)] arr(4) by (simp add: add.commute)
    have rq: "mq_rq (cx_qps (ss_cx s2) ! i) = took q1 (unat n)" using 2(6) l1(1) arr(4) by simp
    have "link_ready (ss_cx s2) l2"
      using 2(3,7) recv_ready [OF _ rq fr] 2(5) rdy(1) fr l1(1) assms(4) by (simp add: link_ready_def link_frame_def)
    moreover have "\<forall>x. x \<noteq> i \<longrightarrow> x \<noteq> sl_qp2 l \<longrightarrow> cx_qps (ss_cx s2) ! x = cx_qps (ss_cx s) ! x"
      using 2(8) by (simp add: l1(1,2) 1(2))
    ultimately show ?thesis
      using 1(1,3,9) 2(1,2) rq fr arr(4) False by (intro exI [of _ s2] exI [of _ l2] exI [of _ q1]) simp
  qed
qed

text \<open>The application's own receive element gives the base address.\<close>

lemma scat_base_ok:
  assumes "h < length (cx_qps cx)" "q = mq_rq (cx_qps cx ! h)" "a < length (rq_slots q)" "recv_says mg (g # gs) (rq_slots q ! a)"
    and "16 \<le> length (rq_slots q ! a)"
  shows "scat_base (h, a) cx = Inr (sg_addr g, sg_lkey g)"
proof -
  let ?slot = "rq_slots q ! a"
  have "take 16 (take (16 * length (g # gs)) ?slot) = take 16 (data_seg g @ concat (map data_seg gs))"
    using assms(4) by (simp only: recv_says_def list.map concat.simps)
  then have t: "take 16 ?slot = data_seg g" by simp
  have "take 8 (drop 8 ?slot) = drop 8 (take 16 ?slot)" "take 4 (drop 4 ?slot) = take 4 (drop 4 (take 16 ?slot))"
    by (simp_all add: drop_take min_def)
  then have "take 8 (drop 8 ?slot) = be64 (sg_addr g)" "take 4 (drop 4 ?slot) = be32 (sg_lkey g)"
    unfolding t by (simp_all add: data_seg_def)
  then show ?thesis using assms(1-3,5) by (simp add: scat_base_def mem_read_def)
qed

lemma message_arrives_frame:
  assumes "cx_qps cx' ! sl_qp0 l = cx_qps cx ! sl_qp0 l" "cx_qps cx' ! sl_qp2 l = cx_qps cx ! sl_qp2 l"
  shows "message_arrives cx' l n chunk info ack ch dev = message_arrives cx l n chunk info ack ch dev"
  unfolding message_arrives_def assms ..

lemma link_ready_with_rq:
  assumes "link_ready cx l" "h \<noteq> sl_qp0 l" "h \<noteq> sl_qp2 l"
  shows "link_ready (with_rq h q cx) l"
  using assms own_receives_with_rq [of cx "sl_qp0 l" h q] in_table_with(2) [of cx "sl_qp2 l" h q]
  by (auto simp: link_ready_def recv_side_ready_def ack_side_ready_def Let_def)

definition chunk_bytes :: "ring_entry list \<Rightarrow> u32" where
  "chunk_bytes ch = (\<Sum>(p, b, e)\<leftarrow>ch. byte_cnt e)"

lemma entry_bytes_word: "word_of_int (uint first + entry_bytes ch) = first + chunk_bytes ch"
  by (induction ch) (auto simp: entry_bytes_def chunk_bytes_def)

lemma split_call_ok:
  assumes "holds cq [c]" "own_receives (ss_cx s) h" "recv_entry (mq_num (cx_qps (ss_cx s) ! h)) c" "uq = mq_rq (cx_qps (ss_cx s) ! h)"
    and "rq_inv uq" "1 \<le> rq_max_gs uq" "cqe_opcode c \<noteq> 0" "MIN_SPLIT_CHUNK_SIZE \<le> byte_cnt c" "recv_says (rq_max_gs uq) (g # gs) (rq_slots uq ! rq_pos uq 0)"
    and "l = ss_links s ! h" "h < length (ss_links s)" "link_ready (ss_cx s) l" "h \<noteq> sl_qp0 l" "h \<noteq> sl_qp2 l" "q = mq_rq (cx_qps (ss_cx s) ! sl_qp0 l)"
    and "message_arrives (ss_cx s) l n chunk info ack ch (ss_device s)" "ss_script s = (if n = 0 then [0] else [0, 0, 0])"
    and "tokens_come s" "unat n + 1 \<le> rq_max_post q"
  shows "\<exists>wc' cq' s' q1. mlx4_poll_cq is_exp ts 1 stack [wc] cq s = Inr (1, False, [wc'], cq', s') \<and>
    wc_wr_id wc' = rq_wrid uq ! rq_pos uq 0 \<and> wc_status wc' = WC_SUCCESS \<and> wc_byte_len wc' = byte_cnt c + chunk_bytes ch \<and> holds cq' [] \<and>
    mq_rq (cx_qps (ss_cx s') ! h) = took uq 1 \<and> link_ready (ss_cx s') (ss_links s' ! h) \<and>
    posted_for (chunk_sges (sg_addr g) (sg_lkey g) chunk (unat n) @ [fc_sge 0 l]) q q1 \<and> mq_rq (cx_qps (ss_cx s') ! sl_qp0 l) = took q1 (unat n)"
proof -
  let ?st = "\<lparr>ps_cq = cq\<lparr>cq_stall_next_poll := False\<rparr>, ps_cx = ss_cx s, ps_cur = None\<rparr>"
  have h: "h < length (cx_qps (ss_cx s))" using assms(2) by (simp add: own_receives_def in_table_def)
  have "holds (ps_cq ?st) [c]" using assms(1) by simp
  from holds_Cons [OF this] obtain e where e: "next_cqe_sw (ps_cq ?st) = Inr (Some e)" "length e = 32" "body e = c"
      "holds ((ps_cq ?st)\<lparr>cq_cons_index := cq_cons_index (ps_cq ?st) + 1\<rparr>) []" by blast
  have ec: "recv_entry (mq_num (cx_qps (ps_cx ?st) ! h)) e" "byte_cnt e = byte_cnt c" "cqe_opcode e = cqe_opcode c"
    using recv_entry_body assms(3) body_fields [OF e(2)] e(2,3) by simp_all
  let ?st1 = "\<lparr>ps_cq = (ps_cq ?st)\<lparr>cq_cons_index := cq_cons_index (ps_cq ?st) + 1\<rparr>, ps_cx = with_rq h (took uq 1) (ss_cx s), ps_cur = Some h\<rparr>"
  have big: "\<not> byte_cnt e < MIN_SPLIT_CHUNK_SIZE" "cqe_opcode e \<noteq> 0" using assms(7,8) ec(2,3) by simp_all
  have own: "own_receives (ps_cx ?st) h" "ps_cur ?st \<in> {None, Some h}" "rq_inv (mq_rq (cx_qps (ps_cx ?st) ! h))" "uq = mq_rq (cx_qps (ps_cx ?st) ! h)"
    using assms(2,4,5) by simp_all
  have "?st1 = \<lparr>ps_cq = (ps_cq ?st)\<lparr>cq_cons_index := cq_cons_index (ps_cq ?st) + 1\<rparr>, ps_cx = with_rq h (took uq 1) (ps_cx ?st), ps_cur = Some h\<rparr>" by simp
  from poll_one_recv(2) [OF e(1) own(1) ec(1) own(2-4) this, of is_exp ts wc] obtain w1 where
    one: "mlx4_poll_one is_exp ts wc ?st = Inr (CQ_SPLIT, Some (h, rq_pos uq 0), w1, ?st1)" "says_received (rq_wrid uq ! rq_pos uq 0) e w1"
    using big by auto
  have loop: "poll_entries is_exp ts 1 0 None [wc] ?st = Inr (CQ_SPLIT, 0, Some (h, rq_pos uq 0), [w1], ?st1)"
    using one(1) by (simp add: Let_def)
  let ?s = "s\<lparr>ss_cx := with_rq h (took uq 1) (ss_cx s)\<rparr>"
  have pos: "rq_pos uq 0 < length (rq_slots uq)" using rq_pos_less [OF rq_cnt_pos [OF assms(5)]] assms(5) by (simp add: rq_inv_def)
  have "\<forall>s\<in>set (rq_slots uq). 16 * rq_max_gs uq \<le> length s" using assms(5) by (simp add: rq_inv_def)
  then have "16 * rq_max_gs uq \<le> length (rq_slots uq ! rq_pos uq 0)" using pos by simp
  then have "16 \<le> length (rq_slots uq ! rq_pos uq 0)" using assms(6) by linarith
  then have scat: "scat_base (h, rq_pos uq 0) (ss_cx ?s) = Inr (sg_addr g, sg_lkey g)"
    using scat_base_ok [of h "ss_cx ?s" "took uq 1" "rq_pos uq 0" "rq_max_gs uq" g gs] h pos assms(9) by simp
  have lk: "l = ss_links ?s ! h" "h < length (ss_links ?s)" "link_ready (ss_cx ?s) l" "q = mq_rq (cx_qps (ss_cx ?s) ! sl_qp0 l)"
    "ss_script ?s = (if n = 0 then [0] else [0, 0, 0])" "tokens_come ?s" "fst (h, rq_pos uq 0) \<noteq> sl_qp0 l"
    using assms(10,11,13,15,17,18) link_ready_with_rq [OF assms(12-14)] by simp_all
  have ma: "message_arrives (ss_cx ?s) l n chunk info ack ch (ss_device ?s)"
    using assms(16) message_arrives_frame [of "ss_cx ?s" l "ss_cx s"] assms(13,14) by simp
  obtain s1 l1 q1 where r: "recv_split h (h, rq_pos uq 0) is_exp ts (wc_byte_len w1) stack ?s = Inr (Inr (uint (wc_byte_len w1) + entry_bytes ch), s1)"
    "ss_links s1 = (ss_links ?s)[h := l1]" "link_ready (ss_cx s1) l1" "posted_for (chunk_sges (sg_addr g) (sg_lkey g) chunk (unat n) @ [fc_sge 0 l]) q q1"
    "mq_rq (cx_qps (ss_cx s1) ! sl_qp0 l) = took q1 (unat n)"
    "\<forall>x. x \<noteq> sl_qp0 l \<longrightarrow> x \<noteq> sl_qp2 l \<longrightarrow> cx_qps (ss_cx s1) ! x = cx_qps (ss_cx ?s) ! x"
    using recv_split_ok [OF lk(1-3) refl lk(4) ma lk(5,6) scat lk(7) assms(19), of is_exp ts "wc_byte_len w1" stack] by blast
  let ?cq = "mlx4_update_cons_index (ps_cq ?st1)"
  let ?wc = "w1\<lparr>wc_byte_len := word_of_int (uint (wc_byte_len w1) + entry_bytes ch)\<rparr>"
  have "mlx4_poll_cq is_exp ts 1 stack [wc] cq s = Inr (1, False, [?wc], ?cq, s1)"
    using r(1) assms(11) unfolding mlx4_poll_cq_def loop by (simp add: Let_def)
  moreover have "holds ?cq []" using e(4) by simp
  moreover have "wc_byte_len ?wc = byte_cnt c + chunk_bytes ch"
    using one(2) ec(2) entry_bytes_word [of "byte_cnt c" ch] by (simp add: says_received_def)
  moreover have "wc_wr_id ?wc = rq_wrid uq ! rq_pos uq 0" "wc_status ?wc = WC_SUCCESS" using one(2) by (simp_all add: says_received_def)
  moreover have "mq_rq (cx_qps (ss_cx s1) ! h) = took uq 1" using r(6) assms(13,14) h by simp
  moreover have "link_ready (ss_cx s1) (ss_links s1 ! h)" using r(2,3) assms(11) by simp
  ultimately show ?thesis using r(4,5) by blast
qed

end
