(* ===== verification/Split_Example.thy ===== *)
theory Split_Example
  imports Split_Delivery
begin

text \<open>
  A concrete receiver for the examples: three queue pairs (the application's, the two hidden ones), rings of four
  entries, and what the device writes for a message of three chunks (1,000,000, 1,000,000 and 500,000 bytes).
\<close>

unbundle bit_operations_syntax

section \<open>Rings\<close>

text \<open>An entry: queue pair, length, index of the element, opcode and flags; the fields that the examples do not use are 0.\<close>

definition entry_of :: "u32 \<Rightarrow> u32 \<Rightarrow> u16 \<Rightarrow> u8 \<Rightarrow> u8 list" where
  "entry_of num len idx op = be32 num @ replicate 16 0 @ be32 len @ be16 idx @ replicate 5 0 @ [op]"

lemma entry_of_fields:
  "length (entry_of num len idx op) = 32" "vlan_my_qpn (entry_of num len idx op) = num" "byte_cnt (entry_of num len idx op) = len"
  "wqe_index (entry_of num len idx op) = idx" "owner_sr_opcode (entry_of num len idx op) = op"
  by (simp_all add: entry_of_def cqe_field32_def cqe_field16_def nth_append)

lemma entry_of_body:
  assumes "op AND 0x80 = 0"
  shows "body (entry_of num len idx op) = entry_of num len idx op" "\<not> owner_bit (entry_of num len idx op)"
proof -
  have "op AND NOT 0x80 = op"
  proof (rule bit_eqI)
    show "bit (op AND NOT 0x80) n = bit op n" for n
      using arg_cong [OF assms, of "\<lambda>x. bit x n"] bit_imp_le_length [of op n] by (auto simp: bit_simps)
  qed
  then show "body (entry_of num len idx op) = entry_of num len idx op"
    by (simp add: body_def entry_of_fields macro_defs) (simp add: entry_of_def list_update_append)
  show "\<not> owner_bit (entry_of num len idx op)" using assms by (simp add: owner_bit_def entry_of_fields macro_defs)
qed

definition ring4 :: "nat \<Rightarrow> u8 list \<Rightarrow> u8 list list" where
  "ring4 i e = (replicate 4 (entry_of 0 0 0 0x80))[i := e]"

definition cq4 :: "nat \<Rightarrow> u8 list list \<Rightarrow> comp_queue" where
  "cq4 i b = \<lparr>cq_buf = b, cq_cqe_size = 32, cq_cqe = 3, cq_cons_index = of_nat i, cq_set_ci_db = be32 0, cq_arm_sn = 1, cq_arm_db = be32 0,
     cq_cqn = 5, cq_doorbells = [], cq_timestamp = False, cq_ts_sys_time = False, cq_stall_enable = False, cq_stall_next_poll = False,
     cq_last_qp = None\<rparr>"

lemma cq4_holds:
  assumes "i < 3" "op AND 0x80 = 0" "e = entry_of num len idx op"
  shows "holds (cq4 i (ring4 i e)) [e]" "holds (cq4 0 (replicate 4 (entry_of 0 0 0 0x80))) []"
proof -
  have hw: "owner_bit (entry_of 0 0 0 0x80)" by (simp add: owner_bit_def entry_of_fields macro_defs)
  have shape: "cq_shape (cq4 k b)" if "length b = 4" "\<forall>x\<in>set b. length x = 32" for k b
    using that by (auto simp: cq_shape_def cq4_def intro!: exI [of _ 2])
  have len: "length (ring4 i e) = 4" "\<forall>x\<in>set (ring4 i e). length x = 32"
    using assms(3) set_update_subset_insert [of "replicate 4 (entry_of 0 0 0 0x80)" i e] by (auto simp: ring4_def entry_of_fields)
  have at: "cq_entry (cq4 k b) (of_nat j) = b ! j" "\<not> pass_bit (cq4 k b) (of_nat j)"
    if "j < 4" "length b = 4" "\<forall>x\<in>set b. length x = 32" for k b j
  proof -
    have "length (b ! j) = 32" using that by simp
    moreover have "unat (of_nat j :: u32) AND 3 = j" "(of_nat j :: u32) AND 4 = 0"
    proof -
      have "j = 0 \<or> j = 1 \<or> j = 2 \<or> j = 3" using that(1) by linarith
      then show "unat (of_nat j :: u32) AND 3 = j" "(of_nat j :: u32) AND 4 = 0" by (elim disjE; simp)+
    qed
    ultimately show "cq_entry (cq4 k b) (of_nat j) = b ! j" "\<not> pass_bit (cq4 k b) (of_nat j)"
      by (simp_all add: cq_entry_def cq_slot_def cqe_off_def pass_bit_def cq4_def)
  qed
  have f: "cq_cons_index (cq4 k b) = of_nat k" "cq_cqe (cq4 k b) = 3" for k b by (simp_all add: cq4_def)
  have r: "ring4 i e ! i = e" "ring4 i e ! Suc i = entry_of 0 0 0 0x80" using assms(1) by (simp_all add: ring4_def)
  have "sw_owned (cq4 i (ring4 i e)) (of_nat i)" "\<not> sw_owned (cq4 i (ring4 i e)) (of_nat (Suc i))" "cq_entry (cq4 i (ring4 i e)) (of_nat i) = e"
    using at [OF _ len, of i i] at [OF _ len, of "Suc i" i] r hw entry_of_body [OF assms(2), of num len idx] assms by (simp_all add: sw_owned_def del: of_nat_Suc)
  then show "holds (cq4 i (ring4 i e)) [e]"
    using shape [OF len, of i] entry_of_body(1) [OF assms(2), of num len idx] assms(3) by (simp add: holds_def f add.commute)
  let ?b = "replicate 4 (entry_of 0 0 0 0x80)"
  have "length ?b = 4" "\<forall>x\<in>set ?b. length x = 32" by (simp_all add: entry_of_fields)
  note shape [OF this, of 0] at [of 0, OF _ this, of 0]
  then show "holds (cq4 0 ?b) []" using hw by (simp add: holds_def sw_owned_def f)
qed

section \<open>The receiver\<close>

definition ex_user_sge :: sge where
  "ex_user_sge = \<lparr>sg_addr = 0x900000, sg_length = 3000000, sg_lkey = 5\<rparr>"

definition ex_link :: split_link where
  "ex_link = \<lparr>sl_qp0 = 1, sl_qp2 = 2, sl_recv_cq = cq4 0 (replicate 4 (entry_of 0 0 0 0x80)),
     sl_cq2 = cq4 0 (replicate 4 (entry_of 0 0 0 0x80)), sl_msg0 = (ACK, 0, 0), sl_msg3 = INFO, sl_fc_addr = 0x5000, sl_lkey = 3\<rparr>"

text \<open>A receive queue with one receive, for one buffer.\<close>

definition ex_rq1 :: "sge \<Rightarrow> recv_queue" where
  "ex_rq1 g = \<lparr>rq_slots = data_seg g # replicate 31 (replicate 16 0), rq_wrid = 77 # replicate 31 0, rq_cnt = 32, rq_max_post = 32, rq_max_gs = 1,
     rq_head = 1, rq_tail = 0, rq_db = replicate 4 0, rq_ignore_overflow = False, rq_inlr = None, rq_init = False, rq_exchange_done = 0,
     rq_rr = \<lparr>rr_slot = [None], rr_size = 0, rr_capacity = 1\<rparr>\<rparr>"

definition ex_qp3 :: "u32 \<Rightarrow> sge \<Rightarrow> mlx4_qp" where
  "ex_qp3 num g = \<lparr>mq_num = num, mq_sq = ex_sq, mq_rq = ex_rq1 g, mq_srq = None, mq_ethernet = False, mq_rx_csum = False, mq_rx_vxlan = False\<rparr>"

definition ex_ctx3 :: "nat id_table \<Rightarrow> mlx4_ctx" where
  "ex_ctx3 t = \<lparr>cx_qp_table = t, cx_xsrq_table = init_table 8,
     cx_qps = [ex_qp3 0x123 ex_user_sge, ex_qp3 0x122 (fc_sge 0 ex_link), ex_qp3 0x121 (fc_sge 0 ex_link)], cx_srqs = [], cx_mem = (\<lambda>_. 0)\<rparr>"

lemma ex_rq1_ok: "rq_inv (ex_rq1 g)" "rq_ready (ex_rq1 g)" "rq_outstanding (ex_rq1 g) = 1" "waits_for (ex_rq1 g) 0 g"
proof -
  have "\<exists>k\<le>16. rq_cnt (ex_rq1 g) = 2 ^ k" by (intro exI [of _ 5]) (simp add: ex_rq1_def)
  then show inv: "rq_inv (ex_rq1 g)" unfolding rq_inv_def by (simp add: ex_rq1_def rq_outstanding_def)
  then show "rq_ready (ex_rq1 g)" by (simp add: rq_ready_def) (simp add: ex_rq1_def)
qed (simp_all add: waits_for_def recv_says_def rq_pos_def ex_rq1_def rq_outstanding_def)

lemma table_with_3:
  "\<exists>t. mlx4_find_qp t 0x123 = Inr (Some (0 :: nat)) \<and> mlx4_find_qp t 0x122 = Inr (Some 1) \<and> mlx4_find_qp t 0x121 = Inr (Some 2)"
proof -
  have b: "TABLE_BITS \<le> 16" by (simp add: TABLE_BITS_def)
  let ?t = "init_table 16 :: nat id_table"
  have t: "table_inv ?t" "id_entries ?t = (\<lambda>_. None)" "id_key ?t n = unat n mod 2 ^ 16" for n using init_table_ok [OF b, of n] by blast+
  obtain t1 where 1: "table_inv t1" "id_key t1 = id_key ?t" "id_entries t1 = (id_entries ?t)(id_key ?t 0x123 := Some 0)"
    using store_qp_ok [OF t(1), of "0x123" 0] t(2) by auto
  obtain t2 where 2: "table_inv t2" "id_key t2 = id_key ?t" "id_entries t2 = (id_entries t1)(id_key ?t 0x122 := Some 1)"
    using store_qp_ok [OF 1(1), of "0x122" 1] 1(2,3) t(2,3) by auto
  obtain t3 where 3: "table_inv t3" "id_key t3 = id_key ?t" "id_entries t3 = (id_entries t2)(id_key ?t 0x121 := Some 2)"
    using store_qp_ok [OF 2(1), of "0x121" 2] 1(2,3) 2(2,3) t(2,3) by auto
  show ?thesis using find_qp_ok [OF 3(1)] 1(3) 2(3) 3(2,3) t(2,3) by (intro exI [of _ t3]) simp
qed

lemma ex_ctx3_ok:
  assumes "mlx4_find_qp t 0x123 = Inr (Some 0)" "mlx4_find_qp t 0x122 = Inr (Some 1)" "mlx4_find_qp t 0x121 = Inr (Some 2)"
  shows "own_receives (ex_ctx3 t) 0" "link_ready (ex_ctx3 t) ex_link"
proof -
  have tab: "in_table (ex_ctx3 t) 0" "in_table (ex_ctx3 t) 1" "in_table (ex_ctx3 t) 2"
    using assms by (simp_all add: in_table_def ex_ctx3_def ex_qp3_def)
  then show "own_receives (ex_ctx3 t) 0" by (simp add: own_receives_def) (simp add: ex_ctx3_def ex_qp3_def ex_rq1_def)
  have l: "sl_qp0 ex_link = 1" "sl_qp2 ex_link = 2" "fc_sge 0 ex_link = fc_sge 0 ex_link" by (simp_all add: ex_link_def)
  have q: "mq_rq (cx_qps (ex_ctx3 t) ! 1) = ex_rq1 (fc_sge 0 ex_link)" "mq_sq (cx_qps (ex_ctx3 t) ! 2) = ex_sq"
    "mq_srq (cx_qps (ex_ctx3 t) ! 1) = None" by (simp_all add: ex_ctx3_def ex_qp3_def)
  have "rings_quiet ex_link" using cq4_holds(2) [of 0 0 "entry_of 0 0 0 0"] by (simp add: rings_quiet_def ex_link_def)
  moreover have "rq_inlr (ex_rq1 g) = None" for g by (simp add: ex_rq1_def)
  moreover have "\<not> sq_ignore_overflow ex_sq \<and> 1 \<le> sq_max_gs ex_sq \<and> outstanding ex_sq = 0 \<and> 0 < sq_max_post ex_sq"
    by (simp add: ex_sq_def outstanding_def)
  ultimately show "link_ready (ex_ctx3 t) ex_link"
    using tab ex_rq1_ok ex_sq_inv by (simp add: link_ready_def recv_side_ready_def ack_side_ready_def own_receives_def l(1,2) q [simplified])
qed

section \<open>The device\<close>

text \<open>Numbers of polls that find nothing, and the entries.\<close>

definition ex_info :: ring_entry where
  "ex_info = (1, ring4 0 (entry_of 0x122 12 0 1), entry_of 0x122 12 0 1)"

definition ex_ack :: ring_entry where
  "ex_ack = (0, ring4 0 (entry_of 0x121 0 0xffff 0x4a), entry_of 0x121 0 0xffff 0x4a)"

definition ex_chunks :: "ring_entry list" where
  "ex_chunks = [(2, ring4 1 (entry_of 0x122 1000000 1 1), entry_of 0x122 1000000 1 1), (0, ring4 2 (entry_of 0x122 500000 2 1), entry_of 0x122 500000 2 1)]"

definition ex_user_entry :: "u8 list" where
  "ex_user_entry = entry_of 0x123 1000000 0 1"

definition ex_device :: "dev_event list list" where
  "ex_device = replicate 1 [] @ arrival (ring4 0 (entry_of 0x122 12 0 1)) (Some (INFO, 2, 1000000)) #
     [Dev_ring Cq2 (ring4 0 (entry_of 0x121 0 0xffff 0x4a))] # chunk_script ex_chunks"

definition ex_receiver :: "nat id_table \<Rightarrow> split_state" where
  "ex_receiver t = \<lparr>ss_cx = ex_ctx3 t, ss_links = [ex_link, ex_link, ex_link], ss_script = [0, 0, 0], ss_device = ex_device, ss_isSmall = 2, ss_flow = True, ss_debit = 0, ss_waits = [4]\<rparr>"

lemma recv_entry_of: "\<lbrakk>num AND MLX4_CQE_QPN_MASK = num; num AND MLX4_XRC_QPN_BIT = 0\<rbrakk> \<Longrightarrow> recv_entry num (entry_of num len idx 1)"
  by (simp add: recv_entry_def entry_of_fields cqe_is_send_def cqe_qpn_def cqe_is_error_def cqe_opcode_def macro_defs)

lemma ex_arrives: "message_arrives (ex_ctx3 t) ex_link 2 1000000 ex_info ex_ack ex_chunks ex_device"
proof -
  have l: "sl_qp0 ex_link = 1" "sl_qp2 ex_link = 2" "sl_recv_cq ex_link = cq4 0 (replicate 4 (entry_of 0 0 0 0x80))"
    "sl_cq2 ex_link = cq4 0 (replicate 4 (entry_of 0 0 0 0x80))" by (simp_all add: ex_link_def)
  have nums: "mq_num (cx_qps (ex_ctx3 t) ! 1) = 0x122" "mq_num (cx_qps (ex_ctx3 t) ! 2) = 0x121" "mq_sq (cx_qps (ex_ctx3 t) ! 2) = ex_sq"
    by (simp_all add: ex_ctx3_def ex_qp3_def)
  have cq: "(cq4 0 b)\<lparr>cq_buf := c, cq_cons_index := of_nat i\<rparr> = cq4 i c" "(cq4 0 b)\<lparr>cq_buf := c\<rparr> = cq4 0 c" "cq_cons_index (cq4 0 b) = 0" for b c i
    by (simp_all add: cq4_def)
  have h: "holds (cq4 i (ring4 i (entry_of num len idx op))) [entry_of num len idx op]" if "i < 3" "op AND 0x80 = 0" for i num len idx op
    using cq4_holds(1) [OF that refl] .
  have e: "recv_entry 0x122 (entry_of 0x122 len idx 1)" for len idx by (rule recv_entry_of) (simp_all add: macro_defs)
  have a: "send_entry 0x121 ex_sq (entry_of 0x121 0 0xffff 0x4a) 0"
    by (simp add: send_entry_def entry_of_fields cqe_is_send_def cqe_qpn_def macro_defs) (simp add: ex_sq_def)
  have c: "chunks_arrive 0x122 (cq4 0 b) 1 ex_chunks" for b
    using h [of 1 1] h [of 2 1] e cq(1) [where i = 1] cq(1) [where i = 2] by (simp add: chunks_arrive_def ex_chunks_def cq(3) less_Suc_eq numeral_2_eq_2)
  show ?thesis
    using h [of 0 1 "0x122" 12 0] h [of 0 "0x4a" "0x121" 0 "0xffff"] e [of 12 0] a c
    by (simp add: message_arrives_def ex_info_def ex_ack_def ex_device_def l nums [simplified] cq(2)) (simp add: ex_chunks_def)
qed

end
