(* ===== verification/Split_Message.thy ===== *)
theory Split_Message
  imports Split_Example
begin

text \<open>
  Both ends of a message split by SEND: what the sender's call posts (\<open>Shaper\<close>) arrives in the receives that the receiver's
  call posts, and is reported as one message.
\<close>

unbundle bit_operations_syntax

section \<open>The sender's chunks\<close>

lemma two_sided_rest_segments:
  assumes "two_sided_rest c k cur s = Inr (Cont x, s')" "wr_sg_list (sh_wr s) = [g]" "0 < k \<Longrightarrow> sg_length g = c"
  shows "\<exists>ps. posts (sh_log s') = posts (sh_log s) @ ps \<and>
    segments ps = map (\<lambda>j. (wr_raddr (sh_wr s) + of_nat (Suc j) * ucast c, sg_addr g + of_nat (Suc j) * ucast c,
      if Suc j = k then cur - of_nat k * c else c)) [0..<k]"
  using assms
proof (induction k arbitrary: cur s g)
  case 0
  then show ?case by (auto simp: phase_ok intro!: exI [of _ "[]"])
next
  case (Suc k)
  define w where "w = (sh_wr s)\<lparr>wr_raddr := wr_raddr (sh_wr s) + ucast c,
      wr_flags := wr_flags (sh_wr s) OR IBV_SEND_SIGNALED,
      wr_sg_list := [g\<lparr>sg_addr := sg_addr g + ucast c, sg_length := (if k = 0 then cur - c else sg_length g)\<rparr>]\<rparr>"
  from Suc.prems(1) obtain s1 s2 where s1: "post Split_qp w (s\<lparr>sh_wr := w\<rparr>) = Inr (Cont (), s1)"
    and s2: "await Send_channel s1 = Inr (Cont (), s2)" and rest: "two_sided_rest c k (cur - c) s2 = Inr (Cont x, s')"
    by (auto simp: Let_def sh_bind_ok upd_wr_ok post_user_wr_ok set_first_sge_def Suc.prems(2) w_def)
  have log: "posts (sh_log s2) = posts (sh_log s) @ [(Split_qp, w)]" "sh_wr s2 = w"
    using post_effect [OF s1] await_effect [OF s2] by simp_all
  obtain ps where IH: "posts (sh_log s') = posts (sh_log s2) @ ps"
    "segments ps = map (\<lambda>j. (wr_raddr w + of_nat (Suc j) * ucast c, sg_addr g + ucast c + of_nat (Suc j) * ucast c,
      if Suc j = k then cur - c - of_nat k * c else c)) [0..<k]"
    using Suc.IH [OF rest, of "hd (wr_sg_list w)"] Suc.prems(3) unfolding log(2) by (auto simp: w_def)
  have "segments ((Split_qp, w) # ps) = map (\<lambda>j. (wr_raddr (sh_wr s) + of_nat (Suc j) * ucast c, sg_addr g + of_nat (Suc j) * ucast c,
      if Suc j = Suc k then cur - of_nat (Suc k) * c else c)) [0..<Suc k]"
    unfolding upt_conv_Cons [OF zero_less_Suc] map_Suc_upt [symmetric] using IH(2) Suc.prems(3)
    by (auto simp: w_def algebra_simps)
  then show ?case using IH(1) log(1) by (intro exI [of _ "(Split_qp, w) # ps"]) simp
qed

text \<open>The segment of index \<open>j\<close> of a message of \<open>Suc k\<close> chunks.\<close>

definition send_chunk :: "send_wr \<Rightarrow> sge \<Rightarrow> u32 \<Rightarrow> nat \<Rightarrow> nat \<Rightarrow> segment" where
  "send_chunk w g c k j = (wr_raddr w + of_nat j * ucast c, sg_addr g + of_nat j * ucast c, if j = k then sg_length g - of_nat k * c else c)"

lemma split_two_sided_segments:
  assumes "split_two_sided w g c s = Inr (Cont x, s')" "sh_wr s = w" "wr_sg_list w = [g]"
    and "chunks_double (sg_length g) c = of_nat (Suc k)" "k < 2 ^ 24" "k * unat c < unat (sg_length g)" "k = 0 \<longleftrightarrow> sg_length g \<le> c"
  shows "\<exists>ps is. posts (sh_log s') = posts (sh_log s) @ ps \<and> segments ps = map (send_chunk w g c k) [0..<Suc k] \<and>
    infos (sh_log s') = infos (sh_log s) @ is \<and> set is \<subseteq> {(of_nat k, c)}"
proof -
  have num: "chunks_double (sg_length g) c - 1 = of_nat k" using assms(4) by simp
  have uk: "unat (of_nat k :: u32) = k" using assms(5) by (intro unat_of_nat_small) simp
  obtain s1 s2 s3 s4 s5 where s1: "two_sided_first g c s = Inr (Cont (), s1)"
    and s2: "two_sided_info (of_nat k) c s1 = Inr (Cont (), s2)"
    and s3: "two_sided_ack (of_nat k) s2 = Inr (Cont (), s3)"
    and s4: "s4 = s3\<lparr>sh_wr := (sh_wr s3)\<lparr>wr_flags := wr_flags (sh_wr s3) AND NOT IBV_SEND_SIGNALED\<rparr>\<rparr>"
    and s5: "two_sided_rest c k (sg_length g) s4 = Inr (Cont (), s5)"
    and fin: "two_sided_finish w s5 = Inr (Cont x, s')"
    using assms(1) by (auto simp: split_two_sided_def Let_def num uk sh_bind_ok upd_wr_ok)
  define g1 where "g1 = (if c < sg_length g then g\<lparr>sg_length := c\<rparr> else g)"
  have 1: "posts (sh_log s1) = posts (sh_log s) @ [(User_qp, w\<lparr>wr_sg_list := [g1]\<rparr>)]" "sh_wr s1 = w\<lparr>wr_sg_list := [g1]\<rparr>"
    "infos (sh_log s1) = infos (sh_log s)"
    using s1 assms(2,3) by (auto simp: two_sided_first_def phase_ok set_first_sge_def g1_def)
  have 2: "posts (sh_log s2) = posts (sh_log s1)" "sh_wr s2 = sh_wr s1"
    "\<exists>is. infos (sh_log s2) = infos (sh_log s1) @ is \<and> set is \<subseteq> {(of_nat k, c)}"
    using s2 by (auto simp: two_sided_info_def phase_ok)
  have 3: "posts (sh_log s3) = posts (sh_log s2)" "sh_wr s3 = sh_wr s2" "infos (sh_log s3) = infos (sh_log s2)"
    using s3 by (auto simp: two_sided_ack_def phase_ok split: if_splits)
  have w4: "wr_sg_list (sh_wr s4) = [g1]" "wr_raddr (sh_wr s4) = wr_raddr w" "posts (sh_log s4) = posts (sh_log s1)" "infos (sh_log s4) = infos (sh_log s2)"
    using 1 2 3 s4 by simp_all
  have g1: "0 < k \<Longrightarrow> sg_length g1 = c" "sg_addr g1 = sg_addr g" "k = 0 \<Longrightarrow> sg_length g1 = sg_length g"
    using assms(7) by (auto simp: g1_def not_less)
  obtain ps where ps: "posts (sh_log s5) = posts (sh_log s4) @ ps"
    "segments ps = map (\<lambda>j. (wr_raddr w + of_nat (Suc j) * ucast c, sg_addr g + of_nat (Suc j) * ucast c,
      if Suc j = k then sg_length g - of_nat k * c else c)) [0..<k]"
    using two_sided_rest_segments [OF s5 w4(1) g1(1)] unfolding w4(2) g1(2) by blast
  have "segments ((User_qp, w\<lparr>wr_sg_list := [g1]\<rparr>) # ps) = map (send_chunk w g c k) [0..<Suc k]"
    unfolding upt_conv_Cons [OF zero_less_Suc] map_Suc_upt [symmetric]
    using ps(2) g1 by (auto simp: send_chunk_def)
  moreover have "posts (sh_log s') = posts (sh_log s5)" "infos (sh_log s') = infos (sh_log s5)"
    using fin by (auto simp: two_sided_finish_def phase_ok)
  moreover have "infos (sh_log s5) = infos (sh_log s4)" by (rule two_sided_rest_infos [OF s5])
  ultimately show ?thesis using ps(1) w4(3,4) 1(1,3) 2(3) by (intro exI [of _ "(User_qp, w\<lparr>wr_sg_list := [g1]\<rparr>) # ps"]) auto
qed

lemma of_nat_unat_ucast: "(of_nat (unat (c :: u32)) :: u64) = ucast c"
  by (simp add: word_unat_eq_iff unat_of_nat unsigned_ucast_eq)

lemma sum_send_chunks:
  assumes "i \<le> k"
  shows "(\<Sum>(r, a, len)\<leftarrow>map (send_chunk w g c k) [0..<i]. len) = of_nat i * c"
  using assms by (induction i) (auto simp: send_chunk_def algebra_simps)

lemma send_chunks_length: "(\<Sum>(r, a, len)\<leftarrow>map (send_chunk w g c k) [0..<Suc k]. len) = sg_length g"
  using sum_send_chunks [of k k w g c] by (simp add: send_chunk_def)

lemma send_chunk_bound:
  assumes "unat (sg_length g) \<le> Suc k * unat c" "k * unat c < unat (sg_length g)" "j \<le> k" "send_chunk w g c k j = (r, a, len)"
  shows "len \<le> c"
proof (cases "j = k")
  case True
  have kc: "unat (of_nat k * c) = k * unat c"
  proof -
    have "of_nat k * c = of_nat (k * unat c)" by simp
    moreover have "k * unat c < 2 ^ 32" using assms(2) unsigned_less [of "sg_length g", where 'a = nat] by simp
    ultimately show ?thesis using unat_of_nat_small [of "k * unat c", where 'a = 32] by simp
  qed
  have "len = sg_length g - of_nat k * c" using assms(4) True by (simp add: send_chunk_def)
  moreover have "unat (sg_length g - of_nat k * c) = unat (sg_length g) - k * unat c"
    using assms(2) kc by (subst unat_sub) (simp_all add: word_le_nat_alt)
  ultimately show ?thesis using assms(1) by (simp add: word_le_nat_alt)
qed (use assms(4) in \<open>auto simp: send_chunk_def\<close>)

lemma sender_chunks:
  assumes "Shaper.mlx4_post_send ok qs s = Inr (0, s')" "wr_sg_list (sh_wr s) = [g]" "wr_opcode (sh_wr s) \<in> {SEND, SEND_WITH_IMM}"
    and "c = split_chunk_size (sh_sb s) (wr_opcode (sh_wr s))" "2 ^ 8 \<le> unat c" "unat c \<le> 2 ^ 23"
    and "c < sg_length g \<or> MIN_SPLIT_CHUNK_SIZE \<le> sg_length g" "unat (sg_length g) < 2 ^ 24"
  shows "\<exists>k ps is. posts (sh_log s') = posts (sh_log s) @ ps \<and> segments ps = map (send_chunk (sh_wr s) g c k) [0..<Suc k] \<and>
    infos (sh_log s') = infos (sh_log s) @ is \<and> set is \<subseteq> {(of_nat k, c)} \<and> k * unat c < unat (sg_length g) \<and>
    unat (sg_length g) \<le> Suc k * unat c \<and> (k = 0 \<longleftrightarrow> sg_length g \<le> c)"
proof -
  obtain s1 x where s1: "post_locked s1 = Inr (Cont x, s')" "sh_wr s1 = sh_wr s" "sh_log s1 = sh_log s"
    "split_chunk_size (sh_sb s1) = split_chunk_size (sh_sb s)" using post_send_ok [OF assms(1)] .
  have "c \<noteq> 0" using assms(5) by auto
  moreover have "needs_split (sg_length g) (wr_opcode (sh_wr s)) c"
    using assms(3,7) by (auto simp: needs_split_def is_two_sided_def)
  ultimately have split: "split_two_sided (sh_wr s) g c s1 = Inr (Cont x, s')"
    using post_locked_split(2) [of s1 g "[]" c] assms s1 by simp
  have pos: "0 < sg_length g" using assms(7) by (auto simp: MIN_SPLIT_CHUNK_SIZE_def word_less_nat_alt word_le_nat_alt)
  obtain k where k: "chunks_double (sg_length g) c = of_nat (Suc k)" "k < 2 ^ 24" "k * unat c < unat (sg_length g)"
      "unat (sg_length g) \<le> Suc k * unat c" "c < sg_length g \<Longrightarrow> 0 < k"
    using chunks_double_bounds [OF assms(5) pos] assms(6,8) by blast
  have iff: "k = 0 \<longleftrightarrow> sg_length g \<le> c"
  proof
    show "k = 0 \<Longrightarrow> sg_length g \<le> c" using k(5) by (auto simp: not_less [symmetric])
  next
    assume "sg_length g \<le> c"
    then have "k * unat c < unat c" using k(3) less_le_trans unfolding word_le_nat_alt by blast
    then show "k = 0" by (cases k) auto
  qed
  then show ?thesis
    using split_two_sided_segments [OF split s1(2) assms(2) k(1-3) iff] s1(3) k(3,4) by auto
qed

text \<open>
  C6: A message split by SEND arrives as one. Scope: a SEND (with or without immediate) of one element and less than 16 MiB, longer than a chunk or of at
  least \<open>MIN_SPLIT_CHUNK_SIZE\<close> (1000000) bytes; the sender's chunk is at least that and at most 2^23 bytes (with smaller ones, such as
  \<open>SMALL_CHUNK_SIZE\<close> 5000, the receiver takes the first chunk for the whole message); the
  receiver's hidden queue pair takes 17 receives. The sender's call returned 0 and told the receiver how many chunks follow; the
  device delivers exactly these chunks in order, one receive each (so no request is linked behind the sent one). Then one poll of the receiver returns one completion, for the
  receive that the application posted, with success and the length of the whole message; each chunk is received in a
  buffer at the offset from the application's buffer that it has in the message, and none is longer than its buffer;
  the lock is released, and the hidden queue pairs are ready for the next message.
\<close>

theorem split_message_delivered:
  assumes "Shaper.mlx4_post_send ok qs sn = Inr (0, sn')" "wr_sg_list (sh_wr sn) = [sg]" "wr_opcode (sh_wr sn) \<in> {SEND, SEND_WITH_IMM}"
    and "chunk = split_chunk_size (sh_sb sn) (wr_opcode (sh_wr sn))" "MIN_SPLIT_CHUNK_SIZE \<le> chunk" "unat chunk \<le> 2 ^ 23"
    and "chunk < sg_length sg \<or> MIN_SPLIT_CHUNK_SIZE \<le> sg_length sg" "unat (sg_length sg) < 2 ^ 24"
    and "posts (sh_log sn') = posts (sh_log sn) @ ps" "infos (sh_log sn') = infos (sh_log sn) @ (n, chunk') # is"
    and "map byte_cnt (c # map (\<lambda>(p, b, e). e) ch) = map (\<lambda>(r, a, len). len) (segments ps)"
    and "message_arrives (ss_cx s) l n chunk' info ack ch (ss_device s)"
    and "holds cq [c]" "own_receives (ss_cx s) h" "recv_entry (mq_num (cx_qps (ss_cx s) ! h)) c" "cqe_opcode c \<noteq> 0"
    and "uq = mq_rq (cx_qps (ss_cx s) ! h)" "rq_inv uq" "1 \<le> rq_max_gs uq" "recv_says (rq_max_gs uq) (g # gs) (rq_slots uq ! rq_pos uq 0)"
    and "l = ss_links s ! h" "h < length (ss_links s)" "link_ready (ss_cx s) l" "h \<noteq> sl_qp0 l" "h \<noteq> sl_qp2 l"
    and "17 \<le> rq_max_post (mq_rq (cx_qps (ss_cx s) ! sl_qp0 l))" "ss_script s = (if n = 0 then [0] else [0, 0, 0])" "tokens_come s"
  shows "\<exists>wc' cq' s' q1. mlx4_poll_cq is_exp ts 1 stack [wc] cq s = Inr (1, False, [wc'], cq', s') \<and>
    wc_wr_id wc' = rq_wrid uq ! rq_pos uq 0 \<and> wc_status wc' = WC_SUCCESS \<and> wc_byte_len wc' = sg_length sg \<and>
    link_ready (ss_cx s') (ss_links s' ! h) \<and>
    posted_for (chunk_sges (sg_addr g) (sg_lkey g) chunk (unat n) @ [fc_sge 0 l]) (mq_rq (cx_qps (ss_cx s) ! sl_qp0 l)) q1 \<and>
    mq_rq (cx_qps (ss_cx s') ! sl_qp0 l) = took q1 (unat n) \<and> length (segments ps) = Suc (unat n) \<and>
    (\<forall>j < Suc (unat n). case segments ps ! j of (r, a, len) \<Rightarrow>
       sg_addr ((g # chunk_sges (sg_addr g) (sg_lkey g) chunk (unat n)) ! j) = sg_addr g + (a - sg_addr sg) \<and> (0 < j \<longrightarrow> len \<le> chunk))"
proof -
  have c8: "2 ^ 8 \<le> unat chunk"
  proof -
    have "1000000 \<le> unat chunk" using assms(5) by (simp add: MIN_SPLIT_CHUNK_SIZE_def word_le_nat_alt)
    then show ?thesis by simp
  qed
  obtain k ps0 is0 where k: "posts (sh_log sn') = posts (sh_log sn) @ ps0" "segments ps0 = map (send_chunk (sh_wr sn) sg chunk k) [0..<Suc k]"
    "infos (sh_log sn') = infos (sh_log sn) @ is0" "set is0 \<subseteq> {(of_nat k, chunk)}" "k * unat chunk < unat (sg_length sg)"
    "unat (sg_length sg) \<le> Suc k * unat chunk" "k = 0 \<longleftrightarrow> sg_length sg \<le> chunk"
    using sender_chunks [OF assms(1-4) c8 assms(6-8)] by blast
  have ps: "segments ps = map (send_chunk (sh_wr sn) sg chunk k) [0..<Suc k]" using k(1,2) assms(9) by simp
  have "is0 = (n, chunk') # is" using k(3) assms(10) by simp
  then have nc: "n = of_nat k" "chunk' = chunk" using k(4) by simp_all
  have "1000000 \<le> unat chunk" using assms(5) by (simp add: MIN_SPLIT_CHUNK_SIZE_def word_le_nat_alt)
  from mult_le_mono2 [OF this, of k] have "k * 1000000 < 2 ^ 24" using k(5) assms(8) by linarith
  then have k16: "k \<le> 16" by simp
  then have un: "unat n = k" unfolding nc(1) by (intro unat_of_nat_small) simp
  have bytes: "byte_cnt c # map (\<lambda>(p, b, e). byte_cnt e) ch = map (\<lambda>(r, a, len). len) (map (send_chunk (sh_wr sn) sg chunk k) [0..<Suc k])"
    using assms(11) ps by (simp add: case_prod_unfold comp_def)
  then have "byte_cnt c = (if k = 0 then sg_length sg else chunk)"
    unfolding upt_conv_Cons [OF zero_less_Suc] by (simp add: send_chunk_def)
  then have big: "MIN_SPLIT_CHUNK_SIZE \<le> byte_cnt c" using assms(5,7) k(7) by (auto simp: not_less [symmetric])
  have "byte_cnt c + chunk_bytes ch = sum_list (byte_cnt c # map (\<lambda>(p, b, e). byte_cnt e) ch)" by (simp add: chunk_bytes_def)
  also have "\<dots> = sg_length sg" unfolding bytes using send_chunks_length by (simp add: case_prod_unfold comp_def)
  finally have sum: "byte_cnt c + chunk_bytes ch = sg_length sg" .
  have room: "unat n + 1 \<le> rq_max_post (mq_rq (cx_qps (ss_cx s) ! sl_qp0 l))" using un k16 assms(26) by simp
  have at: "case segments ps ! j of (r, a, len) \<Rightarrow>
      sg_addr ((g # chunk_sges (sg_addr g) (sg_lkey g) chunk (unat n)) ! j) = sg_addr g + (a - sg_addr sg) \<and> (0 < j \<longrightarrow> len \<le> chunk)"
    if "j < Suc (unat n)" for j
  proof -
    have j: "segments ps ! j = send_chunk (sh_wr sn) sg chunk k j" "j \<le> k" using that un ps by (simp_all del: upt_Suc)
    have "sg_addr ((g # chunk_sges (sg_addr g) (sg_lkey g) chunk k) ! j) = sg_addr g + of_nat j * ucast chunk"
      using j(2) by (cases j) (simp_all add: chunk_sges_def of_nat_unat_ucast distrib_right)
    then show ?thesis using j send_chunk_bound [OF k(6,5) j(2)] un by (auto simp: send_chunk_def)
  qed
  show ?thesis
    using split_call_ok [OF assms(13-15,17-19,16) big assms(20-25) refl, of n chunk info ack ch is_exp ts stack wc]
      assms(12,27,28) room at sum ps un nc(2) by auto
qed

lemma sender_2500000:
  obtains sn' ps where "Shaper.mlx4_post_send True 0 (lone_request SEND 2500000 [0, 0, 0, 0, 1, 0, 0, 1, 0, 0, 0, 1, 0, 0, 0, 1, 0]) = Inr (0, sn')"
    "posts (sh_log sn') = ps" "infos (sh_log sn') = [(2, 1000000)]" "map (\<lambda>(r, a, len). len) (segments ps) = [1000000, 1000000, 500000]"
proof -
  let ?s = "lone_request SEND 2500000 [0, 0, 0, 0, 1, 0, 0, 1, 0, 0, 0, 1, 0, 0, 0, 1, 0]"
  let ?g = "\<lparr>sg_addr = 65536, sg_length = 2500000, sg_lkey = 1\<rparr>"
  obtain s2 where s2: "split_two_sided (sh_wr ?s) ?g 1000000 (?s\<lparr>sh_locked := True\<rparr>) = Inr (Cont 0, s2)" "infos (sh_log s2) = [(2, 1000000)]"
    using split_two_sided_accepted [of ?g 1000000 2 "?s\<lparr>sh_locked := True\<rparr>" "sh_wr ?s"] chunks_2500000(2) by auto
  then have "post_locked (?s\<lparr>sh_locked := True\<rparr>) = Inr (Cont 0, s2)"
    using post_locked_split(2) [of "?s\<lparr>sh_locked := True\<rparr>" ?g "[]" 1000000] by (simp add: needs_split_def)
  then have run: "Shaper.mlx4_post_send True 0 ?s = Inr (0, s2)" by (simp add: post_send_started)
  have "\<exists>k ps is. posts (sh_log s2) = posts (sh_log ?s) @ ps \<and> segments ps = map (send_chunk (sh_wr ?s) ?g 1000000 k) [0..<Suc k] \<and>
    infos (sh_log s2) = infos (sh_log ?s) @ is \<and> set is \<subseteq> {(of_nat k, 1000000)} \<and> k * unat (1000000 :: u32) < unat (sg_length ?g) \<and>
    unat (sg_length ?g) \<le> Suc k * unat (1000000 :: u32) \<and> (k = 0 \<longleftrightarrow> sg_length ?g \<le> 1000000)"
    by (rule sender_chunks [OF run]) simp_all
  then obtain k ps where k: "posts (sh_log s2) = ps" "segments ps = map (send_chunk (sh_wr ?s) ?g 1000000 k) [0..<Suc k]"
    "k * 1000000 < 2500000" "2500000 \<le> Suc k * 1000000" by auto
  then have "k = 2" by simp
  moreover have "[0..<Suc 2] = [0, 1, 2]" by (simp add: upt_rec)
  ultimately have "segments ps = map (send_chunk (sh_wr ?s) ?g 1000000 2) [0, 1, 2]" using k(2) by (simp only:)
  then have "map (\<lambda>(r, a, len). len) (segments ps) = [1000000, 1000000, 500000]" by (simp only: list.map send_chunk_def prod.case) simp
  then show ?thesis by (rule that [OF run k(1) s2(2)])
qed

theorem split_message_delivered_witness:
  "\<exists>sn' t wc' cq' s'. Shaper.mlx4_post_send True 0 (lone_request SEND 2500000 [0, 0, 0, 0, 1, 0, 0, 1, 0, 0, 0, 1, 0, 0, 0, 1, 0]) = Inr (0, sn') \<and>
     mlx4_poll_cq False False 1 ex_wc [ex_wc] (cq4 0 (ring4 0 ex_user_entry)) (ex_receiver t) = Inr (1, False, [wc'], cq', s') \<and>
     wc_wr_id wc' = 77 \<and> wc_status wc' = WC_SUCCESS \<and> wc_byte_len wc' = 2500000"
proof -
  obtain sn' ps where sn: "Shaper.mlx4_post_send True 0 (lone_request SEND 2500000 [0, 0, 0, 0, 1, 0, 0, 1, 0, 0, 0, 1, 0, 0, 0, 1, 0]) = Inr (0, sn')"
    "posts (sh_log sn') = ps" "infos (sh_log sn') = [(2, 1000000)]" "map (\<lambda>(r, a, len). len) (segments ps) = [1000000, 1000000, 500000]"
    by (rule sender_2500000)
  obtain t where t: "mlx4_find_qp t 0x123 = Inr (Some (0 :: nat))" "mlx4_find_qp t 0x122 = Inr (Some 1)" "mlx4_find_qp t 0x121 = Inr (Some 2)"
    using table_with_3 by blast
  have cx: "ss_cx (ex_receiver t) = ex_ctx3 t" "ss_links (ex_receiver t) = [ex_link, ex_link, ex_link]" "ss_device (ex_receiver t) = ex_device"
    "ss_script (ex_receiver t) = [0, 0, 0]"
    by (simp_all add: ex_receiver_def)
  have q: "mq_rq (cx_qps (ex_ctx3 t) ! 0) = ex_rq1 ex_user_sge" "mq_num (cx_qps (ex_ctx3 t) ! 0) = 0x123" "sl_qp0 ex_link = 1" "sl_qp2 ex_link = 2"
    "rq_max_post (mq_rq (cx_qps (ex_ctx3 t) ! 1)) = 32" "rq_max_gs (ex_rq1 g) = 1" for g
    by (simp_all add: ex_ctx3_def ex_qp3_def ex_link_def ex_rq1_def)
  have tok: "tokens_come (ex_receiver t)" by (simp add: tokens_come_def ex_receiver_def fetch_batches.simps [of 0] fetch_batches.simps [of 4])
  have ue: "recv_entry 0x123 ex_user_entry" "cqe_opcode ex_user_entry \<noteq> 0" "byte_cnt ex_user_entry = 1000000"
    by (simp_all add: ex_user_entry_def recv_entry_of entry_of_fields cqe_opcode_def macro_defs)
  have h: "holds (cq4 0 (ring4 0 ex_user_entry)) [ex_user_entry]" by (rule cq4_holds(1) [OF _ _ ex_user_entry_def]) simp_all
  have says: "recv_says 1 (ex_user_sge # []) (rq_slots (ex_rq1 ex_user_sge) ! rq_pos (ex_rq1 ex_user_sge) 0)"
    using ex_rq1_ok(4) [of ex_user_sge] by (simp add: waits_for_def q)
  have bytes: "map byte_cnt (ex_user_entry # map (\<lambda>(p, b, e). e) ex_chunks) = map (\<lambda>(r, a, len). len) (segments ps)"
    unfolding sn(4) by (simp add: ex_chunks_def ue entry_of_fields)
  note go = split_message_delivered [OF sn(1), of "\<lparr>sg_addr = 65536, sg_length = 2500000, sg_lkey = 1\<rparr>" 1000000 ps 2 1000000 "[]"
      ex_user_entry ex_chunks "ex_receiver t" ex_link ex_info ex_ack "cq4 0 (ring4 0 ex_user_entry)" 0 "ex_rq1 ex_user_sge" ex_user_sge "[]" False False ex_wc ex_wc]
  have "\<exists>wc' cq' s'. mlx4_poll_cq False False 1 ex_wc [ex_wc] (cq4 0 (ring4 0 ex_user_entry)) (ex_receiver t) = Inr (1, False, [wc'], cq', s') \<and>
     wc_wr_id wc' = rq_wrid (ex_rq1 ex_user_sge) ! rq_pos (ex_rq1 ex_user_sge) 0 \<and> wc_status wc' = WC_SUCCESS \<and> wc_byte_len wc' = 2500000"
    using go tok sn(2,3) bytes ex_arrives h ex_ctx3_ok [OF t] ue ex_rq1_ok(1) says by (simp add: cx q [simplified] MIN_SPLIT_CHUNK_SIZE_def) blast
  moreover have "rq_wrid (ex_rq1 ex_user_sge) ! rq_pos (ex_rq1 ex_user_sge) 0 = 77" by (simp add: ex_rq1_def rq_pos_def)
  ultimately show ?thesis using sn(1) by auto
qed

end
