(* ===== verification/Qp_Create.thy ===== *)
theory Qp_Create
  imports Completion_Proofs "HOL-Library.Multiset"
begin

text \<open>
  Creating queue pairs and completion queues: \<open>mlx4_exp_create_qp\<close> of \<open>libmlx4/src/verbs_exp.c\<close> with the buffer it allocates, and
  \<open>create_cq\<close> of \<open>verbs.c\<close>, in the way \<open>__mlx4_create_qp\<close> and \<open>mlx4_create_cq\<close> call them, that is, without experimental attributes; a
  queue pair that only receives (\<open>XRC_RECV\<close>) is left out. Every call whose result the code does not compute (allocations, locks, commands of
  the kernel) takes the next number of \<open>lf_script\<close>, 0 for success; what the kernel grants is in lists of its own, and with a completion
  queue comes its ring as the device has initialised it. \<open>lf_held\<close> are the resources held, so that an error exit which
  forgets one or releases one twice can be seen.
\<close>

unbundle bit_operations_syntax

section \<open>State\<close>

text \<open>What the context of the device says.\<close>

record dev_conf =
  dc_max_qp_wr :: nat
  dc_max_sge :: nat
  dc_cqe_size :: nat
  dc_bf_size :: nat
  dc_prefer_bf :: bool
  dc_single_threaded :: bool
  dc_wc64 :: bool
  dc_stall :: bool
  dc_rx_csum :: bool
  dc_rx_vxlan :: bool

datatype qp_state = QPS_RESET | QPS_INIT | QPS_RTR | QPS_RTS | QPS_SQD | QPS_SQE | QPS_ERR | QPS_UNKNOWN

record qp_init =
  qi_kind :: qp_kind
  qi_cap :: qp_cap
  qi_sig_all :: bool
  qi_srq :: "nat option"
  qi_send_cq :: "nat option"
  qi_recv_cq :: "nat option"
  qi_context :: int

text \<open>The part of a queue pair that the other theories do not need.\<close>

record qp_obj =
  qo_state :: qp_state
  qo_kind :: qp_kind
  qo_send_cq :: "nat option"
  qo_recv_cq :: "nat option"
  qo_small :: int
  qo_bf_page :: "nat option"

datatype resource = Qp_mem | Sq_ids | Rq_ids | Qp_buf | Sq_lock | Rq_lock | Recv_db | Kernel_qp
  | Cq_mem | Cq_lock | Cq_buf | Cq_db | Kernel_cq

text \<open>The attributes of a change of state; \<open>at_rest\<close> stands for those that the driver only hands on.\<close>

record ibv_qp_attr =
  at_state :: qp_state
  at_dest :: u32
  at_rq_psn :: u32
  at_sq_psn :: u32
  at_port :: nat
  at_timeout :: nat
  at_retry_cnt :: nat
  at_rnr_retry :: nat
  at_max_rd_atomic :: nat
  at_rest :: nat

text \<open>The hidden objects of a queue pair; \<open>hd_fc_addr\<close> is the address of its four messages.\<close>

record hidden =
  hd_qp0 :: nat
  hd_qp2 :: nat
  hd_send_cq :: "nat option"
  hd_recv_cq :: "nat option"
  hd_cq2 :: "nat option"
  hd_fc_addr :: u64
  hd_fc_mr :: "u32 option"

record qp_life =
  lf_dev :: dev_conf
  lf_cx :: mlx4_ctx
  lf_objs :: "qp_obj list"
  lf_hidden :: "hidden option list"
  lf_cqs :: "comp_queue list"
  lf_bf_used :: "bool list"
  lf_bf_free :: nat
  lf_script :: "int list"
  lf_qp_grants :: "(u32 \<times> qp_cap) list"
  lf_cq_grants :: "(u32 \<times> nat \<times> u8 list list) list"
  lf_held :: "(nat \<times> resource) list"
  lf_cmds :: "(nat \<times> ibv_qp_attr \<times> u32) list"
  lf_junk :: "u64 list"
  lf_ethernet :: "nat \<Rightarrow> bool"
  lf_start_flag :: bool

section \<open>Results and resources\<close>

definition next_code :: "qp_life \<Rightarrow> (int \<times> qp_life) res" where
  "next_code s = (case lf_script s of [] \<Rightarrow> Inl Diverges | r # rs \<Rightarrow> Inr (r, s\<lparr>lf_script := rs\<rparr>))"

fun drop_resources :: "nat \<Rightarrow> resource list \<Rightarrow> qp_life \<Rightarrow> qp_life res" where
  "drop_resources h [] s = Inr s"
| "drop_resources h (r # rs) s = (if (h, r) \<in> set (lf_held s) then drop_resources h rs (s\<lparr>lf_held := remove1 (h, r) (lf_held s)\<rparr>) else Inl Bad_free)"

text \<open>A list of steps, each with what is released when it fails.\<close>

fun acquire :: "nat \<Rightarrow> (resource \<times> resource list) list \<Rightarrow> qp_life \<Rightarrow> (bool \<times> qp_life) res" where
  "acquire h [] s = Inr (True, s)"
| "acquire h ((r, undo) # steps) s = res_bind (next_code s) (\<lambda>(c, s).
     if c = 0 then acquire h steps (s\<lparr>lf_held := (h, r) # lf_held s\<rparr>)
     else res_bind (drop_resources h undo s) (\<lambda>s. Inr (False, s)))"

section \<open>Queue pairs\<close>

definition MLX4_WQE_CTRL_CQ_UPDATE :: u32 where [macro_defs]: "MLX4_WQE_CTRL_CQ_UPDATE = 12"
definition MLX4_WQE_CTRL_SOLICIT :: u32 where [macro_defs]: "MLX4_WQE_CTRL_SOLICIT = 2"
definition MLX4_WQE_CTRL_TCP_UDP_CSUM :: u32 where [macro_defs]: "MLX4_WQE_CTRL_TCP_UDP_CSUM = 32"
definition MLX4_WQE_CTRL_IP_CSUM :: u32 where [macro_defs]: "MLX4_WQE_CTRL_IP_CSUM = 16"

definition srcrb_table :: "bool \<Rightarrow> u32 list" where
  "srcrb_table sig_all = (let cq_update = (if sig_all then MLX4_WQE_CTRL_CQ_UPDATE else 0) in
     [cq_update, MLX4_WQE_CTRL_CQ_UPDATE OR cq_update, MLX4_WQE_CTRL_SOLICIT OR cq_update,
      MLX4_WQE_CTRL_CQ_UPDATE OR MLX4_WQE_CTRL_SOLICIT OR cq_update,
      MLX4_WQE_CTRL_IP_CSUM OR MLX4_WQE_CTRL_TCP_UDP_CSUM OR cq_update,
      MLX4_WQE_CTRL_IP_CSUM OR MLX4_WQE_CTRL_TCP_UDP_CSUM OR MLX4_WQE_CTRL_CQ_UPDATE OR cq_update,
      MLX4_WQE_CTRL_IP_CSUM OR MLX4_WQE_CTRL_TCP_UDP_CSUM OR MLX4_WQE_CTRL_SOLICIT OR cq_update,
      MLX4_WQE_CTRL_IP_CSUM OR MLX4_WQE_CTRL_TCP_UDP_CSUM OR MLX4_WQE_CTRL_CQ_UPDATE OR MLX4_WQE_CTRL_SOLICIT OR cq_update,
      cq_update, MLX4_WQE_CTRL_CQ_UPDATE OR cq_update, MLX4_WQE_CTRL_SOLICIT OR cq_update,
      MLX4_WQE_CTRL_CQ_UPDATE OR MLX4_WQE_CTRL_SOLICIT OR cq_update,
      MLX4_WQE_CTRL_IP_CSUM OR cq_update, MLX4_WQE_CTRL_IP_CSUM OR MLX4_WQE_CTRL_CQ_UPDATE OR cq_update,
      MLX4_WQE_CTRL_IP_CSUM OR MLX4_WQE_CTRL_SOLICIT OR cq_update,
      MLX4_WQE_CTRL_IP_CSUM OR MLX4_WQE_CTRL_CQ_UPDATE OR MLX4_WQE_CTRL_SOLICIT OR cq_update])"

text \<open>How doorbells are rung, and on which BlueFlame page: one of its own if there is a free one, otherwise the common one.\<close>

definition choose_db_method :: "dev_conf \<Rightarrow> bool list \<Rightarrow> nat \<Rightarrow> db_method \<times> nat option \<times> bool list \<times> nat" where
  "choose_db_method d used free =
     (if dc_bf_size d = 0 then (DB, None, used, free)
      else let page = (if free \<noteq> 0 then first_from (\<lambda>u. \<not> u) 0 used else None);
               m = (if page \<noteq> None \<or> dc_single_threaded d then DEDIC_BF else BF)
           in (if m = DEDIC_BF \<and> dc_single_threaded d \<and> dc_wc64 d
               then if dc_prefer_bf d then DEDIC_BF_1_THREAD_WC_EVICT_PB else DEDIC_BF_1_THREAD_WC_EVICT_NPB else m, page,
               case page of Some i \<Rightarrow> used[i := True] | None \<Rightarrow> used, if page \<noteq> None then free - 1 else free))"

text \<open>Whether the queue pair has a receive queue of its own, and the limits as the kernel is asked for them.\<close>

definition own_rq :: "qp_init \<Rightarrow> bool" where
  "own_rq a \<longleftrightarrow> qi_srq a = None \<and> qi_kind a \<notin> {QPT_XRC_SEND, QPT_XRC}"

definition request_cap :: "qp_init \<Rightarrow> qp_cap" where
  "request_cap a = (if own_rq a
     then (qi_cap a)\<lparr>cap_max_recv_wr := max 1 (cap_max_recv_wr (qi_cap a)), cap_max_recv_sge := max 1 (cap_max_recv_sge (qi_cap a))\<rparr>
     else (qi_cap a)\<lparr>cap_max_recv_wr := 0, cap_max_recv_sge := 0\<rparr>)"

definition rq_alloc_cnt :: "qp_init \<Rightarrow> nat" where
  "rq_alloc_cnt a = (if own_rq a then align_queue_size (cap_max_recv_wr (qi_cap a)) else 0)"

text \<open>The receive queue: the slots are allocated for what was asked, the rest is what the kernel grants.\<close>

definition create_rq :: "dev_conf \<Rightarrow> qp_init \<Rightarrow> qp_cap \<Rightarrow> u64 list \<Rightarrow> recv_queue" where
  "create_rq d a granted junk =
     \<lparr>rq_slots = replicate (rq_alloc_cnt a) (replicate (2 ^ shift_for (16 * cap_max_recv_sge (request_cap a)) 4) 0),
      rq_wrid = take (rq_alloc_cnt a) junk, rq_cnt = cap_max_recv_wr granted, rq_max_post = min (dc_max_qp_wr d) (cap_max_recv_wr granted),
      rq_max_gs = cap_max_recv_sge granted, rq_head = 0, rq_tail = 0, rq_db = be32 0, rq_ignore_overflow = False, rq_inlr = None,
      rq_init = False, rq_exchange_done = 0, rq_rr = \<lparr>rr_slot = [], rr_size = 0, rr_capacity = 0\<rparr>\<rparr>"

definition blank_sq :: "dev_conf \<Rightarrow> bool \<Rightarrow> send_queue" where
  "blank_sq d sig_all = \<lparr>sq_slots = [], sq_wrid = [], sq_qc = \<lparr>sc_kind = QPT_other, sc_ethernet = False, sc_max_inline_data = 0,
     sc_srcrb_flags = srcrb_table sig_all, sc_wqe_cnt = 0\<rparr>, sq_shift = 0, sq_max_post = 0, sq_max_gs = 0, sq_spare = 0, sq_head = 0, sq_tail = 0,
     sq_ignore_overflow = False, sq_managed = False, sq_db_method = DB, sq_prefer_bf = dc_prefer_bf d, sq_bf_buf_size = 0, sq_qpn = 0, sq_bells = []\<rparr>"

text \<open>The steps, with what \<open>mlx4_exp_alloc_qp_buf\<close> and the labels of \<open>mlx4_exp_create_qp\<close> release.\<close>

definition create_steps :: "nat \<Rightarrow> nat \<Rightarrow> bool \<Rightarrow> (resource \<times> resource list) list" where
  "create_steps sqc rqc db =
     (let sq = (if sqc \<noteq> 0 then [Sq_ids] else []); rq = (if rqc \<noteq> 0 then [Rq_ids] else []);
          buf = (if sqc \<noteq> 0 \<or> rqc \<noteq> 0 then [Qp_buf] else []);
          err_free = rq @ sq @ buf @ [Qp_mem]; sq_lock_destroy = Sq_lock # err_free; rq_lock_destroy = Rq_lock # sq_lock_destroy
      in [(Qp_mem, [])] @ map (\<lambda>r. (r, [Qp_mem])) sq @ map (\<lambda>r. (r, sq @ [Qp_mem])) rq @ map (\<lambda>r. (r, sq @ rq @ [Qp_mem])) buf @
         [(Sq_lock, err_free), (Rq_lock, sq_lock_destroy)] @ (if db then [(Recv_db, rq_lock_destroy)] else []))"

definition kernel_steps :: "nat \<Rightarrow> nat \<Rightarrow> bool \<Rightarrow> (resource \<times> resource list) list" where
  "kernel_steps sqc rqc db = [(Kernel_qp, (if db then [Recv_db] else []) @ [Rq_lock, Sq_lock] @
     (if rqc \<noteq> 0 then [Rq_ids] else []) @ (if sqc \<noteq> 0 then [Sq_ids] else []) @ (if sqc \<noteq> 0 \<or> rqc \<noteq> 0 then [Qp_buf] else []) @ [Qp_mem])]"

text \<open>The command dereferences the completion queues that it passes to the kernel.\<close>

definition needs_cqs :: "qp_init \<Rightarrow> bool" where
  "needs_cqs a \<longleftrightarrow> qi_send_cq a = None \<or> qi_recv_cq a = None \<and> qi_kind a \<notin> {QPT_XRC_SEND, QPT_XRC}"

definition err_destroy :: "nat \<Rightarrow> nat \<Rightarrow> bool \<Rightarrow> resource list" where
  "err_destroy sqc rqc db = Kernel_qp # (if db then [Recv_db] else []) @ [Rq_lock, Sq_lock] @
     (if rqc \<noteq> 0 then [Rq_ids] else []) @ (if sqc \<noteq> 0 then [Sq_ids] else []) @ (if sqc \<noteq> 0 \<or> rqc \<noteq> 0 then [Qp_buf] else []) @ [Qp_mem]"

text \<open>
  The queue pair gets the next handle. The result is \<open>None\<close> when the function returns \<open>NULL\<close>, otherwise the handle and the
  limits granted. The allocation of a level of the table of queue pairs has an entry in the script whether or not it is needed.
\<close>

definition finish_create :: "qp_init \<Rightarrow> send_queue \<Rightarrow> u32 \<Rightarrow> qp_cap \<Rightarrow> nat id_table \<Rightarrow> qp_life \<Rightarrow> (nat \<times> qp_cap) \<times> qp_life" where
  "finish_create a sq num granted t s =
     (let d = lf_dev s; h = length (lf_objs s); (m, page, used, free) = choose_db_method d (lf_bf_used s) (lf_bf_free s);
          rq = create_rq d a granted (lf_junk s);
          cap = (snd (snd (mlx4_set_sq_sizes (dc_max_qp_wr d) (dc_max_sge d) (sq_shift sq) (sq_cnt sq) (sq_spare sq) (qi_kind a) granted)))
            \<lparr>cap_max_recv_wr := min (dc_max_qp_wr d) (cap_max_recv_wr granted), cap_max_recv_sge := min (dc_max_sge d) (cap_max_recv_sge granted)\<rparr>;
          q = \<lparr>mq_num = num, mq_sq = sq\<lparr>sq_db_method := m, sq_bf_buf_size := dc_bf_size d, sq_qpn := num\<rparr>, mq_rq = rq, mq_srq = qi_srq a,
            mq_ethernet = False, mq_rx_csum = False, mq_rx_vxlan = False\<rparr>
      in ((h, cap), s\<lparr>lf_bf_used := used, lf_bf_free := free, lf_cx := (lf_cx s)\<lparr>cx_qp_table := t, cx_qps := cx_qps (lf_cx s) @ [q]\<rparr>,
           lf_objs := lf_objs s @ [\<lparr>qo_state = QPS_RESET, qo_kind = qi_kind a, qo_send_cq = qi_send_cq a, qo_recv_cq = qi_recv_cq a, qo_small = qi_context a, qo_bf_page = page\<rparr>],
           lf_hidden := lf_hidden s @ [None]\<rparr>))"

definition new_sq :: "qp_init \<Rightarrow> qp_life \<Rightarrow> send_queue" where
  "new_sq a s = mlx4_init_qp_indices (create_sq (dc_max_qp_wr (lf_dev s)) (dc_max_sge (lf_dev s)) (qi_cap a) (qi_kind a) False (lf_junk s)
     (blank_sq (lf_dev s) (qi_sig_all a)))"

definition store_qp :: "qp_init \<Rightarrow> send_queue \<Rightarrow> qp_life \<Rightarrow> ((nat \<times> qp_cap) option \<times> qp_life) res" where
  "store_qp a sq s =
     (let h = length (lf_objs s) in
      case lf_qp_grants s of [] \<Rightarrow> Inl Diverges
      | (num, granted) # gs \<Rightarrow>
        res_bind (next_code s) (\<lambda>(c, s). let s = s\<lparr>lf_qp_grants := gs\<rparr> in
          case mlx4_store_qp (c = 0) (cx_qp_table (lf_cx s)) num h of
            Inr t \<Rightarrow> (let (r, s) = finish_create a sq num granted t s in Inr (Some r, s))
          | Inl (Err_code _) \<Rightarrow>
              res_bind (drop_resources h (err_destroy (sq_cnt sq) (rq_alloc_cnt a) (0 < cap_max_recv_sge granted)) s) (\<lambda>s. Inr (None, s))
          | Inl f \<Rightarrow> Inl f))"

definition mlx4_exp_create_qp :: "qp_init \<Rightarrow> qp_life \<Rightarrow> ((nat \<times> qp_cap) option \<times> qp_life) res" where
  "mlx4_exp_create_qp a s =
     (let d = lf_dev s; h = length (lf_objs s) in
      if \<not> verify_sizes (dc_max_qp_wr d) (dc_max_sge d) (qi_cap a) (qi_kind a) then Inr (None, s)
      else let sq = new_sq a s; rqc = rq_alloc_cnt a; db = (0 < cap_max_recv_sge (request_cap a))
      in res_bind (acquire h (create_steps (sq_cnt sq) rqc db) s) (\<lambda>(ok, s).
         if \<not> ok then Inr (None, s) else if needs_cqs a then Inl Null_deref
         else res_bind (acquire h (kernel_steps (sq_cnt sq) rqc db) s) (\<lambda>(ok, s).
         if \<not> ok then Inr (None, s) else store_qp a sq s)))"

section \<open>Completion queues\<close>

text \<open>No error exit destroys the lock. The size comes back from the kernel.\<close>

definition cq_steps :: "(resource \<times> resource list) list" where
  "cq_steps = [(Cq_mem, []), (Cq_lock, [Cq_mem]), (Cq_buf, [Cq_mem]), (Cq_db, [Cq_buf, Cq_mem]), (Kernel_cq, [Cq_db, Cq_buf, Cq_mem])]"

definition new_cq :: "dev_conf \<Rightarrow> u32 \<times> nat \<times> u8 list list \<Rightarrow> comp_queue" where
  "new_cq d grant = (case grant of (cqn, granted, ring) \<Rightarrow> \<lparr>cq_buf = ring, cq_cqe_size = dc_cqe_size d, cq_cqe = granted, cq_cons_index = 0,
     cq_set_ci_db = be32 0, cq_arm_sn = 1, cq_arm_db = be32 0, cq_cqn = cqn, cq_doorbells = [], cq_timestamp = False, cq_ts_sys_time = False,
     cq_stall_enable = dc_stall d, cq_stall_next_poll = False, cq_last_qp = None\<rparr>)"

definition mlx4_create_cq :: "nat \<Rightarrow> qp_life \<Rightarrow> (nat option \<times> qp_life) res" where
  "mlx4_create_cq cqe s =
     (let h = length (lf_cqs s) in
      if 0x3fffff < cqe then Inr (None, s)
      else res_bind (acquire h cq_steps s) (\<lambda>(ok, s). if \<not> ok then Inr (None, s)
        else case lf_cq_grants s of [] \<Rightarrow> Inl Diverges
          | g # gs \<Rightarrow> Inr (Some h, s\<lparr>lf_cq_grants := gs, lf_cqs := lf_cqs s @ [new_cq (lf_dev s) g]\<rparr>)))"

section \<open>Error exits\<close>

lemma drop_resources_ok:
  assumes "mset (map (Pair h) rs) \<subseteq># mset (lf_held s)"
  shows "\<exists>hs. drop_resources h rs s = Inr (s\<lparr>lf_held := hs\<rparr>) \<and> mset hs = mset (lf_held s) - mset (map (Pair h) rs)"
  using assms
proof (induction rs arbitrary: s)
  case (Cons r rs)
  let ?s = "s\<lparr>lf_held := remove1 (h, r) (lf_held s)\<rparr>"
  have "(h, r) \<in> set (lf_held s)" using Cons.prems by (simp add: insert_subset_eq_iff)
  moreover have "mset (map (Pair h) rs) \<subseteq># mset (lf_held ?s)" using Cons.prems by (simp add: insert_subset_eq_iff)
  moreover obtain hs where "drop_resources h rs ?s = Inr (?s\<lparr>lf_held := hs\<rparr>)" "mset hs = mset (lf_held ?s) - mset (map (Pair h) rs)"
    using Cons.IH [OF calculation(2)] by blast
  ultimately show ?case by (intro exI [of _ hs]) simp
next
  case Nil
  then show ?case by (intro exI [of _ "lf_held s"]) simp
qed

text \<open>Every step releases what the steps before it have acquired.\<close>

fun undoes :: "resource list \<Rightarrow> (resource \<times> resource list) list \<Rightarrow> bool" where
  "undoes acc [] \<longleftrightarrow> True"
| "undoes acc ((r, undo) # steps) \<longleftrightarrow> mset undo = mset acc \<and> undoes (r # acc) steps"

lemma acquire_ok:
  assumes "undoes acc steps" "mset (lf_held s) = M + mset (map (Pair h) acc)" "length steps \<le> length (lf_script s)"
  shows "\<exists>ok k hs. acquire h steps s = Inr (ok, s\<lparr>lf_script := drop k (lf_script s), lf_held := hs\<rparr>) \<and> k \<le> length steps \<and>
    mset hs = (if ok then M + mset (map (Pair h) (rev (map fst steps) @ acc)) else M) \<and>
    (ok \<longleftrightarrow> (\<forall>c\<in>set (take (length steps) (lf_script s)). c = 0))"
  using assms
proof (induction steps arbitrary: acc s)
  case Nil
  then show ?case by (intro exI [of _ True] exI [of _ 0] exI [of _ "lf_held s"]) simp
next
  case (Cons st steps)
  obtain r undo where st: "st = (r, undo)" by (cases st)
  obtain c cs where sc: "lf_script s = c # cs" using Cons.prems(3) by (cases "lf_script s") auto
  show ?case
  proof (cases "c = 0")
    case True
    let ?s = "s\<lparr>lf_script := cs, lf_held := (h, r) # lf_held s\<rparr>"
    obtain ok k hs where "acquire h steps ?s = Inr (ok, ?s\<lparr>lf_script := drop k (lf_script ?s), lf_held := hs\<rparr>)" "k \<le> length steps"
      "mset hs = (if ok then M + mset (map (Pair h) (rev (map fst steps) @ r # acc)) else M)"
      "ok \<longleftrightarrow> (\<forall>c\<in>set (take (length steps) (lf_script ?s)). c = 0)"
      using Cons.IH [of "r # acc" ?s] Cons.prems st sc by auto
    then show ?thesis using True st sc by (intro exI [of _ ok] exI [of _ "Suc k"] exI [of _ hs]) (auto simp: next_code_def)
  next
    case False
    let ?s = "s\<lparr>lf_script := cs\<rparr>"
    have undo: "mset undo = mset acc" using Cons.prems(1) st by simp
    then have "mset (map (Pair h) undo) = mset (map (Pair h) acc)" by simp
    then obtain hs where "drop_resources h undo ?s = Inr (?s\<lparr>lf_held := hs\<rparr>)" "mset hs = M"
      using drop_resources_ok [of h undo ?s] Cons.prems(2) by auto
    then show ?thesis using False st sc by (intro exI [of _ False] exI [of _ 1] exI [of _ hs]) (auto simp: next_code_def)
  qed
qed

lemma create_steps_undo: "undoes [] (create_steps sqc rqc db)"
  "undoes (rev (map fst (create_steps sqc rqc db))) (kernel_steps sqc rqc db)"
  by (cases "sqc = 0"; cases "rqc = 0"; cases db; simp add: create_steps_def kernel_steps_def Let_def)+

lemma create_steps_all: "mset (err_destroy sqc rqc db) = mset (rev (map fst (kernel_steps sqc rqc db)) @ rev (map fst (create_steps sqc rqc db)))"
  by (cases "sqc = 0"; cases "rqc = 0"; cases db; simp add: create_steps_def kernel_steps_def err_destroy_def Let_def)

lemma length_create_steps: "length (create_steps sqc rqc db) \<le> 7" "length (kernel_steps sqc rqc db) = 1"
  by (simp_all add: create_steps_def kernel_steps_def Let_def)

lemma store_qp_faults: "mlx4_store_qp ok t num h = Inl f \<Longrightarrow> f \<noteq> Bad_free"
  by (auto simp: mlx4_store_qp_def arr_get_def arr_set_def res_bind_def split: if_splits option.splits)

text \<open>Once the kernel has the queue pair, its number is stored, or everything is released again.\<close>

lemma store_outcome:
  fixes s :: qp_life and a :: qp_init and sq :: send_queue
  defines "h \<equiv> length (lf_objs s)" and "all \<equiv> err_destroy (sq_cnt sq) (rq_alloc_cnt a) (own_rq a)"
  assumes "\<forall>(num, granted)\<in>set (lf_qp_grants s). cap_max_recv_sge granted \<noteq> 0 \<longleftrightarrow> own_rq a" "lf_script s \<noteq> []" "lf_qp_grants s \<noteq> []"
    and held: "mset (lf_held s) = M + mset (map (Pair h) all)"
  shows "case store_qp a sq s of
      Inl f \<Rightarrow> f \<noteq> Bad_free
    | Inr (None, s') \<Rightarrow> mset (lf_held s') = M \<and> lf_cx s' = lf_cx s \<and> lf_objs s' = lf_objs s \<and> lf_bf_used s' = lf_bf_used s \<and> lf_bf_free s' = lf_bf_free s
    | Inr (Some (h', cap), s') \<Rightarrow> h' = h \<and> mset (lf_held s') = M + mset (map (Pair h) all)"
proof -
  obtain num granted gs c cs where g: "lf_qp_grants s = (num, granted) # gs" and c: "lf_script s = c # cs"
    using assms(4,5) by (cases "lf_qp_grants s"; cases "lf_script s") auto
  then have sge: "(0 < cap_max_recv_sge granted) = own_rq a" using assms(3) by simp
  let ?s = "s\<lparr>lf_script := cs, lf_qp_grants := gs\<rparr>"
  show ?thesis
  proof (cases "mlx4_store_qp (c = 0) (cx_qp_table (lf_cx s)) num h")
    case (Inl f)
    obtain hs' where rel: "drop_resources h all ?s = Inr (?s\<lparr>lf_held := hs'\<rparr>)" "mset hs' = M"
      using drop_resources_ok [of h all ?s] held by auto
    show ?thesis
      using g c Inl rel store_qp_faults [OF Inl] by (cases f) (simp_all add: store_qp_def Let_def next_code_def sge h_def all_def)
  next
    case (Inr t)
    then show ?thesis using g c held by (simp add: store_qp_def Let_def next_code_def finish_create_def case_prod_unfold h_def all_def)
  qed
qed

text \<open>
  C9: Creating a queue pair holds on to nothing when it fails, whichever of its steps does: with a kernel that grants receive
  elements exactly when they are asked for, a creation that returns \<open>NULL\<close> has released each resource it had acquired, and
  releases none twice; the table of queue pairs, the other queue pairs and the BlueFlame pages are as before. A creation that succeeds
  holds each resource once.
\<close>

theorem failed_creation_releases:
  assumes "\<forall>(num, granted)\<in>set (lf_qp_grants s). cap_max_recv_sge granted \<noteq> 0 \<longleftrightarrow> own_rq a" "9 \<le> length (lf_script s)" "lf_qp_grants s \<noteq> []"
  shows "case mlx4_exp_create_qp a s of
      Inl f \<Rightarrow> f \<noteq> Bad_free
    | Inr (None, s') \<Rightarrow> mset (lf_held s') = mset (lf_held s) \<and> lf_cx s' = lf_cx s \<and> lf_objs s' = lf_objs s \<and>
        lf_bf_used s' = lf_bf_used s \<and> lf_bf_free s' = lf_bf_free s
    | Inr (Some (h, cap), s') \<Rightarrow> h = length (lf_objs s) \<and> mset (lf_held s') = mset (lf_held s) +
        mset (map (Pair h) (err_destroy (sq_cnt (new_sq a s)) (rq_alloc_cnt a) (own_rq a)))"
proof (cases "verify_sizes (dc_max_qp_wr (lf_dev s)) (dc_max_sge (lf_dev s)) (qi_cap a) (qi_kind a)")
  case False
  then show ?thesis by (simp add: mlx4_exp_create_qp_def Let_def)
next
  case True
  let ?h = "length (lf_objs s)" and ?c = "sq_cnt (new_sq a s)" and ?r = "rq_alloc_cnt a" and ?db = "own_rq a"
  have db: "(0 < cap_max_recv_sge (request_cap a)) = ?db" by (simp add: request_cap_def less_max_iff_disj)
  let ?M = "mset (lf_held s)" and ?st = "create_steps ?c ?r ?db" and ?kn = "kernel_steps ?c ?r ?db"
  obtain ok1 k1 hs1 where acq1: "acquire ?h ?st s = Inr (ok1, s\<lparr>lf_script := drop k1 (lf_script s), lf_held := hs1\<rparr>)"
    "k1 \<le> 7" "mset hs1 = (if ok1 then ?M + mset (map (Pair ?h) (rev (map fst ?st))) else ?M)"
    using acquire_ok [OF create_steps_undo(1), of s ?M ?h ?c ?r ?db] length_create_steps(1) [of ?c ?r ?db] assms(2) by fastforce
  show ?thesis
  proof (cases "ok1 \<and> \<not> needs_cqs a")
    case False
    then show ?thesis using acq1(1,3) True by (auto simp: mlx4_exp_create_qp_def Let_def db)
  next
    case ok1: True
    let ?s1 = "s\<lparr>lf_script := drop k1 (lf_script s), lf_held := hs1\<rparr>"
    obtain ok k hs where acq: "acquire ?h ?kn ?s1 = Inr (ok, ?s1\<lparr>lf_script := drop k (lf_script ?s1), lf_held := hs\<rparr>)"
      "k \<le> 1" "mset hs = (if ok then ?M + mset (map (Pair ?h) (rev (map fst ?kn) @ rev (map fst ?st))) else ?M)"
      using acquire_ok [OF create_steps_undo(2), of ?s1 ?M ?h ?c ?r ?db] length_create_steps(2) [of ?c ?r ?db] assms(2) acq1(2,3) ok1 by fastforce
    let ?s2 = "s\<lparr>lf_script := drop (k + k1) (lf_script s), lf_held := hs\<rparr>"
    have start: "mlx4_exp_create_qp a s = (if ok then store_qp a (new_sq a s) ?s2 else Inr (None, ?s2))"
      using acq1(1) acq(1) ok1 True by (simp add: mlx4_exp_create_qp_def Let_def db)
  show ?thesis
  proof (cases ok)
    case False
    then show ?thesis using acq(3) unfolding start by simp
  next
    case ok: True
    have "mset (map (Pair ?h) (err_destroy ?c ?r ?db)) = mset (map (Pair ?h) (rev (map fst ?kn) @ rev (map fst ?st)))"
      using create_steps_all [of ?c ?r ?db] by (metis mset_map)
    then have hs: "mset hs = ?M + mset (map (Pair ?h) (err_destroy ?c ?r ?db))" using acq(3) ok by simp
    have "length (lf_script ?s2) \<noteq> 0" using acq(2) acq1(2) assms(2) by simp
    then have "lf_script ?s2 \<noteq> []" by blast
    then show ?thesis using store_outcome [where s = ?s2 and a = a and sq = "new_sq a s" and M = ?M] assms(1,3) hs ok unfolding start by (simp split: sum.splits prod.splits option.splits)
  qed
  qed
qed

text \<open>A process before its first queue pair; the device has no BlueFlame pages.\<close>

definition ex_dev :: dev_conf where
  "ex_dev = \<lparr>dc_max_qp_wr = 16384, dc_max_sge = 32, dc_cqe_size = 32, dc_bf_size = 0, dc_prefer_bf = True, dc_single_threaded = False,
     dc_wc64 = False, dc_stall = False, dc_rx_csum = False, dc_rx_vxlan = False\<rparr>"

definition ex_life :: "int list \<Rightarrow> (u32 \<times> qp_cap) list \<Rightarrow> (u32 \<times> nat \<times> u8 list list) list \<Rightarrow> qp_life" where
  "ex_life script qps cqs = \<lparr>lf_dev = ex_dev, lf_cx = \<lparr>cx_qp_table = init_table 16, cx_xsrq_table = init_table 16, cx_qps = [], cx_srqs = [],
     cx_mem = (\<lambda>_. 0)\<rparr>, lf_objs = [], lf_hidden = [], lf_cqs = [], lf_bf_used = [], lf_bf_free = 0, lf_script = script, lf_qp_grants = qps,
     lf_cq_grants = cqs, lf_held = [], lf_cmds = [], lf_junk = replicate 65536 0, lf_ethernet = (\<lambda>_. True), lf_start_flag = True\<rparr>"

definition ex_init :: qp_init where
  "ex_init = \<lparr>qi_kind = QPT_RC, qi_cap = \<lparr>cap_max_send_wr = 100, cap_max_recv_wr = 100, cap_max_send_sge = 1, cap_max_recv_sge = 1,
     cap_max_inline_data = 100\<rparr>, qi_sig_all = False, qi_srq = None, qi_send_cq = Some 0, qi_recv_cq = Some 0, qi_context = 1\<rparr>"

lemma failed_creation_releases_witness:
  "let s = ex_life [0, 0, 0, 0, 0, 12, 0, 0, 0] [(0x123, qi_cap ex_init)] []; h = 0 in
   case mlx4_exp_create_qp ex_init s of
      Inl f \<Rightarrow> f \<noteq> Bad_free
    | Inr (None, s') \<Rightarrow> mset (lf_held s') = mset (lf_held s) \<and> lf_cx s' = lf_cx s \<and> lf_objs s' = lf_objs s \<and>
        lf_bf_used s' = lf_bf_used s \<and> lf_bf_free s' = lf_bf_free s
    | Inr (Some (h, cap), s') \<Rightarrow> h = length (lf_objs s) \<and> mset (lf_held s') = mset (lf_held s) +
        mset (map (Pair h) (err_destroy (sq_cnt (new_sq ex_init s)) (rq_alloc_cnt ex_init) (own_rq ex_init)))"
  unfolding Let_def by (rule failed_creation_releases) (simp_all add: ex_life_def ex_init_def own_rq_def)

end
