(* ===== verification/Qp_Life.thy ===== *)
theory Qp_Life
  imports Qp_Create Split_Receive
begin

text \<open>
  The life of a queue pair with its hidden ones (\<open>libmlx4/src/verbs.c\<close>): \<open>mlx4_create_qp\<close>, \<open>__mlx4_modify_qp\<close>, \<open>mlx4_modify_qp\<close> and
  \<open>mlx4_destroy_qp\<close>, and \<open>ibv_cmd_modify_qp\<close> of \<open>libibverbs\<close>, through which the kernel learns of every change. Configuration as shipped:
  \<open>MANUAL_SPLIT_QPN_DIFF\<close> on with the difference 1, one hidden queue pair for chunks, events on. \<open>lf_cmds\<close> is the list of the commands the
  kernel has accepted. The part of \<open>mlx4_create_qp\<close> that joins the pacer is in \<open>App_Client\<close>.
\<close>

unbundle bit_operations_syntax

section \<open>Single queue pairs\<close>

definition IBV_QP_STATE :: u32 where [macro_defs]: "IBV_QP_STATE = push_bit 0 1"
definition IBV_QP_PORT :: u32 where [macro_defs]: "IBV_QP_PORT = push_bit 5 1"
definition IBV_QP_TIMEOUT :: u32 where [macro_defs]: "IBV_QP_TIMEOUT = push_bit 9 1"
definition IBV_QP_RETRY_CNT :: u32 where [macro_defs]: "IBV_QP_RETRY_CNT = push_bit 10 1"
definition IBV_QP_RNR_RETRY :: u32 where [macro_defs]: "IBV_QP_RNR_RETRY = push_bit 11 1"
definition IBV_QP_MAX_QP_RD_ATOMIC :: u32 where [macro_defs]: "IBV_QP_MAX_QP_RD_ATOMIC = push_bit 13 1"
definition IBV_QP_SQ_PSN :: u32 where [macro_defs]: "IBV_QP_SQ_PSN = push_bit 16 1"

definition MAX_SPLIT_QP_NUM_ONE_SIDED :: nat where "MAX_SPLIT_QP_NUM_ONE_SIDED = 1"
definition SPLIT_QP_NUM_DIFF :: u32 where "SPLIT_QP_NUM_DIFF = 1"
definition SPLIT_MAX_SEND_WR :: nat where "SPLIT_MAX_SEND_WR = 8000"
definition SPLIT_MAX_RECV_WR :: nat where "SPLIT_MAX_RECV_WR = 8000"
definition SPLIT_MAX_CQE :: nat where "SPLIT_MAX_CQE = 10000"
definition RR_BUFFER_INIT_CAP :: nat where "RR_BUFFER_INIT_CAP = 1000"

definition upd_life_qp :: "nat \<Rightarrow> (mlx4_qp \<Rightarrow> mlx4_qp) \<Rightarrow> qp_life \<Rightarrow> qp_life" where
  "upd_life_qp h f s = s\<lparr>lf_cx := upd_qp h (f (cx_qps (lf_cx s) ! h)) (lf_cx s)\<rparr>"

text \<open>The state of the queue pair, which \<open>mlx4_post_recv\<close> looks at.\<close>

definition set_state :: "nat \<Rightarrow> qp_state \<Rightarrow> qp_life \<Rightarrow> qp_life" where
  "set_state h st s = upd_life_qp h (\<lambda>q. q\<lparr>mq_rq := (mq_rq q)\<lparr>rq_init := (st = QPS_INIT)\<rparr>\<rparr>)
     (s\<lparr>lf_objs := (lf_objs s)[h := (lf_objs s ! h)\<lparr>qo_state := st\<rparr>]\<rparr>)"

definition update_port_data :: "nat \<Rightarrow> nat \<Rightarrow> qp_life \<Rightarrow> (int \<times> qp_life) res" where
  "update_port_data h port s = res_bind (arr_get (lf_objs s) h) (\<lambda>ob. res_bind (arr_get (cx_qps (lf_cx s)) h) (\<lambda>_.
     res_bind (next_code s) (\<lambda>(err, s). if err \<noteq> 0 then Inr (err, s)
       else let eth = lf_ethernet s port; raw = (qo_kind ob = QPT_RAW_PACKET \<and> eth) in
         Inr (0, upd_life_qp h (\<lambda>q. q\<lparr>mq_sq := (mq_sq q)\<lparr>sq_qc := (sq_qc (mq_sq q))\<lparr>sc_ethernet := eth\<rparr>\<rparr>, mq_ethernet := eth,
           mq_rx_csum := mq_rx_csum q \<or> raw \<and> dc_rx_csum (lf_dev s), mq_rx_vxlan := mq_rx_vxlan q \<or> raw \<and> dc_rx_vxlan (lf_dev s)\<rparr>) s))))"

definition ibv_cmd_modify_qp :: "nat \<Rightarrow> ibv_qp_attr \<Rightarrow> u32 \<Rightarrow> qp_life \<Rightarrow> (int \<times> qp_life) res" where
  "ibv_cmd_modify_qp h attr am s = res_bind (next_code s) (\<lambda>(ret, s). if ret \<noteq> 0 then Inr (ret, s)
     else let s = s\<lparr>lf_cmds := lf_cmds s @ [(h, attr, am)]\<rparr>
       in Inr (0, if am AND IBV_QP_STATE \<noteq> 0 then set_state h (at_state attr) s else s))"

definition init_ownership :: "nat \<Rightarrow> qp_life \<Rightarrow> qp_life res" where
  "init_ownership h s = res_bind (arr_get (cx_qps (lf_cx s)) h) (\<lambda>q. res_bind (mlx4_qp_init_sq_ownership (mq_sq q)) (\<lambda>sq.
     Inr (upd_life_qp h (\<lambda>q. q\<lparr>mq_sq := sq\<rparr>) s)))"

text \<open>Taking the entries of a queue pair out of a completion queue, and resetting its own queues.\<close>

definition clean_cq :: "nat \<Rightarrow> u32 \<Rightarrow> nat option \<Rightarrow> qp_life \<Rightarrow> qp_life res" where
  "clean_cq c qpn srq s = res_bind (arr_get (lf_cqs s) c) (\<lambda>cq.
     let qps = cx_qps (lf_cx s);
         is_last = (case cq_last_qp cq of None \<Rightarrow> False | Some k \<Rightarrow> k < length qps \<and> mq_num (qps ! k) = qpn)
     in res_bind (case srq of None \<Rightarrow> Inr None | Some i \<Rightarrow> res_bind (arr_get (cx_srqs (lf_cx s)) i) (\<lambda>r. Inr (Some r))) (\<lambda>r.
        res_bind (mlx4_cq_clean is_last qpn r cq) (\<lambda>(r, cq).
          Inr (s\<lparr>lf_cqs := (lf_cqs s)[c := cq],
            lf_cx := (case (srq, r) of (Some i, Some r) \<Rightarrow> (lf_cx s)\<lparr>cx_srqs := (cx_srqs (lf_cx s))[i := r]\<rparr> | _ \<Rightarrow> lf_cx s)\<rparr>))))"

definition clean_cqs :: "nat \<Rightarrow> nat option \<Rightarrow> qp_life \<Rightarrow> qp_life res" where
  "clean_cqs h srq s = res_bind (arr_get (lf_objs s) h) (\<lambda>ob. res_bind (arr_get (cx_qps (lf_cx s)) h) (\<lambda>q.
     res_bind (case qo_recv_cq ob of None \<Rightarrow> Inr s | Some c \<Rightarrow> clean_cq c (mq_num q) srq s) (\<lambda>s.
     case qo_send_cq ob of None \<Rightarrow> Inr s
     | Some c \<Rightarrow> if qo_recv_cq ob = Some c then Inr s else clean_cq c (mq_num q) None s)))"

definition reset_qp :: "nat \<Rightarrow> qp_life \<Rightarrow> qp_life res" where
  "reset_qp h s = res_bind (arr_get (cx_qps (lf_cx s)) h) (\<lambda>q. res_bind (clean_cqs h (mq_srq q) s) (\<lambda>s.
     Inr (upd_life_qp h (\<lambda>q. q\<lparr>mq_sq := mlx4_init_qp_indices (mq_sq q),
       mq_rq := (let rq = mlx4_init_rq_indices (mq_rq q) in if rq_cnt rq \<noteq> 0 then rq\<lparr>rq_db := be32 0\<rparr> else rq)\<rparr>) s)))"

definition resets :: "ibv_qp_attr \<Rightarrow> u32 \<Rightarrow> bool" where
  "resets attr am \<longleftrightarrow> am AND IBV_QP_STATE \<noteq> 0 \<and> at_state attr = QPS_RESET"

definition leaves_reset :: "nat \<Rightarrow> ibv_qp_attr \<Rightarrow> u32 \<Rightarrow> qp_life \<Rightarrow> bool" where
  "leaves_reset h attr am s \<longleftrightarrow> qo_state (lf_objs s ! h) = QPS_RESET \<and> am AND IBV_QP_STATE \<noteq> 0 \<and> at_state attr = QPS_INIT"

text \<open>\<open>__mlx4_modify_qp\<close>.\<close>

definition modify_driver :: "nat \<Rightarrow> ibv_qp_attr \<Rightarrow> u32 \<Rightarrow> qp_life \<Rightarrow> (int \<times> qp_life) res" where
  "modify_driver h attr am s =
     res_bind (arr_get (lf_objs s) h) (\<lambda>_.
     res_bind (if am AND IBV_QP_PORT \<noteq> 0 then update_port_data h (at_port attr) s else Inr (0, s)) (\<lambda>(ret, s).
     if ret \<noteq> 0 then Inr (ret, s)
     else res_bind (if leaves_reset h attr am s then init_ownership h s else Inr s) (\<lambda>s.
       res_bind (ibv_cmd_modify_qp h attr am s) (\<lambda>(ret, s).
       res_bind (if ret = 0 \<and> resets attr am then reset_qp h s else Inr s) (\<lambda>s. Inr (ret, s))))))"

section \<open>The hidden queue pairs\<close>

definition hidden_of :: "nat \<Rightarrow> qp_life \<Rightarrow> hidden res" where
  "hidden_of h s = res_bind (arr_get (lf_hidden s) h) (\<lambda>hid. case hid of None \<Rightarrow> Inl Null_deref | Some hid \<Rightarrow> Inr hid)"

text \<open>A step whose failure makes the function return 1 at once.\<close>

definition or_fail :: "(int \<times> qp_life) res \<Rightarrow> (qp_life \<Rightarrow> (bool \<times> qp_life) res) \<Rightarrow> (bool \<times> qp_life) res" where
  "or_fail m k = res_bind m (\<lambda>(ret, s). if ret \<noteq> 0 then Inr (False, s) else k s)"

text \<open>The receive for message \<open>k\<close> of the four; the region of the messages is dereferenced.\<close>

definition hidden_fc_sge :: "hidden \<Rightarrow> u32 \<Rightarrow> nat \<Rightarrow> sge" where
  "hidden_fc_sge hid lkey k = \<lparr>sg_addr = hd_fc_addr hid + of_nat (12 * k), sg_length = 12, sg_lkey = lkey\<rparr>"

definition post_fc_recv :: "nat \<Rightarrow> hidden \<Rightarrow> nat \<Rightarrow> qp_life \<Rightarrow> (int \<times> qp_life) res" where
  "post_fc_recv h hid k s = (case hd_fc_mr hid of None \<Rightarrow> Inl Null_deref
     | Some lkey \<Rightarrow> res_bind (arr_get (cx_qps (lf_cx s)) h) (\<lambda>q.
         res_bind (mlx4_post_recv \<lparr>am_wr = (\<lambda>_. one_recv), am_sge = (\<lambda>_. hidden_fc_sge hid lkey k)\<rparr> True True 1 one_recv (mq_rq q)) (\<lambda>(ret, rq).
           Inr (ret, upd_life_qp h (\<lambda>q. q\<lparr>mq_rq := rq\<rparr>) s))))"

definition arm_cq :: "nat option \<Rightarrow> qp_life \<Rightarrow> qp_life res" where
  "arm_cq c s = (case c of None \<Rightarrow> Inl Null_deref
     | Some c \<Rightarrow> res_bind (arr_get (lf_cqs s) c) (\<lambda>cq. Inr (s\<lparr>lf_cqs := (lf_cqs s)[c := mlx4_arm_cq False cq]\<rparr>)))"

text \<open>The attributes for the last step of a hidden queue pair.\<close>

definition rts_mask :: u32 where
  "rts_mask = IBV_QP_STATE OR IBV_QP_TIMEOUT OR IBV_QP_RETRY_CNT OR IBV_QP_RNR_RETRY OR IBV_QP_SQ_PSN OR IBV_QP_MAX_QP_RD_ATOMIC"

definition rts_attr :: "u32 \<Rightarrow> ibv_qp_attr \<Rightarrow> ibv_qp_attr" where
  "rts_attr psn attr = attr\<lparr>at_state := QPS_RTS, at_sq_psn := psn, at_timeout := 14, at_retry_cnt := 7, at_rnr_retry := 7, at_max_rd_atomic := 1\<rparr>"

text \<open>Connecting the hidden queue pairs: their numbers are taken to precede those of the queue pair at the other end.\<close>

definition connect_hidden :: "hidden \<Rightarrow> ibv_qp_attr \<Rightarrow> u32 \<Rightarrow> qp_life \<Rightarrow> (bool \<times> qp_life) res" where
  "connect_hidden hid attr am s =
     (let attr0 = attr\<lparr>at_dest := at_dest attr - SPLIT_QP_NUM_DIFF, at_rq_psn := 10084\<rparr>;
          attr2 = attr\<lparr>at_dest := at_dest attr - SPLIT_QP_NUM_DIFF - SPLIT_QP_NUM_DIFF, at_rq_psn := 10083\<rparr>
      in or_fail (modify_driver (hd_qp0 hid) attr0 am s) (\<lambda>s.
         or_fail (modify_driver (hd_qp2 hid) attr2 am s) (\<lambda>s.
         or_fail (post_fc_recv (hd_qp0 hid) hid 0 s) (\<lambda>s.
         or_fail (post_fc_recv (hd_qp2 hid) hid 2 s) (\<lambda>s.
         or_fail (modify_driver (hd_qp0 hid) (rts_attr 10084 attr0) rts_mask s) (\<lambda>s.
         or_fail (modify_driver (hd_qp2 hid) (rts_attr 10083 attr2) rts_mask s) (\<lambda>s.
         res_bind (arm_cq (hd_send_cq hid) s) (\<lambda>s. res_bind (arm_cq (hd_recv_cq hid) s) (\<lambda>s. res_bind (arm_cq (hd_cq2 hid) s) (\<lambda>s.
           Inr (True, s)))))))))))"

text \<open>
  What follows the command for the queue pair itself, whose result is \<open>ret\<close>; its state is looked at whether or not the
  command failed.
\<close>

definition modify_hidden :: "nat \<Rightarrow> ibv_qp_attr \<Rightarrow> u32 \<Rightarrow> int \<Rightarrow> qp_life \<Rightarrow> (bool \<times> int \<times> qp_life) res" where
  "modify_hidden h attr am ret s =
     (let st = qo_state (lf_objs s ! h) in
      if st = QPS_INIT then res_bind (hidden_of h s) (\<lambda>hid.
        res_bind (or_fail (modify_driver (hd_qp0 hid) attr am s) (\<lambda>s. or_fail (modify_driver (hd_qp2 hid) attr am s) (\<lambda>s. Inr (True, s))))
          (\<lambda>(ok, s). Inr (ok, ret, s)))
      else if st = QPS_RTR then res_bind (hidden_of h s) (\<lambda>hid. res_bind (arr_get (lf_objs s) (hd_qp0 hid)) (\<lambda>ob0.
        if qo_state ob0 = QPS_INIT then res_bind (connect_hidden hid attr am s) (\<lambda>(ok, s). Inr (ok, 0, s)) else Inr (True, ret, s)))
      else Inr (True, ret, s))"

definition finish_modify :: "nat \<Rightarrow> ibv_qp_attr \<Rightarrow> u32 \<Rightarrow> int \<Rightarrow> qp_life \<Rightarrow> (int \<times> qp_life) res" where
  "finish_modify h attr am ret s =
     res_bind (if ret = 0 \<and> resets attr am
       then res_bind (reset_qp h s) (\<lambda>s. if qo_kind (lf_objs s ! h) = QPT_RC
         then res_bind (hidden_of h s) (\<lambda>hid. res_bind (reset_qp (hd_qp0 hid) s) (reset_qp (hd_qp2 hid))) else Inr s)
       else Inr s) (\<lambda>s. Inr (ret, s\<lparr>lf_start_flag := True\<rparr>))"

definition mlx4_modify_qp :: "nat \<Rightarrow> ibv_qp_attr \<Rightarrow> u32 \<Rightarrow> qp_life \<Rightarrow> (int \<times> qp_life) res" where
  "mlx4_modify_qp h attr am s =
     (let s = s\<lparr>lf_start_flag := False\<rparr> in res_bind (arr_get (lf_objs s) h) (\<lambda>ob.
      res_bind (if am AND IBV_QP_PORT = 0 then Inr (0, s)
        else res_bind (update_port_data h (at_port attr) s) (\<lambda>(ret, s). if ret \<noteq> 0 then Inr (ret, s)
          else res_bind (hidden_of h s) (\<lambda>hid. res_bind (update_port_data (hd_qp0 hid) (at_port attr) s) (\<lambda>(_, s).
            res_bind (update_port_data (hd_qp2 hid) (at_port attr) s) (\<lambda>(_, s). Inr (0, s)))))) (\<lambda>(ret, s).
      if ret \<noteq> 0 then Inr (ret, s)
      else res_bind (if leaves_reset h attr am s
          then res_bind (init_ownership h s) (\<lambda>s. res_bind (hidden_of h s) (\<lambda>hid. res_bind (init_ownership (hd_qp0 hid) s) (init_ownership (hd_qp2 hid))))
          else Inr s) (\<lambda>s.
        res_bind (ibv_cmd_modify_qp h attr am s) (\<lambda>(ret, s).
          if qo_kind ob \<noteq> QPT_RC then finish_modify h attr am ret s
          else res_bind (modify_hidden h attr am ret s) (\<lambda>(ok, ret, s).
            if \<not> ok then Inr (1, s) else finish_modify h attr am ret s))))))"

section \<open>Creation\<close>

definition hidden_init :: "nat option \<Rightarrow> nat option \<Rightarrow> qp_init" where
  "hidden_init send_cq recv_cq = \<lparr>qi_kind = QPT_RC, qi_cap = \<lparr>cap_max_send_wr = SPLIT_MAX_SEND_WR, cap_max_recv_wr = SPLIT_MAX_RECV_WR,
     cap_max_send_sge = 1, cap_max_recv_sge = 1, cap_max_inline_data = 100\<rparr>, qi_sig_all = False, qi_srq = None, qi_send_cq = send_cq,
     qi_recv_cq = recv_cq, qi_context = 1\<rparr>"

text \<open>
  Three channels, whose results are not tested, the three completion queues, the two hidden queue pairs and then the one
  asked for; a hidden queue pair 2 or a queue pair that could not be created is dereferenced. \<open>fc_addr\<close> is the
  address of the messages in the new object; the registration of the region takes a number of the script and has key \<open>lkey\<close>.
\<close>

definition link_hidden :: "nat \<Rightarrow> hidden \<Rightarrow> qp_init \<Rightarrow> bool \<Rightarrow> qp_life \<Rightarrow> qp_life" where
  "link_hidden h hid a rr_ok s = upd_life_qp h
     (\<lambda>q. q\<lparr>mq_rq := (mq_rq q)\<lparr>rq_exchange_done := - 1, rq_rr := (if rr_ok then \<lparr>rr_slot = replicate RR_BUFFER_INIT_CAP None, rr_size = 0,
        rr_capacity = RR_BUFFER_INIT_CAP\<rparr> else rq_rr (mq_rq q))\<rparr>\<rparr>)
     (s\<lparr>lf_hidden := (lf_hidden s)[h := Some hid], lf_objs := (lf_objs s)[h := (lf_objs s ! h)\<lparr>qo_small := qi_context a\<rparr>]\<rparr>)"

definition create_cqs :: "qp_life \<Rightarrow> ((nat option \<times> nat option \<times> nat option) \<times> qp_life) res" where
  "create_cqs s =
     res_bind (next_code s) (\<lambda>(_, s). res_bind (next_code s) (\<lambda>(_, s). res_bind (next_code s) (\<lambda>(_, s).
     res_bind (mlx4_create_cq SPLIT_MAX_CQE s) (\<lambda>(send_cq, s). res_bind (mlx4_create_cq SPLIT_MAX_CQE s) (\<lambda>(recv_cq, s).
     res_bind (mlx4_create_cq SPLIT_MAX_CQE s) (\<lambda>(cq2, s). Inr ((send_cq, recv_cq, cq2), s)))))))"

definition mlx4_create_qp :: "qp_init \<Rightarrow> u64 \<Rightarrow> u32 \<Rightarrow> qp_life \<Rightarrow> ((nat \<times> qp_cap) option \<times> qp_life) res" where
  "mlx4_create_qp a fc_addr lkey s =
     res_bind (create_cqs s) (\<lambda>((send_cq, recv_cq, cq2), s).
     res_bind (mlx4_exp_create_qp (hidden_init cq2 cq2) s) (\<lambda>(r2, s). case r2 of None \<Rightarrow> Inl Null_deref
     | Some (qp2, _) \<Rightarrow> res_bind (mlx4_exp_create_qp (hidden_init send_cq recv_cq) s) (\<lambda>(r0, s). case r0 of None \<Rightarrow> Inr (None, s)
     | Some (qp0, _) \<Rightarrow> res_bind (mlx4_exp_create_qp a s) (\<lambda>(r, s). case r of None \<Rightarrow> Inl Null_deref
     | Some (h, cap) \<Rightarrow>
         res_bind (next_code s) (\<lambda>(mr, s). res_bind (next_code s) (\<lambda>(rr, s).
           Inr (Some (h, cap), link_hidden h \<lparr>hd_qp0 = qp0, hd_qp2 = qp2, hd_send_cq = send_cq, hd_recv_cq = recv_cq, hd_cq2 = cq2,
             hd_fc_addr = fc_addr, hd_fc_mr = (if mr = 0 then Some lkey else None)\<rparr> a (rr = 0) s)))))))"

section \<open>Destruction\<close>

text \<open>The order in which the locks of two completion queues are taken and released.\<close>

definition mlx4_lock_cqs :: "(nat \<Rightarrow> u32) \<Rightarrow> nat option \<Rightarrow> nat option \<Rightarrow> nat list" where
  "mlx4_lock_cqs cqn send_cq recv_cq = (case (send_cq, recv_cq) of
     (Some s, Some r) \<Rightarrow> if s = r then [s] else if cqn s < cqn r then [s, r] else [r, s]
   | (Some s, None) \<Rightarrow> [s] | (None, Some r) \<Rightarrow> [r] | (None, None) \<Rightarrow> [])"

definition mlx4_unlock_cqs :: "(nat \<Rightarrow> u32) \<Rightarrow> nat option \<Rightarrow> nat option \<Rightarrow> nat list" where
  "mlx4_unlock_cqs cqn send_cq recv_cq = (case (send_cq, recv_cq) of
     (Some s, Some r) \<Rightarrow> if s = r then [s] else if cqn s < cqn r then [r, s] else [s, r]
   | (Some s, None) \<Rightarrow> [s] | (None, Some r) \<Rightarrow> [r] | (None, None) \<Rightarrow> [])"

text \<open>What \<open>mlx4_dealloc_qp_buf\<close> releases.\<close>

definition dealloc_list :: "mlx4_qp \<Rightarrow> resource list" where
  "dealloc_list q = (if rq_cnt (mq_rq q) \<noteq> 0 then [Rq_ids] else []) @ (if sq_cnt (mq_sq q) \<noteq> 0 then [Sq_ids] else []) @
     (if sq_cnt (mq_sq q) \<noteq> 0 \<or> rq_cnt (mq_rq q) \<noteq> 0 then [Qp_buf] else [])"

definition clear_number :: "nat \<Rightarrow> qp_life \<Rightarrow> qp_life res" where
  "clear_number h s = res_bind (mlx4_clear_qp (cx_qp_table (lf_cx s)) (mq_num (cx_qps (lf_cx s) ! h))) (\<lambda>t. Inr (s\<lparr>lf_cx := (lf_cx s)\<lparr>cx_qp_table := t\<rparr>\<rparr>))"

definition mlx4_destroy_qp :: "nat \<Rightarrow> qp_life \<Rightarrow> (int \<times> qp_life) res" where
  "mlx4_destroy_qp h s = res_bind (arr_get (lf_objs s) h) (\<lambda>ob. res_bind (arr_get (cx_qps (lf_cx s)) h) (\<lambda>q.
     res_bind (next_code s) (\<lambda>(ret, s). if ret \<noteq> 0 then Inr (ret, s)
     else res_bind (drop_resources h [Kernel_qp] s) (\<lambda>s. res_bind (hidden_of h s) (\<lambda>hid.
       let h0 = hd_qp0 hid in res_bind (arr_get (cx_qps (lf_cx s)) h0) (\<lambda>q0.
       res_bind (clean_cqs h0 None s) (\<lambda>s. res_bind (clean_cqs h (mq_srq q) s) (\<lambda>s.
       res_bind (if sq_cnt (mq_sq q) \<noteq> 0 \<or> rq_cnt (mq_rq q) \<noteq> 0 then res_bind (clear_number h0 s) (clear_number h) else Inr s) (\<lambda>s.
       let s = (case qo_bf_page ob of None \<Rightarrow> s | Some i \<Rightarrow> s\<lparr>lf_bf_used := (lf_bf_used s)[i := False], lf_bf_free := lf_bf_free s + 1\<rparr>) in
       res_bind (if rq_cnt (mq_rq q) \<noteq> 0 then res_bind (drop_resources h0 [Recv_db] s) (drop_resources h [Recv_db]) else Inr s) (\<lambda>s.
       res_bind (drop_resources h0 (dealloc_list q0 @ [Qp_mem]) s) (\<lambda>s. res_bind (drop_resources h (dealloc_list q @ [Qp_mem]) s) (\<lambda>s.
         Inr (0, s)))))))))))))"

end
