(* ===== verification/Qp_Connect.thy ===== *)
theory Qp_Connect
  imports Qp_Life Split_Example
begin

text \<open>
  Connecting a queue pair connects its hidden ones: \<open>mlx4_modify_qp\<close> to INIT and then to RTR leaves the hidden queue pairs in the state
  that the theorems on split messages start from.
\<close>

unbundle bit_operations_syntax

section \<open>A kernel that accepts\<close>

text \<open>The next \<open>k\<close> results are 0.\<close>

definition willing :: "nat \<Rightarrow> qp_life \<Rightarrow> bool" where
  "willing k s \<longleftrightarrow> k \<le> length (lf_script s) \<and> (\<forall>c\<in>set (take k (lf_script s)). c = 0)"

lemma willing_mono: "willing k s \<Longrightarrow> j \<le> k \<Longrightarrow> willing j s"
  using set_take_subset_set_take [of j k "lf_script s"] by (auto simp: willing_def)

lemma willing_next:
  assumes "willing (k + 1) s"
  obtains rs where "next_code s = Inr (0, s\<lparr>lf_script := rs\<rparr>)" "willing k (s\<lparr>lf_script := rs\<rparr>)"
  using assms that by (cases "lf_script s") (auto simp: willing_def next_code_def)

section \<open>Queue pairs without send requests\<close>

definition sq_idle :: "send_queue \<Rightarrow> bool" where
  "sq_idle q \<longleftrightarrow> sq_inv q \<and> \<not> sq_ignore_overflow q \<and> 1 \<le> sq_max_gs q \<and> outstanding q = 0 \<and> 0 < sq_max_post q"

definition qp_in :: "qp_state \<Rightarrow> qp_life \<Rightarrow> nat \<Rightarrow> bool" where
  "qp_in st s i \<longleftrightarrow> i < length (lf_objs s) \<and> qo_state (lf_objs s ! i) = st \<and> qo_kind (lf_objs s ! i) = QPT_RC \<and> in_table (lf_cx s) i \<and>
     sq_idle (mq_sq (cx_qps (lf_cx s) ! i)) \<and> rq_init (mq_rq (cx_qps (lf_cx s) ! i)) = (st = QPS_INIT)"

lemma sq_idle_ethernet: "sq_idle (q\<lparr>sq_qc := (sq_qc q)\<lparr>sc_ethernet := e\<rparr>\<rparr>) = sq_idle q"
  by (simp add: sq_idle_def sq_inv_def limits_ok_def outstanding_def)

lemma sq_idle_init:
  assumes "sq_idle q"
  shows "\<exists>q'. mlx4_qp_init_sq_ownership q = Inr q' \<and> sq_idle q'"
proof -
  have q: "length (sq_slots q) = sq_cnt q" "\<forall>s\<in>set (sq_slots q). slot_ok (sq_shift q) s" "6 \<le> sq_shift q"
    using assms by (auto simp: sq_idle_def sq_inv_def limits_ok_def)
  obtain ss where ss: "init_slots (sq_shift q) (sq_slots q) = Inr ss" "length ss = length (sq_slots q)" "\<forall>s\<in>set ss. slot_ok (sq_shift q) s"
    using init_slots_ok [of "sq_slots q" "sq_shift q"] q(2,3) by (auto simp: slot_ok_def)
  have "sq_idle (q\<lparr>sq_slots := ss\<rparr>)"
    using assms ss(2,3) by (simp add: sq_idle_def sq_inv_def outstanding_def)
  then show ?thesis using ss(1,2) q(1) by (intro exI [of _ "q\<lparr>sq_slots := ss\<rparr>"]) (simp add: mlx4_qp_init_sq_ownership_def)
qed

section \<open>What a call leaves alone\<close>

text \<open>
  Only the queue pairs of \<open>A\<close> change; they keep their numbers and their receives, and the kernel is given the commands \<open>cs\<close>.
\<close>

definition kept :: "mlx4_qp \<Rightarrow> mlx4_qp \<Rightarrow> bool" where
  "kept q q' \<longleftrightarrow> mq_num q' = mq_num q \<and> mq_srq q' = mq_srq q \<and> mq_rq q' = (mq_rq q)\<lparr>rq_init := rq_init (mq_rq q')\<rparr>"

definition stepped :: "nat set \<Rightarrow> (nat \<times> ibv_qp_attr \<times> u32) list \<Rightarrow> qp_life \<Rightarrow> qp_life \<Rightarrow> bool" where
  "stepped A cs s s' \<longleftrightarrow> lf_hidden s' = lf_hidden s \<and> lf_cqs s' = lf_cqs s \<and> lf_cmds s' = lf_cmds s @ cs \<and> length (lf_objs s') = length (lf_objs s) \<and>
     length (cx_qps (lf_cx s')) = length (cx_qps (lf_cx s)) \<and> cx_qp_table (lf_cx s') = cx_qp_table (lf_cx s) \<and>
     (\<forall>i. kept (cx_qps (lf_cx s) ! i) (cx_qps (lf_cx s') ! i)) \<and>
     (\<forall>i. i \<notin> A \<longrightarrow> lf_objs s' ! i = lf_objs s ! i \<and> cx_qps (lf_cx s') ! i = cx_qps (lf_cx s) ! i)"

lemma kept_refl [simp]: "kept q q"
  by (simp add: kept_def)

lemma kept_trans: "kept a b \<Longrightarrow> kept b c \<Longrightarrow> kept a c"
  unfolding kept_def by (metis recv_queue.update_convs(11) recv_queue.surjective)

lemma stepped_refl: "stepped A [] s s"
  by (simp add: stepped_def)

lemma stepped_trans: "stepped A cs s s' \<Longrightarrow> stepped B ds s' s'' \<Longrightarrow> stepped (A \<union> B) (cs @ ds) s s''"
  unfolding stepped_def by auto (blast intro: kept_trans)

lemma qp_in_stepped: "stepped A cs s s' \<Longrightarrow> i \<notin> A \<Longrightarrow> qp_in st s' i = qp_in st s i"
  by (simp add: stepped_def qp_in_def in_table_def)

lemma willing_simps [simp]:
  "willing k (s\<lparr>lf_start_flag := b\<rparr>) = willing k s" "willing k (s\<lparr>lf_cmds := cs\<rparr>) = willing k s" "willing k (s\<lparr>lf_cqs := qs\<rparr>) = willing k s"
  "willing k (upd_life_qp i f s) = willing k s" "willing k (set_state i st s) = willing k s"
  by (simp_all add: willing_def upd_life_qp_def set_state_def)

text \<open>A change of one queue pair, in its data and in its state.\<close>

lemma stepped_upd:
  assumes "i < length (cx_qps (lf_cx s))" "kept (cx_qps (lf_cx s) ! i) (f (cx_qps (lf_cx s) ! i))"
  shows "stepped {i} [] s (upd_life_qp i f s)"
proof -
  have "kept (cx_qps (lf_cx s) ! j) ((cx_qps (lf_cx s))[i := f (cx_qps (lf_cx s) ! i)] ! j)" for j
    using assms by (cases "j = i") simp_all
  then show ?thesis by (simp add: stepped_def upd_life_qp_def upd_qp_def)
qed

lemma qp_in_upd:
  assumes "qp_in st s i" "kept (cx_qps (lf_cx s) ! i) (f (cx_qps (lf_cx s) ! i))" "sq_idle (mq_sq (f (cx_qps (lf_cx s) ! i)))"
    and "rq_init (mq_rq (f (cx_qps (lf_cx s) ! i))) = rq_init (mq_rq (cx_qps (lf_cx s) ! i))"
  shows "qp_in st (upd_life_qp i f s) i"
  using assms by (simp add: qp_in_def in_table_def upd_life_qp_def upd_qp_def kept_def)

lemma set_state_ok:
  assumes "qp_in st s i"
  shows "qp_in st' (set_state i st' s) i" "stepped {i} [] s (set_state i st' s)"
proof -
  have i: "i < length (lf_objs s)" "i < length (cx_qps (lf_cx s))" using assms by (simp_all add: qp_in_def in_table_def)
  let ?f = "\<lambda>q. q\<lparr>mq_rq := (mq_rq q)\<lparr>rq_init := (st' = QPS_INIT)\<rparr>\<rparr>"
  show "qp_in st' (set_state i st' s) i"
    using assms i by (simp add: qp_in_def in_table_def set_state_def upd_life_qp_def upd_qp_def)
  have "kept (cx_qps (lf_cx s) ! j) ((cx_qps (lf_cx s))[i := ?f (cx_qps (lf_cx s) ! i)] ! j)" for j
    using i by (cases "j = i") (simp_all add: kept_def)
  then show "stepped {i} [] s (set_state i st' s)" by (simp add: stepped_def set_state_def upd_life_qp_def upd_qp_def)
qed

lemma stepped_script: "stepped A cs (s\<lparr>lf_script := r\<rparr>) s' = stepped A cs s s'" "qp_in st (s\<lparr>lf_script := r\<rparr>) i = qp_in st s i"
  by (simp_all add: stepped_def qp_in_def)

section \<open>The steps of a change of state\<close>

lemma port_ok:
  assumes "qp_in st s i" "willing (k + 1) s"
  shows "\<exists>s'. update_port_data i p s = Inr (0, s') \<and> willing k s' \<and> qp_in st s' i \<and> stepped {i} [] s s'"
proof -
  obtain rs where rs: "next_code s = Inr (0, s\<lparr>lf_script := rs\<rparr>)" "willing k (s\<lparr>lf_script := rs\<rparr>)" using willing_next [OF assms(2)] .
  let ?s = "s\<lparr>lf_script := rs\<rparr>" and ?eth = "lf_ethernet s p"
  define raw where "raw = (qo_kind (lf_objs s ! i) = QPT_RAW_PACKET \<and> ?eth)"
  define f :: "mlx4_qp \<Rightarrow> mlx4_qp" where "f = (\<lambda>q. q\<lparr>mq_sq := (mq_sq q)\<lparr>sq_qc := (sq_qc (mq_sq q))\<lparr>sc_ethernet := ?eth\<rparr>\<rparr>, mq_ethernet := ?eth,
           mq_rx_csum := mq_rx_csum q \<or> raw \<and> dc_rx_csum (lf_dev s), mq_rx_vxlan := mq_rx_vxlan q \<or> raw \<and> dc_rx_vxlan (lf_dev s)\<rparr>)"
  have i: "i < length (lf_objs s)" "i < length (cx_qps (lf_cx s))" using assms(1) by (simp_all add: qp_in_def in_table_def)
  have f: "kept q (f q)" "mq_sq (f q) = (mq_sq q)\<lparr>sq_qc := (sq_qc (mq_sq q))\<lparr>sc_ethernet := ?eth\<rparr>\<rparr>" "mq_rq (f q) = mq_rq q" for q
    by (simp_all add: f_def kept_def)
  have q: "qp_in st ?s i" using assms(1) by (simp add: stepped_script)
  have "update_port_data i p s = Inr (0, upd_life_qp i f ?s)"
    using i rs(1) by (simp add: update_port_data_def arr_get_def f_def raw_def Let_def)
  moreover have "qp_in st (upd_life_qp i f ?s) i"
    using q f by (intro qp_in_upd) (simp_all add: sq_idle_ethernet qp_in_def)
  moreover have "stepped {i} [] s (upd_life_qp i f ?s)"
    using stepped_upd [of i ?s f] i f(1) by (simp add: stepped_script)
  ultimately show ?thesis using rs(2) by simp
qed

lemma ownership_ok:
  assumes "qp_in st s i"
  shows "\<exists>s'. init_ownership i s = Inr s' \<and> (\<forall>k. willing k s' = willing k s) \<and> qp_in st s' i \<and> stepped {i} [] s s'"
proof -
  have i: "i < length (cx_qps (lf_cx s))" "sq_idle (mq_sq (cx_qps (lf_cx s) ! i))" using assms by (simp_all add: qp_in_def in_table_def)
  obtain sq where sq: "mlx4_qp_init_sq_ownership (mq_sq (cx_qps (lf_cx s) ! i)) = Inr sq" "sq_idle sq" using sq_idle_init [OF i(2)] by blast
  let ?f = "\<lambda>q. q\<lparr>mq_sq := sq\<rparr>"
  have "init_ownership i s = Inr (upd_life_qp i ?f s)" using i(1) sq(1) by (simp add: init_ownership_def arr_get_def)
  moreover have "qp_in st (upd_life_qp i ?f s) i" by (rule qp_in_upd [OF assms]) (simp_all add: kept_def sq(2))
  moreover have "stepped {i} [] s (upd_life_qp i ?f s)" by (rule stepped_upd [OF i(1)]) (simp add: kept_def)
  ultimately show ?thesis by simp
qed

lemma command_ok:
  assumes "qp_in st s i" "am AND IBV_QP_STATE \<noteq> 0" "willing (k + 1) s"
  shows "\<exists>s'. ibv_cmd_modify_qp i attr am s = Inr (0, s') \<and> willing k s' \<and> qp_in (at_state attr) s' i \<and> stepped {i} [(i, attr, am)] s s'"
proof -
  obtain rs where rs: "next_code s = Inr (0, s\<lparr>lf_script := rs\<rparr>)" "willing k (s\<lparr>lf_script := rs\<rparr>)" using willing_next [OF assms(3)] .
  let ?s = "s\<lparr>lf_script := rs, lf_cmds := lf_cmds s @ [(i, attr, am)]\<rparr>"
  have q: "qp_in st ?s i" "stepped {i} [(i, attr, am)] s ?s" using assms(1) by (simp_all add: qp_in_def stepped_def)
  have "ibv_cmd_modify_qp i attr am s = Inr (0, set_state i (at_state attr) ?s)" using rs(1) assms(2) by (simp add: ibv_cmd_modify_qp_def Let_def)
  then show ?thesis using rs(2) set_state_ok [OF q(1)] stepped_trans [OF q(2) set_state_ok(2) [OF q(1)]] by auto
qed

lemma modify_driver_ok:
  assumes "qp_in st s i" "am AND IBV_QP_STATE \<noteq> 0" "at_state attr \<noteq> QPS_RESET" "willing (k + 1 + 1) s"
  shows "\<exists>s'. modify_driver i attr am s = Inr (0, s') \<and> willing k s' \<and> qp_in (at_state attr) s' i \<and> stepped {i} [(i, attr, am)] s s'"
proof -
  have i: "i < length (lf_objs s)" using assms(1) by (simp add: qp_in_def)
  obtain s1 where s1: "(if am AND IBV_QP_PORT \<noteq> 0 then update_port_data i (at_port attr) s else Inr (0, s)) = Inr (0, s1)"
      "willing (k + 1) s1" "qp_in st s1 i" "stepped {i} [] s s1"
    using port_ok [OF assms(1,4), of "at_port attr"] willing_mono [OF assms(4), of "k + 1"] assms(1) stepped_refl [of "{i}" s]
    by (cases "am AND IBV_QP_PORT = 0") auto
  obtain s2 where s2: "(if leaves_reset i attr am s1 then init_ownership i s1 else Inr s1) = Inr s2"
      "willing (k + 1) s2" "qp_in st s2 i" "stepped {i} [] s1 s2"
    using ownership_ok [OF s1(3)] s1(2,3) stepped_refl [of "{i}" s1] by (cases "leaves_reset i attr am s1") auto
  obtain s3 where s3: "ibv_cmd_modify_qp i attr am s2 = Inr (0, s3)" "willing k s3" "qp_in (at_state attr) s3 i" "stepped {i} [(i, attr, am)] s2 s3"
    using command_ok [OF s2(3) assms(2) s2(2)] by blast
  have "modify_driver i attr am s = Inr (0, s3)"
    using i s1(1) s2(1) s3(1) assms(3) by (simp add: modify_driver_def arr_get_def resets_def)
  then show ?thesis using s3(2,3) stepped_trans [OF stepped_trans [OF s1(4) s2(4)] s3(4)] by auto
qed

text \<open>A queue pair with its hidden ones, in one state and in another.\<close>

definition trio :: "qp_state \<Rightarrow> qp_state \<Rightarrow> qp_life \<Rightarrow> nat \<Rightarrow> hidden \<Rightarrow> bool" where
  "trio st st0 s h hid \<longleftrightarrow> distinct [h, hd_qp0 hid, hd_qp2 hid] \<and> h < length (lf_hidden s) \<and> lf_hidden s ! h = Some hid \<and>
     qp_in st s h \<and> qp_in st0 s (hd_qp0 hid) \<and> qp_in st0 s (hd_qp2 hid)"

abbreviation members :: "nat \<Rightarrow> hidden \<Rightarrow> nat set" where
  "members h hid \<equiv> {h, hd_qp0 hid, hd_qp2 hid}"

lemma trio_stepped:
  assumes "stepped {i} cs s s'" "trio st st0 s h hid" "qp_in st' s' i"
  shows "i = h \<Longrightarrow> trio st' st0 s' h hid" "i \<in> {hd_qp0 hid, hd_qp2 hid} \<Longrightarrow> st' = st0 \<Longrightarrow> trio st st0 s' h hid"
  using assms qp_in_stepped [OF assms(1)] by (auto simp: trio_def stepped_def)

lemma stepped_mono: "stepped A cs s s' \<Longrightarrow> A \<subseteq> B \<Longrightarrow> stepped B cs s s'"
  by (auto simp: stepped_def)

lemma stepped_members:
  "stepped (members h hid) cs s s' \<Longrightarrow> stepped {i} ds s' s'' \<Longrightarrow> i \<in> members h hid \<Longrightarrow> stepped (members h hid) (cs @ ds) s s''"
  by (rule stepped_mono [OF stepped_trans]) auto

lemma hidden_of_trio: "trio st st0 s h hid \<Longrightarrow> hidden_of h s = Inr hid"
  by (simp add: trio_def hidden_of_def arr_get_def)

lemma ports_ok:
  assumes "trio st st0 s h hid" "willing (k + 1 + 1 + 1) s"
  shows "\<exists>s'. (if am AND IBV_QP_PORT = 0 then Inr (0, s)
        else res_bind (update_port_data h (at_port attr) s) (\<lambda>(ret, s). if ret \<noteq> 0 then Inr (ret, s)
          else res_bind (hidden_of h s) (\<lambda>hid. res_bind (update_port_data (hd_qp0 hid) (at_port attr) s) (\<lambda>(_, s).
            res_bind (update_port_data (hd_qp2 hid) (at_port attr) s) (\<lambda>(_, s). Inr (0, s)))))) = Inr (0 :: int, s') \<and>
     willing k s' \<and> trio st st0 s' h hid \<and> stepped (members h hid) [] s s'"
proof (cases "am AND IBV_QP_PORT = 0")
  case True
  then show ?thesis using assms willing_mono [OF assms(2), of k] stepped_refl by auto
next
  case False
  have q: "qp_in st s h" using assms(1) by (simp add: trio_def)
  obtain s1 where s1: "update_port_data h (at_port attr) s = Inr (0, s1)" "willing (k + 1 + 1) s1" "qp_in st s1 h" "stepped {h} [] s s1"
    using port_ok [OF q assms(2)] by blast
  note t1 = trio_stepped(1) [OF s1(4) assms(1) s1(3) refl]
  then have q: "qp_in st0 s1 (hd_qp0 hid)" by (simp add: trio_def)
  obtain s2 where s2: "update_port_data (hd_qp0 hid) (at_port attr) s1 = Inr (0, s2)" "willing (k + 1) s2" "qp_in st0 s2 (hd_qp0 hid)"
      "stepped {hd_qp0 hid} [] s1 s2" using port_ok [OF q s1(2)] by blast
  have t2: "trio st st0 s2 h hid" by (rule trio_stepped(2) [OF s2(4) t1 s2(3)]) simp_all
  then have q: "qp_in st0 s2 (hd_qp2 hid)" by (simp add: trio_def)
  obtain s3 where s3: "update_port_data (hd_qp2 hid) (at_port attr) s2 = Inr (0, s3)" "willing k s3" "qp_in st0 s3 (hd_qp2 hid)"
      "stepped {hd_qp2 hid} [] s2 s3" using port_ok [OF q s2(2)] by blast
  have t3: "trio st st0 s3 h hid" by (rule trio_stepped(2) [OF s3(4) t2 s3(3)]) simp_all
  have "stepped (members h hid) [] s s3"
    using stepped_trans [OF s1(4) stepped_trans [OF s2(4) s3(4)]] by (simp add: insert_commute)
  then show ?thesis using False s1(1) s2(1) s3(1,2) t3 hidden_of_trio [OF t1] by simp
qed

lemma owners_ok:
  assumes "trio st st0 s h hid"
  shows "\<exists>s'. (if b then res_bind (init_ownership h s) (\<lambda>s. res_bind (hidden_of h s) (\<lambda>hid.
        res_bind (init_ownership (hd_qp0 hid) s) (init_ownership (hd_qp2 hid)))) else Inr s) = Inr s' \<and>
     (\<forall>k. willing k s' = willing k s) \<and> trio st st0 s' h hid \<and> stepped (members h hid) [] s s'"
proof (cases b)
  case False
  then show ?thesis using assms stepped_refl by auto
next
  case True
  have q: "qp_in st s h" using assms(1) by (simp add: trio_def)
  obtain s1 where s1: "init_ownership h s = Inr s1" "\<forall>k. willing k s1 = willing k s" "qp_in st s1 h" "stepped {h} [] s s1"
    using ownership_ok [OF q] by blast
  note t1 = trio_stepped(1) [OF s1(4) assms(1) s1(3) refl]
  then have q: "qp_in st0 s1 (hd_qp0 hid)" by (simp add: trio_def)
  obtain s2 where s2: "init_ownership (hd_qp0 hid) s1 = Inr s2" "\<forall>k. willing k s2 = willing k s1" "qp_in st0 s2 (hd_qp0 hid)"
      "stepped {hd_qp0 hid} [] s1 s2" using ownership_ok [OF q] by blast
  have t2: "trio st st0 s2 h hid" by (rule trio_stepped(2) [OF s2(4) t1 s2(3)]) simp_all
  then have q: "qp_in st0 s2 (hd_qp2 hid)" by (simp add: trio_def)
  obtain s3 where s3: "init_ownership (hd_qp2 hid) s2 = Inr s3" "\<forall>k. willing k s3 = willing k s2" "qp_in st0 s3 (hd_qp2 hid)"
      "stepped {hd_qp2 hid} [] s2 s3" using ownership_ok [OF q] by blast
  have t3: "trio st st0 s3 h hid" by (rule trio_stepped(2) [OF s3(4) t2 s3(3)]) simp_all
  have "stepped (members h hid) [] s s3"
    using stepped_trans [OF s1(4) stepped_trans [OF s2(4) s3(4)]] by (simp add: insert_commute)
  then show ?thesis using True s1(1,2) s2(1,2) s3(1,2) t3 hidden_of_trio [OF t1] by simp
qed

text \<open>The part of \<open>mlx4_modify_qp\<close> up to the command for the queue pair itself, and the part after the hidden ones.\<close>

lemma flag_simps:
  "trio st st0 (s\<lparr>lf_start_flag := b\<rparr>) h hid = trio st st0 s h hid" "stepped A cs (s\<lparr>lf_start_flag := b\<rparr>) s' = stepped A cs s s'"
  "stepped A cs s (s'\<lparr>lf_start_flag := b\<rparr>) = stepped A cs s s'"
  by (simp_all add: trio_def stepped_def qp_in_def)

lemma modify_start_ok:
  assumes "trio st st0 s h hid" "am AND IBV_QP_STATE \<noteq> 0" "willing (k + 1 + 1 + 1 + 1) s"
  shows "\<exists>s'. mlx4_modify_qp h attr am s = res_bind (modify_hidden h attr am 0 s') (\<lambda>(ok, ret, s).
       if \<not> ok then Inr (1, s) else finish_modify h attr am ret s) \<and>
     willing k s' \<and> trio (at_state attr) st0 s' h hid \<and> stepped (members h hid) [(h, attr, am)] s s'"
proof -
  let ?s = "s\<lparr>lf_start_flag := False\<rparr>"
  have t: "trio st st0 ?s h hid" "willing (k + 1 + 1 + 1 + 1) ?s" using assms(1,3) by (simp_all add: flag_simps)
  obtain s1 where s1: "(if am AND IBV_QP_PORT = 0 then Inr (0, ?s)
        else res_bind (update_port_data h (at_port attr) ?s) (\<lambda>(ret, s). if ret \<noteq> 0 then Inr (ret, s)
          else res_bind (hidden_of h s) (\<lambda>hid. res_bind (update_port_data (hd_qp0 hid) (at_port attr) s) (\<lambda>(_, s).
            res_bind (update_port_data (hd_qp2 hid) (at_port attr) s) (\<lambda>(_, s). Inr (0, s)))))) = Inr (0 :: int, s1)"
      "willing (k + 1) s1" "trio st st0 s1 h hid" "stepped (members h hid) [] ?s s1"
    using ports_ok [OF t, of am attr] by blast
  obtain s2 where s2: "(if leaves_reset h attr am s1 then res_bind (init_ownership h s1) (\<lambda>s. res_bind (hidden_of h s) (\<lambda>hid.
        res_bind (init_ownership (hd_qp0 hid) s) (init_ownership (hd_qp2 hid)))) else Inr s1) = Inr s2"
      "willing (k + 1) s2" "trio st st0 s2 h hid" "stepped (members h hid) [] s1 s2"
    using owners_ok [OF s1(3), of "leaves_reset h attr am s1"] s1(2) by auto
  have q: "qp_in st s2 h" using s2(3) by (simp add: trio_def)
  obtain s3 where s3: "ibv_cmd_modify_qp h attr am s2 = Inr (0, s3)" "willing k s3" "qp_in (at_state attr) s3 h" "stepped {h} [(h, attr, am)] s2 s3"
    using command_ok [OF q assms(2) s2(2)] by blast
  have ob: "arr_get (lf_objs ?s) h = Inr (lf_objs s ! h)" "qo_kind (lf_objs s ! h) = QPT_RC"
    using assms(1) by (simp_all add: trio_def qp_in_def arr_get_def)
  have "mlx4_modify_qp h attr am s = res_bind (modify_hidden h attr am 0 s3) (\<lambda>(ok, ret, s).
       if \<not> ok then Inr (1, s) else finish_modify h attr am ret s)"
    unfolding mlx4_modify_qp_def Let_def ob(1) res_bind_simps s1(1) prod.case s2(1) s3(1) by (simp add: s2(1) s3(1) ob(2))
  moreover have "stepped (members h hid) [(h, attr, am)] s s3"
  proof -
    have "stepped (members h hid) [] ?s s2" using stepped_trans [OF s1(4) s2(4)] by simp
    from stepped_members [OF this s3(4)] show ?thesis by (simp add: flag_simps)
  qed
  ultimately show ?thesis using s3(2) trio_stepped(1) [OF s3(4) s2(3) s3(3) refl] by blast
qed

lemma finish_ok: "at_state attr \<noteq> QPS_RESET \<Longrightarrow> finish_modify h attr am ret s = Inr (ret, s\<lparr>lf_start_flag := True\<rparr>)"
  by (simp add: finish_modify_def resets_def)

lemma modify_init_ok:
  assumes "trio QPS_RESET QPS_RESET s h hid" "am AND IBV_QP_STATE \<noteq> 0" "at_state attr = QPS_INIT" "willing (k + 8) s"
  shows "\<exists>s'. mlx4_modify_qp h attr am s = Inr (0, s') \<and> willing k s' \<and> trio QPS_INIT QPS_INIT s' h hid \<and>
     stepped (members h hid) [(h, attr, am), (hd_qp0 hid, attr, am), (hd_qp2 hid, attr, am)] s s'"
proof -
  have st: "at_state attr \<noteq> QPS_RESET" using assms(3) by simp
  have "willing (k + 1 + 1 + 1 + 1 + 1 + 1 + 1 + 1) s" using assms(4) by (simp add: eval_nat_numeral)
  then obtain s1 where s1: "mlx4_modify_qp h attr am s = res_bind (modify_hidden h attr am 0 s1) (\<lambda>(ok, ret, s).
       if \<not> ok then Inr (1, s) else finish_modify h attr am ret s)" "willing (k + 1 + 1 + 1 + 1) s1"
      "trio QPS_INIT QPS_RESET s1 h hid" "stepped (members h hid) [(h, attr, am)] s s1"
    using modify_start_ok [OF assms(1,2), of "k + 1 + 1 + 1 + 1" attr] assms(3) by auto
  then have q: "qp_in QPS_RESET s1 (hd_qp0 hid)" "qp_in QPS_RESET s1 (hd_qp2 hid)" "hd_qp2 hid \<noteq> hd_qp0 hid" "h \<noteq> hd_qp0 hid" "h \<noteq> hd_qp2 hid"
    by (auto simp: trio_def)
  obtain s2 where s2: "modify_driver (hd_qp0 hid) attr am s1 = Inr (0, s2)" "willing (k + 1 + 1) s2" "qp_in QPS_INIT s2 (hd_qp0 hid)"
      "stepped {hd_qp0 hid} [(hd_qp0 hid, attr, am)] s1 s2"
    using modify_driver_ok [OF q(1) assms(2) st s1(2)] assms(3) by auto
  have q2: "qp_in QPS_RESET s2 (hd_qp2 hid)" using qp_in_stepped [OF s2(4)] q(2,3) by simp
  obtain s3 where s3: "modify_driver (hd_qp2 hid) attr am s2 = Inr (0, s3)" "willing k s3" "qp_in QPS_INIT s3 (hd_qp2 hid)"
      "stepped {hd_qp2 hid} [(hd_qp2 hid, attr, am)] s2 s3"
    using modify_driver_ok [OF q2 assms(2) st s2(2)] assms(3) by auto
  have t: "trio QPS_INIT QPS_INIT s3 h hid"
    using s1(3) s2(3,4) s3(3,4) q(3-5) qp_in_stepped [OF s2(4), of h] qp_in_stepped [OF s3(4)] by (simp add: trio_def stepped_def)
  have "modify_hidden h attr am 0 s1 = Inr (True, 0, s3)"
    using s1(3) hidden_of_trio [OF s1(3)] s2(1) s3(1) by (simp add: modify_hidden_def trio_def qp_in_def or_fail_def)
  then have "mlx4_modify_qp h attr am s = Inr (0, s3\<lparr>lf_start_flag := True\<rparr>)" using s1(1) finish_ok [OF st] by simp
  then show ?thesis
    using s3(2) t stepped_members [OF stepped_members [OF s1(4) s2(4)] s3(4)] by (simp add: flag_simps)
qed

section \<open>Receives and completion queues\<close>

definition rq_empty :: "recv_queue \<Rightarrow> bool" where
  "rq_empty q \<longleftrightarrow> rq_inv q \<and> \<not> rq_ignore_overflow q \<and> 1 \<le> rq_max_gs q \<and> rq_inlr q = None \<and> rq_outstanding q = 0 \<and> 0 < rq_max_post q"

lemma rq_init_simps [simp]:
  "rq_inv (q\<lparr>rq_init := b\<rparr>) = rq_inv q" "rq_outstanding (q\<lparr>rq_init := b\<rparr>) = rq_outstanding q" "rq_empty (q\<lparr>rq_init := b\<rparr>) = rq_empty q"
  "waits_for (q\<lparr>rq_init := b\<rparr>) a g = waits_for q a g"
  by (simp_all add: rq_inv_def rq_outstanding_def rq_empty_def waits_for_def rq_pos_def)

lemma rq_ready_init: "rq_ready q \<Longrightarrow> rq_ready (q\<lparr>rq_init := False\<rparr>)"
  by (simp add: rq_ready_def)

text \<open>What a receive posted for the link layer changes.\<close>

lemma post_fc_ok:
  assumes "hd_fc_mr hid = Some lkey" "rq_empty (mq_rq (cx_qps (lf_cx s) ! i))" "qp_in st s i" "st \<noteq> QPS_INIT"
  shows "\<exists>q s'. post_fc_recv i hid k s = Inr (0, s') \<and> s' = upd_life_qp i (\<lambda>x. x\<lparr>mq_rq := q\<rparr>) s \<and> qp_in st s' i \<and>
    rq_ready q \<and> rq_outstanding q = 1 \<and> waits_for q 0 (hidden_fc_sge hid lkey k)"
proof -
  let ?q = "mq_rq (cx_qps (lf_cx s) ! i)"
  have i: "i < length (cx_qps (lf_cx s))" "\<not> rq_init ?q" using assms(3,4) by (simp_all add: qp_in_def in_table_def)
  have e: "rq_ready ?q" "rq_outstanding ?q = 0" "0 < rq_max_post ?q" using assms(2) i(2) by (simp_all add: rq_empty_def rq_ready_def)
  obtain q where q: "mlx4_post_recv \<lparr>am_wr = (\<lambda>_. one_recv), am_sge = (\<lambda>_. hidden_fc_sge hid lkey k)\<rparr> True True 1 one_recv ?q = Inr (0, q)"
      "appended [hidden_fc_sge hid lkey k] ?q q"
    using post_recv_one [OF e(1)] e(2,3) by auto
  let ?s = "upd_life_qp i (\<lambda>x. x\<lparr>mq_rq := q\<rparr>) s"
  have "post_fc_recv i hid k s = Inr (0, ?s)" using assms(1) i(1) q(1) by (simp add: post_fc_recv_def arr_get_def)
  moreover have "rq_init q = rq_init ?q" using q(2) by (simp add: appended_def rq_frame_def)
  then have "qp_in st ?s i" using assms(3) i(1) by (simp add: qp_in_def in_table_def upd_life_qp_def upd_qp_def)
  ultimately show ?thesis using q(2) e(2) by (auto simp: appended_def)
qed

lemma arm_ok:
  assumes "c = Some j" "j < length (lf_cqs s)"
  shows "\<exists>qs. arm_cq c s = Inr (s\<lparr>lf_cqs := qs\<rparr>) \<and> length qs = length (lf_cqs s) \<and> (\<forall>m. holds (lf_cqs s ! m) [] \<longrightarrow> holds (qs ! m) [])"
proof -
  let ?cq = "mlx4_arm_cq False (lf_cqs s ! j)"
  have "cq_stepped 0 (lf_cqs s ! j) ?cq" "cq_buf ?cq = cq_buf (lf_cqs s ! j)" by (simp_all add: mlx4_arm_cq_def cq_stepped_def Let_def)
  then have "holds (lf_cqs s ! j) [] \<Longrightarrow> holds ?cq []" using holds_frame by blast
  then have "holds (lf_cqs s ! m) [] \<longrightarrow> holds ((lf_cqs s)[j := ?cq] ! m) []" for m using assms(2) by (cases "m = j") simp_all
  then show ?thesis using assms by (intro exI [of _ "(lf_cqs s)[j := ?cq]"]) (simp add: arm_cq_def arr_get_def)
qed

section \<open>Connecting\<close>

text \<open>The hidden objects as they are before the first message: queues without requests, and completion queues without entries.\<close>

definition empty_cq :: "qp_life \<Rightarrow> nat option \<Rightarrow> bool" where
  "empty_cq s c \<longleftrightarrow> (\<exists>j<length (lf_cqs s). c = Some j \<and> holds (lf_cqs s ! j) [])"

definition hidden_fresh :: "hidden \<Rightarrow> u32 \<Rightarrow> qp_life \<Rightarrow> bool" where
  "hidden_fresh hid lkey s \<longleftrightarrow> hd_fc_mr hid = Some lkey \<and> mq_srq (cx_qps (lf_cx s) ! hd_qp0 hid) = None \<and>
     rq_empty (mq_rq (cx_qps (lf_cx s) ! hd_qp0 hid)) \<and> rq_empty (mq_rq (cx_qps (lf_cx s) ! hd_qp2 hid)) \<and>
     empty_cq s (hd_send_cq hid) \<and> empty_cq s (hd_recv_cq hid) \<and> empty_cq s (hd_cq2 hid)"

definition link_of :: "hidden \<Rightarrow> u32 \<Rightarrow> qp_life \<Rightarrow> fc_type \<times> u32 \<times> u32 \<Rightarrow> fc_type \<Rightarrow> split_link" where
  "link_of hid lkey s m0 m3 = \<lparr>sl_qp0 = hd_qp0 hid, sl_qp2 = hd_qp2 hid, sl_recv_cq = lf_cqs s ! the (hd_recv_cq hid), sl_cq2 = lf_cqs s ! the (hd_cq2 hid),
     sl_msg0 = m0, sl_msg3 = m3, sl_fc_addr = hd_fc_addr hid, sl_lkey = lkey\<rparr>"

lemma rq_empty_kept: "kept q q' \<Longrightarrow> rq_empty (mq_rq q') = rq_empty (mq_rq q)"
  unfolding kept_def by (metis rq_init_simps(3))

lemma hidden_fresh_stepped: "stepped A cs s s' \<Longrightarrow> hidden_fresh hid lkey s' = hidden_fresh hid lkey s"
proof -
  assume st: "stepped A cs s s'"
  then have k: "kept (cx_qps (lf_cx s) ! i) (cx_qps (lf_cx s') ! i)" for i by (simp add: stepped_def)
  from st show ?thesis using k [of "hd_qp0 hid"] by (simp add: hidden_fresh_def empty_cq_def stepped_def rq_empty_kept [OF k] kept_def)
qed

text \<open>The receive that waits survives changes of state.\<close>

definition rq_waits :: "sge \<Rightarrow> recv_queue \<Rightarrow> bool" where
  "rq_waits g q \<longleftrightarrow> rq_inv q \<and> \<not> rq_ignore_overflow q \<and> 1 \<le> rq_max_gs q \<and> rq_inlr q = None \<and> rq_outstanding q = 1 \<and> waits_for q 0 g"

lemma rq_waits_kept:
  assumes "kept q q'"
  shows "rq_waits g (mq_rq q') = rq_waits g (mq_rq q)"
proof -
  have "rq_waits g (r\<lparr>rq_init := b\<rparr>) = rq_waits g r" for r :: recv_queue and b by (simp add: rq_waits_def)
  then show ?thesis using assms unfolding kept_def by metis
qed

definition rtr_commands :: "hidden \<Rightarrow> ibv_qp_attr \<Rightarrow> u32 \<Rightarrow> (nat \<times> ibv_qp_attr \<times> u32) list" where
  "rtr_commands hid attr am = (let a0 = attr\<lparr>at_dest := at_dest attr - 1, at_rq_psn := 10084\<rparr>; a2 = attr\<lparr>at_dest := at_dest attr - 2, at_rq_psn := 10083\<rparr>
     in [(hd_qp0 hid, a0, am), (hd_qp2 hid, a2, am), (hd_qp0 hid, rts_attr 10084 a0, rts_mask), (hd_qp2 hid, rts_attr 10083 a2, rts_mask)])"

text \<open>What the steps behind the receives keep.\<close>

definition waiting_for_info :: "hidden \<Rightarrow> u32 \<Rightarrow> qp_life \<Rightarrow> bool" where
  "waiting_for_info hid lkey s \<longleftrightarrow> mq_srq (cx_qps (lf_cx s) ! hd_qp0 hid) = None \<and>
     rq_waits (hidden_fc_sge hid lkey 0) (mq_rq (cx_qps (lf_cx s) ! hd_qp0 hid)) \<and>
     empty_cq s (hd_send_cq hid) \<and> empty_cq s (hd_recv_cq hid) \<and> empty_cq s (hd_cq2 hid)"

lemma waiting_stepped: "stepped A cs s s' \<Longrightarrow> waiting_for_info hid lkey s' = waiting_for_info hid lkey s"
proof -
  assume st: "stepped A cs s s'"
  then have k: "kept (cx_qps (lf_cx s) ! i) (cx_qps (lf_cx s') ! i)" for i by (simp add: stepped_def)
  from st show ?thesis using k [of "hd_qp0 hid"] by (simp add: waiting_for_info_def empty_cq_def stepped_def rq_waits_kept [OF k] kept_def)
qed

lemma link_ready_of:
  assumes "trio st QPS_RTS s h hid" "waiting_for_info hid lkey s"
  shows "link_ready (lf_cx s) (link_of hid lkey s m0 m3)"
proof -
  let ?l = "link_of hid lkey s m0 m3"
  have g: "fc_sge 0 ?l = hidden_fc_sge hid lkey 0" by (simp add: fc_sge_def hidden_fc_sge_def link_of_def)
  have q: "qp_in QPS_RTS s (hd_qp0 hid)" "qp_in QPS_RTS s (hd_qp2 hid)" "hd_qp0 hid \<noteq> hd_qp2 hid" using assms(1) by (auto simp: trio_def)
  have "rings_quiet ?l" using assms(2) by (auto simp: rings_quiet_def link_of_def waiting_for_info_def empty_cq_def)
  moreover have "recv_side_ready (lf_cx s) ?l"
    using assms(2) q(1) g by (auto simp: recv_side_ready_def own_receives_def rq_ready_def waiting_for_info_def rq_waits_def qp_in_def link_of_def)
  moreover have "ack_side_ready (lf_cx s) ?l"
    using q(2) by (simp add: ack_side_ready_def sq_idle_def qp_in_def link_of_def Let_def)
  ultimately show ?thesis using q(3) by (simp add: link_ready_def link_of_def)
qed

text \<open>The two receives.\<close>

lemma posts_ok:
  assumes "trio st QPS_RTR s h hid" "st \<noteq> QPS_INIT" "hidden_fresh hid lkey s" "willing k s"
  shows "\<exists>s1 s2. post_fc_recv (hd_qp0 hid) hid 0 s = Inr (0, s1) \<and> post_fc_recv (hd_qp2 hid) hid 2 s1 = Inr (0, s2) \<and> willing k s2 \<and>
    trio st QPS_RTR s2 h hid \<and> waiting_for_info hid lkey s2 \<and> lf_cmds s2 = lf_cmds s"
proof -
  let ?a = "hd_qp0 hid" and ?b = "hd_qp2 hid"
  have t: "qp_in QPS_RTR s ?a" "qp_in QPS_RTR s ?b" "qp_in st s h" "?a \<noteq> ?b" "h \<noteq> ?a" "h \<noteq> ?b" using assms(1) by (auto simp: trio_def)
  have e: "hd_fc_mr hid = Some lkey" "rq_empty (mq_rq (cx_qps (lf_cx s) ! ?a))" "rq_empty (mq_rq (cx_qps (lf_cx s) ! ?b))"
    using assms(3) by (simp_all add: hidden_fresh_def)
  obtain q1 s1 where s1: "post_fc_recv ?a hid 0 s = Inr (0, s1)" "s1 = upd_life_qp ?a (\<lambda>x. x\<lparr>mq_rq := q1\<rparr>) s" "qp_in QPS_RTR s1 ?a"
      "rq_ready q1" "rq_outstanding q1 = 1" "waits_for q1 0 (hidden_fc_sge hid lkey 0)"
    using post_fc_ok [OF e(1,2) t(1), of 0] by blast
  have o1: "qp_in st' s1 i = qp_in st' s i" "cx_qps (lf_cx s1) ! i = cx_qps (lf_cx s) ! i" if "i \<noteq> ?a" for i st'
    using that by (simp_all add: s1(2) qp_in_def in_table_def upd_life_qp_def upd_qp_def)
  obtain q2 s2 where s2: "post_fc_recv ?b hid 2 s1 = Inr (0, s2)" "s2 = upd_life_qp ?b (\<lambda>x. x\<lparr>mq_rq := q2\<rparr>) s1" "qp_in QPS_RTR s2 ?b"
    using post_fc_ok [OF e(1), of s1 ?b QPS_RTR 2] e(3) t(2,4) o1 by auto
  have o2: "qp_in st' s2 i = qp_in st' s1 i" "cx_qps (lf_cx s2) ! i = cx_qps (lf_cx s1) ! i" if "i \<noteq> ?b" for i st'
    using that by (simp_all add: s2(2) qp_in_def in_table_def upd_life_qp_def upd_qp_def)
  have fr: "lf_cmds s2 = lf_cmds s" "lf_cqs s2 = lf_cqs s" "lf_hidden s2 = lf_hidden s" "willing k s2 = willing k s"
    by (simp_all add: s1(2) s2(2)) (simp_all add: upd_life_qp_def)
  have a: "?a < length (cx_qps (lf_cx s))" using t(1) by (simp add: qp_in_def in_table_def)
  have "cx_qps (lf_cx s2) ! ?a = (cx_qps (lf_cx s) ! ?a)\<lparr>mq_rq := q1\<rparr>"
    using o2(2) [of ?a] t(4) a by (simp add: s1(2)) (simp add: upd_life_qp_def upd_qp_def)
  then have "waiting_for_info hid lkey s2"
    using assms(3) fr(2) s1(4-6) by (simp add: waiting_for_info_def hidden_fresh_def empty_cq_def rq_waits_def rq_ready_def)
  moreover have "trio st QPS_RTR s2 h hid"
    using assms(1) t o1(1) [of h] o2(1) [of h] o2(1) [of ?a] s1(3) s2(3) fr(3) by (simp add: trio_def)
  ultimately show ?thesis using s1(1) s2(1) fr(1,4) assms(4) by blast
qed

lemma arms_ok:
  assumes "trio st QPS_RTS s h hid" "waiting_for_info hid lkey s" "willing k s"
  shows "\<exists>s'. res_bind (arm_cq (hd_send_cq hid) s) (\<lambda>s. res_bind (arm_cq (hd_recv_cq hid) s) (\<lambda>s. res_bind (arm_cq (hd_cq2 hid) s) (\<lambda>s.
       Inr (True, s)))) = Inr (True, s') \<and> willing k s' \<and> trio st QPS_RTS s' h hid \<and> waiting_for_info hid lkey s' \<and> lf_cmds s' = lf_cmds s"
proof -
  have step: "\<exists>s'. arm_cq c s = Inr s' \<and> willing k s' \<and> trio st QPS_RTS s' h hid \<and> waiting_for_info hid lkey s' \<and> lf_cmds s' = lf_cmds s"
    if c: "empty_cq s c" and s: "trio st QPS_RTS s h hid" "waiting_for_info hid lkey s" "willing k s" for c s
  proof -
    obtain j where j: "c = Some j" "j < length (lf_cqs s)" using c by (auto simp: empty_cq_def)
    obtain qs where qs: "arm_cq c s = Inr (s\<lparr>lf_cqs := qs\<rparr>)" "length qs = length (lf_cqs s)" "\<forall>m. holds (lf_cqs s ! m) [] \<longrightarrow> holds (qs ! m) []"
      using arm_ok [OF j] by blast
    let ?s = "s\<lparr>lf_cqs := qs\<rparr>"
    have "empty_cq s c \<Longrightarrow> empty_cq ?s c" for c using qs(2,3) by (auto simp: empty_cq_def)
    then have "waiting_for_info hid lkey ?s" using s(2) by (simp add: waiting_for_info_def)
    moreover have "trio st QPS_RTS ?s h hid" using s(1) by (simp add: trio_def qp_in_def)
    ultimately show ?thesis using qs(1) s(3) by simp
  qed
  note w = waiting_for_info_def
  obtain s1 where s1: "arm_cq (hd_send_cq hid) s = Inr s1" "willing k s1" "trio st QPS_RTS s1 h hid" "waiting_for_info hid lkey s1" "lf_cmds s1 = lf_cmds s"
    using step [OF _ assms(1,2,3)] assms(2) unfolding w by blast
  obtain s2 where s2: "arm_cq (hd_recv_cq hid) s1 = Inr s2" "willing k s2" "trio st QPS_RTS s2 h hid" "waiting_for_info hid lkey s2" "lf_cmds s2 = lf_cmds s1"
    using step [OF _ s1(3,4,2)] s1(4) unfolding w by blast
  obtain s3 where s3: "arm_cq (hd_cq2 hid) s2 = Inr s3" "willing k s3" "trio st QPS_RTS s3 h hid" "waiting_for_info hid lkey s3" "lf_cmds s3 = lf_cmds s2"
    using step [OF _ s2(3,4,2)] s2(4) unfolding w by blast
  then show ?thesis using s1 s2 by auto
qed

lemma connect_ok:
  assumes "trio st QPS_INIT s h hid" "st \<noteq> QPS_INIT" "hidden_fresh hid lkey s" "am AND IBV_QP_STATE \<noteq> 0" "at_state attr = QPS_RTR" "willing (k + 8) s"
  shows "\<exists>s'. connect_hidden hid attr am s = Inr (True, s') \<and> willing k s' \<and> trio st QPS_RTS s' h hid \<and> waiting_for_info hid lkey s' \<and>
    lf_cmds s' = lf_cmds s @ rtr_commands hid attr am"
proof -
  let ?a = "hd_qp0 hid" and ?b = "hd_qp2 hid"
  define a0 where "a0 = attr\<lparr>at_dest := at_dest attr - SPLIT_QP_NUM_DIFF, at_rq_psn := 10084\<rparr>"
  define a2 where "a2 = attr\<lparr>at_dest := at_dest attr - SPLIT_QP_NUM_DIFF - SPLIT_QP_NUM_DIFF, at_rq_psn := 10083\<rparr>"
  have at: "at_state a0 = QPS_RTR" "at_state a2 = QPS_RTR" "at_state (rts_attr p x) = QPS_RTS" "rts_mask AND IBV_QP_STATE \<noteq> 0" for p x
    using assms(5) by (simp_all add: a0_def a2_def rts_attr_def rts_mask_def macro_defs)
  have rtr: "at_state a0 \<noteq> QPS_RESET" "at_state a2 \<noteq> QPS_RESET" using at by simp_all
  have t: "qp_in QPS_INIT s ?a" "qp_in QPS_INIT s ?b" "?a \<noteq> ?b" "h \<noteq> ?a" "h \<noteq> ?b" using assms(1) by (auto simp: trio_def)
  have w: "willing (k + 1 + 1 + 1 + 1 + 1 + 1 + 1 + 1) s" using assms(6) by (simp add: eval_nat_numeral)
  obtain s1 where s1: "modify_driver ?a a0 am s = Inr (0, s1)" "willing (k + 1 + 1 + 1 + 1 + 1 + 1) s1" "qp_in QPS_RTR s1 ?a"
      "stepped {?a} [(?a, a0, am)] s s1"
    using modify_driver_ok [OF t(1) assms(4) rtr(1) w] at(1) by auto
  have "qp_in QPS_INIT s1 ?b" using qp_in_stepped [OF s1(4)] t(2,3) by simp
  then obtain s2 where s2: "modify_driver ?b a2 am s1 = Inr (0, s2)" "willing (k + 1 + 1 + 1 + 1) s2" "qp_in QPS_RTR s2 ?b"
      "stepped {?b} [(?b, a2, am)] s1 s2"
    using modify_driver_ok [OF _ assms(4) rtr(2) s1(2)] at(2) by auto
  have t2: "trio st QPS_RTR s2 h hid"
    using assms(1) s1(3,4) s2(3,4) t(3-5) qp_in_stepped [OF s1(4), of h] qp_in_stepped [OF s2(4)] by (simp add: trio_def stepped_def)
  have "hidden_fresh hid lkey s2" using assms(3) hidden_fresh_stepped [OF s1(4)] hidden_fresh_stepped [OF s2(4)] by simp
  from posts_ok [OF t2 assms(2) this s2(2)] obtain s3 s4 where s4: "post_fc_recv ?a hid 0 s2 = Inr (0, s3)"
      "post_fc_recv ?b hid 2 s3 = Inr (0, s4)" "willing (k + 1 + 1 + 1 + 1) s4" "trio st QPS_RTR s4 h hid" "waiting_for_info hid lkey s4" "lf_cmds s4 = lf_cmds s2"
    by blast
  have t4: "qp_in QPS_RTR s4 ?a" "qp_in QPS_RTR s4 ?b" using s4(4) by (auto simp: trio_def)
  obtain s5 where s5: "modify_driver ?a (rts_attr 10084 a0) rts_mask s4 = Inr (0, s5)" "willing (k + 1 + 1) s5" "qp_in QPS_RTS s5 ?a"
      "stepped {?a} [(?a, rts_attr 10084 a0, rts_mask)] s4 s5"
    using modify_driver_ok [OF t4(1) at(4) _ s4(3), of "rts_attr 10084 a0"] at(3) by auto
  have "qp_in QPS_RTR s5 ?b" using qp_in_stepped [OF s5(4)] t4(2) t(3) by simp
  then obtain s6 where s6: "modify_driver ?b (rts_attr 10083 a2) rts_mask s5 = Inr (0, s6)" "willing k s6" "qp_in QPS_RTS s6 ?b"
      "stepped {?b} [(?b, rts_attr 10083 a2, rts_mask)] s5 s6"
    using modify_driver_ok [OF _ at(4) _ s5(2), of QPS_RTR ?b "rts_attr 10083 a2"] at(3) by auto
  have t6: "trio st QPS_RTS s6 h hid"
    using s4(4) s5(3,4) s6(3,4) t(3-5) qp_in_stepped [OF s5(4), of h] qp_in_stepped [OF s6(4)] by (simp add: trio_def stepped_def)
  have "waiting_for_info hid lkey s6" using s4(5) waiting_stepped [OF s5(4)] waiting_stepped [OF s6(4)] by simp
  from arms_ok [OF t6 this s6(2)] obtain s7 where s7: "res_bind (arm_cq (hd_send_cq hid) s6) (\<lambda>s. res_bind (arm_cq (hd_recv_cq hid) s) (\<lambda>s.
        res_bind (arm_cq (hd_cq2 hid) s) (\<lambda>s. Inr (True, s)))) = Inr (True, s7)" "willing k s7" "trio st QPS_RTS s7 h hid"
      "waiting_for_info hid lkey s7" "lf_cmds s7 = lf_cmds s6" by blast
  have "connect_hidden hid attr am s = Inr (True, s7)"
    unfolding connect_hidden_def Let_def a0_def [symmetric] a2_def [symmetric] or_fail_def s1(1) s2(1) s4(1,2) s5(1) s6(1) res_bind_simps prod.case
    by (simp add: s2(1) s4(1,2) s5(1) s6(1) s7(1))
  moreover have "lf_cmds s7 = lf_cmds s @ rtr_commands hid attr am"
  proof -
    have c: "stepped A cs x y \<Longrightarrow> lf_cmds y = lf_cmds x @ cs" for A cs x y by (simp add: stepped_def)
    have "lf_cmds s7 = lf_cmds s @ [(?a, a0, am), (?b, a2, am), (?a, rts_attr 10084 a0, rts_mask), (?b, rts_attr 10083 a2, rts_mask)]"
      using c [OF s1(4)] c [OF s2(4)] s4(6) c [OF s5(4)] c [OF s6(4)] s7(5) by simp
    then show ?thesis by (simp add: rtr_commands_def a0_def a2_def SPLIT_QP_NUM_DIFF_def Let_def)
  qed
  ultimately show ?thesis using s7(2-4) by blast
qed

lemma modify_rtr_ok:
  assumes "trio QPS_INIT QPS_INIT s h hid" "hidden_fresh hid lkey s" "am AND IBV_QP_STATE \<noteq> 0" "at_state attr = QPS_RTR" "willing 12 s"
  shows "\<exists>s'. mlx4_modify_qp h attr am s = Inr (0, s') \<and> trio QPS_RTR QPS_RTS s' h hid \<and> waiting_for_info hid lkey s' \<and>
     lf_cmds s' = lf_cmds s @ (h, attr, am) # rtr_commands hid attr am"
proof -
  have st: "at_state attr \<noteq> QPS_RESET" using assms(4) by simp
  have "willing (8 + 1 + 1 + 1 + 1) s" using assms(5) by simp
  then obtain s1 where s1: "mlx4_modify_qp h attr am s = res_bind (modify_hidden h attr am 0 s1) (\<lambda>(ok, ret, s).
       if \<not> ok then Inr (1, s) else finish_modify h attr am ret s)" "willing 8 s1" "trio QPS_RTR QPS_INIT s1 h hid"
      "stepped (members h hid) [(h, attr, am)] s s1"
    using modify_start_ok [OF assms(1,3), of 8 attr] assms(4) by auto
  have "hidden_fresh hid lkey s1" using assms(2) hidden_fresh_stepped [OF s1(4)] by simp
  from connect_ok [OF s1(3) _ this assms(3,4), of 0] s1(2) obtain s2 where s2: "connect_hidden hid attr am s1 = Inr (True, s2)"
      "trio QPS_RTR QPS_RTS s2 h hid" "waiting_for_info hid lkey s2" "lf_cmds s2 = lf_cmds s1 @ rtr_commands hid attr am" by auto
  have "modify_hidden h attr am 0 s1 = Inr (True, 0, s2)"
    using s1(3) hidden_of_trio [OF s1(3)] s2(1) by (simp add: modify_hidden_def trio_def qp_in_def arr_get_def)
  then have "mlx4_modify_qp h attr am s = Inr (0, s2\<lparr>lf_start_flag := True\<rparr>)" using s1(1) finish_ok [OF st] by simp
  moreover have "lf_cmds s1 = lf_cmds s @ [(h, attr, am)]" using s1(4) by (simp add: stepped_def)
  ultimately show ?thesis using s2(2-4) by (simp add: flag_simps) (simp add: waiting_for_info_def empty_cq_def)
qed

text \<open>Before the queue pair is used; the kernel has numbered the three in the order of their creation.\<close>

definition connectable :: "qp_life \<Rightarrow> nat \<Rightarrow> hidden \<Rightarrow> u32 \<Rightarrow> bool" where
  "connectable s h hid lkey \<longleftrightarrow> trio QPS_RESET QPS_RESET s h hid \<and> hidden_fresh hid lkey s \<and> willing 20 s \<and>
     (let num = \<lambda>i. mq_num (cx_qps (lf_cx s) ! i) in num (hd_qp0 hid) = num h - 1 \<and> num (hd_qp2 hid) = num h - 2)"

lemma bring_up_ok:
  assumes "connectable s h hid lkey" "am AND IBV_QP_STATE \<noteq> 0" "bm AND IBV_QP_STATE \<noteq> 0" "at_state i = QPS_INIT" "at_state r = QPS_RTR"
  shows "\<exists>s1 s2. mlx4_modify_qp h i am s = Inr (0, s1) \<and> mlx4_modify_qp h r bm s1 = Inr (0, s2) \<and>
    link_ready (lf_cx s2) (link_of hid lkey s2 m0 m3) \<and>
    lf_cmds s2 = lf_cmds s @ [(h, i, am), (hd_qp0 hid, i, am), (hd_qp2 hid, i, am), (h, r, bm)] @ rtr_commands hid r bm"
proof -
  have c: "trio QPS_RESET QPS_RESET s h hid" "hidden_fresh hid lkey s" "willing (12 + 8) s" using assms(1) by (simp_all add: connectable_def)
  obtain s1 where s1: "mlx4_modify_qp h i am s = Inr (0, s1)" "willing 12 s1" "trio QPS_INIT QPS_INIT s1 h hid"
      "stepped (members h hid) [(h, i, am), (hd_qp0 hid, i, am), (hd_qp2 hid, i, am)] s s1"
    using modify_init_ok [OF c(1) assms(2,4) c(3)] by blast
  have "hidden_fresh hid lkey s1" using c(2) hidden_fresh_stepped [OF s1(4)] by simp
  from modify_rtr_ok [OF s1(3) this assms(3,5) s1(2)] obtain s2 where s2: "mlx4_modify_qp h r bm s1 = Inr (0, s2)"
      "trio QPS_RTR QPS_RTS s2 h hid" "waiting_for_info hid lkey s2" "lf_cmds s2 = lf_cmds s1 @ (h, r, bm) # rtr_commands hid r bm" by blast
  have "lf_cmds s1 = lf_cmds s @ [(h, i, am), (hd_qp0 hid, i, am), (hd_qp2 hid, i, am)]" using s1(4) by (simp add: stepped_def)
  then show ?thesis using s1(1) s2(1,4) link_ready_of [OF s2(2,3)] by simp
qed

text \<open>The attributes that the kernel is given for a queue pair, in order, and two queue pairs that are connected to each other.\<close>

definition attrs_of :: "(nat \<times> ibv_qp_attr \<times> u32) list \<Rightarrow> nat \<Rightarrow> ibv_qp_attr list" where
  "attrs_of cs i = map (\<lambda>(_, a, _). a) (filter (\<lambda>(j, _, _). j = i) cs)"

definition joined :: "ibv_qp_attr list \<Rightarrow> u32 \<Rightarrow> ibv_qp_attr list \<Rightarrow> u32 \<Rightarrow> bool" where
  "joined p n p' n' \<longleftrightarrow> map at_state p = [QPS_INIT, QPS_RTR, QPS_RTS] \<and> map at_state p' = [QPS_INIT, QPS_RTR, QPS_RTS] \<and>
     at_dest (p ! 1) = n' \<and> at_dest (p' ! 1) = n \<and> at_rq_psn (p ! 1) = at_sq_psn (p' ! 2) \<and> at_rq_psn (p' ! 1) = at_sq_psn (p ! 2)"

lemma attrs_of_hidden:
  assumes "distinct [h, hd_qp0 hid, hd_qp2 hid]"
    and "cs = [(h, i, am), (hd_qp0 hid, i, am), (hd_qp2 hid, i, am), (h, r, bm)] @ rtr_commands hid r bm"
  shows "attrs_of cs (hd_qp0 hid) = [i, r\<lparr>at_dest := at_dest r - 1, at_rq_psn := 10084\<rparr>, rts_attr 10084 (r\<lparr>at_dest := at_dest r - 1, at_rq_psn := 10084\<rparr>)]"
    "attrs_of cs (hd_qp2 hid) = [i, r\<lparr>at_dest := at_dest r - 2, at_rq_psn := 10083\<rparr>, rts_attr 10083 (r\<lparr>at_dest := at_dest r - 2, at_rq_psn := 10083\<rparr>)]"
  using assms by (auto simp: attrs_of_def rtr_commands_def Let_def)

text \<open>
  C7: Two applications connect their queue pairs to each other in the usual way, by INIT and RTR. If the kernel has numbered the hidden
  queue pairs of each in the order of their creation and accepts the commands, the hidden ones of the two nodes are then connected to each other:
  each goes through INIT, RTR and RTS once, names its partner's number, and expects the packet number its partner starts with. At both
  ends the receive for the first INFO message waits and nothing else is under way, which is the state from which messages are
  delivered.
\<close>

theorem hidden_pairs_connected:
  assumes "connectable s h hid lkey" "am AND IBV_QP_STATE \<noteq> 0" "bm AND IBV_QP_STATE \<noteq> 0" "at_state i = QPS_INIT" "at_state r = QPS_RTR"
    and "connectable s' h' hid' lkey'" "am' AND IBV_QP_STATE \<noteq> 0" "bm' AND IBV_QP_STATE \<noteq> 0" "at_state i' = QPS_INIT" "at_state r' = QPS_RTR"
    and "at_dest r = mq_num (cx_qps (lf_cx s') ! h')" "at_dest r' = mq_num (cx_qps (lf_cx s) ! h)"
  shows "\<exists>s1 s2 s1' s2'. mlx4_modify_qp h i am s = Inr (0, s1) \<and> mlx4_modify_qp h r bm s1 = Inr (0, s2) \<and>
    mlx4_modify_qp h' i' am' s' = Inr (0, s1') \<and> mlx4_modify_qp h' r' bm' s1' = Inr (0, s2') \<and>
    link_ready (lf_cx s2) (link_of hid lkey s2 m0 m3) \<and> link_ready (lf_cx s2') (link_of hid' lkey' s2' m0' m3') \<and>
    (let p = attrs_of (drop (length (lf_cmds s)) (lf_cmds s2)); p' = attrs_of (drop (length (lf_cmds s')) (lf_cmds s2'));
         num = \<lambda>k. mq_num (cx_qps (lf_cx s) ! k); num' = \<lambda>k. mq_num (cx_qps (lf_cx s') ! k)
     in joined (p (hd_qp0 hid)) (num (hd_qp0 hid)) (p' (hd_qp0 hid')) (num' (hd_qp0 hid')) \<and>
        joined (p (hd_qp2 hid)) (num (hd_qp2 hid)) (p' (hd_qp2 hid')) (num' (hd_qp2 hid')))"
proof -
  obtain s1 s2 where 1: "mlx4_modify_qp h i am s = Inr (0, s1)" "mlx4_modify_qp h r bm s1 = Inr (0, s2)" "link_ready (lf_cx s2) (link_of hid lkey s2 m0 m3)"
      "lf_cmds s2 = lf_cmds s @ [(h, i, am), (hd_qp0 hid, i, am), (hd_qp2 hid, i, am), (h, r, bm)] @ rtr_commands hid r bm"
    using bring_up_ok [OF assms(1-5)] by blast
  obtain s1' s2' where 2: "mlx4_modify_qp h' i' am' s' = Inr (0, s1')" "mlx4_modify_qp h' r' bm' s1' = Inr (0, s2')"
      "link_ready (lf_cx s2') (link_of hid' lkey' s2' m0' m3')"
      "lf_cmds s2' = lf_cmds s' @ [(h', i', am'), (hd_qp0 hid', i', am'), (hd_qp2 hid', i', am'), (h', r', bm')] @ rtr_commands hid' r' bm'"
    using bring_up_ok [OF assms(6-10)] by blast
  have d: "distinct [h, hd_qp0 hid, hd_qp2 hid]" "distinct [h', hd_qp0 hid', hd_qp2 hid']" using assms(1,6) by (simp_all add: connectable_def trio_def)
  note a = attrs_of_hidden [OF d(1), of "drop (length (lf_cmds s)) (lf_cmds s2)" i am r bm] attrs_of_hidden [OF d(2), of "drop (length (lf_cmds s')) (lf_cmds s2')" i' am' r' bm']
  have "let p = attrs_of (drop (length (lf_cmds s)) (lf_cmds s2)); p' = attrs_of (drop (length (lf_cmds s')) (lf_cmds s2'));
         num = \<lambda>k. mq_num (cx_qps (lf_cx s) ! k); num' = \<lambda>k. mq_num (cx_qps (lf_cx s') ! k)
     in joined (p (hd_qp0 hid)) (num (hd_qp0 hid)) (p' (hd_qp0 hid')) (num' (hd_qp0 hid')) \<and>
        joined (p (hd_qp2 hid)) (num (hd_qp2 hid)) (p' (hd_qp2 hid')) (num' (hd_qp2 hid'))"
    using a 1(4) 2(4) assms(1,4-6,9-12) by (simp add: Let_def joined_def rts_attr_def connectable_def)
  then show ?thesis using 1(1-3) 2(1-3) by blast
qed

text \<open>A node with a new queue pair.\<close>

definition ex_hidden :: hidden where
  "ex_hidden = \<lparr>hd_qp0 = 1, hd_qp2 = 2, hd_send_cq = Some 0, hd_recv_cq = Some 1, hd_cq2 = Some 2, hd_fc_addr = 0x5000, hd_fc_mr = Some 3\<rparr>"

definition ex_new_qp :: "u32 \<Rightarrow> mlx4_qp" where
  "ex_new_qp num = (ex_qp3 num ex_user_sge)\<lparr>mq_rq := ex_rq\<lparr>rq_init := False\<rparr>\<rparr>"

definition ex_node :: "nat id_table \<Rightarrow> qp_life" where
  "ex_node t = (ex_life (replicate 20 0) [] [])\<lparr>lf_cx := (ex_ctx3 t)\<lparr>cx_qps := [ex_new_qp 0x123, ex_new_qp 0x122, ex_new_qp 0x121]\<rparr>,
     lf_objs := replicate 3 \<lparr>qo_state = QPS_RESET, qo_kind = QPT_RC, qo_send_cq = None, qo_recv_cq = None, qo_small = 1, qo_bf_page = None\<rparr>,
     lf_hidden := [Some ex_hidden, None, None], lf_cqs := replicate 3 (cq4 0 (replicate 4 (entry_of 0 0 0 0x80)))\<rparr>"

definition ex_attr :: "qp_state \<Rightarrow> ibv_qp_attr" where
  "ex_attr st = \<lparr>at_state = st, at_dest = 0x123, at_rq_psn = 7, at_sq_psn = 0, at_port = 1, at_timeout = 0, at_retry_cnt = 0, at_rnr_retry = 0,
     at_max_rd_atomic = 0, at_rest = 0\<rparr>"

lemma ex_node_ok:
  assumes "mlx4_find_qp t 0x123 = Inr (Some 0)" "mlx4_find_qp t 0x122 = Inr (Some 1)" "mlx4_find_qp t 0x121 = Inr (Some 2)"
  shows "connectable (ex_node t) 0 ex_hidden 3"
proof -
  have sq: "sq_idle ex_sq" using ex_sq_inv by (simp add: sq_idle_def) (simp add: ex_sq_def outstanding_def)
  have rq: "rq_empty (ex_rq\<lparr>rq_init := False\<rparr>)" using ex_rq_ok by simp (simp add: rq_empty_def ex_rq_def)
  have f: "lf_hidden (ex_node t) = [Some ex_hidden, None, None]" "length (lf_objs (ex_node t)) = 3" "length (lf_cqs (ex_node t)) = 3"
    "cx_qp_table (lf_cx (ex_node t)) = t" "cx_qps (lf_cx (ex_node t)) = [ex_new_qp 0x123, ex_new_qp 0x122, ex_new_qp 0x121]"
    "lf_script (ex_node t) = replicate 20 0" by (simp_all add: ex_node_def ex_ctx3_def ex_life_def)
  have o: "qo_state (lf_objs (ex_node t) ! k) = QPS_RESET" "qo_kind (lf_objs (ex_node t) ! k) = QPT_RC" if "k < 3" for k
    using that by (simp_all add: ex_node_def)
  have q: "mq_num (ex_new_qp n) = n" "mq_sq (ex_new_qp n) = ex_sq" "mq_rq (ex_new_qp n) = ex_rq\<lparr>rq_init := False\<rparr>" "mq_srq (ex_new_qp n) = None" for n
    by (simp_all add: ex_new_qp_def ex_qp3_def)
  have "qp_in QPS_RESET (ex_node t) 0" "qp_in QPS_RESET (ex_node t) 1" "qp_in QPS_RESET (ex_node t) 2"
    using assms sq by (simp_all add: qp_in_def in_table_def f o q)
  then have "trio QPS_RESET QPS_RESET (ex_node t) 0 ex_hidden" by (simp add: trio_def f) (simp add: ex_hidden_def)
  moreover have "lf_cqs (ex_node t) = replicate 3 (cq4 0 (replicate 4 (entry_of 0 0 0 0x80)))" by (simp add: ex_node_def)
  then have "empty_cq (ex_node t) (Some k)" if "k < 3" for k
    using that cq4_holds(2) [of 0 0 "entry_of 0 0 0 0"] by (simp add: empty_cq_def)
  then have "hidden_fresh ex_hidden 3 (ex_node t)" using rq by (simp add: hidden_fresh_def ex_hidden_def f q)
  ultimately show ?thesis by (simp add: connectable_def willing_def f Let_def) (simp add: ex_hidden_def q)
qed

lemma hidden_pairs_connected_witness:
  "\<exists>t s1 s2 s1' s2'. mlx4_modify_qp 0 (ex_attr QPS_INIT) (IBV_QP_STATE OR IBV_QP_PORT) (ex_node t) = Inr (0, s1) \<and>
    mlx4_modify_qp 0 (ex_attr QPS_RTR) IBV_QP_STATE s1 = Inr (0, s2) \<and>
    mlx4_modify_qp 0 (ex_attr QPS_INIT) (IBV_QP_STATE OR IBV_QP_PORT) (ex_node t) = Inr (0, s1') \<and>
    mlx4_modify_qp 0 (ex_attr QPS_RTR) IBV_QP_STATE s1' = Inr (0, s2') \<and>
    link_ready (lf_cx s2) (link_of ex_hidden 3 s2 (ACK, 0, 0) INFO) \<and> link_ready (lf_cx s2') (link_of ex_hidden 3 s2' (ACK, 0, 0) INFO) \<and>
    (let p = attrs_of (drop (length (lf_cmds (ex_node t))) (lf_cmds s2)); p' = attrs_of (drop (length (lf_cmds (ex_node t))) (lf_cmds s2'));
         num = \<lambda>k. mq_num (cx_qps (lf_cx (ex_node t)) ! k); num' = \<lambda>k. mq_num (cx_qps (lf_cx (ex_node t)) ! k)
     in joined (p (hd_qp0 ex_hidden)) (num (hd_qp0 ex_hidden)) (p' (hd_qp0 ex_hidden)) (num' (hd_qp0 ex_hidden)) \<and>
        joined (p (hd_qp2 ex_hidden)) (num (hd_qp2 ex_hidden)) (p' (hd_qp2 ex_hidden)) (num' (hd_qp2 ex_hidden)))"
proof -
  obtain t where t: "mlx4_find_qp t 0x123 = Inr (Some (0 :: nat))" "mlx4_find_qp t 0x122 = Inr (Some 1)" "mlx4_find_qp t 0x121 = Inr (Some 2)"
    using table_with_3 by blast
  note c = ex_node_ok [OF t]
  have m: "(IBV_QP_STATE OR IBV_QP_PORT) AND IBV_QP_STATE \<noteq> 0" "IBV_QP_STATE AND IBV_QP_STATE \<noteq> 0" by (simp_all add: macro_defs)
  have st: "at_state (ex_attr st) = st" for st by (simp add: ex_attr_def)
  have d: "at_dest (ex_attr QPS_RTR) = mq_num (cx_qps (lf_cx (ex_node t)) ! 0)" by (simp add: ex_attr_def ex_node_def ex_new_qp_def ex_qp3_def)
  show ?thesis by (rule exI [of _ t], rule hidden_pairs_connected [OF c m st st c m st st d d])
qed

end
