(* ===== verification/Qp_Start.thy ===== *)
theory Qp_Start
  imports Qp_Connect
begin

text \<open>
  What \<open>mlx4_create_qp\<close> leaves behind is what connecting starts from: queue pairs with empty queues, entered under their numbers,
  and hidden ones beside the one that the application asked for.
\<close>

unbundle bit_operations_syntax

section \<open>A kernel that grants\<close>

lemma acquire_willing:
  assumes "willing (k + length steps) s"
  shows "\<exists>rs hs. acquire h steps s = Inr (True, s\<lparr>lf_script := rs, lf_held := hs\<rparr>) \<and> willing k (s\<lparr>lf_script := rs\<rparr>)"
  using assms
proof (induction steps arbitrary: s)
  case Nil
  then show ?case by (intro exI [of _ "lf_script s"] exI [of _ "lf_held s"]) simp
next
  case (Cons st steps)
  obtain r undo where st: "st = (r, undo)" by (cases st)
  have "willing ((k + length steps) + 1) s" using Cons.prems by simp
  from willing_next [OF this] obtain rs where rs: "next_code s = Inr (0, s\<lparr>lf_script := rs\<rparr>)" "willing (k + length steps) (s\<lparr>lf_script := rs\<rparr>)" .
  let ?s = "s\<lparr>lf_script := rs, lf_held := (h, r) # lf_held s\<rparr>"
  have "willing (k + length steps) ?s" using rs(2) by (simp add: willing_def)
  from Cons.IH [OF this] obtain rs' hs where "acquire h steps ?s = Inr (True, ?s\<lparr>lf_script := rs', lf_held := hs\<rparr>)" "willing k (?s\<lparr>lf_script := rs'\<rparr>)"
    by blast
  then show ?case using st rs(1) by (intro exI [of _ rs'] exI [of _ hs]) (simp add: willing_def)
qed

text \<open>A grant of receives: as many as asked for, rounded up, with elements that fit into the slots.\<close>

definition grants_recvs :: "qp_init \<Rightarrow> qp_cap \<Rightarrow> bool" where
  "grants_recvs a g \<longleftrightarrow> cap_max_recv_wr g = align_queue_size (cap_max_recv_wr (qi_cap a)) \<and> 1 \<le> cap_max_recv_sge g \<and>
     16 * cap_max_recv_sge g \<le> 2 ^ shift_for (16 * cap_max_recv_sge (request_cap a)) 4"

lemma create_rq_empty:
  assumes "own_rq a" "grants_recvs a g" "cap_max_recv_wr (qi_cap a) \<le> 32768" "0 < dc_max_qp_wr d" "65536 \<le> length junk"
  shows "rq_empty (create_rq d a g junk)" "\<not> rq_init (create_rq d a g junk)"
proof -
  let ?n = "align_queue_size (cap_max_recv_wr (qi_cap a))"
  have n: "rq_alloc_cnt a = ?n" using assms(1) by (simp add: rq_alloc_cnt_def)
  obtain k where k: "?n = 2 ^ k" using align_queue_size_ok(2) by blast
  have "?n < 2 ^ 17" using align_queue_size_ok(3) [of "cap_max_recv_wr (qi_cap a)"] assms(3) by auto
  then have k16: "k \<le> 16" using k power_strict_increasing_iff [of "2 :: nat" k 17] by simp
  then have "?n \<le> 65536" using k power_increasing [OF k16, of "2 :: nat"] by simp
  moreover have "0 < ?n" using k by simp
  moreover have "\<exists>j \<le> 16. ?n = 2 ^ j" using k k16 by blast
  ultimately show "rq_empty (create_rq d a g junk)"
    using assms(2,4,5) n unfolding rq_empty_def rq_inv_def by (simp add: create_rq_def rq_outstanding_def grants_recvs_def)
  show "\<not> rq_init (create_rq d a g junk)" by (simp add: create_rq_def)
qed

section \<open>One queue pair\<close>

definition life_ok :: "qp_life \<Rightarrow> bool" where
  "life_ok s \<longleftrightarrow> table_inv (cx_qp_table (lf_cx s)) \<and> length (lf_objs s) = length (cx_qps (lf_cx s)) \<and> length (lf_hidden s) = length (cx_qps (lf_cx s)) \<and>
     65536 \<le> length (lf_junk s)"

text \<open>A queue pair that can be created: connected, with a receive queue of its own and completion queues, within the limits of the device.\<close>

definition creatable :: "dev_conf \<Rightarrow> qp_init \<Rightarrow> bool" where
  "creatable d a \<longleftrightarrow> qi_kind a = QPT_RC \<and> qi_srq a = None \<and> qi_send_cq a \<noteq> None \<and> qi_recv_cq a \<noteq> None \<and>
     verify_sizes (dc_max_qp_wr d) (dc_max_sge d) (qi_cap a) QPT_RC \<and> 1 \<le> cap_max_send_wr (qi_cap a) \<and> 0 < dc_max_qp_wr d \<and>
     cap_max_send_wr (qi_cap a) + spare_wqes (mlx4_calc_sq_wqe_size (qi_cap a) QPT_RC False) \<le> 32768 \<and> cap_max_recv_wr (qi_cap a) \<le> 32768"

lemma new_sq_idle:
  assumes "creatable (lf_dev s) a" "65536 \<le> length (lf_junk s)"
  shows "sq_idle (new_sq a s)" "sq_cnt (new_sq a s) \<noteq> 0"
proof -
  have kind: "QPT_RC = QPT_RC \<or> QPT_RC = QPT_UC" by simp
  have a: "4 \<le> length (sc_srcrb_flags (sq_qc (blank_sq (lf_dev s) (qi_sig_all a))))" by (simp add: blank_sq_def srcrb_table_def Let_def)
  have b: "cap_max_send_wr (qi_cap a) \<le> dc_max_qp_wr (lf_dev s)" using assms(1) by (simp add: creatable_def verify_sizes_def)
  have c: "cap_max_send_wr (qi_cap a) + spare_wqes (mlx4_calc_sq_wqe_size (qi_cap a) QPT_RC False) \<le> 32768" using assms(1) by (simp add: creatable_def)
  have k: "qi_kind a = QPT_RC" "1 \<le> cap_max_send_wr (qi_cap a)" using assms(1) by (simp_all add: creatable_def)
  have new: "new_sq a s = mlx4_init_qp_indices (create_sq (dc_max_qp_wr (lf_dev s)) (dc_max_sge (lf_dev s)) (qi_cap a) QPT_RC False (lf_junk s)
      (blank_sq (lf_dev s) (qi_sig_all a)))" by (simp add: new_sq_def k(1))
  note q = fresh_queue_ok [OF kind a b c assms(2) new]
  have l: "sc_kind (sq_qc (new_sq a s)) = QPT_RC" by (simp add: new_sq_def k(1) create_sq_def mlx4_init_qp_indices_def Let_def case_prod_unfold)
  have lim: "6 \<le> sq_shift (new_sq a s)" "sq_max_gs (new_sq a s) = (min (2 ^ sq_shift (new_sq a s)) MLX4_MAX_WQE_SIZE - data_start QPT_RC) div 16"
    using q(1) l by (auto simp: sq_inv_def limits_ok_def)
  have "(64 :: nat) \<le> 2 ^ sq_shift (new_sq a s)" using power_increasing [OF lim(1), of "2 :: nat"] by simp
  then have "1 \<le> sq_max_gs (new_sq a s)" unfolding lim(2) by (simp add: MLX4_MAX_WQE_SIZE_def data_start_def)
  then show "sq_idle (new_sq a s)" using q k(2) by (simp add: sq_idle_def) (simp add: blank_sq_def)
  show "sq_cnt (new_sq a s) \<noteq> 0" using q(1) by (auto simp: sq_inv_def)
qed

text \<open>One queue pair more, with nothing in its queues.\<close>

definition new_qp_ok :: "u32 \<Rightarrow> mlx4_qp \<Rightarrow> bool" where
  "new_qp_ok num q \<longleftrightarrow> mq_num q = num \<and> mq_srq q = None \<and> sq_idle (mq_sq q) \<and> rq_empty (mq_rq q) \<and> \<not> rq_init (mq_rq q)"

definition new_obj_ok :: "qp_obj \<Rightarrow> bool" where
  "new_obj_ok ob \<longleftrightarrow> qo_state ob = QPS_RESET \<and> qo_kind ob = QPT_RC"

definition created :: "u32 \<Rightarrow> qp_life \<Rightarrow> qp_life \<Rightarrow> bool" where
  "created num s s' \<longleftrightarrow> (\<exists>q ob. cx_qps (lf_cx s') = cx_qps (lf_cx s) @ [q] \<and> lf_objs s' = lf_objs s @ [ob] \<and> new_qp_ok num q \<and> new_obj_ok ob) \<and>
     lf_hidden s' = lf_hidden s @ [None] \<and> lf_cqs s' = lf_cqs s \<and> lf_dev s' = lf_dev s \<and> lf_junk s' = lf_junk s \<and>
     lf_qp_grants s' = tl (lf_qp_grants s) \<and> lf_cmds s' = lf_cmds s \<and>
     (let t = cx_qp_table (lf_cx s); t' = cx_qp_table (lf_cx s') in table_inv t' \<and> id_key t' = id_key t \<and>
        id_entries t' = (id_entries t)(id_key t num := Some (length (cx_qps (lf_cx s)))))"

lemma sq_idle_bells: "sq_idle (q\<lparr>sq_db_method := m, sq_bf_buf_size := b, sq_qpn := n\<rparr>) = sq_idle q"
  by (simp add: sq_idle_def sq_inv_def outstanding_def)

lemma create_ok:
  assumes "life_ok s" "creatable (lf_dev s) a" "lf_qp_grants s = (num, g) # gs" "grants_recvs a g" "willing (k + 9) s"
    and "id_entries (cx_qp_table (lf_cx s)) (id_key (cx_qp_table (lf_cx s)) num) = None"
  shows "\<exists>cap s'. mlx4_exp_create_qp a s = Inr (Some (length (cx_qps (lf_cx s)), cap), s') \<and> willing k s' \<and> created num s s'"
proof -
  let ?t = "cx_qp_table (lf_cx s)" and ?n = "length (cx_qps (lf_cx s))" and ?sq = "new_sq a s"
  have ok: "table_inv ?t" "length (lf_objs s) = ?n" "65536 \<le> length (lf_junk s)" using assms(1) by (simp_all add: life_ok_def)
  have a: "own_rq a" "\<not> needs_cqs a" "verify_sizes (dc_max_qp_wr (lf_dev s)) (dc_max_sge (lf_dev s)) (qi_cap a) (qi_kind a)" "qi_kind a = QPT_RC"
    "cap_max_recv_wr (qi_cap a) \<le> 32768" "0 < dc_max_qp_wr (lf_dev s)" "qi_srq a = None"
    using assms(2) by (simp_all add: creatable_def own_rq_def needs_cqs_def)
  note sq = new_sq_idle [OF assms(2) ok(3)] and rq = create_rq_empty [OF a(1) assms(4) a(5,6) ok(3)]
  have "0 < rq_alloc_cnt a" using align_queue_size_ok(2) [of "cap_max_recv_wr (qi_cap a)"] a(1) by (auto simp: rq_alloc_cnt_def)
  moreover have db: "0 < cap_max_recv_sge (request_cap a)" using a(1) by (simp add: request_cap_def)
  ultimately have len: "length (create_steps (sq_cnt ?sq) (rq_alloc_cnt a) True) = 7" "length (kernel_steps (sq_cnt ?sq) (rq_alloc_cnt a) True) = 1"
    using sq(2) by (simp_all add: create_steps_def kernel_steps_def Let_def)
  have w: "willing ((k + 1 + 1) + length (create_steps (sq_cnt ?sq) (rq_alloc_cnt a) True)) s" using assms(5) by (simp add: len add.commute)
  obtain r1 h1 where 1: "acquire ?n (create_steps (sq_cnt ?sq) (rq_alloc_cnt a) True) s = Inr (True, s\<lparr>lf_script := r1, lf_held := h1\<rparr>)"
      "willing (k + 1 + 1) (s\<lparr>lf_script := r1\<rparr>)" using acquire_willing [OF w] by blast
  let ?s1 = "s\<lparr>lf_script := r1, lf_held := h1\<rparr>"
  have w: "willing ((k + 1) + length (kernel_steps (sq_cnt ?sq) (rq_alloc_cnt a) True)) ?s1" using 1(2) by (simp add: len) (simp add: willing_def)
  obtain r2 h2 where 2: "acquire ?n (kernel_steps (sq_cnt ?sq) (rq_alloc_cnt a) True) ?s1 = Inr (True, s\<lparr>lf_script := r2, lf_held := h2\<rparr>)"
      "willing (k + 1) (s\<lparr>lf_script := r2\<rparr>)" using acquire_willing [OF w, of ?n] by (auto simp: willing_def)
  let ?s2 = "s\<lparr>lf_script := r2, lf_held := h2\<rparr>"
  have "willing (k + 1) ?s2" using 2(2) by (simp add: willing_def)
  from willing_next [OF this] obtain r3 where 3: "next_code ?s2 = Inr (0, ?s2\<lparr>lf_script := r3\<rparr>)" "willing k (?s2\<lparr>lf_script := r3\<rparr>)" .
  let ?s3 = "s\<lparr>lf_held := h2, lf_script := r3, lf_qp_grants := gs\<rparr>"
  obtain t' where t': "mlx4_store_qp True ?t num ?n = Inr t'" "table_inv t'" "id_key t' = id_key ?t" "id_entries t' = (id_entries ?t)(id_key ?t num := Some ?n)"
    using store_qp_ok [OF ok(1) assms(6)] by blast
  obtain cap s' where f: "finish_create a ?sq num g t' ?s3 = ((?n, cap), s')" "willing k s' = willing k ?s3" "created num s s'"
    using assms(3) sq(1) rq a(4,7) t'(2-4) ok(2)
    by (simp add: finish_create_def Let_def case_prod_unfold created_def new_qp_ok_def new_obj_ok_def sq_idle_bells willing_def)
  have "mlx4_exp_create_qp a s = Inr (Some (?n, cap), s')"
    using a(2,3) db 1(1) 2(1) 3(1) t'(1) f(1) assms(3) ok(2) by (simp add: mlx4_exp_create_qp_def store_qp_def Let_def)
  moreover have "willing k ?s3" using 3(2) by (simp add: willing_def)
  ultimately show ?thesis using f(2,3) by blast
qed

lemma created_ok: "created num s s' \<Longrightarrow> life_ok s \<Longrightarrow> life_ok s'"
  by (auto simp: created_def life_ok_def Let_def)

section \<open>Completion queues\<close>

lemma create_cq_ok:
  assumes "willing (k + 5) s" "lf_cq_grants s = g # gs" "cqe \<le> 0x3fffff"
  shows "\<exists>rs hs. mlx4_create_cq cqe s = Inr (Some (length (lf_cqs s)), s\<lparr>lf_script := rs, lf_held := hs, lf_cq_grants := gs, lf_cqs := lf_cqs s @ [new_cq (lf_dev s) g]\<rparr>) \<and>
    willing k (s\<lparr>lf_script := rs\<rparr>)"
proof -
  have "willing (k + length cq_steps) s" using assms(1) by (simp add: cq_steps_def eval_nat_numeral)
  from acquire_willing [OF this, of "length (lf_cqs s)"] obtain rs hs where
    "acquire (length (lf_cqs s)) cq_steps s = Inr (True, s\<lparr>lf_script := rs, lf_held := hs\<rparr>)" "willing k (s\<lparr>lf_script := rs\<rparr>)" by blast
  then show ?thesis using assms(2,3) by (intro exI [of _ rs] exI [of _ hs]) (simp add: mlx4_create_cq_def Let_def)
qed

lemma code_ok: "willing (k + 1) s \<Longrightarrow> \<exists>rs. next_code s = Inr (0, s\<lparr>lf_script := rs\<rparr>) \<and> willing k (s\<lparr>lf_script := rs\<rparr>)"
  using willing_next by blast

lemma create_cqs_ok:
  assumes "willing (k + 18) s" "lf_cq_grants s = g0 # g1 # g2 # gs" "n = length (lf_cqs s)" "d = lf_dev s"
  shows "\<exists>rs hs. create_cqs s = Inr ((Some n, Some (n + 1), Some (n + 2)),
      s\<lparr>lf_script := rs, lf_held := hs, lf_cq_grants := gs, lf_cqs := lf_cqs s @ [new_cq d g0, new_cq d g1, new_cq d g2]\<rparr>) \<and> willing k (s\<lparr>lf_script := rs\<rparr>)"
proof -
  have w: "willing j (x\<lparr>lf_held := a, lf_cq_grants := b, lf_cqs := c\<rparr>) = willing j x" for j x a b c by (simp add: willing_def)
  have cqe: "SPLIT_MAX_CQE \<le> 0x3fffff" by (simp add: SPLIT_MAX_CQE_def)
  have "willing (k + 5 + 5 + 5 + 1 + 1 + 1) s" using assms(1) by (simp add: add.commute)
  then obtain r1 where 1: "next_code s = Inr (0, s\<lparr>lf_script := r1\<rparr>)" "willing (k + 5 + 5 + 5 + 1 + 1) (s\<lparr>lf_script := r1\<rparr>)" using code_ok by blast
  obtain r2 where 2: "next_code (s\<lparr>lf_script := r1\<rparr>) = Inr (0, s\<lparr>lf_script := r2\<rparr>)" "willing (k + 5 + 5 + 5 + 1) (s\<lparr>lf_script := r2\<rparr>)"
    using code_ok [OF 1(2)] by auto
  obtain r3 where 3: "next_code (s\<lparr>lf_script := r2\<rparr>) = Inr (0, s\<lparr>lf_script := r3\<rparr>)" "willing (k + 5 + 5 + 5) (s\<lparr>lf_script := r3\<rparr>)"
    using code_ok [OF 2(2)] by auto
  obtain r4 h4 where 4: "mlx4_create_cq SPLIT_MAX_CQE (s\<lparr>lf_script := r3\<rparr>) = Inr (Some n,
      s\<lparr>lf_script := r4, lf_held := h4, lf_cq_grants := g1 # g2 # gs, lf_cqs := lf_cqs s @ [new_cq d g0]\<rparr>)" "willing (k + 5 + 5) (s\<lparr>lf_script := r4\<rparr>)"
    using create_cq_ok [OF 3(2) _ cqe, of g0 "g1 # g2 # gs"] assms(2-4) by auto
  let ?s4 = "s\<lparr>lf_script := r4, lf_held := h4, lf_cq_grants := g1 # g2 # gs, lf_cqs := lf_cqs s @ [new_cq d g0]\<rparr>"
  have "willing (k + 5 + 5) ?s4" using 4(2) by (simp add: willing_def)
  from create_cq_ok [OF this _ cqe, of g1 "g2 # gs"] obtain r5 h5 where 5: "mlx4_create_cq SPLIT_MAX_CQE ?s4 = Inr (Some (n + 1),
      s\<lparr>lf_script := r5, lf_held := h5, lf_cq_grants := g2 # gs, lf_cqs := lf_cqs s @ [new_cq d g0, new_cq d g1]\<rparr>)" "willing (k + 5) (s\<lparr>lf_script := r5\<rparr>)"
    using assms(3,4) by (auto simp: willing_def)
  let ?s5 = "s\<lparr>lf_script := r5, lf_held := h5, lf_cq_grants := g2 # gs, lf_cqs := lf_cqs s @ [new_cq d g0, new_cq d g1]\<rparr>"
  have "willing (k + 5) ?s5" using 5(2) by (simp add: willing_def)
  from create_cq_ok [OF this _ cqe, of g2 gs] obtain r6 h6 where 6: "mlx4_create_cq SPLIT_MAX_CQE ?s5 = Inr (Some (n + 2),
      s\<lparr>lf_script := r6, lf_held := h6, lf_cq_grants := gs, lf_cqs := lf_cqs s @ [new_cq d g0, new_cq d g1, new_cq d g2]\<rparr>)" "willing k (s\<lparr>lf_script := r6\<rparr>)"
    using assms(3,4) by (auto simp: willing_def)
  show ?thesis
    using 6(2) by (intro exI [of _ r6] exI [of _ h6]) (simp only: create_cqs_def 1(1) 2(1) 3(1) 4(1) 5(1) 6(1) res_bind_simps prod.case simp_thms)
qed

section \<open>The queue pair with its hidden ones\<close>

lemma hidden_creatable: "SPLIT_MAX_SEND_WR \<le> dc_max_qp_wr d \<Longrightarrow> 1 \<le> dc_max_sge d \<Longrightarrow> creatable d (hidden_init (Some i) (Some j))"
proof -
  assume d: "SPLIT_MAX_SEND_WR \<le> dc_max_qp_wr d" "1 \<le> dc_max_sge d"
  have "spare_wqes (mlx4_calc_sq_wqe_size c QPT_RC False) \<le> 2049" for c by (simp add: spare_wqes_def)
  then have "8000 + spare_wqes (mlx4_calc_sq_wqe_size c QPT_RC False) \<le> 32768" for c by (rule order_trans [OF add_left_mono]) simp
  moreover have "verify_sizes (dc_max_qp_wr d) (dc_max_sge d) (qi_cap (hidden_init (Some i) (Some j))) QPT_RC"
    using d by (simp add: verify_sizes_def hidden_init_def SPLIT_MAX_SEND_WR_def SPLIT_MAX_RECV_WR_def num_inline_segs_def MLX4_MAX_WQE_SIZE_def MLX4_INLINE_ALIGN_def Let_def)
  ultimately show ?thesis
    using d by (simp add: creatable_def hidden_init_def SPLIT_MAX_SEND_WR_def SPLIT_MAX_RECV_WR_def)
qed

lemma grants_hidden: "grants_recvs (hidden_init x y) g = grants_recvs (hidden_init None None) g"
  by (simp add: grants_recvs_def request_cap_def own_rq_def hidden_init_def)

text \<open>Three queue pairs more, and what linking the last to the others makes of them.\<close>

lemma created_3:
  assumes "created n2 s s1" "created n0 s1 s2" "created nu s2 s3" "n = length (cx_qps (lf_cx s))" "k = id_key (cx_qp_table (lf_cx s))"
    and "distinct [k n2, k n0, k nu]" "life_ok s"
  shows "\<exists>q2 q0 q o2 o0 ob. cx_qps (lf_cx s3) = cx_qps (lf_cx s) @ [q2, q0, q] \<and> lf_objs s3 = lf_objs s @ [o2, o0, ob] \<and>
      new_qp_ok n2 q2 \<and> new_qp_ok n0 q0 \<and> new_qp_ok nu q \<and> new_obj_ok o2 \<and> new_obj_ok o0 \<and> new_obj_ok ob"
    "lf_hidden s3 = lf_hidden s @ [None, None, None]" "lf_cqs s3 = lf_cqs s" "lf_dev s3 = lf_dev s" "lf_cmds s3 = lf_cmds s"
    "mlx4_find_qp (cx_qp_table (lf_cx s3)) n2 = Inr (Some n)" "mlx4_find_qp (cx_qp_table (lf_cx s3)) n0 = Inr (Some (n + 1))"
    "mlx4_find_qp (cx_qp_table (lf_cx s3)) nu = Inr (Some (n + 2))"
proof -
  let ?t = "\<lambda>s. cx_qp_table (lf_cx s)"
  have l: "length (cx_qps (lf_cx s1)) = n + 1" "length (cx_qps (lf_cx s2)) = n + 2" using assms(1,2,4) by (auto simp: created_def)
  have t: "table_inv (?t s3)" "id_key (?t s3) = k" "id_entries (?t s3) = (id_entries (?t s))(k n2 := Some n, k n0 := Some (n + 1), k nu := Some (n + 2))"
    using assms(1-3) l unfolding assms(4,5) by (simp_all add: created_def Let_def)
  show "mlx4_find_qp (?t s3) n2 = Inr (Some n)" "mlx4_find_qp (?t s3) n0 = Inr (Some (n + 1))" "mlx4_find_qp (?t s3) nu = Inr (Some (n + 2))"
    using assms(6) by (simp_all add: find_qp_ok [OF t(1)] t(2,3))
  show "\<exists>q2 q0 q o2 o0 ob. cx_qps (lf_cx s3) = cx_qps (lf_cx s) @ [q2, q0, q] \<and> lf_objs s3 = lf_objs s @ [o2, o0, ob] \<and>
      new_qp_ok n2 q2 \<and> new_qp_ok n0 q0 \<and> new_qp_ok nu q \<and> new_obj_ok o2 \<and> new_obj_ok o0 \<and> new_obj_ok ob"
    using assms(1-3) unfolding created_def by (elim conjE exE) simp
  show "lf_hidden s3 = lf_hidden s @ [None, None, None]" "lf_cqs s3 = lf_cqs s" "lf_dev s3 = lf_dev s" "lf_cmds s3 = lf_cmds s"
    using assms(1-3) by (simp_all add: created_def)
qed

lemma link_hidden_simps [simp]:
  "cx_qp_table (lf_cx (link_hidden h hid a b s)) = cx_qp_table (lf_cx s)" "lf_cqs (link_hidden h hid a b s) = lf_cqs s"
  "willing k (link_hidden h hid a b s) = willing k s"
  by (simp_all add: link_hidden_def upd_life_qp_def upd_qp_def willing_def)

lemma linked_connectable:
  assumes "cx_qps (lf_cx s) = qs @ [q2, q0, q]" "lf_objs s = os @ [o2, o0, ob]" "new_qp_ok (nu - 2) q2" "new_qp_ok (nu - 1) q0" "new_qp_ok nu q"
    and "new_obj_ok o2" "new_obj_ok o0" "new_obj_ok ob" "lf_hidden s = hs @ [None, None, None]" "length os = length qs" "length hs = length qs"
    and "mlx4_find_qp (cx_qp_table (lf_cx s)) (nu - 2) = Inr (Some n)" "mlx4_find_qp (cx_qp_table (lf_cx s)) (nu - 1) = Inr (Some (n + 1))"
    and "mlx4_find_qp (cx_qp_table (lf_cx s)) nu = Inr (Some (n + 2))" "n = length qs" "willing 20 s" "hd_fc_mr hid = Some lkey"
    and "hd_qp2 hid = n" "hd_qp0 hid = n + 1" "empty_cq s (hd_send_cq hid)" "empty_cq s (hd_recv_cq hid)" "empty_cq s (hd_cq2 hid)"
  shows "connectable (link_hidden (n + 2) hid a b s) (n + 2) hid lkey"
proof -
  let ?s = "link_hidden (n + 2) hid a b s"
  obtain q' o' where q': "cx_qps (lf_cx ?s) = qs @ [q2, q0, q']" "mq_num q' = mq_num q" "mq_sq q' = mq_sq q" "rq_init (mq_rq q') = rq_init (mq_rq q)"
      and o': "lf_objs ?s = os @ [o2, o0, o']" "qo_state o' = qo_state ob" "qo_kind o' = qo_kind ob"
    using assms(1,2,10,15) by (simp add: link_hidden_def upd_life_qp_def upd_qp_def list_update_append nth_append)
  have f: "lf_hidden ?s = hs @ [None, None, Some hid]"
    using assms(9,11,15) by (simp add: link_hidden_def upd_life_qp_def list_update_append)
  have "qp_in QPS_RESET ?s n" "qp_in QPS_RESET ?s (n + 1)" "qp_in QPS_RESET ?s (n + 2)"
    using assms(3-8,10,12-15) q' o' by (simp_all add: qp_in_def in_table_def nth_append new_qp_ok_def new_obj_ok_def)
  moreover have "n + 2 < length (lf_hidden ?s)" "lf_hidden ?s ! (n + 2) = Some hid" unfolding f using assms(11,15) by (simp_all add: nth_append)
  ultimately have "trio QPS_RESET QPS_RESET ?s (n + 2) hid" using assms(18,19) by (simp add: trio_def)
  moreover have at: "cx_qps (lf_cx ?s) ! n = q2" "cx_qps (lf_cx ?s) ! (n + 1) = q0" "cx_qps (lf_cx ?s) ! (n + 2) = q'"
    unfolding q'(1) using assms(15) by (simp_all add: nth_append)
  moreover have "hidden_fresh hid lkey ?s"
    unfolding hidden_fresh_def assms(18,19) at using assms(3,4,17,20-22) by (simp add: new_qp_ok_def empty_cq_def)
  ultimately show ?thesis using assms(3-5,16) q'(2) unfolding connectable_def assms(18,19) at Let_def by (simp add: new_qp_ok_def)
qed

text \<open>The two hidden queue pairs and the one that was asked for are created in turn.\<close>

lemma create_three_ok:
  fixes s :: qp_life
  assumes "life_ok s" "willing (40 + 9) s" "creatable (lf_dev s) a" "SPLIT_MAX_SEND_WR \<le> dc_max_qp_wr (lf_dev s)" "1 \<le> dc_max_sge (lf_dev s)"
    and "lf_qp_grants s = (nu - 2, g2) # (nu - 1, g0) # (nu, g) # gs"
    and "grants_recvs (hidden_init None None) g2" "grants_recvs (hidden_init None None) g0" "grants_recvs a g"
    and "k = id_key (cx_qp_table (lf_cx s))" "distinct [k (nu - 2), k (nu - 1), k nu]"
    and "\<forall>m\<in>{nu - 2, nu - 1, nu}. id_entries (cx_qp_table (lf_cx s)) (k m) = None"
  defines "h \<equiv> length (cx_qps (lf_cx s))"
  shows "\<exists>cap2 s2 cap0 s3 cap s4. mlx4_exp_create_qp (hidden_init (Some x) (Some x)) s = Inr (Some (h, cap2), s2) \<and>
    mlx4_exp_create_qp (hidden_init (Some y) (Some z)) s2 = Inr (Some (h + 1, cap0), s3) \<and> mlx4_exp_create_qp a s3 = Inr (Some (h + 2, cap), s4) \<and>
    created (nu - 2) s s2 \<and> created (nu - 1) s2 s3 \<and> created nu s3 s4 \<and> willing 22 s4"
proof -
  have hc: "creatable (lf_dev s) (hidden_init (Some i) (Some j))" for i j using hidden_creatable [OF assms(4,5)] .
  have gr: "grants_recvs (hidden_init x y) g2" "grants_recvs (hidden_init x y) g0" for x y using assms(7,8) grants_hidden by blast+
  have "id_entries (cx_qp_table (lf_cx s)) (id_key (cx_qp_table (lf_cx s)) (nu - 2)) = None" using assms(10,12) by simp
  from create_ok [OF assms(1) hc assms(6) gr(1) assms(2) this] obtain cap2 s2
    where 2: "mlx4_exp_create_qp (hidden_init (Some x) (Some x)) s = Inr (Some (h, cap2), s2)" "willing 40 s2" "created (nu - 2) s s2"
    unfolding h_def by blast
  have e2: "lf_dev s2 = lf_dev s" "id_key (cx_qp_table (lf_cx s2)) = k" "id_entries (cx_qp_table (lf_cx s2)) (k (nu - 1)) = None" "length (cx_qps (lf_cx s2)) = h + 1"
    "lf_qp_grants s2 = (nu - 1, g0) # (nu, g) # gs" "id_entries (cx_qp_table (lf_cx s2)) (k nu) = None" "life_ok s2"
    using 2(3) assms(6,10,11,12) created_ok [OF 2(3) assms(1)] by (auto simp: created_def Let_def h_def)
  have w: "willing (31 + 9) s2" and c: "creatable (lf_dev s2) (hidden_init (Some y) (Some z))" using 2(2) hc by (simp_all add: e2)
  have "id_entries (cx_qp_table (lf_cx s2)) (id_key (cx_qp_table (lf_cx s2)) (nu - 1)) = None" using e2(2,3) by simp
  from create_ok [OF e2(7) c e2(5) gr(2) w this] obtain cap0 s3
    where 3: "mlx4_exp_create_qp (hidden_init (Some y) (Some z)) s2 = Inr (Some (h + 1, cap0), s3)" "willing 31 s3" "created (nu - 1) s2 s3"
    unfolding e2(4) by blast
  have e3: "lf_dev s3 = lf_dev s" "id_key (cx_qp_table (lf_cx s3)) = k" "length (cx_qps (lf_cx s3)) = h + 2"
    "lf_qp_grants s3 = (nu, g) # gs" "id_entries (cx_qp_table (lf_cx s3)) (k nu) = None" "life_ok s3"
    using 3(3) e2 assms(11) created_ok [OF 3(3) e2(7)] by (auto simp: created_def Let_def)
  have w: "willing (22 + 9) s3" using 3(2) by simp
  obtain cap s4 where "mlx4_exp_create_qp a s3 = Inr (Some (h + 2, cap), s4)" "willing 22 s4" "created nu s3 s4"
    using create_ok [OF e3(6) _ e3(4) assms(9) w] assms(3) e3 by auto
  then show ?thesis using 2 3 by blast
qed

text \<open>
  C8: The queue pair that \<open>mlx4_create_qp\<close> returns can be connected: when the kernel grants the hidden completion queues empty, grants
  receives as they are asked for, and gives the three queue pairs successive numbers that are free in the table, the queue pair and its
  hidden ones are in the reset state with nothing in their queues and entered under their numbers. Together with the theorem on
  connecting, this leads from creation to the state in which messages are delivered.
\<close>

theorem created_pair_connectable:
  assumes "life_ok s" "creatable (lf_dev s) a" "SPLIT_MAX_SEND_WR \<le> dc_max_qp_wr (lf_dev s)" "1 \<le> dc_max_sge (lf_dev s)" "willing 67 s"
    and "lf_cq_grants s = c0 # c1 # c2 # cs" "\<forall>c\<in>{c0, c1, c2}. holds (new_cq (lf_dev s) c) []"
    and "lf_qp_grants s = (nu - 2, g2) # (nu - 1, g0) # (nu, g) # gs"
    and "grants_recvs (hidden_init None None) g2" "grants_recvs (hidden_init None None) g0" "grants_recvs a g"
    and "k = id_key (cx_qp_table (lf_cx s))" "distinct [k (nu - 2), k (nu - 1), k nu]"
    and "\<forall>m\<in>{nu - 2, nu - 1, nu}. id_entries (cx_qp_table (lf_cx s)) (k m) = None"
  shows "\<exists>h cap hid s'. mlx4_create_qp a fc_addr lkey s = Inr (Some (h, cap), s') \<and> connectable s' h hid lkey \<and> mq_num (cx_qps (lf_cx s') ! h) = nu"
proof -
  let ?n = "length (cx_qps (lf_cx s))" and ?c = "length (lf_cqs s)" and ?d = "lf_dev s"
  have "willing (49 + 18) s" using assms(5) by simp
  then obtain rs hs where 1: "create_cqs s = Inr ((Some ?c, Some (?c + 1), Some (?c + 2)),
      s\<lparr>lf_script := rs, lf_held := hs, lf_cq_grants := cs, lf_cqs := lf_cqs s @ [new_cq ?d c0, new_cq ?d c1, new_cq ?d c2]\<rparr>)" "willing 49 (s\<lparr>lf_script := rs\<rparr>)"
    using create_cqs_ok [OF _ assms(6) refl refl] by blast
  define s1 where "s1 = s\<lparr>lf_script := rs, lf_held := hs, lf_cq_grants := cs, lf_cqs := lf_cqs s @ [new_cq ?d c0, new_cq ?d c1, new_cq ?d c2]\<rparr>"
  have s1: "lf_cx s1 = lf_cx s" "lf_dev s1 = ?d" "lf_qp_grants s1 = lf_qp_grants s" "lf_hidden s1 = lf_hidden s" "lf_objs s1 = lf_objs s"
    "lf_cqs s1 = lf_cqs s @ [new_cq ?d c0, new_cq ?d c1, new_cq ?d c2]" "willing (40 + 9) s1" "life_ok s1"
    using 1(2) assms(1) by (simp_all add: s1_def willing_def life_ok_def)
  have kk: "id_key (cx_qp_table (lf_cx s1)) = k" using assms(12) by (simp add: s1)
  obtain cap2 s2 cap0 s3 cap s4 where 2: "mlx4_exp_create_qp (hidden_init (Some (?c + 2)) (Some (?c + 2))) s1 = Inr (Some (?n, cap2), s2)" "created (nu - 2) s1 s2"
    and 3: "mlx4_exp_create_qp (hidden_init (Some ?c) (Some (?c + 1))) s2 = Inr (Some (?n + 1, cap0), s3)" "created (nu - 1) s2 s3"
    and 4: "mlx4_exp_create_qp a s3 = Inr (Some (?n + 2, cap), s4)" "willing 22 s4" "created nu s3 s4"
    using create_three_ok [OF s1(8,7), of a nu g2 g0 g gs k] assms(2-4,8-14) by (simp only: s1 kk) blast
  have "willing (20 + 1 + 1) s4" using 4(2) by simp
  then obtain r5 where 5: "next_code s4 = Inr (0, s4\<lparr>lf_script := r5\<rparr>)" "willing (20 + 1) (s4\<lparr>lf_script := r5\<rparr>)" using code_ok by blast
  obtain r6 where 6: "next_code (s4\<lparr>lf_script := r5\<rparr>) = Inr (0, s4\<lparr>lf_script := r6\<rparr>)" "willing 20 (s4\<lparr>lf_script := r6\<rparr>)"
    using code_ok [OF 5(2)] by auto
  define hid where "hid = \<lparr>hd_qp0 = ?n + 1, hd_qp2 = ?n, hd_send_cq = Some ?c, hd_recv_cq = Some (?c + 1), hd_cq2 = Some (?c + 2),
             hd_fc_addr = fc_addr, hd_fc_mr = Some lkey\<rparr>"
  let ?s6 = "s4\<lparr>lf_script := r6\<rparr>"
  have run: "mlx4_create_qp a fc_addr lkey s = Inr (Some (?n + 2, cap), link_hidden (?n + 2) hid a True ?s6)"
    unfolding mlx4_create_qp_def by (simp add: 1(1) s1_def [symmetric] 2(1) [simplified] 3(1) [simplified] 4(1) [simplified] 5(1) 6(1) hid_def)
  note c = created_3 [OF 2(2) 3(2) 4(3) refl kk [symmetric] assms(13) s1(8)]
  obtain q2 q0 q o2 o0 ob where q: "cx_qps (lf_cx s4) = cx_qps (lf_cx s) @ [q2, q0, q]" "lf_objs s4 = lf_objs s @ [o2, o0, ob]"
      "new_qp_ok (nu - 2) q2" "new_qp_ok (nu - 1) q0" "new_qp_ok nu q" "new_obj_ok o2" "new_obj_ok o0" "new_obj_ok ob"
    using c(1) by (auto simp: s1)
  have len: "length (lf_objs s) = ?n" "length (lf_hidden s) = ?n" using assms(1) by (simp_all add: life_ok_def)
  have cq: "empty_cq s4 (hd_send_cq hid)" "empty_cq s4 (hd_recv_cq hid)" "empty_cq s4 (hd_cq2 hid)"
    using assms(7) c(3) by (simp_all add: empty_cq_def hid_def s1 nth_append)
  have "connectable (link_hidden (?n + 2) hid a True ?s6) (?n + 2) hid lkey"
    using c(2,6-8) q len cq 6(2) by (intro linked_connectable [where nu = nu and ?q2.0 = q2 and ?q0.0 = q0 and q = q and ?o2.0 = o2 and ?o0.0 = o0 and ob = ob]) (simp_all add: s1 hid_def empty_cq_def)
  moreover have "mq_num (cx_qps (lf_cx (link_hidden (?n + 2) hid a True ?s6)) ! (?n + 2)) = nu"
    using q(1,5) by (simp add: link_hidden_def upd_life_qp_def upd_qp_def nth_append list_update_append new_qp_ok_def)
  ultimately show ?thesis using run by blast
qed

text \<open>The process of the example, with rings of four entries.\<close>

definition ex_cap8192 :: qp_cap where
  "ex_cap8192 = (qi_cap (hidden_init None None))\<lparr>cap_max_recv_wr := align_queue_size 8000\<rparr>"

definition ex_start :: qp_life where
  "ex_start = (let g = (5, 3, replicate 4 (entry_of 0 0 0 0x80)) in
     ex_life (replicate 67 0) [(0x121, ex_cap8192), (0x122, ex_cap8192), (0x123, (qi_cap ex_init)\<lparr>cap_max_recv_wr := align_queue_size 100\<rparr>)] [g, g, g])"

lemma created_pair_connectable_witness:
  "\<exists>h cap hid s'. mlx4_create_qp ex_init 0x5000 3 ex_start = Inr (Some (h, cap), s') \<and> connectable s' h hid 3 \<and> mq_num (cx_qps (lf_cx s') ! h) = 0x123"
proof -
  have b: "TABLE_BITS \<le> 16" by (simp add: TABLE_BITS_def)
  let ?t = "init_table 16 :: nat id_table" and ?g = "(5, 3, replicate 4 (entry_of 0 0 0 0x80)) :: u32 \<times> nat \<times> u8 list list"
  have t: "table_inv ?t" "id_entries ?t = (\<lambda>_. None)" "id_key ?t n = unat n mod 2 ^ 16" for n using init_table_ok [OF b, of n] by blast+
  have s: "cx_qp_table (lf_cx ex_start) = ?t" "lf_dev ex_start = ex_dev" "lf_cq_grants ex_start = [?g, ?g, ?g]" "lf_script ex_start = replicate 67 0"
    "lf_qp_grants ex_start = [(0x123 - 2, ex_cap8192), (0x123 - 1, ex_cap8192), (0x123, (qi_cap ex_init)\<lparr>cap_max_recv_wr := align_queue_size 100\<rparr>)]"
    by (simp_all add: ex_start_def ex_life_def Let_def)
  have g: "grants_recvs (hidden_init None None) ex_cap8192" "grants_recvs ex_init ((qi_cap ex_init)\<lparr>cap_max_recv_wr := align_queue_size 100\<rparr>)"
    by (simp_all add: grants_recvs_def request_cap_def own_rq_def ex_cap8192_def hidden_init_def ex_init_def SPLIT_MAX_RECV_WR_def shift_for.simps [of 16 4])
  have "life_ok ex_start" using t(1) by (simp add: life_ok_def s) (simp add: ex_start_def ex_life_def Let_def)
  moreover have "creatable (lf_dev ex_start) ex_init"
  proof -
    have "spare_wqes (mlx4_calc_sq_wqe_size (qi_cap ex_init) QPT_RC False) \<le> 2049" by (simp add: spare_wqes_def)
    then show ?thesis
      by (simp add: s creatable_def) (simp add: ex_init_def ex_dev_def verify_sizes_def num_inline_segs_def MLX4_MAX_WQE_SIZE_def MLX4_INLINE_ALIGN_def Let_def)
  qed
  moreover have "SPLIT_MAX_SEND_WR \<le> dc_max_qp_wr (lf_dev ex_start)" "1 \<le> dc_max_sge (lf_dev ex_start)" "willing 67 ex_start"
    by (simp_all add: s ex_dev_def SPLIT_MAX_SEND_WR_def willing_def)
  moreover have "\<forall>c\<in>{?g, ?g, ?g}. holds (new_cq (lf_dev ex_start) c) []"
  proof -
    have "new_cq ex_dev ?g = cq4 0 (replicate 4 (entry_of 0 0 0 0x80))" by (simp add: new_cq_def ex_dev_def cq4_def)
    then show ?thesis using cq4_holds(2) [of 0 0 "entry_of 0 0 0 0"] by (simp add: s)
  qed
  moreover note g(2)
  moreover have "distinct [id_key ?t (0x123 - 2), id_key ?t (0x123 - 1), id_key ?t 0x123]" by (simp add: t(3))
  moreover have "\<forall>m\<in>{0x123 - 2, 0x123 - 1, 0x123}. id_entries ?t (id_key ?t m) = None" by (simp add: t(2))
  ultimately show ?thesis by (rule created_pair_connectable [OF _ _ _ _ _ s(3) _ s(5) g(1) g(1) _ refl, unfolded s(1)])
qed

end
