(* ===== verification/Allocator.thy ===== *)
theory Allocator
  imports Prelude
begin

text \<open>
  What the two allocators of the driver have in common: the regions they give out do not overlap, and what is given back
  can be given out again. The locale is interpreted on the doorbell records and on the chunks of huge pages. \<open>'a\<close> is a
  request with the results of the system calls it makes.
\<close>

datatype ('a, 'r) alloc_op = Alloc_op 'a | Free_op 'r

text \<open>A program of requests and releases, with the regions it holds, and the programs that release only what they hold.\<close>

fun alloc_run :: "('a \<Rightarrow> 's \<Rightarrow> ('r option \<times> 's) res) \<Rightarrow> ('r \<Rightarrow> 's \<Rightarrow> 's res) \<Rightarrow> ('a, 'r) alloc_op list \<Rightarrow> 's \<Rightarrow> 'r list \<Rightarrow> ('s \<times> 'r list) res" where
  "alloc_run alloc free [] s rs = Inr (s, rs)"
| "alloc_run alloc free (Alloc_op a # ops) s rs = res_bind (alloc a s) (\<lambda>(r, s).
     alloc_run alloc free ops s (case r of None \<Rightarrow> rs | Some x \<Rightarrow> x # rs))"
| "alloc_run alloc free (Free_op x # ops) s rs = res_bind (free x s) (\<lambda>s. alloc_run alloc free ops s (remove1 x rs))"

fun good_ops :: "('a \<Rightarrow> 's \<Rightarrow> bool) \<Rightarrow> ('a \<Rightarrow> 's \<Rightarrow> ('r option \<times> 's) res) \<Rightarrow> ('r \<Rightarrow> 's \<Rightarrow> 's res) \<Rightarrow> ('a, 'r) alloc_op list \<Rightarrow> 's \<Rightarrow> 'r list \<Rightarrow> bool" where
  "good_ops good alloc free [] s rs \<longleftrightarrow> True"
| "good_ops good alloc free (Alloc_op a # ops) s rs \<longleftrightarrow> good a s \<and>
     (case alloc a s of Inl f \<Rightarrow> True | Inr (r, s) \<Rightarrow> good_ops good alloc free ops s (case r of None \<Rightarrow> rs | Some x \<Rightarrow> x # rs))"
| "good_ops good alloc free (Free_op x # ops) s rs \<longleftrightarrow> x \<in> set rs \<and>
     (case free x s of Inl f \<Rightarrow> True | Inr s \<Rightarrow> good_ops good alloc free ops s (remove1 x rs))"

definition separate :: "('r \<Rightarrow> 'r \<Rightarrow> bool) \<Rightarrow> 'r list \<Rightarrow> bool" where
  "separate clash rs \<longleftrightarrow> distinct rs \<and> (\<forall>x\<in>set rs. \<forall>y\<in>set rs. x \<noteq> y \<longrightarrow> \<not> clash x y)"

locale allocator =
  fixes inv :: "'s \<Rightarrow> 'r set \<Rightarrow> bool" and good :: "'a \<Rightarrow> 's \<Rightarrow> bool" and fits :: "'a \<Rightarrow> 'r \<Rightarrow> bool" and clash :: "'r \<Rightarrow> 'r \<Rightarrow> bool"
    and alloc :: "'a \<Rightarrow> 's \<Rightarrow> ('r option \<times> 's) res" and free :: "'r \<Rightarrow> 's \<Rightarrow> 's res"
  assumes alloc_ok: "\<lbrakk>inv s H; good a s\<rbrakk> \<Longrightarrow> \<exists>r s'. alloc a s = Inr (r, s') \<and>
      (case r of None \<Rightarrow> inv s' H | Some x \<Rightarrow> fits a x \<and> x \<notin> H \<and> inv s' (insert x H) \<and> (\<forall>y\<in>H. \<not> clash x y \<and> \<not> clash y x))"
    and free_ok: "\<lbrakk>inv s H; x \<in> H\<rbrakk> \<Longrightarrow> \<exists>s'. free x s = Inr s' \<and> inv s' (H - {x})"
begin

lemma run_ok:
  "\<lbrakk>inv s (set rs); separate clash rs; good_ops good alloc free ops s rs\<rbrakk> \<Longrightarrow>
     \<exists>s' rs'. alloc_run alloc free ops s rs = Inr (s', rs') \<and> inv s' (set rs') \<and> separate clash rs'"
proof (induction ops arbitrary: s rs)
  case (Cons op ops)
  show ?case
  proof (cases op)
    case (Alloc_op a)
    obtain r s1 where r: "alloc a s = Inr (r, s1)" "case r of None \<Rightarrow> inv s1 (set rs) | Some x \<Rightarrow> fits a x \<and> x \<notin> set rs \<and>
        inv s1 (insert x (set rs)) \<and> (\<forall>y\<in>set rs. \<not> clash x y \<and> \<not> clash y x)"
      using alloc_ok [OF Cons.prems(1), of a] Cons.prems(3) Alloc_op by auto
    let ?rs = "case r of None \<Rightarrow> rs | Some x \<Rightarrow> x # rs"
    have "inv s1 (set ?rs)" "separate clash ?rs" using r(2) Cons.prems(2) by (cases r; auto simp: separate_def)+
    then show ?thesis using Cons.IH [of s1 ?rs] Cons.prems(3) Alloc_op r(1) by simp
  next
    case (Free_op x)
    obtain s1 where s1: "free x s = Inr s1" "inv s1 (set rs - {x})" using free_ok [OF Cons.prems(1), of x] Cons.prems(3) Free_op by auto
    have "distinct rs" using Cons.prems(2) by (simp add: separate_def)
    then have "inv s1 (set (remove1 x rs))" "separate clash (remove1 x rs)"
      using s1(2) Cons.prems(2) by (simp_all add: separate_def)
    then show ?thesis using Cons.IH [of s1 "remove1 x rs"] Cons.prems(3) Free_op s1(1) by simp
  qed
qed simp

end

section \<open>Bits\<close>

text \<open>\<open>ffs\<close> of the C library: one more than the index of the lowest set bit, 0 when there is none.\<close>

definition ffs :: "'a::len word \<Rightarrow> nat" where
  "ffs w = (case first_from (\<lambda>i. bit w i) 0 [0..<LENGTH('a)] of None \<Rightarrow> 0 | Some i \<Rightarrow> i + 1)"

lemma ffs_bit:
  fixes w :: "'a::len word"
  assumes "w \<noteq> 0"
  obtains j where "ffs w = j + 1" "j < LENGTH('a)" "bit w j" "\<And>i. i < j \<Longrightarrow> \<not> bit w i"
proof (cases "first_from (\<lambda>i. bit w i) 0 [0..<LENGTH('a)]")
  case None
  then have "\<not> bit w i" for i using bit_imp_le_length [of w i] by (auto simp: first_from_None)
  then have "w = 0" by (simp add: bit_eq_iff)
  then show ?thesis using assms by simp
next
  case (Some j)
  note first_0_Some [OF this]
  then have "bit w j" "j < LENGTH('a)" "\<And>i. i < j \<Longrightarrow> \<not> bit w i" by simp_all
  moreover have "ffs w = j + 1" using Some by (simp add: ffs_def)
  ultimately show ?thesis using that by blast
qed

text \<open>Bit number \<open>i\<close> of an array of words.\<close>

definition bit_at :: "'a::len word list \<Rightarrow> nat \<Rightarrow> bool" where
  "bit_at ws i = bit (ws ! (i div LENGTH('a))) (i mod LENGTH('a))"

lemma bit_at_update:
  fixes ws :: "'a::len word list"
  assumes "i < LENGTH('a) * length ws" "\<And>j. j < LENGTH('a) \<Longrightarrow> bit w j = (if j = i mod LENGTH('a) then b else bit (ws ! (i div LENGTH('a))) j)"
  shows "bit_at (ws[i div LENGTH('a) := w]) k = (if k = i then b else bit_at ws k)"
proof -
  have i: "i div LENGTH('a) < length ws" using assms(1) by (simp add: less_mult_imp_div_less mult.commute)
  show ?thesis
  proof (cases "k div LENGTH('a) = i div LENGTH('a)")
    case True
    then have "k = i \<longleftrightarrow> k mod LENGTH('a) = i mod LENGTH('a)" by (metis div_mult_mod_eq)
    then show ?thesis using True i assms(2) [of "k mod LENGTH('a)"] by (simp add: bit_at_def)
  next
    case False
    then show ?thesis by (auto simp: bit_at_def)
  qed
qed

unbundle bit_operations_syntax

text \<open>Addresses inside a page.\<close>

lemma page_address:
  fixes a :: u64
  assumes "take_bit k a = 0" "off < 2 ^ k" "k < 64"
  shows "(a + of_nat off) AND NOT (of_nat (2 ^ k) - 1) = a" "unat (a + of_nat off - a) = off" "unat (a + of_nat off) = unat a + off"
    "2 ^ k dvd unat a"
proof -
  have small: "off < 2 ^ 64" using assms(2,3) power_strict_increasing [of k 64 "2 :: nat"] by simp
  have o: "unat (of_nat off :: u64) = off" by (rule unat_of_nat_small) (use small in simp)
  have "unat (take_bit k (of_nat off :: u64)) = off"
    using assms(2) o by (simp add: unsigned_take_bit_eq take_bit_nat_eq_self)
  then have to: "take_bit k (of_nat off :: u64) = of_nat off" using o by (metis word_unat_eq_iff)
  have lo: "\<not> bit a i" if "i < k" for i using arg_cong [OF assms(1), of "\<lambda>x. bit x i"] that by (simp add: bit_simps)
  have hi: "\<not> bit (of_nat off :: u64) i" if "k \<le> i" for i using arg_cong [OF to, of "\<lambda>x. bit x i"] that by (simp add: bit_take_bit_iff)
  have sum: "a + of_nat off = a OR of_nat off" by (rule disjunctive_add) (metis lo hi not_le)
  have mask: "of_nat (2 ^ k) - 1 = (mask k :: u64)" by (simp add: mask_eq_exp_minus_1)
  show "(a + of_nat off) AND NOT (of_nat (2 ^ k) - 1) = a"
    unfolding sum mask
  proof (rule bit_word_eqI)
    show "bit ((a OR of_nat off) AND NOT (mask k)) n = bit a n" if "n < LENGTH(64)" for n
      using lo [of n] hi [of n] that by (cases "n < k") (simp_all add: bit_and_iff bit_or_iff bit_not_iff bit_mask_iff)
  qed
  show "unat (a + of_nat off - a) = off" using o by simp
  have "take_bit k (unat a) = 0" using arg_cong [OF assms(1), of unat] by (simp add: unsigned_take_bit_eq)
  then show d: "2 ^ k dvd unat a" by (simp add: take_bit_eq_mod dvd_eq_mod_eq_0)
  then obtain q where q: "unat a = 2 ^ k * q" by auto
  have e: "(2 :: nat) ^ 64 = 2 ^ k * 2 ^ (64 - k)" using assms(3) by (simp flip: power_add)
  have "unat a < 2 ^ 64" using unsigned_less [of a, where 'a = nat] by simp
  then have "q < 2 ^ (64 - k)" unfolding q e by simp
  then have "2 ^ k * (q + 1) \<le> (2 :: nat) ^ 64" unfolding e by (intro mult_le_mono2) simp
  then have "unat a + off < 2 ^ 64" using q assms(2) by simp
  then show "unat (a + of_nat off) = unat a + off" using o by (simp add: unat_word_ariths)
qed

end
