(* ===== verification/Db_Alloc.thy ===== *)
theory Db_Alloc
  imports Allocator
begin

text \<open>
  The doorbell records of \<open>libmlx4/src/dbrec.c\<close>: pages of records of 8 bytes (completion queues) or 4 bytes (receive queues), each with a map of the
  free ones. \<open>None\<close> as the address of a new page stands for a failure of \<open>malloc\<close> or \<open>mlx4_alloc_buf\<close>.
\<close>

unbundle bit_operations_syntax

section \<open>Operations\<close>

datatype db_type = MLX4_DB_TYPE_CQ | MLX4_DB_TYPE_RQ

fun db_size :: "db_type \<Rightarrow> nat" where
  "db_size MLX4_DB_TYPE_CQ = 8"
| "db_size MLX4_DB_TYPE_RQ = 4"

record db_page =
  dp_addr :: u64
  dp_num_db :: int
  dp_use_cnt :: int
  dp_free :: "u64 list"

text \<open>The pages of each type, the newest first.\<close>

type_synonym db_lists = "db_type \<Rightarrow> db_page list"

definition add_page :: "nat \<Rightarrow> db_type \<Rightarrow> u64 \<Rightarrow> db_page" where
  "add_page ps ty addr = (let pp = ps div db_size ty in
     \<lparr>dp_addr = addr, dp_num_db = int pp, dp_use_cnt = 0, dp_free = replicate (pp div 64) (- 1)\<rparr>)"

definition take_db :: "nat \<Rightarrow> db_page \<Rightarrow> (u64 \<times> db_page) res" where
  "take_db sz p = (case first_from (\<lambda>w. w \<noteq> 0) 0 (dp_free p) of None \<Rightarrow> Inl Out_of_bounds
     | Some i \<Rightarrow> let j = ffs (dp_free p ! i) in
         Inr (dp_addr p + of_nat ((i * 64 + (j - 1)) * sz),
           p\<lparr>dp_use_cnt := dp_use_cnt p + 1, dp_free := (dp_free p)[i := dp_free p ! i AND NOT (push_bit (j - 1) 1)]\<rparr>))"

definition mlx4_alloc_db :: "nat \<Rightarrow> db_type \<Rightarrow> u64 option \<Rightarrow> db_lists \<Rightarrow> (u64 option \<times> db_lists) res" where
  "mlx4_alloc_db ps ty new ls =
     (case first_from (\<lambda>p. dp_use_cnt p < dp_num_db p) 0 (ls ty) of
        Some k \<Rightarrow> res_bind (take_db (db_size ty) (ls ty ! k)) (\<lambda>(db, p). Inr (Some db, ls(ty := (ls ty)[k := p])))
      | None \<Rightarrow> (case new of None \<Rightarrow> Inr (None, ls)
          | Some addr \<Rightarrow> res_bind (take_db (db_size ty) (add_page ps ty addr)) (\<lambda>(db, p). Inr (Some db, ls(ty := p # ls ty)))))"

definition mlx4_free_db :: "nat \<Rightarrow> db_type \<Rightarrow> u64 \<Rightarrow> db_lists \<Rightarrow> db_lists res" where
  "mlx4_free_db ps ty db ls =
     (case first_from (\<lambda>p. db AND NOT (of_nat ps - 1) = dp_addr p) 0 (ls ty) of None \<Rightarrow> Inr ls
      | Some k \<Rightarrow> let p = ls ty ! k; i = unat (db - dp_addr p) div db_size ty in
          res_bind (arr_get (dp_free p) (i div 64)) (\<lambda>w.
            let p = p\<lparr>dp_free := (dp_free p)[i div 64 := w OR push_bit (i mod 64) 1], dp_use_cnt := dp_use_cnt p - 1\<rparr>
            in Inr (ls(ty := if dp_use_cnt p = 0 then take k (ls ty) @ drop (k + 1) (ls ty) else (ls ty)[k := p]))))"

section \<open>One page\<close>

definition used :: "db_page \<Rightarrow> nat set" where
  "used p = {i. i < 64 * length (dp_free p) \<and> \<not> bit_at (dp_free p) i}"

definition page_ok :: "nat \<Rightarrow> nat \<Rightarrow> db_page \<Rightarrow> bool" where
  "page_ok k sz p \<longleftrightarrow> 64 * length (dp_free p) * sz = 2 ^ k \<and> dp_num_db p = int (64 * length (dp_free p)) \<and> dp_use_cnt p = int (card (used p)) \<and>
     take_bit k (dp_addr p) = 0"

lemma used_finite [simp]: "finite (used p)"
  by (rule finite_subset [of _ "{..<64 * length (dp_free p)}"]) (auto simp: used_def)

lemma add_page_ok:
  assumes "9 \<le> k" "take_bit k addr = 0"
  shows "page_ok k (db_size ty) (add_page (2 ^ k) ty addr)" "used (add_page (2 ^ k) ty addr) = {}" "dp_addr (add_page (2 ^ k) ty addr) = addr"
    "dp_use_cnt (add_page (2 ^ k) ty addr) < dp_num_db (add_page (2 ^ k) ty addr)"
proof -
  obtain m where m: "k = m + 9" using assms(1) by (metis add.commute le_Suc_ex)
  have n: "2 ^ k div db_size ty div 64 * 64 * db_size ty = 2 ^ k" "2 ^ k div db_size ty = 64 * (2 ^ k div db_size ty div 64)" "0 < 2 ^ k div db_size ty div 64"
    by (cases ty; simp add: m power_add)+
  have bits: "bit_at (replicate l (- 1 :: u64)) i" if "i < 64 * l" for i l
    using that by (simp add: bit_at_def less_mult_imp_div_less mult.commute)
  show u: "used (add_page (2 ^ k) ty addr) = {}" using bits by (auto simp: used_def add_page_def Let_def)
  show "page_ok k (db_size ty) (add_page (2 ^ k) ty addr)"
    using n assms(2) unfolding page_ok_def u by (simp add: add_page_def Let_def mult.commute)
  show "dp_addr (add_page (2 ^ k) ty addr) = addr" by (simp add: add_page_def Let_def)
  show "dp_use_cnt (add_page (2 ^ k) ty addr) < dp_num_db (add_page (2 ^ k) ty addr)" using n(2,3) by (simp add: add_page_def Let_def)
qed

lemma take_db_ok:
  assumes "page_ok k sz p" "dp_use_cnt p < dp_num_db p"
  shows "\<exists>i p'. take_db sz p = Inr (dp_addr p + of_nat (i * sz), p') \<and> i < 64 * length (dp_free p) \<and> i \<notin> used p \<and> used p' = insert i (used p) \<and>
    page_ok k sz p' \<and> dp_addr p' = dp_addr p"
proof -
  let ?n = "64 * length (dp_free p)"
  have "\<exists>w\<in>set (dp_free p). w \<noteq> 0"
  proof (rule ccontr)
    assume "\<not> ?thesis"
    then have "dp_free p ! j = 0" if "j < length (dp_free p)" for j using that by auto
    then have "used p = {..<?n}" by (auto simp: used_def bit_at_def less_mult_imp_div_less mult.commute)
    then show False using assms by (simp add: page_ok_def)
  qed
  then obtain m where m: "first_from (\<lambda>w. w \<noteq> 0) 0 (dp_free p) = Some m"
    using first_from_None [of "\<lambda>w. w \<noteq> 0" 0 "dp_free p"] by (cases "first_from (\<lambda>w. w \<noteq> 0) 0 (dp_free p)") auto
  note f = first_0_Some [OF m]
  obtain j where j: "ffs (dp_free p ! m) = j + 1" "j < 64" "bit (dp_free p ! m) j" using ffs_bit [OF f(2)] by auto
  define i where "i = m * 64 + j"
  have i: "i < ?n" "i div 64 = m" "i mod 64 = j" using f(1) j(2) by (simp_all add: i_def)
  let ?w = "dp_free p ! m AND NOT (push_bit j 1)"
  let ?p = "p\<lparr>dp_use_cnt := dp_use_cnt p + 1, dp_free := (dp_free p)[m := ?w]\<rparr>"
  have at: "bit_at (dp_free p) i" using i(2,3) j(3) by (simp add: bit_at_def)
  have "bit_at ((dp_free p)[i div LENGTH(64) := ?w]) l = (if l = i then False else bit_at (dp_free p) l)" for l
    using i j(2,3) by (intro bit_at_update) (auto simp: bit_simps)
  then have u: "used ?p = insert i (used p)" "i \<notin> used p" using i(1,2) at by (auto simp: used_def)
  have "page_ok k sz ?p" using assms(1) u by (simp add: page_ok_def)
  moreover have "take_db sz p = Inr (dp_addr p + of_nat (i * sz), ?p)" by (simp add: take_db_def m j(1) i_def Let_def)
  ultimately show ?thesis using u i(1) by (intro exI [of _ i] exI [of _ ?p]) simp
qed

definition addr_of :: "nat \<Rightarrow> db_page \<Rightarrow> nat \<Rightarrow> u64" where
  "addr_of sz p i = dp_addr p + of_nat (i * sz)"

lemma page_offset:
  assumes "page_ok k sz p" "i < 64 * length (dp_free p)"
  shows "i * sz + sz \<le> 2 ^ k" "0 < sz"
proof -
  have n: "64 * length (dp_free p) * sz = 2 ^ k" using assms(1) by (simp add: page_ok_def)
  have "Suc i * sz \<le> 64 * length (dp_free p) * sz" using assms(2) by (intro mult_le_mono1) simp
  then show "i * sz + sz \<le> 2 ^ k" using n by simp
  show "0 < sz" using n by (cases sz) auto
qed

lemma give_back_ok:
  assumes "page_ok k sz p" "i \<in> used p" "k < 64"
  defines "p' \<equiv> p\<lparr>dp_free := (dp_free p)[i div 64 := dp_free p ! (i div 64) OR push_bit (i mod 64) 1], dp_use_cnt := dp_use_cnt p - 1\<rparr>"
  shows "used p' = used p - {i}" "page_ok k sz p'" "dp_addr p' = dp_addr p" "i div 64 < length (dp_free p)"
    "unat (addr_of sz p i - dp_addr p) div sz = i" "addr_of sz p i AND NOT (of_nat (2 ^ k) - 1) = dp_addr p"
proof -
  have i: "i < 64 * length (dp_free p)" using assms(2) by (simp add: used_def)
  then show l: "i div 64 < length (dp_free p)" by (simp add: less_mult_imp_div_less mult.commute)
  let ?w = "dp_free p ! (i div 64) OR push_bit (i mod 64) 1"
  have "bit_at ((dp_free p)[i div LENGTH(64) := ?w]) m = (if m = i then True else bit_at (dp_free p) m)" for m
    using i by (intro bit_at_update) (auto simp: bit_simps)
  then show u: "used p' = used p - {i}" by (auto simp: used_def p'_def)
  have "int (card (used p - {i})) = int (card (used p)) - 1" using card_Suc_Diff1 [OF used_finite assms(2)] by simp
  then show "page_ok k sz p'" using assms(1) unfolding page_ok_def u by (simp add: p'_def)
  show "dp_addr p' = dp_addr p" by (simp add: p'_def)
  have t: "take_bit k (dp_addr p) = 0" using assms(1) by (simp add: page_ok_def)
  have off: "i * sz < 2 ^ k" "0 < sz" using page_offset [OF assms(1) i] by simp_all
  show "unat (addr_of sz p i - dp_addr p) div sz = i" unfolding addr_of_def page_address(2) [OF t off(1) assms(3)] using off(2) by simp
  show "addr_of sz p i AND NOT (of_nat (2 ^ k) - 1) = dp_addr p" unfolding addr_of_def by (rule page_address(1) [OF t off(1) assms(3)])
qed

section \<open>All pages\<close>

text \<open>
  The pages of both types have different, aligned addresses, and none is empty; the records held are the used ones.
\<close>

definition all_pages :: "db_lists \<Rightarrow> db_page list" where
  "all_pages ls = ls MLX4_DB_TYPE_CQ @ ls MLX4_DB_TYPE_RQ"

definition lists_ok :: "nat \<Rightarrow> db_lists \<Rightarrow> bool" where
  "lists_ok k ls \<longleftrightarrow> (\<forall>ty. \<forall>p\<in>set (ls ty). page_ok k (db_size ty) p \<and> 0 < dp_use_cnt p) \<and> distinct (map dp_addr (all_pages ls))"

definition held_dbs :: "db_lists \<Rightarrow> (db_type \<times> u64) set" where
  "held_dbs ls = {(ty, addr_of (db_size ty) p i) | ty p i. p \<in> set (ls ty) \<and> i \<in> used p}"

definition dbs_inv :: "nat \<Rightarrow> db_lists \<Rightarrow> (db_type \<times> u64) set \<Rightarrow> bool" where
  "dbs_inv k ls H \<longleftrightarrow> lists_ok k ls \<and> H = held_dbs ls"

text \<open>Two records that share a byte.\<close>

fun dbs_clash :: "db_type \<times> u64 \<Rightarrow> db_type \<times> u64 \<Rightarrow> bool" where
  "dbs_clash (t, x) (u, y) \<longleftrightarrow> unat x < unat y + db_size u \<and> unat y < unat x + db_size t"

text \<open>The memory that the kernel gives for a new page is a page, and none of those in use.\<close>

fun new_page_ok :: "nat \<Rightarrow> db_type \<times> u64 option \<Rightarrow> db_lists \<Rightarrow> bool" where
  "new_page_ok k (ty, None) ls \<longleftrightarrow> True"
| "new_page_ok k (ty, Some addr) ls \<longleftrightarrow> take_bit k addr = 0 \<and> addr \<notin> dp_addr ` set (all_pages ls)"

lemma set_all_pages: "set (all_pages ls) = (\<Union>ty. set (ls ty))"
  by (auto simp: all_pages_def) (metis db_type.exhaust)

lemma same_page:
  assumes "lists_ok k ls" "p \<in> set (ls t)" "q \<in> set (ls u)" "dp_addr p = dp_addr q"
  shows "p = q" "t = u"
proof -
  have d: "distinct (map dp_addr (ls MLX4_DB_TYPE_CQ @ ls MLX4_DB_TYPE_RQ))" using assms(1) by (simp add: lists_ok_def all_pages_def)
  then have "p = q" if "t = u" using assms(2-4) that by (cases u) (auto simp: distinct_map inj_on_def)
  moreover show "t = u" using d assms(2-4) by (cases t; cases u) (auto simp: distinct_map inj_on_def)
  ultimately show "p = q" by simp
qed

lemma records_apart:
  assumes "page_ok k (db_size t) p" "page_ok k (db_size u) q" "i < 64 * length (dp_free p)" "j < 64 * length (dp_free q)" "k < 64"
    and "dp_addr p \<noteq> dp_addr q \<or> t = u \<and> p = q \<and> i \<noteq> j"
  shows "\<not> dbs_clash (t, addr_of (db_size t) p i) (u, addr_of (db_size u) q j)"
proof -
  note pi = page_offset [OF assms(1,3)] and qj = page_offset [OF assms(2,4)]
  have al: "take_bit k (dp_addr p) = 0" "take_bit k (dp_addr q) = 0" using assms(1,2) by (simp_all add: page_ok_def)
  have off: "i * db_size t < 2 ^ k" "j * db_size u < 2 ^ k" using pi qj by simp_all
  note a = page_address(3,4) [OF al(1) off(1) assms(5)] and b = page_address(3,4) [OF al(2) off(2) assms(5)]
  have at: "unat (addr_of (db_size t) p i) = unat (dp_addr p) + i * db_size t" "unat (addr_of (db_size u) q j) = unat (dp_addr q) + j * db_size u"
    using a(1) b(1) by (simp_all add: addr_of_def)
  show ?thesis
  proof (cases "dp_addr p = dp_addr q")
    case True
    then have *: "t = u" "i \<noteq> j" using assms(6) by simp_all
    then have "Suc i \<le> j \<or> Suc j \<le> i" by linarith
    then have "Suc i * db_size t \<le> j * db_size t \<or> Suc j * db_size t \<le> i * db_size t" by (meson mult_le_mono1)
    then show ?thesis using True * unfolding dbs_clash.simps at by auto
  next
    case False
    obtain m n where mn: "unat (dp_addr p) = 2 ^ k * m" "unat (dp_addr q) = 2 ^ k * n" using a(2) b(2) by (auto elim!: dvdE)
    then have "m \<noteq> n" using False by (metis word_unat_eq_iff)
    then have "Suc m \<le> n \<or> Suc n \<le> m" by linarith
    then have "2 ^ k * Suc m \<le> 2 ^ k * n \<or> (2 :: nat) ^ k * Suc n \<le> 2 ^ k * m" by (meson mult_le_mono2)
    then show ?thesis using pi(1) qj(1) unfolding dbs_clash.simps at mn by auto
  qed
qed

definition records :: "db_type \<Rightarrow> db_page \<Rightarrow> (db_type \<times> u64) set" where
  "records ty p = (\<lambda>i. (ty, addr_of (db_size ty) p i)) ` used p"

lemma held_records: "held_dbs ls = (\<Union>ty. \<Union>p\<in>set (ls ty). records ty p)"
  by (auto simp: held_dbs_def records_def)

lemma records_type: "r \<in> records u p \<Longrightarrow> fst r = u"
  by (auto simp: records_def)

lemma held_update: "held_dbs (ls(ty := l)) = (\<Union>p\<in>set l. records ty p) \<union> {r \<in> held_dbs ls. fst r \<noteq> ty}"
proof -
  have "held_dbs (ls(ty := l)) = (\<Union>p\<in>set l. records ty p) \<union> (\<Union>u\<in>- {ty}. \<Union>p\<in>set (ls u). records u p)"
  proof -
    have "(\<Union>u. g u) = g ty \<union> (\<Union>u\<in>- {ty}. g u)" for g :: "db_type \<Rightarrow> (db_type \<times> u64) set" by blast
    then show ?thesis unfolding held_records by simp
  qed
  moreover have "{r \<in> held_dbs ls. fst r \<noteq> ty} = (\<Union>u\<in>- {ty}. \<Union>p\<in>set (ls u). records u p)"
    unfolding held_records using records_type by blast
  ultimately show ?thesis by simp
qed

lemma held_type: "{r \<in> held_dbs ls. fst r = ty} = (\<Union>p\<in>set (ls ty). records ty p)"
  unfolding held_records by (auto simp: records_def)

text \<open>A free record of a page does not touch the held ones.\<close>

lemma fresh_record:
  assumes "lists_ok k ls" "page_ok k (db_size ty) p" "i < 64 * length (dp_free p)" "i \<notin> used p" "k < 64" "p \<in> set (ls ty) \<or> dp_addr p \<notin> dp_addr ` set (all_pages ls)"
    and "y \<in> held_dbs ls"
  shows "\<not> dbs_clash (ty, addr_of (db_size ty) p i) y"
proof -
  obtain u q j where y: "y = (u, addr_of (db_size u) q j)" "q \<in> set (ls u)" "j \<in> used q" using assms(7) by (auto simp: held_dbs_def)
  have q: "page_ok k (db_size u) q" "j < 64 * length (dp_free q)" using assms(1) y(2,3) by (auto simp: lists_ok_def used_def)
  have "dp_addr p \<noteq> dp_addr q \<or> ty = u \<and> p = q \<and> i \<noteq> j"
  proof (cases "dp_addr p = dp_addr q")
    case True
    then have "dp_addr p \<in> dp_addr ` set (all_pages ls)" using y(2) by (auto simp: set_all_pages)
    then have "p \<in> set (ls ty)" using assms(6) by blast
    from same_page [OF assms(1) this y(2) True] show ?thesis using assms(4) y(3) by auto
  qed simp
  then show ?thesis unfolding y(1) by (rule records_apart [OF assms(2) q(1) assms(3) q(2) assms(5)])
qed

lemma dbs_clash_sym: "dbs_clash x y = dbs_clash y x"
  by (cases x; cases y) auto

lemma dbs_clash_refl: "dbs_clash x x"
proof -
  have "0 < db_size t" for t by (cases t) simp_all
  then show ?thesis by (cases x) simp
qed

lemma map_all_pages:
  assumes "map dp_addr (l :: db_page list) = map dp_addr (ls ty)"
  shows "map dp_addr (all_pages (ls(ty := l))) = map dp_addr (all_pages ls)"
  using assms by (cases ty) (simp_all add: all_pages_def)

lemma alloc_db_ok:
  assumes "dbs_inv k ls H" "new_page_ok k (ty, new) ls" "9 \<le> k" "k < 64"
  shows "\<exists>r ls'. mlx4_alloc_db (2 ^ k) ty new ls = Inr (r, ls') \<and>
    (case r of None \<Rightarrow> dbs_inv k ls' H | Some db \<Rightarrow> dbs_inv k ls' (insert (ty, db) H) \<and> (\<forall>y\<in>H. \<not> dbs_clash (ty, db) y))"
proof -
  have ok: "lists_ok k ls" "H = held_dbs ls" using assms(1) by (simp_all add: dbs_inv_def)
  have rec: "records ty p' = insert (ty, addr_of (db_size ty) p i) (records ty p)" if "used p' = insert i (used p)" "dp_addr p' = dp_addr p" for p p' i
    using that by (simp add: records_def addr_of_def)
  have "1 \<le> card A" if "i \<in> A" "finite A" for i :: nat and A using that by (auto simp: Suc_le_eq card_gt_0_iff)
  then have pos: "0 < dp_use_cnt p'" if "page_ok k (db_size ty) p'" "used p' = insert i A" for p' i A
    using that used_finite [of p'] by (simp add: page_ok_def card_gt_0_iff)
  show ?thesis
  proof (cases "first_from (\<lambda>p. dp_use_cnt p < dp_num_db p) 0 (ls ty)")
    case (Some m)
    let ?p = "ls ty ! m"
    note f = first_0_Some [OF Some]
    have p: "?p \<in> set (ls ty)" "page_ok k (db_size ty) ?p" using ok(1) f(1) by (simp_all add: lists_ok_def)
    obtain i p' where t: "take_db (db_size ty) ?p = Inr (addr_of (db_size ty) ?p i, p')" "i < 64 * length (dp_free ?p)" "i \<notin> used ?p"
        "used p' = insert i (used ?p)" "page_ok k (db_size ty) p'" "dp_addr p' = dp_addr ?p"
      using take_db_ok [OF p(2) f(2)] by (auto simp: addr_of_def)
    let ?ls = "ls(ty := (ls ty)[m := p'])" and ?db = "addr_of (db_size ty) ?p i"
    have m: "map dp_addr (all_pages ?ls) = map dp_addr (all_pages ls)"
      by (rule map_all_pages) (use t(6) f(1) in \<open>simp add: map_update list_update_same_conv\<close>)
    have "distinct (map dp_addr (ls ty))" using ok(1) by (cases ty) (simp_all add: lists_ok_def all_pages_def)
    then have set: "set ((ls ty)[m := p']) = insert p' (set (ls ty) - {?p})" using f(1) by (simp add: set_update_distinct distinct_map)
    have "lists_ok k ?ls"
      using ok(1) t(5) pos [OF t(5,4)] set_update_subset_insert [of "ls ty" m p'] unfolding lists_ok_def m by auto
    moreover have "held_dbs ?ls = insert (ty, ?db) (held_dbs ls)"
    proof -
      have "(\<Union>p\<in>set ((ls ty)[m := p']). records ty p) = insert (ty, ?db) (\<Union>p\<in>set (ls ty). records ty p)"
        unfolding set using p(1) rec [OF t(4,6)] by auto
      then show ?thesis unfolding held_update held_type [symmetric] by auto
    qed
    moreover have "mlx4_alloc_db (2 ^ k) ty new ls = Inr (Some ?db, ?ls)" using Some t(1) by (simp add: mlx4_alloc_db_def)
    ultimately show ?thesis using fresh_record [OF ok(1) p(2) t(2,3) assms(4) disjI1 [OF p(1)]] ok(2) by (auto simp: dbs_inv_def)
  next
    case None
    show ?thesis
    proof (cases new)
      case None2: None
      then show ?thesis using None assms(1) by (simp add: mlx4_alloc_db_def)
    next
      case (Some addr)
      let ?p = "add_page (2 ^ k) ty addr"
      have new: "take_bit k addr = 0" "addr \<notin> dp_addr ` set (all_pages ls)" using assms(2) Some by simp_all
      note a = add_page_ok [OF assms(3) new(1), of ty]
      obtain i p' where t: "take_db (db_size ty) ?p = Inr (addr_of (db_size ty) ?p i, p')" "i < 64 * length (dp_free ?p)" "i \<notin> used ?p"
          "used p' = insert i (used ?p)" "page_ok k (db_size ty) p'" "dp_addr p' = dp_addr ?p"
        using take_db_ok [OF a(1,4)] by (auto simp: addr_of_def)
      let ?ls = "ls(ty := p' # ls ty)" and ?db = "addr_of (db_size ty) ?p i"
      have "distinct (map dp_addr (all_pages ?ls))"
        using ok(1) new(2) t(6) a(3) by (cases ty) (auto simp: lists_ok_def all_pages_def)
      then have "lists_ok k ?ls" using ok(1) t(5) pos [OF t(5,4)] by (simp add: lists_ok_def)
      moreover have "held_dbs ?ls = insert (ty, ?db) (held_dbs ls)"
      proof -
        have "records ty p' = {(ty, ?db)}" using rec [OF t(4,6)] a(2) by (simp add: records_def)
        then show ?thesis unfolding held_update held_type [symmetric] list.set using held_type [of ls ty] by auto
      qed
      moreover have "mlx4_alloc_db (2 ^ k) ty new ls = Inr (Some ?db, ?ls)" using None Some t(1) by (simp add: mlx4_alloc_db_def)
      moreover have "dp_addr ?p \<notin> dp_addr ` set (all_pages ls)" using new(2) a(3) by simp
      ultimately show ?thesis using fresh_record [OF ok(1) a(1) t(2,3) assms(4)] ok(2) by (auto simp: dbs_inv_def)
    qed
  qed
qed

lemma distinct_pages:
  assumes "distinct (map dp_addr (all_pages ls))" "distinct (map dp_addr l)" "dp_addr ` set l \<subseteq> dp_addr ` set (ls ty)"
  shows "distinct (map dp_addr (all_pages (ls(ty := l))))"
proof -
  have d: "distinct (map dp_addr (ls MLX4_DB_TYPE_CQ))" "distinct (map dp_addr (ls MLX4_DB_TYPE_RQ))"
      "dp_addr ` set (ls MLX4_DB_TYPE_CQ) \<inter> dp_addr ` set (ls MLX4_DB_TYPE_RQ) = {}"
    using assms(1) by (simp_all add: all_pages_def)
  show ?thesis
  proof (cases ty)
    case MLX4_DB_TYPE_CQ
    then have "dp_addr ` set l \<inter> dp_addr ` set (ls MLX4_DB_TYPE_RQ) = {}" using d(3) assms(3) by blast
    then show ?thesis using d(2) assms(2) MLX4_DB_TYPE_CQ by (simp add: all_pages_def)
  next
    case MLX4_DB_TYPE_RQ
    then have "dp_addr ` set (ls MLX4_DB_TYPE_CQ) \<inter> dp_addr ` set l = {}" using d(3) assms(3) by blast
    then show ?thesis using d(1) assms(2) MLX4_DB_TYPE_RQ by (simp add: all_pages_def)
  qed
qed

lemma free_db_ok:
  assumes "dbs_inv k ls H" "(ty, db) \<in> H" "k < 64"
  shows "\<exists>ls'. mlx4_free_db (2 ^ k) ty db ls = Inr ls' \<and> dbs_inv k ls' (H - {(ty, db)})"
proof -
  have ok: "lists_ok k ls" "H = held_dbs ls" using assms(1) by (simp_all add: dbs_inv_def)
  obtain p i where x: "db = addr_of (db_size ty) p i" "p \<in> set (ls ty)" "i \<in> used p" using assms(2) ok(2) by (auto simp: held_dbs_def)
  have p: "page_ok k (db_size ty) p" using ok(1) x(2) by (simp add: lists_ok_def)
  define p' where "p' = p\<lparr>dp_free := (dp_free p)[i div 64 := dp_free p ! (i div 64) OR push_bit (i mod 64) 1], dp_use_cnt := dp_use_cnt p - 1\<rparr>"
  note g = give_back_ok [OF p x(3) assms(3), folded p'_def]
  have "\<exists>q\<in>set (ls ty). db AND NOT (of_nat (2 ^ k) - 1) = dp_addr q" using x(2) g(6) unfolding x(1) by blast
  then obtain m where m: "first_from (\<lambda>p. db AND NOT (of_nat (2 ^ k) - 1) = dp_addr p) 0 (ls ty) = Some m"
    using first_from_None [of "\<lambda>p. db AND NOT (of_nat (2 ^ k) - 1) = dp_addr p" 0 "ls ty"]
    by (cases "first_from (\<lambda>p. db AND NOT (of_nat (2 ^ k) - 1) = dp_addr p) 0 (ls ty)") auto
  note f = first_0_Some [OF m]
  have pm: "ls ty ! m = p"
    by (rule same_page(1) [OF ok(1) x(2) nth_mem [OF f(1)], symmetric]) (rule f(2) [unfolded x(1) g(6)])
  let ?l = "if dp_use_cnt p' = 0 then take m (ls ty) @ drop (m + 1) (ls ty) else (ls ty)[m := p']"
  have run: "mlx4_free_db (2 ^ k) ty db ls = Inr (ls(ty := ?l))"
    using m pm g(4,5) unfolding mlx4_free_db_def by (simp add: Let_def x(1) p'_def)
  have d: "distinct (map dp_addr (ls ty))" using ok(1) by (cases ty) (simp_all add: lists_ok_def all_pages_def)
  have others: "records ty p' = records ty p - {(ty, db)}"
  proof -
    have "addr_of (db_size ty) p j \<noteq> db" if "j \<in> used p - {i}" for j
      using records_apart [OF p p, of j i] that x(1,3) assms(3) dbs_clash_refl [of "(ty, db)"] by (auto simp: used_def)
    then show ?thesis unfolding records_def g(1) by (auto simp: addr_of_def g(3) x(1))
  qed
  have away: "(ty, db) \<notin> records ty q" if "q \<in> set (ls ty) - {p}" for q
  proof
    assume "(ty, db) \<in> records ty q"
    then obtain j where j: "db = addr_of (db_size ty) q j" "j \<in> used q" by (auto simp: records_def)
    have "dp_addr p \<noteq> dp_addr q" using same_page(1) [OF ok(1) x(2), of q ty] that by auto
    then have "\<not> dbs_clash (ty, db) (ty, db)"
      using records_apart [OF p, of ty q i j] ok(1) that x j assms(3) by (auto simp: lists_ok_def used_def)
    then show False using dbs_clash_refl by blast
  qed
  have set: "(\<Union>q\<in>set ?l. records ty q) = (\<Union>q\<in>set (ls ty). records ty q) - {(ty, db)} \<and> (\<forall>q\<in>set ?l. q \<in> set (ls ty) \<or> q = p' \<and> dp_use_cnt p' \<noteq> 0) \<and>
      distinct (map dp_addr (all_pages (ls(ty := ?l))))"
  proof (cases "dp_use_cnt p' = 0")
    case True
    have "used p' = {}" using g(2) True by (simp add: page_ok_def)
    then have e: "records ty p - {(ty, db)} = {}" using others by (simp add: records_def)
    have split: "ls ty = take m (ls ty) @ p # drop (m + 1) (ls ty)" using id_take_nth_drop [OF f(1)] pm by simp
    have "distinct (take m (ls ty) @ p # drop (m + 1) (ls ty))" using d unfolding split [symmetric] by (simp add: distinct_map)
    then have s: "set ?l = set (ls ty) - {p}" using True arg_cong [OF split, of set] by auto
    moreover have "distinct (map dp_addr (all_pages (ls(ty := ?l))))"
    proof (rule distinct_pages)
      show "distinct (map dp_addr (all_pages ls))" using ok(1) by (simp add: lists_ok_def)
      have "distinct (map dp_addr (take m (ls ty) @ p # drop (m + 1) (ls ty)))" using d unfolding split [symmetric] .
      then show "distinct (map dp_addr ?l)" using True by simp
      show "dp_addr ` set ?l \<subseteq> dp_addr ` set (ls ty)" using s by blast
    qed
    moreover have "(\<Union>q\<in>set (ls ty) - {p}. records ty q) = (\<Union>q\<in>set (ls ty). records ty q) - {(ty, db)}"
      using e x(2) away by blast
    ultimately show ?thesis by simp
  next
    case False
    have m2: "map dp_addr (all_pages (ls(ty := ?l))) = map dp_addr (all_pages ls)"
      by (rule map_all_pages) (use False g(3) f(1) pm in \<open>simp add: map_update list_update_same_conv\<close>)
    have s: "set ?l = insert p' (set (ls ty) - {p})" using False f(1) pm d by (simp add: set_update_distinct distinct_map)
    moreover have "distinct (map dp_addr (all_pages (ls(ty := ?l))))" using ok(1) unfolding m2 by (simp add: lists_ok_def)
    moreover have "(\<Union>q\<in>insert p' (set (ls ty) - {p}). records ty q) = (\<Union>q\<in>set (ls ty). records ty q) - {(ty, db)}"
      using others x(2) away by blast
    ultimately show ?thesis using False by simp
  qed
  have "0 < dp_use_cnt p' \<or> dp_use_cnt p' = 0" using g(2) by (auto simp: page_ok_def)
  then have "\<forall>q\<in>set ?l. page_ok k (db_size ty) q \<and> 0 < dp_use_cnt q"
    using set ok(1) g(2) unfolding lists_ok_def by blast
  then have "\<forall>q\<in>set ((ls(ty := ?l)) t). page_ok k (db_size t) q \<and> 0 < dp_use_cnt q" for t
    using ok(1) unfolding lists_ok_def by (cases "t = ty") simp_all
  then have "lists_ok k (ls(ty := ?l))" using set unfolding lists_ok_def by blast
  moreover have "held_dbs (ls(ty := ?l)) = H - {(ty, db)}"
    unfolding held_update ok(2) using set held_type [of ls ty] by auto
  ultimately show ?thesis using run by (simp add: dbs_inv_def)
qed

section \<open>The allocator\<close>

definition db_request :: "nat \<Rightarrow> db_type \<times> u64 option \<Rightarrow> db_lists \<Rightarrow> ((db_type \<times> u64) option \<times> db_lists) res" where
  "db_request ps a ls = res_bind (mlx4_alloc_db ps (fst a) (snd a) ls) (\<lambda>(r, ls). Inr (map_option (Pair (fst a)) r, ls))"

definition db_release :: "nat \<Rightarrow> db_type \<times> u64 \<Rightarrow> db_lists \<Rightarrow> db_lists res" where
  "db_release ps x ls = mlx4_free_db ps (fst x) (snd x) ls"

interpretation db_records: allocator "\<lambda>ls H. dbs_inv k ls H \<and> 9 \<le> k \<and> k < 64" "new_page_ok k" "\<lambda>a x. fst a = fst x" dbs_clash
  "db_request (2 ^ k)" "db_release (2 ^ k)" for k :: nat
proof (unfold_locales, goal_cases)
  case (1 ls H a)
  obtain r ls' where r: "mlx4_alloc_db (2 ^ k) (fst a) (snd a) ls = Inr (r, ls')"
      "case r of None \<Rightarrow> dbs_inv k ls' H | Some db \<Rightarrow> dbs_inv k ls' (insert (fst a, db) H) \<and> (\<forall>y\<in>H. \<not> dbs_clash (fst a, db) y)"
    using alloc_db_ok [of k ls H "fst a" "snd a"] 1 by auto
  have "x \<notin> H" if "\<forall>y\<in>H. \<not> dbs_clash x y" for x using that dbs_clash_refl by blast
  then show ?case
    using r 1 dbs_clash_sym by (intro exI [of _ "map_option (Pair (fst a)) r"] exI [of _ ls']) (auto simp: db_request_def split: option.splits)
next
  case (2 ls H x)
  then show ?case using free_db_ok [of k ls H "fst x" "snd x"] by (simp add: db_release_def)
qed

text \<open>
  C27: Doorbell records are never shared: however queues are created and destroyed, the records held at any time are different,
  no two of either type have a byte in common, they are exactly those marked as used in the maps of the pages, and no access falls outside a
  map. When the last record is given back, so is the last page.
\<close>

theorem doorbell_records_distinct:
  assumes "9 \<le> k" "k < 64" "good_ops (new_page_ok k) (db_request (2 ^ k)) (db_release (2 ^ k)) ops (\<lambda>_. []) []"
  shows "\<exists>ls rs. alloc_run (db_request (2 ^ k)) (db_release (2 ^ k)) ops (\<lambda>_. []) [] = Inr (ls, rs) \<and> separate dbs_clash rs \<and>
    set rs = held_dbs ls \<and> (rs = [] \<longrightarrow> (\<forall>ty. ls ty = []))"
proof -
  have "dbs_inv k (\<lambda>_. []) (set [])" by (simp add: dbs_inv_def lists_ok_def all_pages_def held_dbs_def)
  then obtain ls rs where r: "alloc_run (db_request (2 ^ k)) (db_release (2 ^ k)) ops (\<lambda>_. []) [] = Inr (ls, rs)"
      "dbs_inv k ls (set rs)" "separate dbs_clash rs"
    using db_records.run_ok [of k "\<lambda>_. []" "[]" ops] assms by (auto simp: separate_def)
  have "ls ty = []" if "held_dbs ls = {}" for ty
  proof (rule ccontr)
    assume "ls ty \<noteq> []"
    then obtain p where p: "p \<in> set (ls ty)" by (cases "ls ty") auto
    then have "page_ok k (db_size ty) p" "0 < dp_use_cnt p" using r(2) by (auto simp: dbs_inv_def lists_ok_def)
    then have "used p \<noteq> {}" by (auto simp: page_ok_def)
    then show False using that p by (auto simp: held_dbs_def)
  qed
  then show ?thesis using r by (intro exI [of _ ls] exI [of _ rs]) (auto simp: dbs_inv_def)
qed

definition ex_db_ops :: "(db_type \<times> u64 option, db_type \<times> u64) alloc_op list" where
  "ex_db_ops = [Alloc_op (MLX4_DB_TYPE_CQ, Some 0x10000), Alloc_op (MLX4_DB_TYPE_CQ, None), Free_op (MLX4_DB_TYPE_CQ, 0x10000)]"

definition ex_page :: "int \<Rightarrow> u64 \<Rightarrow> db_page" where
  "ex_page n w = \<lparr>dp_addr = 0x10000, dp_num_db = 512, dp_use_cnt = n, dp_free = w # replicate 7 (- 1)\<rparr>"

lemma doorbell_records_distinct_witness:
  "\<exists>ls rs. alloc_run (db_request (2 ^ 12)) (db_release (2 ^ 12)) ex_db_ops (\<lambda>_. []) [] = Inr (ls, rs) \<and> separate dbs_clash rs \<and>
    set rs = held_dbs ls \<and> (rs = [] \<longrightarrow> (\<forall>ty. ls ty = []))"
proof (rule doorbell_records_distinct)
  let ?cq = "MLX4_DB_TYPE_CQ" and ?e = "\<lambda>_. [] :: db_page list"
  have f: "ffs (- 1 :: u64) = 1" "ffs (- 2 :: u64) = 2" by (simp_all add: ffs_def upt_conv_Cons)
  have "replicate 8 x = x # replicate 7 x" for x :: u64 by (simp add: eval_nat_numeral)
  then have add: "add_page (2 ^ 12) ?cq 0x10000 = ex_page 0 (- 1)" by (simp add: add_page_def ex_page_def Let_def)
  have t: "take_db 8 (ex_page 0 (- 1)) = Inr (0x10000, ex_page 1 (- 2))" "take_db 8 (ex_page 1 (- 2)) = Inr (0x10008, ex_page 2 (- 4))"
    by (simp_all add: take_db_def ex_page_def f Let_def)
  have 1: "db_request (2 ^ 12) (?cq, Some 0x10000) ?e = Inr (Some (?cq, 0x10000), ?e(?cq := [ex_page 1 (- 2)]))"
    unfolding db_request_def mlx4_alloc_db_def fst_conv snd_conv by (simp add: add [simplified] t)
  have 2: "db_request (2 ^ 12) (?cq, None) (?e(?cq := [ex_page 1 (- 2)])) = Inr (Some (?cq, 0x10008), ?e(?cq := [ex_page 2 (- 4)]))"
    unfolding db_request_def mlx4_alloc_db_def fst_conv snd_conv by (simp add: t) (simp add: ex_page_def)
  show "good_ops (new_page_ok 12) (db_request (2 ^ 12)) (db_release (2 ^ 12)) ex_db_ops (\<lambda>_. []) []"
    unfolding ex_db_ops_def by (simp add: 1 [simplified] 2 [simplified] all_pages_def split: sum.split)
qed simp_all

end
