(* ===== verification/Bitmap.thy ===== *)
theory Bitmap
  imports Allocator
begin

text \<open>
  The bitmaps of \<open>libmlx4/src/bitmap.h\<close>, from which the chunks of huge pages are allocated. Positions are \<open>nat\<close>; the end of a range wraps around
  as in the code. Alignment is 1, which the only caller asks for.
\<close>

unbundle bit_operations_syntax

section \<open>Operations\<close>

record bitmap =
  bm_last :: u32
  bm_top :: u32
  bm_max :: u32
  bm_avail :: u32
  bm_mask :: u32
  bm_table :: "u32 list"

definition mlx4_ffz :: "u32 \<Rightarrow> nat" where
  "mlx4_ffz w = ffs (NOT w) - 1"

definition mlx4_set_bit :: "nat \<Rightarrow> u32 list \<Rightarrow> u32 list res" where
  "mlx4_set_bit nr t = res_bind (arr_get t (nr div 32)) (\<lambda>w. Inr (t[nr div 32 := w OR push_bit (nr mod 32) 1]))"

definition mlx4_clear_bit :: "nat \<Rightarrow> u32 list \<Rightarrow> u32 list res" where
  "mlx4_clear_bit nr t = res_bind (arr_get t (nr div 32)) (\<lambda>w. Inr (t[nr div 32 := w AND NOT (push_bit (nr mod 32) 1)]))"

definition mlx4_test_bit :: "nat \<Rightarrow> u32 list \<Rightarrow> bool res" where
  "mlx4_test_bit nr t = res_bind (arr_get t (nr div 32)) (\<lambda>w. Inr (w AND push_bit (nr mod 32) 1 \<noteq> 0))"

fun find_first_zero :: "u32 list \<Rightarrow> nat \<Rightarrow> nat \<Rightarrow> nat res" where
  "find_first_zero ws result n = (if n = 0 then Inr result else (case ws of [] \<Rightarrow> Inl Out_of_bounds
     | w # ws \<Rightarrow> if 32 \<le> n then if NOT w \<noteq> 0 then Inr (result + mlx4_ffz w) else find_first_zero ws (result + 32) (n - 32)
         else let tmp = w OR push_bit n (- 1) in Inr (if tmp = - 1 then result + n else result + mlx4_ffz tmp)))"

definition mlx4_find_first_zero_bit :: "u32 list \<Rightarrow> u32 \<Rightarrow> u32 res" where
  "mlx4_find_first_zero_bit t n = map_sum id of_nat (find_first_zero t 0 (unat n))"

definition mlx4_bitmap_alloc :: "bitmap \<Rightarrow> (u32 \<times> bitmap) res" where
  "mlx4_bitmap_alloc b = res_bind (mlx4_find_first_zero_bit (bm_table b) (bm_max b)) (\<lambda>obj.
     if obj < bm_max b then res_bind (mlx4_set_bit (unat obj) (bm_table b)) (\<lambda>t.
       let r = obj OR bm_top b in
       Inr (r, b\<lparr>bm_table := t, bm_last := (if obj + 1 = bm_max b then 0 else obj + 1),
         bm_avail := (if r = - 1 then bm_avail b else bm_avail b - 1)\<rparr>))
     else Inr (- 1, b))"

text \<open>The first position that is not marked, and the first one in a range that is.\<close>

function skip_marked :: "u32 list \<Rightarrow> nat \<Rightarrow> nat \<Rightarrow> nat res" where
  "skip_marked t start n = (if start < n then res_bind (mlx4_test_bit start t) (\<lambda>b. if b then skip_marked t (start + 1) n else Inr start) else Inr start)"
  by auto
termination by (relation "measure (\<lambda>(t, start, n). n - start)") auto

function find_marked :: "u32 list \<Rightarrow> nat \<Rightarrow> nat \<Rightarrow> nat option res" where
  "find_marked t i e = (if i < e then res_bind (mlx4_test_bit i t) (\<lambda>b. if b then Inr (Some i) else find_marked t (i + 1) e) else Inr None)"
  by auto
termination by (relation "measure (\<lambda>(t, i, e). e - i)") auto

declare find_first_zero.simps [simp del] skip_marked.simps [simp del] find_marked.simps [simp del]

lemma skip_marked_le: "skip_marked t start n = Inr s \<Longrightarrow> start \<le> s"
proof (induction t start n rule: skip_marked.induct)
  case (1 t start n)
  show ?case using 1(2) by (subst (asm) skip_marked.simps) (auto simp: res_bind_eq_Inr split: if_splits dest!: 1(1))
qed

lemma find_marked_le: "find_marked t i e = Inr (Some k) \<Longrightarrow> i \<le> k"
proof (induction t i e rule: find_marked.induct)
  case (1 t i e)
  show ?case using 1(2) by (subst (asm) find_marked.simps) (auto simp: res_bind_eq_Inr split: if_splits dest!: 1(1))
qed

function find_aligned_range :: "u32 list \<Rightarrow> nat \<Rightarrow> nat \<Rightarrow> nat \<Rightarrow> u32 res" where
  "find_aligned_range t start n len = (case skip_marked t start n of Inl f \<Rightarrow> Inl f
     | Inr s \<Rightarrow> let e = (s + len) mod 2 ^ 32 in
         if n \<le> s \<or> n < e then Inr (- 1)
         else (case find_marked t (s + 1) e of Inl f \<Rightarrow> Inl f
           | Inr None \<Rightarrow> Inr (of_nat s)
           | Inr (Some i) \<Rightarrow> find_aligned_range t (i + 1) n len))"
  by auto
termination
proof (relation "measure (\<lambda>(t, start, n, len). n - start)", goal_cases)
  case (2 t start n len s e r i)
  then show ?case using skip_marked_le [of t start n s] find_marked_le [of t "s + 1" e i] by auto
qed simp

declare find_aligned_range.simps [simp del]

fun on_range :: "(nat \<Rightarrow> u32 list \<Rightarrow> u32 list res) \<Rightarrow> nat \<Rightarrow> nat \<Rightarrow> u32 list \<Rightarrow> u32 list res" where
  "on_range f obj 0 t = Inr t"
| "on_range f obj (Suc cnt) t = res_bind (f obj t) (on_range f (obj + 1) cnt)"

definition mlx4_bitmap_alloc_range :: "bitmap \<Rightarrow> u32 \<Rightarrow> (u32 \<times> bitmap) res" where
  "mlx4_bitmap_alloc_range b cnt =
     (if cnt = 1 then mlx4_bitmap_alloc b
      else if bm_max b < cnt then Inr (- 1, b)
      else res_bind (find_aligned_range (bm_table b) (unat (bm_last b)) (unat (bm_max b)) (unat cnt)) (\<lambda>obj.
        res_bind (if bm_max b \<le> obj
            then res_bind (find_aligned_range (bm_table b) 0 (unat (bm_max b)) (unat cnt))
              (\<lambda>obj. Inr (obj, b\<lparr>bm_top := (bm_top b + bm_max b) AND bm_mask b\<rparr>))
            else Inr (obj, b)) (\<lambda>(obj, b).
          if obj < bm_max b then res_bind (on_range mlx4_set_bit (unat obj) (unat cnt) (bm_table b)) (\<lambda>t.
            let r = obj OR bm_top b;
              last = if obj \<noteq> bm_last b then bm_last b else if bm_max b \<le> obj + cnt then 0 else obj + cnt in
            Inr (r, b\<lparr>bm_table := t, bm_last := last, bm_avail := (if r = - 1 then bm_avail b else bm_avail b - cnt)\<rparr>))
          else Inr (obj, b))))"

definition mlx4_bitmap_free_range :: "bitmap \<Rightarrow> u32 \<Rightarrow> u32 \<Rightarrow> bitmap res" where
  "mlx4_bitmap_free_range b obj cnt = (let obj = obj AND (bm_max b - 1) in
     res_bind (on_range mlx4_clear_bit (unat obj) (unat cnt) (bm_table b)) (\<lambda>t.
       Inr (b\<lparr>bm_table := t, bm_last := (if bm_last b < obj then bm_last b else obj),
         bm_top := (bm_top b + bm_max b) AND bm_mask b, bm_avail := bm_avail b + cnt\<rparr>)))"

definition is_bitmap_empty :: "bitmap \<Rightarrow> bool" where
  "is_bitmap_empty b \<longleftrightarrow> bm_avail b = bm_max b"

definition is_bitmap_avail :: "bitmap \<Rightarrow> bool" where
  "is_bitmap_avail b \<longleftrightarrow> 0 < bm_avail b"

definition mlx4_bitmap_init :: "u32 \<Rightarrow> u32 \<Rightarrow> bitmap" where
  "mlx4_bitmap_init num msk = \<lparr>bm_last = 0, bm_top = 0, bm_max = num, bm_avail = num, bm_mask = msk,
     bm_table = replicate ((unat num + 31) div 32) 0\<rparr>"

section \<open>Single bits and ranges\<close>

text \<open>What setting or clearing one bit does, and so a range of them.\<close>

definition makes_bit :: "bool \<Rightarrow> (nat \<Rightarrow> u32 list \<Rightarrow> u32 list res) \<Rightarrow> bool" where
  "makes_bit v f \<longleftrightarrow> (\<forall>t nr. nr < 32 * length t \<longrightarrow>
     (\<exists>t'. f nr t = Inr t' \<and> length t' = length t \<and> (\<forall>i. bit_at t' i = (if i = nr then v else bit_at t i))))"

lemma set_clear_bit [simp]: "makes_bit True mlx4_set_bit" "makes_bit False mlx4_clear_bit"
proof -
  have at: "bit_at (t[nr div 32 := w]) i = (if i = nr then v else bit_at t i)"
    if "nr < 32 * length t" "\<And>j. j < 32 \<Longrightarrow> bit w j = (if j = nr mod 32 then v else bit (t ! (nr div 32)) j)"
    for t :: "u32 list" and w v nr i
    using bit_at_update [of nr t w v i] that by simp
  have nr: "nr div 32 < length t" if "nr < 32 * length t" for nr and t :: "u32 list"
    using that by (simp add: less_mult_imp_div_less mult.commute)
  have s: "bit (w OR push_bit k 1) j = (if j = k then True else bit w j)"
    and c: "bit (w AND NOT (push_bit k 1)) j = (if j = k then False else bit w j)" if "j < 32" for w :: u32 and j k
    using that by (auto simp: bit_simps)
  show "makes_bit True mlx4_set_bit" unfolding makes_bit_def mlx4_set_bit_def
  proof (intro allI impI)
    fix t :: "u32 list" and nr assume a: "nr < 32 * length t"
    show "\<exists>t'. res_bind (arr_get t (nr div 32)) (\<lambda>w. Inr (t[nr div 32 := w OR push_bit (nr mod 32) 1])) = Inr t' \<and>
      length t' = length t \<and> (\<forall>i. bit_at t' i = (if i = nr then True else bit_at t i))"
      using at [OF a s] nr [OF a] by (simp only: arr_get_in res_bind_simps) auto
  qed
  show "makes_bit False mlx4_clear_bit" unfolding makes_bit_def mlx4_clear_bit_def
  proof (intro allI impI)
    fix t :: "u32 list" and nr assume a: "nr < 32 * length t"
    show "\<exists>t'. res_bind (arr_get t (nr div 32)) (\<lambda>w. Inr (t[nr div 32 := w AND NOT (push_bit (nr mod 32) 1)])) = Inr t' \<and>
      length t' = length t \<and> (\<forall>i. bit_at t' i = (if i = nr then False else bit_at t i))"
      using at [OF a c] nr [OF a] by (simp only: arr_get_in res_bind_simps) auto
  qed
qed

lemma and_bit_eq: "w AND push_bit k 1 \<noteq> 0 \<longleftrightarrow> bit w k" if "k < 32" for w :: u32
proof -
  have "w AND push_bit k 1 = (if bit w k then push_bit k 1 else 0)"
    by (rule bit_word_eqI) (auto simp: bit_simps)
  moreover have "push_bit k 1 \<noteq> (0 :: u32)" using that by (auto simp: bit_eq_iff bit_simps)
  ultimately show ?thesis by simp
qed

lemma test_bit_ok [simp]:
  assumes "nr < 32 * length t"
  shows "mlx4_test_bit nr t = Inr (bit_at t nr)"
proof -
  have "nr div 32 < length t" using assms by (simp add: less_mult_imp_div_less mult.commute)
  then show ?thesis unfolding mlx4_test_bit_def by (simp only: arr_get_in res_bind_simps and_bit_eq bit_at_def) simp
qed

lemma on_range_ok:
  "\<lbrakk>makes_bit v f; obj + n \<le> 32 * length t\<rbrakk> \<Longrightarrow> \<exists>t'. on_range f obj n t = Inr t' \<and> length t' = length t \<and>
     (\<forall>i. bit_at t' i = (if i \<in> {obj..<obj + n} then v else bit_at t i))"
proof (induction n arbitrary: obj t)
  case (Suc n)
  have o: "obj < 32 * length t" using Suc.prems(2) by simp
  obtain t1 where t1: "f obj t = Inr t1" "length t1 = length t" "\<And>i. bit_at t1 i = (if i = obj then v else bit_at t i)"
    using Suc.prems(1) o unfolding makes_bit_def by blast
  obtain t2 where t2: "on_range f (obj + 1) n t1 = Inr t2" "length t2 = length t1"
      "\<And>i. bit_at t2 i = (if i \<in> {obj + 1..<obj + 1 + n} then v else bit_at t1 i)"
    using Suc.IH [of "obj + 1" t1] Suc.prems t1(2) by auto
  then show ?case using t1 by auto
qed simp

section \<open>Searches\<close>

lemma ffz_bit:
  assumes "w \<noteq> - 1"
  shows "mlx4_ffz w < 32" "\<not> bit w (mlx4_ffz w)" "\<And>i. i < mlx4_ffz w \<Longrightarrow> bit w i"
proof -
  have "NOT w \<noteq> 0" using assms by (metis bit.double_compl bit.compl_zero)
  from ffs_bit [OF this] obtain j where j: "ffs (NOT w) = j + 1" "j < 32" "bit (NOT w) j" "\<And>i. i < j \<Longrightarrow> \<not> bit (NOT w) i" by auto
  have e: "mlx4_ffz w = j" using j(1) by (simp add: mlx4_ffz_def)
  show "mlx4_ffz w < 32" "\<not> bit w (mlx4_ffz w)" "\<And>i. i < mlx4_ffz w \<Longrightarrow> bit w i"
    using j(2-4) unfolding e by (auto simp: bit_not_iff)
qed

lemma bit_at_Cons: "bit_at (w # ws) i = (if i < 32 then bit w i else bit_at ws (i - 32))" for w :: u32
proof (cases "i < 32")
  case False
  then obtain j where "i = j + 32" by (metis add.commute le_Suc_ex not_less)
  moreover have "(j + 32) div 32 = Suc (j div 32)" "(j + 32) mod 32 = j mod 32" by simp_all
  ultimately show ?thesis by (simp add: bit_at_def)
qed (simp add: bit_at_def)

lemma find_first_zero_ok:
  "n \<le> 32 * length ws \<Longrightarrow>
     \<exists>k. find_first_zero ws r n = Inr (r + k) \<and> k \<le> n \<and> (\<forall>i<k. bit_at ws i) \<and> (k < n \<longrightarrow> \<not> bit_at ws k)"
proof (induction ws arbitrary: r n)
  case (Cons w ws)
  note def = find_first_zero.simps [of "w # ws" r n]
  consider "n = 0" | "32 \<le> n" "NOT w \<noteq> 0" | "32 \<le> n" "NOT w = 0" | "0 < n" "n < 32" by linarith
  then show ?case
  proof cases
    case 2
    then have "w \<noteq> - 1" by auto
    from ffz_bit [OF this] show ?thesis using 2 by (intro exI [of _ "mlx4_ffz w"]) (simp add: def bit_at_Cons)
  next
    case 3
    obtain k where k: "find_first_zero ws (r + 32) (n - 32) = Inr (r + 32 + k)" "k \<le> n - 32" "\<forall>i<k. bit_at ws i"
        "k < n - 32 \<longrightarrow> \<not> bit_at ws k"
    proof -
      have "n - 32 \<le> 32 * length ws" using Cons.prems by simp
      then show ?thesis using Cons.IH that by blast
    qed
    have "w = - 1" using 3(2) by (metis bit.double_compl bit.compl_zero)
    then have "bit w i" if "i < 32" for i using that by simp
    then show ?thesis using 3 k by (intro exI [of _ "k + 32"]) (auto simp: def bit_at_Cons)
  next
    case 4
    let ?tmp = "w OR push_bit n (- 1)"
    have b: "bit ?tmp i \<longleftrightarrow> bit w i \<or> n \<le> i" if "i < 32" for i using that by (auto simp: bit_simps)
    show ?thesis
    proof (cases "?tmp = - 1")
      case True
      then have "bit w i" if "i < n" for i using b [of i] that 4 by simp
      then show ?thesis using 4 True by (intro exI [of _ n]) (simp add: def bit_at_Cons)
    next
      case False
      from ffz_bit [OF this] have z: "mlx4_ffz ?tmp < 32" "\<not> bit ?tmp (mlx4_ffz ?tmp)" "\<And>i. i < mlx4_ffz ?tmp \<Longrightarrow> bit ?tmp i" by auto
      then have "mlx4_ffz ?tmp < n" using b [of "mlx4_ffz ?tmp"] by force
      then show ?thesis using 4 False z b by (intro exI [of _ "mlx4_ffz ?tmp"]) (simp add: def bit_at_Cons)
    qed
  qed (simp add: find_first_zero.simps [of "w # ws" r 0])
qed (simp add: find_first_zero.simps)


lemma le_split: "i \<le> j \<longleftrightarrow> j = i \<or> Suc i \<le> j" for i j :: nat
  by auto

lemma skip_marked_ok:
  "n \<le> 32 * length t \<Longrightarrow> \<exists>s. skip_marked t start n = Inr s \<and> start \<le> s \<and> (\<forall>i. start \<le> i \<and> i < s \<longrightarrow> i < n \<and> bit_at t i) \<and>
     (s < n \<longrightarrow> \<not> bit_at t s)"
proof (induction t start n rule: skip_marked.induct)
  case (1 t start n)
  note def = skip_marked.simps [of t start n]
  show ?case
  proof (cases "start < n \<and> bit_at t start")
    case True
    then have "mlx4_test_bit start t = Inr True" using 1(2) by simp
    then obtain s where "skip_marked t (start + 1) n = Inr s" "start + 1 \<le> s"
        "\<forall>i. start + 1 \<le> i \<and> i < s \<longrightarrow> i < n \<and> bit_at t i" "s < n \<longrightarrow> \<not> bit_at t s"
      using 1(1) [of True] 1(2) True by blast
    then show ?thesis using True 1(2) by (intro exI [of _ s]) (auto simp: def le_split [of start])
  qed (use 1(2) in \<open>auto simp: def\<close>)
qed

lemma find_marked_ok:
  "e \<le> 32 * length t \<Longrightarrow> \<exists>r. find_marked t i e = Inr r \<and>
     (case r of None \<Rightarrow> \<forall>j. i \<le> j \<and> j < e \<longrightarrow> \<not> bit_at t j | Some k \<Rightarrow> i \<le> k \<and> k < e \<and> bit_at t k)"
proof (induction t i e rule: find_marked.induct)
  case (1 t i e)
  note def = find_marked.simps [of t i e]
  show ?case
  proof (cases "i < e \<and> \<not> bit_at t i")
    case True
    then have "mlx4_test_bit i t = Inr False" using 1(2) by simp
    then obtain r where "find_marked t (i + 1) e = Inr r"
        "case r of None \<Rightarrow> \<forall>j. i + 1 \<le> j \<and> j < e \<longrightarrow> \<not> bit_at t j | Some k \<Rightarrow> i + 1 \<le> k \<and> k < e \<and> bit_at t k"
      using 1(1) [of False] 1(2) True by blast
    then show ?thesis using True 1(2) by (intro exI [of _ r]) (auto simp: def le_split [of i] split: option.splits)
  qed (use 1(2) in \<open>auto simp: def\<close>)
qed

text \<open>The first fit from a position on.\<close>

lemma find_aligned_range_ok:
  "\<lbrakk>n \<le> 32 * length t; n < 2 ^ 31; 1 \<le> len; len \<le> n\<rbrakk> \<Longrightarrow> \<exists>r. find_aligned_range t start n len = Inr r \<and>
     (r = - 1 \<and> (\<forall>s. start \<le> s \<and> s + len \<le> n \<longrightarrow> (\<exists>i. s \<le> i \<and> i < s + len \<and> bit_at t i)) \<or>
      (\<exists>s. r = of_nat s \<and> s + len \<le> n \<and> (\<forall>i. s \<le> i \<and> i < s + len \<longrightarrow> \<not> bit_at t i)))"
proof (induction t start n len rule: find_aligned_range.induct)
  case (1 t start n len)
  obtain s where s: "skip_marked t start n = Inr s" "start \<le> s" "\<forall>i. start \<le> i \<and> i < s \<longrightarrow> i < n \<and> bit_at t i" "s < n \<longrightarrow> \<not> bit_at t s"
    using skip_marked_ok [of n t start] 1 by blast
  note def = find_aligned_range.simps [of t start n len]
  show ?case
  proof (cases "s + len \<le> n")
    case False
    then have "\<exists>i. k \<le> i \<and> i < k + len \<and> bit_at t i" if "start \<le> k \<and> k + len \<le> n" for k
      using s(3) that 1(4) by (intro exI [of _ k]) auto
    moreover have "find_aligned_range t start n len = Inr (- 1)"
    proof (cases "n \<le> s")
      case False
      then show ?thesis using \<open>\<not> s + len \<le> n\<close> 1(3,5) by (simp add: def s(1))
    qed (simp add: def s(1))
    ultimately show ?thesis by blast
  next
    case True
    then have e: "(s + len) mod 2 ^ 32 = s + len" "s < n" using 1(3,4) by simp_all
    obtain r where r: "find_marked t (s + 1) (s + len) = Inr r"
        "case r of None \<Rightarrow> \<forall>j. s + 1 \<le> j \<and> j < s + len \<longrightarrow> \<not> bit_at t j | Some k \<Rightarrow> s + 1 \<le> k \<and> k < s + len \<and> bit_at t k"
      using find_marked_ok [of "s + len" t "s + 1"] True 1(2) by auto
    show ?thesis
    proof (cases r)
      case None
      then have "\<forall>i. s \<le> i \<and> i < s + len \<longrightarrow> \<not> bit_at t i" using r(2) s(4) e(2) by (auto simp: le_split [of s])
      moreover have "find_aligned_range t start n len = Inr (of_nat s)" using True e r(1) None by (simp add: def s(1))
      ultimately show ?thesis using True by blast
    next
      case (Some k)
      have "\<exists>i. j \<le> i \<and> i < j + len \<and> bit_at t i" if "start \<le> j" "j < k + 1" "j + len \<le> n" for j
      proof (cases "j < s")
        case True
        then show ?thesis using s(3) that 1(4) by (intro exI [of _ j]) auto
      next
        case False
        then show ?thesis using r(2) Some that by (intro exI [of _ k]) auto
      qed
      moreover have "find_aligned_range t start n len = find_aligned_range t (k + 1) n len"
        using True e r(1) Some by (simp add: def s(1))
      moreover have "\<exists>r. find_aligned_range t (k + 1) n len = Inr r \<and>
         (r = - 1 \<and> (\<forall>s. k + 1 \<le> s \<and> s + len \<le> n \<longrightarrow> (\<exists>i. s \<le> i \<and> i < s + len \<and> bit_at t i)) \<or>
          (\<exists>s. r = of_nat s \<and> s + len \<le> n \<and> (\<forall>i. s \<le> i \<and> i < s + len \<longrightarrow> \<not> bit_at t i)))"
        using 1(1) [OF s(1) refl _ _ Some] e r(1) True 1(2-5) by simp
      ultimately show ?thesis by (metis not_le)
    qed
  qed
qed

section \<open>Bitmaps of \<open>2 ^ m\<close> chunks\<close>

definition marked :: "bitmap \<Rightarrow> nat set" where
  "marked b = {i. i < unat (bm_max b) \<and> bit_at (bm_table b) i}"

definition bitmap_ok :: "nat \<Rightarrow> bitmap \<Rightarrow> bool" where
  "bitmap_ok m b \<longleftrightarrow> unat (bm_max b) = 2 ^ m \<and> 5 \<le> m \<and> m < 31 \<and> bm_mask b = bm_max b - 1 \<and> bm_top b = 0 \<and>
     32 * length (bm_table b) = 2 ^ m \<and> unat (bm_avail b) + card (marked b) = 2 ^ m \<and> bm_last b < bm_max b"

lemma marked_finite [simp]: "finite (marked b)"
  by (rule finite_subset [of _ "{..<unat (bm_max b)}"]) (auto simp: marked_def)

text \<open>The chunks of a range.\<close>

abbreviation chunks :: "u32 \<Rightarrow> u32 \<Rightarrow> nat set" where
  "chunks r cnt \<equiv> {unat r..<unat r + unat cnt}"

lemma bitmap_range:
  assumes b: "bitmap_ok m b" and f: "makes_bit v f" and r: "unat r + unat cnt \<le> 2 ^ m"
    and free: "if v then chunks r cnt \<inter> marked b = {} else chunks r cnt \<subseteq> marked b" and l: "l < bm_max b"
  shows "\<exists>t. on_range f (unat r) (unat cnt) (bm_table b) = Inr t \<and>
    (let b' = b\<lparr>bm_table := t, bm_last := l, bm_avail := (if v then bm_avail b - cnt else bm_avail b + cnt)\<rparr> in
      bitmap_ok m b' \<and> marked b' = (if v then marked b \<union> chunks r cnt else marked b - chunks r cnt))"
proof -
  have M: "unat (bm_max b) = 2 ^ m" "32 * length (bm_table b) = 2 ^ m" "unat (bm_avail b) + card (marked b) = 2 ^ m" "m < 31"
    using b by (simp_all add: bitmap_ok_def)
  obtain t where t: "on_range f (unat r) (unat cnt) (bm_table b) = Inr t" "length t = length (bm_table b)"
      "\<And>i. bit_at t i = (if i \<in> chunks r cnt then v else bit_at (bm_table b) i)"
    using on_range_ok [OF f, of "unat r" "unat cnt" "bm_table b"] r M(2) by auto
  let ?a = "if v then bm_avail b - cnt else bm_avail b + cnt"
  let ?b = "b\<lparr>bm_table := t, bm_last := l, bm_avail := ?a\<rparr>"
  have m: "marked ?b = (if v then marked b \<union> chunks r cnt else marked b - chunks r cnt)"
    using r M(1) by (auto simp: marked_def t(3))
  have c: "card (chunks r cnt) = unat cnt" by simp
  have "unat ?a + card (marked ?b) = 2 ^ m"
  proof (cases v)
    case True
    then have e: "card (marked ?b) = card (marked b) + unat cnt" using free unfolding m by (simp add: card_Un_disjoint Int_commute)
    have "marked ?b \<subseteq> {..<2 ^ m}" using M(1) by (auto simp: marked_def)
    then have "card (marked ?b) \<le> 2 ^ m" using card_mono [of "{..<2 ^ m :: nat}" "marked ?b"] by simp
    then have "unat cnt \<le> unat (bm_avail b)" using e M(3) by simp
    then have "unat (bm_avail b - cnt) = unat (bm_avail b) - unat cnt" by (simp add: unat_sub word_le_nat_alt)
    then show ?thesis using e M(3) True \<open>unat cnt \<le> unat (bm_avail b)\<close> by simp
  next
    case False
    then have e: "card (marked ?b) = card (marked b) - unat cnt" "unat cnt \<le> card (marked b)"
      using free c card_mono [of "marked b" "chunks r cnt"] unfolding m by (simp_all add: card_Diff_subset)
    have "(2 :: nat) ^ m < 2 ^ 32" by (rule power_strict_increasing) (use M(4) in simp_all)
    then have "unat (bm_avail b + cnt) = unat (bm_avail b) + unat cnt" using e(2) M(3) by (simp add: unat_word_ariths)
    then show ?thesis using e M(3) False by simp
  qed
  then have "bitmap_ok m ?b" using b t(2) l by (simp add: bitmap_ok_def)
  then show ?thesis using t(1) m by (intro exI [of _ t]) (simp add: Let_def)
qed

lemma unat_2_pow: "m < 32 \<Longrightarrow> unat (2 ^ m :: u32) = 2 ^ m"
proof -
  assume "m < 32"
  then have "(2 :: nat) ^ m < 2 ^ 32" by (intro power_strict_increasing) simp_all
  then show ?thesis using unat_of_nat_small [of "2 ^ m", where 'a = 32] by simp
qed

lemma top_zero:
  assumes "bitmap_ok m b"
  shows "(bm_top b + bm_max b) AND bm_mask b = 0" "unat w < 2 ^ m \<Longrightarrow> w AND (bm_max b - 1) = w"
proof -
  have w: "bm_max b = 2 ^ m" "m < 32" "bm_mask b = bm_max b - 1" "bm_top b = 0"
    using assms by (simp_all add: bitmap_ok_def word_unat_eq_iff unat_2_pow)
  have k: "x AND (bm_max b - 1) = take_bit m x" for x :: u32 by (simp add: w(1) take_bit_eq_mask mask_eq_exp_minus_1)
  show "(bm_top b + bm_max b) AND bm_mask b = 0" by (simp add: w(3,4) k) (simp add: w(1) take_bit_eq_0_iff exp_dvdE)
  show "w AND (bm_max b - 1) = w" if "unat w < 2 ^ m"
    using that by (simp add: k word_unat_eq_iff unsigned_take_bit_eq take_bit_nat_eq_self)
qed

text \<open>
  An allocation gives chunks that were free, marks them and no others, and is refused only when there is no run of that many free chunks.
\<close>

definition alloc_result :: "nat \<Rightarrow> u32 \<Rightarrow> bitmap \<Rightarrow> u32 \<Rightarrow> bitmap \<Rightarrow> bool" where
  "alloc_result m cnt b r b' \<longleftrightarrow> bitmap_ok m b' \<and>
     (if r = - 1 then b' = b \<and> (\<forall>s. s + unat cnt \<le> 2 ^ m \<longrightarrow> {s..<s + unat cnt} \<inter> marked b \<noteq> {})
      else unat r + unat cnt \<le> 2 ^ m \<and> chunks r cnt \<inter> marked b = {} \<and> marked b' = marked b \<union> chunks r cnt)"

lemma small_not_minus1: "\<lbrakk>unat r + unat c \<le> 2 ^ m; m < 31\<rbrakk> \<Longrightarrow> r \<noteq> - 1" for r c :: u32
proof
  assume a: "unat r + unat c \<le> 2 ^ m" "m < 31" "r = - 1"
  have "(2 :: nat) ^ m < 2 ^ 31" by (rule power_strict_increasing) (use a in simp_all)
  moreover have "unat (- 1 :: u32) = 2 ^ 32 - 1" by (simp only: unsigned_minus_1_eq_mask mask_eq_exp_minus_1) simp
  ultimately show False using a by simp
qed

lemma bitmap_alloc_ok:
  assumes b: "bitmap_ok m b"
  shows "\<exists>r b'. mlx4_bitmap_alloc b = Inr (r, b') \<and> alloc_result m 1 b r b'"
proof -
  have M: "unat (bm_max b) = 2 ^ m" "32 * length (bm_table b) = 2 ^ m" "m < 31" "bm_top b = 0"
    using b by (simp_all add: bitmap_ok_def)
  have "(2 :: nat) ^ m < 2 ^ 31" by (rule power_strict_increasing) (use M in simp_all)
  then have small: "(2 :: nat) ^ m < 2 ^ 31" .
  obtain k where k: "find_first_zero (bm_table b) 0 (unat (bm_max b)) = Inr k" "k \<le> 2 ^ m" "\<forall>i<k. bit_at (bm_table b) i"
      "k < 2 ^ m \<longrightarrow> \<not> bit_at (bm_table b) k"
    using find_first_zero_ok [of "unat (bm_max b)" "bm_table b" 0] M(1,2) by auto
  have u: "unat (of_nat k :: u32) = k" by (rule unat_of_nat_small) (use k(2) small in simp)
  note def = mlx4_bitmap_alloc_def mlx4_find_first_zero_bit_def k(1)
  show ?thesis
  proof (cases "k < 2 ^ m")
    case True
    let ?o = "of_nat k :: u32" and ?l = "if of_nat k + 1 = bm_max b then 0 else of_nat k + 1 :: u32"
    have o: "?o < bm_max b" using True u M(1) by (simp add: word_less_nat_alt)
    have "0 < bm_max b" by (rule le_less_trans [OF word_zero_le o])
    then have l: "?l < bm_max b" using le_neq_trans [OF inc_le [OF o]] by simp
    have free: "chunks ?o 1 \<inter> marked b = {}" using k(4) True u by (auto simp: marked_def)
    have n1: "?o \<noteq> - 1" by (rule small_not_minus1 [of _ 1 m]) (use u True M(3) in simp_all)
    obtain t where t: "on_range mlx4_set_bit (unat ?o) (unat (1 :: u32)) (bm_table b) = Inr t"
        "let b' = b\<lparr>bm_table := t, bm_last := ?l, bm_avail := bm_avail b - 1\<rparr> in bitmap_ok m b' \<and> marked b' = marked b \<union> chunks ?o 1"
      using bitmap_range [OF b set_clear_bit(1), of ?o 1 ?l] free True u l by (auto simp: Let_def)
    have "mlx4_set_bit (unat ?o) (bm_table b) = Inr t" using t(1) by (simp add: res_bind_def split: sum.splits)
    then have "mlx4_bitmap_alloc b = Inr (?o, b\<lparr>bm_table := t, bm_last := ?l, bm_avail := bm_avail b - 1\<rparr>)"
      using o n1 M(4) by (simp add: def Let_def)
    then show ?thesis using t(2) free True u n1 by (intro exI conjI) (auto simp: alloc_result_def Let_def)
  next
    case False
    then have "k = 2 ^ m" using k(2) by simp
    then have "\<not> of_nat k < bm_max b" using u M(1) by (simp add: word_less_nat_alt)
    moreover have "{s..<s + 1} \<inter> marked b \<noteq> {}" if "s + 1 \<le> 2 ^ m" for s
      using that k(3) \<open>k = 2 ^ m\<close> M(1) by (auto simp: marked_def)
    ultimately show ?thesis using b by (intro exI [of _ "- 1"] exI [of _ b]) (simp add: def alloc_result_def)
  qed
qed

lemma alloc_range_ok:
  assumes b: "bitmap_ok m b" and c: "1 \<le> unat cnt"
  shows "\<exists>r b'. mlx4_bitmap_alloc_range b cnt = Inr (r, b') \<and> alloc_result m cnt b r b'"
proof -
  have M: "unat (bm_max b) = 2 ^ m" "32 * length (bm_table b) = 2 ^ m" "m < 31" "bm_top b = 0" "bm_last b < bm_max b"
    using b by (simp_all add: bitmap_ok_def)
  have small: "(2 :: nat) ^ m < 2 ^ 31" by (rule power_strict_increasing) (use M in simp_all)
  consider "cnt = 1" | "cnt \<noteq> 1" "bm_max b < cnt" | "cnt \<noteq> 1" "\<not> bm_max b < cnt" by blast
  then show ?thesis
  proof cases
    case 1
    then show ?thesis using bitmap_alloc_ok [OF b] by (simp add: mlx4_bitmap_alloc_range_def)
  next
    case 2
    then have "\<not> s + unat cnt \<le> 2 ^ m" for s using M(1) by (simp add: word_less_nat_alt)
    then show ?thesis using 2 b by (intro exI [of _ "- 1"] exI [of _ b]) (simp add: mlx4_bitmap_alloc_range_def alloc_result_def)
  next
    case 3
    then have len: "unat cnt \<le> 2 ^ m" using M(1) by (simp add: word_less_nat_alt)
    let ?find = "\<lambda>start. find_aligned_range (bm_table b) start (unat (bm_max b)) (unat cnt)"
    let ?fit = "\<lambda>r. unat r + unat cnt \<le> 2 ^ m \<and> chunks r cnt \<inter> marked b = {}"
    have find: "\<exists>r. ?find start = Inr r \<and> (r = - 1 \<and> (\<forall>s. start \<le> s \<and> s + unat cnt \<le> 2 ^ m \<longrightarrow> {s..<s + unat cnt} \<inter> marked b \<noteq> {}) \<or> ?fit r)" for start
    proof -
      obtain r where r: "?find start = Inr r"
          "r = - 1 \<and> (\<forall>s. start \<le> s \<and> s + unat cnt \<le> 2 ^ m \<longrightarrow> (\<exists>i. s \<le> i \<and> i < s + unat cnt \<and> bit_at (bm_table b) i)) \<or>
           (\<exists>s. r = of_nat s \<and> s + unat cnt \<le> 2 ^ m \<and> (\<forall>i. s \<le> i \<and> i < s + unat cnt \<longrightarrow> \<not> bit_at (bm_table b) i))"
        using find_aligned_range_ok [of "unat (bm_max b)" "bm_table b" "unat cnt" start] M(1,2) small c len by auto
      from r(2) show ?thesis
      proof
        assume a: "r = - 1 \<and> (\<forall>s. start \<le> s \<and> s + unat cnt \<le> 2 ^ m \<longrightarrow> (\<exists>i. s \<le> i \<and> i < s + unat cnt \<and> bit_at (bm_table b) i))"
        have "{s..<s + unat cnt} \<inter> marked b \<noteq> {}" if "start \<le> s" "s + unat cnt \<le> 2 ^ m" for s
        proof -
          obtain i where "s \<le> i" "i < s + unat cnt" "bit_at (bm_table b) i" using a \<open>start \<le> s\<close> \<open>s + unat cnt \<le> 2 ^ m\<close> by blast
          then have "i \<in> {s..<s + unat cnt} \<inter> marked b" using that(2) M(1) by (simp add: marked_def)
          then show ?thesis by blast
        qed
        then show ?thesis using a r(1) by blast
      next
        assume "\<exists>s. r = of_nat s \<and> s + unat cnt \<le> 2 ^ m \<and> (\<forall>i. s \<le> i \<and> i < s + unat cnt \<longrightarrow> \<not> bit_at (bm_table b) i)"
        then obtain s where s: "r = of_nat s" "s + unat cnt \<le> 2 ^ m" "\<forall>i. s \<le> i \<and> i < s + unat cnt \<longrightarrow> \<not> bit_at (bm_table b) i" by blast
        have "unat r = s" unfolding s(1) by (rule unat_of_nat_small) (use s(2) small in simp)
        then have "?fit r" using s by (auto simp: marked_def)
        then show ?thesis using r(1) by blast
      qed
    qed
    have out: "bm_max b \<le> - 1" by simp
    have inside: "\<not> bm_max b \<le> r" if "?fit r" for r using that M(1) c by (auto simp: word_le_nat_alt)
    obtain r where r: "?find (unat (bm_last b)) = Inr r" "r = - 1 \<or> ?fit r" using find by blast
    obtain r0 where r0: "?find 0 = Inr r0" "r0 = - 1 \<and> (\<forall>s. s + unat cnt \<le> 2 ^ m \<longrightarrow> {s..<s + unat cnt} \<inter> marked b \<noteq> {}) \<or> ?fit r0"
      using find [of 0] by auto
    define x where "x = (if r = - 1 then r0 else r)"
    define b1 where "b1 = (if r = - 1 then b\<lparr>bm_top := (bm_top b + bm_max b) AND bm_mask b\<rparr> else b)"
    have b1: "b1 = b" using top_zero(1) [OF b] M(4) by (simp add: b1_def)
    have x: "x = - 1 \<and> (\<forall>s. s + unat cnt \<le> 2 ^ m \<longrightarrow> {s..<s + unat cnt} \<inter> marked b \<noteq> {}) \<or> ?fit x"
      using r(2) r0(2) by (auto simp: x_def)
    have two: "res_bind (?find (unat (bm_last b))) (\<lambda>obj. res_bind (if bm_max b \<le> obj
            then res_bind (?find 0) (\<lambda>obj. Inr (obj, b\<lparr>bm_top := (bm_top b + bm_max b) AND bm_mask b\<rparr>)) else Inr (obj, b)) f) = f (x, b1)"
      for f :: "u32 \<times> bitmap \<Rightarrow> (u32 \<times> bitmap) res"
      using r r0(1) inside [of r] out by (auto simp: x_def b1_def)
    note run = mlx4_bitmap_alloc_range_def [of b cnt, unfolded two b1]
    from x show ?thesis
    proof
      assume "x = - 1 \<and> (\<forall>s. s + unat cnt \<le> 2 ^ m \<longrightarrow> {s..<s + unat cnt} \<inter> marked b \<noteq> {})"
      then show ?thesis using 3 b by (intro exI [of _ "- 1"] exI [of _ b]) (simp add: run alloc_result_def)
    next
      assume fit: "?fit x"
      have n1: "x \<noteq> - 1" by (rule small_not_minus1 [of _ cnt m]) (use fit M(3) in simp_all)
      have lt: "x < bm_max b" using inside [OF fit] by simp
      let ?l = "if x \<noteq> bm_last b then bm_last b else if bm_max b \<le> x + cnt then 0 else x + cnt"
      have "0 < bm_max b" by (rule le_less_trans [OF word_zero_le M(5)])
      then have l: "?l < bm_max b" using M(5) by (auto simp: not_le)
      obtain t where t: "on_range mlx4_set_bit (unat x) (unat cnt) (bm_table b) = Inr t"
          "let b' = b\<lparr>bm_table := t, bm_last := ?l, bm_avail := bm_avail b - cnt\<rparr> in bitmap_ok m b' \<and> marked b' = marked b \<union> chunks x cnt"
        using bitmap_range [OF b set_clear_bit(1), of x cnt ?l] fit l by auto
      have "mlx4_bitmap_alloc_range b cnt = Inr (x, b\<lparr>bm_table := t, bm_last := ?l, bm_avail := bm_avail b - cnt\<rparr>)"
        using 3 lt n1 t(1) M(4) by (simp add: run Let_def)
      then show ?thesis using t(2) fit n1 by (intro exI conjI) (auto simp: alloc_result_def Let_def)
    qed
  qed
qed

lemma free_range_ok:
  assumes b: "bitmap_ok m b" and r: "unat r + unat cnt \<le> 2 ^ m" "1 \<le> unat cnt" "chunks r cnt \<subseteq> marked b"
  shows "\<exists>b'. mlx4_bitmap_free_range b r cnt = Inr b' \<and> bitmap_ok m b' \<and> marked b' = marked b - chunks r cnt"
proof -
  have M: "unat (bm_max b) = 2 ^ m" "bm_top b = 0" "bm_last b < bm_max b" using b by (simp_all add: bitmap_ok_def)
  have o: "r AND (bm_max b - 1) = r" by (rule top_zero(2) [OF b]) (use r in simp)
  let ?l = "if bm_last b < r then bm_last b else r"
  have l: "?l < bm_max b" using M r(1,2) by (auto simp: word_less_nat_alt)
  obtain t where t: "on_range mlx4_clear_bit (unat r) (unat cnt) (bm_table b) = Inr t"
      "let b' = b\<lparr>bm_table := t, bm_last := ?l, bm_avail := bm_avail b + cnt\<rparr> in bitmap_ok m b' \<and> marked b' = marked b - chunks r cnt"
    using bitmap_range [OF b set_clear_bit(2) r(1), of ?l] r(3) l by (simp only: if_False) blast
  have "mlx4_bitmap_free_range b r cnt = Inr (b\<lparr>bm_table := t, bm_last := ?l, bm_top := 0, bm_avail := bm_avail b + cnt\<rparr>)"
    unfolding mlx4_bitmap_free_range_def Let_def o t(1) top_zero(1) [OF b] by simp
  moreover have "b\<lparr>bm_table := t, bm_last := ?l, bm_top := 0, bm_avail := bm_avail b + cnt\<rparr> =
      b\<lparr>bm_table := t, bm_last := ?l, bm_avail := bm_avail b + cnt\<rparr>" using M(2) by (cases b) simp
  ultimately show ?thesis using t(2) unfolding Let_def by (intro exI conjI) (erule conjunct1 conjunct2 | simp)+
qed

lemma empty_marked: "bitmap_ok m b \<Longrightarrow> is_bitmap_empty b \<longleftrightarrow> marked b = {}"
  by (auto simp: bitmap_ok_def is_bitmap_empty_def word_unat_eq_iff)

lemma init_ok:
  assumes "5 \<le> m" "m < 31"
  shows "bitmap_ok m (mlx4_bitmap_init (2 ^ m) (2 ^ m - 1))" "marked (mlx4_bitmap_init (2 ^ m) (2 ^ m - 1)) = {}"
proof -
  have u: "unat (2 ^ m :: u32) = 2 ^ m" by (rule unat_2_pow) (use assms(2) in simp)
  obtain k where k: "m = k + 5" using assms(1) by (metis add.commute le_Suc_ex)
  have l: "(2 ^ m + 31) div 32 * 32 = (2 ^ m :: nat)" by (simp add: k power_add)
  have z: "\<not> bit_at (replicate n (0 :: u32)) i" if "i < n * 32" for i n
    using that by (simp add: bit_at_def less_mult_imp_div_less)
  have "\<not> bit_at (replicate ((2 ^ m + 31) div 32) (0 :: u32)) i" if "i < 2 ^ m" for i
    by (rule z) (unfold l, rule that)
  then show e: "marked (mlx4_bitmap_init (2 ^ m) (2 ^ m - 1)) = {}"
    by (simp add: marked_def mlx4_bitmap_init_def u)
  show "bitmap_ok m (mlx4_bitmap_init (2 ^ m) (2 ^ m - 1))"
    using assms u l unfolding bitmap_ok_def e by (simp add: mlx4_bitmap_init_def mult.commute word_less_nat_alt)
qed

end
