(* ===== verification/Huge_Alloc.thy ===== *)
theory Huge_Alloc
  imports Bitmap
begin

text \<open>
  The buffers on huge pages of \<open>libmlx4/src/buf.c\<close>: segments of shared memory with a bitmap of their chunks each. A segment is identified by the address it is
  attached at; \<open>None\<close> as the address of a new segment stands for a failure of \<open>malloc\<close>, \<open>shmget\<close> or \<open>shmat\<close>.
\<close>

section \<open>Operations\<close>

definition MLX4_SHM_LENGTH :: u64 where
  "MLX4_SHM_LENGTH = 2 * 1024 * 1024"

definition MLX4_Q_CHUNK_SIZE :: u64 where
  "MLX4_Q_CHUNK_SIZE = 32768"

definition align_long :: "u64 \<Rightarrow> u64 \<Rightarrow> u64" where
  "align_long val a = (val + a - 1) AND NOT (a - 1)"

record mlx4_hugetlb_mem =
  hm_addr :: u64
  hm_map :: bitmap

record mlx4_buf =
  bf_buf :: u64
  bf_hmem :: "u64 option"
  bf_length :: u64
  bf_base :: u32

definition mxl4_hugetlb_mem_alloc :: "u64 \<Rightarrow> u64 option \<Rightarrow> mlx4_hugetlb_mem option" where
  "mxl4_hugetlb_mem_alloc n new = (case new of None \<Rightarrow> None | Some addr \<Rightarrow>
     let shm_len = (if MLX4_SHM_LENGTH < n then align_long n MLX4_SHM_LENGTH else MLX4_SHM_LENGTH) in
     Some \<lparr>hm_addr = addr, hm_map = mlx4_bitmap_init (ucast (shm_len div MLX4_Q_CHUNK_SIZE)) (ucast (shm_len div MLX4_Q_CHUNK_SIZE - 1))\<rparr>)"

definition mlx4_free_buf_huge :: "mlx4_buf \<Rightarrow> mlx4_hugetlb_mem list \<Rightarrow> mlx4_hugetlb_mem list res" where
  "mlx4_free_buf_huge buf segs = (case bf_hmem buf of None \<Rightarrow> Inr segs
     | Some h \<Rightarrow> (case first_from (\<lambda>s. hm_addr s = h) 0 segs of None \<Rightarrow> Inl Bad_free
         | Some k \<Rightarrow> res_bind (mlx4_bitmap_free_range (hm_map (segs ! k)) (bf_base buf) (ucast (bf_length buf div MLX4_Q_CHUNK_SIZE))) (\<lambda>b.
             Inr (if is_bitmap_empty b then take k segs @ drop (k + 1) segs else segs[k := (segs ! k)\<lparr>hm_map := b\<rparr>]))))"

text \<open>The first segment with room; \<open>base\<close> keeps the last answer.\<close>

fun try_segments :: "u32 \<Rightarrow> u32 \<Rightarrow> mlx4_hugetlb_mem list \<Rightarrow> (u32 \<times> u64 option \<times> mlx4_hugetlb_mem list) res" where
  "try_segments cnt base [] = Inr (base, None, [])"
| "try_segments cnt base (s # segs) =
     (if is_bitmap_avail (hm_map s) then res_bind (mlx4_bitmap_alloc_range (hm_map s) cnt) (\<lambda>(r, b).
        let s = s\<lparr>hm_map := b\<rparr> in
        if r = - 1 then res_bind (try_segments cnt r segs) (\<lambda>(r, found, segs). Inr (r, found, s # segs))
        else Inr (r, Some (hm_addr s), s # segs))
      else res_bind (try_segments cnt base segs) (\<lambda>(r, found, segs). Inr (r, found, s # segs)))"

text \<open>The end of an allocation; \<open>ret\<close> is the result of \<open>ibv_dontfork_range\<close>.\<close>

definition finish_huge :: "mlx4_buf \<Rightarrow> u64 \<Rightarrow> int \<Rightarrow> mlx4_hugetlb_mem list \<Rightarrow> (int \<times> mlx4_buf \<times> mlx4_hugetlb_mem list) res" where
  "finish_huge buf h ret segs = (let buf = buf\<lparr>bf_hmem := Some h, bf_buf := h + scast (bf_base buf * ucast MLX4_Q_CHUNK_SIZE)\<rparr> in
     if ret = 0 then Inr (0, buf, segs)
     else res_bind (mlx4_free_buf_huge buf segs) (\<lambda>segs. Inr (ret, buf\<lparr>bf_hmem := None\<rparr>, segs)))"

definition mlx4_alloc_buf_huge :: "mlx4_buf \<Rightarrow> u64 \<Rightarrow> u64 option \<Rightarrow> int \<Rightarrow> mlx4_hugetlb_mem list \<Rightarrow> (int \<times> mlx4_buf \<times> mlx4_hugetlb_mem list) res" where
  "mlx4_alloc_buf_huge buf n new ret segs =
     (let len = align_long n MLX4_Q_CHUNK_SIZE; cnt = ucast (len div MLX4_Q_CHUNK_SIZE) in
      res_bind (try_segments cnt (bf_base buf) segs) (\<lambda>(base, found, segs).
        let buf = buf\<lparr>bf_length := len, bf_base := base\<rparr> in
        case found of Some h \<Rightarrow> finish_huge buf h ret segs
        | None \<Rightarrow> (case mxl4_hugetlb_mem_alloc len new of None \<Rightarrow> Inr (- 1, buf, segs)
            | Some s \<Rightarrow> res_bind (mlx4_bitmap_alloc_range (hm_map s) cnt) (\<lambda>(r, b).
                let buf = buf\<lparr>bf_base := r\<rparr>; s = s\<lparr>hm_map := b\<rparr> in
                if r = - 1 then Inr (- 1, buf, segs)
                else finish_huge buf (hm_addr s) ret (if is_bitmap_avail b then s # segs else segs @ [s])))))"

section \<open>Sizes\<close>

text \<open>The chunks of a request, and of a segment that is made for it.\<close>

definition chunk_count :: "u64 \<Rightarrow> nat" where
  "chunk_count n = (unat n + 32767) div 32768"

definition seg_chunks :: "u64 \<Rightarrow> nat" where
  "seg_chunks n = 64 * ((chunk_count n + 63) div 64)"

lemma align_long_ok:
  assumes "k < 64" "unat n + 2 ^ k \<le> 2 ^ 63"
  shows "unat (align_long n (2 ^ k)) = (unat n + 2 ^ k - 1) div 2 ^ k * 2 ^ k"
proof -
  let ?x = "unat n + 2 ^ k - 1" and ?q = "(unat n + 2 ^ k - 1) div 2 ^ k"
  have k: "unat (2 ^ k :: u64) = 2 ^ k" 
    using unat_of_nat_small [of "2 ^ k", where 'a = 64] power_strict_increasing [of k 64 "2 :: nat"] assms(1) by simp
  have "?q * 2 ^ k < 2 ^ LENGTH(64)" by (rule le_less_trans [OF div_times_less_eq_dividend]) (use assms(2) in simp)
  then have q: "unat (of_nat (?q * 2 ^ k) :: u64) = ?q * 2 ^ k" by (rule unat_of_nat_small)
  have "of_nat ?x = (n + 2 ^ k - 1 :: u64)" by (simp add: of_nat_diff add_increasing)
  moreover have "of_nat ?x = (of_nat (?q * 2 ^ k) + of_nat (?x mod 2 ^ k) :: u64)"
    by (metis div_mult_mod_eq of_nat_add)
  ultimately have e: "n + 2 ^ k - 1 = (of_nat (?q * 2 ^ k) + of_nat (?x mod 2 ^ k) :: u64)" by simp
  have "take_bit k (of_nat (?q * 2 ^ k) :: u64) = 0"
    using q by (simp only: word_unat_eq_iff unsigned_take_bit_eq) (simp add: take_bit_eq_mod)
  from page_address(1) [OF this _ assms(1), of "?x mod 2 ^ k"] show ?thesis
    using q by (simp add: align_long_def e)
qed

lemma request_chunks:
  assumes "0 < n" "unat n \<le> 2 ^ 31"
  shows "unat (align_long n MLX4_Q_CHUNK_SIZE) = 32768 * chunk_count n"
    "unat (ucast (align_long n MLX4_Q_CHUNK_SIZE div MLX4_Q_CHUNK_SIZE) :: u32) = chunk_count n" "1 \<le> chunk_count n" "chunk_count n \<le> 2 ^ 16"
proof -
  have "2 ^ 15 = MLX4_Q_CHUNK_SIZE" by (simp add: MLX4_Q_CHUNK_SIZE_def)
  then show a: "unat (align_long n MLX4_Q_CHUNK_SIZE) = 32768 * chunk_count n"
    using align_long_ok [of 15 n] assms(2) by (simp add: chunk_count_def mult.commute)
  show c: "chunk_count n \<le> 2 ^ 16" using assms(2) by (simp add: chunk_count_def)
  have "unat (align_long n MLX4_Q_CHUNK_SIZE div MLX4_Q_CHUNK_SIZE) = chunk_count n"
    using a by (simp add: unat_div MLX4_Q_CHUNK_SIZE_def)
  then show "unat (ucast (align_long n MLX4_Q_CHUNK_SIZE div MLX4_Q_CHUNK_SIZE) :: u32) = chunk_count n"
    using c by (simp add: unsigned_ucast_eq take_bit_nat_eq_self)
  have "0 < unat n" using assms(1) by (simp add: word_less_nat_alt)
  then show "1 \<le> chunk_count n" by (simp add: chunk_count_def)
qed

lemma new_segment:
  assumes "0 < n" "unat n \<le> 2 ^ 31" "seg_chunks n = 2 ^ m"
  shows "mxl4_hugetlb_mem_alloc (align_long n MLX4_Q_CHUNK_SIZE) (Some addr) = Some \<lparr>hm_addr = addr, hm_map = mlx4_bitmap_init (2 ^ m) (2 ^ m - 1)\<rparr>"
    "6 \<le> m" "m \<le> 16" "chunk_count n \<le> 2 ^ m"
proof -
  note c = request_chunks [OF assms(1,2)]
  let ?l = "align_long n MLX4_Q_CHUNK_SIZE"
  let ?s = "if MLX4_SHM_LENGTH < ?l then align_long ?l MLX4_SHM_LENGTH else MLX4_SHM_LENGTH"
  have p: "2 ^ 21 = MLX4_SHM_LENGTH" by (simp add: MLX4_SHM_LENGTH_def)
  have "unat (align_long ?l MLX4_SHM_LENGTH) = (unat ?l + 2097151) div 2097152 * 2097152"
    using align_long_ok [of 21 ?l] c(1,4) p by simp
  also have "\<dots> = 32768 * seg_chunks n"
    unfolding c(1) seg_chunks_def
    using div_mult2_eq [of "32768 * chunk_count n + 2097151" 32768 64] by simp
  finally have b: "unat (align_long ?l MLX4_SHM_LENGTH) = 32768 * seg_chunks n" .
  have s: "unat ?s = 32768 * seg_chunks n"
  proof (cases "MLX4_SHM_LENGTH < ?l")
    case False
    then have "chunk_count n \<le> 64" using c(1) by (simp add: word_less_nat_alt MLX4_SHM_LENGTH_def)
    then have "seg_chunks n = 64" using c(3) by (simp add: seg_chunks_def)
    then show ?thesis using False by (simp add: MLX4_SHM_LENGTH_def)
  qed (simp add: b)
  have le: "seg_chunks n \<le> 2 ^ 16" using c(4) by (simp add: seg_chunks_def)
  have "1 \<le> (chunk_count n + 63) div 64" using c(3) by simp
  then have ge: "64 \<le> seg_chunks n" by (simp add: seg_chunks_def)
  have "(2 :: nat) ^ m \<le> 2 ^ 16" "(2 :: nat) ^ 6 \<le> 2 ^ m" using le ge assms(3) by simp_all
  then show m: "6 \<le> m" "m \<le> 16" by (simp_all only: power_increasing_iff one_less_numeral_iff semiring_norm)
  show "chunk_count n \<le> 2 ^ m" unfolding assms(3) [symmetric] by (simp add: seg_chunks_def)
  have u: "unat (?s div MLX4_Q_CHUNK_SIZE) = 2 ^ m" using s assms(3) by (simp add: unat_div MLX4_Q_CHUNK_SIZE_def)
  have m64: "unat (2 ^ m :: u64) = 2 ^ m"
    using unat_of_nat_small [of "2 ^ m", where 'a = 64] power_strict_increasing [of m 64 "2 :: nat"] m by simp
  then have "?s div MLX4_Q_CHUNK_SIZE = 2 ^ m" using u by (simp only: word_unat_eq_iff)
  moreover have "(ucast (2 ^ m :: u64) :: u32) = 2 ^ m"
    using m64 unat_2_pow [of m] m power_strict_increasing [of m 32 "2 :: nat"]
    by (simp only: word_unat_eq_iff unsigned_ucast_eq) (simp add: take_bit_nat_eq_self)
  moreover have "(ucast (mask m :: u64) :: u32) = mask m" using m by (intro bit_word_eqI) (auto simp: bit_simps)
  then have "(ucast (2 ^ m - 1 :: u64) :: u32) = 2 ^ m - 1" by (simp only: mask_eq_exp_minus_1)
  ultimately show "mxl4_hugetlb_mem_alloc ?l (Some addr) = Some \<lparr>hm_addr = addr, hm_map = mlx4_bitmap_init (2 ^ m) (2 ^ m - 1)\<rparr>"
    by (simp add: mxl4_hugetlb_mem_alloc_def Let_def)
qed

section \<open>Segments and the buffers on them\<close>

definition seg_bytes :: "mlx4_hugetlb_mem \<Rightarrow> nat" where
  "seg_bytes s = 32768 * unat (bm_max (hm_map s))"

definition seg_ok :: "mlx4_hugetlb_mem \<Rightarrow> bool" where
  "seg_ok s \<longleftrightarrow> (\<exists>m. 6 \<le> m \<and> m \<le> 16 \<and> bitmap_ok m (hm_map s)) \<and> unat (hm_addr s) + seg_bytes s \<le> 2 ^ 64"

definition segs_apart :: "mlx4_hugetlb_mem \<Rightarrow> mlx4_hugetlb_mem \<Rightarrow> bool" where
  "segs_apart s t \<longleftrightarrow> unat (hm_addr s) + seg_bytes s \<le> unat (hm_addr t) \<or> unat (hm_addr t) + seg_bytes t \<le> unat (hm_addr s)"

definition buf_count :: "mlx4_buf \<Rightarrow> nat" where
  "buf_count x = unat (bf_length x) div 32768"

definition buf_chunks :: "mlx4_buf \<Rightarrow> nat set" where
  "buf_chunks x = {unat (bf_base x)..<unat (bf_base x) + buf_count x}"

definition buf_in_seg :: "mlx4_buf \<Rightarrow> mlx4_hugetlb_mem \<Rightarrow> bool" where
  "buf_in_seg x s \<longleftrightarrow> bf_hmem x = Some (hm_addr s) \<and> 1 \<le> buf_count x \<and> unat (bf_base x) + buf_count x \<le> unat (bm_max (hm_map s)) \<and>
     unat (bf_length x) = 32768 * buf_count x \<and> unat (bf_buf x) = unat (hm_addr s) + 32768 * unat (bf_base x)"

definition on_seg :: "mlx4_buf set \<Rightarrow> u64 \<Rightarrow> mlx4_buf set" where
  "on_seg H a = {x \<in> H. bf_hmem x = Some a}"

definition chunks_apart :: "mlx4_buf set \<Rightarrow> bool" where
  "chunks_apart H \<longleftrightarrow> (\<forall>x\<in>H. \<forall>y\<in>H. x \<noteq> y \<longrightarrow> buf_chunks x \<inter> buf_chunks y = {})"

text \<open>The chunks marked in a segment are those of the buffers on it.\<close>

definition seg_holds :: "mlx4_hugetlb_mem \<Rightarrow> mlx4_buf set \<Rightarrow> bool" where
  "seg_holds s B \<longleftrightarrow> marked (hm_map s) = (\<Union>x\<in>B. buf_chunks x) \<and> chunks_apart B \<and> (\<forall>x\<in>B. buf_in_seg x s)"

definition core_inv :: "mlx4_hugetlb_mem list \<Rightarrow> mlx4_buf set \<Rightarrow> bool" where
  "core_inv segs H \<longleftrightarrow> distinct (map hm_addr segs) \<and> (\<forall>s\<in>set segs. seg_ok s \<and> seg_holds s (on_seg H (hm_addr s))) \<and>
     (\<forall>s\<in>set segs. \<forall>t\<in>set segs. hm_addr s \<noteq> hm_addr t \<longrightarrow> segs_apart s t) \<and> (\<forall>x\<in>H. bf_hmem x \<in> Some ` hm_addr ` set segs)"

definition huge_inv :: "mlx4_hugetlb_mem list \<Rightarrow> mlx4_buf set \<Rightarrow> bool" where
  "huge_inv segs H \<longleftrightarrow> core_inv segs H \<and> (\<forall>s\<in>set segs. marked (hm_map s) \<noteq> {})"

text \<open>Two buffers that share a byte.\<close>

definition huge_clash :: "mlx4_buf \<Rightarrow> mlx4_buf \<Rightarrow> bool" where
  "huge_clash x y \<longleftrightarrow> unat (bf_buf x) < unat (bf_buf y) + unat (bf_length y) \<and> unat (bf_buf y) < unat (bf_buf x) + unat (bf_length x)"

lemma same_address: "\<lbrakk>core_inv segs H; s \<in> set segs; t \<in> set segs; hm_addr s = hm_addr t\<rbrakk> \<Longrightarrow> s = t"
  by (auto simp: core_inv_def distinct_map dest: inj_onD)

lemma buffers_apart:
  assumes c: "core_inv segs H" and x: "x \<in> H" "y \<in> H" "x \<noteq> y"
  shows "\<not> huge_clash x y"
proof -
  obtain s t where s: "s \<in> set segs" "bf_hmem x = Some (hm_addr s)" and t: "t \<in> set segs" "bf_hmem y = Some (hm_addr t)"
    using c x unfolding core_inv_def by blast
  have i: "buf_in_seg x s" "buf_in_seg y t" using c x s t unfolding core_inv_def seg_holds_def on_seg_def by auto
  show ?thesis
  proof (cases "hm_addr s = hm_addr t")
    case True
    then have "s = t" using same_address [OF c] s(1) t(1) by blast
    moreover have "chunks_apart (on_seg H (hm_addr s))" using c s(1) by (auto simp: core_inv_def seg_holds_def)
    ultimately have "buf_chunks x \<inter> buf_chunks y = {}" using x s(2) t(2) by (simp add: chunks_apart_def on_seg_def)
    moreover have "1 \<le> buf_count x" "1 \<le> buf_count y" using i by (simp_all add: buf_in_seg_def)
    ultimately have "unat (bf_base x) + buf_count x \<le> unat (bf_base y) \<or> unat (bf_base y) + buf_count y \<le> unat (bf_base x)"
      by (auto simp: buf_chunks_def Int_atLeastLessThan)
    then show ?thesis using i \<open>s = t\<close> by (auto simp: huge_clash_def buf_in_seg_def)
  next
    case False
    then have "segs_apart s t" using c s(1) t(1) by (simp add: core_inv_def)
    then show ?thesis using i by (auto simp: huge_clash_def buf_in_seg_def segs_apart_def seg_bytes_def)
  qed
qed

text \<open>Changing one segment and the buffers on it.\<close>

lemma core_replace:
  assumes c: "core_inv segs H" and s: "s \<in> set segs" "hm_addr s' = hm_addr s" "bm_max (hm_map s') = bm_max (hm_map s)" "seg_ok s'"
    and l: "set segs' = insert s' (set segs - {s})" "distinct (map hm_addr segs')"
    and h: "seg_holds s' (on_seg H' (hm_addr s))" "\<And>x. bf_hmem x \<noteq> Some (hm_addr s) \<Longrightarrow> x \<in> H' \<longleftrightarrow> x \<in> H"
  shows "core_inv segs' H'"
proof -
  have o: "on_seg H' (hm_addr t) = on_seg H (hm_addr t)" if "t \<in> set segs - {s}" for t
  proof -
    have "hm_addr t \<noteq> hm_addr s" using same_address [OF c s(1), of t] that by auto
    then have "bf_hmem x = Some (hm_addr t) \<Longrightarrow> x \<in> H' \<longleftrightarrow> x \<in> H" for x using h(2) [of x] by simp
    then show ?thesis by (auto simp: on_seg_def)
  qed
  have b: "seg_bytes s' = seg_bytes s" using s(3) by (simp add: seg_bytes_def)
  have "\<forall>t\<in>set segs'. seg_ok t \<and> seg_holds t (on_seg H' (hm_addr t))"
    using c s h(1) o l(1) by (auto simp: core_inv_def)
  moreover have "\<forall>t\<in>set segs'. \<forall>u\<in>set segs'. hm_addr t \<noteq> hm_addr u \<longrightarrow> segs_apart t u"
    using c s(1,2) b l(1) by (auto simp: core_inv_def segs_apart_def)
  moreover have "hm_addr ` set segs' = hm_addr ` set segs" using l(1) s(1,2) same_address [OF c] by auto
  then have "\<forall>x\<in>H'. bf_hmem x \<in> Some ` hm_addr ` set segs'"
    using c s(1) h(2) unfolding core_inv_def by (metis imageI)
  ultimately show ?thesis using l(2) by (simp add: core_inv_def)
qed

lemma update_segment:
  assumes "distinct (map hm_addr segs)" "k < length segs" "hm_addr s' = hm_addr (segs ! k)"
  shows "set (segs[k := s']) = insert s' (set segs - {segs ! k})" "distinct (map hm_addr (segs[k := s']))"
proof -
  have "map hm_addr (segs[k := s']) = map hm_addr segs" using assms(2,3) by (simp add: map_update list_update_same_conv)
  then show "distinct (map hm_addr (segs[k := s']))" using assms(1) by simp
  show "set (segs[k := s']) = insert s' (set segs - {segs ! k})" using assms by (simp add: set_update_distinct distinct_map)
qed

text \<open>The address that is computed for chunk \<open>r\<close>.\<close>

lemma chunk_address:
  assumes "unat r < 2 ^ 16" "unat h + 32768 * unat r < 2 ^ 64"
  shows "unat (h + scast (r * ucast MLX4_Q_CHUNK_SIZE :: u32) :: u64) = unat h + 32768 * unat r"
proof -
  let ?w = "r * ucast MLX4_Q_CHUNK_SIZE"
  have w: "unat ?w = 32768 * unat r" using assms(1) by (simp add: unat_word_ariths MLX4_Q_CHUNK_SIZE_def)
  then have "unat ?w < 2 ^ 31" using assms(1) by simp
  then have "int (unat ?w) < int (2 ^ 31)" by (simp only: of_nat_less_iff)
  then have "uint ?w < 2 ^ 31" by simp
  moreover have "- (2 ^ 31) \<le> uint ?w" by (rule order_trans [of _ 0]) simp_all
  ultimately have "sint ?w = uint ?w" using signed_take_bit_int_eq_self [of 31 "uint ?w"] by (simp add: sint_uint)
  then have "scast ?w = (ucast ?w :: u64)" by (simp only: scast_eq ucast_eq)
  then have "unat (scast ?w :: u64) = unat ?w" by (simp only: unat_ucast_32_64)
  then show ?thesis using w assms(2) by (simp add: unat_word_ariths)
qed

lemma seg_bitmap:
  assumes "seg_ok s"
  obtains m where "6 \<le> m" "m \<le> 16" "bitmap_ok m (hm_map s)" "unat (bm_max (hm_map s)) = 2 ^ m" "(2 :: nat) ^ m \<le> 2 ^ 16"
proof -
  obtain m where m: "6 \<le> m" "m \<le> 16" "bitmap_ok m (hm_map s)" using assms by (auto simp: seg_ok_def)
  have "(2 :: nat) ^ m \<le> 2 ^ 16" by (rule power_increasing) (use m in simp_all)
  then show ?thesis using that m by (simp add: bitmap_ok_def)
qed

lemma new_map_ok:
  assumes "seg_ok s" "bitmap_ok m (hm_map s)" "bitmap_ok m b"
  shows "seg_ok (s\<lparr>hm_map := b\<rparr>)" "bm_max b = bm_max (hm_map s)"
proof -
  show e: "bm_max b = bm_max (hm_map s)" using assms(2,3) by (simp add: bitmap_ok_def word_unat_eq_iff)
  obtain k where k: "6 \<le> k" "k \<le> 16" "unat (bm_max (hm_map s)) = 2 ^ k" using seg_bitmap [OF assms(1)] .
  have "k = m" using k(3) assms(2) by (simp add: bitmap_ok_def)
  then show "seg_ok (s\<lparr>hm_map := b\<rparr>)" using assms k e by (auto simp: seg_ok_def seg_bytes_def)
qed

lemma take_chunks:
  assumes c: "core_inv segs H" and s: "s \<in> set segs" "bitmap_ok m (hm_map s)" and a: "alloc_result m cnt (hm_map s) r b" "r \<noteq> - 1" "1 \<le> unat cnt"
    and x: "bf_hmem x = Some (hm_addr s)" "bf_base x = r" "unat (bf_length x) = 32768 * unat cnt" "bf_buf x = hm_addr s + scast (r * ucast MLX4_Q_CHUNK_SIZE)"
    and l: "set segs' = insert (s\<lparr>hm_map := b\<rparr>) (set segs - {s})" "distinct (map hm_addr segs')"
  shows "core_inv segs' (insert x H)" "x \<notin> H"
proof -
  let ?s = "s\<lparr>hm_map := b\<rparr>" and ?B = "on_seg H (hm_addr s)"
  have ok: "seg_ok s" "seg_holds s ?B" using c s(1) by (simp_all add: core_inv_def)
  have r: "unat r + unat cnt \<le> 2 ^ m" "chunks r cnt \<inter> marked (hm_map s) = {}" "marked b = marked (hm_map s) \<union> chunks r cnt" "bitmap_ok m b"
    using a by (simp_all add: alloc_result_def)
  note new = new_map_ok [OF ok(1) s(2) r(4)]
  have M: "unat (bm_max (hm_map s)) = 2 ^ m" using s(2) by (simp add: bitmap_ok_def)
  obtain k where "unat (bm_max (hm_map s)) = 2 ^ k" "(2 :: nat) ^ k \<le> 2 ^ 16" using seg_bitmap [OF ok(1)] .
  then have "unat r < 2 ^ 16" using r(1) a(3) M by simp
  moreover have "unat (hm_addr s) + 32768 * unat r < 2 ^ 64" using ok(1) r(1) a(3) M by (simp add: seg_ok_def seg_bytes_def)
  ultimately have "unat (bf_buf x) = unat (hm_addr s) + 32768 * unat r" unfolding x(4) by (rule chunk_address)
  moreover have n: "buf_count x = unat cnt" using x(3) by (simp add: buf_count_def)
  ultimately have i: "buf_in_seg x ?s" using x(1-3) r(1) a(3) M new(2) by (simp add: buf_in_seg_def)
  have ch: "buf_chunks x = chunks r cnt" using n x(2) by (simp add: buf_chunks_def)
  have sub: "buf_chunks y \<subseteq> marked (hm_map s)" if "y \<in> ?B" for y using ok(2) that by (auto simp: seg_holds_def)
  show "x \<notin> H"
  proof
    assume "x \<in> H"
    then have "chunks r cnt \<subseteq> marked (hm_map s)" using sub [of x] x(1) ch by (simp add: on_seg_def)
    then have "chunks r cnt = {}" using r(2) by blast
    then show False using a(3) by simp
  qed
  have B: "on_seg (insert x H) (hm_addr s) = insert x ?B" using x(1) by (auto simp: on_seg_def)
  have "buf_in_seg y ?s" if "y \<in> ?B" for y using ok(2) that new(2) by (simp add: seg_holds_def buf_in_seg_def)
  moreover have "buf_chunks y \<inter> chunks r cnt = {}" if "y \<in> ?B" for y using sub [OF that] r(2) by blast
  ultimately have "seg_holds ?s (insert x ?B)"
    using ok(2) i r(3) ch unfolding seg_holds_def chunks_apart_def by auto
  then show "core_inv segs' (insert x H)"
    using core_replace [OF c s(1), of ?s segs' "insert x H"] new l x(1) unfolding B by auto
qed

lemma give_back_chunks:
  assumes c: "core_inv segs H" and s: "s \<in> set segs" "bf_hmem x = Some (hm_addr s)" and x: "x \<in> H"
  shows "\<exists>b. mlx4_bitmap_free_range (hm_map s) (bf_base x) (ucast (bf_length x div MLX4_Q_CHUNK_SIZE)) = Inr b \<and>
    (is_bitmap_empty b \<longleftrightarrow> marked b = {}) \<and>
    (\<forall>segs'. set segs' = insert (s\<lparr>hm_map := b\<rparr>) (set segs - {s}) \<longrightarrow> distinct (map hm_addr segs') \<longrightarrow> core_inv segs' (H - {x}))"
proof -
  let ?B = "on_seg H (hm_addr s)" and ?cnt = "ucast (bf_length x div MLX4_Q_CHUNK_SIZE) :: u32"
  have ok: "seg_ok s" "seg_holds s ?B" using c s(1) by (simp_all add: core_inv_def)
  obtain m where m: "bitmap_ok m (hm_map s)" "unat (bm_max (hm_map s)) = 2 ^ m" "(2 :: nat) ^ m \<le> 2 ^ 16" using seg_bitmap [OF ok(1)] .
  have xB: "x \<in> ?B" using x s(2) by (simp add: on_seg_def)
  then have i: "buf_in_seg x s" using ok(2) by (simp add: seg_holds_def)
  have "unat (bf_length x div MLX4_Q_CHUNK_SIZE) = buf_count x" by (simp add: unat_div MLX4_Q_CHUNK_SIZE_def buf_count_def)
  moreover have "buf_count x < 2 ^ 32" using i m(2,3) by (simp add: buf_in_seg_def)
  ultimately have n: "unat ?cnt = buf_count x" by (simp add: unsigned_ucast_eq take_bit_nat_eq_self)
  then have ch: "buf_chunks x = chunks (bf_base x) ?cnt" by (simp add: buf_chunks_def)
  have "chunks (bf_base x) ?cnt \<subseteq> marked (hm_map s)" using ok(2) xB ch by (auto simp: seg_holds_def)
  then obtain b where b: "mlx4_bitmap_free_range (hm_map s) (bf_base x) ?cnt = Inr b" "bitmap_ok m b" "marked b = marked (hm_map s) - buf_chunks x"
    using free_range_ok [OF m(1), of "bf_base x" ?cnt] n i m(2) ch by (auto simp: buf_in_seg_def)
  note new = new_map_ok [OF ok(1) m(1) b(2)]
  have B: "on_seg (H - {x}) (hm_addr s) = ?B - {x}" by (auto simp: on_seg_def)
  have "buf_chunks y \<inter> buf_chunks x = {}" if "y \<in> ?B - {x}" for y using ok(2) xB that by (auto simp: seg_holds_def chunks_apart_def)
  then have "(\<Union>y\<in>?B. buf_chunks y) - buf_chunks x = (\<Union>y\<in>?B - {x}. buf_chunks y)" using xB by blast
  then have "seg_holds (s\<lparr>hm_map := b\<rparr>) (?B - {x})"
    using ok(2) b(3) new(2) unfolding seg_holds_def chunks_apart_def by (simp add: buf_in_seg_def)
  then have "core_inv segs' (H - {x})" if "set segs' = insert (s\<lparr>hm_map := b\<rparr>) (set segs - {s})" "distinct (map hm_addr segs')" for segs'
    using core_replace [OF c s(1), of "s\<lparr>hm_map := b\<rparr>" segs' "H - {x}"] new that s(2) unfolding B by auto
  then show ?thesis using b(1) empty_marked [OF b(2)] by blast
qed

lemma empty_segment:
  assumes "seg_holds s B" "marked (hm_map s) = {}"
  shows "B = {}"
proof (rule ccontr)
  assume "B \<noteq> {}"
  then obtain x where "x \<in> B" by blast
  then have "buf_chunks x = {}" "1 \<le> buf_count x" using assms by (auto simp: seg_holds_def buf_in_seg_def)
  then show False by (simp add: buf_chunks_def)
qed

lemma drop_segment:
  assumes c: "core_inv segs H" and s: "s \<in> set segs" "marked (hm_map s) = {}" and l: "set segs' = set segs - {s}" "distinct (map hm_addr segs')"
  shows "core_inv segs' H"
proof -
  have "on_seg H (hm_addr s) = {}" using empty_segment [of s] c s by (simp add: core_inv_def)
  then have "bf_hmem x \<noteq> Some (hm_addr s)" if "x \<in> H" for x using that by (auto simp: on_seg_def)
  then have "\<forall>x\<in>H. bf_hmem x \<in> Some ` hm_addr ` set segs'" using c l(1) unfolding core_inv_def by fastforce
  then show ?thesis using c l unfolding core_inv_def by auto
qed

lemma add_segment:
  assumes c: "core_inv segs H" and s: "seg_ok s" "marked (hm_map s) = {}" "\<forall>t\<in>set segs. segs_apart s t"
    and l: "set segs' = insert s (set segs)" "distinct (map hm_addr segs')" "length segs' = length segs + 1"
  shows "core_inv segs' H"
proof -
  have "hm_addr s \<notin> hm_addr ` set segs"
  proof
    assume a: "hm_addr s \<in> hm_addr ` set segs"
    have "card (hm_addr ` set segs') = length segs'" using distinct_card [OF l(2)] by simp
    moreover have "hm_addr ` set segs' = hm_addr ` set segs" using a l(1) by auto
    moreover have "card (hm_addr ` set segs) \<le> length segs" using card_length [of "map hm_addr segs"] by simp
    ultimately show False using l(3) by simp
  qed
  then have "Some (hm_addr s) \<notin> Some ` hm_addr ` set segs" by (simp add: inj_image_mem_iff)
  moreover have "\<forall>x\<in>H. bf_hmem x \<in> Some ` hm_addr ` set segs" using c by (simp add: core_inv_def)
  ultimately have "bf_hmem x \<noteq> Some (hm_addr s)" if "x \<in> H" for x by (metis that)
  then have "on_seg H (hm_addr s) = {}" by (auto simp: on_seg_def)
  then have "seg_holds s (on_seg H (hm_addr s))" using s(2) by (simp add: seg_holds_def chunks_apart_def)
  moreover have "segs_apart t s" if "t \<in> set segs" for t using s(3) that by (auto simp: segs_apart_def)
  ultimately show ?thesis using c s l unfolding core_inv_def by auto
qed

section \<open>Whole operations\<close>

lemma delete_nth:
  assumes "distinct (map f xs)" "k < length xs"
  shows "set (take k xs @ drop (k + 1) xs) = set xs - {xs ! k}" "distinct (map f (take k xs @ drop (k + 1) xs))"
proof -
  have e: "xs = take k xs @ xs ! k # drop (k + 1) xs" using id_take_nth_drop [OF assms(2)] by simp
  have d: "distinct (map f (take k xs @ xs ! k # drop (k + 1) xs))" using assms(1) unfolding e [symmetric] .
  then show "distinct (map f (take k xs @ drop (k + 1) xs))" by simp
  have "xs ! k \<notin> set (take k xs @ drop (k + 1) xs)" using d by auto
  moreover have "set xs = insert (xs ! k) (set (take k xs @ drop (k + 1) xs))" using arg_cong [OF e, of set] by simp
  ultimately show "set (take k xs @ drop (k + 1) xs) = set xs - {xs ! k}" by blast
qed

lemma free_huge_ok:
  assumes h: "huge_inv segs H" and x: "x \<in> H"
  shows "\<exists>segs'. mlx4_free_buf_huge x segs = Inr segs' \<and> huge_inv segs' (H - {x})"
proof -
  have c: "core_inv segs H" and d: "distinct (map hm_addr segs)" using h by (simp_all add: huge_inv_def core_inv_def)
  obtain a where a: "bf_hmem x = Some a" "a \<in> hm_addr ` set segs" using c x by (auto simp: core_inv_def)
  then obtain k where k: "first_from (\<lambda>s. hm_addr s = a) 0 segs = Some k"
    using first_from_None [of "\<lambda>s. hm_addr s = a" 0 segs] by (cases "first_from (\<lambda>s. hm_addr s = a) 0 segs") auto
  note f = first_0_Some [OF k]
  let ?s = "segs ! k"
  obtain b where b: "mlx4_bitmap_free_range (hm_map ?s) (bf_base x) (ucast (bf_length x div MLX4_Q_CHUNK_SIZE)) = Inr b"
      "is_bitmap_empty b \<longleftrightarrow> marked b = {}"
      "\<And>segs'. \<lbrakk>set segs' = insert (?s\<lparr>hm_map := b\<rparr>) (set segs - {?s}); distinct (map hm_addr segs')\<rbrakk> \<Longrightarrow> core_inv segs' (H - {x})"
    using give_back_chunks [OF c nth_mem [OF f(1)] _ x] a(1) f(2) by auto
  let ?t = "?s\<lparr>hm_map := b\<rparr>" and ?l = "segs[k := ?s\<lparr>hm_map := b\<rparr>]"
  note u = update_segment [OF d f(1), of ?t, simplified]
  have l: "core_inv ?l (H - {x})" using b(3) u by blast
  let ?r = "if is_bitmap_empty b then take k segs @ drop (k + 1) segs else ?l"
  have run: "mlx4_free_buf_huge x segs = Inr ?r" using a(1) k b(1) by (simp add: mlx4_free_buf_huge_def)
  have "huge_inv ?r (H - {x})"
  proof (cases "is_bitmap_empty b")
    case True
    have e: "take k segs @ drop (k + 1) segs = take k ?l @ drop (k + 1) ?l" by simp
    have dl: "set (take k ?l @ drop (k + 1) ?l) = set ?l - {?l ! k}" "distinct (map hm_addr (take k ?l @ drop (k + 1) ?l))"
      using delete_nth [of hm_addr ?l k] u(2) f(1) by simp_all
    have "core_inv (take k ?l @ drop (k + 1) ?l) (H - {x})"
      by (rule drop_segment [OF l _ _ dl]) (use True b(2) f(1) u(1) in simp_all)
    moreover have "marked (hm_map t) \<noteq> {}" if "t \<in> set (take k ?l @ drop (k + 1) ?l)" for t
      using that dl(1) u(1) h f(1) by (auto simp: huge_inv_def)
    ultimately show ?thesis using True unfolding e by (simp add: huge_inv_def)
  next
    case False
    have "marked (hm_map t) \<noteq> {}" if "t \<in> set ?l" for t using that u(1) h False b(2) by (auto simp: huge_inv_def)
    then show ?thesis using False l by (simp add: huge_inv_def)
  qed
  then show ?thesis using run by blast
qed

text \<open>A run of chunks has been taken from one of the segments.\<close>

definition placed :: "u32 \<Rightarrow> u64 \<Rightarrow> u32 \<Rightarrow> mlx4_hugetlb_mem list \<Rightarrow> mlx4_hugetlb_mem list \<Rightarrow> bool" where
  "placed cnt h r segs segs' \<longleftrightarrow> (\<exists>k m b. k < length segs \<and> h = hm_addr (segs ! k) \<and> bitmap_ok m (hm_map (segs ! k)) \<and>
     alloc_result m cnt (hm_map (segs ! k)) r b \<and> r \<noteq> - 1 \<and> segs' = segs[k := (segs ! k)\<lparr>hm_map := b\<rparr>])"

lemma placed_later:
  assumes "placed cnt h r segs segs'"
  shows "placed cnt h r (s # segs) (s # segs')"
proof -
  obtain k m b where "k < length segs" "h = hm_addr (segs ! k)" "bitmap_ok m (hm_map (segs ! k))"
      "alloc_result m cnt (hm_map (segs ! k)) r b" "r \<noteq> - 1" "segs' = segs[k := (segs ! k)\<lparr>hm_map := b\<rparr>]"
    using assms by (auto simp: placed_def)
  then show ?thesis unfolding placed_def by (intro exI [of _ "Suc k"] exI [of _ m] exI [of _ b]) simp
qed

lemma placed_here:
  "\<lbrakk>bitmap_ok m (hm_map s); alloc_result m cnt (hm_map s) r b; r \<noteq> - 1\<rbrakk> \<Longrightarrow> placed cnt (hm_addr s) r (s # segs) (s\<lparr>hm_map := b\<rparr> # segs)"
  unfolding placed_def by (intro exI [of _ 0] exI [of _ m] exI [of _ b]) simp

lemma try_segments_ok:
  "\<lbrakk>\<forall>s\<in>set segs. seg_ok s; 1 \<le> unat cnt\<rbrakk> \<Longrightarrow> \<exists>r found segs'. try_segments cnt base segs = Inr (r, found, segs') \<and>
     (case found of None \<Rightarrow> segs' = segs | Some h \<Rightarrow> placed cnt h r segs segs')"
proof (induction segs arbitrary: base)
  case (Cons s segs)
  have rest: "\<exists>r found segs'. res_bind (try_segments cnt base segs) (\<lambda>(r, found, segs). Inr (r, found, s # segs)) = Inr (r, found, segs') \<and>
     (case found of None \<Rightarrow> segs' = s # segs | Some h \<Rightarrow> placed cnt h r (s # segs) segs')" for base
  proof -
    obtain r found segs' where "try_segments cnt base segs = Inr (r, found, segs')"
      "case found of None \<Rightarrow> segs' = segs | Some h \<Rightarrow> placed cnt h r segs segs'"
      using Cons.IH [of base] Cons.prems by auto
    then show ?thesis using placed_later by (cases found) auto
  qed
  show ?case
  proof (cases "is_bitmap_avail (hm_map s)")
    case True
    obtain m where m: "bitmap_ok m (hm_map s)" using seg_bitmap [of s] Cons.prems by auto
    obtain r b where r: "mlx4_bitmap_alloc_range (hm_map s) cnt = Inr (r, b)" "alloc_result m cnt (hm_map s) r b"
      using alloc_range_ok [OF m] Cons.prems by blast
    show ?thesis
    proof (cases "r = - 1")
      case True
      then have "s\<lparr>hm_map := b\<rparr> = s" using r(2) by (simp add: alloc_result_def)
      then show ?thesis using rest [of r] \<open>is_bitmap_avail (hm_map s)\<close> r(1) True by simp
    next
      case False
      then show ?thesis using \<open>is_bitmap_avail (hm_map s)\<close> r(1) placed_here [OF m r(2) False] by simp
    qed
  next
    case False
    then show ?thesis using rest [of base] by simp
  qed
qed simp

text \<open>The buffer that lies on chunks which have been taken is a new one.\<close>

lemma placed_ok:
  assumes core: "core_inv segs H" and h: "\<forall>s\<in>set segs. hm_addr s \<noteq> the (bf_hmem x) \<longrightarrow> marked (hm_map s) \<noteq> {}"
    and p: "placed cnt (the (bf_hmem x)) (bf_base x) segs segs'" and c: "1 \<le> unat cnt" and x: "bf_hmem x \<noteq> None" "unat (bf_length x) = 32768 * unat cnt" "bf_buf x = the (bf_hmem x) + scast (bf_base x * ucast MLX4_Q_CHUNK_SIZE)"
  shows "huge_inv segs' (insert x H)" "x \<notin> H"
proof -
  obtain k m b where k: "k < length segs" "the (bf_hmem x) = hm_addr (segs ! k)" "bitmap_ok m (hm_map (segs ! k))"
      "alloc_result m cnt (hm_map (segs ! k)) (bf_base x) b" "bf_base x \<noteq> - 1" "segs' = segs[k := (segs ! k)\<lparr>hm_map := b\<rparr>]"
    using p by (auto simp: placed_def)
  have d: "distinct (map hm_addr segs)" using core by (simp add: core_inv_def)
  note u = update_segment [OF d k(1), of "(segs ! k)\<lparr>hm_map := b\<rparr>", simplified, folded k(6)]
  note t = take_chunks [OF core nth_mem [OF k(1)] k(3-5) c _ refl x(2) _ u]
  have "bf_hmem x = Some (hm_addr (segs ! k))" using x(1) k(2) by auto
  note t = t [OF this] 
  show "x \<notin> H" by (rule t(2)) (use x(3) k(2) in simp)
  have "core_inv segs' (insert x H)" by (rule t(1)) (use x(3) k(2) in simp)
  moreover have "marked b \<noteq> {}" using k(4,5) c by (auto simp: alloc_result_def)
  moreover have "hm_addr s \<noteq> the (bf_hmem x)" if "s \<in> set segs - {segs ! k}" for s
    using same_address [OF core nth_mem [OF k(1)], of s] that k(2) by auto
  ultimately have "core_inv segs' (insert x H)" "\<forall>s\<in>set segs'. marked (hm_map s) \<noteq> {}" using u(1) h by auto
  then show "huge_inv segs' (insert x H)" by (simp add: huge_inv_def)
qed

section \<open>Where segments are\<close>

definition seg_area :: "mlx4_hugetlb_mem \<Rightarrow> nat \<times> nat" where
  "seg_area s = (unat (hm_addr s), seg_bytes s)"

lemma free_range_max: "mlx4_bitmap_free_range b r c = Inr b' \<Longrightarrow> bm_max b' = bm_max b"
  by (auto simp: mlx4_bitmap_free_range_def Let_def res_bind_eq_Inr)

text \<open>What holds of the value, if there is one.\<close>

definition res_all :: "('a \<Rightarrow> bool) \<Rightarrow> 'a res \<Rightarrow> bool" where
  "res_all P m \<longleftrightarrow> (case m of Inl f \<Rightarrow> True | Inr x \<Rightarrow> P x)"

lemma res_all_simps [simp]: "res_all P (Inl f)" "res_all P (Inr x) \<longleftrightarrow> P x"
  by (simp_all add: res_all_def)

lemma res_all_bind: "\<lbrakk>res_all Q m; \<And>x. Q x \<Longrightarrow> res_all P (f x)\<rbrakk> \<Longrightarrow> res_all P (res_bind m f)"
  by (cases m) simp_all

lemma res_all_any: "(\<And>x. res_all P (f x)) \<Longrightarrow> res_all P (res_bind m f)"
  by (cases m) simp_all

lemma res_all_if: "\<lbrakk>c \<Longrightarrow> res_all P m; \<not> c \<Longrightarrow> res_all P n\<rbrakk> \<Longrightarrow> res_all P (if c then m else n)"
  by simp

lemma bitmap_alloc_max: "res_all (\<lambda>(r, b'). bm_max b' = bm_max b) (mlx4_bitmap_alloc b)"
  unfolding mlx4_bitmap_alloc_def Let_def by (intro res_all_any res_all_if) simp_all

lemma alloc_range_max_all: "res_all (\<lambda>(r, b'). bm_max b' = bm_max b) (mlx4_bitmap_alloc_range b c)"
  unfolding mlx4_bitmap_alloc_range_def Let_def
proof (rule res_all_if [OF bitmap_alloc_max res_all_if], goal_cases)
  case 2
  show ?case
  proof (rule res_all_any, rule res_all_bind [where Q = "\<lambda>(r, b'). bm_max b' = bm_max b"], goal_cases)
    case (1 obj)
    show ?case by (intro res_all_if res_all_any) simp_all
  next
    case (2 obj x)
    obtain o1 b1 where x: "x = (o1, b1)" by (cases x)
    show ?case unfolding x prod.case by (intro res_all_if res_all_any) (use 2 x in simp_all)
  qed
qed simp

lemma alloc_range_max: "mlx4_bitmap_alloc_range b c = Inr (r, b') \<Longrightarrow> bm_max b' = bm_max b"
  using alloc_range_max_all [of b c] by simp

lemma same_area: "bm_max b = bm_max (hm_map s) \<Longrightarrow> seg_area (s\<lparr>hm_map := b\<rparr>) = seg_area s"
  by (simp add: seg_area_def seg_bytes_def)

lemma free_huge_areas:
  assumes "mlx4_free_buf_huge x segs = Inr segs'"
  shows "seg_area ` set segs' \<subseteq> seg_area ` set segs"
proof (cases "bf_hmem x")
  case (Some h)
  then obtain k b where k: "first_from (\<lambda>s. hm_addr s = h) 0 segs = Some k"
      "mlx4_bitmap_free_range (hm_map (segs ! k)) (bf_base x) (ucast (bf_length x div MLX4_Q_CHUNK_SIZE)) = Inr b"
      "segs' = (if is_bitmap_empty b then take k segs @ drop (k + 1) segs else segs[k := (segs ! k)\<lparr>hm_map := b\<rparr>])"
    using assms by (auto simp: mlx4_free_buf_huge_def res_bind_eq_Inr split: option.splits)
  have "set segs' \<subseteq> insert ((segs ! k)\<lparr>hm_map := b\<rparr>) (set segs)"
    using k(3) set_update_subset_insert [of segs k] by (auto dest: in_set_takeD in_set_dropD)
  moreover have "seg_area ((segs ! k)\<lparr>hm_map := b\<rparr>) \<in> seg_area ` set segs"
    using same_area [OF free_range_max [OF k(2)]] first_0_Some(1) [OF k(1)] by simp
  ultimately show ?thesis by blast
qed (use assms in \<open>simp add: mlx4_free_buf_huge_def\<close>)

lemma try_segments_areas: "res_all (\<lambda>(r, found, segs'). seg_area ` set segs' = seg_area ` set segs) (try_segments cnt base segs)"
proof (induction segs arbitrary: base)
  case (Cons s segs)
  have rest: "res_all (\<lambda>(r, found, segs'). seg_area ` set segs' = insert (seg_area s) (seg_area ` set segs))
      (res_bind (try_segments cnt base segs) (\<lambda>(r, found, segs). Inr (r, found, t # segs)))" if "seg_area t = seg_area s" for base t
    by (rule res_all_bind [OF Cons.IH]) (use that in auto)
  have one: "res_all (\<lambda>(r, b). seg_area (s\<lparr>hm_map := b\<rparr>) = seg_area s) (mlx4_bitmap_alloc_range (hm_map s) cnt)"
    using alloc_range_max_all [of "hm_map s" cnt] by (cases "mlx4_bitmap_alloc_range (hm_map s) cnt") (auto simp: same_area)
  show ?case unfolding try_segments.simps Let_def
  proof (rule res_all_if, rule res_all_bind [OF one], goal_cases)
    case (1 x)
    then show ?case by (cases x) (auto intro: rest)
  qed (simp add: rest)
qed simp

lemma finish_areas:
  "finish_huge buf h ret segs = Inr (r, x, segs') \<Longrightarrow> seg_area ` set segs' \<subseteq> seg_area ` set segs"
  by (auto simp: finish_huge_def Let_def res_bind_eq_Inr split: if_split_asm dest!: free_huge_areas)

lemma alloc_huge_areas:
  assumes "mlx4_alloc_buf_huge buf n new ret segs = Inr (r, x, segs')"
  shows "seg_area ` set segs' \<subseteq> seg_area ` set segs \<union> seg_area ` set_option (mxl4_hugetlb_mem_alloc (align_long n MLX4_Q_CHUNK_SIZE) new)"
proof -
  let ?len = "align_long n MLX4_Q_CHUNK_SIZE" and ?new = "mxl4_hugetlb_mem_alloc (align_long n MLX4_Q_CHUNK_SIZE) new"
  obtain base found segs1 where t: "try_segments (ucast (?len div MLX4_Q_CHUNK_SIZE)) (bf_base buf) segs = Inr (base, found, segs1)"
    using assms by (auto simp: mlx4_alloc_buf_huge_def Let_def res_bind_eq_Inr)
  have a: "seg_area ` set segs1 = seg_area ` set segs" using try_segments_areas [of segs "ucast (?len div MLX4_Q_CHUNK_SIZE)" "bf_base buf"] t by simp
  show ?thesis
  proof (cases found)
    case (Some h)
    then have "finish_huge (buf\<lparr>bf_length := ?len, bf_base := base\<rparr>) h ret segs1 = Inr (r, x, segs')"
      using assms t by (simp add: mlx4_alloc_buf_huge_def Let_def)
    then show ?thesis using finish_areas a by blast
  next
    case None
    show ?thesis
    proof (cases ?new)
      case None
      then show ?thesis using \<open>found = None\<close> assms t a by (simp add: mlx4_alloc_buf_huge_def Let_def)
    next
      case (Some s)
      obtain q b where q: "mlx4_bitmap_alloc_range (hm_map s) (ucast (?len div MLX4_Q_CHUNK_SIZE)) = Inr (q, b)"
        using assms t None Some by (auto simp: mlx4_alloc_buf_huge_def Let_def res_bind_eq_Inr)
      let ?l = "if is_bitmap_avail b then s\<lparr>hm_map := b\<rparr> # segs1 else segs1 @ [s\<lparr>hm_map := b\<rparr>]"
      have l: "seg_area ` set ?l = insert (seg_area s) (seg_area ` set segs)" using a same_area [OF alloc_range_max [OF q]] by auto
      show ?thesis
      proof (cases "q = - 1")
        case True
        then show ?thesis using assms t None Some q a by (auto simp: mlx4_alloc_buf_huge_def Let_def)
      next
        case False
        then have "finish_huge (buf\<lparr>bf_length := ?len, bf_base := q\<rparr>) (hm_addr s) ret ?l = Inr (r, x, segs')"
          using assms t None Some q by (simp add: mlx4_alloc_buf_huge_def Let_def)
        then have "seg_area ` set segs' \<subseteq> seg_area ` set ?l" by (rule finish_areas)
        then show ?thesis unfolding l using Some by simp
      qed
    qed
  qed
qed

section \<open>The allocator\<close>

text \<open>
  A request, with the buffer record, its size, the address of the segment that would be attached for it, and the result of
  \<open>ibv_dontfork_range\<close>. The system attaches a segment where nothing else is; the number of chunks of a new segment must be a power of two.
\<close>

type_synonym huge_req = "mlx4_buf \<times> u64 \<times> u64 option \<times> int"

fun good_request :: "huge_req \<Rightarrow> mlx4_hugetlb_mem list \<Rightarrow> bool" where
  "good_request (buf, n, new, ret) segs \<longleftrightarrow> 0 < n \<and> unat n \<le> 2 ^ 31 \<and>
     (case new of None \<Rightarrow> True | Some addr \<Rightarrow> (\<exists>m\<in>{6..16}. seg_chunks n = 2 ^ m) \<and> unat addr + 32768 * seg_chunks n \<le> 2 ^ 64 \<and>
        (\<forall>t\<in>set segs. unat addr + 32768 * seg_chunks n \<le> unat (hm_addr t) \<or> unat (hm_addr t) + seg_bytes t \<le> unat addr))"

fun huge_request :: "huge_req \<Rightarrow> mlx4_hugetlb_mem list \<Rightarrow> (mlx4_buf option \<times> mlx4_hugetlb_mem list) res" where
  "huge_request (buf, n, new, ret) segs = res_bind (mlx4_alloc_buf_huge buf n new ret segs) (\<lambda>(r, buf, segs).
     Inr (if r = 0 then Some buf else None, segs))"

definition huge_outcome :: "mlx4_buf set \<Rightarrow> u64 \<Rightarrow> (int \<times> mlx4_buf \<times> mlx4_hugetlb_mem list) \<Rightarrow> bool" where
  "huge_outcome H n = (\<lambda>(r, x, segs'). if r = 0 then huge_inv segs' (insert x H) \<and> x \<notin> H \<and> unat n \<le> unat (bf_length x) else huge_inv segs' H)"

text \<open>The buffer that \<open>finish_huge\<close> gives out.\<close>

definition finished :: "mlx4_buf \<Rightarrow> u64 \<Rightarrow> mlx4_buf" where
  "finished buf h = buf\<lparr>bf_hmem := Some h, bf_buf := h + scast (bf_base buf * ucast MLX4_Q_CHUNK_SIZE)\<rparr>"

lemma finish_huge_ok:
  assumes t: "huge_inv segs' (insert (finished buf h) H)" "finished buf h \<notin> H" and l: "unat n \<le> unat (bf_length buf)"
  shows "\<exists>r. finish_huge buf h ret segs' = Inr r \<and> huge_outcome H n r"
proof (cases "ret = 0")
  case True
  then show ?thesis using t l by (simp add: finish_huge_def huge_outcome_def Let_def flip: finished_def) (simp add: finished_def)
next
  case False
  obtain segs'' where f: "mlx4_free_buf_huge (finished buf h) segs' = Inr segs''" "huge_inv segs'' (insert (finished buf h) H - {finished buf h})"
    using free_huge_ok [OF t(1), of "finished buf h"] by blast
  have "insert (finished buf h) H - {finished buf h} = H" using t(2) by blast
  then show ?thesis using f False by (simp add: finish_huge_def huge_outcome_def Let_def flip: finished_def)
qed

lemma fresh_segment:
  assumes h: "huge_inv segs H" and n: "0 < n" "unat n \<le> 2 ^ 31" and cnt: "unat cnt = chunk_count n"
    and m: "seg_chunks n = 2 ^ m" and a: "unat addr + 32768 * seg_chunks n \<le> 2 ^ 64"
      "\<forall>t\<in>set segs. unat addr + 32768 * seg_chunks n \<le> unat (hm_addr t) \<or> unat (hm_addr t) + seg_bytes t \<le> unat addr"
  defines "s \<equiv> \<lparr>hm_addr = addr, hm_map = mlx4_bitmap_init (2 ^ m) (2 ^ m - 1)\<rparr>"
  shows "\<exists>r b. mlx4_bitmap_alloc_range (hm_map s) cnt = Inr (r, b) \<and> r \<noteq> - 1 \<and> placed cnt addr r (s # segs) (s\<lparr>hm_map := b\<rparr> # segs)"
    "core_inv (s # segs) H"
proof -
  note w = new_segment [OF n m] and c = request_chunks [OF n]
  have i: "bitmap_ok m (hm_map s)" "marked (hm_map s) = {}" using init_ok [of m] w(2,3) by (simp_all add: s_def)
  then have bytes: "seg_bytes s = 32768 * seg_chunks n" using m by (simp add: seg_bytes_def bitmap_ok_def)
  obtain r b where r: "mlx4_bitmap_alloc_range (hm_map s) cnt = Inr (r, b)" "alloc_result m cnt (hm_map s) r b"
    using alloc_range_ok [OF i(1), of cnt] c(3) cnt by auto
  have "r \<noteq> - 1"
  proof
    assume "r = - 1"
    then have "\<forall>k. k + unat cnt \<le> 2 ^ m \<longrightarrow> {k..<k + unat cnt} \<inter> marked (hm_map s) \<noteq> {}" using r(2) by (simp add: alloc_result_def)
    then show False using i(2) w(4) cnt by (auto dest: spec [of _ 0])
  qed
  then show "\<exists>r b. mlx4_bitmap_alloc_range (hm_map s) cnt = Inr (r, b) \<and> r \<noteq> - 1 \<and> placed cnt addr r (s # segs) (s\<lparr>hm_map := b\<rparr> # segs)"
    using r placed_here [OF i(1) r(2)] by (auto simp: s_def)
  have ok: "seg_ok s" using i(1) w(2,3) a(1) bytes by (auto simp: seg_ok_def s_def)
  have "hm_addr t \<noteq> addr \<and> segs_apart s t" if "t \<in> set segs" for t
  proof -
    have "seg_ok t" using h that by (simp add: huge_inv_def core_inv_def)
    then obtain k where "unat (bm_max (hm_map t)) = 2 ^ k" by (rule seg_bitmap)
    then have "0 < seg_bytes t" by (simp add: seg_bytes_def)
    then show ?thesis using a(2) that m bytes by (fastforce simp: segs_apart_def s_def)
  qed
  then show "core_inv (s # segs) H"
    using h add_segment [of segs H s "s # segs"] ok i(2) by (auto simp: huge_inv_def core_inv_def s_def)
qed

lemma huge_inv_rotate: "huge_inv (s # segs) H \<Longrightarrow> huge_inv (segs @ [s]) H"
  by (auto simp: huge_inv_def core_inv_def)

lemma alloc_huge_ok:
  assumes h: "huge_inv segs H" and g: "good_request (buf, n, new, ret) segs"
  shows "\<exists>r. mlx4_alloc_buf_huge buf n new ret segs = Inr r \<and> huge_outcome H n r"
proof -
  let ?len = "align_long n MLX4_Q_CHUNK_SIZE" and ?cnt = "ucast (align_long n MLX4_Q_CHUNK_SIZE div MLX4_Q_CHUNK_SIZE) :: u32"
  have n: "0 < n" "unat n \<le> 2 ^ 31" using g by simp_all
  note c = request_chunks [OF n]
  have cnt: "1 \<le> unat ?cnt" "unat ?len = 32768 * unat ?cnt" "unat n \<le> unat ?len" using c by (simp_all add: chunk_count_def)
  have core: "core_inv segs H" "\<forall>s\<in>set segs. seg_ok s" using h by (simp_all add: huge_inv_def core_inv_def)
  obtain r found segs' where t: "try_segments ?cnt (bf_base buf) segs = Inr (r, found, segs')"
      "case found of None \<Rightarrow> segs' = segs | Some h \<Rightarrow> placed ?cnt h r segs segs'"
    using try_segments_ok [OF core(2) cnt(1)] by blast
  let ?b = "\<lambda>r. buf\<lparr>bf_length := ?len, bf_base := r\<rparr>"
  have x: "bf_hmem (finished (?b r) a) = Some a" "bf_length (finished (?b r) a) = ?len" "bf_base (finished (?b r) a) = r"
    "bf_buf (finished (?b r) a) = a + scast (r * ucast MLX4_Q_CHUNK_SIZE)" for r a
    by (simp_all add: finished_def)
  show ?thesis
  proof (cases found)
    case (Some a)
    then have p: "placed ?cnt a r segs segs'" using t(2) by simp
    have y: "huge_inv segs' (insert (finished (?b r) a) H)" "finished (?b r) a \<notin> H"
      using placed_ok [of segs H "finished (?b r) a" ?cnt segs'] p h cnt core(1) by (simp_all add: x huge_inv_def)
    show ?thesis using finish_huge_ok [OF y, of n ret] cnt(3) t(1) Some by (simp add: mlx4_alloc_buf_huge_def Let_def)
  next
    case None
    show ?thesis
    proof (cases new)
      case None
      then show ?thesis using \<open>found = None\<close> t h by (simp add: mlx4_alloc_buf_huge_def mxl4_hugetlb_mem_alloc_def huge_outcome_def Let_def)
    next
      case (Some addr)
      then obtain m where m: "seg_chunks n = 2 ^ m" and a: "unat addr + 32768 * seg_chunks n \<le> 2 ^ 64"
          "\<forall>t\<in>set segs. unat addr + 32768 * seg_chunks n \<le> unat (hm_addr t) \<or> unat (hm_addr t) + seg_bytes t \<le> unat addr"
        using g by auto
      let ?s = "\<lparr>hm_addr = addr, hm_map = mlx4_bitmap_init (2 ^ m) (2 ^ m - 1)\<rparr>"
      obtain r b where f: "mlx4_bitmap_alloc_range (hm_map ?s) ?cnt = Inr (r, b)" "r \<noteq> - 1" "placed ?cnt addr r (?s # segs) (?s\<lparr>hm_map := b\<rparr> # segs)"
        and k: "core_inv (?s # segs) H"
        using fresh_segment [OF h n c(2) m a] by blast
      have y: "huge_inv (?s\<lparr>hm_map := b\<rparr> # segs) (insert (finished (?b r) addr) H)" "finished (?b r) addr \<notin> H"
        using placed_ok [OF k, of "finished (?b r) addr" ?cnt "?s\<lparr>hm_map := b\<rparr> # segs"] f(3) h cnt by (simp_all add: x huge_inv_def)
      let ?l = "if is_bitmap_avail b then ?s\<lparr>hm_map := b\<rparr> # segs else segs @ [?s\<lparr>hm_map := b\<rparr>]"
      have "huge_inv ?l (insert (finished (?b r) addr) H)" using y(1) huge_inv_rotate by auto
      then obtain z where z: "finish_huge (?b r) addr ret ?l = Inr z" "huge_outcome H n z" using finish_huge_ok [OF _ y(2), of ?l n ret] cnt(3) by auto
      have "mlx4_alloc_buf_huge buf n new ret segs = finish_huge (?b r) addr ret ?l"
        using t None Some f(1,2) new_segment(1) [OF n m] by (simp add: mlx4_alloc_buf_huge_def Let_def)
      then show ?thesis using z by simp
    qed
  qed
qed

interpretation huge_buffers: allocator huge_inv good_request "\<lambda>a x. unat (fst (snd a)) \<le> unat (bf_length x)" huge_clash huge_request mlx4_free_buf_huge
proof (unfold_locales, goal_cases)
  case (1 segs H a)
  obtain buf n new ret where a: "a = (buf, n, new, ret)" by (cases a)
  obtain r x segs' where r: "mlx4_alloc_buf_huge buf n new ret segs = Inr (r, x, segs')" "huge_outcome H n (r, x, segs')"
    using alloc_huge_ok [of segs H buf n new ret] 1 a by auto
  have "\<not> huge_clash x y \<and> \<not> huge_clash y x" if "r = 0" "y \<in> H" for y
    using buffers_apart [of segs' "insert x H"] r(2) that by (auto simp: huge_outcome_def huge_inv_def)
  then show ?case using r by (intro exI [of _ "if r = 0 then Some x else None"] exI [of _ segs']) (auto simp: a huge_outcome_def)
next
  case (2 segs H x)
  then show ?case by (rule free_huge_ok)
qed

definition blank_buf :: mlx4_buf where
  "blank_buf = \<lparr>bf_buf = 0, bf_hmem = None, bf_length = 0, bf_base = 0\<rparr>"

section \<open>Segments of another size\<close>

text \<open>
  A segment of 192 chunks, for a buffer of 160: \<open>obj &= max - 1\<close> and \<open>top = (top + max) & mask\<close> are not what they are for powers of two. After the first
  free, \<open>top\<close> is 128, and is then part of every position that is given out: a buffer of 32 chunks is placed at 129 although it is chunks 1 to 32 that are
  marked for it, and overlaps one at 160.
\<close>

lemma find_here:
  assumes "start + len \<le> n" "n \<le> 32 * length t" "n < 2 ^ 31" "1 \<le> len" "\<And>i. start \<le> i \<Longrightarrow> i < start + len \<Longrightarrow> \<not> bit_at t i"
  shows "find_aligned_range t start n len = Inr (of_nat start)"
proof -
  have s: "skip_marked t start n = Inr start" using assms by (subst skip_marked.simps) simp
  obtain r where r: "find_marked t (start + 1) (start + len) = Inr r"
      "case r of None \<Rightarrow> True | Some k \<Rightarrow> start + 1 \<le> k \<and> k < start + len \<and> bit_at t k"
    using find_marked_ok [of "start + len" t "start + 1"] assms(1,2) by (auto split: option.splits)
  have "r = None" using r(2) assms(5) by (cases r) auto
  moreover have "(start + len) mod 2 ^ 32 = start + len" using assms(1,3) by simp
  ultimately show ?thesis using r(1) s assms(1,4) by (subst find_aligned_range.simps) simp
qed

lemma table_eqI:
  fixes t u :: "u32 list"
  assumes "length t = length u" "\<And>i. i < 32 * length u \<Longrightarrow> bit_at t i = bit_at u i"
  shows "t = u"
proof (rule nth_equalityI)
  show "t ! j = u ! j" if "j < length t" for j
  proof (rule bit_word_eqI)
    fix i assume "i < LENGTH(32)"
    then show "bit (t ! j) i = bit (u ! j) i" using assms(2) [of "32 * j + i"] assms(1) that by (simp add: bit_at_def)
  qed
qed (rule assms(1))

lemma on_range_table:
  assumes "makes_bit v f" "obj + n \<le> 32 * length t" "length u = length t" "\<And>i. i < 32 * length u \<Longrightarrow> bit_at u i = (if i \<in> {obj..<obj + n} then v else bit_at t i)"
  shows "on_range f obj n t = Inr u"
proof -
  obtain t' where t: "on_range f obj n t = Inr t'" "length t' = length t" "\<And>i. bit_at t' i = (if i \<in> {obj..<obj + n} then v else bit_at t i)"
    using on_range_ok [OF assms(1,2)] by blast
  have "t' = u" by (rule table_eqI) (simp_all add: t(2,3) assms(3,4))
  then show ?thesis using t(1) by simp
qed

definition odd_map :: "u32 \<Rightarrow> u32 \<Rightarrow> u32 \<Rightarrow> u32 list \<Rightarrow> bitmap" where
  "odd_map l p avail t = \<lparr>bm_last = l, bm_top = p, bm_max = 192, bm_avail = avail, bm_mask = 191, bm_table = t\<rparr>"

lemma odd_map_run:
  shows "mlx4_bitmap_init 192 191 = odd_map 0 0 192 (replicate 6 0)"
    and "mlx4_bitmap_alloc_range (odd_map 0 0 192 (replicate 6 0)) 160 = Inr (0, odd_map 160 0 32 (replicate 5 (- 1) @ [0]))"
    and "mlx4_bitmap_alloc_range (odd_map 160 0 32 (replicate 5 (- 1) @ [0])) 1 = Inr (160, odd_map 161 0 31 (replicate 5 (- 1) @ [1]))"
    and "mlx4_bitmap_free_range (odd_map 161 0 31 (replicate 5 (- 1) @ [1])) 0 160 = Inr (odd_map 0 128 191 (replicate 5 0 @ [1]))"
    and "mlx4_bitmap_alloc_range (odd_map 0 128 191 (replicate 5 0 @ [1])) 1 = Inr (128, odd_map 1 128 190 (1 # replicate 4 0 @ [1]))"
    and "mlx4_bitmap_alloc_range (odd_map 1 128 190 (1 # replicate 4 0 @ [1])) 32 = Inr (129, odd_map 33 128 158 ([- 1, 1] @ replicate 3 0 @ [1]))"
proof -
  have r: "replicate 6 x = [x, x, x, x, x, x]" "replicate 5 x = [x, x, x, x, x]" "replicate 4 x = [x, x, x, x]" "replicate 3 x = [x, x, x]" for x :: u32
    by (simp_all add: numeral_nat)
  have bits: "bit (1 :: u32) i \<longleftrightarrow> i = 0" "bit (- 1 :: u32) i \<longleftrightarrow> i < 32" "\<not> bit (0 :: u32) i" for i
    by (simp_all add: bit_1_iff bit_minus_1_iff)
  have f1: "find_aligned_range [0, 0, 0, 0, 0, 0] 0 192 160 = Inr 0" using find_here [of 0 160 192 "[0, 0, 0, 0, 0, 0]"] by (simp add: bit_at_Cons bits)
  have s1: "on_range mlx4_set_bit 0 160 [0, 0, 0, 0, 0, 0] = Inr [- 1, - 1, - 1, - 1, - 1, 0]"
    by (rule on_range_table [OF set_clear_bit(1)]) (auto simp: bit_at_Cons bits)
  have f2: "find_aligned_range [1, 0, 0, 0, 0, 1] 1 192 32 = Inr 1" using find_here [of 1 32 192 "[1, 0, 0, 0, 0, 1]"] by (simp add: bit_at_Cons bits)
  have s2: "on_range mlx4_set_bit 1 32 [1, 0, 0, 0, 0, 1] = Inr [- 1, 1, 0, 0, 0, 1]"
    by (rule on_range_table [OF set_clear_bit(1)]) (auto simp: bit_at_Cons bits)
  have c: "on_range mlx4_clear_bit 0 160 [- 1, - 1, - 1, - 1, - 1, 1] = Inr [0, 0, 0, 0, 0, 1]"
    by (rule on_range_table [OF set_clear_bit(2)]) (auto simp: bit_at_Cons bits)
  have z: "find_first_zero [- 1, - 1, - 1, - 1, - 1, 0] 0 192 = Inr 160" "find_first_zero [0, 0, 0, 0, 0, 1] 0 192 = Inr 0"
  proof -
    have "ffs (- 1 :: u32) = 1" by (simp add: ffs_def upt_conv_Cons)
    then have "mlx4_ffz 0 = 0" by (simp add: mlx4_ffz_def)
    then show "find_first_zero [- 1, - 1, - 1, - 1, - 1, 0] 0 192 = Inr 160" "find_first_zero [0, 0, 0, 0, 0, 1] 0 192 = Inr 0"
      by (simp_all add: find_first_zero.simps)
  qed
  have b: "mlx4_set_bit 160 [- 1, - 1, - 1, - 1, - 1, 0] = Inr [- 1, - 1, - 1, - 1, - 1, 1]" "mlx4_set_bit 0 [0, 0, 0, 0, 0, 1] = Inr [1, 0, 0, 0, 0, 1]"
  proof -
    have "[p, q, r, s, t, u][5 := x] = [p, q, r, s, t, x]" for p q r s t u x :: u32 by (simp add: numeral_nat)
    then show "mlx4_set_bit 160 [- 1, - 1, - 1, - 1, - 1, 0] = Inr [- 1, - 1, - 1, - 1, - 1, 1]" by (simp add: mlx4_set_bit_def)
  qed (simp add: mlx4_set_bit_def)
  have le: "\<not> (192 :: u32) \<le> 1" by (simp add: word_le_nat_alt)
  show "mlx4_bitmap_init 192 191 = odd_map 0 0 192 (replicate 6 0)" by (simp add: mlx4_bitmap_init_def odd_map_def)
  show "mlx4_bitmap_alloc_range (odd_map 0 0 192 (replicate 6 0)) 160 = Inr (0, odd_map 160 0 32 (replicate 5 (- 1) @ [0]))"
    unfolding r by (simp add: mlx4_bitmap_alloc_range_def odd_map_def f1 s1 Let_def)
  show "mlx4_bitmap_alloc_range (odd_map 160 0 32 (replicate 5 (- 1) @ [0])) 1 = Inr (160, odd_map 161 0 31 (replicate 5 (- 1) @ [1]))"
    unfolding r by (simp add: mlx4_bitmap_alloc_range_def mlx4_bitmap_alloc_def mlx4_find_first_zero_bit_def odd_map_def z b Let_def)
  show "mlx4_bitmap_free_range (odd_map 161 0 31 (replicate 5 (- 1) @ [1])) 0 160 = Inr (odd_map 0 128 191 (replicate 5 0 @ [1]))"
    unfolding r by (simp add: mlx4_bitmap_free_range_def odd_map_def c Let_def)
  show "mlx4_bitmap_alloc_range (odd_map 0 128 191 (replicate 5 0 @ [1])) 1 = Inr (128, odd_map 1 128 190 (1 # replicate 4 0 @ [1]))"
    unfolding r by (simp add: mlx4_bitmap_alloc_range_def mlx4_bitmap_alloc_def mlx4_find_first_zero_bit_def odd_map_def z b Let_def)
  show "mlx4_bitmap_alloc_range (odd_map 1 128 190 (1 # replicate 4 0 @ [1])) 32 = Inr (129, odd_map 33 128 158 ([- 1, 1] @ replicate 3 0 @ [1]))"
    unfolding r by (simp add: mlx4_bitmap_alloc_range_def odd_map_def f2 [unfolded One_nat_def] s2 [unfolded One_nat_def] le Let_def)
qed

text \<open>The run: a buffer of 160 chunks, one of 1, the first one is freed, one of 1, one of 32.\<close>

definition odd_buf :: "u32 \<Rightarrow> u64 \<Rightarrow> mlx4_buf" where
  "odd_buf base cnt = \<lparr>bf_buf = 0x40000000 + ucast base * 32768, bf_hmem = Some 0x40000000, bf_length = cnt * 32768, bf_base = base\<rparr>"

definition odd_ops :: "(huge_req, mlx4_buf) alloc_op list" where
  "odd_ops = [Alloc_op (blank_buf, 160 * 32768, Some 0x40000000, 0), Alloc_op (blank_buf, 32768, None, 0), Free_op (odd_buf 0 160),
     Alloc_op (blank_buf, 32768, None, 0), Alloc_op (blank_buf, 32 * 32768, None, 0)]"

lemma odd_request:
  assumes "is_bitmap_avail b" "mlx4_bitmap_alloc_range b (ucast cnt) = Inr (r, b')" "r \<noteq> - 1" "unat r < 256" "unat cnt < 256"
  shows "huge_request (blank_buf, cnt * 32768, None, 0) [\<lparr>hm_addr = 0x40000000, hm_map = b\<rparr>] =
    Inr (Some (odd_buf r cnt), [\<lparr>hm_addr = 0x40000000, hm_map = b'\<rparr>])"
proof -
  have c: "unat (cnt * 32768) = unat cnt * 32768" using assms(5) by (simp add: unat_word_ariths)
  have "unat (align_long (cnt * 32768) (2 ^ 15)) = unat (cnt * 32768)" using align_long_ok [of 15 "cnt * 32768"] assms(5) by (simp add: c)
  then have a: "align_long (cnt * 32768) MLX4_Q_CHUNK_SIZE = cnt * 32768" by (simp add: MLX4_Q_CHUNK_SIZE_def word_unat_eq_iff)
  have d: "cnt * 32768 div MLX4_Q_CHUNK_SIZE = cnt" by (simp add: MLX4_Q_CHUNK_SIZE_def word_unat_eq_iff unat_div c)
  have "unat (0x40000000 + scast (r * ucast MLX4_Q_CHUNK_SIZE) :: u64) = 0x40000000 + 32768 * unat r"
    using chunk_address [where r = r and h = "0x40000000"] assms(4) by simp
  also have "\<dots> = unat (0x40000000 + ucast r * 32768 :: u64)" using assms(4) by (simp add: unat_word_ariths)
  finally have e: "(0x40000000 + scast (r * ucast MLX4_Q_CHUNK_SIZE) :: u64) = 0x40000000 + ucast r * 32768" by (simp only: word_unat_eq_iff)
  show ?thesis
    using assms(1-3) by (simp add: mlx4_alloc_buf_huge_def a d Let_def finish_huge_def e odd_buf_def blank_buf_def)
qed

theorem huge_buffers_overlap:
  "\<exists>segs. alloc_run huge_request mlx4_free_buf_huge odd_ops [] [] = Inr (segs, [odd_buf 129 32, odd_buf 128 1, odd_buf 160 1]) \<and>
    huge_clash (odd_buf 129 32) (odd_buf 160 1)"
proof -
  let ?seg = "\<lambda>b. [\<lparr>hm_addr = 0x40000000, hm_map = b\<rparr>] :: mlx4_hugetlb_mem list"
  have av: "is_bitmap_avail (odd_map l p a t) \<longleftrightarrow> 0 < a" for l p a t by (simp add: is_bitmap_avail_def odd_map_def)
  have small: "align_long 5242880 32768 = 5242880" "align_long 5242880 MLX4_SHM_LENGTH = 6291456" "MLX4_SHM_LENGTH < 5242880"
    by (simp_all add: align_long_def MLX4_SHM_LENGTH_def)
  have n: "(129 :: u32) \<noteq> - 1" "(128 :: u32) \<noteq> - 1" "(160 :: u32) \<noteq> - 1" by simp_all
  have 1: "huge_request (blank_buf, 160 * 32768, Some 0x40000000, 0) [] = Inr (Some (odd_buf 0 160), ?seg (odd_map 160 0 32 (replicate 5 (- 1) @ [0])))"
    using odd_map_run(1,2)
    by (simp add: mlx4_alloc_buf_huge_def small mxl4_hugetlb_mem_alloc_def MLX4_Q_CHUNK_SIZE_def finish_huge_def av odd_buf_def blank_buf_def Let_def)
  have 2: "huge_request (blank_buf, 32768, None, 0) (?seg (odd_map 160 0 32 (replicate 5 (- 1) @ [0]))) =
      Inr (Some (odd_buf 160 1), ?seg (odd_map 161 0 31 (replicate 5 (- 1) @ [1])))"
    using odd_request [where cnt = 1 and r = 160, OF _ _ n(3)] odd_map_run(3) by (simp add: av)
  have 3: "mlx4_free_buf_huge (odd_buf 0 160) (?seg (odd_map 161 0 31 (replicate 5 (- 1) @ [1]))) = Inr (?seg (odd_map 0 128 191 (replicate 5 0 @ [1])))"
    using odd_map_run(4) by (simp add: mlx4_free_buf_huge_def odd_buf_def MLX4_Q_CHUNK_SIZE_def) (simp add: is_bitmap_empty_def odd_map_def)
  have 4: "huge_request (blank_buf, 32768, None, 0) (?seg (odd_map 0 128 191 (replicate 5 0 @ [1]))) =
      Inr (Some (odd_buf 128 1), ?seg (odd_map 1 128 190 (1 # replicate 4 0 @ [1])))"
    using odd_request [where cnt = 1 and r = 128, OF _ _ n(2)] odd_map_run(5) by (simp add: av)
  have 5: "huge_request (blank_buf, 32 * 32768, None, 0) (?seg (odd_map 1 128 190 (1 # replicate 4 0 @ [1]))) =
      Inr (Some (odd_buf 129 32), ?seg (odd_map 33 128 158 ([- 1, 1] @ replicate 3 0 @ [1])))"
    using odd_request [where cnt = 32 and r = 129, OF _ _ n(1)] odd_map_run(6) by (simp add: av)
  have "odd_buf 160 1 \<noteq> odd_buf 0 160" by (simp add: odd_buf_def)
  then have "alloc_run huge_request mlx4_free_buf_huge odd_ops [] [] =
      Inr (?seg (odd_map 33 128 158 ([- 1, 1] @ replicate 3 0 @ [1])), [odd_buf 129 32, odd_buf 128 1, odd_buf 160 1])"
    unfolding odd_ops_def alloc_run.simps 1 2 3 4 5 res_bind_simps prod.case option.case by simp
  moreover have "huge_clash (odd_buf 129 32) (odd_buf 160 1)" by (simp add: huge_clash_def odd_buf_def)
  ultimately show ?thesis by blast
qed

end
