(* ===== verification/Buffers.thy ===== *)
theory Buffers
  imports Huge_Alloc C_Text Wqe
begin

text \<open>
  The buffers of queues, \<open>libmlx4/src/buf.c\<close>: huge pages, contiguous pages or ordinary ones, chosen by a type with fallbacks. The kernel is a record
  of its answers, with an error number on the left. The blocks of contiguous pages have power-of-two sizes.
\<close>

section \<open>The size of a block\<close>

text \<open>\<open>mlx4_get_block_order\<close>: the logarithm, one bit of the result per step.\<close>

definition order_step :: "u32 \<times> nat \<Rightarrow> u32 \<times> u32 \<Rightarrow> u32 \<times> u32" where
  "order_step = (\<lambda>(bits, shift) (v, r). if v AND bits \<noteq> 0 then (drop_bit shift v, r OR of_nat shift) else (v, r))"

definition mlx4_get_block_order :: "u32 \<Rightarrow> u32" where
  "mlx4_get_block_order v =
     (let r = snd (fold order_step [(0xFFFF0000, 16), (0xFF00, 8), (0xF0, 4), (0xC, 2), (0x2, 1)] (v, 0)) in
      r + (if v AND (push_bit (unat r) 1 - 1) \<noteq> 0 then 1 else 0))"

text \<open>After a step with shift \<open>s\<close>, \<open>v\<close> is the input shifted right by \<open>r\<close>, a multiple of \<open>s\<close>, and below \<open>2 ^ s\<close>.\<close>

definition order_inv :: "u32 \<Rightarrow> nat \<Rightarrow> u32 \<times> u32 \<Rightarrow> bool" where
  "order_inv input s = (\<lambda>(v, r). v = drop_bit (unat r) input \<and> v \<noteq> 0 \<and> unat v < 2 ^ s \<and> s dvd unat r \<and> unat r + s \<le> 32)"

lemma high_bits:
  fixes v :: u32
  assumes "unat v < 2 ^ (2 * s)" "2 * s \<le> 32"
  shows "v AND push_bit s (mask s) \<noteq> 0 \<longleftrightarrow> drop_bit s v \<noteq> 0"
proof -
  have "v = take_bit (2 * s) v" using assms by (simp add: word_unat_eq_iff unsigned_take_bit_eq take_bit_nat_eq_self)
  then have hi: "i < 2 * s" if "bit v i" for i using that by (metis bit_take_bit_iff)
  have "v AND push_bit s (mask s) = push_bit s (drop_bit s v)"
    by (rule bit_word_eqI) (auto simp: bit_simps dest: hi)
  moreover have "push_bit s (drop_bit s v) = 0 \<longleftrightarrow> drop_bit s v = 0"
  proof
    assume a: "push_bit s (drop_bit s v) = 0"
    have "\<not> bit (drop_bit s v) i" for i
    proof (cases "i + s < 32")
      case True
      then show ?thesis using arg_cong [OF a, of "\<lambda>x. bit x (i + s)"] by (simp add: bit_simps)
    next
      case False
      then show ?thesis using bit_imp_le_length [of v "i + s"] by (auto simp: bit_simps add.commute)
    qed
    then show "drop_bit s v = 0" by (simp add: bit_eq_iff)
  qed simp
  ultimately show ?thesis by simp
qed

lemma unat_shift: "unat (drop_bit s v) = unat v div 2 ^ s" for v :: u32
  by (metis unat_drop_bit_eq drop_bit_eq_div)

lemma unat_low: "unat (take_bit k v) = unat v mod 2 ^ k" for v :: u32
  by (metis unsigned_take_bit_eq take_bit_eq_mod)

lemma order_step_inv:
  assumes i: "order_inv input (2 * s) x" and s: "s = 2 ^ j" and b: "bits = push_bit s (mask s)"
  shows "order_inv input s (order_step (bits, s) x)"
proof -
  obtain v r where x: "x = (v, r)" by (cases x)
  have v: "v = drop_bit (unat r) input" "v \<noteq> 0" "unat v < 2 ^ (2 * s)" "2 * s dvd unat r" "unat r + 2 * s \<le> 32"
    using i unfolding order_inv_def x prod.case by blast+
  show ?thesis
  proof (cases "v AND bits \<noteq> 0")
    case False
    then have "drop_bit s v = 0" using high_bits [OF v(3)] v(5) b by simp
    then have "unat v div 2 ^ s = 0" by (metis unat_shift unat_0)
    then have "unat v < 2 ^ s" by (simp add: div_eq_0_iff)
    then show ?thesis using False v by (auto simp: order_step_def order_inv_def x dest: dvd_mult_right)
  next
    case True
    then have n: "drop_bit s v \<noteq> 0" using high_bits [OF v(3)] v(5) b by simp
    obtain k where k: "unat r = 2 * s * k" using v(4) by auto
    have r: "r = of_nat (2 * s * k)" using arg_cong [OF k, of "of_nat :: nat \<Rightarrow> u32"] by simp
    have "r = push_bit (j + 1) (of_nat k)" by (simp add: r s push_bit_eq_mult mult.commute mult.left_commute)
    then have "\<not> bit r j" by (simp only: bit_push_bit_iff) simp
    moreover have p: "of_nat s = (2 ^ j :: u32)" by (simp add: s)
    ultimately have "r OR of_nat s = r + of_nat s" by (intro disjunctive_add [symmetric]) (auto simp: p bit_simps)
    moreover have "unat (of_nat s :: u32) = s" by (rule unat_of_nat_small) (use v(5) in simp)
    ultimately have c: "unat (r OR of_nat s) = unat r + s" using v(5) by (simp add: unat_word_ariths)
    have "unat (drop_bit s v) < 2 ^ s" using v(3) by (simp add: unat_shift less_mult_imp_div_less mult_2 power_add)
    moreover have "s dvd unat r" using v(4) by (rule dvd_mult_right)
    ultimately show ?thesis using True v n c by (simp add: order_step_def order_inv_def x drop_bit_drop_bit add.commute)
  qed
qed

lemma block_order_bounds:
  assumes "v \<noteq> 0"
  shows "unat v \<le> 2 ^ unat (mlx4_get_block_order v)" "k < unat (mlx4_get_block_order v) \<Longrightarrow> 2 ^ k < unat v"
proof -
  have 0: "order_inv v 32 (v, 0)" using assms unsigned_less [of v, where 'a = nat] by (simp add: order_inv_def)
  have m: "0xFFFF0000 = push_bit 16 (mask 16 :: u32)" "0xFF00 = push_bit 8 (mask 8 :: u32)" "0xF0 = push_bit 4 (mask 4 :: u32)"
    "0xC = push_bit 2 (mask 2 :: u32)" "0x2 = push_bit 1 (mask 1 :: u32)"
    by (simp_all add: mask_eq_exp_minus_1)
  note step = order_step_inv [of v]
  have "order_inv v 16 (order_step (0xFFFF0000, 16) (v, 0))" by (rule step [where j = 4, OF _ _ m(1)]) (use 0 in simp_all)
  then have "order_inv v 8 (order_step (0xFF00, 8) (order_step (0xFFFF0000, 16) (v, 0)))" by (intro step [where j = 3, OF _ _ m(2)]) simp_all
  then have "order_inv v 4 (order_step (0xF0, 4) (order_step (0xFF00, 8) (order_step (0xFFFF0000, 16) (v, 0))))"
    by (intro step [where j = 2, OF _ _ m(3)]) simp_all
  then have "order_inv v 2 (order_step (0xC, 2) (order_step (0xF0, 4) (order_step (0xFF00, 8) (order_step (0xFFFF0000, 16) (v, 0)))))"
    by (intro step [where j = 1, OF _ _ m(4)]) simp_all
  then have "order_inv v 1 (order_step (0x2, 1) (order_step (0xC, 2) (order_step (0xF0, 4) (order_step (0xFF00, 8) (order_step (0xFFFF0000, 16) (v, 0))))))"
    by (intro step [where j = 0, OF _ _ m(5)]) simp_all
  moreover define x where "x = fold order_step [(0xFFFF0000, 16), (0xFF00, 8), (0xF0, 4), (0xC, 2), (0x2, 1)] (v, 0)"
  ultimately have "order_inv v 1 x" by simp
  then obtain w r where x: "x = (w, r)" "w = drop_bit (unat r) v" "w \<noteq> 0" "unat w < 2" "unat r + 1 \<le> 32"
    by (cases x) (simp add: order_inv_def)
  have "unat w \<noteq> 0" using x(3) by (simp add: word_unat_eq_iff)
  then have "unat w = 1" using x(4) by simp
  then have d: "unat v div 2 ^ unat r = 1" using x(2) by (simp add: unat_shift)
  have p: "0 < (2 :: nat) ^ unat r" by simp
  have q: "unat v = 2 ^ unat r + unat v mod 2 ^ unat r" using d div_mult_mod_eq [of "unat v" "2 ^ unat r"] by simp
  have lo: "2 ^ unat r \<le> unat v" "unat v < 2 * 2 ^ unat r"
    using q mod_less_divisor [OF p, of "unat v"] by linarith+
  have "push_bit (unat r) 1 - 1 = (mask (unat r) :: u32)" by (simp add: mask_eq_exp_minus_1)
  then have "v AND (push_bit (unat r) 1 - 1) = take_bit (unat r) v" by (simp add: take_bit_eq_mask)
  then have e: "v AND (push_bit (unat r) 1 - 1) \<noteq> 0 \<longleftrightarrow> unat v mod 2 ^ unat r \<noteq> 0"
    by (simp only: word_unat_eq_iff unat_low unat_0 not_False_eq_True)
  have o: "unat (mlx4_get_block_order v) = unat r + (if unat v mod 2 ^ unat r \<noteq> 0 then 1 else 0)"
  proof -
    have "mlx4_get_block_order v = r + (if v AND (push_bit (unat r) 1 - 1) \<noteq> 0 then 1 else 0)"
      unfolding mlx4_get_block_order_def Let_def x_def [symmetric] x(1) snd_conv by (rule refl)
    then show ?thesis unfolding e using x(5) by (simp add: unat_word_ariths)
  qed
  have z: "unat v mod 2 ^ unat r = unat v - 2 ^ unat r" using d by (simp add: minus_div_mult_eq_mod [symmetric])
  show "unat v \<le> 2 ^ unat (mlx4_get_block_order v)" using lo z unfolding o by auto
  show "2 ^ k < unat v" if "k < unat (mlx4_get_block_order v)"
  proof (cases "k < unat r")
    case True
    then have "(2 :: nat) ^ k < 2 ^ unat r" by simp
    then show ?thesis using lo(1) by linarith
  next
    case False
    then have k: "k = unat r" and "0 < unat v mod 2 ^ unat r" using that unfolding o by (simp_all split: if_splits)
    then show ?thesis using q unfolding k by linarith
  qed
qed

lemma block_order_le: "unat (mlx4_get_block_order v) \<le> k \<longleftrightarrow> unat v \<le> 2 ^ k"
proof (cases "v = 0")
  case True
  then show ?thesis by (simp add: mlx4_get_block_order_def order_step_def)
next
  case False
  note b = block_order_bounds [OF False]
  show ?thesis
  proof
    assume "unat (mlx4_get_block_order v) \<le> k"
    then have "(2 :: nat) ^ unat (mlx4_get_block_order v) \<le> 2 ^ k" by (rule power_increasing) simp
    then show "unat v \<le> 2 ^ k" using b(1) by linarith
  next
    assume "unat v \<le> 2 ^ k"
    then show "unat (mlx4_get_block_order v) \<le> k" using b(2) [of k] by (meson not_le)
  qed
qed

lemma block_order_fits: "(\<forall>i<j. 2 ^ i < unat v) \<longleftrightarrow> j \<le> unat (mlx4_get_block_order v)"
proof -
  have "(\<forall>i<j. \<not> unat (mlx4_get_block_order v) \<le> i) \<longleftrightarrow> j \<le> unat (mlx4_get_block_order v)" by (meson not_le order_refl less_le_trans)
  then show ?thesis unfolding block_order_le by (simp add: not_le)
qed

text \<open>
  C26: The order is the logarithm rounded up, the least \<open>k\<close> such that a block of \<open>2 ^ k\<close> bytes holds \<open>v\<close> bytes.
\<close>

theorem block_order_least: "unat (mlx4_get_block_order v) = (LEAST k. unat v \<le> 2 ^ k)"
  by (rule Least_equality [symmetric]) (simp_all only: block_order_le [symmetric] order_refl)

section \<open>Settings\<close>

datatype alloc_type = MLX4_ALLOC_TYPE_ANON | MLX4_ALLOC_TYPE_HUGE | MLX4_ALLOC_TYPE_CONTIG | MLX4_ALLOC_TYPE_PREFER_HUGE
  | MLX4_ALLOC_TYPE_PREFER_CONTIG | MLX4_ALLOC_TYPE_ALL

definition lower :: "char \<Rightarrow> char" where
  "lower c = (let k = (of_char c :: nat) in if 65 \<le> k \<and> k \<le> 90 then char_of (k + 32) else c)"

definition strcasecmp_eq :: "string \<Rightarrow> string \<Rightarrow> bool" where
  "strcasecmp_eq a b \<longleftrightarrow> map lower a = map lower b"

text \<open>The arguments are the values of environment variables, if they are set.\<close>

definition mlx4_get_alloc_type :: "string option \<Rightarrow> alloc_type \<Rightarrow> alloc_type" where
  "mlx4_get_alloc_type env_value dflt = (case env_value of None \<Rightarrow> dflt
     | Some s \<Rightarrow> if strcasecmp_eq s ''ANON'' then MLX4_ALLOC_TYPE_ANON else if strcasecmp_eq s ''HUGE'' then MLX4_ALLOC_TYPE_HUGE
         else if strcasecmp_eq s ''CONTIG'' then MLX4_ALLOC_TYPE_CONTIG else if strcasecmp_eq s ''PREFER_CONTIG'' then MLX4_ALLOC_TYPE_PREFER_CONTIG
         else if strcasecmp_eq s ''PREFER_HUGE'' then MLX4_ALLOC_TYPE_PREFER_HUGE else if strcasecmp_eq s ''ALL'' then MLX4_ALLOC_TYPE_ALL else dflt)"

definition MLX4_MAX_LOG2_CONTIG_BLOCK_SIZE :: int where
  "MLX4_MAX_LOG2_CONTIG_BLOCK_SIZE = 23"

definition MLX4_MIN_LOG2_CONTIG_BLOCK_SIZE :: int where
  "MLX4_MIN_LOG2_CONTIG_BLOCK_SIZE = 12"

definition mlx4_alloc_get_env_info :: "string option \<Rightarrow> string option \<Rightarrow> int \<times> int" where
  "mlx4_alloc_get_env_info env_max env_min =
     (let read = (\<lambda>env top dflt. case env of None \<Rightarrow> dflt
          | Some s \<Rightarrow> let value = to_int32 (strtol10 s) in if value \<le> top \<and> MLX4_MIN_LOG2_CONTIG_BLOCK_SIZE \<le> value then value else dflt);
        mx = read env_max MLX4_MAX_LOG2_CONTIG_BLOCK_SIZE MLX4_MAX_LOG2_CONTIG_BLOCK_SIZE in
      (mx, read env_min mx MLX4_MIN_LOG2_CONTIG_BLOCK_SIZE))"

lemma env_info_bounds:
  "case mlx4_alloc_get_env_info env_max env_min of (mx, mn) \<Rightarrow> 12 \<le> mn \<and> mn \<le> mx \<and> mx \<le> 23"
  by (auto simp: mlx4_alloc_get_env_info_def MLX4_MAX_LOG2_CONTIG_BLOCK_SIZE_def MLX4_MIN_LOG2_CONTIG_BLOCK_SIZE_def Let_def split: option.split)

section \<open>Allocation\<close>

text \<open>The memory of the process, as far as the driver holds it: huge segments, and the mappings made by \<open>mmap\<close> with their lengths.\<close>

record mem =
  me_segs :: "mlx4_hugetlb_mem list"
  me_maps :: "(u64 \<times> u64) list"

text \<open>
  What the system answers during one allocation: the segment it attaches, the results of \<open>ibv_dontfork_range\<close>, and those of \<open>mmap\<close>, for contiguous
  pages given address, size, whether the address is fixed, and offset.
\<close>

record kernel =
  kn_env :: "string option \<times> string option"
  kn_seg :: "u64 option"
  kn_huge_fork :: int
  kn_contig :: "mem \<Rightarrow> u64 \<times> u64 \<times> bool \<times> int \<Rightarrow> int + u64"
  kn_contig_fork :: int
  kn_mmap :: "mem \<Rightarrow> u64 \<Rightarrow> int + u64"
  kn_fork :: int

definition unmap :: "u64 \<Rightarrow> u64 \<Rightarrow> mem \<Rightarrow> mem" where
  "unmap a l m = m\<lparr>me_maps := remove1 (a, l) (me_maps m)\<rparr>"

definition mlx4_alloc_buf :: "kernel \<Rightarrow> mlx4_buf \<Rightarrow> u64 \<Rightarrow> u64 \<Rightarrow> mem \<Rightarrow> int \<times> mlx4_buf \<times> mem" where
  "mlx4_alloc_buf kn buf n page m = (let buf = buf\<lparr>bf_length := align_long n page\<rparr> in
     case kn_mmap kn m (bf_length buf) of Inl e \<Rightarrow> (e, buf\<lparr>bf_buf := - 1\<rparr>, m)
     | Inr a \<Rightarrow> let buf = buf\<lparr>bf_buf := a\<rparr>; m = m\<lparr>me_maps := (a, bf_length buf) # me_maps m\<rparr> in
         if kn_fork kn \<noteq> 0 then (kn_fork kn, buf, unmap a (bf_length buf) m) else (0, buf, m))"

definition mlx4_free_buf :: "mlx4_buf \<Rightarrow> mem \<Rightarrow> mem" where
  "mlx4_free_buf buf m = (if bf_length buf \<noteq> 0 then unmap (bf_buf buf) (bf_length buf) m else m)"

definition mlx4_finalize_contiguous_alloc :: "kernel \<Rightarrow> mlx4_buf \<Rightarrow> u64 \<Rightarrow> u64 \<Rightarrow> mem \<Rightarrow> int \<times> mlx4_buf \<times> mem" where
  "mlx4_finalize_contiguous_alloc kn buf addr len m =
     (if kn_contig_fork kn \<noteq> 0 then (1, buf, unmap addr len m) else (0, buf\<lparr>bf_buf := addr, bf_length := len\<rparr>, m))"

text \<open>Blocks of half the size after each failure, except for an error that says the system does not have the command.\<close>

function contig_loop :: "(int \<Rightarrow> int + u64) \<Rightarrow> int \<Rightarrow> int \<Rightarrow> u64 option" where
  "contig_loop mm block_size_exp mn = (case mm block_size_exp of Inr addr \<Rightarrow> Some addr
     | Inl err \<Rightarrow> if err = EINVAL then None else if mn \<le> block_size_exp - 1 then contig_loop mm (block_size_exp - 1) mn else None)"
  by auto
termination by (relation "measure (\<lambda>(mm, e, mn). nat (e - mn + 1))") auto

declare contig_loop.simps [simp del]

definition mlx4_alloc_buf_contig :: "kernel \<Rightarrow> mlx4_buf \<Rightarrow> u64 \<Rightarrow> u64 \<Rightarrow> u64 \<Rightarrow> mem \<Rightarrow> int \<times> mlx4_buf \<times> mem" where
  "mlx4_alloc_buf_contig kn buf n page req_addr m =
     (let (mx, mn) = mlx4_alloc_get_env_info (fst (kn_env kn)) (snd (kn_env kn));
        block_size_exp = (if push_bit (nat mx) 1 \<le> n then mx else uint (mlx4_get_block_order (ucast n)));
        act_addr = (if req_addr = 0 then 0 else req_addr AND NOT (page - 1));
        act_size = (if req_addr = 0 then n else n + (req_addr - act_addr)) in
      case contig_loop (\<lambda>e. kn_contig kn m (act_addr, act_size, req_addr \<noteq> 0, uint page * (2 + e * 2 ^ 8))) block_size_exp mn of
        None \<Rightarrow> (1, buf, m)
      | Some addr \<Rightarrow> let m = m\<lparr>me_maps := (addr, act_size) # me_maps m\<rparr> in
          if addr = 0 then (1, buf, m) else mlx4_finalize_contiguous_alloc kn buf addr act_size m)"

definition uses_huge :: "alloc_type \<Rightarrow> bool" where
  "uses_huge ty \<longleftrightarrow> ty \<in> {MLX4_ALLOC_TYPE_HUGE, MLX4_ALLOC_TYPE_PREFER_HUGE, MLX4_ALLOC_TYPE_ALL}"

definition uses_contig :: "alloc_type \<Rightarrow> bool" where
  "uses_contig ty \<longleftrightarrow> ty \<in> {MLX4_ALLOC_TYPE_CONTIG, MLX4_ALLOC_TYPE_PREFER_CONTIG, MLX4_ALLOC_TYPE_ALL}"

definition alloc_pages :: "kernel \<Rightarrow> alloc_type \<Rightarrow> mlx4_buf \<Rightarrow> u64 \<Rightarrow> u64 \<Rightarrow> mem \<Rightarrow> int \<times> mlx4_buf \<times> mem" where
  "alloc_pages kn ty buf n page m =
     (if uses_contig ty then (case mlx4_alloc_buf_contig kn buf n page 0 m of (r, buf, m) \<Rightarrow>
        if r = 0 then (0, buf, m) else if ty = MLX4_ALLOC_TYPE_CONTIG then (- 1, buf, m) else mlx4_alloc_buf kn buf n page m)
      else mlx4_alloc_buf kn buf n page m)"

definition mlx4_alloc_prefered_buf :: "kernel \<Rightarrow> alloc_type \<Rightarrow> mlx4_buf \<Rightarrow> u64 \<Rightarrow> u64 \<Rightarrow> mem \<Rightarrow> (int \<times> mlx4_buf \<times> mem) res" where
  "mlx4_alloc_prefered_buf kn ty buf n page m = (let buf = buf\<lparr>bf_hmem := None\<rparr> in
     if uses_huge ty then res_bind (mlx4_alloc_buf_huge buf n (kn_seg kn) (kn_huge_fork kn) (me_segs m)) (\<lambda>(r, buf, segs).
       let m = m\<lparr>me_segs := segs\<rparr> in
       if r = 0 then Inr (0, buf, m) else if ty = MLX4_ALLOC_TYPE_HUGE then Inr (- 1, buf, m) else Inr (alloc_pages kn ty buf n page m))
     else Inr (alloc_pages kn ty buf n page m))"

text \<open>How a buffer is freed, by the end of \<open>mlx4_dealloc_qp_buf\<close> and likewise for completion queues.\<close>

definition release_buf :: "mlx4_buf \<Rightarrow> mem \<Rightarrow> mem res" where
  "release_buf buf m = (if bf_hmem buf \<noteq> None then res_bind (mlx4_free_buf_huge buf (me_segs m)) (\<lambda>segs. Inr (m\<lparr>me_segs := segs\<rparr>))
     else Inr (mlx4_free_buf buf m))"

text \<open>Contiguous pages are taken in the largest blocks the system grants.\<close>

lemma contig_loop_stops:
  "\<exists>k\<le>e. (k = e \<or> mn \<le> k) \<and> (\<forall>j. k < j \<and> j \<le> e \<longrightarrow> (\<exists>err. mm j = Inl err \<and> err \<noteq> EINVAL)) \<and>
     (case mm k of Inr a \<Rightarrow> contig_loop mm e mn = Some a | Inl err \<Rightarrow> contig_loop mm e mn = None \<and> (err = EINVAL \<or> k \<le> mn))"
proof (induction mm e mn rule: contig_loop.induct)
  case (1 mm e mn)
  note def = contig_loop.simps [of mm e mn]
  show ?case
  proof (cases "\<exists>err. mm e = Inl err \<and> err \<noteq> EINVAL \<and> mn \<le> e - 1")
    case True
    then obtain err where err: "mm e = Inl err" "err \<noteq> EINVAL" "mn \<le> e - 1" by blast
    obtain k where k: "k \<le> e - 1" "k = e - 1 \<or> mn \<le> k" "\<forall>j. k < j \<and> j \<le> e - 1 \<longrightarrow> (\<exists>err. mm j = Inl err \<and> err \<noteq> EINVAL)"
        "case mm k of Inr a \<Rightarrow> contig_loop mm (e - 1) mn = Some a | Inl err \<Rightarrow> contig_loop mm (e - 1) mn = None \<and> (err = EINVAL \<or> k \<le> mn)"
      using 1 [OF err(1) err(2,3)] by blast
    have "j = e \<or> j \<le> e - 1" if "j \<le> e" for j using that by linarith
    then have "\<forall>j. k < j \<and> j \<le> e \<longrightarrow> (\<exists>err. mm j = Inl err \<and> err \<noteq> EINVAL)" using k(3) err by blast
    moreover have eq: "contig_loop mm e mn = contig_loop mm (e - 1) mn" using err by (simp add: def)
    ultimately show ?thesis using k(1,2) k(4) [folded eq] err(3) by (intro exI [of _ k]) auto
  next
    case False
    then show ?thesis by (intro exI [of _ e]) (auto simp: def split: sum.split)
  qed
qed

lemma contig_loop_Some:
  assumes "contig_loop mm e mn = Some a"
  obtains k where "mm k = Inr a"
proof -
  obtain k where "case mm k of Inr a \<Rightarrow> contig_loop mm e mn = Some a | Inl err \<Rightarrow> contig_loop mm e mn = None \<and> (err = EINVAL \<or> k \<le> mn)"
    using contig_loop_stops [of e mn mm] by blast
  then show ?thesis using that [of k] assms by (cases "mm k") auto
qed

section \<open>What is held\<close>

definition area :: "mlx4_buf \<Rightarrow> nat \<times> nat" where
  "area x = (unat (bf_buf x), unat (bf_length x))"

definition map_area :: "u64 \<times> u64 \<Rightarrow> nat \<times> nat" where
  "map_area p = (unat (fst p), unat (snd p))"

definition apart :: "nat \<times> nat \<Rightarrow> nat \<times> nat \<Rightarrow> bool" where
  "apart p q \<longleftrightarrow> fst p + snd p \<le> fst q \<or> fst q + snd q \<le> fst p"

definition bf_key :: "mlx4_buf \<Rightarrow> u64 \<times> u64" where
  "bf_key x = (bf_buf x, bf_length x)"

definition held_huge :: "mlx4_buf set \<Rightarrow> mlx4_buf set" where
  "held_huge H = {x \<in> H. bf_hmem x \<noteq> None}"

definition held_maps :: "mlx4_buf set \<Rightarrow> mlx4_buf set" where
  "held_maps H = {x \<in> H. bf_hmem x = None}"

definition free_at :: "mem \<Rightarrow> u64 \<times> u64 \<Rightarrow> bool" where
  "free_at m p \<longleftrightarrow> (\<forall>q\<in>set (me_maps m). apart (map_area p) (map_area q)) \<and> (\<forall>s\<in>set (me_segs m). apart (map_area p) (seg_area s))"

definition maps_inv :: "mlx4_hugetlb_mem list \<Rightarrow> (u64 \<times> u64) list \<Rightarrow> mlx4_buf set \<Rightarrow> bool" where
  "maps_inv segs maps M \<longleftrightarrow> distinct maps \<and> set maps = bf_key ` M \<and> (\<forall>x\<in>M. 0 < bf_length x \<and> (\<forall>s\<in>set segs. apart (area x) (seg_area s))) \<and>
     (\<forall>x\<in>M. \<forall>y\<in>M. x \<noteq> y \<longrightarrow> apart (area x) (area y))"

definition mem_inv :: "mem \<Rightarrow> mlx4_buf set \<Rightarrow> bool" where
  "mem_inv m H \<longleftrightarrow> huge_inv (me_segs m) (held_huge H) \<and> maps_inv (me_segs m) (me_maps m) (held_maps H)"

lemma area_key: "area x = map_area (bf_key x)"
  by (simp add: area_def map_area_def bf_key_def)

lemma apart_sym: "apart p q = apart q p"
  by (auto simp: apart_def)

lemma held_insert:
  "bf_hmem x = None \<Longrightarrow> held_huge (insert x H) = held_huge H" "bf_hmem x = None \<Longrightarrow> held_maps (insert x H) = insert x (held_maps H)"
  "bf_hmem x \<noteq> None \<Longrightarrow> held_huge (insert x H) = insert x (held_huge H)" "bf_hmem x \<noteq> None \<Longrightarrow> held_maps (insert x H) = held_maps H"
  by (auto simp: held_huge_def held_maps_def)

lemma held_remove:
  "bf_hmem x = None \<Longrightarrow> held_huge (H - {x}) = held_huge H" "bf_hmem x \<noteq> None \<Longrightarrow> held_maps (H - {x}) = held_maps H"
  "held_huge (H - {x}) = held_huge H - {x}" "held_maps (H - {x}) = held_maps H - {x}"
  by (auto simp: held_huge_def held_maps_def)

lemma map_new:
  assumes i: "mem_inv m H" and x: "bf_hmem x = None" "0 < bf_length x" and f: "free_at m (bf_key x)"
  shows "mem_inv (m\<lparr>me_maps := bf_key x # me_maps m\<rparr>) (insert x H)" "x \<notin> H"
proof -
  have maps: "set (me_maps m) = bf_key ` held_maps H" using i by (simp add: mem_inv_def maps_inv_def)
  have a: "apart (area x) (area y)" if "y \<in> held_maps H" for y using f that maps by (auto simp: free_at_def area_key)
  have "\<not> apart (area x) (area x)" using x(2) by (simp add: apart_def area_def word_less_nat_alt)
  then have n: "bf_key x \<notin> bf_key ` held_maps H" using a by (auto simp: area_key)
  then show "x \<notin> H" using x(1) by (auto simp: held_maps_def)
  show "mem_inv (m\<lparr>me_maps := bf_key x # me_maps m\<rparr>) (insert x H)"
    using i n f a x maps apart_sym unfolding mem_inv_def maps_inv_def held_insert(1,2) [OF x(1)]
    by (auto simp: free_at_def area_key)
qed

lemma maps_inv_segs:
  assumes "maps_inv segs maps M" "seg_area ` set segs' \<subseteq> seg_area ` set segs \<union> A" "\<And>x z. x \<in> M \<Longrightarrow> z \<in> A \<Longrightarrow> apart (area x) z"
  shows "maps_inv segs' maps M"
proof -
  have "apart (area x) (seg_area s)" if "x \<in> M" "s \<in> set segs'" for x s
  proof -
    have "seg_area s \<in> seg_area ` set segs \<union> A" using assms(2) that(2) by blast
    then show ?thesis
    proof
      assume "seg_area s \<in> A"
      then show ?thesis by (rule assms(3) [OF that(1)])
    qed (use assms(1) that(1) in \<open>auto simp: maps_inv_def\<close>)
  qed
  then show ?thesis using assms(1) by (simp add: maps_inv_def)
qed

lemma held_apart:
  assumes i: "mem_inv m H" and x: "x \<in> H" "y \<in> H" "x \<noteq> y"
  shows "\<not> huge_clash x y"
proof -
  have c: "huge_clash u v \<longleftrightarrow> \<not> apart (area u) (area v)" for u v by (auto simp: huge_clash_def apart_def area_def)
  have core: "core_inv (me_segs m) (held_huge H)" and maps: "maps_inv (me_segs m) (me_maps m) (held_maps H)"
    using i by (simp_all add: mem_inv_def huge_inv_def)
  have mixed: "apart (area u) (area v)" if u: "u \<in> held_maps H" and v: "v \<in> held_huge H" for u v
  proof -
    obtain s where s: "s \<in> set (me_segs m)" "bf_hmem v = Some (hm_addr s)" using core v unfolding core_inv_def by blast
    then have "buf_in_seg v s" using core v unfolding core_inv_def seg_holds_def on_seg_def by auto
    moreover have "apart (area u) (seg_area s)" using maps u s(1) by (simp add: maps_inv_def)
    ultimately show ?thesis by (auto simp: apart_def area_def seg_area_def seg_bytes_def buf_in_seg_def)
  qed
  consider "x \<in> held_huge H" "y \<in> held_huge H" | "x \<in> held_maps H" "y \<in> held_maps H" | "x \<in> held_maps H" "y \<in> held_huge H" | "x \<in> held_huge H" "y \<in> held_maps H"
    using x(1,2) by (auto simp: held_huge_def held_maps_def)
  then show ?thesis
  proof cases
    case 1
    then show ?thesis using buffers_apart [OF core] x(3) by blast
  next
    case 2
    then show ?thesis using maps x(3) by (simp add: c maps_inv_def)
  qed (use mixed apart_sym c in blast)+
qed

section \<open>The allocator of buffers\<close>

text \<open>A mapping that the system makes is where nothing else is.\<close>

definition kernel_ok :: "kernel \<Rightarrow> bool" where
  "kernel_ok kn \<longleftrightarrow> (\<forall>m l. case kn_mmap kn m l of Inl e \<Rightarrow> e \<noteq> 0 | Inr a \<Rightarrow> free_at m (a, l)) \<and>
     (\<forall>m a l fixed off. case kn_contig kn m (a, l, fixed, off) of Inl e \<Rightarrow> True | Inr a' \<Rightarrow> a' \<noteq> 0 \<and> free_at m (a', l))"

definition pages_outcome :: "mem \<Rightarrow> mlx4_buf set \<Rightarrow> u64 \<Rightarrow> int \<times> mlx4_buf \<times> mem \<Rightarrow> bool" where
  "pages_outcome m H n = (\<lambda>(r, x, m'). bf_hmem x = None \<and>
     (if r = 0 then mem_inv m' (insert x H) \<and> x \<notin> H \<and> unat n \<le> unat (bf_length x) else m' = m))"

lemma alloc_buf_ok:
  assumes i: "mem_inv m H" and k: "kernel_ok kn" and b: "bf_hmem buf = None" and n: "0 < n" "unat n \<le> 2 ^ 31" "page = 2 ^ p" "p \<le> 20"
  shows "pages_outcome m H n (mlx4_alloc_buf kn buf n page m)"
proof (cases "kn_mmap kn m (align_long n page)")
  case (Inl e)
  have "case kn_mmap kn m (align_long n page) of Inl e \<Rightarrow> e \<noteq> 0 | Inr a \<Rightarrow> free_at m (a, align_long n page)" using k by (simp add: kernel_ok_def)
  then show ?thesis using Inl b by (simp add: mlx4_alloc_buf_def pages_outcome_def Let_def)
next
  case (Inr a)
  have "case kn_mmap kn m (align_long n page) of Inl e \<Rightarrow> e \<noteq> 0 | Inr a \<Rightarrow> free_at m (a, align_long n page)" using k by (simp add: kernel_ok_def)
  then have f: "free_at m (a, align_long n page)" using Inr by simp
  have "(2 :: nat) ^ p \<le> 2 ^ 20" by (rule power_increasing) (use n(4) in simp_all)
  then have "unat (align_long n page) = (unat n + 2 ^ p - 1) div 2 ^ p * 2 ^ p" unfolding n(3) using n by (intro align_long_ok) simp_all
  moreover have "unat n \<le> (unat n + 2 ^ p - 1) div 2 ^ p * 2 ^ p"
    using dividend_less_times_div [of "2 ^ p" "unat n + 2 ^ p - 1"] by (simp add: mult.commute)
  ultimately have le: "unat n \<le> unat (align_long n page)" by simp
  moreover have "0 < unat n" using n(1) by (simp add: word_less_nat_alt)
  ultimately have pos: "0 < align_long n page" by (simp add: word_less_nat_alt)
  let ?x = "buf\<lparr>bf_length := align_long n page, bf_buf := a\<rparr>"
  have "mem_inv (m\<lparr>me_maps := bf_key ?x # me_maps m\<rparr>) (insert ?x H)" "?x \<notin> H"
    using map_new [OF i, of ?x] b f pos by (simp_all add: bf_key_def)
  then show ?thesis using Inr b le by (simp add: mlx4_alloc_buf_def pages_outcome_def unmap_def bf_key_def Let_def)
qed

lemma alloc_contig_ok:
  assumes i: "mem_inv m H" and k: "kernel_ok kn" and b: "bf_hmem buf = None" and n: "0 < n"
  shows "pages_outcome m H n (mlx4_alloc_buf_contig kn buf n page 0 m)"
proof -
  obtain mx mn where e: "mlx4_alloc_get_env_info (fst (kn_env kn)) (snd (kn_env kn)) = (mx, mn)" by fastforce
  let ?e = "if push_bit (nat mx) 1 \<le> n then mx else uint (mlx4_get_block_order (ucast n))"
  let ?mm = "\<lambda>e. kn_contig kn m (0, n, False, uint page * (2 + e * 2 ^ 8))"
  note def = mlx4_alloc_buf_contig_def e
  show ?thesis
  proof (cases "contig_loop ?mm ?e mn")
    case None
    then show ?thesis using b by (simp add: def pages_outcome_def Let_def)
  next
    case (Some a)
    obtain j where j: "?mm j = Inr a" using contig_loop_Some [OF Some] .
    have "case ?mm j of Inl e \<Rightarrow> True | Inr a' \<Rightarrow> a' \<noteq> 0 \<and> free_at m (a', n)" using k by (simp add: kernel_ok_def)
    then have f: "a \<noteq> 0" "free_at m (a, n)" using j by simp_all
    let ?x = "buf\<lparr>bf_buf := a, bf_length := n\<rparr>"
    have "mem_inv (m\<lparr>me_maps := bf_key ?x # me_maps m\<rparr>) (insert ?x H)" "?x \<notin> H"
      using map_new [OF i, of ?x] b f(2) n by (simp_all add: bf_key_def)
    then show ?thesis using Some b f(1)
      by (simp add: def pages_outcome_def mlx4_finalize_contiguous_alloc_def unmap_def bf_key_def Let_def)
  qed
qed

lemma alloc_pages_ok:
  assumes i: "mem_inv m H" and k: "kernel_ok kn" and b: "bf_hmem buf = None" and n: "0 < n" "unat n \<le> 2 ^ 31" "page = 2 ^ p" "p \<le> 20"
  shows "pages_outcome m H n (alloc_pages kn ty buf n page m)"
proof -
  obtain r x m1 where c: "mlx4_alloc_buf_contig kn buf n page 0 m = (r, x, m1)" by (cases "mlx4_alloc_buf_contig kn buf n page 0 m") auto
  have o: "pages_outcome m H n (r, x, m1)" using alloc_contig_ok [OF i k b n(1), of page] c by simp
  then have "r \<noteq> 0 \<Longrightarrow> pages_outcome m H n (mlx4_alloc_buf kn x n page m1)"
    using alloc_buf_ok [OF i k _ n, of x] by (auto simp: pages_outcome_def)
  then show ?thesis using o c alloc_buf_ok [OF i k b n] by (auto simp: alloc_pages_def pages_outcome_def)
qed

text \<open>A request: what the system will answer, the type, the record, the size, the size of a page.\<close>

type_synonym buf_req = "kernel \<times> alloc_type \<times> mlx4_buf \<times> u64 \<times> u64"

fun good_alloc :: "buf_req \<Rightarrow> mem \<Rightarrow> bool" where
  "good_alloc (kn, ty, buf, n, page) m \<longleftrightarrow> kernel_ok kn \<and> (\<exists>p\<le>20. page = 2 ^ p) \<and> good_request (buf, n, kn_seg kn, kn_huge_fork kn) (me_segs m) \<and>
     (case kn_seg kn of None \<Rightarrow> True | Some addr \<Rightarrow> \<forall>q\<in>set (me_maps m). apart (map_area q) (unat addr, 32768 * seg_chunks n))"

fun alloc_request :: "buf_req \<Rightarrow> mem \<Rightarrow> (mlx4_buf option \<times> mem) res" where
  "alloc_request (kn, ty, buf, n, page) m = res_bind (mlx4_alloc_prefered_buf kn ty buf n page m) (\<lambda>(r, buf, m). Inr (if r = 0 then Some buf else None, m))"

lemma finish_hmem: "res_all (\<lambda>(r, x, segs). r \<noteq> 0 \<longrightarrow> bf_hmem x = None) (finish_huge buf h ret segs)"
  unfolding finish_huge_def Let_def by (intro res_all_if res_all_any) simp_all

lemma alloc_huge_hmem:
  "bf_hmem buf = None \<Longrightarrow> res_all (\<lambda>(r, x, segs). r \<noteq> 0 \<longrightarrow> bf_hmem x = None) (mlx4_alloc_buf_huge buf n new ret segs)"
  unfolding mlx4_alloc_buf_huge_def Let_def
  by (intro res_all_any) (auto intro!: res_all_any res_all_if finish_hmem split: prod.split option.split)

lemma new_area:
  assumes g: "good_request (buf, n, new, ret) segs" and a: "\<And>addr. new = Some addr \<Longrightarrow> apart z (unat addr, 32768 * seg_chunks n)"
    and s: "s \<in> set_option (mxl4_hugetlb_mem_alloc (align_long n MLX4_Q_CHUNK_SIZE) new)"
  shows "apart z (seg_area s)"
proof (cases new)
  case (Some addr)
  then obtain m where m: "m \<in> {6..16}" "seg_chunks n = 2 ^ m" and n: "0 < n" "unat n \<le> 2 ^ 31" using g by auto
  have "s = \<lparr>hm_addr = addr, hm_map = mlx4_bitmap_init (2 ^ m) (2 ^ m - 1)\<rparr>" using s new_segment(1) [OF n m(2)] Some by simp
  moreover have "bitmap_ok m (mlx4_bitmap_init (2 ^ m) (2 ^ m - 1))" using init_ok(1) [of m] m(1) by simp
  ultimately have "seg_area s = (unat addr, 32768 * seg_chunks n)" using m(2) by (simp add: seg_area_def seg_bytes_def bitmap_ok_def)
  then show ?thesis using a Some by simp
qed (use s in \<open>simp add: mxl4_hugetlb_mem_alloc_def\<close>)

lemma alloc_prefered_ok:
  assumes i: "mem_inv m H" and g: "good_alloc (kn, ty, buf, n, page) m"
  shows "\<exists>r x m'. mlx4_alloc_prefered_buf kn ty buf n page m = Inr (r, x, m') \<and>
    (if r = 0 then mem_inv m' (insert x H) \<and> x \<notin> H \<and> unat n \<le> unat (bf_length x) else mem_inv m' H)"
proof -
  obtain p where p: "page = 2 ^ p" "p \<le> 20" using g by auto
  have k: "kernel_ok kn" and r: "good_request (buf\<lparr>bf_hmem := None\<rparr>, n, kn_seg kn, kn_huge_fork kn) (me_segs m)" using g by simp_all
  have a: "apart (map_area q) (unat addr, 32768 * seg_chunks n)" if "kn_seg kn = Some addr" "q \<in> set (me_maps m)" for addr q
    using g that by simp
  have n: "0 < n" "unat n \<le> 2 ^ 31" using r by simp_all
  have pages: "\<exists>r x m'. alloc_pages kn ty b n page m1 = (r, x, m') \<and>
      (if r = 0 then mem_inv m' (insert x H) \<and> x \<notin> H \<and> unat n \<le> unat (bf_length x) else mem_inv m' H)"
    if "mem_inv m1 H" "bf_hmem b = None" for m1 b
    using alloc_pages_ok [OF that(1) k that(2) n p, of ty] that(1)
    by (cases "alloc_pages kn ty b n page m1") (auto simp: pages_outcome_def split: if_splits)
  note def = mlx4_alloc_prefered_buf_def Let_def
  show ?thesis
  proof (cases "uses_huge ty")
    case False
    then show ?thesis using pages [OF i, of "buf\<lparr>bf_hmem := None\<rparr>"] by (simp add: def)
  next
    case True
    have h: "huge_inv (me_segs m) (held_huge H)" and mi: "maps_inv (me_segs m) (me_maps m) (held_maps H)" using i by (simp_all add: mem_inv_def)
    let ?run = "mlx4_alloc_buf_huge (buf\<lparr>bf_hmem := None\<rparr>) n (kn_seg kn) (kn_huge_fork kn) (me_segs m)"
    obtain q x segs where x: "?run = Inr (q, x, segs)" "huge_outcome (held_huge H) n (q, x, segs)" using alloc_huge_ok [OF h r] by auto
    have areas: "maps_inv segs (me_maps m) (held_maps H)"
    proof (rule maps_inv_segs [OF mi alloc_huge_areas [OF x(1)]])
      fix y z assume y: "y \<in> held_maps H" and z: "z \<in> seg_area ` set_option (mxl4_hugetlb_mem_alloc (align_long n MLX4_Q_CHUNK_SIZE) (kn_seg kn))"
      have "bf_key y \<in> set (me_maps m)" using mi y by (simp add: maps_inv_def)
      then have "apart (area y) (unat addr, 32768 * seg_chunks n)" if "kn_seg kn = Some addr" for addr using a [OF that, of "bf_key y"] by (simp add: area_key)
      then show "apart (area y) z" using new_area [OF r, of "area y"] z by blast
    qed
    show ?thesis
    proof (cases "q = 0")
      case True
      then have o: "huge_inv segs (insert x (held_huge H))" "x \<notin> held_huge H" "unat n \<le> unat (bf_length x)" using x(2) by (simp_all add: huge_outcome_def)
      have "bf_hmem x \<noteq> None" using o(1) by (auto simp: huge_inv_def core_inv_def)
      then have "mem_inv (m\<lparr>me_segs := segs\<rparr>) (insert x H)" "x \<notin> H"
        using o areas unfolding mem_inv_def by (simp_all add: held_insert) (simp add: held_huge_def)
      then show ?thesis using True \<open>uses_huge ty\<close> x(1) o(3) by (simp add: def)
    next
      case False
      then have m1: "mem_inv (m\<lparr>me_segs := segs\<rparr>) H" using x(2) areas by (simp add: huge_outcome_def mem_inv_def)
      have "bf_hmem x = None" using alloc_huge_hmem [of "buf\<lparr>bf_hmem := None\<rparr>" n "kn_seg kn" "kn_huge_fork kn" "me_segs m"] x(1) False by simp
      then show ?thesis using False \<open>uses_huge ty\<close> x(1) m1 pages [OF m1, of x] by (auto simp: def)
    qed
  qed
qed

lemma release_ok:
  assumes i: "mem_inv m H" and x: "x \<in> H"
  shows "\<exists>m'. release_buf x m = Inr m' \<and> mem_inv m' (H - {x})"
proof (cases "bf_hmem x")
  case None
  have xm: "x \<in> held_maps H" using x None by (simp add: held_maps_def)
  have mi: "maps_inv (me_segs m) (me_maps m) (held_maps H)" using i by (simp add: mem_inv_def)
  then have "bf_length x \<noteq> 0" using xm by (auto simp: maps_inv_def)
  then have run: "release_buf x m = Inr (unmap (bf_buf x) (bf_length x) m)" using None by (simp add: release_buf_def mlx4_free_buf_def)
  have ne: "bf_key y \<noteq> bf_key x" if "y \<in> held_maps H - {x}" for y
  proof
    assume "bf_key y = bf_key x"
    then have "area y = area x" by (simp add: area_key)
    moreover have "apart (area y) (area x)" "0 < bf_length x" using mi xm that by (auto simp: maps_inv_def)
    ultimately show False by (simp add: apart_def area_def word_less_nat_alt)
  qed
  have "bf_key ` held_maps H = insert (bf_key x) (bf_key ` (held_maps H - {x}))" using xm by (metis image_insert insert_Diff)
  moreover have "bf_key x \<notin> bf_key ` (held_maps H - {x})" using ne by (metis imageE)
  ultimately have "set (remove1 (bf_key x) (me_maps m)) = bf_key ` (held_maps H - {x})" using mi by (simp add: maps_inv_def)
  then have "maps_inv (me_segs m) (remove1 (bf_key x) (me_maps m)) (held_maps H - {x})" using mi by (simp add: maps_inv_def)
  then show ?thesis using run i None unfolding mem_inv_def held_remove(4) by (simp add: unmap_def bf_key_def held_remove(1) [OF None])
next
  case (Some h)
  have xh: "x \<in> held_huge H" using x Some by (simp add: held_huge_def)
  then obtain segs where f: "mlx4_free_buf_huge x (me_segs m) = Inr segs" "huge_inv segs (held_huge H - {x})"
    using free_huge_ok i unfolding mem_inv_def by blast
  have "maps_inv segs (me_maps m) (held_maps H)"
    using maps_inv_segs [of "me_segs m" "me_maps m" "held_maps H" segs "{}"] free_huge_areas [OF f(1)] i by (simp add: mem_inv_def)
  then show ?thesis using f Some unfolding mem_inv_def held_remove(3) by (simp add: release_buf_def held_remove(2))
qed

interpretation buffers: allocator mem_inv good_alloc "\<lambda>a x. unat (fst (snd (snd (snd a)))) \<le> unat (bf_length x)" huge_clash alloc_request release_buf
proof (unfold_locales, goal_cases)
  case (1 m H a)
  obtain kn ty buf n page where a: "a = (kn, ty, buf, n, page)" by (cases a)
  obtain r x m' where r: "mlx4_alloc_prefered_buf kn ty buf n page m = Inr (r, x, m')"
      "if r = 0 then mem_inv m' (insert x H) \<and> x \<notin> H \<and> unat n \<le> unat (bf_length x) else mem_inv m' H"
    using alloc_prefered_ok 1 a by blast
  have "\<not> huge_clash x y \<and> \<not> huge_clash y x" if "r = 0" "y \<in> H" for y using held_apart [of m' "insert x H"] r(2) that by auto
  then show ?case using r by (intro exI [of _ "if r = 0 then Some x else None"] exI [of _ m']) (auto simp: a)
next
  case (2 m H x)
  then show ?case by (rule release_ok)
qed

text \<open>
  C25: Buffers never overlap, whatever memory they are on: for every sequence of allocations of any type and of frees, with whatever failures and fallbacks, no two buffers
  that are held share a byte, nothing faults, the mappings of the process are exactly those of the buffers on pages, and when the last buffer has been freed no segment and no
  mapping is left. Assumed are segments with a power of two of chunks, and a system that maps memory only where nothing is.
\<close>

theorem buffers_disjoint:
  assumes "good_ops good_alloc alloc_request release_buf ops \<lparr>me_segs = [], me_maps = []\<rparr> []"
  shows "\<exists>m bufs. alloc_run alloc_request release_buf ops \<lparr>me_segs = [], me_maps = []\<rparr> [] = Inr (m, bufs) \<and> separate huge_clash bufs \<and>
    set (me_maps m) = {(bf_buf x, bf_length x) | x. x \<in> set bufs \<and> bf_hmem x = None} \<and> (bufs = [] \<longrightarrow> me_segs m = [] \<and> me_maps m = [])"
proof -
  have "mem_inv \<lparr>me_segs = [], me_maps = []\<rparr> (set [])"
    by (simp add: mem_inv_def huge_inv_def core_inv_def maps_inv_def held_huge_def held_maps_def)
  then obtain m bufs where r: "alloc_run alloc_request release_buf ops \<lparr>me_segs = [], me_maps = []\<rparr> [] = Inr (m, bufs)"
      "mem_inv m (set bufs)" "separate huge_clash bufs"
    using buffers.run_ok [of "\<lparr>me_segs = [], me_maps = []\<rparr>" "[]" ops] assms by (auto simp: separate_def)
  have "set (me_maps m) = {(bf_buf x, bf_length x) | x. x \<in> set bufs \<and> bf_hmem x = None}"
    using r(2) by (auto simp: mem_inv_def maps_inv_def held_maps_def bf_key_def)
  moreover have "me_segs m = []" if "bufs = []"
  proof (rule ccontr)
    assume "me_segs m \<noteq> []"
    then obtain s where "s \<in> set (me_segs m)" by (cases "me_segs m") auto
    then show False using r(2) that by (auto simp: mem_inv_def huge_inv_def core_inv_def seg_holds_def on_seg_def held_huge_def)
  qed
  ultimately show ?thesis using r by (intro exI [of _ m] exI [of _ bufs]) auto
qed

definition ex_kernel :: "u64 option \<Rightarrow> int \<Rightarrow> kernel" where
  "ex_kernel seg fork = \<lparr>kn_env = (Some ''20'', None), kn_seg = seg, kn_huge_fork = fork,
     kn_contig = (\<lambda>m (a, l, fixed, off). if free_at m (0x20000000, l) then Inr 0x20000000 else Inl 12), kn_contig_fork = 0,
     kn_mmap = (\<lambda>m l. if free_at m (0x10000000, l) then Inr 0x10000000 else Inl 12), kn_fork = 0\<rparr>"

definition ex_buf_ops :: "(buf_req, mlx4_buf) alloc_op list" where
  "ex_buf_ops = [Alloc_op (ex_kernel (Some 0x200000) 0, MLX4_ALLOC_TYPE_HUGE, blank_buf, 3000000, 2 ^ 12),
     Alloc_op (ex_kernel None 12, MLX4_ALLOC_TYPE_ALL, blank_buf, 8192, 2 ^ 12), Alloc_op (ex_kernel None 0, MLX4_ALLOC_TYPE_PREFER_CONTIG, blank_buf, 5, 2 ^ 12)]"

lemma buffers_disjoint_witness:
  "\<exists>m bufs. alloc_run alloc_request release_buf ex_buf_ops \<lparr>me_segs = [], me_maps = []\<rparr> [] = Inr (m, bufs) \<and> separate huge_clash bufs \<and>
    set (me_maps m) = {(bf_buf x, bf_length x) | x. x \<in> set bufs \<and> bf_hmem x = None} \<and> (bufs = [] \<longrightarrow> me_segs m = [] \<and> me_maps m = [])"
proof (rule buffers_disjoint)
  have k: "kernel_ok (ex_kernel seg fork)" for seg fork by (simp add: kernel_ok_def ex_kernel_def)
  have p: "\<exists>p\<le>20. (2 ^ 12 :: u64) = 2 ^ p" by (intro exI [of _ 12]) simp
  have "seg_chunks 3000000 = 2 ^ 7" by (simp add: seg_chunks_def chunk_count_def)
  then have "good_request (blank_buf, 3000000, Some 0x200000, 0) []" by (auto intro!: bexI [of _ 7])
  then have "good_alloc (ex_kernel (Some 0x200000) 0, ty, blank_buf, 3000000, 2 ^ 12) \<lparr>me_segs = [], me_maps = []\<rparr>" for ty
    using k p by (simp add: ex_kernel_def)
  moreover have "good_alloc (ex_kernel None f, ty, blank_buf, 8192, 2 ^ 12) m" "good_alloc (ex_kernel None f, ty, blank_buf, 5, 2 ^ 12) m" for f ty m
    using k p by (simp_all add: ex_kernel_def)
  ultimately show "good_ops good_alloc alloc_request release_buf ex_buf_ops \<lparr>me_segs = [], me_maps = []\<rparr> []"
    unfolding ex_buf_ops_def good_ops.simps by (simp only: simp_thms split: sum.split prod.split option.split)
qed

text \<open>The first block tried is of the configured maximum, or just holds the request.\<close>

lemma first_block:
  fixes n :: u64 and mx :: int
  assumes "unat n < 2 ^ 32" "0 \<le> mx" "mx \<le> 23"
  shows "(if push_bit (nat mx) 1 \<le> n then mx else uint (mlx4_get_block_order (ucast n))) = min mx (int (unat (mlx4_get_block_order (ucast n))))"
proof -
  let ?o = "unat (mlx4_get_block_order (ucast n))"
  have "unat (ucast n :: u32) = unat n" using assms(1) by (simp add: unsigned_ucast_eq take_bit_nat_eq_self)
  note order = block_order_le [of "ucast n", unfolded this]
  have "(2 :: nat) ^ nat mx < 2 ^ 64" by (rule power_strict_increasing) (use assms(2,3) in simp_all)
  then have p: "unat (push_bit (nat mx) 1 :: u64) = 2 ^ nat mx" using unat_of_nat_small [of "2 ^ nat mx", where 'a = 64] by simp
  show ?thesis
  proof (cases "push_bit (nat mx) 1 \<le> n")
    case True
    then have "2 ^ nat mx \<le> unat n" using p by (simp only: word_le_nat_alt)
    then have "2 ^ nat mx \<le> (2 :: nat) ^ i" if "unat n \<le> 2 ^ i" for i using that by (rule le_trans)
    then have "?o \<le> i \<Longrightarrow> nat mx \<le> i" for i unfolding order using power_le_imp_le_exp [of "2 :: nat" "nat mx" i] by simp
    then have "nat mx \<le> ?o" by simp
    then have "mx \<le> int ?o" by linarith
    then show ?thesis using True by simp
  next
    case False
    then have "unat n \<le> 2 ^ nat mx" using p by (simp only: word_le_nat_alt)
    then have "?o \<le> nat mx" unfolding order .
    then have "int ?o \<le> mx" using assms(2) by linarith
    then show ?thesis using False by simp
  qed
qed

text \<open>
  Contiguous pages come in blocks of a power of two of bytes. If the allocation succeeds, its block is the largest one that the system grants among the
  sizes tried: at most the configured maximum, less than twice the request, and not below the configured minimum unless it holds the whole request.
\<close>

theorem contiguous_blocks:
  assumes "mlx4_alloc_buf_contig kn buf n page 0 m = (0, x, m')" "mlx4_alloc_get_env_info (fst (kn_env kn)) (snd (kn_env kn)) = (mx, mn)" "unat n < 2 ^ 32"
  shows "\<exists>k. int k \<le> mx \<and> (mn \<le> int k \<or> unat n \<le> 2 ^ k) \<and> (\<forall>i<k. 2 ^ i < unat n) \<and>
    kn_contig kn m (0, n, False, uint page * (2 + int k * 2 ^ 8)) = Inr (bf_buf x) \<and>
    (\<forall>j>k. int j \<le> mx \<and> (\<forall>i<j. 2 ^ i < unat n) \<longrightarrow> (\<exists>err. kn_contig kn m (0, n, False, uint page * (2 + int j * 2 ^ 8)) = Inl err \<and> err \<noteq> EINVAL))"
proof -
  let ?o = "unat (mlx4_get_block_order (ucast n))" and ?mm = "\<lambda>e. kn_contig kn m (0, n, False, uint page * (2 + e * 2 ^ 8))"
  let ?e = "if push_bit (nat mx) 1 \<le> n then mx else uint (mlx4_get_block_order (ucast n))"
  have b: "12 \<le> mn" "mn \<le> mx" "mx \<le> 23" using env_info_bounds [of "fst (kn_env kn)" "snd (kn_env kn)"] assms(2) by simp_all
  have u: "unat (ucast n :: u32) = unat n" using assms(3) by (simp add: unsigned_ucast_eq take_bit_nat_eq_self)
  note order = block_order_le [of "ucast n", unfolded u] and fits = block_order_fits [of _ "ucast n", unfolded u]
  have e: "?e = min mx (int ?o)" using b assms(3) by (intro first_block) simp_all
  obtain a where a: "contig_loop ?mm ?e mn = Some a" "bf_buf x = a"
    using assms(1,2) by (auto simp: mlx4_alloc_buf_contig_def mlx4_finalize_contiguous_alloc_def Let_def split: option.splits if_split_asm)
  obtain k where k: "k \<le> ?e" "k = ?e \<or> mn \<le> k" "\<forall>j. k < j \<and> j \<le> ?e \<longrightarrow> (\<exists>err. ?mm j = Inl err \<and> err \<noteq> EINVAL)"
      "case ?mm k of Inr a \<Rightarrow> contig_loop ?mm ?e mn = Some a | Inl err \<Rightarrow> contig_loop ?mm ?e mn = None \<and> (err = EINVAL \<or> k \<le> mn)"
    using contig_loop_stops [of ?e mn ?mm] by blast
  have granted: "?mm k = Inr (bf_buf x)" using k(4) a by (cases "?mm k") simp_all
  have k0: "0 \<le> k" using k(2) b e by auto
  have le: "k \<le> min mx (int ?o)" using k(1) unfolding e .
  have "mn \<le> k \<or> unat n \<le> 2 ^ nat k"
  proof (cases "mn \<le> k")
    case False
    then have "k = min mx (int ?o)" using k(2) e by simp
    then have "?o \<le> nat k" using False b by linarith
    then show ?thesis unfolding order ..
  qed simp
  moreover have "\<exists>err. ?mm (int j) = Inl err \<and> err \<noteq> EINVAL" if "nat k < j" "int j \<le> mx" "j \<le> ?o" for j
  proof -
    have "int j \<le> int ?o" using that(3) by (simp only: of_nat_le_iff)
    then have "int j \<le> ?e" unfolding e using that(2) by (simp only: min.bounded_iff)
    moreover have "k < int j" using that(1) k0 by linarith
    ultimately show ?thesis using k(3) by blast
  qed
  moreover have "k \<le> int ?o" using le by (simp only: min.bounded_iff)
  then have "nat k \<le> ?o" by (simp only: nat_le_iff)
  ultimately show ?thesis using granted k0 le unfolding fits by (intro exI [of _ "nat k"]) auto
qed

text \<open>A system that has no contiguous block of more than 8 KB.\<close>

definition scarce_kernel :: kernel where
  "scarce_kernel = (ex_kernel None 0)\<lparr>kn_env := (None, None), kn_contig := (\<lambda>m (a, l, fixed, off). if off \<le> 4096 * (2 + 13 * 256) then Inr 0x20000000 else Inl 12)\<rparr>"

lemma contiguous_blocks_witness:
  "\<exists>k. int k \<le> 23 \<and> (12 \<le> int k \<or> unat (100000 :: u64) \<le> 2 ^ k) \<and> (\<forall>i<k. 2 ^ i < unat (100000 :: u64)) \<and>
    kn_contig scarce_kernel \<lparr>me_segs = [], me_maps = []\<rparr> (0, 100000, False, uint (4096 :: u64) * (2 + int k * 2 ^ 8)) =
      Inr (bf_buf (blank_buf\<lparr>bf_buf := 0x20000000, bf_length := 100000\<rparr>)) \<and>
    (\<forall>j>k. int j \<le> 23 \<and> (\<forall>i<j. 2 ^ i < unat (100000 :: u64)) \<longrightarrow>
      (\<exists>err. kn_contig scarce_kernel \<lparr>me_segs = [], me_maps = []\<rparr> (0, 100000, False, uint (4096 :: u64) * (2 + int j * 2 ^ 8)) = Inl err \<and> err \<noteq> EINVAL))"
proof (rule contiguous_blocks)
  have o: "mlx4_get_block_order 100000 = 17" by (simp add: mlx4_get_block_order_def order_step_def)
  show i: "mlx4_alloc_get_env_info (fst (kn_env scarce_kernel)) (snd (kn_env scarce_kernel)) = (23, 12)"
    by (simp add: scarce_kernel_def mlx4_alloc_get_env_info_def MLX4_MAX_LOG2_CONTIG_BLOCK_SIZE_def MLX4_MIN_LOG2_CONTIG_BLOCK_SIZE_def)
  have l: "contig_loop (\<lambda>e. kn_contig scarce_kernel \<lparr>me_segs = [], me_maps = []\<rparr> (0, 100000, False, 4096 * (2 + e * 256))) 17 12 = Some 0x20000000"
    by (simp add: contig_loop.simps scarce_kernel_def EINVAL_def)
  show "mlx4_alloc_buf_contig scarce_kernel blank_buf 100000 4096 0 \<lparr>me_segs = [], me_maps = []\<rparr> =
      (0, blank_buf\<lparr>bf_buf := 0x20000000, bf_length := 100000\<rparr>, \<lparr>me_segs = [], me_maps = [(0x20000000, 100000)]\<rparr>)"
    using l by (simp add: mlx4_alloc_buf_contig_def i o mlx4_finalize_contiguous_alloc_def Let_def) (simp add: scarce_kernel_def ex_kernel_def)
qed simp

end
