(* ===== verification/Cq_Resize.thy ===== *)
theory Cq_Resize
  imports Completion_Clean Buffers Db_Alloc
begin

text \<open>
  Resizing and destroying a completion queue (\<open>mlx4_resize_cq\<close>, \<open>mlx4_destroy_cq\<close> of \<open>verbs.c\<close>, \<open>mlx4_alloc_cq_buf\<close> of \<open>cq.c\<close>): the copy of the waiting
  entries (\<open>Completion\<close>) together with the buffers (\<open>Buffers\<close>).
\<close>

unbundle bit_operations_syntax

section \<open>Copying\<close>

text \<open>One copied entry: its body, and the owner bit of its new position.\<close>

lemma resized_cqe:
  assumes "length e = cq_cqe_size cq" "cq_cqe_size cq \<in> {32, 64}"
  shows "length (resized_entry cq i e) = length e"
    "body (take 32 (drop (cqe_off cq) (resized_entry cq i e))) = body (take 32 (drop (cqe_off cq) e))"
    "owner_bit (take 32 (drop (cqe_off cq) (resized_entry cq i e))) = pass_bit cq (i + 1)"
    "e ! (cqe_off cq + 31) = take 32 (drop (cqe_off cq) e) ! 31"
proof -
  let ?off = "cqe_off cq" and ?c = "take 32 (drop (cqe_off cq) e)"
  let ?x = "(e ! (cqe_off cq + 31) AND NOT MLX4_CQE_OWNER_MASK) OR (if pass_bit cq (i + 1) then MLX4_CQE_OWNER_MASK else 0)"
  have len: "?off + 32 \<le> length e" using assms by (auto simp: cqe_off_def)
  have r: "resized_entry cq i e = e[?off + 31 := ?x]" by (simp add: resized_entry_def pass_bit_def Let_def)
  have t: "take 32 (drop ?off (e[?off + 31 := y])) = ?c[31 := y]" for y
    by (simp add: drop_update_swap take_update_swap)
  show "length (resized_entry cq i e) = length e" by (simp add: r)
  show n: "e ! (?off + 31) = ?c ! 31" using len by simp
  have l: "length ?c = 32" using len by simp
  have m: "(w AND NOT MLX4_CQE_OWNER_MASK OR (if p then MLX4_CQE_OWNER_MASK else 0)) AND NOT MLX4_CQE_OWNER_MASK = w AND NOT MLX4_CQE_OWNER_MASK"
    "((w AND NOT MLX4_CQE_OWNER_MASK OR (if p then MLX4_CQE_OWNER_MASK else 0)) AND MLX4_CQE_OWNER_MASK \<noteq> 0) = p" for w p
  proof -
    show "(w AND NOT MLX4_CQE_OWNER_MASK OR (if p then MLX4_CQE_OWNER_MASK else 0)) AND NOT MLX4_CQE_OWNER_MASK = w AND NOT MLX4_CQE_OWNER_MASK"
      by (rule bit_word_eqI) (auto simp: bit_simps)
    have "(w AND NOT MLX4_CQE_OWNER_MASK OR (if p then MLX4_CQE_OWNER_MASK else 0)) AND MLX4_CQE_OWNER_MASK = (if p then MLX4_CQE_OWNER_MASK else 0)"
      by (rule bit_word_eqI) (auto simp: bit_simps)
    then show "((w AND NOT MLX4_CQE_OWNER_MASK OR (if p then MLX4_CQE_OWNER_MASK else 0)) AND MLX4_CQE_OWNER_MASK \<noteq> 0) = p"
      by (simp add: MLX4_CQE_OWNER_MASK_def)
  qed
  show "body (take 32 (drop ?off (resized_entry cq i e))) = body ?c"
  proof -
    have "?c[31 := ?x] ! 31 = ?x" using l by simp
    moreover have "?x AND NOT MLX4_CQE_OWNER_MASK = ?c ! 31 AND NOT MLX4_CQE_OWNER_MASK" unfolding n by (rule m(1))
    ultimately show ?thesis unfolding r t body_def by (simp only: list_update_overwrite)
  qed
  show "owner_bit (take 32 (drop ?off (resized_entry cq i e))) = pass_bit cq (i + 1)"
  proof -
    have "?c[31 := ?x] ! 31 = ?x" using l by simp
    then show ?thesis unfolding r t owner_bit_def n by (simp only: m(2))
  qed
qed

text \<open>The entries \<open>cs\<close> from index \<open>n\<close> of the old ring, ended by the mark of the device.\<close>

definition ends_with_mark :: "comp_queue \<Rightarrow> u32 \<Rightarrow> u8 list list \<Rightarrow> bool" where
  "ends_with_mark cq n cs \<longleftrightarrow> cq_shape cq \<and> length cs \<le> cq_cqe cq \<and>
     (\<forall>i<length cs. body (cq_entry cq (n + of_nat i)) = cs ! i \<and> cqe_opcode (cq_entry cq (n + of_nat i)) \<noteq> MLX4_CQE_OPCODE_RESIZE) \<and>
     cqe_opcode (cq_entry cq (n + of_nat (length cs))) = MLX4_CQE_OPCODE_RESIZE"

definition old_ring :: "nat \<Rightarrow> comp_queue \<Rightarrow> comp_queue" where
  "old_ring old_cqe cq = cq\<lparr>cq_cqe := old_cqe\<rparr>"

definition new_ring :: "u8 list list \<Rightarrow> comp_queue \<Rightarrow> comp_queue" where
  "new_ring buf cq = cq\<lparr>cq_buf := buf\<rparr>"

lemma cq_entry_wrap:
  assumes "cq_shape cq"
  shows "cq_entry cq (n + 1 + of_nat (cq_cqe cq)) = cq_entry cq n"
proof -
  have "cq_slot cq (n + of_nat (Suc (cq_cqe cq))) = cq_slot cq (n + of_nat 0)" unfolding cq_slot_add [OF assms]
    using mod_add_self2 [of "unat n" "Suc (cq_cqe cq)"] by simp
  then show ?thesis by (simp add: cq_entry_def ac_simps)
qed

text \<open>Writing one entry of a ring.\<close>

lemma ring_write:
  fixes cq :: comp_queue and n :: u32 and e :: "u8 list"
  assumes s: "cq_shape cq" and e: "length e = cq_cqe_size cq"
  defines "cq' \<equiv> cq\<lparr>cq_buf := (cq_buf cq)[cq_slot cq n := e]\<rparr>"
  shows "cq_shape cq'" "cq_entry cq' n = take 32 (drop (cqe_off cq) e)" "\<And>i. 0 < i \<Longrightarrow> i \<le> cq_cqe cq \<Longrightarrow> cq_entry cq' (n + of_nat i) = cq_entry cq (n + of_nat i)"
proof -
  have slot: "cq_slot cq' = cq_slot cq" "cqe_off cq' = cqe_off cq" by (simp_all add: fun_eq_iff cq'_def cq_slot_def cqe_off_def)
  show "cq_shape cq'" using s e by (auto simp: cq'_def cq_shape_def dest: set_update_subset_insert [THEN subsetD])
  show "cq_entry cq' n = take 32 (drop (cqe_off cq) e)" using cq_slot_less [OF s, of n] by (simp add: cq_entry_def slot) (simp add: cq'_def)
  show "cq_entry cq' (n + of_nat i) = cq_entry cq (n + of_nat i)" if "0 < i" "i \<le> cq_cqe cq" for i
    using cq_slot_inj [OF s, of i 0 n] that by (simp add: cq_entry_def slot) (simp add: cq'_def)
qed

text \<open>One turn of the loop: it stops at the mark, and otherwise copies one entry to the next index of the new ring and touches nothing else of it.\<close>

lemma resize_reads:
  fixes n :: u32
  assumes "cq_shape (old_ring old_cqe cq)"
  defines "e \<equiv> cq_buf cq ! (unat n AND old_cqe)"
  shows "unat n AND old_cqe < length (cq_buf cq)" "length e = cq_cqe_size cq" "cqe_off cq + 31 < length e"
    "cq_entry (old_ring old_cqe cq) n = take 32 (drop (cqe_off cq) e)"
    "e ! (cqe_off cq + 31) AND MLX4_CQE_OPCODE_MASK = cqe_opcode (cq_entry (old_ring old_cqe cq) n)"
proof -
  have at: "unat n AND old_cqe = cq_slot (old_ring old_cqe cq) n" "cqe_off (old_ring old_cqe cq) = cqe_off cq" "cq_buf (old_ring old_cqe cq) = cq_buf cq"
    by (simp_all add: old_ring_def cq_slot_def cqe_off_def)
  have z: "cq_cqe_size cq \<in> {32, 64}" using assms(1) by (simp add: cq_shape_def old_ring_def)
  show "unat n AND old_cqe < length (cq_buf cq)" and e: "length e = cq_cqe_size cq"
    using cq_slot_less [OF assms(1), of n] assms(1) unfolding e_def at(1) by (auto simp: cq_shape_def old_ring_def)
  then show "cqe_off cq + 31 < length e" using z by (auto simp: cqe_off_def)
  show c: "cq_entry (old_ring old_cqe cq) n = take 32 (drop (cqe_off cq) e)" unfolding e_def by (simp add: cq_entry_def at)
  show "e ! (cqe_off cq + 31) AND MLX4_CQE_OPCODE_MASK = cqe_opcode (cq_entry (old_ring old_cqe cq) n)"
    unfolding c cqe_opcode_def resized_cqe(4) [OF e z] ..
qed

lemma resize_stops:
  assumes "ends_with_mark (old_ring old_cqe cq) n []"
  shows "resize_loop (Suc k) old_cqe n cq buf = Inr (buf, cq)"
  using resize_reads [of old_cqe cq n] assms by (simp add: ends_with_mark_def)

lemma resize_step:
  assumes old: "ends_with_mark (old_ring old_cqe cq) n (c # cs)" and new: "cq_shape (new_ring buf cq)"
  shows "\<exists>buf' ob. resize_loop (Suc k) old_cqe n cq buf = resize_loop k old_cqe (n + 1) (cq\<lparr>cq_buf := ob\<rparr>) buf' \<and>
    ends_with_mark (old_ring old_cqe (cq\<lparr>cq_buf := ob\<rparr>)) (n + 1) cs \<and> cq_shape (new_ring buf' cq) \<and>
    sw_owned (new_ring buf' cq) (n + 1) \<and> body (cq_entry (new_ring buf' cq) (n + 1)) = c \<and>
    (\<forall>i. 0 < i \<and> i \<le> cq_cqe cq \<longrightarrow> cq_entry (new_ring buf' cq) (n + 1 + of_nat i) = cq_entry (new_ring buf cq) (n + 1 + of_nat i))"
proof -
  let ?old = "old_ring old_cqe cq" and ?new = "new_ring buf cq" and ?e = "cq_buf cq ! (unat n AND old_cqe)"
  let ?r = "resized_entry cq n ?e" and ?ob = "(cq_buf cq)[unat n AND old_cqe := resized_entry cq n (cq_buf cq ! (unat n AND old_cqe))]"
  have s: "cq_shape ?old" "Suc (length cs) \<le> old_cqe"
    and ent: "\<And>i. i < Suc (length cs) \<Longrightarrow> body (cq_entry ?old (n + of_nat i)) = (c # cs) ! i \<and> cqe_opcode (cq_entry ?old (n + of_nat i)) \<noteq> MLX4_CQE_OPCODE_RESIZE"
    and mark: "cqe_opcode (cq_entry ?old (n + of_nat (Suc (length cs)))) = MLX4_CQE_OPCODE_RESIZE"
    using old by (auto simp: ends_with_mark_def old_ring_def)
  have at: "unat n AND old_cqe = cq_slot ?old n" "unat (n + 1) AND cq_cqe cq = cq_slot ?new (n + 1)" "cqe_off ?old = cqe_off cq" "cqe_off ?new = cqe_off cq"
    "cq_buf ?old = cq_buf cq" "cq_buf ?new = buf" "cq_cqe ?new = cq_cqe cq" "cq_cqe ?old = old_cqe" "cq_cqe_size ?old = cq_cqe_size cq" "cq_cqe_size ?new = cq_cqe_size cq"
    by (simp_all add: old_ring_def new_ring_def cq_slot_def cqe_off_def)
  note e = resize_reads [OF s(1), of n]
  have "cq_cqe_size cq \<in> {32, 64}" using s(1) by (simp add: cq_shape_def old_ring_def)
  note r = resized_cqe(1-3) [OF e(2) this, of n]
  let ?buf = "buf[cq_slot ?new (n + 1) := ?r]"
  have "cq_slot ?new (n + 1) < length buf" using cq_slot_less [OF new, of "n + 1"] by (simp add: at)
  then have run: "resize_loop (Suc k) old_cqe n cq buf = resize_loop k old_cqe (n + 1) (cq\<lparr>cq_buf := ?ob\<rparr>) ?buf"
    using e(1,3,5) ent [of 0] by (simp add: at(2) Let_def)
  have o: "old_ring old_cqe (cq\<lparr>cq_buf := ?ob\<rparr>) = ?old\<lparr>cq_buf := (cq_buf ?old)[cq_slot ?old n := ?r]\<rparr>"
    and nw: "new_ring ?buf cq = ?new\<lparr>cq_buf := (cq_buf ?new)[cq_slot ?new (n + 1) := ?r]\<rparr>" using at(1) by (simp_all add: old_ring_def new_ring_def)
  have sz: "length ?r = cq_cqe_size ?old" "length ?r = cq_cqe_size ?new" using r(1) e(2) by (simp_all add: at)
  note wo = ring_write [OF s(1) sz(1), where n = n, folded o] and wn = ring_write [OF new sz(2), where n = "n + 1", folded nw]
  have oi: "cq_entry (old_ring old_cqe (cq\<lparr>cq_buf := ?ob\<rparr>)) (n + 1 + of_nat i) = cq_entry ?old (n + of_nat (Suc i))" if "i \<le> length cs" for i
    using wo(3) [of "Suc i"] that s(2) by (simp add: at ac_simps)
  have "ends_with_mark (old_ring old_cqe (cq\<lparr>cq_buf := ?ob\<rparr>)) (n + 1) cs"
    using wo(1) s(2) ent [of "Suc _"] mark oi by (auto simp: ends_with_mark_def old_ring_def)
  moreover have "sw_owned (new_ring ?buf cq) (n + 1)" "body (cq_entry (new_ring ?buf cq) (n + 1)) = c"
    using wn(2) r(2,3) ent [of 0] e(4) by (simp_all add: sw_owned_def at) (simp add: pass_bit_def new_ring_def)
  ultimately show ?thesis using run wn(1,3) by (intro exI [of _ ?buf] exI [of _ ?ob]) (simp add: at)
qed

text \<open>The loop copies each entry to the next index of the new ring, and touches nothing else of it.\<close>

lemma resize_loop_ok:
  "\<lbrakk>ends_with_mark (old_ring old_cqe cq) n cs; cq_shape (new_ring buf cq); length cs \<le> cq_cqe cq + 1; length cs < k\<rbrakk> \<Longrightarrow>
     \<exists>buf' ob. resize_loop k old_cqe n cq buf = Inr (buf', cq\<lparr>cq_buf := ob\<rparr>) \<and> cq_shape (new_ring buf' cq) \<and>
       (\<forall>i<length cs. sw_owned (new_ring buf' cq) (n + 1 + of_nat i) \<and> body (cq_entry (new_ring buf' cq) (n + 1 + of_nat i)) = cs ! i) \<and>
       (\<forall>i. length cs \<le> i \<and> i \<le> cq_cqe cq \<longrightarrow> cq_entry (new_ring buf' cq) (n + 1 + of_nat i) = cq_entry (new_ring buf cq) (n + 1 + of_nat i))"
proof (induction cs arbitrary: k n cq buf)
  case Nil
  then obtain j where k: "k = Suc j" by (cases k) simp_all
  show ?case using resize_stops [OF Nil.prems(1)] Nil.prems(2) unfolding k by (intro exI [of _ buf] exI [of _ "cq_buf cq"]) simp
next
  case (Cons c cs)
  obtain j where k: "k = Suc j" using Cons.prems(4) by (cases k) simp_all
  obtain b1 o1 where 1: "resize_loop k old_cqe n cq buf = resize_loop j old_cqe (n + 1) (cq\<lparr>cq_buf := o1\<rparr>) b1"
      "ends_with_mark (old_ring old_cqe (cq\<lparr>cq_buf := o1\<rparr>)) (n + 1) cs" "cq_shape (new_ring b1 cq)"
      "sw_owned (new_ring b1 cq) (n + 1)" "body (cq_entry (new_ring b1 cq) (n + 1)) = c"
      "\<And>i. 0 < i \<Longrightarrow> i \<le> cq_cqe cq \<Longrightarrow> cq_entry (new_ring b1 cq) (n + 1 + of_nat i) = cq_entry (new_ring buf cq) (n + 1 + of_nat i)"
    using resize_step [OF Cons.prems(1,2), of j] unfolding k by blast
  have nw: "new_ring x (cq\<lparr>cq_buf := o1\<rparr>) = new_ring x cq" for x by (simp add: new_ring_def)
  have l: "length cs \<le> cq_cqe (cq\<lparr>cq_buf := o1\<rparr>) + 1" "length cs < j" using Cons.prems(3,4) k by simp_all
  from Cons.IH [OF 1(2), unfolded nw, OF 1(3) l] obtain buf' ob where
      2: "resize_loop j old_cqe (n + 1) (cq\<lparr>cq_buf := o1\<rparr>) b1 = Inr (buf', cq\<lparr>cq_buf := ob\<rparr>)" "cq_shape (new_ring buf' cq)"
      "\<And>i. i < length cs \<Longrightarrow> sw_owned (new_ring buf' cq) (n + 1 + 1 + of_nat i) \<and> body (cq_entry (new_ring buf' cq) (n + 1 + 1 + of_nat i)) = cs ! i"
      "\<And>i. length cs \<le> i \<Longrightarrow> i \<le> cq_cqe cq \<Longrightarrow> cq_entry (new_ring buf' cq) (n + 1 + 1 + of_nat i) = cq_entry (new_ring b1 cq) (n + 1 + 1 + of_nat i)"
    by auto
  have wrap: "cq_entry (new_ring b cq) (n + 1 + 1 + of_nat (cq_cqe cq)) = cq_entry (new_ring b cq) (n + 1)" if "cq_shape (new_ring b cq)" for b
    using cq_entry_wrap [OF that, of "n + 1"] by (simp add: new_ring_def)
  have "cq_entry (new_ring buf' cq) (n + 1) = cq_entry (new_ring b1 cq) (n + 1)"
    using 2(4) [of "cq_cqe cq"] Cons.prems(3) wrap [OF 2(2)] wrap [OF 1(3)] by simp
  moreover have "pass_bit (new_ring buf' cq) = pass_bit (new_ring b1 cq)" by (simp add: pass_bit_def new_ring_def fun_eq_iff)
  ultimately have first: "sw_owned (new_ring buf' cq) (n + 1)" "body (cq_entry (new_ring buf' cq) (n + 1)) = c"
    using 1(4,5) by (simp_all add: sw_owned_def)
  have "sw_owned (new_ring buf' cq) (n + 1 + of_nat i) \<and> body (cq_entry (new_ring buf' cq) (n + 1 + of_nat i)) = (c # cs) ! i" if "i < length (c # cs)" for i
    using 2(3) [of "i - 1"] first that by (cases i) (simp_all add: ac_simps)
  moreover have "cq_entry (new_ring buf' cq) (n + 1 + of_nat i) = cq_entry (new_ring buf cq) (n + 1 + of_nat i)"
    if "length (c # cs) \<le> i" "i \<le> cq_cqe cq" for i
    using 2(4) [of "i - 1"] 1(6) [of i] that by (cases i) (simp_all add: ac_simps)
  ultimately show ?case using 1(1) 2(1,2) by (intro exI [of _ buf'] exI [of _ ob]) simp
qed

lemma resize_copy_ok:
  assumes e: "ends_with_mark (old_ring old_cqe cq) (cq_cons_index cq) cs"
    and d: "holds ((new_ring buf cq)\<lparr>cq_cons_index := cq_cons_index cq + 1 + of_nat (length cs)\<rparr>) ds" and n: "length cs + length ds \<le> cq_cqe cq + 1"
  shows "\<exists>buf' ob. mlx4_cq_resize_copy_cqes buf old_cqe cq = Inr (buf', cq\<lparr>cq_buf := ob, cq_cons_index := cq_cons_index cq + 1\<rparr>) \<and>
    holds ((new_ring buf' cq)\<lparr>cq_cons_index := cq_cons_index cq + 1\<rparr>) (cs @ ds)"
proof -
  let ?c = "cq_cons_index cq" and ?new = "new_ring buf cq"
  let ?d = "?new\<lparr>cq_cons_index := ?c + 1 + of_nat (length cs)\<rparr>"
  have same: "cq_entry ?d = cq_entry ?new" "cq_shape ?d = cq_shape ?new" "pass_bit ?d = pass_bit ?new" "sw_owned ?d = sw_owned ?new" "cq_cqe ?d = cq_cqe cq"
    using same_ring [of ?d ?new] by (simp_all add: new_ring_def)
  have ds: "\<And>i. i < length ds \<Longrightarrow> sw_owned ?new (?c + 1 + of_nat (length cs) + of_nat i) \<and> body (cq_entry ?new (?c + 1 + of_nat (length cs) + of_nat i)) = ds ! i"
    and last: "length ds \<le> cq_cqe cq \<Longrightarrow> \<not> sw_owned ?new (?c + 1 + of_nat (length cs) + of_nat (length ds))" and shape: "cq_shape ?new"
    using d unfolding holds_def same by simp_all
  have "length cs \<le> old_cqe" using e by (simp add: ends_with_mark_def old_ring_def)
  then obtain buf' ob where r: "resize_loop (old_cqe + 2) old_cqe ?c cq buf = Inr (buf', cq\<lparr>cq_buf := ob\<rparr>)" "cq_shape (new_ring buf' cq)"
      "\<And>i. i < length cs \<Longrightarrow> sw_owned (new_ring buf' cq) (?c + 1 + of_nat i) \<and> body (cq_entry (new_ring buf' cq) (?c + 1 + of_nat i)) = cs ! i"
      "\<And>i. length cs \<le> i \<and> i \<le> cq_cqe cq \<Longrightarrow> cq_entry (new_ring buf' cq) (?c + 1 + of_nat i) = cq_entry ?new (?c + 1 + of_nat i)"
    using resize_loop_ok [OF e shape, of "old_cqe + 2"] n by auto
  let ?n = "(new_ring buf' cq)\<lparr>cq_cons_index := ?c + 1\<rparr>"
  have new: "cq_entry ?n = cq_entry (new_ring buf' cq)" "cq_shape ?n = cq_shape (new_ring buf' cq)" "sw_owned ?n = sw_owned (new_ring buf' cq)"
      "cq_cqe ?n = cq_cqe cq" "cq_cons_index ?n = ?c + 1"
    using same_ring [of ?n "new_ring buf' cq"] by (simp_all add: new_ring_def)
  have own: "sw_owned (new_ring buf' cq) (?c + 1 + of_nat i) = sw_owned ?new (?c + 1 + of_nat i)" if "length cs \<le> i" "i \<le> cq_cqe cq" for i
    using r(4) [of i] that by (simp add: sw_owned_def pass_bit_def new_ring_def)
  have "holds ?n (cs @ ds)"
    unfolding holds_def new
  proof (intro conjI allI impI)
    show "cq_shape (new_ring buf' cq)" by (rule r(2))
    show "length (cs @ ds) \<le> cq_cqe cq + 1" using n by simp
    show "\<not> sw_owned (new_ring buf' cq) (?c + 1 + of_nat (length (cs @ ds)))" if "length (cs @ ds) \<le> cq_cqe cq"
      using own [of "length (cs @ ds)"] last that by (simp add: ac_simps)
    fix i assume i: "i < length (cs @ ds)"
    have "sw_owned (new_ring buf' cq) (?c + 1 + of_nat i) \<and> body (cq_entry (new_ring buf' cq) (?c + 1 + of_nat i)) = (cs @ ds) ! i"
    proof (cases "i < length cs")
      case False
      then obtain l where l: "i = length cs + l" by (metis le_Suc_ex not_less)
      then show ?thesis using ds [of l] own [of i] r(4) [of i] i n by (simp add: ac_simps nth_append)
    qed (simp add: r(3) nth_append)
    then show "sw_owned (new_ring buf' cq) (?c + 1 + of_nat i)" "body (cq_entry (new_ring buf' cq) (?c + 1 + of_nat i)) = (cs @ ds) ! i" by simp_all
  qed
  moreover have "mlx4_cq_resize_copy_cqes buf old_cqe cq = Inr (buf', cq\<lparr>cq_buf := ob, cq_cons_index := ?c + 1\<rparr>)"
    unfolding mlx4_cq_resize_copy_cqes_def r(1) by simp
  ultimately show ?thesis by blast
qed

section \<open>Operations\<close>

text \<open>A completion queue with the memory of its ring, and the memory of the process.\<close>

record cq_state =
  cs_cq :: comp_queue
  cs_buf :: mlx4_buf
  cs_mem :: mem

text \<open>What decides on the memory of a ring: the variables \<open>HUGE_CQ\<close> and \<open>MLX_CQ_ALLOC_TYPE\<close>, and the size of a page.\<close>

record cq_settings =
  st_huge :: bool
  st_type :: "string option"
  st_page :: u64

definition cq_alloc_type :: "cq_settings \<Rightarrow> alloc_type" where
  "cq_alloc_type st = mlx4_get_alloc_type (st_type st) (if st_huge st then MLX4_ALLOC_TYPE_HUGE else MLX4_ALLOC_TYPE_PREFER_CONTIG)"

definition mlx4_alloc_cq_buf :: "cq_settings \<Rightarrow> kernel \<Rightarrow> mlx4_buf \<Rightarrow> nat \<Rightarrow> nat \<Rightarrow> mem \<Rightarrow> (int \<times> mlx4_buf \<times> u8 list list \<times> mem) res" where
  "mlx4_alloc_cq_buf st kn buf nent entry_size m =
     res_bind (mlx4_alloc_prefered_buf kn (cq_alloc_type st) buf (align_long (of_nat (nent * entry_size)) (st_page st)) (st_page st) m) (\<lambda>(r, buf, m).
       if r \<noteq> 0 then Inr (- 1, buf, [], m) else Inr (0, buf, replicate nent (replicate entry_size 0), m))"

text \<open>
  \<open>dev\<close> is the resize command: given both rings, its result, the size it reports (less one) and the two rings when it returns. If it fails, the new buffer is freed in the way of the old one.
\<close>

type_synonym resize_cmd = "u8 list list \<Rightarrow> u8 list list \<Rightarrow> int \<times> nat \<times> u8 list list \<times> u8 list list"

definition finish_resize :: "resize_cmd \<Rightarrow> cq_state \<Rightarrow> int \<times> mlx4_buf \<times> u8 list list \<times> mem \<Rightarrow> (int \<times> cq_state) res" where
  "finish_resize dev s = (\<lambda>(r, buf, ring, m).
     if r \<noteq> 0 then Inr (r, s\<lparr>cs_mem := m\<rparr>)
     else (case dev (cq_buf (cs_cq s)) ring of (r, new_cqe, old, ring) \<Rightarrow>
       if r \<noteq> 0 then res_bind (if bf_hmem (cs_buf s) \<noteq> None then res_bind (mlx4_free_buf_huge buf (me_segs m)) (\<lambda>segs. Inr (m\<lparr>me_segs := segs\<rparr>))
           else Inr (mlx4_free_buf buf m)) (\<lambda>m. Inr (r, s\<lparr>cs_cq := (cs_cq s)\<lparr>cq_buf := old\<rparr>, cs_mem := m\<rparr>))
       else res_bind (mlx4_cq_resize_copy_cqes ring (cq_cqe (cs_cq s)) ((cs_cq s)\<lparr>cq_buf := old, cq_cqe := new_cqe\<rparr>)) (\<lambda>(ring, cq).
         res_bind (release_buf (cs_buf s) m) (\<lambda>m.
           Inr (0, \<lparr>cs_cq = mlx4_update_cons_index (cq\<lparr>cq_buf := ring\<rparr>), cs_buf = buf, cs_mem = m\<rparr>)))))"

definition mlx4_resize_cq :: "cq_settings \<Rightarrow> kernel \<Rightarrow> mlx4_buf \<Rightarrow> resize_cmd \<Rightarrow> int \<Rightarrow> cq_state \<Rightarrow> (int \<times> cq_state) res" where
  "mlx4_resize_cq st kn buf dev cqe s =
     (let n = align_queue_size (nat (cqe + 1)) in
      if 0x3fffff < cqe then Inr (EINVAL, s)
      else if n = cq_cqe (cs_cq s) + 1 then Inr (0, s)
      else res_bind (mlx4_get_outstanding_cqes (cs_cq s)) (\<lambda>outst.
        if n < outst + 1 then Inr (0, s)
        else res_bind (mlx4_alloc_cq_buf st kn buf n (cq_cqe_size (cs_cq s)) (cs_mem s)) (finish_resize dev s)))"

definition mlx4_destroy_cq :: "nat \<Rightarrow> int \<Rightarrow> u64 \<Rightarrow> cq_state \<Rightarrow> db_lists \<Rightarrow> (int \<times> mem \<times> db_lists) res" where
  "mlx4_destroy_cq ps ret set_ci_db s dbs = (if ret \<noteq> 0 then Inr (ret, cs_mem s, dbs)
     else res_bind (mlx4_free_db ps MLX4_DB_TYPE_CQ set_ci_db dbs) (\<lambda>dbs. res_bind (release_buf (cs_buf s) (cs_mem s)) (\<lambda>m. Inr (0, m, dbs))))"

text \<open>
  C24: Resizing keeps the completions. Let the device end the old ring, with the entries \<open>cs\<close>, by its mark, and go on in the new one with \<open>ds\<close>. Then a resize that returns 0
  leaves the queue with \<open>cs\<close> followed by \<open>ds\<close>, as they are; it has freed the old ring and holds the new one. If the allocation of a new ring fails, nothing changes.
  Nothing is accessed outside a ring.
\<close>

theorem resize_keeps_completions:
  fixes s :: cq_state and n :: nat
  defines "cq \<equiv> cs_cq s"
  assumes size: "cqe \<le> 0x3fffff" "n = align_queue_size (nat (cqe + 1))" "n \<noteq> cq_cqe cq + 1"
    and before: "holds cq cs0" "length cs0 \<le> cq_cqe cq" "length cs0 < n"
    and mem: "mem_inv (cs_mem s) (insert (cs_buf s) H)" "cs_buf s \<notin> H"
    and req: "good_alloc (kn, cq_alloc_type st, buf, align_long (of_nat (n * cq_cqe_size cq)) (st_page st), st_page st) (cs_mem s)"
    and dev: "dev (cq_buf cq) (replicate n (replicate (cq_cqe_size cq) 0)) = (0, n - 1, old, ring)"
    and marked: "ends_with_mark (cq\<lparr>cq_buf := old\<rparr>) (cq_cons_index cq) cs"
    and new: "holds (cq\<lparr>cq_buf := ring, cq_cqe := n - 1, cq_cons_index := cq_cons_index cq + 1 + of_nat (length cs)\<rparr>) ds" "length cs + length ds \<le> n"
  shows "\<exists>r s' got. mlx4_resize_cq st kn buf dev cqe s = Inr (r, s') \<and> mlx4_alloc_cq_buf st kn buf n (cq_cqe_size cq) (cs_mem s) = Inr (r, got) \<and>
    (if r = 0 then holds (cs_cq s') (cs @ ds) \<and> cq_cqe (cs_cq s') = n - 1 \<and> mem_inv (cs_mem s') (insert (cs_buf s') H)
     else cs_cq s' = cq \<and> cs_buf s' = cs_buf s \<and> mem_inv (cs_mem s') (insert (cs_buf s) H))"
proof -
  have pos: "0 < n" using before(3) by simp
  let ?l = "align_long (of_nat (n * cq_cqe_size cq)) (st_page st)"
  obtain r x m where a: "mlx4_alloc_prefered_buf kn (cq_alloc_type st) buf ?l (st_page st) (cs_mem s) = Inr (r, x, m)"
      "if r = 0 then mem_inv m (insert x (insert (cs_buf s) H)) \<and> x \<notin> insert (cs_buf s) H \<and> unat ?l \<le> unat (bf_length x) else mem_inv m (insert (cs_buf s) H)"
    using alloc_prefered_ok [OF mem(1) req] by blast
  have start: "mlx4_resize_cq st kn buf dev cqe s = res_bind (mlx4_alloc_cq_buf st kn buf n (cq_cqe_size cq) (cs_mem s)) (finish_resize dev s)"
    using size before(3) outstanding_cqes_ok [OF before(1,2)] by (simp add: mlx4_resize_cq_def Let_def cq_def)
  show ?thesis
  proof (cases "r = 0")
    case False
    then have "mlx4_alloc_cq_buf st kn buf n (cq_cqe_size cq) (cs_mem s) = Inr (- 1, x, [], m)" using a(1) by (simp add: mlx4_alloc_cq_buf_def)
    moreover from this have "mlx4_resize_cq st kn buf dev cqe s = Inr (- 1, s\<lparr>cs_mem := m\<rparr>)" by (simp add: start finish_resize_def)
    ultimately show ?thesis using a(2) False by (simp add: cq_def)
  next
    case True
    let ?cq = "cq\<lparr>cq_buf := old, cq_cqe := n - 1\<rparr>"
    have eq: "old_ring (cq_cqe cq) ?cq = cq\<lparr>cq_buf := old\<rparr>"
      "(new_ring ring ?cq)\<lparr>cq_cons_index := cq_cons_index cq + 1 + of_nat (length cs)\<rparr> = cq\<lparr>cq_buf := ring, cq_cqe := n - 1, cq_cons_index := cq_cons_index cq + 1 + of_nat (length cs)\<rparr>"
      by (simp_all add: old_ring_def new_ring_def)
    obtain buf' ob where c: "mlx4_cq_resize_copy_cqes ring (cq_cqe cq) ?cq = Inr (buf', ?cq\<lparr>cq_buf := ob, cq_cons_index := cq_cons_index cq + 1\<rparr>)"
        "holds ((new_ring buf' ?cq)\<lparr>cq_cons_index := cq_cons_index cq + 1\<rparr>) (cs @ ds)"
    proof -
      have h: "cq_cons_index ?cq = cq_cons_index cq" by simp
      have "ends_with_mark (old_ring (cq_cqe cq) ?cq) (cq_cons_index ?cq) cs" unfolding h by (subst eq(1)) (rule marked)
      moreover have "holds ((new_ring ring ?cq)\<lparr>cq_cons_index := cq_cons_index ?cq + 1 + of_nat (length cs)\<rparr>) ds" unfolding h by (subst eq(2)) (rule new(1))
      moreover have "length cs + length ds \<le> cq_cqe ?cq + 1" using new(2) pos by simp
      ultimately show ?thesis using resize_copy_ok [of "cq_cqe cq" ?cq cs ring ds] that by auto
    qed
    have m: "mem_inv m (insert x (insert (cs_buf s) H))" "x \<notin> insert (cs_buf s) H" using a(2) True by simp_all
    obtain m' where m': "release_buf (cs_buf s) m = Inr m'" "mem_inv m' (insert x (insert (cs_buf s) H) - {cs_buf s})"
      using release_ok [OF m(1), of "cs_buf s"] by blast
    have "insert x (insert (cs_buf s) H) - {cs_buf s} = insert x H" using m(2) mem(2) by blast
    then have "mem_inv m' (insert x H)" using m'(2) by simp
    moreover define q where "q = ?cq\<lparr>cq_buf := ob, cq_cons_index := cq_cons_index cq + 1, cq_buf := buf'\<rparr>"
    have q: "q = (new_ring buf' ?cq)\<lparr>cq_cons_index := cq_cons_index cq + 1\<rparr>" unfolding q_def new_ring_def by (cases cq) simp
    moreover have "mlx4_alloc_cq_buf st kn buf n (cq_cqe_size cq) (cs_mem s) = Inr (0, x, replicate n (replicate (cq_cqe_size cq) 0), m)"
      using a(1) True by (simp add: mlx4_alloc_cq_buf_def)
    moreover from this have "mlx4_resize_cq st kn buf dev cqe s = Inr (0, \<lparr>cs_cq = mlx4_update_cons_index q, cs_buf = x, cs_mem = m'\<rparr>)"
      using dev c(1) m'(1) by (simp add: start finish_resize_def cq_def q_def)
    moreover have "holds q (cs @ ds)" "cq_cqe q = n - 1" using c(2) by (simp_all add: q new_ring_def)
    ultimately show ?thesis by (simp add: holds_update(1)) (simp add: mlx4_update_cons_index_def)
  qed
qed

text \<open>A queue of two entries grows to four: the device has left one entry in the old ring and written one into the new ring.\<close>

definition ex_resize :: resize_cmd where
  "ex_resize old ring = (0, length ring - 1, [ex_cqe, (replicate 32 0)[31 := 0x96]],
     [replicate 32 0, replicate 32 0, ex_cqe, (replicate 32 0)[31 := 0x80]])"

definition ex_cq_state :: cq_state where
  "ex_cq_state = \<lparr>cs_cq = ex_cq, cs_buf = blank_buf\<lparr>bf_buf := 0x30000000, bf_length := 4096\<rparr>,
     cs_mem = \<lparr>me_segs = [], me_maps = [(0x30000000, 4096)]\<rparr>\<rparr>"

definition ex_settings :: cq_settings where
  "ex_settings = \<lparr>st_huge = False, st_type = None, st_page = 2 ^ 12\<rparr>"

lemma resize_keeps_completions_witness:
  "\<exists>r s' got. mlx4_resize_cq ex_settings (ex_kernel None 0) blank_buf ex_resize 3 ex_cq_state = Inr (r, s') \<and>
    mlx4_alloc_cq_buf ex_settings (ex_kernel None 0) blank_buf 4 (cq_cqe_size (cs_cq ex_cq_state)) (cs_mem ex_cq_state) = Inr (r, got) \<and>
    (if r = 0 then holds (cs_cq s') ([ex_cqe] @ [ex_cqe]) \<and> cq_cqe (cs_cq s') = 4 - 1 \<and> mem_inv (cs_mem s') (insert (cs_buf s') {})
     else cs_cq s' = cs_cq ex_cq_state \<and> cs_buf s' = cs_buf ex_cq_state \<and> mem_inv (cs_mem s') (insert (cs_buf ex_cq_state) {}))"
proof -
  let ?cq = "cs_cq ex_cq_state" and ?old = "[ex_cqe, (replicate 32 0)[31 := 0x96]]"
  let ?ring = "[replicate 32 0, replicate 32 0, ex_cqe, (replicate 32 0)[31 := 0x80]]"
  have cq: "?cq = ex_cq" by (simp add: ex_cq_state_def)
  have l: "align_long (of_nat (4 * cq_cqe_size ?cq)) (st_page ex_settings) = 4096" "st_page ex_settings = 2 ^ 12"
    by (simp_all add: align_long_def ex_settings_def cq) (simp add: ex_cq_def)
  have inv: "mem_inv (cs_mem ex_cq_state) (insert (cs_buf ex_cq_state) {})"
    by (auto simp: mem_inv_def huge_inv_def core_inv_def maps_inv_def held_huge_def held_maps_def bf_key_def ex_cq_state_def blank_buf_def)
  have k: "kernel_ok (ex_kernel None 0)" by (simp add: kernel_ok_def ex_kernel_def)
  have p: "\<exists>p\<le>20. (2 ^ 12 :: u64) = 2 ^ p" by (intro exI [of _ 12]) simp
  have req: "good_alloc (ex_kernel None 0, cq_alloc_type ex_settings, blank_buf, align_long (of_nat (4 * cq_cqe_size ?cq)) (st_page ex_settings), st_page ex_settings) (cs_mem ex_cq_state)"
    unfolding l(1) unfolding l(2) using k p by (simp add: ex_kernel_def)
  have "\<exists>k\<le>24. cq_cqe (ex_cq\<lparr>cq_buf := ?old\<rparr>) + 1 = 2 ^ k" by (intro exI [of _ 1]) (simp add: ex_cq_def)
  then have "cq_shape (ex_cq\<lparr>cq_buf := ?old\<rparr>)" by (simp add: cq_shape_def) (simp add: ex_cq_def ex_cqe_facts)
  moreover have "cq_entry (ex_cq\<lparr>cq_buf := ?old\<rparr>) 0 = ex_cqe" "cq_entry (ex_cq\<lparr>cq_buf := ?old\<rparr>) 1 = (replicate 32 0)[31 := 0x96]"
    by (simp_all add: cq_entry_def cq_slot_def cqe_off_def ex_cq_def ex_cqe_facts)
  moreover have "cqe_opcode ex_cqe \<noteq> MLX4_CQE_OPCODE_RESIZE" "cqe_opcode ((replicate 32 0)[31 := 0x96]) = MLX4_CQE_OPCODE_RESIZE"
    by (simp_all add: cqe_opcode_def ex_cqe_def macro_defs)
  ultimately have marked: "ends_with_mark (?cq\<lparr>cq_buf := ?old\<rparr>) (cq_cons_index ?cq) [ex_cqe]"
    unfolding cq by (simp add: ends_with_mark_def) (simp add: ex_cq_def ex_cqe_facts)
  let ?new = "?cq\<lparr>cq_buf := ?ring, cq_cqe := 4 - 1, cq_cons_index := cq_cons_index ?cq + 1 + of_nat (length [ex_cqe])\<rparr>"
  have "\<exists>k\<le>24. cq_cqe ?new + 1 = 2 ^ k" by (intro exI [of _ 2]) simp
  then have "cq_shape ?new" by (simp add: cq_shape_def cq) (simp add: ex_cq_def ex_cqe_facts)
  moreover have "sw_owned ?new 2" "\<not> sw_owned ?new 3" "cq_entry ?new 2 = ex_cqe" "cq_cons_index ?new = 2"
    by (simp_all add: cq sw_owned_def cq_entry_def owner_bit_def pass_bit_def cq_slot_def cqe_off_def ex_cq_def ex_cqe_def macro_defs)
  ultimately have new: "holds ?new [ex_cqe]" unfolding holds_def by (simp add: ex_cqe_facts)
  have before: "holds ?cq [ex_cqe]" "length [ex_cqe] \<le> cq_cqe ?cq" "length [ex_cqe] < (4 :: nat)" using ex_cq_holds by (simp_all add: cq) (simp add: ex_cq_def)
  have "align_queue_size (nat (3 + 1)) = 4" by (simp add: align_queue_size_def align_queue_from.simps)
  moreover have "4 \<noteq> cq_cqe ?cq + 1" by (simp add: cq ex_cq_def)
  ultimately show ?thesis
    using resize_keeps_completions [OF _ _ _ before inv _ req _ marked new, of 3] by (simp add: ex_resize_def)
qed

end
