(* ===== verification/Mlx5_Shaper.thy ===== *)
theory Mlx5_Shaper
  imports Shaper_Calls
begin

text \<open>
  The shaper in the driver for newer cards, \<open>split_mlx5_post_send\<close> of \<open>libmlx5/src/qp.c\<close>, translated from there: the request \<open>swr\<close> that the code builds, and the
  element \<open>sge\<close> it points to, are variables that a round of a loop changes. The effects (results, log, waiting) are those of \<open>Shaper\<close>. That the
  function agrees with that of \<open>libmlx4\<close>, but for the smallest two-sided message that is split and the chunk of a READ, is proved, part by part.
\<close>

unbundle bit_operations_syntax

section \<open>The function\<close>

definition MLX5_MIN_SPLIT_CHUNK_SIZE :: u32 where [macro_defs]: "MLX5_MIN_SPLIT_CHUNK_SIZE = 2048"

definition mlx5_chunk_size :: "shared_block option \<Rightarrow> u32" where
  "mlx5_chunk_size sb = (case sb of None \<Rightarrow> SPLIT_CHUNK_SIZE | Some b \<Rightarrow> sb_active_chunk_size b)"

definition mlx5_needs_split :: "u32 \<Rightarrow> opcode \<Rightarrow> u32 \<Rightarrow> bool" where
  "mlx5_needs_split len op chunk \<longleftrightarrow> chunk < len \<or> is_two_sided op \<and> MLX5_MIN_SPLIT_CHUNK_SIZE \<le> len"

definition mlx5_ceil_helper :: "rat \<Rightarrow> int" where
  "mlx5_ceil_helper num_chunks =
     (let inum_chunks = c_trunc num_chunks in if num_chunks = to_float (of_int inum_chunks) then inum_chunks else inum_chunks + 1)"

text \<open>The result is stored in a \<open>uint32_t\<close>; the two-sided branches divide as \<open>double\<close>s, the one-sided one as \<open>float\<close>s.\<close>

definition mlx5_chunks_two_sided :: "u32 \<Rightarrow> u32 \<Rightarrow> u32" where
  "mlx5_chunks_two_sided len chunk = word_of_int (mlx5_ceil_helper (to_float (to_double (of_nat (unat len) / of_nat (unat chunk)))))"

definition mlx5_chunks_one_sided :: "u32 \<Rightarrow> u32 \<Rightarrow> u32" where
  "mlx5_chunks_one_sided len chunk =
     word_of_int (mlx5_ceil_helper (to_float (to_float (of_nat (unat len)) / to_float (of_nat (unat chunk)))))"

subsection \<open>RDMA WRITE with immediate\<close>

text \<open>The variables after \<open>memset\<close> and the assignments before the loop.\<close>

definition mlx5_wimm_vars :: "send_wr \<Rightarrow> sge \<Rightarrow> u32 \<Rightarrow> send_wr \<times> sge" where
  "mlx5_wimm_vars w g first =
     (\<lparr>wr_id = 0, wr_opcode = RDMA_WRITE, wr_sg_list = [], wr_flags = 0, wr_raddr = wr_raddr w, wr_rkey = 0, wr_chain = 0\<rparr>,
      \<lparr>sg_addr = sg_addr g, sg_length = first, sg_lkey = sg_lkey g\<rparr>)"

text \<open>The next part: its two addresses (\<open>i = 0\<close>, \<open>i = 1\<close>, else), and its length.\<close>

definition mlx5_wimm_move :: "send_wr \<Rightarrow> sge \<Rightarrow> u32 \<Rightarrow> u32 \<Rightarrow> nat \<Rightarrow> send_wr \<times> sge \<Rightarrow> send_wr \<times> sge" where
  "mlx5_wimm_move w g first chunk i v = (case v of (swr, e) \<Rightarrow>
     (swr\<lparr>wr_raddr := (if i = 0 then wr_raddr w else if i = 1 then wr_raddr swr + ucast first else wr_raddr swr + ucast chunk),
          wr_rkey := wr_rkey w, wr_chain := 0\<rparr>,
      e\<lparr>sg_length := (if i = 0 then first else chunk),
        sg_addr := (if i = 0 then sg_addr g else if i = 1 then sg_addr e + ucast first else sg_addr e + ucast chunk),
        sg_lkey := sg_lkey g\<rparr>))"

fun mlx5_wimm_loop :: "send_wr \<Rightarrow> sge \<Rightarrow> u32 \<Rightarrow> u32 \<Rightarrow> nat \<Rightarrow> nat \<Rightarrow> send_wr \<times> sge \<Rightarrow> (send_wr \<times> sge) sh" where
  "mlx5_wimm_loop w g first chunk i 0 v = sh_return v"
| "mlx5_wimm_loop w g first chunk i (Suc k) v =
     (let (swr, e) = mlx5_wimm_move w g first chunk i v;
          swr = swr\<lparr>wr_id := of_nat (i + 1), wr_opcode := RDMA_WRITE, wr_sg_list := [e], wr_flags := wr_flags w OR IBV_SEND_SIGNALED\<rparr> in
      sh_bind (post Split_qp swr) (\<lambda>_.
      sh_bind (await Send_channel) (\<lambda>_. mlx5_wimm_loop w g first chunk (Suc i) k (swr, e))))"

text \<open>The part before the last; when there is only one, an empty request.\<close>

definition mlx5_wimm_before_last :: "send_wr \<Rightarrow> sge \<Rightarrow> u32 \<Rightarrow> u32 \<Rightarrow> nat \<Rightarrow> nat \<Rightarrow> send_wr \<times> sge \<Rightarrow> (nat \<times> send_wr \<times> sge) sh" where
  "mlx5_wimm_before_last w g first chunk n i v =
     (let (swr, e) = mlx5_wimm_move w g first chunk i v;
          swr = swr\<lparr>wr_id := of_nat (i + 1), wr_opcode := RDMA_WRITE_WITH_IMM, wr_flags := wr_flags w OR IBV_SEND_SIGNALED\<rparr>;
          (swr, e, i) = (if n = 1 then (swr\<lparr>wr_sg_list := []\<rparr>, e\<lparr>sg_length := 0\<rparr>, i) else (swr\<lparr>wr_sg_list := [e]\<rparr>, e, i + 1)) in
      sh_bind (post Split_qp swr) (\<lambda>_. sh_bind (await Send_channel) (\<lambda>_. sh_return (i, swr, e))))"

definition mlx5_restore :: "send_wr \<Rightarrow> sge \<Rightarrow> unit sh" where
  "mlx5_restore w g = upd_wr (\<lambda>u. (set_first_sge (\<lambda>e. e\<lparr>sg_addr := sg_addr g, sg_length := sg_length g\<rparr>) u)\<lparr>wr_raddr := wr_raddr w, wr_flags := wr_flags w\<rparr>)"

definition mlx5_wimm_last :: "send_wr \<Rightarrow> sge \<Rightarrow> u32 \<Rightarrow> u32 \<Rightarrow> nat \<times> send_wr \<times> sge \<Rightarrow> int sh" where
  "mlx5_wimm_last w g first chunk iv =
     (let (swr, e) = mlx5_wimm_move w g first chunk (fst iv) (snd iv) in
      sh_bind (upd_wr (\<lambda>u. set_first_sge (\<lambda>f. f\<lparr>sg_addr := sg_addr e, sg_length := sg_length e\<rparr>) (u\<lparr>wr_raddr := wr_raddr swr\<rparr>))) (\<lambda>_.
      sh_bind (post_user_wr User_qp) (\<lambda>_.
      sh_bind (mlx5_restore w g) (\<lambda>_. sh_bind unlock (\<lambda>_. sh_return 0)))))"

definition mlx5_split_wimm :: "send_wr \<Rightarrow> sge \<Rightarrow> u32 \<Rightarrow> int sh" where
  "mlx5_split_wimm w g chunk =
     (let n = unat (mlx5_chunks_two_sided (sg_length g) chunk);
          rest = sg_length g mod chunk; first = (if rest = 0 then chunk else rest); k = (if 2 < n then n - 2 else 0)
      in if n = 0 then (\<lambda>s. Inr (Return (- 1), s))
         else sh_bind (mlx5_wimm_loop w g first chunk 0 k (mlx5_wimm_vars w g first)) (\<lambda>v.
              sh_bind (mlx5_wimm_before_last w g first chunk n k v) (mlx5_wimm_last w g first chunk)))"

subsection \<open>Other two-sided requests\<close>

text \<open>The loop over the chunks behind the first: the user's request is moved on, and posted on the hidden queue pair.\<close>

fun mlx5_two_sided_loop :: "u32 \<Rightarrow> nat \<Rightarrow> u32 \<Rightarrow> unit sh" where
  "mlx5_two_sided_loop chunk 0 current_length = sh_return ()"
| "mlx5_two_sided_loop chunk (Suc k) current_length =
     sh_bind (upd_wr (\<lambda>u. set_first_sge (\<lambda>e. e\<lparr>sg_addr := sg_addr e + ucast chunk\<rparr>) (u\<lparr>wr_raddr := wr_raddr u + ucast chunk\<rparr>))) (\<lambda>_.
     sh_bind (upd_wr (\<lambda>u. if k = 0 then (set_first_sge (\<lambda>e. e\<lparr>sg_length := current_length - chunk\<rparr>) u)\<lparr>wr_flags := wr_flags u OR IBV_SEND_SIGNALED\<rparr> else u)) (\<lambda>_.
     sh_bind (upd_wr (\<lambda>u. u\<lparr>wr_flags := wr_flags u OR IBV_SEND_SIGNALED\<rparr>)) (\<lambda>_.
     sh_bind (post_user_wr Split_qp) (\<lambda>_.
     sh_bind (await Send_channel) (\<lambda>_. mlx5_two_sided_loop chunk k (current_length - chunk))))))"

definition mlx5_split_two_sided :: "send_wr \<Rightarrow> sge \<Rightarrow> u32 \<Rightarrow> int sh" where
  "mlx5_split_two_sided w g chunk =
     (let n = mlx5_chunks_two_sided (sg_length g) chunk - 1 in
      sh_bind (upd_wr (\<lambda>u. if chunk < sg_length g then set_first_sge (\<lambda>e. e\<lparr>sg_length := chunk\<rparr>) u else u)) (\<lambda>_.
      sh_bind (post_user_wr User_qp) (\<lambda>_.
      sh_bind next_result (\<lambda>r.
      sh_bind (\<lambda>s. Inr (Cont (), if r = 0 then log_action (Info_sent n chunk) s else s)) (\<lambda>_.
      sh_bind (await Send_channel) (\<lambda>_.
      sh_bind (if 0 < n then sh_bind (await Channel2) (\<lambda>_ s. Inr (if sh_fc2 s = ACK then Cont () else Return (- 1), s)) else sh_return ()) (\<lambda>_.
      sh_bind (upd_wr (\<lambda>u. u\<lparr>wr_flags := wr_flags u AND NOT IBV_SEND_SIGNALED\<rparr>)) (\<lambda>_.
      sh_bind (mlx5_two_sided_loop chunk (unat n) (sg_length g)) (\<lambda>_.
      sh_bind next_result (\<lambda>r.
      sh_bind (\<lambda>s. Inr (Cont (), if r = 0 then log_action Recv_posted s else s)) (\<lambda>_.
      sh_bind (mlx5_restore w g) (\<lambda>_. sh_bind unlock (\<lambda>_. sh_return 0)))))))))))))"

subsection \<open>One-sided requests\<close>

text \<open>\<open>v\<close> is \<open>None\<close> before the first round, when the variables are not initialised.\<close>

definition mlx5_one_sided_chunk :: "send_wr \<Rightarrow> sge \<Rightarrow> u32 \<Rightarrow> nat \<Rightarrow> nat \<Rightarrow> send_wr \<times> sge" where
  "mlx5_one_sided_chunk w g chunk num i =
     (let e = \<lparr>sg_addr = sg_addr g + ucast (chunk * of_nat i), sg_length = chunk, sg_lkey = sg_lkey g\<rparr> in
      (\<lparr>wr_id = of_nat (i + 1), wr_opcode = wr_opcode w, wr_sg_list = [e],
        wr_flags = (if int i \<ge> int num - 1 then wr_flags w OR IBV_SEND_SIGNALED else wr_flags w AND NOT IBV_SEND_SIGNALED),
        wr_raddr = wr_raddr w + ucast (chunk * of_nat i), wr_rkey = wr_rkey w, wr_chain = 0\<rparr>, e))"

fun mlx5_one_sided_loop :: "send_wr \<Rightarrow> sge \<Rightarrow> u32 \<Rightarrow> nat \<Rightarrow> nat \<Rightarrow> nat \<Rightarrow> (send_wr \<times> sge) option \<Rightarrow> (send_wr \<times> sge) option sh" where
  "mlx5_one_sided_loop w g chunk num i 0 v = sh_return v"
| "mlx5_one_sided_loop w g chunk num i (Suc k) v =
     (let (swr, e) = mlx5_one_sided_chunk w g chunk num i in
      sh_bind (post Split_qp swr) (\<lambda>_.
      sh_bind (if wr_flags swr = wr_flags w OR IBV_SEND_SIGNALED then await Send_channel else sh_return ()) (\<lambda>_.
      mlx5_one_sided_loop w g chunk num (Suc i) k (Some (swr, e)))))"

definition mlx5_one_sided_last :: "send_wr \<Rightarrow> sge \<Rightarrow> u32 \<Rightarrow> u32 \<Rightarrow> (send_wr \<times> sge) option \<Rightarrow> int sh" where
  "mlx5_one_sided_last w g chunk current_length v =
     (case v of None \<Rightarrow> (\<lambda>s. Inl Uninit_read)
      | Some (swr, e) \<Rightarrow>
          let e = e\<lparr>sg_length := current_length, sg_addr := sg_addr e + ucast chunk, sg_lkey := sg_lkey g\<rparr>;
              swr = swr\<lparr>wr_id := wr_id w, wr_opcode := wr_opcode w, wr_sg_list := [e], wr_flags := wr_flags w,
                wr_raddr := wr_raddr swr + ucast chunk, wr_rkey := wr_rkey w, wr_chain := wr_chain w\<rparr>
          in sh_bind (post User_qp swr) (\<lambda>_. sh_bind unlock (\<lambda>_. sh_return 0)))"

definition mlx5_split_one_sided :: "send_wr \<Rightarrow> sge \<Rightarrow> u32 \<Rightarrow> int sh" where
  "mlx5_split_one_sided w g chunk =
     (let num_wrs = sint (mlx5_chunks_one_sided (sg_length g) chunk - 1) in
      sh_bind (mlx5_one_sided_loop w g chunk (nat num_wrs) 0 (nat num_wrs) None) (\<lambda>v.
      mlx5_one_sided_last w g chunk (sg_length g - chunk * word_of_int num_wrs) v))"

subsection \<open>The entry point\<close>

definition mlx5_whole_request :: "int sh" where
  "mlx5_whole_request = sh_bind (post_user_wr User_qp) (\<lambda>_. sh_bind unlock (\<lambda>_. sh_return 0))"

definition mlx5_post_locked :: "int sh" where
  "mlx5_post_locked s =
     (let w = sh_wr s in
      res_bind (first_sge w) (\<lambda>g.
      let chunk = mlx5_chunk_size (sh_sb s) in
      if mlx5_needs_split (sg_length g) (wr_opcode w) chunk then
        if chunk = 0 then Inl Bad_conversion
        else if wr_opcode w = RDMA_WRITE_WITH_IMM then mlx5_split_wimm w g chunk s
        else if is_two_sided (wr_opcode w) then mlx5_split_two_sided w g chunk s
        else if wr_opcode w = RDMA_WRITE \<or> wr_opcode w = RDMA_READ then mlx5_split_one_sided w g chunk s
        else mlx5_whole_request s
      else mlx5_whole_request s))"

text \<open>The block that runs once, at the first request of a process.\<close>

definition mlx5_start_block :: "bool \<Rightarrow> int \<Rightarrow> bool \<Rightarrow> app_state \<Rightarrow> shared_block \<Rightarrow> (string list \<times> app_state \<times> shared_block) res" where
  "mlx5_start_block ok qp_isSmall is_read a sb =
     (if ap_start_flag a then
        let a = a\<lparr>ap_start_flag := False\<rparr> in
        case ap_flow a of None \<Rightarrow> Inr ([], a, sb)
        | Some slot \<Rightarrow>
          if qp_isSmall = 0 \<and> is_read then Inr ([], a\<lparr>ap_isSmall := 0\<rparr>, upd_flow slot (\<lambda>f. f\<lparr>fl_read := 1\<rparr>) sb)
          else if qp_isSmall = 0 then
            res_bind (contact_app ok 0) (\<lambda>m. Inr ([m], a\<lparr>ap_isSmall := 0, ap_num_big := ap_num_big a + 1\<rparr>,
              sb\<lparr>sb_num_active_big_flows := sb_num_active_big_flows sb + 1, sb_num_active_bw_flows := sb_num_active_bw_flows sb + 1\<rparr>))
          else if qp_isSmall = 1 then
            res_bind (contact_app ok 1) (\<lambda>m. Inr ([m], a\<lparr>ap_isSmall := 1, ap_num_small := ap_num_small a + 1\<rparr>,
              sb\<lparr>sb_num_active_small_flows := sb_num_active_small_flows sb + 1\<rparr>))
          else if qp_isSmall = 2 then
            res_bind (contact_app ok 2) (\<lambda>m. Inr ([m], a\<lparr>ap_isSmall := 2, ap_num_big := ap_num_big a + 1\<rparr>,
              sb\<lparr>sb_num_active_big_flows := sb_num_active_big_flows sb + 1\<rparr>))
          else Inr ([], a, sb)
      else Inr ([], a, sb))"

definition split_mlx5_post_send :: "bool \<Rightarrow> int \<Rightarrow> sh_state \<Rightarrow> (int \<times> sh_state) res" where
  "split_mlx5_post_send ok qp_isSmall s =
     res_bind
       (case sh_sb s of
          None \<Rightarrow> Inr (s\<lparr>sh_app := (sh_app s)\<lparr>ap_start_flag := False\<rparr>\<rparr>)
        | Some b \<Rightarrow>
            res_bind (mlx5_start_block ok qp_isSmall (wr_opcode (sh_wr s) = RDMA_READ) (sh_app s) b) (\<lambda>(ms, a, b').
              Inr (s\<lparr>sh_app := a, sh_sb := Some b', sh_msgs := sh_msgs s @ ms\<rparr>)))
       (\<lambda>s1. res_bind (mlx5_post_locked (s1\<lparr>sh_locked := True\<rparr>)) (\<lambda>(c, s2).
          case c of Cont r \<Rightarrow> Inr (r, s2)
          | Return r \<Rightarrow> Inr (r, s2)
          | Out r \<Rightarrow> Inr (r, s2\<lparr>sh_locked := False\<rparr>)))"

section \<open>The parts of the two drivers\<close>

lemma sh_bind_assoc: "sh_bind (sh_bind m f) h = sh_bind m (\<lambda>x. sh_bind (f x) h)"
proof
  show "sh_bind (sh_bind m f) h s = sh_bind m (\<lambda>x. sh_bind (f x) h) s" for s
    by (cases "m s") (auto simp: sh_bind_def split: ctl.splits prod.splits)
qed

lemma sh_bind_return: "sh_bind (sh_return x) f = f x"
  by (simp add: sh_bind_def sh_return_def fun_eq_iff)

lemma mlx5_start_block_eq: "mlx5_start_block ok k rd a sb = post_send_start ok k rd a sb"
  by (cases "ap_flow a") (auto simp: mlx5_start_block_def post_send_start_def Let_def)

lemma mlx5_chunks_eq: "mlx5_chunks_two_sided = chunks_double" "mlx5_chunks_one_sided = chunks_float"
  by (simp_all add: fun_eq_iff mlx5_chunks_two_sided_def mlx5_chunks_one_sided_def mlx5_ceil_helper_def chunks_double_def chunks_float_def ceil_helper_def)

lemma mlx5_whole_eq: "mlx5_whole_request = whole_request"
  by (simp add: mlx5_whole_request_def whole_request_def)

text \<open>The variables of the loop stand at the cursor of \<open>Shaper\<close>.\<close>

lemma mlx5_wimm_move_eq:
  assumes "mlx5_wimm_move w g first chunk i (swr, e) = (swr', e')"
  shows "(wr_raddr swr', sg_addr e') = wimm_advance w g first chunk i (wr_raddr swr, sg_addr e)" "sg_length e' = wimm_length first chunk i"
    "sg_lkey e' = sg_lkey g" "wr_rkey swr' = wr_rkey w" "wr_chain swr' = 0"
  using assms by (auto simp: mlx5_wimm_move_def wimm_advance_def wimm_length_def)

lemma mlx5_wimm_loop_eq:
  assumes "\<And>v. F v = G (wr_raddr (fst v), sg_addr (snd v))"
  shows "sh_bind (mlx5_wimm_loop w g first chunk i k (swr, e)) F = sh_bind (wimm_writes w g first chunk i k (wr_raddr swr, sg_addr e)) G"
proof (induction k arbitrary: i swr e)
  case 0
  then show ?case using assms by (simp add: sh_bind_return)
next
  case (Suc k)
  obtain swr' e' where m: "mlx5_wimm_move w g first chunk i (swr, e) = (swr', e')" by fastforce
  note q = mlx5_wimm_move_eq [OF m]
  let ?v = "swr'\<lparr>wr_id := of_nat (i + 1), wr_opcode := RDMA_WRITE, wr_sg_list := [e'], wr_flags := wr_flags w OR IBV_SEND_SIGNALED\<rparr>"
  let ?cur = "wimm_advance w g first chunk i (wr_raddr swr, sg_addr e)"
  have v: "?v = chunk_wr w (of_nat (i + 1)) RDMA_WRITE (wr_flags w OR IBV_SEND_SIGNALED) (fst ?cur) (snd ?cur) (wimm_length first chunk i) (sg_lkey g)"
    using q by (cases swr'; cases e') (simp add: chunk_wr_def flip: q(1))
  have c: "(wr_raddr ?v, sg_addr e') = ?cur" using q(1) by simp
  show ?case
    unfolding mlx5_wimm_loop.simps wimm_writes.simps m Let_def prod.case sh_bind_assoc v [symmetric]
    by (simp only: Suc.IH c)
qed

lemma mlx5_restore_eq:
  assumes "wr_sg_list w = g # gs"
  shows "mlx5_restore w g = upd_wr (restore_wr w)"
proof -
  have "(set_first_sge f u)\<lparr>wr_raddr := r, wr_flags := l\<rparr> = set_first_sge f (u\<lparr>wr_raddr := r, wr_flags := l\<rparr>)" for f u r l
    by (simp add: set_first_sge_def)
  then show ?thesis using assms by (simp add: mlx5_restore_def restore_wr_def upd_wr_def fun_eq_iff)
qed

lemma mlx5_wimm_last_eq:
  assumes "wr_sg_list w = g # gs"
  shows "mlx5_wimm_last w g first chunk (i, swr, e) = wimm_last w g first chunk i (wr_raddr swr, sg_addr e)"
proof -
  obtain swr' e' where m: "mlx5_wimm_move w g first chunk i (swr, e) = (swr', e')" by fastforce
  show ?thesis
    unfolding mlx5_wimm_last_def wimm_last_def fst_conv snd_conv m mlx5_wimm_move_eq(1) [OF m, symmetric] mlx5_restore_eq [OF assms]
    by (simp add: mlx5_wimm_move_eq(2) [OF m])
qed

lemma mlx5_wimm_before_last_eq:
  assumes "\<And>i v. F (i, v) = G (i, wr_raddr (fst v), sg_addr (snd v))"
  shows "sh_bind (mlx5_wimm_before_last w g first chunk n i (swr, e)) F = sh_bind (wimm_penultimate w g first chunk n i (wr_raddr swr, sg_addr e)) G"
proof -
  obtain swr' e' where m: "mlx5_wimm_move w g first chunk i (swr, e) = (swr', e')" by fastforce
  note q = mlx5_wimm_move_eq [OF m]
  let ?cur = "wimm_advance w g first chunk i (wr_raddr swr, sg_addr e)"
  let ?c = "chunk_wr w (1 + of_nat i) RDMA_WRITE_WITH_IMM (wr_flags w OR IBV_SEND_SIGNALED) (fst ?cur) (snd ?cur) (wimm_length first chunk i) (sg_lkey g)"
  have v: "swr'\<lparr>wr_id := 1 + of_nat i, wr_opcode := RDMA_WRITE_WITH_IMM, wr_flags := wr_flags w OR IBV_SEND_SIGNALED, wr_sg_list := xs\<rparr> =
      ?c\<lparr>wr_sg_list := xs\<rparr>" for xs
    using q by (cases swr') (simp add: chunk_wr_def flip: q(1))
  have e: "?c\<lparr>wr_sg_list := [e']\<rparr> = ?c" using q by (cases e') (simp add: chunk_wr_def flip: q(1))
  have f: "wr_raddr ?c = fst ?cur" "sg_addr e' = snd ?cur" using q(1) [symmetric] by (simp_all add: chunk_wr_def)
  show ?thesis
    unfolding mlx5_wimm_before_last_def wimm_penultimate_def m Let_def prod.case
    by (cases "n = 1") (simp_all add: v e f sh_bind_assoc sh_bind_return assms)
qed

lemma mlx5_split_wimm_eq:
  assumes "wr_sg_list w = g # gs"
  shows "mlx5_split_wimm w g chunk = split_wimm w g chunk"
proof -
  let ?n = "unat (chunks_double (sg_length g) chunk)" and ?first = "if sg_length g mod chunk = 0 then chunk else sg_length g mod chunk"
  have k: "(if 2 < n then n - 2 else 0) = n - 2" for n :: nat by simp
  have last: "mlx5_wimm_last w g ?first chunk (i, v) = wimm_last w g ?first chunk i (wr_raddr (fst v), sg_addr (snd v))" for i v
    using mlx5_wimm_last_eq [OF assms] by (cases v) simp
  have before: "sh_bind (mlx5_wimm_before_last w g ?first chunk ?n (?n - 2) v) (mlx5_wimm_last w g ?first chunk) =
      sh_bind (wimm_penultimate w g ?first chunk ?n (?n - 2) (wr_raddr (fst v), sg_addr (snd v))) (\<lambda>(i, cur). wimm_last w g ?first chunk i cur)" for v
    using mlx5_wimm_before_last_eq [where F = "mlx5_wimm_last w g ?first chunk" and G = "\<lambda>(i, cur). wimm_last w g ?first chunk i cur"] last
    by (cases v) simp
  show ?thesis
    unfolding mlx5_split_wimm_def split_wimm_def mlx5_chunks_eq Let_def k mlx5_wimm_vars_def
    by (simp add: mlx5_wimm_loop_eq [where
        F = "\<lambda>v. sh_bind (mlx5_wimm_before_last w g ?first chunk ?n (?n - 2) v) (mlx5_wimm_last w g ?first chunk)" and
        G = "\<lambda>cur. sh_bind (wimm_penultimate w g ?first chunk ?n (?n - 2) cur) (\<lambda>(i, cur). wimm_last w g ?first chunk i cur)", OF before])
qed

lemma mlx5_two_sided_loop_eq: "mlx5_two_sided_loop chunk k cl = two_sided_rest chunk k cl"
proof (induction k arbitrary: cl)
  case (Suc k)
  have u: "sh_bind (upd_wr f) (\<lambda>_. sh_bind (upd_wr h) m) = sh_bind (upd_wr (h \<circ> f)) m" for f h and m :: "unit \<Rightarrow> unit sh"
    by (simp add: sh_bind_def upd_wr_def fun_eq_iff)
  show ?case
    unfolding mlx5_two_sided_loop.simps two_sided_rest.simps Let_def Suc u
    by (intro arg_cong [of _ _ "\<lambda>f. sh_bind (upd_wr f) _"]) (auto simp: fun_eq_iff set_first_sge_def split: list.splits)
qed simp

lemma mlx5_split_two_sided_eq:
  assumes "wr_sg_list w = g # gs"
  shows "mlx5_split_two_sided w g chunk = split_two_sided w g chunk"
proof -
  have ack: "(if 0 < n then sh_bind (await Channel2) (\<lambda>_ s. Inr (if sh_fc2 s = ACK then Cont () else Return (- 1), s)) else sh_return ()) = two_sided_ack n" for n
    by (auto simp: two_sided_ack_def word_neq_0_conv fun_eq_iff intro!: arg_cong [of _ _ "\<lambda>f. sh_bind (await Channel2) f _"])
  show ?thesis
    unfolding mlx5_split_two_sided_def split_two_sided_def mlx5_chunks_eq Let_def ack mlx5_two_sided_loop_eq mlx5_restore_eq [OF assms]
      two_sided_first_def two_sided_info_def two_sided_finish_def sh_bind_assoc ..
qed

definition with_sge :: "send_wr \<Rightarrow> send_wr \<times> sge" where
  "with_sge c = (c, hd (wr_sg_list c))"

lemma mlx5_one_sided_chunk_eq: "mlx5_one_sided_chunk w g chunk num i = with_sge (one_sided_chunk w g chunk num i)"
  by (simp add: mlx5_one_sided_chunk_def one_sided_chunk_def chunk_wr_def with_sge_def Let_def) linarith

lemma mlx5_one_sided_loop_eq:
  assumes "\<And>x. (\<And>c. x = Some c \<Longrightarrow> wr_sg_list c \<noteq> []) \<Longrightarrow> F (map_option with_sge x) = G x" and "\<And>c. x = Some c \<Longrightarrow> wr_sg_list c \<noteq> []"
  shows "sh_bind (mlx5_one_sided_loop w g chunk num i k (map_option with_sge x)) F = sh_bind (one_sided_loop w g chunk num i k x) G"
  using assms(2)
proof (induction k arbitrary: i x)
  case 0
  then show ?case using assms(1) by (simp add: sh_bind_return)
next
  case (Suc k)
  let ?c = "one_sided_chunk w g chunk num i"
  have c: "wr_sg_list c \<noteq> []" if "Some ?c = Some c" for c using that by (auto simp: one_sided_chunk_def chunk_wr_def)
  have "sh_bind (mlx5_one_sided_loop w g chunk num (Suc i) k (Some (with_sge ?c))) F = sh_bind (one_sided_loop w g chunk num (Suc i) k (Some ?c)) G"
    using Suc.IH [of "Some ?c" "Suc i", OF c] by simp
  then show ?case
    by (simp add: mlx5_one_sided_chunk_eq Let_def case_prod_unfold sh_bind_assoc) (simp add: with_sge_def)
qed

lemma nat_sint: "nat (sint (x :: u32)) = (if sint x < 0 then 0 else unat x)"
proof (cases "sint x < 0")
  case False
  moreover have "sint x < 2 ^ 31" using sint_lt [of x] by simp
  ultimately have "uint x = sint x" using uint_sint [of x] by (simp add: take_bit_int_eq_self)
  then show ?thesis using False by (simp add: unat_eq_nat_uint)
qed simp

lemma mlx5_split_one_sided_eq: "mlx5_split_one_sided w g chunk = split_one_sided w g chunk"
proof -
  let ?num = "chunks_float (sg_length g) chunk - 1"
  have full: "e\<lparr>sg_length := l, sg_addr := ad, sg_lkey := lk\<rparr> = \<lparr>sg_addr = ad, sg_length = l, sg_lkey = lk\<rparr>"
    "c\<lparr>wr_id := i, wr_opcode := op, wr_sg_list := gl, wr_flags := fs, wr_raddr := r, wr_rkey := rk, wr_chain := ch\<rparr> =
      \<lparr>wr_id = i, wr_opcode = op, wr_sg_list = gl, wr_flags = fs, wr_raddr = r, wr_rkey = rk, wr_chain = ch\<rparr>" for e l ad lk c i op gl fs r rk ch
    by (cases e; simp) (cases c; simp)
  have "mlx5_one_sided_last w g chunk len (map_option with_sge x) = one_sided_last w g chunk len x"
    if "\<And>c. x = Some c \<Longrightarrow> wr_sg_list c \<noteq> []" for len x
    using that by (cases x) (auto simp: mlx5_one_sided_last_def one_sided_last_def with_sge_def chunk_wr_def full Let_def split: list.split)
  from mlx5_one_sided_loop_eq [where F = "mlx5_one_sided_last w g chunk len" and G = "one_sided_last w g chunk len" and x = None for len, OF this]
  show ?thesis unfolding mlx5_split_one_sided_def split_one_sided_def mlx5_chunks_eq Let_def nat_sint by simp
qed

section \<open>The two drivers\<close>

lemmas mlx5_parts = mlx5_start_block_eq mlx5_whole_eq mlx5_split_wimm_eq mlx5_split_two_sided_eq mlx5_split_one_sided_eq

text \<open>What the lock guards, over the parts of \<open>Shaper\<close>.\<close>

lemma mlx5_post_locked_parts:
  "mlx5_post_locked s =
     (let w = sh_wr s in
      res_bind (first_sge w) (\<lambda>g.
      let chunk = mlx5_chunk_size (sh_sb s) in
      if mlx5_needs_split (sg_length g) (wr_opcode w) chunk then
        if chunk = 0 then Inl Bad_conversion
        else if wr_opcode w = RDMA_WRITE_WITH_IMM then split_wimm w g chunk s
        else if is_two_sided (wr_opcode w) then split_two_sided w g chunk s
        else if wr_opcode w = RDMA_WRITE \<or> wr_opcode w = RDMA_READ then split_one_sided w g chunk s
        else whole_request s
      else whole_request s))"
  by (cases "wr_sg_list (sh_wr s)") (simp_all add: mlx5_post_locked_def first_sge_def Let_def mlx5_parts)

lemma posts_alone_mlx5_locked: "posts_alone mlx5_post_locked"
  unfolding posts_alone_def
proof (intro allI impI)
  fix s c s' assume l: "mlx5_post_locked s = Inr (c, s')" and w: "wr_chain (sh_wr s) = 0"
  let ?Q = "wr_chain (sh_wr s') = 0 \<and> (\<exists>ps. posts (sh_log s') = posts (sh_log s) @ ps \<and> (\<forall>p\<in>set ps. wr_chain (snd p) = 0))"
  have *: "?Q" if "posts_alone m" "m s = Inr (c, s')" for m :: "int sh" using posts_aloneD [OF that w] by blast
  show ?Q
    using l *[OF posts_alone_wimm] *[OF posts_alone_two_sided] *[OF posts_alone_one_sided [OF w]] *[OF posts_alone_whole]
    unfolding mlx5_post_locked_parts Let_def res_bind_eq_Inr by (elim exE conjE) (simp split: if_split_asm)
qed

lemma res_bind_cong: "(\<And>x. m = Inr x \<Longrightarrow> f x = g x) \<Longrightarrow> res_bind m f = res_bind m g"
  by (cases m) simp_all

lemma mlx5_chunk_start:
  assumes "(case sh_sb s of None \<Rightarrow> Inr (s\<lparr>sh_app := (sh_app s)\<lparr>ap_start_flag := False\<rparr>\<rparr>)
        | Some b \<Rightarrow> res_bind (post_send_start ok qs rd (sh_app s) b) (\<lambda>(ms, a, b').
              Inr (s\<lparr>sh_app := a, sh_sb := Some b', sh_msgs := sh_msgs s @ ms\<rparr>))) = Inr s1"
  shows "mlx5_chunk_size (sh_sb s1) = mlx5_chunk_size (sh_sb s)"
proof -
  have "mlx5_chunk_size sb = split_chunk_size sb SEND" for sb by (simp add: mlx5_chunk_size_def split_chunk_size_def split: option.split)
  then show ?thesis using sh_start_chunk(1) [OF assms] by simp
qed

lemma mlx5_post_locked_eq:
  assumes "mlx5_chunk_size (sh_sb s) = split_chunk_size (sh_sb s) (wr_opcode (sh_wr s))"
    and "\<And>g gs. wr_sg_list (sh_wr s) = g # gs \<Longrightarrow> sg_length g < 2048 \<or> 1000000 \<le> sg_length g"
  shows "mlx5_post_locked s = post_locked s"
proof (cases "wr_sg_list (sh_wr s)")
  case (Cons g gs)
  then have "mlx5_needs_split (sg_length g) op chunk = needs_split (sg_length g) op chunk" for op chunk
    using assms(2) [OF Cons] by (auto simp: mlx5_needs_split_def needs_split_def macro_defs word_le_nat_alt word_less_nat_alt)
  then show ?thesis using assms(1) Cons by (simp add: mlx5_post_locked_parts post_locked_def first_sge_def Let_def)
qed (simp add: mlx5_post_locked_parts post_locked_def first_sge_def)

lemma mlx5_post_locked_errors:
  assumes "mlx5_post_locked s = Inr (c, s')"
  shows "c \<noteq> Return 0 \<and> c \<noteq> Out 0"
proof -
  have *: "c \<noteq> Return 0 \<and> c \<noteq> Out 0" if "errors_nonzero m" "m s = Inr (c, s')" for m :: "int sh"
    using that unfolding errors_nonzero_def by blast
  show ?thesis
    using assms *[OF errors_nonzero_wimm] *[OF errors_nonzero_two_sided] *[OF errors_nonzero_one_sided] *[OF errors_nonzero_whole]
    unfolding mlx5_post_locked_parts Let_def res_bind_eq_Inr by (elim exE conjE) (simp split: if_split_asm)
qed

lemma mlx5_post_send_ok:
  assumes "split_mlx5_post_send ok qs s = Inr (0, s')"
  obtains s1 x where "mlx5_post_locked s1 = Inr (Cont x, s')" "sh_wr s1 = sh_wr s" "sh_log s1 = sh_log s"
    "mlx5_chunk_size (sh_sb s1) = mlx5_chunk_size (sh_sb s)"
proof -
  from assms obtain s0 c s2 where s0: "(case sh_sb s of None \<Rightarrow> Inr (s\<lparr>sh_app := (sh_app s)\<lparr>ap_start_flag := False\<rparr>\<rparr>)
        | Some b \<Rightarrow> res_bind (post_send_start ok qs (wr_opcode (sh_wr s) = RDMA_READ) (sh_app s) b) (\<lambda>(ms, a, b').
              Inr (s\<lparr>sh_app := a, sh_sb := Some b', sh_msgs := sh_msgs s @ ms\<rparr>))) = Inr s0"
    and l: "mlx5_post_locked (s0\<lparr>sh_locked := True\<rparr>) = Inr (c, s2)"
    and r: "(case c of Cont r \<Rightarrow> Inr (r, s2) | Return r \<Rightarrow> Inr (r, s2)
          | Out r \<Rightarrow> Inr (r, s2\<lparr>sh_locked := False\<rparr>)) = (Inr (0, s') :: (int \<times> sh_state) res)"
    unfolding split_mlx5_post_send_def mlx5_parts res_bind_eq_Inr by (auto simp: res_bind_eq_Inr)
  have "c = Cont 0 \<and> s2 = s'" using r mlx5_post_locked_errors [OF l] by (cases c) auto
  then show ?thesis using that l sh_start_chunk(2,3) [OF s0] mlx5_chunk_start [OF s0] by simp
qed

section \<open>Properties\<close>

text \<open>
  C31: The two drivers, each translated from its own source, do the same: for every request and every behaviour of the device, the call of \<open>libmlx5\<close> and that of \<open>libmlx4\<close> have the
  same result, the same log of posts, waits and messages, and the same state, if the chunk size for a READ is that for a WRITE or the request is no READ, and its first element
  has not between 2048 and 999999 bytes.
\<close>

theorem drivers_agree:
  assumes "mlx5_chunk_size (sh_sb s) = split_chunk_size (sh_sb s) (wr_opcode (sh_wr s))"
    and "\<And>g gs. wr_sg_list (sh_wr s) = g # gs \<Longrightarrow> sg_length g < 2048 \<or> 1000000 \<le> sg_length g"
  shows "split_mlx5_post_send ok qs s = mlx4_post_send ok qs s"
  unfolding split_mlx5_post_send_def mlx5_parts mlx4_post_send_def
proof (rule res_bind_cong)
  fix s1 assume s1: "(case sh_sb s of None \<Rightarrow> Inr (s\<lparr>sh_app := (sh_app s)\<lparr>ap_start_flag := False\<rparr>\<rparr>)
        | Some b \<Rightarrow> res_bind (post_send_start ok qs (wr_opcode (sh_wr s) = RDMA_READ) (sh_app s) b) (\<lambda>(ms, a, b').
              Inr (s\<lparr>sh_app := a, sh_sb := Some b', sh_msgs := sh_msgs s @ ms\<rparr>))) = Inr s1"
  have "mlx5_post_locked (s1\<lparr>sh_locked := True\<rparr>) = post_locked (s1\<lparr>sh_locked := True\<rparr>)"
    using sh_start_chunk [OF s1] mlx5_chunk_start [OF s1] assms by (intro mlx5_post_locked_eq) simp_all
  then show "res_bind (mlx5_post_locked (s1\<lparr>sh_locked := True\<rparr>)) f = res_bind (post_locked (s1\<lparr>sh_locked := True\<rparr>)) f" for f by simp
qed

theorem drivers_agree_witness:
  "split_mlx5_post_send True 0 (lone_request RDMA_READ 2500000 [0, 0, 0, 0, 1, 0]) = mlx4_post_send True 0 (lone_request RDMA_READ 2500000 [0, 0, 0, 0, 1, 0])"
  by (rule drivers_agree) (auto simp: mlx5_chunk_size_def SPLIT_CHUNK_SIZE_def word_le_nat_alt)

lemma mlx5_tiled:
  assumes "split_mlx5_post_send ok qs s = Inr (0, s')" and "wr_sg_list (sh_wr s) = [g]" and "wr_opcode (sh_wr s) \<noteq> Atomic"
    and "c = mlx5_chunk_size (sh_sb s)" and "2 ^ 8 \<le> unat c" and "unat c \<le> 2 ^ 23" and "unat (sg_length g) < 2 ^ 24"
  shows "\<exists>ps. posts (sh_log s') = posts (sh_log s) @ ps \<and>
    contiguous (wr_raddr (sh_wr s)) (sg_addr g) (segments ps) \<and> bytes_of (segments ps) = unat (sg_length g) \<and>
    length (filter (\<lambda>p. fst p = User_qp) ps) = 1 \<and> sh_wr s' = sh_wr s \<and> \<not> sh_locked s'"
proof -
  obtain s1 x where s1: "mlx5_post_locked s1 = Inr (Cont x, s')" "sh_wr s1 = sh_wr s" "sh_log s1 = sh_log s"
    "mlx5_chunk_size (sh_sb s1) = c" using mlx5_post_send_ok [OF assms(1)] assms(4) by metis
  let ?w = "sh_wr s"
  have c0: "c \<noteq> 0" "0 < c" using assms(5) by (auto simp: word_less_nat_alt)
  have run: "mlx5_post_locked s1 = (if mlx5_needs_split (sg_length g) (wr_opcode ?w) c then
        if wr_opcode ?w = RDMA_WRITE_WITH_IMM then split_wimm ?w g c s1 else if is_two_sided (wr_opcode ?w) then split_two_sided ?w g c s1
        else split_one_sided ?w g c s1 else whole_request s1)"
    using assms(2,3) s1(2,4) c0(1) by (cases "wr_opcode ?w") (simp_all add: mlx5_post_locked_parts first_sge_def Let_def is_two_sided_def)
  have users: "length (filter (\<lambda>p. fst p = User_qp) ps) = length (filter (\<lambda>t. t = User_qp) (map fst ps))" for ps :: "(target \<times> send_wr) list"
    by (simp add: filter_map comp_def)
  consider "mlx5_post_locked s1 = whole_request s1" | "mlx5_post_locked s1 = split_wimm ?w g c s1" "0 < sg_length g"
    | "mlx5_post_locked s1 = split_two_sided ?w g c s1" "0 < sg_length g" | "mlx5_post_locked s1 = split_one_sided ?w g c s1" "c < sg_length g"
    using run c0(2) by (auto simp: mlx5_needs_split_def MLX5_MIN_SPLIT_CHUNK_SIZE_def word_less_nat_alt word_le_nat_alt split: if_splits)
  then show ?thesis
  proof cases
    case 1
    have "posts (sh_log s') = posts (sh_log s) @ [(User_qp, ?w)]" "sh_wr s' = ?w" "\<not> sh_locked s'"
      using s1(1-3) unfolding 1 whole_request_def by (auto simp: sh_bind_ok post_user_wr_def post_def unlock_def sh_return_def next_result_def log_action_def split: list.splits if_splits)
    then show ?thesis using assms(2) by (intro exI [of _ "[(User_qp, ?w)]"]) simp
  next
    case 2
    then show ?thesis using split_wimm_tiled [of ?w g c s1 x s'] s1(1-3) assms(2,5,7) by (fastforce simp: users)
  next
    case 3
    then show ?thesis using split_two_sided_ok [of ?w g c s1 x s'] s1(1-3) assms(2,5,6) by (fastforce simp: users)
  next
    case 4
    then show ?thesis using split_one_sided_ok [of ?w g c s1 x s' 0] s1(1-3) assms(6,7) c0(2) by (fastforce simp: users)
  qed
qed


lemma chunks_4096: "chunks_double 4096 1000000 = 1"
proof -
  obtain k where "chunks_double 4096 1000000 = of_nat (Suc k)" "k * unat (1000000 :: u32) < unat (4096 :: u32)"
    using chunks_double_bounds [of 1000000 4096] by (auto simp: word_less_nat_alt)
  then show ?thesis by (cases k) simp_all
qed

lemma mlx5_started:
  assumes "\<not> ap_start_flag (sh_app s)" "sh_sb s = None"
  shows "split_mlx5_post_send ok qs s = res_bind (mlx5_post_locked (s\<lparr>sh_locked := True\<rparr>)) (\<lambda>(c, s2). case c of Cont r \<Rightarrow> Inr (r, s2)
          | Return r \<Rightarrow> Inr (r, s2) | Out r \<Rightarrow> Inr (r, s2\<lparr>sh_locked := False\<rparr>))"
proof -
  have "s\<lparr>sh_app := (sh_app s)\<lparr>ap_start_flag := False\<rparr>\<rparr> = s" using assms(1) by (cases s; cases "sh_app s") simp
  then show ?thesis using assms(2) by (simp add: split_mlx5_post_send_def)
qed

lemma mlx5_lone_4096:
  "mlx5_post_locked ((lone_request SEND 4096 sc)\<lparr>sh_locked := True\<rparr>) =
     split_two_sided (sh_wr (lone_request SEND 4096 sc)) \<lparr>sg_addr = 65536, sg_length = 4096, sg_lkey = 1\<rparr> 1000000 ((lone_request SEND 4096 sc)\<lparr>sh_locked := True\<rparr>)"
  by (simp add: mlx5_post_locked_parts first_sge_def Let_def mlx5_chunk_size_def SPLIT_CHUNK_SIZE_def mlx5_needs_split_def is_two_sided_def
      MLX5_MIN_SPLIT_CHUNK_SIZE_def word_le_nat_alt)


text \<open>
  Where the drivers differ: a SEND of 4096 bytes that the device takes. With \<open>libmlx4\<close> the call returns; with \<open>libmlx5\<close> it waits until the other side has
  received an INFO message on the hidden queue pair.
\<close>

lemma drivers_differ:
  "\<exists>s'. mlx4_post_send True 0 (lone_request SEND 4096 [0]) = Inr (0, s')"
  "split_mlx5_post_send True 0 (lone_request SEND 4096 [0, 0]) = Inl Diverges"
proof -
  show "\<exists>s'. mlx4_post_send True 0 (lone_request SEND 4096 [0]) = Inr (0, s')"
    by (simp add: post_send_started post_locked_def first_sge_def Let_def needs_split_def word_le_nat_alt word_less_nat_alt MIN_SPLIT_CHUNK_SIZE_def
        whole_request_def sh_bind_def post_user_wr_def post_def next_result_def unlock_def sh_return_def)
  show "split_mlx5_post_send True 0 (lone_request SEND 4096 [0, 0]) = Inl Diverges"
    by (simp add: mlx5_started mlx5_lone_4096 split_two_sided_def chunks_4096 Let_def sh_bind_def two_sided_first_def upd_wr_def post_user_wr_def post_def
        next_result_def two_sided_info_def await_def log_action_def)
qed

end
