(* ===== verification/Mlx5_Size.thy ===== *)
theory Mlx5_Size
  imports Send_Queue
begin

text \<open>
  How \<open>libmlx5\<close> sizes a send queue (\<open>sq_overhead\<close>, \<open>mlx5_calc_send_wqe\<close>, \<open>get_send_sge\<close>, \<open>mlx5_calc_sq_size\<close> of \<open>verbs.c\<close>). The queue is one
  buffer of blocks of 64 bytes; an element takes as many blocks as it needs, at most those of the size computed here.
\<close>

unbundle bit_operations_syntax

section \<open>Sizes\<close>

datatype mlx5_kind = M5_RC | M5_UC | M5_UD | M5_XRC | M5_XRC_SEND | M5_XRC_RECV | M5_DC_INI | M5_RAW_ETH | M5_other

text \<open>The attributes of the queue pair; an optional one is there if its bit of \<open>comp_mask\<close> is set.\<close>

record mlx5_attr =
  a5_kind :: mlx5_kind
  a5_max_send_wr :: u32
  a5_max_send_sge :: u32
  a5_max_inline :: u32
  a5_atomic_arg :: "u32 option"
  a5_inl_klms :: "u32 option"
  a5_tso_header :: "u16 option"
  a5_atomics :: bool
  a5_umr :: bool
  a5_underlay :: bool

record mlx5_limits =
  l5_max_sq_desc :: int
  l5_max_dc_desc :: int
  l5_max_send_wqebb :: int

definition to_int32 :: "int \<Rightarrow> int" where
  "to_int32 x = signed_take_bit 31 x"

definition mlx5_round_up_power_of_two :: "int \<Rightarrow> int" where
  "mlx5_round_up_power_of_two sz = (let ret = int (align_queue_size (nat sz)) in if 0x7fffffff < ret then - ENOMEM else ret)"

definition mw_bind_size :: int where
  "mw_bind_size = 48 + 64 + max 16 64"

definition sq_overhead :: "mlx5_attr \<Rightarrow> int" where
  "sq_overhead a =
     (let size1 = 16 + 48 + 64 + 16;
          pick = (\<lambda>size1 size2. if a5_umr a then max size1 size2 else size2)
      in case a5_kind a of
          M5_RC \<Rightarrow> pick size1 (16 + max 16 mw_bind_size)
        | M5_UC \<Rightarrow> pick 0 (16 + max 16 mw_bind_size)
        | M5_UD \<Rightarrow> pick size1 (16 + 48 + (if a5_underlay a then 32 + 16 else 0))
        | M5_XRC \<Rightarrow> pick 0 (max (16 + mw_bind_size) (16 + 16 + 16))
        | M5_XRC_SEND \<Rightarrow> pick 0 (max (16 + mw_bind_size) (16 + 16 + 16))
        | M5_XRC_RECV \<Rightarrow> pick 0 (max 0 (16 + 16 + 16))
        | M5_DC_INI \<Rightarrow> pick size1 (16 + 48 + 16)
        | M5_RAW_ETH \<Rightarrow> pick 0 (16 + 32)
        | M5_other \<Rightarrow> - EINVAL)"

text \<open>A size in bytes has type \<open>size_t\<close>, so a negative length of the argument is greater than 16 in the maximum below.\<close>

definition sq_inl_atom :: "mlx5_attr \<Rightarrow> int" where
  "sq_inl_atom a =
     (if a5_atomics a \<and> a5_kind a \<in> {M5_RC, M5_XRC, M5_XRC_SEND, M5_XRC_RECV, M5_DC_INI}
      then let atom = (case a5_atomic_arg a of Some n \<Rightarrow> if 4 < n then to_int32 (uint (4 * n)) else 0 | None \<Rightarrow> 0)
           in to_int32 (uint (max 16 (word_of_int atom :: u64)))
      else 0)"

definition align_int :: "int \<Rightarrow> int \<Rightarrow> int" where
  "align_int v a = (v + a - 1) AND NOT (a - 1)"

text \<open>The room for gather elements is computed unsigned, and then compared unsigned with the number that was asked for.\<close>

definition mlx5_calc_send_wqe :: "mlx5_limits \<Rightarrow> mlx5_attr \<Rightarrow> int" where
  "mlx5_calc_send_wqe l a =
     (let ov = sq_overhead a in if ov < 0 then ov else
      let inl_umr = (case a5_inl_klms a of Some n \<Rightarrow> to_int32 (uint (n * 16)) | None \<Rightarrow> 0);
          inl_size = (if a5_max_inline a \<noteq> 0 then to_int32 (align_int (4 + uint (a5_max_inline a)) 16) else 0);
          ov = ov + (case a5_tso_header a of Some n \<Rightarrow> align_int (uint n) 16 | None \<Rightarrow> 0);
          max_gather = ucast ((word_of_int (l5_max_sq_desc l - ov) :: u64) div 16) :: u32
      in if max_gather < a5_max_send_sge a then - EINVAL else
      let t1 = (if sq_inl_atom a \<noteq> 0 then to_int32 (ov + 16 + sq_inl_atom a) else 0);
          t2 = to_int32 (ov + uint (a5_max_send_sge a) * 16);
          tot_size = max (max (max t1 t2) (ov + inl_umr)) (ov + inl_size)
      in if l5_max_sq_desc l < tot_size then - EINVAL else align_int tot_size 64)"

text \<open>The number of gather elements of 16 bytes in some room, divided as \<open>size_t\<close>.\<close>

definition sges_in :: "int \<Rightarrow> u64" where
  "sges_in room = word_of_int room div 16"

definition get_send_sge :: "mlx5_attr \<Rightarrow> int \<Rightarrow> int" where
  "get_send_sge a wqe_size =
     (let ov = sq_overhead a;
          max_sge = to_int32 (uint (case a5_kind a of
              M5_RC \<Rightarrow> sges_in (min wqe_size 512 - 16 - 16)
            | M5_DC_INI \<Rightarrow> sges_in (min wqe_size 512 - 16 - 48 - 16)
            | M5_XRC \<Rightarrow> sges_in (min wqe_size 512 - 16 - 16 - 16)
            | _ \<Rightarrow> sges_in (wqe_size - ov)))
      in to_int32 (uint (min (word_of_int max_sge) (sges_in (wqe_size - ov)))))"

text \<open>What creation leaves in the queue pair.\<close>

record mlx5_sizes =
  z5_max_inline :: u32
  z5_wqe_cnt :: int
  z5_max_gs :: int
  z5_max_post :: int

definition mlx5_calc_sq_size :: "mlx5_limits \<Rightarrow> mlx5_attr \<Rightarrow> int \<times> mlx5_sizes option" where
  "mlx5_calc_sq_size l a =
     (if a5_max_send_wr a = 0 then (0, None) else
      let wqe_size = mlx5_calc_send_wqe l a in
      if wqe_size < 0 then (wqe_size, None)
      else if a5_kind a = M5_DC_INI \<and> l5_max_dc_desc l < wqe_size then (- EINVAL, None)
      else if l5_max_sq_desc l < wqe_size then (- EINVAL, None)
      else if 0x7fffffff div l5_max_sq_desc l < uint (a5_max_send_wr a) then (- ENOMEM, None)
      else let wq_size = mlx5_round_up_power_of_two (uint (a5_max_send_wr a) * wqe_size); cnt = sgn wq_size * (\<bar>wq_size\<bar> div 64) in
      if l5_max_send_wqebb l < cnt then (- ENOMEM, None)
      else let gs = get_send_sge a wqe_size in
      if (word_of_int gs :: u32) < a5_max_send_sge a then (- ENOMEM, None)
      else (wq_size, Some \<lparr>z5_max_inline = word_of_int (wqe_size - sq_overhead a - 4), z5_wqe_cnt = cnt, z5_max_gs = gs,
              z5_max_post = sgn wq_size * (\<bar>wq_size\<bar> div wqe_size)\<rparr>))"

section \<open>Sizes that come out\<close>

lemma align_int_eq: "align_int v (2 ^ n) = (v + 2 ^ n - 1) div 2 ^ n * 2 ^ n"
proof -
  have "x AND NOT (2 ^ n - 1) = push_bit n (drop_bit n x)" for x :: int
    unfolding mask_eq_exp_minus_1 [symmetric] by (rule bit_eqI) (auto simp: bit_simps)
  then show ?thesis unfolding align_int_def by (simp add: push_bit_eq_mult drop_bit_eq_div)
qed

lemma align_int_64: "v \<le> align_int v 64 \<and> align_int v 64 < v + 64 \<and> 64 dvd align_int v 64"
proof -
  have "align_int v 64 = (v + 63) div 64 * 64" using align_int_eq [of v 6] by (simp add: algebra_simps)
  then show ?thesis by presburger
qed

lemma align_int_16: "v \<le> align_int v 16 \<and> align_int v 16 < v + 16"
proof -
  have "align_int v 16 = (v + 15) div 16 * 16" using align_int_eq [of v 4] by (simp add: algebra_simps)
  then show ?thesis by presburger
qed

lemma to_int32_small: "- 2147483648 \<le> x \<Longrightarrow> x < 2147483648 \<Longrightarrow> to_int32 x = x"
  unfolding to_int32_def by (simp add: signed_take_bit_int_eq_self)

lemma to_int32_uint: "uint (x :: u64) \<le> 65536 \<Longrightarrow> to_int32 (uint x) = uint x"
  using uint_nonnegative [of x] by (intro to_int32_small) linarith+

lemma sq_overhead_bounds: "0 \<le> sq_overhead a \<Longrightarrow> 32 \<le> sq_overhead a \<and> sq_overhead a \<le> 192"
  by (cases "a5_kind a") (simp_all add: sq_overhead_def mw_bind_size_def Let_def EINVAL_def split: if_splits)

text \<open>The size of an element has room for what was asked.\<close>

lemma send_wqe_room:
  assumes "0 \<le> mlx5_calc_send_wqe l a" and "512 \<le> l5_max_sq_desc l" and "l5_max_sq_desc l \<le> 2 ^ 16" and "a5_tso_header a = None"
    and "uint (a5_max_inline a) < 2 ^ 31 - 20"
  shows "32 \<le> sq_overhead a" "sq_overhead a \<le> 192" "64 dvd mlx5_calc_send_wqe l a" "sq_overhead a \<le> mlx5_calc_send_wqe l a"
    "sq_overhead a + 16 * uint (a5_max_send_sge a) \<le> mlx5_calc_send_wqe l a"
    "a5_max_inline a \<noteq> 0 \<Longrightarrow> sq_overhead a + 4 + uint (a5_max_inline a) \<le> mlx5_calc_send_wqe l a"
proof -
  let ?ov = "sq_overhead a" and ?W = "mlx5_calc_send_wqe l a" and ?sge = "a5_max_send_sge a" and ?D = "l5_max_sq_desc l"
  have ov: "0 \<le> ?ov" using assms(1) by (rule_tac ccontr) (simp add: mlx5_calc_send_wqe_def)
  show b: "32 \<le> ?ov" "?ov \<le> 192" using sq_overhead_bounds [OF ov] by simp_all
  define g :: u32 where "g = ucast ((word_of_int (?D - ?ov) :: u64) div 16)"
  have "uint (word_of_int (?D - ?ov) :: u64) = ?D - ?ov"
    using b assms(2,3) by (simp only: uint_word_of_int take_bit_eq_mod) simp
  then have g: "uint g = (?D - ?ov) div 16"
    using b assms(2,3) by (simp only: g_def uint_div unsigned_ucast_eq take_bit_eq_mod uint_numeral) simp
  define u where "u = (case a5_inl_klms a of Some n \<Rightarrow> to_int32 (uint (n * 16)) | None \<Rightarrow> 0)"
  define i where "i = (if a5_max_inline a \<noteq> 0 then to_int32 (align_int (4 + uint (a5_max_inline a)) 16) else 0)"
  define t where "t = (if sq_inl_atom a \<noteq> 0 then to_int32 (?ov + 16 + sq_inl_atom a) else 0)"
  define tot where "tot = max (max (max t (to_int32 (?ov + uint ?sge * 16))) (?ov + u)) (?ov + i)"
  have W: "?W = (if g < ?sge then - EINVAL else if ?D < tot then - EINVAL else align_int tot 64)"
    using ov assms(4) by (simp add: mlx5_calc_send_wqe_def Let_def g_def u_def i_def t_def tot_def)
  have ok: "uint ?sge \<le> uint g" "?W = align_int tot 64"
    using assms(1) W by (auto simp: EINVAL_def word_less_def split: if_splits)
  have "uint ?sge * 16 \<le> ?D - ?ov" using ok(1) unfolding g by presburger
  moreover have "?D \<le> 65536" using assms(3) by simp
  ultimately have "to_int32 (?ov + uint ?sge * 16) = ?ov + uint ?sge * 16"
    using b uint_nonnegative [of ?sge] by (intro to_int32_small) linarith+
  then have "?ov + uint ?sge * 16 \<le> tot" by (simp add: tot_def)
  then show s: "?ov + 16 * uint ?sge \<le> ?W" using align_int_64 [of tot] ok(2) by simp
  show "?ov \<le> ?W" using s uint_nonnegative [of ?sge] by linarith
  show "64 dvd ?W" using ok(2) align_int_64 by simp
  show "?ov + 4 + uint (a5_max_inline a) \<le> ?W" if "a5_max_inline a \<noteq> 0"
  proof -
    let ?x = "align_int (4 + uint (a5_max_inline a)) 16"
    have "uint (a5_max_inline a) < 2147483628" using assms(5) by simp
    then have "0 \<le> ?x" "?x < 2147483648"
      using align_int_16 [of "4 + uint (a5_max_inline a)"] uint_nonnegative [of "a5_max_inline a"] by linarith+
    then have "i = ?x" using that unfolding i_def by (simp add: to_int32_small)
    then show ?thesis using align_int_16 [of "4 + uint (a5_max_inline a)"] align_int_64 [of tot] ok(2) unfolding tot_def by linarith
  qed
qed

lemma mlx5_round_up_ok:
  assumes "mlx5_round_up_power_of_two sz = r" and "0 < r"
  shows "sz \<le> r" "\<exists>k. r = 2 ^ k"
proof -
  have r: "r = int (align_queue_size (nat sz))" using assms by (simp add: mlx5_round_up_power_of_two_def Let_def ENOMEM_def split: if_splits)
  show "sz \<le> r" using r align_queue_size_ok(1) [of "nat sz"] by linarith
  show "\<exists>k. r = 2 ^ k" using r align_queue_size_ok(2) [of "nat sz"] by (auto intro!: exI)
qed

lemma power_multiple:
  assumes "(2 :: int) ^ k = r" and "64 \<le> r"
  shows "r = 64 * 2 ^ (k - 6)"
proof -
  have "6 \<le> k" using assms by (rule_tac ccontr) (auto simp: not_le numeral_eq_Suc less_Suc_eq)
  then have "(2 :: int) ^ k = 2 ^ 6 * 2 ^ (k - 6)" by (simp only: power_add [symmetric] le_add_diff_inverse)
  then show ?thesis using assms(1) by simp
qed

lemma sges_in_eq: "0 \<le> room \<Longrightarrow> room \<le> 65536 \<Longrightarrow> uint (sges_in room) = room div 16"
proof -
  assume "0 \<le> room" "room \<le> 65536"
  then have "uint (word_of_int room :: u64) = room" by (simp only: uint_word_of_int take_bit_eq_mod) simp
  then show ?thesis by (simp only: sges_in_def uint_div uint_numeral) simp
qed

lemma sges_in_le: "0 \<le> room \<Longrightarrow> room \<le> 65536 \<Longrightarrow> uint (sges_in room) \<le> 4096"
  by (simp add: sges_in_eq)

lemma send_sge_eq:
  assumes "32 \<le> sq_overhead a" and "sq_overhead a \<le> w" and "64 dvd w" and "w \<le> 65536"
  shows "0 \<le> get_send_sge a w" "sq_overhead a + 16 * get_send_sge a w \<le> w"
proof -
  let ?s = "case a5_kind a of M5_RC \<Rightarrow> sges_in (min w 512 - 16 - 16) | M5_DC_INI \<Rightarrow> sges_in (min w 512 - 16 - 48 - 16)
    | M5_XRC \<Rightarrow> sges_in (min w 512 - 16 - 16 - 16) | _ \<Rightarrow> sges_in (w - sq_overhead a)"
  have w: "64 \<le> w" using assms(1-3) by presburger
  have "a5_kind a = M5_DC_INI \<Longrightarrow> 80 \<le> w" using assms(1,2) by (auto simp: sq_overhead_def Let_def split: if_splits)
  then have sb: "uint ?s \<le> 4096" using w assms(1,2,4) by (cases "a5_kind a") (simp_all add: sges_in_le)
  have s: "word_of_int (to_int32 (uint ?s)) = ?s" using sb by (simp add: to_int32_uint)
  have r: "uint (sges_in (w - sq_overhead a)) = (w - sq_overhead a) div 16" using assms by (simp add: sges_in_eq)
  define m where "m = min ?s (sges_in (w - sq_overhead a))"
  have "uint m \<le> uint ?s" "uint m \<le> (w - sq_overhead a) div 16" unfolding r [symmetric] m_def by (auto simp: min_def word_le_def)
  moreover from this have "get_send_sge a w = uint m" using sb unfolding get_send_sge_def Let_def s m_def [symmetric] by (intro to_int32_uint) linarith
  ultimately show "0 \<le> get_send_sge a w" "sq_overhead a + 16 * get_send_sge a w \<le> w" by (simp, presburger)
qed

text \<open>The request that \<open>mlx5_queue_sized\<close> is tried on: 100 elements, 4 gather elements, 128 bytes in line.\<close>

definition sample_limits :: mlx5_limits where
  "sample_limits = \<lparr>l5_max_sq_desc = 1024, l5_max_dc_desc = 1024, l5_max_send_wqebb = 16384\<rparr>"

definition sample_attr :: mlx5_attr where
  "sample_attr = \<lparr>a5_kind = M5_RC, a5_max_send_wr = 100, a5_max_send_sge = 4, a5_max_inline = 128, a5_atomic_arg = None, a5_inl_klms = None,
     a5_tso_header = None, a5_atomics = False, a5_umr = False, a5_underlay = False\<rparr>"

text \<open>
  C32: Where a send queue of any kind is created, on a device whose descriptors may have 512 to 65536 bytes, without a TSO header and with fewer than
  2^31 - 20 bytes of data in line asked for, its buffer is a power of two of blocks; it holds as many requests as were asked for (and as are reported), each with the
  room for the gather elements that are reported, which are no fewer than asked for. If any data in line were asked for, no less is reported and
  each request has the room for it; if none were, the number reported is not covered: it can wrap to nearly 2^32, and with a TSO header there can be less
  room than asked for.
\<close>

theorem mlx5_queue_sized:
  assumes "mlx5_calc_sq_size l a = (r, z)" and "0 < r" and "512 \<le> l5_max_sq_desc l" and "l5_max_sq_desc l \<le> 2 ^ 16" and "a5_tso_header a = None"
    and "uint (a5_max_inline a) < 2 ^ 31 - 20"
  shows "\<exists>s k w. z = Some s \<and> z5_wqe_cnt s = 2 ^ k \<and> r = 64 * z5_wqe_cnt s \<and> 64 dvd w \<and> z5_max_post s * w \<le> r \<and>
    uint (a5_max_send_wr a) \<le> z5_max_post s \<and> uint (a5_max_send_sge a) \<le> z5_max_gs s \<and> sq_overhead a + 16 * z5_max_gs s \<le> w \<and>
    (a5_max_inline a \<noteq> 0 \<longrightarrow> a5_max_inline a \<le> z5_max_inline s \<and> sq_overhead a + 4 + uint (z5_max_inline s) \<le> w)"
proof -
  let ?W = "mlx5_calc_send_wqe l a" and ?gs = "get_send_sge a (mlx5_calc_send_wqe l a)" and ?n = "uint (a5_max_send_wr a)"
  have W: "0 \<le> ?W" and "?W \<le> l5_max_sq_desc l" and r: "mlx5_round_up_power_of_two (?n * ?W) = r"
    and gs: "\<not> (word_of_int ?gs :: u32) < a5_max_send_sge a" and n: "a5_max_send_wr a \<noteq> 0"
    and z: "z = Some \<lparr>z5_max_inline = word_of_int (?W - sq_overhead a - 4), z5_wqe_cnt = r div 64, z5_max_gs = ?gs, z5_max_post = r div ?W\<rparr>"
    using assms(1,2) by (auto simp: mlx5_calc_sq_size_def Let_def EINVAL_def ENOMEM_def split: if_splits)
  note room = send_wqe_room [OF W assms(3-6)]
  have W64: "64 \<le> ?W" using room(1,3,4) by presburger
  have n1: "1 \<le> ?n" using n uint_nonnegative [of "a5_max_send_wr a"] by (cases "?n = 0") (simp add: uint_0_iff, linarith)
  obtain k where k: "r = 2 ^ k" and le: "?n * ?W \<le> r" using mlx5_round_up_ok [OF r assms(2)] by blast
  have "1 * 64 \<le> ?n * ?W" using n1 W64 by (intro mult_mono) simp_all
  then have r64: "r = 64 * 2 ^ (k - 6)" using power_multiple [OF k [symmetric]] le by simp
  have wb: "?W \<le> 65536" using \<open>?W \<le> l5_max_sq_desc l\<close> assms(4) by simp
  have gsb: "0 \<le> ?gs" "sq_overhead a + 16 * ?gs \<le> ?W" using send_sge_eq [OF room(1,4,3) wb] by simp_all
  then have "?gs < 2 ^ 32" using room(1) wb by simp
  then have "uint (a5_max_send_sge a) \<le> ?gs" using gs gsb(1) by (simp add: word_less_def uint_word_of_int take_bit_eq_mod)
  moreover have "a5_max_inline a \<noteq> 0 \<longrightarrow> uint (word_of_int (?W - sq_overhead a - 4) :: u32) = ?W - sq_overhead a - 4"
  proof
    assume "a5_max_inline a \<noteq> 0"
    then have "0 \<le> ?W - sq_overhead a - 4" "?W - sq_overhead a - 4 < 4294967296"
      using room(1,6) wb uint_nonnegative [of "a5_max_inline a"] by linarith+
    then show "uint (word_of_int (?W - sq_overhead a - 4) :: u32) = ?W - sq_overhead a - 4"
      by (simp only: uint_word_of_int take_bit_eq_mod) simp
  qed
  moreover have "?n \<le> r div ?W" using le W64 by (simp add: zdiv_mono1 [THEN order_trans[rotated]] pos_imp_zdiv_pos_iff less_eq_div_iff_mult_less_eq)
  moreover have "r div ?W * ?W \<le> r" using W64 by (simp add: mult.commute minus_mod_eq_mult_div [symmetric])
  ultimately show ?thesis using r64 gsb room(3,6) z
    by (intro exI [of _ "k - 6"] exI [of _ ?W] exI conjI) (auto simp: word_le_def)
qed

theorem mlx5_queue_sized_witness:
  "\<exists>z. mlx5_calc_sq_size sample_limits sample_attr = (65536, Some z) \<and> 100 \<le> z5_max_post z \<and> 4 \<le> z5_max_gs z"
proof -
  have ov: "sq_overhead sample_attr = 192" by (simp add: sq_overhead_def mw_bind_size_def sample_attr_def)
  have W: "mlx5_calc_send_wqe sample_limits sample_attr = 384"
    using ov by (simp add: mlx5_calc_send_wqe_def sq_inl_atom_def to_int32_def align_int_def sample_attr_def sample_limits_def)
  have "align_queue_size 38400 = 65536" by (simp add: align_queue_size_def align_queue_from.simps)
  then obtain z where z: "mlx5_calc_sq_size sample_limits sample_attr = (65536, Some z)" using ov W
    by (simp add: mlx5_calc_sq_size_def mlx5_round_up_power_of_two_def get_send_sge_def sges_in_def to_int32_def sample_attr_def sample_limits_def)
  then show ?thesis using mlx5_queue_sized [OF z] by (auto simp: sample_limits_def sample_attr_def)
qed

end
