(* ===== verification/Spec2Isabelle.thy ===== *)
theory Spec2Isabelle
  imports
    Prelude Ring_Queue C_Float C_Text
    Pacer_State Slots Tokens
    Mon_Messages Server Monitor Mon_Chan
    Flow_Handler App_Client
    Shaper Shaper_Proofs Shaper_Two_Sided Shaper_Calls
    Prng Count_Min
    Verbs_Data Wqe Send_Queue Send_Queue_Proofs Recv_Queue Id_Table
    Shared_Recv Completion Completion_Proofs Completion_Clean
    Split_Receive Split_Receive_Proofs Split_Delivery Split_Example Split_Message
    Qp_Create Qp_Life Qp_Connect Qp_Start
    Allocator Db_Alloc Bitmap Huge_Alloc Buffers Cq_Resize
    Mlx5_Shaper Mlx5_Size
begin

text \<open>
  A model of Justitia, the software layer that isolates the applications of a node which share an RDMA network
  card, with the theorems that say what it does. All definitions are translated from the C sources under \<open>src/\<close>.

  \<^bold>\<open>The program.\<close> On every node runs a daemon, the pacer (\<open>rdma_pacer/\<close>); the applications run on a modified driver
  (\<open>libmlx4/\<close>). An application joins the daemon over a local socket and gets a slot in a shared-memory block. When it
  posts a request longer than a chunk, the driver splits it into chunks, posts them on a hidden queue pair, and the
  last (or first) one on the application's own. Before each chunk of a large flow a token is needed, which the
  daemon's token generator grants round robin, at the rate of the virtual link capacity. The daemon of a sender sets that
  capacity: every 200 us it measures the latency of a small reference WRITE to each receiver, halves the capacity when the
  latency is above the target, raises it by one otherwise, and never goes below the fair share of the large flows. For
  that it needs the number of applications at the receiver, which the receiver's daemon counts from the senders'
  announcements and broadcasts.

  \<^bold>\<open>Theories and sources.\<close>

  \<^item> \<open>Prelude\<close>: word types, faults as values (\<open>exit\<close>, \<open>longjmp\<close>, an index outside its array, a null pointer, a read of an
    unassigned variable, a loop that never ends), sequencing, array access, lemmas on lists and modular indices.
  \<^item> \<open>C_Float\<close>: \<open>float\<close> and \<open>double\<close> as rationals with rounding after every operation.
    \<open>C_Text\<close>: \<open>sprintf\<close>, \<open>sscanf\<close>, \<open>strtol\<close>, \<open>strcmp\<close>, with their round trips.
  \<^item> \<open>Pacer_State\<close>: \<open>rdma_pacer/pacer.h\<close>, \<open>main\<close>: shared block, control block, macros, initial values.
  \<^item> \<open>Ring_Queue\<close>: \<open>rdma_pacer/queue.c\<close> and the circular buffer of \<open>pacer.c\<close>, both interpretations of the locale
    \<open>bounded_fifo\<close>.
  \<^item> \<open>Slots\<close>: \<open>find_next_slot\<close>, \<open>find_vaddr_idx\<close>; interpretation of the locale \<open>registry\<close>.
  \<^item> \<open>Tokens\<close>: \<open>generate_fetch_tokens\<close> as a machine with one step per iteration of its loops, in a step relation
    with the other threads and the applications (which request, exit and mark their flows for READ); the pair of READ threads.
  \<^item> \<open>Mon_Messages\<close>, \<open>Server\<close>, \<open>Monitor\<close>: the messages between daemons, \<open>server_loop\<close> and \<open>monitor_latency\<close> of
    \<open>rdma_pacer/monitor.c\<close>. \<open>Mon_Chan\<close>: \<open>pingpong.c\<close>, \<open>pingpong_utils.c\<close>.
  \<^item> \<open>Flow_Handler\<close>: \<open>flow_handler\<close> of \<open>pacer.c\<close>. \<open>App_Client\<close>: \<open>libmlx4/src/pacer.c\<close>, \<open>qp_pacer.h\<close>, and the
    composition of driver, daemon and receiver.
  \<^item> \<open>Shaper\<close>: \<open>mlx4_post_send\<close> of \<open>libmlx4/src/qp.c\<close>. \<open>Shaper_Proofs\<close> counts chunks and follows the one-sided path,
    \<open>Shaper_Two_Sided\<close> the other two, \<open>Shaper_Calls\<close> has the properties of whole calls.
  \<^item> \<open>Prng\<close>: \<open>rdma_pacer/prng.c\<close>. \<open>Count_Min\<close>: \<open>rdma_pacer/countmin.c\<close>, on \<open>Prng\<close> and \<open>Ring_Queue\<close>.

  \<^item> \<open>Verbs_Data\<close>: byte orders and the data of the verbs interface. \<open>Wqe\<close>: the elements of the send queue and their sizes (\<open>qp.c\<close>,
    \<open>verbs_exp.c\<close>). \<open>Send_Queue\<close>: \<open>__mlx4_post_send\<close>, doorbells, BlueFlame, initialisation; \<open>Send_Queue_Proofs\<close>. \<open>Recv_Queue\<close>:
    \<open>mlx4_post_recv\<close> and the buffer of requests that are posted again. \<open>Id_Table\<close>: the tables of queue pair numbers, interpretation of
    the locale \<open>id_map\<close>. \<open>Shared_Recv\<close>: \<open>srq.c\<close>.
  \<^item> \<open>Completion\<close>: \<open>libmlx4/src/cq.c\<close> without its function \<open>mlx4_poll_cq\<close>. \<open>Completion_Proofs\<close> relates the ring to the list of entries
    that wait and composes posting with polling; \<open>Completion_Clean\<close> is about removing the entries of a queue pair.
  \<^item> \<open>Split_Receive\<close>: \<open>mlx4_poll_cq\<close>, the receiving side of a split message, on the queues of the theories above.
    \<open>Split_Receive_Proofs\<close> has the single phases, \<open>Split_Delivery\<close> the whole call, \<open>Split_Example\<close> a concrete receiver, and
    \<open>Split_Message\<close> the composition of the sender's call with the receiver's.
  \<^item> \<open>Qp_Create\<close>: \<open>mlx4_exp_create_qp\<close> of \<open>verbs_exp.c\<close> and \<open>create_cq\<close> of \<open>verbs.c\<close>, with the resources they hold. \<open>Qp_Life\<close>:
    \<open>mlx4_create_qp\<close>, \<open>mlx4_modify_qp\<close> and \<open>mlx4_destroy_qp\<close> of \<open>verbs.c\<close>, which give every queue pair two hidden ones, and \<open>ibv_cmd_modify_qp\<close>
    of \<open>libibverbs\<close>. \<open>Qp_Connect\<close> is about connecting, \<open>Qp_Start\<close> about what creation leaves behind.
  \<^item> \<open>Allocator\<close>: what an allocator promises, a locale, interpreted in three theories: \<open>Db_Alloc\<close>, the doorbell records of \<open>dbrec.c\<close>; \<open>Huge_Alloc\<close>, the buffers
    on huge pages of \<open>buf.c\<close>, with the bitmaps of \<open>bitmap.h\<close> in \<open>Bitmap\<close>; \<open>Buffers\<close>, the rest of \<open>buf.c\<close>: contiguous and ordinary pages, and the choice between them.
    \<open>Cq_Resize\<close>: \<open>mlx4_resize_cq\<close> and \<open>mlx4_destroy_cq\<close> of \<open>verbs.c\<close>, which join the entries of a completion queue with their buffer.
  \<^item> \<open>Mlx5_Shaper\<close>: \<open>split_mlx5_post_send\<close> of \<open>libmlx5-41mlnx1/src/qp.c\<close>, translated from there, on the types of \<open>Shaper\<close>; its parts are proved equal to those of \<open>Shaper\<close>, one by one.
    \<open>Mlx5_Size\<close>: \<open>mlx5_calc_sq_size\<close> of its \<open>verbs.c\<close> and what it calls, from the request to the sizes of a send queue.

  \<^bold>\<open>What is shown.\<close> \<open>Split_Message\<close>: a message split by SEND is received as one completion with its length, each part at its offset.
  \<open>Qp_Start\<close>, \<open>Qp_Connect\<close>: a new queue pair and its hidden ones have empty queues and can be connected; connecting two queue pairs connects
  their hidden ones to each other and leaves both ends in the state from which the messages are delivered. \<open>Qp_Create\<close>: a creation that fails has
  released what it had acquired. \<open>Db_Alloc\<close>, \<open>Buffers\<close>: doorbell records in use never
  share a byte, nor do buffers; which blocks of contiguous pages are taken. \<open>Cq_Resize\<close>: resizing a completion queue
  keeps the completions and frees the old ring. \<open>Huge_Alloc\<close> also has a run in which buffers do overlap, on a segment
  whose number of chunks is not a power of two.
  \<open>Tokens\<close>: the generator is a rate limiter in bytes per cycle, serves waiting flows in bounded turns, always
  finds the waiting flow, and holds zero or one token. \<open>Shaper_Calls\<close>: a call that returns 0 has put exactly the
  message on the wire, chunk by chunk, and restored the request (of one element, below 16 MiB where single precision counts the chunks, and, unless it is
  one-sided, with nothing linked behind it); a call to a device that accepts everything returns; what
  errors leave behind; where the single-precision chunk count loses a chunk. \<open>Monitor\<close>: the capacity never exceeds
  the line rate, converges to the fair share under contention and recovers when the target is met. \<open>Server\<close> and \<open>App_Client\<close>: announcements
  reach the receiver, and its counters and messages are the numbers of running applications; which sequences of
  applications break that. \<open>Slots\<close>, \<open>Ring_Queue\<close>: refinement of a registry and of bounded lists. \<open>Mon_Chan\<close>: round trip
  of addresses, agreement of both ends. \<open>Count_Min\<close>: the counters are those of the window, estimates are upper
  bounds. \<open>Prng\<close>: the generator computes its documented recurrence. \<open>Wqe\<close>: what an accepted request looks like to the device, and
  that the slots are large enough for it. \<open>Send_Queue_Proofs\<close>, \<open>Recv_Queue\<close>, \<open>Shared_Recv\<close>: posting accepts exactly as many requests as
  there is room for, up to the first that is malformed, in order, and leaves the outstanding ones alone; batches are paid for; a receive request that was
  remembered can be posted again. \<open>Id_Table\<close>: the tables are maps. \<open>Completion_Proofs\<close>, \<open>Completion_Clean\<close>: posted requests complete with their ids, and
  cleaning takes out exactly the entries of one queue pair, except for the receives of an XRC queue. \<open>Mlx5_Shaper\<close>: both drivers post the
  same, except for READs where their two chunk sizes differ and for first elements of 2048 to 999999 bytes, and a call of \<open>libmlx5\<close> that returns 0 has put exactly the message on the wire.
  \<open>Mlx5_Size\<close>: its send queues hold the number and the size of requests that were asked for and are reported.

  \<^bold>\<open>Conventions.\<close> A fallible function has type \<open>fault + 'a\<close>; undefined behaviour of C is a fault at the access that has it, so
  a theorem that a result is \<open>Inr\<close> is also a memory-safety theorem. A signed result outside \<open>int\<close> is a fault where it can occur from
  sensible arguments (\<open>CMH_Init\<close>). Results of system and verbs calls are arguments of the
  definitions (scripts, environments). Loops recurse over arrays and scripts, and a loop that can wait
  for ever yields \<open>Diverges\<close>. Some loops over the entries of a ring have a bound: \<open>find_producer\<close> takes at most as many steps as the ring has
  entries and then has its result; \<open>sweep\<close>, \<open>count_cqes\<close> and \<open>resize_loop\<close> yield \<open>Diverges\<close> after one step more than that, which
  no well-formed ring reaches, as the theorems show by a result \<open>Inr\<close>. \<open>recv_loop\<close> and \<open>rr_post\<close> take the number of requests they look at
  as an argument; the theorems ask for at least the length of the list. The device is the list of what it writes and rings: a log of
  doorbells for the send queue, a list of writes per poll in \<open>Split_Receive\<close>. The kernel is a
  list of results in \<open>Qp_Create\<close> and \<open>Qp_Life\<close>, with lists of what it grants; \<open>willing k\<close> says that the next \<open>k\<close> results are successes. Floating-point overflow does not occur for the values modelled and is left out.

  \<^bold>\<open>Not modelled.\<close> Of \<open>libmlx4\<close>, device discovery, memory regions, address handles and domains, the experimental verbs and
  attributes, and the branch of \<open>mlx4_modify_qp\<close> for \<open>MANUAL_SPLIT_QPN_DIFF = 0\<close>, which is compiled out by its constant; of \<open>libmlx5\<close>, the elements that
  \<open>__mlx5_post_send\<close> writes, completions, creation of queue pairs and the experimental verbs (its \<open>pacer.c\<close> is a copy of that of \<open>libmlx4\<close>); \<open>libibverbs\<close>, \<open>perftest\<close> and the benchmarks, which are vendor code or programs that run on top. Of the modelled
  files: socket set-up and paths, threads and affinity, \<open>logging_tokens\<close> (file output), the variants \<open>CPU_FRIENDLY\<close>,
  \<open>USE_TIMEFRAME\<close>, \<open>EVENT_POLL\<close>, \<open>USE_CMH\<close> that the shipped configuration compiles out, and the non-uniform distributions of
  \<open>prng.c\<close>. Memory orderings of the atomic accesses are taken as sequentially consistent.
\<close>

end
